(* ===== verification/Prelude.thy ===== *)
theory Prelude
  imports Main "HOL-Library.Word" "HOL-Library.Monad_Syntax" "HOL-Library.Multiset"
begin

text \<open>
  Shared vocabulary of the development: the C types of
  \<^verbatim>\<open>include/kernel/types.h\<close> and \<^verbatim>\<open>arch/types.h\<close>, the error codes of
  \<^verbatim>\<open>include/lib/errcode.h\<close>, the execution type in which every kernel operation is
  written, and the generic lemmas on options, lists and words that the component theories use.

  An operation that may stop the kernel has type \<open>'a exec\<close>, an option: \<open>Some\<close> is a
  normal return, \<open>None\<close> is a run that never returns to its caller (a failed \<open>kassert\<close>,
  a call of \<open>panic\<close>, which loops forever, a dereference of \<open>NULL\<close>, or a loop
  that does not end).  Sequencing is the \<open>do\<close> notation of the option monad.
\<close>

unbundle bit_operations_syntax

section \<open>C types\<close>

type_synonym u8 = "8 word"
type_synonym u16 = "16 word"
type_synonym u32 = "32 word"
type_synonym u64 = "64 word"
type_synonym vaddr_t = u64
type_synonym paddr_t = u64
type_synonym offset_t = u64
type_synonym state_t = u32
type_synonym tid_t = u32
type_synonym err_t = int
type_synonym ptr = nat
type_synonym 'a exec = "'a option"

abbreviation (input) NULL :: ptr where "NULL \<equiv> 0"

section \<open>Error codes\<close>

abbreviation (input) ERR_OK :: err_t where "ERR_OK \<equiv> 0"
abbreviation (input) ERR_NOMEM :: err_t where "ERR_NOMEM \<equiv> -1"
abbreviation (input) ERR_NORES :: err_t where "ERR_NORES \<equiv> -2"
abbreviation (input) ERR_EXIST :: err_t where "ERR_EXIST \<equiv> -4"
abbreviation (input) ERR_NOTEXIST :: err_t where "ERR_NOTEXIST \<equiv> -5"
abbreviation (input) ERR_END :: err_t where "ERR_END \<equiv> -10"
abbreviation (input) ERR_FAULT :: err_t where "ERR_FAULT \<equiv> -12"
abbreviation (input) ERR_INVAL :: err_t where "ERR_INVAL \<equiv> -13"

section \<open>Execution\<close>

definition kassert :: "bool \<Rightarrow> unit exec" where
  "kassert b = (if b then Some () else None)"

named_theorems exec_simps \<open>equations that run an operation on a state of a known shape\<close>
named_theorems inv_intros \<open>preservation of component invariants\<close>

lemma kassert_True [simp]: "kassert True = Some ()"
  by (simp add: kassert_def)

lemma kassert_False [simp]: "kassert False = None"
  by (simp add: kassert_def)

lemma kassert_bind [simp]: "Option.bind (kassert b) f = (if b then f () else None)"
  by (simp add: kassert_def)

lemma bind_if_None [simp]:
  "Option.bind (if b then x else None) f = (if b then Option.bind x f else None)"
  by simp

lemma if_None_eq_Some [simp]: "((if b then x else None) = Some y) = (b \<and> x = Some y)"
  by simp

lemma bind_Some_conv:
  "(Option.bind x f = Some y) = (\<exists>a. x = Some a \<and> f a = Some y)"
  by (cases x) auto

section \<open>Words\<close>

lemma sint_inj_iff [simp]: "sint a = sint b \<longleftrightarrow> a = (b :: 'a::len word)"
  by (simp add: word_eq_iff_signed [where 'a = int])

lemma sint_eq_0_iff [simp]: "sint a = 0 \<longleftrightarrow> a = (0 :: 'a::len word)"
  by (metis sint_0 sint_inj_iff)

lemma sint_eq_0_iff' [simp]: "0 = sint a \<longleftrightarrow> a = (0 :: 'a::len word)"
  by (metis sint_eq_0_iff)

lemma sint_small:
  assumes "unat (w :: u32) < 2 ^ 30"
  shows "sint w = int (unat w)"
proof -
  have "int (unat w) < int (2 ^ 30)" using assms by (simp only: of_nat_less_iff)
  then have b: "uint w < 2 ^ 30" by simp
  have "- (2 ^ 31) \<le> uint w" using uint_ge_0 [of w] by (rule order_trans [rotated]) simp
  moreover have "uint w < 2 ^ 31" using b by simp
  ultimately have "signed_take_bit 31 (uint w) = uint w" by (rule signed_take_bit_int_eq_self)
  then show ?thesis by (simp add: sint_uint)
qed

lemma unat_plus_one:
  assumes "x < y"
  shows "unat (x + 1 :: 'a::len word) = unat x + 1"
proof -
  have "Suc (unat x) \<le> unat y" using assms by (simp add: word_less_nat_alt)
  also have "unat y < 2 ^ LENGTH('a)" by (rule unsigned_less)
  finally show ?thesis by (simp add: unat_word_ariths)
qed

section \<open>Lists\<close>

lemma butlast_append_single: "butlast (us @ [a, b]) = us @ [a]"
  by (induction us) auto

lemma takeWhile_append_dropWhile_Cons:
  "x \<in> set xs \<Longrightarrow> P x \<Longrightarrow> \<exists>us y vs. xs = us @ y # vs \<and> P y \<and> (\<forall>u \<in> set us. \<not> P u)"
  by (metis split_list_first_prop)

lemma remove1_split: "n \<notin> set us \<Longrightarrow> remove1 n (us @ n # vs) = us @ vs"
  by (induction us) auto

lemma div_mod_unique: "r < m \<Longrightarrow> (n :: nat) div m = 0 \<and> n mod m = r \<longleftrightarrow> n = r"
  using mult_div_mod_eq [of m n] by (metis add_0 div_less mod_less mult_0_right)

end
