(* ===== verification/Klist.thy ===== *)
theory Klist
  imports Prelude
begin

text \<open>
  \<^verbatim>\<open>kernel/list.c\<close> and \<^verbatim>\<open>include/kernel/list.h\<close>: the circular doubly linked list
  every kernel table and queue is built on.  The nodes are intrusive and live in a heap of
  \<open>prev\<close> and \<open>next\<close> fields indexed by address; the list header is itself a node.
  The theory gives the operations over that heap, the representation predicate \<open>dll\<close> that
  relates a header to the sequence of nodes it heads, and the refinement of every operation to
  the corresponding operation on sequences.  The locale \<open>node_list\<close> is the contract the
  other components rely on when they describe their lists as HOL lists.
\<close>

section \<open>Heap of nodes\<close>

record list_heap =
  prev :: "ptr \<Rightarrow> ptr"
  nxt :: "ptr \<Rightarrow> ptr"

definition get_prev :: "list_heap \<Rightarrow> ptr \<Rightarrow> ptr exec" where
  "get_prev h p = (if p = NULL then None else Some (prev h p))"

definition get_next :: "list_heap \<Rightarrow> ptr \<Rightarrow> ptr exec" where
  "get_next h p = (if p = NULL then None else Some (nxt h p))"

definition set_prev :: "list_heap \<Rightarrow> ptr \<Rightarrow> ptr \<Rightarrow> list_heap exec" where
  "set_prev h p v = (if p = NULL then None else Some (h\<lparr>prev := (prev h)(p := v)\<rparr>))"

definition set_next :: "list_heap \<Rightarrow> ptr \<Rightarrow> ptr \<Rightarrow> list_heap exec" where
  "set_next h p v = (if p = NULL then None else Some (h\<lparr>nxt := (nxt h)(p := v)\<rparr>))"

lemmas heap_access = get_prev_def get_next_def set_prev_def set_next_def

section \<open>Operations\<close>

definition list_init :: "list_heap \<Rightarrow> ptr \<Rightarrow> list_heap exec" where
  "list_init h l = do {
     kassert (l \<noteq> NULL);
     h \<leftarrow> set_prev h l l;
     set_next h l l }"

definition list_empty :: "list_heap \<Rightarrow> ptr \<Rightarrow> bool exec" where
  "list_empty h l = do {
     kassert (l \<noteq> NULL);
     p \<leftarrow> get_prev h l;
     n \<leftarrow> get_next h l;
     Some (p = l \<and> n = l) }"

definition list_append :: "list_heap \<Rightarrow> ptr \<Rightarrow> ptr \<Rightarrow> list_heap exec" where
  "list_append h l node = do {
     kassert (l \<noteq> NULL);
     e \<leftarrow> list_empty h l;
     h \<leftarrow> (if e then set_next h l node
          else do { p \<leftarrow> get_prev h l; set_next h p node });
     p \<leftarrow> get_prev h l;
     h \<leftarrow> set_prev h node p;
     h \<leftarrow> set_next h node l;
     set_prev h l node }"

definition list_begin :: "list_heap \<Rightarrow> ptr \<Rightarrow> ptr exec" where
  "list_begin h l = do { kassert (l \<noteq> NULL); get_next h l }"

definition list_end :: "ptr \<Rightarrow> ptr exec" where
  "list_end l = do { kassert (l \<noteq> NULL); Some l }"

definition list_next :: "list_heap \<Rightarrow> ptr \<Rightarrow> ptr exec" where
  "list_next h n = do { kassert (n \<noteq> NULL); get_next h n }"

definition list_prev :: "list_heap \<Rightarrow> ptr \<Rightarrow> ptr exec" where
  "list_prev h n = do { kassert (n \<noteq> NULL); get_prev h n }"

definition list_remove :: "list_heap \<Rightarrow> ptr \<Rightarrow> (list_heap \<times> ptr) exec" where
  "list_remove h node = do {
     kassert (node \<noteq> NULL);
     p \<leftarrow> get_prev h node;
     n \<leftarrow> get_next h node;
     h \<leftarrow> set_next h p n;
     n \<leftarrow> get_next h node;
     p \<leftarrow> get_prev h node;
     h \<leftarrow> set_prev h n p;
     n \<leftarrow> get_next h node;
     Some (h, n) }"

partial_function (option) append_ordered_loop ::
  "(ptr \<Rightarrow> ptr \<Rightarrow> int) \<Rightarrow> list_heap \<Rightarrow> ptr \<Rightarrow> ptr \<Rightarrow> ptr \<Rightarrow> list_heap exec" where
  "append_ordered_loop compare h l node n = do {
     e \<leftarrow> list_end l;
     if n = e then list_append h l node
     else if compare n node > 0 then do {
       p \<leftarrow> get_prev h n;
       h \<leftarrow> set_prev h node p;
       h \<leftarrow> set_next h node n;
       p \<leftarrow> get_prev h n;
       h \<leftarrow> set_next h p node;
       set_prev h n node }
     else do {
       n \<leftarrow> list_next h n;
       append_ordered_loop compare h l node n } }"

definition list_append_ordered ::
  "list_heap \<Rightarrow> ptr \<Rightarrow> ptr \<Rightarrow> (ptr \<Rightarrow> ptr \<Rightarrow> int) \<Rightarrow> list_heap exec" where
  "list_append_ordered h l node compare = do {
     kassert (l \<noteq> NULL \<and> node \<noteq> NULL);
     n \<leftarrow> list_begin h l;
     append_ordered_loop compare h l node n }"

partial_function (option) foreach_loop ::
  "(ptr \<Rightarrow> 's \<Rightarrow> err_t \<times> 's) \<Rightarrow> list_heap \<Rightarrow> ptr \<Rightarrow> ptr \<Rightarrow> 's \<Rightarrow> (err_t \<times> 's) exec" where
  "foreach_loop op h l node aux = do {
     e \<leftarrow> list_end l;
     if node = e then Some (ERR_OK, aux)
     else (case op node aux of (err, aux) \<Rightarrow>
       if err \<noteq> ERR_OK then Some (err, aux)
       else do {
         node \<leftarrow> list_next h node;
         foreach_loop op h l node aux }) }"

definition list_foreach_do ::
  "list_heap \<Rightarrow> ptr \<Rightarrow> (ptr \<Rightarrow> 's \<Rightarrow> err_t \<times> 's) \<Rightarrow> 's \<Rightarrow> (err_t \<times> 's) exec" where
  "list_foreach_do h l op aux = do {
     kassert (l \<noteq> NULL);
     node \<leftarrow> list_begin h l;
     foreach_loop op h l node aux }"

section \<open>Representation of a sequence\<close>

fun chain :: "list_heap \<Rightarrow> ptr list \<Rightarrow> bool" where
  "chain h (a # b # r) \<longleftrightarrow> nxt h a = b \<and> prev h b = a \<and> chain h (b # r)"
| "chain h _ \<longleftrightarrow> True"

definition dll :: "list_heap \<Rightarrow> ptr \<Rightarrow> ptr list \<Rightarrow> bool" where
  "dll h l xs \<longleftrightarrow> l \<noteq> NULL \<and> NULL \<notin> set xs \<and> distinct (l # xs) \<and> chain h (l # xs @ [l])"

text \<open>The sequence operations the heap operations are shown to implement.\<close>

definition insert_ordered :: "(ptr \<Rightarrow> ptr \<Rightarrow> int) \<Rightarrow> ptr \<Rightarrow> ptr list \<Rightarrow> ptr list" where
  "insert_ordered compare n xs =
     takeWhile (\<lambda>x. compare x n \<le> 0) xs @ n # dropWhile (\<lambda>x. compare x n \<le> 0) xs"

fun foreach_list :: "(ptr \<Rightarrow> 's \<Rightarrow> err_t \<times> 's) \<Rightarrow> ptr list \<Rightarrow> 's \<Rightarrow> err_t \<times> 's" where
  "foreach_list op [] aux = (ERR_OK, aux)"
| "foreach_list op (x # xs) aux =
     (case op x aux of (err, aux) \<Rightarrow> if err \<noteq> ERR_OK then (err, aux) else foreach_list op xs aux)"

lemma chain_append:
  "chain h (us @ a # vs) \<longleftrightarrow> chain h (us @ [a]) \<and> chain h (a # vs)"
  by (induction us rule: induct_list012) auto

subsection \<open>Splicing a node into and out of a chain\<close>

lemma chain_cong:
  assumes "\<And>x. x \<in> set (butlast xs) \<Longrightarrow> nxt h' x = nxt h x"
    and "\<And>x. x \<in> set (tl xs) \<Longrightarrow> prev h' x = prev h x"
  shows "chain h' xs = chain h xs"
  using assms by (induction xs rule: induct_list012) auto

definition splice_ok :: "ptr list \<Rightarrow> ptr \<Rightarrow> ptr \<Rightarrow> ptr \<Rightarrow> ptr list \<Rightarrow> bool" where
  "splice_ok us a n b vs \<longleftrightarrow> n \<notin> set (us @ a # b # vs) \<and> a \<notin> set us \<and> b \<notin> set vs \<and>
     b \<notin> set (tl (us @ [a])) \<and> a \<notin> set (butlast (b # vs))"

lemma splice_ok_ring:
  assumes eq: "l # xs @ [l] = us @ a # b # vs" and d: "distinct (l # xs)" and n: "n \<notin> set (l # xs)"
  shows "splice_ok us a n b vs"
proof -
  from eq have "butlast (l # xs @ [l]) = butlast (us @ a # b # vs)" by simp
  then have x1: "l # xs = us @ a # butlast (b # vs)" by (simp add: butlast_append)
  from eq have "tl (l # xs @ [l]) = tl ((us @ [a]) @ b # vs)" by simp
  then have x2: "xs @ [l] = tl (us @ [a]) @ b # vs" by (cases us) auto
  from d have "distinct (us @ a # butlast (b # vs))" by (simp only: x1)
  moreover from d have "distinct (xs @ [l])" by simp
  then have "distinct (tl (us @ [a]) @ b # vs)" by (simp only: x2)
  moreover from n have "n \<notin> set (us @ a # b # vs)" by (simp add: eq [symmetric])
  ultimately show ?thesis by (simp add: splice_ok_def)
qed

lemma chain_splice_in:
  assumes c: "chain h (us @ a # b # vs)" and ok: "splice_ok us a n b vs"
    and h': "nxt h' = (nxt h)(a := n, n := b)" "prev h' = (prev h)(n := a, b := n)"
  shows "chain h' (us @ a # n # b # vs)"
proof -
  from c have c1: "chain h (us @ [a])" and c2: "chain h (b # vs)"
    using chain_append [of h us a "b # vs"] by auto
  have tl: "set (tl (us @ [a])) \<subseteq> set (us @ [a])" by (cases us) auto
  have "chain h' (us @ [a]) = chain h (us @ [a])"
    using ok tl by (intro chain_cong) (auto simp: splice_ok_def h')
  moreover have "chain h' (b # vs) = chain h (b # vs)"
  proof (rule chain_cong)
    fix x assume "x \<in> set (butlast (b # vs))"
    moreover from this have "x \<in> set (b # vs)" by (rule in_set_butlastD)
    ultimately show "nxt h' x = nxt h x" using ok by (auto simp: splice_ok_def h')
  next
    fix x assume "x \<in> set (tl (b # vs))"
    then show "prev h' x = prev h x" using ok by (auto simp: splice_ok_def h')
  qed
  ultimately show ?thesis
    using c1 c2 ok by (simp add: chain_append [of h' us a "n # b # vs"] h' splice_ok_def)
qed

lemma chain_splice_out:
  assumes c: "chain h (us @ a # n # b # vs)" and ok: "splice_ok us a n b vs"
    and h': "nxt h' = (nxt h)(a := b)" "prev h' = (prev h)(b := a)"
  shows "chain h' (us @ a # b # vs)"
proof -
  from c have c1: "chain h (us @ [a])" and c2: "chain h (b # vs)"
    using chain_append [of h us a "n # b # vs"] by auto
  have tl: "set (tl (us @ [a])) \<subseteq> set (us @ [a])" by (cases us) auto
  have "chain h' (us @ [a]) = chain h (us @ [a])"
    using ok tl by (intro chain_cong) (auto simp: splice_ok_def h')
  moreover have "chain h' (b # vs) = chain h (b # vs)"
  proof (rule chain_cong)
    fix x assume "x \<in> set (butlast (b # vs))"
    moreover from this have "x \<in> set (b # vs)" by (rule in_set_butlastD)
    ultimately show "nxt h' x = nxt h x" using ok by (auto simp: splice_ok_def h')
  next
    fix x assume "x \<in> set (tl (b # vs))"
    then show "prev h' x = prev h x" using ok by (auto simp: splice_ok_def h')
  qed
  ultimately show ?thesis
    using c1 c2 by (simp add: chain_append [of h' us a "b # vs"] h')
qed

subsection \<open>Neighbours of a node of a represented list\<close>

lemma dll_neighbours:
  assumes "dll h l xs" "l # xs @ [l] = us @ a # b # vs"
  shows "nxt h a = b" "prev h b = a"
  using assms chain_append [of h us a "b # vs"] by (auto simp: dll_def)

lemma dll_not_NULL [dest]: "dll h l xs \<Longrightarrow> l \<noteq> NULL" "dll h l xs \<Longrightarrow> x \<in> set xs \<Longrightarrow> x \<noteq> NULL"
  by (auto simp: dll_def intro: gr0I)

lemma ring_snoc: "l # us @ ws = butlast (l # us) @ last (l # us) # ws"
  using append_butlast_last_id [of "l # us"] by (metis append.assoc append_Cons append_Nil list.distinct(1))

lemma ring_last: "l # xs @ [l] = butlast (l # xs) @ last (l # xs) # l # []"
  by (rule ring_snoc)

lemma ring_first: "l # xs @ [l] = [] @ l # hd (xs @ [l]) # tl (xs @ [l])"
  by simp

lemma ring_middle:
  "l # (us @ n # vs) @ [l] = butlast (l # us) @ last (l # us) # n # (vs @ [l])"
  "l # (us @ n # vs) @ [l] = (l # us) @ n # hd (vs @ [l]) # tl (vs @ [l])"
  using append_butlast_last_id [of "l # us"]
  by (auto simp del: butlast.simps last.simps) 

lemmas dll_first = dll_neighbours [OF _ ring_first]
lemmas dll_last = dll_neighbours [OF _ ring_last]
lemmas dll_middle = dll_neighbours [OF _ ring_middle(1)] dll_neighbours [OF _ ring_middle(2)]

lemma dll_splice_in:
  assumes d: "dll h l xs" and e: "l # xs @ [l] = us @ a # b # vs" and e': "l # ys @ [l] = us @ a # n # b # vs"
    and n: "n \<noteq> NULL" "n \<notin> set (l # xs)"
    and h': "nxt h' = (nxt h)(a := n, n := b)" "prev h' = (prev h)(n := a, b := n)"
  shows "dll h' l ys"
proof -
  have "splice_ok us a n b vs" using d n(2) by (intro splice_ok_ring [OF e]) (auto simp: dll_def)
  with d have "chain h' (us @ a # n # b # vs)"
    by (intro chain_splice_in [OF _ _ h']) (auto simp: dll_def e)
  moreover have "mset (l # ys @ [l]) = mset (n # l # xs @ [l])" using e e' by simp
  then have "mset (l # ys) = mset (n # l # xs)" by simp
  then have "set (l # ys) = set (n # l # xs)" "distinct (l # ys) = distinct (n # l # xs)"
    by (metis mset_eq_setD, metis mset_eq_imp_distinct_iff)
  ultimately show ?thesis using d n by (auto simp: dll_def e')
qed

lemma dll_splice_out:
  assumes d: "dll h l xs" and e: "l # xs @ [l] = us @ a # n # b # vs" and e': "l # ys @ [l] = us @ a # b # vs"
    and n: "n \<noteq> l"
    and h': "nxt h' = (nxt h)(a := b)" "prev h' = (prev h)(b := a)"
  shows "dll h' l ys"
proof -
  have m: "mset (l # xs @ [l]) = mset (n # l # ys @ [l])" using e e' by simp
  then have m: "mset (l # xs) = mset (n # l # ys)" by simp
  then have s: "set (l # xs) = set (n # l # ys)" "distinct (l # xs) = distinct (n # l # ys)"
    by (metis mset_eq_setD, metis mset_eq_imp_distinct_iff)
  with d have d': "distinct (n # l # ys)" by (auto simp: dll_def)
  then have "splice_ok us a n b vs" by (intro splice_ok_ring [OF e']) auto
  with d have "chain h' (us @ a # b # vs)"
    by (intro chain_splice_out [OF _ _ h']) (auto simp: dll_def e)
  then show ?thesis using d d' s(1) by (auto simp: dll_def e')
qed

subsection \<open>The operations on a represented list\<close>

lemma list_init_dll:
  "l \<noteq> NULL \<Longrightarrow> \<exists>h'. list_init h l = Some h' \<and> dll h' l []"
  by (simp add: list_init_def heap_access dll_def)

lemma list_empty_dll:
  assumes "dll h l xs"
  shows "list_empty h l = Some (xs = [])"
proof -
  have "l \<noteq> NULL" "xs \<noteq> [] \<Longrightarrow> last xs \<noteq> l" using assms by (auto simp: dll_def)
  then show ?thesis
    using dll_last(2) [OF assms] dll_first(1) [OF assms]
    by (cases "xs = []") (simp_all add: list_empty_def heap_access)
qed

lemma list_begin_dll: "dll h l xs \<Longrightarrow> list_begin h l = Some (hd (xs @ [l]))"
  using dll_first [of h l xs] by (auto simp: list_begin_def heap_access dll_def)

lemma list_end_dll: "dll h l xs \<Longrightarrow> list_end l = Some l"
  by (auto simp: list_end_def dll_def)

lemma list_next_dll: "dll h l (us @ n # vs) \<Longrightarrow> list_next h n = Some (hd (vs @ [l]))"
  using dll_middle(3) [of h l us n vs] by (auto simp: list_next_def heap_access dll_def)

lemma list_prev_dll: "dll h l (us @ n # vs) \<Longrightarrow> list_prev h n = Some (last (l # us))"
  using dll_middle(2) [of h l us n vs] by (auto simp: list_prev_def heap_access dll_def)

lemma list_append_exec:
  assumes "dll h l xs" "n \<noteq> NULL" "n \<notin> set (l # xs)"
  shows "list_append h l n = Some (h\<lparr>nxt := (nxt h)(last (l # xs) := n, n := l),
                                      prev := (prev h)(n := last (l # xs), l := n)\<rparr>)"
proof -
  have "last (l # xs) \<noteq> NULL" using assms(1) by (metis dll_not_NULL last_in_set list.distinct(1) set_ConsD)
  then show ?thesis
    using assms dll_last(2) [OF assms(1)]
    by (cases "xs = []") (auto simp: list_append_def list_empty_dll [OF assms(1)] heap_access dll_def)
qed

lemma list_append_dll:
  assumes "dll h l xs" "n \<noteq> NULL" "n \<notin> set (l # xs)"
  shows "\<exists>h'. list_append h l n = Some h' \<and> dll h' l (xs @ [n])"
proof -
  have "l # (xs @ [n]) @ [l] = butlast (l # xs) @ last (l # xs) # n # l # []"
    using append_butlast_last_id [of "l # xs"] by simp
  from dll_splice_in [OF assms(1) ring_last this assms(2,3)] show ?thesis
    by (simp add: list_append_exec [OF assms])
qed

lemma list_remove_dll:
  assumes d: "dll h l (us @ n # vs)"
  shows "\<exists>h'. list_remove h n = Some (h', hd (vs @ [l])) \<and> dll h' l (us @ vs)"
proof -
  let ?a = "last (l # us)" and ?b = "hd (vs @ [l])"
  have nn: "n \<noteq> NULL" "n \<noteq> l" "n \<notin> set us" "n \<notin> set vs" using d by (auto simp: dll_def)
  have s: "set (l # us) \<subseteq> - {NULL, n}" "set (vs @ [l]) \<subseteq> - {NULL, n}" using d by (auto simp: dll_def)
  have "?a \<in> set (l # us)" "?b \<in> set (vs @ [l])" by (simp_all add: hd_append)
  with s have "?a \<in> - {NULL, n}" "?b \<in> - {NULL, n}" by (metis subsetD)+
  then have ab: "?a \<noteq> NULL" "?b \<noteq> NULL" "?a \<noteq> n" "?b \<noteq> n" by simp_all
  let ?h = "h\<lparr>nxt := (nxt h)(?a := ?b), prev := (prev h)(?b := ?a)\<rparr>"
  have r: "list_remove h n = Some (?h, ?b)"
    using nn ab dll_middle [OF d] by (simp add: list_remove_def heap_access)
  have e: "l # (us @ n # vs) @ [l] = butlast (l # us) @ ?a # n # ?b # tl (vs @ [l])"
    using ring_middle(1) [of l us n vs] by simp
  have e': "l # (us @ vs) @ [l] = butlast (l # us) @ ?a # ?b # tl (vs @ [l])"
    using ring_snoc [of l us "vs @ [l]"] by simp
  have "dll ?h l (us @ vs)"
    by (rule dll_splice_out [OF d e e' nn(2)]) simp_all
  with r show ?thesis by blast
qed

subsection \<open>The ordered insertion\<close>

lemma insert_ordered_mset: "mset (insert_ordered compare n xs) = add_mset n (mset xs)"
  by (induction xs) (simp_all add: insert_ordered_def)

lemma insert_ordered_sorted:
  assumes "transp R" "sorted_wrt R xs"
    and "\<And>x. x \<in> set xs \<Longrightarrow> if compare x n > 0 then R n x else R x n"
  shows "sorted_wrt R (insert_ordered compare n xs)"
  using assms(2,3)
proof (induction xs)
  case (Cons x xs)
  show ?case
  proof (cases "compare x n > 0")
    case True
    then have "R n x" using Cons.prems(2) [of x] by simp
    with Cons.prems(1) assms(1) True show ?thesis by (auto simp: insert_ordered_def dest: transpD)
  next
    case False
    then have "R x n" using Cons.prems(2) [of x] by simp
    moreover have "insert_ordered compare n (x # xs) = x # insert_ordered compare n xs"
      using False by (simp add: insert_ordered_def)
    moreover have "set (insert_ordered compare n xs) = insert n (set xs)"
      by (metis insert_ordered_mset set_mset_add_mset_insert set_mset_mset)
    ultimately show ?thesis using Cons by auto
  qed
qed (simp add: insert_ordered_def)

lemma append_ordered_loop_dll:
  assumes "dll h l (us @ vs)" "n \<noteq> NULL" "n \<notin> set (l # us @ vs)"
  shows "\<exists>h'. append_ordered_loop compare h l n (hd (vs @ [l])) = Some h'
           \<and> dll h' l (us @ insert_ordered compare n vs)"
  using assms
proof (induction vs arbitrary: us)
  case Nil
  then show ?case
    using list_append_dll [of h l us n]
    by (simp add: append_ordered_loop.simps list_end_dll [OF Nil(1)] insert_ordered_def)
next
  case (Cons v vs)
  have v: "v \<noteq> l" "v \<noteq> NULL" using Cons.prems(1) by (auto simp: dll_def)
  show ?case
  proof (cases "compare v n > 0")
    case True
    let ?a = "last (l # us)"
    let ?h = "h\<lparr>nxt := (nxt h)(?a := n, n := v), prev := (prev h)(n := ?a, v := n)\<rparr>"
    have "?a \<in> set (l # us)" by simp
    then have a: "?a \<noteq> NULL" "?a \<noteq> n"
      using Cons.prems by (auto simp: dll_def simp del: last.simps)
    have "append_ordered_loop compare h l n v = Some ?h"
      using True v a Cons.prems(2,3) dll_middle(2) [OF Cons.prems(1)]
      by (simp add: append_ordered_loop.simps list_end_dll [OF Cons.prems(1)] heap_access fun_upd_twist)
    moreover have "dll ?h l (us @ n # v # vs)"
      by (rule dll_splice_in [OF Cons.prems(1) ring_middle(1) _ Cons.prems(2,3)])
        (use ring_middle(1) [of l us n "v # vs"] in simp_all)
    ultimately show ?thesis using True by (auto simp: insert_ordered_def)
  next
    case False
    with Cons.IH [of "us @ [v]"] Cons.prems list_next_dll [OF Cons.prems(1)] v
    show ?thesis
      by (subst append_ordered_loop.simps) (simp add: list_end_dll [OF Cons.prems(1)] insert_ordered_def)
  qed
qed

lemma list_append_ordered_dll:
  assumes "dll h l xs" "n \<noteq> NULL" "n \<notin> set (l # xs)"
  shows "\<exists>h'. list_append_ordered h l n compare = Some h' \<and> dll h' l (insert_ordered compare n xs)"
  using append_ordered_loop_dll [of h l "[]" xs n compare] assms dll_not_NULL(1) [OF assms(1)]
  by (simp add: list_append_ordered_def list_begin_dll)

subsection \<open>Iteration\<close>

lemma foreach_loop_dll:
  assumes "dll h l (us @ vs)"
  shows "foreach_loop op h l (hd (vs @ [l])) aux = Some (foreach_list op vs aux)"
  using assms
proof (induction vs arbitrary: us aux)
  case Nil
  then show ?case by (simp add: foreach_loop.simps list_end_dll [OF Nil])
next
  case (Cons v vs)
  have "v \<noteq> l" using Cons.prems by (auto simp: dll_def)
  then show ?case
    using Cons.IH [of "us @ [v]"] Cons.prems
    by (subst foreach_loop.simps)
      (simp add: list_end_dll [OF Cons.prems] list_next_dll [OF Cons.prems] split: prod.splits)
qed

lemma list_foreach_do_dll:
  "dll h l xs \<Longrightarrow> list_foreach_do h l op aux = Some (foreach_list op xs aux)"
  using foreach_loop_dll [of h l "[]" xs op aux] dll_not_NULL(1) [of h l xs]
  by (simp add: list_foreach_do_def list_begin_dll)

subsection \<open>Separation of lists\<close>

lemma chain_frame:
  "chain h xs \<Longrightarrow> (\<And>x. x \<in> set xs \<Longrightarrow> nxt h' x = nxt h x \<and> prev h' x = prev h x) \<Longrightarrow> chain h' xs"
  by (induction xs rule: induct_list012) auto

lemma dll_frame:
  assumes "dll h l xs" "\<And>x. x \<in> set (l # xs) \<Longrightarrow> nxt h' x = nxt h x \<and> prev h' x = prev h x"
  shows "dll h' l xs"
  using assms chain_frame [of h "l # xs @ [l]" h'] by (auto simp: dll_def)

lemma list_append_frame:
  assumes "dll h l xs" "n \<noteq> NULL" "n \<notin> set (l # xs)" "list_append h l n = Some h'"
    "dll h k ys" "n \<notin> set (k # ys)" "set (k # ys) \<inter> set (l # xs) = {}"
  shows "dll h' k ys"
proof (rule dll_frame [OF assms(5)])
  have "last (l # xs) \<in> set (l # xs)" by simp
  then show "nxt h' x = nxt h x \<and> prev h' x = prev h x" if "x \<in> set (k # ys)" for x
    using that assms(4,6,7) list_append_exec [OF assms(1-3)] by (auto simp del: last.simps)
qed

subsection \<open>The queue contract\<close>

text \<open>The kernel's queues (the ready queue, the request queue of a block device, the waiters of a
  condition variable) call append at the tail, begin for the head and remove.  The contract
  says what those calls do to the represented sequence.\<close>

primrec push_all :: "('h \<Rightarrow> 'n \<Rightarrow> 'n \<Rightarrow> 'h option) \<Rightarrow> 'h \<Rightarrow> 'n \<Rightarrow> 'n list \<Rightarrow> 'h option" where
  "push_all app h l [] = Some h"
| "push_all app h l (n # ns) = do { h \<leftarrow> app h l n; push_all app h l ns }"

primrec pop_many :: "('h \<Rightarrow> 'n \<Rightarrow> 'n option) \<Rightarrow> ('h \<Rightarrow> 'n \<Rightarrow> ('h \<times> 'n) option) \<Rightarrow>
    'h \<Rightarrow> 'n \<Rightarrow> nat \<Rightarrow> ('h \<times> 'n list) option" where
  "pop_many first remove h l 0 = Some (h, [])"
| "pop_many first remove h l (Suc k) = do {
     n \<leftarrow> first h l;
     (h, _) \<leftarrow> remove h n;
     (h, ns) \<leftarrow> pop_many first remove h l k;
     Some (h, n # ns) }"

locale node_list =
  fixes rep :: "'h \<Rightarrow> 'n \<Rightarrow> 'n list \<Rightarrow> bool"
    and usable :: "'n \<Rightarrow> bool"
    and init :: "'h \<Rightarrow> 'n \<Rightarrow> 'h option"
    and append :: "'h \<Rightarrow> 'n \<Rightarrow> 'n \<Rightarrow> 'h option"
    and first :: "'h \<Rightarrow> 'n \<Rightarrow> 'n option"
    and remove :: "'h \<Rightarrow> 'n \<Rightarrow> ('h \<times> 'n) option"
  assumes init_rep: "usable l \<Longrightarrow> \<exists>h'. init h l = Some h' \<and> rep h' l []"
    and append_rep: "rep h l xs \<Longrightarrow> usable n \<Longrightarrow> n \<notin> set (l # xs) \<Longrightarrow>
      \<exists>h'. append h l n = Some h' \<and> rep h' l (xs @ [n])"
    and first_rep: "rep h l (x # xs) \<Longrightarrow> first h l = Some x"
    and remove_rep: "rep h l (us @ n # vs) \<Longrightarrow>
      \<exists>h' m. remove h n = Some (h', m) \<and> rep h' l (us @ vs)"
begin

lemma push_all_rep:
  "rep h l xs \<Longrightarrow> distinct ns \<Longrightarrow> set ns \<inter> set (l # xs) = {} \<Longrightarrow> (\<And>n. n \<in> set ns \<Longrightarrow> usable n) \<Longrightarrow>
    \<exists>h'. push_all append h l ns = Some h' \<and> rep h' l (xs @ ns)"
proof (induction ns arbitrary: h xs)
  case (Cons n ns)
  then obtain h1 where h1: "append h l n = Some h1" "rep h1 l (xs @ [n])"
    using append_rep [of h l xs n] by auto
  with Cons.IH [OF h1(2)] Cons.prems show ?case by auto
qed simp

lemma pop_many_rep:
  "rep h l (xs @ ys) \<Longrightarrow> \<exists>h'. pop_many first remove h l (length xs) = Some (h', xs) \<and> rep h' l ys"
proof (induction xs arbitrary: h)
  case (Cons x xs)
  then obtain h1 m where "remove h x = Some (h1, m)" "rep h1 l (xs @ ys)"
    using remove_rep [of h l "[]" x "xs @ ys"] by auto
  with Cons.IH [of h1] Cons.prems first_rep [of h l x "xs @ ys"] show ?case by auto
qed simp

lemma fifo:
  assumes "usable l" "distinct ns" "l \<notin> set ns" "\<And>n. n \<in> set ns \<Longrightarrow> usable n"
  shows "\<exists>h0 h1 h2. init h l = Some h0 \<and> push_all append h0 l ns = Some h1
           \<and> pop_many first remove h1 l (length ns) = Some (h2, ns) \<and> rep h2 l []"
proof -
  obtain h0 where 0: "init h l = Some h0" "rep h0 l []" using init_rep [OF assms(1)] by blast
  then obtain h1 where 1: "push_all append h0 l ns = Some h1" "rep h1 l ns"
    using push_all_rep [of h0 l "[]" ns] assms by auto
  then show ?thesis using 0 pop_many_rep [of h1 l ns "[]"] by auto
qed

end

interpretation kl: node_list dll "\<lambda>n. n \<noteq> NULL" list_init list_append list_begin list_remove
proof
  show "\<exists>h'. list_append h l n = Some h' \<and> dll h' l (xs @ [n])"
    if "dll h l xs" "n \<noteq> NULL" "n \<notin> set (l # xs)" for h l xs n
    using list_append_dll [OF that] .
  show "list_begin h l = Some x" if "dll h l (x # xs)" for h l x xs
    using list_begin_dll [OF that] by simp
  show "\<exists>h' m. list_remove h n = Some (h', m) \<and> dll h' l (us @ vs)"
    if "dll h l (us @ n # vs)" for h l us n vs
    using list_remove_dll [OF that] by blast
qed (rule list_init_dll)

section \<open>Properties\<close>

text \<open>Ordered insertion (list_append_ordered) returns on every well-formed circular list and
  leaves a well-formed circular list holding the old nodes and the new one; if the comparator
  decides a transitive order and the list was sorted by it, the result is sorted.\<close>

theorem list_append_ordered_sorted:
  assumes "dll h l xs" "n \<noteq> NULL" "n \<notin> set (l # xs)"
    and "transp R" "sorted_wrt R xs"
    and "\<And>x. x \<in> set xs \<Longrightarrow> if compare x n > 0 then R n x else R x n"
  shows "\<exists>h' ys. list_append_ordered h l n compare = Some h' \<and> dll h' l ys
           \<and> sorted_wrt R ys \<and> mset ys = add_mset n (mset xs)"
  using list_append_ordered_dll [OF assms(1-3), of compare] insert_ordered_mset [of compare n xs]
    insert_ordered_sorted [of R xs compare n, OF assms(4-6)] by metis

theorem list_append_ordered_sorted_witness:
  "\<exists>h' ys. list_append_ordered \<lparr>prev = (\<lambda>_. 0)(1 := 7, 3 := 1, 7 := 3), nxt = (\<lambda>_. 0)(1 := 3, 3 := 7, 7 := 1)\<rparr>
             1 5 (\<lambda>a b. int a - int b) = Some h'
     \<and> dll h' 1 ys \<and> sorted_wrt (\<le>) ys \<and> mset ys = add_mset 5 (mset [3, 7])"
  by (rule list_append_ordered_sorted) (auto simp: dll_def transp_def)

text \<open>Nodes appended to a freshly initialised list come back from list_begin/list_remove in the
  order they were appended, every call returns, and the list ends empty: the kernel list is a
  first-in first-out queue.\<close>

theorem klist_fifo:
  assumes "l \<noteq> NULL" "NULL \<notin> set ns" "distinct ns" "l \<notin> set ns"
  shows "\<exists>h0 h1 h2. list_init h l = Some h0 \<and> push_all list_append h0 l ns = Some h1
           \<and> pop_many list_begin list_remove h1 l (length ns) = Some (h2, ns) \<and> list_empty h2 l = Some True"
proof -
  have "n \<noteq> NULL" if "n \<in> set ns" for n using that assms(2) by metis
  with kl.fifo [OF assms(1,3,4)] list_empty_dll [of _ l "[]"] show ?thesis by fastforce
qed

theorem klist_fifo_witness:
  "\<exists>h0 h1 h2. list_init \<lparr>prev = \<lambda>_. 0, nxt = \<lambda>_. 0\<rparr> 1 = Some h0 \<and> push_all list_append h0 1 [9, 4, 6] = Some h1
     \<and> pop_many list_begin list_remove h1 1 (length [9, 4, 6 :: nat]) = Some (h2, [9, 4, 6]) \<and> list_empty h2 1 = Some True"
  by (rule klist_fifo) simp_all

end
