(* ===== verification/Cstring.thy ===== *)
theory Cstring
  imports Prelude
begin

text \<open>
  The memory and string routines of \<^verbatim>\<open>lib/string.c\<close> and the bit helpers of
  \<^verbatim>\<open>lib/bits.c\<close>.  Memory is a function from addresses to bytes; a call takes the memory
  and returns the updated one.  A loop that looks for a terminator is a partial function whose
  value is \<open>None\<close> when there is no terminator.  \<open>char\<close> is signed on x86-64,
  so comparisons read a byte with \<open>sint\<close>, those of \<open>memcmp\<close> with \<open>uint\<close>.
  The lemmas give the memory after each call as a closed form over the memory before, and the
  results of the scanning routines over the represented strings.
\<close>

type_synonym mem = "nat \<Rightarrow> u8"

section \<open>Block operations\<close>

function memset_loop :: "mem \<Rightarrow> nat \<Rightarrow> nat \<Rightarrow> u8 \<Rightarrow> mem" where
  "memset_loop m p e c = (if p < e then memset_loop (m(p := c)) (p + 1) e c else m)"
  by auto
termination by (relation "measure (\<lambda>(m, p, e, c). e - p)") auto

declare memset_loop.simps [simp del]

definition memset :: "mem \<Rightarrow> nat \<Rightarrow> int \<Rightarrow> nat \<Rightarrow> mem" where
  "memset m s c n = memset_loop m s (s + n) (word_of_int c)"

primrec copy_up :: "mem \<Rightarrow> nat \<Rightarrow> nat \<Rightarrow> nat \<Rightarrow> mem" where
  "copy_up m d s 0 = m"
| "copy_up m d s (Suc n) = copy_up (m(d := m s)) (d + 1) (s + 1) n"

primrec copy_down :: "mem \<Rightarrow> nat \<Rightarrow> nat \<Rightarrow> nat \<Rightarrow> mem" where
  "copy_down m d s 0 = m"
| "copy_down m d s (Suc n) = copy_down (m(d - 1 := m (s - 1))) (d - 1) (s - 1) n"

definition memcpy :: "mem \<Rightarrow> nat \<Rightarrow> nat \<Rightarrow> nat \<Rightarrow> mem" where
  "memcpy m dest src n = copy_up m dest src n"

definition memmove :: "mem \<Rightarrow> nat \<Rightarrow> nat \<Rightarrow> nat \<Rightarrow> mem" where
  "memmove m dest src n =
     (if src < dest \<and> src + n > dest then copy_down m (dest + n) (src + n) n
      else copy_up m dest src n)"

primrec memcmp :: "mem \<Rightarrow> nat \<Rightarrow> nat \<Rightarrow> nat \<Rightarrow> int" where
  "memcmp m s1 s2 0 = 0"
| "memcmp m s1 s2 (Suc n) =
     (if m s1 \<noteq> m s2 then uint (m s1) - uint (m s2) else memcmp m (s1 + 1) (s2 + 1) n)"

section \<open>Strings\<close>

partial_function (option) strlen_loop :: "mem \<Rightarrow> nat \<Rightarrow> nat \<Rightarrow> nat exec" where
  "strlen_loop m s len = (if m s \<noteq> 0 then strlen_loop m (s + 1) (len + 1) else Some len)"

definition strlen :: "mem \<Rightarrow> nat \<Rightarrow> nat exec" where
  "strlen m s = strlen_loop m s 0"

partial_function (option) strcpy :: "mem \<Rightarrow> nat \<Rightarrow> nat \<Rightarrow> mem exec" where
  "strcpy m d src =
     (let c = m src; m = m(d := c) in if c \<noteq> 0 then strcpy m (d + 1) (src + 1) else Some m)"

primrec zero_fill :: "mem \<Rightarrow> nat \<Rightarrow> nat \<Rightarrow> mem" where
  "zero_fill m d 0 = m"
| "zero_fill m d (Suc n) = zero_fill (m(d := 0)) (d + 1) n"

text \<open>The first loop of strncpy stores the terminator and leaves without decrementing n.\<close>

fun strncpy :: "mem \<Rightarrow> nat \<Rightarrow> nat \<Rightarrow> nat \<Rightarrow> mem" where
  "strncpy m d src 0 = zero_fill m d 0"
| "strncpy m d src (Suc n) =
     (let c = m src; m = m(d := c) in
      if c \<noteq> 0 then strncpy m (d + 1) (src + 1) n else zero_fill m (d + 1) (Suc n))"

partial_function (option) strcmp :: "mem \<Rightarrow> nat \<Rightarrow> nat \<Rightarrow> int exec" where
  "strcmp m s1 s2 =
     (if m s1 \<noteq> 0 \<and> m s1 = m s2 then strcmp m (s1 + 1) (s2 + 1)
      else Some (sint (m s1) - sint (m s2)))"

fun strncmp :: "mem \<Rightarrow> nat \<Rightarrow> nat \<Rightarrow> nat \<Rightarrow> int" where
  "strncmp m s1 s2 0 = 0"
| "strncmp m s1 s2 (Suc n) =
     (if m s1 \<noteq> 0 \<and> m s1 = m s2 then strncmp m (s1 + 1) (s2 + 1) n
      else sint (m s1) - sint (m s2))"

partial_function (option) strchr_loop :: "mem \<Rightarrow> nat \<Rightarrow> u8 \<Rightarrow> ptr exec" where
  "strchr_loop m s c =
     (if m s = c then Some s else if m s = 0 then Some NULL else strchr_loop m (s + 1) c)"

definition strchr :: "mem \<Rightarrow> ptr \<Rightarrow> u8 \<Rightarrow> ptr exec" where
  "strchr m s c = (if s = NULL then Some NULL else strchr_loop m s c)"

text \<open>strtok_r.  The saved position behind \<open>save_ptr\<close> is passed and returned as a value, \<open>None\<close>
  when save_ptr itself is null; the result is the token pointer, \<open>NULL\<close> at the end of the string.\<close>

partial_function (option) skip_delims :: "mem \<Rightarrow> ptr \<Rightarrow> ptr \<Rightarrow> (bool \<times> ptr) exec" where
  "skip_delims m s delimiters = do {
     p \<leftarrow> strchr m delimiters (m s);
     if p \<noteq> NULL then if m s = 0 then Some (False, s) else skip_delims m (s + 1) delimiters
     else Some (True, s) }"

partial_function (option) skip_token :: "mem \<Rightarrow> ptr \<Rightarrow> ptr \<Rightarrow> ptr exec" where
  "skip_token m s delimiters = do {
     p \<leftarrow> strchr m delimiters (m s);
     if p = NULL then skip_token m (s + 1) delimiters else Some s }"

definition strtok_r ::
  "mem \<Rightarrow> ptr \<Rightarrow> ptr \<Rightarrow> ptr option \<Rightarrow> (mem \<times> ptr option \<times> ptr) exec" where
  "strtok_r m s delimiters save_ptr =
     (case save_ptr of
        None \<Rightarrow> Some (m, None, NULL)
      | Some save \<Rightarrow>
          if delimiters = NULL then Some (m, Some save, NULL)
          else do {
            let s = (if s = NULL then save else s);
            (found, s) \<leftarrow> skip_delims m s delimiters;
            if \<not> found then Some (m, Some s, NULL)
            else do {
              let token = s;
              s \<leftarrow> skip_token m s delimiters;
              if m s \<noteq> 0 then Some (m(s := 0), Some (s + 1), token)
              else Some (m, Some s, token) } })"

text \<open>The argument loop of sys_spawn, collecting the token pointers it stores into argv.\<close>

partial_function (option) spawn_args :: "mem \<Rightarrow> ptr \<Rightarrow> ptr \<Rightarrow> (mem \<times> ptr list) exec" where
  "spawn_args m delimiters buf = do {
     (m, save, token) \<leftarrow> strtok_r m NULL delimiters (Some buf);
     if token = NULL then Some (m, [])
     else do {
       (m, argv) \<leftarrow> spawn_args m delimiters (the save);
       Some (m, token # argv) } }"

section \<open>Bits of a state word\<close>

definition get_state_bit :: "state_t \<Rightarrow> nat \<Rightarrow> bool" where
  "get_state_bit state b = (if state AND push_bit b 1 = 0 then False else True)"

definition set_state_bit :: "state_t \<Rightarrow> nat \<Rightarrow> bool \<Rightarrow> state_t" where
  "set_state_bit state b v =
     (if v then state OR push_bit b 1 else state AND NOT (push_bit b 1))"

lemma get_state_bit_bit: "b < 32 \<Longrightarrow> get_state_bit state b = bit state b"
  by (auto simp: get_state_bit_def bit_eq_iff [of "_ AND _"] bit_simps)

lemma bit_set_state_bit:
  "b < 32 \<Longrightarrow> b' < 32 \<Longrightarrow> bit (set_state_bit state b v) b' = (if b' = b then v else bit state b')"
  by (auto simp: set_state_bit_def bit_simps)

section \<open>Represented strings\<close>

fun cstr :: "mem \<Rightarrow> nat \<Rightarrow> u8 list \<Rightarrow> bool" where
  "cstr m s [] \<longleftrightarrow> m s = 0"
| "cstr m s (x # xs) \<longleftrightarrow> m s = x \<and> x \<noteq> 0 \<and> cstr m (s + 1) xs"

text \<open>Memory with \<open>n\<close> bytes at \<open>d\<close> replaced by those found at \<open>s\<close>.\<close>

definition copied :: "mem \<Rightarrow> nat \<Rightarrow> nat \<Rightarrow> nat \<Rightarrow> mem" where
  "copied m d s n = (\<lambda>a. if d \<le> a \<and> a < d + n then m (s + (a - d)) else m a)"

definition filled :: "mem \<Rightarrow> nat \<Rightarrow> nat \<Rightarrow> u8 \<Rightarrow> mem" where
  "filled m d n c = (\<lambda>a. if d \<le> a \<and> a < d + n then c else m a)"

lemma cstr_cong:
  "cstr m s xs \<Longrightarrow> (\<And>a. s \<le> a \<Longrightarrow> a \<le> s + length xs \<Longrightarrow> m' a = m a) \<Longrightarrow> cstr m' s xs"
  by (induction xs arbitrary: s) auto

lemma cstr_append: "cstr m s (xs @ ys) \<Longrightarrow> cstr m (s + length xs) ys"
  by (induction xs arbitrary: s) (force)+

lemma cstr_cut:
  "cstr m s (xs @ ys) \<Longrightarrow> m' (s + length xs) = 0 \<Longrightarrow> (\<And>a. s \<le> a \<Longrightarrow> a < s + length xs \<Longrightarrow> m' a = m a) \<Longrightarrow> cstr m' s xs"
  by (induction xs arbitrary: s) auto

lemma cstr_no_NUL: "cstr m s xs \<Longrightarrow> 0 \<notin> set xs"
  by (induction xs arbitrary: s) auto

lemma cstr_nth: "cstr m s xs \<Longrightarrow> i < length xs \<Longrightarrow> m (s + i) = xs ! i"
  by (induction xs arbitrary: s i) (force simp: less_Suc_eq_0_disj)+

lemma cstr_end: "cstr m s xs \<Longrightarrow> m (s + length xs) = 0"
  by (induction xs arbitrary: s) force+

section \<open>Block operations\<close>

lemma memset_loop_eq: "memset_loop m p e c = filled m p (e - p) c"
proof (induction m p e c rule: memset_loop.induct)
  case (1 m p e c)
  show ?case
  proof (cases "p < e")
    case True
    then have "memset_loop m p e c = filled (m(p := c)) (p + 1) (e - (p + 1)) c"
      using 1 by (simp add: memset_loop.simps [of m p e c] del: fun_upd_apply)
    also have "\<dots> = filled m p (e - p) c" using True by (auto simp: filled_def fun_eq_iff)
    finally show ?thesis .
  qed (auto simp: filled_def fun_eq_iff memset_loop.simps [of m p e c])
qed

lemma copy_up_eq: "d \<le> s \<or> s + n \<le> d \<Longrightarrow> copy_up m d s n = copied m d s n"
proof (induction n arbitrary: m d s)
  case (Suc n)
  have "copy_up m d s (Suc n) = copied (m(d := m s)) (d + 1) (s + 1) n"
    using Suc.IH [of "d + 1" "s + 1"] Suc.prems by auto
  also have "\<dots> = copied m d s (Suc n)"
  proof
    fix a
    have "s + 1 + (a - (d + 1)) = s + (a - d)" if "d + 1 \<le> a" using that by simp
    moreover have "s + (a - d) \<noteq> d" if "d + 1 \<le> a" "a < d + 1 + n" using that Suc.prems by linarith
    ultimately show "copied (m(d := m s)) (d + 1) (s + 1) n a = copied m d s (Suc n) a"
      by (auto simp: copied_def le_Suc_eq Suc_le_eq)
  qed
  finally show ?case .
qed (auto simp: copied_def fun_eq_iff)

lemma copy_down_eq: "s \<le> d \<Longrightarrow> copy_down m (d + n) (s + n) n = copied m d s n"
proof (induction n arbitrary: m)
  case (Suc n)
  then have "copy_down m (d + Suc n) (s + Suc n) (Suc n) = copied (m(d + n := m (s + n))) d s n" by simp
  also have "\<dots> = copied m d s (Suc n)"
    using Suc.prems by (auto simp: copied_def fun_eq_iff less_Suc_eq)
  finally show ?case .
qed (auto simp: copied_def fun_eq_iff)

lemma zero_fill_eq: "zero_fill m d n = filled m d n 0"
  by (induction n arbitrary: m d) (auto simp: filled_def fun_eq_iff)

section \<open>Scanning\<close>

lemma strlen_loop_cstr: "cstr m s xs \<Longrightarrow> strlen_loop m s k = Some (k + length xs)"
  by (induction xs arbitrary: s k) (subst strlen_loop.simps, simp)+

lemma strcpy_cstr:
  "cstr m s xs \<Longrightarrow> d \<le> s \<or> s + length xs < d \<Longrightarrow> strcpy m d s = Some (copied m d s (length xs + 1))"
proof (induction xs arbitrary: m d s)
  case Nil
  then show ?case by (subst strcpy.simps) (auto simp: copied_def fun_eq_iff)
next
  case (Cons x xs)
  have "cstr (m(d := m s)) (s + 1) xs" using Cons.prems by (auto intro: cstr_cong)
  then have "strcpy m d s = Some (copied (m(d := m s)) (d + 1) (s + 1) (length xs + 1))"
    using Cons.IH [of "m(d := m s)" "s + 1" "d + 1"] Cons.prems
    by (subst strcpy.simps) (auto simp del: fun_upd_apply)
  also have "copied (m(d := m s)) (d + 1) (s + 1) (length xs + 1) = copied m d s (Suc (length xs + 1))"
    using copy_up_eq [of d s "Suc (length xs + 1)" m] copy_up_eq [of "d + 1" "s + 1" "length xs + 1" "m(d := m s)"]
      Cons.prems by auto
  finally show ?case by simp
qed

lemma strcmp_cstr:
  "cstr m s1 xs \<Longrightarrow> cstr m s2 ys \<Longrightarrow> \<exists>r. strcmp m s1 s2 = Some r \<and> (r = 0 \<longleftrightarrow> xs = ys)"
proof (induction xs arbitrary: s1 s2 ys)
  case Nil
  then show ?case by (subst strcmp.simps) (cases ys; auto)
next
  case (Cons x xs)
  then show ?case by (subst strcmp.simps) (cases ys; auto)
qed

lemma strchr_loop_cstr:
  "cstr m s xs \<Longrightarrow> strchr_loop m s c =
     Some (if c = 0 \<or> c \<in> set xs then s + length (takeWhile (\<lambda>x. x \<noteq> c) xs) else NULL)"
  by (induction xs arbitrary: s) (subst strchr_loop.simps, auto)+

lemma strchr_cstr_NULL:
  "cstr m d ds \<Longrightarrow> d \<noteq> NULL \<Longrightarrow> \<exists>p. strchr m d c = Some p \<and> (p = NULL \<longleftrightarrow> c \<notin> insert 0 (set ds))"
  by (auto simp: strchr_def strchr_loop_cstr)

lemma strncpy_cstr:
  assumes "cstr m s xs" "d \<le> s \<or> s + length xs < d" "n > length xs"
  shows "strncpy m d s n = filled (copied m d s (length xs)) (d + length xs) (n - length xs + 1) 0"
  using assms
proof (induction xs arbitrary: m d s n)
  case Nil
  then obtain k where "n = Suc k" by (cases n) auto
  with Nil show ?case by (auto simp: zero_fill_eq filled_def copied_def fun_eq_iff)
next
  case (Cons x xs)
  then obtain k where n: "n = Suc k" "k > length xs" by (cases n) auto
  have "cstr (m(d := m s)) (s + 1) xs" using Cons.prems by (auto intro: cstr_cong)
  then have "strncpy m d s n = filled (copied (m(d := m s)) (d + 1) (s + 1) (length xs)) (d + 1 + length xs)
      (k - length xs + 1) 0"
    using Cons.IH [of "m(d := m s)" "s + 1" "d + 1" k] Cons.prems n by (auto simp del: fun_upd_apply)
  also have "copied (m(d := m s)) (d + 1) (s + 1) (length xs) = copied m d s (Suc (length xs))"
    using copy_up_eq [of d s "Suc (length xs)" m] copy_up_eq [of "d + 1" "s + 1" "length xs" "m(d := m s)"]
      Cons.prems by auto
  finally show ?case using n by simp
qed

lemma strncmp_cstr:
  "cstr m s1 xs \<Longrightarrow> cstr m s2 ys \<Longrightarrow> strncmp m s1 s2 n = 0 \<longleftrightarrow> take n xs = take n ys"
proof (induction n arbitrary: s1 s2 xs ys)
  case (Suc n)
  then show ?case by (cases xs; cases ys) auto
qed simp

section \<open>Tokens\<close>

lemma tokens_rest_less:
  assumes "dropWhile P xs \<noteq> []"
  shows "length (tl (dropWhile Q (dropWhile P xs))) < length xs"
proof -
  have "length (tl (dropWhile Q (dropWhile P xs))) < length (dropWhile P xs)"
    using assms length_dropWhile_le [of Q "dropWhile P xs"] by (cases "dropWhile P xs") auto
  then show ?thesis using length_dropWhile_le [of P xs] by linarith
qed

text \<open>The reference: the maximal delimiter-free runs of a string, in order.\<close>

function tokens :: "u8 set \<Rightarrow> u8 list \<Rightarrow> u8 list list" where
  "tokens D xs =
     (let ys = dropWhile (\<lambda>x. x \<in> D) xs in
      if ys = [] then []
      else takeWhile (\<lambda>x. x \<notin> D) ys # tokens D (tl (dropWhile (\<lambda>x. x \<notin> D) ys)))"
  by auto

termination
  by (relation "measure (\<lambda>(D, xs). length xs)")
    (simp_all add: tokens_rest_less del: dropWhile_eq_Nil_conv length_tl)

declare tokens.simps [simp del]

lemma skip_delims_cstr:
  assumes "cstr m d ds" "d \<noteq> NULL"
  shows "cstr m s xs \<Longrightarrow> skip_delims m s d =
    Some (dropWhile (\<lambda>x. x \<in> set ds) xs \<noteq> [], s + length (takeWhile (\<lambda>x. x \<in> set ds) xs))"
proof (induction xs arbitrary: s)
  case (Cons x xs)
  with strchr_cstr_NULL [OF assms, of x] show ?case by (subst skip_delims.simps) auto
qed (use strchr_cstr_NULL [OF assms, of 0] in \<open>subst skip_delims.simps, auto\<close>)

lemma skip_token_cstr:
  assumes "cstr m d ds" "d \<noteq> NULL"
  shows "cstr m s xs \<Longrightarrow> skip_token m s d = Some (s + length (takeWhile (\<lambda>x. x \<notin> set ds) xs))"
proof (induction xs arbitrary: s)
  case (Cons x xs)
  with strchr_cstr_NULL [OF assms, of x] show ?case by (subst skip_token.simps) auto
qed (use strchr_cstr_NULL [OF assms, of 0] in \<open>subst skip_token.simps, auto\<close>)

lemma strtok_r_cstr_end:
  assumes "cstr m d ds" "d \<noteq> NULL" "cstr m buf xs" "dropWhile (\<lambda>x. x \<in> set ds) xs = []"
  shows "strtok_r m NULL d (Some buf) = Some (m, Some (buf + length xs), NULL)"
proof -
  have "length (takeWhile (\<lambda>x. x \<in> set ds) xs) = length xs" using assms(4) by (metis append_Nil2 takeWhile_dropWhile_id)
  then show ?thesis using assms by (simp add: strtok_r_def skip_delims_cstr)
qed

lemma strtok_r_cstr_token:
  assumes d: "cstr m d ds" "d \<noteq> NULL" and c: "cstr m buf xs" "buf \<noteq> NULL"
    and ys: "dropWhile (\<lambda>x. x \<in> set ds) xs = ys" "ys \<noteq> []"
    and tok: "takeWhile (\<lambda>x. x \<notin> set ds) ys = tok" "dropWhile (\<lambda>x. x \<notin> set ds) ys = rest"
  shows "\<exists>m' save t. strtok_r m NULL d (Some buf) = Some (m', Some save, t) \<and> buf \<le> t
    \<and> t + length tok \<le> save \<and> save + length (tl rest) = buf + length xs \<and> cstr m' t tok \<and> cstr m' save (tl rest)
    \<and> (rest \<noteq> [] \<longrightarrow> t + length tok < save) \<and> (rest = [] \<longrightarrow> m' = m)
    \<and> (\<forall>a. a \<noteq> t + length tok \<longrightarrow> m' a = m a)"
proof -
  define pre where "pre = takeWhile (\<lambda>x. x \<in> set ds) xs"
  let ?t = "buf + length pre" and ?e = "buf + length pre + length tok"
  have xs: "xs = pre @ tok @ rest" using ys tok by (metis pre_def takeWhile_dropWhile_id)
  have t: "cstr m ?t (tok @ rest)" using c(1) cstr_append [of m buf pre "tok @ rest"] xs by simp
  have y: "ys = tok @ rest" using tok by (metis takeWhile_dropWhile_id)
  have run: "strtok_r m NULL d (Some buf) =
      Some (if m ?e \<noteq> 0 then (m(?e := 0), Some (?e + 1), ?t) else (m, Some ?e, ?t))"
    using d c ys(2) skip_delims_cstr [OF d c(1)] skip_token_cstr [OF d t] tok y
    by (simp add: strtok_r_def pre_def ys(1))
  show ?thesis
  proof (cases rest)
    case Nil
    then show ?thesis using t run xs cstr_end [OF t] by auto
  next
    case (Cons r rs)
    have e: "cstr m ?e (r # rs)" using cstr_append [OF t] Cons by simp
    have "cstr (m(?e := 0)) ?t tok" by (rule cstr_cut [OF t]) auto
    moreover have "cstr (m(?e := 0)) (?e + 1) rs" using e by (auto intro: cstr_cong)
    ultimately show ?thesis using e Cons run xs by auto
  qed
qed

lemma spawn_args_cstr:
  assumes "cstr m d ds" "d \<noteq> NULL" "cstr m buf xs" "buf \<noteq> NULL"
    and "d + length ds < buf \<or> buf + length xs < d"
  shows "\<exists>m' argv. spawn_args m d buf = Some (m', argv)
    \<and> list_all2 (cstr m') argv (tokens (set ds) xs)
    \<and> (\<forall>a. a < buf \<or> buf + length xs \<le> a \<longrightarrow> m' a = m a)"
  using assms
proof (induction "set ds" xs arbitrary: m buf rule: tokens.induct)
  case (1 xs)
  let ?ys = "dropWhile (\<lambda>x. x \<in> set ds) xs"
  show ?case
  proof (cases "?ys = []")
    case True
    then show ?thesis
      using strtok_r_cstr_end [OF "1.prems"(1-3)] by (subst spawn_args.simps) (simp add: tokens.simps)
  next
    case False
    define tok where "tok = takeWhile (\<lambda>x. x \<notin> set ds) ?ys"
    define rest where "rest = dropWhile (\<lambda>x. x \<notin> set ds) ?ys"
    obtain m1 save t where r: "strtok_r m NULL d (Some buf) = Some (m1, Some save, t)"
      and le: "buf \<le> t" "t + length tok \<le> save" "save + length (tl rest) = buf + length xs"
      and c: "cstr m1 t tok" "cstr m1 save (tl rest)"
      and lt: "rest \<noteq> [] \<longrightarrow> t + length tok < save" "rest = [] \<longrightarrow> m1 = m"
      and fr: "\<forall>a. a \<noteq> t + length tok \<longrightarrow> m1 a = m a"
      using strtok_r_cstr_token [OF "1.prems"(1-4) refl False tok_def [symmetric] rest_def [symmetric]] by blast
    have d1: "cstr m1 d ds" using "1.prems"(1,5) fr le by (auto intro: cstr_cong)
    have sb: "save \<noteq> NULL" using le "1.prems"(4) by auto
    obtain m2 argv where r2: "spawn_args m1 d save = Some (m2, argv)"
      and l2: "list_all2 (cstr m2) argv (tokens (set ds) (tl rest))"
      and fr2: "\<forall>a. a < save \<or> save + length (tl rest) \<le> a \<longrightarrow> m2 a = m1 a"
      using "1.hyps" [OF refl False d1 "1.prems"(2) c(2) [unfolded rest_def] sb] "1.prems"(5) le
      unfolding rest_def [symmetric] by auto
    have "m2 a = m1 a" if "a \<le> t + length tok" for a
      using that fr2 lt le by (cases "rest = []") auto
    then have t2: "cstr m2 t tok" using c(1) by (auto intro: cstr_cong)
    have fr3: "\<forall>a. a < buf \<or> buf + length xs \<le> a \<longrightarrow> m2 a = m a"
      using fr fr2 le lt by (cases "rest = []") auto
    have tk: "tokens (set ds) xs = tok # tokens (set ds) (tl rest)"
      using False by (simp add: tokens.simps [of _ xs] Let_def tok_def rest_def del: dropWhile_eq_Nil_conv)
    have "spawn_args m d buf = Some (m2, t # argv)"
      using r r2 le "1.prems"(4) by (subst spawn_args.simps) simp
    with t2 l2 fr3 show ?thesis unfolding tk by blast
  qed
qed

lemma tokens_length: "2 * length (tokens D xs) \<le> length xs + 1"
proof (induction D xs rule: tokens.induct)
  case (1 D xs)
  let ?ys = "dropWhile (\<lambda>x. x \<in> D) xs"
  show ?case
  proof (cases ?ys)
    case (Cons y ys)
    define rest where "rest = dropWhile (\<lambda>x. x \<notin> D) ?ys"
    have "y \<notin> D" using Cons by (simp add: dropWhile_eq_Cons_conv)
    then have "length rest \<le> length ys"
      using Cons length_dropWhile_le [of "\<lambda>x. x \<notin> D" ys] by (simp add: rest_def)
    moreover have "length (y # ys) \<le> length xs" using length_dropWhile_le [of "\<lambda>x. x \<in> D" xs] Cons by simp
    moreover have "2 * length (tokens D (tl rest)) \<le> length (tl rest) + 1"
      using "1.IH" [OF refl] Cons by (simp add: rest_def)
    moreover have "tokens D (tl rest) = []" if "rest = []" using that by (simp add: tokens.simps)
    moreover have "length (tokens D xs) = Suc (length (tokens D (tl rest)))"
      using Cons by (simp add: tokens.simps [of D xs] rest_def)
    ultimately show ?thesis by (cases "rest = []") (auto simp: length_tl)
  qed (simp add: tokens.simps)
qed

section \<open>Properties\<close>

text \<open>memmove copies n bytes for every placement of source and destination, overlapping or not:
  each destination byte receives the source byte as it was before the call and no other byte changes.\<close>

theorem memmove_copies: "memmove m dest src n = copied m dest src n"
  by (auto simp: memmove_def copy_down_eq intro!: copy_up_eq)

text \<open>The argument loop of sys_spawn ends, and strtok_r hands out exactly the space-separated
  words of the command line: the collected pointers are the words in order, each a terminated
  string, no byte outside the buffer changes, and a line of n characters yields at most
  (n + 1) / 2 words, the bound with which argv is allocated.\<close>

theorem spawn_args_tokens:
  assumes "cstr m d ds" "d \<noteq> NULL" "cstr m buf xs" "buf \<noteq> NULL"
    and "d + length ds < buf \<or> buf + length xs < d"
  shows "\<exists>m' argv. spawn_args m d buf = Some (m', argv)
    \<and> list_all2 (cstr m') argv (tokens (set ds) xs)
    \<and> (\<forall>a. a < buf \<or> buf + length xs \<le> a \<longrightarrow> m' a = m a)
    \<and> length argv \<le> (length xs + 1) div 2"
  using spawn_args_cstr [OF assms] tokens_length [of "set ds" xs]
  by (fastforce dest: list_all2_lengthD)

theorem spawn_args_tokens_witness:
  "\<exists>m' argv. spawn_args ((\<lambda>_. 0)(5 := 32, 10 := 32, 11 := 108, 12 := 115, 13 := 32, 14 := 47)) 5 10 = Some (m', argv)
    \<and> list_all2 (cstr m') argv (tokens (set [32]) [32, 108, 115, 32, 47])
    \<and> (\<forall>a. a < 10 \<or> 10 + length [32, 108, 115, 32, 47 :: u8] \<le> a \<longrightarrow>
         m' a = ((\<lambda>_. 0)(5 := 32, 10 := 32, 11 := 108, 12 := 115, 13 := 32, 14 := 47)) a)
    \<and> length argv \<le> (length [32, 108, 115, 32, 47 :: u8] + 1) div 2"
  by (rule spawn_args_tokens) simp_all

text \<open>strncpy writes one byte too many: when the source string is shorter than n, the call
  stores the string and then zeros up to and including offset n, n + 1 bytes in all, although
  the buffer a caller passes for n has n bytes.\<close>

theorem strncpy_overrun:
  assumes "cstr m src xs" "length xs < n" "dest \<le> src \<or> src + length xs < dest"
  shows "strncpy m dest src n = filled (copied m dest src (length xs)) (dest + length xs) (n - length xs + 1) 0
    \<and> strncpy m dest src n (dest + n) = 0"
  using strncpy_cstr [OF assms(1,3,2)] assms(2) by (simp add: filled_def)

theorem strncpy_overrun_witness:
  "strncpy ((\<lambda>_. 7)(50 := 97, 51 := 0)) 20 50 4 =
     filled (copied ((\<lambda>_. 7)(50 := 97, 51 := 0)) 20 50 (length [97 :: u8])) (20 + length [97 :: u8])
       (4 - length [97 :: u8] + 1) 0
   \<and> strncpy ((\<lambda>_. 7)(50 := 97, 51 := 0)) 20 50 4 (20 + 4) = 0"
  by (rule strncpy_overrun) simp_all

text \<open>strcmp on two terminated strings returns, and its result is zero exactly when the strings are
  equal; strncmp is zero exactly when their prefixes of length n are equal.\<close>

theorem strcmp_equality:
  assumes "cstr m s1 xs" "cstr m s2 ys"
  shows "(\<exists>r. strcmp m s1 s2 = Some r \<and> (r = 0 \<longleftrightarrow> xs = ys))
    \<and> (strncmp m s1 s2 n = 0 \<longleftrightarrow> take n xs = take n ys)"
  using strcmp_cstr [OF assms] strncmp_cstr [OF assms] by blast

theorem strcmp_equality_witness:
  "(\<exists>r. strcmp ((\<lambda>_. 0)(1 := 97, 2 := 98, 9 := 97, 10 := 200)) 1 9 = Some r
       \<and> (r = 0 \<longleftrightarrow> [97, 98] = [97, 200 :: u8]))
    \<and> (strncmp ((\<lambda>_. 0)(1 := 97, 2 := 98, 9 := 97, 10 := 200)) 1 9 1 = 0
       \<longleftrightarrow> take 1 [97, 98] = take 1 [97, 200 :: u8])"
  by (rule strcmp_equality) simp_all

text \<open>Setting a bit of a state word and reading it back gives the value set, and reading any other
  bit gives what it was before, for the 32 bits of the word.\<close>

theorem state_bit_roundtrip:
  assumes "b < 32" "b' < 32"
  shows "get_state_bit (set_state_bit state b v) b' = (if b' = b then v else get_state_bit state b')"
  using assms by (auto simp: get_state_bit_bit bit_set_state_bit)

theorem state_bit_roundtrip_witness:
  "get_state_bit (set_state_bit 5 1 True) 2 = (if (2::nat) = 1 then True else get_state_bit 5 2)"
  by (rule state_bit_roundtrip) simp_all

end
