(* ===== verification/Pipe.thy ===== *)
theory Pipe
  imports Prelude
begin

text \<open>
  The pipe of \<^verbatim>\<open>kernel/pipe.c\<close>: a 512-byte buffer addressed by two free-running 64-bit
  offsets.  The operations are the critical sections between \<open>spinlock_acquire\<close> and
  \<open>spinlock_release\<close> or \<open>condvar_wait\<close>; a call that has to wait gives \<open>Sleep\<close> and is
  run again from its loop head when it is woken.  The buffer is shown to be a bounded queue
  although the offsets wrap, and a transition system over any number of readers and writers
  with the two condition-variable queues delivers the written bytes in order.
\<close>

section \<open>Bounded queues\<close>

text \<open>What a client of a ring buffer relies on: taking from a non-empty buffer yields its oldest
  element, putting into one that is not full adds the newest.\<close>

datatype 'a ring_op = Get | Put 'a

primrec ring_run :: "('s \<Rightarrow> 'a list) \<Rightarrow> nat \<Rightarrow> ('s \<Rightarrow> 'a \<times> 's) \<Rightarrow> ('s \<Rightarrow> 'a \<Rightarrow> 's) \<Rightarrow>
    'a ring_op list \<Rightarrow> 's \<Rightarrow> 's \<times> 'a list \<times> 'a list" where
  "ring_run contents cap get put [] s = (s, [], [])"
| "ring_run contents cap get put (e # es) s =
     (case e of
        Get \<Rightarrow> if contents s = [] then ring_run contents cap get put es s
                else (case get s of (x, s1) \<Rightarrow>
                  case ring_run contents cap get put es s1 of (s2, outs, ins) \<Rightarrow> (s2, x # outs, ins))
      | Put a \<Rightarrow> if length (contents s) < cap
                   then (case ring_run contents cap get put es (put s a) of (s2, outs, ins) \<Rightarrow> (s2, outs, a # ins))
                   else ring_run contents cap get put es s)"

locale ring =
  fixes inv :: "'s \<Rightarrow> bool" and contents :: "'s \<Rightarrow> 'a list" and cap :: nat
    and get :: "'s \<Rightarrow> 'a \<times> 's" and put :: "'s \<Rightarrow> 'a \<Rightarrow> 's"
  assumes get_ok: "inv s \<Longrightarrow> contents s = x # xs \<Longrightarrow> \<exists>s'. get s = (x, s') \<and> inv s' \<and> contents s' = xs"
    and put_ok: "inv s \<Longrightarrow> length (contents s) < cap \<Longrightarrow> inv (put s a) \<and> contents (put s a) = contents s @ [a]"
begin

lemma run_fifo:
  "inv s \<Longrightarrow> ring_run contents cap get put es s = (s', outs, ins) \<Longrightarrow> inv s' \<and> outs @ contents s' = contents s @ ins"
proof (induction es arbitrary: s s' outs ins)
  case (Cons e es)
  show ?case
  proof (cases e)
    case Get
    show ?thesis
    proof (cases "contents s")
      case Nil
      with Cons Get show ?thesis by simp
    next
      case c: (Cons x xs)
      then obtain s1 where s1: "get s = (x, s1)" "inv s1" "contents s1 = xs"
        using get_ok [OF Cons.prems(1)] by blast
      with Cons.IH [OF s1(2)] Cons.prems(2) Get c show ?thesis by (auto split: prod.splits)
    qed
  next
    case (Put a)
    with Cons.IH [of "put s a"] Cons.IH [of s] Cons.prems put_ok [OF Cons.prems(1), of a]
    show ?thesis by (auto split: prod.splits if_splits)
  qed
qed simp

end

section \<open>The pipe\<close>

abbreviation (input) PIPE_SZ :: nat where "PIPE_SZ \<equiv> 512"

record kpipe =
  buffer :: "u8 list"
  read_ofs :: u64
  write_ofs :: u64
  readers :: u64
  writers :: u64
  fd_reader :: int
  fd_writer :: int

definition kpipe_allocate :: "bool \<Rightarrow> kpipe option" where
  "kpipe_allocate kmalloc_ok =
     (if kmalloc_ok
      then Some \<lparr>buffer = replicate PIPE_SZ 0, read_ofs = 0, write_ofs = 0, readers = 0, writers = 0,
                 fd_reader = 0, fd_writer = 0\<rparr>
      else None)"

definition kpipe_init :: "bool \<Rightarrow> int \<Rightarrow> int \<Rightarrow> err_t \<times> kpipe option" where
  "kpipe_init kmalloc_ok r w =
     (case kpipe_allocate kmalloc_ok of
        None \<Rightarrow> (ERR_NOMEM, None)
      | Some p \<Rightarrow> (ERR_OK, Some (p\<lparr>readers := 1, writers := 1, fd_reader := r, fd_writer := w,
                                     read_ofs := 0, write_ofs := 0\<rparr>)))"

definition pipe_get :: "kpipe \<Rightarrow> u8 \<times> kpipe" where
  "pipe_get p = (buffer p ! unat (read_ofs p mod 512), p\<lparr>read_ofs := read_ofs p + 1\<rparr>)"

definition pipe_put :: "kpipe \<Rightarrow> u8 \<Rightarrow> kpipe" where
  "pipe_put p c =
     p\<lparr>buffer := (buffer p)[unat (write_ofs p mod 512) := c], write_ofs := write_ofs p + 1\<rparr>"

fun read_loop :: "kpipe \<Rightarrow> nat \<Rightarrow> u8 list \<Rightarrow> kpipe \<times> u8 list \<times> nat" where
  "read_loop p 0 out = (p, out, 0)"
| "read_loop p (Suc to_read) out =
     (if write_ofs p - read_ofs p \<noteq> 0
      then (case pipe_get p of (c, p) \<Rightarrow> read_loop p to_read (out @ [c]))
      else (p, out, Suc to_read))"

fun write_loop :: "kpipe \<Rightarrow> u8 list \<Rightarrow> nat \<Rightarrow> kpipe \<times> nat" where
  "write_loop p [] written = (p, written)"
| "write_loop p (c # cs) written =
     (if write_ofs p - read_ofs p \<noteq> 512 then write_loop (pipe_put p c) cs (written + 1)
      else (p, written))"

text \<open>The value of a critical section: it returns, or it goes to sleep on its condition variable.
  The flag of a returning call says whether it signals the other side.\<close>

datatype 'a outcome = Sleep | Ret 'a

definition kpipe_read :: "kpipe \<Rightarrow> nat \<Rightarrow> (int \<times> u8 list \<times> kpipe \<times> bool) outcome" where
  "kpipe_read p cnt =
     (if write_ofs p - read_ofs p = 0
      then if writers p = 0 then Ret (0, [], p, False) else Sleep
      else (case read_loop p cnt [] of (p, out, to_read) \<Rightarrow>
        Ret (int (cnt - to_read), out, p, cnt - to_read > 0)))"

definition kpipe_write_resume :: "kpipe \<Rightarrow> u8 list \<Rightarrow> (int \<times> kpipe \<times> bool) outcome" where
  "kpipe_write_resume p bs =
     (if write_ofs p - read_ofs p = 512 then Sleep
      else (case write_loop p bs 0 of (p, written) \<Rightarrow> Ret (int written, p, written > 0)))"

definition kpipe_write :: "kpipe \<Rightarrow> u8 list \<Rightarrow> (int \<times> kpipe \<times> bool) outcome" where
  "kpipe_write p bs = (if readers p = 0 then Ret (ERR_END, p, False) else kpipe_write_resume p bs)"

text \<open>The reference counts are read into an \<open>int\<close>, changed there and stored back.\<close>

definition kpipe_ref_decrease :: "kpipe option \<Rightarrow> int \<Rightarrow> kpipe option" where
  "kpipe_ref_decrease f fd = map_option (\<lambda>p.
     if fd = fd_reader p then p\<lparr>readers := scast (ucast (readers p) - 1 :: 32 word)\<rparr>
     else p\<lparr>writers := scast (ucast (writers p) - 1 :: 32 word)\<rparr>) f"

definition kpipe_ref_increase :: "kpipe option \<Rightarrow> int \<Rightarrow> kpipe option" where
  "kpipe_ref_increase f fd = map_option (\<lambda>p.
     if fd = fd_reader p then p\<lparr>readers := scast (ucast (readers p) + 1 :: 32 word)\<rparr>
     else p\<lparr>writers := scast (ucast (writers p) + 1 :: 32 word)\<rparr>) f"

definition kpipe_close :: "kpipe option \<Rightarrow> kpipe option exec" where
  "kpipe_close f =
     (case f of None \<Rightarrow> None
      | Some p \<Rightarrow> Some (if writers p = 0 \<and> readers p = 0 then None else Some p))"

section \<open>The buffer is a bounded queue\<close>

definition used :: "kpipe \<Rightarrow> nat" where
  "used p = unat (write_ofs p - read_ofs p)"

definition contents :: "kpipe \<Rightarrow> u8 list" where
  "contents p = map (\<lambda>i. buffer p ! ((unat (read_ofs p) + i) mod PIPE_SZ)) [0..<used p]"

definition kpipe_inv :: "kpipe \<Rightarrow> bool" where
  "kpipe_inv p \<longleftrightarrow> length (buffer p) = PIPE_SZ \<and> used p \<le> PIPE_SZ"

lemma length_contents [simp]: "length (contents p) = used p"
  by (simp add: contents_def)

lemma used_0: "write_ofs p - read_ofs p = 0 \<longleftrightarrow> contents p = []"
  by (simp add: contents_def used_def unat_eq_0)

lemma used_full: "write_ofs p - read_ofs p = 512 \<longleftrightarrow> used p = PIPE_SZ"
  by (simp add: used_def word_unat_eq_iff)

lemma unat_mod_512: "unat (x mod 512 :: u64) = unat x mod PIPE_SZ"
  by (simp add: unat_mod)

lemma unat_plus_mod: "(unat (x + 1 :: u64) + i) mod PIPE_SZ = (unat x + Suc i) mod PIPE_SZ"
proof -
  have "unat (x + 1) = (unat x + 1) mod 2 ^ 64" by (simp add: unat_word_ariths)
  moreover have "(k mod 2 ^ 64 + i) mod PIPE_SZ = (k + i) mod PIPE_SZ" for k :: nat
    by (subst mod_add_left_eq [symmetric]) (simp add: mod_mod_cancel mod_add_left_eq)
  ultimately show ?thesis by simp
qed

lemma pipe_get_ok:
  assumes "kpipe_inv p" "contents p = x # xs"
  shows "\<exists>p'. pipe_get p = (x, p') \<and> kpipe_inv p' \<and> contents p' = xs"
proof -
  let ?p = "p\<lparr>read_ofs := read_ofs p + 1\<rparr>"
  have u: "used p = Suc (length xs)" using assms(2) by (metis length_contents length_Cons)
  have "used ?p = unat (write_ofs p - read_ofs p - 1)" by (simp add: used_def algebra_simps)
  moreover have "write_ofs p - read_ofs p \<noteq> 0" unfolding used_0 assms(2) by simp
  ultimately have u': "used ?p = length xs"
    using u unat_minus_one [of "write_ofs p - read_ofs p"] by (simp add: used_def)
  have "contents p = map (\<lambda>i. buffer p ! ((unat (read_ofs p) + i) mod PIPE_SZ)) (0 # map Suc [0..<length xs])"
    unfolding contents_def u by (simp only: upt_conv_Cons map_Suc_upt zero_less_Suc)
  then have "x = buffer p ! (unat (read_ofs p) mod PIPE_SZ)" "contents ?p = xs"
    using assms(2) by (simp_all add: contents_def u' unat_plus_mod comp_def)
  then show ?thesis using assms(1) u u' by (simp add: pipe_get_def unat_mod_512 kpipe_inv_def)
qed

lemma pipe_put_ok:
  assumes "kpipe_inv p" "length (contents p) < PIPE_SZ"
  shows "kpipe_inv (pipe_put p c) \<and> contents (pipe_put p c) = contents p @ [c]"
proof -
  have "used (pipe_put p c) = unat (write_ofs p - read_ofs p + 1)"
    by (simp add: used_def pipe_put_def algebra_simps)
  also have "\<dots> = Suc (used p)" using assms(2) by (simp add: used_def unat_word_ariths)
  finally have u: "used (pipe_put p c) = Suc (used p)" .
  define w where "w = unat (write_ofs p) mod PIPE_SZ"
  have w: "w = (unat (read_ofs p) + used p) mod PIPE_SZ"
  proof -
    have "unat (read_ofs p + (write_ofs p - read_ofs p)) = (unat (read_ofs p) + used p) mod 2 ^ 64"
      unfolding used_def by (subst unat_word_ariths) simp
    then show ?thesis by (simp add: w_def mod_mod_cancel)
  qed
  have old: "w \<noteq> (unat (read_ofs p) + i) mod PIPE_SZ" if "i < used p" for i
    using that assms(2) mod_eq_dvd_iff_nat [of "unat (read_ofs p) + i" "unat (read_ofs p) + used p" PIPE_SZ]
    unfolding w by (auto dest: dvd_imp_le)
  have "contents (pipe_put p c) = contents p @ [c]"
    using assms(1) old w unfolding contents_def u
    by (auto simp: pipe_put_def unat_mod_512 w_def kpipe_inv_def)
  then show ?thesis using assms u by (simp add: kpipe_inv_def pipe_put_def)
qed

interpretation pipe: ring kpipe_inv contents PIPE_SZ pipe_get pipe_put
  by unfold_locales (use pipe_get_ok pipe_put_ok in blast)+

lemma get_fields [simp]:
  "pipe_get p = (c, p') \<Longrightarrow> writers p' = writers p \<and> readers p' = readers p"
  by (auto simp: pipe_get_def)

lemma put_fields [simp]:
  "writers (pipe_put p c) = writers p" "readers (pipe_put p c) = readers p"
  by (auto simp: pipe_put_def)

lemma read_loop_ok:
  assumes "kpipe_inv p" "read_loop p n out = (p', out', left)"
  shows "kpipe_inv p' \<and> out' = out @ take n (contents p) \<and> contents p' = drop n (contents p)
    \<and> n - left = min n (used p) \<and> left \<le> n \<and> writers p' = writers p \<and> readers p' = readers p"
  using assms
proof (induction n arbitrary: p out)
  case (Suc n)
  show ?case
  proof (cases "contents p")
    case Nil
    moreover have "used p = 0" using Nil by (metis length_contents list.size(3))
    ultimately show ?thesis using Suc.prems used_0 [of p] by simp
  next
    case (Cons x xs)
    then obtain q where q: "pipe_get p = (x, q)" "kpipe_inv q" "contents q = xs"
      using pipe.get_ok [OF Suc.prems(1)] by blast
    have "used p = Suc (used q)" using Cons q(3) by (metis length_contents length_Cons)
    with Suc.IH [OF q(2), of "out @ [x]"] Suc.prems(2) q Cons used_0 [of p] get_fields [OF q(1)]
    show ?thesis by auto
  qed
qed simp

lemma write_loop_ok:
  assumes "kpipe_inv p" "write_loop p bs k = (p', k')"
  shows "kpipe_inv p' \<and> k' - k = min (length bs) (PIPE_SZ - used p) \<and> k \<le> k'
    \<and> contents p' = contents p @ take (k' - k) bs \<and> writers p' = writers p \<and> readers p' = readers p"
  using assms
proof (induction bs arbitrary: p k)
  case (Cons b bs)
  show ?case
  proof (cases "used p = PIPE_SZ")
    case True
    with Cons.prems used_full [of p] show ?thesis by auto
  next
    case False
    then have lt: "length (contents p) < PIPE_SZ" using Cons.prems(1) by (simp add: kpipe_inv_def)
    note put = pipe.put_ok [OF Cons.prems(1) lt, of b]
    then have u: "used (pipe_put p b) = Suc (used p)" by (metis length_append_singleton length_contents)
    have r: "write_loop (pipe_put p b) bs (k + 1) = (p', k')" using Cons.prems(2) False used_full [of p] by simp
    then have "k' - k = Suc (k' - (k + 1))" using Cons.IH [OF _ r] put by auto
    with Cons.IH [OF _ r] put u lt show ?thesis by auto
  qed
qed simp

section \<open>Readers and writers\<close>

text \<open>The system: the pipe, the calls asleep on the two condition variables, the calls that have
  been signalled and wait to take the lock again, and the history of bytes the calls moved.\<close>

datatype pipe_call = ReadCall tid_t nat | WriteCall tid_t "u8 list"

record pipe_sys =
  kp :: kpipe
  notempty_cv :: "pipe_call list"
  full_cv :: "pipe_call list"
  woken :: "pipe_call list"
  accepted :: "u8 list"
  delivered :: "u8 list"

definition signal_full :: "pipe_sys \<Rightarrow> pipe_sys" where
  "signal_full s = (case full_cv s of [] \<Rightarrow> s | c # cs \<Rightarrow> s\<lparr>full_cv := cs, woken := woken s @ [c]\<rparr>)"

definition signal_notempty :: "pipe_sys \<Rightarrow> pipe_sys" where
  "signal_notempty s =
     (case notempty_cv s of [] \<Rightarrow> s | c # cs \<Rightarrow> s\<lparr>notempty_cv := cs, woken := woken s @ [c]\<rparr>)"

definition do_read :: "tid_t \<Rightarrow> nat \<Rightarrow> pipe_sys \<Rightarrow> pipe_sys" where
  "do_read t n s =
     (case kpipe_read (kp s) n of
        Sleep \<Rightarrow> s\<lparr>notempty_cv := notempty_cv s @ [ReadCall t n]\<rparr>
      | Ret (r, out, p, sig) \<Rightarrow>
          (let s = s\<lparr>kp := p, delivered := delivered s @ out\<rparr> in if sig then signal_full s else s))"

definition do_write_resume :: "tid_t \<Rightarrow> u8 list \<Rightarrow> pipe_sys \<Rightarrow> pipe_sys" where
  "do_write_resume t bs s =
     (case kpipe_write_resume (kp s) bs of
        Sleep \<Rightarrow> s\<lparr>full_cv := full_cv s @ [WriteCall t bs]\<rparr>
      | Ret (r, p, sig) \<Rightarrow>
          (let s = s\<lparr>kp := p, accepted := accepted s @ take (nat r) bs\<rparr> in
           if sig then signal_notempty s else s))"

definition do_write :: "tid_t \<Rightarrow> u8 list \<Rightarrow> pipe_sys \<Rightarrow> pipe_sys" where
  "do_write t bs s = (if readers (kp s) = 0 then s else do_write_resume t bs s)"

text \<open>One event: a call arrives, the \<open>i\<close>-th woken call runs again, or an end is duplicated or closed.\<close>

datatype pipe_event = EvRead tid_t nat | EvWrite tid_t "u8 list" | EvWake nat | EvInc int | EvDec int

definition wake :: "nat \<Rightarrow> pipe_sys \<Rightarrow> pipe_sys" where
  "wake i s = (let s' = s\<lparr>woken := take i (woken s) @ drop (Suc i) (woken s)\<rparr> in
     case woken s ! i of ReadCall t n \<Rightarrow> do_read t n s' | WriteCall t bs \<Rightarrow> do_write_resume t bs s')"

inductive pipe_step :: "pipe_sys \<Rightarrow> pipe_event \<Rightarrow> pipe_sys \<Rightarrow> bool" where
  ReadStep: "pipe_step s (EvRead t n) (do_read t n s)"
| WriteStep: "pipe_step s (EvWrite t bs) (do_write t bs s)"
| WakeStep: "i < length (woken s) \<Longrightarrow> pipe_step s (EvWake i) (wake i s)"
| IncStep: "kpipe_ref_increase (Some (kp s)) fd = Some p \<Longrightarrow> pipe_step s (EvInc fd) (s\<lparr>kp := p\<rparr>)"
| DecStep: "kpipe_ref_decrease (Some (kp s)) fd = Some p \<Longrightarrow> pipe_step s (EvDec fd) (s\<lparr>kp := p\<rparr>)"

inductive pipe_run :: "pipe_sys \<Rightarrow> pipe_event list \<Rightarrow> pipe_sys \<Rightarrow> bool" where
  RunNil: "pipe_run s [] s"
| RunCons: "pipe_step s e s1 \<Longrightarrow> pipe_run s1 es s2 \<Longrightarrow> pipe_run s (e # es) s2"

inductive_cases pipe_stepE: "pipe_step s e s'"

definition pipe_start :: "kpipe \<Rightarrow> pipe_sys" where
  "pipe_start p = \<lparr>kp = p, notempty_cv = [], full_cv = [], woken = [], accepted = [], delivered = []\<rparr>"

definition fifo_inv :: "pipe_sys \<Rightarrow> bool" where
  "fifo_inv s \<longleftrightarrow> kpipe_inv (kp s) \<and> delivered s @ contents (kp s) = accepted s"

lemma signal_fields [simp]:
  "kp (signal_full s) = kp s" "accepted (signal_full s) = accepted s" "delivered (signal_full s) = delivered s"
  "notempty_cv (signal_full s) = notempty_cv s"
  "kp (signal_notempty s) = kp s" "accepted (signal_notempty s) = accepted s"
  "delivered (signal_notempty s) = delivered s"
  by (auto simp: signal_full_def signal_notempty_def split: list.splits)

lemma kpipe_read_cases:
  assumes "kpipe_inv p"
  shows "kpipe_read p n = Sleep \<and> contents p = [] \<and> writers p \<noteq> 0 \<or>
    (\<exists>p'. kpipe_read p n = Ret (int (length (take n (contents p))), take n (contents p), p', take n (contents p) \<noteq> [])
       \<and> (contents p = [] \<longrightarrow> writers p = 0) \<and> kpipe_inv p' \<and> contents p' = drop n (contents p)
       \<and> writers p' = writers p \<and> readers p' = readers p)"
proof (cases "contents p = []")
  case True
  then show ?thesis using assms used_0 [of p] by (simp add: kpipe_read_def)
next
  case False
  obtain p' out left where r: "read_loop p n [] = (p', out, left)" by (metis prod_cases3)
  have "used p > 0" using False length_contents [of p] by (metis length_greater_0_conv)
  then have "left < n \<longleftrightarrow> take n (contents p) \<noteq> []"
    using read_loop_ok [OF assms r] False by (cases n) auto
  then show ?thesis using False read_loop_ok [OF assms r] r used_0 [of p]
    by (simp add: kpipe_read_def min.commute)
qed

lemma kpipe_write_resume_cases:
  assumes "kpipe_inv p" "k = min (length bs) (PIPE_SZ - used p)"
  shows "kpipe_write_resume p bs = Sleep \<and> used p = PIPE_SZ \<or>
    (\<exists>p'. kpipe_write_resume p bs = Ret (int k, p', k > 0) \<and> used p < PIPE_SZ
       \<and> kpipe_inv p' \<and> contents p' = contents p @ take k bs \<and> writers p' = writers p \<and> readers p' = readers p)"
proof (cases "used p = PIPE_SZ")
  case True
  then show ?thesis using used_full [of p] by (simp add: kpipe_write_resume_def)
next
  case False
  moreover obtain p' k' where r: "write_loop p bs 0 = (p', k')" by fastforce
  ultimately show ?thesis using write_loop_ok [OF assms(1) r] assms used_full [of p]
    by (simp add: kpipe_write_resume_def kpipe_inv_def)
qed

lemma do_read_inv [inv_intros]: "fifo_inv s \<Longrightarrow> fifo_inv (do_read t n s)"
  using kpipe_read_cases [of "kp s" n] by (auto simp: do_read_def fifo_inv_def Let_def)

lemma do_write_resume_inv [inv_intros]: "fifo_inv s \<Longrightarrow> fifo_inv (do_write_resume t bs s)"
  using kpipe_write_resume_cases [of "kp s" _ bs, OF _ refl]
  by (auto simp: do_write_resume_def fifo_inv_def Let_def)

lemma wake_inv [inv_intros]: "fifo_inv s \<Longrightarrow> fifo_inv (wake i s)"
  by (auto simp: wake_def Let_def split: pipe_call.splits intro!: inv_intros) (auto simp: fifo_inv_def)

lemma ref_fields:
  "kpipe_ref_increase (Some q) fd = Some p \<Longrightarrow> contents p = contents q \<and> kpipe_inv p = kpipe_inv q"
  "kpipe_ref_decrease (Some q) fd = Some p \<Longrightarrow> contents p = contents q \<and> kpipe_inv p = kpipe_inv q"
  by (cases "fd = fd_reader q";
      force simp: kpipe_ref_increase_def kpipe_ref_decrease_def contents_def kpipe_inv_def used_def)+

lemma pipe_step_inv: "pipe_step s e s' \<Longrightarrow> fifo_inv s \<Longrightarrow> fifo_inv s'"
  by (induction rule: pipe_step.induct)
    (auto simp: do_write_def ref_fields fifo_inv_def [of "_\<lparr>kp := _\<rparr>"] intro!: inv_intros, auto simp: fifo_inv_def)

lemma pipe_run_inv: "pipe_run s es s' \<Longrightarrow> fifo_inv s \<Longrightarrow> fifo_inv s'"
  by (induction rule: pipe_run.induct) (auto dest: pipe_step_inv)

subsection \<open>A reader that nobody wakes\<close>

definition no_writer_left :: "pipe_sys \<Rightarrow> bool" where
  "no_writer_left s \<longleftrightarrow> kpipe_inv (kp s) \<and> contents (kp s) = [] \<and> writers (kp s) = 0
     \<and> list_all (\<lambda>c. case c of ReadCall _ _ \<Rightarrow> True | WriteCall _ _ \<Rightarrow> False) (woken s @ full_cv s)"

definition reader_event :: "int \<Rightarrow> pipe_event \<Rightarrow> bool" where
  "reader_event r e = (case e of EvWrite _ _ \<Rightarrow> False | EvInc fd \<Rightarrow> fd = r | EvDec fd \<Rightarrow> fd = r | _ \<Rightarrow> True)"

lemma do_read_no_writer: "no_writer_left s \<Longrightarrow> do_read t n s = s"
  using used_0 [of "kp s"] by (simp add: do_read_def kpipe_read_def no_writer_left_def Let_def)

lemma reader_step_stuck:
  assumes "pipe_step s e s'" "no_writer_left s" "reader_event (fd_reader (kp s)) e"
  shows "no_writer_left s' \<and> notempty_cv s' = notempty_cv s \<and> fd_reader (kp s') = fd_reader (kp s)"
  using assms
proof (cases rule: pipe_step.cases)
  case (WakeStep i)
  let ?s = "s\<lparr>woken := take i (woken s) @ drop (Suc i) (woken s)\<rparr>"
  have n: "no_writer_left ?s" using assms(2)
    by (auto simp: no_writer_left_def list_all_iff dest: in_set_takeD in_set_dropD)
  have "woken s ! i \<in> set (woken s)" using WakeStep by simp
  moreover have "\<exists>t k. c = ReadCall t k" if "c \<in> set (woken s)" for c
    using that assms(2) by (cases c rule: pipe_call.exhaust) (force simp: no_writer_left_def list_all_iff)+
  ultimately obtain t k where "woken s ! i = ReadCall t k" by blast
  then show ?thesis using WakeStep n by (simp add: wake_def do_read_no_writer [OF n])
qed (auto simp: do_read_no_writer reader_event_def no_writer_left_def kpipe_inv_def contents_def used_def
       kpipe_ref_increase_def kpipe_ref_decrease_def)

lemma reader_run_stuck:
  "pipe_run s es s' \<Longrightarrow> no_writer_left s \<Longrightarrow> list_all (reader_event (fd_reader (kp s))) es \<Longrightarrow>
     notempty_cv s' = notempty_cv s"
  by (induction rule: pipe_run.induct) (auto dest!: reader_step_stuck)

section \<open>Properties\<close>

text \<open>The 512-byte pipe buffer with its free-running 64-bit offsets is a first-in first-out
  queue: for every sequence of single-byte takes and puts that respects emptiness and fullness,
  the bytes taken followed by the bytes left are the bytes first there followed by those put,
  also when the offsets wrap around.\<close>

theorem pipe_buffer_fifo:
  assumes "kpipe_inv p" "ring_run contents PIPE_SZ pipe_get pipe_put ops p = (p', outs, ins)"
  shows "kpipe_inv p' \<and> outs @ contents p' = contents p @ ins"
  using pipe.run_fifo [OF assms] .

theorem pipe_buffer_fifo_witness:
  "let p = \<lparr>buffer = replicate PIPE_SZ 9, read_ofs = - 1, write_ofs = 0, readers = 1, writers = 1, fd_reader = 3, fd_writer = 4\<rparr>
   in case ring_run contents PIPE_SZ pipe_get pipe_put [Put 1, Put 2, Get, Get] p of
        (p', outs, ins) \<Rightarrow> kpipe_inv p' \<and> outs @ contents p' = contents p @ ins"
  unfolding Let_def
  by (intro case_prodI2, rule pipe_buffer_fifo) (simp add: kpipe_inv_def used_def, simp only:)

text \<open>C24. Whatever the order in which readers and writers call, sleep, are woken and run again, and ends
  are duplicated and closed, the bytes delivered to readers are a prefix of the bytes accepted
  from writers and the rest is in the buffer: nothing is lost, duplicated or reordered.\<close>

theorem pipe_stream_order:
  assumes "kpipe_init True r w = (ERR_OK, Some p)" "pipe_run (pipe_start p) es s"
  shows "delivered s @ contents (kp s) = accepted s \<and> kpipe_inv (kp s)"
proof -
  have "fifo_inv (pipe_start p)" using assms(1)
    by (auto simp: kpipe_init_def kpipe_allocate_def fifo_inv_def pipe_start_def kpipe_inv_def used_def contents_def)
  then show ?thesis using pipe_run_inv [OF assms(2)] by (simp add: fifo_inv_def)
qed

theorem pipe_stream_order_witness:
  "let p = the (snd (kpipe_init True 3 4)); s = do_write 2 [10, 20] (do_read 1 5 (pipe_start p)) in
   delivered s @ contents (kp s) = accepted s \<and> kpipe_inv (kp s)"
proof -
  let ?p = "the (snd (kpipe_init True 3 4))"
  have "kpipe_init True 3 4 = (ERR_OK, Some ?p)" by (simp add: kpipe_init_def kpipe_allocate_def)
  from pipe_stream_order [OF this, of "[EvRead 1 5, EvWrite 2 [10, 20]]"] show ?thesis
    by (simp add: Let_def) (blast intro: pipe_run.intros pipe_step.intros)
qed

text \<open>kpipe_read on a well-formed pipe: an empty pipe gives end of file if there is no writer and
  sleeps otherwise; a pipe with data gives the oldest bytes, as many as requested and available,
  removes exactly those and wakes a writer iff at least one byte was taken.\<close>

theorem kpipe_read_spec:
  assumes "kpipe_inv p"
  shows "case kpipe_read p n of
      Sleep \<Rightarrow> contents p = [] \<and> writers p \<noteq> 0
    | Ret (r, out, p', sig) \<Rightarrow> (contents p = [] \<longrightarrow> writers p = 0) \<and> out = take n (contents p) \<and> r = int (length out)
        \<and> contents p' = drop n (contents p) \<and> kpipe_inv p' \<and> (sig \<longleftrightarrow> out \<noteq> [])"
  using kpipe_read_cases [OF assms, of n] by auto

theorem kpipe_read_spec_witness:
  "case kpipe_read (pipe_put (the (snd (kpipe_init True 3 4))) 65) 2 of
      Sleep \<Rightarrow> contents (pipe_put (the (snd (kpipe_init True 3 4))) 65) = []
        \<and> writers (pipe_put (the (snd (kpipe_init True 3 4))) 65) \<noteq> 0
    | Ret (r, out, p', sig) \<Rightarrow>
        (contents (pipe_put (the (snd (kpipe_init True 3 4))) 65) = [] \<longrightarrow>
          writers (pipe_put (the (snd (kpipe_init True 3 4))) 65) = 0)
        \<and> out = take 2 (contents (pipe_put (the (snd (kpipe_init True 3 4))) 65)) \<and> r = int (length out)
        \<and> contents p' = drop 2 (contents (pipe_put (the (snd (kpipe_init True 3 4))) 65))
        \<and> kpipe_inv p' \<and> (sig \<longleftrightarrow> out \<noteq> [])"
  by (rule kpipe_read_spec)
    (simp add: kpipe_init_def kpipe_allocate_def kpipe_inv_def used_def pipe_put_def)

text \<open>kpipe_write with a reader present: it sleeps exactly when the buffer is full, and otherwise
  appends as many of the given bytes as fit, returns that number and wakes a reader iff it is
  positive; with no reader it returns ERR_END and leaves the pipe alone.\<close>

theorem kpipe_write_spec:
  assumes "kpipe_inv p" "k = min (length bs) (PIPE_SZ - used p)"
  shows "case kpipe_write p bs of
      Sleep \<Rightarrow> readers p \<noteq> 0 \<and> used p = PIPE_SZ
    | Ret (r, p', sig) \<Rightarrow>
        if readers p = 0 then r = ERR_END \<and> p' = p \<and> \<not> sig
        else used p < PIPE_SZ \<and> r = int k \<and> contents p' = contents p @ take k bs \<and> kpipe_inv p' \<and> (sig \<longleftrightarrow> k > 0)"
  using kpipe_write_resume_cases [OF assms] by (auto simp: kpipe_write_def)

theorem kpipe_write_spec_witness:
  "case kpipe_write (the (snd (kpipe_init True 3 4))) [7, 8] of
      Sleep \<Rightarrow> readers (the (snd (kpipe_init True 3 4))) \<noteq> 0 \<and> used (the (snd (kpipe_init True 3 4))) = PIPE_SZ
    | Ret (r, p', sig) \<Rightarrow>
        if readers (the (snd (kpipe_init True 3 4))) = 0
        then r = ERR_END \<and> p' = the (snd (kpipe_init True 3 4)) \<and> \<not> sig
        else used (the (snd (kpipe_init True 3 4))) < PIPE_SZ \<and> r = int 2
          \<and> contents p' = contents (the (snd (kpipe_init True 3 4))) @ take 2 [7, 8] \<and> kpipe_inv p' \<and> (sig \<longleftrightarrow> (2::nat) > 0)"
  by (rule kpipe_write_spec) (simp_all add: kpipe_init_def kpipe_allocate_def kpipe_inv_def used_def)

text \<open>Closing the last write end does not wake a sleeping reader, and nothing later does: once the
  buffer is empty and no writer is left, a reader asleep in kpipe_read stays asleep through
  every further sequence of reads, wake-ups and changes of the read end's reference count,
  although kpipe_read would return end of file if it were run again.\<close>

theorem closed_pipe_reader_sleeps:
  assumes "no_writer_left s" "ReadCall t n \<in> set (notempty_cv s)"
    and "list_all (reader_event (fd_reader (kp s))) es" "pipe_run s es s'"
  shows "ReadCall t n \<in> set (notempty_cv s') \<and> kpipe_read (kp s) n = Ret (0, [], kp s, False)"
  using reader_run_stuck [OF assms(4,1,3)] assms(1,2) used_0 [of "kp s"]
  by (simp add: kpipe_read_def no_writer_left_def)

theorem closed_pipe_reader_sleeps_witness:
  "let p = the (snd (kpipe_init True 3 4)); s = (do_read 1 5 (pipe_start p))\<lparr>kp := the (kpipe_ref_decrease (Some p) 4)\<rparr> in
   ReadCall 1 5 \<in> set (notempty_cv s) \<and> kpipe_read (kp s) 5 = Ret (0, [], kp s, False)"
proof -
  let ?p = "the (snd (kpipe_init True 3 4))"
  let ?s = "(do_read 1 5 (pipe_start ?p))\<lparr>kp := the (kpipe_ref_decrease (Some ?p) 4)\<rparr>"
  have "pipe_run ?s [] ?s" by (rule pipe_run.intros)
  moreover have "no_writer_left ?s" "ReadCall 1 5 \<in> set (notempty_cv ?s)"
    by (simp_all add: no_writer_left_def do_read_def kpipe_read_def kpipe_init_def kpipe_allocate_def pipe_start_def
        kpipe_ref_decrease_def kpipe_inv_def used_def contents_def)
  ultimately show ?thesis using closed_pipe_reader_sleeps [of ?s 1 5 "[]" ?s] by (simp add: Let_def)
qed

end
