(* ===== verification/Synch.thy ===== *)
theory Synch
  imports Prelude
begin

text \<open>
  Interrupt levels (\<^verbatim>\<open>arch/x86_64/kernel/trap.c\<close>), spinlocks, sleeplocks and condition
  variables (\<^verbatim>\<open>kernel/synch.c\<close>).  Interrupt masking is a function on the state of one
  processor.  The spinlock is a transition system in which every access to shared memory (the
  test of \<open>lock_status\<close>, the atomic exchange, the writes of \<open>holder\<close> and of
  \<open>lock_status\<close>) is a step of its own, for any number of threads.  The sleeplock is a transition
  system over its critical sections.  The lemmas show that nested masking restores the
  interrupt flag, mutual exclusion of both locks, that the self-deadlock panic is reached
  only by a thread that asks twice, and that a released sleeplock always leaves a woken
  thread behind when somebody waits.
\<close>

section \<open>Interrupt levels\<close>

datatype intr_t = INTR_OFF | INTR_ON

record cpu =
  eflags_if :: bool
  num_disabled :: int
  intr_enabled :: bool

definition intr_get_level :: "cpu \<Rightarrow> intr_t" where
  "intr_get_level c = (if eflags_if c then INTR_ON else INTR_OFF)"

definition intr_set_level :: "intr_t \<Rightarrow> cpu \<Rightarrow> (intr_t \<times> cpu) exec" where
  "intr_set_level level c =
     (let current_level = intr_get_level c in
      if level = INTR_ON then do {
        kassert (current_level = INTR_OFF);
        if num_disabled c = 0 then Some (current_level, c\<lparr>eflags_if := True\<rparr>)
        else do {
          let c = (if num_disabled c > 0 then c\<lparr>num_disabled := num_disabled c - 1\<rparr> else c);
          let c = (if num_disabled c = 0 \<and> intr_enabled c then c\<lparr>eflags_if := True\<rparr> else c);
          Some (current_level, c) } }
      else do {
        let c = c\<lparr>eflags_if := False\<rparr>;
        let c = (if num_disabled c = 0 then c\<lparr>intr_enabled := (current_level = INTR_ON)\<rparr> else c);
        Some (current_level, c\<lparr>num_disabled := num_disabled c + 1\<rparr>) })"

primrec intr_run :: "intr_t list \<Rightarrow> cpu \<Rightarrow> cpu exec" where
  "intr_run [] c = Some c"
| "intr_run (l # ls) c = do { (_, c) \<leftarrow> intr_set_level l c; intr_run ls c }"

text \<open>Properly nested sections: each \<open>INTR_OFF\<close> is matched by a later \<open>INTR_ON\<close>.\<close>

inductive nested :: "intr_t list \<Rightarrow> bool" where
  NestNil: "nested []"
| NestWrap: "nested xs \<Longrightarrow> nested ys \<Longrightarrow> nested (INTR_OFF # xs @ INTR_ON # ys)"

lemma intr_run_append: "intr_run (xs @ ys) c = Option.bind (intr_run xs c) (intr_run ys)"
  by (induction xs arbitrary: c) (auto split: option.splits bind_splits)

lemma nested_inside:
  "nested xs \<Longrightarrow> \<not> eflags_if c \<Longrightarrow> num_disabled c > 0 \<Longrightarrow> intr_run xs c = Some c"
  by (induction arbitrary: c rule: nested.induct)
    (auto simp: intr_run_append intr_set_level_def intr_get_level_def Let_def)

lemma nested_outside:
  "nested xs \<Longrightarrow> eflags_if c \<Longrightarrow> num_disabled c = 0 \<Longrightarrow> intr_enabled c \<Longrightarrow> intr_run xs c = Some c"
  by (induction arbitrary: c rule: nested.induct)
    (auto simp: intr_run_append intr_set_level_def intr_get_level_def Let_def nested_inside)

section \<open>Spinlocks\<close>

text \<open>Where a thread is: outside, about to read \<open>lock_status\<close> in the loop of \<open>spinlock_acquire\<close>, having
  read zero and about to exchange, holding the status word but not yet the holder field, inside
  the critical section, or having cleared the holder field on its way out.  A thread at
  \<open>Try\<close> is the same exchange in \<open>spinlock_try_acquire\<close>; \<open>Panic\<close> is the stop of a thread
  that asks for a lock it holds.\<close>

datatype spin_pc = Outside | Spinning | Exchange | TryRead | TryExchange | Got | Inside | Leaving | Panic

record spinlock =
  lock_status :: u8
  intrlock :: u8
  sl_holder :: "tid_t option"

record spin_sys =
  lk :: spinlock
  pc :: "tid_t \<Rightarrow> spin_pc"

definition spinlock_init :: "u8 \<Rightarrow> spinlock" where
  "spinlock_init intr = \<lparr>lock_status = 0, intrlock = intr, sl_holder = None\<rparr>"

definition set_pc :: "tid_t \<Rightarrow> spin_pc \<Rightarrow> spin_sys \<Rightarrow> spin_sys" where
  "set_pc t p s = s\<lparr>pc := (pc s)(t := p)\<rparr>"

definition set_status :: "u8 \<Rightarrow> spin_sys \<Rightarrow> spin_sys" where
  "set_status v s = s\<lparr>lk := (lk s)\<lparr>lock_status := v\<rparr>\<rparr>"

definition set_holder :: "tid_t option \<Rightarrow> spin_sys \<Rightarrow> spin_sys" where
  "set_holder h s = s\<lparr>lk := (lk s)\<lparr>sl_holder := h\<rparr>\<rparr>"

text \<open>One step of \<open>spinlock_acquire\<close>, \<open>spinlock_try_acquire\<close> and \<open>spinlock_release\<close> by thread \<open>t\<close>, once
  \<open>synch_enabled\<close> is set.  The release is called by the thread that acquired the lock, which the code does not check: the
  scheduler's lock, which is handed over at a switch, is outside this system.\<close>

inductive spin_step :: "spin_sys \<Rightarrow> tid_t \<Rightarrow> spin_sys \<Rightarrow> bool" where
  Enter: "pc s t = Outside \<Longrightarrow> sl_holder (lk s) \<noteq> Some t \<Longrightarrow> spin_step s t (set_pc t Spinning s)"
| EnterPanic: "pc s t = Outside \<or> pc s t = Inside \<Longrightarrow> sl_holder (lk s) = Some t \<Longrightarrow> spin_step s t (set_pc t Panic s)"
| ReadBusy: "pc s t = Spinning \<Longrightarrow> lock_status (lk s) \<noteq> 0 \<Longrightarrow> spin_step s t s"
| ReadFree: "pc s t = Spinning \<Longrightarrow> lock_status (lk s) = 0 \<Longrightarrow> spin_step s t (set_pc t Exchange s)"
| ExchangeLost: "pc s t = Exchange \<Longrightarrow> lock_status (lk s) \<noteq> 0 \<Longrightarrow>
    spin_step s t (set_pc t Spinning (set_status 1 s))"
| ExchangeWon: "pc s t = Exchange \<Longrightarrow> lock_status (lk s) = 0 \<Longrightarrow> spin_step s t (set_pc t Got (set_status 1 s))"
| TryEnter: "pc s t = Outside \<Longrightarrow> sl_holder (lk s) \<noteq> Some t \<Longrightarrow> spin_step s t (set_pc t TryRead s)"
| TryBusy: "pc s t = TryRead \<Longrightarrow> lock_status (lk s) \<noteq> 0 \<Longrightarrow> spin_step s t (set_pc t Outside s)"
| TryFree: "pc s t = TryRead \<Longrightarrow> lock_status (lk s) = 0 \<Longrightarrow> spin_step s t (set_pc t TryExchange s)"
| TryLost: "pc s t = TryExchange \<Longrightarrow> lock_status (lk s) \<noteq> 0 \<Longrightarrow>
    spin_step s t (set_pc t Outside (set_status 1 s))"
| TryWon: "pc s t = TryExchange \<Longrightarrow> lock_status (lk s) = 0 \<Longrightarrow> spin_step s t (set_pc t Got (set_status 1 s))"
| Hold: "pc s t = Got \<Longrightarrow> spin_step s t (set_pc t Inside (set_holder (Some t) s))"
| Unhold: "pc s t = Inside \<Longrightarrow> spin_step s t (set_pc t Leaving (set_holder None s))"
| Unlock: "pc s t = Leaving \<Longrightarrow> spin_step s t (set_pc t Outside (set_status 0 s))"

definition spin_start :: spin_sys where
  "spin_start = \<lparr>lk = spinlock_init 0, pc = \<lambda>_. Outside\<rparr>"

inductive spin_reach :: "spin_sys \<Rightarrow> bool" where
  SpinStart: "spin_reach spin_start"
| SpinStep: "spin_reach s \<Longrightarrow> spin_step s t s' \<Longrightarrow> spin_reach s'"

text \<open>A thread owns the lock from its successful exchange to its store of zero.\<close>

definition owns :: "spin_sys \<Rightarrow> tid_t \<Rightarrow> bool" where
  "owns s t \<longleftrightarrow> pc s t \<in> {Got, Inside, Leaving, Panic}"

definition spin_inv :: "spin_sys \<Rightarrow> bool" where
  "spin_inv s \<longleftrightarrow> (\<forall>t u. owns s t \<longrightarrow> owns s u \<longrightarrow> t = u)
     \<and> (\<forall>t. owns s t \<longrightarrow> lock_status (lk s) \<noteq> 0)
     \<and> (\<forall>t. sl_holder (lk s) = Some t \<longleftrightarrow> pc s t \<in> {Inside, Panic})"

lemma spin_fields [simp]:
  "lk (set_pc t p s) = lk s" "pc (set_pc t p s) u = (if u = t then p else pc s u)"
  "lock_status (lk (set_status v s)) = v" "sl_holder (lk (set_status v s)) = sl_holder (lk s)"
  "pc (set_status v s) = pc s" "pc (set_holder h s) = pc s"
  "lock_status (lk (set_holder h s)) = lock_status (lk s)" "sl_holder (lk (set_holder h s)) = h"
  by (auto simp: set_pc_def set_status_def set_holder_def)

lemma owns_set_pc [simp]:
  "owns (set_pc t p s) u \<longleftrightarrow> (if u = t then p \<in> {Got, Inside, Leaving, Panic} else owns s u)"
  "owns (set_status v s) u = owns s u" "owns (set_holder h s) u = owns s u"
  by (auto simp: owns_def)

lemma spin_inv_wait:
  assumes "spin_inv s" "\<not> owns s t" "p \<in> {Outside, Spinning, Exchange, TryRead, TryExchange}"
  shows "spin_inv (set_pc t p s)" "spin_inv (set_pc t p (set_status 1 s))"
  using assms by (auto simp: spin_inv_def owns_def)

lemma spin_inv_win:
  "spin_inv s \<Longrightarrow> lock_status (lk s) = 0 \<Longrightarrow> spin_inv (set_pc t Got (set_status 1 s))"
  by (auto simp: spin_inv_def owns_def)

lemma spin_inv_owner:
  assumes "\<And>u. u \<noteq> t \<Longrightarrow> \<not> owns s u" "owns s t \<Longrightarrow> lock_status (lk s) \<noteq> 0"
    and "sl_holder (lk s) = (if pc s t \<in> {Inside, Panic} then Some t else None)"
  shows "spin_inv s"
proof -
  have n: "pc s u \<notin> {Inside, Panic}" if "u \<noteq> t" for u using assms(1) [OF that] by (simp add: owns_def)
  have "sl_holder (lk s) = Some u \<longleftrightarrow> pc s u \<in> {Inside, Panic}" for u
    using assms(3) n [of u] by (cases "u = t") simp_all
  moreover have "owns s u \<Longrightarrow> u = t" for u using assms(1) by blast
  ultimately show ?thesis unfolding spin_inv_def using assms(2) by blast
qed

lemma spin_inv_holder: "spin_inv s \<Longrightarrow> sl_holder (lk s) = Some t \<longleftrightarrow> pc s t \<in> {Inside, Panic}"
  by (simp only: spin_inv_def)

lemma spin_inv_others: "spin_inv s \<Longrightarrow> owns s t \<Longrightarrow> u \<noteq> t \<Longrightarrow> \<not> owns s u"
  by (metis spin_inv_def)

lemma spin_inv_status: "spin_inv s \<Longrightarrow> owns s t \<Longrightarrow> lock_status (lk s) \<noteq> 0"
  by (metis spin_inv_def)

lemma spin_inv_step: "spin_step s t s' \<Longrightarrow> spin_inv s \<Longrightarrow> spin_inv s'"
proof (induction rule: spin_step.induct)
  case (EnterPanic s t)
  then have o: "owns s t" using spin_inv_holder [of s t] by (auto simp: owns_def)
  from spin_inv_others [OF EnterPanic(3) o] spin_inv_status [OF EnterPanic(3) o] EnterPanic(2)
  show ?case by (intro spin_inv_owner [where t = t]) simp_all
next
  case (Hold s t)
  then have o: "owns s t" by (simp add: owns_def)
  from spin_inv_others [OF Hold(2) o] spin_inv_status [OF Hold(2) o]
  show ?case by (intro spin_inv_owner [where t = t]) simp_all
next
  case (Unhold s t)
  then have o: "owns s t" by (simp add: owns_def)
  from spin_inv_others [OF Unhold(2) o] spin_inv_status [OF Unhold(2) o]
  show ?case by (intro spin_inv_owner [where t = t]) simp_all
next
  case (Unlock s t)
  then have o: "owns s t" by (simp add: owns_def)
  have "sl_holder (lk s) \<noteq> Some u" for u
    using Unlock spin_inv_others [OF Unlock(2) o, of u] spin_inv_holder [OF Unlock(2), of u]
    by (cases "u = t") (simp_all add: owns_def)
  then have "sl_holder (lk s) = None" by (metis not_Some_eq)
  with spin_inv_others [OF Unlock(2) o]
  show ?case by (intro spin_inv_owner [where t = t]) simp_all
qed (simp_all add: owns_def spin_inv_wait spin_inv_win)

lemma spin_reach_inv: "spin_reach s \<Longrightarrow> spin_inv s"
  by (induction rule: spin_reach.induct)
    (auto simp: spin_inv_step, simp add: spin_inv_def spin_start_def spinlock_init_def owns_def)

section \<open>Sleeplocks\<close>

text \<open>A sleeplock and the threads around it: the holder field, the queue of its condition variable,
  and the threads that were taken off the queue by a signal and have not yet looked again.\<close>

record sleeplock =
  holder :: "tid_t option"
  waiters :: "tid_t list"
  awake :: "tid_t list"

definition sleeplock_init :: sleeplock where
  "sleeplock_init = \<lparr>holder = None, waiters = [], awake = []\<rparr>"

text \<open>Every operation does nothing until \<open>synch_init\<close> has set \<open>synch_enabled\<close>, its first argument here.\<close>

definition condvar_wait :: "bool \<Rightarrow> tid_t \<Rightarrow> sleeplock \<Rightarrow> sleeplock" where
  "condvar_wait synch_enabled t l = (if \<not> synch_enabled then l else l\<lparr>waiters := waiters l @ [t]\<rparr>)"

definition condvar_signal :: "bool \<Rightarrow> sleeplock \<Rightarrow> sleeplock" where
  "condvar_signal synch_enabled l =
     (if \<not> synch_enabled then l
      else (case waiters l of [] \<Rightarrow> l | t # ts \<Rightarrow> l\<lparr>waiters := ts, awake := awake l @ [t]\<rparr>))"

primrec broadcast_loop :: "tid_t list \<Rightarrow> sleeplock \<Rightarrow> sleeplock" where
  "broadcast_loop [] l = l"
| "broadcast_loop (t # ts) l = broadcast_loop ts (l\<lparr>waiters := remove1 t (waiters l), awake := awake l @ [t]\<rparr>)"

definition condvar_broadcast :: "bool \<Rightarrow> sleeplock \<Rightarrow> sleeplock" where
  "condvar_broadcast synch_enabled l = (if \<not> synch_enabled then l else broadcast_loop (waiters l) l)"

text \<open>The body of the loop of \<open>sleeplock_acquire\<close>, entered on the call and again after each wake-up.\<close>

definition sleeplock_acquire :: "bool \<Rightarrow> tid_t \<Rightarrow> sleeplock \<Rightarrow> sleeplock" where
  "sleeplock_acquire synch_enabled t l =
     (if \<not> synch_enabled then l
      else if holder l \<noteq> None then condvar_wait synch_enabled t l
      else l\<lparr>holder := Some t\<rparr>)"

definition sleeplock_release :: "bool \<Rightarrow> tid_t \<Rightarrow> sleeplock \<Rightarrow> sleeplock exec" where
  "sleeplock_release synch_enabled t l =
     (if \<not> synch_enabled then Some l
      else do {
        kassert (holder l = Some t);
        Some (condvar_signal synch_enabled (l\<lparr>holder := None\<rparr>)) })"

inductive sleep_step :: "sleeplock \<Rightarrow> sleeplock \<Rightarrow> bool" where
  Acquire: "holder l \<noteq> Some t \<Longrightarrow> t \<notin> set (waiters l) \<union> set (awake l) \<Longrightarrow>
    sleep_step l (sleeplock_acquire True t l)"
| Retry: "awake l = us @ t # vs \<Longrightarrow> sleep_step l (sleeplock_acquire True t (l\<lparr>awake := us @ vs\<rparr>))"
| Release: "sleeplock_release True t l = Some l' \<Longrightarrow> sleep_step l l'"

lemma broadcast_loop_all:
  "waiters l = ts @ us \<Longrightarrow> broadcast_loop ts l = l\<lparr>waiters := us, awake := awake l @ ts\<rparr>"
  by (induction ts arbitrary: l) auto

inductive sleep_reach :: "sleeplock \<Rightarrow> bool" where
  SleepStart: "sleep_reach sleeplock_init"
| SleepStep: "sleep_reach l \<Longrightarrow> sleep_step l l' \<Longrightarrow> sleep_reach l'"

definition sleep_inv :: "sleeplock \<Rightarrow> bool" where
  "sleep_inv l \<longleftrightarrow> distinct (waiters l @ awake l)
     \<and> (\<forall>t. holder l = Some t \<longrightarrow> t \<notin> set (waiters l) \<union> set (awake l))
     \<and> (holder l = None \<longrightarrow> waiters l \<noteq> [] \<longrightarrow> awake l \<noteq> [])"

lemma sleep_inv_step: "sleep_step l l' \<Longrightarrow> sleep_inv l \<Longrightarrow> sleep_inv l'"
  by (induction rule: sleep_step.induct)
    (auto simp: sleep_inv_def sleeplock_acquire_def sleeplock_release_def condvar_wait_def
      condvar_signal_def split: list.splits)

lemma sleep_reach_inv: "sleep_reach l \<Longrightarrow> sleep_inv l"
  by (induction rule: sleep_reach.induct)
    (auto simp: sleep_inv_step, simp add: sleep_inv_def sleeplock_init_def)

section \<open>Properties\<close>

text \<open>Nested masking of interrupts: on a processor with interrupts enabled, every properly nested
  sequence of intr_set_level(INTR_OFF) and intr_set_level(INTR_ON) runs without tripping its
  assertion and ends in the state it started from; inside an open section interrupts stay off.\<close>

theorem intr_nesting:
  assumes "nested xs" "eflags_if c" "num_disabled c = 0" "intr_enabled c"
  shows "intr_run xs c = Some c
    \<and> (\<exists>c'. intr_run (INTR_OFF # xs) c = Some c' \<and> intr_get_level c' = INTR_OFF \<and> num_disabled c' = 1)"
  using nested_outside [OF assms] nested_inside [OF assms(1)] assms(2-4)
  by (auto simp: intr_set_level_def intr_get_level_def Let_def)

theorem intr_nesting_witness:
  "let c = \<lparr>eflags_if = True, num_disabled = 0, intr_enabled = True\<rparr>; xs = [INTR_OFF, INTR_OFF, INTR_ON, INTR_ON] in
   intr_run xs c = Some c
   \<and> (\<exists>c'. intr_run (INTR_OFF # xs) c = Some c' \<and> intr_get_level c' = INTR_OFF \<and> num_disabled c' = 1)"
proof -
  have "nested [INTR_OFF, INTR_ON]" using NestWrap [OF NestNil NestNil] by simp
  then have "nested [INTR_OFF, INTR_OFF, INTR_ON, INTR_ON]" using NestWrap [OF _ NestNil] by fastforce
  then show ?thesis unfolding Let_def by (rule intr_nesting) simp_all
qed

text \<open>C33. Spinlock mutual exclusion at the granularity of single memory accesses, if a lock is released by the thread that acquired it: in every reachable state
  at most one thread is between its successful exchange and its store of zero, the thread inside
  the critical section is the one recorded in the holder field, and a thread stops in the
  self-deadlock panic only while it holds the lock itself.\<close>

theorem spinlock_mutex:
  assumes "spin_reach s"
  shows "(owns s t \<and> owns s u \<longrightarrow> t = u)
    \<and> (pc s t = Inside \<longrightarrow> sl_holder (lk s) = Some t)
    \<and> (sl_holder (lk s) = Some t \<longrightarrow> pc s t = Inside \<or> pc s t = Panic)"
  using spin_reach_inv [OF assms] by (auto simp: spin_inv_def)

theorem spinlock_mutex_witness:
  "\<exists>s. spin_reach s \<and> pc s 1 = Inside \<and> pc s 2 = Spinning \<and> sl_holder (lk s) = Some 1 \<and> \<not> owns s 2"
proof -
  let ?s1 = "set_pc 1 Spinning spin_start"
  let ?s2 = "set_pc 1 Exchange ?s1"
  let ?s3 = "set_pc 1 Got (set_status 1 ?s2)"
  let ?s4 = "set_pc 1 Inside (set_holder (Some 1) ?s3)"
  let ?s = "set_pc 2 Spinning ?s4"
  have "spin_reach ?s1" by (rule SpinStep [OF SpinStart Enter]) (simp_all add: spin_start_def spinlock_init_def)
  then have "spin_reach ?s2"
    by (rule SpinStep [OF _ ReadFree]) (simp_all add: spin_start_def spinlock_init_def set_pc_def)
  then have "spin_reach ?s3"
    by (rule SpinStep [OF _ ExchangeWon]) (simp_all add: spin_start_def spinlock_init_def set_pc_def)
  then have "spin_reach ?s4" by (rule SpinStep [OF _ Hold]) (simp add: set_pc_def)
  then have r: "spin_reach ?s"
    by (rule SpinStep [OF _ Enter]) (simp_all add: spin_start_def set_pc_def set_holder_def set_status_def)
  have p: "pc ?s 1 = Inside" "pc ?s 2 = Spinning" by (simp_all add: set_pc_def)
  from spinlock_mutex [OF r, of 1 2] p r show ?thesis
    by (intro exI [of _ ?s]) (auto simp: owns_def)
qed

text \<open>C34. Sleeplocks lose no wake-up: in every reachable state of a sleeplock, if it is free and some thread
  is still queued on its condition variable then a woken thread is on its way to take it; no
  thread is queued twice, and the holder is not queued.\<close>

theorem sleeplock_no_lost_wakeup:
  assumes "sleep_reach l"
  shows "(holder l = None \<and> waiters l \<noteq> [] \<longrightarrow> awake l \<noteq> []) \<and> distinct (waiters l @ awake l)
    \<and> (\<forall>t. holder l = Some t \<longrightarrow> t \<notin> set (waiters l @ awake l))"
  using sleep_reach_inv [OF assms] by (auto simp: sleep_inv_def)

theorem sleeplock_no_lost_wakeup_witness:
  "\<exists>l. sleep_reach l \<and> waiters l = [2] \<and> holder l = Some 1
    \<and> (holder l = None \<and> waiters l \<noteq> [] \<longrightarrow> awake l \<noteq> []) \<and> distinct (waiters l @ awake l)
    \<and> (\<forall>t. holder l = Some t \<longrightarrow> t \<notin> set (waiters l @ awake l))"
proof -
  let ?l = "sleeplock_acquire True 2 (sleeplock_acquire True 1 sleeplock_init)"
  have "sleep_reach ?l"
    by (intro SleepStep [OF SleepStep [OF SleepStart Acquire] Acquire])
      (simp_all add: sleeplock_init_def sleeplock_acquire_def)
  from sleeplock_no_lost_wakeup [OF this] this show ?thesis
    by (intro exI [of _ ?l]) (simp add: sleeplock_init_def sleeplock_acquire_def condvar_wait_def)
qed

end
