(* ===== verification/Page.thy ===== *)
theory Page
  imports Prelude
begin

text \<open>
  Pages, addresses and permissions: the inline functions of \<^verbatim>\<open>include/kernel/vm.h\<close> and the paging
  macros of \<^verbatim>\<open>arch/x86_64/include/arch/mmu.h\<close>, on 64-bit words.  The lemmas give their
  values as arithmetic on naturals, including what happens when rounding up wraps.
\<close>

section \<open>Rounding\<close>

definition pg_size :: u64 where "pg_size = 4096"

definition pg_round_up :: "vaddr_t \<Rightarrow> vaddr_t" where
  "pg_round_up addr = (addr + pg_size - 1) AND NOT (pg_size - 1)"

definition pg_round_down :: "vaddr_t \<Rightarrow> vaddr_t" where
  "pg_round_down addr = addr AND NOT (pg_size - 1)"

definition pg_ofs :: "vaddr_t \<Rightarrow> vaddr_t" where
  "pg_ofs addr = addr AND (pg_size - 1)"

definition pg_aligned :: "vaddr_t \<Rightarrow> bool" where
  "pg_aligned addr \<longleftrightarrow> addr AND (pg_size - 1) = 0"

section \<open>Permissions\<close>

datatype memperm = MEMPERM_R | MEMPERM_RW | MEMPERM_UR | MEMPERM_URW

definition kvm_base :: vaddr_t where "kvm_base = 0xFFFFFFFF80000000"

definition is_user_addr :: "vaddr_t \<Rightarrow> bool" where
  "is_user_addr addr \<longleftrightarrow> addr < kvm_base"

definition is_kern_memperm :: "memperm \<Rightarrow> bool" where
  "is_kern_memperm perm \<longleftrightarrow> perm = MEMPERM_R \<or> perm = MEMPERM_RW"

definition is_write_memperm :: "memperm \<Rightarrow> bool" where
  "is_write_memperm perm \<longleftrightarrow> perm = MEMPERM_RW \<or> perm = MEMPERM_URW"

section \<open>Page table macros\<close>

type_synonym pte_t = u64

definition PHYS_ADDR_MASK :: u64 where "PHYS_ADDR_MASK = NOT 0xFFF8000000000000"

definition VPN :: "u64 \<Rightarrow> u64" where "VPN v = v AND NOT 0xFFF"

definition PPN :: "u64 \<Rightarrow> u64" where "PPN p = p AND NOT 0xFFF AND PHYS_ADDR_MASK"

definition ENTRY_IDX :: "u64 \<Rightarrow> nat \<Rightarrow> nat" where
  "ENTRY_IDX v shift = unat (drop_bit shift v AND 0x1FF)"

definition PTX :: "u64 \<Rightarrow> nat" where "PTX v = ENTRY_IDX v 12"
definition PDX :: "u64 \<Rightarrow> nat" where "PDX v = ENTRY_IDX v 21"
definition PDPTX :: "u64 \<Rightarrow> nat" where "PDPTX v = ENTRY_IDX v 30"
definition PML4X :: "u64 \<Rightarrow> nat" where "PML4X v = ENTRY_IDX v 39"

definition ENTRY_ADDR :: "u64 \<Rightarrow> u64" where "ENTRY_ADDR e = e AND NOT 0xFFF AND PHYS_ADDR_MASK"
definition ENTRY_FLAGS :: "u64 \<Rightarrow> u64" where "ENTRY_FLAGS e = e AND 0xFFF"

abbreviation (input) PTE_P :: u64 where "PTE_P \<equiv> 1"
abbreviation (input) PTE_W :: u64 where "PTE_W \<equiv> 2"
abbreviation (input) PTE_U :: u64 where "PTE_U \<equiv> 4"
abbreviation (input) PTE_A :: u64 where "PTE_A \<equiv> 0x20"
abbreviation (input) PTE_D :: u64 where "PTE_D \<equiv> 0x40"

definition KMAP_BASE :: u64 where "KMAP_BASE = 0xFFFFFFFF80000000"
definition KMAP_V2P :: "vaddr_t \<Rightarrow> paddr_t" where "KMAP_V2P v = v - KMAP_BASE"
definition KMAP_P2V :: "paddr_t \<Rightarrow> vaddr_t" where "KMAP_P2V p = p + KMAP_BASE"
definition USTACK_UPPERBOUND :: u64 where "USTACK_UPPERBOUND = 0xFFFFFF7FFFFFF000"
definition USTACK_LOWERBOUND :: u64 where "USTACK_LOWERBOUND = USTACK_UPPERBOUND - 10 * pg_size"

section \<open>Arithmetic\<close>

lemma mask_12: "(0xFFF :: u64) = mask 12"
  by (simp add: mask_eq_exp_minus_1)

lemma pg_size_mask: "pg_size - 1 = mask 12"
  by (simp add: pg_size_def mask_eq_exp_minus_1)

lemma unat_and_mask_12: "unat (a AND mask 12 :: u64) = unat a mod 4096"
  unfolding take_bit_eq_mask [symmetric] unsigned_take_bit_eq by (simp add: take_bit_eq_mod)

lemma and_not_mask_12: "a AND NOT (mask 12) = a - (a AND mask 12 :: u64)"
proof -
  have "(a AND NOT (mask 12)) + (a AND mask 12) = (a AND NOT (mask 12)) OR (a AND mask 12)"
    by (rule disjunctive_add) (simp add: bit_simps)
  also have "\<dots> = a" by (rule bit_eqI) (auto simp: bit_simps)
  finally show ?thesis by (simp add: eq_diff_eq)
qed

lemma unat_and_not_mask_12: "unat (a AND NOT (mask 12) :: u64) = unat a div 4096 * 4096"
proof -
  have "a AND mask 12 \<le> a" by (simp add: word_and_le2)
  then have "unat (a AND NOT (mask 12)) = unat a - unat a mod 4096"
    by (simp add: and_not_mask_12 unat_sub unat_and_mask_12)
  then show ?thesis by (simp add: minus_mod_eq_div_mult)
qed

lemma unat_pg_round_down: "unat (pg_round_down a) = unat a div 4096 * 4096"
  by (simp only: pg_round_down_def pg_size_mask unat_and_not_mask_12)

lemma unat_pg_ofs: "unat (pg_ofs a) = unat a mod 4096"
  by (simp only: pg_ofs_def pg_size_mask unat_and_mask_12)

lemma pg_aligned_iff: "pg_aligned a \<longleftrightarrow> 4096 dvd unat a"
  by (simp only: pg_aligned_def pg_size_mask word_unat_eq_iff unat_and_mask_12 unat_0 dvd_eq_mod_eq_0)

lemma unat_pg_round_up:
  assumes "unat a \<le> 2 ^ 64 - 4096"
  shows "unat (pg_round_up a) = (unat a + 4095) div 4096 * 4096"
proof -
  have "unat (a + pg_size - 1) = unat a + 4095"
    using assms by (simp add: pg_size_def unat_word_ariths)
  then show ?thesis by (simp only: pg_round_up_def pg_size_mask unat_and_not_mask_12)
qed

lemma ENTRY_IDX_eq: "ENTRY_IDX v shift = unat v div 2 ^ shift mod 512"
proof -
  have "(0x1FF :: u64) = mask 9" by (simp add: mask_eq_exp_minus_1)
  then have "ENTRY_IDX v shift = unat (take_bit 9 (drop_bit shift v))" by (simp only: ENTRY_IDX_def take_bit_eq_mask)
  then show ?thesis unfolding unsigned_take_bit_eq unat_drop_bit_eq
    by (simp add: take_bit_eq_mod drop_bit_eq_div)
qed

lemma ENTRY_IDX_less [simp]: "ENTRY_IDX v shift < 512"
  by (simp add: ENTRY_IDX_eq)

end
