(* ===== verification/Pmem.thy ===== *)
theory Pmem
  imports Page Cstring Synch
begin

text \<open>
  The physical memory allocator of \<^verbatim>\<open>kernel/mm/pmem.c\<close>: the boot bitmap and the binary buddy
  allocator.  A page is identified by its index in \<open>pagemap\<close>, and the free list of an order is
  the sequence of indices its kernel list holds.  The invariant \<open>binv\<close> says that the allocated
  blocks, the free blocks and the blocks held by the running operation are aligned, pairwise
  disjoint and together cover a given set of pages.  The lemmas show that splitting, merging,
  allocation and freeing keep it, that every operation returns, and what the boot allocator's
  search really finds.
\<close>

section \<open>State\<close>

abbreviation (input) MAX_ORDER :: nat where "MAX_ORDER \<equiv> 10"

record page =
  lock :: sleeplock
  kmem_cache :: ptr
  slab :: ptr
  rmap :: ptr
  refcnt :: int
  order :: nat
  state :: state_t
  blk_headers :: "ptr list"

record pmem =
  pagemap :: "nat \<Rightarrow> page"
  n_pages :: nat
  freeblocks :: "nat \<Rightarrow> nat list"
  pagemap_initialized :: bool
  pmem_start :: nat
  bitmap :: "nat \<Rightarrow> bool"
  bitmap_contig_start :: nat
  bitmap_end :: nat

definition upd_page :: "nat \<Rightarrow> (page \<Rightarrow> page) \<Rightarrow> pmem \<Rightarrow> pmem" where
  "upd_page i f pm = pm\<lparr>pagemap := (pagemap pm)(i := f (pagemap pm i))\<rparr>"

section \<open>The boot allocator\<close>

text \<open>Indices and lengths are page counts from \<open>pmem_start\<close>, itself kept as a page number.\<close>

primrec bitmap_set_loop :: "nat \<Rightarrow> nat \<Rightarrow> pmem \<Rightarrow> pmem exec" where
  "bitmap_set_loop i 0 pm = Some pm"
| "bitmap_set_loop i (Suc n) pm = do {
     kassert (\<not> bitmap pm i);
     bitmap_set_loop (i + 1) n (pm\<lparr>bitmap := (bitmap pm)(i := True)\<rparr>) }"

definition bitmap_alloc :: "pmem \<Rightarrow> nat \<Rightarrow> nat \<Rightarrow> pmem exec" where
  "bitmap_alloc pm index n = do {
     kassert (index + n \<le> bitmap_end pm);
     pm \<leftarrow> bitmap_set_loop index n pm;
     Some (if index + n > bitmap_contig_start pm then pm\<lparr>bitmap_contig_start := index + n\<rparr> else pm) }"

primrec bitmap_clear_loop :: "nat \<Rightarrow> nat \<Rightarrow> pmem \<Rightarrow> pmem exec" where
  "bitmap_clear_loop i 0 pm = Some pm"
| "bitmap_clear_loop i (Suc n) pm = do {
     kassert (bitmap pm i);
     bitmap_clear_loop (i + 1) n (pm\<lparr>bitmap := (bitmap pm)(i := False)\<rparr>) }"

primrec scan_down :: "(nat \<Rightarrow> bool) \<Rightarrow> nat \<Rightarrow> nat" where
  "scan_down b 0 = 0"
| "scan_down b (Suc index) = (if b index then Suc index else scan_down b index)"

definition bitmap_free :: "pmem \<Rightarrow> nat \<Rightarrow> nat \<Rightarrow> pmem exec" where
  "bitmap_free pm index n = do {
     kassert (index + n \<le> bitmap_end pm);
     kassert (index + n \<le> bitmap_contig_start pm);
     pm \<leftarrow> bitmap_clear_loop index n pm;
     Some (if index + n = bitmap_contig_start pm
           then pm\<lparr>bitmap_contig_start := scan_down (bitmap pm) index\<rparr> else pm) }"

text \<open>The search loop at index \<open>i\<close> with \<open>k\<close> indices left.  The result is \<open>None\<close> for the value -1.\<close>

primrec bitmap_find_loop :: "(nat \<Rightarrow> bool) \<Rightarrow> nat \<Rightarrow> nat \<Rightarrow> nat \<Rightarrow> nat \<Rightarrow> nat \<Rightarrow> nat option" where
  "bitmap_find_loop b n i first n_free 0 = None"
| "bitmap_find_loop b n i first n_free (Suc k) =
     (if b i then bitmap_find_loop b n (i + 1) (first + 1) 0 k
      else if n_free + 1 \<ge> n then Some first
      else bitmap_find_loop b n (i + 1) first (n_free + 1) k)"

definition bitmap_find :: "pmem \<Rightarrow> nat \<Rightarrow> nat option exec" where
  "bitmap_find pm n = do {
     kassert (n > 0);
     Some (bitmap_find_loop (bitmap pm) n 0 0 0 (bitmap_end pm)) }"

section \<open>The buddy allocator\<close>

definition get_max_page_order :: "nat \<Rightarrow> nat \<Rightarrow> nat exec" where
  "get_max_page_order start_index end_index = do {
     kassert (end_index > start_index);
     Some (case find (\<lambda>ord. start_index mod 2 ^ ord = 0 \<and> start_index + 2 ^ ord \<le> end_index)
              (rev [1..<MAX_ORDER + 1]) of
             Some ord \<Rightarrow> ord | None \<Rightarrow> 0) }"

definition get_min_page_order :: "nat \<Rightarrow> nat exec" where
  "get_min_page_order n = find (\<lambda>ord. 2 ^ ord \<ge> n) [0..<MAX_ORDER + 1]"

definition find_buddy :: "pmem \<Rightarrow> nat \<Rightarrow> nat option exec" where
  "find_buddy pm pg = (let ord = order (pagemap pm pg) in do {
     kassert (ord \<le> MAX_ORDER);
     kassert (pg mod 2 ^ ord = 0);
     let index = pg div 2 ^ ord;
     let buddy = (if odd index then pg - 2 ^ ord else pg + 2 ^ ord);
     Some (if buddy \<ge> n_pages pm then None else Some buddy) })"

definition freeblocks_insert :: "pmem \<Rightarrow> nat \<Rightarrow> pmem exec" where
  "freeblocks_insert pm pg = (let ord = order (pagemap pm pg) in do {
     kassert (ord \<le> MAX_ORDER);
     let pm = upd_page pg (\<lambda>p. p\<lparr>refcnt := 0\<rparr>) pm;
     Some (pm\<lparr>freeblocks := (freeblocks pm)(ord := freeblocks pm ord @ [pg])\<rparr>) })"

text \<open>\<open>list_remove\<close> on the page's node: it leaves the list it is in; a node in no list has no
  neighbours to link.\<close>

definition freeblocks_remove :: "pmem \<Rightarrow> nat \<Rightarrow> pmem exec" where
  "freeblocks_remove pm pg = do {
     kassert (refcnt (pagemap pm pg) = 0);
     kassert (order (pagemap pm pg) \<le> MAX_ORDER);
     kassert (list_ex (\<lambda>ord. pg \<in> set (freeblocks pm ord)) [0..<MAX_ORDER + 1]);
     Some (pm\<lparr>freeblocks := \<lambda>ord. remove1 pg (freeblocks pm ord)\<rparr>) }"

partial_function (option) find_freeblock :: "pmem \<Rightarrow> nat \<Rightarrow> bool \<Rightarrow> (nat option \<times> pmem) exec" where
  "find_freeblock pm ord split =
     (if ord > MAX_ORDER then Some (None, pm)
      else do {
        (r, pm) \<leftarrow>
          (case freeblocks pm ord of
             pg # _ \<Rightarrow> do { pm \<leftarrow> freeblocks_remove pm pg; Some (Some pg, pm) }
           | [] \<Rightarrow> find_freeblock pm (ord + 1) True);
        case r of
          None \<Rightarrow> Some (None, pm)
        | Some pg \<Rightarrow>
            if split then do {
              let pm = upd_page pg (\<lambda>p. p\<lparr>order := ord - 1\<rparr>) pm;
              b \<leftarrow> find_buddy pm pg;
              case b of
                None \<Rightarrow> None
              | Some buddy \<Rightarrow> do {
                  let pm = upd_page buddy (\<lambda>p. p\<lparr>order := ord - 1\<rparr>) pm;
                  pm \<leftarrow> freeblocks_insert pm buddy;
                  Some (Some pg, pm) } }
            else Some (Some pg, pm) })"

partial_function (option) merge_block :: "pmem \<Rightarrow> nat \<Rightarrow> (nat \<times> pmem) exec" where
  "merge_block pm pg = do {
     kassert (refcnt (pagemap pm pg) = 0);
     kassert (order (pagemap pm pg) \<le> MAX_ORDER);
     if order (pagemap pm pg) = MAX_ORDER then Some (pg, pm)
     else do {
       b \<leftarrow> find_buddy pm pg;
       case b of
         None \<Rightarrow> Some (pg, pm)
       | Some buddy \<Rightarrow>
           if refcnt (pagemap pm buddy) = 0 \<and> order (pagemap pm buddy) = order (pagemap pm pg) then do {
             pm \<leftarrow> freeblocks_remove pm buddy;
             if pg < buddy then merge_block (upd_page pg (\<lambda>p. p\<lparr>order := order p + 1\<rparr>) pm) pg
             else merge_block (upd_page buddy (\<lambda>p. p\<lparr>order := order p + 1\<rparr>) pm) buddy }
           else Some (pg, pm) } }"

partial_function (option) freeblocks_insert_range :: "pmem \<Rightarrow> nat \<Rightarrow> nat \<Rightarrow> pmem exec" where
  "freeblocks_insert_range pm start fin =
     (if start < fin then do {
        ord \<leftarrow> get_max_page_order start fin;
        pm \<leftarrow> freeblocks_insert (upd_page start (\<lambda>p. p\<lparr>order := ord\<rparr>) pm) start;
        freeblocks_insert_range pm (start + 2 ^ ord) fin }
      else Some pm)"

definition paddr_to_page :: "paddr_t \<Rightarrow> nat" where
  "paddr_to_page paddr = unat (paddr div pg_size)"

definition page_to_paddr :: "nat \<Rightarrow> paddr_t" where
  "page_to_paddr pg = of_nat pg * pg_size"

abbreviation (input) PAGE_DIRTY_BIT :: nat where "PAGE_DIRTY_BIT \<equiv> 0"

definition pmem_is_page_dirty :: "page \<Rightarrow> bool" where
  "pmem_is_page_dirty p = get_state_bit (state p) PAGE_DIRTY_BIT"

definition pmem_set_page_dirty :: "bool \<Rightarrow> page \<Rightarrow> page" where
  "pmem_set_page_dirty dirty p = p\<lparr>state := set_state_bit (state p) PAGE_DIRTY_BIT dirty\<rparr>"

definition pmem_nalloc :: "pmem \<Rightarrow> nat \<Rightarrow> (err_t \<times> paddr_t option \<times> pmem) exec" where
  "pmem_nalloc pm n = do {
     kassert (n > 0);
     if \<not> pagemap_initialized pm then do {
       r \<leftarrow> bitmap_find pm n;
       case r of
         None \<Rightarrow> Some (ERR_NOMEM, None, pm)
       | Some index \<Rightarrow> do {
           pm \<leftarrow> bitmap_alloc pm index n;
           Some (ERR_OK, Some (page_to_paddr (index + pmem_start pm)), pm) } }
     else do {
       ord \<leftarrow> get_min_page_order n;
       (r, pm) \<leftarrow> find_freeblock pm ord False;
       case r of
         None \<Rightarrow> Some (ERR_NOMEM, None, pm)
       | Some pg \<Rightarrow> do {
           let pm = upd_page pg (\<lambda>p. pmem_set_page_dirty False
                 (p\<lparr>lock := sleeplock_init, kmem_cache := NULL, slab := NULL, rmap := NULL\<rparr>)) pm;
           kassert (refcnt (pagemap pm pg) = 0);
           let pm = upd_page pg (\<lambda>p. p\<lparr>refcnt := 1, blk_headers := []\<rparr>) pm;
           kassert (page_to_paddr pg \<noteq> 0);
           Some (ERR_OK, Some (page_to_paddr pg), pm) } } }"

definition pmem_nfree :: "pmem \<Rightarrow> paddr_t \<Rightarrow> nat \<Rightarrow> pmem exec" where
  "pmem_nfree pm paddr n = do {
     kassert (n > 0);
     if \<not> pagemap_initialized pm then bitmap_free pm (paddr_to_page paddr - pmem_start pm) n
     else do {
       let pm = upd_page (paddr_to_page paddr) (\<lambda>p. p\<lparr>refcnt := 0\<rparr>) pm;
       (pg, pm) \<leftarrow> merge_block pm (paddr_to_page paddr);
       freeblocks_insert pm pg } }"

definition pmem_alloc :: "pmem \<Rightarrow> (err_t \<times> paddr_t option \<times> pmem) exec" where
  "pmem_alloc pm = pmem_nalloc pm 1"

definition pmem_free :: "pmem \<Rightarrow> paddr_t \<Rightarrow> pmem exec" where
  "pmem_free pm paddr = pmem_nfree pm paddr 1"

text \<open>The reference count is an integer without a bound; the \<open>int\<close> of the code holds it up to \<open>2 ^ 31 - 1\<close> references to a page.\<close>

definition pmem_inc_refcnt :: "pmem \<Rightarrow> paddr_t \<Rightarrow> nat \<Rightarrow> pmem exec" where
  "pmem_inc_refcnt pm paddr n = (let pg = paddr_to_page paddr in do {
     kassert (refcnt (pagemap pm pg) > 0);
     kassert (order (pagemap pm pg) = 0);
     Some (upd_page pg (\<lambda>p. p\<lparr>refcnt := refcnt p + int n\<rparr>) pm) })"

definition pmem_dec_refcnt :: "pmem \<Rightarrow> paddr_t \<Rightarrow> pmem exec" where
  "pmem_dec_refcnt pm paddr = (let pg = paddr_to_page paddr in do {
     kassert (refcnt (pagemap pm pg) > 0);
     kassert (order (pagemap pm pg) = 0);
     let pm = upd_page pg (\<lambda>p. p\<lparr>refcnt := refcnt p - 1\<rparr>) pm;
     if refcnt (pagemap pm pg) = 0 then pmem_nfree pm paddr 1 else Some pm })"

text \<open>Setting up the buddy allocator from the boot bitmap.\<close>

primrec mark_unavailable :: "nat \<Rightarrow> pmem \<Rightarrow> pmem" where
  "mark_unavailable 0 pm = pm"
| "mark_unavailable (Suc k) pm =
     upd_page k (\<lambda>p. p\<lparr>refcnt := 1, order := 0\<rparr>) (mark_unavailable k pm)"

function probe_free :: "(nat \<Rightarrow> bool) \<Rightarrow> nat \<Rightarrow> nat \<Rightarrow> nat" where
  "probe_free b lim probe = (if probe < lim \<and> \<not> b probe then probe_free b lim (probe + 1) else probe)"
  by auto
termination by (relation "measure (\<lambda>(b, lim, probe). lim - probe)") auto

declare probe_free.simps [simp del]

partial_function (option) add_boot_pages :: "pmem \<Rightarrow> nat \<Rightarrow> pmem exec" where
  "add_boot_pages pm index =
     (if index < bitmap_contig_start pm then
        if bitmap pm index
        then add_boot_pages (upd_page (index + pmem_start pm) (\<lambda>p. p\<lparr>refcnt := 1, order := 0\<rparr>) pm) (index + 1)
        else do {
          let probe = probe_free (bitmap pm) (bitmap_contig_start pm) (index + 1);
          pm \<leftarrow> freeblocks_insert_range pm (index + pmem_start pm) (probe + pmem_start pm);
          add_boot_pages pm probe }
      else Some pm)"

definition bitmap_n_pages :: "pmem \<Rightarrow> nat" where
  "bitmap_n_pages pm = (bitmap_end pm div 8 + 4095) div 4096"

definition freeblocks_init :: "pmem \<Rightarrow> pmem exec" where
  "freeblocks_init pm = do {
     pm \<leftarrow> pmem_nfree pm (page_to_paddr (pmem_start pm)) (bitmap_n_pages pm);
     let pm = pm\<lparr>freeblocks := \<lambda>_. []\<rparr>;
     let pm = mark_unavailable (pmem_start pm) pm;
     pm \<leftarrow> add_boot_pages pm 0;
     freeblocks_insert_range pm (bitmap_contig_start pm + pmem_start pm) (n_pages pm) }"

text \<open>\<open>page_struct_size\<close> is \<open>sizeof(struct page)\<close>; the fresh page map is zeroed.\<close>

definition zero_page :: page where
  "zero_page = \<lparr>lock = sleeplock_init, kmem_cache = NULL, slab = NULL, rmap = NULL, refcnt = 0, order = 0,
     state = 0, blk_headers = []\<rparr>"

definition pagemap_init :: "nat \<Rightarrow> pmem \<Rightarrow> pmem exec" where
  "pagemap_init page_struct_size pm = do {
     (err, _, pm) \<leftarrow> pmem_nalloc pm ((n_pages pm * page_struct_size + 4095) div 4096);
     kassert (err = ERR_OK);
     Some (pm\<lparr>pagemap := \<lambda>_. zero_page\<rparr>) }"

definition bitmap_init :: "pmem \<Rightarrow> pmem exec" where
  "bitmap_init pm = do {
     kassert (pmem_start pm < n_pages pm);
     let pm = pm\<lparr>bitmap_contig_start := 0, bitmap_end := n_pages pm - pmem_start pm\<rparr>;
     kassert (bitmap_n_pages pm < bitmap_end pm);
     let pm = pm\<lparr>bitmap := \<lambda>_. False\<rparr>;
     bitmap_alloc pm 0 (bitmap_n_pages pm) }"

definition pmem_boot_init :: "pmem \<Rightarrow> pmem exec" where
  "pmem_boot_init pm = do {
     pm \<leftarrow> bitmap_init pm;
     Some (pm\<lparr>pagemap_initialized := False\<rparr>) }"

definition pmem_init :: "nat \<Rightarrow> pmem \<Rightarrow> pmem exec" where
  "pmem_init page_struct_size pm = do {
     pm \<leftarrow> pagemap_init page_struct_size pm;
     pm \<leftarrow> freeblocks_init pm;
     Some (pm\<lparr>pagemap_initialized := True\<rparr>) }"

section \<open>Aligned blocks\<close>

definition blk :: "nat \<Rightarrow> nat \<Rightarrow> nat set" where
  "blk i ord = {i..<i + 2 ^ ord}"

lemma blk_head [simp]: "i \<in> blk i ord"
  by (simp add: blk_def)

lemma blk_0 [simp]: "blk i 0 = {i}"
  by (auto simp: blk_def)

lemma blk_div: assumes "2 ^ ord dvd i" shows "k \<in> blk i ord \<longleftrightarrow> k div 2 ^ ord = i div 2 ^ ord"
proof -
  obtain q where q: "i = 2 ^ ord * q" using assms by (auto simp: dvd_def)
  have "k div 2 ^ ord = q \<longleftrightarrow> 2 ^ ord * q \<le> k \<and> k < 2 ^ ord * (q + 1)"
    using dividend_less_times_div [of "2 ^ ord" k] times_div_less_eq_dividend [of "2 ^ ord" k]
    by (auto intro: div_nat_eqI)
  then show ?thesis by (simp add: q blk_def algebra_simps)
qed

lemma blk_bound: "blk i ord \<subseteq> {0..<n} \<longleftrightarrow> i + 2 ^ ord \<le> n"
  by (simp add: blk_def ivl_subset)

lemma blk_nested:
  assumes "2 ^ a dvd i" "2 ^ b dvd j" "a \<le> b" "blk i a \<inter> blk j b \<noteq> {}"
  shows "blk i a \<subseteq> blk j b"
proof
  obtain d where b: "b = a + d" using assms(3) le_Suc_ex by blast
  have *: "k div 2 ^ b = k div 2 ^ a div 2 ^ d" for k :: nat by (simp add: b power_add div_mult2_eq)
  obtain m where "m \<in> blk i a" "m \<in> blk j b" using assms(4) by blast
  then have "i div 2 ^ b = j div 2 ^ b" using assms(1,2) by (simp add: blk_div *)
  then show "k \<in> blk j b" if "k \<in> blk i a" for k
    using that assms(1,2) by (simp add: blk_div *)
qed

lemma blk_same_head: "2 ^ a dvd i \<Longrightarrow> 2 ^ b dvd j \<Longrightarrow> 2 ^ b dvd i \<Longrightarrow> i \<in> blk j b \<Longrightarrow> i = j"
  by (metis blk_div dvd_div_eq_cancel)
definition buddy_of :: "nat \<Rightarrow> nat \<Rightarrow> nat" where
  "buddy_of i ord = (if odd (i div 2 ^ ord) then i - 2 ^ ord else i + 2 ^ ord)"

lemma buddy_facts:
  assumes "2 ^ ord dvd i"
  shows "2 ^ ord dvd buddy_of i ord" "buddy_of i ord \<noteq> i" "2 ^ Suc ord dvd min i (buddy_of i ord)"
    and "blk (min i (buddy_of i ord)) (Suc ord) = blk i ord \<union> blk (buddy_of i ord) ord"
    and "blk i ord \<inter> blk (buddy_of i ord) ord = {}"
proof -
  obtain q where q: "i = 2 ^ ord * q" using assms by (auto simp: dvd_def)
  have d: "i div 2 ^ ord = q" by (simp add: q)
  have P: "(2 :: nat) ^ ord > 0" by simp
  show "2 ^ ord dvd buddy_of i ord" using assms by (auto simp: buddy_of_def)
  show "buddy_of i ord \<noteq> i" using assms P unfolding buddy_of_def d
    by (cases "odd q") (auto simp: q elim!: oddE)
  have m: "min i (buddy_of i ord) = 2 ^ Suc ord * (q div 2)"
    unfolding buddy_of_def d by (cases "odd q") (auto simp: q elim!: oddE evenE simp: algebra_simps)
  then show "2 ^ Suc ord dvd min i (buddy_of i ord)" by simp
  show "blk (min i (buddy_of i ord)) (Suc ord) = blk i ord \<union> blk (buddy_of i ord) ord"
    unfolding m buddy_of_def d by (cases "odd q") (auto simp: q blk_def elim!: oddE evenE simp: algebra_simps)
  show "blk i ord \<inter> blk (buddy_of i ord) ord = {}"
    unfolding buddy_of_def d by (cases "odd q") (auto simp: q blk_def elim!: oddE evenE simp: algebra_simps)
qed

section \<open>The invariant\<close>

abbreviation rc :: "pmem \<Rightarrow> nat \<Rightarrow> int" where "rc pm i \<equiv> refcnt (pagemap pm i)"
abbreviation od :: "pmem \<Rightarrow> nat \<Rightarrow> nat" where "od pm i \<equiv> order (pagemap pm i)"

definition allocated :: "pmem \<Rightarrow> nat set" where
  "allocated pm = {i. i < n_pages pm \<and> rc pm i > 0}"

definition freed :: "pmem \<Rightarrow> nat set" where
  "freed pm = (\<Union>ord \<le> MAX_ORDER. set (freeblocks pm ord))"

definition pages_of :: "pmem \<Rightarrow> nat set \<Rightarrow> nat set" where
  "pages_of pm A = (\<Union>i \<in> A. blk i (od pm i))"

text \<open>\<open>H\<close> is the set of block heads the running operation holds, \<open>S\<close> the pages all blocks cover.\<close>

definition binv :: "pmem \<Rightarrow> nat set \<Rightarrow> nat set \<Rightarrow> bool" where
  "binv pm H S \<longleftrightarrow>
     (\<forall>ord \<le> MAX_ORDER. distinct (freeblocks pm ord) \<and> (\<forall>i \<in> set (freeblocks pm ord). od pm i = ord \<and> rc pm i = 0))
   \<and> (\<forall>i. rc pm i \<ge> 0)
   \<and> (\<forall>i \<in> H. rc pm i = 0 \<and> i \<notin> freed pm)
   \<and> (\<forall>i \<in> allocated pm \<union> freed pm \<union> H. od pm i \<le> MAX_ORDER \<and> 2 ^ od pm i dvd i \<and> i + 2 ^ od pm i \<le> n_pages pm)
   \<and> (\<forall>i \<in> allocated pm \<union> freed pm \<union> H. \<forall>j \<in> allocated pm \<union> freed pm \<union> H.
        i \<noteq> j \<longrightarrow> blk i (od pm i) \<inter> blk j (od pm j) = {})
   \<and> pages_of pm (allocated pm \<union> freed pm \<union> H) = S"

lemma binvD:
  assumes "binv pm H S"
  shows "\<And>ord. ord \<le> MAX_ORDER \<Longrightarrow> distinct (freeblocks pm ord)"
    and "\<And>ord i. ord \<le> MAX_ORDER \<Longrightarrow> i \<in> set (freeblocks pm ord) \<Longrightarrow> od pm i = ord \<and> rc pm i = 0"
    and "\<And>i. rc pm i \<ge> 0"
    and "\<And>i. i \<in> H \<Longrightarrow> rc pm i = 0 \<and> i \<notin> freed pm"
    and "\<And>i. i \<in> allocated pm \<union> freed pm \<union> H \<Longrightarrow>
      od pm i \<le> MAX_ORDER \<and> 2 ^ od pm i dvd i \<and> i + 2 ^ od pm i \<le> n_pages pm"
    and "\<And>i j. i \<in> allocated pm \<union> freed pm \<union> H \<Longrightarrow> j \<in> allocated pm \<union> freed pm \<union> H \<Longrightarrow> i \<noteq> j \<Longrightarrow>
      blk i (od pm i) \<inter> blk j (od pm j) = {}"
    and "pages_of pm (allocated pm \<union> freed pm \<union> H) = S"
  using assms unfolding binv_def by blast+

lemma add_pow_less: "i + 2 ^ ord \<le> n \<Longrightarrow> i < (n :: nat)"
  using zero_less_power [of "2 :: nat" ord] by linarith

lemma held_less: "binv pm H S \<Longrightarrow> i \<in> H \<Longrightarrow> i < n_pages pm"
  using binvD(5) [of pm H S i] add_pow_less by blast

lemma freed_rc: "binv pm H S \<Longrightarrow> i \<in> freed pm \<Longrightarrow> rc pm i = 0"
  using binvD(2) by (fastforce simp: freed_def)

lemma head_in_pages: "i \<in> A \<Longrightarrow> i \<in> pages_of pm A"
  unfolding pages_of_def by (rule UN_I [of i]) simp_all

lemma blk_in_pages: "i \<in> A \<Longrightarrow> blk i (od pm i) \<subseteq> pages_of pm A"
  by (auto simp: pages_of_def)

text \<open>The blocks an operation holds may be regrouped: split, merged, or left alone.\<close>

lemma binv_regroup:
  assumes b: "binv pm (A \<union> H) S"
    and same: "freeblocks pm' = freeblocks pm" "n_pages pm' = n_pages pm" "\<And>i. rc pm' i = rc pm i"
    and ord: "\<And>i. i \<notin> A \<union> A' \<Longrightarrow> od pm' i = od pm i"
    and AH: "A \<inter> H = {}"
    and pgs: "pages_of pm' A' = pages_of pm A"
    and A': "\<And>i. i \<in> A' \<Longrightarrow> od pm' i \<le> MAX_ORDER \<and> 2 ^ od pm' i dvd i \<and> i + 2 ^ od pm' i \<le> n_pages pm"
      "\<And>i j. i \<in> A' \<Longrightarrow> j \<in> A' \<Longrightarrow> i \<noteq> j \<Longrightarrow> blk i (od pm' i) \<inter> blk j (od pm' j) = {}"
  shows "binv pm' (A' \<union> H) S"
proof -
  let ?O = "allocated pm \<union> freed pm \<union> H"
  have O: "allocated pm' \<union> freed pm' \<union> H = ?O" "freed pm' = freed pm"
    using same by (auto simp: allocated_def freed_def)
  have nA: "i \<notin> A" if "i \<in> ?O" for i
    using that AH binvD(4) [OF b, of i] by (auto simp: allocated_def)
  have dA: "blk i (od pm i) \<inter> pages_of pm A = {}" if "i \<in> ?O" for i
    using binvD(6) [OF b, of i] that nA [OF that] by (fastforce simp: pages_of_def)
  have nA': "i \<notin> A'" if "i \<in> ?O" for i
    using dA [OF that] pgs head_in_pages [of i A' pm'] blk_head [of i "od pm i"] by blast
  have odO: "od pm' i = od pm i" if "i \<in> ?O" for i using that ord nA nA' by blast
  have rA': "rc pm i = 0 \<and> i \<notin> freed pm" if "i \<in> A'" for i
  proof -
    have "i \<notin> ?O" using nA' that by blast
    moreover have "i < n_pages pm" using A'(1) [OF that] zero_less_power [of "2 :: nat" "od pm' i"] by linarith
    ultimately show ?thesis using binvD(3) [OF b, of i] by (auto simp: allocated_def)
  qed
  have disj: "blk i (od pm' i) \<inter> blk j (od pm' j) = {}" if "i \<in> A'" "j \<in> ?O" for i j
    using dA [OF that(2)] odO [OF that(2)] pgs blk_in_pages [OF that(1), of pm'] by fastforce
  have pO: "pages_of pm' ?O = pages_of pm ?O" using odO by (simp add: pages_of_def)
  have "pages_of pm' (?O \<union> A') = pages_of pm (?O \<union> A)"
    using pgs pO by (simp add: pages_of_def)
  then have cov: "pages_of pm' (?O \<union> A') = S" using binvD(7) [OF b] by (metis sup.assoc sup.commute)
  have hds: "allocated pm' \<union> freed pm' \<union> (A' \<union> H) = ?O \<union> A'" using O by auto
  show ?thesis unfolding binv_def hds unfolding O(2) same
  proof (intro conjI)
    show "\<forall>ord\<le>MAX_ORDER. distinct (freeblocks pm ord) \<and> (\<forall>i\<in>set (freeblocks pm ord). od pm' i = ord \<and> rc pm i = 0)"
      using binvD(1,2) [OF b] odO by (fastforce simp: freed_def)
    show "\<forall>i. 0 \<le> rc pm i" using binvD(3) [OF b] by blast
    show "\<forall>i\<in>A' \<union> H. rc pm i = 0 \<and> i \<notin> freed pm" using rA' binvD(4) [OF b] by blast
    show "\<forall>i\<in>?O \<union> A'. od pm' i \<le> MAX_ORDER \<and> 2 ^ od pm' i dvd i \<and> i + 2 ^ od pm' i \<le> n_pages pm"
      using A'(1) binvD(5) [OF b] odO by auto
    show "\<forall>i\<in>?O \<union> A'. \<forall>j\<in>?O \<union> A'. i \<noteq> j \<longrightarrow> blk i (od pm' i) \<inter> blk j (od pm' j) = {}"
      using disj A'(2) binvD(6) [OF b] odO by (metis Un_iff inf_commute)
  qed (rule cov)
qed

text \<open>What the free-list operations leave alone.\<close>

definition keeps :: "pmem \<Rightarrow> pmem \<Rightarrow> bool" where
  "keeps pm pm' \<longleftrightarrow> n_pages pm' = n_pages pm \<and> pagemap_initialized pm' = pagemap_initialized pm
     \<and> (\<forall>i. rc pm' i = rc pm i) \<and> (\<forall>i \<in> allocated pm. pagemap pm' i = pagemap pm i)"

lemma keeps_refl [simp]: "keeps pm pm"
  by (simp add: keeps_def)

lemma keeps_trans: "keeps pm pm' \<Longrightarrow> keeps pm' pm'' \<Longrightarrow> keeps pm pm''"
  by (auto simp: keeps_def allocated_def)

lemma keeps_freeblocks [simp]: "keeps pm (pm\<lparr>freeblocks := f\<rparr>)"
  by (simp add: keeps_def)

lemma keeps_order: "rc pm i = 0 \<Longrightarrow> keeps pm (upd_page i (\<lambda>p. p\<lparr>order := f p\<rparr>) pm)"
  by (auto simp: keeps_def upd_page_def allocated_def)

lemma keeps_allocated: "keeps pm pm' \<Longrightarrow> allocated pm' = allocated pm"
  by (simp add: keeps_def allocated_def)

lemma upd_page_simps [simp]:
  "freeblocks (upd_page i f pm) = freeblocks pm" "n_pages (upd_page i f pm) = n_pages pm"
  "pagemap (upd_page i f pm) j = (if j = i then f (pagemap pm i) else pagemap pm j)"
  "pagemap_initialized (upd_page i f pm) = pagemap_initialized pm"
  by (auto simp: upd_page_def)

lemma binv_relist:
  assumes b: "binv pm H S" and pm': "pagemap pm' = pagemap pm" "n_pages pm' = n_pages pm"
    and hd: "freed pm' \<union> H' = freed pm \<union> H"
    and l: "\<And>ord. ord \<le> MAX_ORDER \<Longrightarrow> distinct (freeblocks pm' ord)"
      "\<And>ord i. ord \<le> MAX_ORDER \<Longrightarrow> i \<in> set (freeblocks pm' ord) \<Longrightarrow> od pm i = ord \<and> rc pm i = 0"
    and H': "\<And>i. i \<in> H' \<Longrightarrow> rc pm i = 0 \<and> i \<notin> freed pm'"
  shows "binv pm' H' S"
proof -
  have h: "allocated pm' \<union> freed pm' \<union> H' = allocated pm \<union> freed pm \<union> H"
    using hd pm' by (simp add: allocated_def Un_assoc)
  have "pages_of pm' = pages_of pm" by (simp add: pages_of_def fun_eq_iff pm')
  then show ?thesis unfolding binv_def h using binvD(3,5,6,7) [OF b] l H' by (simp add: pm')
qed

lemma freeblocks_remove_ok:
  assumes b: "binv pm H S" and o: "ord \<le> MAX_ORDER" "pg \<in> set (freeblocks pm ord)"
  shows "\<exists>pm'. freeblocks_remove pm pg = Some pm' \<and> binv pm' (insert pg H) S \<and> pagemap pm' = pagemap pm \<and> keeps pm pm'"
proof -
  let ?pm = "pm\<lparr>freeblocks := \<lambda>ord. remove1 pg (freeblocks pm ord)\<rparr>"
  have pg: "od pm pg = ord" "rc pm pg = 0" "pg \<in> freed pm" using binvD(2) [OF b o] o by (auto simp: freed_def)
  have "\<exists>a\<in>{0..<11}. pg \<in> set (freeblocks pm a)" using o by (intro bexI [of _ ord]) auto
  then have r: "freeblocks_remove pm pg = Some ?pm"
    using pg o by (simp add: freeblocks_remove_def list_ex_iff)
  have f: "freed ?pm = freed pm - {pg}" using binvD(1) [OF b] by (auto simp: freed_def)
  have "binv ?pm (insert pg H) S"
  proof (rule binv_relist [OF b])
    show "freed ?pm \<union> insert pg H = freed pm \<union> H" using f pg(3) by auto
    show "rc pm i = 0 \<and> i \<notin> freed ?pm" if "i \<in> insert pg H" for i
      using that f pg binvD(4) [OF b, of i] by auto
  qed (use binvD(1,2) [OF b] in \<open>auto dest: notin_set_remove1\<close>)
  with r show ?thesis by simp
qed

lemma freeblocks_insert_ok:
  assumes b: "binv pm (insert pg H) S" and pg: "pg \<notin> H"
  shows "\<exists>pm'. freeblocks_insert pm pg = Some pm' \<and> binv pm' H S \<and> pagemap pm' = pagemap pm \<and> keeps pm pm'"
proof -
  let ?ord = "od pm pg"
  let ?pm = "pm\<lparr>freeblocks := (freeblocks pm)(?ord := freeblocks pm ?ord @ [pg])\<rparr>"
  have z: "rc pm pg = 0" "pg \<notin> freed pm" "?ord \<le> MAX_ORDER"
    using binvD(4,5) [OF b, of pg] by auto
  have "upd_page pg (\<lambda>p. p\<lparr>refcnt := 0\<rparr>) pm = pm"
    using z(1) by (simp add: upd_page_def fun_upd_idem)
  then have r: "freeblocks_insert pm pg = Some ?pm" using z by (simp add: freeblocks_insert_def Let_def)
  have e: "set (freeblocks ?pm ord) = set (freeblocks pm ord) \<union> (if ord = ?ord then {pg} else {})" for ord
    by simp
  have f: "freed ?pm = insert pg (freed pm)" unfolding freed_def e using z(3) by (auto split: if_splits)
  have ni: "pg \<notin> set (freeblocks pm ?ord)" using z by (auto simp: freed_def)
  have "binv ?pm H S"
  proof (rule binv_relist [OF b])
    show "freed ?pm \<union> H = freed pm \<union> insert pg H" using f by auto
    show "rc pm i = 0 \<and> i \<notin> freed ?pm" if "i \<in> H" for i
      using that f pg binvD(4) [OF b, of i] by auto
    show "od pm i = ord \<and> rc pm i = 0" if "ord \<le> MAX_ORDER" "i \<in> set (freeblocks ?pm ord)" for ord i
      using that binvD(2) [OF b that(1), of i] z(1) unfolding e by (auto split: if_splits)
  qed (use binvD(1) [OF b] ni in auto)
  with r show ?thesis by simp
qed

lemma split_ok:
  assumes b: "binv pm (insert pg H) S" and pg: "pg \<notin> H" "od pm pg = Suc ord"
    and pm1: "pm1 = upd_page pg (\<lambda>p. p\<lparr>order := ord\<rparr>) pm"
    and pm2: "pm2 = upd_page (pg + 2 ^ ord) (\<lambda>p. p\<lparr>order := ord\<rparr>) pm1"
  shows "find_buddy pm1 pg = Some (Some (pg + 2 ^ ord))" "binv pm2 (insert (pg + 2 ^ ord) (insert pg H)) S"
    and "keeps pm pm2" "pg + 2 ^ ord \<notin> insert pg H"
proof -
  let ?b = "pg + 2 ^ ord"
  have f: "Suc ord \<le> MAX_ORDER" "2 ^ Suc ord dvd pg" "pg + 2 ^ Suc ord \<le> n_pages pm" "rc pm pg = 0"
    using binvD(4,5) [OF b, of pg] pg by auto
  have ev: "even (pg div 2 ^ ord)" "2 ^ ord dvd pg" using f(2) by (auto simp: dvd_def)
  have "2 ^ ord < (2 :: nat) ^ Suc ord" by simp
  then have lt: "?b < n_pages pm" using f(3) by linarith
  have bud: "buddy_of pg ord = ?b" using ev by (simp add: buddy_of_def)
  note bf = buddy_facts [OF ev(2), unfolded bud]
  show "find_buddy pm1 pg = Some (Some ?b)"
    using f ev lt by (simp add: find_buddy_def pm1 Let_def)
  have pgs: "pages_of pm2 {pg, ?b} = pages_of pm {pg}"
    using bf(2,4) pg(2) by (simp add: pages_of_def pm1 pm2)
  have rb: "rc pm ?b = 0 \<and> ?b \<notin> H"
  proof -
    have m: "?b \<in> blk pg (od pm pg)" using pg(2) by (simp add: blk_def)
    have "?b \<notin> allocated pm \<union> freed pm \<union> H"
    proof
      assume "?b \<in> allocated pm \<union> freed pm \<union> H"
      then have "blk pg (od pm pg) \<inter> blk ?b (od pm ?b) = {}"
        using binvD(6) [OF b, of pg ?b] bf(2) by auto
      with m blk_head [of ?b "od pm ?b"] show False by blast
    qed
    then show ?thesis using binvD(3) [OF b, of ?b] lt by (auto simp: allocated_def)
  qed
  show "keeps pm pm2" using rb f(4) unfolding pm1 pm2
    by (intro keeps_trans [OF keeps_order keeps_order]) simp_all
  show "?b \<notin> insert pg H" using rb by simp
  have "binv pm2 ({pg, ?b} \<union> H) S"
  proof (rule binv_regroup [where A = "{pg}" and pm = pm])
    show "binv pm ({pg} \<union> H) S" using b by simp
    show "od pm2 i \<le> MAX_ORDER \<and> 2 ^ od pm2 i dvd i \<and> i + 2 ^ od pm2 i \<le> n_pages pm" if "i \<in> {pg, ?b}" for i
      using that f ev(2) by (auto simp: pm1 pm2)
    show "blk i (od pm2 i) \<inter> blk j (od pm2 j) = {}" if "i \<in> {pg, ?b}" "j \<in> {pg, ?b}" "i \<noteq> j" for i j
      using that bf(5) by (auto simp: pm1 pm2)
  qed (use pgs pg in \<open>auto simp: pm1 pm2\<close>)
  then show "binv pm2 (insert ?b (insert pg H)) S" by (simp add: insert_commute)
qed

lemma find_freeblock_ok:
  assumes b: "binv pm {} S" and o: "split \<longrightarrow> ord > 0"
  shows "\<exists>r pm'. find_freeblock pm ord split = Some (r, pm') \<and>
    (case r of
       None \<Rightarrow> pm' = pm \<and> (\<forall>k. ord \<le> k \<longrightarrow> k \<le> MAX_ORDER \<longrightarrow> freeblocks pm k = [])
     | Some pg \<Rightarrow> binv pm' {pg} S \<and> od pm' pg = (if split then ord - 1 else ord) \<and> ord \<le> MAX_ORDER \<and> keeps pm pm'
         \<and> blk pg ord \<subseteq> pages_of pm (freed pm))"
  using o
proof (induction "Suc MAX_ORDER - ord" arbitrary: ord split)
  case 0
  then show ?case by (subst find_freeblock.simps) auto
next
  case (Suc n)
  have le: "ord \<le> MAX_ORDER" using Suc.hyps(2) by simp
  text \<open>The block before a possible split.\<close>
  define q where "q = (case freeblocks pm ord of
       pg # _ \<Rightarrow> do { pm \<leftarrow> freeblocks_remove pm pg; Some (Some pg, pm) }
     | [] \<Rightarrow> find_freeblock pm (ord + 1) True)"
  have q: "\<exists>r pm'. q = Some (r, pm') \<and>
    (case r of
       None \<Rightarrow> pm' = pm \<and> (\<forall>k. ord \<le> k \<longrightarrow> k \<le> MAX_ORDER \<longrightarrow> freeblocks pm k = [])
     | Some pg \<Rightarrow> binv pm' {pg} S \<and> od pm' pg = ord \<and> keeps pm pm' \<and> blk pg ord \<subseteq> pages_of pm (freed pm))"
  proof (cases "freeblocks pm ord")
    case Nil
    have lt: "n = Suc MAX_ORDER - (ord + 1)" using Suc.hyps(2) by simp
    obtain r pm' where r: "find_freeblock pm (ord + 1) True = Some (r, pm')"
      "case r of
         None \<Rightarrow> pm' = pm \<and> (\<forall>k. ord + 1 \<le> k \<longrightarrow> k \<le> MAX_ORDER \<longrightarrow> freeblocks pm k = [])
       | Some pg \<Rightarrow> binv pm' {pg} S \<and> od pm' pg = ord \<and> ord + 1 \<le> MAX_ORDER \<and> keeps pm pm'
           \<and> blk pg (ord + 1) \<subseteq> pages_of pm (freed pm)"
      using Suc.hyps(1) [OF lt, of True] by (auto split: option.splits)
    have "blk pg ord \<subseteq> blk pg (ord + 1)" for pg by (auto simp: blk_def)
    with r Nil show ?thesis unfolding q_def
      by (auto simp: split: option.splits) (metis Suc_leI le_neq_implies_less)
  next
    case (Cons pg pgs)
    then have m: "pg \<in> set (freeblocks pm ord)" by simp
    obtain pm' where pm': "freeblocks_remove pm pg = Some pm'" "binv pm' {pg} S" "pagemap pm' = pagemap pm" "keeps pm pm'"
      using freeblocks_remove_ok [OF b le m] by auto
    moreover have "od pm pg = ord" "pg \<in> freed pm" using binvD(2) [OF b le m] m le by (auto simp: freed_def)
    ultimately show ?thesis using Cons blk_in_pages [of pg "freed pm" pm] by (simp add: q_def)
  qed
  have u: "find_freeblock pm ord split = do { (r, pm) \<leftarrow> q;
        case r of None \<Rightarrow> Some (None, pm)
        | Some pg \<Rightarrow> if split then do {
              let pm = upd_page pg (\<lambda>p. p\<lparr>order := ord - 1\<rparr>) pm;
              b \<leftarrow> find_buddy pm pg;
              case b of None \<Rightarrow> None
              | Some buddy \<Rightarrow> do {
                  let pm = upd_page buddy (\<lambda>p. p\<lparr>order := ord - 1\<rparr>) pm;
                  pm \<leftarrow> freeblocks_insert pm buddy;
                  Some (Some pg, pm) } }
            else Some (Some pg, pm) }"
    using le unfolding q_def by (subst find_freeblock.simps) simp
  from q obtain r pm1 where r: "q = Some (r, pm1)" and rr: "case r of
       None \<Rightarrow> pm1 = pm \<and> (\<forall>k. ord \<le> k \<longrightarrow> k \<le> MAX_ORDER \<longrightarrow> freeblocks pm k = [])
     | Some pg \<Rightarrow> binv pm1 {pg} S \<and> od pm1 pg = ord \<and> keeps pm pm1 \<and> blk pg ord \<subseteq> pages_of pm (freed pm)" by blast
  show ?case
  proof (cases "split \<and> r \<noteq> None")
    case False
    then show ?thesis using u r rr le by (auto split: option.splits)
  next
    case True
    then obtain pg k where pg: "r = Some pg" and k: "ord = Suc k" using Suc.prems by (cases ord) auto
    note f = rr [unfolded pg, simplified]
    note sp = split_ok [of pm1 pg "{}" S k, OF _ _ _ refl refl]
    let ?pm2 = "upd_page (pg + 2 ^ k) (\<lambda>p. p\<lparr>order := k\<rparr>) (upd_page pg (\<lambda>p. p\<lparr>order := k\<rparr>) pm1)"
    obtain pm3 where pm3: "freeblocks_insert ?pm2 (pg + 2 ^ k) = Some pm3" "binv pm3 {pg} S"
      "pagemap pm3 = pagemap ?pm2" "keeps ?pm2 pm3"
      using freeblocks_insert_ok [OF sp(2)] sp(4) f k by auto
    have "find_freeblock pm ord split = Some (Some pg, pm3)"
      unfolding u r pg using True pm3(1) sp(1) f k by simp
    moreover have "keeps pm pm3" using keeps_trans [OF _ keeps_trans [OF sp(3) pm3(4)]] f k by simp
    moreover have "od pm3 pg = k" by (simp add: pm3(3))
    ultimately show ?thesis using pm3(2) f le k True by auto
  qed
qed

subsection \<open>Merging\<close>

text \<open>A buddy that looks free and has the same order is the head of a free block of that order.\<close>

lemma buddy_free:
  assumes b: "binv pm {pg} {0..<n_pages pm}" and lt: "buddy_of pg (od pm pg) < n_pages pm"
    and z: "rc pm (buddy_of pg (od pm pg)) = 0" "od pm (buddy_of pg (od pm pg)) = od pm pg"
  shows "buddy_of pg (od pm pg) \<in> set (freeblocks pm (od pm pg))"
proof -
  let ?o = "od pm pg" and ?b = "buddy_of pg (od pm pg)"
  have pg: "2 ^ ?o dvd pg" "?o \<le> MAX_ORDER" using binvD(5) [OF b, of pg] by auto
  note bf = buddy_facts [OF pg(1)]
  obtain j where j: "j \<in> allocated pm \<union> freed pm \<union> {pg}" "?b \<in> blk j (od pm j)"
  proof -
    have "?b \<in> pages_of pm (allocated pm \<union> freed pm \<union> {pg})" unfolding binvD(7) [OF b] using lt by simp
    then show thesis using that unfolding pages_of_def by blast
  qed
  have jd: "2 ^ od pm j dvd j" using binvD(5) [OF b j(1)] by simp
  have "j \<noteq> pg" using j(2) bf(5) blk_head [of ?b ?o] by blast
  then have dis: "blk j (od pm j) \<inter> blk pg ?o = {}" using binvD(6) [OF b j(1)] by auto
  have "od pm j \<le> ?o"
  proof (rule ccontr)
    assume "\<not> od pm j \<le> ?o"
    then have "Suc ?o \<le> od pm j" by simp
    moreover have "?b \<in> blk (min pg ?b) (Suc ?o)" using bf(4) blk_head [of ?b ?o] by blast
    ultimately have "blk (min pg ?b) (Suc ?o) \<subseteq> blk j (od pm j)"
      using blk_nested [OF bf(3) jd] j(2) by blast
    with dis bf(4) blk_head [of pg ?o] show False by blast
  qed
  then have "2 ^ od pm j dvd ?b" using bf(1) by (meson dvd_trans le_imp_power_dvd)
  then have "?b = j" using blk_same_head [OF _ jd _ j(2)] bf(1) by blast
  then have "?b \<in> freed pm" using j(1) z(1) \<open>j \<noteq> pg\<close> by (auto simp: allocated_def)
  then show ?thesis using binvD(2) [OF b] z(2) by (fastforce simp: freed_def)
qed

lemma merge_two:
  assumes b: "binv pm {pg, bd} S" and bd: "bd = buddy_of pg (od pm pg)" "od pm bd = od pm pg" "od pm pg < MAX_ORDER"
    and m: "m = min pg bd"
  shows "binv (upd_page m (\<lambda>p. p\<lparr>order := order p + 1\<rparr>) pm) {m} S"
proof -
  let ?o = "od pm pg" and ?pm = "upd_page m (\<lambda>p. p\<lparr>order := order p + 1\<rparr>) pm"
  have pg: "2 ^ ?o dvd pg" using binvD(5) [OF b, of pg] by auto
  note bf = buddy_facts [OF pg, folded bd(1), folded m]
  have om: "od pm m = ?o" using m bd(2) by (simp add: min_def)
  have "blk pg ?o \<subseteq> {0..<n_pages pm}" "blk bd ?o \<subseteq> {0..<n_pages pm}"
    using binvD(5) [OF b, of pg] binvD(5) [OF b, of bd] bd(2) by (auto simp: blk_bound)
  then have "blk m (Suc ?o) \<subseteq> {0..<n_pages pm}" using bf(4) by simp
  then have bound: "m + 2 ^ Suc ?o \<le> n_pages pm" by (simp only: blk_bound)
  have "binv ?pm ({m} \<union> {}) S"
  proof (rule binv_regroup [where A = "{pg, bd}" and pm = pm])
    show "pages_of ?pm {m} = pages_of pm {pg, bd}" using bf(4) om bd(2) by (simp add: pages_of_def)
    show "od ?pm i \<le> MAX_ORDER \<and> 2 ^ od ?pm i dvd i \<and> i + 2 ^ od ?pm i \<le> n_pages pm" if "i \<in> {m}" for i
      using that bound bf(3) bd(3) om by simp
  qed (use b m in \<open>auto simp: min_def\<close>)
  then show ?thesis by simp
qed

lemma merge_block_ok:
  assumes "binv pm {pg} {0..<n_pages pm}"
  shows "\<exists>m pm'. merge_block pm pg = Some (m, pm') \<and> binv pm' {m} {0..<n_pages pm} \<and> keeps pm pm'"
  using assms
proof (induction "MAX_ORDER - od pm pg" arbitrary: pm pg)
  case 0
  then have "od pm pg = MAX_ORDER" "rc pm pg = 0" using binvD(4,5) [OF 0(2), of pg] by auto
  then show ?case using 0(2) by (subst merge_block.simps) simp
next
  case (Suc n)
  let ?b = "buddy_of pg (od pm pg)"
  have pg: "rc pm pg = 0" "od pm pg \<le> MAX_ORDER" "2 ^ od pm pg dvd pg" "od pm pg < MAX_ORDER"
    using binvD(4,5) [OF Suc.prems, of pg] Suc.hyps(2) by auto
  have fb: "find_buddy pm pg = Some (if ?b \<ge> n_pages pm then None else Some ?b)"
    using pg by (simp add: find_buddy_def buddy_of_def Let_def)
  show ?case
  proof (cases "?b < n_pages pm \<and> rc pm ?b = 0 \<and> od pm ?b = od pm pg")
    case False
    then show ?thesis using pg fb Suc.prems by (subst merge_block.simps) auto
  next
    case True
    have nb: "?b \<noteq> pg" using buddy_facts(2) [OF pg(3)] .
    from buddy_free [OF Suc.prems] True have "?b \<in> set (freeblocks pm (od pm pg))" by simp
    then obtain pm1 where pm1: "freeblocks_remove pm ?b = Some pm1" "binv pm1 {?b, pg} {0..<n_pages pm}"
      "pagemap pm1 = pagemap pm" "keeps pm pm1"
      using freeblocks_remove_ok [OF Suc.prems pg(2)] by blast
    define m where "m = min pg ?b"
    define pm2 where "pm2 = upd_page m (\<lambda>p. p\<lparr>order := order p + 1\<rparr>) pm1"
    have n2: "n_pages pm2 = n_pages pm" using pm1(4) by (simp add: pm2_def keeps_def)
    have om: "od pm1 m = od pm pg" using True by (simp add: m_def min_def pm1(3))
    have b2: "binv pm2 {m} {0..<n_pages pm2}" unfolding n2 unfolding pm2_def
      by (rule merge_two [where pg = pg and bd = ?b]) (use pm1(2,3) True pg m_def in \<open>simp_all add: insert_commute\<close>)
    have "rc pm1 m = 0" using True pg(1) by (simp add: m_def min_def pm1(3))
    then have k2: "keeps pm pm2" unfolding pm2_def using keeps_trans [OF pm1(4) keeps_order [where f = "\<lambda>p. order p + 1"]] by simp
    have "n = MAX_ORDER - od pm2 m" using Suc.hyps(2) om by (simp add: pm2_def)
    from Suc.hyps(1) [OF this b2] obtain l pm3 where l: "merge_block pm2 m = Some (l, pm3)"
      "binv pm3 {l} {0..<n_pages pm}" "keeps pm2 pm3" unfolding n2 by blast
    have "merge_block pm pg = merge_block pm2 m"
      using True pg fb pm1(1) nb by (subst merge_block.simps) (auto simp: m_def pm2_def min_def)
    with l keeps_trans [OF k2 l(3)] show ?thesis by auto
  qed
qed

subsection \<open>Allocation and freeing\<close>

lemma binv_take:
  assumes b: "binv pm {pg} S" and f: "\<And>p. refcnt (f p) = 1" "\<And>p. order (f p) = order p"
  shows "binv (upd_page pg f pm) {} S" "allocated (upd_page pg f pm) = insert pg (allocated pm)"
proof -
  let ?pm = "upd_page pg f pm"
  have lt: "pg < n_pages pm" using held_less [OF b] by simp
  have o: "od ?pm i = od pm i" for i using f by simp
  have fr: "freed ?pm = freed pm" by (simp add: freed_def)
  show a: "allocated ?pm = insert pg (allocated pm)" using f lt by (auto simp: allocated_def)
  have h: "allocated ?pm \<union> freed ?pm \<union> {} = allocated pm \<union> freed pm \<union> {pg}" using a fr by auto
  have l: "od ?pm i = ord \<and> rc ?pm i = 0" if "ord \<le> MAX_ORDER" "i \<in> set (freeblocks pm ord)" for ord i
    using binvD(2) [OF b that] binvD(4) [OF b, of pg] that o by (auto simp: freed_def)
  have p: "pages_of ?pm = pages_of pm" by (simp add: pages_of_def fun_eq_iff o del: upd_page_simps)
  have r: "rc ?pm i \<ge> 0" for i using binvD(3) [OF b, of i] f by simp
  show "binv ?pm {} S"
    unfolding binv_def h unfolding p o
    using l r binvD(1,5,6,7) [OF b] by (simp add: o del: upd_page_simps(3))
qed

lemma binv_give:
  assumes b: "binv pm {} S" and pg: "pg \<in> allocated pm" and f: "\<And>p. refcnt (f p) = 0" "\<And>p. order (f p) = order p"
  shows "binv (upd_page pg f pm) {pg} S" "allocated (upd_page pg f pm) = allocated pm - {pg}"
proof -
  let ?pm = "upd_page pg f pm"
  have o: "od ?pm i = od pm i" for i using f by simp
  have fr: "freed ?pm = freed pm" by (simp add: freed_def)
  have nf: "pg \<notin> freed pm" using pg freed_rc [OF b, of pg] by (auto simp: allocated_def)
  show a: "allocated ?pm = allocated pm - {pg}" using f by (auto simp: allocated_def)
  have h: "allocated ?pm \<union> freed ?pm \<union> {pg} = allocated pm \<union> freed pm \<union> {}" using a fr pg by auto
  have l: "od ?pm i = ord \<and> rc ?pm i = 0" if "ord \<le> MAX_ORDER" "i \<in> set (freeblocks pm ord)" for ord i
    using binvD(2) [OF b that] o f by auto
  have p: "pages_of ?pm = pages_of pm" by (simp add: pages_of_def fun_eq_iff o del: upd_page_simps)
  have r: "rc ?pm i \<ge> 0" for i using binvD(3) [OF b, of i] f by simp
  show "binv ?pm {pg} S"
    unfolding binv_def h unfolding p o
    using l r nf f(1) fr binvD(1,5,6,7) [OF b] by (simp add: o del: upd_page_simps(3)) simp
qed

definition pmem_inv :: "pmem \<Rightarrow> bool" where
  "pmem_inv pm \<longleftrightarrow> pagemap_initialized pm \<and> binv pm {} {0..<n_pages pm} \<and> 0 \<in> allocated pm
     \<and> n_pages pm \<le> 2 ^ 52"

lemma page_roundtrip: "pg < 2 ^ 52 \<Longrightarrow> paddr_to_page (page_to_paddr pg) = pg"
  by (simp add: paddr_to_page_def page_to_paddr_def pg_size_def unat_div unat_word_ariths unat_of_nat)

lemma get_min_page_order_ok:
  assumes "0 < n" "n \<le> 1024"
  shows "\<exists>ord. get_min_page_order n = Some ord \<and> ord \<le> MAX_ORDER \<and> n \<le> 2 ^ ord \<and> (\<forall>k < ord. 2 ^ k < n)"
proof -
  have "\<exists>ord \<in> set [0..<MAX_ORDER + 1]. 2 ^ ord \<ge> n" using assms by (intro bexI [of _ 10]) auto
  then obtain ord where o: "get_min_page_order n = Some ord"
    unfolding get_min_page_order_def by (metis find_None_iff not_Some_eq)
  from this [unfolded get_min_page_order_def find_Some_iff] show ?thesis
    using o by (auto simp: nth_upt) 
qed

lemma pages_of_freed:
  assumes "binv pm {} {0..<n_pages pm}"
  shows "pages_of pm (freed pm) = {0..<n_pages pm} - pages_of pm (allocated pm)"
proof -
  have "blk i (od pm i) \<inter> blk j (od pm j) = {}" if "i \<in> freed pm" "j \<in> allocated pm" for i j
  proof -
    have "i \<noteq> j" using that freed_rc [OF assms, of i] by (auto simp: allocated_def)
    then show ?thesis using that binvD(6) [OF assms, of i j] by simp
  qed
  then have "pages_of pm (freed pm) \<inter> pages_of pm (allocated pm) = {}" by (fastforce simp: pages_of_def)
  moreover have "pages_of pm (allocated pm) \<union> pages_of pm (freed pm) = {0..<n_pages pm}"
    using binvD(7) [OF assms] by (simp add: pages_of_def)
  ultimately show ?thesis by blast
qed

lemma pmem_nalloc_ok:
  assumes inv: "pmem_inv pm" and n: "0 < n" "n \<le> 1024"
  shows "\<exists>ord. get_min_page_order n = Some ord \<and> n \<le> 2 ^ ord \<and>
    (pmem_nalloc pm n = Some (ERR_NOMEM, None, pm) \<and> (\<forall>k. ord \<le> k \<longrightarrow> k \<le> MAX_ORDER \<longrightarrow> freeblocks pm k = [])
     \<or> (\<exists>pg pm'. pmem_nalloc pm n = Some (ERR_OK, Some (page_to_paddr pg), pm') \<and> pmem_inv pm'
         \<and> blk pg ord \<subseteq> pages_of pm (freed pm) \<and> 2 ^ ord dvd pg \<and> pg \<notin> allocated pm \<and> pg < n_pages pm
         \<and> allocated pm' = insert pg (allocated pm) \<and> od pm' pg = ord \<and> rc pm' pg = 1 \<and> n_pages pm' = n_pages pm
         \<and> (\<forall>i \<in> allocated pm. pagemap pm' i = pagemap pm i)))"
proof -
  have b: "binv pm {} {0..<n_pages pm}" "pagemap_initialized pm" "0 \<in> allocated pm" "n_pages pm \<le> 2 ^ 52"
    using inv by (auto simp: pmem_inv_def)
  obtain ord where o: "get_min_page_order n = Some ord" "n \<le> 2 ^ ord" using get_min_page_order_ok [OF n] by blast
  obtain r pm1 where r: "find_freeblock pm ord False = Some (r, pm1)" and rr:
    "case r of
       None \<Rightarrow> pm1 = pm \<and> (\<forall>k. ord \<le> k \<longrightarrow> k \<le> MAX_ORDER \<longrightarrow> freeblocks pm k = [])
     | Some pg \<Rightarrow> binv pm1 {pg} {0..<n_pages pm} \<and> od pm1 pg = ord \<and> ord \<le> MAX_ORDER \<and> keeps pm pm1
         \<and> blk pg ord \<subseteq> pages_of pm (freed pm)"
    using find_freeblock_ok [OF b(1), of False ord] by (auto split: option.splits)
  show ?thesis
  proof (cases r)
    case None
    then show ?thesis using o r rr n b by (auto simp: pmem_nalloc_def)
  next
    case (Some pg)
    note f = rr [unfolded Some, simplified]
    have pg: "rc pm1 pg = 0" "2 ^ ord dvd pg" "pg < n_pages pm1"
      using binvD(4,5) [of pm1 "{pg}" "{0..<n_pages pm}" pg] f held_less [of pm1 "{pg}" "{0..<n_pages pm}" pg] by auto
    have k: "n_pages pm1 = n_pages pm" "allocated pm1 = allocated pm" "rc pm pg = 0"
      using f pg(1) keeps_allocated [of pm pm1] by (auto simp: keeps_def)
    define g where "g = (\<lambda>p. (pmem_set_page_dirty False
         (p\<lparr>lock := sleeplock_init, kmem_cache := NULL, slab := NULL, rmap := NULL\<rparr>))\<lparr>refcnt := 1, blk_headers := []\<rparr>)"
    have g: "refcnt (g p) = 1" "order (g p) = order p" for p by (simp_all add: g_def pmem_set_page_dirty_def)
    let ?pm = "upd_page pg g pm1"
    note t = binv_take [of pm1 pg _ g, OF _ g]
    have "pg \<noteq> 0" using b(3) k(3) by (cases "pg = 0") (auto simp: allocated_def)
    then have "page_to_paddr pg \<noteq> 0"
      using page_roundtrip [of pg] pg(3) k(1) b(4) by (auto simp: paddr_to_page_def)
    then have "pmem_nalloc pm n = Some (ERR_OK, Some (page_to_paddr pg), ?pm)"
      using n b(2) o(1) r Some pg(1)
      by (simp add: pmem_nalloc_def g_def pmem_set_page_dirty_def upd_page_def)
    moreover have "pmem_inv ?pm"
      using t(1) t(2) [of "{0..<n_pages pm}"] f k b by (simp add: pmem_inv_def keeps_def)
    moreover have "pg \<notin> allocated pm" using k(3) by (simp add: allocated_def)
    moreover have "\<forall>i \<in> allocated pm. pagemap ?pm i = pagemap pm i"
      using f \<open>pg \<notin> allocated pm\<close> by (auto simp: keeps_def)
    ultimately show ?thesis using o f pg k t(2) g by auto
  qed
qed

lemma pmem_nfree_ok:
  assumes inv: "pmem_inv pm" and pg: "pg \<in> allocated pm" "pg \<noteq> 0" and n: "n > 0"
  shows "\<exists>pm'. pmem_nfree pm (page_to_paddr pg) n = Some pm' \<and> pmem_inv pm'
    \<and> allocated pm' = allocated pm - {pg} \<and> n_pages pm' = n_pages pm
    \<and> (\<forall>i \<in> allocated pm - {pg}. pagemap pm' i = pagemap pm i)"
proof -
  have b: "binv pm {} {0..<n_pages pm}" "pagemap_initialized pm" "0 \<in> allocated pm" "n_pages pm \<le> 2 ^ 52"
    using inv by (auto simp: pmem_inv_def)
  define pm1 where "pm1 = upd_page pg (\<lambda>p. p\<lparr>refcnt := 0\<rparr>) pm"
  have p: "paddr_to_page (page_to_paddr pg) = pg" using pg(1) b(4) by (intro page_roundtrip) (simp add: allocated_def)
  note g = binv_give [OF b(1) pg(1), of "\<lambda>p. p\<lparr>refcnt := 0\<rparr>", simplified, folded pm1_def]
  have n1: "n_pages pm1 = n_pages pm" by (simp add: pm1_def)
  obtain m pm2 where m: "merge_block pm1 pg = Some (m, pm2)" "binv pm2 {m} {0..<n_pages pm}" "keeps pm1 pm2"
    using merge_block_ok [of pm1 pg] g(1) n1 by auto
  obtain pm3 where pm3: "freeblocks_insert pm2 m = Some pm3" "binv pm3 {} {0..<n_pages pm}" "keeps pm2 pm3"
    using freeblocks_insert_ok [of pm2 m "{}"] m(2) by auto
  have k: "keeps pm1 pm3" using keeps_trans [OF m(3) pm3(3)] .
  have "pmem_nfree pm (page_to_paddr pg) n = Some pm3"
    using n b(2) m(1) pm3(1) by (simp add: pmem_nfree_def p flip: pm1_def)
  moreover have a: "allocated pm3 = allocated pm - {pg}" using keeps_allocated [OF k] g(2) by simp
  moreover have "pmem_inv pm3"
    using pm3(2) k b pg(2) a n1 by (auto simp: pmem_inv_def keeps_def pm1_def)
  moreover have "\<forall>i \<in> allocated pm - {pg}. pagemap pm3 i = pagemap pm i"
    using k g(2) by (auto simp: keeps_def pm1_def)
  ultimately show ?thesis using k n1 by (auto simp: keeps_def)
qed

subsection \<open>Free pages\<close>

text \<open>The pages no allocated block covers.\<close>

definition free_pages :: "pmem \<Rightarrow> nat set" where
  "free_pages pm = {0..<n_pages pm} - pages_of pm (allocated pm)"

lemma no_free_pages:
  assumes "pmem_inv pm" "\<forall>k \<le> MAX_ORDER. freeblocks pm k = []"
  shows "free_pages pm = {}"
proof -
  have "freed pm = {}" using assms(2) by (auto simp: freed_def)
  then show ?thesis using binvD(7) [of pm "{}" "{0..<n_pages pm}"] assms(1) by (simp add: free_pages_def pmem_inv_def)
qed

lemma free_pages_anti:
  assumes "n_pages pm' = n_pages pm" "allocated pm \<subseteq> allocated pm'" "\<forall>i \<in> allocated pm. od pm' i = od pm i"
  shows "free_pages pm' \<subseteq> free_pages pm"
  using assms unfolding free_pages_def pages_of_def by fastforce

lemma free_pages_drop:
  assumes "n_pages pm' = n_pages pm" "allocated pm' = allocated pm - {g}" "od pm g = 0" "\<forall>i \<in> allocated pm - {g}. od pm' i = od pm i"
  shows "free_pages pm' \<subseteq> insert g (free_pages pm)"
proof -
  have "blk g 0 = {g}" by (auto simp: blk_def)
  then show ?thesis using assms unfolding free_pages_def pages_of_def by fastforce
qed

subsection \<open>Reference counts\<close>

lemma binv_rc:
  assumes b: "binv pm {} S" and pg: "pg \<in> allocated pm" and k: "k > 0"
  shows "binv (upd_page pg (\<lambda>p. p\<lparr>refcnt := k\<rparr>) pm) {} S"
    and "allocated (upd_page pg (\<lambda>p. p\<lparr>refcnt := k\<rparr>) pm) = allocated pm"
proof -
  let ?pm = "upd_page pg (\<lambda>p. p\<lparr>refcnt := k\<rparr>) pm"
  have o: "od ?pm i = od pm i" for i by simp
  show a: "allocated ?pm = allocated pm" using pg k by (auto simp: allocated_def)
  have f: "freed ?pm = freed pm" by (simp add: freed_def)
  have nf: "pg \<notin> freed pm" using pg freed_rc [OF b, of pg] by (auto simp: allocated_def)
  have l: "od ?pm i = ord \<and> rc ?pm i = 0" if "ord \<le> MAX_ORDER" "i \<in> set (freeblocks pm ord)" for ord i
    using binvD(2) [OF b that] that nf by (auto simp: freed_def)
  have p: "pages_of ?pm = pages_of pm" by (simp add: pages_of_def fun_eq_iff o del: upd_page_simps)
  have r: "rc ?pm i \<ge> 0" for i using binvD(3) [OF b, of i] k by simp
  show "binv ?pm {} S" unfolding binv_def a f unfolding p o
    using l r binvD(1,5,6,7) [OF b] by (simp add: o del: upd_page_simps(3))
qed

lemma pmem_inc_refcnt_ok:
  assumes inv: "pmem_inv pm" and pg: "pg \<in> allocated pm" "od pm pg = 0" and a: "paddr_to_page a = pg"
  shows "\<exists>pm'. pmem_inc_refcnt pm a n = Some pm' \<and> pmem_inv pm' \<and> allocated pm' = allocated pm
    \<and> rc pm' pg = rc pm pg + int n \<and> (\<forall>i. i \<noteq> pg \<longrightarrow> pagemap pm' i = pagemap pm i) \<and> od pm' pg = 0"
proof -
  have r: "rc pm pg > 0" using pg(1) by (simp add: allocated_def)
  have u: "upd_page pg (\<lambda>p. p\<lparr>refcnt := refcnt p + int n\<rparr>) pm = upd_page pg (\<lambda>p. p\<lparr>refcnt := rc pm pg + int n\<rparr>) pm"
    by (simp add: upd_page_def)
  show ?thesis
    using binv_rc [of pm "{0..<n_pages pm}" pg "rc pm pg + int n", OF _ pg(1)] r inv pg
    by (simp add: pmem_inc_refcnt_def a u pmem_inv_def Let_def)
qed

lemma pmem_dec_refcnt_ok:
  assumes inv: "pmem_inv pm" and pg: "pg \<in> allocated pm" "od pm pg = 0" "pg \<noteq> 0"
    and a: "a = page_to_paddr pg"
  shows "\<exists>pm'. pmem_dec_refcnt pm a = Some pm' \<and> pmem_inv pm' \<and> n_pages pm' = n_pages pm
    \<and> allocated pm' = (if rc pm pg = 1 then allocated pm - {pg} else allocated pm)
    \<and> (rc pm pg > 1 \<longrightarrow> rc pm' pg = rc pm pg - 1 \<and> od pm' pg = 0)
    \<and> (\<forall>i \<in> allocated pm - {pg}. pagemap pm' i = pagemap pm i)"
proof -
  have r: "rc pm pg > 0" "pg < 2 ^ 52" using pg(1) inv by (auto simp: allocated_def pmem_inv_def)
  have ap: "paddr_to_page a = pg" unfolding a by (rule page_roundtrip [OF r(2)])
  have u: "upd_page pg (\<lambda>p. p\<lparr>refcnt := refcnt p - 1\<rparr>) pm = upd_page pg (\<lambda>p. p\<lparr>refcnt := rc pm pg - 1\<rparr>) pm"
    by (simp add: upd_page_def)
  show ?thesis
  proof (cases "rc pm pg = 1")
    case False
    with r have "rc pm pg - 1 > 0" by simp
    from binv_rc [of pm "{0..<n_pages pm}", OF _ pg(1) this] show ?thesis using False r inv pg
      by (simp add: pmem_dec_refcnt_def ap u pmem_inv_def Let_def)
  next
    case True
    text \<open>Freeing the decremented page stores the zero that is already there.\<close>
    have e: "pmem_nfree (upd_page pg (\<lambda>p. p\<lparr>refcnt := 0\<rparr>) pm) a 1 = pmem_nfree pm a 1"
      using inv by (simp add: pmem_nfree_def ap pmem_inv_def upd_page_def)
    obtain pm' where "pmem_nfree pm a 1 = Some pm'" "pmem_inv pm'" "allocated pm' = allocated pm - {pg}"
      "n_pages pm' = n_pages pm" "\<forall>i \<in> allocated pm - {pg}. pagemap pm' i = pagemap pm i"
      using pmem_nfree_ok [OF inv pg(1,3), of 1] unfolding a by auto
    moreover have "pmem_dec_refcnt pm a = pmem_nfree pm a 1"
      using True pg(2) e unfolding pmem_dec_refcnt_def ap Let_def u by simp
    ultimately show ?thesis using True by simp
  qed
qed

section \<open>Setting up\<close>

lemma get_max_page_order_ok:
  assumes "start < fin"
  shows "\<exists>ord. get_max_page_order start fin = Some ord \<and> ord \<le> MAX_ORDER \<and> 2 ^ ord dvd start \<and> start + 2 ^ ord \<le> fin"
  using assms
  by (auto simp: get_max_page_order_def find_Some_iff mod_eq_0_iff_dvd split: option.splits)
    (auto simp: rev_nth nth_upt)

lemma binv_add:
  assumes b: "binv pm {} S" and d: "blk i ord \<inter> S = {}" and a: "ord \<le> MAX_ORDER" "2 ^ ord dvd i" "i + 2 ^ ord \<le> n_pages pm"
    and r: "rc pm i = 0"
  shows "binv (upd_page i (\<lambda>p. p\<lparr>order := ord\<rparr>) pm) {i} (S \<union> blk i ord)"
proof -
  let ?pm = "upd_page i (\<lambda>p. p\<lparr>order := ord\<rparr>) pm"
  have al: "allocated ?pm = allocated pm" "freed ?pm = freed pm" by (auto simp: allocated_def freed_def)
  have S: "pages_of pm (allocated pm \<union> freed pm) = S" using binvD(7) [OF b] by simp
  have ni: "i \<notin> allocated pm \<union> freed pm"
    using d S head_in_pages [of i "allocated pm \<union> freed pm" pm] blk_head [of i ord] by blast
  have o: "od ?pm j = od pm j" if "j \<in> allocated pm \<union> freed pm" for j using that ni by auto
  have dj: "blk i ord \<inter> blk j (od pm j) = {}" if "j \<in> allocated pm \<union> freed pm" for j
    using d S blk_in_pages [OF that, of pm] by blast
  have l: "od ?pm j = k \<and> rc ?pm j = 0" if "k \<le> MAX_ORDER" "j \<in> set (freeblocks pm k)" for k j
  proof -
    have "j \<in> freed pm" using that by (auto simp: freed_def)
    then show ?thesis using binvD(2) [OF b that] o [of j] by auto
  qed
  have "pages_of ?pm (allocated pm \<union> freed pm) = S" using o S by (simp add: pages_of_def del: upd_page_simps)
  then have p: "pages_of ?pm (allocated pm \<union> freed pm \<union> {i}) = S \<union> blk i ord" by (simp add: pages_of_def Un_commute)
  show ?thesis unfolding binv_def al p
  proof (intro conjI)
    show "\<forall>i. 0 \<le> rc ?pm i" using binvD(3) [OF b] by simp
    show "\<forall>i\<in>{i}. rc ?pm i = 0 \<and> i \<notin> freed pm" using r ni by simp
    show "\<forall>j\<in>allocated pm \<union> freed pm \<union> {i}. od ?pm j \<le> MAX_ORDER \<and> 2 ^ od ?pm j dvd j \<and> j + 2 ^ od ?pm j \<le> n_pages ?pm"
      using a binvD(5) [OF b] by auto
    show "\<forall>j\<in>allocated pm \<union> freed pm \<union> {i}. \<forall>k\<in>allocated pm \<union> freed pm \<union> {i}.
        j \<noteq> k \<longrightarrow> blk j (od ?pm j) \<inter> blk k (od ?pm k) = {}"
      using binvD(6) [OF b] dj o ni by (auto simp: Int_commute)
  qed (use l binvD(1) [OF b] in simp_all)
qed

text \<open>The fields the set-up loops do not touch.\<close>

definition same_boot :: "pmem \<Rightarrow> pmem \<Rightarrow> bool" where
  "same_boot pm pm' \<longleftrightarrow> n_pages pm' = n_pages pm \<and> pmem_start pm' = pmem_start pm \<and> bitmap pm' = bitmap pm
     \<and> bitmap_contig_start pm' = bitmap_contig_start pm \<and> bitmap_end pm' = bitmap_end pm"

lemma same_boot_simps [simp]:
  "same_boot pm pm" "same_boot pm (upd_page i f pm') = same_boot pm pm'"
  by (auto simp: same_boot_def upd_page_def)

lemma same_boot_trans: "same_boot pm pm' \<Longrightarrow> same_boot pm' pm'' \<Longrightarrow> same_boot pm pm''"
  by (simp add: same_boot_def)

lemma freeblocks_insert_boot: "freeblocks_insert pm pg = Some pm' \<Longrightarrow> same_boot pm pm'"
  by (auto simp: freeblocks_insert_def same_boot_def Let_def upd_page_def split: if_splits)

lemma freeblocks_insert_range_ok:
  assumes "binv pm {} S" "S \<inter> {start..<fin} = {}" "fin \<le> n_pages pm" "\<And>i. i \<in> {start..<fin} \<Longrightarrow> rc pm i = 0"
  shows "\<exists>pm'. freeblocks_insert_range pm start fin = Some pm' \<and> binv pm' {} (S \<union> {start..<fin})
    \<and> (\<forall>i. rc pm' i = rc pm i) \<and> same_boot pm pm'"
  using assms
proof (induction "fin - start" arbitrary: pm start S rule: less_induct)
  case less
  show ?case
  proof (cases "start < fin")
    case False
    then show ?thesis using less.prems by (subst freeblocks_insert_range.simps) simp
  next
    case True
    obtain ord where o: "get_max_page_order start fin = Some ord" "ord \<le> MAX_ORDER" "2 ^ ord dvd start" "start + 2 ^ ord \<le> fin"
      using get_max_page_order_ok [OF True] by blast
    have sub: "blk start ord \<subseteq> {start..<fin}" using o(4) by (auto simp: blk_def)
    let ?pm = "upd_page start (\<lambda>p. p\<lparr>order := ord\<rparr>) pm"
    have b1: "binv ?pm {start} (S \<union> blk start ord)"
      using binv_add [OF less.prems(1) _ o(2,3)] sub less.prems o(4) True by auto
    obtain pm1 where pm1: "freeblocks_insert ?pm start = Some pm1" "binv pm1 {} (S \<union> blk start ord)" "keeps ?pm pm1"
      using freeblocks_insert_ok [of ?pm start "{}"] b1 by auto
    have sb: "same_boot pm pm1" using freeblocks_insert_boot [OF pm1(1)] by (simp add: same_boot_def upd_page_def)
    have rc1: "rc pm1 i = rc pm i" for i using pm1(3) by (simp add: keeps_def)
    have sp: "S \<union> blk start ord \<union> {start + 2 ^ ord..<fin} = S \<union> {start..<fin}"
      using o(4) by (auto simp: blk_def)
    have "fin - (start + 2 ^ ord) < fin - start" using True o(4) zero_less_power [of "2 :: nat" ord] by linarith
    then obtain pm2 where "freeblocks_insert_range pm1 (start + 2 ^ ord) fin = Some pm2"
      "binv pm2 {} (S \<union> {start..<fin})" "\<forall>i. rc pm2 i = rc pm1 i" "same_boot pm1 pm2"
      using less.hyps [of "start + 2 ^ ord" pm1 "S \<union> blk start ord"] pm1(2) less.prems(2-4) rc1 sb sp
      by (fastforce simp: blk_def same_boot_def)
    then show ?thesis using o(1) pm1(1) rc1 True same_boot_trans [OF sb]
      by (subst freeblocks_insert_range.simps) auto
  qed
qed

lemma binv_add_allocated:
  assumes b: "binv pm {} S" and i: "i \<notin> S" "i < n_pages pm" "rc pm i = 0"
  shows "binv (upd_page i (\<lambda>p. p\<lparr>refcnt := 1, order := 0\<rparr>) pm) {} (insert i S)"
proof -
  have "binv (upd_page i (\<lambda>p. p\<lparr>order := 0\<rparr>) pm) {i} (S \<union> blk i 0)"
    using binv_add [OF b, of i 0] i by simp
  note this = binv_take(1) [OF this, of "\<lambda>p. p\<lparr>refcnt := 1\<rparr>"]
  moreover have "p\<lparr>order := 0, refcnt := 1\<rparr> = p\<lparr>refcnt := 1, order := 0\<rparr>" for p :: page by (cases p) simp
  ultimately show ?thesis by (simp add: upd_page_def)
qed

lemma mark_unavailable_ok:
  assumes "binv pm {} {}" "k \<le> n_pages pm" "\<And>i. rc pm i = 0"
  shows "binv (mark_unavailable k pm) {} {0..<k} \<and> same_boot pm (mark_unavailable k pm)
    \<and> (\<forall>i. rc (mark_unavailable k pm) i = (if i < k then 1 else 0))"
  using assms(2)
proof (induction k)
  case 0
  then show ?case using assms by simp
next
  case (Suc k)
  then have ih: "binv (mark_unavailable k pm) {} {0..<k}" "same_boot pm (mark_unavailable k pm)"
    "\<And>i. rc (mark_unavailable k pm) i = (if i < k then 1 else 0)" by auto
  have "insert k {0..<k} = {0..<Suc k}" by auto
  moreover have "n_pages (mark_unavailable k pm) = n_pages pm" using ih(2) by (simp add: same_boot_def)
  ultimately show ?case using binv_add_allocated [OF ih(1), of k] ih(2,3) Suc.prems by auto
qed

lemma probe_free_ok:
  "probe \<le> lim \<Longrightarrow> probe \<le> probe_free b lim probe \<and> probe_free b lim probe \<le> lim
     \<and> (\<forall>i. probe \<le> i \<longrightarrow> i < probe_free b lim probe \<longrightarrow> \<not> b i)"
proof (induction b lim probe rule: probe_free.induct)
  case (1 b lim probe)
  show ?case
  proof (cases "probe < lim \<and> \<not> b probe")
    case True
    then have "probe_free b lim probe = probe_free b lim (probe + 1)" by (simp add: probe_free.simps [of b lim probe])
    moreover have "\<not> b i" if "probe \<le> i" "i < probe_free b lim (probe + 1)" for i
      using that True 1(1) [OF True] by (cases "i = probe") auto
    ultimately show ?thesis using 1(1) [OF True] True by auto
  qed (use 1(2) in \<open>auto simp: probe_free.simps [of b lim probe]\<close>)
qed

lemma add_boot_pages_ok:
  assumes "binv pm {} {0..<pmem_start pm + index}" "index \<le> bitmap_contig_start pm"
    and "pmem_start pm + bitmap_contig_start pm \<le> n_pages pm"
    and "\<And>i. pmem_start pm + index \<le> i \<Longrightarrow> rc pm i = 0"
  shows "\<exists>pm'. add_boot_pages pm index = Some pm' \<and> binv pm' {} {0..<pmem_start pm + bitmap_contig_start pm}
    \<and> same_boot pm pm' \<and> (\<forall>i. rc pm' i = (if pmem_start pm + index \<le> i \<and> i < pmem_start pm + bitmap_contig_start pm
          then if bitmap pm (i - pmem_start pm) then 1 else 0 else rc pm i))"
  using assms
proof (induction "bitmap_contig_start pm - index" arbitrary: pm index rule: less_induct)
  case less
  let ?s = "pmem_start pm" and ?c = "bitmap_contig_start pm"
  show ?case
  proof (cases "index < ?c")
    case False
    then show ?thesis using less.prems by (subst add_boot_pages.simps) auto
  next
    case lt: True
    show ?thesis
    proof (cases "bitmap pm index")
      case True
      let ?pm = "upd_page (index + ?s) (\<lambda>p. p\<lparr>refcnt := 1, order := 0\<rparr>) pm"
      have sb: "same_boot pm ?pm" by simp
      have "insert (index + ?s) {0..<?s + index} = {0..<?s + (index + 1)}" by auto
      then have b: "binv ?pm {} {0..<?s + (index + 1)}"
        using binv_add_allocated [OF less.prems(1), of "index + ?s"] less.prems lt by auto
      obtain pm' where "add_boot_pages ?pm (index + 1) = Some pm'" "binv pm' {} {0..<?s + ?c}" "same_boot ?pm pm'"
        "\<forall>i. rc pm' i = (if ?s + (index + 1) \<le> i \<and> i < ?s + ?c then if bitmap pm (i - ?s) then 1 else 0 else rc ?pm i)"
        using less.hyps [of ?pm "index + 1"] b lt less.prems sb by (fastforce simp: same_boot_def)
      moreover have "add_boot_pages pm index = add_boot_pages ?pm (index + 1)"
        using lt True by (subst add_boot_pages.simps) simp
      ultimately show ?thesis using True lt same_boot_trans [OF sb] by (auto simp: not_le less_Suc_eq)
    next
      case False
      let ?p = "probe_free (bitmap pm) ?c (index + 1)"
      have p: "index + 1 \<le> ?p" "?p \<le> ?c" "\<And>i. index \<le> i \<Longrightarrow> i < ?p \<Longrightarrow> \<not> bitmap pm i"
      proof -
        have pf: "index + 1 \<le> ?p \<and> ?p \<le> ?c \<and> (\<forall>i. index + 1 \<le> i \<longrightarrow> i < ?p \<longrightarrow> \<not> bitmap pm i)"
          using probe_free_ok [of "index + 1" ?c "bitmap pm"] lt by simp
        then show "index + 1 \<le> ?p" "?p \<le> ?c" by simp_all
        show "\<not> bitmap pm i" if "index \<le> i" "i < ?p" for i
          using that pf False by (cases "i = index") auto
      qed
      have un: "{0..<?s + index} \<union> {index + ?s..<?p + ?s} = {0..<?s + ?p}" using p(1) by auto
      obtain pm1 where pm1: "freeblocks_insert_range pm (index + ?s) (?p + ?s) = Some pm1" "binv pm1 {} {0..<?s + ?p}"
        "\<forall>i. rc pm1 i = rc pm i" "same_boot pm pm1"
        using freeblocks_insert_range_ok [OF less.prems(1), of "index + ?s" "?p + ?s"] less.prems(3,4) p(2) un by force
      have sb: "pmem_start pm1 = ?s" "bitmap_contig_start pm1 = ?c" "bitmap pm1 = bitmap pm" "n_pages pm1 = n_pages pm"
        using pm1(4) by (auto simp: same_boot_def)
      obtain pm2 where "add_boot_pages pm1 ?p = Some pm2" "binv pm2 {} {0..<?s + ?c}" "same_boot pm1 pm2"
        "\<forall>i. rc pm2 i = (if ?s + ?p \<le> i \<and> i < ?s + ?c then if bitmap pm (i - ?s) then 1 else 0 else rc pm1 i)"
      proof -
        have "bitmap_contig_start pm1 - ?p < ?c - index" using p lt by (simp add: sb)
        from less.hyps [OF this] show thesis using that pm1 p less.prems by (auto simp: sb)
      qed
      moreover have "add_boot_pages pm index = add_boot_pages pm1 ?p"
        using lt False pm1(1) by (subst add_boot_pages.simps) simp
      ultimately show ?thesis using same_boot_trans [OF pm1(4)] pm1(3) p less.prems(4) by auto
    qed
  qed
qed

subsection \<open>From boot to the buddy allocator\<close>

text \<open>The state of the boot allocator: bits are set only below \<open>bitmap_contig_start\<close>, and the pages of the
  bitmap itself are marked.\<close>

definition boot_ok :: "pmem \<Rightarrow> bool" where
  "boot_ok pm \<longleftrightarrow> \<not> pagemap_initialized pm \<and> 0 < pmem_start pm \<and> pmem_start pm < n_pages pm \<and> n_pages pm \<le> 2 ^ 52
     \<and> bitmap_end pm = n_pages pm - pmem_start pm \<and> bitmap_contig_start pm \<le> bitmap_end pm
     \<and> (\<forall>i \<ge> bitmap_contig_start pm. \<not> bitmap pm i) \<and> (\<forall>i < bitmap_n_pages pm. bitmap pm i)
     \<and> 0 < bitmap_n_pages pm"

lemma bitmap_set_loop_eq:
  "bitmap_set_loop i n pm =
     (if \<forall>j. i \<le> j \<longrightarrow> j < i + n \<longrightarrow> \<not> bitmap pm j
      then Some (pm\<lparr>bitmap := \<lambda>j. bitmap pm j \<or> i \<le> j \<and> j < i + n\<rparr>) else None)"
proof (induction n arbitrary: i pm)
  case 0
  have "(\<lambda>j. bitmap pm j \<or> i \<le> j \<and> j < i + 0) = bitmap pm" by auto
  then show ?case by simp
next
  case (Suc n)
  have d: "i \<le> j \<longleftrightarrow> j = i \<or> i + 1 \<le> j" for j by auto
  have e: "(\<lambda>j. ((bitmap pm)(i := True)) j \<or> i + 1 \<le> j \<and> j < i + 1 + n) =
      (\<lambda>j. bitmap pm j \<or> i \<le> j \<and> j < i + Suc n)" unfolding d by (auto simp: fun_eq_iff)
  have c: "(\<forall>j. i \<le> j \<longrightarrow> j < i + Suc n \<longrightarrow> \<not> bitmap pm j) \<longleftrightarrow>
      \<not> bitmap pm i \<and> (\<forall>j. i + 1 \<le> j \<longrightarrow> j < i + 1 + n \<longrightarrow> \<not> ((bitmap pm)(i := True)) j)"
    unfolding d by auto
  show ?case unfolding c e [symmetric] using Suc.IH [of "i + 1" "pm\<lparr>bitmap := (bitmap pm)(i := True)\<rparr>"]
    by simp
qed

lemma bitmap_clear_loop_ok:
  "(\<And>j. i \<le> j \<Longrightarrow> j < i + n \<Longrightarrow> bitmap pm j) \<Longrightarrow>
     bitmap_clear_loop i n pm = Some (pm\<lparr>bitmap := \<lambda>j. bitmap pm j \<and> \<not> (i \<le> j \<and> j < i + n)\<rparr>)"
proof (induction n arbitrary: i pm)
  case (Suc n)
  have "(\<lambda>j. ((bitmap pm)(i := False)) j \<and> \<not> (i + 1 \<le> j \<and> j < i + 1 + n)) =
      (\<lambda>j. bitmap pm j \<and> \<not> (i \<le> j \<and> j < i + Suc n))" by (auto simp: fun_eq_iff Suc_le_eq)
  with Suc.IH [of "i + 1" "pm\<lparr>bitmap := (bitmap pm)(i := False)\<rparr>"] Suc.prems show ?case by simp
qed simp

lemma pmem_boot_init_ok:
  assumes "0 < pmem_start pm" "pmem_start pm + 8 \<le> n_pages pm" "n_pages pm \<le> 2 ^ 52"
  shows "\<exists>pm'. pmem_boot_init pm = Some pm' \<and> boot_ok pm'"
proof -
  let ?e = "n_pages pm - pmem_start pm"
  let ?k = "(?e div 8 + 4095) div 4096"
  let ?pm = "pm\<lparr>bitmap_contig_start := 0, bitmap_end := ?e, bitmap := \<lambda>_. False\<rparr>"
  have k: "0 < ?k" "?k < ?e" using assms(2) by auto
  show ?thesis
    using assms k
    by (simp add: pmem_boot_init_def bitmap_init_def bitmap_alloc_def bitmap_n_pages_def boot_ok_def bitmap_set_loop_eq)
qed

lemma bitmap_alloc_ok:
  assumes "boot_ok pm" "bitmap_alloc pm index n = Some pm'"
  shows "boot_ok pm' \<and> pmem_start pm' = pmem_start pm \<and> n_pages pm' = n_pages pm"
proof -
  have b: "bitmap_n_pages (pm\<lparr>bitmap := f\<rparr>) = bitmap_n_pages pm"
    "bitmap_n_pages (pm\<lparr>bitmap := f, bitmap_contig_start := c\<rparr>) = bitmap_n_pages pm" for f c
    by (simp_all add: bitmap_n_pages_def)
  from assms show ?thesis
    by (auto simp: bitmap_alloc_def boot_ok_def bitmap_set_loop_eq b split: if_splits)
qed

lemma boot_nalloc_ok:
  assumes "boot_ok pm" "pmem_nalloc pm n = Some (ERR_OK, r, pm')"
  shows "boot_ok pm' \<and> pmem_start pm' = pmem_start pm \<and> n_pages pm' = n_pages pm"
proof -
  have "\<not> pagemap_initialized pm" using assms(1) by (simp add: boot_ok_def)
  with assms(2) obtain index where "bitmap_alloc pm index n = Some pm'"
    by (auto simp: pmem_nalloc_def bitmap_find_def bind_Some_conv split: if_splits option.splits)
  with bitmap_alloc_ok [OF assms(1)] show ?thesis .
qed

lemma binv_init_flag [simp]: "binv (pm\<lparr>pagemap_initialized := x\<rparr>) H S = binv pm H S"
  by (simp add: binv_def allocated_def freed_def pages_of_def)

lemma freeblocks_init_ok:
  assumes b: "boot_ok pm" and z: "\<And>i. rc pm i = 0"
  shows "\<exists>pm'. freeblocks_init pm = Some pm' \<and> pmem_inv (pm'\<lparr>pagemap_initialized := True\<rparr>)
    \<and> (\<forall>i. rc pm' i = (if i < pmem_start pm then 1
          else if bitmap_n_pages pm \<le> i - pmem_start pm \<and> bitmap pm (i - pmem_start pm) then 1 else 0))"
proof -
  let ?s = "pmem_start pm" and ?k = "bitmap_n_pages pm"
  note f = b [unfolded boot_ok_def]
  have kc: "?k \<le> bitmap_contig_start pm" using f by (metis not_le_imp_less order_refl)
  define bm where "bm = (\<lambda>j. bitmap pm j \<and> \<not> j < ?k)"
  define c where "c = (if ?k = bitmap_contig_start pm then 0 else bitmap_contig_start pm)"
  have cl: "bitmap_clear_loop 0 ?k pm = Some (pm\<lparr>bitmap := bm\<rparr>)"
    using bitmap_clear_loop_ok [of 0 ?k pm] f by (simp add: bm_def)
  have p: "paddr_to_page (page_to_paddr ?s) = ?s" using f by (intro page_roundtrip) auto
  define pm1 where "pm1 = pm\<lparr>bitmap := bm, bitmap_contig_start := c\<rparr>"
  have fr: "pmem_nfree pm (page_to_paddr ?s) ?k = Some pm1"
    using f kc cl by (auto simp: pmem_nfree_def p bitmap_free_def pm1_def c_def)
  define pm2 where "pm2 = pm1\<lparr>freeblocks := \<lambda>_. []\<rparr>"
  have e: "bitmap pm2 = bm" "bitmap_contig_start pm2 = c" "pmem_start pm2 = ?s" "n_pages pm2 = n_pages pm" "rc pm2 i = 0"
    "freeblocks pm2 = (\<lambda>_. [])" for i by (simp_all add: pm2_def pm1_def z)
  have "binv pm2 {} {}" by (simp add: binv_def allocated_def freed_def pages_of_def e)
  from mark_unavailable_ok [OF this, of ?s] f e
  have m: "binv (mark_unavailable ?s pm2) {} {0..<?s}" "same_boot pm2 (mark_unavailable ?s pm2)"
    "\<And>i. rc (mark_unavailable ?s pm2) i = (if i < ?s then 1 else 0)" by auto
  have em: "bitmap (mark_unavailable ?s pm2) = bm" "bitmap_contig_start (mark_unavailable ?s pm2) = c"
    "pmem_start (mark_unavailable ?s pm2) = ?s" "n_pages (mark_unavailable ?s pm2) = n_pages pm"
    using m(2) e by (auto simp: same_boot_def)
  have sc: "?s + c \<le> n_pages pm" using f by (auto simp: c_def)
  obtain pm3 where pm3: "add_boot_pages (mark_unavailable ?s pm2) 0 = Some pm3" "binv pm3 {} {0..<?s + c}"
    "same_boot (mark_unavailable ?s pm2) pm3"
    "\<And>i. rc pm3 i = (if ?s \<le> i \<and> i < ?s + c then if bm (i - ?s) then 1 else 0 else if i < ?s then 1 else 0)"
    using add_boot_pages_ok [of "mark_unavailable ?s pm2" 0] m em sc by auto
  have e3: "bitmap_contig_start pm3 = c" "pmem_start pm3 = ?s" "n_pages pm3 = n_pages pm"
    using pm3(3) em by (auto simp: same_boot_def)
  obtain pm4 where pm4: "freeblocks_insert_range pm3 (c + ?s) (n_pages pm) = Some pm4"
    "binv pm4 {} ({0..<?s + c} \<union> {c + ?s..<n_pages pm})" "\<And>i. rc pm4 i = rc pm3 i" "same_boot pm3 pm4"
    using freeblocks_insert_range_ok [OF pm3(2), of "c + ?s" "n_pages pm"] e3 pm3(4) by auto
  have cov: "{0..<?s + c} \<union> {c + ?s..<n_pages pm} = {0..<n_pages pm}" using sc by auto
  have n4: "n_pages pm4 = n_pages pm" using pm4(4) e3 by (simp add: same_boot_def)
  have run: "freeblocks_init pm = Some pm4"
    using fr pm3(1) pm4(1) e3 by (simp add: freeblocks_init_def pm1_def flip: pm2_def) (simp add: pm2_def pm1_def)
  have bmc: "bm j \<Longrightarrow> j < c" for j using f kc unfolding bm_def c_def by (metis not_le)
  have rcs: "rc pm4 i = (if i < ?s then 1 else if ?k \<le> i - ?s \<and> bitmap pm (i - ?s) then 1 else 0)" for i
    using pm3(4) pm4(3) bmc [of "i - ?s"] by (auto simp: bm_def not_less)
  have "binv (pm4\<lparr>pagemap_initialized := True\<rparr>) {} {0..<n_pages pm}"
    using pm4(2) unfolding cov by simp
  then have "pmem_inv (pm4\<lparr>pagemap_initialized := True\<rparr>)"
    using rcs [of 0] f n4 by (simp add: pmem_inv_def allocated_def)
  with run rcs show ?thesis by blast
qed

lemma pages_of_same:
  "A = B \<Longrightarrow> (\<And>i. i \<in> B \<Longrightarrow> pagemap pm' i = pagemap pm i) \<Longrightarrow> pages_of pm' A = pages_of pm B"
  by (simp add: pages_of_def)

lemma pages_of_insert: "pages_of pm (insert i A) = blk i (od pm i) \<union> pages_of pm A"
  by (simp add: pages_of_def)

lemma bitmap_find_gap:
  assumes "\<And>j. i \<le> j \<Longrightarrow> j < i + k \<Longrightarrow> \<not> b j" "f + k = n" "k > 0" "k \<le> left"
  shows "bitmap_find_loop b n i first f left = Some first"
  using assms
proof (induction k arbitrary: i f left)
  case (Suc k)
  then obtain l where l: "left = Suc l" by (cases left) auto
  show ?case
  proof (cases "k = 0")
    case False
    then show ?thesis using Suc.IH [of "i + 1" "f + 1" l] Suc.prems l by simp
  qed (use Suc.prems l in simp)
qed simp

section \<open>A small instance\<close>

text \<open>Four pages: the first two are allocated, the last two form a free block of order one.\<close>

definition small_pmem :: pmem where
  "small_pmem = \<lparr>pagemap = (\<lambda>i. zero_page\<lparr>refcnt := (if i < 2 then 1 else 0), order := (if i = 2 then 1 else 0)\<rparr>),
     n_pages = 4, freeblocks = (\<lambda>ord. if ord = 1 then [2] else []),
     pagemap_initialized = True, pmem_start = 1, bitmap = (\<lambda>_. False), bitmap_contig_start = 0, bitmap_end = 3\<rparr>"

lemma small_pmem_sets: "allocated small_pmem = {0, 1}" "freed small_pmem = {2}"
proof -
  show "allocated small_pmem = {0, 1}" by (auto simp: small_pmem_def allocated_def zero_page_def split: if_splits)
  have f: "set (freeblocks small_pmem ord) = (if ord = 1 then {2} else {})" for ord by (simp add: small_pmem_def)
  have "2 \<in> freed small_pmem" unfolding freed_def f by (rule UN_I [of 1]) simp_all
  moreover have "freed small_pmem \<subseteq> {2}" unfolding freed_def f by (rule UN_least) simp
  ultimately show "freed small_pmem = {2}" by blast
qed

lemma small_pmem_inv: "pmem_inv small_pmem"
proof -
  have o: "od small_pmem i = (if i = 2 then 1 else 0)" "rc small_pmem i = (if i < 2 then 1 else 0)"
    "n_pages small_pmem = 4" "freeblocks small_pmem ord = (if ord = 1 then [2] else [])" for i ord
    by (simp_all add: small_pmem_def zero_page_def)
  have b: "blk 2 (Suc 0) = {2, 3}" by (auto simp: blk_def)
  have "pages_of small_pmem {0, 1, 2} = {0, 1, 2, 3}" by (simp add: pages_of_def o b insert_commute)
  moreover have "{0, 1, 2, 3} = {0..<4 :: nat}" by auto
  ultimately have "pages_of small_pmem {0, 1, 2} = {0..<4}" by (simp only:)
  with o b have "binv small_pmem {} {0..<4}"
    unfolding binv_def small_pmem_sets by (simp add: insert_commute)
  then show ?thesis using small_pmem_sets by (simp add: pmem_inv_def) (simp add: small_pmem_def)
qed

section \<open>Properties\<close>

text \<open>C2. pmem_nalloc on a well-formed buddy allocator returns for every request of 1 to 1024 pages.  On
  success the address is that of an aligned block of a power of two of at least n pages, all of
  them free before; exactly those pages become allocated and every other allocated page keeps
  its record.  It reports ERR_NOMEM only if no free block is large enough, and then nothing changes.\<close>

theorem pmem_nalloc_correct:
  assumes "pmem_inv pm" "0 < n" "n \<le> 1024"
  shows "\<exists>err p pm'. pmem_nalloc pm n = Some (err, p, pm') \<and> pmem_inv pm' \<and>
    (if err = ERR_OK
     then \<exists>pg ord. p = Some (page_to_paddr pg) \<and> n \<le> 2 ^ ord \<and> 2 ^ ord dvd pg
       \<and> blk pg ord \<subseteq> pages_of pm (freed pm)
       \<and> pages_of pm' (allocated pm') = pages_of pm (allocated pm) \<union> blk pg ord
       \<and> (\<forall>i \<in> allocated pm. pagemap pm' i = pagemap pm i)
     else err = ERR_NOMEM \<and> p = None \<and> pm' = pm \<and> (\<forall>k \<le> MAX_ORDER. n \<le> 2 ^ k \<longrightarrow> freeblocks pm k = []))"
proof -
  obtain ord where o: "get_min_page_order n = Some ord" "\<forall>k < ord. 2 ^ k < n"
    using get_min_page_order_ok [OF assms(2,3)] by blast
  then have ge: "ord \<le> k" if "n \<le> 2 ^ k" for k using that by (metis not_le)
  from pmem_nalloc_ok [OF assms] o(1) consider
      "pmem_nalloc pm n = Some (ERR_NOMEM, None, pm)" "\<forall>k. ord \<le> k \<longrightarrow> k \<le> MAX_ORDER \<longrightarrow> freeblocks pm k = []"
    | pg pm' where "pmem_nalloc pm n = Some (ERR_OK, Some (page_to_paddr pg), pm')" "pmem_inv pm'" "n \<le> 2 ^ ord"
      "blk pg ord \<subseteq> pages_of pm (freed pm)" "2 ^ ord dvd pg" "pg \<notin> allocated pm"
      "allocated pm' = insert pg (allocated pm)" "od pm' pg = ord" "\<forall>i \<in> allocated pm. pagemap pm' i = pagemap pm i"
    by auto
  then show ?thesis
  proof cases
    case 1
    then show ?thesis using assms(1) ge by auto
  next
    case (2 pg pm')
    have "pages_of pm' (allocated pm') = pages_of pm (allocated pm) \<union> blk pg ord"
      using 2 pages_of_same [OF refl, of "allocated pm" pm' pm] by (simp add: pages_of_insert Un_commute)
    with 2 show ?thesis by (intro exI [of _ ERR_OK] exI [of _ "Some (page_to_paddr pg)"] exI [of _ pm']) auto
  qed
qed

theorem pmem_nalloc_correct_witness:
  "\<exists>err p pm'. pmem_nalloc small_pmem 2 = Some (err, p, pm') \<and> pmem_inv pm' \<and>
    (if err = ERR_OK
     then \<exists>pg ord. p = Some (page_to_paddr pg) \<and> (2 :: nat) \<le> 2 ^ ord \<and> 2 ^ ord dvd pg
       \<and> blk pg ord \<subseteq> pages_of small_pmem (freed small_pmem)
       \<and> pages_of pm' (allocated pm') = pages_of small_pmem (allocated small_pmem) \<union> blk pg ord
       \<and> (\<forall>i \<in> allocated small_pmem. pagemap pm' i = pagemap small_pmem i)
     else err = ERR_NOMEM \<and> p = None \<and> pm' = small_pmem
       \<and> (\<forall>k \<le> MAX_ORDER. (2 :: nat) \<le> 2 ^ k \<longrightarrow> freeblocks small_pmem k = []))"
  by (rule pmem_nalloc_correct) (simp_all add: small_pmem_inv)

text \<open>C3. pmem_nfree of an allocated block returns: merging with free buddies ends, the allocator stays
  well-formed, and exactly the pages of the block go from allocated to free while every other
  allocated block keeps its record.\<close>

theorem pmem_nfree_correct:
  assumes "pmem_inv pm" "pg \<in> allocated pm" "pg \<noteq> 0" "n > 0"
  shows "\<exists>pm'. pmem_nfree pm (page_to_paddr pg) n = Some pm' \<and> pmem_inv pm'
    \<and> pages_of pm' (freed pm') = pages_of pm (freed pm) \<union> blk pg (od pm pg)
    \<and> allocated pm' = allocated pm - {pg} \<and> (\<forall>i \<in> allocated pm - {pg}. pagemap pm' i = pagemap pm i)"
proof -
  obtain pm' where f: "pmem_nfree pm (page_to_paddr pg) n = Some pm'" "pmem_inv pm'"
    "allocated pm' = allocated pm - {pg}" "n_pages pm' = n_pages pm" "\<forall>i \<in> allocated pm - {pg}. pagemap pm' i = pagemap pm i"
    using pmem_nfree_ok [OF assms] by blast
  have b: "binv pm {} {0..<n_pages pm}" "binv pm' {} {0..<n_pages pm'}" using assms(1) f(2) by (auto simp: pmem_inv_def)
  have e: "pages_of pm' (allocated pm') = pages_of pm (allocated pm - {pg})"
    using f(3,5) by (intro pages_of_same) auto
  have sp: "pages_of pm (allocated pm) = blk pg (od pm pg) \<union> pages_of pm (allocated pm - {pg})"
    using assms(2) pages_of_insert [of pm pg "allocated pm - {pg}"] by (simp add: insert_absorb)
  have dj: "blk pg (od pm pg) \<inter> pages_of pm (allocated pm - {pg}) = {}"
    using binvD(6) [OF b(1), of pg] assms(2) unfolding pages_of_def by fastforce
  have "blk pg (od pm pg) \<subseteq> {0..<n_pages pm}" using binvD(5) [OF b(1), of pg] assms(2) by (simp add: blk_bound)
  then have "pages_of pm' (freed pm') = pages_of pm (freed pm) \<union> blk pg (od pm pg)"
    unfolding pages_of_freed [OF b(2)] pages_of_freed [OF b(1)] e f(4) sp using dj by blast
  with f show ?thesis by blast
qed

theorem pmem_nfree_correct_witness:
  "\<exists>pm'. pmem_nfree small_pmem (page_to_paddr 1) 1 = Some pm' \<and> pmem_inv pm'
    \<and> pages_of pm' (freed pm') = pages_of small_pmem (freed small_pmem) \<union> blk 1 (od small_pmem 1)
    \<and> allocated pm' = allocated small_pmem - {1} \<and> (\<forall>i \<in> allocated small_pmem - {1}. pagemap pm' i = pagemap small_pmem i)"
  by (rule pmem_nfree_correct) (simp_all add: small_pmem_inv small_pmem_sets)

text \<open>Reference counts of order-zero pages: pmem_inc_refcnt adds to the count and nothing else;
  pmem_dec_refcnt lowers it and gives the page back exactly when the count reaches zero; both
  return, keep the allocator well-formed and leave all other allocated pages alone.\<close>

theorem pmem_refcnt_correct:
  assumes "pmem_inv pm" "pg \<in> allocated pm" "od pm pg = 0" "pg \<noteq> 0"
  shows "(\<exists>pm'. pmem_inc_refcnt pm (page_to_paddr pg) n = Some pm' \<and> pmem_inv pm'
      \<and> allocated pm' = allocated pm \<and> rc pm' pg = rc pm pg + int n)
    \<and> (\<exists>pm'. pmem_dec_refcnt pm (page_to_paddr pg) = Some pm' \<and> pmem_inv pm'
      \<and> allocated pm' = (if rc pm pg = 1 then allocated pm - {pg} else allocated pm)
      \<and> (rc pm pg > 1 \<longrightarrow> rc pm' pg = rc pm pg - 1)
      \<and> (\<forall>i \<in> allocated pm - {pg}. pagemap pm' i = pagemap pm i))"
proof -
  have "pg < 2 ^ 52" using assms(1,2) by (auto simp: pmem_inv_def allocated_def)
  then show ?thesis
    using pmem_inc_refcnt_ok [OF assms(1-3) page_roundtrip, of n] pmem_dec_refcnt_ok [OF assms refl] by blast
qed

theorem pmem_refcnt_correct_witness:
  "(\<exists>pm'. pmem_inc_refcnt small_pmem (page_to_paddr 1) 3 = Some pm' \<and> pmem_inv pm'
      \<and> allocated pm' = allocated small_pmem \<and> rc pm' 1 = rc small_pmem 1 + int 3)
    \<and> (\<exists>pm'. pmem_dec_refcnt small_pmem (page_to_paddr 1) = Some pm' \<and> pmem_inv pm'
      \<and> allocated pm' = (if rc small_pmem 1 = 1 then allocated small_pmem - {1} else allocated small_pmem)
      \<and> (rc small_pmem 1 > 1 \<longrightarrow> rc pm' 1 = rc small_pmem 1 - 1)
      \<and> (\<forall>i \<in> allocated small_pmem - {1}. pagemap pm' i = pagemap small_pmem i))"
  by (rule pmem_refcnt_correct)
    (simp_all add: small_pmem_inv small_pmem_sets, simp add: small_pmem_def zero_page_def)

text \<open>C35. Setting up the buddy allocator: from any state of the boot allocator in which the page map could be
  allocated, pmem_init returns a well-formed buddy allocator over all of physical memory.  The
  pages below pmem_start and the pages marked in the boot bitmap, its own pages apart, are
  allocated with count one; all others are free.\<close>

theorem pmem_init_establishes:
  assumes "boot_ok pm" "pagemap_init sz pm = Some pm1"
  shows "\<exists>pm'. pmem_init sz pm = Some pm' \<and> pmem_inv pm'
    \<and> (\<forall>i. rc pm' i = (if i < pmem_start pm then 1
          else if bitmap_n_pages pm1 \<le> i - pmem_start pm \<and> bitmap pm1 (i - pmem_start pm) then 1 else 0))"
proof -
  obtain r pm0 where a: "pmem_nalloc pm ((n_pages pm * sz + 4095) div 4096) = Some (ERR_OK, r, pm0)"
    "pm1 = pm0\<lparr>pagemap := \<lambda>_. zero_page\<rparr>"
    using assms(2) by (auto simp: pagemap_init_def bind_Some_conv split: if_splits)
  have "boot_ok pm1" "pmem_start pm1 = pmem_start pm"
    using boot_nalloc_ok [OF assms(1) a(1)] by (auto simp: a(2) boot_ok_def bitmap_n_pages_def)
  moreover have "rc pm1 i = 0" for i by (simp add: a(2) zero_page_def)
  ultimately show ?thesis using freeblocks_init_ok [of pm1] assms(2) by (fastforce simp: pmem_init_def)
qed

theorem pmem_init_establishes_witness:
  "\<exists>pm0 pm1 pm'. pmem_boot_init (small_pmem\<lparr>n_pages := 40\<rparr>) = Some pm0 \<and> pagemap_init 200 pm0 = Some pm1
    \<and> pmem_init 200 pm0 = Some pm' \<and> pmem_inv pm'
    \<and> (\<forall>i. rc pm' i = (if i < pmem_start pm0 then 1
          else if bitmap_n_pages pm1 \<le> i - pmem_start pm0 \<and> bitmap pm1 (i - pmem_start pm0) then 1 else 0))"
proof -
  let ?pm = "small_pmem\<lparr>n_pages := 40\<rparr>"
  obtain pm0 where 0: "pmem_boot_init ?pm = Some pm0" "boot_ok pm0"
    using pmem_boot_init_ok [of ?pm] by (auto simp: small_pmem_def)
  then have e: "bitmap pm0 = (\<lambda>j. j < 1)" "n_pages pm0 = 40" "bitmap_end pm0 = 39" "\<not> pagemap_initialized pm0"
    by (auto simp: pmem_boot_init_def bitmap_init_def bitmap_alloc_def bitmap_set_loop_eq small_pmem_def bitmap_n_pages_def
        bind_Some_conv split: if_splits)
  have "bitmap_find_loop (bitmap pm0) 2 1 1 0 38 = Some 1"
    by (rule bitmap_find_gap [where k = 2]) (auto simp: e)
  then have "bitmap_find_loop (bitmap pm0) 2 0 0 0 39 = Some 1"
    using bitmap_find_loop.simps(2) [of "bitmap pm0" 2 0 0 0 38] by (simp add: e)
  then have "pagemap_init 200 pm0 \<noteq> None"
    by (simp add: pagemap_init_def pmem_nalloc_def bitmap_find_def e bitmap_alloc_def bitmap_set_loop_eq)
  then obtain pm1 where "pagemap_init 200 pm0 = Some pm1" by blast
  with 0 pmem_init_establishes [OF 0(2) this] show ?thesis by blast
qed

text \<open>The boot allocator stops the kernel although free pages exist: with the first page free, the
  second allocated and the following n pages free, bitmap_find counts set bits instead of
  remembering where the run starts, returns the allocated second page, and the assertion in
  bitmap_alloc fails.\<close>

theorem boot_nalloc_stops:
  assumes "\<not> pagemap_initialized pm" "2 \<le> n" "2 + n \<le> bitmap_end pm"
    and "\<not> bitmap pm 0" "bitmap pm 1" "\<And>j. 2 \<le> j \<Longrightarrow> j < 2 + n \<Longrightarrow> \<not> bitmap pm j"
  shows "bitmap_find pm n = Some (Some 1) \<and> pmem_nalloc pm n = None"
proof -
  obtain k where k: "bitmap_end pm = Suc (Suc k)" "n \<le> k" using assms(3) by (cases "bitmap_end pm" rule: nat.exhaust; cases "bitmap_end pm - 1") auto
  have "bitmap_find_loop (bitmap pm) n 2 1 0 k = Some 1"
    using assms(2,6) k(2) by (intro bitmap_find_gap [where k = n]) auto
  then have f: "bitmap_find pm n = Some (Some 1)"
    using assms by (simp add: bitmap_find_def k(1) numeral_2_eq_2)
  have "bitmap_alloc pm 1 n = None"
    using assms(2,5) by (auto simp: bitmap_alloc_def bitmap_set_loop_eq)
  then show ?thesis using f assms(1,2) by (simp add: pmem_nalloc_def)
qed

theorem boot_nalloc_stops_witness:
  "let pm = small_pmem\<lparr>pagemap_initialized := False, bitmap_end := 9, bitmap := (\<lambda>j. j = 1)\<rparr> in
   bitmap_find pm 3 = Some (Some 1) \<and> pmem_nalloc pm 3 = None"
  unfolding Let_def by (rule boot_nalloc_stops) simp_all

end
