(* ===== verification/Vpmap.thy ===== *)
theory Vpmap
  imports Pmem
begin

text \<open>
  The four-level page tables of \<^verbatim>\<open>arch/x86_64/kernel/mm/vpmap.c\<close>.  Physical memory is seen in
  two ways: \<open>ptes\<close> gives the 512 entries of a page used as a table, \<open>pgdata\<close> the bytes of a page
  used for data; the allocator state of \<open>Pmem\<close> is part of the state.  A vpmap is the page
  number of its top-level table, \<open>None\<close> for a null pointer.  The lemmas show that mapping a page
  makes exactly that page translate to the given frame and changes no other translation, and
  what unmapping really clears.
\<close>

section \<open>State and entries\<close>

record vps =
  pm :: pmem
  ptes :: "nat \<Rightarrow> nat \<Rightarrow> pte_t"
  pgdata :: "nat \<Rightarrow> nat \<Rightarrow> u8"
  cr3 :: nat

type_synonym vpmap = "nat option"

abbreviation (input) ERR_VPMAP_NOTPRESENT :: err_t where "ERR_VPMAP_NOTPRESENT \<equiv> 1"
abbreviation (input) ERR_VPMAP_MAP :: err_t where "ERR_VPMAP_MAP \<equiv> 2"

definition present :: "pte_t \<Rightarrow> bool" where
  "present e \<longleftrightarrow> e AND PTE_P \<noteq> 0"

definition set_pte :: "nat \<Rightarrow> nat \<Rightarrow> pte_t \<Rightarrow> vps \<Rightarrow> vps" where
  "set_pte t i e s = s\<lparr>ptes := (ptes s)(t := (ptes s t)(i := e))\<rparr>"

text \<open>memset of a whole page: zero in both views.\<close>

definition zero_table :: "nat \<Rightarrow> vps \<Rightarrow> vps" where
  "zero_table t s = s\<lparr>ptes := (ptes s)(t := (\<lambda>_. 0)), pgdata := (pgdata s)(t := (\<lambda>_. 0))\<rparr>"

text \<open>One level of the walk: the table the entry points to, allocated and zeroed if absent and asked for.\<close>

definition walk_level :: "vps \<Rightarrow> nat \<Rightarrow> nat \<Rightarrow> bool \<Rightarrow> (nat option \<times> vps) exec" where
  "walk_level s t i alloc =
     (if \<not> present (ptes s t i) then
        if \<not> alloc then Some (None, s)
        else do {
          (err, p, pm') \<leftarrow> pmem_alloc (pm s);
          case p of
            None \<Rightarrow> Some (None, s\<lparr>pm := pm'\<rparr>)
          | Some paddr \<Rightarrow> do {
              let s = zero_table (paddr_to_page paddr) (s\<lparr>pm := pm'\<rparr>);
              let s = set_pte t i (paddr OR PTE_P OR PTE_W OR PTE_U) s;
              Some (Some (paddr_to_page (ENTRY_ADDR (ptes s t i))), s) } }
      else Some (Some (paddr_to_page (ENTRY_ADDR (ptes s t i))), s))"

definition find_pte :: "vps \<Rightarrow> nat \<Rightarrow> vaddr_t \<Rightarrow> bool \<Rightarrow> ((nat \<times> nat) option \<times> vps) exec" where
  "find_pte s pml4 vaddr alloc = do {
     (pdpt, s) \<leftarrow> walk_level s pml4 (PML4X vaddr) alloc;
     case pdpt of None \<Rightarrow> Some (None, s)
     | Some pdpt \<Rightarrow> do {
         (pgdir, s) \<leftarrow> walk_level s pdpt (PDPTX vaddr) alloc;
         case pgdir of None \<Rightarrow> Some (None, s)
         | Some pgdir \<Rightarrow> do {
             (pgtab, s) \<leftarrow> walk_level s pgdir (PDX vaddr) alloc;
             case pgtab of None \<Rightarrow> Some (None, s)
             | Some pgtab \<Rightarrow> Some (Some (pgtab, PTX vaddr), s) } } }"

definition clear_pte :: "vps \<Rightarrow> nat \<Rightarrow> nat \<Rightarrow> vps exec" where
  "clear_pte s t i = do {
     s \<leftarrow> (if present (ptes s t i)
          then do { pm' \<leftarrow> pmem_dec_refcnt (pm s) (PPN (ptes s t i)); Some (s\<lparr>pm := pm'\<rparr>) }
          else Some s);
     Some (set_pte t i 0 s) }"

definition memperm_to_pteperm :: "memperm \<Rightarrow> u64" where
  "memperm_to_pteperm p =
     (case p of MEMPERM_R \<Rightarrow> 0 | MEMPERM_RW \<Rightarrow> PTE_W | MEMPERM_UR \<Rightarrow> PTE_U | MEMPERM_URW \<Rightarrow> PTE_U OR PTE_W)"

section \<open>Mapping\<close>

text \<open>The loop of map_pages compares for equality, since a mapping may end at address zero.\<close>

partial_function (option) map_loop :: "vps \<Rightarrow> nat \<Rightarrow> vaddr_t \<Rightarrow> vaddr_t \<Rightarrow> paddr_t \<Rightarrow> u64 \<Rightarrow> (err_t \<times> vps) exec" where
  "map_loop s pml4 v vend paddr perm =
     (if v \<noteq> vend then do {
        (r, s) \<leftarrow> find_pte s pml4 v True;
        case r of
          None \<Rightarrow> Some (ERR_VPMAP_MAP, s)
        | Some (t, i) \<Rightarrow>
            map_loop (set_pte t i (PPN paddr OR PTE_P OR perm) s) pml4 (v + pg_size) vend (paddr + pg_size) perm }
      else Some (ERR_OK, s))"

definition map_pages :: "vps \<Rightarrow> nat \<Rightarrow> vaddr_t \<Rightarrow> paddr_t \<Rightarrow> u64 \<Rightarrow> u64 \<Rightarrow> (err_t \<times> vps) exec" where
  "map_pages s pml4 vaddr paddr sz perm =
     map_loop s pml4 (pg_round_down vaddr) (pg_round_down (vaddr + sz)) (pg_round_down paddr) perm"

definition vpmap_map :: "vps \<Rightarrow> vpmap \<Rightarrow> vaddr_t \<Rightarrow> paddr_t \<Rightarrow> u64 \<Rightarrow> memperm \<Rightarrow> (err_t \<times> vps) exec" where
  "vpmap_map s vp vaddr paddr n memperm =
     (case vp of None \<Rightarrow> None
      | Some pml4 \<Rightarrow>
          if n = 0 then Some (ERR_OK, s)
          else map_pages s pml4 (pg_round_down vaddr) (pg_round_down paddr) (n * pg_size) (memperm_to_pteperm memperm))"

section \<open>Unmapping\<close>

primrec clear_loop :: "nat \<Rightarrow> vps \<Rightarrow> nat \<Rightarrow> nat \<Rightarrow> vps exec" where
  "clear_loop 0 s t ptx = Some s"
| "clear_loop (Suc n) s t ptx = do { s \<leftarrow> clear_pte s t ptx; clear_loop n s t (ptx + 1) }"

text \<open>The three loops count the indices left; \<open>ptx\<close>, \<open>pdx\<close> and \<open>pdptx\<close> are the start indices of the next level
  down, zero from the second round on.\<close>

primrec unmap_pd :: "nat \<Rightarrow> vps \<Rightarrow> nat \<Rightarrow> vaddr_t \<Rightarrow> nat \<Rightarrow> nat \<Rightarrow> bool \<Rightarrow> vps exec" where
  "unmap_pd 0 s pd fin pdx ptx free_imm = Some s"
| "unmap_pd (Suc n) s pd fin pdx ptx free_imm = do {
     s \<leftarrow> (if present (ptes s pd pdx) then do {
            let lim = (if ptx < PTX fin then 512 else PTX fin + 1);
            s \<leftarrow> clear_loop (lim - ptx) s (paddr_to_page (ENTRY_ADDR (ptes s pd pdx))) ptx;
            if free_imm then do { pm' \<leftarrow> pmem_free (pm s) (ENTRY_ADDR (ptes s pd pdx)); Some (s\<lparr>pm := pm'\<rparr>) }
            else Some s }
          else Some s);
     unmap_pd n s pd fin (pdx + 1) 0 free_imm }"

primrec unmap_pdpt :: "nat \<Rightarrow> vps \<Rightarrow> nat \<Rightarrow> vaddr_t \<Rightarrow> vaddr_t \<Rightarrow> nat \<Rightarrow> nat \<Rightarrow> bool \<Rightarrow> vps exec" where
  "unmap_pdpt 0 s pdpt start fin pdptx pdx free_imm = Some s"
| "unmap_pdpt (Suc n) s pdpt start fin pdptx pdx free_imm = do {
     s \<leftarrow> (if present (ptes s pdpt pdptx) then do {
            let lim = (if pdx < PDX fin then 512 else PDX fin + 1);
            s \<leftarrow> unmap_pd (lim - pdx) s (paddr_to_page (ENTRY_ADDR (ptes s pdpt pdptx))) fin pdx (PTX start) free_imm;
            if free_imm then do { pm' \<leftarrow> pmem_free (pm s) (ENTRY_ADDR (ptes s pdpt pdptx)); Some (s\<lparr>pm := pm'\<rparr>) }
            else Some s }
          else Some s);
     unmap_pdpt n s pdpt start fin (pdptx + 1) 0 free_imm }"

primrec unmap_pml4 :: "nat \<Rightarrow> vps \<Rightarrow> nat \<Rightarrow> vaddr_t \<Rightarrow> vaddr_t \<Rightarrow> nat \<Rightarrow> nat \<Rightarrow> bool \<Rightarrow> vps exec" where
  "unmap_pml4 0 s pml4 start fin pml4x pdptx free_imm = Some s"
| "unmap_pml4 (Suc n) s pml4 start fin pml4x pdptx free_imm = do {
     s \<leftarrow> (if present (ptes s pml4 pml4x) then do {
            let lim = (if pdptx < PDPTX fin then 512 else PDPTX fin + 1);
            s \<leftarrow> unmap_pdpt (lim - pdptx) s (paddr_to_page (ENTRY_ADDR (ptes s pml4 pml4x))) start fin pdptx (PDX start) free_imm;
            if free_imm then do { pm' \<leftarrow> pmem_free (pm s) (ENTRY_ADDR (ptes s pml4 pml4x)); Some (s\<lparr>pm := pm'\<rparr>) }
            else Some s }
          else Some s);
     unmap_pml4 n s pml4 start fin (pml4x + 1) 0 free_imm }"

definition unmap_pages :: "vps \<Rightarrow> nat \<Rightarrow> vaddr_t \<Rightarrow> vaddr_t \<Rightarrow> bool \<Rightarrow> vps exec" where
  "unmap_pages s pml4 start fin free_imm = do {
     kassert (PML4X start \<le> PML4X (fin - 1));
     unmap_pml4 (PML4X (fin - 1) + 1 - PML4X start) s pml4 start fin (PML4X start) (PDPTX start) free_imm }"

definition vpmap_unmap :: "vps \<Rightarrow> vpmap \<Rightarrow> vaddr_t \<Rightarrow> u64 \<Rightarrow> vps exec" where
  "vpmap_unmap s vp vaddr n =
     (case vp of None \<Rightarrow> Some s
      | Some pml4 \<Rightarrow>
          if n = 0 then Some s
          else do {
            let start = pg_round_down vaddr;
            let fin = start + n * pg_size;
            kassert (PML4X start \<le> PML4X fin);
            unmap_pages s pml4 start fin False })"

text \<open>A vpmap is its top-level table: freeing the slab object that points to the table leaves no trace in this state.\<close>

definition vpmap_destroy :: "vps \<Rightarrow> vpmap \<Rightarrow> vpmap \<Rightarrow> vps exec" where
  "vpmap_destroy s kvpmap vp =
     (case vp of None \<Rightarrow> Some s
      | Some pml4 \<Rightarrow> do {
          kassert (vp \<noteq> kvpmap);
          s \<leftarrow> unmap_pages s pml4 0 USTACK_UPPERBOUND True;
          pm' \<leftarrow> pmem_free (pm s) (page_to_paddr pml4);
          Some (s\<lparr>pm := pm'\<rparr>) })"

section \<open>Creating, copying, protecting, looking up\<close>

text \<open>\<open>kmem_ok\<close> is whether the vpmap structure could be allocated.\<close>

definition vpmap_create :: "bool \<Rightarrow> vps \<Rightarrow> (vpmap \<times> vps) exec" where
  "vpmap_create kmem_ok s =
     (if \<not> kmem_ok then Some (None, s)
      else do {
        (err, p, pm') \<leftarrow> pmem_alloc (pm s);
        case p of
          None \<Rightarrow> Some (None, s\<lparr>pm := pm'\<rparr>)
        | Some paddr \<Rightarrow>
            Some (Some (paddr_to_page paddr), zero_table (paddr_to_page paddr) (s\<lparr>pm := pm'\<rparr>)) })"

definition vpmap_load :: "vps \<Rightarrow> vpmap \<Rightarrow> vps exec" where
  "vpmap_load s vp = (case vp of None \<Rightarrow> None | Some pml4 \<Rightarrow> Some (s\<lparr>cr3 := pml4\<rparr>))"

text \<open>\<open>pml4\<close> is the table of the running process, or the kernel's when there is none.  The source
  also leaves interrupts enabled, whatever their level was; the level is not part of this state.\<close>

definition vpmap_flush_tlb :: "vps \<Rightarrow> nat \<Rightarrow> vps" where
  "vpmap_flush_tlb s pml4 = s\<lparr>cr3 := pml4\<rparr>"

text \<open>\<open>data_v\<close> is the linker symbol \<open>_data\<close>, \<open>pmem_end\<close> the end of physical memory; a failure panics.\<close>

definition kernel_mappings :: "vaddr_t \<Rightarrow> paddr_t \<Rightarrow> (vaddr_t \<times> paddr_t \<times> paddr_t \<times> u64) list" where
  "kernel_mappings data_v pmem_end =
     [(KMAP_BASE, 0, 0x00100000, PTE_W),
      (KMAP_BASE + 0x00100000, 0x00100000, KMAP_V2P data_v, 0),
      (data_v, KMAP_V2P data_v, pmem_end, PTE_W),
      (0xFFFFFFFFFE000000, 0xFE000000, 0x100000000, PTE_W)]"

fun init_mappings :: "vps \<Rightarrow> nat \<Rightarrow> (vaddr_t \<times> paddr_t \<times> paddr_t \<times> u64) list \<Rightarrow> vps exec" where
  "init_mappings s pml4 [] = Some s"
| "init_mappings s pml4 ((vaddr, paddr_start, paddr_end, perm) # ms) = do {
     (err, s) \<leftarrow> map_pages s pml4 vaddr paddr_start (paddr_end - paddr_start) perm;
     kassert (err = ERR_OK);
     init_mappings s pml4 ms }"

definition vpmap_init :: "vps \<Rightarrow> vaddr_t \<Rightarrow> paddr_t \<Rightarrow> (vpmap \<times> vps) exec" where
  "vpmap_init s data_v pmem_end = do {
     (err, p, pm') \<leftarrow> pmem_alloc (pm s);
     case p of
       None \<Rightarrow> None
     | Some paddr \<Rightarrow> do {
         let kpml4 = paddr_to_page paddr;
         s \<leftarrow> init_mappings (zero_table kpml4 (s\<lparr>pm := pm'\<rparr>)) kpml4 (kernel_mappings data_v pmem_end);
         s \<leftarrow> vpmap_load s (Some kpml4);
         Some (Some kpml4, s) } }"

definition vpmap_copy_kernel_mapping :: "vps \<Rightarrow> nat \<Rightarrow> nat \<Rightarrow> vps" where
  "vpmap_copy_kernel_mapping s kpml4 dst =
     s\<lparr>ptes := (ptes s)(dst := (\<lambda>i. if PML4X KMAP_BASE \<le> i \<and> i < 512 \<and> present (ptes s kpml4 i)
                                       then ptes s kpml4 i else ptes s dst i))\<rparr>"

definition vpmap_lookup_vaddr :: "vps \<Rightarrow> nat \<Rightarrow> vaddr_t \<Rightarrow> (err_t \<times> paddr_t option) exec" where
  "vpmap_lookup_vaddr s pml4 vaddr = do {
     (r, _) \<leftarrow> find_pte s pml4 vaddr False;
     case r of
       None \<Rightarrow> Some (ERR_VPMAP_NOTPRESENT, None)
     | Some (t, i) \<Rightarrow>
         Some (if present (ptes s t i) then (ERR_OK, Some (PPN (ptes s t i) + (vaddr - VPN vaddr)))
               else (ERR_VPMAP_NOTPRESENT, None)) }"

primrec set_perm_loop :: "nat \<Rightarrow> vps \<Rightarrow> nat \<Rightarrow> vaddr_t \<Rightarrow> u64 \<Rightarrow> vps exec" where
  "set_perm_loop 0 s pml4 vaddr perm = Some s"
| "set_perm_loop (Suc n) s pml4 vaddr perm = do {
     (r, s) \<leftarrow> find_pte s pml4 vaddr False;
     let s = (case r of None \<Rightarrow> s
              | Some (t, i) \<Rightarrow> set_pte t i (PPN (ptes s t i) OR (ENTRY_FLAGS (ptes s t i) AND PTE_P) OR perm) s);
     set_perm_loop n s pml4 (vaddr + pg_size) perm }"

definition vpmap_set_perm :: "vps \<Rightarrow> vpmap \<Rightarrow> vaddr_t \<Rightarrow> nat \<Rightarrow> memperm \<Rightarrow> vps exec" where
  "vpmap_set_perm s vp vaddr n memperm =
     (case vp of None \<Rightarrow> None
      | Some pml4 \<Rightarrow> set_perm_loop n s pml4 (pg_round_down vaddr) (memperm_to_pteperm memperm))"

primrec copy_loop :: "nat \<Rightarrow> vps \<Rightarrow> nat \<Rightarrow> nat \<Rightarrow> vaddr_t \<Rightarrow> vaddr_t \<Rightarrow> u64 \<Rightarrow> (err_t \<times> vps) exec" where
  "copy_loop 0 s src dst srcaddr dstaddr perm = Some (ERR_OK, s)"
| "copy_loop (Suc n) s src dst srcaddr dstaddr perm = do {
     (sp, s) \<leftarrow> find_pte s src srcaddr False;
     case sp of
       None \<Rightarrow> copy_loop n s src dst (srcaddr + pg_size) (dstaddr + pg_size) perm
     | Some (st, si) \<Rightarrow>
         if PPN (ptes s st si) = 0 then copy_loop n s src dst (srcaddr + pg_size) (dstaddr + pg_size) perm
         else do {
           (dp, s) \<leftarrow> find_pte s dst dstaddr True;
           case dp of
             None \<Rightarrow> Some (ERR_VPMAP_MAP, s)
           | Some (dt, di) \<Rightarrow>
               if PPN (ptes s dt di) \<noteq> 0 then Some (ERR_VPMAP_MAP, s)
               else do {
                 (err, p, pm') \<leftarrow> pmem_alloc (pm s);
                 case p of
                   None \<Rightarrow> Some (err, s\<lparr>pm := pm'\<rparr>)
                 | Some paddr \<Rightarrow> do {
                     let s = s\<lparr>pm := pm', pgdata := (pgdata s)(paddr_to_page paddr :=
                                 pgdata s (paddr_to_page (ENTRY_ADDR (ptes s st si))))\<rparr>;
                     copy_loop n (set_pte dt di (PPN paddr OR PTE_P OR perm) s) src dst
                       (srcaddr + pg_size) (dstaddr + pg_size) perm } } } }"

definition vpmap_copy :: "vps \<Rightarrow> vpmap \<Rightarrow> vpmap \<Rightarrow> vaddr_t \<Rightarrow> vaddr_t \<Rightarrow> nat \<Rightarrow> memperm \<Rightarrow> (err_t \<times> vps) exec" where
  "vpmap_copy s srcvp dstvp srcaddr dstaddr n memperm =
     (case (srcvp, dstvp) of
        (Some src, Some dst) \<Rightarrow>
          copy_loop n s src dst (pg_round_down srcaddr) (pg_round_down dstaddr) (memperm_to_pteperm memperm)
      | _ \<Rightarrow> None)"

primrec cow_loop :: "nat \<Rightarrow> vps \<Rightarrow> nat \<Rightarrow> nat \<Rightarrow> vaddr_t \<Rightarrow> vaddr_t \<Rightarrow> (err_t \<times> vps) exec" where
  "cow_loop 0 s src dst srcaddr dstaddr = Some (ERR_OK, s)"
| "cow_loop (Suc n) s src dst srcaddr dstaddr = do {
     (sp, s) \<leftarrow> find_pte s src srcaddr False;
     case sp of
       None \<Rightarrow> cow_loop n s src dst (srcaddr + pg_size) (dstaddr + pg_size)
     | Some (st, si) \<Rightarrow>
         if PPN (ptes s st si) = 0 then cow_loop n s src dst (srcaddr + pg_size) (dstaddr + pg_size)
         else do {
           (dp, s) \<leftarrow> find_pte s dst dstaddr True;
           case dp of
             None \<Rightarrow> Some (ERR_VPMAP_MAP, s)
           | Some (dt, di) \<Rightarrow>
               if PPN (ptes s dt di) \<noteq> 0 then Some (ERR_VPMAP_MAP, s)
               else do {
                 (err, paddr) \<leftarrow> vpmap_lookup_vaddr s src srcaddr;
                 case paddr of
                   None \<Rightarrow> Some (ERR_VPMAP_MAP, s)
                 | Some paddr \<Rightarrow> do {
                     pm' \<leftarrow> pmem_inc_refcnt (pm s) paddr 1;
                     let s = s\<lparr>pm := pm'\<rparr>;
                     cow_loop n (set_pte dt di (ptes s st si) s) src dst
                       (srcaddr + pg_size) (dstaddr + pg_size) } } } }"

text \<open>\<open>cur\<close> is the top-level table of the running process, which the flush reloads.\<close>

definition vpmap_cow_copy :: "vps \<Rightarrow> nat \<Rightarrow> vpmap \<Rightarrow> vpmap \<Rightarrow> vaddr_t \<Rightarrow> vaddr_t \<Rightarrow> nat \<Rightarrow> (err_t \<times> vps) exec" where
  "vpmap_cow_copy s cur srcvp dstvp srcaddr dstaddr n =
     (case (srcvp, dstvp) of
        (Some src, Some dst) \<Rightarrow> do {
          let srcaddr = pg_round_down srcaddr;
          let dstaddr = pg_round_down dstaddr;
          s \<leftarrow> vpmap_set_perm s srcvp srcaddr n MEMPERM_UR;
          let s = vpmap_flush_tlb s cur;
          cow_loop n s src dst srcaddr dstaddr }
      | _ \<Rightarrow> None)"

definition vpmap_set_dirty :: "vps \<Rightarrow> nat \<Rightarrow> vaddr_t \<Rightarrow> vps exec" where
  "vpmap_set_dirty s pml4 vaddr = do {
     (r, s) \<leftarrow> find_pte s pml4 vaddr False;
     Some (case r of None \<Rightarrow> s | Some (t, i) \<Rightarrow> set_pte t i (ptes s t i OR PTE_D) s) }"

definition vpmap_get_dirty :: "vps \<Rightarrow> nat \<Rightarrow> vaddr_t \<Rightarrow> (err_t \<times> u64 option) exec" where
  "vpmap_get_dirty s pml4 vaddr = do {
     (r, s) \<leftarrow> find_pte s pml4 vaddr False;
     Some (case r of None \<Rightarrow> (ERR_VPMAP_NOTPRESENT, None) | Some (t, i) \<Rightarrow> (ERR_OK, Some (ptes s t i AND PTE_D))) }"

definition vpmap_get_accessed :: "vps \<Rightarrow> nat \<Rightarrow> vaddr_t \<Rightarrow> (err_t \<times> u64 option) exec" where
  "vpmap_get_accessed s pml4 vaddr = do {
     (r, s) \<leftarrow> find_pte s pml4 vaddr False;
     Some (case r of None \<Rightarrow> (ERR_VPMAP_NOTPRESENT, None) | Some (t, i) \<Rightarrow> (ERR_OK, Some (ptes s t i AND PTE_A))) }"

definition kmap_v2p :: "vaddr_t \<Rightarrow> vaddr_t \<Rightarrow> paddr_t exec" where
  "kmap_v2p pmem_end vaddr = do {
     kassert (vaddr \<ge> KMAP_BASE \<and> vaddr < KMAP_BASE + pmem_end);
     Some (KMAP_V2P vaddr) }"

definition kmap_p2v :: "paddr_t \<Rightarrow> vaddr_t" where
  "kmap_p2v paddr = KMAP_P2V paddr"

definition kmap_io2v :: "paddr_t \<Rightarrow> vaddr_t" where
  "kmap_io2v a = a + 0xFFFFFFFF00000000"

section \<open>The tree of tables\<close>

definition frame :: "pte_t \<Rightarrow> nat" where
  "frame e = paddr_to_page (ENTRY_ADDR e)"

definition child :: "vps \<Rightarrow> nat \<Rightarrow> nat \<Rightarrow> nat option" where
  "child s t i = (if present (ptes s t i) then Some (frame (ptes s t i)) else None)"

text \<open>The table reached from a root by a path, the last index first; and the entry at the end of
  the path of an address, zero where a table is missing.\<close>

fun tab :: "vps \<Rightarrow> nat \<Rightarrow> nat list \<Rightarrow> nat option" where
  "tab s r [] = Some r"
| "tab s r (i # p) = (case tab s r p of None \<Rightarrow> None | Some t \<Rightarrow> child s t i)"

definition vpath :: "vaddr_t \<Rightarrow> nat list" where
  "vpath v = [PDX v, PDPTX v, PML4X v]"

definition leaf :: "vps \<Rightarrow> nat \<Rightarrow> nat list \<Rightarrow> nat \<Rightarrow> pte_t" where
  "leaf s r p j = (case tab s r p of None \<Rightarrow> 0 | Some t \<Rightarrow> ptes s t j)"

definition pte :: "vps \<Rightarrow> nat \<Rightarrow> vaddr_t \<Rightarrow> pte_t" where
  "pte s r v = leaf s r (vpath v) (PTX v)"

text \<open>The invariant speaks of several vpmaps at once: \<open>R r\<close> is the set of top-level indices that
  the root \<open>r\<close> owns (the kernel part of a process is shared and owned by the kernel's root).
  Every owned table is an allocated page, reached in one way only.\<close>

type_synonym owner = "nat \<Rightarrow> nat set"

definition owned :: "owner \<Rightarrow> nat \<Rightarrow> nat list \<Rightarrow> bool" where
  "owned R r p \<longleftrightarrow> R r \<noteq> {} \<and> length p \<le> 3 \<and> (p \<noteq> [] \<longrightarrow> last p \<in> R r)"

definition vt_inv :: "owner \<Rightarrow> vps \<Rightarrow> bool" where
  "vt_inv R s \<longleftrightarrow> pmem_inv (pm s) \<and> n_pages (pm s) \<le> 2 ^ 39
     \<and> (\<forall>r p t. owned R r p \<longrightarrow> tab s r p = Some t \<longrightarrow> t \<in> allocated (pm s))
     \<and> (\<forall>r p r' p' t. owned R r p \<longrightarrow> owned R r' p' \<longrightarrow> tab s r p = Some t \<longrightarrow> tab s r' p' = Some t
          \<longrightarrow> r' = r \<and> p' = p)"

lemma vt_invD:
  assumes "vt_inv R s"
  shows "pmem_inv (pm s)" "n_pages (pm s) \<le> 2 ^ 39"
    "owned R r p \<Longrightarrow> tab s r p = Some t \<Longrightarrow> t \<in> allocated (pm s)"
    "owned R r p \<Longrightarrow> owned R r' p' \<Longrightarrow> tab s r p = Some t \<Longrightarrow> tab s r' p' = Some t \<Longrightarrow> r' = r \<and> p' = p"
  using assms unfolding vt_inv_def by blast+

lemma owned_tl: "owned R r (i # p) \<Longrightarrow> owned R r p"
  by (auto simp: owned_def split: if_splits)

lemma length_vpath [simp]: "length (vpath v) = 3"
  by (simp add: vpath_def)

lemma owned_vpath [simp]: "owned R r (vpath v) \<longleftrightarrow> PML4X v \<in> R r"
  by (auto simp: owned_def vpath_def)

subsection \<open>Entries as words\<close>

lemma page_to_paddr_push: "page_to_paddr pg = push_bit 12 (of_nat pg)"
  by (simp add: page_to_paddr_def pg_size_def push_bit_eq_mult)

lemma PHYS_ADDR_MASK_mask: "PHYS_ADDR_MASK = mask 51"
  by (simp add: PHYS_ADDR_MASK_def mask_eq_exp_minus_1)

lemma ENTRY_ADDR_eq: "ENTRY_ADDR e = e AND NOT (mask 12) AND mask 51"
  unfolding ENTRY_ADDR_def PHYS_ADDR_MASK_mask mask_12 ..

lemma PPN_eq: "PPN e = ENTRY_ADDR e"
  by (simp add: PPN_def ENTRY_ADDR_def)

lemma ENTRY_ADDR_page:
  assumes "pg < 2 ^ 39" and f: "f AND mask 12 = f"
  shows "ENTRY_ADDR (page_to_paddr pg OR f) = page_to_paddr pg"
proof (rule bit_eqI)
  fix n assume "possible_bit TYPE(64 word) n"
  then have n: "n < 64" by simp
  have b: "\<not> bit pg k" if "k \<ge> 39" for k
    using assms(1) that by (metis bit_take_bit_iff linorder_not_le take_bit_nat_eq_self_iff)
  have "bit f n \<Longrightarrow> n < 12" using f by (metis bit_and_iff bit_mask_iff)
  then show "bit (ENTRY_ADDR (page_to_paddr pg OR f)) n = bit (page_to_paddr pg) n"
    using n b [of "n - 12"] by (cases "n < 51") (auto simp: ENTRY_ADDR_eq page_to_paddr_push bit_simps)
qed

lemma frame_page:
  assumes "pg < 2 ^ 39" "f AND mask 12 = f"
  shows "frame (page_to_paddr pg OR f) = pg"
  using assms page_roundtrip [of pg] by (simp add: frame_def ENTRY_ADDR_page)

lemma present_or [simp]: "present (a OR PTE_P OR b)" "present (a OR (PTE_P OR b))"
  by (auto simp: present_def bit_eq_iff bit_simps intro!: exI [of _ 0])

lemma present_0 [simp]: "\<not> present 0"
  by (simp add: present_def)

lemma table_flags: "7 AND mask 12 = (7 :: u64)" "present (a OR 7)"
  using present_or(2) [of a 6] by (simp_all add: mask_eq_exp_minus_1)

subsection \<open>Walking without allocation\<close>

lemma walk_level_False: "walk_level s t i False = Some (child s t i, s)"
  by (simp add: walk_level_def child_def frame_def)

lemma walk_level_present: "child s t i = Some u \<Longrightarrow> walk_level s t i alloc = Some (Some u, s)"
  by (auto simp: walk_level_def child_def frame_def split: if_splits)

lemma find_pte_present: "tab s r (vpath v) = Some t \<Longrightarrow> find_pte s r v alloc = Some (Some (t, PTX v), s)"
  by (auto simp: find_pte_def vpath_def walk_level_present split: option.splits)

lemma find_pte_False:
  "find_pte s r v False = Some (map_option (\<lambda>t. (t, PTX v)) (tab s r (vpath v)), s)"
  by (auto simp: find_pte_def walk_level_False vpath_def split: option.splits)

lemma vpmap_lookup_vaddr_pte:
  "vpmap_lookup_vaddr s r v = Some (if present (pte s r v) then (ERR_OK, Some (PPN (pte s r v) + (v - VPN v)))
     else (ERR_VPMAP_NOTPRESENT, None))"
  by (auto simp: vpmap_lookup_vaddr_def find_pte_False pte_def leaf_def split: option.splits)

subsection \<open>Adding a table\<close>

lemma tab_add:
  assumes inv: "vt_inv R s" and t: "owned R r p" "tab s r p = Some t"
    and u: "u \<notin> allocated (pm s)" and a: "\<not> present (ptes s t i)"
    and e: "present e" "frame e = u" and s': "ptes s' = (ptes s)(u := (\<lambda>_. 0), t := (ptes s t)(i := e))"
    and q: "owned R r' q"
  shows "tab s' r' q = (if r' = r \<and> q = i # p then Some u
    else tab s r' q)"
  using q
proof (induction q)
  case Nil
  then show ?case by simp
next
  case (Cons j q)
  have o: "owned R r' q" using Cons.prems by (rule owned_tl)
  have ut: "u \<noteq> t" using u vt_invD(3) [OF inv t] by blast
  show ?case
  proof (cases "tab s' r' q")
    case None
    then show ?thesis using Cons.IH [OF o] t(2) by (auto split: if_splits)
  next
    case (Some t')
    show ?thesis
    proof (cases "r' = r \<and> q = i # p")
      case True
      then have "t' = u" "tab s r' q = None" using Some Cons.IH [OF o] t(2) a by (auto simp: child_def)
      then show ?thesis using Some True ut s' by (simp add: child_def)
    next
      case False
      then have t': "tab s r' q = Some t'" using Some Cons.IH [OF o] by (auto split: if_splits)
      have "t' \<noteq> u" using vt_invD(3) [OF inv o t'] u by blast
      moreover have "t' = t \<longleftrightarrow> r' = r \<and> q = p" using vt_invD(4) [OF inv t(1) o t(2)] t' t(2) by auto
      ultimately show ?thesis using Some t' s' e a by (auto simp: child_def)
    qed
  qed
qed

text \<open>What an allocating walk may do: add tables and nothing else.\<close>

definition ext :: "owner \<Rightarrow> vps \<Rightarrow> vps \<Rightarrow> bool" where
  "ext R s s' \<longleftrightarrow> vt_inv R s'
     \<and> (\<forall>r p t. owned R r p \<longrightarrow> tab s r p = Some t \<longrightarrow> tab s' r p = Some t)
     \<and> (\<forall>r p t. owned R r p \<longrightarrow> tab s' r p = Some t \<longrightarrow> tab s r p = Some t \<or> t \<notin> allocated (pm s))
     \<and> (\<forall>r p j. owned R r p \<longrightarrow> length p = 3 \<longrightarrow> leaf s' r p j = leaf s r p j)
     \<and> n_pages (pm s') = n_pages (pm s) \<and> allocated (pm s) \<subseteq> allocated (pm s')
     \<and> (\<forall>i \<in> allocated (pm s). pagemap (pm s') i = pagemap (pm s) i \<and> pgdata s' i = pgdata s i)
     \<and> (\<forall>i \<in> allocated (pm s') - allocated (pm s). \<exists>r p. owned R r p \<and> tab s' r p = Some i)"

lemma extD:
  assumes "ext R s s'"
  shows "vt_inv R s'" and "owned R r p \<Longrightarrow> tab s r p = Some t \<Longrightarrow> tab s' r p = Some t"
    and "owned R r p \<Longrightarrow> tab s' r p = Some t \<Longrightarrow> tab s r p = Some t \<or> t \<notin> allocated (pm s)"
    and "i \<in> allocated (pm s) \<Longrightarrow> i \<in> allocated (pm s')"
    and "i \<in> allocated (pm s') \<Longrightarrow> i \<notin> allocated (pm s) \<Longrightarrow> \<exists>r p. owned R r p \<and> tab s' r p = Some i"
  using assms unfolding ext_def by (blast, blast, blast, blast, blast)

lemma ext_refl: "vt_inv R s \<Longrightarrow> ext R s s"
  by (simp add: ext_def)

lemma ext_trans:
  assumes 1: "ext R s s'" and 2: "ext R s' s''"
  shows "ext R s s''"
proof -
  have "tab s r p = Some t \<or> t \<notin> allocated (pm s)" if "owned R r p" "tab s'' r p = Some t" for r p t
    using extD(3) [OF 2 that] extD(3) [OF 1 that(1)] extD(4) [OF 1] by blast
  moreover have "\<exists>r p. owned R r p \<and> tab s'' r p = Some i" if "i \<in> allocated (pm s'') - allocated (pm s)" for i
    using that extD(5) [OF 2, of i] extD(5) [OF 1, of i] extD(2) [OF 2] by blast
  ultimately show ?thesis using 1 2 by (simp add: ext_def subset_iff)
qed

lemma ext_pte: "ext R s s' \<Longrightarrow> PML4X v \<in> R r \<Longrightarrow> pte s' r v = pte s r v"
  using owned_vpath [of R r v] by (simp add: ext_def pte_def)

lemma pmem_alloc_cases:
  assumes "pmem_inv m"
  obtains (none) "pmem_alloc m = Some (ERR_NOMEM, None, m)" "\<forall>k \<le> MAX_ORDER. freeblocks m k = []"
  | (page) pg m' where "pmem_alloc m = Some (ERR_OK, Some (page_to_paddr pg), m')" "pmem_inv m'"
      "pg \<notin> allocated m" "pg < n_pages m" "allocated m' = insert pg (allocated m)" "od m' pg = 0" "rc m' pg = 1"
      "n_pages m' = n_pages m" "\<forall>i \<in> allocated m. pagemap m' i = pagemap m i"
proof -
  have "get_min_page_order 1 = Some 0" by (simp add: get_min_page_order_def upt_rec)
  then show thesis using pmem_nalloc_ok [OF assms, of 1] that unfolding pmem_alloc_def by fastforce
qed

lemma walk_level_True:
  assumes inv: "vt_inv R s" and t: "owned R r p" "tab s r p = Some t" and i: "owned R r (i # p)"
  shows "walk_level s t i True = Some (None, s) \<and> (\<forall>k \<le> MAX_ORDER. freeblocks (pm s) k = [])
    \<or> (\<exists>u s'. walk_level s t i True = Some (Some u, s') \<and> ext R s s' \<and> tab s' r (i # p) = Some u)"
proof (cases "present (ptes s t i)")
  case True
  then show ?thesis using t ext_refl [OF inv] by (simp add: walk_level_def child_def frame_def)
next
  case a: False
  from vt_invD(1) [OF inv] show ?thesis
  proof (cases rule: pmem_alloc_cases)
    case none
    then show ?thesis using a by (simp add: walk_level_def)
  next
    case (page u pm')
    define e where "e = page_to_paddr u OR 7"
    define s' where "s' = set_pte t i e (zero_table u (s\<lparr>pm := pm'\<rparr>))"
    have u: "u < 2 ^ 39" using page(4) vt_invD(2) [OF inv] by simp
    have e: "present e" "frame e = u" "paddr_to_page (page_to_paddr u) = u"
      using frame_page [OF u table_flags(1)] page_roundtrip [of u] u by (simp_all add: e_def table_flags)
    have ut: "u \<noteq> t" using page(3) vt_invD(3) [OF inv t] by blast
    have s': "ptes s' = (ptes s)(u := (\<lambda>_. 0), t := (ptes s t)(i := e))" "pm s' = pm'"
      "pgdata s' = (pgdata s)(u := (\<lambda>_. 0))"
      using ut by (simp_all add: s'_def set_pte_def zero_table_def)
    have w: "walk_level s t i True = Some (Some u, s')"
      using a page(1) e ut s'(1) by (simp add: walk_level_def Let_def flip: e_def s'_def frame_def)
    note tb = tab_add [OF inv t page(3) a e(1,2) s'(1)]
    have absent: "tab s r (i # p) = None" using t a by (simp add: child_def)
    have inv': "vt_inv R s'" unfolding vt_inv_def
    proof (intro conjI allI impI)
      show "pmem_inv (pm s')" "n_pages (pm s') \<le> 2 ^ 39" using page vt_invD(2) [OF inv] s' by simp_all
      fix r' q t' assume q: "owned R r' q" "tab s' r' q = Some t'"
      then show "t' \<in> allocated (pm s')" using tb [OF q(1)] vt_invD(3) [OF inv q(1)] page(5) s'(2)
        by (auto split: if_splits)
      fix r'' q' assume q': "owned R r'' q'" "tab s' r'' q' = Some t'"
      show "r'' = r'" "q' = q"
        using q q' tb [OF q(1)] tb [OF q'(1)] vt_invD(4) [OF inv q(1) q'(1)] vt_invD(3) [OF inv q(1)]
          vt_invD(3) [OF inv q'(1)] page(3) by (auto split: if_splits)
    qed
    have lf: "leaf s' r' q j = leaf s r' q j" if q: "owned R r' q" "length q = 3" for r' q j
    proof (cases "tab s r' q")
      case None
      then show ?thesis using tb [OF q(1)] ut s' by (simp add: leaf_def)
    next
      case (Some t')
      have "length p < 3" using i by (simp add: owned_def)
      then have "t' \<noteq> t" "t' \<noteq> u" using Some q vt_invD(4) [OF inv t(1) q(1) t(2)] vt_invD(3) [OF inv q(1)] page(3) by auto
      then show ?thesis using tb [OF q(1)] absent Some s' by (auto simp: leaf_def)
    qed
    have "\<exists>r p. owned R r p \<and> tab s' r p = Some j" if "j \<in> allocated (pm s') - allocated (pm s)" for j
      using that page(5) s'(2) by (intro exI [of _ r] exI [of _ "i # p"] conjI i) (use tb [OF i] in auto)
    then have "ext R s s'" unfolding ext_def
      using inv' lf tb absent page s' by auto
    then show ?thesis using w tb [OF i] by auto
  qed
qed

lemma find_pte_True:
  assumes inv: "vt_inv R s" and v: "PML4X v \<in> R r"
  shows "\<exists>x s'. find_pte s r v True = Some (x, s') \<and> ext R s s' \<and>
    (case x of None \<Rightarrow> (\<forall>k \<le> MAX_ORDER. freeblocks (pm s') k = [])
     | Some (t, j) \<Rightarrow> j = PTX v \<and> tab s' r (vpath v) = Some t)"
proof -
  have o: "owned R r []" "owned R r [PML4X v]" "owned R r [PDPTX v, PML4X v]" "owned R r [PDX v, PDPTX v, PML4X v]"
    using v by (auto simp: owned_def)
  consider "walk_level s r (PML4X v) True = Some (None, s)" "\<forall>k \<le> MAX_ORDER. freeblocks (pm s) k = []"
    | a s1 where "walk_level s r (PML4X v) True = Some (Some a, s1)" "ext R s s1" "tab s1 r [PML4X v] = Some a"
    using walk_level_True [OF inv o(1) _ o(2)] by auto
  then show ?thesis
  proof cases
    case 1
    then show ?thesis using ext_refl [OF inv] by (simp add: find_pte_def)
  next
    case a: 2
    have i1: "vt_inv R s1" using a(2) by (simp add: ext_def)
    consider "walk_level s1 a (PDPTX v) True = Some (None, s1)" "\<forall>k \<le> MAX_ORDER. freeblocks (pm s1) k = []"
      | b s2 where "walk_level s1 a (PDPTX v) True = Some (Some b, s2)" "ext R s1 s2" "tab s2 r [PDPTX v, PML4X v] = Some b"
      using walk_level_True [OF i1 o(2) a(3) o(3)] by blast
    then show ?thesis
    proof cases
      case 1
      then show ?thesis using a by (simp add: find_pte_def)
    next
      case b: 2
      have i2: "vt_inv R s2" using b(2) by (simp add: ext_def)
      have x: "ext R s s2" using ext_trans [OF a(2) b(2)] .
      from walk_level_True [OF i2 o(3) b(3) o(4)] show ?thesis
        using a(1) b(1) x ext_trans [OF x] by (fastforce simp: find_pte_def vpath_def)
    qed
  qed
qed

subsection \<open>Writing an entry\<close>

lemma set_leaf:
  assumes inv: "vt_inv R s" and t: "owned R r p" "tab s r p = Some t" "length p = 3"
  shows set_leaf_tab: "owned R r' q \<Longrightarrow> tab (set_pte t j e s) r' q = tab s r' q"
    and set_leaf_inv: "vt_inv R (set_pte t j e s)"
    and set_leaf_leaf: "owned R r' q \<Longrightarrow> length q = 3 \<Longrightarrow>
      leaf (set_pte t j e s) r' q j' = (if r' = r \<and> q = p \<and> j' = j then e else leaf s r' q j')"
proof -
  have tb: "tab (set_pte t j e s) r' q = tab s r' q" if "owned R r' q" for r' q
    using that
  proof (induction q)
    case (Cons i q)
    have o: "owned R r' q" using Cons.prems by (rule owned_tl)
    have "length q \<noteq> 3" using Cons.prems by (auto simp: owned_def)
    then have "tab s r' q \<noteq> Some t" using vt_invD(4) [OF inv t(1) o t(2)] t(3) by auto
    then show ?case using Cons.IH [OF o] by (auto simp: child_def set_pte_def split: option.splits)
  qed simp
  then show "owned R r' q \<Longrightarrow> tab (set_pte t j e s) r' q = tab s r' q" .
  show "vt_inv R (set_pte t j e s)"
    using inv tb unfolding vt_inv_def by (simp add: set_pte_def)
  show "leaf (set_pte t j e s) r' q j' = (if r' = r \<and> q = p \<and> j' = j then e else leaf s r' q j')"
    if q: "owned R r' q" "length q = 3"
  proof (cases "tab s r' q")
    case None
    then show ?thesis using tb [OF q(1)] t(2) by (auto simp: leaf_def)
  next
    case (Some t')
    have "t' = t \<longleftrightarrow> r' = r \<and> q = p" using vt_invD(4) [OF inv t(1) q(1) t(2)] Some t(2) by auto
    then show ?thesis using Some tb [OF q(1)] by (auto simp: leaf_def set_pte_def)
  qed
qed

subsection \<open>Pages of the address space\<close>

text \<open>The hardware translates 48 bits of an address: 36 of them number the page.\<close>

definition vkey :: "vaddr_t \<Rightarrow> nat" where
  "vkey v = unat v div 4096 mod 2 ^ 36"

definition off :: "vaddr_t \<Rightarrow> nat \<Rightarrow> vaddr_t" where
  "off v k = v + of_nat k * pg_size"

lemma off_0 [simp]: "off v 0 = v"
  by (simp add: off_def)

lemma off_Suc: "off (v + pg_size) k = off v (Suc k)"
  by (simp add: off_def algebra_simps)

lemma vkey_indices: "vkey v = PTX v + 512 * (PDX v + 512 * (PDPTX v + 512 * PML4X v))"
proof -
  define y where "y = unat v div 4096"
  have i: "PTX v = y mod 512" "PDX v = y div 512 mod 512" "PDPTX v = y div 512 div 512 mod 512"
    "PML4X v = y div 512 div 512 div 512 mod 512"
    by (simp_all add: PTX_def PDX_def PDPTX_def PML4X_def ENTRY_IDX_eq y_def div_mult2_eq [symmetric])
  have "vkey v = y mod (512 * (512 * (512 * 512)))" by (simp add: vkey_def y_def)
  then show ?thesis unfolding i mod_mult2_eq [of y] mod_mult2_eq [of "y div 512"] mod_mult2_eq [of "y div 512 div 512"]
    by simp
qed

lemma vkey_eq_iff: "vpath v = vpath w \<and> PTX v = PTX w \<longleftrightarrow> vkey v = vkey w"
proof -
  have l: "PTX a < 512" "PDX a < 512" "PDPTX a < 512" for a by (simp_all add: PTX_def PDX_def PDPTX_def)
  have d: "x = y \<and> a = b" if "a + 512 * x = b + 512 * y" "a < 512" "b < 512" for a b x y :: nat
    using arg_cong [OF that(1), of "\<lambda>x. x div 512"] arg_cong [OF that(1), of "\<lambda>x. x mod 512"] that(2,3) by simp
  show ?thesis
  proof
    assume "vkey v = vkey w"
    note 1 = d [OF this [unfolded vkey_indices] l(1) l(1)]
    note 2 = d [OF 1 [THEN conjunct1] l(2) l(2)]
    note 3 = d [OF 2 [THEN conjunct1] l(3) l(3)]
    show "vpath v = vpath w \<and> PTX v = PTX w" unfolding vpath_def using 1 2 3 by (simp only: simp_thms)
  qed (simp add: vkey_indices vpath_def)
qed

lemma vkey_off: "vkey (off v k) = (vkey v + k) mod 2 ^ 36"
proof -
  have "unat (off v k) = (unat v + k * 4096) mod 2 ^ 64"
    by (simp add: off_def pg_size_def unat_word_ariths unat_of_nat mod_simps)
  also have "\<dots> = (unat v + k * 4096) mod (4096 * 2 ^ 52)" by simp
  finally have "unat (off v k) div 4096 = (unat v + k * 4096) div 4096 mod 2 ^ 52"
    by (simp only: mod_mult2_eq)
  then have "unat (off v k) div 4096 mod 2 ^ 36 = (unat v div 4096 + k) mod 2 ^ 36"
    by (simp add: mod_mod_cancel add.commute)
  then show ?thesis by (simp add: vkey_def mod_simps)
qed

lemma vkey_off_inj:
  assumes "vkey (off v i) = vkey (off v j)" "i < 2 ^ 36" "j < 2 ^ 36"
  shows "i = j"
proof -
  have "(vkey v + i) mod 2 ^ 36 = (vkey v + j) mod 2 ^ 36" using assms by (simp add: vkey_off)
  then have "i mod 2 ^ 36 = j mod 2 ^ 36" by (simp add: nat_mod_eq_iff)
  then show ?thesis using assms by simp
qed

lemma pte_set:
  assumes inv: "vt_inv R s" and v: "PML4X v \<in> R r" "tab s r (vpath v) = Some t"
    and w: "PML4X w \<in> R r'"
  shows "pte (set_pte t (PTX v) e s) r' w = (if r' = r \<and> vkey w = vkey v then e else pte s r' w)"
  using set_leaf_leaf [OF inv, of r "vpath v" t r' "vpath w" "PTX v" e "PTX w"] assms vkey_eq_iff [of w v]
  by (auto simp: pte_def)

subsection \<open>Mapping a range\<close>

definition fresh_from :: "vps \<Rightarrow> vps \<Rightarrow> bool" where
  "fresh_from s s' \<longleftrightarrow> allocated (pm s) \<subseteq> allocated (pm s')
     \<and> (\<forall>i \<in> allocated (pm s). pagemap (pm s') i = pagemap (pm s) i \<and> pgdata s' i = pgdata s i)"

lemma fresh_from_trans: "fresh_from s s' \<Longrightarrow> fresh_from s' s'' \<Longrightarrow> fresh_from s s''"
  by (auto simp: fresh_from_def subset_iff)

lemma fresh_from_refl [simp]: "fresh_from s s"
  by (simp add: fresh_from_def)

lemma fresh_from_set [simp]: "fresh_from s (set_pte t i e s') \<longleftrightarrow> fresh_from s s'"
  by (simp add: fresh_from_def set_pte_def)

lemma ext_fresh: "ext R s s' \<Longrightarrow> fresh_from s s'"
  by (simp add: ext_def fresh_from_def)

lemma map_loop_ok:
  assumes "vt_inv R s" "n \<le> 2 ^ 36" "\<forall>k < n. PML4X (off v k) \<in> R r" "vend = off v n"
  shows "\<exists>err s'. map_loop s r v vend paddr perm = Some (err, s') \<and> vt_inv R s' \<and> fresh_from s s'
    \<and> (err = ERR_OK \<and> (\<forall>k < n. pte s' r (off v k) = PPN (off paddr k) OR PTE_P OR perm)
       \<or> err = ERR_VPMAP_MAP \<and> (\<forall>k \<le> MAX_ORDER. freeblocks (pm s') k = []))
    \<and> (\<forall>r' w. PML4X w \<in> R r' \<longrightarrow> r' \<noteq> r \<or> (\<forall>k < n. vkey w \<noteq> vkey (off v k)) \<longrightarrow> pte s' r' w = pte s r' w)
    \<and> (\<forall>r' p t. owned R r' p \<longrightarrow> tab s' r' p = Some t \<longrightarrow> tab s r' p = Some t \<or> t \<notin> allocated (pm s))"
  using assms
proof (induction n arbitrary: s v paddr)
  case 0
  then show ?case by (subst map_loop.simps) simp
next
  case (Suc n)
  note inv = Suc.prems(1)
  have r0: "PML4X v \<in> R r" using Suc.prems(3) by (metis off_0 zero_less_Suc)
  have "vkey (off v (Suc n)) \<noteq> vkey (off v 0) \<or> Suc n = 2 ^ 36"
    using vkey_off_inj [of v "Suc n" 0] Suc.prems(2) by fastforce
  moreover have "off v (2 ^ 36) \<noteq> v" by (simp add: off_def pg_size_def)
  ultimately have ne: "v \<noteq> vend" using Suc.prems(4) by (metis off_0)
  obtain x s1 where f: "find_pte s r v True = Some (x, s1)" "ext R s s1"
    "case x of None \<Rightarrow> (\<forall>k \<le> MAX_ORDER. freeblocks (pm s1) k = [])
     | Some (t, j) \<Rightarrow> j = PTX v \<and> tab s1 r (vpath v) = Some t"
    using find_pte_True [OF inv r0] by blast
  have i1: "vt_inv R s1" using f(2) by (simp add: ext_def)
  show ?case
  proof (cases x)
    case None
    moreover have "\<forall>r' p t. owned R r' p \<longrightarrow> tab s1 r' p = Some t \<longrightarrow> tab s r' p = Some t \<or> t \<notin> allocated (pm s)"
      using f(2) by (simp add: ext_def)
    ultimately show ?thesis using f ne i1 ext_fresh [OF f(2)] ext_pte [OF f(2)]
      by (subst map_loop.simps) auto
  next
    case (Some tj)
    then obtain t where t: "x = Some (t, PTX v)" "tab s1 r (vpath v) = Some t" using f(3) by (cases tj) auto
    define e where "e = PPN paddr OR PTE_P OR perm"
    define s2 where "s2 = set_pte t (PTX v) e s1"
    have i2: "vt_inv R s2" unfolding s2_def using set_leaf_inv [OF i1 _ t(2)] r0 by simp
    have p2: "pte s2 r' w = (if r' = r \<and> vkey w = vkey v then e else pte s r' w)" if "PML4X w \<in> R r'" for r' w
      unfolding s2_def pte_set [OF i1 r0 t(2) that] using ext_pte [OF f(2) that] by simp
    have rec: "map_loop s r v vend paddr perm = map_loop s2 r (v + pg_size) vend (paddr + pg_size) perm"
      using ne f(1) t(1) by (subst map_loop.simps) (simp add: s2_def e_def)
    have k: "vkey (off v (Suc k)) \<noteq> vkey v" if "k < n" for k
      using vkey_off_inj [of v "Suc k" 0] that Suc.prems(2) by fastforce
    have "\<forall>k < n. PML4X (off (v + pg_size) k) \<in> R r" "vend = off (v + pg_size) n" "n \<le> 2 ^ 36"
      using Suc.prems by (simp_all add: off_Suc)
    from Suc.IH [OF i2 this(3,1,2), of "paddr + pg_size"] obtain err s' where
      s': "map_loop s r v vend paddr perm = Some (err, s')" "vt_inv R s'" "fresh_from s2 s'"
      "err = ERR_OK \<and> (\<forall>k < n. pte s' r (off v (Suc k)) = PPN (off paddr (Suc k)) OR PTE_P OR perm)
       \<or> err = ERR_VPMAP_MAP \<and> (\<forall>k \<le> MAX_ORDER. freeblocks (pm s') k = [])"
      "\<And>r' w. PML4X w \<in> R r' \<Longrightarrow> r' \<noteq> r \<or> (\<forall>k < n. vkey w \<noteq> vkey (off v (Suc k))) \<Longrightarrow> pte s' r' w = pte s2 r' w"
      "\<And>r' p t. owned R r' p \<Longrightarrow> tab s' r' p = Some t \<Longrightarrow> tab s2 r' p = Some t \<or> t \<notin> allocated (pm s2)"
      unfolding rec off_Suc by blast
    have "pte s' r v = e" using s'(5) [OF r0] k p2 [OF r0] by fastforce
    then have "err = ERR_OK \<Longrightarrow> \<forall>k < Suc n. pte s' r (off v k) = PPN (off paddr k) OR PTE_P OR perm"
      using s'(4) by (auto simp: less_Suc_eq_0_disj e_def)
    moreover have "fresh_from s s'"
      using fresh_from_trans [OF _ s'(3)] ext_fresh [OF f(2)] by (simp add: s2_def)
    moreover have "pte s' r' w = pte s r' w"
      if "PML4X w \<in> R r'" "r' \<noteq> r \<or> (\<forall>k < Suc n. vkey w \<noteq> vkey (off v k))" for r' w
    proof -
      from that(2) have "r' \<noteq> r \<or> vkey w \<noteq> vkey v \<and> (\<forall>k < n. vkey w \<noteq> vkey (off v (Suc k)))"
        by (metis Suc_less_eq off_0 zero_less_Suc)
      then show ?thesis using s'(5) [OF that(1)] p2 [OF that(1)] by auto
    qed
    moreover have "tab s r' p = Some u \<or> u \<notin> allocated (pm s)" if o: "owned R r' p" "tab s' r' p = Some u" for r' p u
    proof -
      have "tab s2 r' p = tab s1 r' p" unfolding s2_def using set_leaf_tab [OF i1 _ t(2) _ o(1)] r0 by simp
      moreover have "pm s2 = pm s1" by (simp add: s2_def set_pte_def)
      ultimately have "tab s1 r' p = Some u \<or> u \<notin> allocated (pm s1)" using s'(6) [OF o] by simp
      then show ?thesis using f(2) o(1) unfolding ext_def by blast
    qed
    ultimately show ?thesis using s'(1,2,4) by auto
  qed
qed

lemma pg_round_down_aligned: "4096 dvd unat a \<Longrightarrow> pg_round_down a = a"
  by (simp add: word_unat_eq_iff unat_pg_round_down)

lemma aligned_off: "4096 dvd unat a \<Longrightarrow> 4096 dvd unat (off a k)"
proof -
  assume "4096 dvd unat a"
  then have "4096 dvd (unat a + k * 4096) mod 2 ^ 64" by (intro dvd_mod) auto
  then show ?thesis by (simp add: off_def pg_size_def unat_word_ariths unat_of_nat mod_simps)
qed

lemma aligned_round_down [simp]: "4096 dvd unat (pg_round_down a)"
  by (simp add: unat_pg_round_down)

lemma aligned_plus:
  fixes a d :: u64
  assumes "4096 dvd unat a" "unat d < 4096"
  shows "unat (a + d) = unat a + unat d" "VPN (a + d) = a" "vkey (a + d) = vkey a"
proof -
  obtain k where k: "unat a = 4096 * k" using assms(1) by blast
  have "unat a < 2 ^ 64" using unsigned_less [where 'b = 64, of a] by simp
  then have "unat a + unat d < 2 ^ 64" using k assms(2) by simp
  then show u: "unat (a + d) = unat a + unat d" by (simp add: unat_word_ariths)
  have q: "(4096 * k + unat d) div 4096 = k" using assms(2) by simp
  have "unat (VPN (a + d)) = unat a"
    unfolding VPN_def mask_12 unat_and_not_mask_12 u k q by simp
  then show "VPN (a + d) = a" by (simp add: word_unat_eq_iff)
  show "vkey (a + d) = vkey a" unfolding vkey_def u k q by simp
qed

lemma pte_cong: "vkey v = vkey w \<Longrightarrow> pte s r v = pte s r w"
  using vkey_eq_iff [of v w] by (simp add: pte_def)

lemma PPN_entry: "f AND mask 12 = f \<Longrightarrow> PPN (PPN a OR f) = PPN a"
proof (rule bit_eqI)
  fix n assume f: "f AND mask 12 = f" 
  have "bit f n \<Longrightarrow> n < 12" using f by (metis bit_and_iff bit_mask_iff)
  then show "bit (PPN (PPN a OR f)) n = bit (PPN a) n"
    by (auto simp: PPN_eq ENTRY_ADDR_eq bit_simps)
qed

lemma pteperm_flags: "(PTE_P OR memperm_to_pteperm m) AND mask 12 = (PTE_P OR memperm_to_pteperm m)"
  by (cases m) (simp_all add: memperm_to_pteperm_def mask_eq_exp_minus_1)

subsection \<open>Clearing entries\<close>

text \<open>The frames that a table's entries from \<open>lo\<close> on map: allocated single pages, mapped once each,
  and none of them a page table.\<close>

definition frames_ok :: "owner \<Rightarrow> vps \<Rightarrow> nat \<Rightarrow> nat \<Rightarrow> bool" where
  "frames_ok R s t lo \<longleftrightarrow>
     (\<forall>i \<ge> lo. present (ptes s t i) \<longrightarrow>
        frame (ptes s t i) \<in> allocated (pm s) \<and> od (pm s) (frame (ptes s t i)) = 0 \<and> frame (ptes s t i) \<noteq> 0
        \<and> (\<forall>r p. owned R r p \<longrightarrow> tab s r p \<noteq> Some (frame (ptes s t i)))
        \<and> (\<forall>j > i. present (ptes s t j) \<longrightarrow> frame (ptes s t j) \<noteq> frame (ptes s t i)))"

lemma PPN_frame: "PPN e = page_to_paddr (frame e)"
proof -
  have "4096 dvd unat (ENTRY_ADDR e)"
    unfolding ENTRY_ADDR_eq and.commute [of "e AND NOT (mask 12)"] and.assoc [symmetric] unat_and_not_mask_12 by simp
  then obtain k where k: "unat (ENTRY_ADDR e) = 4096 * k" by blast
  have "ENTRY_ADDR e = of_nat (4096 * k)" unfolding k [symmetric] by simp
  moreover have "frame e = k" by (simp add: frame_def paddr_to_page_def pg_size_def unat_div k)
  ultimately show ?thesis by (simp add: PPN_eq page_to_paddr_def pg_size_def mult.commute)
qed

lemma tab_pm [simp]: "tab (s\<lparr>pm := m\<rparr>) r p = tab s r p"
  by (induction p) (auto simp: child_def split: option.splits)

lemma leaf_pm [simp]: "leaf (s\<lparr>pm := m\<rparr>) r p j = leaf s r p j"
  by (simp add: leaf_def split: option.splits)

lemma clear_pte_ok:
  assumes inv: "vt_inv R s" and t: "owned R r p" "tab s r p = Some t" "length p = 3" and f: "frames_ok R s t lo"
  shows "\<exists>s'. clear_pte s t lo = Some s' \<and> vt_inv R s' \<and> frames_ok R s' t (Suc lo)
    \<and> (\<forall>r' q. owned R r' q \<longrightarrow> tab s' r' q = tab s r' q)
    \<and> (\<forall>r' q j. owned R r' q \<longrightarrow> length q = 3 \<longrightarrow>
         leaf s' r' q j = (if r' = r \<and> q = p \<and> j = lo then 0 else leaf s r' q j))"
proof -
  let ?e = "ptes s t lo" and ?f = "frame (ptes s t lo)"
  have "\<exists>m. clear_pte s t lo = Some (set_pte t lo 0 (s\<lparr>pm := m\<rparr>)) \<and> pmem_inv m \<and> n_pages m = n_pages (pm s)
    \<and> (\<forall>i \<in> allocated (pm s). \<not> (present ?e \<and> i = ?f) \<longrightarrow> i \<in> allocated m \<and> pagemap m i = pagemap (pm s) i)"
  proof (cases "present ?e")
    case False
    then have "clear_pte s t lo = Some (set_pte t lo 0 (s\<lparr>pm := pm s\<rparr>))" by (simp add: clear_pte_def)
    then show ?thesis using vt_invD(1) [OF inv] by blast
  next
    case True
    then have "?f \<in> allocated (pm s)" "od (pm s) ?f = 0" "?f \<noteq> 0" using f by (auto simp: frames_ok_def)
    from pmem_dec_refcnt_ok [OF vt_invD(1) [OF inv] this PPN_frame] show ?thesis
      using True by (auto simp: clear_pte_def split: if_splits)
  qed
  then obtain m where m: "clear_pte s t lo = Some (set_pte t lo 0 (s\<lparr>pm := m\<rparr>))" "pmem_inv m"
    "n_pages m = n_pages (pm s)"
    "\<And>i. i \<in> allocated (pm s) \<Longrightarrow> \<not> (present ?e \<and> i = ?f) \<Longrightarrow> i \<in> allocated m \<and> pagemap m i = pagemap (pm s) i"
    by blast
  let ?s = "s\<lparr>pm := m\<rparr>" and ?s' = "set_pte t lo 0 (s\<lparr>pm := m\<rparr>)"
  have "u \<in> allocated m" if "owned R r' q" "tab s r' q = Some u" for r' q u
    using vt_invD(3) [OF inv that] m(4) [of u] f that by (auto simp: frames_ok_def)
  then have inv': "vt_inv R ?s"
    using inv m(2,3) unfolding vt_inv_def by simp
  note sl = set_leaf [OF inv' t(1) _ t(3), simplified, OF t(2)]
  have "frames_ok R ?s' t (Suc lo)" unfolding frames_ok_def
  proof (intro allI impI)
    fix i assume i: "i \<ge> Suc lo" "present (ptes ?s' t i)"
    have e: "ptes ?s' t j = ptes s t j" if "j \<ge> Suc lo" for j using that by (simp add: set_pte_def)
    have p: "present (ptes s t i)" using i e by simp
    from f i(1) have f': "frame (ptes s t i) \<in> allocated (pm s)" "od (pm s) (frame (ptes s t i)) = 0"
      "frame (ptes s t i) \<noteq> 0" "\<And>r p. owned R r p \<Longrightarrow> tab s r p \<noteq> Some (frame (ptes s t i))"
      "\<And>j. j > i \<Longrightarrow> present (ptes s t j) \<Longrightarrow> frame (ptes s t j) \<noteq> frame (ptes s t i)"
      "present ?e \<Longrightarrow> frame (ptes s t i) \<noteq> ?f"
      unfolding frames_ok_def using p by (metis Suc_leD Suc_le_lessD order_refl)+
    have g: "pm ?s' = m" by (simp add: set_pte_def)
    show "frame (ptes ?s' t i) \<in> allocated (pm ?s') \<and> od (pm ?s') (frame (ptes ?s' t i)) = 0 \<and> frame (ptes ?s' t i) \<noteq> 0
      \<and> (\<forall>r p. owned R r p \<longrightarrow> tab ?s' r p \<noteq> Some (frame (ptes ?s' t i)))
      \<and> (\<forall>j > i. present (ptes ?s' t j) \<longrightarrow> frame (ptes ?s' t j) \<noteq> frame (ptes ?s' t i))"
      unfolding g e [OF i(1)] using f' m(4) [OF f'(1)] sl(1) e i(1) by auto
  qed
  then show ?thesis using m(1) sl by auto
qed

lemma clear_loop_ok:
  assumes "vt_inv R s" "owned R r p" "tab s r p = Some t" "length p = 3" "frames_ok R s t lo"
  shows "\<exists>s'. clear_loop n s t lo = Some s' \<and> vt_inv R s'
    \<and> (\<forall>r' q j. owned R r' q \<longrightarrow> length q = 3 \<longrightarrow>
         leaf s' r' q j = (if r' = r \<and> q = p \<and> lo \<le> j \<and> j < lo + n then 0 else leaf s r' q j))"
  using assms
proof (induction n arbitrary: s lo)
  case (Suc n)
  obtain s1 where s1: "clear_pte s t lo = Some s1" "vt_inv R s1" "frames_ok R s1 t (Suc lo)" "tab s1 r p = Some t"
    "\<forall>r' q j. owned R r' q \<longrightarrow> length q = 3 \<longrightarrow>
       leaf s1 r' q j = (if r' = r \<and> q = p \<and> j = lo then 0 else leaf s r' q j)"
    using clear_pte_ok [OF Suc.prems] Suc.prems(2,3) by auto
  from Suc.IH [OF s1(2) Suc.prems(2) s1(4) Suc.prems(4) s1(3)] show ?case
    using s1(1,5) by auto
qed auto

subsection \<open>Unmapping inside one page table\<close>

lemma indices_of_page:
  assumes "unat w div 4096 = 512 * q + c" "c < 512"
  shows "PTX w = c" "PDX w = q mod 512" "PDPTX w = q div 512 mod 512" "PML4X w = q div 262144 mod 512"
proof -
  have d: "unat w div 2 ^ 12 = 512 * q + c" "unat w div 2 ^ 21 = unat w div 4096 div 512"
    "unat w div 2 ^ 30 = unat w div 4096 div 512 div 512" "unat w div 2 ^ 39 = unat w div 4096 div 512 div 262144"
    using assms(1) by (simp_all add: div_mult2_eq [symmetric])
  show "PTX w = c" "PDX w = q mod 512" "PDPTX w = q div 512 mod 512" "PML4X w = q div 262144 mod 512"
    unfolding PTX_def PDX_def PDPTX_def PML4X_def ENTRY_IDX_eq d unfolding assms(1) using assms(2) by simp_all
qed

lemma unmap_one_table:
  assumes t: "tab s r (vpath v) = Some t" and n: "n \<noteq> 0" "PTX v + unat n < 512"
  shows "vpmap_unmap s (Some r) v n = clear_loop (512 - PTX v) s t (PTX v)"
proof -
  let ?a = "pg_round_down v" and ?b = "pg_round_down v + n * pg_size"
  obtain q c where y: "unat v div 4096 = 512 * q + c" "c < 512"
    by (metis mod_less_divisor mult_div_mod_eq zero_less_numeral)
  have n0: "0 < unat n" using n(1) by (simp add: unat_gt_0)
  note iv = indices_of_page [OF y]
  have "unat v < 2 ^ LENGTH(64)" by (rule unsigned_less)
  then have "unat v div 4096 < 512 * 2 ^ 43" by (intro less_mult_imp_div_less) simp
  then have "512 * q + c < 512 * 2 ^ 43" unfolding y(1) .
  then have q: "q < 2 ^ 43" by simp
  have a: "unat ?a = 4096 * (512 * q + c)" by (simp add: unat_pg_round_down y)
  have c: "c + unat n < 512" using n(2) iv(1) by simp
  have "unat (n * pg_size) = unat n * 4096" using c by (simp add: unat_word_ariths pg_size_def)
  moreover have "4096 * (512 * q + (c + unat n)) < 2 ^ 64" using c q by simp
  ultimately have b: "unat ?b = 4096 * (512 * q + (c + unat n))"
    using a by (simp add: unat_word_ariths(1))
  have "?b \<noteq> 0" using b n0 by (auto simp: word_unat_eq_iff)
  then have "unat (?b - 1) = 4096 * (512 * q + (c + unat n)) - 1" using b by (simp add: unat_minus_one)
  also have "\<dots> = 4096 * (512 * q + (c + (unat n - 1))) + 4095" using n0 by (simp add: algebra_simps)
  finally have b1: "unat (?b - 1) div 4096 = 512 * q + (c + (unat n - 1))" by simp
  have c1: "c + (unat n - 1) < 512" using c by simp
  have a1: "unat ?a div 4096 = 512 * q + c" "unat ?b div 4096 = 512 * q + (c + unat n)"
    unfolding a b by simp_all
  note ia = indices_of_page [OF a1(1) y(2)] and ib = indices_of_page [OF a1(2) c] and ib1 = indices_of_page [OF b1 c1]
  have i: "PTX ?a = c" "PDX ?a = PDX v" "PDPTX ?a = PDPTX v" "PML4X ?a = PML4X v"
    "PTX ?b = c + unat n" "PDX ?b = PDX v" "PDPTX ?b = PDPTX v" "PML4X ?b = PML4X v" "PML4X (?b - 1) = PML4X v"
    by (simp_all only: ia ib ib1 iv)
  obtain d1 d2 where d: "child s r (PML4X v) = Some d1" "child s d1 (PDPTX v) = Some d2" "child s d2 (PDX v) = Some t"
    using t by (auto simp: vpath_def split: option.splits)
  then have p: "present (ptes s r (PML4X v))" "paddr_to_page (ENTRY_ADDR (ptes s r (PML4X v))) = d1"
    "present (ptes s d1 (PDPTX v))" "paddr_to_page (ENTRY_ADDR (ptes s d1 (PDPTX v))) = d2"
    "present (ptes s d2 (PDX v))" "paddr_to_page (ENTRY_ADDR (ptes s d2 (PDX v))) = t"
    by (auto simp: child_def frame_def split: if_splits)
  have one: "Suc k - k = 1" "k + 1 - k = 1" for k :: nat by simp_all
  show ?thesis using n(1) n0 iv(1) i p
    by (simp add: vpmap_unmap_def unmap_pages_def Let_def one)
qed

subsection \<open>One page\<close>

lemma tab_same: "ptes s' = ptes s \<Longrightarrow> tab s' r p = tab s r p"
  by (induction p) (auto simp: child_def split: option.splits)

lemma pte_same:
  assumes "ptes s' = ptes s"
  shows "pte s' r v = pte s r v"
  unfolding pte_def leaf_def tab_same [OF assms] assms ..

lemma vt_inv_grow:
  assumes "vt_inv R s" "ptes s' = ptes s" "pmem_inv (pm s')" "n_pages (pm s') = n_pages (pm s)"
    "\<And>r p t. owned R r p \<Longrightarrow> tab s r p = Some t \<Longrightarrow> t \<in> allocated (pm s')"
  shows "vt_inv R s'"
  unfolding vt_inv_def tab_same [OF assms(2)]
  using assms(3-5) vt_invD(2,4) [OF assms(1)] by (intro conjI allI impI) (simp, simp, blast, blast, blast)

lemma vt_inv_pm:
  assumes "vt_inv R s" "pmem_inv m" "n_pages m \<le> 2 ^ 39" "allocated (pm s) \<subseteq> allocated m"
  shows "vt_inv R (s\<lparr>pm := m\<rparr>)"
  unfolding vt_inv_def tab_pm
  using assms(2-4) vt_invD(3,4) [OF assms(1)] by (intro conjI allI impI) (simp, simp, fastforce, blast, blast)

lemma vkey_round_down [simp]: "vkey (pg_round_down v) = vkey v"
  by (simp add: vkey_def unat_pg_round_down)

lemma vpath_round_down [simp]: "vpath (pg_round_down v) = vpath v" "PTX (pg_round_down v) = PTX v"
  using vkey_eq_iff [of "pg_round_down v" v] by simp_all

lemma vpmap_map_single:
  "vpmap_map s (Some r) (pg_round_down v) paddr 1 perm = do {
     (x, s) \<leftarrow> find_pte s r (pg_round_down v) True;
     case x of None \<Rightarrow> Some (ERR_VPMAP_MAP, s)
     | Some (t, i) \<Rightarrow> Some (ERR_OK, set_pte t i (PPN (pg_round_down paddr) OR PTE_P OR memperm_to_pteperm perm) s) }"
proof -
  let ?v = "pg_round_down v" and ?p = "pg_round_down paddr"
  have e: "pg_round_down (?v + pg_size) = ?v + pg_size"
    using pg_round_down_aligned [OF aligned_off [of ?v 1]] by (simp add: off_def)
  have n: "?v \<noteq> ?v + pg_size" by (simp add: pg_size_def)
  have m: "vpmap_map s (Some r) ?v paddr 1 perm = map_loop s r ?v (?v + pg_size) ?p (memperm_to_pteperm perm)"
    by (simp add: vpmap_map_def map_pages_def e pg_round_down_aligned)
  have z: "map_loop s' r w w q f = Some (ERR_OK, s')" for s' w q f by (subst map_loop.simps) simp
  show ?thesis unfolding m map_loop.simps [of s r ?v] using n by (simp add: z split: prod.splits cong: option.case_cong)
qed

lemma vpmap_map_present:
  assumes "tab s r (vpath v) = Some t"
  shows "vpmap_map s (Some r) (pg_round_down v) paddr 1 perm =
    Some (ERR_OK, set_pte t (PTX v) (PPN (pg_round_down paddr) OR PTE_P OR memperm_to_pteperm perm) s)"
  using find_pte_present [of s r "pg_round_down v"] assms unfolding vpmap_map_single by simp

lemma vpmap_map_one:
  assumes inv: "vt_inv R s" and v: "PML4X v \<in> R r"
  shows "\<exists>err s'. vpmap_map s (Some r) (pg_round_down v) paddr 1 perm = Some (err, s') \<and> vt_inv R s' \<and> fresh_from s s'
    \<and> (err = ERR_OK \<and> pte s' r v = PPN (pg_round_down paddr) OR PTE_P OR memperm_to_pteperm perm
       \<or> err = ERR_VPMAP_MAP \<and> (\<forall>k \<le> MAX_ORDER. freeblocks (pm s') k = []) \<and> pte s' r v = pte s r v)
    \<and> (\<forall>r' w. PML4X w \<in> R r' \<longrightarrow> r' \<noteq> r \<or> vkey w \<noteq> vkey v \<longrightarrow> pte s' r' w = pte s r' w)
    \<and> (\<forall>r' p t. owned R r' p \<longrightarrow> tab s' r' p = Some t \<longrightarrow> tab s r' p = Some t \<or> t \<notin> allocated (pm s))
    \<and> (\<forall>r' p t. owned R r' p \<longrightarrow> tab s r' p = Some t \<longrightarrow> tab s' r' p = Some t)
    \<and> n_pages (pm s') = n_pages (pm s) \<and> (\<forall>i \<in> allocated (pm s') - allocated (pm s). \<exists>r' p. owned R r' p \<and> tab s' r' p = Some i)"
proof -
  let ?v = "pg_round_down v"
  have v': "PML4X ?v \<in> R r" using v vpath_round_down(1) [of v] by (simp add: vpath_def)
  obtain x s1 where f: "find_pte s r ?v True = Some (x, s1)" "ext R s s1"
    "case x of None \<Rightarrow> (\<forall>k \<le> MAX_ORDER. freeblocks (pm s1) k = [])
     | Some (t, j) \<Rightarrow> j = PTX v \<and> tab s1 r (vpath v) = Some t"
    using find_pte_True [OF inv v'] unfolding vpath_round_down by blast
  have i1: "vt_inv R s1" and nt: "\<forall>r' p t. owned R r' p \<longrightarrow> tab s1 r' p = Some t \<longrightarrow> tab s r' p = Some t \<or> t \<notin> allocated (pm s)"
    and ot: "\<forall>r' p t. owned R r' p \<longrightarrow> tab s r' p = Some t \<longrightarrow> tab s1 r' p = Some t"
    and at: "n_pages (pm s1) = n_pages (pm s)" "\<forall>i \<in> allocated (pm s1) - allocated (pm s). \<exists>r' p. owned R r' p \<and> tab s1 r' p = Some i"
    using f(2) by (simp_all add: ext_def)
  show ?thesis
  proof (cases x)
    case None
    then show ?thesis unfolding vpmap_map_single using f i1 nt ot at ext_fresh [OF f(2)] ext_pte [OF f(2)] v by simp
  next
    case (Some tj)
    then obtain t where t: "x = Some (t, PTX v)" "tab s1 r (vpath v) = Some t" using f(3) by (cases tj) auto
    define e where "e = PPN (pg_round_down paddr) OR PTE_P OR memperm_to_pteperm perm"
    have "owned R r (vpath v)" using v by simp
    note sl = set_leaf [OF i1 this t(2) length_vpath]
    have "pte (set_pte t (PTX v) e s1) r' w = (if r' = r \<and> vkey w = vkey v then e else pte s r' w)" if "PML4X w \<in> R r'" for r' w
      unfolding pte_set [OF i1 v t(2) that] using ext_pte [OF f(2) that] by simp
    moreover have "fresh_from s (set_pte t (PTX v) e s1)" using ext_fresh [OF f(2)] by simp
    moreover have "\<forall>i \<in> allocated (pm s1) - allocated (pm s). \<exists>r' p. owned R r' p \<and> tab (set_pte t (PTX v) e s1) r' p = Some i"
      using at(2) sl(1) by metis
    moreover have "pm (set_pte t (PTX v) e s1) = pm s1" by (simp add: set_pte_def)
    ultimately show ?thesis unfolding vpmap_map_single using f(1) t(1) sl(1,2) nt ot at(1) v by (simp add: e_def)
  qed
qed

section \<open>A small instance\<close>

text \<open>Eight pages, all allocated: page 1 is a root, pages 2, 3 and 4 the tables of the lowest two
  megabytes, in which three pages are mapped: 3 to frame 5, 4 to frame 6 and 9 to frame 7.\<close>

definition full_pmem :: pmem where
  "full_pmem = \<lparr>pagemap = (\<lambda>i. zero_page\<lparr>refcnt := 1\<rparr>), n_pages = 8, freeblocks = (\<lambda>_. []),
     pagemap_initialized = True, pmem_start = 1, bitmap = (\<lambda>_. True), bitmap_contig_start = 0, bitmap_end = 7\<rparr>"

definition small_vps :: vps where
  "small_vps = \<lparr>pm = full_pmem,
     ptes = (\<lambda>t i.
       if (t = 1 \<or> t = 2 \<or> t = 3) \<and> i = 0 then page_to_paddr (t + 1) OR 7
       else if t = 4 \<and> i = 3 then page_to_paddr 5 OR 7
       else if t = 4 \<and> i = 4 then page_to_paddr 6 OR 7
       else if t = 4 \<and> i = 9 then page_to_paddr 7 OR 7
       else 0),
     pgdata = (\<lambda>_ _. 0), cr3 = 1\<rparr>"

definition small_owner :: owner where
  "small_owner r = (if r = 1 then {0..<511} else {})"

lemma full_pmem_inv: "pmem_inv full_pmem" "allocated full_pmem = {0..<8}"
proof -
  have a: "allocated full_pmem = {0..<8}" "freed full_pmem = {}"
    by (auto simp: full_pmem_def allocated_def freed_def zero_page_def)
  have o: "od full_pmem i = 0" "rc full_pmem i = 1" "n_pages full_pmem = 8" "freeblocks full_pmem ord = []" for i ord
    by (simp_all add: full_pmem_def zero_page_def)
  have "binv full_pmem {} {0..<8}" unfolding binv_def a pages_of_def by (auto simp: o blk_def)
  then show "pmem_inv full_pmem" using a by (simp add: pmem_inv_def o) (simp add: full_pmem_def)
  show "allocated full_pmem = {0..<8}" by (rule a)
qed

lemma small_child:
  "child small_vps t i = (if (t = 1 \<or> t = 2 \<or> t = 3) \<and> i = 0 then Some (t + 1)
     else if t = 4 \<and> i = 3 then Some 5 else if t = 4 \<and> i = 4 then Some 6 else if t = 4 \<and> i = 9 then Some 7 else None)"
  by (auto simp: child_def small_vps_def table_flags frame_page)

lemma small_tab: "tab small_vps 1 p = Some t \<Longrightarrow> length p \<le> 3 \<Longrightarrow> p = replicate (length p) 0 \<and> t = length p + 1"
  by (induction p arbitrary: t) (auto simp: small_child split: option.splits if_splits)

lemma small_vt_inv: "vt_inv small_owner small_vps"
proof -
  have o: "owned small_owner r p \<Longrightarrow> r = 1 \<and> length p \<le> 3" for r p
    by (auto simp: owned_def small_owner_def split: if_splits)
  have pm: "pm small_vps = full_pmem" by (simp add: small_vps_def)
  have n: "n_pages full_pmem = 8" by (simp add: full_pmem_def)
  show ?thesis unfolding vt_inv_def pm
  proof (intro conjI allI impI)
    show "pmem_inv full_pmem" "n_pages full_pmem \<le> 2 ^ 39" using full_pmem_inv n by simp_all
    fix r p t assume p: "owned small_owner r p" "tab small_vps r p = Some t"
    then show "t \<in> allocated full_pmem" using small_tab [of p t] o [OF p(1)] full_pmem_inv(2) by auto
    fix r' p' assume p': "owned small_owner r' p'" "tab small_vps r' p' = Some t"
    show "r' = r" "p' = p" using small_tab [of p t] small_tab [of p' t] o [OF p(1)] o [OF p'(1)] p p'
      by auto
  qed
qed

lemma small_frames_ok: "frames_ok small_owner small_vps 4 lo"
proof -
  have f: "i = 3 \<and> frame (ptes small_vps 4 i) = 5 \<or> i = 4 \<and> frame (ptes small_vps 4 i) = 6
      \<or> i = 9 \<and> frame (ptes small_vps 4 i) = 7" if "present (ptes small_vps 4 i)" for i
    using small_child [of 4 i] that by (auto simp: child_def split: if_splits)
  have t: "tab small_vps r p = Some t \<Longrightarrow> owned small_owner r p \<Longrightarrow> t \<le> 4" for r p t
    using small_tab [of p t] by (auto simp: owned_def small_owner_def split: if_splits)
  have m: "pm small_vps = full_pmem" "od full_pmem k = 0" for k by (simp_all add: small_vps_def full_pmem_def zero_page_def)
  show ?thesis unfolding frames_ok_def m full_pmem_inv(2)
  proof (intro allI impI conjI)
    fix i assume i: "present (ptes small_vps 4 i)"
    show "frame (ptes small_vps 4 i) \<in> {0..<8}" "frame (ptes small_vps 4 i) \<noteq> 0" using f [OF i] by auto
    show "tab small_vps r p \<noteq> Some (frame (ptes small_vps 4 i))" if "owned small_owner r p" for r p
      using f [OF i] t [OF _ that] by fastforce
    show "frame (ptes small_vps 4 j) \<noteq> frame (ptes small_vps 4 i)" if "j > i" "present (ptes small_vps 4 j)" for j
      using f [OF i] f [OF that(2)] that(1) by auto
  qed simp
qed

lemma small_map:
  "vpmap_map small_vps (Some 1) 0x5000 0x7000 1 MEMPERM_URW = Some (ERR_OK, set_pte 4 5 0x7007 small_vps)"
proof -
  have i: "PML4X 0x5000 = 0" "PDPTX 0x5000 = 0" "PDX 0x5000 = 0" "PTX 0x5000 = 5" "PPN 0x7000 = 0x7000"
    "pg_round_down 0x5000 = 0x5000" "pg_round_down 0x7000 = 0x7000" "pg_round_down 0x6000 = 0x6000"
    by (simp_all add: pg_round_down_def pg_size_def PML4X_def PDPTX_def PDX_def PTX_def ENTRY_IDX_eq
      PPN_def PHYS_ADDR_MASK_def)
  have "tab small_vps 1 (vpath 0x5000) = Some 4" by (simp add: vpath_def i small_child)
  then have f: "find_pte small_vps 1 0x5000 True = Some (Some (4, 5), small_vps)"
    by (simp add: find_pte_present i)
  have "map_loop small_vps 1 0x5000 0x6000 0x7000 6 = Some (ERR_OK, set_pte 4 5 0x7007 small_vps)"
    unfolding map_loop.simps [of small_vps 1 "0x5000"] f by (simp add: i pg_size_def map_loop.simps)
  then show ?thesis by (simp add: vpmap_map_def map_pages_def i pg_size_def memperm_to_pteperm_def)
qed

lemma small_unmap:
  assumes "vpath v = [0, 0, 0]" "n \<noteq> 0" "PTX v + unat n < 512"
  shows "\<exists>w. vpmap_unmap small_vps (Some 1) v n = Some w"
proof -
  have t: "tab small_vps 1 (vpath v) = Some 4" "owned small_owner 1 (vpath v)"
    using assms(1) by (simp_all add: small_child) (simp add: owned_def small_owner_def)
  show ?thesis
    using clear_loop_ok [OF small_vt_inv t(2,1) length_vpath small_frames_ok] unmap_one_table [OF t(1) assms(2,3)] by metis
qed

section \<open>Properties\<close>

text \<open>C1. Mapping \<open>n\<close> pages always returns and keeps the page-table invariant of every vpmap.  On
  success each byte of the range translates to the corresponding byte of the physical range, with
  the given permission; it fails only when physical memory is exhausted.  Every other page of
  the vpmap, and every page of every other vpmap, translates as before.\<close>

theorem vpmap_map_correct:
  assumes inv: "vt_inv R s" and n: "unat n \<le> 2 ^ 36"
    and r: "\<forall>k < unat n. PML4X (off (pg_round_down v) k) \<in> R r"
  shows "\<exists>err s'. vpmap_map s (Some r) v paddr n perm = Some (err, s') \<and> vt_inv R s'
    \<and> (err = ERR_OK
         \<and> (\<forall>k < unat n. \<forall>d. unat d < 4096 \<longrightarrow>
              vpmap_lookup_vaddr s' r (off (pg_round_down v) k + d)
                = Some (ERR_OK, Some (PPN (off (pg_round_down paddr) k) + d))
              \<and> pte s' r (off (pg_round_down v) k) = PPN (off (pg_round_down paddr) k) OR PTE_P OR memperm_to_pteperm perm)
       \<or> err = ERR_VPMAP_MAP \<and> (\<forall>k \<le> MAX_ORDER. freeblocks (pm s') k = []))
    \<and> (\<forall>r' w. PML4X w \<in> R r' \<longrightarrow> r' \<noteq> r \<or> (\<forall>k < unat n. vkey w \<noteq> vkey (off (pg_round_down v) k))
         \<longrightarrow> vpmap_lookup_vaddr s' r' w = vpmap_lookup_vaddr s r' w)"
proof (cases "n = 0")
  case True
  then show ?thesis using inv by (simp add: vpmap_map_def)
next
  case False
  let ?v = "pg_round_down v" and ?p = "pg_round_down paddr" and ?perm = "memperm_to_pteperm perm"
  have e: "pg_round_down (?v + n * pg_size) = off ?v (unat n)"
    using pg_round_down_aligned [OF aligned_off [of ?v "unat n"]] by (simp add: off_def)
  have m: "vpmap_map s (Some r) v paddr n perm = map_loop s r ?v (off ?v (unat n)) ?p ?perm"
    using False by (simp add: vpmap_map_def map_pages_def e pg_round_down_aligned)
  obtain err s' where s': "map_loop s r ?v (off ?v (unat n)) ?p ?perm = Some (err, s')" "vt_inv R s'"
    "err = ERR_OK \<and> (\<forall>k < unat n. pte s' r (off ?v k) = PPN (off ?p k) OR PTE_P OR ?perm)
       \<or> err = ERR_VPMAP_MAP \<and> (\<forall>k \<le> MAX_ORDER. freeblocks (pm s') k = [])"
    "\<forall>r' w. PML4X w \<in> R r' \<longrightarrow> r' \<noteq> r \<or> (\<forall>k < unat n. vkey w \<noteq> vkey (off ?v k)) \<longrightarrow> pte s' r' w = pte s r' w"
    using map_loop_ok [OF inv n r refl, of ?p ?perm] by blast
  have "vpmap_lookup_vaddr s' r (off ?v k + d) = Some (ERR_OK, Some (PPN (off ?p k) + d))"
    if "pte s' r (off ?v k) = PPN (off ?p k) OR PTE_P OR ?perm" "unat d < 4096" for k d
  proof -
    note a = aligned_plus [OF aligned_off [OF aligned_round_down] that(2), of v k]
    have "pte s' r (off ?v k + d) = PPN (off ?p k) OR (PTE_P OR ?perm)"
      using pte_cong [OF a(3)] that(1) by (simp add: or.assoc)
    then show ?thesis using a(2) PPN_entry [OF pteperm_flags] by (simp add: vpmap_lookup_vaddr_pte)
  qed
  moreover have "vpmap_lookup_vaddr s' r' w = vpmap_lookup_vaddr s r' w"
    if "PML4X w \<in> R r'" "r' \<noteq> r \<or> (\<forall>k < unat n. vkey w \<noteq> vkey (off ?v k))" for r' w
    using s'(4) that by (simp add: vpmap_lookup_vaddr_pte)
  ultimately show ?thesis using s'(1-3) m by auto
qed

lemma vpmap_map_correct_witness:
  "\<exists>s'. vpmap_map small_vps (Some 1) 0x5000 0x7000 1 MEMPERM_URW = Some (ERR_OK, s') \<and> vt_inv small_owner s'
    \<and> vpmap_lookup_vaddr s' 1 0x5008 = Some (ERR_OK, Some 0x7008)
    \<and> vpmap_lookup_vaddr s' 1 0x3000 = vpmap_lookup_vaddr small_vps 1 0x3000"
proof -
  have i: "pg_round_down 0x5000 = 0x5000" "pg_round_down 0x7000 = 0x7000" "PML4X 0x5000 \<in> small_owner 1"
    "PML4X 0x3000 \<in> small_owner 1" "vkey 0x3000 \<noteq> vkey 0x5000" "PPN 0x7000 = 0x7000"
    by (simp_all add: pg_round_down_def pg_size_def PML4X_def ENTRY_IDX_eq small_owner_def vkey_def PPN_def PHYS_ADDR_MASK_def)
  have "unat (1 :: u64) \<le> 2 ^ 36" "\<forall>k < unat (1 :: u64). PML4X (off (pg_round_down 0x5000) k) \<in> small_owner 1"
    using i by simp_all
  from vpmap_map_correct [OF small_vt_inv this, of "0x7000" MEMPERM_URW] obtain err s' where
    s': "vpmap_map small_vps (Some 1) 0x5000 0x7000 1 MEMPERM_URW = Some (err, s')" "vt_inv small_owner s'"
    "err = ERR_OK \<and> (\<forall>d. unat d < 4096 \<longrightarrow> vpmap_lookup_vaddr s' 1 (0x5000 + d) = Some (ERR_OK, Some (0x7000 + d)))
       \<or> err = ERR_VPMAP_MAP \<and> (\<forall>k \<le> MAX_ORDER. freeblocks (pm s') k = [])"
    "\<forall>w. PML4X w \<in> small_owner 1 \<longrightarrow> vkey w \<noteq> vkey 0x5000 \<longrightarrow> vpmap_lookup_vaddr s' 1 w = vpmap_lookup_vaddr small_vps 1 w"
    unfolding i(1,2) by (auto simp: i(6))
  have "(\<forall>d. unat d < 4096 \<longrightarrow> vpmap_lookup_vaddr s' 1 (0x5000 + d) = Some (ERR_OK, Some (0x7000 + d))) \<Longrightarrow>
    vpmap_lookup_vaddr s' 1 0x5008 = Some (ERR_OK, Some 0x7008)" by (drule spec [of _ 8]) simp
  with s' i small_map show ?thesis by force
qed

text \<open>What unmapping a range that ends inside a two-megabyte page table really does: the range
  of \<open>n\<close> pages from \<open>v\<close> is unmapped, and so is every page behind it up to the end of the table,
  since the loop bound of unmap_pd is the table size whenever the first index is below the last.
  No other translation changes, in this or any other vpmap.\<close>

theorem vpmap_unmap_clears_rest:
  assumes inv: "vt_inv R s" and v: "PML4X v \<in> R r" "tab s r (vpath v) = Some t"
    and n: "n \<noteq> 0" "PTX v + unat n < 512" and f: "frames_ok R s t (PTX v)"
  shows "\<exists>s'. vpmap_unmap s (Some r) v n = Some s' \<and> vt_inv R s'
    \<and> (\<forall>r' w. PML4X w \<in> R r' \<longrightarrow> vpmap_lookup_vaddr s' r' w =
         (if r' = r \<and> vpath w = vpath v \<and> PTX v \<le> PTX w then Some (ERR_VPMAP_NOTPRESENT, None)
          else vpmap_lookup_vaddr s r' w))"
proof -
  obtain s' where s': "clear_loop (512 - PTX v) s t (PTX v) = Some s'" "vt_inv R s'"
    "\<forall>r' q j. owned R r' q \<longrightarrow> length q = 3 \<longrightarrow>
       leaf s' r' q j = (if r' = r \<and> q = vpath v \<and> PTX v \<le> j \<and> j < PTX v + (512 - PTX v) then 0 else leaf s r' q j)"
    using clear_loop_ok [OF inv _ v(2) _ f] v(1) by fastforce
  have "PTX w < 512" for w by (simp add: PTX_def)
  then have "pte s' r' w = (if r' = r \<and> vpath w = vpath v \<and> PTX v \<le> PTX w then 0 else pte s r' w)"
    if "PML4X w \<in> R r'" for r' w
    using s'(3) that by (simp add: pte_def) (metis add_diff_inverse_nat less_imp_le not_less)
  then show ?thesis using s'(1,2) unmap_one_table [OF v(2) n] by (simp add: vpmap_lookup_vaddr_pte)
qed

lemma vpmap_unmap_clears_rest_witness:
  "\<exists>s'. vpmap_unmap small_vps (Some 1) 0x3000 1 = Some s'
    \<and> vpmap_lookup_vaddr small_vps 1 0x9000 = Some (ERR_OK, Some 0x7000)
    \<and> vpmap_lookup_vaddr s' 1 0x3000 = Some (ERR_VPMAP_NOTPRESENT, None)
    \<and> vpmap_lookup_vaddr s' 1 0x9000 = Some (ERR_VPMAP_NOTPRESENT, None)"
proof -
  have i: "PML4X 0x3000 = 0" "PDPTX 0x3000 = 0" "PDX 0x3000 = 0" "PTX 0x3000 = 3"
    "PML4X 0x9000 = 0" "PDPTX 0x9000 = 0" "PDX 0x9000 = 0" "PTX 0x9000 = 9"
    by (simp_all add: PML4X_def PDPTX_def PDX_def PTX_def ENTRY_IDX_eq)
  have v: "PML4X 0x3000 \<in> small_owner 1" "tab small_vps 1 (vpath 0x3000) = Some 4" "tab small_vps 1 (vpath 0x9000) = Some 4"
    by (simp_all add: i vpath_def small_child small_owner_def)
  have f: "frames_ok small_owner small_vps 4 (PTX 0x3000)" by (rule small_frames_ok)
  have l: "vpmap_lookup_vaddr small_vps 1 0x9000 = Some (ERR_OK, Some 0x7000)"
    using v(3) by (simp add: vpmap_lookup_vaddr_pte pte_def leaf_def i)
      (simp add: small_vps_def present_def PPN_def VPN_def PHYS_ADDR_MASK_def page_to_paddr_def pg_size_def)
  have "(1 :: u64) \<noteq> 0" "PTX 0x3000 + unat (1 :: u64) < 512" by (simp_all add: i)
  from vpmap_unmap_clears_rest [OF small_vt_inv v(1,2) this f] obtain s' where
    s': "vpmap_unmap small_vps (Some 1) 0x3000 1 = Some s'"
    "\<forall>w. PML4X w \<in> small_owner 1 \<longrightarrow> vpath w = vpath 0x3000 \<longrightarrow> PTX 0x3000 \<le> PTX w \<longrightarrow>
       vpmap_lookup_vaddr s' 1 w = Some (ERR_VPMAP_NOTPRESENT, None)"
    by auto
  have "vpath 0x9000 = vpath 0x3000" "PML4X 0x9000 \<in> small_owner 1" using v(1) by (simp_all add: vpath_def i)
  with s' l v(1) i show ?thesis by auto
qed

end
