(* ===== verification/Vm.thy ===== *)
theory Vm
  imports Vpmap Klist
begin

text \<open>
  Address spaces and memory regions, \<^verbatim>\<open>kernel/mm/vm.c\<close>.  Regions and address spaces are structures
  at addresses: the state maps a pointer to its structure, \<open>None\<close> where nothing lives, so that a
  use of a freed region stops the model.  A region list is the HOL list the kernel list
  represents (\<open>Klist\<close>), ordered insertion being its \<open>insert_ordered\<close>.  The operations run with
  the address-space lock held and are single steps here; the result of the slab allocator is
  an argument, \<open>NULL\<close> when it fails.  The lemmas show that mapping keeps the regions of a space
  sorted and disjoint, and what extending a region misses.
\<close>

section \<open>State\<close>

record memregion =
  mr_as :: ptr
  mr_start :: vaddr_t
  mr_end :: vaddr_t
  mr_perm :: memperm
  mr_shared :: bool
  mr_store :: ptr
  mr_ofs :: u64

record addrspace =
  as_regions :: "ptr list"
  as_vpmap :: vpmap
  as_heap :: ptr

text \<open>\<open>cur_as\<close> is the address space of the running process, \<open>NULL\<close> when there is none.\<close>

record vm =
  vs :: vps
  regs :: "ptr \<Rightarrow> memregion option"
  spaces :: "ptr \<Rightarrow> addrspace option"
  kas :: ptr
  kpml4 :: nat
  cur_as :: ptr

abbreviation (input) ADDR_ANYWHERE :: vaddr_t where "ADDR_ANYWHERE \<equiv> 0xfffffff"
abbreviation (input) ERR_VM_BOUND :: err_t where "ERR_VM_BOUND \<equiv> 1"
abbreviation (input) ERR_VM_INVALID :: err_t where "ERR_VM_INVALID \<equiv> 2"
abbreviation (input) ERR_VM_RESOURCE_UNAVAIL :: err_t where "ERR_VM_RESOURCE_UNAVAIL \<equiv> 3"

definition set_space :: "ptr \<Rightarrow> addrspace \<Rightarrow> vm \<Rightarrow> vm" where
  "set_space p a s = s\<lparr>spaces := (spaces s)(p := Some a)\<rparr>"

definition set_reg :: "ptr \<Rightarrow> memregion \<Rightarrow> vm \<Rightarrow> vm" where
  "set_reg p r s = s\<lparr>regs := (regs s)(p := Some r)\<rparr>"

section \<open>Operations\<close>

text \<open>The table the flush loads: that of the running process, or the kernel's.\<close>

definition cur_pml4 :: "vm \<Rightarrow> nat exec" where
  "cur_pml4 s = (if cur_as s = NULL then Some (kpml4 s) else do { a \<leftarrow> spaces s (cur_as s); as_vpmap a })"

definition memregion_invalidate :: "vm \<Rightarrow> memregion \<Rightarrow> vm exec" where
  "memregion_invalidate s r =
     (if (cur_as s \<noteq> NULL \<and> mr_as r = cur_as s) \<or> mr_as r = kas s
      then do { t \<leftarrow> cur_pml4 s; Some (s\<lparr>vs := vpmap_flush_tlb (vs s) t\<rparr>) }
      else Some s)"

definition kas_init :: "vm \<Rightarrow> vm" where
  "kas_init s = set_space (kas s) \<lparr>as_regions = [], as_vpmap = Some (kpml4 s), as_heap = NULL\<rparr> s"

definition as_init :: "vm \<Rightarrow> bool \<Rightarrow> ptr \<Rightarrow> (err_t \<times> vm) exec" where
  "as_init s kmem_ok p = do {
     let old = (case spaces s p of None \<Rightarrow> NULL | Some a \<Rightarrow> as_heap a);
     (vp, v) \<leftarrow> vpmap_create kmem_ok (vs s);
     let s = s\<lparr>vs := v\<rparr>;
     case vp of
       None \<Rightarrow> Some (ERR_VM_RESOURCE_UNAVAIL, set_space p \<lparr>as_regions = [], as_vpmap = None, as_heap = old\<rparr> s)
     | Some t \<Rightarrow>
         Some (ERR_OK, set_space p \<lparr>as_regions = [], as_vpmap = Some t, as_heap = NULL\<rparr>
           (s\<lparr>vs := vpmap_copy_kernel_mapping (vs s) (kpml4 s) t\<rparr>)) }"

text \<open>The first region of a list with a property.\<close>

fun scan_regions :: "(memregion \<Rightarrow> bool) \<Rightarrow> vm \<Rightarrow> ptr list \<Rightarrow> ptr exec" where
  "scan_regions P s [] = Some NULL"
| "scan_regions P s (n # ns) = do { r \<leftarrow> regs s n; if P r then Some n else scan_regions P s ns }"

definition as_find_memregion :: "vm \<Rightarrow> ptr \<Rightarrow> vaddr_t \<Rightarrow> u64 \<Rightarrow> ptr exec" where
  "as_find_memregion s p addr sz = do {
     a \<leftarrow> spaces s p;
     scan_regions (\<lambda>r. addr \<ge> mr_start r \<and> addr + sz \<le> pg_round_up (mr_end r)) s (as_regions a) }"

definition memregion_allocated :: "vm \<Rightarrow> ptr \<Rightarrow> vaddr_t \<Rightarrow> vaddr_t \<Rightarrow> bool exec" where
  "memregion_allocated s p start fin = do {
     a \<leftarrow> spaces s p;
     kassert (fin \<ge> start);
     n \<leftarrow> scan_regions (\<lambda>r. start < mr_end r \<and> fin > mr_start r) s (as_regions a);
     Some (n \<noteq> NULL) }"

text \<open>The comparator only looks at region bounds: positive iff \<open>a\<close> starts at or behind the end of \<open>b\<close>.\<close>

definition memregion_comparator :: "vm \<Rightarrow> ptr \<Rightarrow> ptr \<Rightarrow> int" where
  "memregion_comparator s a b =
     (case (regs s a, regs s b) of
        (Some ra, Some rb) \<Rightarrow> if mr_start ra \<ge> mr_end rb then 1 else 0
      | _ \<Rightarrow> 0)"

text \<open>\<open>Inl\<close> is the address returned from inside the loop, \<open>Inr\<close> the address after the last region.\<close>

fun free_vaddr_loop :: "vm \<Rightarrow> u64 \<Rightarrow> vaddr_t \<Rightarrow> ptr list \<Rightarrow> (vaddr_t + vaddr_t) exec" where
  "free_vaddr_loop s sz addr [] = Some (Inr addr)"
| "free_vaddr_loop s sz addr (n # ns) = do {
     r \<leftarrow> regs s n;
     if pg_round_up (addr + sz) < mr_start r then Some (Inl addr)
     else free_vaddr_loop s sz (pg_round_up (mr_end r)) ns }"

definition find_free_vaddr :: "vm \<Rightarrow> ptr \<Rightarrow> u64 \<Rightarrow> vaddr_t option exec" where
  "find_free_vaddr s p sz = do {
     kassert (p \<noteq> kas s);
     a \<leftarrow> spaces s p;
     x \<leftarrow> free_vaddr_loop s sz 0 (as_regions a);
     Some (case x of
       Inl addr \<Rightarrow> Some addr
     | Inr addr \<Rightarrow> if pg_round_up (addr + sz) < USTACK_LOWERBOUND - sz then Some addr else None) }"

definition memregion_map_internal ::
  "vm \<Rightarrow> ptr \<Rightarrow> ptr \<Rightarrow> vaddr_t \<Rightarrow> u64 \<Rightarrow> memperm \<Rightarrow> ptr \<Rightarrow> u64 \<Rightarrow> bool \<Rightarrow> (ptr \<times> vm) exec" where
  "memregion_map_internal s new p addr sz perm store ofs shared = do {
     a \<leftarrow> spaces s p;
     found \<leftarrow> (if addr = ADDR_ANYWHERE then find_free_vaddr s p sz else Some (Some addr));
     case found of
       None \<Rightarrow> Some (NULL, s)
     | Some addr \<Rightarrow> do {
         kassert (pg_aligned addr);
         kassert (addr + pg_round_up sz \<ge> addr);
         if p \<noteq> kas s \<and> (is_kern_memperm perm \<or> \<not> is_user_addr (addr + pg_round_up sz - 1)) then Some (NULL, s)
         else do {
           used \<leftarrow> memregion_allocated s p addr (addr + sz);
           if used then Some (NULL, s)
           else if new = NULL then Some (NULL, s)
           else do {
             let s = set_reg new \<lparr>mr_as = p, mr_start = addr, mr_end = addr + sz, mr_perm = perm, mr_shared = shared,
                         mr_store = store, mr_ofs = ofs\<rparr> s;
             Some (new, set_space p (a\<lparr>as_regions :=
                     insert_ordered (memregion_comparator s) new (as_regions a)\<rparr>) s) } } } }"

definition as_map_memregion ::
  "vm \<Rightarrow> ptr \<Rightarrow> ptr \<Rightarrow> vaddr_t \<Rightarrow> u64 \<Rightarrow> memperm \<Rightarrow> ptr \<Rightarrow> u64 \<Rightarrow> bool \<Rightarrow> (ptr \<times> vm) exec" where
  "as_map_memregion s new p addr sz perm store ofs shared =
     memregion_map_internal s new p addr sz perm store ofs shared"

definition memregion_unmap_internal :: "vm \<Rightarrow> ptr \<Rightarrow> vm exec" where
  "memregion_unmap_internal s n = do {
     r \<leftarrow> regs s n;
     a \<leftarrow> spaces s (mr_as r);
     v \<leftarrow> vpmap_unmap (vs s) (as_vpmap a) (mr_start r) (pg_round_up (mr_end r - mr_start r) div pg_size);
     let s = set_space (mr_as r) (a\<lparr>as_regions := remove1 n (as_regions a)\<rparr>) (s\<lparr>vs := v\<rparr>);
     s \<leftarrow> memregion_invalidate s r;
     Some (s\<lparr>regs := (regs s)(n := None)\<rparr>) }"

definition memregion_unmap :: "vm \<Rightarrow> ptr \<Rightarrow> vm exec" where
  "memregion_unmap s n = memregion_unmap_internal s n"

definition memregion_set_perm :: "vm \<Rightarrow> ptr \<Rightarrow> memperm \<Rightarrow> (err_t \<times> vm) exec" where
  "memregion_set_perm s n perm = do {
     r \<leftarrow> regs s n;
     if is_kern_memperm perm \<and> mr_as r \<noteq> kas s then Some (ERR_VM_INVALID, s)
     else do {
       a \<leftarrow> spaces s (mr_as r);
       v \<leftarrow> vpmap_set_perm (vs s) (as_vpmap a) (mr_start r)
              (unat (pg_round_up (mr_end r - mr_start r) div pg_size)) perm;
       let s = set_reg n (r\<lparr>mr_perm := perm\<rparr>) (s\<lparr>vs := v\<rparr>);
       s \<leftarrow> memregion_invalidate s (r\<lparr>mr_perm := perm\<rparr>);
       Some (ERR_OK, s) } }"

text \<open>The C int \<open>sz\<close> is a 32-bit word; it is sign-extended where it meets an address, and the length of the
  region is cut to 32 bits before the comparison.\<close>

definition memregion_extend :: "vm \<Rightarrow> ptr \<Rightarrow> 32 word \<Rightarrow> (err_t \<times> vaddr_t option \<times> vm) exec" where
  "memregion_extend s n sz =
     (if n = NULL then Some (ERR_VM_BOUND, None, s)
      else do {
        r \<leftarrow> regs s n;
        if sz = 0 then Some (ERR_OK, Some (mr_end r), s)
        else if sint sz > 0 then do {
          mr \<leftarrow> as_find_memregion s (mr_as r) (mr_end r) (scast sz);
          if mr \<noteq> NULL \<and> mr \<noteq> n then Some (ERR_VM_BOUND, None, s)
          else Some (ERR_OK, Some (mr_end r), set_reg n (r\<lparr>mr_end := mr_end r + scast sz\<rparr>) s) }
        else do {
          let bytes = (ucast (mr_end r - mr_start r) :: 32 word);
          Some (ERR_OK, Some (mr_end r),
            if sint bytes \<ge> sint (- sz) then set_reg n (r\<lparr>mr_end := mr_end r + scast sz\<rparr>) s else s) } })"

section \<open>Sorted, disjoint regions\<close>

abbreviation rstart :: "vm \<Rightarrow> ptr \<Rightarrow> vaddr_t" where "rstart s n \<equiv> mr_start (the (regs s n))"
abbreviation rend :: "vm \<Rightarrow> ptr \<Rightarrow> vaddr_t" where "rend s n \<equiv> mr_end (the (regs s n))"

definition before :: "vm \<Rightarrow> ptr \<Rightarrow> ptr \<Rightarrow> bool" where
  "before s n m \<longleftrightarrow> rstart s n \<le> rend s n \<and> rend s n \<le> rstart s m \<and> rstart s m \<le> rend s m"

definition as_inv :: "vm \<Rightarrow> ptr \<Rightarrow> addrspace \<Rightarrow> bool" where
  "as_inv s p a \<longleftrightarrow> distinct (as_regions a) \<and> NULL \<notin> set (as_regions a)
     \<and> (\<forall>n \<in> set (as_regions a). \<exists>r. regs s n = Some r \<and> mr_as r = p \<and> mr_start r \<le> mr_end r)
     \<and> sorted_wrt (before s) (as_regions a)"

definition vm_inv :: "vm \<Rightarrow> bool" where
  "vm_inv s \<longleftrightarrow> (\<forall>p a. spaces s p = Some a \<longrightarrow> as_inv s p a)"

lemma before_transp: "transp (before s)"
  by (rule transpI) (auto simp: before_def)

lemma as_invD:
  assumes "as_inv s p a"
  shows "distinct (as_regions a)" "NULL \<notin> set (as_regions a)"
    "n \<in> set (as_regions a) \<Longrightarrow> \<exists>r. regs s n = Some r \<and> mr_as r = p \<and> mr_start r \<le> mr_end r"
    "sorted_wrt (before s) (as_regions a)"
  using assms by (auto simp: as_inv_def)

text \<open>Regions of one space never overlap.\<close>

lemma as_inv_disjoint:
  assumes "as_inv s p a" "n \<in> set (as_regions a)" "m \<in> set (as_regions a)" "n \<noteq> m"
  shows "rend s n \<le> rstart s m \<or> rend s m \<le> rstart s n"
proof -
  obtain i j where "i < length (as_regions a)" "j < length (as_regions a)" "as_regions a ! i = n" "as_regions a ! j = m"
    using assms(2,3) by (metis in_set_conv_nth)
  with assms(4) as_invD(4) [OF assms(1)] show ?thesis
    unfolding before_def sorted_wrt_iff_nth_less by (metis linorder_neqE_nat)
qed

subsection \<open>The scan\<close>

lemma scan_regions_ok:
  assumes "\<And>n. n \<in> set ns \<Longrightarrow> regs s n \<noteq> None" "NULL \<notin> set ns"
  shows "\<exists>m. scan_regions P s ns = Some m \<and>
    (if m = NULL then \<forall>n \<in> set ns. \<not> P (the (regs s n)) else m \<in> set ns \<and> P (the (regs s m)))"
  using assms
proof (induction ns)
  case (Cons n ns)
  obtain r where r: "regs s n = Some r" using Cons.prems(1) [of n] by auto
  have n: "n \<noteq> NULL" "NULL \<notin> set ns" using Cons.prems(2) by auto
  show ?case
  proof (cases "P r")
    case True
    then show ?thesis using r n by simp
  next
    case False
    have "\<And>n. n \<in> set ns \<Longrightarrow> regs s n \<noteq> None" using Cons.prems(1) by simp
    from Cons.IH [OF this n(2)] obtain m where "scan_regions P s ns = Some m"
      "if m = NULL then \<forall>n \<in> set ns. \<not> P (the (regs s n)) else m \<in> set ns \<and> P (the (regs s m))" by blast
    then show ?thesis using False r by (intro exI [of _ m]) (simp split: if_splits)
  qed
qed simp

lemma scan_as:
  assumes "as_inv s p a"
  shows "\<exists>m. scan_regions P s (as_regions a) = Some m \<and>
    (if m = NULL then \<forall>n \<in> set (as_regions a). \<not> P (the (regs s n)) else m \<in> set (as_regions a) \<and> P (the (regs s m)))"
proof (rule scan_regions_ok)
  show "regs s n \<noteq> None" if "n \<in> set (as_regions a)" for n using as_invD(3) [OF assms that] by auto
qed (rule as_invD(2) [OF assms])

lemma memregion_allocated_ok:
  assumes "spaces s p = Some a" "as_inv s p a" "start \<le> fin"
  shows "memregion_allocated s p start fin =
    Some (\<exists>n \<in> set (as_regions a). start < rend s n \<and> rstart s n < fin)"
proof -
  obtain m where m: "scan_regions (\<lambda>r. start < mr_end r \<and> fin > mr_start r) s (as_regions a) = Some m"
    "if m = NULL then \<forall>n \<in> set (as_regions a). \<not> (start < rend s n \<and> fin > rstart s n)
     else m \<in> set (as_regions a) \<and> start < rend s m \<and> fin > rstart s m"
    using scan_as [OF assms(2), of "\<lambda>r. start < mr_end r \<and> fin > mr_start r"] by blast
  then show ?thesis using assms(1,3) by (auto simp: memregion_allocated_def split: if_splits)
qed

subsection \<open>Inserting a region\<close>

lemma as_inv_cong:
  assumes "as_inv s p a" "\<And>n. n \<in> set (as_regions a) \<Longrightarrow> regs s' n = regs s n"
  shows "as_inv s' p a"
proof -
  have "sorted_wrt (before s') (as_regions a)"
    using as_invD(4) [OF assms(1)] by (rule sorted_wrt_mono_rel [rotated]) (simp add: before_def assms(2))
  then show ?thesis using assms by (simp add: as_inv_def)
qed

lemma as_inv_regs: "regs s' = regs s \<Longrightarrow> as_inv s' p a = as_inv s p a"
  by (metis as_inv_cong)

lemma as_inv_insert:
  assumes inv: "as_inv s p a" and new: "new \<noteq> NULL" "new \<notin> set (as_regions a)"
    and r: "mr_as r = p" "mr_start r \<le> mr_end r"
    and free: "\<And>n. n \<in> set (as_regions a) \<Longrightarrow> \<not> (mr_start r < rend s n \<and> rstart s n < mr_end r)"
  defines "s' \<equiv> set_reg new r s"
  shows "as_inv s' p (a\<lparr>as_regions := insert_ordered (memregion_comparator s') new (as_regions a)\<rparr>)"
proof -
  let ?l = "insert_ordered (memregion_comparator s') new (as_regions a)"
  have old: "regs s' n = regs s n" if "n \<in> set (as_regions a)" for n
    using that new by (auto simp: s'_def set_reg_def)
  have nw: "regs s' new = Some r" by (simp add: s'_def set_reg_def)
  have i: "as_inv s' p a" using inv old by (rule as_inv_cong)
  have "mset ?l = add_mset new (mset (as_regions a))" by (rule insert_ordered_mset)
  then have l: "set ?l = insert new (set (as_regions a))" "distinct ?l"
    using new(2) as_invD(1) [OF inv] by (metis set_mset_add_mset_insert set_mset_mset,
      metis distinct.simps(2) mset.simps(2) mset_eq_imp_distinct_iff)
  have "sorted_wrt (before s') ?l"
  proof (rule insert_ordered_sorted [OF before_transp as_invD(4) [OF i]])
    fix n assume n: "n \<in> set (as_regions a)"
    then obtain q where q: "regs s' n = Some q" "mr_start q \<le> mr_end q" using as_invD(3) [OF i] by blast
    have "mr_end q \<le> mr_start r \<or> mr_end r \<le> mr_start q" using free [OF n] q(1) unfolding old [OF n] by (auto simp: not_less)
    then show "if memregion_comparator s' n new > 0 then before s' new n else before s' n new"
      using q nw r(2) by (auto simp: memregion_comparator_def before_def)
  qed
  then show ?thesis using l i nw r new as_invD(2) [OF inv] by (auto simp: as_inv_def)
qed

lemma vm_inv_insert:
  assumes inv: "vm_inv s" and p: "spaces s p = Some a" and new: "new \<noteq> NULL" "regs s new = None"
    and r: "mr_as r = p" "mr_start r \<le> mr_end r"
    and free: "\<And>n. n \<in> set (as_regions a) \<Longrightarrow> \<not> (mr_start r < rend s n \<and> rstart s n < mr_end r)"
  defines "s' \<equiv> set_reg new r s"
  shows "vm_inv (set_space p (a\<lparr>as_regions := insert_ordered (memregion_comparator s') new (as_regions a)\<rparr>) s')"
proof -
  have i: "as_inv s q b" if "spaces s q = Some b" for q b using inv that by (simp add: vm_inv_def)
  have o: "n \<noteq> new" if "spaces s q = Some b" "n \<in> set (as_regions b)" for q b n
    using as_invD(3) [OF i [OF that(1)] that(2)] new(2) by auto
  let ?a = "a\<lparr>as_regions := insert_ordered (memregion_comparator s') new (as_regions a)\<rparr>"
  have 1: "as_inv s' p ?a" unfolding s'_def
    using as_inv_insert [OF i [OF p] new(1) _ r free] o [OF p] by blast
  have 2: "as_inv s' q b" if "spaces s q = Some b" for q b
    using i [OF that] by (rule as_inv_cong) (use o [OF that] in \<open>auto simp: s'_def set_reg_def\<close>)
  have g: "as_inv (set_space p ?a s') q b = as_inv s' q b" for q b
    by (rule as_inv_regs) (simp add: set_space_def)
  have "spaces s' = spaces s" by (simp add: s'_def set_reg_def)
  then show ?thesis using 1 2 unfolding vm_inv_def g by (auto simp: set_space_def)
qed

text \<open>The attributes of a new region, and the result of mapping once its address is chosen.\<close>

definition new_region :: "ptr \<Rightarrow> vaddr_t \<Rightarrow> u64 \<Rightarrow> memperm \<Rightarrow> ptr \<Rightarrow> u64 \<Rightarrow> bool \<Rightarrow> memregion" where
  "new_region p addr sz perm store ofs shared =
     \<lparr>mr_as = p, mr_start = addr, mr_end = addr + sz, mr_perm = perm, mr_shared = shared, mr_store = store, mr_ofs = ofs\<rparr>"

definition refused :: "vm \<Rightarrow> ptr \<Rightarrow> addrspace \<Rightarrow> vaddr_t \<Rightarrow> u64 \<Rightarrow> memperm \<Rightarrow> bool" where
  "refused s p a addr sz perm \<longleftrightarrow>
     p \<noteq> kas s \<and> (is_kern_memperm perm \<or> \<not> is_user_addr (addr + pg_round_up sz - 1))
     \<or> (\<exists>n \<in> set (as_regions a). addr < rend s n \<and> rstart s n < addr + sz)"

definition mapped_at :: "vm \<Rightarrow> ptr \<Rightarrow> addrspace \<Rightarrow> ptr \<Rightarrow> memregion \<Rightarrow> vm \<Rightarrow> bool" where
  "mapped_at s p a new r s' \<longleftrightarrow> regs s' = (regs s)(new := Some r)
     \<and> (\<exists>a'. spaces s' = (spaces s)(p := Some a') \<and> set (as_regions a') = insert new (set (as_regions a))
          \<and> as_vpmap a' = as_vpmap a \<and> as_heap a' = as_heap a)
     \<and> vs s' = vs s \<and> kas s' = kas s \<and> kpml4 s' = kpml4 s \<and> cur_as s' = cur_as s"

lemma map_internal_at:
  assumes inv: "vm_inv s" and p: "spaces s p = Some a" and new: "new = NULL \<or> regs s new = None"
    and f: "(if addr0 = ADDR_ANYWHERE then find_free_vaddr s p sz else Some (Some addr0)) = Some (Some addr)"
    and addr: "pg_aligned addr" "addr \<le> addr + pg_round_up sz" "addr \<le> addr + sz"
  shows "\<exists>n s'. memregion_map_internal s new p addr0 sz perm store ofs shared = Some (n, s') \<and> vm_inv s'
    \<and> (if refused s p a addr sz perm \<or> new = NULL then n = NULL \<and> s' = s
       else n = new \<and> mapped_at s p a new (new_region p addr sz perm store ofs shared) s')"
proof -
  have i: "as_inv s p a" using inv p by (simp add: vm_inv_def)
  note al = memregion_allocated_ok [OF p i addr(3)]
  let ?r = "new_region p addr sz perm store ofs shared"
  have r: "mr_as ?r = p" "mr_start ?r = addr" "mr_end ?r = addr + sz" by (simp_all add: new_region_def)
  show ?thesis
  proof (cases "refused s p a addr sz perm \<or> new = NULL")
    case True
    then show ?thesis using p f addr al inv
      by (auto simp: memregion_map_internal_def refused_def)
  next
    case False
    let ?s = "set_reg new ?r s"
    let ?s' = "set_space p (a\<lparr>as_regions := insert_ordered (memregion_comparator ?s) new (as_regions a)\<rparr>) ?s"
    have "memregion_map_internal s new p addr0 sz perm store ofs shared = Some (new, ?s')"
      using False p f addr al by (auto simp: memregion_map_internal_def refused_def new_region_def Let_def)
    moreover have "vm_inv ?s'"
      using False new r addr(3) by (intro vm_inv_insert [OF inv p]) (auto simp: refused_def)
    moreover have "set (insert_ordered (memregion_comparator ?s) new (as_regions a)) = insert new (set (as_regions a))"
      by (metis insert_ordered_mset set_mset_add_mset_insert set_mset_mset)
    ultimately show ?thesis using False by (auto simp: mapped_at_def set_space_def set_reg_def)
  qed
qed

subsection \<open>Choosing an address\<close>

lemma pg_round_up_ge: "unat x \<le> 2 ^ 64 - 4096 \<Longrightarrow> x \<le> pg_round_up x \<and> unat (pg_round_up x) \<le> unat x + 4095"
  by (simp add: word_le_nat_alt unat_pg_round_up)

lemma pg_aligned_round_up: "unat x \<le> 2 ^ 64 - 4096 \<Longrightarrow> pg_aligned (pg_round_up x)"
  by (simp add: pg_aligned_iff unat_pg_round_up)

lemma pg_round_up_aligned:
  assumes "4096 dvd unat y"
  shows "pg_round_up y = y"
proof -
  obtain k where k: "unat y = 4096 * k" using assms by blast
  have "unat y < 2 ^ LENGTH(64)" by (rule unsigned_less)
  then have b: "unat y \<le> 2 ^ 64 - 4096" using k by simp
  have "unat (pg_round_up y) = unat y" unfolding unat_pg_round_up [OF b] k by simp
  then show ?thesis by (simp add: word_unat_eq_iff)
qed

text \<open>An address up to the top of the user stack, behind which 256 gigabytes cannot wrap.\<close>

definition low_addr :: "vaddr_t \<Rightarrow> bool" where
  "low_addr addr \<longleftrightarrow> pg_aligned addr \<and> addr \<le> USTACK_UPPERBOUND"

lemma low_addr_round_up:
  assumes "e \<le> USTACK_UPPERBOUND"
  shows "low_addr (pg_round_up e) \<and> e \<le> pg_round_up e"
proof -
  have a: "4096 dvd unat USTACK_UPPERBOUND" "unat e \<le> unat USTACK_UPPERBOUND"
    using assms by (simp_all add: USTACK_UPPERBOUND_def word_le_nat_alt)
  then have b: "unat e \<le> 2 ^ 64 - 4096" by (simp add: USTACK_UPPERBOUND_def)
  have "(unat e + 4095) div 4096 * 4096 \<le> unat USTACK_UPPERBOUND" using a by (auto elim!: dvdE)
  then show ?thesis using pg_aligned_round_up [OF b] unat_pg_round_up [OF b] pg_round_up_ge [OF b]
    by (simp add: low_addr_def word_le_nat_alt)
qed

lemma low_addr_plus:
  assumes "low_addr addr" "unat sz \<le> 2 ^ 38"
  shows "unat (addr + sz) = unat addr + unat sz" "unat (addr + sz) \<le> 2 ^ 64 - 4096"
    "unat (addr + pg_round_up sz) = unat addr + unat (pg_round_up sz)"
proof -
  have a: "unat addr \<le> 0xFFFFFF7FFFFFF000"
    using assms(1) by (simp add: low_addr_def USTACK_UPPERBOUND_def word_le_nat_alt)
  have s: "unat (pg_round_up sz) \<le> 2 ^ 38 + 4095" using pg_round_up_ge [of sz] assms(2) by simp
  show u: "unat (addr + sz) = unat addr + unat sz" using a assms(2) by (simp add: unat_word_ariths)
  show "unat (addr + sz) \<le> 2 ^ 64 - 4096" unfolding u using a assms(2) by simp
  show "unat (addr + pg_round_up sz) = unat addr + unat (pg_round_up sz)" using a s by (simp add: unat_word_ariths)
qed

lemma low_addr_mono:
  assumes "low_addr y" "low_addr z" "y \<le> z" "unat sz \<le> 2 ^ 38"
  shows "pg_round_up (y + sz) \<le> pg_round_up (z + sz)" "y \<le> pg_round_up (y + sz)"
proof -
  note y = low_addr_plus(1,2) [OF assms(1,4)] and z = low_addr_plus(1,2) [OF assms(2,4)]
  have "(unat (y + sz) + 4095) div 4096 \<le> (unat (z + sz) + 4095) div 4096" using y(1) z(1) assms(3) by (intro div_le_mono) (simp add: word_le_nat_alt)
  then show "pg_round_up (y + sz) \<le> pg_round_up (z + sz)" unfolding word_le_nat_alt unat_pg_round_up [OF y(2)] unat_pg_round_up [OF z(2)] by simp
  show "y \<le> pg_round_up (y + sz)" using pg_round_up_ge [OF y(2)] y(1) unfolding word_le_nat_alt by simp
qed

lemma low_addr_least:
  assumes "e \<le> z" "low_addr z"
  shows "pg_round_up e \<le> z"
proof -
  obtain c where c: "unat z = 4096 * c" using assms(2) by (auto simp: low_addr_def pg_aligned_iff)
  have le: "unat e \<le> unat z" "unat z \<le> 0xFFFFFF7FFFFFF000" using assms by (simp_all add: word_le_nat_alt low_addr_def USTACK_UPPERBOUND_def)
  then have b: "unat e \<le> 2 ^ 64 - 4096" by simp
  have "(unat e + 4095) div 4096 \<le> c" using le(1) c by simp
  then show ?thesis unfolding word_le_nat_alt unat_pg_round_up [OF b] c by simp
qed

text \<open>Addresses at which a region of the given size keeps clear of the regions of a list: it starts behind a region, or ends on a page in front of the first page of the region.\<close>

definition clear_at :: "vm \<Rightarrow> ptr set \<Rightarrow> u64 \<Rightarrow> vaddr_t \<Rightarrow> bool" where
  "clear_at s N sz x \<longleftrightarrow> low_addr x \<and> (\<forall>n \<in> N. rend s n \<le> x \<or> pg_round_up (x + sz) < rstart s n)"

lemma clear_at_reject:
  assumes "clear_at s N sz z" "n \<in> N" "low_addr y" "y \<le> z" "unat sz \<le> 2 ^ 38" "\<not> pg_round_up (y + sz) < rstart s n"
  shows "rend s n \<le> z"
proof -
  have "pg_round_up (y + sz) \<le> pg_round_up (z + sz)" using low_addr_mono(1) [OF assms(3) _ assms(4,5)] assms(1) by (simp add: clear_at_def)
  then have "\<not> pg_round_up (z + sz) < rstart s n" using assms(6) by auto
  then show ?thesis using assms(1,2) by (auto simp: clear_at_def)
qed

lemma free_vaddr_loop_ok:
  assumes "low_addr addr" "unat sz \<le> 2 ^ 38" "sorted_wrt (before s) ns"
    and "\<forall>n \<in> set ns. regs s n \<noteq> None \<and> rstart s n \<le> rend s n \<and> rend s n \<le> USTACK_UPPERBOUND"
    and "\<forall>d \<in> D. rend s d \<le> addr \<and> (\<forall>n \<in> set ns. rend s d \<le> rstart s n)" and "N = D \<union> set ns"
    and "\<forall>z. clear_at s N sz z \<longrightarrow> addr \<le> z \<and> (\<forall>d \<in> D. rend s d \<le> z)"
  shows "\<exists>x. free_vaddr_loop s sz addr ns = Some x \<and> (case x of
      Inl y \<Rightarrow> clear_at s N sz y \<and> (\<exists>n \<in> N. y < rend s n) \<and> (\<forall>z. clear_at s N sz z \<longrightarrow> y \<le> z)
    | Inr y \<Rightarrow> low_addr y \<and> (\<forall>n \<in> N. rend s n \<le> y) \<and> (\<forall>z. clear_at s N sz z \<longrightarrow> y \<le> z \<and> (\<forall>n \<in> N. rend s n \<le> z)))"
  using assms
proof (induction ns arbitrary: addr D)
  case (Cons n ns)
  obtain r where r: "regs s n = Some r" using Cons.prems(4) by auto
  show ?case
  proof (cases "pg_round_up (addr + sz) < mr_start r")
    case True
    have "rstart s n \<le> rstart s m" if "m \<in> set ns" for m using that Cons.prems(3) by (auto simp: before_def)
    then have "\<forall>m \<in> set (n # ns). pg_round_up (addr + sz) < rstart s m" using True r by (force intro: less_le_trans)
    then have c: "clear_at s N sz addr" using Cons.prems(1,5,6) by (auto simp: clear_at_def)
    have "addr < rend s n" using low_addr_mono(2) [OF Cons.prems(1,1) _ Cons.prems(2)] True r Cons.prems(4) by (auto intro: le_less_trans less_le_trans)
    then show ?thesis using True r c Cons.prems(6,7) by auto
  next
    case False
    let ?a = "pg_round_up (mr_end r)"
    have e: "mr_end r \<le> USTACK_UPPERBOUND" using Cons.prems(4) r by auto
    have l: "low_addr ?a" and ge: "mr_end r \<le> ?a" using low_addr_round_up [OF e] by simp_all
    have n: "rend s n \<le> z \<and> ?a \<le> z" if "clear_at s N sz z" for z
    proof -
      have "rend s n \<le> z" using clear_at_reject [OF that _ Cons.prems(1) _ Cons.prems(2), of n] Cons.prems(6,7) False r that by simp
      moreover have "low_addr z" using that by (simp add: clear_at_def)
      ultimately show ?thesis using low_addr_least [of "mr_end r" z] r by simp
    qed
    have D: "\<forall>d \<in> insert n D. rend s d \<le> ?a \<and> (\<forall>m \<in> set ns. rend s d \<le> rstart s m)"
      using Cons.prems(3,4,5) r ge by (auto simp: before_def)
    have z: "\<forall>z. clear_at s N sz z \<longrightarrow> ?a \<le> z \<and> (\<forall>d \<in> insert n D. rend s d \<le> z)" using n Cons.prems(7) by blast
    have ns: "sorted_wrt (before s) ns" "\<forall>n \<in> set ns. regs s n \<noteq> None \<and> rstart s n \<le> rend s n \<and> rend s n \<le> USTACK_UPPERBOUND"
      "N = insert n D \<union> set ns" using Cons.prems(3,4,6) by auto
    from Cons.IH [OF l Cons.prems(2) ns(1,2) D ns(3) z] show ?thesis using False r by simp
  qed
qed (auto split: sum.splits)

text \<open>A process space whose regions end at or below the stack top.\<close>

definition user_space :: "vm \<Rightarrow> ptr \<Rightarrow> addrspace \<Rightarrow> bool" where
  "user_space s p a \<longleftrightarrow> p \<noteq> kas s \<and> (\<forall>n \<in> set (as_regions a). rend s n \<le> USTACK_UPPERBOUND)"

text \<open>The gaps: page addresses at which a region keeps clear of all others and, behind the last one, of the stack.\<close>

definition gap :: "vm \<Rightarrow> addrspace \<Rightarrow> u64 \<Rightarrow> vaddr_t \<Rightarrow> bool" where
  "gap s a sz x \<longleftrightarrow> pg_aligned x \<and> x \<le> USTACK_UPPERBOUND \<and> (\<forall>n \<in> set (as_regions a). rend s n \<le> x \<or> pg_round_up (x + sz) < rstart s n)
     \<and> ((\<forall>n \<in> set (as_regions a). rend s n \<le> x) \<longrightarrow> pg_round_up (x + sz) < USTACK_LOWERBOUND - sz)"

definition first_gap :: "vm \<Rightarrow> addrspace \<Rightarrow> u64 \<Rightarrow> vaddr_t \<Rightarrow> bool" where
  "first_gap s a sz x \<longleftrightarrow> gap s a sz x \<and> (\<forall>y. gap s a sz y \<longrightarrow> x \<le> y)"

lemma gap_clear: "gap s a sz x \<longleftrightarrow> clear_at s (set (as_regions a)) sz x \<and> ((\<forall>n \<in> set (as_regions a). rend s n \<le> x) \<longrightarrow> pg_round_up (x + sz) < USTACK_LOWERBOUND - sz)"
  by (auto simp: gap_def clear_at_def low_addr_def)

lemma find_free_vaddr_ok:
  assumes p: "spaces s p = Some a" and i: "as_inv s p a" and u: "user_space s p a" and sz: "unat sz \<le> 2 ^ 38"
  shows "\<exists>x. find_free_vaddr s p sz = Some x \<and> (case x of None \<Rightarrow> \<forall>y. \<not> gap s a sz y | Some y \<Rightarrow> first_gap s a sz y)"
proof -
  let ?N = "set (as_regions a)"
  have l: "low_addr 0" by (simp add: low_addr_def pg_aligned_def)
  moreover have "\<forall>n \<in> ?N. regs s n \<noteq> None \<and> rstart s n \<le> rend s n \<and> rend s n \<le> USTACK_UPPERBOUND"
    using as_invD(3) [OF i] u by (fastforce simp: user_space_def)
  ultimately obtain x where x: "free_vaddr_loop s sz 0 (as_regions a) = Some x"
    "case x of Inl y \<Rightarrow> clear_at s ?N sz y \<and> (\<exists>n \<in> ?N. y < rend s n) \<and> (\<forall>z. clear_at s ?N sz z \<longrightarrow> y \<le> z)
     | Inr y \<Rightarrow> low_addr y \<and> (\<forall>n \<in> ?N. rend s n \<le> y) \<and> (\<forall>z. clear_at s ?N sz z \<longrightarrow> y \<le> z \<and> (\<forall>n \<in> ?N. rend s n \<le> z))"
    using free_vaddr_loop_ok [of 0 sz s "as_regions a" "{}" ?N] sz as_invD(4) [OF i] by auto
  show ?thesis
  proof (cases x)
    case (Inl y)
    then have "first_gap s a sz y" using x(2) by (auto simp: first_gap_def gap_clear)
    then show ?thesis using p u x(1) Inl by (simp add: find_free_vaddr_def user_space_def)
  next
    case (Inr y)
    then have y: "low_addr y" "\<forall>n \<in> ?N. rend s n \<le> y" "\<forall>z. clear_at s ?N sz z \<longrightarrow> y \<le> z \<and> (\<forall>n \<in> ?N. rend s n \<le> z)" using x(2) by auto
    have c: "clear_at s ?N sz y" using y(1,2) by (simp add: clear_at_def)
    have "pg_round_up (y + sz) < USTACK_LOWERBOUND - sz" if "gap s a sz z" for z
    proof -
      have z: "low_addr z" "y \<le> z" "pg_round_up (z + sz) < USTACK_LOWERBOUND - sz" using that y(3) by (auto simp: gap_clear clear_at_def)
      then show ?thesis using low_addr_mono(1) [OF y(1) z(1,2) sz] by (rule_tac le_less_trans)
    qed
    then have "if pg_round_up (y + sz) < USTACK_LOWERBOUND - sz then first_gap s a sz y else \<forall>z. \<not> gap s a sz z"
      using c y by (auto simp: first_gap_def gap_clear)
    then show ?thesis using p u x(1) Inr by (simp add: find_free_vaddr_def user_space_def)
  qed
qed

lemma gap_apart:
  assumes "gap s a sz x" "unat sz \<le> 2 ^ 38" "n \<in> set (as_regions a)"
  shows "rend s n \<le> x \<or> x + sz \<le> rstart s n"
proof -
  have l: "low_addr x" using assms(1) by (simp add: gap_def low_addr_def)
  have "x + sz \<le> pg_round_up (x + sz)" using pg_round_up_ge [OF low_addr_plus(2) [OF l assms(2)]] by blast
  then show ?thesis using assms(1,3) by (auto simp: gap_def)
qed

text \<open>Mapping anywhere is refused for a kernel permission, for a range that is not a user range, without a gap, or without a region structure.\<close>

definition mapped_first :: "vm \<Rightarrow> ptr \<Rightarrow> ptr \<Rightarrow> addrspace \<Rightarrow> u64 \<Rightarrow> memperm \<Rightarrow> ptr \<Rightarrow> u64 \<Rightarrow> bool \<Rightarrow> ptr \<Rightarrow> vm \<Rightarrow> bool" where
  "mapped_first s new p a sz perm store ofs shared n s' \<longleftrightarrow>
     (if new = NULL \<or> is_kern_memperm perm \<or> (\<forall>x. \<not> gap s a sz x) \<or> (\<exists>x. first_gap s a sz x \<and> \<not> is_user_addr (x + pg_round_up sz - 1))
      then n = NULL \<and> s' = s
      else n = new \<and> (\<exists>x. first_gap s a sz x \<and> mapped_at s p a new (new_region p x sz perm store ofs shared) s'))"

lemma first_gap_unique: "first_gap s a sz x \<Longrightarrow> first_gap s a sz y \<Longrightarrow> x = y"
  unfolding first_gap_def by (meson order_antisym)

lemma map_internal_anywhere:
  assumes inv: "vm_inv s" and p: "spaces s p = Some a" and new: "new = NULL \<or> regs s new = None"
    and u: "user_space s p a" and sz: "unat sz \<le> 2 ^ 38"
  shows "\<exists>n s'. memregion_map_internal s new p ADDR_ANYWHERE sz perm store ofs shared = Some (n, s') \<and> vm_inv s'
    \<and> mapped_first s new p a sz perm store ofs shared n s'"
proof -
  have i: "as_inv s p a" using inv p by (simp add: vm_inv_def)
  obtain x where x: "find_free_vaddr s p sz = Some x" "case x of None \<Rightarrow> \<forall>y. \<not> gap s a sz y | Some y \<Rightarrow> first_gap s a sz y"
    using find_free_vaddr_ok [OF p i u sz] by blast
  show ?thesis
  proof (cases x)
    case None
    then show ?thesis using x p inv by (simp add: memregion_map_internal_def mapped_first_def)
  next
    case (Some addr)
    then have g: "first_gap s a sz addr" "gap s a sz addr" using x(2) by (auto simp: first_gap_def)
    then have l: "low_addr addr" by (simp add: gap_def low_addr_def)
    have "addr \<le> addr + pg_round_up sz" "addr \<le> addr + sz" "pg_aligned addr"
      using low_addr_plus [OF l sz] l by (simp_all add: word_le_nat_alt low_addr_def)
    then have "\<exists>n s'. memregion_map_internal s new p ADDR_ANYWHERE sz perm store ofs shared = Some (n, s') \<and> vm_inv s'
      \<and> (if refused s p a addr sz perm \<or> new = NULL then n = NULL \<and> s' = s
         else n = new \<and> mapped_at s p a new (new_region p addr sz perm store ofs shared) s')"
      using map_internal_at [OF inv p new, of ADDR_ANYWHERE sz addr perm store ofs shared] x(1) Some by simp
    moreover have "refused s p a addr sz perm \<longleftrightarrow> is_kern_memperm perm \<or> \<not> is_user_addr (addr + pg_round_up sz - 1)"
      using gap_apart [OF g(2) sz] u unfolding refused_def user_space_def by (meson leD)
    moreover have "(\<exists>x. first_gap s a sz x \<and> P x) \<longleftrightarrow> P addr" for P using g(1) first_gap_unique by metis
    ultimately show ?thesis using g(2) unfolding mapped_first_def by (elim exE conjE, intro exI conjI; assumption?) (auto split: if_splits)
  qed
qed

subsection \<open>Removing a region\<close>

lemma memregion_invalidate_ok:
  assumes "cur_as s = NULL \<or> (\<exists>b t. spaces s (cur_as s) = Some b \<and> as_vpmap b = Some t)"
  shows "\<exists>w. memregion_invalidate s r = Some (s\<lparr>vs := w\<rparr>)"
proof -
  have "\<exists>t. cur_pml4 s = Some t" using assms by (auto simp: cur_pml4_def)
  moreover have "s = s\<lparr>vs := vs s\<rparr>" by simp
  ultimately show ?thesis unfolding memregion_invalidate_def by (metis bind.bind_lunit)
qed

lemma sorted_wrt_remove1: "sorted_wrt P xs \<Longrightarrow> sorted_wrt P (remove1 x xs)"
  by (induction xs) (auto dest: in_set_remove1 [THEN iffD1, rotated] set_remove1_subset [THEN subsetD])

lemma unmap_internal_ok:
  assumes inv: "vm_inv s" and r: "regs s n = Some r" "spaces s (mr_as r) = Some a"
    and v: "vpmap_unmap (vs s) (as_vpmap a) (mr_start r) (pg_round_up (mr_end r - mr_start r) div pg_size) = Some v"
    and c: "cur_as s = NULL \<or> (\<exists>b t. spaces s (cur_as s) = Some b \<and> as_vpmap b = Some t)"
  shows "\<exists>s' a'. memregion_unmap_internal s n = Some s' \<and> vm_inv s' \<and> regs s' = (regs s)(n := None)
    \<and> spaces s' = (spaces s)(mr_as r := Some a') \<and> set (as_regions a') = set (as_regions a) - {n}
    \<and> as_vpmap a' = as_vpmap a"
proof -
  let ?a = "a\<lparr>as_regions := remove1 n (as_regions a)\<rparr>"
  let ?s = "set_space (mr_as r) ?a (s\<lparr>vs := v\<rparr>)"
  have c': "cur_as ?s = NULL \<or> (\<exists>b t. spaces ?s (cur_as ?s) = Some b \<and> as_vpmap b = Some t)"
    using c r(2) by (auto simp: set_space_def)
  obtain w where w: "memregion_invalidate ?s r = Some (?s\<lparr>vs := w\<rparr>)"
    using memregion_invalidate_ok [of ?s r] c' by blast
  let ?s' = "?s\<lparr>vs := w, regs := (regs s)(n := None)\<rparr>"
  have u: "memregion_unmap_internal s n = Some ?s'"
    using r v w by (simp add: memregion_unmap_internal_def set_space_def)
  have i: "as_inv s p b" if "spaces s p = Some b" for p b using inv that by (simp add: vm_inv_def)
  have d: "distinct (as_regions a)" using as_invD(1) [OF i [OF r(2)]] .
  have "as_inv s (mr_as r) ?a" using i [OF r(2)] d
    by (auto simp: as_inv_def sorted_wrt_remove1)
  then have "as_inv ?s' (mr_as r) ?a" by (rule as_inv_cong) (use d in auto)
  moreover have "as_inv ?s' p b" if "spaces s p = Some b" "p \<noteq> mr_as r" for p b
    using i [OF that(1)] by (rule as_inv_cong) (use as_invD(3) [OF i [OF that(1)], of n] that r(1) in auto)
  ultimately have "vm_inv ?s'" by (auto simp: vm_inv_def set_space_def)
  then show ?thesis using u d by (auto simp: set_space_def)
qed

section \<open>A small instance\<close>

text \<open>Space 100 with the regions 10 and 11, and the empty kernel space 50.\<close>

definition small_region :: "vaddr_t \<Rightarrow> vaddr_t \<Rightarrow> memregion" where
  "small_region a b = \<lparr>mr_as = 100, mr_start = a, mr_end = b, mr_perm = MEMPERM_URW, mr_shared = False,
     mr_store = NULL, mr_ofs = 0\<rparr>"

definition small_vm :: vm where
  "small_vm = \<lparr>vs = small_vps,
     regs = [10 \<mapsto> small_region 0x1000 0x3000, 11 \<mapsto> small_region 0x5000 0x6000],
     spaces = [100 \<mapsto> \<lparr>as_regions = [10, 11], as_vpmap = Some 1, as_heap = 10\<rparr>,
               50 \<mapsto> \<lparr>as_regions = [], as_vpmap = Some 1, as_heap = NULL\<rparr>],
     kas = 50, kpml4 = 1, cur_as = 100\<rparr>"

lemma small_vm_inv: "vm_inv small_vm"
  by (auto simp: vm_inv_def as_inv_def small_vm_def small_region_def before_def split: if_splits)

section \<open>Properties\<close>

text \<open>C4. Mapping a region at a given page-aligned address returns and keeps the regions of every address
  space sorted and disjoint.  It answers NULL and changes nothing exactly when the permission or
  the address is not for user space, when the range meets an existing region, or when no region
  structure is available; otherwise the new region has the given bounds and attributes and is
  added to the space, and nothing else changes.\<close>

theorem as_map_memregion_fixed:
  assumes "vm_inv s" "spaces s p = Some a" "new = NULL \<or> regs s new = None" "addr \<noteq> ADDR_ANYWHERE"
    and "pg_aligned addr" "addr \<le> addr + pg_round_up sz" "addr \<le> addr + sz"
  shows "\<exists>n s'. as_map_memregion s new p addr sz perm store ofs shared = Some (n, s') \<and> vm_inv s'
    \<and> (if refused s p a addr sz perm \<or> new = NULL then n = NULL \<and> s' = s
       else n = new \<and> mapped_at s p a new (new_region p addr sz perm store ofs shared) s')"
  using map_internal_at [OF assms(1-3) _ assms(5-7), of addr perm store ofs shared] assms(4)
  by (simp add: as_map_memregion_def)

lemma as_map_memregion_fixed_witness:
  "\<exists>n s'. as_map_memregion small_vm 12 100 0x3000 0x2000 MEMPERM_URW NULL 0 False = Some (n, s') \<and> vm_inv s'
    \<and> n = 12 \<and> mapped_at small_vm 100 \<lparr>as_regions = [10, 11], as_vpmap = Some 1, as_heap = 10\<rparr> 12
        (new_region 100 0x3000 0x2000 MEMPERM_URW NULL 0 False) s'"
proof -
  have p: "spaces small_vm 100 = Some \<lparr>as_regions = [10, 11], as_vpmap = Some 1, as_heap = 10\<rparr>"
    "(12 :: ptr) = NULL \<or> regs small_vm 12 = None" by (simp_all add: small_vm_def)
  have a: "(0x3000 :: u64) \<noteq> ADDR_ANYWHERE" "pg_aligned 0x3000" "(0x3000 :: u64) \<le> 0x3000 + pg_round_up 0x2000"
    "(0x3000 :: u64) \<le> 0x3000 + 0x2000" by (simp_all add: pg_aligned_def pg_round_up_def pg_size_def)
  have "\<not> refused small_vm 100 \<lparr>as_regions = [10, 11], as_vpmap = Some 1, as_heap = 10\<rparr> 0x3000 0x2000 MEMPERM_URW"
    by (simp add: refused_def small_vm_def small_region_def is_kern_memperm_def is_user_addr_def kvm_base_def
      pg_round_up_def pg_size_def)
  then show ?thesis
    using as_map_memregion_fixed [OF small_vm_inv p a, of MEMPERM_URW NULL 0 False] by simp
qed

text \<open>C5. Mapping a region of up to 256 gigabytes anywhere in a process space returns and takes the lowest gap: the lowest page address at which the region keeps clear of all
  others and of the stack.  It answers NULL without a change exactly if there is no gap, the permission is one of the kernel, the range is no user range or there is no memory for the
  region structure.  Otherwise the region lists stay sorted and disjoint.\<close>

theorem as_map_memregion_anywhere:
  assumes inv: "vm_inv s" and p: "spaces s p = Some a" and new: "new = NULL \<or> regs s new = None"
    and u: "user_space s p a" and sz: "unat sz \<le> 2 ^ 38"
  shows "\<exists>n s'. as_map_memregion s new p ADDR_ANYWHERE sz perm store ofs shared = Some (n, s') \<and> vm_inv s'
    \<and> (if new = NULL \<or> is_kern_memperm perm \<or> (\<forall>x. \<not> gap s a sz x) \<or> (\<exists>x. first_gap s a sz x \<and> \<not> is_user_addr (x + pg_round_up sz - 1))
       then n = NULL \<and> s' = s
       else n = new \<and> (\<exists>x. first_gap s a sz x \<and> mapped_at s p a new (new_region p x sz perm store ofs shared) s'
              \<and> (\<forall>m \<in> set (as_regions a). rend s m \<le> x \<or> x + sz \<le> rstart s m)))"
proof -
  obtain n s' where r: "memregion_map_internal s new p ADDR_ANYWHERE sz perm store ofs shared = Some (n, s')" "vm_inv s'"
    "mapped_first s new p a sz perm store ofs shared n s'" using map_internal_anywhere [OF assms, of perm store ofs shared] by blast
  have ap: "\<forall>m \<in> set (as_regions a). rend s m \<le> x \<or> x + sz \<le> rstart s m" if "first_gap s a sz x" for x
    using gap_apart [OF _ sz] that by (auto simp: first_gap_def)
  show ?thesis
  proof (cases "new = NULL \<or> is_kern_memperm perm \<or> (\<forall>x. \<not> gap s a sz x) \<or> (\<exists>x. first_gap s a sz x \<and> \<not> is_user_addr (x + pg_round_up sz - 1))")
    case True
    then show ?thesis using r unfolding as_map_memregion_def mapped_first_def if_P [OF True] by blast
  next
    case False
    then show ?thesis using r ap unfolding as_map_memregion_def mapped_first_def if_not_P [OF False] by blast
  qed
qed

text \<open>The first gap of four pages in the small space is behind its regions; the one page between them is too small.\<close>

lemma small_first_gap: "first_gap small_vm \<lparr>as_regions = [10, 11], as_vpmap = Some 1, as_heap = 10\<rparr> 0x4000 0x6000"
proof -
  let ?a = "\<lparr>as_regions = [10, 11], as_vpmap = Some 1, as_heap = 10 :: ptr\<rparr>"
  have p: "spaces small_vm 100 = Some ?a" "unat (0x4000 :: u64) \<le> 2 ^ 38" by (simp_all add: small_vm_def)
  have u: "user_space small_vm 100 ?a" by (simp add: user_space_def small_vm_def small_region_def USTACK_UPPERBOUND_def)
  have "as_inv small_vm 100 ?a" using small_vm_inv p(1) by (simp add: vm_inv_def)
  moreover have "find_free_vaddr small_vm 100 0x4000 = Some (Some 0x6000)"
    by (simp add: find_free_vaddr_def small_vm_def small_region_def pg_round_up_def pg_size_def USTACK_LOWERBOUND_def USTACK_UPPERBOUND_def)
  ultimately show ?thesis using find_free_vaddr_ok [OF p(1) _ u p(2)] by auto
qed

lemma as_map_memregion_anywhere_witness:
  "\<exists>s'. as_map_memregion small_vm 12 100 ADDR_ANYWHERE 0x4000 MEMPERM_URW NULL 0 False = Some (12, s') \<and> vm_inv s'
    \<and> mapped_at small_vm 100 \<lparr>as_regions = [10, 11], as_vpmap = Some 1, as_heap = 10\<rparr> 12 (new_region 100 0x6000 0x4000 MEMPERM_URW NULL 0 False) s'"
proof -
  let ?a = "\<lparr>as_regions = [10, 11], as_vpmap = Some 1, as_heap = 10 :: ptr\<rparr>"
  have p: "spaces small_vm 100 = Some ?a" "(12 :: ptr) = NULL \<or> regs small_vm 12 = None" "unat (0x4000 :: u64) \<le> 2 ^ 38"
    by (simp_all add: small_vm_def)
  have u: "user_space small_vm 100 ?a"
    by (simp add: user_space_def small_vm_def small_region_def USTACK_UPPERBOUND_def)
  have g: "first_gap small_vm ?a 0x4000 x \<longleftrightarrow> x = 0x6000" for x using small_first_gap first_gap_unique by metis
  have "(\<forall>x. \<not> gap small_vm ?a 0x4000 x) = False" using small_first_gap unfolding first_gap_def by blast
  moreover have "is_user_addr (0x6000 + pg_round_up 0x4000 - 1)" "\<not> is_kern_memperm MEMPERM_URW"
    by (simp_all add: is_user_addr_def is_kern_memperm_def kvm_base_def pg_round_up_def pg_size_def)
  ultimately show ?thesis
    using as_map_memregion_anywhere [OF small_vm_inv p(1,2) u p(3), of MEMPERM_URW NULL 0 False] unfolding g by (simp only: simp_thms if_False) auto
qed

text \<open>memregion_extend does not detect an overlap with a region that begins behind the current end:
  it asks for one region that contains the whole extension.  Whenever the extension reaches past
  the start of a later region it still answers ERR_OK, moves the end, and the space then has two
  overlapping regions.\<close>

theorem memregion_extend_overlap:
  assumes inv: "vm_inv s" and r: "regs s n = Some r" "spaces s (mr_as r) = Some a"
    and m: "n \<in> set (as_regions a)" "q \<in> set (as_regions a)" "\<forall>k \<in> set (as_regions a). pg_aligned (rstart s k)"
    and sz: "sint sz > 0" "mr_end r < rstart s q" "rstart s q < mr_end r + scast sz"
  shows "\<exists>s'. memregion_extend s n sz = Some (ERR_OK, Some (mr_end r), s')
    \<and> regs s' n = Some (r\<lparr>mr_end := mr_end r + scast sz\<rparr>) \<and> regs s' q = regs s q \<and> \<not> vm_inv s'"
proof -
  let ?p = "mr_as r" and ?e = "mr_end r + scast sz"
  let ?s = "set_reg n (r\<lparr>mr_end := ?e\<rparr>) s"
  have i: "as_inv s ?p a" using inv r by (simp add: vm_inv_def)
  have q: "rstart s q \<le> rend s q" "mr_start r \<le> mr_end r" "n \<noteq> NULL"
    using as_invD(2,3) [OF i] m r by (fastforce, fastforce, metis)
  then have qn: "q \<noteq> n" using sz(2) r(1) by auto
  have none: "\<not> (mr_end r \<ge> rstart s k \<and> ?e \<le> pg_round_up (rend s k))" if k: "k \<in> set (as_regions a)" for k
  proof
    assume h: "mr_end r \<ge> rstart s k \<and> ?e \<le> pg_round_up (rend s k)"
    then have "k \<noteq> q" using sz(2) by auto
    from as_inv_disjoint [OF i k m(2) this] have "rend s k \<le> rstart s q" using h sz(2) q(1) by fastforce
    then have u: "unat (rend s k) \<le> unat (rstart s q)" by (simp add: word_le_nat_alt)
    obtain c where c: "unat (rstart s q) = 4096 * c" using m(2,3) unfolding pg_aligned_iff by blast
    have "unat (rstart s q) < 2 ^ LENGTH(64)" by (rule unsigned_less)
    then have b: "unat (rend s k) \<le> 2 ^ 64 - 4096" using u c by simp
    have "unat (pg_round_up (rend s k)) \<le> unat (rstart s q)" unfolding unat_pg_round_up [OF b] c using u c by simp
    then show False using h sz(3) by (simp add: word_le_nat_alt word_less_nat_alt)
  qed
  obtain k where "as_find_memregion s ?p (mr_end r) (scast sz) = Some k" "k = NULL"
    using scan_as [OF i, of "\<lambda>x. mr_end r \<ge> mr_start x \<and> ?e \<le> pg_round_up (mr_end x)"] none r(2)
    by (auto simp: as_find_memregion_def split: if_splits)
  then have e: "memregion_extend s n sz = Some (ERR_OK, Some (mr_end r), ?s)"
    using q(3) r sz(1) by (auto simp: memregion_extend_def)
  have "\<not> as_inv ?s ?p a"
  proof
    assume "as_inv ?s ?p a"
    from as_inv_disjoint [OF this m(1,2)] have "?e \<le> rstart s q \<or> rend s q \<le> mr_start r"
      using qn by (simp add: set_reg_def)
    then show False using sz(2,3) q(1,2) by (meson le_less_trans less_le_trans not_less_iff_gr_or_eq order_trans leD)
  qed
  then have "\<not> vm_inv ?s" using r(2) by (auto simp: vm_inv_def set_reg_def)
  then show ?thesis using e qn by (auto simp: set_reg_def)
qed

lemma memregion_extend_overlap_witness:
  "\<exists>s'. memregion_extend small_vm 10 0x2800 = Some (ERR_OK, Some 0x3000, s')
    \<and> regs s' 10 = Some (small_region 0x1000 0x5800) \<and> regs s' 11 = Some (small_region 0x5000 0x6000) \<and> \<not> vm_inv s'"
proof -
  let ?r = "small_region 0x1000 0x3000"
  have r: "regs small_vm 10 = Some ?r"
    "spaces small_vm (mr_as ?r) = Some \<lparr>as_regions = [10, 11], as_vpmap = Some 1, as_heap = 10\<rparr>"
    "regs small_vm 11 = Some (small_region 0x5000 0x6000)"
    by (simp_all add: small_vm_def small_region_def)
  show ?thesis
    using memregion_extend_overlap [OF small_vm_inv r(1,2), of 11 "0x2800"] r(3)
    by (simp add: r small_region_def pg_aligned_def pg_size_def)
qed

text \<open>Unmapping a region, when its pages can be unmapped, removes exactly that region from its space
  and frees its structure; the region lists of all spaces stay sorted and disjoint.\<close>

theorem memregion_unmap_removes:
  assumes inv: "vm_inv s" and r: "regs s n = Some r" "spaces s (mr_as r) = Some a"
    and v: "vpmap_unmap (vs s) (as_vpmap a) (mr_start r) (pg_round_up (mr_end r - mr_start r) div pg_size) = Some v"
    and c: "cur_as s = NULL \<or> (\<exists>b t. spaces s (cur_as s) = Some b \<and> as_vpmap b = Some t)"
  shows "\<exists>s' a'. memregion_unmap s n = Some s' \<and> vm_inv s' \<and> regs s' = (regs s)(n := None)
    \<and> spaces s' = (spaces s)(mr_as r := Some a') \<and> set (as_regions a') = set (as_regions a) - {n}
    \<and> as_vpmap a' = as_vpmap a"
  unfolding memregion_unmap_def by (rule unmap_internal_ok [OF assms])

lemma memregion_unmap_removes_witness:
  "\<exists>s' a'. memregion_unmap small_vm 10 = Some s' \<and> vm_inv s' \<and> regs s' 10 = None
    \<and> spaces s' 100 = Some a' \<and> set (as_regions a') = {11}"
proof -
  let ?r = "small_region 0x1000 0x3000" and ?a = "\<lparr>as_regions = [10, 11], as_vpmap = Some 1, as_heap = 10 :: ptr\<rparr>"
  have r: "regs small_vm 10 = Some ?r" "spaces small_vm (mr_as ?r) = Some ?a" "vs small_vm = small_vps"
    by (simp_all add: small_vm_def small_region_def)
  have n: "pg_round_up (mr_end ?r - mr_start ?r) div pg_size = 2" "mr_start ?r = 0x1000" "as_vpmap ?a = Some 1"
    by (simp_all add: small_region_def pg_round_up_def pg_size_def)
  have i: "PML4X 0x1000 = 0" "PDPTX 0x1000 = 0" "PDX 0x1000 = 0" "PTX 0x1000 = 1"
    by (simp_all add: PML4X_def PDPTX_def PDX_def PTX_def ENTRY_IDX_eq)
  then obtain v where v: "vpmap_unmap small_vps (Some 1) 0x1000 2 = Some v"
    using small_unmap [of "0x1000" 2] by (auto simp: vpath_def)
  have c: "cur_as small_vm = NULL \<or> (\<exists>b t. spaces small_vm (cur_as small_vm) = Some b \<and> as_vpmap b = Some t)"
    by (simp add: small_vm_def)
  show ?thesis
    using memregion_unmap_removes [OF small_vm_inv r(1,2) _ c, unfolded n(1) r(3), unfolded n(2,3), OF v] by (auto simp: small_region_def)
qed

end
