(* ===== verification/Radix.thy ===== *)
theory Radix
  imports Prelude
begin

text \<open>
  The radix tree of \<^verbatim>\<open>kernel/radix_tree.c\<close>, which the page cache uses.  Nodes live at addresses in a
  heap shared by all trees; a slot holds an untyped pointer, a node above the leaf level and a
  leaf at level zero.  The addresses the slab allocator hands out are a list argument, consumed from
  the front, \<open>NULL\<close> or the end of the list being a failed allocation.  Heights are at most five: with
  six levels the shift in \<open>radix_tree_max_index\<close> exceeds an int, which is undefined, and the model
  stops there.  The lemmas show that lookup, insertion and removal implement a finite map for
  every index of the tree, and what removal does with an index beyond it.
\<close>

section \<open>Data\<close>

record radix_tree_root =
  height :: nat
  root_node :: ptr

record radix_tree_node =
  node_count :: int
  node_parent :: ptr
  slots :: "nat \<Rightarrow> ptr"

type_synonym rheap = "ptr \<Rightarrow> radix_tree_node option"

abbreviation (input) RADIX_TREE_WIDTH_POWER :: nat where "RADIX_TREE_WIDTH_POWER \<equiv> 6"
abbreviation (input) RADIX_TREE_WIDTH :: int where "RADIX_TREE_WIDTH \<equiv> 64"
abbreviation (input) ERR_RADIX_TREE_ALLOC :: err_t where "ERR_RADIX_TREE_ALLOC \<equiv> 1"
abbreviation (input) ERR_RADIX_TREE_NODE_EXIST :: err_t where "ERR_RADIX_TREE_NODE_EXIST \<equiv> 2"

section \<open>Operations\<close>

definition radix_tree_node_create :: "rheap \<Rightarrow> ptr list \<Rightarrow> ptr \<times> rheap \<times> ptr list" where
  "radix_tree_node_create h news =
     (case news of
        [] \<Rightarrow> (NULL, h, [])
      | n # ns \<Rightarrow>
          if n = NULL then (NULL, h, ns)
          else (n, h(n \<mapsto> \<lparr>node_count = 0, node_parent = NULL, slots = (\<lambda>_. NULL)\<rparr>), ns))"

definition radix_tree_max_index :: "radix_tree_root \<Rightarrow> int exec" where
  "radix_tree_max_index root =
     (if height root = 0 then Some (-1)
      else if RADIX_TREE_WIDTH_POWER * height root \<ge> 31 then None
      else Some (push_bit (RADIX_TREE_WIDTH_POWER * height root) 1 - 1))"

definition radix_tree_level_index :: "int \<Rightarrow> nat \<Rightarrow> nat" where
  "radix_tree_level_index index level =
     nat (drop_bit (level * RADIX_TREE_WIDTH_POWER) index AND (push_bit RADIX_TREE_WIDTH_POWER 1 - 1))"

definition radix_tree_add_child :: "rheap \<Rightarrow> ptr \<Rightarrow> nat \<Rightarrow> ptr \<Rightarrow> bool \<Rightarrow> (err_t \<times> rheap) exec" where
  "radix_tree_add_child h node index child is_node = do {
     kassert (node \<noteq> NULL);
     kassert (child \<noteq> NULL);
     nd \<leftarrow> h node;
     if slots nd index \<noteq> NULL then Some (ERR_RADIX_TREE_NODE_EXIST, h)
     else do {
       let nd = nd\<lparr>slots := (slots nd)(index := child), node_count := node_count nd + 1\<rparr>;
       kassert (node_count nd \<le> RADIX_TREE_WIDTH);
       let h = h(node \<mapsto> nd);
       h \<leftarrow> (if is_node then do { c \<leftarrow> h child; Some (h(child \<mapsto> c\<lparr>node_parent := node\<rparr>)) } else Some h);
       Some (ERR_OK, h) } }"

text \<open>The first argument is the loop variable \<open>level\<close>.\<close>

fun find_parent_loop :: "nat \<Rightarrow> rheap \<Rightarrow> ptr list \<Rightarrow> ptr \<Rightarrow> int \<Rightarrow> bool \<Rightarrow> (ptr \<times> rheap \<times> ptr list) exec" where
  "find_parent_loop 0 h news node index alloc = Some (node, h, news)"
| "find_parent_loop (Suc l) h news node index alloc =
     (if node = NULL then Some (NULL, h, news)
      else do {
        nd \<leftarrow> h node;
        let level_index = radix_tree_level_index index (Suc l);
        let child = slots nd level_index;
        if child = NULL \<and> alloc then
          (case radix_tree_node_create h news of (child, h, news) \<Rightarrow>
             if child = NULL then Some (NULL, h, news)
             else do {
               (_, h) \<leftarrow> radix_tree_add_child h node level_index child True;
               find_parent_loop l h news child index alloc })
        else find_parent_loop l h news child index alloc })"

definition radix_tree_find_parent :: "rheap \<Rightarrow> ptr list \<Rightarrow> radix_tree_root \<Rightarrow> int \<Rightarrow> bool \<Rightarrow> (ptr \<times> rheap \<times> ptr list) exec" where
  "radix_tree_find_parent h news root index alloc =
     find_parent_loop (height root - 1) h news (root_node root) index alloc"

definition radix_tree_add_level :: "rheap \<Rightarrow> ptr list \<Rightarrow> radix_tree_root \<Rightarrow> (err_t \<times> rheap \<times> ptr list \<times> radix_tree_root) exec" where
  "radix_tree_add_level h news root =
     (case radix_tree_node_create h news of (node, h, news) \<Rightarrow>
        if node = NULL then Some (ERR_RADIX_TREE_ALLOC, h, news, root)
        else do {
          (_, h) \<leftarrow> (if root_node root \<noteq> NULL then radix_tree_add_child h node 0 (root_node root) True
                     else Some (ERR_OK, h));
          Some (ERR_OK, h, news, root\<lparr>root_node := node, height := height root + 1\<rparr>) })"

definition radix_tree_construct :: radix_tree_root where
  "radix_tree_construct = \<lparr>height = 0, root_node = NULL\<rparr>"

definition radix_tree_destroy :: "radix_tree_root \<Rightarrow> radix_tree_root" where
  "radix_tree_destroy root = root\<lparr>root_node := NULL, height := 0\<rparr>"

definition radix_tree_empty :: "radix_tree_root \<Rightarrow> bool" where
  "radix_tree_empty root \<longleftrightarrow> height root = 0"

definition radix_tree_lookup :: "rheap \<Rightarrow> radix_tree_root \<Rightarrow> int \<Rightarrow> ptr exec" where
  "radix_tree_lookup h root index = do {
     m \<leftarrow> radix_tree_max_index root;
     if index > m then Some NULL
     else do {
       (node, _, _) \<leftarrow> radix_tree_find_parent h [] root index False;
       if node = NULL then Some NULL
       else do { nd \<leftarrow> h node; Some (slots nd (radix_tree_level_index index 0)) } } }"

text \<open>The loop that adds levels until the index fits.\<close>

partial_function (option) grow :: "rheap \<Rightarrow> ptr list \<Rightarrow> radix_tree_root \<Rightarrow> int \<Rightarrow> (err_t \<times> rheap \<times> ptr list \<times> radix_tree_root) exec" where
  "grow h news root index = do {
     m \<leftarrow> radix_tree_max_index root;
     if index > m then do {
       (err, h, news, root) \<leftarrow> radix_tree_add_level h news root;
       if err \<noteq> ERR_OK then Some (ERR_RADIX_TREE_ALLOC, h, news, root)
       else grow h news root index }
     else Some (ERR_OK, h, news, root) }"

definition radix_tree_insert ::
  "rheap \<Rightarrow> ptr list \<Rightarrow> radix_tree_root \<Rightarrow> int \<Rightarrow> ptr \<Rightarrow> (err_t \<times> rheap \<times> ptr list \<times> radix_tree_root) exec" where
  "radix_tree_insert h news root index leaf = do {
     kassert (leaf \<noteq> NULL);
     (err, h, news, root) \<leftarrow> grow h news root index;
     if err \<noteq> ERR_OK then Some (ERR_RADIX_TREE_ALLOC, h, news, root)
     else do {
       (node, h, news) \<leftarrow> radix_tree_find_parent h news root index True;
       if node = NULL then Some (ERR_RADIX_TREE_ALLOC, h, news, root)
       else do {
         (err, h) \<leftarrow> radix_tree_add_child h node (radix_tree_level_index index 0) leaf False;
         Some (if err \<noteq> ERR_OK then ERR_RADIX_TREE_NODE_EXIST else ERR_OK, h, news, root) } } }"

text \<open>The loop of removal, over the levels left: \<open>None\<close> after an early return, else the node it ends with.\<close>

fun remove_loop :: "nat \<Rightarrow> rheap \<Rightarrow> ptr \<Rightarrow> int \<Rightarrow> nat \<Rightarrow> (rheap \<times> ptr option) exec" where
  "remove_loop 0 h node index level = Some (h, Some node)"
| "remove_loop (Suc k) h node index level = do {
     let level_index = radix_tree_level_index index level;
     kassert (node \<noteq> NULL);
     nd \<leftarrow> h node;
     kassert (slots nd level_index \<noteq> NULL);
     kassert (node_count nd > 0);
     let nd = nd\<lparr>node_count := node_count nd - 1, slots := (slots nd)(level_index := NULL)\<rparr>;
     if node_count nd = 0 then remove_loop k (h(node := None)) (node_parent nd) index (level + 1)
     else Some (h(node \<mapsto> nd), None) }"

definition radix_tree_remove :: "rheap \<Rightarrow> radix_tree_root \<Rightarrow> int \<Rightarrow> (ptr \<times> rheap \<times> radix_tree_root) exec" where
  "radix_tree_remove h root index = do {
     (node, _, _) \<leftarrow> radix_tree_find_parent h [] root index False;
     if node = NULL then Some (NULL, h, root)
     else do {
       nd \<leftarrow> h node;
       let leaf = slots nd (radix_tree_level_index index 0);
       if leaf = NULL then Some (NULL, h, root)
       else do {
         (h, r) \<leftarrow> remove_loop (height root) h node index 0;
         case r of
           None \<Rightarrow> Some (leaf, h, root)
         | Some node \<Rightarrow> do {
             kassert (node = NULL);
             Some (leaf, h, root\<lparr>root_node := NULL, height := 0\<rparr>) } } } }"

section \<open>Well-formed trees\<close>

text \<open>\<open>nd_at l k\<close> is the node at level \<open>l\<close> whose indices \<open>i\<close> have \<open>i div 64 ^ (l + 1) = k\<close>, \<open>NULL\<close> if there is none.\<close>

type_synonym tree_shape = "nat \<Rightarrow> nat \<Rightarrow> ptr"

abbreviation nslots :: "rheap \<Rightarrow> ptr \<Rightarrow> nat \<Rightarrow> ptr" where "nslots h n \<equiv> slots (the (h n))"

definition in_use :: "(nat \<Rightarrow> ptr) \<Rightarrow> nat set" where
  "in_use f = {i. f i \<noteq> NULL}"

definition rnode_ok :: "radix_tree_node \<Rightarrow> bool" where
  "rnode_ok nd \<longleftrightarrow> in_use (slots nd) \<subseteq> {..<64} \<and> node_count nd = int (card (in_use (slots nd)))"

definition rt_inv :: "tree_shape \<Rightarrow> rheap \<Rightarrow> radix_tree_root \<Rightarrow> bool" where
  "rt_inv nd_at h root \<longleftrightarrow>
     height root \<le> 5 \<and> (root_node root = NULL \<longleftrightarrow> height root = 0)
     \<and> (\<forall>l k. height root \<le> l \<longrightarrow> nd_at l k = NULL)
     \<and> (\<forall>l k. Suc l = height root \<longrightarrow> nd_at l k = (if k = 0 then root_node root else NULL))
     \<and> (\<forall>l k. Suc l < height root \<longrightarrow> nd_at l k =
          (if nd_at (Suc l) (k div 64) = NULL then NULL else nslots h (nd_at (Suc l) (k div 64)) (k mod 64)))
     \<and> (\<forall>l k. nd_at l k \<noteq> NULL \<longrightarrow> (\<exists>nd. h (nd_at l k) = Some nd \<and> rnode_ok nd \<and> node_parent nd = nd_at (Suc l) (k div 64)))
     \<and> (\<forall>l k l' k'. nd_at l k \<noteq> NULL \<longrightarrow> nd_at l k = nd_at l' k' \<longrightarrow> l = l' \<and> k = k')"

definition rval :: "tree_shape \<Rightarrow> rheap \<Rightarrow> nat \<Rightarrow> ptr" where
  "rval nd_at h i = (if nd_at 0 (i div 64) = NULL then NULL else nslots h (nd_at 0 (i div 64)) (i mod 64))"

lemma rt_invD:
  assumes "rt_inv a h root"
  shows "height root \<le> 5" "root_node root = NULL \<longleftrightarrow> height root = 0"
    "height root \<le> l \<Longrightarrow> a l k = NULL"
    "Suc l = height root \<Longrightarrow> a l k = (if k = 0 then root_node root else NULL)"
    "Suc l < height root \<Longrightarrow> a l k = (if a (Suc l) (k div 64) = NULL then NULL else nslots h (a (Suc l) (k div 64)) (k mod 64))"
    "a l k \<noteq> NULL \<Longrightarrow> \<exists>nd. h (a l k) = Some nd \<and> rnode_ok nd \<and> node_parent nd = a (Suc l) (k div 64)"
    "a l k \<noteq> NULL \<Longrightarrow> a l k = a l' k' \<Longrightarrow> l = l' \<and> k = k'"
  using assms unfolding rt_inv_def by blast+

lemma level_index_nat [simp]: "radix_tree_level_index (int i) l = i div 64 ^ l mod 64"
proof -
  have "drop_bit (l * 6) (int i) = int (i div 64 ^ l)"
    by (simp add: drop_bit_eq_div zdiv_int power_mult mult.commute [of l])
  moreover have "int m AND 63 = int (m mod 64)" for m
    using take_bit_eq_mask [of 6 "int m"] by (simp add: mask_eq_exp_minus_1 take_bit_eq_mod zmod_int)
  ultimately show ?thesis by (simp add: radix_tree_level_index_def push_bit_eq_mult)
qed

lemma div_div_64: "i div 64 ^ l div 64 = i div (64 :: nat) ^ Suc l"
  by (metis div_mult2_eq power_Suc2)

lemma max_index_ok:
  "height root \<le> 5 \<Longrightarrow> radix_tree_max_index root = Some (if height root = 0 then -1 else int (64 ^ height root) - 1)"
  by (auto simp: radix_tree_max_index_def push_bit_eq_mult power_mult)

lemma shape_bound:
  assumes inv: "rt_inv a h root" and "64 ^ height root \<le> k * 64 ^ Suc l"
  shows "a l k = NULL"
  using assms(2)
proof (induction "height root - l" arbitrary: l k)
  case 0
  then show ?case using rt_invD(3) [OF inv] by simp
next
  case (Suc d)
  show ?case
  proof (cases "Suc l = height root")
    case True
    then have "k \<noteq> 0" using Suc.prems by (auto simp: not_le)
    then show ?thesis using rt_invD(4) [OF inv True] by simp
  next
    case False
    with Suc.hyps(2) have l: "Suc l < height root" "d = height root - Suc l" by auto
    then obtain e where e: "height root = Suc (Suc l) + e" using less_iff_Suc_add by auto
    have "64 ^ e * 64 ^ Suc (Suc l) \<le> k * 64 ^ Suc l" using Suc.prems e by (simp add: power_add algebra_simps)
    then have "64 ^ e * 64 \<le> k" by (simp add: algebra_simps)
    then have "64 ^ e \<le> k div 64" by (simp add: less_eq_div_iff_mult_less_eq)
    then have "64 ^ e * 64 ^ Suc (Suc l) \<le> k div 64 * 64 ^ Suc (Suc l)" by (rule mult_right_mono) simp
    then have "64 ^ height root \<le> k div 64 * 64 ^ Suc (Suc l)" by (simp add: e power_add algebra_simps)
    then have "a (Suc l) (k div 64) = NULL" by (rule Suc.hyps(1) [OF l(2)])
    then show ?thesis using rt_invD(5) [OF inv l(1), of k] by simp
  qed
qed

subsection \<open>Lookup\<close>

lemma find_parent_walk:
  assumes inv: "rt_inv a h root" and "l < height root"
  shows "find_parent_loop l h news (a l (i div 64 ^ Suc l)) (int i) False = Some (a 0 (i div 64), h, news)"
  using assms(2)
proof (induction l)
  case (Suc l)
  let ?n = "a (Suc l) (i div 64 ^ Suc (Suc l))"
  have k: "i div 64 ^ Suc l div 64 = i div 64 ^ Suc (Suc l)" by (rule div_div_64)
  have c: "a l (i div 64 ^ Suc l) = (if ?n = NULL then NULL else nslots h ?n (i div 64 ^ Suc l mod 64))"
    using rt_invD(5) [OF inv Suc.prems, of "i div 64 ^ Suc l"] unfolding k .
  have IH: "find_parent_loop l h news (a l (i div 64 ^ Suc l)) (int i) False = Some (a 0 (i div 64), h, news)"
    using Suc by simp
  show ?case
  proof (cases "?n = NULL")
    case True
    then have "a l (i div 64 ^ Suc l) = NULL" using c by simp
    then have "a 0 (i div 64) = NULL" using IH by (cases l) auto
    then show ?thesis using True by simp
  next
    case False
    obtain nd where nd: "h ?n = Some nd" using rt_invD(6) [OF inv False] by blast
    have "slots nd (i div 64 ^ Suc l mod 64) = a l (i div 64 ^ Suc l)" using False c nd by simp
    then show ?thesis using False nd IH by (simp del: power_Suc)
  qed
qed simp

lemma root_in_shape:
  assumes "rt_inv a h root" "i < 64 ^ height root" "0 < height root"
  shows "root_node root = a (height root - 1) (i div 64 ^ height root)"
  using rt_invD(4) [OF assms(1), of "height root - 1" 0] assms by simp

lemma find_parent_ok:
  assumes inv: "rt_inv a h root" and i: "i < 64 ^ height root"
  shows "radix_tree_find_parent h news root (int i) False = Some (a 0 (i div 64), h, news)"
proof (cases "height root")
  case 0
  then show ?thesis using rt_invD(2,3) [OF inv] by (simp add: radix_tree_find_parent_def)
next
  case (Suc l)
  then show ?thesis using find_parent_walk [OF inv, of l news i] root_in_shape [OF inv i]
    by (simp add: radix_tree_find_parent_def)
qed

lemma lookup_rval:
  assumes inv: "rt_inv a h root"
  shows "radix_tree_lookup h root (int i) = Some (rval a h i)"
proof -
  note m = max_index_ok [OF rt_invD(1) [OF inv]]
  consider "height root = 0" | "0 < height root" "i < 64 ^ height root" | "0 < height root" "64 ^ height root \<le> i" by linarith
  then show ?thesis
  proof cases
    case 1
    then show ?thesis using m rt_invD(3) [OF inv] by (simp add: radix_tree_lookup_def rval_def)
  next
    case 2
    have "\<not> int i > int (64 ^ height root) - 1" using 2(2) by linarith
    moreover have "\<exists>nd. h (a 0 (i div 64)) = Some nd" if "a 0 (i div 64) \<noteq> NULL" using rt_invD(6) [OF inv that] by blast
    ultimately show ?thesis
      using find_parent_ok [OF inv 2(2), of "[]"] 2(1) unfolding radix_tree_lookup_def m rval_def by auto
  next
    case 3
    then obtain e where e: "height root = Suc e" by (cases "height root") auto
    with 3 have "64 ^ e \<le> i div 64" by (simp add: less_eq_div_iff_mult_less_eq mult.commute)
    then have "a 0 (i div 64) = NULL" using shape_bound [OF inv, of "i div 64" 0] e by (simp add: mult.commute)
    moreover have "int i > int (64 ^ height root) - 1" using 3(2) by linarith
    ultimately show ?thesis using 3(1) unfolding radix_tree_lookup_def m rval_def by simp
  qed
qed

subsection \<open>Changing nodes\<close>

lemma rt_invI:
  assumes "height root \<le> 5" "root_node root = NULL \<longleftrightarrow> height root = 0"
    "\<And>l k. height root \<le> l \<Longrightarrow> a l k = NULL"
    "\<And>l k. Suc l = height root \<Longrightarrow> a l k = (if k = 0 then root_node root else NULL)"
    "\<And>l k. Suc l < height root \<Longrightarrow>
       a l k = (if a (Suc l) (k div 64) = NULL then NULL else nslots h (a (Suc l) (k div 64)) (k mod 64))"
    "\<And>l k. a l k \<noteq> NULL \<Longrightarrow> \<exists>nd. h (a l k) = Some nd \<and> rnode_ok nd \<and> node_parent nd = a (Suc l) (k div 64)"
    "\<And>l k l' k'. a l k \<noteq> NULL \<Longrightarrow> a l k = a l' k' \<Longrightarrow> l = l' \<and> k = k'"
  shows "rt_inv a h root"
  using assms unfolding rt_inv_def by blast

lemma in_use_simps [simp]:
  "in_use (\<lambda>_. NULL) = {}" "c \<noteq> NULL \<Longrightarrow> in_use (f(j := c)) = insert j (in_use f)" "in_use (f(j := NULL)) = in_use f - {j}"
  "i \<in> in_use f \<longleftrightarrow> f i \<noteq> NULL"
  by (auto simp: in_use_def)

lemma in_use_empty: "in_use f = {} \<longleftrightarrow> f = (\<lambda>_. NULL)"
  by (auto simp: in_use_def)

lemma rnode_ok_finite: "rnode_ok nd \<Longrightarrow> finite (in_use (slots nd))"
  using finite_subset by (auto simp: rnode_ok_def)

lemma rnode_ok_empty [simp]: "rnode_ok \<lparr>node_count = 0, node_parent = p, slots = (\<lambda>_. NULL)\<rparr>"
  by (simp add: rnode_ok_def)

lemma rnode_ok_parent [simp]: "rnode_ok (nd\<lparr>node_parent := p\<rparr>) = rnode_ok nd"
  by (simp add: rnode_ok_def)

lemma rnode_ok_add:
  assumes "rnode_ok nd" "j < 64" "slots nd j = NULL" "c \<noteq> NULL"
  shows "rnode_ok (nd\<lparr>slots := (slots nd)(j := c), node_count := node_count nd + 1\<rparr>)" "node_count nd + 1 \<le> 64"
proof -
  let ?A = "in_use (slots nd)"
  have A: "finite ?A" "j \<notin> ?A" "insert j ?A \<subseteq> {..<64}"
    using assms rnode_ok_finite [OF assms(1)] by (auto simp: rnode_ok_def)
  have "card (insert j ?A) \<le> 64" using card_mono [OF _ A(3)] by simp
  then show "rnode_ok (nd\<lparr>slots := (slots nd)(j := c), node_count := node_count nd + 1\<rparr>)" "node_count nd + 1 \<le> 64"
    using A assms(1,4) by (simp_all add: rnode_ok_def)
qed

lemma rnode_ok_clear:
  assumes "rnode_ok nd" "slots nd j \<noteq> NULL"
  shows "rnode_ok (nd\<lparr>node_count := node_count nd - 1, slots := (slots nd)(j := NULL)\<rparr>)" "node_count nd > 0"
    "node_count nd = 1 \<Longrightarrow> (slots nd)(j := NULL) = (\<lambda>_. NULL)"
proof -
  let ?A = "in_use (slots nd)"
  have A: "finite ?A" "j \<in> ?A" using assms rnode_ok_finite by auto
  have p: "card ?A > 0" using A by (metis card_gt_0_iff empty_iff)
  then have c: "int (card (?A - {j})) = int (card ?A) - 1" using A by simp
  show "rnode_ok (nd\<lparr>node_count := node_count nd - 1, slots := (slots nd)(j := NULL)\<rparr>)" "node_count nd > 0"
    using c p assms(1) by (auto simp: rnode_ok_def)
  show "(slots nd)(j := NULL) = (\<lambda>_. NULL)" if "node_count nd = 1"
  proof -
    have "card (?A - {j}) = 0" using A that assms(1) by (simp add: rnode_ok_def)
    then have "in_use ((slots nd)(j := NULL)) = {}" using A(1) by simp
    then show ?thesis by (simp only: in_use_empty)
  qed
qed

lemma add_child_ok:
  assumes "node \<noteq> NULL" "child \<noteq> NULL" "h node = Some nd" "rnode_ok nd" "j < 64" "slots nd j = NULL"
    "is_node \<Longrightarrow> h child = Some c \<and> child \<noteq> node"
  shows "radix_tree_add_child h node j child is_node = Some (ERR_OK,
    if is_node then h(node \<mapsto> nd\<lparr>slots := (slots nd)(j := child), node_count := node_count nd + 1\<rparr>, child \<mapsto> c\<lparr>node_parent := node\<rparr>)
    else h(node \<mapsto> nd\<lparr>slots := (slots nd)(j := child), node_count := node_count nd + 1\<rparr>))"
  using assms rnode_ok_add(2) [OF assms(4,5,6,2)] by (auto simp: radix_tree_add_child_def)

lemma rt_inv_leaf:
  assumes inv: "rt_inv a h root" and n: "a 0 k \<noteq> NULL" "h (a 0 k) = Some nd"
    and nd': "rnode_ok nd'" "node_parent nd' = node_parent nd"
  shows "rt_inv a (h(a 0 k \<mapsto> nd')) root"
proof (rule rt_invI)
  show "a l j = (if a (Suc l) (j div 64) = NULL then NULL else nslots (h(a 0 k \<mapsto> nd')) (a (Suc l) (j div 64)) (j mod 64))"
    if "Suc l < height root" for l j
  proof -
    have "a (Suc l) (j div 64) \<noteq> a 0 k" using rt_invD(7) [OF inv n(1), of "Suc l" "j div 64"] by auto
    then show ?thesis using rt_invD(5) [OF inv that, of j] by simp
  qed
  show "\<exists>nd. (h(a 0 k \<mapsto> nd')) (a l j) = Some nd \<and> rnode_ok nd \<and> node_parent nd = a (Suc l) (j div 64)"
    if "a l j \<noteq> NULL" for l j
    using rt_invD(6) [OF inv that] rt_invD(7) [OF inv n(1), of l j] nd' n(2) by fastforce
qed (use rt_invD [OF inv] in blast)+

lemma rt_inv_add_level:
  assumes inv: "rt_inv a h root" and n: "n \<noteq> NULL" "h n = None" and "height root < 5"
  defines "a' \<equiv> a(height root := (\<lambda>k. if k = 0 then n else NULL))"
  shows "\<exists>h'. radix_tree_add_level h (n # ns) root = Some (ERR_OK, h', ns, root\<lparr>root_node := n, height := height root + 1\<rparr>)
    \<and> rt_inv a' h' (root\<lparr>root_node := n, height := height root + 1\<rparr>) \<and> rval a' h' = rval a h
    \<and> (\<forall>m. m \<noteq> n \<longrightarrow> ((\<forall>l k. a l k \<noteq> m) \<longrightarrow> h' m = h m) \<and> (h m = None \<longrightarrow> h' m = None))"
proof -
  let ?r = "root_node root"
  let ?H = "height root"
  have new: "a l k \<noteq> n" for l k
  proof
    assume eq: "a l k = n"
    then have "\<exists>nd. h n = Some nd" using rt_invD(6) [OF inv, of l k] n(1) by metis
    then show False using n(2) by simp
  qed
  have low: "a' l = a l" if "l < ?H" for l using that by (simp add: a'_def)
  have top: "a' ?H k = (if k = 0 then n else NULL)" for k by (simp add: a'_def)
  have high: "a' l k = NULL" if "Suc ?H \<le> l" for l k using that rt_invD(3) [OF inv, of l] by (simp add: a'_def)
  show ?thesis
  proof (cases "?r = NULL")
    case True
    let ?e = "\<lparr>node_count = 0, node_parent = NULL, slots = \<lambda>_. NULL\<rparr>"
    have H: "?H = 0" using True rt_invD(2) [OF inv] by simp
    have "radix_tree_add_level h (n # ns) root = Some (ERR_OK, h(n \<mapsto> ?e), ns, root\<lparr>root_node := n, height := height root + 1\<rparr>)"
      using True n by (simp add: radix_tree_add_level_def radix_tree_node_create_def)
    moreover have "rt_inv a' (h(n \<mapsto> ?e)) (root\<lparr>root_node := n, height := height root + 1\<rparr>)"
    proof (rule rt_invI)
      have c: "a' l k = (if l = 0 \<and> k = 0 then n else NULL)" for l k using H top high [of l] by (cases l) auto
      show "\<exists>nd. (h(n \<mapsto> ?e)) (a' l k) = Some nd \<and> rnode_ok nd \<and> node_parent nd = a' (Suc l) (k div 64)"
        if "a' l k \<noteq> NULL" for l k using that by (simp add: c split: if_splits)
      show "l = l' \<and> k = k'" if "a' l k \<noteq> NULL" "a' l k = a' l' k'" for l k l' k'
        using that by (simp add: c split: if_splits)
    qed (use H n top high in auto)
    moreover have "rval a' (h(n \<mapsto> ?e)) = rval a h"
      using H top rt_invD(3) [OF inv] by (auto simp: rval_def fun_eq_iff)
    ultimately show ?thesis by auto
  next
    case False
    have H: "0 < ?H" using False rt_invD(2) [OF inv] by simp
    then obtain H' where H': "?H = Suc H'" by (cases ?H) auto
    have r: "a H' 0 = ?r" "\<And>k. 0 < k \<Longrightarrow> a H' k = NULL" using rt_invD(4) [OF inv, of H'] H' by auto
    obtain rd where rd: "h ?r = Some rd" "rnode_ok rd" using rt_invD(6) [OF inv, of H' 0] r False by auto
    let ?e = "\<lparr>node_count = 1, node_parent = NULL, slots = (\<lambda>_. NULL)(0 := ?r)\<rparr>"
    let ?h = "h(n \<mapsto> ?e, ?r \<mapsto> rd\<lparr>node_parent := n\<rparr>)"
    have nr: "?r \<noteq> n" using rd n by auto
    have ne: "rnode_ok ?e" using False by (simp add: rnode_ok_def)
    have "radix_tree_add_level h (n # ns) root = Some (ERR_OK, ?h, ns, root\<lparr>root_node := n, height := height root + 1\<rparr>)"
      using n False rd nr by (simp add: radix_tree_add_level_def radix_tree_node_create_def
        add_child_ok [of n ?r _ "\<lparr>node_count = 0, node_parent = NULL, slots = \<lambda>_. NULL\<rparr>" 0 True rd])
    moreover have old: "nslots ?h (a l k) = nslots h (a l k)" for l k
      using new [of l k] rd by (cases "a l k = ?r") auto
    moreover have "rt_inv a' ?h (root\<lparr>root_node := n, height := height root + 1\<rparr>)"
    proof (rule rt_invI)
      show "a' l k = (if a' (Suc l) (k div 64) = NULL then NULL else nslots ?h (a' (Suc l) (k div 64)) (k mod 64))"
        if "Suc l < height (root\<lparr>root_node := n, height := height root + 1\<rparr>)" for l k
      proof (cases "Suc l = ?H")
        case True
        then have "l = H'" using H' by simp
        moreover have "k = 0 \<longleftrightarrow> k div 64 = 0 \<and> k mod 64 = 0" using div_mod_unique [of 0 64 k] by simp
        ultimately show ?thesis using True r(1) r(2) [of k] top n(1) nr low [of l] by (cases "k = 0") (simp_all split: if_splits)
      next
        case False
        then have l: "Suc l < ?H" using that by simp
        then show ?thesis using rt_invD(5) [OF inv l, of k] low [of l] low [of "Suc l"] old by simp
      qed
      show "\<exists>nd. ?h (a' l k) = Some nd \<and> rnode_ok nd \<and> node_parent nd = a' (Suc l) (k div 64)" if "a' l k \<noteq> NULL" for l k
      proof -
        have l: "l \<le> ?H" using that high [of l k] by (metis not_less_eq_eq)
        have "k = 0" if "l = ?H \<or> l = H'"
          using that \<open>a' l k \<noteq> NULL\<close> top [of k] r(2) [of k] low [of H'] H' by (auto split: if_splits)
        with l H' consider "l = ?H" "k = 0" | "l = H'" "k = 0" | "Suc l < ?H" by linarith
        then show ?thesis
        proof cases
          case 1
          then show ?thesis using top ne nr high by simp
        next
          case 2
          then show ?thesis using r rd low [of H'] H' top by simp
        next
          case 3
          then have "a l k \<noteq> ?r" using rt_invD(7) [OF inv, of H' 0 l k] r False H' by auto
          then show ?thesis using 3 rt_invD(6) [OF inv, of l k] that low [of l] low [of "Suc l"] new [of l k] by auto
        qed
      qed
      show "l = l' \<and> k = k'" if "a' l k \<noteq> NULL" "a' l k = a' l' k'" for l k l' k'
        using that rt_invD(7) [OF inv, of l k l' k'] new new [symmetric] unfolding a'_def by (auto split: if_splits)
    qed (use assms(4) n top high in \<open>auto simp: a'_def\<close>)
    moreover have "rval a' ?h = rval a h" using old low [OF H] by (simp add: rval_def fun_eq_iff)
    moreover have "((\<forall>l k. a l k \<noteq> m) \<longrightarrow> ?h m = h m) \<and> (h m = None \<longrightarrow> ?h m = None)" if "m \<noteq> n" for m
      using that r rd by auto
    ultimately show ?thesis by blast
  qed
qed

subsection \<open>Growing a tree\<close>

text \<open>Addresses handed out by the allocator are unused and handed out once.\<close>

definition fresh :: "rheap \<Rightarrow> ptr list \<Rightarrow> bool" where
  "fresh h news \<longleftrightarrow> (\<forall>n \<in> set news. n \<noteq> NULL \<longrightarrow> h n = None) \<and> distinct (filter (\<lambda>n. n \<noteq> NULL) news)"

definition nodes :: "tree_shape \<Rightarrow> ptr set" where
  "nodes a = {n. \<exists>l k. a l k = n}"

text \<open>From one state of the tree to a later one, with new nodes but the same leaves.\<close>

definition extends :: "tree_shape \<Rightarrow> rheap \<Rightarrow> ptr list \<Rightarrow> tree_shape \<Rightarrow> rheap \<Rightarrow> ptr list \<Rightarrow> bool" where
  "extends a h ns a' h' ns' \<longleftrightarrow> rval a' h' = rval a h \<and> fresh h' ns' \<and> set ns' \<subseteq> set ns \<and> nodes a' \<subseteq> nodes a \<union> set ns
     \<and> (\<forall>m. m \<notin> set ns \<longrightarrow> m \<notin> nodes a \<longrightarrow> h' m = h m)"

lemma extends_refl: "fresh h ns \<Longrightarrow> extends a h ns a h ns"
  by (simp add: extends_def)

lemma extends_trans:
  assumes 1: "extends a h ns a' h' ns'" and 2: "extends a' h' ns' a'' h'' ns''"
  shows "extends a h ns a'' h'' ns''"
proof -
  have "h'' m = h m" if "m \<notin> set ns" "m \<notin> nodes a" for m
  proof -
    have "m \<notin> set ns'" "m \<notin> nodes a'" "h' m = h m" using 1 that unfolding extends_def by blast+
    then show ?thesis using 2 by (simp add: extends_def)
  qed
  moreover have "nodes a'' \<subseteq> nodes a \<union> set ns" "set ns'' \<subseteq> set ns" using 1 2 unfolding extends_def by blast+
  ultimately show ?thesis using 1 2 by (simp add: extends_def)
qed

lemma extends_tl:
  assumes "fresh h (n # ns)" "extends a h ns a' h' ns'"
  shows "extends a h (n # ns) a' h' ns'"
  using assms unfolding extends_def by auto

lemma fresh_tl: "fresh h (n # ns) \<Longrightarrow> fresh h ns"
  by (auto simp: fresh_def split: if_splits)

lemma extends_fail: "fresh h ns \<Longrightarrow> extends a h ns a h (tl ns)"
  using extends_tl [OF _ extends_refl [OF fresh_tl]] extends_refl by (cases ns) auto

lemma fresh_new:
  assumes "fresh h (n # ns)" "n \<noteq> NULL" "\<And>m. m \<noteq> n \<Longrightarrow> h m = None \<Longrightarrow> h' m = None"
  shows "fresh h' ns"
proof -
  have "m \<noteq> n" if "m \<in> set ns" "m \<noteq> NULL" for m using assms(1,2) that by (auto simp: fresh_def)
  then have "h' m = None" if "m \<in> set ns" "m \<noteq> NULL" for m using assms(1,3) that by (simp add: fresh_def)
  moreover have "distinct (filter (\<lambda>n. n \<noteq> NULL) ns)" using assms(1,2) by (simp add: fresh_def)
  ultimately show ?thesis by (simp add: fresh_def)
qed

lemma extends_add:
  assumes "fresh h (n # ns)" "n \<noteq> NULL" "rval a' h' = rval a h" "nodes a' \<subseteq> insert n (nodes a)"
    "\<And>m. m \<noteq> n \<Longrightarrow> m \<notin> nodes a \<Longrightarrow> h' m = h m" "\<And>m. m \<noteq> n \<Longrightarrow> h m = None \<Longrightarrow> h' m = None"
  shows "extends a h (n # ns) a' h' ns"
  using assms fresh_new [OF assms(1,2,6)] unfolding extends_def by auto

lemma rt_inv_add_node:
  assumes inv: "rt_inv a h root" and l: "Suc l < height root" and p: "a (Suc l) (k div 64) = p" "p \<noteq> NULL" "h p = Some pd"
    and free: "a l k = NULL" and n: "n \<noteq> NULL" "h n = None"
  defines "a' \<equiv> a(l := (a l)(k := n))"
    and "h' \<equiv> h(p \<mapsto> pd\<lparr>slots := (slots pd)(k mod 64 := n), node_count := node_count pd + 1\<rparr>,
                n \<mapsto> \<lparr>node_count = 0, node_parent = p, slots = (\<lambda>_. NULL)\<rparr>)"
  shows "rt_inv a' h' root" "rval a' h' = rval a h" "rnode_ok pd" "slots pd (k mod 64) = NULL"
proof -
  have new: "a j i \<noteq> n" for j i using rt_invD(6) [OF inv, of j i] n by force
  have pn: "p \<noteq> n" using p new by auto
  show pd: "rnode_ok pd" "slots pd (k mod 64) = NULL"
    using rt_invD(6) [OF inv, of "Suc l" "k div 64"] rt_invD(5) [OF inv l, of k] p free by auto
  have a'_eq: "a' j i = (if j = l \<and> i = k then n else a j i)" for j i by (simp add: a'_def)
  have hp: "h' m = (if m = n then Some \<lparr>node_count = 0, node_parent = p, slots = (\<lambda>_. NULL)\<rparr>
    else if m = p then Some (pd\<lparr>slots := (slots pd)(k mod 64 := n), node_count := node_count pd + 1\<rparr>) else h m)" for m
    by (simp add: h'_def)
  have isp: "j = Suc l \<and> i = k div 64" if "a j i = p" for j i using rt_invD(7) [OF inv, of j i "Suc l" "k div 64"] that p by auto
  show "rt_inv a' h' root"
  proof (rule rt_invI)
    show "a' j i = (if a' (Suc j) (i div 64) = NULL then NULL else nslots h' (a' (Suc j) (i div 64)) (i mod 64))"
      if j: "Suc j < height root" for j i
    proof -
      note e = rt_invD(5) [OF inv j, of i]
      consider "j = l" "i = k" | "Suc j = l" "i div 64 = k" | "j = l" "i \<noteq> k" "i div 64 = k div 64"
        | "\<not> (Suc j = l \<and> i div 64 = k)" "\<not> (j = l \<and> i div 64 = k div 64)" by blast
      then show ?thesis
      proof cases
        case 3
        then have "i mod 64 \<noteq> k mod 64" by (metis div_mod_decomp)
        then show ?thesis using 3 e p pn by (simp add: a'_eq hp)
      next
        case 4
        then have "a (Suc j) (i div 64) \<noteq> p" using isp by auto
        have "\<not> (j = l \<and> i = k)" using 4 by auto
        then have "a' j i = a j i" "a' (Suc j) (i div 64) = a (Suc j) (i div 64)"
          using 4 unfolding a'_eq by (simp_all only: if_False)
        moreover note \<open>a (Suc j) (i div 64) \<noteq> p\<close>
        ultimately show ?thesis using e new by (simp add: hp)
      qed (use e p pn free in \<open>simp_all add: a'_eq hp\<close>)
    qed
    show "\<exists>nd. h' (a' j i) = Some nd \<and> rnode_ok nd \<and> node_parent nd = a' (Suc j) (i div 64)" if "a' j i \<noteq> NULL" for j i
    proof (cases "j = l \<and> i = k")
      case True
      then show ?thesis using p by (simp add: a'_eq hp)
    next
      case False
      then have "a j i \<noteq> NULL" using that by (auto simp: a'_eq split: if_splits)
      then obtain nd where nd: "h (a j i) = Some nd" "rnode_ok nd" "node_parent nd = a (Suc j) (i div 64)"
        using rt_invD(6) [OF inv] by blast
      have "\<not> (Suc j = l \<and> i div 64 = k)" using rt_invD(5) [OF inv, of j i] l free \<open>a j i \<noteq> NULL\<close> by auto
      then show ?thesis using False nd p new [of j i] rnode_ok_add(1) [OF pd(1) _ pd(2) n(1)]
        by (cases "a j i = p") (auto simp: a'_eq hp)
    qed
    show "j = j' \<and> i = i'" if "a' j i \<noteq> NULL" "a' j i = a' j' i'" for j i j' i'
      using that rt_invD(7) [OF inv, of j i j' i'] new new [symmetric] by (auto simp: a'_eq split: if_splits)
  qed (use rt_invD(1,2) [OF inv] rt_invD(3,4) [OF inv] l in \<open>auto simp: a'_eq\<close>)
  show "rval a' h' = rval a h"
  proof
    fix i
    have "a 0 (i div 64) \<noteq> p" using isp by auto
    then show "rval a' h' i = rval a h i" using new free by (auto simp: rval_def a'_eq hp)
  qed
qed

definition alloc_failed :: "ptr list \<Rightarrow> ptr list \<Rightarrow> bool" where
  "alloc_failed ns ns' \<longleftrightarrow> NULL \<in> set ns \<or> ns' = []"

lemma find_parent_alloc:
  assumes "rt_inv a h root" "l < height root" "fresh h ns" "a l (i div 64 ^ Suc l) \<noteq> NULL"
  shows "\<exists>n h' ns' a'. find_parent_loop l h ns (a l (i div 64 ^ Suc l)) (int i) True = Some (n, h', ns')
    \<and> rt_inv a' h' root \<and> extends a h ns a' h' ns' \<and> (if n = NULL then alloc_failed ns ns' else n = a' 0 (i div 64))"
  using assms
proof (induction l arbitrary: a h ns)
  case 0
  then show ?case using extends_refl by (intro exI [of _ "a 0 (i div 64)"] exI [of _ h] exI [of _ ns] exI [of _ a]) simp
next
  case (Suc l)
  note inv = Suc.prems(1)
  let ?k = "i div 64 ^ Suc l"
  let ?p = "a (Suc l) (i div 64 ^ Suc (Suc l))"
  have k: "?k div 64 = i div 64 ^ Suc (Suc l)" by (rule div_div_64)
  obtain pd where pd: "h ?p = Some pd" using rt_invD(6) [OF inv Suc.prems(4)] by blast
  have c: "slots pd (?k mod 64) = a l ?k" using rt_invD(5) [OF inv Suc.prems(2), of ?k] pd Suc.prems(4) unfolding k by simp
  have step: "find_parent_loop (Suc l) h ns ?p (int i) True = find_parent_loop l h ns (a l ?k) (int i) True" if "a l ?k \<noteq> NULL"
    using that pd c Suc.prems(4) by (simp del: power_Suc)
  show ?case
  proof (cases "a l ?k \<noteq> NULL")
    case True
    from Suc.IH [OF inv _ Suc.prems(3) True] Suc.prems(2) show ?thesis unfolding step [OF True] by simp
  next
    case free: False
    show ?thesis
    proof (cases "ns = [] \<or> hd ns = NULL")
      case True
      then have "find_parent_loop (Suc l) h ns ?p (int i) True = Some (NULL, h, tl ns)"
        using pd c free Suc.prems(4) by (auto simp: radix_tree_node_create_def split: list.splits simp del: power_Suc)
      moreover note extends_fail [OF Suc.prems(3)]
      moreover have "alloc_failed ns (tl ns)" using True by (cases ns) (auto simp: alloc_failed_def)
      ultimately show ?thesis using inv by (metis (lifting))
    next
      case False
      then obtain n ns' where ns: "ns = n # ns'" "n \<noteq> NULL" by (cases ns) auto
      have n: "h n = None" using Suc.prems(3) ns by (simp add: fresh_def)
      let ?a = "a(l := (a l)(?k := n))"
      let ?h = "h(?p \<mapsto> pd\<lparr>slots := (slots pd)(?k mod 64 := n), node_count := node_count pd + 1\<rparr>,
                n \<mapsto> \<lparr>node_count = 0, node_parent = ?p, slots = (\<lambda>_. NULL)\<rparr>)"
      note add = rt_inv_add_node [OF inv Suc.prems(2) arg_cong [OF k] Suc.prems(4) pd _ ns(2) n]
      have add: "rt_inv ?a ?h root" "rval ?a ?h = rval a h" "rnode_ok pd" using add free by auto
      have pn: "?p \<noteq> n" using pd n by auto
      let ?c = "\<lparr>node_count = 0, node_parent = NULL, slots = (\<lambda>_. NULL)\<rparr>"
      have "radix_tree_add_child (h(n \<mapsto> ?c)) ?p (?k mod 64) n True = Some (ERR_OK, ?h)"
        using add_child_ok [of ?p n "h(n \<mapsto> ?c)" pd "?k mod 64" True ?c] pd add(3) pn ns(2) c free Suc.prems(4)
        by (auto simp: fun_upd_twist)
      then have step: "find_parent_loop (Suc l) h ns ?p (int i) True = find_parent_loop l ?h ns' n (int i) True"
        using pd c free Suc.prems(4) ns by (simp add: radix_tree_node_create_def del: power_Suc)
      have e: "extends a h ns ?a ?h ns'" unfolding ns(1)
        by (rule extends_add) (use Suc.prems(3) ns add pd in \<open>auto simp: nodes_def\<close>)
      have g: "?a l ?k = n" by simp
      have f: "l < height root" "fresh ?h ns'" "?a l ?k \<noteq> NULL" using Suc.prems(2) e ns(2) by (simp_all add: extends_def)
      obtain m h' ns'' a' where
        r: "find_parent_loop l ?h ns' n (int i) True = Some (m, h', ns'')" "rt_inv a' h' root" "extends ?a ?h ns' a' h' ns''"
          "if m = NULL then alloc_failed ns' ns'' else m = a' 0 (i div 64)"
        using Suc.IH [OF add(1) f] unfolding g by blast
      have "if m = NULL then alloc_failed ns ns'' else m = a' 0 (i div 64)"
        using r(4) ns by (auto simp: alloc_failed_def split: if_splits)
      then show ?thesis using r step extends_trans [OF e r(3)] by (metis (lifting))
    qed
  qed
qed

lemma grow_ok:
  assumes "rt_inv a h root" "fresh h ns" "i < 64 ^ 5"
  shows "\<exists>err h' ns' root' a'. grow h ns root (int i) = Some (err, h', ns', root') \<and> rt_inv a' h' root'
    \<and> extends a h ns a' h' ns' \<and> (err = ERR_OK \<and> i < 64 ^ height root' \<and> 0 < height root' \<or> err = ERR_RADIX_TREE_ALLOC \<and> alloc_failed ns ns')"
  using assms
proof (induction "5 - height root" arbitrary: a h ns root)
  case 0
  then have H: "height root = 5" using rt_invD(1) [OF 0(2)] by simp
  then have "grow h ns root (int i) = Some (ERR_OK, h, ns, root)"
    using 0(4) max_index_ok [of root] by (subst grow.simps) simp
  then show ?case using 0 H extends_refl [OF 0(3)] by (intro exI [of _ ERR_OK] exI [of _ h] exI [of _ ns] exI [of _ root] exI [of _ a]) simp
next
  case (Suc d)
  note inv = Suc.prems(1)
  note m = max_index_ok [OF rt_invD(1) [OF inv]]
  show ?case
  proof (cases "i < 64 ^ height root \<and> 0 < height root")
    case True
    then have "\<not> int i > int (64 ^ height root) - 1" by linarith
    then have "grow h ns root (int i) = Some (ERR_OK, h, ns, root)" using True m by (subst grow.simps) simp
    then show ?thesis using True inv extends_refl [OF Suc.prems(2)] by (metis (lifting))
  next
    case False
    then have "int i > int (64 ^ height root) - 1" if "height root \<noteq> 0" using that by linarith
    then have b: "int i > (if height root = 0 then -1 else int (64 ^ height root) - 1)" by simp
    show ?thesis
    proof (cases "ns = [] \<or> hd ns = NULL")
      case True
      then have "grow h ns root (int i) = Some (ERR_RADIX_TREE_ALLOC, h, tl ns, root)"
        using m b by (subst grow.simps) (auto simp: radix_tree_add_level_def radix_tree_node_create_def split: list.splits)
      moreover note extends_fail [OF Suc.prems(2)]
      moreover have "alloc_failed ns (tl ns)" using True by (cases ns) (auto simp: alloc_failed_def)
      ultimately show ?thesis using inv by (metis (lifting))
    next
      case False
      then obtain n ns' where ns: "ns = n # ns'" "n \<noteq> NULL" by (cases ns) auto
      have n: "h n = None" using Suc.prems(2) ns by (simp add: fresh_def)
      let ?r = "root\<lparr>root_node := n, height := height root + 1\<rparr>"
      let ?a = "a(height root := (\<lambda>k. if k = 0 then n else NULL))"
      have H: "height root < 5" using Suc.hyps(2) by simp
      from rt_inv_add_level [OF inv ns(2) n H, of ns'] obtain h1 where
        h1: "radix_tree_add_level h (n # ns') root = Some (ERR_OK, h1, ns', ?r)" "rt_inv ?a h1 ?r" "rval ?a h1 = rval a h"
          "\<forall>m. m \<noteq> n \<longrightarrow> ((\<forall>l k. a l k \<noteq> m) \<longrightarrow> h1 m = h m) \<and> (h m = None \<longrightarrow> h1 m = None)" by blast
      have e: "extends a h ns ?a h1 ns'" unfolding ns(1)
      proof (rule extends_add)
        show "nodes ?a \<subseteq> insert n (nodes a)" using rt_invD(3) [OF inv order.refl] by (auto simp: nodes_def)
      qed (use Suc.prems(2) ns h1 in \<open>auto simp: nodes_def\<close>)
      have step: "grow h ns root (int i) = grow h1 ns' ?r (int i)"
        using m b h1(1) ns by (subst grow.simps) simp
      have "d = 5 - height ?r" using Suc.hyps(2) by simp
      moreover have "fresh h1 ns'" using e by (simp add: extends_def)
      ultimately obtain err h' ns'' root' a' where
        r: "grow h1 ns' ?r (int i) = Some (err, h', ns'', root')" "rt_inv a' h' root'" "extends ?a h1 ns' a' h' ns''"
          "err = ERR_OK \<and> i < 64 ^ height root' \<and> 0 < height root' \<or> err = ERR_RADIX_TREE_ALLOC \<and> alloc_failed ns' ns''"
        using Suc.hyps(1) [OF _ h1(2) _ Suc.prems(3)] by metis
      have "err = ERR_OK \<and> i < 64 ^ height root' \<and> 0 < height root' \<or> err = ERR_RADIX_TREE_ALLOC \<and> alloc_failed ns ns''"
        using r(4) ns by (auto simp: alloc_failed_def)
      then show ?thesis using r step extends_trans [OF e r(3)] by (metis (lifting))
    qed
  qed
qed

lemma rval_leaf:
  assumes inv: "rt_inv a h root" and n: "a 0 (i div 64) \<noteq> NULL" "h (a 0 (i div 64)) = Some nd"
    and nd': "slots nd' = (slots nd)(i mod 64 := c)"
  shows "rval a (h(a 0 (i div 64) \<mapsto> nd')) = (rval a h)(i := c)"
proof
  fix j
  consider "j = i" | "j \<noteq> i" "j div 64 = i div 64" "j mod 64 \<noteq> i mod 64" | "j div 64 \<noteq> i div 64" by (metis div_mod_decomp)
  then show "rval a (h(a 0 (i div 64) \<mapsto> nd')) j = ((rval a h)(i := c)) j"
  proof cases
    case 3
    then have "a 0 (j div 64) \<noteq> a 0 (i div 64)" using rt_invD(7) [OF inv n(1), of 0 "j div 64"] by auto
    then show ?thesis using 3 by (auto simp: rval_def)
  qed (use n nd' in \<open>simp_all add: rval_def\<close>)
qed

lemma find_parent_alloc_root:
  assumes inv: "rt_inv a h root" and f: "fresh h ns" and i: "i < 64 ^ height root" "0 < height root"
  shows "\<exists>n h' ns' a'. radix_tree_find_parent h ns root (int i) True = Some (n, h', ns')
    \<and> rt_inv a' h' root \<and> extends a h ns a' h' ns' \<and> (if n = NULL then alloc_failed ns ns' else n = a' 0 (i div 64))"
proof -
  obtain l where l: "height root = Suc l" using i(2) by (cases "height root") auto
  then have r: "root_node root = a l (i div 64 ^ Suc l)" "a l (i div 64 ^ Suc l) \<noteq> NULL"
    using root_in_shape [OF inv i] rt_invD(2) [OF inv] by auto
  then show ?thesis using find_parent_alloc [OF inv _ f r(2)] l by (simp add: radix_tree_find_parent_def)
qed

lemma insert_ok:
  assumes inv: "rt_inv a h root" and f: "fresh h ns" and i: "i < 64 ^ 5" and leaf: "leaf \<noteq> NULL"
  shows "\<exists>err h' ns' root' a'. radix_tree_insert h ns root (int i) leaf = Some (err, h', ns', root') \<and> rt_inv a' h' root'
    \<and> nodes a' \<subseteq> nodes a \<union> set ns \<and> (\<forall>m. m \<notin> set ns \<longrightarrow> m \<notin> nodes a \<longrightarrow> h' m = h m) \<and> fresh h' ns' \<and> set ns' \<subseteq> set ns
    \<and> (err = ERR_OK \<and> rval a h i = NULL \<and> rval a' h' = (rval a h)(i := leaf)
       \<or> err = ERR_RADIX_TREE_NODE_EXIST \<and> rval a h i \<noteq> NULL \<and> rval a' h' = rval a h
       \<or> err = ERR_RADIX_TREE_ALLOC \<and> alloc_failed ns ns' \<and> rval a' h' = rval a h)"
proof -
  obtain err h1 ns1 root1 a1 where 1: "grow h ns root (int i) = Some (err, h1, ns1, root1)" "rt_inv a1 h1 root1"
    "extends a h ns a1 h1 ns1"
    "err = ERR_OK \<and> i < 64 ^ height root1 \<and> 0 < height root1 \<or> err = ERR_RADIX_TREE_ALLOC \<and> alloc_failed ns ns1"
    using grow_ok [OF inv f i] by blast
  show ?thesis
  proof (cases "err = ERR_OK")
    case False
    then have "radix_tree_insert h ns root (int i) leaf = Some (ERR_RADIX_TREE_ALLOC, h1, ns1, root1)"
      using 1(1) leaf by (simp add: radix_tree_insert_def)
    then show ?thesis using 1(2,3,4) False unfolding extends_def by auto
  next
    case True
    then have "fresh h1 ns1" "i < 64 ^ height root1" "0 < height root1" using 1(3,4) by (auto simp: extends_def)
    then obtain n h2 ns2 a2 where 2: "radix_tree_find_parent h1 ns1 root1 (int i) True = Some (n, h2, ns2)"
      "rt_inv a2 h2 root1" "extends a1 h1 ns1 a2 h2 ns2" "if n = NULL then alloc_failed ns1 ns2 else n = a2 0 (i div 64)"
      using find_parent_alloc_root [OF 1(2)] by blast
    note e = extends_trans [OF 1(3) 2(3)]
    have run: "radix_tree_insert h ns root (int i) leaf = (if n = NULL then Some (ERR_RADIX_TREE_ALLOC, h2, ns2, root1)
      else do { (err, h) \<leftarrow> radix_tree_add_child h2 n (i mod 64) leaf False;
                Some (if err \<noteq> ERR_OK then ERR_RADIX_TREE_NODE_EXIST else ERR_OK, h, ns2, root1) })"
      using 1(1) 2(1) leaf True by (simp add: radix_tree_insert_def)
    show ?thesis
    proof (cases "n = NULL")
      case True
      then have "alloc_failed ns ns2" using 1(3) 2(4) by (auto simp: alloc_failed_def extends_def)
      then show ?thesis using run True 2(2) e unfolding extends_def by auto
    next
      case False
      then have n: "n = a2 0 (i div 64)" "a2 0 (i div 64) \<noteq> NULL" using 2(4) by auto
      obtain nd where nd: "h2 n = Some nd" "rnode_ok nd" using rt_invD(6) [OF 2(2) n(2)] n(1) by auto
      have v: "rval a h i = slots nd (i mod 64)" 
      proof -
        have "rval a h i = rval a2 h2 i" using e by (simp add: extends_def)
        then show ?thesis using n nd by (simp add: rval_def)
      qed
      show ?thesis
      proof (cases "slots nd (i mod 64) = NULL")
        case True
        let ?nd = "nd\<lparr>slots := (slots nd)(i mod 64 := leaf), node_count := node_count nd + 1\<rparr>"
        have s: "radix_tree_insert h ns root (int i) leaf = Some (ERR_OK, h2(n \<mapsto> ?nd), ns2, root1)"
          using run False add_child_ok [of n leaf h2 nd "i mod 64" False] leaf nd True by simp
        have "rt_inv a2 (h2(n \<mapsto> ?nd)) root1" unfolding n(1)
          by (rule rt_inv_leaf [OF 2(2) n(2)]) (use nd n(1) rnode_ok_add(1) [OF nd(2) _ True leaf] in auto)
        moreover have "rval a2 (h2(n \<mapsto> ?nd)) = (rval a h)(i := leaf)"
          using rval_leaf [OF 2(2) n(2), of nd ?nd leaf] nd n e by (simp add: extends_def)
        moreover have "m \<noteq> n" if "m \<notin> set ns" "m \<notin> nodes a" for m
        proof -
          have "n \<in> nodes a2" using n(1) by (auto simp: nodes_def)
          then show ?thesis using e that unfolding extends_def by blast
        qed
        moreover have "fresh (h2(n \<mapsto> ?nd)) ns2" using e nd unfolding extends_def fresh_def by auto
        ultimately show ?thesis using s e True v unfolding extends_def by auto
      next
        case False
        then have "radix_tree_add_child h2 n (i mod 64) leaf False = Some (ERR_RADIX_TREE_NODE_EXIST, h2)"
          using nd leaf \<open>n \<noteq> NULL\<close> by (simp add: radix_tree_add_child_def)
        then have "radix_tree_insert h ns root (int i) leaf = Some (ERR_RADIX_TREE_NODE_EXIST, h2, ns2, root1)"
          using run \<open>n \<noteq> NULL\<close> by simp
        then show ?thesis using e False v 2(2) unfolding extends_def by auto
      qed
    qed
  qed
qed

subsection \<open>Removal\<close>

text \<open>Taking an empty node out of its parent.\<close>

lemma rt_inv_drop:
  assumes inv: "rt_inv a h root" and l: "Suc l < height root" and n: "a l k \<noteq> NULL" "slots (the (h (a l k))) = (\<lambda>_. NULL)"
    and p: "a (Suc l) (k div 64) = p" "h p = Some pd"
  defines "a' \<equiv> a(l := (a l)(k := NULL))"
    and "h' \<equiv> h(a l k := None, p \<mapsto> pd\<lparr>node_count := node_count pd - 1, slots := (slots pd)(k mod 64 := NULL)\<rparr>)"
  shows "rt_inv a' h' root" "rval a' h' = rval a h" "slots pd (k mod 64) = a l k" "p \<noteq> NULL" "rnode_ok pd"
proof -
  show pd: "p \<noteq> NULL" "slots pd (k mod 64) = a l k" "rnode_ok pd"
    using rt_invD(5) [OF inv l, of k] n(1) p rt_invD(6) [OF inv, of "Suc l" "k div 64"] by (auto split: if_splits)
  have a'_eq: "a' j i = (if j = l \<and> i = k then NULL else a j i)" for j i by (simp add: a'_def)
  have isp: "j = Suc l \<and> i = k div 64" if "a j i = p" for j i
    using rt_invD(7) [OF inv, of j i "Suc l" "k div 64"] that p pd(1) by auto
  have isn: "j = l \<and> i = k" if "a j i = a l k" for j i using rt_invD(7) [OF inv n(1), of j i] that by auto
  have pn: "p \<noteq> a l k" using isn [of "Suc l" "k div 64"] p by auto
  have hp: "h' m = (if m = p then Some (pd\<lparr>node_count := node_count pd - 1, slots := (slots pd)(k mod 64 := NULL)\<rparr>)
    else if m = a l k then None else h m)" for m by (simp add: h'_def)
  have kid: "a j i = NULL" if "Suc j = l" "i div 64 = k" for j i
    using rt_invD(5) [OF inv, of j i] l n that by auto
  show "rt_inv a' h' root"
  proof (rule rt_invI)
    show "a' j i = (if a' (Suc j) (i div 64) = NULL then NULL else nslots h' (a' (Suc j) (i div 64)) (i mod 64))"
      if j: "Suc j < height root" for j i
    proof -
      note e = rt_invD(5) [OF inv j, of i]
      consider "j = l" "i = k" | "Suc j = l" "i div 64 = k" | "j = l" "i \<noteq> k" "i div 64 = k div 64"
        | "\<not> (Suc j = l \<and> i div 64 = k)" "\<not> (j = l \<and> i div 64 = k div 64)" by blast
      then show ?thesis
      proof cases
        case 3
        then have "i mod 64 \<noteq> k mod 64" by (metis div_mod_decomp)
        then show ?thesis using 3 e p by (simp add: a'_eq hp)
      next
        case 4
        then have "a (Suc j) (i div 64) \<noteq> p" "a (Suc j) (i div 64) \<noteq> a l k" using isp isn by blast+
        moreover have "\<not> (j = l \<and> i = k)" using 4 by auto
        then have "a' j i = a j i" "a' (Suc j) (i div 64) = a (Suc j) (i div 64)"
          using 4 unfolding a'_eq by (simp_all only: if_False)
        ultimately show ?thesis using e by (simp add: hp)
      qed (use e p kid in \<open>simp_all add: a'_eq hp\<close>)
    qed
    show "\<exists>nd. h' (a' j i) = Some nd \<and> rnode_ok nd \<and> node_parent nd = a' (Suc j) (i div 64)" if "a' j i \<noteq> NULL" for j i
    proof -
      have ji: "\<not> (j = l \<and> i = k)" "a j i \<noteq> NULL" using that by (auto simp: a'_eq split: if_splits)
      then have "\<not> (Suc j = l \<and> i div 64 = k)" using kid by auto
      moreover have "a j i \<noteq> a l k" using isn ji by blast
      moreover obtain nd where "h (a j i) = Some nd" "rnode_ok nd" "node_parent nd = a (Suc j) (i div 64)"
        using rt_invD(6) [OF inv ji(2)] by blast
      ultimately show ?thesis using ji p rnode_ok_clear(1) [OF pd(3)] n(1) pd(2)
        by (cases "a j i = p") (auto simp: a'_eq hp)
    qed
    show "j = j' \<and> i = i'" if "a' j i \<noteq> NULL" "a' j i = a' j' i'" for j i j' i'
      using that rt_invD(7) [OF inv, of j i j' i'] by (auto simp: a'_eq split: if_splits)
  qed (use rt_invD(1,2) [OF inv] rt_invD(3,4) [OF inv] l in \<open>auto simp: a'_eq\<close>)
  show "rval a' h' = rval a h"
  proof
    fix i
    have "a 0 (i div 64) \<noteq> p" using isp by auto
    then show "rval a' h' i = rval a h i" using isn [of 0 "i div 64"] n(2) by (auto simp: rval_def a'_eq hp)
  qed
qed

lemma empty_root:
  assumes inv: "rt_inv a h root" and H: "Suc l = height root" and e: "nslots h (root_node root) = (\<lambda>_. NULL)"
  shows "rval a h = (\<lambda>_. NULL)"
proof -
  have "a j q = NULL" if "j < l" for j q
    using that
  proof (induction "l - j" arbitrary: j q)
    case (Suc d)
    show ?case
    proof (cases "Suc j = l")
      case True
      then show ?thesis using rt_invD(5) [OF inv, of j q] rt_invD(4) [OF inv H] H e by auto
    next
      case False
      then have "a (Suc j) (q div 64) = NULL" using Suc by simp
      then show ?thesis using rt_invD(5) [OF inv, of j q] H Suc.prems by simp
    qed
  qed simp
  then show ?thesis using rt_invD(4) [OF inv H] e by (cases l) (auto simp: rval_def fun_eq_iff)
qed

lemma remove_up:
  assumes "rt_inv a h root" "l < height root" "a l (i div 64 ^ Suc l) = n" "n \<noteq> NULL" "h n = Some nd" "slots nd = (\<lambda>_. NULL)"
  shows "\<exists>h' r a'. remove_loop (height root - Suc l) (h(n := None)) (node_parent nd) (int i) (Suc l) = Some (h', r)
    \<and> (case r of None \<Rightarrow> rt_inv a' h' root | Some m \<Rightarrow> m = NULL \<and> rt_inv a' h' (root\<lparr>root_node := NULL, height := 0\<rparr>))
    \<and> rval a' h' = rval a h \<and> nodes a' \<subseteq> nodes a \<and> (\<forall>m. m \<notin> nodes a \<longrightarrow> h' m = h m)"
  using assms
proof (induction "height root - Suc l" arbitrary: a h l n nd)
  case 0
  note inv = 0(2)
  have l: "Suc l = height root" using 0 by simp
  have k: "i div 64 ^ Suc l = 0" "n = root_node root" using rt_invD(4) [OF inv l, of "i div 64 ^ Suc l"] 0(4,5) by (auto split: if_splits)
  have par: "node_parent nd = NULL"
    using rt_invD(6) [OF inv, of l 0] rt_invD(3) [OF inv, of "Suc l"] 0(4-6) k l by auto
  have z: "rval a h = (\<lambda>_. NULL)" using empty_root [OF inv l] k(2) 0(6,7) by simp
  have "rt_inv (\<lambda>_ _. NULL) (h(n := None)) (root\<lparr>root_node := NULL, height := 0\<rparr>)" by (rule rt_invI) auto
  moreover have "nodes (\<lambda>_ _. NULL) \<subseteq> nodes a" using rt_invD(3) [OF inv order.refl] by (auto simp: nodes_def)
  moreover have "(h(n := None)) m = h m" if "m \<notin> nodes a" for m using that 0(4) by (auto simp: nodes_def)
  moreover have "rval (\<lambda>_ _. NULL) (h(n := None)) = rval a h" unfolding z by (simp add: rval_def fun_eq_iff)
  moreover have "remove_loop (height root - Suc l) (h(n := None)) (node_parent nd) (int i) (Suc l) = Some (h(n := None), Some NULL)"
    using 0(1) par by simp
  ultimately show ?case
    by (intro exI [of _ "h(n := None)"] exI [of _ "Some NULL"] exI [of _ "\<lambda>_ _. NULL"]) (simp del: fun_upd_apply)
next
  case (Suc d)
  note inv = Suc.prems(1)
  let ?k = "i div 64 ^ Suc l"
  let ?p = "a (Suc l) (i div 64 ^ Suc (Suc l))"
  have l: "Suc l < height root" using Suc.hyps(2) by simp
  have k: "?k div 64 = i div 64 ^ Suc (Suc l)" by (rule div_div_64)
  obtain pd where pd: "h ?p = Some pd" "node_parent nd = ?p"
    using rt_invD(6) [OF inv, of l ?k] rt_invD(5) [OF inv l, of ?k] rt_invD(6) [OF inv, of "Suc l" "?k div 64"] Suc.prems(3-5)
    unfolding k by (auto split: if_splits)
  let ?pd = "pd\<lparr>node_count := node_count pd - 1, slots := (slots pd)(?k mod 64 := NULL)\<rparr>"
  let ?a = "a(l := (a l)(?k := NULL))"
  let ?h = "h(n := None, ?p \<mapsto> ?pd)"
  have d: "rt_inv ?a ?h root" "rval ?a ?h = rval a h" "slots pd (?k mod 64) = n" "?p \<noteq> NULL" "rnode_ok pd"
    using rt_inv_drop [OF inv l _ _ arg_cong [OF k] pd(1)] Suc.prems by (auto simp del: power_Suc)
  have pn: "?p \<noteq> n" using rt_invD(7) [OF inv, of l ?k "Suc l"] Suc.prems(3,4) by (metis n_not_Suc_n)
  note c = rnode_ok_clear [OF d(5), of "?k mod 64"]
  have e: "height root - Suc l = Suc d" using Suc.hyps(2) by simp
  have step: "remove_loop (height root - Suc l) (h(n := None)) (node_parent nd) (int i) (Suc l) =
    (if node_count ?pd = 0 then remove_loop d (?h(?p := None)) (node_parent pd) (int i) (Suc (Suc l)) else Some (?h, None))"
    unfolding e using pd d(3,4) pn Suc.prems(4) c(2) by (simp del: power_Suc)
  have "NULL \<in> nodes a" using rt_invD(3) [OF inv order.refl] by (auto simp: nodes_def)
  then have sub: "nodes ?a \<subseteq> nodes a" by (auto simp: nodes_def)
  have fr: "?h m = h m" if "m \<notin> nodes a" for m using that Suc.prems(3) by (auto simp: nodes_def)
  show ?case
  proof (cases "node_count ?pd = 0")
    case False
    then show ?thesis unfolding step using d(1,2) sub fr by (intro exI [of _ ?h] exI [of _ None] exI [of _ ?a]) simp
  next
    case True
    have "slots ?pd = (\<lambda>_. NULL)" using c(3) d(3) Suc.prems(4) True by simp
    moreover have "?a (Suc l) (i div 64 ^ Suc (Suc l)) = ?p" "d = height root - Suc (Suc l)" "?h ?p = Some ?pd"
      using Suc.hyps(2) by simp_all
    ultimately obtain h' r a' where r:
      "remove_loop d (?h(?p := None)) (node_parent ?pd) (int i) (Suc (Suc l)) = Some (h', r)"
      "case r of None \<Rightarrow> rt_inv a' h' root | Some m \<Rightarrow> m = NULL \<and> rt_inv a' h' (root\<lparr>root_node := NULL, height := 0\<rparr>)"
      "rval a' h' = rval ?a ?h" "nodes a' \<subseteq> nodes ?a" "\<forall>m. m \<notin> nodes ?a \<longrightarrow> h' m = ?h m"
      using Suc.hyps(1) [of "Suc l" ?a ?h ?p ?pd, OF _ d(1) l _ d(4)] by blast
    have "h' m = h m" if "m \<notin> nodes a" for m
    proof -
      have "h' m = ?h m" using r(5) that sub by blast
      then show ?thesis using fr [OF that] by (simp only:)
    qed
    moreover have "nodes a' \<subseteq> nodes a" using r(4) sub by (rule subset_trans)
    moreover have "remove_loop (height root - Suc l) (h(n := None)) (node_parent nd) (int i) (Suc l) = Some (h', r)"
      unfolding step using True r(1) by (simp del: remove_loop.simps)
    ultimately show ?thesis using r(2,3) d(2) by (intro exI [of _ h'] exI [of _ r] exI [of _ a']) simp
  qed
qed

lemma remove_ok:
  assumes inv: "rt_inv a h root" and i: "i < 64 ^ height root"
  shows "\<exists>h' root' a'. radix_tree_remove h root (int i) = Some (rval a h i, h', root') \<and> rt_inv a' h' root'
    \<and> rval a' h' = (rval a h)(i := NULL) \<and> nodes a' \<subseteq> nodes a \<and> (\<forall>m. m \<notin> nodes a \<longrightarrow> h' m = h m)"
proof (cases "rval a h i = NULL")
  case True
  then have "radix_tree_remove h root (int i) = Some (NULL, h, root)"
    using find_parent_ok [OF inv i, of "[]"] rt_invD(6) [OF inv, of 0 "i div 64"]
    by (auto simp: radix_tree_remove_def rval_def split: if_splits)
  then show ?thesis using True inv by (intro exI [of _ h] exI [of _ root] exI [of _ a]) auto
next
  case False
  let ?n = "a 0 (i div 64)"
  have n: "?n \<noteq> NULL" using False by (cases "?n = NULL") (simp_all add: rval_def)
  then obtain nd where nd: "h ?n = Some nd" "rnode_ok nd" using rt_invD(6) [OF inv n] by blast
  have v: "rval a h i = slots nd (i mod 64)" "slots nd (i mod 64) \<noteq> NULL" using False n nd by (auto simp: rval_def)
  let ?nd = "nd\<lparr>node_count := node_count nd - 1, slots := (slots nd)(i mod 64 := NULL)\<rparr>"
  let ?h = "h(?n \<mapsto> ?nd)"
  note c = rnode_ok_clear [OF nd(2) v(2)]
  have inv': "rt_inv a ?h root" by (rule rt_inv_leaf [OF inv n nd(1)]) (use c(1) in simp_all)
  have v': "rval a ?h = (rval a h)(i := NULL)" by (rule rval_leaf [OF inv n nd(1)]) simp
  have H: "0 < height root" using n rt_invD(3) [OF inv] by (metis neq0_conv order.refl)
  have loop: "remove_loop (height root) h ?n (int i) 0 =
    (if node_count ?nd = 0 then remove_loop (height root - 1) (?h(?n := None)) (node_parent ?nd) (int i) 1 else Some (?h, None))"
    using n nd v c(2) H by (cases "height root") simp_all
  note run = radix_tree_remove_def [of h root "int i"] find_parent_ok [OF inv i, of "[]"] n nd v Let_def
  have fr: "?h m = h m" if "m \<notin> nodes a" for m using that by (auto simp: nodes_def)
  show ?thesis
  proof (cases "node_count ?nd = 0")
    case False
    then have "radix_tree_remove h root (int i) = Some (rval a h i, ?h, root)" using loop by (simp add: run)
    then show ?thesis using inv' v' fr by (intro exI [of _ ?h] exI [of _ root] exI [of _ a]) (simp del: fun_upd_apply)
  next
    case True
    have e: "a 0 (i div 64 ^ Suc 0) = ?n" "?h ?n = Some ?nd" "slots ?nd = (\<lambda>_. NULL)" using c(3) True by simp_all
    obtain h' r a' where r: "remove_loop (height root - 1) (?h(?n := None)) (node_parent ?nd) (int i) 1 = Some (h', r)"
      "case r of None \<Rightarrow> rt_inv a' h' root | Some m \<Rightarrow> m = NULL \<and> rt_inv a' h' (root\<lparr>root_node := NULL, height := 0\<rparr>)"
      "rval a' h' = rval a ?h" "nodes a' \<subseteq> nodes a" "\<forall>m. m \<notin> nodes a \<longrightarrow> h' m = ?h m"
      using remove_up [OF inv' H e(1) n e(2,3)] unfolding One_nat_def by blast
    have "h' m = h m" if "m \<notin> nodes a" for m using r(5) fr that by metis
    moreover have "\<exists>root'. radix_tree_remove h root (int i) = Some (rval a h i, h', root') \<and> rt_inv a' h' root'"
      using loop True r(1,2) by (cases r) (simp_all add: run)
    ultimately show ?thesis using r(3,4) v' by metis
  qed
qed

subsection \<open>Several trees in one heap\<close>

lemma rt_inv_frame:
  assumes inv: "rt_inv a h root" and same: "\<And>n. n \<in> nodes a \<Longrightarrow> n \<noteq> NULL \<Longrightarrow> h' n = h n"
  shows "rt_inv a h' root" "rval a h' = rval a h"
proof -
  have s: "h' (a l k) = h (a l k)" if "a l k \<noteq> NULL" for l k using same that by (auto simp: nodes_def)
  show "rt_inv a h' root"
  proof (rule rt_invI)
    show "a l k = (if a (Suc l) (k div 64) = NULL then NULL else nslots h' (a (Suc l) (k div 64)) (k mod 64))"
      if "Suc l < height root" for l k
      using rt_invD(5) [OF inv that, of k] s [of "Suc l" "k div 64"] by auto
    show "\<exists>nd. h' (a l k) = Some nd \<and> rnode_ok nd \<and> node_parent nd = a (Suc l) (k div 64)" if "a l k \<noteq> NULL" for l k
      using rt_invD(6) [OF inv that] s [OF that] by simp
  qed (use rt_invD [OF inv] in blast)+
  show "rval a h' = rval a h" using s by (auto simp: rval_def fun_eq_iff)
qed

section \<open>The interface of an index\<close>

text \<open>What the clients of the tree rely on: a partial map from small numbers to pointers, in which an
  insertion either takes effect or changes nothing.\<close>

locale index_map =
  fixes ok :: "'s \<Rightarrow> bool" and get :: "'s \<Rightarrow> nat \<Rightarrow> ptr exec"
    and put :: "'s \<Rightarrow> nat \<Rightarrow> ptr \<Rightarrow> (err_t \<times> 's) exec" and del :: "'s \<Rightarrow> nat \<Rightarrow> (ptr \<times> 's) exec" and bound :: nat
  assumes get_returns: "ok s \<Longrightarrow> \<exists>v. get s i = Some v"
    and put_law: "ok s \<Longrightarrow> i < bound \<Longrightarrow> v \<noteq> NULL \<Longrightarrow> \<exists>err s'. put s i v = Some (err, s') \<and> ok s'
      \<and> (\<forall>j. j \<noteq> i \<longrightarrow> get s' j = get s j) \<and> (if err = ERR_OK then get s i = Some NULL \<and> get s' i = Some v else get s' i = get s i)"
    and put_taken: "ok s \<Longrightarrow> i < bound \<Longrightarrow> v \<noteq> NULL \<Longrightarrow> put s i v = Some (ERR_RADIX_TREE_NODE_EXIST, s') \<Longrightarrow> get s i \<noteq> Some NULL"
    and del_law: "ok s \<Longrightarrow> get s i = Some v \<Longrightarrow> v \<noteq> NULL \<Longrightarrow>
      \<exists>s'. del s i = Some (v, s') \<and> ok s' \<and> get s' i = Some NULL \<and> (\<forall>j. j \<noteq> i \<longrightarrow> get s' j = get s j)"
begin

lemma put_keeps:
  assumes "ok s" "i < bound" "v \<noteq> NULL" "put s i v = Some (err, s')" "get s j = Some w" "w \<noteq> NULL"
  shows "get s' j = Some w"
  using put_law [OF assms(1-3)] assms(4-6) by (cases "j = i") (auto split: if_splits)

lemma put_ok: "ok s \<Longrightarrow> i < bound \<Longrightarrow> v \<noteq> NULL \<Longrightarrow> put s i v = Some (err, s') \<Longrightarrow> ok s'"
  using put_law [of s i v] by auto

lemma put_get:
  assumes "ok s" "i < bound" "v \<noteq> NULL" "put s i v = Some (err, s')"
  shows "get s' j = (if err = ERR_OK \<and> j = i then Some v else get s j)"
  using put_law [OF assms(1-3)] assms(4) by (auto split: if_splits)

lemma put_del:
  assumes "ok s" "i < bound" "v \<noteq> NULL" "put s i v = Some (ERR_OK, s')"
  shows "\<exists>s''. del s' i = Some (v, s'') \<and> ok s'' \<and> (\<forall>j. get s'' j = get s j)"
proof -
  have p: "ok s'" "get s' i = Some v" "get s i = Some NULL" "\<forall>j. j \<noteq> i \<longrightarrow> get s' j = get s j"
    using put_law [OF assms(1-3)] assms(4) by auto
  from del_law [OF p(1,2) assms(3)] obtain s'' where
    "del s' i = Some (v, s'')" "ok s''" "get s'' i = Some NULL" "\<forall>j. j \<noteq> i \<longrightarrow> get s'' j = get s' j" by blast
  with p show ?thesis by metis
qed

end

text \<open>A tree with its heap and the addresses left to the node allocator.\<close>

type_synonym rtree = "rheap \<times> ptr list \<times> radix_tree_root"

definition rt_ok :: "rtree \<Rightarrow> bool" where
  "rt_ok t \<longleftrightarrow> (case t of (h, ns, root) \<Rightarrow> fresh h ns \<and> (\<exists>a. rt_inv a h root))"

definition rt_get :: "rtree \<Rightarrow> nat \<Rightarrow> ptr exec" where
  "rt_get t i = (case t of (h, ns, root) \<Rightarrow> radix_tree_lookup h root (int i))"

definition rt_put :: "rtree \<Rightarrow> nat \<Rightarrow> ptr \<Rightarrow> (err_t \<times> rtree) exec" where
  "rt_put t i v = (case t of (h, ns, root) \<Rightarrow> radix_tree_insert h ns root (int i) v)"

definition rt_del :: "rtree \<Rightarrow> nat \<Rightarrow> (ptr \<times> rtree) exec" where
  "rt_del t i = (case t of (h, ns, root) \<Rightarrow> do { (v, h, root) \<leftarrow> radix_tree_remove h root (int i); Some (v, h, ns, root) })"

lemma rval_bound:
  assumes inv: "rt_inv a h root" and "rval a h i \<noteq> NULL"
  shows "i < 64 ^ height root"
proof (rule ccontr)
  assume "\<not> i < 64 ^ height root"
  then have "64 ^ height root \<le> i div 64 * 64 + i mod 64" by simp
  moreover have "height root \<noteq> 0" using assms rt_invD(3) [OF inv, of 0 "i div 64"] by (auto simp: rval_def split: if_splits)
  then obtain e where "height root = Suc e" by (cases "height root") auto
  ultimately have "64 ^ e * 64 < (i div 64 + 1) * 64" by simp
  then have "64 ^ e \<le> i div 64" by simp
  then have "a 0 (i div 64) = NULL" using shape_bound [OF inv, of "i div 64" 0] \<open>height root = Suc e\<close> by (simp add: mult.commute)
  then show False using assms(2) by (simp add: rval_def)
qed

lemma fresh_frame:
  assumes "rt_inv a h root" "fresh h ns" "\<forall>m. m \<notin> nodes a \<longrightarrow> h' m = h m"
  shows "fresh h' ns"
proof -
  have "n \<notin> nodes a" if "n \<in> set ns" "n \<noteq> NULL" for n
  proof
    assume "n \<in> nodes a"
    then obtain l k where "a l k = n" by (auto simp: nodes_def)
    then have "h n \<noteq> None" using rt_invD(6) [OF assms(1), of l k] that(2) by auto
    then show False using assms(2) that by (simp add: fresh_def)
  qed
  then show ?thesis using assms(2,3) by (simp add: fresh_def)
qed

lemma rt_put_law:
  assumes "rt_ok s" "i < 2 ^ 30" "v \<noteq> NULL"
  shows "\<exists>err s'. rt_put s i v = Some (err, s') \<and> rt_ok s' \<and> (\<forall>j. j \<noteq> i \<longrightarrow> rt_get s' j = rt_get s j)
    \<and> (if err = ERR_OK then rt_get s i = Some NULL \<and> rt_get s' i = Some v else rt_get s' i = rt_get s i)
    \<and> (err = ERR_RADIX_TREE_NODE_EXIST \<longrightarrow> rt_get s i \<noteq> Some NULL)"
proof -
  obtain h ns root where s: "s = (h, ns, root)" by (cases s)
  obtain a where a: "rt_inv a h root" "fresh h ns" using assms(1) by (auto simp: s rt_ok_def)
  have "i < 64 ^ 5" using assms(2) by simp
  from insert_ok [OF a this assms(3)] obtain err h' ns' root' a' where
    r: "radix_tree_insert h ns root (int i) v = Some (err, h', ns', root')" "rt_inv a' h' root'" "fresh h' ns'"
      "err = ERR_OK \<and> rval a h i = NULL \<and> rval a' h' = (rval a h)(i := v)
       \<or> err = ERR_RADIX_TREE_NODE_EXIST \<and> rval a h i \<noteq> NULL \<and> rval a' h' = rval a h
       \<or> err = ERR_RADIX_TREE_ALLOC \<and> alloc_failed ns ns' \<and> rval a' h' = rval a h" by blast
  note l = lookup_rval [OF a(1)] lookup_rval [OF r(2)]
  show ?thesis using r(2-4) assms(3)
    by (intro exI [of _ err] exI [of _ "(h', ns', root')"]) (auto simp: s rt_put_def rt_get_def rt_ok_def r(1) l)
qed

lemma rt_del_law:
  assumes "rt_ok s" "rt_get s i = Some v" "v \<noteq> NULL"
  shows "\<exists>s'. rt_del s i = Some (v, s') \<and> rt_ok s' \<and> rt_get s' i = Some NULL \<and> (\<forall>j. j \<noteq> i \<longrightarrow> rt_get s' j = rt_get s j)"
proof -
  obtain h ns root where s: "s = (h, ns, root)" by (cases s)
  obtain a where a: "rt_inv a h root" "fresh h ns" using assms(1) by (auto simp: s rt_ok_def)
  have v: "rval a h i = v" using assms(2) lookup_rval [OF a(1)] by (simp add: s rt_get_def)
  then have "i < 64 ^ height root" using rval_bound [OF a(1)] assms(3) by simp
  from remove_ok [OF a(1) this] obtain h' root' a' where
    r: "radix_tree_remove h root (int i) = Some (v, h', root')" "rt_inv a' h' root'" "rval a' h' = (rval a h)(i := NULL)"
      "\<forall>m. m \<notin> nodes a \<longrightarrow> h' m = h m" unfolding v by blast
  note l = lookup_rval [OF a(1)] lookup_rval [OF r(2)]
  show ?thesis using fresh_frame [OF a r(4)] r(2,3)
    by (intro exI [of _ "(h', ns, root')"]) (auto simp: s rt_del_def rt_get_def rt_ok_def r(1) l)
qed

interpretation rt: index_map rt_ok rt_get rt_put rt_del "2 ^ 30"
proof
  show "\<exists>v. rt_get s i = Some v" if "rt_ok s" for s i
    using that lookup_rval by (auto simp: rt_ok_def rt_get_def split: prod.splits)
  show "\<exists>err s'. rt_put s i v = Some (err, s') \<and> rt_ok s' \<and> (\<forall>j. j \<noteq> i \<longrightarrow> rt_get s' j = rt_get s j)
      \<and> (if err = ERR_OK then rt_get s i = Some NULL \<and> rt_get s' i = Some v else rt_get s' i = rt_get s i)"
    if "rt_ok s" "i < 2 ^ 30" "v \<noteq> NULL" for s i v
    using rt_put_law [OF that] by blast
  show "rt_get s i \<noteq> Some NULL"
    if "rt_ok s" "i < 2 ^ 30" "v \<noteq> NULL" "rt_put s i v = Some (ERR_RADIX_TREE_NODE_EXIST, s')" for s i v s'
    using rt_put_law [OF that(1-3)] that(4) by auto
qed (rule rt_del_law)

section \<open>Properties\<close>

text \<open>C13. Insertion into a well-formed tree returns for every index below \<open>2 ^ 30\<close> and implements insertion into a
  map: ERR_RADIX_TREE_NODE_EXIST exactly when the index is taken, ERR_RADIX_TREE_ALLOC only when a node cannot
  be allocated, and otherwise the index and nothing else changes; the tree stays well-formed and the
  nodes of other trees are not touched.\<close>

theorem radix_tree_insert_map:
  assumes inv: "rt_inv a h root" and new: "fresh h news" and i: "i < 2 ^ 30" and leaf: "leaf \<noteq> NULL"
  shows "\<exists>err h' news' root' a'. radix_tree_insert h news root (int i) leaf = Some (err, h', news', root')
    \<and> rt_inv a' h' root' \<and> (\<forall>m. m \<notin> set news \<longrightarrow> m \<notin> nodes a \<longrightarrow> h' m = h m)
    \<and> (\<forall>j. j \<noteq> i \<longrightarrow> radix_tree_lookup h' root' (int j) = radix_tree_lookup h root (int j))
    \<and> (err = ERR_OK \<and> radix_tree_lookup h root (int i) = Some NULL \<and> radix_tree_lookup h' root' (int i) = Some leaf
       \<or> err = ERR_RADIX_TREE_NODE_EXIST \<and> radix_tree_lookup h root (int i) \<noteq> Some NULL
         \<and> radix_tree_lookup h' root' (int i) = radix_tree_lookup h root (int i)
       \<or> err = ERR_RADIX_TREE_ALLOC \<and> alloc_failed news news'
         \<and> radix_tree_lookup h' root' (int i) = radix_tree_lookup h root (int i))"
proof -
  have "i < 64 ^ 5" using i by simp
  from insert_ok [OF inv new this leaf] obtain err h' ns' root' a' where
    r: "radix_tree_insert h news root (int i) leaf = Some (err, h', ns', root')" "rt_inv a' h' root'"
      "\<forall>m. m \<notin> set news \<longrightarrow> m \<notin> nodes a \<longrightarrow> h' m = h m"
      "err = ERR_OK \<and> rval a h i = NULL \<and> rval a' h' = (rval a h)(i := leaf)
       \<or> err = ERR_RADIX_TREE_NODE_EXIST \<and> rval a h i \<noteq> NULL \<and> rval a' h' = rval a h
       \<or> err = ERR_RADIX_TREE_ALLOC \<and> alloc_failed news ns' \<and> rval a' h' = rval a h" by blast
  show ?thesis
    by (intro exI [of _ err] exI [of _ h'] exI [of _ ns'] exI [of _ root'] exI [of _ a'])
      (use r in \<open>auto simp: lookup_rval [OF inv] lookup_rval [OF r(2)]\<close>)
qed

text \<open>A tree of one node with a leaf at index three.\<close>

definition small_rheap :: rheap where
  "small_rheap = [50 \<mapsto> \<lparr>node_count = 1, node_parent = NULL, slots = (\<lambda>_. NULL)(3 := 900)\<rparr>]"

definition small_root :: radix_tree_root where
  "small_root = \<lparr>height = 1, root_node = 50\<rparr>"

definition small_shape :: tree_shape where
  "small_shape l k = (if l = 0 \<and> k = 0 then 50 else NULL)"

lemma small_rt_inv: "rt_inv small_shape small_rheap small_root"
  by (rule rt_invI) (auto simp: small_shape_def small_rheap_def small_root_def rnode_ok_def split: if_splits)

lemma small_lookup: "radix_tree_lookup small_rheap small_root (int i) = Some (if i = 3 then 900 else NULL)"
proof -
  have "i div 64 = 0 \<and> i mod 64 = 3 \<longleftrightarrow> i = 3" by (rule div_mod_unique) simp
  then have "rval small_shape small_rheap i = (if i = 3 then 900 else NULL)"
    by (auto simp: rval_def small_shape_def small_rheap_def)
  then show ?thesis by (simp only: lookup_rval [OF small_rt_inv])
qed

lemma radix_tree_insert_map_witness:
  "\<exists>h' root'. radix_tree_insert small_rheap [60] small_root 5 800 = Some (ERR_OK, h', [60], root')
    \<and> radix_tree_lookup h' root' 5 = Some 800 \<and> radix_tree_lookup h' root' 3 = Some 900"
proof -
  have "grow small_rheap [60] small_root 5 = Some (ERR_OK, small_rheap, [60], small_root)"
    by (subst grow.simps) (simp add: radix_tree_max_index_def small_root_def)
  then obtain h' root' where run: "radix_tree_insert small_rheap [60] small_root 5 800 = Some (ERR_OK, h', [60], root')"
    using level_index_nat [of 5 0] by (auto simp: radix_tree_insert_def radix_tree_find_parent_def radix_tree_add_child_def small_root_def small_rheap_def)
  have "fresh small_rheap [60]" by (simp add: fresh_def small_rheap_def)
  from radix_tree_insert_map [OF small_rt_inv this, of 5 800] run
  have "radix_tree_lookup h' root' 5 = Some 800"
    "\<forall>j. j \<noteq> 5 \<longrightarrow> radix_tree_lookup h' root' (int j) = radix_tree_lookup small_rheap small_root (int j)" by auto
  then show ?thesis using run small_lookup [of 3] by (auto dest: spec [of _ 3])
qed

text \<open>C14. Removal of an index within the tree returns what lookup returns there and implements removal from a
  map, with empty nodes freed on the way up; the tree stays well-formed and other trees are untouched.\<close>

theorem radix_tree_remove_map:
  assumes inv: "rt_inv a h root" and i: "i < 64 ^ height root"
  shows "\<exists>leaf h' root' a'. radix_tree_remove h root (int i) = Some (leaf, h', root') \<and> rt_inv a' h' root'
    \<and> radix_tree_lookup h root (int i) = Some leaf \<and> radix_tree_lookup h' root' (int i) = Some NULL
    \<and> (\<forall>j. j \<noteq> i \<longrightarrow> radix_tree_lookup h' root' (int j) = radix_tree_lookup h root (int j))
    \<and> (\<forall>m. m \<notin> nodes a \<longrightarrow> h' m = h m)"
proof -
  from remove_ok [OF inv i] obtain h' root' a' where
    r: "radix_tree_remove h root (int i) = Some (rval a h i, h', root')" "rt_inv a' h' root'"
      "rval a' h' = (rval a h)(i := NULL)" "\<forall>m. m \<notin> nodes a \<longrightarrow> h' m = h m" by blast
  show ?thesis
    by (intro exI [of _ "rval a h i"] exI [of _ h'] exI [of _ root'] exI [of _ a'])
      (use r in \<open>auto simp: lookup_rval [OF inv] lookup_rval [OF r(2)]\<close>)
qed

lemma radix_tree_remove_map_witness:
  "\<exists>h' root'. radix_tree_remove small_rheap small_root 3 = Some (900, h', root') \<and> radix_tree_lookup h' root' 3 = Some NULL"
  using radix_tree_remove_map [OF small_rt_inv, of 3] small_lookup [of 3] by (auto simp: small_root_def)

text \<open>Removal does not check the index against the size of the tree, as lookup does: in a tree of one level,
  removing an index that lookup reports absent takes away the leaf at that index modulo 64.\<close>

theorem radix_tree_remove_beyond:
  assumes inv: "rt_inv a h root" and h1: "height root = 1" and i: "64 \<le> i"
    and leaf: "radix_tree_lookup h root (int (i mod 64)) = Some leaf" "leaf \<noteq> NULL"
  shows "radix_tree_lookup h root (int i) = Some NULL
    \<and> (\<exists>h' root'. radix_tree_remove h root (int i) = Some (leaf, h', root')
       \<and> radix_tree_lookup h' root' (int (i mod 64)) = Some NULL)"
proof -
  have lp: "remove_loop (Suc 0) h n (int i) 0 = remove_loop (Suc 0) h n (int (i mod 64)) 0" for n
    by (cases "h n") (simp_all add: Let_def)
  have same: "radix_tree_remove h root (int i) = radix_tree_remove h root (int (i mod 64))"
    using h1 by (cases "h (root_node root)")
      (simp_all add: radix_tree_remove_def radix_tree_find_parent_def Let_def lp del: remove_loop.simps(2))
  have "i mod 64 < 64 ^ height root" using h1 by simp
  from remove_ok [OF inv this] obtain h' root' a' where
    r: "radix_tree_remove h root (int (i mod 64)) = Some (rval a h (i mod 64), h', root')" "rt_inv a' h' root'"
      "rval a' h' = (rval a h)(i mod 64 := NULL)" by blast
  have "radix_tree_lookup h root (int i) = Some NULL"
    using h1 i max_index_ok [of root] by (simp add: radix_tree_lookup_def)
  then show ?thesis using r leaf same by (auto simp: lookup_rval [OF inv] lookup_rval [OF r(2)])
qed

lemma radix_tree_remove_beyond_witness:
  "radix_tree_lookup small_rheap small_root 67 = Some NULL
    \<and> (\<exists>h' root'. radix_tree_remove small_rheap small_root 67 = Some (900, h', root') \<and> radix_tree_lookup h' root' 3 = Some NULL)"
  using radix_tree_remove_beyond [OF small_rt_inv, of 67 900] small_lookup [of 3] by (simp add: small_root_def)

end
