(* ===== verification/Shmms.thy ===== *)
theory Shmms
  imports Vm Radix
begin

text \<open>
  Named shared memory regions, \<^verbatim>\<open>kernel/fs/shmms.c\<close>, with the memory stores of \<^verbatim>\<open>kernel/mm/memstore.c\<close>
  and the reverse mappings of \<^verbatim>\<open>kernel/mm/rmap.c\<close>.  The context table is the list of contexts in the
  order of the kernel list; a reverse mapping is the list of its (address space, region) nodes.
  Names are strings, equal exactly when \<open>strcmp\<close> says so (\<open>Cstring\<close>).  An operation holds the table
  lock except around the calls that take an address-space lock, and is a single step here;
  allocator results are arguments, \<open>NULL\<close> or false when an allocation fails.  The lemmas show
  that reference counts are the numbers of mappings, that names are unique, what each call
  returns on every branch, and how locking a region behaves.
\<close>

section \<open>State\<close>

record smemcontext =
  c_name :: string
  c_store :: ptr
  c_lock_by :: tid_t
  c_size :: "32 word"
  c_refcnt :: int
  c_flag :: "32 word"

record memstore =
  ms_info :: ptr
  ms_rmap :: "(ptr \<times> ptr) list"
  ms_cached :: radix_tree_root

record shm =
  vmst :: vm
  ctable :: "ptr list"
  ctxs :: "ptr \<Rightarrow> smemcontext option"
  stores :: "ptr \<Rightarrow> memstore option"
  rnodes :: rheap

abbreviation (input) RS_PERSIST :: "32 word" where "RS_PERSIST \<equiv> 0x100"
abbreviation (input) ERR_MAPPED :: err_t where "ERR_MAPPED \<equiv> -1"
abbreviation (input) ERR_PERSIST :: err_t where "ERR_PERSIST \<equiv> -2"

definition set_ctx :: "ptr \<Rightarrow> smemcontext \<Rightarrow> shm \<Rightarrow> shm" where
  "set_ctx p c h = h\<lparr>ctxs := (ctxs h)(p := Some c)\<rparr>"

definition set_store :: "ptr \<Rightarrow> memstore \<Rightarrow> shm \<Rightarrow> shm" where
  "set_store p m h = h\<lparr>stores := (stores h)(p := Some m)\<rparr>"

section \<open>Stores and reverse mappings\<close>

text \<open>A new store has an empty reverse mapping and an empty tree of cached pages.\<close>

definition memstore_alloc :: "shm \<Rightarrow> ptr \<Rightarrow> ptr \<times> shm" where
  "memstore_alloc h new = (if new = NULL then (NULL, h) else (new, set_store new \<lparr>ms_info = NULL, ms_rmap = [], ms_cached = radix_tree_construct\<rparr> h))"

definition memstore_free :: "shm \<Rightarrow> ptr \<Rightarrow> shm exec" where
  "memstore_free h p = do {
     m \<leftarrow> stores h p;
     kassert (ms_rmap m = []);
     Some (h\<lparr>stores := (stores h)(p := None)\<rparr>) }"

definition shmms_alloc :: "shm \<Rightarrow> ptr \<Rightarrow> ptr \<Rightarrow> ptr \<times> shm" where
  "shmms_alloc h new ctx =
     (case memstore_alloc h new of
        (p, h) \<Rightarrow> if p \<noteq> NULL then (p, set_store p \<lparr>ms_info = ctx, ms_rmap = [], ms_cached = radix_tree_construct\<rparr> h) else (p, h))"

definition shmms_free :: "shm \<Rightarrow> ptr \<Rightarrow> shm exec" where
  "shmms_free h p = memstore_free h p"

section \<open>Contexts\<close>

fun find_name :: "string \<Rightarrow> shm \<Rightarrow> ptr list \<Rightarrow> ptr exec" where
  "find_name name h [] = Some NULL"
| "find_name name h (p # ps) = do { c \<leftarrow> ctxs h p; if name = c_name c then Some p else find_name name h ps }"

text \<open>\<open>NULL\<close> stands for ERR_NOTEXIST, a context for ERR_OK with the context stored.\<close>

definition getContextByHandle :: "shm \<Rightarrow> string \<Rightarrow> bool \<Rightarrow> ptr \<Rightarrow> ptr exec" where
  "getContextByHandle h name mapped p = do {
     c \<leftarrow> find_name name h (ctable h);
     if c \<noteq> NULL \<and> mapped then do {
       ctx \<leftarrow> ctxs h c;
       m \<leftarrow> stores h (c_store ctx);
       Some (if list_ex (\<lambda>(q, _). q = p) (ms_rmap m) then c else NULL) }
     else Some c }"

definition contextInit :: "shm \<Rightarrow> ptr \<Rightarrow> ptr \<Rightarrow> string \<Rightarrow> 32 word \<Rightarrow> 32 word \<Rightarrow> err_t \<times> shm" where
  "contextInit h new_store p name n flag =
     (let h = set_ctx p \<lparr>c_name = name, c_store = NULL, c_lock_by = 0, c_size = 0, c_refcnt = 0, c_flag = 0\<rparr> h in
      case shmms_alloc h new_store p of
        (st, h) \<Rightarrow>
          if st = NULL then (ERR_NOMEM, h)
          else (ERR_OK, set_ctx p \<lparr>c_name = name, c_store = st, c_lock_by = -1, c_size = n, c_refcnt = 0, c_flag = flag\<rparr> h))"

definition smem_sys_init :: "vm \<Rightarrow> shm" where
  "smem_sys_init v = \<lparr>vmst = v, ctable = [], ctxs = (\<lambda>_. None), stores = (\<lambda>_. None), rnodes = (\<lambda>_. None)\<rparr>"

definition createSharedRegion :: "shm \<Rightarrow> ptr \<Rightarrow> ptr \<Rightarrow> string \<Rightarrow> 32 word \<Rightarrow> 32 word \<Rightarrow> (err_t \<times> shm) exec" where
  "createSharedRegion h new_ctx new_store name n flag = do {
     c \<leftarrow> getContextByHandle h name False NULL;
     if c \<noteq> NULL then Some (ERR_EXIST, h)
     else if new_ctx = NULL then Some (ERR_NOMEM, h)
     else case contextInit h new_store new_ctx name n flag of
       (err, h) \<Rightarrow>
         if err \<noteq> ERR_OK then Some (ERR_NOMEM, h\<lparr>ctxs := (ctxs h)(new_ctx := None)\<rparr>)
         else Some (ERR_OK, h\<lparr>ctable := ctable h @ [new_ctx]\<rparr>) }"

definition destroySharedRegion_Internal :: "shm \<Rightarrow> ptr \<Rightarrow> 32 word \<Rightarrow> (err_t \<times> shm) exec" where
  "destroySharedRegion_Internal h p forceDestroy = do {
     c \<leftarrow> ctxs h p;
     if c_refcnt c \<noteq> 0 then Some (ERR_MAPPED, h)
     else if (c_flag c AND RS_PERSIST) AND NOT forceDestroy \<noteq> 0 then Some (ERR_PERSIST, h)
     else do {
       let h = h\<lparr>ctable := remove1 p (ctable h)\<rparr>;
       h \<leftarrow> shmms_free h (c_store c);
       Some (ERR_OK, h\<lparr>ctxs := (ctxs h)(p := None)\<rparr>) } }"

definition destroySharedRegion :: "shm \<Rightarrow> string \<Rightarrow> (err_t \<times> shm) exec" where
  "destroySharedRegion h name = do {
     p \<leftarrow> getContextByHandle h name False NULL;
     if p = NULL then Some (ERR_NOTEXIST, h)
     else do { c \<leftarrow> ctxs h p; destroySharedRegion_Internal h p (c_flag c AND RS_PERSIST) } }"

section \<open>Mappings\<close>

text \<open>The size in bytes is a product of C ints, extended with its sign to a size.\<close>

definition region_bytes :: "smemcontext \<Rightarrow> u64" where
  "region_bytes c = scast (c_size c * 4096)"

definition createMapping_Internal ::
  "shm \<Rightarrow> ptr \<Rightarrow> bool \<Rightarrow> vaddr_t \<Rightarrow> ptr \<Rightarrow> ptr \<Rightarrow> ptr \<Rightarrow> (err_t \<times> vaddr_t \<times> shm) exec" where
  "createMapping_Internal h new_mr node_ok start p ctx mr = do {
     c \<leftarrow> ctxs h ctx;
     (mr, v) \<leftarrow>
       (if mr = NULL then
          as_map_memregion (vmst h) new_mr p (if start = 0 then ADDR_ANYWHERE else start) (region_bytes c)
            MEMPERM_URW (c_store c) 0 True
        else Some (mr, vmst h));
     let h = h\<lparr>vmst := v\<rparr>;
     if mr = NULL then Some (ERR_NOMEM, start, h)
     else if \<not> node_ok then do {
       v \<leftarrow> memregion_unmap (vmst h) mr;
       Some (ERR_NOMEM, start, h\<lparr>vmst := v\<rparr>) }
     else do {
       m \<leftarrow> stores h (c_store c);
       r \<leftarrow> regs (vmst h) mr;
       Some (ERR_OK, mr_start r,
         set_ctx ctx (c\<lparr>c_refcnt := c_refcnt c + 1\<rparr>)
           (set_store (c_store c) (m\<lparr>ms_rmap := ms_rmap m @ [(p, mr)]\<rparr>) h)) } }"

definition addContextRef :: "shm \<Rightarrow> bool \<Rightarrow> ptr \<Rightarrow> vaddr_t \<Rightarrow> ptr \<Rightarrow> ptr \<Rightarrow> shm exec" where
  "addContextRef h node_ok ctx start p mr = do {
     (err, _, h) \<leftarrow> createMapping_Internal h NULL node_ok start p ctx mr;
     Some h }"

definition createMapping ::
  "shm \<Rightarrow> ptr \<Rightarrow> bool \<Rightarrow> string \<Rightarrow> vaddr_t \<Rightarrow> ptr \<Rightarrow> (err_t \<times> vaddr_t \<times> shm) exec" where
  "createMapping h new_mr node_ok name region_beg p = do {
     c \<leftarrow> getContextByHandle h name False NULL;
     if c = NULL then Some (ERR_NOTEXIST, region_beg, h)
     else createMapping_Internal h new_mr node_ok region_beg p c NULL }"

fun find_node :: "vm \<Rightarrow> ptr \<Rightarrow> vaddr_t \<Rightarrow> (ptr \<times> ptr) list \<Rightarrow> (ptr \<times> ptr) option exec" where
  "find_node s p vaddr [] = Some None"
| "find_node s p vaddr ((q, mr) # ns) =
     (if q = p then do {
        r \<leftarrow> regs s mr;
        if vaddr \<ge> mr_start r \<and> vaddr < mr_end r then Some (Some (q, mr)) else find_node s p vaddr ns }
      else find_node s p vaddr ns)"

definition find_remove_rmapping :: "shm \<Rightarrow> ptr \<Rightarrow> ptr \<Rightarrow> vaddr_t \<Rightarrow> (ptr option \<times> shm) exec" where
  "find_remove_rmapping h ctx p vaddr = do {
     c \<leftarrow> ctxs h ctx;
     m \<leftarrow> stores h (c_store c);
     n \<leftarrow> find_node (vmst h) p vaddr (ms_rmap m);
     Some (case n of
       None \<Rightarrow> (None, h)
     | Some nd \<Rightarrow> (Some (snd nd), set_store (c_store c) (m\<lparr>ms_rmap := remove1 nd (ms_rmap m)\<rparr>) h)) }"

definition destroyMapping_Internal :: "shm \<Rightarrow> ptr \<Rightarrow> ptr \<Rightarrow> bool \<Rightarrow> (err_t \<times> shm) exec" where
  "destroyMapping_Internal h ctx mr forceDestroy = do {
     v \<leftarrow> memregion_unmap (vmst h) mr;
     let h = h\<lparr>vmst := v\<rparr>;
     c \<leftarrow> ctxs h ctx;
     let c = c\<lparr>c_refcnt := c_refcnt c - 1\<rparr>;
     let h = set_ctx ctx c h;
     if c_refcnt c = 0 \<and> c_flag c AND RS_PERSIST = 0 \<and> forceDestroy then destroySharedRegion_Internal h ctx 0
     else Some (ERR_OK, h) }"

definition destroyMapping :: "shm \<Rightarrow> string \<Rightarrow> vaddr_t \<Rightarrow> ptr \<Rightarrow> (err_t \<times> shm) exec" where
  "destroyMapping h name vaddr p = do {
     c \<leftarrow> getContextByHandle h name True p;
     if c = NULL then Some (ERR_NOTEXIST, h)
     else do {
       (n, h) \<leftarrow> find_remove_rmapping h c p vaddr;
       case n of
         None \<Rightarrow> Some (ERR_NOTEXIST, h)
       | Some mr \<Rightarrow> destroyMapping_Internal h c mr False } }"

definition unmapAll :: "shm \<Rightarrow> ptr \<Rightarrow> shm exec" where
  "unmapAll h mr = do {
     r \<leftarrow> regs (vmst h) mr;
     m \<leftarrow> stores h (mr_store r);
     kassert (ms_info m \<noteq> NULL);
     (n, h) \<leftarrow> find_remove_rmapping h (ms_info m) (mr_as r) (mr_start r);
     case n of
       None \<Rightarrow> Some h
     | Some _ \<Rightarrow> do { (err, h) \<leftarrow> destroyMapping_Internal h (ms_info m) mr True; Some h } }"

section \<open>Locks\<close>

text \<open>A pass of lockRegion from where it holds the table lock: it returns, or sleeps on the one condition
  variable of all regions.  A woken thread runs \<open>lock_resume\<close>, with the context it found before.\<close>

datatype lock_outcome = LReturn err_t shm | LSleep ptr

definition lock_resume :: "shm \<Rightarrow> tid_t \<Rightarrow> ptr \<Rightarrow> lock_outcome exec" where
  "lock_resume h t ctx = do {
     c \<leftarrow> ctxs h ctx;
     Some (if c_lock_by c \<noteq> t \<and> c_lock_by c \<noteq> -1 then LSleep ctx
           else LReturn ERR_OK (set_ctx ctx (c\<lparr>c_lock_by := t\<rparr>) h)) }"

definition lockRegion :: "shm \<Rightarrow> tid_t \<Rightarrow> string \<Rightarrow> ptr \<Rightarrow> lock_outcome exec" where
  "lockRegion h t name p = do {
     c \<leftarrow> getContextByHandle h name True p;
     if c = NULL then Some (LReturn ERR_NOTEXIST h) else lock_resume h t c }"

text \<open>The second component of the result tells whether a waiter is signalled.\<close>

definition unlockRegion :: "shm \<Rightarrow> tid_t \<Rightarrow> string \<Rightarrow> ptr \<Rightarrow> (err_t \<times> bool \<times> shm) exec" where
  "unlockRegion h t name p = do {
     c \<leftarrow> getContextByHandle h name True p;
     if c = NULL then Some (ERR_NOTEXIST, False, h)
     else do {
       ctx \<leftarrow> ctxs h c;
       if c_lock_by ctx \<noteq> t then Some (ERR_INVAL, False, h)
       else Some (ERR_OK, True, set_ctx c (ctx\<lparr>c_lock_by := -1\<rparr>) h) } }"

section \<open>The store's pages\<close>

definition fillpage :: "vps \<Rightarrow> nat \<Rightarrow> err_t \<times> vps" where
  "fillpage v pg = (ERR_OK, v\<lparr>pgdata := (pgdata v)(pg := (\<lambda>_. 0))\<rparr>)"

section \<open>Invariant\<close>

text \<open>A node of a reverse mapping names a shared region of its space that is backed by the store.\<close>

definition node_inv :: "vm \<Rightarrow> ptr \<Rightarrow> ptr \<times> ptr \<Rightarrow> bool" where
  "node_inv v st n \<longleftrightarrow> (\<exists>r a. regs v (snd n) = Some r \<and> mr_as r = fst n \<and> mr_store r = st \<and> mr_shared r
     \<and> spaces v (fst n) = Some a \<and> snd n \<in> set (as_regions a))"

definition ctx_inv :: "shm \<Rightarrow> ptr \<Rightarrow> smemcontext \<Rightarrow> bool" where
  "ctx_inv h p c \<longleftrightarrow> (\<exists>m. stores h (c_store c) = Some m \<and> ms_info m = p \<and> c_refcnt c = int (length (ms_rmap m))
     \<and> distinct (map snd (ms_rmap m)) \<and> (\<forall>n \<in> set (ms_rmap m). node_inv (vmst h) (c_store c) n))"

definition shm_inv :: "shm \<Rightarrow> bool" where
  "shm_inv h \<longleftrightarrow> vm_inv (vmst h) \<and> distinct (ctable h) \<and> NULL \<notin> set (ctable h)
     \<and> (\<forall>p \<in> set (ctable h). \<exists>c. ctxs h p = Some c \<and> ctx_inv h p c)
     \<and> (\<forall>p \<in> set (ctable h). \<forall>q \<in> set (ctable h). c_name (the (ctxs h p)) = c_name (the (ctxs h q)) \<longrightarrow> p = q)"

lemma shm_invD:
  assumes "shm_inv h"
  shows "vm_inv (vmst h)" "distinct (ctable h)" "NULL \<notin> set (ctable h)"
    "p \<in> set (ctable h) \<Longrightarrow> \<exists>c. ctxs h p = Some c \<and> ctx_inv h p c"
    "p \<in> set (ctable h) \<Longrightarrow> q \<in> set (ctable h) \<Longrightarrow> c_name (the (ctxs h p)) = c_name (the (ctxs h q)) \<Longrightarrow> p = q"
  using assms by (auto simp: shm_inv_def)

lemma shm_invI:
  assumes "vm_inv (vmst h)" "distinct (ctable h)" "NULL \<notin> set (ctable h)"
    and "\<And>p. p \<in> set (ctable h) \<Longrightarrow> \<exists>c. ctxs h p = Some c \<and> ctx_inv h p c"
    and "\<And>p q. p \<in> set (ctable h) \<Longrightarrow> q \<in> set (ctable h) \<Longrightarrow>
      c_name (the (ctxs h p)) = c_name (the (ctxs h q)) \<Longrightarrow> p = q"
  shows "shm_inv h"
  using assms by (simp add: shm_inv_def)

lemma ctx_inv_store:
  assumes "ctx_inv h p c" "ctx_inv h q d" "c_store c = c_store d"
  shows "p = q"
  using assms by (auto simp: ctx_inv_def)

text \<open>Changing nothing a context rests on keeps its invariant.\<close>

lemma ctx_inv_cong:
  assumes "ctx_inv h p c" "stores h' (c_store c) = stores h (c_store c)"
    and "\<And>m n. stores h (c_store c) = Some m \<Longrightarrow> n \<in> set (ms_rmap m) \<Longrightarrow> node_inv (vmst h) (c_store c) n \<Longrightarrow>
      node_inv (vmst h') (c_store c) n"
  shows "ctx_inv h' p c"
  using assms unfolding ctx_inv_def by fastforce

subsection \<open>Looking up\<close>

lemma find_name_ok:
  assumes "\<forall>p \<in> set ps. ctxs h p \<noteq> None" "NULL \<notin> set ps"
  shows "\<exists>p. find_name name h ps = Some p \<and>
    (if p = NULL then \<forall>q \<in> set ps. c_name (the (ctxs h q)) \<noteq> name
     else p \<in> set ps \<and> c_name (the (ctxs h p)) = name)"
  using assms
proof (induction ps)
  case (Cons p ps)
  obtain c where c: "ctxs h p = Some c" using Cons.prems(1) by auto
  have ps: "\<forall>p \<in> set ps. ctxs h p \<noteq> None" "NULL \<notin> set ps" "p \<noteq> NULL" using Cons.prems by auto
  obtain q where q: "find_name name h ps = Some q"
    "if q = NULL then \<forall>q \<in> set ps. c_name (the (ctxs h q)) \<noteq> name else q \<in> set ps \<and> c_name (the (ctxs h q)) = name"
    using Cons.IH [OF ps(1,2)] by blast
  show ?case
  proof (cases "name = c_name c")
    case True
    then show ?thesis using c ps by simp
  next
    case False
    then show ?thesis using c q ps by (intro exI [of _ q]) (simp split: if_splits)
  qed
qed simp

definition named :: "shm \<Rightarrow> string \<Rightarrow> ptr \<Rightarrow> bool" where
  "named h name p \<longleftrightarrow> p \<in> set (ctable h) \<and> c_name (the (ctxs h p)) = name"

lemma named_unique: "shm_inv h \<Longrightarrow> named h name p \<Longrightarrow> named h name q \<Longrightarrow> p = q"
  using shm_invD(5) by (auto simp: named_def)

lemma named_ctx:
  assumes "shm_inv h" "named h name p"
  shows "p \<noteq> NULL" "\<exists>c. ctxs h p = Some c \<and> ctx_inv h p c \<and> c_name c = name"
  using shm_invD(3,4) [OF assms(1)] assms(2) by (metis named_def, fastforce simp: named_def)

lemma get_any:
  assumes "shm_inv h"
  shows "\<exists>p. getContextByHandle h name False q = Some p \<and>
    (if p = NULL then \<forall>x. \<not> named h name x else named h name p)"
proof -
  have "\<forall>p \<in> set (ctable h). ctxs h p \<noteq> None" using shm_invD(4) [OF assms] by auto
  from find_name_ok [OF this shm_invD(3) [OF assms], of name] obtain p where
    "find_name name h (ctable h) = Some p"
    "if p = NULL then \<forall>q \<in> set (ctable h). c_name (the (ctxs h q)) \<noteq> name
     else p \<in> set (ctable h) \<and> c_name (the (ctxs h p)) = name" by blast
  then show ?thesis by (intro exI [of _ p]) (auto simp: getContextByHandle_def named_def split: if_splits)
qed

text \<open>The result of a lookup restricted to mapped regions.\<close>

lemma get_mapped:
  assumes inv: "shm_inv h"
  shows "\<exists>p. getContextByHandle h name True q = Some p \<and>
    (if p = NULL then \<forall>x c m. named h name x \<longrightarrow> ctxs h x = Some c \<longrightarrow> stores h (c_store c) = Some m \<longrightarrow>
         q \<notin> fst ` set (ms_rmap m)
     else named h name p \<and> (\<exists>c m. ctxs h p = Some c \<and> stores h (c_store c) = Some m \<and> q \<in> fst ` set (ms_rmap m)))"
proof -
  obtain p where p: "find_name name h (ctable h) = Some p" "if p = NULL then \<forall>x. \<not> named h name x else named h name p"
    using get_any [OF inv, of name NULL] by (auto simp: getContextByHandle_def)
  show ?thesis
  proof (cases "p = NULL")
    case True
    then show ?thesis using p by (simp add: getContextByHandle_def)
  next
    case False
    then have n: "named h name p" using p by simp
    obtain c m where c: "ctxs h p = Some c" "stores h (c_store c) = Some m"
      using named_ctx(2) [OF inv n] by (auto simp: ctx_inv_def)
    have e: "list_ex (\<lambda>(x, _). x = q) (ms_rmap m) \<longleftrightarrow> q \<in> fst ` set (ms_rmap m)"
      by (force simp: list_ex_iff)
    show ?thesis
    proof (cases "q \<in> fst ` set (ms_rmap m)")
      case True
      then show ?thesis using False p(1) c n e by (auto simp: getContextByHandle_def)
    next
      case no: False
      then show ?thesis using False p(1) c e named_unique [OF inv n] by (auto simp: getContextByHandle_def)
    qed
  qed
qed

subsection \<open>Creating and destroying\<close>

lemma shm_inv_add:
  assumes inv: "shm_inv h" and c: "new_ctx \<noteq> NULL" "ctxs h new_ctx = None" "\<forall>x. \<not> named h (c_name c) x"
    and st: "stores h (c_store c) = None" "c_refcnt c = 0"
  shows "shm_inv (h\<lparr>ctable := ctable h @ [new_ctx], ctxs := (ctxs h)(new_ctx := Some c),
    stores := (stores h)(c_store c := Some \<lparr>ms_info = new_ctx, ms_rmap = [], ms_cached = radix_tree_construct\<rparr>)\<rparr>)" (is "shm_inv ?h")
proof -
  have new: "new_ctx \<notin> set (ctable h)" using shm_invD(4) [OF inv, of new_ctx] c(2) by auto
  have nm: "c_name (the (ctxs h x)) \<noteq> c_name c" if "x \<in> set (ctable h)" for x using c(3) that by (auto simp: named_def)
  have old: "\<exists>d. ctxs ?h p = Some d \<and> ctx_inv ?h p d \<and> ctxs h p = Some d" if p: "p \<in> set (ctable h)" for p
  proof -
    obtain d where d: "ctxs h p = Some d" "ctx_inv h p d" using shm_invD(4) [OF inv p] by blast
    then have "c_store d \<noteq> c_store c" using st(1) by (auto simp: ctx_inv_def)
    then have "ctx_inv ?h p d" by (intro ctx_inv_cong [OF d(2)]) auto
    then show ?thesis using d(1) new p by auto
  qed
  have i: "ctx_inv ?h new_ctx c" using st(2) by (simp add: ctx_inv_def)
  show ?thesis
  proof (rule shm_invI)
    show "vm_inv (vmst ?h)" "distinct (ctable ?h)" "NULL \<notin> set (ctable ?h)"
      using shm_invD(1-3) [OF inv] new c(1) by simp_all
    show "\<exists>d. ctxs ?h p = Some d \<and> ctx_inv ?h p d" if "p \<in> set (ctable ?h)" for p
    proof (cases "p = new_ctx")
      case True
      then show ?thesis using i by simp
    next
      case False
      then have "p \<in> set (ctable h)" using that by simp
      then show ?thesis using old by blast
    qed
    fix p q assume pq: "p \<in> set (ctable ?h)" "q \<in> set (ctable ?h)" "c_name (the (ctxs ?h p)) = c_name (the (ctxs ?h q))"
    have "ctxs ?h x = (if x = new_ctx then Some c else ctxs h x)" "set (ctable ?h) = insert new_ctx (set (ctable h))" for x
      by simp_all
    with pq have "p \<noteq> new_ctx \<Longrightarrow> p \<in> set (ctable h)" "q \<noteq> new_ctx \<Longrightarrow> q \<in> set (ctable h)"
      "c_name (if p = new_ctx then c else the (ctxs h p)) = c_name (if q = new_ctx then c else the (ctxs h q))"
      by (auto split: if_splits)
    then show "p = q" using nm shm_invD(5) [OF inv] by metis
  qed
qed

lemma shm_inv_remove:
  assumes inv: "shm_inv h" and p: "p \<in> set (ctable h)" "ctxs h p = Some c"
  shows "shm_inv (h\<lparr>ctable := remove1 p (ctable h), ctxs := (ctxs h)(p := None),
    stores := (stores h)(c_store c := None)\<rparr>)" (is "shm_inv ?h")
proof -
  have d: "distinct (ctable h)" using shm_invD(2) [OF inv] .
  then have s: "set (remove1 p (ctable h)) = set (ctable h) - {p}" by simp
  have i: "ctx_inv h p c" using shm_invD(4) [OF inv p(1)] p(2) by auto
  have old: "\<exists>d. ctxs ?h q = Some d \<and> ctx_inv ?h q d \<and> ctxs h q = Some d" if q: "q \<in> set (ctable h) - {p}" for q
  proof -
    obtain d where d: "ctxs h q = Some d" "ctx_inv h q d" using shm_invD(4) [OF inv, of q] q by blast
    have "c_store d \<noteq> c_store c" using ctx_inv_store [OF d(2) i] q by blast
    then have "ctx_inv ?h q d" by (intro ctx_inv_cong [OF d(2)]) auto
    then show ?thesis using d(1) q by auto
  qed
  have "x = y" if "x \<in> set (ctable h) - {p}" "y \<in> set (ctable h) - {p}" "c_name (the (ctxs ?h x)) = c_name (the (ctxs ?h y))" for x y
    using that shm_invD(5) [OF inv, of x y] by auto
  then show ?thesis using inv d old unfolding shm_inv_def by (auto simp: s)
qed

lemma destroy_internal_ok:
  assumes inv: "shm_inv h" and p: "p \<in> set (ctable h)" "ctxs h p = Some c"
  shows "destroySharedRegion_Internal h p force =
    (if c_refcnt c \<noteq> 0 then Some (ERR_MAPPED, h)
     else if (c_flag c AND RS_PERSIST) AND NOT force \<noteq> 0 then Some (ERR_PERSIST, h)
     else Some (ERR_OK, h\<lparr>ctable := remove1 p (ctable h), ctxs := (ctxs h)(p := None),
       stores := (stores h)(c_store c := None)\<rparr>))"
proof -
  obtain m where "stores h (c_store c) = Some m" "c_refcnt c = int (length (ms_rmap m))"
    using shm_invD(4) [OF inv p(1)] p(2) by (auto simp: ctx_inv_def)
  then show ?thesis using p by (simp add: destroySharedRegion_Internal_def shmms_free_def memstore_free_def Let_def)
qed

subsection \<open>Adding and removing a mapping\<close>

text \<open>Replacing one context and its store, and the memory state, when all other nodes stay valid.\<close>

lemma shm_inv_update:
  assumes inv: "shm_inv h" and p: "p \<in> set (ctable h)" "ctxs h p = Some c" and v: "vm_inv v"
    and c': "c_store c' = c_store c" "c_name c' = c_name c"
    and new: "ctx_inv (h\<lparr>vmst := v, ctxs := (ctxs h)(p := Some c'), stores := (stores h)(c_store c := Some m)\<rparr>) p c'"
    and keep: "\<And>st n. st \<noteq> c_store c \<Longrightarrow> node_inv (vmst h) st n \<Longrightarrow> node_inv v st n"
  shows "shm_inv (h\<lparr>vmst := v, ctxs := (ctxs h)(p := Some c'), stores := (stores h)(c_store c := Some m)\<rparr>)" (is "shm_inv ?h")
proof (rule shm_invI)
  have i: "ctx_inv h p c" using shm_invD(4) [OF inv p(1)] p(2) by auto
  show "vm_inv (vmst ?h)" "distinct (ctable ?h)" "NULL \<notin> set (ctable ?h)" using shm_invD(2,3) [OF inv] v by simp_all
  show "\<exists>d. ctxs ?h q = Some d \<and> ctx_inv ?h q d" if q: "q \<in> set (ctable ?h)" for q
  proof (cases "q = p")
    case True
    then show ?thesis using new by simp
  next
    case False
    obtain d where d: "ctxs h q = Some d" "ctx_inv h q d" using shm_invD(4) [OF inv, of q] q by auto
    have ne: "c_store d \<noteq> c_store c" using ctx_inv_store [OF d(2) i] False by blast
    have "ctx_inv ?h q d"
      by (rule ctx_inv_cong [OF d(2)]) (use ne keep [OF ne] in simp_all)
    then show ?thesis using d(1) False by simp
  qed
  have nm: "c_name (the (ctxs ?h x)) = c_name (the (ctxs h x))" for x using c'(2) p(2) by simp
  show "x = y" if "x \<in> set (ctable ?h)" "y \<in> set (ctable ?h)" "c_name (the (ctxs ?h x)) = c_name (the (ctxs ?h y))" for x y
    using that(1,2) shm_invD(5) [OF inv, of x y] that(3) unfolding nm by simp
qed

lemma node_inv_map:
  assumes "mapped_at v p a new r v'" "spaces v p = Some a" "regs v new = None" "node_inv v st n"
  shows "node_inv v' st n"
proof -
  obtain x b where x: "regs v (snd n) = Some x" "mr_as x = fst n" "mr_store x = st" "mr_shared x"
    "spaces v (fst n) = Some b" "snd n \<in> set (as_regions b)"
    using assms(4) by (auto simp: node_inv_def)
  obtain a' where a': "regs v' = (regs v)(new := Some r)" "spaces v' = (spaces v)(p := Some a')"
    "set (as_regions a') = insert new (set (as_regions a))"
    using assms(1) by (auto simp: mapped_at_def)
  have "snd n \<noteq> new" using x(1) assms(3) by auto
  then have "regs v' (snd n) = Some x" using x(1) a'(1) by simp
  moreover have "\<exists>b'. spaces v' (fst n) = Some b' \<and> snd n \<in> set (as_regions b')"
    using x(5,6) a'(2,3) assms(2) by (cases "fst n = p") auto
  ultimately show ?thesis using x(2-4) by (auto simp: node_inv_def)
qed

lemma node_inv_unmap:
  assumes "node_inv v st n" "snd n \<noteq> mr" "regs v' = (regs v)(mr := None)" "spaces v' = (spaces v)(p := Some a')"
    and "spaces v p = Some a" "set (as_regions a') = set (as_regions a) - {mr}"
  shows "node_inv v' st n"
  using assms by (auto simp: node_inv_def)

lemma shm_inv_map:
  assumes inv: "shm_inv h" and c: "ctx \<in> set (ctable h)" "ctxs h ctx = Some c" "stores h (c_store c) = Some m"
    and v: "vm_inv v" "mapped_at (vmst h) p a new r v" "spaces (vmst h) p = Some a" "regs (vmst h) new = None"
    and r: "mr_as r = p" "mr_store r = c_store c" "mr_shared r"
  shows "shm_inv (h\<lparr>vmst := v, ctxs := (ctxs h)(ctx := Some (c\<lparr>c_refcnt := c_refcnt c + 1\<rparr>)),
    stores := (stores h)(c_store c := Some (m\<lparr>ms_rmap := ms_rmap m @ [(p, new)]\<rparr>))\<rparr>)"
proof (rule shm_inv_update [OF inv c(1,2) v(1)])
  note keep = node_inv_map [OF v(2,3,4)]
  have i: "ctx_inv h ctx c" using shm_invD(4) [OF inv c(1)] c(2) by auto
  then have n: "\<forall>n \<in> set (ms_rmap m). node_inv (vmst h) (c_store c) n" "ms_info m = ctx"
    "c_refcnt c = int (length (ms_rmap m))" "distinct (map snd (ms_rmap m))" using c(3) by (auto simp: ctx_inv_def)
  have "new \<notin> snd ` set (ms_rmap m)" using n(1) v(4) by (auto simp: node_inv_def)
  moreover have "node_inv v (c_store c) (p, new)" using v(2) r by (auto simp: node_inv_def mapped_at_def)
  ultimately show "ctx_inv (h\<lparr>vmst := v, ctxs := (ctxs h)(ctx := Some (c\<lparr>c_refcnt := c_refcnt c + 1\<rparr>)),
    stores := (stores h)(c_store c := Some (m\<lparr>ms_rmap := ms_rmap m @ [(p, new)]\<rparr>))\<rparr>) ctx (c\<lparr>c_refcnt := c_refcnt c + 1\<rparr>)"
    using n keep by (auto simp: ctx_inv_def)
  show "node_inv v st x" if "node_inv (vmst h) st x" for st x using keep [OF that] .
qed simp_all

lemma shm_inv_unmap:
  assumes inv: "shm_inv h" and c: "ctx \<in> set (ctable h)" "ctxs h ctx = Some c" "stores h (c_store c) = Some m"
    and v: "vm_inv v" "regs v = (regs (vmst h))(mr := None)" "spaces v = (spaces (vmst h))(p := Some a')"
      "spaces (vmst h) p = Some a" "set (as_regions a') = set (as_regions a) - {mr}"
    and n: "(p, mr) \<in> set (ms_rmap m)"
  shows "shm_inv (h\<lparr>vmst := v, ctxs := (ctxs h)(ctx := Some (c\<lparr>c_refcnt := c_refcnt c - 1\<rparr>)),
    stores := (stores h)(c_store c := Some (m\<lparr>ms_rmap := remove1 (p, mr) (ms_rmap m)\<rparr>))\<rparr>)"
proof (rule shm_inv_update [OF inv c(1,2) v(1)])
  note keep = node_inv_unmap [OF _ _ v(2,3,4,5)]
  have i: "ctx_inv h ctx c" using shm_invD(4) [OF inv c(1)] c(2) by auto
  then have x: "\<forall>n \<in> set (ms_rmap m). node_inv (vmst h) (c_store c) n" "ms_info m = ctx"
    "c_refcnt c = int (length (ms_rmap m))" "distinct (map snd (ms_rmap m))" using c(3) by (auto simp: ctx_inv_def)
  have "distinct (ms_rmap m)" using x(4) by (simp add: distinct_map)
  then have s: "set (remove1 (p, mr) (ms_rmap m)) = set (ms_rmap m) - {(p, mr)}" by simp
  have ne: "snd y \<noteq> mr" if "y \<in> set (ms_rmap m) - {(p, mr)}" for y
    using that n x(4) by (auto simp: distinct_map inj_on_def)
  have "distinct (map snd (remove1 (p, mr) (ms_rmap m)))"
    using x(4) s \<open>distinct (ms_rmap m)\<close> by (simp add: distinct_map inj_on_diff)
  moreover have "ms_rmap m \<noteq> []" using n by auto
  ultimately show "ctx_inv (h\<lparr>vmst := v, ctxs := (ctxs h)(ctx := Some (c\<lparr>c_refcnt := c_refcnt c - 1\<rparr>)),
    stores := (stores h)(c_store c := Some (m\<lparr>ms_rmap := remove1 (p, mr) (ms_rmap m)\<rparr>))\<rparr>) ctx (c\<lparr>c_refcnt := c_refcnt c - 1\<rparr>)"
    using x s ne keep n by (auto simp: ctx_inv_def length_remove1 of_nat_diff Suc_le_eq)
  show "node_inv v st y" if "st \<noteq> c_store c" "node_inv (vmst h) st y" for st y
  proof (rule keep [OF that(2)])
    show "snd y \<noteq> mr" using that x(1) n by (auto simp: node_inv_def)
  qed
qed simp_all

lemma region_bytes_small:
  assumes "unat (c_size c) < 2 ^ 19"
  shows "unat (region_bytes c) = unat (c_size c) * 4096"
proof -
  define k where "k = unat (c_size c) * 4096"
  have k: "k < 2 ^ 31" using assms by (simp add: k_def)
  have u: "unat (c_size c * 4096) = k" using k by (simp add: unat_word_ariths k_def)
  then have "uint (c_size c * 4096) = int k" by (metis uint_nat)
  then have "sint (c_size c * 4096) = int k" using k by (simp add: sint_uint signed_take_bit_int_eq_self)
  then have "region_bytes c = of_nat k" by (simp add: region_bytes_def scast_eq)
  moreover have "unat (of_nat k :: u64) = k" using k by (simp add: unat_of_nat take_bit_nat_eq_self)
  ultimately show ?thesis by (simp add: k_def)
qed

lemma find_node_ok:
  assumes "\<forall>n \<in> set ns. node_inv v st n"
  shows "\<exists>x. find_node v p vaddr ns = Some x \<and>
    (case x of None \<Rightarrow> \<forall>n \<in> set ns. fst n = p \<longrightarrow> \<not> (rstart v (snd n) \<le> vaddr \<and> vaddr < rend v (snd n))
     | Some n \<Rightarrow> n \<in> set ns \<and> fst n = p \<and> rstart v (snd n) \<le> vaddr \<and> vaddr < rend v (snd n))"
  using assms
proof (induction ns)
  case (Cons n ns)
  obtain q mr where n: "n = (q, mr)" by (cases n)
  obtain r where r: "regs v mr = Some r" using Cons.prems n by (auto simp: node_inv_def)
  obtain x where x: "find_node v p vaddr ns = Some x"
    "case x of None \<Rightarrow> \<forall>n \<in> set ns. fst n = p \<longrightarrow> \<not> (rstart v (snd n) \<le> vaddr \<and> vaddr < rend v (snd n))
     | Some n \<Rightarrow> n \<in> set ns \<and> fst n = p \<and> rstart v (snd n) \<le> vaddr \<and> vaddr < rend v (snd n)"
    using Cons by auto
  show ?case
  proof (cases "q = p \<and> mr_start r \<le> vaddr \<and> vaddr < mr_end r")
    case True
    then show ?thesis using n r by auto
  next
    case False
    then have "find_node v p vaddr (n # ns) = Some x" using n r x(1) by auto
    then show ?thesis using False n r x(2) by (cases x) auto
  qed
qed simp

subsection \<open>Sizes that overflow an int\<close>

text \<open>A region of \<open>2 ^ 20 - k\<close> pages, for \<open>k\<close> up to \<open>2 ^ 19\<close>, has the size \<open>- 4096 * k\<close> in bytes.\<close>

lemma region_bytes_wrap:
  assumes "unat (c_size c) + k = 2 ^ 20" "0 < k" "k \<le> 2 ^ 19"
  shows "region_bytes c = - of_nat (4096 * k)"
proof -
  have "of_nat (unat (c_size c)) + of_nat k = (of_nat (2 ^ 20) :: 32 word)" unfolding assms(1) [symmetric] by simp
  then have "c_size c = 2 ^ 20 - of_nat k" by (simp add: eq_diff_eq)
  then have e: "c_size c * 4096 = word_of_int (- int (4096 * k))" by (simp add: left_diff_distrib)
  have "- (2 ^ 31) \<le> - int (4096 * k)" "- int (4096 * k) < 2 ^ 31" using assms(2,3) by simp_all
  then have "sint (c_size c * 4096) = - int (4096 * k)"
    unfolding e sint_sbintrunc' by (simp add: signed_take_bit_int_eq_self)
  then show ?thesis by (simp add: region_bytes_def scast_eq)
qed

lemma low_addr_minus:
  assumes a: "low_addr addr" and X: "4096 dvd X" "X \<le> 2 ^ 31"
  shows low_addr_minus_less: "X \<le> unat addr \<Longrightarrow> unat (pg_round_up (addr - of_nat X)) = unat addr - X"
    and low_addr_minus_wrap: "unat addr < X \<Longrightarrow> USTACK_UPPERBOUND < pg_round_up (addr - of_nat X)"
    and low_addr_minus_unat: "X \<le> unat addr \<Longrightarrow> unat (addr - of_nat X) = unat addr - X"
    and round_up_minus: "pg_round_up (- of_nat X) = - (of_nat X :: u64)"
proof -
  have x: "unat (of_nat X :: u64) = X" using X(2) by (simp add: unat_of_nat take_bit_nat_eq_self)
  have d: "4096 dvd unat addr" using a by (simp add: low_addr_def pg_aligned_iff)
  have r: "pg_round_up (addr - of_nat X) = addr - of_nat X"
  proof (rule pg_round_up_aligned)
    show "4096 dvd unat (addr - of_nat X)" unfolding unat_sub_if' x using d X(1)
      by (auto intro!: dvd_diff_nat dvd_add)
  qed
  show s: "X \<le> unat addr \<Longrightarrow> unat (addr - of_nat X) = unat addr - X" by (simp add: unat_sub_if' x)
  then show "X \<le> unat addr \<Longrightarrow> unat (pg_round_up (addr - of_nat X)) = unat addr - X" unfolding r .
  show "USTACK_UPPERBOUND < pg_round_up (addr - of_nat X)" if "unat addr < X"
    unfolding r using that X(2) by (simp add: word_less_nat_alt unat_sub_if' x USTACK_UPPERBOUND_def)
  have "unat (0 - of_nat X :: u64) = (if X = 0 then 0 else 2 ^ 64 - X)" unfolding unat_sub_if' x by simp
  then have "4096 dvd unat (- of_nat X :: u64)" using X(1) by (auto intro!: dvd_diff_nat)
  then show "pg_round_up (- of_nat X) = - (of_nat X :: u64)" by (rule pg_round_up_aligned)
qed

lemma free_loop_wrap:
  assumes "low_addr addr" "\<forall>n \<in> set ns. regs s n \<noteq> None \<and> rstart s n \<le> rend s n \<and> rend s n \<le> USTACK_UPPERBOUND"
    and X: "4096 dvd X" "X \<le> 2 ^ 31"
  shows "\<exists>x. free_vaddr_loop s (- of_nat X) addr ns = Some x \<and>
    (case x of Inl a \<Rightarrow> low_addr a \<and> X \<le> unat a
     | Inr a \<Rightarrow> a = (if ns = [] then addr else pg_round_up (rend s (last ns))))"
  using assms(1,2)
proof (induction ns arbitrary: addr)
  case (Cons n ns)
  obtain r where r: "regs s n = Some r" "mr_start r \<le> mr_end r" "mr_end r \<le> USTACK_UPPERBOUND" using Cons.prems(2) by auto
  show ?case
  proof (cases "pg_round_up (addr + - of_nat X) < mr_start r")
    case True
    have "\<not> unat addr < X"
    proof
      assume "unat addr < X"
      from low_addr_minus_wrap [OF Cons.prems(1) X this] True r(2,3) show False by simp
    qed
    then show ?thesis using True r(1) Cons.prems(1) by simp
  next
    case False
    have "low_addr (pg_round_up (mr_end r))" using low_addr_round_up [OF r(3)] by blast
    from Cons.IH [OF this] Cons.prems(2) False r(1) show ?thesis by (auto split: sum.splits if_splits)
  qed
qed simp

section \<open>A small instance\<close>

text \<open>On the small address spaces of \<open>Vm\<close>: an unmapped region of two pages in context 200 and store 300.\<close>

definition small_shm :: shm where
  "small_shm = \<lparr>vmst = small_vm, ctable = [200],
     ctxs = [200 \<mapsto> \<lparr>c_name = ''shm'', c_store = 300, c_lock_by = -1, c_size = 2, c_refcnt = 0, c_flag = RS_PERSIST\<rparr>],
     stores = [300 \<mapsto> \<lparr>ms_info = 200, ms_rmap = [], ms_cached = radix_tree_construct\<rparr>], rnodes = (\<lambda>_. None)\<rparr>"

lemma small_shm_inv: "shm_inv small_shm"
  using small_vm_inv by (simp add: shm_inv_def small_shm_def ctx_inv_def)

lemma small_named: "named small_shm = (\<lambda>name x. x = 200 \<and> name = ''shm'')"
  by (auto simp: named_def small_shm_def fun_eq_iff)

text \<open>The same with the second region of space 100 being a mapping of the shared region.\<close>

definition mapped_vm :: vm where
  "mapped_vm = small_vm\<lparr>regs := (regs small_vm)(11 := Some ((small_region 0x5000 0x6000)\<lparr>mr_shared := True, mr_store := 300\<rparr>))\<rparr>"

definition mapped_shm :: shm where
  "mapped_shm = small_shm\<lparr>vmst := mapped_vm,
     ctxs := [200 \<mapsto> \<lparr>c_name = ''shm'', c_store = 300, c_lock_by = -1, c_size = 1, c_refcnt = 1, c_flag = 0\<rparr>],
     stores := [300 \<mapsto> \<lparr>ms_info = 200, ms_rmap = [(100, 11)], ms_cached = radix_tree_construct\<rparr>]\<rparr>"

lemma mapped_shm_inv: "shm_inv mapped_shm"
proof -
  have "vm_inv mapped_vm"
    by (auto simp: vm_inv_def as_inv_def mapped_vm_def small_vm_def small_region_def before_def split: if_splits)
  then show ?thesis
    by (simp add: shm_inv_def mapped_shm_def small_shm_def ctx_inv_def node_inv_def)
      (simp add: mapped_vm_def small_vm_def small_region_def)
qed

section \<open>Properties\<close>

text \<open>createSharedRegion returns and keeps the invariant of the shared memory module: names are unique
  and every reference count is the number of mappings.  It answers ERR_EXIST exactly when the name is taken
  and ERR_NOMEM exactly when an allocation fails, both without any change; otherwise the new region is at
  the end of the table with the given size and flag, unmapped and unlocked.\<close>

theorem createSharedRegion_correct:
  assumes inv: "shm_inv h" and new: "new_ctx = NULL \<or> ctxs h new_ctx = None" "new_store = NULL \<or> stores h new_store = None"
  shows "\<exists>err h'. createSharedRegion h new_ctx new_store name n flag = Some (err, h') \<and> shm_inv h' \<and> vmst h' = vmst h
    \<and> (if \<exists>x. named h name x then err = ERR_EXIST \<and> h' = h
       else if new_ctx = NULL \<or> new_store = NULL then err = ERR_NOMEM \<and> h' = h
       else err = ERR_OK \<and> ctable h' = ctable h @ [new_ctx]
         \<and> ctxs h' new_ctx = Some \<lparr>c_name = name, c_store = new_store, c_lock_by = -1, c_size = n, c_refcnt = 0, c_flag = flag\<rparr>
         \<and> (\<forall>x \<in> set (ctable h). ctxs h' x = ctxs h x))"
proof -
  obtain p where p: "getContextByHandle h name False NULL = Some p"
    "if p = NULL then \<forall>x. \<not> named h name x else named h name p"
    using get_any [OF inv] by blast
  let ?c = "\<lparr>c_name = name, c_store = new_store, c_lock_by = -1, c_size = n, c_refcnt = 0, c_flag = flag\<rparr>"
  consider "p \<noteq> NULL" | "p = NULL" "new_ctx = NULL \<or> new_store = NULL" | "p = NULL" "new_ctx \<noteq> NULL" "new_store \<noteq> NULL" by blast
  then show ?thesis
  proof cases
    case 1
    then show ?thesis using p inv by (auto simp: createSharedRegion_def)
  next
    case 2
    have "(ctxs h)(new_ctx := None) = ctxs h" if "new_ctx \<noteq> NULL" using new that by (auto simp: fun_eq_iff)
    then show ?thesis using 2 p inv
      by (auto simp: createSharedRegion_def contextInit_def shmms_alloc_def memstore_alloc_def set_ctx_def)
  next
    case 3
    let ?h = "h\<lparr>ctable := ctable h @ [new_ctx], ctxs := (ctxs h)(new_ctx := Some ?c),
      stores := (stores h)(new_store := Some \<lparr>ms_info = new_ctx, ms_rmap = [], ms_cached = radix_tree_construct\<rparr>)\<rparr>"
    have "createSharedRegion h new_ctx new_store name n flag = Some (ERR_OK, ?h)"
      using 3 p by (simp add: createSharedRegion_def contextInit_def shmms_alloc_def memstore_alloc_def set_ctx_def set_store_def)
    moreover have "shm_inv ?h"
      using shm_inv_add [OF inv 3(2), of ?c] 3 p new by simp
    moreover have "x \<noteq> new_ctx" if "x \<in> set (ctable h)" for x using shm_invD(4) [OF inv that] new 3 by auto
    ultimately show ?thesis using 3 p by auto
  qed
qed

lemma createSharedRegion_correct_witness:
  "\<exists>h'. createSharedRegion small_shm 201 301 ''buf'' 7 0 = Some (ERR_OK, h') \<and> shm_inv h' \<and> ctable h' = [200, 201]"
  using createSharedRegion_correct [OF small_shm_inv, of 201 301 "''buf''" 7 0]
  by (auto simp: small_named) (auto simp: small_shm_def)

text \<open>destroySharedRegion returns ERR_NOTEXIST for an unknown name and ERR_MAPPED while the region is
  mapped, without any change; otherwise it removes the region, also a persistent one, so that the
  answer ERR_PERSIST never occurs.  The memory state is untouched: page frames held by the page
  cache of the region stay allocated.\<close>

theorem destroySharedRegion_correct:
  assumes inv: "shm_inv h"
  shows "\<exists>err h'. destroySharedRegion h name = Some (err, h') \<and> shm_inv h' \<and> vmst h' = vmst h \<and> err \<noteq> ERR_PERSIST
    \<and> (if \<exists>x. named h name x \<and> c_refcnt (the (ctxs h x)) \<noteq> 0 then err = ERR_MAPPED \<and> h' = h
       else if \<exists>x. named h name x then err = ERR_OK \<and> (\<forall>x. \<not> named h' name x)
         \<and> set (ctable h') = {x \<in> set (ctable h). c_name (the (ctxs h x)) \<noteq> name}
       else err = ERR_NOTEXIST \<and> h' = h)"
proof -
  obtain p where p: "getContextByHandle h name False NULL = Some p"
    "if p = NULL then \<forall>x. \<not> named h name x else named h name p"
    using get_any [OF inv] by blast
  show ?thesis
  proof (cases "p = NULL")
    case True
    then show ?thesis using p inv by (auto simp: destroySharedRegion_def)
  next
    case False
    then have n: "named h name p" using p by simp
    obtain c where c: "ctxs h p = Some c" "c_name c = name" using named_ctx(2) [OF inv n] by blast
    have t: "p \<in> set (ctable h)" using n by (simp add: named_def)
    have u: "named h name x \<longleftrightarrow> x = p" for x using named_unique [OF inv n] n by blast
    have z: "x AND NOT x = 0" for x :: "32 word" by simp
    have d: "destroySharedRegion h name =
      (if c_refcnt c \<noteq> 0 then Some (ERR_MAPPED, h)
       else Some (ERR_OK, h\<lparr>ctable := remove1 p (ctable h), ctxs := (ctxs h)(p := None), stores := (stores h)(c_store c := None)\<rparr>))"
      using False p(1) c(1) destroy_internal_ok [OF inv t c(1), of "c_flag c AND RS_PERSIST", unfolded z]
      by (simp add: destroySharedRegion_def)
    have s: "set (remove1 p (ctable h)) = {x \<in> set (ctable h). c_name (the (ctxs h x)) \<noteq> name}"
      using shm_invD(2) [OF inv] u unfolding named_def by auto
    let ?h = "h\<lparr>ctable := remove1 p (ctable h), ctxs := (ctxs h)(p := None), stores := (stores h)(c_store c := None)\<rparr>"
    have nn: "\<not> named ?h name x" for x using s u [of x] by (auto simp: named_def)
    show ?thesis
    proof (cases "c_refcnt c = 0")
      case True
      then show ?thesis using d shm_inv_remove [OF inv t c(1)] c(1) u s nn by simp
    next
      case False
      then show ?thesis using d inv c(1) u by simp
    qed
  qed
qed

lemma destroySharedRegion_correct_witness:
  "\<exists>err h'. destroySharedRegion small_shm ''shm'' = Some (err, h') \<and> err = ERR_OK \<and> 200 \<notin> set (ctable h')"
proof -
  have "ctxs small_shm 200 = Some \<lparr>c_name = ''shm'', c_store = 300, c_lock_by = -1, c_size = 2, c_refcnt = 0, c_flag = RS_PERSIST\<rparr>"
    "ctable small_shm = [200]" by (simp_all add: small_shm_def)
  then show ?thesis using destroySharedRegion_correct [OF small_shm_inv, of "''shm''"] by (auto simp: small_named)
qed

text \<open>Where a mapping goes: into the first gap, or to the given address if there is no region in the way.\<close>

definition room :: "vm \<Rightarrow> ptr \<Rightarrow> addrspace \<Rightarrow> u64 \<Rightarrow> vaddr_t \<Rightarrow> vaddr_t \<Rightarrow> bool" where
  "room s p a sz start x \<longleftrightarrow>
     (if start = 0 \<or> start = ADDR_ANYWHERE then first_gap s a sz x \<and> is_user_addr (x + pg_round_up sz - 1)
      else x = start \<and> is_user_addr (x + pg_round_up sz - 1) \<and> (\<forall>n \<in> set (as_regions a). rend s n \<le> x \<or> x + sz \<le> rstart s n))"

lemma room_map:
  assumes inv: "vm_inv s" and p: "spaces s p = Some a" and new: "new = NULL \<or> regs s new = None"
    and u: "user_space s p a" and sz: "unat sz \<le> 2 ^ 38" and st: "start = 0 \<or> start = ADDR_ANYWHERE \<or> low_addr start"
  shows "\<exists>n s'. as_map_memregion s new p (if start = 0 then ADDR_ANYWHERE else start) sz MEMPERM_URW store ofs shared = Some (n, s') \<and> vm_inv s'
    \<and> (if new = NULL \<or> (\<forall>x. \<not> room s p a sz start x) then n = NULL \<and> s' = s
       else n = new \<and> (\<exists>x. room s p a sz start x \<and> mapped_at s p a new (new_region p x sz MEMPERM_URW store ofs shared) s'))"
proof (cases "start = 0 \<or> start = ADDR_ANYWHERE")
  case True
  obtain n s' where r: "memregion_map_internal s new p ADDR_ANYWHERE sz MEMPERM_URW store ofs shared = Some (n, s')" "vm_inv s'"
    "mapped_first s new p a sz MEMPERM_URW store ofs shared n s'" using map_internal_anywhere [OF inv p new u sz, of MEMPERM_URW store ofs shared] by blast
  have k: "\<not> is_kern_memperm MEMPERM_URW" by (simp add: is_kern_memperm_def)
  have "(\<exists>x. gap s a sz x) \<longleftrightarrow> (\<exists>x. first_gap s a sz x)"
    using find_free_vaddr_ok [OF p _ u sz] inv p unfolding vm_inv_def first_gap_def by (force split: option.splits)
  then have c: "(\<forall>x. \<not> gap s a sz x) \<or> (\<exists>x. first_gap s a sz x \<and> \<not> is_user_addr (x + pg_round_up sz - 1)) \<longleftrightarrow> (\<forall>x. \<not> room s p a sz start x)"
    unfolding room_def if_P [OF True] using first_gap_unique by blast
  have f: "first_gap s a sz x \<longleftrightarrow> room s p a sz start x" if "room s p a sz start y" for x y
    using that first_gap_unique unfolding room_def if_P [OF True] by blast
  have m: "if new = NULL \<or> (\<forall>x. \<not> room s p a sz start x) then n = NULL \<and> s' = s
      else n = new \<and> (\<exists>x. first_gap s a sz x \<and> mapped_at s p a new (new_region p x sz MEMPERM_URW store ofs shared) s')"
    using r(3) k c unfolding mapped_first_def by simp
  have addr: "(if start = 0 then ADDR_ANYWHERE else start) = ADDR_ANYWHERE" using True by auto
  show ?thesis
  proof (cases "new = NULL \<or> (\<forall>x. \<not> room s p a sz start x)")
    case no: True
    then show ?thesis using r(1,2) m unfolding as_map_memregion_def addr if_P [OF no] by blast
  next
    case yes: False
    then obtain y where "room s p a sz start y" by blast
    note g = f [OF this]
    show ?thesis using r(1,2) m unfolding as_map_memregion_def addr if_not_P [OF yes] g by blast
  qed
next
  case False
  then have l: "low_addr start" using st by simp
  have "start \<le> start + pg_round_up sz" "start \<le> start + sz" "pg_aligned start"
    using low_addr_plus [OF l sz] l by (simp_all add: word_le_nat_alt low_addr_def)
  then obtain n s' where r: "memregion_map_internal s new p start sz MEMPERM_URW store ofs shared = Some (n, s')" "vm_inv s'"
    "if refused s p a start sz MEMPERM_URW \<or> new = NULL then n = NULL \<and> s' = s
     else n = new \<and> mapped_at s p a new (new_region p start sz MEMPERM_URW store ofs shared) s'"
    using map_internal_at [OF inv p new, of start sz start MEMPERM_URW store ofs shared] False by auto
  have "room s p a sz start x \<longleftrightarrow> x = start \<and> \<not> refused s p a start sz MEMPERM_URW" for x
    unfolding room_def if_not_P [OF False] using u by (auto simp: refused_def user_space_def is_kern_memperm_def not_less)
  then show ?thesis using r False by (intro exI [of _ n] exI [of _ s']) (auto simp: as_map_memregion_def split: if_splits)
qed

lemma shm_inv_vm:
  assumes inv: "shm_inv h" and v: "vm_inv v" and keep: "\<And>st x. node_inv (vmst h) st x \<Longrightarrow> node_inv v st x"
  shows "shm_inv (h\<lparr>vmst := v\<rparr>)"
proof (rule shm_invI)
  show "\<exists>c. ctxs (h\<lparr>vmst := v\<rparr>) q = Some c \<and> ctx_inv (h\<lparr>vmst := v\<rparr>) q c" if q: "q \<in> set (ctable (h\<lparr>vmst := v\<rparr>))" for q
  proof -
    obtain c where c: "ctxs h q = Some c" "ctx_inv h q c" using shm_invD(4) [OF inv, of q] q by auto
    have "ctx_inv (h\<lparr>vmst := v\<rparr>) q c" by (rule ctx_inv_cong [OF c(2)]) (use keep in auto)
    then show ?thesis using c(1) by simp
  qed
qed (use shm_invD [OF inv] v in auto)

text \<open>A region that was mapped and is unmapped again.\<close>

lemma map_unmap:
  assumes inv: "shm_inv h" and p: "spaces (vmst h) p = Some a" and new: "new \<noteq> NULL" "regs (vmst h) new = None"
    and v: "vm_inv v" "mapped_at (vmst h) p a new (new_region p x sz perm store ofs shared) v"
    and u: "vpmap_unmap (vs (vmst h)) (as_vpmap a) x (pg_round_up sz div pg_size) \<noteq> None"
    and c: "cur_as (vmst h) = NULL \<or> (\<exists>b t. spaces (vmst h) (cur_as (vmst h)) = Some b \<and> as_vpmap b = Some t)"
  shows "\<exists>w a'. memregion_unmap v new = Some w \<and> shm_inv (h\<lparr>vmst := w\<rparr>) \<and> regs w = regs (vmst h) \<and> spaces w = (spaces (vmst h))(p := Some a')
    \<and> set (as_regions a') = set (as_regions a) \<and> as_vpmap a' = as_vpmap a"
proof -
  let ?r = "new_region p x sz perm store ofs shared"
  obtain b where b: "spaces v = (spaces (vmst h))(p := Some b)" "set (as_regions b) = insert new (set (as_regions a))" "as_vpmap b = as_vpmap a"
      "regs v = (regs (vmst h))(new := Some ?r)" "vs v = vs (vmst h)" "cur_as v = cur_as (vmst h)"
    using v(2) by (auto simp: mapped_at_def)
  have r: "regs v new = Some ?r" "spaces v (mr_as ?r) = Some b" using b by (simp_all add: new_region_def)
  obtain t where t: "vpmap_unmap (vs v) (as_vpmap b) (mr_start ?r) (pg_round_up (mr_end ?r - mr_start ?r) div pg_size) = Some t"
    using u b by (auto simp: new_region_def)
  have c': "cur_as v = NULL \<or> (\<exists>b t. spaces v (cur_as v) = Some b \<and> as_vpmap b = Some t)" using c b p by auto
  obtain w a' where w: "memregion_unmap v new = Some w" "vm_inv w" "regs w = (regs v)(new := None)" "spaces w = (spaces v)(p := Some a')"
      "set (as_regions a') = set (as_regions b) - {new}" "as_vpmap a' = as_vpmap b"
    using unmap_internal_ok [OF v(1) r t c'] by (auto simp: memregion_unmap_def new_region_def)
  have n: "new \<notin> set (as_regions a)" using as_invD(3) [of "vmst h" p a new] shm_invD(1) [OF inv] p new(2) by (auto simp: vm_inv_def)
  have e: "regs w = regs (vmst h)" "spaces w = (spaces (vmst h))(p := Some a')" "set (as_regions a') = set (as_regions a)"
    using w(3-5) b n new(2) by (auto simp: fun_eq_iff)
  have "node_inv w st y" if "node_inv (vmst h) st y" for st y using that p e by (auto simp: node_inv_def)
  then have "shm_inv (h\<lparr>vmst := w\<rparr>)" using shm_inv_vm [OF inv w(2)] by blast
  then show ?thesis using w(1,6) e b(3) by auto
qed

text \<open>C29. createMapping of a region of less than 2 gigabytes into a process space returns and keeps the invariant.  It answers ERR_NOTEXIST exactly for an unknown name.
  It answers ERR_NOMEM without a change exactly if there is no memory for the region structure or no room: no gap, or, when an address is given, another region in the way.  When there is no
  memory for the node of the reverse mapping it answers ERR_NOMEM and takes the region back.  Otherwise the new region covers exactly the pages of the
  shared region at the first gap or the given address, which is handed back, and the reference count and the reverse mapping of the shared region each grow by this mapping.\<close>

theorem createMapping_correct:
  assumes inv: "shm_inv h" and p: "spaces (vmst h) p = Some a" "user_space (vmst h) p a"
    and new: "new = NULL \<or> regs (vmst h) new = None" and st: "start = 0 \<or> start = ADDR_ANYWHERE \<or> low_addr start"
    and sz: "\<forall>x. named h name x \<longrightarrow> unat (c_size (the (ctxs h x))) < 2 ^ 19"
    and un: "node_ok \<or> (\<forall>x y. named h name x \<longrightarrow> room (vmst h) p a (region_bytes (the (ctxs h x))) start y
          \<longrightarrow> vpmap_unmap (vs (vmst h)) (as_vpmap a) y (pg_round_up (region_bytes (the (ctxs h x))) div pg_size) \<noteq> None)
        \<and> (cur_as (vmst h) = NULL \<or> (\<exists>b t. spaces (vmst h) (cur_as (vmst h)) = Some b \<and> as_vpmap b = Some t))"
  shows "\<exists>err beg h'. createMapping h new node_ok name start p = Some (err, beg, h') \<and> shm_inv h'
    \<and> (if \<forall>x. \<not> named h name x then err = ERR_NOTEXIST \<and> beg = start \<and> h' = h
       else \<exists>x c m. named h name x \<and> ctxs h x = Some c \<and> stores h (c_store c) = Some m \<and> unat (region_bytes c) = unat (c_size c) * 4096 \<and>
         (if new = NULL \<or> (\<forall>y. \<not> room (vmst h) p a (region_bytes c) start y) then err = ERR_NOMEM \<and> beg = start \<and> h' = h
          else if \<not> node_ok then err = ERR_NOMEM \<and> beg = start \<and> ctxs h' = ctxs h \<and> stores h' = stores h \<and> ctable h' = ctable h
            \<and> regs (vmst h') = regs (vmst h) \<and> (\<exists>a'. spaces (vmst h') = (spaces (vmst h))(p := Some a') \<and> set (as_regions a') = set (as_regions a) \<and> as_vpmap a' = as_vpmap a)
          else err = ERR_OK \<and> room (vmst h) p a (region_bytes c) start beg
            \<and> mapped_at (vmst h) p a new (new_region p beg (region_bytes c) MEMPERM_URW (c_store c) 0 True) (vmst h')
            \<and> ctxs h' = (ctxs h)(x := Some (c\<lparr>c_refcnt := c_refcnt c + 1\<rparr>)) \<and> ctable h' = ctable h
            \<and> stores h' = (stores h)(c_store c := Some (m\<lparr>ms_rmap := ms_rmap m @ [(p, new)]\<rparr>))))"
proof -
  obtain x where x: "getContextByHandle h name False NULL = Some x"
    "if x = NULL then \<forall>y. \<not> named h name y else named h name x"
    using get_any [OF inv] by blast
  show ?thesis
  proof (cases "x = NULL")
    case True
    then have "\<forall>y. \<not> named h name y" using x by simp
    then show ?thesis using x True inv by (simp add: createMapping_def)
  next
    case False
    then have n: "named h name x" using x by simp
    obtain c m where c: "ctxs h x = Some c" "stores h (c_store c) = Some m"
      using named_ctx(2) [OF inv n] by (auto simp: ctx_inv_def)
    have b: "unat (region_bytes c) = unat (c_size c) * 4096" using sz n c(1) by (intro region_bytes_small) auto
    then have b': "unat (region_bytes c) \<le> 2 ^ 38" using sz n c(1) by fastforce
    let ?room = "room (vmst h) p a (region_bytes c) start"
    obtain k v where k: "as_map_memregion (vmst h) new p (if start = 0 then ADDR_ANYWHERE else start) (region_bytes c) MEMPERM_URW (c_store c) 0 True = Some (k, v)" "vm_inv v"
      "if new = NULL \<or> (\<forall>y. \<not> ?room y) then k = NULL \<and> v = vmst h
       else k = new \<and> (\<exists>y. ?room y \<and> mapped_at (vmst h) p a new (new_region p y (region_bytes c) MEMPERM_URW (c_store c) 0 True) v)"
      using room_map [OF shm_invD(1) [OF inv] p(1) new p(2) b' st, of "c_store c" 0 True] by blast
    have nn: "(\<forall>x. \<not> named h name x) = False" using n by blast
    have run: "createMapping h new node_ok name start p = createMapping_Internal h new node_ok start p x NULL" using x(1) False by (simp add: createMapping_def)
    consider (no) "new = NULL \<or> (\<forall>y. \<not> ?room y)" "k = NULL" "v = vmst h"
      | (room) y where "new \<noteq> NULL" "?room y" "k = new" "mapped_at (vmst h) p a new (new_region p y (region_bytes c) MEMPERM_URW (c_store c) 0 True) v"
      using k(3) by (auto split: if_splits)
    then show ?thesis
    proof cases
      case no
      then have "createMapping h new node_ok name start p = Some (ERR_NOMEM, start, h)" using k(1) c unfolding run by (simp add: createMapping_Internal_def)
      then show ?thesis unfolding nn if_False using inv n c b no(1) by (intro exI conjI) (assumption | simp)+
    next
      case room
      then have nr: "(new = NULL \<or> (\<forall>y. \<not> ?room y)) = False" by blast
      show ?thesis
      proof (cases node_ok)
        case nok: False
        obtain w a' where w: "memregion_unmap v new = Some w" "shm_inv (h\<lparr>vmst := w\<rparr>)" "regs w = regs (vmst h)" "spaces w = (spaces (vmst h))(p := Some a')"
            "set (as_regions a') = set (as_regions a)" "as_vpmap a' = as_vpmap a"
        proof -
          have "vpmap_unmap (vs (vmst h)) (as_vpmap a) y (pg_round_up (region_bytes c) div pg_size) \<noteq> None" using un nok n c(1) room(2) by fastforce
          moreover have "regs (vmst h) new = None" "cur_as (vmst h) = NULL \<or> (\<exists>b t. spaces (vmst h) (cur_as (vmst h)) = Some b \<and> as_vpmap b = Some t)"
            using new room(1) un nok by auto
          ultimately show ?thesis using map_unmap [OF inv p(1) room(1) _ k(2) room(4)] that by blast
        qed
        have "createMapping h new node_ok name start p = Some (ERR_NOMEM, start, h\<lparr>vmst := w\<rparr>)"
          using k(1) c room(1,3) nok w(1) unfolding run by (simp add: createMapping_Internal_def)
        then show ?thesis unfolding nn if_False
          by (intro exI [of _ ERR_NOMEM] exI [of _ start] exI [of _ "h\<lparr>vmst := w\<rparr>"] conjI exI [of _ x] exI [of _ c] exI [of _ m]) (use n c b w nok room(1,2) in auto)
      next
        case ok: True
        let ?r = "new_region p y (region_bytes c) MEMPERM_URW (c_store c) 0 True"
        let ?h = "h\<lparr>vmst := v, ctxs := (ctxs h)(x := Some (c\<lparr>c_refcnt := c_refcnt c + 1\<rparr>)),
          stores := (stores h)(c_store c := Some (m\<lparr>ms_rmap := ms_rmap m @ [(p, new)]\<rparr>))\<rparr>"
        have r: "regs v new = Some ?r" "mr_start ?r = y" using room(4) by (simp_all add: mapped_at_def new_region_def)
        have "createMapping h new node_ok name start p = Some (ERR_OK, y, ?h)"
          using k(1) c room(1,3) ok r unfolding run by (simp add: createMapping_Internal_def set_ctx_def set_store_def)
        moreover have "shm_inv ?h"
          using n c room(1) new p(1) k(2) room(4) by (intro shm_inv_map [OF inv]) (auto simp: named_def new_region_def)
        ultimately show ?thesis unfolding nn if_False
          by (intro exI [of _ ERR_OK] exI [of _ y] exI [of _ ?h] conjI exI [of _ x] exI [of _ c] exI [of _ m]) (use n c b room(1,2,4) ok in auto)
      qed
    qed
  qed
qed

lemma createMapping_correct_witness:
  "\<exists>beg h' r. createMapping small_shm 12 True ''shm'' 0 100 = Some (ERR_OK, beg, h') \<and> shm_inv h'
    \<and> regs (vmst h') 12 = Some r \<and> mr_start r = beg \<and> mr_end r = beg + 0x2000"
proof -
  let ?a = "\<lparr>as_regions = [10, 11], as_vpmap = Some 1, as_heap = 10 :: ptr\<rparr>"
  let ?c = "\<lparr>c_name = ''shm'', c_store = 300, c_lock_by = -1, c_size = 2, c_refcnt = 0, c_flag = RS_PERSIST\<rparr>"
  have h: "vmst small_shm = small_vm" "ctxs small_shm 200 = Some ?c" by (simp_all add: small_shm_def)
  have p: "spaces (vmst small_shm) 100 = Some ?a" "(12 :: ptr) = NULL \<or> regs (vmst small_shm) 12 = None"
    unfolding h by (simp_all add: small_vm_def)
  have u: "user_space (vmst small_shm) 100 ?a"
    unfolding h by (simp add: user_space_def small_vm_def small_region_def USTACK_UPPERBOUND_def)
  have sz: "\<forall>x. named small_shm ''shm'' x \<longrightarrow> unat (c_size (the (ctxs small_shm x))) < 2 ^ 19"
    by (simp add: small_named h)
  have b: "region_bytes ?c = 0x2000" by (simp add: region_bytes_def)
  have ok: "\<exists>beg h'. createMapping small_shm 12 True ''shm'' 0 100 = Some (ERR_OK, beg, h')"
    by (simp add: createMapping_def getContextByHandle_def createMapping_Internal_def small_shm_def region_bytes_def
      as_map_memregion_def memregion_map_internal_def find_free_vaddr_def small_vm_def small_region_def
      memregion_allocated_def pg_round_up_def pg_size_def pg_aligned_def USTACK_LOWERBOUND_def USTACK_UPPERBOUND_def
      is_kern_memperm_def is_user_addr_def kvm_base_def Let_def set_reg_def set_space_def)
  then obtain beg h' where e: "createMapping small_shm 12 True ''shm'' 0 100 = Some (ERR_OK, beg, h')" by blast
  from createMapping_correct [OF small_shm_inv p(1) u p(2) _ sz, of 0 True] e b show ?thesis by (auto simp: small_named h mapped_at_def new_region_def split: if_splits)
qed

text \<open>destroyMapping, when the pages can be unmapped, answers ERR_OK exactly when some mapping of the
  named region in the space contains the address: then that mapping leaves the reverse mapping and
  the space and the reference count drops by one, while the shared region itself stays.  In all other
  cases it answers ERR_NOTEXIST and changes nothing.\<close>

theorem destroyMapping_correct:
  assumes inv: "shm_inv h"
    and un: "\<forall>mr r a. regs (vmst h) mr = Some r \<longrightarrow> spaces (vmst h) (mr_as r) = Some a \<longrightarrow>
      vpmap_unmap (vs (vmst h)) (as_vpmap a) (mr_start r) (pg_round_up (mr_end r - mr_start r) div pg_size) \<noteq> None"
    and cur: "cur_as (vmst h) = NULL \<or> (\<exists>b t. spaces (vmst h) (cur_as (vmst h)) = Some b \<and> as_vpmap b = Some t)"
  shows "\<exists>err h'. destroyMapping h name vaddr p = Some (err, h') \<and> shm_inv h' \<and> ctable h' = ctable h
    \<and> (err = ERR_NOTEXIST \<and> h' = h \<and> (\<forall>x c m n. named h name x \<longrightarrow> ctxs h x = Some c \<longrightarrow> stores h (c_store c) = Some m \<longrightarrow>
          (p, n) \<in> set (ms_rmap m) \<longrightarrow> \<not> (rstart (vmst h) n \<le> vaddr \<and> vaddr < rend (vmst h) n))
      \<or> err = ERR_OK \<and> (\<exists>x c m n. named h name x \<and> ctxs h x = Some c \<and> stores h (c_store c) = Some m
          \<and> (p, n) \<in> set (ms_rmap m) \<and> rstart (vmst h) n \<le> vaddr \<and> vaddr < rend (vmst h) n
          \<and> ctxs h' = (ctxs h)(x := Some (c\<lparr>c_refcnt := c_refcnt c - 1\<rparr>))
          \<and> stores h' = (stores h)(c_store c := Some (m\<lparr>ms_rmap := remove1 (p, n) (ms_rmap m)\<rparr>))
          \<and> regs (vmst h') = (regs (vmst h))(n := None)))"
proof -
  obtain x where x: "getContextByHandle h name True p = Some x"
    "if x = NULL then \<forall>x c m. named h name x \<longrightarrow> ctxs h x = Some c \<longrightarrow> stores h (c_store c) = Some m \<longrightarrow> p \<notin> fst ` set (ms_rmap m)
     else named h name x \<and> (\<exists>c m. ctxs h x = Some c \<and> stores h (c_store c) = Some m \<and> p \<in> fst ` set (ms_rmap m))"
    using get_mapped [OF inv] by blast
  show ?thesis
  proof (cases "x = NULL")
    case True
    then show ?thesis using x inv by (fastforce simp: destroyMapping_def image_iff)
  next
    case False
    then have n: "named h name x" using x by simp
    obtain c m where c: "ctxs h x = Some c" "stores h (c_store c) = Some m"
      "\<forall>y \<in> set (ms_rmap m). node_inv (vmst h) (c_store c) y"
      using named_ctx(2) [OF inv n] by (auto simp: ctx_inv_def)
    have u: "y = x" if "named h name y" for y using named_unique [OF inv n that] by simp
    obtain y where y: "find_node (vmst h) p vaddr (ms_rmap m) = Some y"
      "case y of None \<Rightarrow> \<forall>n \<in> set (ms_rmap m). fst n = p \<longrightarrow> \<not> (rstart (vmst h) (snd n) \<le> vaddr \<and> vaddr < rend (vmst h) (snd n))
       | Some n \<Rightarrow> n \<in> set (ms_rmap m) \<and> fst n = p \<and> rstart (vmst h) (snd n) \<le> vaddr \<and> vaddr < rend (vmst h) (snd n)"
      using find_node_ok [OF c(3)] by blast
    show ?thesis
    proof (cases y)
      case None
      then have "destroyMapping h name vaddr p = Some (ERR_NOTEXIST, h)"
        using False x(1) c y(1) by (simp add: destroyMapping_def find_remove_rmapping_def)
      then show ?thesis using None y(2) inv u c by fastforce
    next
      case (Some z)
      then obtain mr where z: "y = Some (p, mr)" "(p, mr) \<in> set (ms_rmap m)" "rstart (vmst h) mr \<le> vaddr" "vaddr < rend (vmst h) mr"
        using y(2) by (cases z) auto
      obtain r a where r: "regs (vmst h) mr = Some r" "mr_as r = p" "spaces (vmst h) p = Some a"
        using c(3) z(2) by (fastforce simp: node_inv_def)
      obtain w where w: "vpmap_unmap (vs (vmst h)) (as_vpmap a) (mr_start r) (pg_round_up (mr_end r - mr_start r) div pg_size) = Some w"
        using un r by blast
      obtain v a' where v: "memregion_unmap (vmst h) mr = Some v" "vm_inv v" "regs v = (regs (vmst h))(mr := None)"
        "spaces v = (spaces (vmst h))(p := Some a')" "set (as_regions a') = set (as_regions a) - {mr}"
        using unmap_internal_ok [OF shm_invD(1) [OF inv] r(1) _ w cur] r by (auto simp: memregion_unmap_def)
      let ?h = "h\<lparr>vmst := v, ctxs := (ctxs h)(x := Some (c\<lparr>c_refcnt := c_refcnt c - 1\<rparr>)),
        stores := (stores h)(c_store c := Some (m\<lparr>ms_rmap := remove1 (p, mr) (ms_rmap m)\<rparr>))\<rparr>"
      have "destroyMapping h name vaddr p = Some (ERR_OK, ?h)"
        using False x(1) c y(1) z(1) v(1)
        by (simp add: destroyMapping_def find_remove_rmapping_def destroyMapping_Internal_def set_store_def set_ctx_def)
      moreover have "shm_inv ?h"
        using n c v r z(2) by (intro shm_inv_unmap [OF inv]) (auto simp: named_def)
      ultimately show ?thesis using n c z v(3) by auto
    qed
  qed
qed

lemma destroyMapping_correct_witness:
  "\<exists>h'. destroyMapping mapped_shm ''shm'' 0x5010 100 = Some (ERR_OK, h') \<and> shm_inv h'
    \<and> regs (vmst h') 11 = None \<and> c_refcnt (the (ctxs h' 200)) = 0 \<and> stores h' 300 = Some \<lparr>ms_info = 200, ms_rmap = [], ms_cached = radix_tree_construct\<rparr>"
proof -
  have i: "PML4X 0x1000 = 0" "PDPTX 0x1000 = 0" "PDX 0x1000 = 0" "PTX 0x1000 = 1"
    "PML4X 0x5000 = 0" "PDPTX 0x5000 = 0" "PDX 0x5000 = 0" "PTX 0x5000 = 5"
    by (simp_all add: PML4X_def PDPTX_def PDX_def PTX_def ENTRY_IDX_eq)
  have v: "vmst mapped_shm = mapped_vm" by (simp add: mapped_shm_def)
  have u: "vpmap_unmap small_vps (Some 1) 0x1000 2 \<noteq> None" "vpmap_unmap small_vps (Some 1) 0x5000 1 \<noteq> None"
    using small_unmap [of "0x1000" 2] small_unmap [of "0x5000" 1] by (auto simp: vpath_def i)
  have un: "\<forall>mr r a. regs (vmst mapped_shm) mr = Some r \<longrightarrow> spaces (vmst mapped_shm) (mr_as r) = Some a \<longrightarrow>
      vpmap_unmap (vs (vmst mapped_shm)) (as_vpmap a) (mr_start r) (pg_round_up (mr_end r - mr_start r) div pg_size) \<noteq> None"
    unfolding v using u
    by (auto simp: mapped_vm_def small_vm_def small_region_def pg_round_up_def pg_size_def split: if_splits)
  have cur: "cur_as (vmst mapped_shm) = NULL \<or>
      (\<exists>b t. spaces (vmst mapped_shm) (cur_as (vmst mapped_shm)) = Some b \<and> as_vpmap b = Some t)"
    unfolding v by (simp add: mapped_vm_def small_vm_def)
  have n: "named mapped_shm ''shm'' x \<longleftrightarrow> x = 200" for x by (auto simp: named_def mapped_shm_def small_shm_def)
  have c: "ctxs mapped_shm 200 = Some \<lparr>c_name = ''shm'', c_store = 300, c_lock_by = -1, c_size = 1, c_refcnt = 1, c_flag = 0\<rparr>"
    "stores mapped_shm 300 = Some \<lparr>ms_info = 200, ms_rmap = [(100, 11)], ms_cached = radix_tree_construct\<rparr>"
    "rstart (vmst mapped_shm) 11 = 0x5000" "rend (vmst mapped_shm) 11 = 0x6000"
    by (simp_all add: mapped_shm_def mapped_vm_def small_region_def)
  from destroyMapping_correct [OF mapped_shm_inv un cur, of "''shm''" "0x5010" 100] show ?thesis
    unfolding n by (auto simp: c)
qed

text \<open>Mapping a shared region of \<open>2 ^ 20 - k\<close> pages stops the kernel: the size in bytes overflows an int
  to \<open>- 4096 * k\<close>, the search for an address accepts one behind which the range wraps around, and the
  assertion on the range fails.  This holds for every process, whose last region is the stack, and for
  \<open>k\<close> from 6 to \<open>2 ^ 19\<close>; since the system call passes its size in bytes as the number of pages, a
  request for 512 kilobytes is enough.\<close>

theorem createMapping_overflow_stops:
  assumes inv: "shm_inv h" and p: "spaces (vmst h) p = Some a" "user_space (vmst h) p a"
    and last: "as_regions a \<noteq> []" "rend (vmst h) (last (as_regions a)) = USTACK_UPPERBOUND"
    and c: "named h name x" "ctxs h x = Some c" "unat (c_size c) + k = 2 ^ 20" "6 \<le> k" "k \<le> 2 ^ 19"
  shows "createMapping h new node_ok name 0 p = None"
proof -
  define X where "X = 4096 * k"
  have X: "4096 dvd X" "X \<le> 2 ^ 31" "24576 \<le> X" using c by (simp_all add: X_def)
  have sz: "region_bytes c = - of_nat X" using c unfolding X_def by (intro region_bytes_wrap) simp_all
  have i: "as_inv (vmst h) p a" using shm_invD(1) [OF inv] p(1) by (simp add: vm_inv_def)
  have g: "getContextByHandle h name False NULL = Some x"
    using get_any [OF inv, of name NULL] c(1) named_unique [OF inv] by metis
  have x: "x \<noteq> NULL" using named_ctx(1) [OF inv c(1)] .
  have ns: "\<forall>n \<in> set (as_regions a). regs (vmst h) n \<noteq> None \<and> rstart (vmst h) n \<le> rend (vmst h) n
      \<and> rend (vmst h) n \<le> USTACK_UPPERBOUND"
    using as_invD(3) [OF i] p(2) by (fastforce simp: user_space_def)
  have "low_addr 0" by (simp add: low_addr_def pg_aligned_def)
  from free_loop_wrap [OF this ns X(1,2)] obtain y where y: "free_vaddr_loop (vmst h) (- of_nat X) 0 (as_regions a) = Some y"
    "case y of Inl b \<Rightarrow> low_addr b \<and> X \<le> unat b
     | Inr b \<Rightarrow> b = (if as_regions a = [] then 0 else pg_round_up (rend (vmst h) (last (as_regions a))))"
    by blast
  have up: "pg_round_up USTACK_UPPERBOUND = USTACK_UPPERBOUND" "low_addr USTACK_UPPERBOUND" "X \<le> unat USTACK_UPPERBOUND"
    using X(2) by (simp_all add: USTACK_UPPERBOUND_def pg_round_up_def pg_size_def low_addr_def pg_aligned_def)
  have "unat (USTACK_LOWERBOUND + of_nat X) = unat USTACK_UPPERBOUND - 40960 + X"
    using X(2) by (simp add: USTACK_LOWERBOUND_def USTACK_UPPERBOUND_def pg_size_def unat_word_ariths unat_of_nat take_bit_nat_eq_self)
  then have chk: "pg_round_up (USTACK_UPPERBOUND - of_nat X) < USTACK_LOWERBOUND + of_nat X"
    using low_addr_minus_less [OF up(2) X(1,2) up(3)] X by (simp add: word_less_nat_alt)
  obtain addr where f: "find_free_vaddr (vmst h) p (- of_nat X) = Some (Some addr)" "low_addr addr" "X \<le> unat addr"
    using y p last up chk by (cases y) (auto simp: find_free_vaddr_def user_space_def)
  have "unat (addr - of_nat X) = unat addr - X" using low_addr_minus_unat [OF f(2) X(1,2) f(3)] .
  with round_up_minus [OF f(2) X(1,2)] have "\<not> addr \<le> addr + pg_round_up (- of_nat X)" using X f(3) by (simp add: word_le_nat_alt)
  then have "as_map_memregion (vmst h) new p ADDR_ANYWHERE (- of_nat X) MEMPERM_URW (c_store c) 0 True = None"
    using f p by (simp add: as_map_memregion_def memregion_map_internal_def)
  then show ?thesis using g x c(2) sz by (simp add: createMapping_def createMapping_Internal_def)
qed

lemma createMapping_overflow_stops_witness:
  "\<exists>h. shm_inv h \<and> c_size (the (ctxs h 200)) = 0x80000 \<and> createMapping h 12 True ''big'' 0 100 = None"
proof -
  let ?a = "\<lparr>as_regions = [10], as_vpmap = Some 1, as_heap = NULL\<rparr>"
  let ?v = "small_vm\<lparr>regs := [10 \<mapsto> small_region 0xFFFFFF7FFFFF5000 0xFFFFFF7FFFFFF000], spaces := [100 \<mapsto> ?a]\<rparr>"
  let ?c = "\<lparr>c_name = ''big'', c_store = 300, c_lock_by = -1, c_size = 0x80000, c_refcnt = 0, c_flag = 0\<rparr>"
  let ?h = "\<lparr>vmst = ?v, ctable = [200], ctxs = [200 \<mapsto> ?c], stores = [300 \<mapsto> \<lparr>ms_info = 200, ms_rmap = [], ms_cached = radix_tree_construct\<rparr>], rnodes = (\<lambda>_. None)\<rparr>"
  have "vm_inv ?v"
    by (auto simp: vm_inv_def as_inv_def small_vm_def small_region_def split: if_splits)
  then have inv: "shm_inv ?h" by (simp add: shm_inv_def ctx_inv_def)
  have k: "kas small_vm = 50" by (simp add: small_vm_def)
  have "createMapping ?h 12 True ''big'' 0 100 = None"
    by (rule createMapping_overflow_stops [OF inv, of 100 ?a "''big''" 200 ?c "2 ^ 19"])
      (simp_all add: user_space_def named_def small_region_def USTACK_UPPERBOUND_def k)
  with inv show ?thesis by (intro exI [of _ ?h]) simp
qed

end
