(* ===== verification/Shmlock.thy ===== *)
theory Shmlock
  imports Shmms
begin

text \<open>
  Locks on shared regions as a transition system: threads call \<open>lockRegion\<close> and \<open>unlockRegion\<close> of
  \<^verbatim>\<open>kernel/fs/shmms.c\<close>, sleep on the single condition variable \<open>wait_cv\<close> of all regions, and are woken in
  the order of its queue (\<open>condvar_signal\<close> of \<^verbatim>\<open>kernel/synch.c\<close>).  The ghost set \<open>lown\<close> records which
  thread was told that it holds which region.  A region never has two holders, but a wake-up can go
  to a thread that waits for another region and be lost.
\<close>

section \<open>The system\<close>

record lock_sys =
  lh :: shm
  lwait :: "(tid_t \<times> ptr) list"
  lawake :: "(tid_t \<times> ptr) list"
  lown :: "(tid_t \<times> ptr) set"

definition idle :: "lock_sys \<Rightarrow> tid_t \<Rightarrow> bool" where
  "idle s t \<longleftrightarrow> t \<noteq> -1 \<and> t \<notin> fst ` set (lwait s @ lawake s)"

text \<open>condvar_signal: the first waiter, if there is one, becomes runnable.\<close>

definition signal_wait_cv :: "lock_sys \<Rightarrow> lock_sys" where
  "signal_wait_cv s = s\<lparr>lwait := tl (lwait s), lawake := lawake s @ take 1 (lwait s)\<rparr>"

inductive lk_step :: "lock_sys \<Rightarrow> lock_sys \<Rightarrow> bool" where
  LockOk: "idle s t \<Longrightarrow> getContextByHandle (lh s) name True p = Some c \<Longrightarrow>
    lockRegion (lh s) t name p = Some (LReturn ERR_OK h) \<Longrightarrow> lk_step s (s\<lparr>lh := h, lown := insert (t, c) (lown s)\<rparr>)"
| LockFail: "idle s t \<Longrightarrow> lockRegion (lh s) t name p = Some (LReturn ERR_NOTEXIST h) \<Longrightarrow> lk_step s (s\<lparr>lh := h\<rparr>)"
| LockSleep: "idle s t \<Longrightarrow> lockRegion (lh s) t name p = Some (LSleep c) \<Longrightarrow> lk_step s (s\<lparr>lwait := lwait s @ [(t, c)]\<rparr>)"
| WakeOk: "(t, c) \<in> set (lawake s) \<Longrightarrow> lock_resume (lh s) t c = Some (LReturn ERR_OK h) \<Longrightarrow>
    lk_step s (s\<lparr>lh := h, lawake := remove1 (t, c) (lawake s), lown := insert (t, c) (lown s)\<rparr>)"
| WakeSleep: "(t, c) \<in> set (lawake s) \<Longrightarrow> lock_resume (lh s) t c = Some (LSleep c) \<Longrightarrow>
    lk_step s (s\<lparr>lawake := remove1 (t, c) (lawake s), lwait := lwait s @ [(t, c)]\<rparr>)"
| UnlockOk: "idle s t \<Longrightarrow> getContextByHandle (lh s) name True p = Some c \<Longrightarrow>
    unlockRegion (lh s) t name p = Some (ERR_OK, True, h) \<Longrightarrow>
    lk_step s (signal_wait_cv (s\<lparr>lh := h, lown := lown s - {(t, c)}\<rparr>))"
| UnlockFail: "idle s t \<Longrightarrow> unlockRegion (lh s) t name p = Some (err, False, h) \<Longrightarrow> lk_step s (s\<lparr>lh := h\<rparr>)"

definition lk_start :: "shm \<Rightarrow> lock_sys" where
  "lk_start h = \<lparr>lh = h, lwait = [], lawake = [], lown = {}\<rparr>"

inductive lk_reach :: "shm \<Rightarrow> lock_sys \<Rightarrow> bool" for h where
  LkStart: "lk_reach h (lk_start h)"
| LkStep: "lk_reach h s \<Longrightarrow> lk_step s s' \<Longrightarrow> lk_reach h s'"

section \<open>Mutual exclusion\<close>

definition holds :: "shm \<Rightarrow> tid_t \<Rightarrow> ptr \<Rightarrow> bool" where
  "holds h t c \<longleftrightarrow> t \<noteq> -1 \<and> (\<exists>x. ctxs h c = Some x \<and> c_lock_by x = t)"

definition lk_inv :: "lock_sys \<Rightarrow> bool" where
  "lk_inv s \<longleftrightarrow> (\<forall>t c. (t, c) \<in> lown s \<longrightarrow> holds (lh s) t c)
     \<and> (\<forall>t c. (t, c) \<in> set (lwait s) \<union> set (lawake s) \<longrightarrow> t \<noteq> -1)"

lemma lock_resume_cases:
  assumes "lock_resume h t c = Some r"
  obtains (sleep) x where "ctxs h c = Some x" "c_lock_by x \<noteq> t" "c_lock_by x \<noteq> -1" "r = LSleep c"
  | (take) x where "ctxs h c = Some x" "c_lock_by x = t \<or> c_lock_by x = -1"
      "r = LReturn ERR_OK (set_ctx c (x\<lparr>c_lock_by := t\<rparr>) h)"
  using assms that by (cases "ctxs h c") (auto simp: lock_resume_def split: if_splits)

lemma holds_take:
  assumes "ctxs h c = Some x" "c_lock_by x = t \<or> c_lock_by x = -1" "holds h u d"
  shows "holds (set_ctx c (x\<lparr>c_lock_by := t\<rparr>) h) u d"
  using assms by (auto simp: holds_def set_ctx_def)

lemma lockRegion_resume:
  assumes "lockRegion h t name p = Some (LReturn ERR_OK h')" "getContextByHandle h name True p = Some c"
  shows "lock_resume h t c = Some (LReturn ERR_OK h')"
  using assms by (auto simp: lockRegion_def split: if_splits)

lemma take_holds:
  assumes "lock_resume h t c = Some (LReturn ERR_OK h')" "t \<noteq> -1"
  shows "holds h' t c" and "holds h u d \<Longrightarrow> holds h' u d"
proof -
  from assms(1) have "(\<exists>x. ctxs h c = Some x \<and> (c_lock_by x = t \<or> c_lock_by x = -1) \<and> h' = set_ctx c (x\<lparr>c_lock_by := t\<rparr>) h)"
    by (cases rule: lock_resume_cases) auto
  then obtain x where x: "ctxs h c = Some x" "c_lock_by x = t \<or> c_lock_by x = -1" "h' = set_ctx c (x\<lparr>c_lock_by := t\<rparr>) h" by blast
  then show "holds h' t c" using assms(2) by (simp add: holds_def set_ctx_def)
  show "holds h u d \<Longrightarrow> holds h' u d" unfolding x(3) by (rule holds_take [OF x(1,2)])
qed

lemma lk_inv_step: "lk_step s s' \<Longrightarrow> lk_inv s \<Longrightarrow> lk_inv s'"
proof (induction rule: lk_step.induct)
  case (LockOk s t name p c h)
  note th = take_holds [OF lockRegion_resume [OF LockOk(3,2)]]
  show ?case using LockOk th by (auto simp: lk_inv_def idle_def)
next
  case (LockFail s t name p h)
  then have "h = lh s"
    by (auto simp: lockRegion_def lock_resume_def split: if_splits bind_splits)
  then show ?case using LockFail by simp
next
  case (WakeOk t c s h)
  then have "t \<noteq> -1" by (auto simp: lk_inv_def)
  note th = take_holds [OF WakeOk(2) this]
  show ?case using WakeOk th by (auto simp: lk_inv_def) (blast dest: set_remove1_subset [THEN subsetD])
next
  case (UnlockOk s t name p c h)
  obtain x where x: "ctxs (lh s) c = Some x" "c_lock_by x = t" "h = set_ctx c (x\<lparr>c_lock_by := -1\<rparr>) (lh s)"
    using UnlockOk(2,3) by (auto simp: unlockRegion_def split: if_splits bind_splits)
  have k: "holds h u d" if "holds (lh s) u d" "(u, d) \<noteq> (t, c)" for u d
    using that x by (auto simp: holds_def set_ctx_def)
  let ?s = "signal_wait_cv (s\<lparr>lh := h, lown := lown s - {(t, c)}\<rparr>)"
  have "set (lwait ?s) \<union> set (lawake ?s) \<subseteq> set (lwait s) \<union> set (lawake s)"
    by (cases "lwait s") (auto simp: signal_wait_cv_def)
  moreover have "lh ?s = h" "lown ?s = lown s - {(t, c)}" by (simp_all add: signal_wait_cv_def)
  ultimately show ?case using UnlockOk(4) k unfolding lk_inv_def by (simp only:) blast
next
  case (UnlockFail s t name p err h)
  then have "h = lh s" by (auto simp: unlockRegion_def split: if_splits bind_splits)
  then show ?case using UnlockFail by simp
qed (auto simp: lk_inv_def idle_def, blast dest: set_remove1_subset [THEN subsetD])

lemma lk_reach_inv: "lk_reach h s \<Longrightarrow> lk_inv s"
  by (induction rule: lk_reach.induct) (simp add: lk_inv_def lk_start_def, rule lk_inv_step)

section \<open>Properties\<close>

text \<open>C32. Region locks exclude each other: in every run of lockRegion and unlockRegion calls by any threads on
  any regions, with sleeping and waking, two threads are never both told that they hold the same
  region, and the thread that was told so is the one recorded in the region.\<close>

theorem region_lock_mutex:
  assumes "lk_reach h s" "(t, c) \<in> lown s"
  shows "(\<forall>u. (u, c) \<in> lown s \<longrightarrow> u = t) \<and> (\<exists>x. ctxs (lh s) c = Some x \<and> c_lock_by x = t)"
  using lk_reach_inv [OF assms(1)] assms(2) unfolding lk_inv_def holds_def by (metis option.inject)

text \<open>Two regions, both mapped in space 100.\<close>

definition two_regions :: shm where
  "two_regions = \<lparr>vmst = small_vm, ctable = [200, 201],
     ctxs = [200 \<mapsto> \<lparr>c_name = ''a'', c_store = 300, c_lock_by = -1, c_size = 1, c_refcnt = 1, c_flag = 0\<rparr>,
             201 \<mapsto> \<lparr>c_name = ''b'', c_store = 301, c_lock_by = -1, c_size = 1, c_refcnt = 1, c_flag = 0\<rparr>],
     stores = [300 \<mapsto> \<lparr>ms_info = 200, ms_rmap = [(100, 10)], ms_cached = radix_tree_construct\<rparr>, 301 \<mapsto> \<lparr>ms_info = 201, ms_rmap = [(100, 11)], ms_cached = radix_tree_construct\<rparr>], rnodes = (\<lambda>_. None)\<rparr>"

lemma region_lock_mutex_witness:
  "\<exists>s. lk_reach two_regions s \<and> (7, 200) \<in> lown s \<and> (\<exists>x. ctxs (lh s) 200 = Some x \<and> c_lock_by x = 7)"
proof -
  have st: "lk_step (lk_start two_regions) (lk_start two_regions
    \<lparr>lh := set_ctx 200 \<lparr>c_name = ''a'', c_store = 300, c_lock_by = 7, c_size = 1, c_refcnt = 1, c_flag = 0\<rparr> two_regions,
     lown := {(7, 200)}\<rparr>)"
    using LockOk [of "lk_start two_regions" 7 "''a''" 100 200]
    by (simp add: lk_start_def idle_def two_regions_def getContextByHandle_def lockRegion_def lock_resume_def set_ctx_def)
  note r = LkStep [OF LkStart st]
  have "(7, 200) \<in> lown (lk_start two_regions
    \<lparr>lh := set_ctx 200 \<lparr>c_name = ''a'', c_store = 300, c_lock_by = 7, c_size = 1, c_refcnt = 1, c_flag = 0\<rparr> two_regions,
     lown := {(7, 200)}\<rparr>)" by simp
  with r region_lock_mutex [OF r this] show ?thesis by blast
qed

text \<open>A wake-up can be lost: since all regions share one condition variable and unlocking wakes one
  thread, the thread woken may wait for another region, go back to sleep, and leave the freed region
  unlocked while a thread that waits for it sleeps and nobody is on the way to wake it.\<close>

theorem region_lock_lost_wakeup:
  "\<exists>s x. lk_reach two_regions s \<and> ctxs (lh s) 201 = Some x \<and> c_lock_by x = -1
     \<and> (4, 201) \<in> set (lwait s) \<and> lawake s = []"
proof -
  define ca where "ca t = \<lparr>c_name = ''a'', c_store = 300, c_lock_by = t, c_size = 1, c_refcnt = 1, c_flag = 0\<rparr>" for t
  define cb where "cb t = \<lparr>c_name = ''b'', c_store = 301, c_lock_by = t, c_size = 1, c_refcnt = 1, c_flag = 0\<rparr>" for t
  define hs where "hs t u = two_regions\<lparr>ctxs := [200 \<mapsto> ca t, 201 \<mapsto> cb u]\<rparr>" for t u
  have get: "getContextByHandle (hs t u) ''a'' True 100 = Some 200" "getContextByHandle (hs t u) ''b'' True 100 = Some 201" for t u
    by (simp_all add: hs_def ca_def cb_def two_regions_def getContextByHandle_def)
  have lock: "lock_resume (hs t u) v 200 = Some (if t \<noteq> v \<and> t \<noteq> -1 then LSleep 200 else LReturn ERR_OK (hs v u))"
    "lock_resume (hs t u) v 201 = Some (if u \<noteq> v \<and> u \<noteq> -1 then LSleep 201 else LReturn ERR_OK (hs t v))" for t u v
    by (simp_all add: lock_resume_def hs_def ca_def cb_def set_ctx_def fun_upd_twist)
  have unlock: "unlockRegion (hs t u) u ''b'' 100 = Some (ERR_OK, True, hs t (-1))" for t u
    using get(2) [of t u] by (simp add: unlockRegion_def hs_def cb_def set_ctx_def)
  note defs = lk_start_def idle_def signal_wait_cv_def lockRegion_def get lock
  let ?S = "\<lambda>h w a o'. \<lparr>lh = h, lwait = w, lawake = a, lown = o'\<rparr>"
  have "two_regions = hs (-1) (-1)" by (simp add: hs_def ca_def cb_def two_regions_def)
  then have "lk_reach two_regions (?S (hs (-1) (-1)) [] [] {})" using LkStart [of two_regions] by (simp add: lk_start_def)
  then have "lk_reach two_regions (?S (hs 1 (-1)) [] [] {(1, 200)})"
    using LockOk [of "?S (hs (-1) (-1)) [] [] {}" 1 "''a''" 100 200] by (auto simp: defs elim!: LkStep)
  then have "lk_reach two_regions (?S (hs 1 2) [] [] {(2, 201), (1, 200)})"
    using LockOk [of "?S (hs 1 (-1)) [] [] {(1, 200)}" 2 "''b''" 100 201] by (auto simp: defs elim!: LkStep)
  then have "lk_reach two_regions (?S (hs 1 2) [(3, 200)] [] {(2, 201), (1, 200)})"
    using LockSleep [of "?S (hs 1 2) [] [] {(2, 201), (1, 200)}" 3 "''a''" 100 200] by (auto simp: defs elim!: LkStep)
  then have "lk_reach two_regions (?S (hs 1 2) [(3, 200), (4, 201)] [] {(2, 201), (1, 200)})"
    using LockSleep [of "?S (hs 1 2) [(3, 200)] [] {(2, 201), (1, 200)}" 4 "''b''" 100 201] by (auto simp: defs elim!: LkStep)
  then have "lk_reach two_regions (?S (hs 1 (-1)) [(4, 201)] [(3, 200)] ({(2, 201), (1, 200)} - {(2, 201)}))"
    using UnlockOk [of "?S (hs 1 2) [(3, 200), (4, 201)] [] {(2, 201), (1, 200)}" 2 "''b''" 100 201 "hs 1 (-1)"] unlock [of 1 2]
    by (auto simp: defs elim!: LkStep)
  then have r: "lk_reach two_regions (?S (hs 1 (-1)) [(4, 201), (3, 200)] [] ({(2, 201), (1, 200)} - {(2, 201)}))"
    using WakeSleep [of 3 200 "?S (hs 1 (-1)) [(4, 201)] [(3, 200)] ({(2, 201), (1, 200)} - {(2, 201)})"]
    by (auto simp: defs elim!: LkStep)
  moreover have "ctxs (hs 1 (-1)) 201 = Some (cb (-1))" "c_lock_by (cb (-1)) = -1" by (simp_all add: hs_def cb_def)
  ultimately show ?thesis by (intro exI conjI) (assumption, simp, simp, simp, simp)
qed

end
