(* ===== verification/Trap.thy ===== *)
theory Trap
  imports Radix
begin

text \<open>
  The trap handler table of \<^verbatim>\<open>kernel/trap.c\<close> and the dispatch of \<^verbatim>\<open>arch/x86_64/kernel/trap.c\<close>.  The table is a
  radix tree of entries; a handler is the address of its function, and invoking it is the outcome of the
  dispatch.  The lemmas rest on the laws of an index map (\<open>Radix\<close>).
\<close>

type_synonym irq_t = u32

record table_entry =
  te_dev :: ptr
  te_handler :: ptr

record trap_state =
  tt_nodes :: rheap
  tt_news :: "ptr list"
  trap_handler_table :: radix_tree_root
  tt_entries :: "ptr \<Rightarrow> table_entry option"

abbreviation (input) ERR_TRAP_REG_FAIL :: err_t where "ERR_TRAP_REG_FAIL \<equiv> 1"
abbreviation (input) ERR_TRAP_NOT_FOUND :: err_t where "ERR_TRAP_NOT_FOUND \<equiv> 2"
abbreviation (input) T_IRQ_TIMER :: irq_t where "T_IRQ_TIMER \<equiv> 32"
abbreviation (input) T_PF :: irq_t where "T_PF \<equiv> 14"
abbreviation (input) T_SYSCALL :: irq_t where "T_SYSCALL \<equiv> 64"

text \<open>\<open>new\<close> is the address of the new entry, \<open>NULL\<close> if it cannot be allocated.  An entry whose insertion fails
  is not given back.\<close>

definition trap_register_handler :: "trap_state \<Rightarrow> ptr \<Rightarrow> irq_t \<Rightarrow> ptr \<Rightarrow> ptr \<Rightarrow> (err_t \<times> trap_state) exec" where
  "trap_register_handler s new irq dev handler = do {
     kassert (handler \<noteq> NULL);
     if new = NULL then Some (ERR_TRAP_REG_FAIL, s)
     else do {
       let s = s\<lparr>tt_entries := (tt_entries s)(new \<mapsto> \<lparr>te_dev = dev, te_handler = handler\<rparr>)\<rparr>;
       (err, h, ns, root) \<leftarrow> radix_tree_insert (tt_nodes s) (tt_news s) (trap_handler_table s) (sint irq) new;
       Some (if err = ERR_OK then ERR_OK else ERR_TRAP_REG_FAIL,
             s\<lparr>tt_nodes := h, tt_news := ns, trap_handler_table := root\<rparr>) } }"

definition trap_unregister_handler :: "trap_state \<Rightarrow> irq_t \<Rightarrow> (err_t \<times> trap_state) exec" where
  "trap_unregister_handler s irq = do {
     entry \<leftarrow> radix_tree_lookup (tt_nodes s) (trap_handler_table s) (sint irq);
     s \<leftarrow> (if entry \<noteq> NULL then do {
            (_, h, root) \<leftarrow> radix_tree_remove (tt_nodes s) (trap_handler_table s) (sint irq);
            Some (s\<lparr>tt_nodes := h, trap_handler_table := root, tt_entries := (tt_entries s)(entry := None)\<rparr>) }
          else Some s);
     Some (if entry \<noteq> NULL then ERR_OK else ERR_TRAP_NOT_FOUND, s) }"

text \<open>The second component is the call made: handler and device.\<close>

definition trap_invoke_handler :: "trap_state \<Rightarrow> irq_t \<Rightarrow> (err_t \<times> (ptr \<times> ptr) option) exec" where
  "trap_invoke_handler s irq = do {
     entry \<leftarrow> radix_tree_lookup (tt_nodes s) (trap_handler_table s) (sint irq);
     if entry \<noteq> NULL then do {
       e \<leftarrow> tt_entries s entry;
       Some (ERR_OK, Some (te_handler e, te_dev e)) }
     else Some (ERR_TRAP_NOT_FOUND, None) }"

text \<open>The machine trap: the call made, and whether completion of an unregistered interrupt is signalled.\<close>

definition trap :: "trap_state \<Rightarrow> u64 \<Rightarrow> ((ptr \<times> ptr) option \<times> bool) exec" where
  "trap s trapnum = do {
     (err, call) \<leftarrow> trap_invoke_handler s (ucast trapnum);
     Some (call, err = ERR_TRAP_NOT_FOUND) }"

text \<open>The handlers of timer, system calls and page faults are registered first; a failure panics.\<close>

fun register_all :: "trap_state \<Rightarrow> (irq_t \<times> ptr \<times> ptr) list \<Rightarrow> trap_state exec" where
  "register_all s [] = Some s"
| "register_all s ((irq, handler, new) # rs) = do {
     (err, s) \<leftarrow> trap_register_handler s new irq NULL handler;
     kassert (err = ERR_OK);
     register_all s rs }"

definition trap_sys_init :: "trap_state \<Rightarrow> ptr \<times> ptr \<times> ptr \<Rightarrow> ptr \<times> ptr \<times> ptr \<Rightarrow> trap_state exec" where
  "trap_sys_init s handlers news =
     (case handlers of (timer, syscall, pgfault) \<Rightarrow> case news of (n1, n2, n3) \<Rightarrow>
        register_all (s\<lparr>trap_handler_table := radix_tree_construct\<rparr>)
          [(T_IRQ_TIMER, timer, n1), (T_SYSCALL, syscall, n2), (T_PF, pgfault, n3)])"

section \<open>The table as a map\<close>

definition tt_tree :: "trap_state \<Rightarrow> rtree" where
  "tt_tree s = (tt_nodes s, tt_news s, trap_handler_table s)"

definition trap_inv :: "trap_state \<Rightarrow> bool" where
  "trap_inv s \<longleftrightarrow> rt_ok (tt_tree s)
     \<and> (\<forall>i v. rt_get (tt_tree s) i = Some v \<longrightarrow> v \<noteq> NULL \<longrightarrow> tt_entries s v \<noteq> None)
     \<and> (\<forall>i j v. rt_get (tt_tree s) i = Some v \<longrightarrow> rt_get (tt_tree s) j = Some v \<longrightarrow> v \<noteq> NULL \<longrightarrow> i = j)"

definition dispatch :: "trap_state \<Rightarrow> nat \<Rightarrow> (ptr \<times> ptr) option" where
  "dispatch s i = (case rt_get (tt_tree s) i of
     Some v \<Rightarrow> if v = NULL then None else map_option (\<lambda>e. (te_handler e, te_dev e)) (tt_entries s v)
   | None \<Rightarrow> None)"

lemma trap_invD:
  assumes "trap_inv s"
  shows "rt_ok (tt_tree s)" "rt_get (tt_tree s) i = Some v \<Longrightarrow> v \<noteq> NULL \<Longrightarrow> tt_entries s v \<noteq> None"
    "rt_get (tt_tree s) i = Some v \<Longrightarrow> rt_get (tt_tree s) j = Some v \<Longrightarrow> v \<noteq> NULL \<Longrightarrow> i = j"
  using assms unfolding trap_inv_def by blast+

lemma invoke_dispatch:
  assumes inv: "trap_inv s" and irq: "unat irq < 2 ^ 30"
  shows "trap_invoke_handler s irq =
    Some (if dispatch s (unat irq) = None then ERR_TRAP_NOT_FOUND else ERR_OK, dispatch s (unat irq))"
proof -
  obtain v where v: "rt_get (tt_tree s) (unat irq) = Some v" using rt.get_returns [OF trap_invD(1) [OF inv]] by blast
  then have "radix_tree_lookup (tt_nodes s) (trap_handler_table s) (sint irq) = Some v"
    by (simp add: rt_get_def tt_tree_def sint_small [OF irq])
  then show ?thesis using v trap_invD(2) [OF inv v]
    by (cases "v = NULL") (auto simp: trap_invoke_handler_def dispatch_def)
qed

lemma register_ok:
  assumes inv: "trap_inv s" and irq: "unat irq < 2 ^ 30" and new: "new = NULL \<or> tt_entries s new = None" and h: "handler \<noteq> NULL"
  shows "\<exists>err s'. trap_register_handler s new irq dev handler = Some (err, s') \<and> trap_inv s'
    \<and> (err = ERR_OK \<and> dispatch s (unat irq) = None \<and> dispatch s' = (dispatch s)(unat irq := Some (handler, dev))
       \<or> err = ERR_TRAP_REG_FAIL \<and> dispatch s' = dispatch s)"
proof (cases "new = NULL")
  case True
  then show ?thesis using inv h by (auto simp: trap_register_handler_def)
next
  case False
  let ?i = "unat irq"
  obtain err t where t: "rt_put (tt_tree s) ?i new = Some (err, t)" using rt.put_law [OF trap_invD(1) [OF inv] irq False] by blast
  obtain h' ns' root' where t_eq: "t = (h', ns', root')" by (cases t)
  let ?s = "s\<lparr>tt_entries := (tt_entries s)(new \<mapsto> \<lparr>te_dev = dev, te_handler = handler\<rparr>), tt_nodes := h', tt_news := ns', trap_handler_table := root'\<rparr>"
  have run: "trap_register_handler s new irq dev handler = Some (if err = ERR_OK then ERR_OK else ERR_TRAP_REG_FAIL, ?s)"
    using t False h by (simp add: trap_register_handler_def rt_put_def tt_tree_def t_eq sint_small [OF irq])
  have tr: "tt_tree ?s = t" by (simp add: tt_tree_def t_eq)
  note g = rt.put_get [OF trap_invD(1) [OF inv] irq False t]
  have old: "v \<noteq> new" if "rt_get (tt_tree s) i = Some v" "v \<noteq> NULL" for i v using trap_invD(2) [OF inv that] new False by auto
  have "trap_inv ?s" unfolding trap_inv_def tr
  proof (intro conjI allI impI)
    show "rt_ok t" by (rule rt.put_ok [OF trap_invD(1) [OF inv] irq False t])
    show "tt_entries ?s v \<noteq> None" if "rt_get t i = Some v" "v \<noteq> NULL" for i v
      using that trap_invD(2) [OF inv, of i v] by (auto simp: g split: if_splits)
    show "i = j" if "rt_get t i = Some v" "rt_get t j = Some v" "v \<noteq> NULL" for i j v
      using that trap_invD(3) [OF inv, of i v j] old [of i v] old [of j v] by (auto simp: g split: if_splits)
  qed
  moreover have "dispatch ?s = (if err = ERR_OK then (dispatch s)(?i := Some (handler, dev)) else dispatch s)"
    using old False by (auto simp: fun_eq_iff dispatch_def tr g split: option.splits)
  moreover have "dispatch s ?i = None" if "err = ERR_OK"
    using rt.put_law [OF trap_invD(1) [OF inv] irq False] t that by (auto simp: dispatch_def split: if_splits)
  ultimately show ?thesis using run by auto
qed

lemma unregister_ok:
  assumes inv: "trap_inv s" and irq: "unat irq < 2 ^ 30"
  shows "\<exists>s'. trap_unregister_handler s irq = Some (if dispatch s (unat irq) = None then ERR_TRAP_NOT_FOUND else ERR_OK, s')
    \<and> trap_inv s' \<and> dispatch s' = (dispatch s)(unat irq := None)"
proof -
  let ?i = "unat irq"
  obtain v where v: "rt_get (tt_tree s) ?i = Some v" using rt.get_returns [OF trap_invD(1) [OF inv]] by blast
  then have l: "radix_tree_lookup (tt_nodes s) (trap_handler_table s) (sint irq) = Some v"
    by (simp add: rt_get_def tt_tree_def sint_small [OF irq])
  show ?thesis
  proof (cases "v = NULL")
    case True
    then have "dispatch s ?i = None" using v by (simp add: dispatch_def)
    then show ?thesis using True l inv by (intro exI [of _ s]) (auto simp: trap_unregister_handler_def)
  next
    case False
    obtain t where t: "rt_del (tt_tree s) ?i = Some (v, t)" "rt_ok t" "rt_get t ?i = Some NULL"
      "\<forall>j. j \<noteq> ?i \<longrightarrow> rt_get t j = rt_get (tt_tree s) j"
      using rt.del_law [OF trap_invD(1) [OF inv] v False] by blast
    then obtain h' root' where r: "radix_tree_remove (tt_nodes s) (trap_handler_table s) (sint irq) = Some (v, h', root')"
      "t = (h', tt_news s, root')" by (auto simp: rt_del_def tt_tree_def sint_small [OF irq] bind_Some_conv)
    let ?s = "s\<lparr>tt_nodes := h', trap_handler_table := root', tt_entries := (tt_entries s)(v := None)\<rparr>"
    have tr: "tt_tree ?s = t" by (simp add: tt_tree_def r(2))
    have g: "rt_get t j = (if j = ?i then Some NULL else rt_get (tt_tree s) j)" for j using t(3,4) by simp
    have other: "w \<noteq> v" if "rt_get (tt_tree s) j = Some w" "j \<noteq> ?i" for j w using trap_invD(3) [OF inv v, of j] that False by auto
    have "trap_inv ?s" unfolding trap_inv_def tr
    proof (intro conjI allI impI)
      show "tt_entries ?s w \<noteq> None" if "rt_get t j = Some w" "w \<noteq> NULL" for j w
        using that trap_invD(2) [OF inv, of j w] other [of j w] by (auto simp: g split: if_splits)
      show "i = j" if "rt_get t i = Some w" "rt_get t j = Some w" "w \<noteq> NULL" for i j w
        using that trap_invD(3) [OF inv, of i w j] by (auto simp: g split: if_splits)
    qed (rule t(2))
    moreover have "dispatch ?s = (dispatch s)(?i := None)"
      using other by (auto simp: fun_eq_iff dispatch_def tr g split: option.splits)
    moreover have "dispatch s ?i \<noteq> None" using v False trap_invD(2) [OF inv v] by (auto simp: dispatch_def)
    ultimately show ?thesis using False l r by (intro exI [of _ ?s]) (auto simp: trap_unregister_handler_def)
  qed
qed

section \<open>Property\<close>

text \<open>Registering a handler on a well-formed table returns; on success the interrupt, until then without a
  handler, dispatches to exactly this handler with its device, and unregistering it succeeds and
  restores every dispatch; on failure no dispatch changes.  Other interrupts are never affected.\<close>

theorem trap_table_dispatch:
  assumes inv: "trap_inv s" and irq: "unat irq < 2 ^ 30" and new: "new = NULL \<or> tt_entries s new = None" and h: "handler \<noteq> NULL"
  shows "\<exists>err s'. trap_register_handler s new irq dev handler = Some (err, s') \<and> trap_inv s'
    \<and> (\<forall>j. unat j < 2 ^ 30 \<longrightarrow> j \<noteq> irq \<longrightarrow> trap_invoke_handler s' j = trap_invoke_handler s j)
    \<and> (err = ERR_OK \<and> trap_invoke_handler s irq = Some (ERR_TRAP_NOT_FOUND, None)
         \<and> trap_invoke_handler s' irq = Some (ERR_OK, Some (handler, dev))
         \<and> (\<exists>s''. trap_unregister_handler s' irq = Some (ERR_OK, s'') \<and> trap_inv s''
              \<and> (\<forall>j. unat j < 2 ^ 30 \<longrightarrow> trap_invoke_handler s'' j = trap_invoke_handler s j))
       \<or> err = ERR_TRAP_REG_FAIL \<and> trap_invoke_handler s' irq = trap_invoke_handler s irq)"
proof -
  from register_ok [OF assms, of dev] obtain err s' where r: "trap_register_handler s new irq dev handler = Some (err, s')" "trap_inv s'"
    "err = ERR_OK \<and> dispatch s (unat irq) = None \<and> dispatch s' = (dispatch s)(unat irq := Some (handler, dev))
     \<or> err = ERR_TRAP_REG_FAIL \<and> dispatch s' = dispatch s" by blast
  from unregister_ok [OF r(2) irq] obtain s'' where
    u: "trap_unregister_handler s' irq = Some (if dispatch s' (unat irq) = None then ERR_TRAP_NOT_FOUND else ERR_OK, s'')"
    "trap_inv s''" "dispatch s'' = (dispatch s')(unat irq := None)" by blast
  note i = invoke_dispatch [OF inv] invoke_dispatch [OF r(2)] invoke_dispatch [OF u(2)]
  show ?thesis
  proof (intro exI conjI)
    show "trap_register_handler s new irq dev handler = Some (err, s')" "trap_inv s'" using r by auto
    have "dispatch s' (unat j) = dispatch s (unat j)" if "j \<noteq> irq" for j :: irq_t
      using r(3) that by (auto simp: word_unat_eq_iff)
    then show "\<forall>j. unat j < 2 ^ 30 \<longrightarrow> j \<noteq> irq \<longrightarrow> trap_invoke_handler s' j = trap_invoke_handler s j"
      by (simp add: i)
    show "err = ERR_OK \<and> trap_invoke_handler s irq = Some (ERR_TRAP_NOT_FOUND, None)
         \<and> trap_invoke_handler s' irq = Some (ERR_OK, Some (handler, dev))
         \<and> (\<exists>s''. trap_unregister_handler s' irq = Some (ERR_OK, s'') \<and> trap_inv s''
              \<and> (\<forall>j. unat j < 2 ^ 30 \<longrightarrow> trap_invoke_handler s'' j = trap_invoke_handler s j))
       \<or> err = ERR_TRAP_REG_FAIL \<and> trap_invoke_handler s' irq = trap_invoke_handler s irq"
    proof (cases "err = ERR_OK")
      case True
      then have d: "dispatch s (unat irq) = None" "dispatch s' = (dispatch s)(unat irq := Some (handler, dev))" "dispatch s'' = dispatch s"
        using r(3) u(3) by auto
      then show ?thesis using True u irq by (auto simp: i)
    qed (use r(3) irq in \<open>auto simp: i\<close>)
  qed
qed

definition empty_traps :: trap_state where
  "empty_traps = \<lparr>tt_nodes = (\<lambda>_. None), tt_news = [60, 61], trap_handler_table = radix_tree_construct, tt_entries = (\<lambda>_. None)\<rparr>"

lemma empty_traps_inv: "trap_inv empty_traps"
proof -
  have "rt_inv (\<lambda>_ _. NULL) (\<lambda>_. None) radix_tree_construct" by (rule rt_invI) (auto simp: radix_tree_construct_def)
  then have "rt_ok (tt_tree empty_traps)" by (auto simp: rt_ok_def tt_tree_def empty_traps_def fresh_def)
  moreover have "rt_get (tt_tree empty_traps) i = Some NULL" for i
    by (simp add: rt_get_def tt_tree_def empty_traps_def radix_tree_lookup_def radix_tree_max_index_def radix_tree_construct_def)
  ultimately show ?thesis by (simp add: trap_inv_def)
qed

lemma trap_table_dispatch_witness:
  "\<exists>s'. trap_register_handler empty_traps 70 14 0 500 = Some (ERR_OK, s') \<and> trap_inv s'
    \<and> trap_invoke_handler s' 14 = Some (ERR_OK, Some (500, 0))"
proof -
  let ?h = "[60 \<mapsto> \<lparr>node_count = 0, node_parent = NULL, slots = (\<lambda>_. NULL)\<rparr>]"
  have "grow (\<lambda>_. None) [60, 61] radix_tree_construct 14 = grow ?h [61] \<lparr>height = 1, root_node = 60\<rparr> 14"
    by (subst grow.simps) (simp add: radix_tree_max_index_def radix_tree_construct_def radix_tree_add_level_def radix_tree_node_create_def)
  also have "\<dots> = Some (ERR_OK, ?h, [61], \<lparr>height = 1, root_node = 60\<rparr>)"
    by (subst grow.simps) (simp add: radix_tree_max_index_def)
  finally obtain h' where "radix_tree_insert (\<lambda>_. None) [60, 61] radix_tree_construct 14 70 = Some (ERR_OK, h', [61], \<lparr>height = 1, root_node = 60\<rparr>)"
    using level_index_nat [of 14 0] by (auto simp: radix_tree_insert_def radix_tree_find_parent_def radix_tree_add_child_def)
  then obtain s' where "trap_register_handler empty_traps 70 14 0 500 = Some (ERR_OK, s')"
    by (auto simp: trap_register_handler_def empty_traps_def)
  moreover have "\<exists>err s'. trap_register_handler empty_traps 70 14 0 500 = Some (err, s') \<and> trap_inv s'
    \<and> (err = ERR_OK \<and> trap_invoke_handler s' 14 = Some (ERR_OK, Some (500, 0)) \<or> err = ERR_TRAP_REG_FAIL)"
    using trap_table_dispatch [OF empty_traps_inv, of 14 70 500 0] by (auto simp: empty_traps_def)
  ultimately show ?thesis by auto
qed

end
