(* ===== verification/Cow.thy ===== *)
theory Cow
  imports Vpmap
begin

text \<open>
  Sharing frames between page tables.  The first part is what the fault handlers and the copying of address spaces
  need to know of the frames behind a page table; the second proves \<open>vpmap_cow_copy\<close> of
  \<^verbatim>\<open>arch/x86_64/kernel/mm/vpmap.c\<close>, by which fork shares all pages of a region read-only.
\<close>

section \<open>Data frames\<close>

text \<open>A data frame: an allocated single page that is not a page table.\<close>

definition data_frame :: "owner \<Rightarrow> vps \<Rightarrow> nat \<Rightarrow> bool" where
  "data_frame R s f \<longleftrightarrow> f \<in> allocated (pm s) \<and> od (pm s) f = 0 \<and> f \<noteq> 0 \<and> (\<forall>r p. owned R r p \<longrightarrow> tab s r p \<noteq> Some f)"

lemma lookup_page:
  assumes "present (pte s r v)"
  shows "vpmap_lookup_vaddr s r (pg_round_down v) = Some (ERR_OK, Some (page_to_paddr (frame (pte s r v))))"
proof -
  have "pte s r (pg_round_down v) = pte s r v" by (rule pte_cong) simp
  moreover have "VPN (pg_round_down v) = pg_round_down v"
    using aligned_plus(2) [of "pg_round_down v" 0] by simp
  ultimately show ?thesis using assms by (simp add: vpmap_lookup_vaddr_pte PPN_frame)
qed

lemma pte_present_tab: "present (pte s r v) \<Longrightarrow> \<exists>t. tab s r (vpath v) = Some t"
  by (auto simp: pte_def leaf_def split: option.splits)

lemma frame_less:
  assumes "vt_inv R s" "f \<in> allocated (pm s)"
  shows "f < 2 ^ 39" "f < 2 ^ 52" "paddr_to_page (page_to_paddr f) = f"
proof -
  show "f < 2 ^ 39" using assms vt_invD(2) [OF assms(1)] by (simp add: allocated_def)
  then show "f < 2 ^ 52" by simp
  then show "paddr_to_page (page_to_paddr f) = f" by (rule page_roundtrip)
qed

lemma PPN_page:
  assumes "f < 2 ^ 39"
  shows "PPN (pg_round_down (page_to_paddr f)) = page_to_paddr f"
proof -
  have "f * 4096 < 2 ^ 64" using assms by simp
  then have "unat (page_to_paddr f) = f * 4096" by (simp add: page_to_paddr_def pg_size_def unat_word_ariths unat_of_nat)
  then have "pg_round_down (page_to_paddr f) = page_to_paddr f" by (intro pg_round_down_aligned) simp
  then show ?thesis using ENTRY_ADDR_page [OF assms, of 0] by (simp add: PPN_eq)
qed

definition keeps_frames :: "owner \<Rightarrow> vps \<Rightarrow> vps \<Rightarrow> bool" where
  "keeps_frames R s s' \<longleftrightarrow> (\<forall>i \<in> allocated (pm s). i \<in> allocated (pm s') \<and> od (pm s') i = od (pm s) i)
     \<and> (\<forall>r p t. owned R r p \<longrightarrow> tab s' r p = Some t \<longrightarrow> tab s r p = Some t \<or> t \<notin> allocated (pm s))
     \<and> (\<forall>r p t. owned R r p \<longrightarrow> tab s r p = Some t \<longrightarrow> tab s' r p = Some t)"

lemma keeps_data_frame: "keeps_frames R s s' \<Longrightarrow> data_frame R s f \<Longrightarrow> data_frame R s' f"
  unfolding keeps_frames_def data_frame_def by (auto; blast)

lemma keeps_frames_refl [simp]: "keeps_frames R s s"
  by (simp add: keeps_frames_def)

lemma keeps_frames_trans: "keeps_frames R s s' \<Longrightarrow> keeps_frames R s' s'' \<Longrightarrow> keeps_frames R s s''"
  unfolding keeps_frames_def by (intro conjI) (simp, blast, blast)

lemma ext_keeps: "ext R s s' \<Longrightarrow> keeps_frames R s s'"
  by (auto simp: ext_def keeps_frames_def)

section \<open>Protecting a range\<close>

definition protect :: "u64 \<Rightarrow> pte_t \<Rightarrow> pte_t" where
  "protect perm e = PPN e OR (ENTRY_FLAGS e AND PTE_P) OR perm"

lemma set_perm_loop_ok:
  assumes "vt_inv R s" "n \<le> 2 ^ 36" "\<forall>k < n. PML4X (off v k) \<in> R r"
  shows "\<exists>s'. set_perm_loop n s r v perm = Some s' \<and> vt_inv R s' \<and> pm s' = pm s \<and> pgdata s' = pgdata s \<and> cr3 s' = cr3 s
    \<and> (\<forall>r' p. owned R r' p \<longrightarrow> tab s' r' p = tab s r' p)
    \<and> (\<forall>r' w. PML4X w \<in> R r' \<longrightarrow> pte s' r' w =
         (if r' = r \<and> (\<exists>k < n. vkey w = vkey (off v k)) \<and> tab s r (vpath w) \<noteq> None then protect perm (pte s r w) else pte s r' w))"
  using assms
proof (induction n arbitrary: s v)
  case 0
  then show ?case by simp
next
  case (Suc n)
  note inv = Suc.prems(1)
  have r0: "PML4X v \<in> R r" using Suc.prems(3) by (metis off_0 zero_less_Suc)
  define s1 where "s1 = (case tab s r (vpath v) of None \<Rightarrow> s | Some t \<Rightarrow> set_pte t (PTX v) (protect perm (pte s r v)) s)"
  have step: "set_perm_loop (Suc n) s r v perm = set_perm_loop n s1 r (v + pg_size) perm"
    by (auto simp: find_pte_False s1_def protect_def pte_def leaf_def split: option.splits)
  have o: "owned R r (vpath v)" using r0 by simp
  have i1: "vt_inv R s1" and t1: "\<And>r' p. owned R r' p \<Longrightarrow> tab s1 r' p = tab s r' p" and m1: "pm s1 = pm s" "pgdata s1 = pgdata s" "cr3 s1 = cr3 s"
    using inv set_leaf [OF inv o _ length_vpath] by (auto simp: s1_def set_pte_def [of _ _ _ s] split: option.splits)
  have p1: "pte s1 r' w = (if r' = r \<and> vkey w = vkey v \<and> tab s r (vpath w) \<noteq> None then protect perm (pte s r w) else pte s r' w)"
    if "PML4X w \<in> R r'" for r' w
  proof (cases "tab s r (vpath v)")
    case None
    then show ?thesis using vkey_eq_iff [of w v] by (auto simp: s1_def)
  next
    case (Some t)
    then show ?thesis using pte_set [OF inv r0 Some that] vkey_eq_iff [of w v] pte_cong [of w v s r] by (auto simp: s1_def)
  qed
  have "n \<le> 2 ^ 36" "\<forall>k < n. PML4X (off (v + pg_size) k) \<in> R r" using Suc.prems by (simp_all add: off_Suc)
  from Suc.IH [OF i1 this] obtain s' where
    s': "set_perm_loop (Suc n) s r v perm = Some s'" "vt_inv R s'" "pm s' = pm s1" "pgdata s' = pgdata s1" "cr3 s' = cr3 s1"
      "\<forall>r' p. owned R r' p \<longrightarrow> tab s' r' p = tab s1 r' p"
      "\<forall>r' w. PML4X w \<in> R r' \<longrightarrow> pte s' r' w =
         (if r' = r \<and> (\<exists>k < n. vkey w = vkey (off v (Suc k))) \<and> tab s1 r (vpath w) \<noteq> None then protect perm (pte s1 r w) else pte s1 r' w)"
    unfolding step off_Suc by blast
  have ex: "(\<exists>k < Suc n. vkey w = vkey (off v k)) \<longleftrightarrow> vkey w = vkey v \<or> (\<exists>k < n. vkey w = vkey (off v (Suc k)))" for w
    by (metis Suc_less_eq less_Suc_eq_0_disj off_0 zero_less_Suc)
  have ne: "vkey w \<noteq> vkey v" if "k < n" "vkey w = vkey (off v (Suc k))" for k w
    using vkey_off_inj [of v "Suc k" 0] that Suc.prems(2) by fastforce
  have "pte s' r' w =
      (if r' = r \<and> (\<exists>k < Suc n. vkey w = vkey (off v k)) \<and> tab s r (vpath w) \<noteq> None then protect perm (pte s r w) else pte s r' w)"
    if w: "PML4X w \<in> R r'" for r' w
  proof -
    have tw: "tab s1 r (vpath w) = tab s r (vpath w)" if "r' = r" using t1 [of r "vpath w"] w that by simp
    show ?thesis
    proof (cases "\<exists>k < n. vkey w = vkey (off v (Suc k))")
      case True
      then have "vkey w \<noteq> vkey v" using ne by blast
      then have "pte s1 r' w = pte s r' w" using p1 [OF w] by simp
      then show ?thesis unfolding s'(7) [rule_format, OF w] ex using True tw by auto
    next
      case False
      then show ?thesis unfolding s'(7) [rule_format, OF w] ex using p1 [OF w] by auto
    qed
  qed
  then show ?case using s' m1 t1 by auto
qed

section \<open>Sharing a range\<close>

text \<open>The pages of a range that are mapped, and how often a frame occurs among them.\<close>

definition mapped_pages :: "vps \<Rightarrow> nat \<Rightarrow> vaddr_t \<Rightarrow> nat \<Rightarrow> nat set" where
  "mapped_pages s r v n = {k. k < n \<and> present (pte s r (off v k))}"

definition uses :: "vps \<Rightarrow> nat \<Rightarrow> vaddr_t \<Rightarrow> nat \<Rightarrow> nat \<Rightarrow> nat" where
  "uses s r v n f = card {k. k < n \<and> present (pte s r (off v k)) \<and> frame (pte s r (off v k)) = f}"

lemma uses_Suc:
  "uses s r v (Suc n) f = (if present (pte s r v) \<and> frame (pte s r v) = f then 1 else 0) + uses s r (v + pg_size) n f"
proof -
  let ?P = "\<lambda>k. present (pte s r (off v k)) \<and> frame (pte s r (off v k)) = f"
  have "{k. k < Suc n \<and> ?P k} = (if ?P 0 then {0} else {}) \<union> Suc ` {k. k < n \<and> ?P (Suc k)}"
    by (auto simp: less_Suc_eq_0_disj)
  moreover have "card (Suc ` {k. k < n \<and> ?P (Suc k)}) = uses s r (v + pg_size) n f"
    by (simp add: card_image uses_def off_Suc)
  ultimately show ?thesis unfolding uses_def [of s r v] by (simp add: card_insert_if)
qed

lemma uses_cong:
  assumes "\<And>k. k < n \<Longrightarrow> pte s' r (off v k) = pte s r (off v k)"
  shows "uses s' r v n f = uses s r v n f"
proof -
  have "{k. k < n \<and> present (pte s' r (off v k)) \<and> frame (pte s' r (off v k)) = f} =
    {k. k < n \<and> present (pte s r (off v k)) \<and> frame (pte s r (off v k)) = f}" using assms by auto
  then show ?thesis by (simp add: uses_def)
qed

text \<open>What the copying loop needs: mapped source pages are data frames, other source entries and all target entries are
  empty.\<close>

definition cow_ready :: "owner \<Rightarrow> vps \<Rightarrow> nat \<Rightarrow> nat \<Rightarrow> vaddr_t \<Rightarrow> vaddr_t \<Rightarrow> nat \<Rightarrow> bool" where
  "cow_ready R s src dst a b n \<longleftrightarrow>
     (\<forall>k < n. PML4X (off a k) \<in> R src \<and> PML4X (off b k) \<in> R dst
        \<and> (if present (pte s src (off a k)) then data_frame R s (frame (pte s src (off a k))) else PPN (pte s src (off a k)) = 0)
        \<and> PPN (pte s dst (off b k)) = 0 \<and> \<not> present (pte s dst (off b k)))"

definition same_bytes :: "vps \<Rightarrow> vps \<Rightarrow> bool" where
  "same_bytes s s' \<longleftrightarrow> (\<forall>i \<in> allocated (pm s). pgdata s' i = pgdata s i)"

lemma cow_ready_tl:
  assumes "cow_ready R s src dst a b (Suc n)" "keeps_frames R s s'"
    "\<And>k. k < n \<Longrightarrow> pte s' src (off a (Suc k)) = pte s src (off a (Suc k))"
    "\<And>k. k < n \<Longrightarrow> pte s' dst (off b (Suc k)) = pte s dst (off b (Suc k))"
  shows "cow_ready R s' src dst (a + pg_size) (b + pg_size) n"
  unfolding cow_ready_def off_Suc
proof (intro allI impI)
  fix k assume k: "k < n"
  then have "Suc k < Suc n" by simp
  with assms(1) have c: "PML4X (off a (Suc k)) \<in> R src \<and> PML4X (off b (Suc k)) \<in> R dst
      \<and> (if present (pte s src (off a (Suc k))) then data_frame R s (frame (pte s src (off a (Suc k)))) else PPN (pte s src (off a (Suc k))) = 0)
      \<and> PPN (pte s dst (off b (Suc k))) = 0 \<and> \<not> present (pte s dst (off b (Suc k)))"
    unfolding cow_ready_def by blast
  then show "PML4X (off a (Suc k)) \<in> R src \<and> PML4X (off b (Suc k)) \<in> R dst
      \<and> (if present (pte s' src (off a (Suc k))) then data_frame R s' (frame (pte s' src (off a (Suc k)))) else PPN (pte s' src (off a (Suc k))) = 0)
      \<and> PPN (pte s' dst (off b (Suc k))) = 0 \<and> \<not> present (pte s' dst (off b (Suc k)))"
    unfolding assms(3) [OF k] assms(4) [OF k] using keeps_data_frame [OF assms(2)] by (auto split: if_splits)
qed

text \<open>One round that shares a mapped page.\<close>

lemma cow_step:
  assumes inv: "vt_inv R s" and ne: "src \<noteq> dst" and al: "4096 dvd unat a"
    and a: "PML4X a \<in> R src" "present (pte s src a)" "data_frame R s (frame (pte s src a))"
    and b: "PML4X b \<in> R dst" "PPN (pte s dst b) = 0"
  shows "\<exists>s1. cow_loop (Suc n) s src dst a b = Some (ERR_VPMAP_MAP, s1) \<and> vt_inv R s1 \<and> keeps_frames R s s1 \<and> same_bytes s s1
      \<and> (\<forall>k \<le> MAX_ORDER. freeblocks (pm s1) k = []) \<and> tab s dst (vpath b) = None \<and> (\<forall>r' w. PML4X w \<in> R r' \<longrightarrow> pte s1 r' w = pte s r' w)
      \<and> (\<forall>f \<in> allocated (pm s). rc (pm s1) f = rc (pm s) f)
    \<or> cow_loop (Suc n) s src dst a b = cow_loop n s1 src dst (a + pg_size) (b + pg_size) \<and> vt_inv R s1 \<and> keeps_frames R s s1 \<and> same_bytes s s1
      \<and> (\<forall>f \<in> allocated (pm s). rc (pm s1) f = rc (pm s) f + (if f = frame (pte s src a) then 1 else 0))
      \<and> (\<forall>r' w. PML4X w \<in> R r' \<longrightarrow> pte s1 r' w = (if r' = dst \<and> vkey w = vkey b then pte s src a else pte s r' w))"
proof -
  let ?e = "pte s src a" and ?f = "frame (pte s src a)"
  have f: "?f \<in> allocated (pm s)" "od (pm s) ?f = 0" "?f \<noteq> 0" using a(3) by (auto simp: data_frame_def)
  obtain st where st: "tab s src (vpath a) = Some st" "ptes s st (PTX a) = ?e"
    using pte_present_tab [OF a(2)] by (auto simp: pte_def leaf_def)
  note fl = frame_less [OF inv f(1)]
  have nz: "PPN ?e \<noteq> 0" using fl(3) f(3) by (auto simp: PPN_frame paddr_to_page_def)
  have fs: "find_pte s src a False = Some (Some (st, PTX a), s)" using find_pte_present [OF st(1)] by simp
  obtain x s0 where x: "find_pte s dst b True = Some (x, s0)" "ext R s s0"
    "case x of None \<Rightarrow> (\<forall>k \<le> MAX_ORDER. freeblocks (pm s0) k = []) | Some (t, j) \<Rightarrow> j = PTX b \<and> tab s0 dst (vpath b) = Some t"
    using find_pte_True [OF inv b(1)] by blast
  have x0: "vt_inv R s0" "keeps_frames R s s0" "same_bytes s s0" "\<And>r' w. PML4X w \<in> R r' \<Longrightarrow> pte s0 r' w = pte s r' w"
    using x(2) ext_keeps [OF x(2)] ext_pte [OF x(2)] by (auto simp: ext_def same_bytes_def)
  show ?thesis
  proof (cases x)
    case None
    then have "cow_loop (Suc n) s src dst a b = Some (ERR_VPMAP_MAP, s0)" using fs st(2) nz x(1) by simp
    moreover have "tab s dst (vpath b) = None" using x(1) None find_pte_present [of s dst b _ True] by (cases "tab s dst (vpath b)") auto
    moreover have "\<forall>f \<in> allocated (pm s). rc (pm s0) f = rc (pm s) f" using x(2) by (simp add: ext_def)
    ultimately show ?thesis using None x(3) x0 by auto
  next
    case (Some tj)
    then obtain t where t: "x = Some (t, PTX b)" "tab s0 dst (vpath b) = Some t" using x(3) by (cases tj) auto
    have e0: "pte s0 src a = ?e" "pte s0 dst b = pte s dst b" using x0(4) a(1) b(1) by auto
    have st0: "tab s0 src (vpath a) = Some st" using x(2) st(1) a(1) unfolding ext_def by auto
    have sp: "ptes s0 st (PTX a) = ?e" using e0(1) st0 by (simp add: pte_def leaf_def)
    have lk: "vpmap_lookup_vaddr s0 src a = Some (ERR_OK, Some (page_to_paddr ?f))"
      using lookup_page [of s0 src a] e0(1) a(2) pg_round_down_aligned [OF al] by simp
    have tz: "PPN (ptes s0 t (PTX b)) = 0" using b(2) e0(2) t(2) by (simp add: pte_def leaf_def)
    have "?f \<in> allocated (pm s0)" "od (pm s0) ?f = 0" using x0(2) f by (auto simp: keeps_frames_def)
    from pmem_inc_refcnt_ok [OF vt_invD(1) [OF x0(1)] this fl(3), of 1] obtain m where
      m: "pmem_inc_refcnt (pm s0) (page_to_paddr ?f) 1 = Some m" "pmem_inv m" "allocated m = allocated (pm s0)"
        "rc m ?f = rc (pm s0) ?f + 1" "\<forall>i. i \<noteq> ?f \<longrightarrow> pagemap m i = pagemap (pm s0) i" "od m ?f = 0" by auto
    have np: "n_pages m = n_pages (pm s0)" using m(1) by (auto simp: pmem_inc_refcnt_def Let_def split: if_splits)
    let ?s1 = "s0\<lparr>pm := m\<rparr>"
    let ?s2 = "set_pte t (PTX b) ?e ?s1"
    have i1: "vt_inv R ?s1" by (rule vt_inv_pm [OF x0(1) m(2)]) (use np m(3) vt_invD(2) [OF x0(1)] in auto)
    have t1: "tab ?s1 dst (vpath b) = Some t" using t(2) by simp
    have sl: "vt_inv R ?s2" "\<And>r' q. owned R r' q \<Longrightarrow> tab ?s2 r' q = tab s0 r' q"
      using set_leaf [OF i1 _ t1 length_vpath] b(1) by auto
    have run: "cow_loop (Suc n) s src dst a b = cow_loop n ?s2 src dst (a + pg_size) (b + pg_size)"
      using fs st(2) nz x(1) t(1) tz lk m(1) sp by simp
    have od: "od m j = od (pm s0) j" for j using m(5,6) \<open>od (pm s0) ?f = 0\<close> by (cases "j = ?f") auto
    have k2: "keeps_frames R s0 ?s2" unfolding keeps_frames_def using sl(2) m(3) od by (auto simp: set_pte_def)
    have rc: "rc m g = rc (pm s) g + (if g = ?f then 1 else 0)" if "g \<in> allocated (pm s)" for g
      using m(4,5) x(2) that by (cases "g = ?f") (auto simp: ext_def)
    have "pte ?s2 r' w = (if r' = dst \<and> vkey w = vkey b then ?e else pte s r' w)" if "PML4X w \<in> R r'" for r' w
      using pte_set [OF i1 b(1) t1 that] x0(4) [OF that] pte_same [of ?s1 s0] by simp
    moreover have "same_bytes s ?s2" using x0(3) by (simp add: same_bytes_def set_pte_def)
    ultimately show ?thesis using run sl(1) keeps_frames_trans [OF x0(2) k2] rc
      by (intro exI [of _ ?s2] disjI2) (auto simp: set_pte_def [of _ _ _ ?s1])
  qed
qed

lemma cow_skip:
  assumes "PPN (pte s src a) = 0"
  shows "cow_loop (Suc n) s src dst a b = cow_loop n s src dst (a + pg_size) (b + pg_size)"
  using assms by (auto simp: find_pte_False pte_def leaf_def split: option.splits)

lemma cow_loop_ok:
  assumes "vt_inv R s" "src \<noteq> dst" "n \<le> 2 ^ 36" "4096 dvd unat a" "cow_ready R s src dst a b n"
  shows "\<exists>err s'. cow_loop n s src dst a b = Some (err, s') \<and> vt_inv R s' \<and> same_bytes s s' \<and> keeps_frames R s s'
    \<and> (\<forall>r' w. PML4X w \<in> R r' \<longrightarrow> r' \<noteq> dst \<or> (\<forall>k < n. present (pte s src (off a k)) \<longrightarrow> vkey w \<noteq> vkey (off b k))
         \<longrightarrow> pte s' r' w = pte s r' w)
    \<and> (err = ERR_OK \<and> (\<forall>k < n. present (pte s src (off a k)) \<longrightarrow> pte s' dst (off b k) = pte s src (off a k))
         \<and> (\<forall>f \<in> allocated (pm s). rc (pm s') f = rc (pm s) f + int (uses s src a n f))
       \<or> err = ERR_VPMAP_MAP \<and> (\<forall>k \<le> MAX_ORDER. freeblocks (pm s') k = []) \<and> (\<exists>k < n. tab s dst (vpath (off b k)) = None))"
  using assms
proof (induction n arbitrary: s a b)
  case 0
  then show ?case by (simp add: same_bytes_def uses_def)
next
  case (Suc n)
  note inv = Suc.prems(1) and ready = Suc.prems(5)
  have k0: "PML4X a \<in> R src \<and> PML4X b \<in> R dst
      \<and> (if present (pte s src a) then data_frame R s (frame (pte s src a)) else PPN (pte s src a) = 0)
      \<and> PPN (pte s dst b) = 0 \<and> \<not> present (pte s dst b)"
    using ready unfolding cow_ready_def by (metis off_0 zero_less_Suc)
  have own: "PML4X (off a (Suc k)) \<in> R src" "PML4X (off b (Suc k)) \<in> R dst" if "k < n" for k
    using ready that unfolding cow_ready_def by auto
  have neb: "vkey (off b (Suc k)) \<noteq> vkey b" if "k < n" for k
    using vkey_off_inj [of b "Suc k" 0] that Suc.prems(3) by auto
  have al: "4096 dvd unat (a + pg_size)" using aligned_off [OF Suc.prems(4), of 1] by (simp add: off_def)
  have le: "n \<le> 2 ^ 36" using Suc.prems(3) by simp
  have all: "(\<forall>k < Suc n. P k) \<longleftrightarrow> P 0 \<and> (\<forall>k < n. P (Suc k))" for P using less_Suc_eq_0_disj by auto
  have ex: "(\<exists>k < Suc n. P k) \<longleftrightarrow> P 0 \<or> (\<exists>k < n. P (Suc k))" for P using less_Suc_eq_0_disj by auto
  show ?case
  proof (cases "present (pte s src a)")
    case False
    then have run: "cow_loop (Suc n) s src dst a b = cow_loop n s src dst (a + pg_size) (b + pg_size)" using k0 cow_skip by simp
    have "cow_ready R s src dst (a + pg_size) (b + pg_size) n" by (rule cow_ready_tl [OF ready]) simp_all
    from Suc.IH [OF inv Suc.prems(2) le al this] False show ?thesis
      unfolding run all ex uses_Suc by (simp add: off_Suc) blast
  next
    case True
    then have df: "data_frame R s (frame (pte s src a))" using k0 by simp
    from cow_step [OF inv Suc.prems(2,4) _ True df, of b n] k0 consider
      (err) s1 where "cow_loop (Suc n) s src dst a b = Some (ERR_VPMAP_MAP, s1)" "vt_inv R s1" "keeps_frames R s s1" "same_bytes s s1"
        "\<forall>k \<le> MAX_ORDER. freeblocks (pm s1) k = []" "tab s dst (vpath b) = None" "\<forall>r' w. PML4X w \<in> R r' \<longrightarrow> pte s1 r' w = pte s r' w"
      | (ok) s1 where "cow_loop (Suc n) s src dst a b = cow_loop n s1 src dst (a + pg_size) (b + pg_size)" "vt_inv R s1"
        "keeps_frames R s s1" "same_bytes s s1"
        "\<forall>f \<in> allocated (pm s). rc (pm s1) f = rc (pm s) f + (if f = frame (pte s src a) then 1 else 0)"
        "\<forall>r' w. PML4X w \<in> R r' \<longrightarrow> pte s1 r' w = (if r' = dst \<and> vkey w = vkey b then pte s src a else pte s r' w)" by auto
    then show ?thesis
    proof cases
      case err
      then show ?thesis using off_0 [of b] zero_less_Suc [of n] by (intro exI [of _ ERR_VPMAP_MAP] exI [of _ s1]) (metis (lifting))
    next
      case ok
      have p1: "pte s1 src (off a (Suc k)) = pte s src (off a (Suc k))" "pte s1 dst (off b (Suc k)) = pte s dst (off b (Suc k))"
        if "k < n" for k using ok(6) own [OF that] neb [OF that] Suc.prems(2) by auto
      have "cow_ready R s1 src dst (a + pg_size) (b + pg_size) n" by (rule cow_ready_tl [OF ready ok(3)]) (use p1 in auto)
      from Suc.IH [OF ok(2) Suc.prems(2) le al this] obtain err s' where
        r: "cow_loop (Suc n) s src dst a b = Some (err, s')" "vt_inv R s'" "same_bytes s1 s'" "keeps_frames R s1 s'"
          "\<forall>r' w. PML4X w \<in> R r' \<longrightarrow> r' \<noteq> dst \<or> (\<forall>k < n. present (pte s1 src (off a (Suc k))) \<longrightarrow> vkey w \<noteq> vkey (off b (Suc k)))
             \<longrightarrow> pte s' r' w = pte s1 r' w"
          "err = ERR_OK \<and> (\<forall>k < n. present (pte s1 src (off a (Suc k))) \<longrightarrow> pte s' dst (off b (Suc k)) = pte s1 src (off a (Suc k)))
             \<and> (\<forall>f \<in> allocated (pm s1). rc (pm s') f = rc (pm s1) f + int (uses s1 src (a + pg_size) n f))
           \<or> err = ERR_VPMAP_MAP \<and> (\<forall>k \<le> MAX_ORDER. freeblocks (pm s') k = []) \<and> (\<exists>k < n. tab s1 dst (vpath (off b (Suc k))) = None)"
        unfolding ok(1) off_Suc by blast
      have u: "uses s1 src (a + pg_size) n f = uses s src (a + pg_size) n f" for f
        by (rule uses_cong) (simp add: off_Suc p1)
      have b0: "pte s' dst b = pte s src a" using r(5) neb ok(6) k0 by (metis (lifting))
      have same: "same_bytes s s'" using ok(3,4) r(3) by (simp add: same_bytes_def keeps_frames_def)
      have up: "\<forall>i \<in> allocated (pm s). i \<in> allocated (pm s1)" using ok(3) by (simp add: keeps_frames_def)
      have "rc (pm s') f = rc (pm s) f + int (uses s src a (Suc n) f)" if "f \<in> allocated (pm s)" "err = ERR_OK" for f
        using r(6) that up ok(5) True unfolding uses_Suc u by auto
      moreover have "pte s' r' w = pte s r' w" if "PML4X w \<in> R r'"
        "r' \<noteq> dst \<or> (\<forall>k < Suc n. present (pte s src (off a k)) \<longrightarrow> vkey w \<noteq> vkey (off b k))" for r' w
        using r(5) ok(6) that p1 True unfolding all by auto
      moreover have "\<forall>k < Suc n. present (pte s src (off a k)) \<longrightarrow> pte s' dst (off b k) = pte s src (off a k)" if "err = ERR_OK"
        unfolding all using b0 r(6) that p1 by auto
      moreover have "\<exists>k < Suc n. tab s dst (vpath (off b k)) = None" if "k < n" "tab s1 dst (vpath (off b (Suc k))) = None" for k
        using ok(3) own(2) [OF that(1)] that by (intro exI [of _ "Suc k"]) (auto simp: keeps_frames_def intro: ccontr)
      ultimately show ?thesis using r(1,2,6) same keeps_frames_trans [OF ok(3) r(4)]
        by (intro exI [of _ err] exI [of _ s']) blast
    qed
  qed
qed

lemma protect_present:
  assumes "present e" "frame e < 2 ^ 39"
  shows "protect (memperm_to_pteperm MEMPERM_UR) e = page_to_paddr (frame e) OR 5"
proof -
  have "odd e" using assms(1) by (simp add: present_def and_one_eq odd_iff_mod_2_eq_one)
  then have "ENTRY_FLAGS e AND PTE_P = PTE_P"
    unfolding ENTRY_FLAGS_def and.assoc by (simp add: and_one_eq odd_iff_mod_2_eq_one)
  moreover have "PTE_P OR memperm_to_pteperm MEMPERM_UR = 5" by (simp add: memperm_to_pteperm_def)
  ultimately show ?thesis by (simp add: protect_def PPN_frame or.assoc)
qed

lemma flags_5: "5 AND mask 12 = (5 :: u64)" "present (a OR 5)"
  using present_or(2) [of a 4] by (simp_all add: mask_eq_exp_minus_1)

lemma protect_absent:
  assumes "\<not> present e" "PPN e = 0"
  shows "protect (memperm_to_pteperm MEMPERM_UR) e = 4"
proof -
  have "e AND PTE_P = 0" using assms(1) by (simp add: present_def)
  moreover have "ENTRY_FLAGS e AND PTE_P = 0xFFF AND (e AND PTE_P)" by (simp only: ENTRY_FLAGS_def ac_simps)
  ultimately have "ENTRY_FLAGS e AND PTE_P = 0" by (simp only: and_zero_eq)
  then show ?thesis using assms(2) by (simp add: protect_def memperm_to_pteperm_def)
qed

lemma set_perm_ready:
  assumes inv: "vt_inv R s" and ne: "src \<noteq> dst" and n: "n \<le> 2 ^ 36" and ready: "cow_ready R s src dst a b n"
  shows "\<exists>s0. set_perm_loop n s src a (memperm_to_pteperm MEMPERM_UR) = Some s0 \<and> vt_inv R s0 \<and> pm s0 = pm s \<and> pgdata s0 = pgdata s
    \<and> cow_ready R s0 src dst a b n \<and> (\<forall>r' p. owned R r' p \<longrightarrow> tab s0 r' p = tab s r' p)
    \<and> (\<forall>k < n. present (pte s0 src (off a k)) = present (pte s src (off a k)))
    \<and> (\<forall>k < n. present (pte s src (off a k)) \<longrightarrow> pte s0 src (off a k) = page_to_paddr (frame (pte s src (off a k))) OR 5)
    \<and> (\<forall>k < n. present (pte s src (off a k)) \<longrightarrow> frame (pte s0 src (off a k)) = frame (pte s src (off a k)))
    \<and> (\<forall>r' w. PML4X w \<in> R r' \<longrightarrow> r' \<noteq> src \<or> (\<forall>k < n. vkey w \<noteq> vkey (off a k)) \<longrightarrow> pte s0 r' w = pte s r' w)"
proof -
  let ?perm = "memperm_to_pteperm MEMPERM_UR"
  have rd: "PML4X (off a k) \<in> R src" "PML4X (off b k) \<in> R dst" "present (pte s src (off a k)) \<Longrightarrow> data_frame R s (frame (pte s src (off a k)))"
    "\<not> present (pte s src (off a k)) \<Longrightarrow> PPN (pte s src (off a k)) = 0" "PPN (pte s dst (off b k)) = 0" "\<not> present (pte s dst (off b k))"
    if "k < n" for k using ready that unfolding cow_ready_def by auto
  from set_perm_loop_ok [OF inv n, of a src ?perm] rd(1) obtain s0 where
    s0: "set_perm_loop n s src a ?perm = Some s0" "vt_inv R s0" "pm s0 = pm s" "pgdata s0 = pgdata s"
      "\<forall>r' p. owned R r' p \<longrightarrow> tab s0 r' p = tab s r' p"
      "\<forall>r' w. PML4X w \<in> R r' \<longrightarrow> pte s0 r' w =
         (if r' = src \<and> (\<exists>k < n. vkey w = vkey (off a k)) \<and> tab s src (vpath w) \<noteq> None then protect ?perm (pte s src w) else pte s r' w)"
    by blast
  have k0: "keeps_frames R s s0" unfolding keeps_frames_def using s0(3,5) by simp
  have srcp: "pte s0 src (off a k) = page_to_paddr (frame (pte s src (off a k))) OR 5 \<and> present (pte s0 src (off a k))
      \<and> frame (pte s0 src (off a k)) = frame (pte s src (off a k))"
    if k: "k < n" "present (pte s src (off a k))" for k
  proof -
    have "frame (pte s src (off a k)) < 2 ^ 39" using rd(3) [OF k] by (intro frame_less [OF inv]) (simp add: data_frame_def)
    moreover from this have "pte s0 src (off a k) = page_to_paddr (frame (pte s src (off a k))) OR 5"
      using s0(6) rd(1) [OF k(1)] k pte_present_tab [OF k(2)] protect_present [OF k(2)] by auto
    ultimately show ?thesis by (simp add: flags_5 frame_page)
  qed
  have srcn: "\<not> present (pte s0 src (off a k)) \<and> PPN (pte s0 src (off a k)) = 0" if k: "k < n" "\<not> present (pte s src (off a k))" for k
  proof -
    have "PPN 4 = 0" "\<not> present 4" by (simp_all add: PPN_def PHYS_ADDR_MASK_def present_def)
    then show ?thesis using s0(6) rd(1) [OF k(1)] k rd(4) [OF k] protect_absent [OF k(2) rd(4) [OF k]] by auto
  qed
  have pres: "present (pte s0 src (off a k)) = present (pte s src (off a k))" if "k < n" for k using srcp srcn that by blast
  have dstp: "pte s0 dst (off b k) = pte s dst (off b k)" if "k < n" for k using s0(6) rd(2) [OF that] ne by auto
  have "cow_ready R s0 src dst a b n" unfolding cow_ready_def
  proof (intro allI impI)
    fix k assume k: "k < n"
    show "PML4X (off a k) \<in> R src \<and> PML4X (off b k) \<in> R dst
        \<and> (if present (pte s0 src (off a k)) then data_frame R s0 (frame (pte s0 src (off a k))) else PPN (pte s0 src (off a k)) = 0)
        \<and> PPN (pte s0 dst (off b k)) = 0 \<and> \<not> present (pte s0 dst (off b k))"
      using rd [OF k] conjunct2 [OF srcp [OF k]] srcn [OF k] dstp [OF k] keeps_data_frame [OF k0]
      by (cases "present (pte s src (off a k))") simp_all
  qed
  moreover have "\<forall>r' w. PML4X w \<in> R r' \<longrightarrow> r' \<noteq> src \<or> (\<forall>k < n. vkey w \<noteq> vkey (off a k)) \<longrightarrow> pte s0 r' w = pte s r' w"
    using s0(6) by auto
  ultimately show ?thesis using s0(1-5) pres srcp by blast
qed

text \<open>Reloading the page table base changes none of this.\<close>

lemma flush_simps [simp]:
  "pm (vpmap_flush_tlb s cur) = pm s" "pgdata (vpmap_flush_tlb s cur) = pgdata s" "ptes (vpmap_flush_tlb s cur) = ptes s"
  by (simp_all add: vpmap_flush_tlb_def)

lemma flush_tab [simp]: "tab (vpmap_flush_tlb s cur) = tab s" "pte (vpmap_flush_tlb s cur) = pte s"
  unfolding fun_eq_iff by (intro allI, rule tab_same, simp) (intro allI, rule pte_same, simp)

lemma flush_inv [simp]:
  "vt_inv R (vpmap_flush_tlb s cur) = vt_inv R s" "cow_ready R (vpmap_flush_tlb s cur) src dst a b n = cow_ready R s src dst a b n"
  "uses (vpmap_flush_tlb s cur) r v n f = uses s r v n f"
  by (simp_all add: vt_inv_def cow_ready_def data_frame_def uses_def)

section \<open>Two address spaces\<close>

text \<open>Pages 2 to 5 are the tables of one space, 6 to 9 those of another; page 10 is mapped at \<open>0x3000\<close> in the first.\<close>

definition duo_vps :: vps where
  "duo_vps = \<lparr>pm = full_pmem\<lparr>n_pages := 11\<rparr>,
     ptes = (\<lambda>t i. if t \<in> {2, 3, 4, 6, 7, 8} \<and> i = 0 then page_to_paddr (t + 1) OR 7
       else if t = 5 \<and> i = 3 then page_to_paddr 10 OR 7 else 0),
     pgdata = (\<lambda>_ _. 0), cr3 = 2\<rparr>"

definition duo_owner :: owner where
  "duo_owner r = (if r = 2 \<or> r = 6 then {0..<511} else {})"

lemma duo_pmem_inv: "pmem_inv (full_pmem\<lparr>n_pages := 11\<rparr>)" "allocated (full_pmem\<lparr>n_pages := 11\<rparr>) = {0..<11}"
proof -
  let ?m = "full_pmem\<lparr>n_pages := 11\<rparr>"
  have o: "od ?m i = 0" "rc ?m i = 1" "n_pages ?m = 11" "freeblocks ?m ord = []" for i ord
    by (simp_all add: full_pmem_def zero_page_def)
  show a: "allocated ?m = {0..<11}" unfolding allocated_def o by auto
  have f: "freed ?m = {}" unfolding freed_def o by auto
  have "binv ?m {} {0..<11}" unfolding binv_def a f pages_of_def o by auto
  then show "pmem_inv ?m" using a by (simp add: pmem_inv_def o) (simp add: full_pmem_def)
qed

lemma duo_child:
  "child duo_vps t i = (if t \<in> {2, 3, 4, 6, 7, 8} \<and> i = 0 then Some (t + 1) else if t = 5 \<and> i = 3 then Some 10 else None)"
  by (auto simp: child_def duo_vps_def table_flags frame_page)

lemma duo_tab:
  "tab duo_vps r p = Some t \<Longrightarrow> r = 2 \<or> r = 6 \<Longrightarrow> length p \<le> 3 \<Longrightarrow> p = replicate (length p) 0 \<and> t = length p + r"
  by (induction p arbitrary: t) (auto simp: duo_child split: option.splits if_splits)

lemma duo_vt_inv: "vt_inv duo_owner duo_vps"
proof -
  have o: "owned duo_owner r p \<Longrightarrow> (r = 2 \<or> r = 6) \<and> length p \<le> 3" for r p
    by (auto simp: owned_def duo_owner_def split: if_splits)
  have pm: "pm duo_vps = full_pmem\<lparr>n_pages := 11\<rparr>" by (simp add: duo_vps_def)
  show ?thesis unfolding vt_inv_def pm
  proof (intro conjI allI impI)
    show "pmem_inv (full_pmem\<lparr>n_pages := 11\<rparr>)" "n_pages (full_pmem\<lparr>n_pages := 11\<rparr>) \<le> 2 ^ 39" using duo_pmem_inv by simp_all
    fix r p t assume p: "owned duo_owner r p" "tab duo_vps r p = Some t"
    then show "t \<in> allocated (full_pmem\<lparr>n_pages := 11\<rparr>)" using duo_tab [of r p t] o [OF p(1)] duo_pmem_inv(2) by auto
    fix r' p' assume p': "owned duo_owner r' p'" "tab duo_vps r' p' = Some t"
    show "r' = r" "p' = p" using duo_tab [of r p t] duo_tab [of r' p' t] o [OF p(1)] o [OF p'(1)] p p' by auto
  qed
qed

lemma duo_data_frame: "data_frame duo_owner duo_vps 10"
proof -
  have pm: "pm duo_vps = full_pmem\<lparr>n_pages := 11\<rparr>" by (simp add: duo_vps_def)
  have "tab duo_vps r p \<noteq> Some 10" if "owned duo_owner r p" for r p
    using duo_tab [of r p 10] that by (auto simp: owned_def duo_owner_def split: if_splits)
  then show ?thesis using duo_pmem_inv(2) by (simp add: data_frame_def pm) (simp add: full_pmem_def zero_page_def)
qed

lemma two_pages: "(\<forall>k < 2. P k) \<longleftrightarrow> P 0 \<and> P (1 :: nat)" "(\<exists>k < 2. P k) \<longleftrightarrow> P 0 \<or> P (1 :: nat)"
  by (auto simp: less_2_cases_iff)

lemma duo_addr:
  "pg_round_down 0x3000 = 0x3000" "vpath 0x3000 = [0, 0, 0]" "vpath 0x4000 = [0, 0, 0]" "PTX 0x3000 = 3" "PTX 0x4000 = 4"
  "PML4X 0x3000 = 0" "PML4X 0x4000 = 0" "off 0x3000 0 = 0x3000" "off 0x3000 1 = 0x4000"
  by (simp_all add: pg_round_down_def pg_size_def vpath_def PML4X_def PDPTX_def PDX_def PTX_def ENTRY_IDX_eq off_def)

lemma duo_tabs: "tab duo_vps 2 [0, 0, 0] = Some 5" "tab duo_vps 6 [0, 0, 0] = Some 9"
  by (simp_all add: duo_child)

lemma duo_ptes:
  "pte duo_vps 2 0x3000 = page_to_paddr 10 OR 7" "pte duo_vps 2 0x4000 = 0" "pte duo_vps 6 0x3000 = 0" "pte duo_vps 6 0x4000 = 0"
  "present (pte duo_vps 2 0x3000)" "frame (pte duo_vps 2 0x3000) = 10"
proof -
  show e: "pte duo_vps 2 0x3000 = page_to_paddr 10 OR 7" "pte duo_vps 2 0x4000 = 0" "pte duo_vps 6 0x3000 = 0" "pte duo_vps 6 0x4000 = 0"
    unfolding pte_def leaf_def duo_addr duo_tabs by (simp_all add: duo_vps_def)
  show "present (pte duo_vps 2 0x3000)" "frame (pte duo_vps 2 0x3000) = 10" unfolding e by (simp_all add: table_flags frame_page)
qed

lemma duo_ready: "cow_ready duo_owner duo_vps 2 6 0x3000 0x3000 2"
proof -
  have "PPN 0 = 0" by (simp add: PPN_def)
  then show ?thesis
    unfolding cow_ready_def two_pages duo_addr using duo_data_frame duo_ptes(5,6) by (simp add: duo_ptes(2-4) duo_addr) (simp add: duo_owner_def)
qed

lemma duo_uses: "uses duo_vps 2 0x3000 2 10 = 1" "rc (pm duo_vps) 10 = 1"
proof -
  have "{k. k < 2 \<and> present (pte duo_vps 2 (off 0x3000 k)) \<and> frame (pte duo_vps 2 (off 0x3000 k)) = 10} = {0}"
    using duo_ptes(2,5,6) duo_addr(8,9) by (auto simp: less_2_cases_iff)
  then show "uses duo_vps 2 0x3000 2 10 = 1" by (simp add: uses_def)
  show "rc (pm duo_vps) 10 = 1" by (simp add: duo_vps_def full_pmem_def zero_page_def)
qed

lemma cow_copy_ok:
  fixes srcaddr dstaddr :: vaddr_t
  defines "a \<equiv> pg_round_down srcaddr" and "b \<equiv> pg_round_down dstaddr"
  assumes inv: "vt_inv R s" and ne: "src \<noteq> dst" and n: "n \<le> 2 ^ 36" and ready: "cow_ready R s src dst a b n"
  shows "\<exists>err s'. vpmap_cow_copy s cur (Some src) (Some dst) srcaddr dstaddr n = Some (err, s') \<and> vt_inv R s' \<and> keeps_frames R s s'
    \<and> (\<forall>i \<in> allocated (pm s). i \<in> allocated (pm s') \<and> pgdata s' i = pgdata s i)
    \<and> (err = ERR_OK
         \<and> (\<forall>k < n. if present (pte s src (off a k))
              then pte s' src (off a k) = page_to_paddr (frame (pte s src (off a k))) OR PTE_P OR PTE_U
                \<and> pte s' dst (off b k) = pte s' src (off a k)
              else \<not> present (pte s' src (off a k)) \<and> \<not> present (pte s' dst (off b k)))
         \<and> (\<forall>f \<in> allocated (pm s). rc (pm s') f
              = rc (pm s) f + int (card {k. k < n \<and> present (pte s src (off a k)) \<and> frame (pte s src (off a k)) = f}))
       \<or> err = ERR_VPMAP_MAP \<and> (\<forall>k \<le> MAX_ORDER. freeblocks (pm s') k = []) \<and> (\<exists>k < n. tab s dst (vpath (off b k)) = None))
    \<and> (\<forall>r' w. PML4X w \<in> R r' \<longrightarrow> (\<forall>k < n. (r' = src \<longrightarrow> vkey w \<noteq> vkey (off a k)) \<and> (r' = dst \<longrightarrow> vkey w \<noteq> vkey (off b k)))
         \<longrightarrow> pte s' r' w = pte s r' w)"
proof -
  have al: "4096 dvd unat a" by (simp add: a_def)
  have own: "PML4X (off a k) \<in> R src" "PML4X (off b k) \<in> R dst" if "k < n" for k using ready that unfolding cow_ready_def by auto
  from set_perm_ready [OF inv ne n ready] obtain s0 where
    s0: "set_perm_loop n s src a (memperm_to_pteperm MEMPERM_UR) = Some s0" "vt_inv R s0" "pm s0 = pm s" "pgdata s0 = pgdata s"
      "cow_ready R s0 src dst a b n" "\<forall>r' p. owned R r' p \<longrightarrow> tab s0 r' p = tab s r' p"
      "\<And>k. k < n \<Longrightarrow> present (pte s0 src (off a k)) = present (pte s src (off a k))"
      "\<And>k. k < n \<Longrightarrow> present (pte s src (off a k)) \<Longrightarrow> pte s0 src (off a k) = page_to_paddr (frame (pte s src (off a k))) OR 5"
      "\<And>k. k < n \<Longrightarrow> present (pte s src (off a k)) \<Longrightarrow> frame (pte s0 src (off a k)) = frame (pte s src (off a k))"
      "\<And>r' w. PML4X w \<in> R r' \<Longrightarrow> r' \<noteq> src \<or> (\<forall>k < n. vkey w \<noteq> vkey (off a k)) \<Longrightarrow> pte s0 r' w = pte s r' w"
    by auto
  let ?s1 = "vpmap_flush_tlb s0 cur"
  have i1: "vt_inv R ?s1" "cow_ready R ?s1 src dst a b n" using s0(2,5) by simp_all
  from cow_loop_ok [OF i1(1) ne n al i1(2)] obtain err s' where
    r: "vpmap_cow_copy s cur (Some src) (Some dst) srcaddr dstaddr n = Some (err, s')" "vt_inv R s'" "same_bytes ?s1 s'" "keeps_frames R ?s1 s'"
      "\<forall>r' w. PML4X w \<in> R r' \<longrightarrow> r' \<noteq> dst \<or> (\<forall>k < n. present (pte s0 src (off a k)) \<longrightarrow> vkey w \<noteq> vkey (off b k))
         \<longrightarrow> pte s' r' w = pte s0 r' w"
      "err = ERR_OK \<and> (\<forall>k < n. present (pte s0 src (off a k)) \<longrightarrow> pte s' dst (off b k) = pte s0 src (off a k))
         \<and> (\<forall>f \<in> allocated (pm s). rc (pm s') f = rc (pm s) f + int (uses s0 src a n f))
       \<or> err = ERR_VPMAP_MAP \<and> (\<forall>k \<le> MAX_ORDER. freeblocks (pm s') k = []) \<and> (\<exists>k < n. tab s0 dst (vpath (off b k)) = None)"
    using s0(1,3) by (auto simp: vpmap_cow_copy_def vpmap_set_perm_def a_def b_def pg_round_down_aligned)
  have us: "uses s0 src a n f = card {k. k < n \<and> present (pte s src (off a k)) \<and> frame (pte s src (off a k)) = f}" for f
    unfolding uses_def by (rule arg_cong [of _ _ card]) (auto simp: s0(7,9))
  have src': "pte s' src (off a k) = pte s0 src (off a k)" if "k < n" for k using r(5) own that ne by blast
  have dst': "pte s' dst (off b k) = pte s dst (off b k)" if k: "k < n" "\<not> present (pte s src (off a k))" for k
  proof -
    have "vkey (off b k) \<noteq> vkey (off b j)" if "j < n" "present (pte s src (off a j))" for j
      using vkey_off_inj [of b k j] that k n by auto
    then show ?thesis using r(5) own(2) [OF k(1)] s0(7,10) ne by (metis (lifting))
  qed
  have keep: "i \<in> allocated (pm s') \<and> pgdata s' i = pgdata s i" if "i \<in> allocated (pm s)" for i
    using r(3,4) that s0(3,4) by (simp add: same_bytes_def keeps_frames_def)
  have fl: "PTE_P OR PTE_U = 5" by simp
  have ok: "if present (pte s src (off a k))
      then pte s' src (off a k) = page_to_paddr (frame (pte s src (off a k))) OR PTE_P OR PTE_U \<and> pte s' dst (off b k) = pte s' src (off a k)
      else \<not> present (pte s' src (off a k)) \<and> \<not> present (pte s' dst (off b k))" if "k < n" "err = ERR_OK" for k
    using r(6) that src' dst' s0(7,8) [OF that(1)] ready unfolding cow_ready_def or.assoc fl by auto
  have other: "pte s' r' w = pte s r' w" if "PML4X w \<in> R r'"
    "\<forall>k < n. (r' = src \<longrightarrow> vkey w \<noteq> vkey (off a k)) \<and> (r' = dst \<longrightarrow> vkey w \<noteq> vkey (off b k))" for r' w
    using r(5) s0(10) that by metis
  have none: "\<exists>k < n. tab s dst (vpath (off b k)) = None" if "\<exists>k < n. tab s0 dst (vpath (off b k)) = None"
    using that s0(6) own(2) by auto
  have "keeps_frames R s s0" unfolding keeps_frames_def using s0(3,6) by simp
  moreover have "keeps_frames R s0 s'" using r(4) by (simp add: keeps_frames_def)
  ultimately have kf: "keeps_frames R s s'" by (rule keeps_frames_trans)
  show ?thesis using r(1,2,6) keep ok us kf other none by (intro exI [of _ err] exI [of _ s']) auto
qed

section \<open>Property\<close>



end
