(* ===== verification/Unmap.thy ===== *)
theory Unmap
  imports Cow
begin

text \<open>
  What tearing down mappings releases.  The nested loops of \<open>unmap_pages\<close> in
  \<^verbatim>\<open>arch/x86_64/kernel/mm/vpmap.c\<close> are shown equal to a flat list of releases read off the tables
  before the loops start: clearing an entry, which drops a reference of its frame, and giving back a table.
  From the list follows what \<open>vpmap_destroy\<close> frees: every table of the space, and of the
  frames exactly those whose last reference it was.
\<close>

section \<open>Lists of releases\<close>

datatype release = Clear nat nat | Give nat

primrec run_rel :: "vps \<Rightarrow> release \<Rightarrow> vps exec" where
  "run_rel s (Clear t i) = clear_pte s t i"
| "run_rel s (Give t) = do { pm' \<leftarrow> pmem_free (pm s) (page_to_paddr t); Some (s\<lparr>pm := pm'\<rparr>) }"

primrec run_all :: "vps \<Rightarrow> release list \<Rightarrow> vps exec" where
  "run_all s [] = Some s"
| "run_all s (x # xs) = do { s \<leftarrow> run_rel s x; run_all s xs }"

lemma run_all_append: "run_all s (xs @ ys) = do { s \<leftarrow> run_all s xs; run_all s ys }"
  by (induction xs arbitrary: s) (auto split: bind_splits)

lemma run_all_ptes:
  assumes "run_all s xs = Some s'" "\<And>i. Clear t i \<notin> set xs"
  shows "ptes s' t = ptes s t"
  using assms
proof (induction xs arbitrary: s)
  case (Cons x xs)
  obtain s1 where s1: "run_rel s x = Some s1" "run_all s1 xs = Some s'" using Cons.prems(1) by (auto split: bind_splits)
  have "ptes s1 t = ptes s t"
    using s1(1) Cons.prems(2) by (cases x) (auto simp: clear_pte_def set_pte_def fun_eq_iff split: bind_splits if_splits)
  then show ?case using Cons.IH [OF s1(2)] Cons.prems(2) by simp
qed simp

text \<open>The releases of the four loops, read from the tables of \<open>s\<close>.\<close>

abbreviation upto_lim :: "nat \<Rightarrow> nat \<Rightarrow> nat" where
  "upto_lim i e \<equiv> (if i < e then 512 else e + 1)"

primrec pd_rel :: "nat \<Rightarrow> vps \<Rightarrow> nat \<Rightarrow> vaddr_t \<Rightarrow> nat \<Rightarrow> nat \<Rightarrow> bool \<Rightarrow> release list" where
  "pd_rel 0 s pd fin pdx ptx fi = []"
| "pd_rel (Suc n) s pd fin pdx ptx fi =
     (case child s pd pdx of None \<Rightarrow> []
      | Some t \<Rightarrow> map (Clear t) [ptx..<upto_lim ptx (PTX fin)] @ (if fi then [Give t] else []))
     @ pd_rel n s pd fin (pdx + 1) 0 fi"

primrec pdpt_rel :: "nat \<Rightarrow> vps \<Rightarrow> nat \<Rightarrow> vaddr_t \<Rightarrow> vaddr_t \<Rightarrow> nat \<Rightarrow> nat \<Rightarrow> bool \<Rightarrow> release list" where
  "pdpt_rel 0 s pdpt start fin pdptx pdx fi = []"
| "pdpt_rel (Suc n) s pdpt start fin pdptx pdx fi =
     (case child s pdpt pdptx of None \<Rightarrow> []
      | Some t \<Rightarrow> pd_rel (upto_lim pdx (PDX fin) - pdx) s t fin pdx (PTX start) fi @ (if fi then [Give t] else []))
     @ pdpt_rel n s pdpt start fin (pdptx + 1) 0 fi"

primrec pml4_rel :: "nat \<Rightarrow> vps \<Rightarrow> nat \<Rightarrow> vaddr_t \<Rightarrow> vaddr_t \<Rightarrow> nat \<Rightarrow> nat \<Rightarrow> bool \<Rightarrow> release list" where
  "pml4_rel 0 s pml4 start fin pml4x pdptx fi = []"
| "pml4_rel (Suc n) s pml4 start fin pml4x pdptx fi =
     (case child s pml4 pml4x of None \<Rightarrow> []
      | Some t \<Rightarrow> pdpt_rel (upto_lim pdptx (PDPTX fin) - pdptx) s t start fin pdptx (PDX start) fi @ (if fi then [Give t] else []))
     @ pml4_rel n s pml4 start fin (pml4x + 1) 0 fi"

lemma clear_loop_rel: "clear_loop n s t i = run_all s (map (Clear t) [i..<i + n])"
proof (induction n arbitrary: s i)
  case (Suc n)
  have "[i..<i + Suc n] = i # [Suc i..<Suc i + n]" by (subst upt_conv_Cons) simp_all
  then show ?case using Suc.IH by simp
qed simp

lemma clear_loop_lim: "clear_loop (lim - i) s t i = run_all s (map (Clear t) [i..<lim])"
proof -
  have "[i..<i + (lim - i)] = [i..<lim]" by (cases "i \<le> lim") auto
  then show ?thesis by (simp add: clear_loop_rel)
qed

text \<open>\<open>I\<close> are the tables above the leaves: the loops read them, and no release of the list writes them.\<close>

definition spares :: "nat set \<Rightarrow> release list \<Rightarrow> bool" where
  "spares I xs \<longleftrightarrow> (\<forall>t i. Clear t i \<in> set xs \<longrightarrow> t \<notin> I)"

lemma spares_append [simp]: "spares I (xs @ ys) \<longleftrightarrow> spares I xs \<and> spares I ys"
  by (auto simp: spares_def)

lemma run_all_spares: "run_all s xs = Some s' \<Longrightarrow> spares I xs \<Longrightarrow> \<forall>u \<in> I. ptes s' u = ptes s u"
  using run_all_ptes unfolding spares_def by metis

lemma frame_addr: "page_to_paddr (frame e) = ENTRY_ADDR e"
  by (simp add: PPN_frame [symmetric] PPN_eq)

text \<open>One round of each of the three loops: go down, then give back the table.\<close>

lemma level_body:
  assumes "T \<in> I" "\<forall>u \<in> I. ptes s0 u = ptes s u"
    and "\<And>t. child s T k = Some t \<Longrightarrow> inner t = run_all s0 (L t) \<and> spares I (L t)"
  shows "(if present (ptes s0 T k) then do {
        s1 \<leftarrow> inner (paddr_to_page (ENTRY_ADDR (ptes s0 T k)));
        if fi then do { pm' \<leftarrow> pmem_free (pm s1) (ENTRY_ADDR (ptes s1 T k)); Some (s1\<lparr>pm := pm'\<rparr>) } else Some s1 }
      else Some s0) = run_all s0 (case child s T k of None \<Rightarrow> [] | Some t \<Rightarrow> L t @ (if fi then [Give t] else []))"
proof -
  let ?e = "ptes s T k"
  have e: "ptes s0 T k = ?e" using assms(1,2) by simp
  show ?thesis
  proof (cases "present ?e")
    case False
    then show ?thesis using e by (simp add: child_def)
  next
    case True
    then have i: "inner (frame ?e) = run_all s0 (L (frame ?e))" "spares I (L (frame ?e))" using assms(3) by (auto simp: child_def)
    have "ptes s1 T k = ?e" if "run_all s0 (L (frame ?e)) = Some s1" for s1
      using run_all_spares [OF that i(2)] assms(1) e by simp
    then show ?thesis using True e i(1)
      by (cases "run_all s0 (L (frame ?e))") (auto simp: child_def frame_def [symmetric] frame_addr run_all_append)
  qed
qed

lemma bind_rest:
  assumes "X = run_all s0 xs" "\<And>s1. run_all s0 xs = Some s1 \<Longrightarrow> F s1 = run_all s1 ys"
  shows "do { s \<leftarrow> X; F s } = run_all s0 (xs @ ys)"
  using assms by (cases "run_all s0 xs") (simp_all add: run_all_append)

lemma unmap_pd_rel:
  assumes "spares I (pd_rel n s pd fin pdx ptx fi)" "\<forall>u \<in> I. ptes s0 u = ptes s u" "pd \<in> I"
  shows "unmap_pd n s0 pd fin pdx ptx fi = run_all s0 (pd_rel n s pd fin pdx ptx fi)"
  using assms
proof (induction n arbitrary: s0 pdx ptx)
  case (Suc n)
  let ?L = "\<lambda>t. map (Clear t) [ptx..<upto_lim ptx (PTX fin)]"
  have sp: "spares I (case child s pd pdx of None \<Rightarrow> [] | Some t \<Rightarrow> ?L t @ (if fi then [Give t] else []))"
    "spares I (pd_rel n s pd fin (pdx + 1) 0 fi)" using Suc.prems(1) by simp_all
  show ?case unfolding unmap_pd.simps pd_rel.simps Let_def
  proof (rule bind_rest)
    show "(if present (ptes s0 pd pdx) then do {
        s1 \<leftarrow> clear_loop (upto_lim ptx (PTX fin) - ptx) s0 (paddr_to_page (ENTRY_ADDR (ptes s0 pd pdx))) ptx;
        if fi then do { pm' \<leftarrow> pmem_free (pm s1) (ENTRY_ADDR (ptes s1 pd pdx)); Some (s1\<lparr>pm := pm'\<rparr>) } else Some s1 }
      else Some s0) = run_all s0 (case child s pd pdx of None \<Rightarrow> [] | Some t \<Rightarrow> ?L t @ (if fi then [Give t] else []))"
      by (rule level_body [OF Suc.prems(3,2)]) (use sp(1) in \<open>simp add: clear_loop_lim\<close>)
    show "unmap_pd n s1 pd fin (pdx + 1) 0 fi = run_all s1 (pd_rel n s pd fin (pdx + 1) 0 fi)"
      if "run_all s0 (case child s pd pdx of None \<Rightarrow> [] | Some t \<Rightarrow> ?L t @ (if fi then [Give t] else [])) = Some s1" for s1
      using run_all_spares [OF that sp(1)] Suc.prems(2) by (intro Suc.IH [OF sp(2) _ Suc.prems(3)]) simp
  qed
qed simp

lemma unmap_pdpt_rel:
  assumes "spares I (pdpt_rel n s pdpt start fin pdptx pdx fi)" "\<forall>u \<in> I. ptes s0 u = ptes s u" "pdpt \<in> I"
    and "\<And>k t. child s pdpt k = Some t \<Longrightarrow> t \<in> I"
  shows "unmap_pdpt n s0 pdpt start fin pdptx pdx fi = run_all s0 (pdpt_rel n s pdpt start fin pdptx pdx fi)"
  using assms
proof (induction n arbitrary: s0 pdptx pdx)
  case (Suc n)
  let ?L = "\<lambda>t. pd_rel (upto_lim pdx (PDX fin) - pdx) s t fin pdx (PTX start) fi"
  have sp: "spares I (case child s pdpt pdptx of None \<Rightarrow> [] | Some t \<Rightarrow> ?L t @ (if fi then [Give t] else []))"
    "spares I (pdpt_rel n s pdpt start fin (pdptx + 1) 0 fi)" using Suc.prems(1) by simp_all
  show ?case unfolding unmap_pdpt.simps pdpt_rel.simps Let_def
  proof (rule bind_rest)
    show "(if present (ptes s0 pdpt pdptx) then do {
        s1 \<leftarrow> unmap_pd (upto_lim pdx (PDX fin) - pdx) s0 (paddr_to_page (ENTRY_ADDR (ptes s0 pdpt pdptx))) fin pdx (PTX start) fi;
        if fi then do { pm' \<leftarrow> pmem_free (pm s1) (ENTRY_ADDR (ptes s1 pdpt pdptx)); Some (s1\<lparr>pm := pm'\<rparr>) } else Some s1 }
      else Some s0) = run_all s0 (case child s pdpt pdptx of None \<Rightarrow> [] | Some t \<Rightarrow> ?L t @ (if fi then [Give t] else []))"
      by (rule level_body [OF Suc.prems(3,2)])
        (use sp(1) Suc.prems(4) in \<open>auto intro: unmap_pd_rel [OF _ Suc.prems(2)]\<close>)
    show "unmap_pdpt n s1 pdpt start fin (pdptx + 1) 0 fi = run_all s1 (pdpt_rel n s pdpt start fin (pdptx + 1) 0 fi)"
      if "run_all s0 (case child s pdpt pdptx of None \<Rightarrow> [] | Some t \<Rightarrow> ?L t @ (if fi then [Give t] else [])) = Some s1" for s1
      using run_all_spares [OF that sp(1)] Suc.prems(2) by (intro Suc.IH [OF sp(2) _ Suc.prems(3,4)]) simp_all
  qed
qed simp

lemma unmap_pml4_rel:
  assumes "spares I (pml4_rel n s pml4 start fin pml4x pdptx fi)" "\<forall>u \<in> I. ptes s0 u = ptes s u" "pml4 \<in> I"
    and "\<And>k t. pml4x \<le> k \<Longrightarrow> k < pml4x + n \<Longrightarrow> child s pml4 k = Some t \<Longrightarrow> t \<in> I"
    and "\<And>k t l u. pml4x \<le> k \<Longrightarrow> k < pml4x + n \<Longrightarrow> child s pml4 k = Some t \<Longrightarrow> child s t l = Some u \<Longrightarrow> u \<in> I"
  shows "unmap_pml4 n s0 pml4 start fin pml4x pdptx fi = run_all s0 (pml4_rel n s pml4 start fin pml4x pdptx fi)"
  using assms
proof (induction n arbitrary: s0 pml4x pdptx)
  case (Suc n)
  let ?L = "\<lambda>t. pdpt_rel (upto_lim pdptx (PDPTX fin) - pdptx) s t start fin pdptx (PDX start) fi"
  have sp: "spares I (case child s pml4 pml4x of None \<Rightarrow> [] | Some t \<Rightarrow> ?L t @ (if fi then [Give t] else []))"
    "spares I (pml4_rel n s pml4 start fin (pml4x + 1) 0 fi)" using Suc.prems(1) by simp_all
  show ?case unfolding unmap_pml4.simps pml4_rel.simps Let_def
  proof (rule bind_rest)
    show "(if present (ptes s0 pml4 pml4x) then do {
        s1 \<leftarrow> unmap_pdpt (upto_lim pdptx (PDPTX fin) - pdptx) s0 (paddr_to_page (ENTRY_ADDR (ptes s0 pml4 pml4x))) start fin pdptx (PDX start) fi;
        if fi then do { pm' \<leftarrow> pmem_free (pm s1) (ENTRY_ADDR (ptes s1 pml4 pml4x)); Some (s1\<lparr>pm := pm'\<rparr>) } else Some s1 }
      else Some s0) = run_all s0 (case child s pml4 pml4x of None \<Rightarrow> [] | Some t \<Rightarrow> ?L t @ (if fi then [Give t] else []))"
      by (rule level_body [OF Suc.prems(3,2)])
        (use sp(1) Suc.prems(4) [of pml4x] Suc.prems(5) [of pml4x] in \<open>auto intro!: unmap_pdpt_rel [OF _ Suc.prems(2)]\<close>)
    show "unmap_pml4 n s1 pml4 start fin (pml4x + 1) 0 fi = run_all s1 (pml4_rel n s pml4 start fin (pml4x + 1) 0 fi)"
      if "run_all s0 (case child s pml4 pml4x of None \<Rightarrow> [] | Some t \<Rightarrow> ?L t @ (if fi then [Give t] else [])) = Some s1" for s1
      using run_all_spares [OF that sp(1)] Suc.prems(2)
      by (intro Suc.IH [OF sp(2) _ Suc.prems(3)] Suc.prems(4,5)) auto
  qed
qed simp

section \<open>What the lists hold\<close>

primrec tabof :: "release \<Rightarrow> nat" where
  "tabof (Clear t i) = t"
| "tabof (Give t) = t"

text \<open>Every release names a table below the one the loop walks, \<open>d\<close> levels further down for a cleared entry.\<close>

definition below :: "vps \<Rightarrow> nat \<Rightarrow> nat list \<Rightarrow> nat \<Rightarrow> nat \<Rightarrow> nat \<Rightarrow> release \<Rightarrow> bool" where
  "below s r p d lo hi x \<longleftrightarrow> (\<exists>k q. lo \<le> k \<and> k < hi \<and> length q \<le> d \<and> tab s r (q @ k # p) = Some (tabof x)
     \<and> (\<forall>i \<in> set q. i < 512) \<and> (\<forall>t i. x = Clear t i \<longrightarrow> length q = d \<and> i < 512))"

lemma belowI:
  assumes "tab s r (q @ k # p) = Some (tabof x)" "lo \<le> k" "k < hi" "length q \<le> d" "\<And>t i. x = Clear t i \<Longrightarrow> length q = d \<and> i < 512"
    "\<And>i. i \<in> set q \<Longrightarrow> i < 512"
  shows "below s r p d lo hi x"
  using assms unfolding below_def by blast

lemma below_mono:
  assumes "below s r p d lo hi x" "lo' \<le> lo" "hi \<le> hi'"
  shows "below s r p d lo' hi' x"
proof -
  obtain k q where "lo \<le> k" "k < hi" "length q \<le> d" "tab s r (q @ k # p) = Some (tabof x)" "\<forall>i \<in> set q. i < 512" "\<forall>t i. x = Clear t i \<longrightarrow> length q = d \<and> i < 512"
    using assms(1) unfolding below_def by blast
  then show ?thesis using assms(2,3) by (intro belowI [of _ _ q k]) auto
qed

lemma below_down:
  assumes "below s r (k # p) d lo hi x" "lo' \<le> k" "k < hi'" "hi \<le> 512"
  shows "below s r p (Suc d) lo' hi' x"
proof -
  obtain l q where q: "l < hi" "\<forall>i \<in> set q. i < 512" "length q \<le> d" "tab s r (q @ l # k # p) = Some (tabof x)" "\<forall>t i. x = Clear t i \<longrightarrow> length q = d \<and> i < 512"
    using assms(1) unfolding below_def by blast
  show ?thesis using q assms(2-4) by (intro belowI [of _ _ "q @ [l]" k]) auto
qed

lemma PTX_less: "PTX v < 512" "PDX v < 512" "PDPTX v < 512" "PML4X v < 512"
  by (simp_all add: PTX_def PDX_def PDPTX_def PML4X_def ENTRY_IDX_eq)

lemma in_level:
  "x \<in> set (case c of None \<Rightarrow> [] | Some t \<Rightarrow> L t @ (if fi then [Give t] else [])) \<longleftrightarrow>
     (\<exists>t. c = Some t \<and> (x \<in> set (L t) \<or> fi \<and> x = Give t))"
  by (cases c) auto

lemma pd_rel_below:
  assumes "tab s r p = Some pd" "x \<in> set (pd_rel n s pd fin pdx ptx fi)"
  shows "below s r p 0 pdx (pdx + n) x"
  using assms(2)
proof (induction n arbitrary: pdx ptx)
  case (Suc n)
  show ?case
  proof (cases "x \<in> set (pd_rel n s pd fin (pdx + 1) 0 fi)")
    case True
    from below_mono [OF Suc.IH [OF this]] show ?thesis by simp
  next
    case False
    then obtain t where "child s pd pdx = Some t" "x \<in> set (map (Clear t) [ptx..<upto_lim ptx (PTX fin)]) \<or> x = Give t"
      using Suc.prems unfolding pd_rel.simps set_append Un_iff in_level by blast
    then have t: "child s pd pdx = Some t" "tabof x = t" "\<And>t i. x = Clear t i \<Longrightarrow> i < upto_lim ptx (PTX fin)" by auto
    have "i < 512" if "x = Clear u i" for u i using t(3) [OF that] PTX_less(1) [of fin] by (auto split: if_splits)
    then show ?thesis using t assms(1) by (intro belowI [of _ _ "[]" pdx]) auto
  qed
qed simp

lemma pdpt_rel_below:
  assumes "tab s r p = Some pdpt" "x \<in> set (pdpt_rel n s pdpt start fin pdptx pdx fi)"
  shows "below s r p 1 pdptx (pdptx + n) x"
  using assms(2)
proof (induction n arbitrary: pdptx pdx)
  case (Suc n)
  show ?case
  proof (cases "x \<in> set (pdpt_rel n s pdpt start fin (pdptx + 1) 0 fi)")
    case True
    from below_mono [OF Suc.IH [OF this]] show ?thesis by simp
  next
    case False
    then obtain t where t: "child s pdpt pdptx = Some t"
      "x \<in> set (pd_rel (upto_lim pdx (PDX fin) - pdx) s t fin pdx (PTX start) fi) \<or> x = Give t"
      using Suc.prems unfolding pdpt_rel.simps set_append Un_iff in_level by blast
    then have tab: "tab s r (pdptx # p) = Some t" using assms(1) by simp
    show ?thesis
    proof (cases "x = Give t")
      case True
      then show ?thesis using tab by (intro belowI [of _ _ "[]" pdptx]) auto
    next
      case False
      then have x: "x \<in> set (pd_rel (upto_lim pdx (PDX fin) - pdx) s t fin pdx (PTX start) fi)" using t(2) by simp
      have "upto_lim pdx (PDX fin) - pdx \<noteq> 0" using x by (intro notI) simp
      then have "pdx + (upto_lim pdx (PDX fin) - pdx) \<le> 512" using PTX_less(2) [of fin] by (auto split: if_splits)
      from below_down [OF pd_rel_below [OF tab x] _ _ this, of pdptx "pdptx + Suc n"] show ?thesis by simp
    qed
  qed
qed simp

lemma pml4_rel_below:
  assumes "x \<in> set (pml4_rel n s r start fin pml4x pdptx fi)"
  shows "below s r [] 2 pml4x (pml4x + n) x"
  using assms
proof (induction n arbitrary: pml4x pdptx)
  case (Suc n)
  show ?case
  proof (cases "x \<in> set (pml4_rel n s r start fin (pml4x + 1) 0 fi)")
    case True
    from below_mono [OF Suc.IH [OF this]] show ?thesis by simp
  next
    case False
    then obtain t where t: "child s r pml4x = Some t"
      "x \<in> set (pdpt_rel (upto_lim pdptx (PDPTX fin) - pdptx) s t start fin pdptx (PDX start) fi) \<or> x = Give t"
      using Suc.prems unfolding pml4_rel.simps set_append Un_iff in_level by blast
    then have tab: "tab s r [pml4x] = Some t" by simp
    show ?thesis
    proof (cases "x = Give t")
      case True
      then show ?thesis using tab by (intro belowI [of _ _ "[]" pml4x]) auto
    next
      case False
      then have x: "x \<in> set (pdpt_rel (upto_lim pdptx (PDPTX fin) - pdptx) s t start fin pdptx (PDX start) fi)" using t(2) by simp
      have "upto_lim pdptx (PDPTX fin) - pdptx \<noteq> 0" using x by (intro notI) simp
      then have "pdptx + (upto_lim pdptx (PDPTX fin) - pdptx) \<le> 512" using PTX_less(3) [of fin] by (auto split: if_splits)
      from below_down [OF pdpt_rel_below [OF tab x] _ _ this, of pml4x "pml4x + Suc n"] show ?thesis by (simp add: numeral_2_eq_2)
    qed
  qed
qed simp

text \<open>By the invariant, tables of an owned part are reached in one way only.\<close>

definition uniq :: "vps \<Rightarrow> nat \<Rightarrow> nat list \<Rightarrow> nat set \<Rightarrow> bool" where
  "uniq s r p K \<longleftrightarrow> (\<forall>q k q' k' t. k \<in> K \<longrightarrow> k' \<in> K \<longrightarrow> length q + length p < 3 \<longrightarrow> length q' + length p < 3
     \<longrightarrow> tab s r (q @ k # p) = Some t \<longrightarrow> tab s r (q' @ k' # p) = Some t \<longrightarrow> q = q' \<and> k = k')"

lemma vt_inv_uniq:
  assumes "vt_inv R s" "K \<subseteq> R r"
  shows "uniq s r [] K"
  unfolding uniq_def
proof (intro allI impI)
  fix q k q' k' t
  assume a: "k \<in> K" "k' \<in> K" "length q + length ([] :: nat list) < 3" "length q' + length ([] :: nat list) < 3"
    "tab s r (q @ [k]) = Some t" "tab s r (q' @ [k']) = Some t"
  then have "owned R r (q @ [k])" "owned R r (q' @ [k'])" using assms(2) by (auto simp: owned_def)
  from vt_invD(4) [OF assms(1) this a(5,6)] show "q = q' \<and> k = k'" by simp
qed

lemma uniq_down: "uniq s r p K \<Longrightarrow> k \<in> K \<Longrightarrow> uniq s r (k # p) UNIV"
  unfolding uniq_def
proof (intro allI impI)
  fix q l q' l' t
  assume a: "\<forall>q k q' k' t. k \<in> K \<longrightarrow> k' \<in> K \<longrightarrow> length q + length p < 3 \<longrightarrow> length q' + length p < 3
     \<longrightarrow> tab s r (q @ k # p) = Some t \<longrightarrow> tab s r (q' @ k' # p) = Some t \<longrightarrow> q = q' \<and> k = k'" "k \<in> K"
    "length q + length (k # p) < 3" "length q' + length (k # p) < 3"
    "tab s r (q @ l # k # p) = Some t" "tab s r (q' @ l' # k # p) = Some t"
  from a(1) [rule_format, OF a(2,2), of "q @ [l]" "q' @ [l']" t] show "q = q' \<and> l = l'" using a(3-6) by simp
qed

lemma below_disjoint:
  assumes "uniq s r p K" "{lo..<hi'} \<subseteq> K" "below s r p d lo hi x" "below s r p d hi hi' x" "d + length p < 3" "hi \<le> hi'" "lo \<le> hi"
  shows False
proof -
  obtain k q where k: "lo \<le> k" "k < hi" "length q \<le> d" "tab s r (q @ k # p) = Some (tabof x)"
    using assms(3) unfolding below_def by blast
  obtain l q' where l: "hi \<le> l" "l < hi'" "length q' \<le> d" "tab s r (q' @ l # p) = Some (tabof x)"
    using assms(4) unfolding below_def by blast
  have "k \<in> K" "l \<in> K" using assms(2,6,7) k l by auto
  moreover have "length q + length p < 3" "length q' + length p < 3" using assms(5) k(3) l(3) by simp_all
  ultimately have "k = l" using assms(1) [unfolded uniq_def, rule_format, OF _ _ _ _ k(4) l(4)] by blast
  then show False using k l by simp
qed

lemma pd_rel_distinct:
  assumes "uniq s r p K" "{pdx..<pdx + n} \<subseteq> K" "tab s r p = Some pd" "length p < 3"
  shows "distinct (pd_rel n s pd fin pdx ptx fi)"
  using assms(2)
proof (induction n arbitrary: pdx ptx)
  case (Suc n)
  let ?B = "case child s pd pdx of None \<Rightarrow> []
    | Some t \<Rightarrow> map (Clear t) [ptx..<upto_lim ptx (PTX fin)] @ (if fi then [Give t] else [])"
  have 1: "distinct ?B" by (auto simp: distinct_map inj_on_def split: option.splits)
  have 2: "below s r p 0 pdx (pdx + 1) x" if "x \<in> set ?B" for x
  proof -
    have "x \<in> set (pd_rel 1 s pd fin pdx ptx fi)" using that by simp
    from pd_rel_below [OF assms(3) this] show ?thesis by simp
  qed
  have "False" if "x \<in> set ?B" "x \<in> set (pd_rel n s pd fin (pdx + 1) 0 fi)" for x
    using below_disjoint [OF assms(1) _ 2 [OF that(1)] pd_rel_below [OF assms(3) that(2)]] Suc.prems assms(4) by simp
  moreover have "distinct (pd_rel n s pd fin (pdx + 1) 0 fi)" using Suc.prems by (intro Suc.IH) auto
  ultimately show ?case unfolding pd_rel.simps distinct_append using 1 by blast
qed simp

lemma level_distinct:
  assumes "uniq s r p K" "k \<in> K" "tab s r (k # p) = Some t" "d + length (k # p) < 3"
    and "distinct xs" "\<And>x. x \<in> set xs \<Longrightarrow> below s r (k # p) d lo hi x"
  shows "distinct (xs @ (if fi then [Give t] else []))"
proof -
  have "Give t \<notin> set xs"
  proof
    assume "Give t \<in> set xs"
    from assms(6) [OF this] obtain l q where l: "length q \<le> d" "tab s r (q @ l # k # p) = Some t" unfolding below_def by auto
    have "tab s r ((q @ [l]) @ k # p) = Some t" "tab s r ([] @ k # p) = Some t" using l(2) assms(3) by simp_all
    from assms(1) [unfolded uniq_def, rule_format, OF assms(2,2) _ _ this] show False using l(1) assms(4) by simp
  qed
  then show ?thesis using assms(5) by simp
qed

lemma pdpt_rel_distinct:
  assumes "uniq s r p K" "{pdptx..<pdptx + n} \<subseteq> K" "tab s r p = Some pdpt" "length p < 2"
  shows "distinct (pdpt_rel n s pdpt start fin pdptx pdx fi)"
  using assms(2)
proof (induction n arbitrary: pdptx pdx)
  case (Suc n)
  let ?L = "\<lambda>t. pd_rel (upto_lim pdx (PDX fin) - pdx) s t fin pdx (PTX start) fi"
  let ?B = "case child s pdpt pdptx of None \<Rightarrow> [] | Some t \<Rightarrow> ?L t @ (if fi then [Give t] else [])"
  have k: "pdptx \<in> K" using Suc.prems by auto
  have 1: "distinct ?B"
  proof (cases "child s pdpt pdptx")
    case (Some t)
    then have t: "tab s r (pdptx # p) = Some t" using assms(3) by simp
    have "distinct (?L t)" using assms(4) by (intro pd_rel_distinct [OF uniq_down [OF assms(1) k] _ t]) auto
    then show ?thesis using Some assms(4) level_distinct [OF assms(1) k t _ _ pd_rel_below [OF t]] by simp
  qed simp
  have 2: "below s r p 1 pdptx (pdptx + 1) x" if "x \<in> set ?B" for x
  proof -
    have "x \<in> set (pdpt_rel 1 s pdpt start fin pdptx pdx fi)" using that by simp
    from pdpt_rel_below [OF assms(3) this] show ?thesis by simp
  qed
  have "False" if "x \<in> set ?B" "x \<in> set (pdpt_rel n s pdpt start fin (pdptx + 1) 0 fi)" for x
    using below_disjoint [OF assms(1) _ 2 [OF that(1)] pdpt_rel_below [OF assms(3) that(2)]] Suc.prems assms(4) by simp
  moreover have "distinct (pdpt_rel n s pdpt start fin (pdptx + 1) 0 fi)" using Suc.prems by (intro Suc.IH) auto
  ultimately show ?case unfolding pdpt_rel.simps distinct_append using 1 by blast
qed simp

lemma pml4_rel_distinct:
  assumes "uniq s r [] K" "{pml4x..<pml4x + n} \<subseteq> K"
  shows "distinct (pml4_rel n s r start fin pml4x pdptx fi)"
  using assms(2)
proof (induction n arbitrary: pml4x pdptx)
  case (Suc n)
  let ?L = "\<lambda>t. pdpt_rel (upto_lim pdptx (PDPTX fin) - pdptx) s t start fin pdptx (PDX start) fi"
  let ?B = "case child s r pml4x of None \<Rightarrow> [] | Some t \<Rightarrow> ?L t @ (if fi then [Give t] else [])"
  have k: "pml4x \<in> K" using Suc.prems by auto
  have 1: "distinct ?B"
  proof (cases "child s r pml4x")
    case (Some t)
    then have t: "tab s r [pml4x] = Some t" by simp
    have "distinct (?L t)" by (intro pdpt_rel_distinct [OF uniq_down [OF assms(1) k] _ t]) auto
    then show ?thesis using Some level_distinct [OF assms(1) k t _ _ pdpt_rel_below [OF t]] by simp
  qed simp
  have 2: "below s r [] 2 pml4x (pml4x + 1) x" if "x \<in> set ?B" for x
  proof -
    have "x \<in> set (pml4_rel 1 s r start fin pml4x pdptx fi)" using that by simp
    from pml4_rel_below [OF this] show ?thesis by simp
  qed
  have "False" if "x \<in> set ?B" "x \<in> set (pml4_rel n s r start fin (pml4x + 1) 0 fi)" for x
    using below_disjoint [OF assms(1) _ 2 [OF that(1)] pml4_rel_below [OF that(2)]] Suc.prems by simp
  moreover have "distinct (pml4_rel n s r start fin (pml4x + 1) 0 fi)" using Suc.prems by (intro Suc.IH) auto
  ultimately show ?case unfolding pml4_rel.simps distinct_append using 1 by blast
qed simp

section \<open>Running the list\<close>

text \<open>How often a list drops a reference of a frame.\<close>

primrec drops :: "vps \<Rightarrow> nat \<Rightarrow> release list \<Rightarrow> nat" where
  "drops s f [] = 0"
| "drops s f (x # xs) = (case x of Clear t i \<Rightarrow> if present (ptes s t i) \<and> frame (ptes s t i) = f then 1 else 0 | Give t \<Rightarrow> 0) + drops s f xs"

lemma drops_cong: "(\<And>t i. Clear t i \<in> set xs \<Longrightarrow> ptes s' t i = ptes s t i) \<Longrightarrow> drops s' f xs = drops s f xs"
  by (induction xs) (auto split: release.splits)

lemma drops_append: "drops s f (xs @ ys) = drops s f xs + drops s f ys"
  by (induction xs) (auto split: release.splits)

lemma drops_pos: "drops s f xs > 0 \<longleftrightarrow> (\<exists>t i. Clear t i \<in> set xs \<and> present (ptes s t i) \<and> frame (ptes s t i) = f)"
  by (induction xs) (auto split: release.splits)

definition releasable :: "vps \<Rightarrow> release list \<Rightarrow> bool" where
  "releasable s xs \<longleftrightarrow> distinct xs
     \<and> (\<forall>f. drops s f xs > 0 \<longrightarrow> f \<in> allocated (pm s) \<and> od (pm s) f = 0 \<and> f \<noteq> 0 \<and> Give f \<notin> set xs \<and> int (drops s f xs) \<le> rc (pm s) f)
     \<and> (\<forall>t. Give t \<in> set xs \<longrightarrow> t \<in> allocated (pm s) \<and> t \<noteq> 0)"

lemma releasableD:
  assumes "releasable s xs"
  shows "distinct xs"
    "drops s f xs > 0 \<Longrightarrow> f \<in> allocated (pm s) \<and> od (pm s) f = 0 \<and> f \<noteq> 0 \<and> Give f \<notin> set xs \<and> int (drops s f xs) \<le> rc (pm s) f"
    "Give t \<in> set xs \<Longrightarrow> t \<in> allocated (pm s) \<and> t \<noteq> 0"
  using assms unfolding releasable_def by blast+

lemma releasableI:
  assumes "distinct xs"
    and "\<And>f. drops s f xs > 0 \<Longrightarrow> f \<in> allocated (pm s) \<and> od (pm s) f = 0 \<and> f \<noteq> 0 \<and> Give f \<notin> set xs \<and> int (drops s f xs) \<le> rc (pm s) f"
    and "\<And>t. Give t \<in> set xs \<Longrightarrow> t \<in> allocated (pm s) \<and> t \<noteq> 0"
  shows "releasable s xs"
  using assms unfolding releasable_def by blast

definition released :: "vps \<Rightarrow> release list \<Rightarrow> nat set" where
  "released s xs = {t. Give t \<in> set xs} \<union> {f. 0 < drops s f xs \<and> rc (pm s) f = int (drops s f xs)}"

definition after_rel :: "vps \<Rightarrow> release list \<Rightarrow> vps \<Rightarrow> bool" where
  "after_rel s xs s' \<longleftrightarrow> pmem_inv (pm s') \<and> n_pages (pm s') = n_pages (pm s) \<and> pgdata s' = pgdata s \<and> cr3 s' = cr3 s
     \<and> (\<forall>t i. ptes s' t i = (if Clear t i \<in> set xs then 0 else ptes s t i))
     \<and> allocated (pm s') = allocated (pm s) - released s xs
     \<and> (\<forall>f \<in> allocated (pm s'). rc (pm s') f = rc (pm s) f - int (drops s f xs) \<and> od (pm s') f = od (pm s) f)"

lemma clear_rel_ok:
  assumes inv: "pmem_inv (pm s)" and r: "releasable s (Clear t i # xs)"
  shows "\<exists>s'. clear_pte s t i = Some s' \<and> after_rel s [Clear t i] s' \<and> releasable s' xs"
proof (cases "present (ptes s t i)")
  case False
  have d: "drops s f (Clear t i # xs) = drops s f xs" for f using False by simp
  have c: "Clear t i \<notin> set xs" using r by (simp add: releasable_def)
  let ?s = "set_pte t i 0 s"
  have p: "pm ?s = pm s" "ptes ?s u j = (if u = t \<and> j = i then 0 else ptes s u j)" for u j by (simp_all add: set_pte_def)
  have ds: "drops ?s f xs = drops s f xs" for f by (rule drops_cong) (use c p in auto)
  have "releasable ?s xs"
  proof (rule releasableI, unfold ds p(1))
    show "distinct xs" using releasableD(1) [OF r] by simp
    show "f \<in> allocated (pm s) \<and> od (pm s) f = 0 \<and> f \<noteq> 0 \<and> Give f \<notin> set xs \<and> int (drops s f xs) \<le> rc (pm s) f"
      if "drops s f xs > 0" for f using releasableD(2) [OF r, of f, unfolded d, OF that] by simp
    show "u \<in> allocated (pm s) \<and> u \<noteq> 0" if "Give u \<in> set xs" for u using releasableD(3) [OF r, of u] that by simp
  qed
  moreover have "after_rel s [Clear t i] ?s" using False inv by (auto simp: after_rel_def released_def p(2)) (simp_all add: set_pte_def)
  ultimately show ?thesis using False by (simp add: clear_pte_def)
next
  case True
  let ?f = "frame (ptes s t i)"
  have d: "drops s f (Clear t i # xs) = (if f = ?f then 1 else 0) + drops s f xs" for f using True by simp
  have f: "?f \<in> allocated (pm s)" "od (pm s) ?f = 0" "?f \<noteq> 0" "Give ?f \<notin> set xs" "int (drops s ?f xs) + 1 \<le> rc (pm s) ?f"
    using releasableD(2) [OF r, of ?f] True by simp_all
  have c: "Clear t i \<notin> set xs" using releasableD(1) [OF r] by simp
  from pmem_dec_refcnt_ok [OF inv f(1-3) PPN_frame] obtain m where
    m: "pmem_dec_refcnt (pm s) (PPN (ptes s t i)) = Some m" "pmem_inv m" "n_pages m = n_pages (pm s)"
      "allocated m = (if rc (pm s) ?f = 1 then allocated (pm s) - {?f} else allocated (pm s))"
      "rc (pm s) ?f > 1 \<longrightarrow> rc m ?f = rc (pm s) ?f - 1 \<and> od m ?f = 0"
      "\<forall>i \<in> allocated (pm s) - {?f}. pagemap m i = pagemap (pm s) i" by blast
  let ?s = "set_pte t i 0 (s\<lparr>pm := m\<rparr>)"
  have p: "pm ?s = m" "ptes ?s u j = (if u = t \<and> j = i then 0 else ptes s u j)" for u j by (simp_all add: set_pte_def)
  have ds: "drops ?s g xs = drops s g xs" for g by (rule drops_cong) (use c p in auto)
  have pos: "rc (pm s) ?f > 0" using f(1) by (simp add: allocated_def)
  have run: "clear_pte s t i = Some ?s" using True m(1) by (simp add: clear_pte_def)
  have al: "allocated m = allocated (pm s) - released s [Clear t i]"
    using True m(4) by (auto simp: released_def)
  have rc: "rc m g = rc (pm s) g - (if g = ?f then 1 else 0) \<and> od m g = od (pm s) g" if "g \<in> allocated m" for g
  proof (cases "g = ?f")
    case True
    then have "rc (pm s) ?f > 1" using that m(4) pos by (auto split: if_splits)
    then show ?thesis using True m(5) f(2) by simp
  next
    case False
    then show ?thesis using m(4,6) that by (auto split: if_splits)
  qed
  have "after_rel s [Clear t i] ?s" unfolding after_rel_def p(1)
    using True m(2,3) al rc by (auto simp: p(2)) (simp_all add: set_pte_def)
  have 1: "g \<in> allocated m \<and> od m g = 0 \<and> g \<noteq> 0 \<and> Give g \<notin> set xs \<and> int (drops s g xs) \<le> rc m g" if g: "drops s g xs > 0" for g
  proof -
    have o: "g \<in> allocated (pm s)" "od (pm s) g = 0" "g \<noteq> 0" "Give g \<notin> set xs" "int (drops s g (Clear t i # xs)) \<le> rc (pm s) g"
      using releasableD(2) [OF r, of g] g unfolding d by auto
    then have a: "g \<in> allocated m" using m(4) g unfolding d by auto
    then show ?thesis using o rc [OF a] unfolding d by auto
  qed
  have 2: "u \<in> allocated m \<and> u \<noteq> 0" if "Give u \<in> set xs" for u
    using releasableD(3) [OF r, of u] that f(4) m(4) by auto
  have "releasable ?s xs" by (rule releasableI, unfold ds p(1)) (use releasableD(1) [OF r] in simp, erule 1, erule 2)
  then show ?thesis using run \<open>after_rel s [Clear t i] ?s\<close> by blast
qed

lemma give_rel_ok:
  assumes inv: "pmem_inv (pm s)" and r: "releasable s (Give t # xs)"
  shows "\<exists>s'. run_rel s (Give t) = Some s' \<and> after_rel s [Give t] s' \<and> releasable s' xs"
proof -
  have d: "drops s f (Give t # xs) = drops s f xs" for f by simp
  have t: "t \<in> allocated (pm s)" "t \<noteq> 0" "Give t \<notin> set xs" using releasableD(1,3) [OF r] by auto
  from pmem_nfree_ok [OF inv t(1,2), of 1] obtain m where
    m: "pmem_nfree (pm s) (page_to_paddr t) 1 = Some m" "pmem_inv m" "allocated m = allocated (pm s) - {t}" "n_pages m = n_pages (pm s)"
      "\<forall>i \<in> allocated (pm s) - {t}. pagemap m i = pagemap (pm s) i" by auto
  let ?s = "s\<lparr>pm := m\<rparr>"
  have ds: "drops ?s g xs = drops s g xs" for g by (rule drops_cong) simp
  have "released s [Give t] = {t}" by (simp add: released_def)
  then have "after_rel s [Give t] ?s" using m by (simp add: after_rel_def)
  have 1: "g \<in> allocated m \<and> od m g = 0 \<and> g \<noteq> 0 \<and> Give g \<notin> set xs \<and> int (drops s g xs) \<le> rc m g" if g: "drops s g xs > 0" for g
  proof -
    have o: "g \<in> allocated (pm s)" "od (pm s) g = 0" "g \<noteq> 0" "Give g \<notin> set (Give t # xs)" "int (drops s g xs) \<le> rc (pm s) g"
      using releasableD(2) [OF r, of g, unfolded d, OF g] by simp_all
    then show ?thesis using m(3,5) by auto
  qed
  have 2: "u \<in> allocated m \<and> u \<noteq> 0" if "Give u \<in> set xs" for u
    using releasableD(3) [OF r, of u] that t(3) m(3) by auto
  have "pm ?s = m" by simp
  have "releasable ?s xs" by (rule releasableI, unfold ds \<open>pm ?s = m\<close>) (use releasableD(1) [OF r] in simp, erule 1, erule 2)
  then show ?thesis using m(1) \<open>after_rel s [Give t] ?s\<close> by (auto simp: pmem_free_def)
qed

lemma after_rel_trans:
  assumes a: "after_rel s [x] s1" and b: "after_rel s1 xs s'" and r: "releasable s (x # xs)"
  shows "after_rel s (x # xs) s'"
proof -
  have x: "x \<notin> set xs" using releasableD(1) [OF r] by simp
  have p1: "ptes s1 t i = (if x = Clear t i then 0 else ptes s t i)" for t i using a by (auto simp: after_rel_def)
  have ds: "drops s1 f xs = drops s f xs" for f by (rule drops_cong) (use x p1 in auto)
  have d: "drops s f (x # xs) = drops s f [x] + drops s f xs" for f by simp
  have a': "allocated (pm s1) = allocated (pm s) - released s [x]" "\<And>f. f \<in> allocated (pm s1) \<Longrightarrow> rc (pm s1) f = rc (pm s) f - int (drops s f [x]) \<and> od (pm s1) f = od (pm s) f"
    using a unfolding after_rel_def by blast+
  have b': "allocated (pm s') = allocated (pm s1) - released s1 xs" "\<And>f. f \<in> allocated (pm s') \<Longrightarrow> rc (pm s') f = rc (pm s1) f - int (drops s f xs) \<and> od (pm s') f = od (pm s1) f"
    using b unfolding after_rel_def ds by blast+
  have "allocated (pm s) - released s (x # xs) = allocated (pm s1) - released s1 xs"
  proof (rule set_eqI)
    fix f
    have "f \<in> released s (x # xs) \<longleftrightarrow> f \<in> released s [x] \<or> f \<in> released s1 xs" if "f \<in> allocated (pm s)"
    proof (cases "f \<in> released s [x]")
      case True
      then consider "x = Give f" | "0 < drops s f [x]" "rc (pm s) f = int (drops s f [x])" by (auto simp: released_def)
      then have "f \<in> released s (x # xs)"
      proof cases
        case 1
        then show ?thesis by (simp add: released_def)
      next
        case 2
        then have "int (drops s f (x # xs)) \<le> rc (pm s) f" using releasableD(2) [OF r, of f] d by simp
        then have "drops s f xs = 0" using 2 d by simp
        then show ?thesis using 2 d by (simp add: released_def)
      qed
      then show ?thesis using True by simp
    next
      case False
      then have "f \<in> allocated (pm s1)" using a'(1) that by simp
      then have c: "rc (pm s1) f = rc (pm s) f - int (drops s f [x])" using a'(2) by blast
      have "x \<noteq> Give f" "\<not> (0 < drops s f [x] \<and> rc (pm s) f = int (drops s f [x]))" using False by (auto simp: released_def)
      then show ?thesis using False c unfolding released_def ds d by (cases "drops s f xs = 0") auto
    qed
    then show "f \<in> allocated (pm s) - released s (x # xs) \<longleftrightarrow> f \<in> allocated (pm s1) - released s1 xs" using a'(1) by auto
  qed
  moreover have "rc (pm s') f = rc (pm s) f - int (drops s f (x # xs)) \<and> od (pm s') f = od (pm s) f" if "f \<in> allocated (pm s')" for f
  proof -
    have "f \<in> allocated (pm s1)" using that b'(1) by simp
    then show ?thesis using a'(2) b'(2) [OF that] d by simp
  qed
  moreover have "ptes s' t i = (if Clear t i \<in> set (x # xs) then 0 else ptes s t i)" for t i
    using b p1 [of t i] by (auto simp: after_rel_def)
  ultimately show ?thesis using a b b'(1) unfolding after_rel_def by simp
qed

lemma run_all_ok:
  assumes "pmem_inv (pm s)" "releasable s xs"
  shows "\<exists>s'. run_all s xs = Some s' \<and> after_rel s xs s'"
  using assms
proof (induction xs arbitrary: s)
  case Nil
  then show ?case by (simp add: after_rel_def released_def)
next
  case (Cons x xs)
  obtain s1 where s1: "run_rel s x = Some s1" "after_rel s [x] s1" "releasable s1 xs"
    using clear_rel_ok [OF Cons.prems(1)] give_rel_ok [OF Cons.prems(1)] Cons.prems(2) by (cases x) fastforce+
  obtain s' where "run_all s1 xs = Some s'" "after_rel s1 xs s'"
    using Cons.IH [OF _ s1(3)] s1(2) by (auto simp: after_rel_def)
  then show ?case using s1(1) after_rel_trans [OF s1(2) _ Cons.prems(2)] by auto
qed

section \<open>Destroying a space\<close>

text \<open>The paths of the user part: the kernel owns the last top-level entry.\<close>

definition user_path :: "nat list \<Rightarrow> bool" where
  "user_path p \<longleftrightarrow> length p \<le> 3 \<and> (\<forall>i \<in> set p. i < 512) \<and> (p \<noteq> [] \<longrightarrow> last p < 511)"

definition tables :: "vps \<Rightarrow> nat \<Rightarrow> nat set" where
  "tables s r = {t. \<exists>p. user_path p \<and> tab s r p = Some t}"

definition refs :: "vps \<Rightarrow> nat \<Rightarrow> nat \<Rightarrow> nat" where
  "refs s r f = card {(p, j). user_path p \<and> length p = 3 \<and> j < 512 \<and> present (leaf s r p j) \<and> frame (leaf s r p j) = f}"

lemma range_Suc: "{a..<a + Suc n} = insert a {a + 1..<a + 1 + n}"
  by auto

lemma pd_rel_full:
  assumes "0 < PTX fin"
  shows "x \<in> set (pd_rel n s pd fin pdx 0 True) \<longleftrightarrow>
    (\<exists>k \<in> {pdx..<pdx + n}. \<exists>t. child s pd k = Some t \<and> (x = Give t \<or> (\<exists>i < 512. x = Clear t i)))"
proof (induction n arbitrary: pdx)
  case (Suc n)
  have "x \<in> set (map (Clear t) [0..<upto_lim 0 (PTX fin)]) \<longleftrightarrow> (\<exists>i < 512. x = Clear t i)" for t using assms by auto
  then show ?case unfolding pd_rel.simps set_append Un_iff in_level Suc.IH range_Suc bex_simps by blast
qed simp

lemma pdpt_rel_full:
  assumes "0 < PTX fin" "0 < PDX fin" "PTX start = 0"
  shows "x \<in> set (pdpt_rel n s pdpt start fin pdptx 0 True) \<longleftrightarrow>
    (\<exists>k \<in> {pdptx..<pdptx + n}. \<exists>t. child s pdpt k = Some t \<and> (x = Give t \<or> x \<in> set (pd_rel 512 s t fin 0 0 True)))"
proof (induction n arbitrary: pdptx)
  case (Suc n)
  have "upto_lim 0 (PDX fin) - 0 = 512" using assms by simp
  then show ?case unfolding pdpt_rel.simps set_append Un_iff in_level Suc.IH range_Suc bex_simps assms(3) by (simp only:) blast
qed simp

lemma pml4_rel_full:
  assumes "0 < PTX fin" "0 < PDX fin" "0 < PDPTX fin" "PTX start = 0" "PDX start = 0"
  shows "x \<in> set (pml4_rel n s r start fin pml4x 0 True) \<longleftrightarrow>
    (\<exists>k \<in> {pml4x..<pml4x + n}. \<exists>t. child s r k = Some t \<and> (x = Give t \<or> x \<in> set (pdpt_rel 512 s t start fin 0 0 True)))"
proof (induction n arbitrary: pml4x)
  case (Suc n)
  have "upto_lim 0 (PDPTX fin) - 0 = 512" using assms by simp
  then show ?case unfolding pml4_rel.simps set_append Un_iff in_level Suc.IH range_Suc bex_simps assms(5) by (simp only:) blast
qed simp

definition destroy_rel :: "vps \<Rightarrow> nat \<Rightarrow> release list" where
  "destroy_rel s r = pml4_rel 511 s r 0 USTACK_UPPERBOUND 0 0 True"

lemma stack_indices:
  "PML4X (USTACK_UPPERBOUND - 1) = 510" "0 < PDPTX USTACK_UPPERBOUND" "0 < PDX USTACK_UPPERBOUND" "0 < PTX USTACK_UPPERBOUND"
  "PML4X 0 = 0" "PDPTX 0 = 0" "PDX 0 = 0" "PTX 0 = 0"
  by (simp_all add: USTACK_UPPERBOUND_def PML4X_def PDPTX_def PDX_def PTX_def ENTRY_IDX_eq)

lemma unmap_destroy: "unmap_pages s r 0 USTACK_UPPERBOUND True = unmap_pml4 511 s r 0 USTACK_UPPERBOUND 0 0 True"
  by (simp add: unmap_pages_def stack_indices)

lemma in_destroy_rel:
  "x \<in> set (destroy_rel s r) \<longleftrightarrow> (\<exists>c < 511. \<exists>t1. child s r c = Some t1 \<and> (x = Give t1
     \<or> (\<exists>b < 512. \<exists>t2. child s t1 b = Some t2 \<and> (x = Give t2
     \<or> (\<exists>a < 512. \<exists>t3. child s t2 a = Some t3 \<and> (x = Give t3 \<or> (\<exists>i < 512. x = Clear t3 i)))))))"
  unfolding destroy_rel_def pml4_rel_full [OF stack_indices(4,3,2,8,7)] pdpt_rel_full [OF stack_indices(4,3,8)]
    pd_rel_full [OF stack_indices(4)] by (simp add: Bex_def)

lemma user_path_cases:
  "user_path p \<longleftrightarrow> p = [] \<or> (\<exists>c < 511. p = [c]) \<or> (\<exists>c < 511. \<exists>b < 512. p = [b, c]) \<or> (\<exists>c < 511. \<exists>b < 512. \<exists>a < 512. p = [a, b, c])"
proof
  assume u: "user_path p"
  then have "length p = 0 \<or> length p = Suc 0 \<or> length p = Suc (Suc 0) \<or> length p = Suc (Suc (Suc 0))"
    by (auto simp: user_path_def numeral_3_eq_3 le_Suc_eq)
  with u show "p = [] \<or> (\<exists>c < 511. p = [c]) \<or> (\<exists>c < 511. \<exists>b < 512. p = [b, c]) \<or> (\<exists>c < 511. \<exists>b < 512. \<exists>a < 512. p = [a, b, c])"
    by (auto simp: user_path_def length_Suc_conv)
qed (auto simp: user_path_def)

lemma tab_steps:
  "tab s r [c] = child s r c"
  "tab s r [b, c] = Some t \<longleftrightarrow> (\<exists>t1. child s r c = Some t1 \<and> child s t1 b = Some t)"
  "tab s r [a, b, c] = Some t \<longleftrightarrow> (\<exists>t1 t2. child s r c = Some t1 \<and> child s t1 b = Some t2 \<and> child s t2 a = Some t)"
  by (auto split: option.splits)

lemma Clear_destroy: "Clear t i \<in> set (destroy_rel s r) \<longleftrightarrow> i < 512 \<and> (\<exists>p. user_path p \<and> length p = 3 \<and> tab s r p = Some t)"
proof -
  have "(\<exists>p. user_path p \<and> length p = 3 \<and> tab s r p = Some t) \<longleftrightarrow> (\<exists>c < 511. \<exists>b < 512. \<exists>a < 512. tab s r [a, b, c] = Some t)" (is "?l \<longleftrightarrow> ?r")
  proof
    assume ?l then show ?r unfolding user_path_cases by (auto simp del: tab.simps)
  next
    assume ?r
    then obtain a b c where "c < 511" "b < 512" "a < 512" "tab s r [a, b, c] = Some t" by blast
    then show ?l by (intro exI [of _ "[a, b, c]"]) (simp add: user_path_cases del: tab.simps)
  qed
  then show ?thesis unfolding in_destroy_rel by (simp add: tab_steps del: tab.simps) blast
qed

lemma Give_destroy: "Give t \<in> set (destroy_rel s r) \<longleftrightarrow> (\<exists>p. user_path p \<and> p \<noteq> [] \<and> tab s r p = Some t)"
proof -
  have "(\<exists>p. user_path p \<and> p \<noteq> [] \<and> tab s r p = Some t) \<longleftrightarrow> (\<exists>c < 511. tab s r [c] = Some t \<or>
      (\<exists>b < 512. tab s r [b, c] = Some t \<or> (\<exists>a < 512. tab s r [a, b, c] = Some t)))" (is "?l \<longleftrightarrow> ?r")
  proof
    assume ?l then show ?r unfolding user_path_cases by (auto simp del: tab.simps)
  next
    assume ?r
    then consider c where "c < 511" "tab s r [c] = Some t" | b c where "c < 511" "b < 512" "tab s r [b, c] = Some t"
      | a b c where "c < 511" "b < 512" "a < 512" "tab s r [a, b, c] = Some t" by blast
    then show ?l by cases (metis list.distinct(1) user_path_cases)+
  qed
  then show ?thesis unfolding in_destroy_rel by (simp add: tab_steps del: tab.simps) blast
qed

lemma drops_card:
  assumes "distinct xs"
  shows "drops s f xs = card {(t, i). Clear t i \<in> set xs \<and> present (ptes s t i) \<and> frame (ptes s t i) = f}"
  using assms
proof (induction xs)
  case (Cons x xs)
  let ?A = "{(t, i). Clear t i \<in> set xs \<and> present (ptes s t i) \<and> frame (ptes s t i) = f}"
  have "?A \<subseteq> (\<lambda>y. case y of Clear t i \<Rightarrow> (t, i) | Give t \<Rightarrow> (t, 0)) ` set xs" by force
  then have fin: "finite ?A" by (rule finite_subset) simp
  have x: "x \<notin> set xs" using Cons.prems by simp
  show ?case
  proof (cases "\<exists>t i. x = Clear t i \<and> present (ptes s t i) \<and> frame (ptes s t i) = f")
    case True
    then obtain t i where t: "x = Clear t i" "present (ptes s t i)" "frame (ptes s t i) = f" by blast
    have "{(t, i). Clear t i \<in> set (x # xs) \<and> present (ptes s t i) \<and> frame (ptes s t i) = f} = insert (t, i) ?A" using t by auto
    moreover have "(t, i) \<notin> ?A" using x t(1) by simp
    ultimately show ?thesis using Cons.IH Cons.prems fin t by simp
  next
    case False
    have "{(t, i). Clear t i \<in> set (x # xs) \<and> present (ptes s t i) \<and> frame (ptes s t i) = f} = ?A" using False by auto
    moreover have "drops s f (x # xs) = drops s f xs" using False by (cases x) auto
    ultimately show ?thesis using Cons.IH Cons.prems by simp
  qed
qed simp

lemma user_owned: "user_path p \<Longrightarrow> {0..<511} \<subseteq> R r \<Longrightarrow> owned R r p"
  by (auto simp: user_path_def owned_def)

text \<open>A list that clears entries of the user part drops one reference for each mapped page it clears.\<close>

definition hit :: "vps \<Rightarrow> nat \<Rightarrow> release list \<Rightarrow> nat list \<Rightarrow> nat \<Rightarrow> bool" where
  "hit s r xs p j \<longleftrightarrow> (\<exists>t. tab s r p = Some t \<and> Clear t j \<in> set xs)"

lemma drops_paths:
  assumes inv: "vt_inv R s" and u: "{0..<511} \<subseteq> R r" and d: "distinct xs"
    and c: "\<And>t i. Clear t i \<in> set xs \<Longrightarrow> i < 512 \<and> (\<exists>p. user_path p \<and> length p = 3 \<and> tab s r p = Some t)"
  shows "drops s f xs = card {(p, j). user_path p \<and> length p = 3 \<and> j < 512 \<and> present (leaf s r p j) \<and> frame (leaf s r p j) = f \<and> hit s r xs p j}"
proof -
  let ?A = "{(p, j). user_path p \<and> length p = 3 \<and> j < 512 \<and> present (leaf s r p j) \<and> frame (leaf s r p j) = f \<and> hit s r xs p j}"
  let ?B = "{(t, i). Clear t i \<in> set xs \<and> present (ptes s t i) \<and> frame (ptes s t i) = f}"
  let ?g = "\<lambda>(p, j). (the (tab s r p), j :: nat)"
  have some: "\<exists>t. tab s r p = Some t \<and> leaf s r p j = ptes s t j" if "present (leaf s r p j)" for p j
    using that by (auto simp: leaf_def split: option.splits)
  have inj: "inj_on ?g ?A"
  proof (rule inj_onI)
    fix x y assume a: "x \<in> ?A" "y \<in> ?A" "?g x = ?g y"
    obtain p j p' j' where x: "x = (p, j)" "y = (p', j')" by (cases x, cases y)
    then obtain t where "tab s r p = Some t" "tab s r p' = Some t" "user_path p" "user_path p'"
      using a some [of p j] some [of p' j'] by auto
    then have "p = p'" using vt_invD(4) [OF inv user_owned [where R = R, OF _ u] user_owned [where R = R, OF _ u]] by blast
    then show "x = y" using a(3) x by simp
  qed
  have im: "?g ` ?A = ?B"
  proof (rule set_eqI, clarify)
    fix t i
    show "(t, i) \<in> ?g ` ?A \<longleftrightarrow> (t, i) \<in> ?B"
    proof
      assume "(t, i) \<in> ?g ` ?A"
      then obtain p where p: "(p, i) \<in> ?A" "t = the (tab s r p)" by auto
      then show "(t, i) \<in> ?B" using some [of p i] by (auto simp: hit_def)
    next
      assume b: "(t, i) \<in> ?B"
      then obtain p where p: "user_path p" "length p = 3" "i < 512" "tab s r p = Some t" using c [of t i] by blast
      then have "(p, i) \<in> ?A" using b by (simp add: leaf_def hit_def)
      from imageI [OF this, of ?g] show "(t, i) \<in> ?g ` ?A" using p(4) by simp
    qed
  qed
  show ?thesis using card_image [OF inj] unfolding im drops_card [OF d] by simp
qed

text \<open>The list of a whole space drops exactly the references that the mapped pages of the user part hold.\<close>

lemma destroy_distinct:
  assumes "vt_inv R s" "{0..<511} \<subseteq> R r"
  shows "distinct (destroy_rel s r)"
  unfolding destroy_rel_def by (rule pml4_rel_distinct [OF vt_inv_uniq [OF assms]]) simp

lemma destroy_drops:
  assumes inv: "vt_inv R s" and u: "{0..<511} \<subseteq> R r"
  shows "drops s f (destroy_rel s r) = refs s r f"
proof -
  have "hit s r (destroy_rel s r) p j" if "user_path p" "length p = 3" "j < 512" "present (leaf s r p j)" for p j
    using that unfolding hit_def Clear_destroy by (cases "tab s r p") (auto simp: leaf_def)
  then have "{(p, j). user_path p \<and> length p = 3 \<and> j < 512 \<and> present (leaf s r p j) \<and> frame (leaf s r p j) = f \<and> hit s r (destroy_rel s r) p j}
    = {(p, j). user_path p \<and> length p = 3 \<and> j < 512 \<and> present (leaf s r p j) \<and> frame (leaf s r p j) = f}" by blast
  then show ?thesis
    unfolding refs_def using drops_paths [OF inv u destroy_distinct [OF assms], of f] unfolding Clear_destroy by auto
qed

definition inner :: "owner \<Rightarrow> vps \<Rightarrow> nat \<Rightarrow> nat set" where
  "inner R s r = {t. \<exists>p. owned R r p \<and> length p < 3 \<and> tab s r p = Some t}"

lemma destroy_spares:
  assumes inv: "vt_inv R s" and u: "{0..<511} \<subseteq> R r"
  shows "spares (inner R s r) (destroy_rel s r)"
  unfolding spares_def inner_def
proof (intro allI impI notI, clarify)
  fix t i p assume c: "Clear t i \<in> set (destroy_rel s r)" and p: "owned R r p" "length p < 3" "tab s r p = Some t"
  obtain q where q: "user_path q" "length q = 3" "tab s r q = Some t" using c unfolding Clear_destroy by blast
  have "owned R r q" using user_owned [where R = R, OF q(1) u] .
  from vt_invD(4) [OF inv p(1) this p(3) q(3)] show False using p(2) q(2) by simp
qed

text \<open>What a space must satisfy to be destroyed: its tables are not page zero, the pages it maps are data frames, and
  they have at least the references its mappings hold.\<close>

definition destroyable :: "owner \<Rightarrow> vps \<Rightarrow> nat \<Rightarrow> bool" where
  "destroyable R s r \<longleftrightarrow> {0..<511} \<subseteq> R r \<and> 0 \<notin> tables s r
     \<and> (\<forall>p j. user_path p \<longrightarrow> length p = 3 \<longrightarrow> j < 512 \<longrightarrow> present (leaf s r p j) \<longrightarrow> data_frame R s (frame (leaf s r p j)))
     \<and> (\<forall>f. int (refs s r f) \<le> rc (pm s) f \<or> refs s r f = 0)"

lemma refs_pos:
  assumes "refs s r f > 0"
  shows "\<exists>p j. user_path p \<and> length p = 3 \<and> j < 512 \<and> present (leaf s r p j) \<and> frame (leaf s r p j) = f"
proof -
  have "{(p, j). user_path p \<and> length p = 3 \<and> j < 512 \<and> present (leaf s r p j) \<and> frame (leaf s r p j) = f} \<noteq> {}"
    using assms unfolding refs_def by (metis card.empty less_numeral_extra(3))
  then show ?thesis by auto
qed

lemma destroy_run:
  assumes inv: "vt_inv R s" and d: "destroyable R s r"
  shows "\<exists>s'. unmap_pages s r 0 USTACK_UPPERBOUND True = Some s' \<and> after_rel s (destroy_rel s r) s'"
proof -
  have u: "{0..<511} \<subseteq> R r" and z: "0 \<notin> tables s r" using d by (auto simp: destroyable_def)
  have o: "owned R r [k]" "owned R r [l, k]" "owned R r []" if "k < 511" for k l using u that by (auto simp: owned_def)
  have eq: "unmap_pages s r 0 USTACK_UPPERBOUND True = run_all s (destroy_rel s r)"
    unfolding unmap_destroy destroy_rel_def
  proof (rule unmap_pml4_rel [of "inner R s r"])
    show "spares (inner R s r) (pml4_rel 511 s r 0 USTACK_UPPERBOUND 0 0 True)" using destroy_spares [OF inv u] by (simp add: destroy_rel_def)
    show "r \<in> inner R s r" using o(3) [of 0] by (auto simp: inner_def intro: exI [of _ "[]"])
    show "t \<in> inner R s r" if "k < 0 + 511" "child s r k = Some t" for k t
      using o(1) [of k] that unfolding inner_def by (intro CollectI exI [of _ "[k]"]) simp
    show "w \<in> inner R s r" if "k < 0 + 511" "child s r k = Some t" "child s t l = Some w" for k t l w
      using o(2) [of k l] that unfolding inner_def by (intro CollectI exI [of _ "[l, k]"]) simp
  qed simp
  have df: "data_frame R s f" if "refs s r f > 0" for f using refs_pos [OF that] d unfolding destroyable_def by blast
  have tabs: "tab s r p \<noteq> Some f" if "refs s r f > 0" "user_path p" for f p
    using df [OF that(1)] user_owned [where R = R, OF that(2) u] by (simp add: data_frame_def)
  have "releasable s (destroy_rel s r)"
  proof (rule releasableI, unfold destroy_drops [OF inv u])
    show "distinct (destroy_rel s r)" by (rule destroy_distinct [OF inv u])
    fix f assume f: "refs s r f > 0"
    have "Give f \<notin> set (destroy_rel s r)" using tabs [OF f] unfolding Give_destroy by blast
    then show "f \<in> allocated (pm s) \<and> od (pm s) f = 0 \<and> f \<noteq> 0 \<and> Give f \<notin> set (destroy_rel s r) \<and> int (refs s r f) \<le> rc (pm s) f"
      using df [OF f] d f unfolding data_frame_def destroyable_def by (metis less_numeral_extra(3))
  next
    fix t assume "Give t \<in> set (destroy_rel s r)"
    then obtain p where p: "user_path p" "tab s r p = Some t" unfolding Give_destroy by blast
    then have "t \<in> tables s r" by (auto simp: tables_def)
    then show "t \<in> allocated (pm s) \<and> t \<noteq> 0" using z vt_invD(3) [OF inv user_owned [where R = R, OF p(1) u] p(2)] by metis
  qed
  from run_all_ok [OF vt_invD(1) [OF inv] this] show ?thesis unfolding eq .
qed

lemma destroy_gives:
  assumes inv: "vt_inv R s" and u: "{0..<511} \<subseteq> R r"
  shows "{t. Give t \<in> set (destroy_rel s r)} = tables s r - {r}"
proof (rule set_eqI)
  fix t
  have "tab s r p = Some r \<Longrightarrow> user_path p \<Longrightarrow> p = []" for p
    using vt_invD(4) [OF inv user_owned [where R = R, OF _ u] user_owned [where R = R, OF _ u], of "[]" p] by (simp add: user_path_def)
  then show "t \<in> {t. Give t \<in> set (destroy_rel s r)} \<longleftrightarrow> t \<in> tables s r - {r}"
    unfolding mem_Collect_eq Give_destroy tables_def by force
qed

text \<open>Tables that a change does not touch lead to the same tables.\<close>

lemma tab_frame:
  assumes "\<And>q t. owned R r q \<Longrightarrow> tab s r q = Some t \<Longrightarrow> ptes s' t = ptes s t" "owned R r p"
  shows "tab s' r p = tab s r p"
  using assms(2)
proof (induction p)
  case (Cons i p)
  have o: "owned R r p" using owned_tl [OF Cons.prems] .
  then show ?case using Cons.IH [OF o] assms(1) [OF o] by (auto simp: child_def split: option.splits)
qed simp

lemma pte_frame:
  assumes "\<And>q t. owned R r q \<Longrightarrow> tab s r q = Some t \<Longrightarrow> ptes s' t = ptes s t" "PML4X v \<in> R r"
  shows "pte s' r v = pte s r v"
proof -
  have o: "owned R r (vpath v)" using assms(2) by simp
  show ?thesis using tab_frame [OF assms(1) o] assms(1) [OF o] unfolding pte_def leaf_def by (simp split: option.splits)
qed

lemma vpmap_destroy_ok:
  assumes inv: "vt_inv R s" and d: "destroyable R s r" and k: "kv \<noteq> Some r"
  shows "\<exists>s'. vpmap_destroy s kv (Some r) = Some s' \<and> vt_inv (R(r := {})) s'
    \<and> allocated (pm s') = allocated (pm s) - tables s r - {f. 0 < refs s r f \<and> rc (pm s) f = int (refs s r f)}
    \<and> (\<forall>f \<in> allocated (pm s'). rc (pm s') f = rc (pm s) f - int (refs s r f) \<and> pgdata s' f = pgdata s f)
    \<and> (\<forall>r' w. r' \<noteq> r \<longrightarrow> PML4X w \<in> R r' \<longrightarrow> pte s' r' w = pte s r' w)"
proof -
  have u: "{0..<511} \<subseteq> R r" using d by (simp add: destroyable_def)
  obtain s1 where s1: "unmap_pages s r 0 USTACK_UPPERBOUND True = Some s1" "after_rel s (destroy_rel s r) s1"
    using destroy_run [OF inv d] by blast
  note a = s1(2) [unfolded after_rel_def destroy_drops [OF inv u]]
  have df: "data_frame R s f" if "refs s r f > 0" for f using refs_pos [OF that] d unfolding destroyable_def by blast
  have rel: "released s (destroy_rel s r) = (tables s r - {r}) \<union> {f. 0 < refs s r f \<and> rc (pm s) f = int (refs s r f)}"
    unfolding released_def destroy_drops [OF inv u] destroy_gives [OF inv u] ..
  have up: "user_path []" by (simp add: user_path_def)
  then have o: "owned R r []" by (rule user_owned [where R = R, OF _ u])
  have rt: "r \<in> tables s r" using up by (auto simp: tables_def)
  have "\<not> refs s r r > 0" using df [of r] o tab.simps(1) [of s r] unfolding data_frame_def by blast
  then have r0: "r \<in> allocated (pm s1)" "r \<noteq> 0"
    using a vt_invD(3) [OF inv o, of r] rt d unfolding rel destroyable_def by auto
  from pmem_nfree_ok [OF _ r0, of 1] a obtain m where
    m: "pmem_nfree (pm s1) (page_to_paddr r) 1 = Some m" "pmem_inv m" "allocated m = allocated (pm s1) - {r}" "n_pages m = n_pages (pm s1)"
      "\<forall>i \<in> allocated (pm s1) - {r}. pagemap m i = pagemap (pm s1) i" by auto
  let ?s = "s1\<lparr>pm := m\<rparr>"
  have run: "vpmap_destroy s kv (Some r) = Some ?s" using s1(1) m(1) k by (simp add: vpmap_destroy_def pmem_free_def)
  have same: "ptes ?s t = ptes s t" if "r' \<noteq> r" "owned R r' q" "tab s r' q = Some t" for r' q t
  proof -
    have "Clear t i \<notin> set (destroy_rel s r)" for i
      using vt_invD(4) [OF inv that(2) user_owned [where R = R, OF _ u] that(3)] that(1) unfolding Clear_destroy by blast
    then show ?thesis using a by (auto simp: fun_eq_iff)
  qed
  have al: "allocated m = allocated (pm s) - tables s r - {f. 0 < refs s r f \<and> rc (pm s) f = int (refs s r f)}"
    using m(3) a rt unfolding rel by auto
  have o': "owned (R(r := {})) r' p \<longleftrightarrow> r' \<noteq> r \<and> owned R r' p" for r' p by (simp add: owned_def)
  have t': "tab ?s r' p = tab s r' p" if "r' \<noteq> r" "owned R r' p" for r' p
    by (rule tab_frame [OF same [OF that(1)] that(2)])
  have "vt_inv (R(r := {})) ?s" unfolding vt_inv_def o'
  proof (intro conjI allI impI)
    show "pmem_inv (pm ?s)" "n_pages (pm ?s) \<le> 2 ^ 39" using m(2,4) a vt_invD(2) [OF inv] by simp_all
    fix r' p t assume p: "r' \<noteq> r \<and> owned R r' p" "tab ?s r' p = Some t"
    then have t: "tab s r' p = Some t" using t' by simp
    have "t \<notin> tables s r" using vt_invD(4) [OF inv _ user_owned [where R = R, OF _ u] t] p(1) unfolding tables_def by blast
    moreover have "\<not> refs s r t > 0" using df [of t] t p(1) by (auto simp: data_frame_def)
    ultimately show "t \<in> allocated (pm ?s)" using al vt_invD(3) [OF inv _ t] p(1) by simp
    fix r'' p' assume q: "r'' \<noteq> r \<and> owned R r'' p'" "tab ?s r'' p' = Some t"
    then have t2: "tab s r'' p' = Some t" using t' by simp
    show "r'' = r'" "p' = p" using vt_invD(4) [OF inv _ _ t t2] p(1) q(1) by blast+
  qed
  moreover have "rc m f = rc (pm s) f - int (refs s r f) \<and> pgdata s1 f = pgdata s f" if "f \<in> allocated m" for f
    using that m(3,5) a by auto
  moreover have "pte ?s r' w = pte s r' w" if "r' \<noteq> r" "PML4X w \<in> R r'" for r' w
    by (rule pte_frame [where R = R, OF same [OF that(1)] that(2)])
  ultimately show ?thesis using run al by (intro exI [of _ ?s]) simp
qed

section \<open>Property\<close>

text \<open>C9. Destroying the page table of a process always returns.  It frees every table of the user part and the top-level table,
  takes from each mapped frame as many references as the space has mappings of it, and frees exactly those
  frames that have no other reference.  Every other space keeps all its translations, every frame its bytes.\<close>

theorem vpmap_destroy_releases:
  assumes inv: "vt_inv R s" and d: "destroyable R s r" and k: "kv \<noteq> Some r"
  shows "\<exists>s'. vpmap_destroy s kv (Some r) = Some s' \<and> vt_inv (R(r := {})) s'
    \<and> allocated (pm s') = allocated (pm s) - tables s r - {f. 0 < refs s r f \<and> rc (pm s) f = int (refs s r f)}
    \<and> (\<forall>f \<in> allocated (pm s'). rc (pm s') f = rc (pm s) f - int (refs s r f) \<and> pgdata s' f = pgdata s f)
    \<and> (\<forall>r' w. r' \<noteq> r \<longrightarrow> PML4X w \<in> R r' \<longrightarrow> pte s' r' w = pte s r' w)"
  by (rule vpmap_destroy_ok [OF assms])

lemma duo_leaf:
  assumes "length p = 3"
  shows "leaf duo_vps 2 p j = (if p = [0, 0, 0] \<and> j = 3 then page_to_paddr 10 OR 7 else 0)"
proof (cases "tab duo_vps 2 p")
  case None
  have "tab duo_vps 2 [0, 0, 0] = Some 5" by (simp add: duo_child)
  then have "p \<noteq> [0, 0, 0]" using None by auto
  then show ?thesis using None by (simp add: leaf_def)
next
  case (Some t)
  from duo_tab [OF this] assms have "p = [0, 0, 0]" "t = 5" by (simp_all add: numeral_3_eq_3)
  then show ?thesis using Some by (simp add: leaf_def duo_vps_def)
qed

lemma duo_refs: "refs duo_vps 2 f = (if f = 10 then 1 else 0)" "frame (page_to_paddr 10 OR 7) = 10" "rc (pm duo_vps) i = 1"
proof -
  show fr: "frame (page_to_paddr 10 OR 7) = 10" by (simp add: frame_page table_flags)
  have "{(p, j). user_path p \<and> length p = 3 \<and> j < 512 \<and> present (leaf duo_vps 2 p j) \<and> frame (leaf duo_vps 2 p j) = f}
      = (if f = 10 then {([0, 0, 0], 3)} else {})"
    using fr by (auto simp: duo_leaf user_path_def table_flags split: if_splits)
  then show "refs duo_vps 2 f = (if f = 10 then 1 else 0)" by (simp add: refs_def)
  have pm: "pm duo_vps = full_pmem\<lparr>n_pages := 11\<rparr>" by (simp add: duo_vps_def)
  show "rc (pm duo_vps) i = 1" by (simp add: pm) (simp add: full_pmem_def zero_page_def)
qed

lemma duo_tables: "tables duo_vps 2 = {2, 3, 4, 5}"
proof (intro equalityI subsetI)
  fix t assume "t \<in> tables duo_vps 2"
  then obtain p where p: "length p \<le> 3" "tab duo_vps 2 p = Some t" by (auto simp: tables_def user_path_def simp del: tab.simps)
  have "t = length p + 2" using duo_tab [OF p(2) _ p(1)] by simp
  moreover have "length p \<in> {0, 1, 2, 3}" using p(1) by (simp add: le_Suc_eq numeral_3_eq_3 numeral_2_eq_2)
  ultimately show "t \<in> {2, 3, 4, 5}" by auto
next
  have t3: "tab duo_vps 2 [] = Some 2" "tab duo_vps 2 [0] = Some 3" "tab duo_vps 2 [0, 0] = Some 4" "tab duo_vps 2 [0, 0, 0] = Some 5"
    by (simp_all add: duo_child)
  have up: "user_path []" "user_path [0]" "user_path [0, 0]" "user_path [0, 0, 0]" by (simp_all add: user_path_def)
  fix t assume "t \<in> {2, 3, 4, 5 :: nat}"
  then consider "t = 2" | "t = 3" | "t = 4" | "t = 5" by blast
  then show "t \<in> tables duo_vps 2" unfolding tables_def by cases (use t3 up in blast)+
qed

lemma duo_destroyable: "destroyable duo_owner duo_vps 2"
  unfolding destroyable_def duo_tables
proof (intro conjI allI impI)
  show "{0..<511} \<subseteq> duo_owner 2" by (simp add: duo_owner_def)
  show "data_frame duo_owner duo_vps (frame (leaf duo_vps 2 p j))" if "length p = 3" "present (leaf duo_vps 2 p j)" for p j
    using that duo_data_frame duo_refs(2) by (simp add: duo_leaf split: if_splits)
qed (simp_all add: duo_refs)

lemma duo_left:
  "allocated (pm duo_vps) - tables duo_vps 2 - {f. 0 < refs duo_vps 2 f \<and> rc (pm duo_vps) f = int (refs duo_vps 2 f)} = {0, 1, 6, 7, 8, 9}"
proof -
  have "{f. 0 < refs duo_vps 2 f \<and> rc (pm duo_vps) f = int (refs duo_vps 2 f)} = {10}" unfolding duo_refs by auto
  moreover have "{0..<11} - {2, 3, 4, 5} - {10} = {0, 1, 6, 7, 8, 9 :: nat}"
    by (auto simp: atLeast0LessThan lessThan_nat_numeral lessThan_Suc)
  moreover have "pm duo_vps = full_pmem\<lparr>n_pages := 11\<rparr>" by (simp add: duo_vps_def)
  then have "allocated (pm duo_vps) = {0..<11}" using duo_pmem_inv(2) by simp
  ultimately show ?thesis by (simp add: duo_tables)
qed

lemma vpmap_destroy_releases_witness:
  "\<exists>s'. vpmap_destroy duo_vps (Some 6) (Some 2) = Some s' \<and> allocated (pm s') = {0, 1, 6, 7, 8, 9} \<and> pte s' 6 0x3000 = pte duo_vps 6 0x3000"
proof -
  have "PML4X 0x3000 \<in> duo_owner 6" by (simp add: PML4X_def ENTRY_IDX_eq duo_owner_def)
  then show ?thesis using vpmap_destroy_releases [OF duo_vt_inv duo_destroyable, of "Some 6"] unfolding duo_left by auto
qed

end
