(* ===== verification/Refs.thy ===== *)
theory Refs
  imports Unmap
begin

text \<open>
  Reference counts of the frames an address space maps.  Sharing pages copy-on-write keeps the difference between the
  reference count of a frame and the number of pages the target maps to it, also when it stops half-way, and so
  does unmapping a range, whatever entries the loops of \<open>unmap_pages\<close> in \<^verbatim>\<open>arch/x86_64/kernel/mm/vpmap.c\<close>
  clear.  A space that maps a frame only beside another reference therefore never frees it, and can be destroyed
  at any time.
\<close>

section \<open>Counting by address\<close>

lemma path_addr:
  assumes "user_path p" "length p = 3" "j < 512"
  shows "\<exists>w. vpath w = p \<and> PTX w = j \<and> PML4X w < 511"
proof -
  obtain a b c where p: "p = [a, b, c]" using assms(2) by (auto simp: numeral_3_eq_3 length_Suc_conv)
  have l: "a < 512" "b < 512" "c < 511" using assms(1) by (simp_all add: p user_path_def)
  define n where "n = j + 512 * (a + 512 * (b + 512 * c))"
  define w where "w = (of_nat (n * 4096) :: u64)"
  have "n * 4096 < 2 ^ 64" using l assms(3) by (simp add: n_def)
  then have u: "unat w = n * 4096" unfolding w_def unsigned_of_nat by (simp only: take_bit_nat_eq_self len_num1 of_nat_id) (simp add: take_bit_nat_eq_self)
  have e: "PTX w = n mod 512" "PDX w = n div 512 mod 512" "PDPTX w = n div 512 div 512 mod 512" "PML4X w = n div 512 div 512 div 512 mod 512"
    unfolding PTX_def PDX_def PDPTX_def PML4X_def ENTRY_IDX_eq u by (simp_all add: div_mult2_eq [symmetric])
  have d: "(x + 512 * y) mod 512 = x" "(x + 512 * y) div 512 = y" if "x < 512" for x y :: nat using that by simp_all
  have n: "n mod 512 = j" "n div 512 = a + 512 * (b + 512 * c)" unfolding n_def using d [OF assms(3)] by blast+
  have "PTX w = j" "PDX w = a" "PDPTX w = b" "PML4X w = c"
    unfolding e n d(2) [OF l(1)] d(1) [OF l(1)] d(2) [OF l(2)] d(1) [OF l(2)] using l(3) by simp_all
  then show ?thesis using l(3) by (intro exI [of _ w]) (simp add: vpath_def p)
qed

lemma user_path_vpath: "PML4X w < 511 \<Longrightarrow> user_path (vpath w)"
  using PTX_less [of w] by (simp add: user_path_def vpath_def)

abbreviation mapped_at_frame :: "vps \<Rightarrow> nat \<Rightarrow> nat \<Rightarrow> (nat list \<times> nat) set" where
  "mapped_at_frame s r f \<equiv> {(p, j). user_path p \<and> length p = 3 \<and> j < 512 \<and> present (leaf s r p j) \<and> frame (leaf s r p j) = f}"

lemma finite_mapped: "finite (mapped_at_frame s r f)"
proof -
  have "mapped_at_frame s r f \<subseteq> {p. set p \<subseteq> {..<512} \<and> length p = 3} \<times> {..<512}" by (auto simp: user_path_def)
  then show ?thesis by (rule finite_subset) (intro finite_cartesian_product finite_lists_length_eq, simp_all)
qed

lemma leaf_pte: "vpath w = p \<Longrightarrow> PTX w = j \<Longrightarrow> leaf s r p j = pte s r w"
  by (auto simp: pte_def)

lemma refs_insert:
  assumes c: "\<And>w. PML4X w < 511 \<Longrightarrow> pte s' r w = (if vkey w = vkey b then e else pte s r w)"
    and b: "PML4X b < 511" "\<not> present (pte s r b)" "present e"
  shows "refs s' r f = refs s r f + of_bool (frame e = f)"
proof -
  have l: "leaf s' r p j = (if p = vpath b \<and> j = PTX b then e else leaf s r p j)" if pj: "user_path p" "length p = 3" "j < 512" for p j
  proof -
    obtain w where w: "vpath w = p" "PTX w = j" "PML4X w < 511" using path_addr [OF pj] by blast
    then have "vkey w = vkey b \<longleftrightarrow> p = vpath b \<and> j = PTX b" using vkey_eq_iff [of w b] by blast
    then show ?thesis using c [OF w(3)] unfolding leaf_pte [OF w(1,2)] by simp
  qed
  have nb: "\<not> present (leaf s r (vpath b) (PTX b))" using b(2) by (simp add: pte_def)
  have "mapped_at_frame s' r f = (if frame e = f then insert (vpath b, PTX b) (mapped_at_frame s r f) else mapped_at_frame s r f)"
    using l nb b(3) user_path_vpath [OF b(1)] PTX_less(1) [of b] length_vpath [of b] by (auto split: if_splits)
  moreover have "(vpath b, PTX b) \<notin> mapped_at_frame s r f" using nb by simp
  ultimately show ?thesis unfolding refs_def using finite_mapped [of s r f] by simp
qed

lemma refs_same:
  assumes "\<And>w. PML4X w < 511 \<Longrightarrow> pte s' r w = pte s r w"
  shows "refs s' r f = refs s r f"
proof -
  have "leaf s' r p j = leaf s r p j" if "user_path p" "length p = 3" "j < 512" for p j
    using path_addr [OF that] leaf_pte assms by metis
  then have "mapped_at_frame s' r f = mapped_at_frame s r f" by auto
  then show ?thesis by (simp add: refs_def)
qed

section \<open>Frames with a reference to spare\<close>

definition spare_refs :: "owner \<Rightarrow> vps \<Rightarrow> nat \<Rightarrow> bool" where
  "spare_refs R s r \<longleftrightarrow> destroyable R s r \<and> (\<forall>f. 0 < refs s r f \<longrightarrow> int (refs s r f) < rc (pm s) f)"

definition balanced :: "nat \<Rightarrow> vps \<Rightarrow> vps \<Rightarrow> bool" where
  "balanced r s s' \<longleftrightarrow> (\<forall>f \<in> allocated (pm s). rc (pm s') f - int (refs s' r f) = rc (pm s) f - int (refs s r f))"

lemma balanced_refl [simp]: "balanced r s s"
  by (simp add: balanced_def)

lemma balanced_trans: "balanced r s s1 \<Longrightarrow> balanced r s1 s' \<Longrightarrow> allocated (pm s) \<subseteq> allocated (pm s1) \<Longrightarrow> balanced r s s'"
  unfolding balanced_def by (metis subsetD)

lemma spare_refsI:
  assumes "{0..<511} \<subseteq> R r" "0 \<notin> tables s r"
    and "\<And>w. PML4X w < 511 \<Longrightarrow> present (pte s r w) \<Longrightarrow> data_frame R s (frame (pte s r w))"
    and "\<And>f. 0 < refs s r f \<Longrightarrow> int (refs s r f) < rc (pm s) f"
  shows "spare_refs R s r"
proof -
  have "data_frame R s (frame (leaf s r p j))" if "user_path p" "length p = 3" "j < 512" "present (leaf s r p j)" for p j
    using path_addr [OF that(1-3)] that(4) leaf_pte assms(3) by metis
  then show ?thesis using assms unfolding spare_refs_def destroyable_def by (metis gr0I order_less_imp_le)
qed

lemma spare_refsD:
  assumes "spare_refs R s r"
  shows "{0..<511} \<subseteq> R r" and "0 \<notin> tables s r" and "0 < refs s r f \<Longrightarrow> int (refs s r f) < rc (pm s) f"
    and "PML4X w < 511 \<Longrightarrow> present (pte s r w) \<Longrightarrow> data_frame R s (frame (pte s r w))"
    and "destroyable R s r"
proof -
  show "PML4X w < 511 \<Longrightarrow> present (pte s r w) \<Longrightarrow> data_frame R s (frame (pte s r w))"
    using assms user_path_vpath [of w] PTX_less(1) [of w] length_vpath [of w] unfolding spare_refs_def destroyable_def pte_def by blast
qed (use assms in \<open>auto simp: spare_refs_def destroyable_def\<close>)

lemma refs_data:
  assumes "spare_refs R s r" "0 < refs s r f"
  shows "data_frame R s f"
  using refs_pos [OF assms(2)] spare_refsD(5) [OF assms(1)] unfolding destroyable_def by blast

lemma keeps_no_zero:
  assumes inv: "vt_inv R s" and k: "keeps_frames R s s'" and u: "{0..<511} \<subseteq> R r" and z: "0 \<notin> tables s r"
  shows "0 \<notin> tables s' r"
proof
  assume "0 \<in> tables s' r"
  then obtain p where p: "user_path p" "tab s' r p = Some 0" by (auto simp: tables_def)
  have "0 \<in> allocated (pm s)" using vt_invD(1) [OF inv] by (simp add: pmem_inv_def)
  then have "tab s r p = Some 0" using k user_owned [where R = R, OF p(1) u] p(2) unfolding keeps_frames_def by blast
  then show False using z p(1) by (auto simp: tables_def)
qed

lemma spare_insert:
  assumes inv: "vt_inv R s" and sp: "spare_refs R s r" and k: "keeps_frames R s s'"
    and c: "\<And>w. PML4X w < 511 \<Longrightarrow> pte s' r w = (if vkey w = vkey b then e else pte s r w)"
    and b: "PML4X b < 511" "\<not> present (pte s r b)" "present e" "data_frame R s (frame e)"
    and rc: "\<forall>f \<in> allocated (pm s). rc (pm s') f = rc (pm s) f + (if f = frame e then 1 else 0)"
  shows "spare_refs R s' r" "balanced r s s'"
proof -
  have rf: "refs s' r f = refs s r f + of_bool (frame e = f)" for f by (rule refs_insert [OF _ b(1-3)]) (rule c)
  have a: "f \<in> allocated (pm s)" if "0 < refs s' r f" for f
    using that refs_data [OF sp, of f] b(4) unfolding rf data_frame_def by (cases "frame e = f") auto
  have pos: "0 < rc (pm s) f" if "f \<in> allocated (pm s)" for f using that by (simp add: allocated_def)
  show "spare_refs R s' r"
  proof (rule spare_refsI)
    show "{0..<511} \<subseteq> R r" using spare_refsD(1) [OF sp] .
    show "0 \<notin> tables s' r" by (rule keeps_no_zero [OF inv k spare_refsD(1,2) [OF sp]])
    show "data_frame R s' (frame (pte s' r w))" if "PML4X w < 511" "present (pte s' r w)" for w
      using that c b(4) spare_refsD(4) [OF sp that(1)] keeps_data_frame [OF k] by (auto split: if_splits)
    show "int (refs s' r f) < rc (pm s') f" if f: "0 < refs s' r f" for f
      using rc a [OF f] pos [OF a [OF f]] spare_refsD(3) [OF sp, of f] rf [of f] by (cases "refs s r f = 0") auto
  qed
  show "balanced r s s'" unfolding balanced_def using rc rf by auto
qed

lemma spare_same:
  assumes inv: "vt_inv R s" and sp: "spare_refs R s r" and k: "keeps_frames R s s'"
    and c: "\<And>w. PML4X w < 511 \<Longrightarrow> pte s' r w = pte s r w" and rc: "\<forall>f \<in> allocated (pm s). rc (pm s') f = rc (pm s) f"
  shows "spare_refs R s' r" "balanced r s s'"
proof -
  have rf: "refs s' r f = refs s r f" for f by (rule refs_same) (rule c)
  have a: "f \<in> allocated (pm s)" if "0 < refs s r f" for f using refs_data [OF sp that] by (simp add: data_frame_def)
  show "spare_refs R s' r"
  proof (rule spare_refsI)
    show "{0..<511} \<subseteq> R r" using spare_refsD(1) [OF sp] .
    show "0 \<notin> tables s' r" by (rule keeps_no_zero [OF inv k spare_refsD(1,2) [OF sp]])
    show "data_frame R s' (frame (pte s' r w))" if "PML4X w < 511" "present (pte s' r w)" for w
      using that c spare_refsD(4) [OF sp that(1)] keeps_data_frame [OF k] by auto
    show "int (refs s' r f) < rc (pm s') f" if f: "0 < refs s' r f" for f
      using rc a [of f] spare_refsD(3) [OF sp, of f] f unfolding rf by auto
  qed
  show "balanced r s s'" unfolding balanced_def using rc rf by auto
qed

section \<open>Sharing pages\<close>

lemma cow_loop_balance:
  assumes "vt_inv R s" "src \<noteq> dst" "n \<le> 2 ^ 36" "4096 dvd unat a" "cow_ready R s src dst a b n"
    and "R dst = {0..<511}" "spare_refs R s dst" "cow_loop n s src dst a b = Some (err, s')"
  shows "spare_refs R s' dst \<and> balanced dst s s'"
  using assms
proof (induction n arbitrary: s a b)
  case 0
  then show ?case by simp
next
  case (Suc n)
  note inv = Suc.prems(1) and ready = Suc.prems(5) and own = Suc.prems(6)
  have k0: "PML4X a \<in> R src" "PML4X b \<in> R dst"
      "if present (pte s src a) then data_frame R s (frame (pte s src a)) else PPN (pte s src a) = 0"
      "PPN (pte s dst b) = 0" "\<not> present (pte s dst b)"
    using ready unfolding cow_ready_def by (metis off_0 zero_less_Suc)+
  have al: "4096 dvd unat (a + pg_size)" using aligned_off [OF Suc.prems(4), of 1] by (simp add: off_def)
  have le: "n \<le> 2 ^ 36" using Suc.prems(3) by simp
  show ?case
  proof (cases "present (pte s src a)")
    case False
    then have run: "cow_loop n s src dst (a + pg_size) (b + pg_size) = Some (err, s')" using Suc.prems(8) k0(3) cow_skip by simp
    have "cow_ready R s src dst (a + pg_size) (b + pg_size) n" by (rule cow_ready_tl [OF ready]) simp_all
    from Suc.IH [OF inv Suc.prems(2) le al this own Suc.prems(7) run] show ?thesis .
  next
    case True
    then have df: "data_frame R s (frame (pte s src a))" using k0 by simp
    from cow_step [OF inv Suc.prems(2,4) k0(1) True df k0(2,4), of n] consider
      (err) s1 where "cow_loop (Suc n) s src dst a b = Some (ERR_VPMAP_MAP, s1)" "keeps_frames R s s1"
        "\<forall>r' w. PML4X w \<in> R r' \<longrightarrow> pte s1 r' w = pte s r' w" "\<forall>f \<in> allocated (pm s). rc (pm s1) f = rc (pm s) f"
      | (ok) s1 where "cow_loop (Suc n) s src dst a b = cow_loop n s1 src dst (a + pg_size) (b + pg_size)" "vt_inv R s1" "keeps_frames R s s1"
        "\<forall>f \<in> allocated (pm s). rc (pm s1) f = rc (pm s) f + (if f = frame (pte s src a) then 1 else 0)"
        "\<forall>r' w. PML4X w \<in> R r' \<longrightarrow> pte s1 r' w = (if r' = dst \<and> vkey w = vkey b then pte s src a else pte s r' w)" by blast
    then show ?thesis
    proof cases
      case err
      then show ?thesis using spare_same [OF inv Suc.prems(7) err(2) _ err(4)] err(3) own Suc.prems(8) by auto
    next
      case ok
      have "spare_refs R s1 dst" "balanced dst s s1"
        by (rule spare_insert [OF inv Suc.prems(7) ok(3) _ _ k0(5) True df ok(4)]; use ok(5) own k0(2) in auto)+
      moreover have "vkey (off b (Suc k)) \<noteq> vkey b" "PML4X (off a (Suc k)) \<in> R src" "PML4X (off b (Suc k)) \<in> R dst" if "k < n" for k
        using vkey_off_inj [of b "Suc k" 0] that Suc.prems(3) ready unfolding cow_ready_def by auto
      then have "cow_ready R s1 src dst (a + pg_size) (b + pg_size) n"
        using ok(5) Suc.prems(2) by (intro cow_ready_tl [OF ready ok(3)]) auto
      ultimately show ?thesis using Suc.IH [OF ok(2) Suc.prems(2) le al _ own] Suc.prems(8) ok(1,3) balanced_trans
        by (auto simp: keeps_frames_def subset_iff)
    qed
  qed
qed

text \<open>What the pages of the source become: mapped at the same frames, read-only.\<close>

definition ro_entry :: "pte_t \<Rightarrow> pte_t \<Rightarrow> bool" where
  "ro_entry e e' \<longleftrightarrow> (if present e then e' = page_to_paddr (frame e) OR PTE_P OR PTE_U else \<not> present e')"

lemma cow_copy_balance:
  fixes srcaddr dstaddr :: vaddr_t
  defines "a \<equiv> pg_round_down srcaddr" and "b \<equiv> pg_round_down dstaddr"
  assumes inv: "vt_inv R s" and ne: "src \<noteq> dst" and n: "n \<le> 2 ^ 36" and ready: "cow_ready R s src dst a b n"
    and own: "R dst = {0..<511}" and sp: "spare_refs R s dst"
    and run: "vpmap_cow_copy s cur (Some src) (Some dst) srcaddr dstaddr n = Some (err, s')"
  shows "spare_refs R s' dst" "balanced dst s s'" "k < n \<Longrightarrow> ro_entry (pte s src (off a k)) (pte s' src (off a k))"
proof -
  have al: "4096 dvd unat a" by (simp add: a_def)
  from set_perm_ready [OF inv ne n ready] obtain s0 where
    s0: "set_perm_loop n s src a (memperm_to_pteperm MEMPERM_UR) = Some s0" "vt_inv R s0" "pm s0 = pm s" "pgdata s0 = pgdata s"
      "cow_ready R s0 src dst a b n" "\<forall>r' p. owned R r' p \<longrightarrow> tab s0 r' p = tab s r' p"
      "\<And>k. k < n \<Longrightarrow> present (pte s0 src (off a k)) = present (pte s src (off a k))"
      "\<And>k. k < n \<Longrightarrow> present (pte s src (off a k)) \<Longrightarrow> pte s0 src (off a k) = page_to_paddr (frame (pte s src (off a k))) OR 5"
      "\<And>r' w. PML4X w \<in> R r' \<Longrightarrow> r' \<noteq> src \<or> (\<forall>k < n. vkey w \<noteq> vkey (off a k)) \<Longrightarrow> pte s0 r' w = pte s r' w"
    by auto
  let ?s1 = "vpmap_flush_tlb s0 cur"
  have i1: "vt_inv R ?s1" "cow_ready R ?s1 src dst a b n" using s0(2,5) by simp_all
  have loop: "cow_loop n ?s1 src dst a b = Some (err, s')"
    using run s0(1) by (auto simp: vpmap_cow_copy_def vpmap_set_perm_def a_def b_def pg_round_down_aligned)
  have p1: "pte ?s1 r' w = pte s0 r' w" "tab ?s1 r' q = tab s0 r' q" for r' w q
    by (rule pte_same, simp add: vpmap_flush_tlb_def) (rule tab_same, simp add: vpmap_flush_tlb_def)
  have pm1: "pm ?s1 = pm s" using s0(3) by (simp add: vpmap_flush_tlb_def)
  have k1: "keeps_frames R s ?s1" unfolding keeps_frames_def pm1 p1 using s0(6) by simp
  have "spare_refs R ?s1 dst" "balanced dst s ?s1"
    by (rule spare_same [OF inv sp k1]; use s0(3,9) own ne in \<open>auto simp: p1\<close>)+
  with cow_loop_balance [OF i1(1) ne n al i1(2) own _ loop] show "spare_refs R s' dst" "balanced dst s s'"
    using balanced_trans [of dst s ?s1 s'] s0(3) by auto
  have fl: "PTE_P OR PTE_U = 5" by simp
  show "ro_entry (pte s src (off a k)) (pte s' src (off a k))" if k: "k < n" 
  proof -
    have "PML4X (off a k) \<in> R src" using ready k unfolding cow_ready_def by blast
    then have "pte s' src (off a k) = pte s0 src (off a k)" using cow_loop_ok [OF i1(1) ne n al i1(2)] loop ne p1 by fastforce
    then show ?thesis using s0(7,8) [OF k] unfolding ro_entry_def or.assoc fl by auto
  qed
qed

section \<open>Unmapping a range\<close>

lemma tab_inner:
  assumes "\<And>q t. owned R r q \<Longrightarrow> length q < 3 \<Longrightarrow> tab s r q = Some t \<Longrightarrow> ptes s' t = ptes s t" "owned R r p"
  shows "tab s' r p = tab s r p"
  using assms(2)
proof (induction p)
  case (Cons i p)
  have o: "owned R r p" "length p < 3" using owned_tl [OF Cons.prems] Cons.prems by (auto simp: owned_def)
  then show ?case using Cons.IH [OF o(1)] assms(1) [OF o] by (auto simp: child_def split: option.splits)
qed simp

text \<open>The list of a range of the user part, and that the loops run it.\<close>

definition range_rel :: "vps \<Rightarrow> nat \<Rightarrow> vaddr_t \<Rightarrow> vaddr_t \<Rightarrow> release list" where
  "range_rel s r start fin = pml4_rel (PML4X (fin - 1) + 1 - PML4X start) s r start fin (PML4X start) (PDPTX start) False"

lemma range_below:
  assumes x: "x \<in> set (range_rel s r start fin)" and b: "PML4X start \<le> PML4X (fin - 1)" "PML4X (fin - 1) < 511"
  shows "below s r [] 2 0 511 x"
  using below_mono [OF pml4_rel_below [OF x [unfolded range_rel_def]], of 0 511] b by simp

lemma no_give: "Give t \<notin> set (pml4_rel n s r start fin i j False)"
proof -
  have 1: "Give t \<notin> set (pd_rel n s pd fin pdx ptx False)" for n pd pdx ptx
    by (induction n arbitrary: pdx ptx) (auto split: option.splits)
  have 2: "Give t \<notin> set (pdpt_rel n s pdpt start fin pdptx pdx False)" for n pdpt pdptx pdx
    by (induction n arbitrary: pdptx pdx) (use 1 in \<open>auto split: option.splits\<close>)
  show ?thesis by (induction n arbitrary: i j) (use 2 in \<open>auto split: option.splits\<close>)
qed

lemma range_Clear:
  assumes b: "PML4X start \<le> PML4X (fin - 1)" "PML4X (fin - 1) < 511"
    and c: "Clear t i \<in> set (range_rel s r start fin)"
  shows "i < 512 \<and> (\<exists>p. user_path p \<and> length p = 3 \<and> tab s r p = Some t)"
proof -
  obtain k q where "k < 511" "length q = 2" "tab s r (q @ [k]) = Some t" "i < 512" "\<forall>i \<in> set q. i < 512"
    using range_below [OF c b] unfolding below_def by auto
  then show ?thesis by (auto simp: user_path_def intro!: exI [of _ "q @ [k]"])
qed

lemma range_spares:
  assumes inv: "vt_inv R s" and u: "{0..<511} \<subseteq> R r" and b: "PML4X start \<le> PML4X (fin - 1)" "PML4X (fin - 1) < 511"
  shows "spares (inner R s r) (range_rel s r start fin)"
  unfolding spares_def inner_def
proof (intro allI impI notI, clarify)
  fix t i p assume c: "Clear t i \<in> set (range_rel s r start fin)" and p: "owned R r p" "length p < 3" "tab s r p = Some t"
  obtain q where q: "user_path q" "length q = 3" "tab s r q = Some t" using range_Clear [OF b c] by blast
  have "owned R r q" using user_owned [where R = R, OF q(1) u] .
  from vt_invD(4) [OF inv p(1) this p(3) q(3)] show False using p(2) q(2) by simp
qed

lemma range_drops:
  assumes inv: "vt_inv R s" and u: "{0..<511} \<subseteq> R r" and b: "PML4X start \<le> PML4X (fin - 1)" "PML4X (fin - 1) < 511"
  shows "distinct (range_rel s r start fin)"
    and "drops s f (range_rel s r start fin) = card {(p, j). user_path p \<and> length p = 3 \<and> j < 512 \<and> present (leaf s r p j)
      \<and> frame (leaf s r p j) = f \<and> hit s r (range_rel s r start fin) p j}"
proof -
  show d: "distinct (range_rel s r start fin)"
    unfolding range_rel_def by (rule pml4_rel_distinct [OF vt_inv_uniq [OF inv u]]) (use b in auto)
  show "drops s f (range_rel s r start fin) = card {(p, j). user_path p \<and> length p = 3 \<and> j < 512 \<and> present (leaf s r p j)
      \<and> frame (leaf s r p j) = f \<and> hit s r (range_rel s r start fin) p j}"
    by (rule drops_paths [OF inv u d]) (rule range_Clear [OF b])
qed

lemma range_run:
  assumes inv: "vt_inv R s" and sp: "spare_refs R s r" and b: "PML4X start \<le> PML4X (fin - 1)" "PML4X (fin - 1) < 511"
  shows "\<exists>s'. unmap_pages s r start fin False = Some s' \<and> after_rel s (range_rel s r start fin) s'"
    and "0 < drops s f (range_rel s r start fin) \<Longrightarrow> int (drops s f (range_rel s r start fin)) < rc (pm s) f"
proof -
  let ?xs = "range_rel s r start fin"
  note u = spare_refsD(1) [OF sp]
  have o: "owned R r [k]" "owned R r [l, k]" "owned R r []" if "k < 511" for k l using u that by (auto simp: owned_def)
  have lt: "k < 511" if "k < PML4X start + (PML4X (fin - 1) + 1 - PML4X start)" for k using that b by simp
  have eq: "unmap_pages s r start fin False = run_all s ?xs"
    unfolding unmap_pages_def range_rel_def kassert_def using b(1)
  proof (simp, intro unmap_pml4_rel [of "inner R s r"])
    show "spares (inner R s r) (pml4_rel (Suc (PML4X (fin - 1)) - PML4X start) s r start fin (PML4X start) (PDPTX start) False)"
      using range_spares [OF inv u b] by (simp add: range_rel_def)
    show "r \<in> inner R s r" using o(3) [of 0] by (auto simp: inner_def intro: exI [of _ "[]"])
    show "t \<in> inner R s r" if "k < PML4X start + (Suc (PML4X (fin - 1)) - PML4X start)" "child s r k = Some t" for k t
      using o(1) [of k] lt [of k] that unfolding inner_def by (intro CollectI exI [of _ "[k]"]) simp
    show "w \<in> inner R s r" if "k < PML4X start + (Suc (PML4X (fin - 1)) - PML4X start)" "child s r k = Some t" "child s t l = Some w" for k t l w
      using o(2) [of k l] lt [of k] that unfolding inner_def by (intro CollectI exI [of _ "[l, k]"]) simp
  qed simp
  note d = range_drops(1) [OF inv u b]
  have le: "drops s f ?xs \<le> refs s r f" for f
    unfolding range_drops(2) [OF inv u b] refs_def by (rule card_mono [OF finite_mapped]) auto
  have df: "data_frame R s f" if "drops s f ?xs > 0" for f using refs_data [OF sp, of f] le [of f] that by auto
  show dr: "0 < drops s f ?xs \<Longrightarrow> int (drops s f ?xs) < rc (pm s) f" for f
    using spare_refsD(3) [OF sp, of f] le [of f] by auto
  have ng: "Give t \<notin> set ?xs" for t using no_give by (simp add: range_rel_def)
  have "releasable s ?xs"
    by (rule releasableI [OF d]) (use df dr ng in \<open>auto simp: data_frame_def less_imp_le\<close>)
  from run_all_ok [OF vt_invD(1) [OF inv] this] show "\<exists>s'. unmap_pages s r start fin False = Some s' \<and> after_rel s ?xs s'" unfolding eq .
qed

text \<open>Unmapping a range of the user part of a space whose frames all have a reference to spare: it clears entries of that space only,
  and frees nothing.\<close>

definition unmapped :: "owner \<Rightarrow> nat \<Rightarrow> vps \<Rightarrow> vps \<Rightarrow> bool" where
  "unmapped R r s s' \<longleftrightarrow> vt_inv R s' \<and> spare_refs R s' r \<and> balanced r s s' \<and> keeps_frames R s s' \<and> pgdata s' = pgdata s
     \<and> free_pages (pm s') = free_pages (pm s)
     \<and> (\<forall>r' w. PML4X w \<in> R r' \<longrightarrow> pte s' r' w = pte s r' w \<or> r' = r \<and> pte s' r' w = 0)"

lemma unmap_range_ok:
  assumes inv: "vt_inv R s" and sp: "spare_refs R s r" and own: "R r = {0..<511}"
    and b: "PML4X start \<le> PML4X (fin - 1)" "PML4X (fin - 1) < 511"
  shows "\<exists>s'. unmap_pages s r start fin False = Some s' \<and> unmapped R r s s'"
proof -
  let ?xs = "range_rel s r start fin"
  note u = spare_refsD(1) [OF sp]
  obtain s' where s': "unmap_pages s r start fin False = Some s'" "after_rel s ?xs s'" using range_run(1) [OF inv sp b] by blast
  note a = s'(2) [unfolded after_rel_def]
  have "Give t \<notin> set ?xs" for t using no_give by (simp add: range_rel_def)
  moreover have "rc (pm s) f \<noteq> int (drops s f ?xs)" if "0 < drops s f ?xs" for f using range_run(2) [OF inv sp b that] by simp
  ultimately have rel: "released s ?xs = {}" by (auto simp: released_def)
  have al: "allocated (pm s') = allocated (pm s)" using a unfolding rel by simp
  have tbl: "ptes s' t = ptes s t" if "owned R r' q" "tab s r' q = Some t" "r' \<noteq> r \<or> length q < 3" for r' q t
  proof -
    have "Clear t i \<notin> set ?xs" for i
    proof
      assume "Clear t i \<in> set ?xs"
      then obtain p where p: "user_path p" "length p = 3" "tab s r p = Some t" using range_Clear [OF b] by blast
      from vt_invD(4) [OF inv that(1) user_owned [where R = R, OF p(1) u] that(2) p(3)] show False using that(3) p(2) by auto
    qed
    then show ?thesis using a by (auto simp: fun_eq_iff)
  qed
  have tb: "tab s' r' p = tab s r' p" if "owned R r' p" for r' p
    by (rule tab_inner [where R = R, OF _ that]) (use tbl in blast)
  have lf: "leaf s' r p j = (if hit s r ?xs p j then 0 else leaf s r p j)" if "owned R r p" for p j
    using tb [OF that] a by (auto simp: leaf_def hit_def split: option.splits)
  have pt: "pte s' r' w = pte s r' w \<or> r' = r \<and> pte s' r' w = 0" if w: "PML4X w \<in> R r'" for r' w
  proof (cases "r' = r")
    case True
    then show ?thesis using lf [of "vpath w" "PTX w"] w by (auto simp: pte_def)
  next
    case False
    then show ?thesis using tb [of r' "vpath w"] tbl [of r' "vpath w"] w by (auto simp: pte_def leaf_def split: option.splits)
  qed
  have rf: "refs s r f = refs s' r f + drops s f ?xs" for f
  proof -
    let ?D = "{(p, j). user_path p \<and> length p = 3 \<and> j < 512 \<and> present (leaf s r p j) \<and> frame (leaf s r p j) = f \<and> hit s r ?xs p j}"
    have "mapped_at_frame s' r f = mapped_at_frame s r f - ?D" using lf user_owned [where R = R, OF _ u] by (auto split: if_splits)
    moreover have "?D \<subseteq> mapped_at_frame s r f" by auto
    ultimately show ?thesis unfolding refs_def range_drops(2) [OF inv u b]
      using card_Diff_subset [of ?D "mapped_at_frame s r f"] card_mono [OF finite_mapped, of ?D s r f] finite_subset [OF _ finite_mapped, of ?D s r f] by simp
  qed
  have rc: "rc (pm s') f = rc (pm s) f - int (drops s f ?xs)" "od (pm s') f = od (pm s) f" if "f \<in> allocated (pm s)" for f using a al that by auto
  have k: "keeps_frames R s s'" unfolding keeps_frames_def using al rc(2) tb by auto
  have "vt_inv R s'" using a vt_invD [OF inv] al tb unfolding vt_inv_def by (metis (no_types, lifting))
  moreover have "balanced r s s'" unfolding balanced_def using rc(1) rf by auto
  moreover have "spare_refs R s' r"
  proof (rule spare_refsI [where R = R, OF u keeps_no_zero [OF inv k u spare_refsD(2) [OF sp]]])
    show "data_frame R s' (frame (pte s' r w))" if w: "PML4X w < 511" "present (pte s' r w)" for w
      using pt [of w r] own w spare_refsD(4) [OF sp w(1)] keeps_data_frame [OF k] by auto
    show "int (refs s' r f) < rc (pm s') f" if f: "0 < refs s' r f" for f
      using f rf [of f] spare_refsD(3) [OF sp, of f] rc(1) [of f] refs_data [OF sp, of f] by (simp add: data_frame_def)
  qed
  moreover have "free_pages (pm s') = free_pages (pm s)"
    using free_pages_anti [of "pm s'" "pm s"] free_pages_anti [of "pm s" "pm s'"] a al rc(2) by auto
  ultimately have "unmapped R r s s'" using k a pt by (simp add: unmapped_def)
  then show ?thesis using s'(1) by blast
qed

text \<open>The range of a region: at least one page, in one half of the address space, below the entry of the kernel.\<close>

definition user_range :: "vaddr_t \<Rightarrow> nat \<Rightarrow> bool" where
  "user_range v n \<longleftrightarrow> unat v mod 4096 = 0 \<and> unat v div 2 ^ 48 = (unat v + n * 4096) div 2 ^ 48 \<and> unat v + n * 4096 < 2 ^ 64
     \<and> (\<forall>k < n. PML4X (off v k) < 511)"

lemma PML4X_mono:
  assumes "unat x \<le> unat y" "unat x div 2 ^ 48 = unat y div 2 ^ 48"
  shows "PML4X x \<le> PML4X y"
proof -
  have "unat z div 2 ^ 39 = 512 * (unat z div 2 ^ 48) + PML4X z" for z
  proof -
    have "unat z div 2 ^ 48 = unat z div 2 ^ 39 div 512" by (simp add: div_mult2_eq [symmetric])
    then show ?thesis by (simp only: PML4X_def ENTRY_IDX_eq mult_div_mod_eq)
  qed
  moreover have "unat x div 2 ^ 39 \<le> unat y div 2 ^ 39" using assms(1) by (rule div_le_mono)
  ultimately show ?thesis using assms(2) by (metis add_le_cancel_left)
qed

lemma vpmap_unmap_ok:
  assumes inv: "vt_inv R s" and sp: "spare_refs R s r" and own: "R r = {0..<511}" and v: "user_range v (unat n)"
  shows "\<exists>s'. vpmap_unmap s (Some r) v n = Some s' \<and> unmapped R r s s'"
proof (cases "n = 0")
  case True
  then show ?thesis using inv sp by (simp add: vpmap_unmap_def unmapped_def)
next
  case False
  let ?f = "v + n * pg_size"
  have n: "0 < unat n" using False by (simp add: unat_gt_0)
  have al: "pg_round_down v = v" using v by (intro pg_round_down_aligned) (auto simp: user_range_def)
  have uf: "unat ?f = unat v + unat n * 4096" using v by (simp add: user_range_def unat_word_ariths pg_size_def)
  have u1: "unat (?f - 1) = unat v + unat n * 4096 - 1" using uf n unat_minus_one [of ?f] by fastforce
  have hi: "unat v div 2 ^ 48 = unat (?f - 1) div 2 ^ 48"
  proof (rule antisym)
    show "unat v div 2 ^ 48 \<le> unat (?f - 1) div 2 ^ 48" unfolding u1 using n by (intro div_le_mono) simp
    show "unat (?f - 1) div 2 ^ 48 \<le> unat v div 2 ^ 48" unfolding u1 using v by (metis div_le_mono diff_le_self user_range_def)
  qed
  have "PML4X v \<le> PML4X ?f" by (rule PML4X_mono) (use v uf in \<open>simp_all add: user_range_def\<close>)
  moreover have "PML4X v \<le> PML4X (?f - 1)" by (rule PML4X_mono [OF _ hi]) (use u1 n in simp)
  moreover have "PML4X (?f - 1) < 511"
  proof -
    obtain m where m: "unat n = Suc m" using n by (cases "unat n") auto
    obtain q where q: "unat v = 4096 * q" using v by (auto simp: user_range_def)
    have o: "unat (off v m) = 4096 * (q + m)" using v m q by (simp add: off_def user_range_def unat_word_ariths unat_of_nat pg_size_def)
    have "unat (?f - 1) div 4096 = unat (off v m) div 4096" unfolding u1 o m q by simp
    then have "unat (?f - 1) div 4096 div 2 ^ 27 = unat (off v m) div 4096 div 2 ^ 27" by (rule arg_cong)
    then have "PML4X (?f - 1) = PML4X (off v m)" unfolding PML4X_def ENTRY_IDX_eq by (simp add: div_mult2_eq [symmetric])
    then show ?thesis using v m by (simp add: user_range_def)
  qed
  ultimately show ?thesis using unmap_range_ok [OF inv sp own] False al by (simp add: vpmap_unmap_def kassert_def)
qed

end
