(* ===== verification/Pgfault.thy ===== *)
theory Pgfault
  imports Shmms Cow
begin

text \<open>
  Page faults, \<^verbatim>\<open>kernel/pgfault.c\<close> with the trap entry of \<^verbatim>\<open>arch/x86_64/kernel/pgfault.c\<close>, and the page cache
  of shared regions, \<^verbatim>\<open>kernel/mm/pgcache.c\<close>.  A handler either resumes the process, kills it, or
  stops the kernel.  The page lock and the cache lock are held across each handler, which is a single step
  here.  A \<open>struct page\<close> pointer is the page number plus one, since the page map starts at a non-null
  address.  The lemmas show that copy on write gives a private copy, that demand paging maps a
  zeroed page, and that all processes see the same frame of a shared page.
\<close>

section \<open>The page cache\<close>

definition page_ptr :: "nat \<Rightarrow> ptr" where
  "page_ptr pg = pg + 1"

definition ptr_page :: "ptr \<Rightarrow> nat" where
  "ptr_page p = p - 1"

text \<open>The page index is an int in the calls of the radix tree.\<close>

definition page_index :: "u64 \<Rightarrow> int" where
  "page_index ofs = sint (ucast (ofs div pg_size) :: 32 word)"

abbreviation upd_vs :: "(vps \<Rightarrow> vps) \<Rightarrow> shm \<Rightarrow> shm" where
  "upd_vs f h \<equiv> h\<lparr>vmst := vmst h\<lparr>vs := f (vs (vmst h))\<rparr>\<rparr>"

text \<open>\<open>fill\<close> is the fillpage function of the store, \<open>news\<close> the addresses left to the node allocator.\<close>

definition pgcache_get_page ::
  "(vps \<Rightarrow> nat \<Rightarrow> err_t \<times> vps) \<Rightarrow> shm \<Rightarrow> ptr list \<Rightarrow> ptr \<Rightarrow> u64 \<Rightarrow> (nat option \<times> shm \<times> ptr list) exec" where
  "pgcache_get_page fill h news store ofs = do {
     m \<leftarrow> stores h store;
     page \<leftarrow> radix_tree_lookup (rnodes h) (ms_cached m) (page_index ofs);
     if page \<noteq> NULL then Some (Some (ptr_page page), h, news)
     else do {
       (err, p, pm') \<leftarrow> pmem_alloc (pm (vs (vmst h)));
       let h = upd_vs (\<lambda>v. v\<lparr>pm := pm'\<rparr>) h;
       case p of
         None \<Rightarrow> Some (None, h, news)
       | Some paddr \<Rightarrow> do {
           let pg = paddr_to_page paddr;
           let (err, v) = fill (vs (vmst h)) pg;
           let h = upd_vs (\<lambda>_. v) h;
           if err \<noteq> ERR_OK then do {
             pm' \<leftarrow> pmem_free (pm (vs (vmst h))) paddr;
             Some (None, upd_vs (\<lambda>v. v\<lparr>pm := pm'\<rparr>) h, news) }
           else do {
             (err, nodes, news, root) \<leftarrow> radix_tree_insert (rnodes h) news (ms_cached m) (page_index ofs) (page_ptr pg);
             let h = set_store store (m\<lparr>ms_cached := root\<rparr>) (h\<lparr>rnodes := nodes\<rparr>);
             if err = ERR_RADIX_TREE_ALLOC then do {
               pm' \<leftarrow> pmem_free (pm (vs (vmst h))) paddr;
               Some (None, upd_vs (\<lambda>v. v\<lparr>pm := pm'\<rparr>) h, news) }
             else if err = ERR_RADIX_TREE_NODE_EXIST then None
             else Some (Some pg, h, news) } } } }"

definition pgcache_remove_page :: "shm \<Rightarrow> ptr \<Rightarrow> u64 \<Rightarrow> shm exec" where
  "pgcache_remove_page h store ofs = do {
     m \<leftarrow> stores h store;
     (_, nodes, root) \<leftarrow> radix_tree_remove (rnodes h) (ms_cached m) (page_index ofs);
     Some (set_store store (m\<lparr>ms_cached := root\<rparr>) (h\<lparr>rnodes := nodes\<rparr>)) }"

section \<open>Fault handlers\<close>

definition setup_page :: "vps \<Rightarrow> vpmap \<Rightarrow> vaddr_t \<Rightarrow> (err_t \<times> vps) exec" where
  "setup_page s vp fault_addr = do {
     (err, p, pm') \<leftarrow> pmem_alloc (pm s);
     case p of
       None \<Rightarrow> Some (ERR_NOMEM, s\<lparr>pm := pm'\<rparr>)
     | Some paddr \<Rightarrow> do {
         let s = s\<lparr>pm := pm', pgdata := (pgdata s)(paddr_to_page paddr := (\<lambda>_. 0))\<rparr>;
         (err, s) \<leftarrow> vpmap_map s vp (pg_round_down fault_addr) paddr 1 MEMPERM_URW;
         if err \<noteq> ERR_OK then do {
           pm' \<leftarrow> pmem_free (pm s) paddr;
           Some (ERR_NOMEM, s\<lparr>pm := pm'\<rparr>) }
         else Some (ERR_OK, s) } }"

text \<open>The kernel copies from the faulting user address itself, through the page table that is loaded; a
  further fault there would not return.  \<open>cur\<close> is the table the flush loads.\<close>

definition handleCOW :: "vps \<Rightarrow> nat \<Rightarrow> vpmap \<Rightarrow> vaddr_t \<Rightarrow> (err_t \<times> vps) exec" where
  "handleCOW s cur vp fault_addr = do {
     pml4 \<leftarrow> vp;
     let pageAddr = pg_round_down fault_addr;
     (_, p) \<leftarrow> vpmap_lookup_vaddr s pml4 pageAddr;
     case p of
       None \<Rightarrow> Some (ERR_FAULT, s)
     | Some paddr \<Rightarrow>
         if refcnt (pagemap (pm s) (paddr_to_page paddr)) = 1 then do {
           s \<leftarrow> vpmap_set_perm s vp pageAddr 1 MEMPERM_URW;
           Some (ERR_OK, vpmap_flush_tlb s cur) }
         else do {
           (_, cp, pm') \<leftarrow> pmem_alloc (pm s);
           let s = s\<lparr>pm := pm'\<rparr>;
           case cp of
             None \<Rightarrow> Some (ERR_FAULT, s)
           | Some cpPage \<Rightarrow> do {
               (_, src) \<leftarrow> vpmap_lookup_vaddr s (cr3 s) pageAddr;
               src \<leftarrow> src;
               let s = s\<lparr>pgdata := (pgdata s)(paddr_to_page cpPage := pgdata s (paddr_to_page src))\<rparr>;
               (err, s) \<leftarrow> vpmap_map s vp pageAddr cpPage 1 MEMPERM_URW;
               if err \<noteq> ERR_OK then do {
                 pm' \<leftarrow> pmem_free (pm s) cpPage;
                 Some (ERR_FAULT, s\<lparr>pm := pm'\<rparr>) }
               else do {
                 pm' \<leftarrow> pmem_dec_refcnt (pm s) paddr;
                 Some (ERR_OK, vpmap_flush_tlb (s\<lparr>pm := pm'\<rparr>) cur) } } } }"

definition handleSharedRegion :: "shm \<Rightarrow> ptr list \<Rightarrow> memregion \<Rightarrow> vpmap \<Rightarrow> vaddr_t \<Rightarrow> (err_t \<times> shm \<times> ptr list) exec" where
  "handleSharedRegion h news mr vp fault_addr = do {
     (pg, h, news) \<leftarrow> pgcache_get_page fillpage h news (mr_store mr) (fault_addr - mr_start mr);
     case pg of
       None \<Rightarrow> Some (ERR_FAULT, h, news)
     | Some pg \<Rightarrow>
         if page_to_paddr pg = 0 then Some (ERR_FAULT, h, news)
         else do {
           (err, v) \<leftarrow> vpmap_map (vs (vmst h)) vp (pg_round_down fault_addr) (page_to_paddr pg) 1 MEMPERM_URW;
           if err \<noteq> ERR_OK then Some (ERR_FAULT, upd_vs (\<lambda>_. v) h, news)
           else do {
             pm' \<leftarrow> pmem_inc_refcnt (pm v) (page_to_paddr pg) 1;
             Some (ERR_OK, upd_vs (\<lambda>_. v\<lparr>pm := pm'\<rparr>) h, news) } } }"

text \<open>\<open>Killed\<close> is the call of proc_exit, which does not return.\<close>

datatype fault_outcome = Resumed shm "ptr list" | Killed shm "ptr list"

text \<open>The stack and heap case of the handler.\<close>

definition demand_page :: "shm \<Rightarrow> ptr list \<Rightarrow> vpmap \<Rightarrow> vaddr_t \<Rightarrow> fault_outcome exec" where
  "demand_page h news vp fault_addr = do {
     (err, v) \<leftarrow> setup_page (vs (vmst h)) vp fault_addr;
     Some ((if err \<noteq> ERR_OK then Killed else Resumed) (upd_vs (\<lambda>_. v) h) news) }"

definition handle_page_fault :: "u64 \<Rightarrow> shm \<Rightarrow> ptr list \<Rightarrow> vaddr_t \<Rightarrow> bool \<Rightarrow> bool \<Rightarrow> bool \<Rightarrow> (u64 \<times> fault_outcome) exec" where
  "handle_page_fault user_pgfault h news fault_addr pres write user = do {
     let user_pgfault = (if user then user_pgfault + 1 else user_pgfault);
     let s = vmst h;
     a \<leftarrow> spaces s (cur_as s);
     n \<leftarrow> as_find_memregion s (cur_as s) fault_addr 1;
     if n = NULL then Some (user_pgfault, Killed h news)
     else do {
       mr \<leftarrow> regs s n;
       ma \<leftarrow> spaces s (mr_as mr);
       cur \<leftarrow> cur_pml4 s;
       (done1, h, news) \<leftarrow>
         (if mr_shared mr then do {
            (err, h, news) \<leftarrow> handleSharedRegion h news mr (as_vpmap ma) fault_addr;
            Some (err = ERR_OK, h, news) }
          else Some (False, h, news));
       if done1 then Some (user_pgfault, Resumed h news)
       else do {
         (done2, h) \<leftarrow>
           (if pres \<and> write \<and> mr_perm mr = MEMPERM_URW then do {
              (err, v) \<leftarrow> handleCOW (vs (vmst h)) cur (as_vpmap ma) fault_addr;
              Some (err = ERR_OK, upd_vs (\<lambda>_. v) h) }
            else Some (False, h));
         if done2 then Some (user_pgfault, Resumed h news)
         else if user then
           if mr_end mr = USTACK_UPPERBOUND \<or> n = as_heap a then do {
             r \<leftarrow> demand_page h news (as_vpmap a) fault_addr;
             Some (user_pgfault, r) }
           else Some (user_pgfault, Killed h news)
         else None } } }"

text \<open>The trap handler decodes the error code of the fault; \<open>cr2\<close> is the faulting address.\<close>

definition pgfault_trap_handler :: "u64 \<Rightarrow> shm \<Rightarrow> ptr list \<Rightarrow> vaddr_t \<Rightarrow> u64 \<Rightarrow> (u64 \<times> fault_outcome) exec" where
  "pgfault_trap_handler user_pgfault h news cr2 tf_err =
     (let err_code = (ucast tf_err :: 32 word) in
      handle_page_fault user_pgfault h news cr2 (err_code AND 1 \<noteq> 0) (err_code AND 2 \<noteq> 0) (err_code AND 4 \<noteq> 0))"

section \<open>Copy on write\<close>

lemma URW_flags: "PTE_P OR memperm_to_pteperm MEMPERM_URW = 7"
  by (simp add: memperm_to_pteperm_def)

lemma set_perm_one:
  assumes "tab s r (vpath v) = Some t" "present (pte s r v)"
  shows "vpmap_set_perm s (Some r) (pg_round_down v) 1 MEMPERM_URW =
    Some (set_pte t (PTX v) (page_to_paddr (frame (pte s r v)) OR 7) s)"
proof -
  have p: "ptes s t (PTX v) = pte s r v" using assms(1) by (simp add: pte_def leaf_def)
  have "odd (pte s r v)" using assms(2) by (simp add: present_def and_one_eq odd_iff_mod_2_eq_one)
  then have "ENTRY_FLAGS (pte s r v) AND PTE_P = PTE_P"
    unfolding ENTRY_FLAGS_def and.assoc by (simp add: and_one_eq odd_iff_mod_2_eq_one)
  then have "PPN (pte s r v) OR (ENTRY_FLAGS (pte s r v) AND PTE_P) OR memperm_to_pteperm MEMPERM_URW = page_to_paddr (frame (pte s r v)) OR 7"
    using URW_flags by (simp add: PPN_frame or.assoc)
  then show ?thesis using assms(1) find_pte_present [of s r "pg_round_down v" t False]
    by (simp add: vpmap_set_perm_def p pg_round_down_aligned)
qed

text \<open>What both branches of the handler do to the entry.\<close>

definition cow_spec :: "owner \<Rightarrow> nat \<Rightarrow> vaddr_t \<Rightarrow> vps \<Rightarrow> vps \<Rightarrow> nat \<Rightarrow> bool" where
  "cow_spec R r v s s' g \<longleftrightarrow> vt_inv R s' \<and> pte s' r v = page_to_paddr g OR 7 \<and> g \<in> allocated (pm s') \<and> rc (pm s') g = 1
     \<and> pgdata s' g = pgdata s (frame (pte s r v))
     \<and> (\<forall>r' w. PML4X w \<in> R r' \<longrightarrow> r' \<noteq> r \<or> vkey w \<noteq> vkey v \<longrightarrow> pte s' r' w = pte s r' w)"

lemma handleCOW_last:
  assumes inv: "vt_inv R s" and v: "PML4X v \<in> R r" "present (pte s r v)"
    and f: "data_frame R s (frame (pte s r v))" and one: "rc (pm s) (frame (pte s r v)) = 1"
  shows "\<exists>s'. handleCOW s cur (Some r) v = Some (ERR_OK, s') \<and> cow_spec R r v s s' (frame (pte s r v)) \<and> pm s' = pm s"
proof -
  let ?f = "frame (pte s r v)"
  have fa: "?f \<in> allocated (pm s)" using f by (simp add: data_frame_def)
  obtain t where t: "tab s r (vpath v) = Some t" using pte_present_tab [OF v(2)] by blast
  let ?s = "set_pte t (PTX v) (page_to_paddr ?f OR 7) s"
  have "handleCOW s cur (Some r) v = Some (ERR_OK, vpmap_flush_tlb ?s cur)"
    using lookup_page [OF v(2)] set_perm_one [OF t v(2)] one frame_less(3) [OF inv fa] by (simp add: handleCOW_def)
  moreover have p: "pte (vpmap_flush_tlb ?s cur) r' w = (if r' = r \<and> vkey w = vkey v then page_to_paddr ?f OR 7 else pte s r' w)"
    if "PML4X w \<in> R r'" for r' w
    using pte_set [OF inv v(1) t that] pte_same [of "vpmap_flush_tlb ?s cur" ?s] by (simp add: vpmap_flush_tlb_def)
  moreover have "vt_inv R (vpmap_flush_tlb ?s cur)"
    using set_leaf_inv [OF inv _ t] v(1) vt_inv_grow [of R ?s "vpmap_flush_tlb ?s cur"] vt_invD [of R ?s]
    by (simp add: vpmap_flush_tlb_def)
  ultimately show ?thesis using v(1) fa one
    by (intro exI [of _ "vpmap_flush_tlb ?s cur"]) (simp add: cow_spec_def vpmap_flush_tlb_def set_pte_def)
qed

lemma handleCOW_shared:
  assumes inv: "vt_inv R s" and v: "PML4X v \<in> R r" "present (pte s r v)" and cur: "cr3 s = r"
    and f: "data_frame R s (frame (pte s r v))" and more: "rc (pm s) (frame (pte s r v)) \<noteq> 1"
  shows "handleCOW s cur (Some r) v = Some (ERR_FAULT, s) \<and> (\<forall>k \<le> MAX_ORDER. freeblocks (pm s) k = [])
    \<or> (\<exists>s' g. handleCOW s cur (Some r) v = Some (ERR_OK, s') \<and> cow_spec R r v s s' g \<and> g \<notin> allocated (pm s)
         \<and> pgdata s' (frame (pte s r v)) = pgdata s (frame (pte s r v))
         \<and> rc (pm s') (frame (pte s r v)) = rc (pm s) (frame (pte s r v)) - 1)"
proof -
  let ?f = "frame (pte s r v)"
  have f': "?f \<in> allocated (pm s)" "od (pm s) ?f = 0" "?f \<noteq> 0" "\<And>r p. owned R r p \<Longrightarrow> tab s r p \<noteq> Some ?f"
    using f by (auto simp: data_frame_def)
  obtain t where t: "tab s r (vpath v) = Some t" using pte_present_tab [OF v(2)] by blast
  from vt_invD(1) [OF inv] show ?thesis
  proof (cases rule: pmem_alloc_cases)
    case none
    then have "handleCOW s cur (Some r) v = Some (ERR_FAULT, s)"
      using lookup_page [OF v(2)] more frame_less(3) [OF inv f'(1)] by (simp add: handleCOW_def)
    then show ?thesis using none by simp
  next
    case (page g m)
    have gf: "g \<noteq> ?f" using page(3) f'(1) by auto
    have g: "g < 2 ^ 39" "paddr_to_page (page_to_paddr g) = g"
      using page(4) vt_invD(2) [OF inv] page_roundtrip [of g] by simp_all
    define s1 where "s1 = s\<lparr>pm := m, pgdata := (pgdata s)(g := pgdata s ?f)\<rparr>"
    define s2 where "s2 = set_pte t (PTX v) (page_to_paddr g OR 7) s1"
    have i1: "vt_inv R s1"
      by (rule vt_inv_grow [OF inv]) (use page vt_invD(3) [OF inv] in \<open>auto simp: s1_def\<close>)
    have t1: "tab s1 r (vpath v) = Some t" using t tab_same [of s1 s] by (simp add: s1_def)
    have map: "vpmap_map s1 (Some r) (pg_round_down v) (page_to_paddr g) 1 MEMPERM_URW = Some (ERR_OK, s2)"
      using vpmap_map_present [OF t1] PPN_page [OF g(1)] URW_flags by (simp add: s2_def or.assoc)
    have m: "pm s2 = m" by (simp add: s2_def s1_def set_pte_def)
    have "?f \<in> allocated m" "od m ?f = 0" using page(5,9) f'(1,2) by auto
    from pmem_dec_refcnt_ok [OF page(2) this f'(3) refl] obtain m' where
      d: "pmem_dec_refcnt m (page_to_paddr ?f) = Some m'" "pmem_inv m'" "n_pages m' = n_pages m"
        "allocated m' = (if rc m ?f = 1 then allocated m - {?f} else allocated m)"
        "rc m ?f > 1 \<longrightarrow> rc m' ?f = rc m ?f - 1" "\<forall>i \<in> allocated m - {?f}. pagemap m' i = pagemap m i" by blast
    have rc: "rc m ?f = rc (pm s) ?f" "rc (pm s) ?f > 1" using page(9) f'(1) more by (auto simp: allocated_def)
    let ?s = "vpmap_flush_tlb (s2\<lparr>pm := m'\<rparr>) cur"
    have look: "vpmap_lookup_vaddr (s\<lparr>pm := m\<rparr>) r (pg_round_down v) = Some (ERR_OK, Some (page_to_paddr ?f))"
      using lookup_page [of "s\<lparr>pm := m\<rparr>" r v] v(2) pte_same [of "s\<lparr>pm := m\<rparr>" s] by simp
    have run: "handleCOW s cur (Some r) v = Some (ERR_OK, ?s)"
      using lookup_page [OF v(2)] more page(1) look map d(1) cur g(2) frame_less(3) [OF inv f'(1)]
      by (simp add: handleCOW_def s1_def m)
    have p2: "pte s2 r' w = (if r' = r \<and> vkey w = vkey v then page_to_paddr g OR 7 else pte s r' w)" if "PML4X w \<in> R r'" for r' w
      unfolding s2_def pte_set [OF i1 v(1) t1 that] using pte_same [of s1 s] by (simp add: s1_def)
    have i2: "vt_inv R s2" unfolding s2_def using set_leaf_inv [OF i1 _ t1] v(1) by simp
    have "vt_inv R ?s" by (rule vt_inv_grow [OF i2])
      (use d rc m vt_invD(3) [OF i2] in \<open>auto simp: vpmap_flush_tlb_def\<close>)
    moreover have "pte ?s r' w = pte s2 r' w" for r' w by (rule pte_same) (simp add: vpmap_flush_tlb_def)
    moreover have "pgdata ?s = (pgdata s)(g := pgdata s ?f)" "pm ?s = m'" by (simp_all add: s1_def s2_def set_pte_def vpmap_flush_tlb_def)
    moreover have "rc m' g = 1" "g \<in> allocated m'" using d(4,6) page(5,7) rc gf by auto
    ultimately show ?thesis using run p2 v(1) page(3) gf d(5) rc by (auto simp: cow_spec_def)
  qed
qed

section \<open>Demand paging\<close>

text \<open>No page but those of \<open>G\<close> has been allocated for anything but a page table.\<close>

definition only_tables :: "owner \<Rightarrow> nat set \<Rightarrow> vps \<Rightarrow> vps \<Rightarrow> bool" where
  "only_tables R G s s' \<longleftrightarrow> (\<forall>i \<in> allocated (pm s') - allocated (pm s) - G. \<exists>r p. owned R r p \<and> tab s' r p = Some i)"

lemma setup_page_ok:
  assumes inv: "vt_inv R s" and v: "PML4X v \<in> R r"
  shows "\<exists>err s'. setup_page s (Some r) v = Some (err, s') \<and> vt_inv R s'
    \<and> (\<forall>r' w. PML4X w \<in> R r' \<longrightarrow> r' \<noteq> r \<or> vkey w \<noteq> vkey v \<longrightarrow> pte s' r' w = pte s r' w)
    \<and> (\<forall>i \<in> allocated (pm s). i \<in> allocated (pm s') \<and> pagemap (pm s') i = pagemap (pm s) i \<and> pgdata s' i = pgdata s i)
    \<and> (err = ERR_OK \<and> (\<exists>g. pte s' r v = page_to_paddr g OR 7 \<and> g \<notin> allocated (pm s) \<and> g \<in> allocated (pm s')
         \<and> rc (pm s') g = 1 \<and> pgdata s' g = (\<lambda>_. 0) \<and> only_tables R {g} s s')
       \<or> err = ERR_NOMEM \<and> pte s' r v = pte s r v \<and> only_tables R {} s s' \<and> card (free_pages (pm s')) \<le> 1
         \<and> (tab s r (vpath v) \<noteq> None \<longrightarrow> s' = s \<and> free_pages (pm s) = {}))"
proof -
  from vt_invD(1) [OF inv] show ?thesis
  proof (cases rule: pmem_alloc_cases)
    case none
    then show ?thesis using inv no_free_pages [OF vt_invD(1) [OF inv]]
      by (intro exI [of _ ERR_NOMEM] exI [of _ s]) (simp add: setup_page_def only_tables_def)
  next
    case (page g m)
    have g: "g < 2 ^ 39" "paddr_to_page (page_to_paddr g) = g"
      using page(4) vt_invD(2) [OF inv] page_roundtrip [of g] by simp_all
    define s1 where "s1 = s\<lparr>pm := m, pgdata := (pgdata s)(g := (\<lambda>_. 0))\<rparr>"
    have i1: "vt_inv R s1"
      by (rule vt_inv_grow [OF inv]) (use page vt_invD(3) [OF inv] in \<open>auto simp: s1_def\<close>)
    have p1: "pte s1 r' w = pte s r' w" "tab s1 r' q = tab s r' q" for r' w q
      using pte_same [of s1 s] tab_same [of s1 s] by (simp_all add: s1_def)
    from vpmap_map_one [OF i1 v, of "page_to_paddr g" MEMPERM_URW] obtain err s2 where
      r: "vpmap_map s1 (Some r) (pg_round_down v) (page_to_paddr g) 1 MEMPERM_URW = Some (err, s2)" "vt_inv R s2" "fresh_from s1 s2"
        "err = ERR_OK \<and> pte s2 r v = page_to_paddr g OR 7
         \<or> err = ERR_VPMAP_MAP \<and> (\<forall>k \<le> MAX_ORDER. freeblocks (pm s2) k = []) \<and> pte s2 r v = pte s1 r v"
        "\<forall>r' w. PML4X w \<in> R r' \<longrightarrow> r' \<noteq> r \<or> vkey w \<noteq> vkey v \<longrightarrow> pte s2 r' w = pte s1 r' w"
        "\<forall>r' p t. owned R r' p \<longrightarrow> tab s2 r' p = Some t \<longrightarrow> tab s1 r' p = Some t \<or> t \<notin> allocated (pm s1)"
        "\<forall>i \<in> allocated (pm s2) - allocated (pm s1). \<exists>r' p. owned R r' p \<and> tab s2 r' p = Some i"
      unfolding PPN_page [OF g(1)] or.assoc URW_flags by blast
    have al: "allocated (pm s1) = insert g (allocated (pm s))" "\<forall>i \<in> allocated (pm s). pagemap (pm s1) i = pagemap (pm s) i \<and> pgdata s1 i = pgdata s i"
      using page(3,5,9) by (auto simp: s1_def)
    have old: "i \<in> allocated (pm s2) \<and> pagemap (pm s2) i = pagemap (pm s) i \<and> pgdata s2 i = pgdata s i \<and> i \<noteq> g" if "i \<in> allocated (pm s)" for i
      using r(3) al that page(3) unfolding fresh_from_def by auto
    have new: "g \<in> allocated (pm s2)" "rc (pm s2) g = 1" "pgdata s2 g = (\<lambda>_. 0)" "od (pm s2) g = 0"
      using r(3) al(1) page(6,7) unfolding fresh_from_def by (auto simp: s1_def)
    have run: "setup_page s (Some r) v = (if err \<noteq> ERR_OK then do { m \<leftarrow> pmem_free (pm s2) (page_to_paddr g); Some (ERR_NOMEM, s2\<lparr>pm := m\<rparr>) }
      else Some (ERR_OK, s2))"
      using page(1) r(1) g(2) by (simp add: setup_page_def s1_def)
    show ?thesis
    proof (cases "err = ERR_OK")
      case True
      moreover have "only_tables R {g} s s2" using r(7) al(1) by (simp add: only_tables_def)
      ultimately show ?thesis using run r(2,4,5) p1 old new page(3) by (intro exI [of _ ERR_OK] exI [of _ s2]) auto
    next
      case False
      have g0: "g \<noteq> 0" using page(3) vt_invD(1) [OF inv] by (cases "g = 0") (auto simp: pmem_inv_def)
      have nt: "tab s r (vpath v) = None" using vpmap_map_present [of s1 r v] r(1) False p1(2) by (cases "tab s r (vpath v)") auto
      from pmem_nfree_ok [OF vt_invD(1) [OF r(2)] new(1) g0, of 1] obtain m' where
        m': "pmem_free (pm s2) (page_to_paddr g) = Some m'" "pmem_inv m'" "allocated m' = allocated (pm s2) - {g}"
          "n_pages m' = n_pages (pm s2)" "\<forall>i \<in> allocated (pm s2) - {g}. pagemap m' i = pagemap (pm s2) i"
        by (auto simp: pmem_free_def)
      have "t \<noteq> g" if "owned R r' q" "tab s2 r' q = Some t" for r' q t
        using r(6) that vt_invD(3) [OF inv that(1)] page(3) unfolding p1(2) al(1) by blast
      then have "vt_inv R (s2\<lparr>pm := m'\<rparr>)"
        by (intro vt_inv_grow [OF r(2)]) (use m' vt_invD(3) [OF r(2)] in auto)
      moreover have "pte (s2\<lparr>pm := m'\<rparr>) r' w = pte s2 r' w" "tab (s2\<lparr>pm := m'\<rparr>) r' q = tab s2 r' q" for r' w q
        by (rule pte_same, simp) (rule tab_same, simp)
      moreover have "only_tables R {} s (s2\<lparr>pm := m'\<rparr>)" unfolding only_tables_def
        using r(7) m'(3) al(1) calculation(3) by simp
      moreover have "free_pages m' \<subseteq> {g}"
        using free_pages_drop [OF m'(4,3) new(4)] m'(5) no_free_pages [OF vt_invD(1) [OF r(2)]] r(4) False by simp
      then have "card (free_pages m') \<le> 1" using card_mono [of "{g}"] by simp
      ultimately show ?thesis using run False r(4,5) p1 old m' nt by (intro exI [of _ ERR_NOMEM] exI [of _ "s2\<lparr>pm := m'\<rparr>"]) auto
    qed
  qed
qed

section \<open>Shared pages\<close>

text \<open>The page cached for a store at a page number.\<close>

definition cached :: "shm \<Rightarrow> ptr \<Rightarrow> nat \<Rightarrow> ptr exec" where
  "cached h p i = do { m \<leftarrow> stores h p; radix_tree_lookup (rnodes h) (ms_cached m) (int i) }"

text \<open>The trees of all stores live side by side in one heap, and what they cache are data frames.\<close>

definition trees_ok :: "owner \<Rightarrow> shm \<Rightarrow> (ptr \<Rightarrow> tree_shape) \<Rightarrow> bool" where
  "trees_ok R h A \<longleftrightarrow>
     (\<forall>p m. stores h p = Some m \<longrightarrow> rt_inv (A p) (rnodes h) (ms_cached m)
        \<and> (\<forall>i. rval (A p) (rnodes h) i \<noteq> NULL \<longrightarrow> data_frame R (vs (vmst h)) (ptr_page (rval (A p) (rnodes h) i))))
     \<and> (\<forall>p q. p \<noteq> q \<longrightarrow> stores h p \<noteq> None \<longrightarrow> stores h q \<noteq> None \<longrightarrow> nodes (A p) \<inter> nodes (A q) \<subseteq> {NULL})"

definition pgc_inv :: "owner \<Rightarrow> shm \<Rightarrow> ptr list \<Rightarrow> bool" where
  "pgc_inv R h news \<longleftrightarrow> vt_inv R (vs (vmst h)) \<and> fresh (rnodes h) news \<and> (\<exists>A. trees_ok R h A)"

lemma trees_ok_vs:
  assumes "trees_ok R h A" "keeps_frames R (vs (vmst h)) v"
  shows "trees_ok R (upd_vs (\<lambda>_. v) h) A"
  using assms keeps_data_frame [OF assms(2)] unfolding trees_ok_def by simp

lemma tree_nodes:
  assumes "trees_ok R h A" "stores h p = Some m" "fresh (rnodes h) news"
  shows "nodes (A p) \<inter> set news \<subseteq> {NULL}"
proof
  fix n assume n: "n \<in> nodes (A p) \<inter> set news"
  then obtain l k where "A p l k = n" by (auto simp: nodes_def)
  then have "rnodes h n \<noteq> None" if "n \<noteq> NULL"
    using rt_invD(6) [of "A p" "rnodes h" "ms_cached m" l k] assms(1,2) that by (auto simp: trees_ok_def)
  then show "n \<in> {NULL}" using n assms(3) by (auto simp: fresh_def)
qed

lemma trees_ok_put:
  assumes ok: "trees_ok R h A" "fresh (rnodes h) news" and p: "stores h p = Some m"
    and r: "rt_inv a' nodes' root'" "nodes a' \<subseteq> nodes (A p) \<union> set news"
      "\<forall>n. n \<notin> set news \<longrightarrow> n \<notin> nodes (A p) \<longrightarrow> nodes' n = rnodes h n"
    and d: "\<And>i. rval a' nodes' i \<noteq> NULL \<Longrightarrow> data_frame R (vs (vmst h)) (ptr_page (rval a' nodes' i))"
  shows "trees_ok R (set_store p (m\<lparr>ms_cached := root'\<rparr>) (h\<lparr>rnodes := nodes'\<rparr>)) (A(p := a'))"
    and "q \<noteq> p \<Longrightarrow> stores h q = Some m' \<Longrightarrow> rval (A q) nodes' = rval (A q) (rnodes h)"
proof -
  have same: "nodes' n = rnodes h n" if "q \<noteq> p" "stores h q = Some m'" "n \<in> nodes (A q)" "n \<noteq> NULL" for q m' n
    using r(3) tree_nodes [OF ok(1) that(2) ok(2)] ok(1) that p unfolding trees_ok_def by blast
  have q: "rt_inv (A q) nodes' (ms_cached m')" "rval (A q) nodes' = rval (A q) (rnodes h)"
    if "q \<noteq> p" "stores h q = Some m'" for q m'
    using rt_inv_frame [of "A q" "rnodes h" "ms_cached m'" nodes'] same [OF that] ok(1) that(2) by (auto simp: trees_ok_def)
  then show "q \<noteq> p \<Longrightarrow> stores h q = Some m' \<Longrightarrow> rval (A q) nodes' = rval (A q) (rnodes h)" by blast
  let ?h = "set_store p (m\<lparr>ms_cached := root'\<rparr>) (h\<lparr>rnodes := nodes'\<rparr>)"
  have st: "stores ?h x = (if x = p then Some (m\<lparr>ms_cached := root'\<rparr>) else stores h x)" "rnodes ?h = nodes'" "vmst ?h = vmst h" for x
    by (simp_all add: set_store_def)
  have cross: "nodes a' \<inter> nodes (A q) \<subseteq> {NULL}" if "q \<noteq> p" "stores h q \<noteq> None" for q
    using that r(2) tree_nodes [OF ok(1) _ ok(2), of q] ok(1) p unfolding trees_ok_def by blast
  show "trees_ok R ?h (A(p := a'))" unfolding trees_ok_def
  proof (intro conjI allI impI)
    fix x y assume x: "stores ?h x = Some y"
    show "rt_inv ((A(p := a')) x) (rnodes ?h) (ms_cached y)"
      using x r(1) q(1) by (cases "x = p") (auto simp: st)
    show "data_frame R (vs (vmst ?h)) (ptr_page (rval ((A(p := a')) x) (rnodes ?h) i))"
      if "rval ((A(p := a')) x) (rnodes ?h) i \<noteq> NULL" for i
      using that x d q(2) [of x y] ok(1) by (cases "x = p") (auto simp: st trees_ok_def)
  next
    fix x y assume "x \<noteq> y" "stores ?h x \<noteq> None" "stores ?h y \<noteq> None"
    then show "nodes ((A(p := a')) x) \<inter> nodes ((A(p := a')) y) \<subseteq> {NULL}"
      using cross [of x] cross [of y] ok(1) unfolding trees_ok_def st
      by (cases "x = p"; cases "y = p") (simp_all add: Int_commute)
  qed
qed

lemma cached_rval:
  assumes "trees_ok R h A" "stores h p = Some m"
  shows "cached h p i = Some (rval (A p) (rnodes h) i)"
  using assms lookup_rval by (simp add: cached_def trees_ok_def)

lemma page_index_small:
  assumes "unat (ofs div pg_size) < 2 ^ 30"
  shows "page_index ofs = int (unat (ofs div pg_size))"
proof -
  have u: "unat (ucast (ofs div pg_size) :: 32 word) = unat (ofs div pg_size)" using assms by (simp add: unsigned_ucast_eq take_bit_nat_eq_self)
  then show ?thesis using sint_small [of "ucast (ofs div pg_size)"] assms by (simp add: page_index_def)
qed

lemma ptr_page_ptr [simp]: "ptr_page (page_ptr pg) = pg" "page_ptr pg \<noteq> NULL"
  by (simp_all add: ptr_page_def page_ptr_def)

lemma get_page_hit:
  assumes "stores h p = Some m" "cached h p i = Some w" "w \<noteq> NULL" "i = unat (ofs div pg_size)" "i < 2 ^ 30"
  shows "pgcache_get_page fill h news p ofs = Some (Some (ptr_page w), h, news)"
  using assms page_index_small [of ofs] by (simp add: pgcache_get_page_def cached_def)

text \<open>What a call of the cache may change: allocate and free pages that hold no table, and cache more pages.\<close>

definition cache_grows :: "owner \<Rightarrow> shm \<Rightarrow> shm \<Rightarrow> bool" where
  "cache_grows R h h' \<longleftrightarrow> (\<forall>q. stores h' q = None \<longleftrightarrow> stores h q = None)
     \<and> (\<forall>q j w. cached h q j = Some w \<longrightarrow> w \<noteq> NULL \<longrightarrow> cached h' q j = Some w)"

lemma cache_grows_refl [simp]: "cache_grows R h h"
  by (simp add: cache_grows_def)

lemma cache_grows_trans: "cache_grows R h h' \<Longrightarrow> cache_grows R h' h'' \<Longrightarrow> cache_grows R h h''"
  by (simp add: cache_grows_def)

lemma cache_grows_vs [simp]: "cache_grows R h (h'\<lparr>vmst := w\<rparr>) = cache_grows R h h'" "cached (h\<lparr>vmst := w\<rparr>) p i = cached h p i"
  by (simp_all add: cache_grows_def cached_def)

lemma upd_vs_same [simp]: "pm (vs (vmst h)) = m \<Longrightarrow> upd_vs (\<lambda>v. v\<lparr>pm := m\<rparr>) h = h"
  by (cases h; cases "vmst h"; cases "vs (vmst h)") simp

text \<open>What is newly cached is a fresh page.\<close>

definition cache_fresh :: "shm \<Rightarrow> shm \<Rightarrow> bool" where
  "cache_fresh h h' \<longleftrightarrow> (\<forall>q j w. cached h q j = Some NULL \<longrightarrow> cached h' q j = Some w \<longrightarrow> w \<noteq> NULL \<longrightarrow> ptr_page w \<notin> allocated (pm (vs (vmst h))))"

lemma cache_fresh_refl [simp]: "cache_fresh h h"
  by (simp add: cache_fresh_def)

lemma cache_fresh_vs [simp]: "cache_fresh h (h'\<lparr>vmst := w\<rparr>) = cache_fresh h h'"
  by (simp add: cache_fresh_def)

abbreviation hpm :: "shm \<Rightarrow> pmem" where "hpm h \<equiv> pm (vs (vmst h))"

text \<open>The page of a call on a page that was not cached is fresh and zeroed, with the reference of the cache.\<close>

definition got_page :: "shm \<Rightarrow> shm \<Rightarrow> ptr \<Rightarrow> nat \<Rightarrow> nat \<Rightarrow> bool" where
  "got_page h h' p i pg \<longleftrightarrow> cached h' p i = Some (page_ptr pg)
     \<and> (pg \<notin> allocated (hpm h) \<longrightarrow> rc (hpm h') pg = 1 \<and> pgdata (vs (vmst h')) pg = (\<lambda>_. 0))"

lemma get_page_miss:
  assumes inv: "pgc_inv R h news" and p: "stores h p = Some m" and i: "i = unat (ofs div pg_size)" "i < 2 ^ 30"
    and miss: "cached h p i = Some NULL"
  shows "\<exists>r h' news'. pgcache_get_page fillpage h news p ofs = Some (r, h', news') \<and> pgc_inv R h' news' \<and> cache_grows R h h'
    \<and> vmst h' = (vmst h)\<lparr>vs := vs (vmst h')\<rparr> \<and> ptes (vs (vmst h')) = ptes (vs (vmst h))
    \<and> fresh_from (vs (vmst h)) (vs (vmst h')) \<and> n_pages (hpm h') = n_pages (hpm h) \<and> set news' \<subseteq> set news
    \<and> allocated (hpm h') \<subseteq> allocated (hpm h) \<union> set_option r \<and> cache_fresh h h'
    \<and> (case r of Some pg \<Rightarrow> got_page h h' p i pg | None \<Rightarrow> free_pages (hpm h') = {} \<or> alloc_failed news news')"
proof -
  let ?s = "vs (vmst h)"
  obtain A where A: "trees_ok R h A" "fresh (rnodes h) news" "vt_inv R ?s" using inv by (auto simp: pgc_inv_def)
  note px = page_index_small [of ofs, folded i(1), OF i(2)]
  have lk: "radix_tree_lookup (rnodes h) (ms_cached m) (page_index ofs) = Some NULL"
    using miss p by (simp add: cached_def px)
  from vt_invD(1) [OF A(3)] show ?thesis
  proof (cases rule: pmem_alloc_cases)
    case none
    then have "pgcache_get_page fillpage h news p ofs = Some (None, h, news)"
      using p lk by (simp add: pgcache_get_page_def)
    then show ?thesis using inv no_free_pages [OF vt_invD(1) [OF A(3)]] none(2)
      by (intro exI [of _ None] exI [of _ h] exI [of _ news]) simp
  next
    case (page g pm')
    define v where "v = ?s\<lparr>pm := pm', pgdata := (pgdata ?s)(g := (\<lambda>_. 0))\<rparr>"
    define h1 where "h1 = upd_vs (\<lambda>_. v) h"
    have g: "paddr_to_page (page_to_paddr g) = g" "g \<noteq> 0"
      using page(3,4) vt_invD(1,2) [OF A(3)] page_roundtrip [of g] by (auto simp: pmem_inv_def) (metis neq0_conv)
    have tb: "tab v r q = tab ?s r q" for r q by (rule tab_same) (simp add: v_def)
    have iv: "vt_inv R v"
      by (rule vt_inv_grow [OF A(3)]) (use page vt_invD(3) [OF A(3)] in \<open>auto simp: v_def\<close>)
    have k: "keeps_frames R ?s v" unfolding keeps_frames_def tb using page(5,9) by (simp add: v_def)
    have A1: "trees_ok R h1 A" unfolding h1_def by (rule trees_ok_vs [OF A(1) k])
    have gd: "data_frame R v g" 
      unfolding data_frame_def tb using page(3,5,6) g(2) vt_invD(3) [OF A(3)] by (auto simp: v_def)
    have h1: "stores h1 = stores h" "rnodes h1 = rnodes h" "vs (vmst h1) = v" by (simp_all add: h1_def)
    have "rt_inv (A p) (rnodes h) (ms_cached m)" using A(1) p by (simp add: trees_ok_def)
    moreover have "i < 64 ^ 5" using i(2) by simp
    ultimately obtain err nodes' news' root' a' where r: "radix_tree_insert (rnodes h) news (ms_cached m) (int i) (page_ptr g) = Some (err, nodes', news', root')"
      "rt_inv a' nodes' root'" "nodes a' \<subseteq> nodes (A p) \<union> set news" "\<forall>n. n \<notin> set news \<longrightarrow> n \<notin> nodes (A p) \<longrightarrow> nodes' n = rnodes h n"
      "fresh nodes' news'" "set news' \<subseteq> set news"
      "err = ERR_OK \<and> rval (A p) (rnodes h) i = NULL \<and> rval a' nodes' = (rval (A p) (rnodes h))(i := page_ptr g)
       \<or> err = ERR_RADIX_TREE_NODE_EXIST \<and> rval (A p) (rnodes h) i \<noteq> NULL \<and> rval a' nodes' = rval (A p) (rnodes h)
       \<or> err = ERR_RADIX_TREE_ALLOC \<and> alloc_failed news news' \<and> rval a' nodes' = rval (A p) (rnodes h)"
      using insert_ok [OF _ A(2) _ ptr_page_ptr(2)] by blast
    define h2 where "h2 = set_store p (m\<lparr>ms_cached := root'\<rparr>) (h1\<lparr>rnodes := nodes'\<rparr>)"
    have v0: "rval (A p) (rnodes h) i = NULL" using miss cached_rval [OF A(1) p] by simp
    have d: "data_frame R v (ptr_page (rval a' nodes' j))" if "rval a' nodes' j \<noteq> NULL" for j
      using that r(7) gd A1 p by (auto simp: trees_ok_def h1 split: if_splits)
    note put = trees_ok_put [OF A1, of news p m a' nodes' root', unfolded h1, OF A(2) p r(2-4) d, folded h2_def]
    have st2: "stores h2 p = Some (m\<lparr>ms_cached := root'\<rparr>)" "rnodes h2 = nodes'" "vs (vmst h2) = v" "q \<noteq> p \<Longrightarrow> stores h2 q = stores h q" for q
      by (simp_all add: h2_def set_store_def h1)
    have c2: "cached h2 q j = Some (if q = p then rval a' nodes' j else rval (A q) (rnodes h) j)" if "stores h q \<noteq> None" for q j
      using that cached_rval [OF put(1), of q] put(2) [of q] st2 by (cases "q = p") auto
    have grow: "cache_grows R h h2" unfolding cache_grows_def
    proof (intro conjI allI impI)
      show "stores h2 q = None \<longleftrightarrow> stores h q = None" for q using st2 p by (cases "q = p") auto
      show "cached h2 q j = Some w" if "cached h q j = Some w" "w \<noteq> NULL" for q j w
      proof -
        have s: "stores h q \<noteq> None" using that(1) by (auto simp: cached_def bind_eq_None_conv split: bind_splits)
        then have "rval (A q) (rnodes h) j = w" using that(1) cached_rval [OF A(1), of q] by auto
        then show ?thesis using c2 [OF s] r(7) that(2) v0 by (cases "q = p") auto
      qed
    qed
    have cf: "cache_fresh h h2" unfolding cache_fresh_def
    proof (intro allI impI)
      fix q j w assume a: "cached h q j = Some NULL" "cached h2 q j = Some w" "w \<noteq> NULL"
      have s: "stores h q \<noteq> None" using a(1) by (auto simp: cached_def bind_eq_None_conv split: bind_splits)
      then have "rval (A q) (rnodes h) j = NULL" using a(1) cached_rval [OF A(1), of q] by auto
      then have "w = page_ptr g" using a(2,3) c2 [OF s] r(7) by (auto split: if_splits)
      then show "ptr_page w \<notin> allocated (hpm h)" using page(3) by simp
    qed
    have inv2: "pgc_inv R h2 news'" using put(1) iv r(5) by (auto simp: pgc_inv_def st2)
    have run: "pgcache_get_page fillpage h news p ofs = (if err = ERR_RADIX_TREE_ALLOC then do {
        pm' \<leftarrow> pmem_free (pm (vs (vmst h2))) (page_to_paddr g); Some (None, upd_vs (\<lambda>v. v\<lparr>pm := pm'\<rparr>) h2, news') }
      else if err = ERR_RADIX_TREE_NODE_EXIST then None else Some (Some g, h2, news'))"
      using p lk page(1) g(1) r(1) by (simp add: pgcache_get_page_def fillpage_def px h2_def h1_def v_def Let_def)
    have vm2: "vmst h2 = (vmst h)\<lparr>vs := v\<rparr>" by (simp add: h2_def h1_def set_store_def)
    have ff: "fresh_from ?s v" using page(3,5,9) by (auto simp: fresh_from_def v_def)
    consider "err = ERR_OK" | "err = ERR_RADIX_TREE_ALLOC" using r(7) v0 by auto
    then show ?thesis
    proof cases
      case 1
      then have "cached h2 p i = Some (page_ptr g)" using c2 [of p i] p r(7) by auto
      then have "got_page h h2 p i g" using page(3,7) by (simp add: got_page_def st2 v_def)
      moreover have "pgcache_get_page fillpage h news p ofs = Some (Some g, h2, news')" using run 1 by simp
      ultimately show ?thesis using inv2 grow vm2 r(6) ff cf page(5,8) by (intro exI [of _ "Some g"] exI [of _ h2] exI [of _ news']) (simp add: v_def)
    next
      case 2
      have "g \<in> allocated (pm v)" using page(5) by (simp add: v_def)
      from pmem_nfree_ok [OF vt_invD(1) [OF iv] this g(2), of 1] obtain m3 where
        m3: "pmem_free (pm v) (page_to_paddr g) = Some m3" "pmem_inv m3" "allocated m3 = allocated (pm v) - {g}"
          "n_pages m3 = n_pages (pm v)" "\<forall>i \<in> allocated (pm v) - {g}. pagemap m3 i = pagemap (pm v) i" by (auto simp: pmem_free_def)
      let ?v3 = "v\<lparr>pm := m3\<rparr>"
      let ?h3 = "upd_vs (\<lambda>v. v\<lparr>pm := m3\<rparr>) h2"
      have same: "i \<in> allocated m3 \<and> pagemap m3 i = pagemap (pm ?s) i" if "i \<in> allocated (pm ?s)" for i
        using that m3(3,5) page(3,5,9) by (auto simp: v_def)
      have t3: "tab ?v3 r q = tab ?s r q" for r q by (rule tab_same) (simp add: v_def)
      have "vt_inv R ?v3" by (rule vt_inv_grow [OF A(3)]) (use m3 page same vt_invD(3) [OF A(3)] in \<open>auto simp: v_def\<close>)
      moreover have "keeps_frames R ?s ?v3" unfolding keeps_frames_def t3 using same by simp
      moreover have "data_frame R ?s (ptr_page (rval a' nodes' j))" if "rval a' nodes' j \<noteq> NULL" for j
        using that r(7) 2 A(1) p by (auto simp: trees_ok_def)
      then have "trees_ok R (set_store p (m\<lparr>ms_cached := root'\<rparr>) (h\<lparr>rnodes := nodes'\<rparr>)) (A(p := a'))"
        by (rule trees_ok_put(1) [OF A(1,2) p r(2-4)])
      moreover have "upd_vs (\<lambda>_. ?v3) (set_store p (m\<lparr>ms_cached := root'\<rparr>) (h\<lparr>rnodes := nodes'\<rparr>)) = ?h3"
        by (simp add: h2_def h1_def set_store_def)
      ultimately have "pgc_inv R ?h3 news'"
        using trees_ok_vs [of R "set_store p (m\<lparr>ms_cached := root'\<rparr>) (h\<lparr>rnodes := nodes'\<rparr>)" "A(p := a')" ?v3] r(5)
        by (auto simp: pgc_inv_def set_store_def h2_def h1_def)
      moreover have "pgcache_get_page fillpage h news p ofs = Some (None, ?h3, news')" using run 2 m3(1) st2(3) by simp
      moreover have "fresh_from ?s ?v3" using same page(3) by (auto simp: fresh_from_def v_def)
      moreover have "alloc_failed news news'" using r(7) 2 by auto
      ultimately show ?thesis using grow cf vm2 r(6) m3(3,4) page(5,8)
        by (intro exI [of _ None] exI [of _ ?h3] exI [of _ news']) (simp add: v_def)
    qed
  qed
qed

lemma get_page_ok:
  assumes inv: "pgc_inv R h news" and p: "stores h p = Some m" and i: "i = unat (ofs div pg_size)" "i < 2 ^ 30"
  shows "\<exists>r h' news'. pgcache_get_page fillpage h news p ofs = Some (r, h', news') \<and> pgc_inv R h' news' \<and> cache_grows R h h'
    \<and> vmst h' = (vmst h)\<lparr>vs := vs (vmst h')\<rparr> \<and> ptes (vs (vmst h')) = ptes (vs (vmst h))
    \<and> fresh_from (vs (vmst h)) (vs (vmst h')) \<and> n_pages (hpm h') = n_pages (hpm h) \<and> set news' \<subseteq> set news
    \<and> allocated (hpm h') \<subseteq> allocated (hpm h) \<union> set_option r \<and> cache_fresh h h'
    \<and> (case r of Some pg \<Rightarrow> got_page h h' p i pg | None \<Rightarrow> free_pages (hpm h') = {} \<or> alloc_failed news news')"
proof -
  obtain A where A: "trees_ok R h A" using inv by (auto simp: pgc_inv_def)
  obtain w where w: "cached h p i = Some w" using cached_rval [OF A p] by simp
  show ?thesis
  proof (cases "w = NULL")
    case True
    then show ?thesis using get_page_miss [OF inv p i] w by blast
  next
    case False
    then have e: "cached h p i = Some (page_ptr (ptr_page w))" using w by (simp add: page_ptr_def ptr_page_def)
    then have "ptr_page w \<in> allocated (hpm h)"
      using cached_rval [OF A p] A p ptr_page_ptr unfolding trees_ok_def data_frame_def by (metis option.inject)
    then have "got_page h h p i (ptr_page w)" using e by (simp add: got_page_def)
    then show ?thesis using get_page_hit [OF p w False i, of fillpage news] inv
      by (intro exI [of _ "Some (ptr_page w)"] exI [of _ h] exI [of _ news]) auto
  qed
qed

text \<open>What any fault on a shared region keeps, and what one that maps frame \<open>g\<close> does to the reference counts.\<close>

definition shared_step :: "owner \<Rightarrow> shm \<Rightarrow> ptr list \<Rightarrow> shm \<Rightarrow> ptr list \<Rightarrow> bool" where
  "shared_step R h news h' news' \<longleftrightarrow> pgc_inv R h' news' \<and> cache_grows R h h' \<and> cache_fresh h h' \<and> set news' \<subseteq> set news
     \<and> keeps_frames R (vs (vmst h)) (vs (vmst h'))
     \<and> free_pages (hpm h') \<subseteq> free_pages (hpm h) \<and> allocated (hpm h) \<subseteq> allocated (hpm h')
     \<and> (\<forall>f \<in> allocated (hpm h). pgdata (vs (vmst h')) f = pgdata (vs (vmst h)) f)"

definition maps_frame :: "shm \<Rightarrow> ptr \<Rightarrow> nat \<Rightarrow> nat \<Rightarrow> bool" where
  "maps_frame h' p i g \<longleftrightarrow> cached h' p i = Some (page_ptr g) \<and> g \<in> allocated (hpm h')"

text \<open>Each frame has gained \<open>n\<close> references; the new ones that are not tables are zeroed and have one more, of the cache.\<close>

definition counted :: "owner \<Rightarrow> shm \<Rightarrow> shm \<Rightarrow> (nat \<Rightarrow> int) \<Rightarrow> bool" where
  "counted R h h' n \<longleftrightarrow> (\<forall>g \<in> allocated (hpm h). rc (hpm h') g = rc (hpm h) g + n g)
     \<and> (\<forall>g. g \<notin> allocated (hpm h) \<longrightarrow> data_frame R (vs (vmst h')) g \<longrightarrow>
          rc (hpm h') g = 1 + n g \<and> pgdata (vs (vmst h')) g = (\<lambda>_. 0))"

lemma shared_stepI:
  assumes "pgc_inv R h' news'" "cache_grows R h h'" "cache_fresh h h'" "set news' \<subseteq> set news" "n_pages (hpm h') = n_pages (hpm h)"
    "keeps_frames R (vs (vmst h)) (vs (vmst h'))"
    "\<And>f. f \<in> allocated (hpm h) \<Longrightarrow> f \<in> allocated (hpm h') \<and> od (hpm h') f = od (hpm h) f \<and> pgdata (vs (vmst h')) f = pgdata (vs (vmst h)) f"
  shows "shared_step R h news h' news'"
  using assms free_pages_anti [of "hpm h'" "hpm h"] unfolding shared_step_def by blast

lemma cache_fresh_trans:
  assumes inv: "pgc_inv R h1 news1" and g: "cache_grows R h h1" "cache_grows R h1 h2" and f: "cache_fresh h h1" "cache_fresh h1 h2"
    and a: "allocated (hpm h) \<subseteq> allocated (hpm h1)"
  shows "cache_fresh h h2"
  unfolding cache_fresh_def
proof (intro allI impI)
  fix q j w assume c: "cached h q j = Some NULL" "cached h2 q j = Some w" "w \<noteq> NULL"
  have "stores h q \<noteq> None" using c(1) by (auto simp: cached_def bind_eq_None_conv split: bind_splits)
  then have "stores h1 q \<noteq> None" using g(1) by (simp add: cache_grows_def)
  then obtain w1 where w1: "cached h1 q j = Some w1" using inv cached_rval unfolding pgc_inv_def by blast
  then show "ptr_page w \<notin> allocated (hpm h)"
    using c f g(2) a unfolding cache_fresh_def cache_grows_def by (cases "w1 = NULL") (blast, fastforce)
qed

lemma shared_step_trans:
  assumes 1: "shared_step R h news h1 news1" and 2: "shared_step R h1 news1 h2 news2"
  shows "shared_step R h news h2 news2"
  using assms cache_grows_trans [of R h h1 h2] cache_fresh_trans [of R h1 news1 h h2] keeps_frames_trans [of R "vs (vmst h)" "vs (vmst h1)" "vs (vmst h2)"]
  unfolding shared_step_def by (auto simp: subset_iff)

lemma counted_trans:
  assumes 1: "counted R h h1 n1" and 2: "counted R h1 h2 n2" and st: "shared_step R h1 news1 h2 news2"
    and a: "allocated (hpm h) \<subseteq> allocated (hpm h1)" and z: "\<And>g. g \<notin> allocated (hpm h1) \<Longrightarrow> n1 g = 0"
  shows "counted R h h2 (\<lambda>g. n1 g + n2 g)"
proof -
  have "rc (hpm h2) g = 1 + (n1 g + n2 g) \<and> pgdata (vs (vmst h2)) g = (\<lambda>_. 0)"
    if g: "g \<notin> allocated (hpm h)" "data_frame R (vs (vmst h2)) g" for g
  proof (cases "g \<in> allocated (hpm h1)")
    case True
    then have "data_frame R (vs (vmst h1)) g"
      using st g(2) unfolding shared_step_def keeps_frames_def data_frame_def by metis
    then show ?thesis using 1 2 g(1) True st unfolding counted_def shared_step_def by simp
  next
    case False
    then show ?thesis using 2 g(2) z by (simp add: counted_def)
  qed
  then show ?thesis using 1 2 a unfolding counted_def by auto
qed

lemma shared_region_ok:
  assumes inv: "pgc_inv R h news" and p: "stores h (mr_store mr) = Some m" and v: "PML4X v \<in> R r"
    and i: "i = unat ((v - mr_start mr) div pg_size)" "i < 2 ^ 30"
  shows "\<exists>err h' news'. handleSharedRegion h news mr (Some r) v = Some (err, h', news') \<and> shared_step R h news h' news'
    \<and> (\<forall>r' w. PML4X w \<in> R r' \<longrightarrow> r' \<noteq> r \<or> vkey w \<noteq> vkey v \<longrightarrow> pte (vs (vmst h')) r' w = pte (vs (vmst h)) r' w)
    \<and> (err = ERR_OK \<and> (\<exists>g. maps_frame h' (mr_store mr) i g \<and> pte (vs (vmst h')) r v = page_to_paddr g OR 7
         \<and> counted R h h' (\<lambda>f. of_bool (f = g)))
       \<or> err = ERR_FAULT \<and> pte (vs (vmst h')) r v = pte (vs (vmst h)) r v
         \<and> counted R h h' (\<lambda>_. 0) \<and> (free_pages (hpm h') = {} \<or> alloc_failed news news'))"
proof -
  let ?s = "vs (vmst h)"
  obtain x h1 news1 where 1: "pgcache_get_page fillpage h news (mr_store mr) (v - mr_start mr) = Some (x, h1, news1)" "pgc_inv R h1 news1"
    "cache_grows R h h1" "ptes (vs (vmst h1)) = ptes ?s" "fresh_from ?s (vs (vmst h1))" "n_pages (hpm h1) = n_pages (hpm h)" "set news1 \<subseteq> set news"
    "allocated (hpm h1) \<subseteq> allocated (hpm h) \<union> set_option x" "cache_fresh h h1"
    "case x of Some pg \<Rightarrow> got_page h h1 (mr_store mr) i pg | None \<Rightarrow> free_pages (hpm h1) = {} \<or> alloc_failed news news1"
    using get_page_ok [OF inv p i] by blast
  have pte1: "pte (vs (vmst h1)) r' w = pte ?s r' w" for r' w by (rule pte_same [OF 1(4)])
  have old1: "f \<in> allocated (hpm h1) \<and> pagemap (hpm h1) f = pagemap (hpm h) f \<and> pgdata (vs (vmst h1)) f = pgdata ?s f" if "f \<in> allocated (hpm h)" for f
    using 1(5) that by (auto simp: fresh_from_def)
  have k1: "keeps_frames R ?s (vs (vmst h1))" unfolding keeps_frames_def tab_same [OF 1(4)] using old1 by auto
  show ?thesis
  proof (cases x)
    case None
    have "shared_step R h news h1 news1" by (rule shared_stepI [OF 1(2,3,9,7,6) k1]) (use old1 in auto)
    moreover have "counted R h h1 (\<lambda>_. 0)" using old1 1(8) None by (auto simp: counted_def data_frame_def)
    ultimately show ?thesis using 1(1,10) None pte1 by (intro exI [of _ ERR_FAULT] exI [of _ h1] exI [of _ news1]) (simp add: handleSharedRegion_def)
  next
    case (Some g)
    obtain A where A: "trees_ok R h1 A" "fresh (rnodes h1) news1" "vt_inv R (vs (vmst h1))" using 1(2) by (auto simp: pgc_inv_def)
    have c: "cached h1 (mr_store mr) i = Some (page_ptr g)" "got_page h h1 (mr_store mr) i g" using 1(10) Some by (simp_all add: got_page_def)
    obtain m1 where m1: "stores h1 (mr_store mr) = Some m1" using 1(3) p by (cases "stores h1 (mr_store mr)") (auto simp: cache_grows_def)
    then have g: "data_frame R (vs (vmst h1)) g" using A(1) cached_rval [OF A(1) m1] c(1)
      unfolding trees_ok_def by (metis option.inject ptr_page_ptr)
    then have ga: "g \<in> allocated (hpm h1)" "g \<noteq> 0" "od (hpm h1) g = 0" by (auto simp: data_frame_def)
    note gl = frame_less [OF A(3) ga(1)]
    have nz: "page_to_paddr g \<noteq> 0" using gl(3) ga(2) by (auto simp: paddr_to_page_def)
    from vpmap_map_one [OF A(3) v, of "page_to_paddr g" MEMPERM_URW] obtain err s2 where
      r: "vpmap_map (vs (vmst h1)) (Some r) (pg_round_down v) (page_to_paddr g) 1 MEMPERM_URW = Some (err, s2)" "vt_inv R s2"
        "fresh_from (vs (vmst h1)) s2"
        "err = ERR_OK \<and> pte s2 r v = page_to_paddr g OR 7
         \<or> err = ERR_VPMAP_MAP \<and> (\<forall>k \<le> MAX_ORDER. freeblocks (pm s2) k = []) \<and> pte s2 r v = pte (vs (vmst h1)) r v"
        "\<forall>r' w. PML4X w \<in> R r' \<longrightarrow> r' \<noteq> r \<or> vkey w \<noteq> vkey v \<longrightarrow> pte s2 r' w = pte (vs (vmst h1)) r' w"
        "\<forall>r' p t. owned R r' p \<longrightarrow> tab s2 r' p = Some t \<longrightarrow> tab (vs (vmst h1)) r' p = Some t \<or> t \<notin> allocated (hpm h1)"
        "\<forall>r' p t. owned R r' p \<longrightarrow> tab (vs (vmst h1)) r' p = Some t \<longrightarrow> tab s2 r' p = Some t" "n_pages (pm s2) = n_pages (hpm h1)"
        "\<forall>i \<in> allocated (pm s2) - allocated (hpm h1). \<exists>r' p. owned R r' p \<and> tab s2 r' p = Some i"
      unfolding PPN_page [OF gl(1)] or.assoc URW_flags by blast
    have k2: "keeps_frames R (vs (vmst h1)) s2" using r(3,6,7) by (auto simp: keeps_frames_def fresh_from_def)
    have old2: "f \<in> allocated (pm s2) \<and> pagemap (pm s2) f = pagemap (hpm h1) f \<and> pgdata s2 f = pgdata (vs (vmst h1)) f" if "f \<in> allocated (hpm h1)" for f
      using r(3) that by (auto simp: fresh_from_def)
    note k = keeps_frames_trans [OF k1 k2]
    have new: "f = g" "rc (pm s2) f = 1" "pgdata s2 f = (\<lambda>_. 0)"
      if "f \<notin> allocated (hpm h)" "data_frame R s2 f" for f
    proof -
      have "f \<in> allocated (hpm h1)" using that(2) r(9) by (auto simp: data_frame_def)
      then show "f = g" using 1(8) Some that(1) by auto
      then show "rc (pm s2) f = 1" "pgdata s2 f = (\<lambda>_. 0)" using c(2) old2 [OF ga(1)] that(1) by (simp_all add: got_page_def)
    qed
    show ?thesis
    proof (cases "err = ERR_OK")
      case False
      let ?h = "upd_vs (\<lambda>_. s2) h1"
      have "handleSharedRegion h news mr (Some r) v = Some (ERR_FAULT, ?h, news1)"
        using 1(1) Some nz r(1) False by (simp add: handleSharedRegion_def)
      moreover have "pgc_inv R ?h news1" using trees_ok_vs [OF A(1) k2] A(2) r(2) by (auto simp: pgc_inv_def)
      then have "shared_step R h news ?h news1" by (rule shared_stepI) (use 1(3,6,7,9) r(8) old1 old2 k in auto)
      moreover have "counted R h ?h (\<lambda>_. 0)" using new old1 old2 by (auto simp: counted_def)
      moreover have "free_pages (pm s2) = {}" using no_free_pages [OF vt_invD(1) [OF r(2)]] r(4) False by simp
      ultimately show ?thesis using False r(4,5) pte1 by (intro exI [of _ ERR_FAULT] exI [of _ ?h] exI [of _ news1]) simp
    next
      case True
      have g2: "g \<in> allocated (pm s2)" "od (pm s2) g = 0" using k2 ga by (auto simp: keeps_frames_def)
      from pmem_inc_refcnt_ok [OF vt_invD(1) [OF r(2)] this gl(3), of 1] obtain m' where
        m': "pmem_inc_refcnt (pm s2) (page_to_paddr g) 1 = Some m'" "pmem_inv m'" "allocated m' = allocated (pm s2)"
          "\<forall>i. i \<noteq> g \<longrightarrow> pagemap m' i = pagemap (pm s2) i" "od m' g = 0" "rc m' g = rc (pm s2) g + 1" by auto
      have n: "n_pages m' = n_pages (pm s2)" using m'(1) by (auto simp: pmem_inc_refcnt_def Let_def split: if_splits)
      let ?s2 = "s2\<lparr>pm := m'\<rparr>"
      let ?h = "upd_vs (\<lambda>_. ?s2) h1"
      have run: "handleSharedRegion h news mr (Some r) v = Some (ERR_OK, ?h, news1)"
        using 1(1) Some nz r(1) True m'(1) by (simp add: handleSharedRegion_def)
      have od: "od m' j = od (pm s2) j" for j using m'(4,5) g2(2) by (cases "j = g") auto
      have tb: "tab ?s2 r' q = tab s2 r' q" for r' q by (rule tab_same) simp
      have "keeps_frames R s2 ?s2" unfolding keeps_frames_def tb using m'(3) od by simp
      then have k3: "keeps_frames R (vs (vmst h1)) ?s2" "keeps_frames R ?s ?s2" using keeps_frames_trans k2 k by blast+
      have "vt_inv R ?s2" by (rule vt_inv_grow [OF r(2)]) (use m' n vt_invD(3) [OF r(2)] in auto)
      then have "pgc_inv R ?h news1" using trees_ok_vs [OF A(1) k3(1)] A(2) by (auto simp: pgc_inv_def)
      then have st: "shared_step R h news ?h news1" by (rule shared_stepI) (use 1(3,6,7,9) r(8) n od old1 old2 m'(3) k3 in auto)
      have rc: "rc m' f = rc (pm s2) f + of_bool (f = g)" for f using m'(4,6) by (cases "f = g") auto
      have "maps_frame ?h (mr_store mr) i g"
        using c old2 ga(1) m'(3) by (simp add: maps_frame_def got_page_def)
      moreover have "data_frame R s2 f" if "data_frame R ?s2 f" for f using that m'(3) od unfolding data_frame_def tb by simp
      then have "counted R h ?h (\<lambda>f. of_bool (f = g))" using new old1 old2 by (auto simp: counted_def rc)
      moreover have "pte ?s2 r' w = pte s2 r' w" for r' w by (rule pte_same) simp
      ultimately show ?thesis using run st True r(4,5) pte1
        by (intro exI [of _ ERR_OK] exI [of _ ?h] exI [of _ news1]) auto
    qed
  qed
qed

text \<open>Faults one after another: each is the region, the root of the address space it belongs to and the address.\<close>

fun shared_faults :: "shm \<Rightarrow> ptr list \<Rightarrow> (memregion \<times> nat \<times> vaddr_t) list \<Rightarrow> (err_t list \<times> shm \<times> ptr list) exec" where
  "shared_faults h news [] = Some ([], h, news)"
| "shared_faults h news ((mr, r, v) # fs) = do {
     (err, h, news) \<leftarrow> handleSharedRegion h news mr (Some r) v;
     (errs, h, news) \<leftarrow> shared_faults h news fs;
     Some (err # errs, h, news) }"

definition fault_page :: "memregion \<Rightarrow> vaddr_t \<Rightarrow> nat" where
  "fault_page mr v = unat ((v - mr_start mr) div pg_size)"

text \<open>The faults that were served with frame \<open>g\<close>.\<close>

definition served :: "shm \<Rightarrow> nat \<Rightarrow> (memregion \<times> nat \<times> vaddr_t) \<times> err_t \<Rightarrow> bool" where
  "served h' g = (\<lambda>((mr, r, v), err). err = ERR_OK \<and> cached h' (mr_store mr) (fault_page mr v) = Some (page_ptr g))"

definition nserved :: "shm \<Rightarrow> nat \<Rightarrow> ((memregion \<times> nat \<times> vaddr_t) \<times> err_t) list \<Rightarrow> int" where
  "nserved h' g rs = int (length (filter (served h' g) rs))"

lemma nserved_simps [simp]:
  "nserved h' g [] = 0" "nserved h' g (x # rs) = of_bool (served h' g x) + nserved h' g rs"
  by (simp_all add: nserved_def)

lemma nserved_ge: "0 \<le> nserved h' g rs"
  by (simp add: nserved_def)

definition faults_ready :: "owner \<Rightarrow> shm \<Rightarrow> (memregion \<times> nat \<times> vaddr_t) list \<Rightarrow> bool" where
  "faults_ready R h fs \<longleftrightarrow>
     (\<forall>(mr, r, v) \<in> set fs. stores h (mr_store mr) \<noteq> None \<and> PML4X v \<in> R r \<and> fault_page mr v < 2 ^ 30)"

text \<open>Every address ends up mapped to the frame the cache holds for a fault on it that succeeded, or as it was.\<close>

definition mapped_by :: "shm \<Rightarrow> ((memregion \<times> nat \<times> vaddr_t) \<times> err_t) list \<Rightarrow> nat \<Rightarrow> vaddr_t \<Rightarrow> bool" where
  "mapped_by h' rs r w \<longleftrightarrow>
     (\<exists>mr v g. ((mr, r, v), ERR_OK) \<in> set rs \<and> vkey v = vkey w \<and> cached h' (mr_store mr) (fault_page mr v) = Some (page_ptr g)
        \<and> pte (vs (vmst h')) r w = page_to_paddr g OR 7)"

definition untouched :: "((memregion \<times> nat \<times> vaddr_t) \<times> err_t) list \<Rightarrow> nat \<Rightarrow> vaddr_t \<Rightarrow> bool" where
  "untouched rs r w \<longleftrightarrow> (\<forall>mr v. ((mr, r, v), ERR_OK) \<in> set rs \<longrightarrow> vkey v \<noteq> vkey w)"

lemma page_ptr_eq [simp]: "page_ptr g = page_ptr g' \<longleftrightarrow> g = g'"
  by (simp add: page_ptr_def)

lemma served_first:
  assumes "cached h' (mr_store mr) (fault_page mr v) = Some (page_ptr g)"
  shows "served h' f ((mr, r, v), err) \<longleftrightarrow> err = ERR_OK \<and> f = g"
  using assms by (auto simp: served_def)

text \<open>One fault followed by others.\<close>

definition fault_done :: "owner \<Rightarrow> shm \<Rightarrow> ptr list \<Rightarrow> memregion \<Rightarrow> nat \<Rightarrow> vaddr_t \<Rightarrow> err_t \<Rightarrow> shm \<Rightarrow> ptr list \<Rightarrow> bool" where
  "fault_done R h news mr r v err h' news' \<longleftrightarrow> shared_step R h news h' news'
    \<and> (\<forall>r' w. PML4X w \<in> R r' \<longrightarrow> r' \<noteq> r \<or> vkey w \<noteq> vkey v \<longrightarrow> pte (vs (vmst h')) r' w = pte (vs (vmst h)) r' w)
    \<and> (err = ERR_OK \<and> (\<exists>g. maps_frame h' (mr_store mr) (fault_page mr v) g \<and> pte (vs (vmst h')) r v = page_to_paddr g OR 7
         \<and> counted R h h' (\<lambda>f. of_bool (f = g)))
       \<or> err = ERR_FAULT \<and> pte (vs (vmst h')) r v = pte (vs (vmst h)) r v
         \<and> counted R h h' (\<lambda>_. 0) \<and> (free_pages (hpm h') = {} \<or> alloc_failed news news'))"

lemma shared_fault_done:
  assumes "pgc_inv R h news" "stores h (mr_store mr) \<noteq> None" "PML4X v \<in> R r" "fault_page mr v < 2 ^ 30"
  shows "\<exists>err h' news'. handleSharedRegion h news mr (Some r) v = Some (err, h', news') \<and> fault_done R h news mr r v err h' news'"
proof -
  obtain m where "stores h (mr_store mr) = Some m" using assms(2) by auto
  from shared_region_ok [OF assms(1) this assms(3) fault_page_def assms(4)] show ?thesis unfolding fault_done_def .
qed

lemma keeps_cached:
  assumes "maps_frame h1 p i g" "shared_step R h1 news1 h' news'"
  shows "cached h' p i = Some (page_ptr g)"
  using assms ptr_page_ptr(2) unfolding shared_step_def cache_grows_def maps_frame_def by blast

lemma fault_counted:
  assumes f: "fault_done R h news mr r v err h1 news1" and st: "shared_step R h1 news1 h' news'"
    and c: "counted R h1 h' (\<lambda>g. nserved h' g rs)"
  shows "counted R h h' (\<lambda>g. nserved h' g (((mr, r, v), err) # rs))"
proof -
  have up: "allocated (hpm h) \<subseteq> allocated (hpm h1)" using f by (simp add: fault_done_def shared_step_def)
  have "counted R h h1 (\<lambda>g. of_bool (served h' g ((mr, r, v), err)))
    \<and> (\<forall>g. g \<notin> allocated (hpm h1) \<longrightarrow> \<not> served h' g ((mr, r, v), err))"
  proof (cases "err = ERR_OK")
    case True
    then obtain g where g: "maps_frame h1 (mr_store mr) (fault_page mr v) g" "counted R h h1 (\<lambda>f. of_bool (f = g))"
      using f by (auto simp: fault_done_def)
    have "served h' f ((mr, r, v), err) \<longleftrightarrow> f = g" for f using True by (simp add: served_first [OF keeps_cached [OF g(1) st]])
    then show ?thesis using g by (auto simp: maps_frame_def)
  next
    case False
    then show ?thesis using f by (simp add: served_def fault_done_def)
  qed
  then have "counted R h h' (\<lambda>g. of_bool (served h' g ((mr, r, v), err)) + nserved h' g rs)"
    by (intro counted_trans [OF _ c st up]) auto
  then show ?thesis by simp
qed

lemma fault_mapped:
  assumes f: "fault_done R h news mr r v err h1 news1" and st: "shared_step R h1 news1 h' news'" and w: "PML4X w \<in> R q"
    and rest: "mapped_by h' rs q w \<or> untouched rs q w \<and> pte (vs (vmst h')) q w = pte (vs (vmst h1)) q w"
  shows "mapped_by h' (((mr, r, v), err) # rs) q w
    \<or> untouched (((mr, r, v), err) # rs) q w \<and> pte (vs (vmst h')) q w = pte (vs (vmst h)) q w"
proof (cases "mapped_by h' rs q w")
  case True
  then show ?thesis unfolding mapped_by_def by (meson list.set_intros(2))
next
  case False
  then have u: "untouched rs q w" "pte (vs (vmst h')) q w = pte (vs (vmst h1)) q w" using rest by blast+
  show ?thesis
  proof (cases "q = r \<and> vkey w = vkey v \<and> err = ERR_OK")
    case True
    then obtain g where g: "maps_frame h1 (mr_store mr) (fault_page mr v) g" "pte (vs (vmst h1)) r v = page_to_paddr g OR 7"
      using f by (auto simp: fault_done_def)
    then have "pte (vs (vmst h')) q w = page_to_paddr g OR 7" using u(2) True pte_cong [of w v] by simp
    then have "mapped_by h' (((mr, r, v), err) # rs) q w" unfolding mapped_by_def
      by (intro exI [of _ mr] exI [of _ v] exI [of _ g]) (use True keeps_cached [OF g(1) st] in simp)
    then show ?thesis ..
  next
    case False
    then have "untouched (((mr, r, v), err) # rs) q w" using u(1) by (auto simp: untouched_def)
    moreover have "pte (vs (vmst h1)) q w = pte (vs (vmst h)) q w"
      using False f w pte_cong [of w v] unfolding fault_done_def by (cases "q = r \<and> vkey w = vkey v") auto
    ultimately show ?thesis using u(2) by simp
  qed
qed

lemma cached_store: "cached h p i = Some w \<Longrightarrow> stores h p \<noteq> None"
  by (auto simp: cached_def split: bind_splits)

lemma cached_data:
  assumes "pgc_inv R h news" "cached h p i = Some (page_ptr g)"
  shows "data_frame R (vs (vmst h)) g"
proof -
  obtain A m where A: "trees_ok R h A" "stores h p = Some m" using assms cached_store [OF assms(2)] by (auto simp: pgc_inv_def)
  then have "rval (A p) (rnodes h) i = page_ptr g" using cached_rval [OF A] assms(2) by simp
  then show ?thesis using A ptr_page_ptr unfolding trees_ok_def by metis
qed

lemma cached_frame_counts:
  assumes inv: "pgc_inv R h news" and st: "shared_step R h news h' news'" and cnt: "counted R h h' n"
    and p: "stores h p \<noteq> None" and g: "cached h' p i = Some (page_ptr g)"
  shows "if cached h p i = Some NULL then g \<notin> allocated (hpm h) \<and> rc (hpm h') g = 1 + n g \<and> pgdata (vs (vmst h')) g = (\<lambda>_. 0)
    else cached h p i = Some (page_ptr g) \<and> rc (hpm h') g = rc (hpm h) g + n g"
proof -
  obtain w where w: "cached h p i = Some w" using inv cached_rval p unfolding pgc_inv_def by blast
  show ?thesis
  proof (cases "w = NULL")
    case True
    then have "g \<notin> allocated (hpm h)" using st w g ptr_page_ptr unfolding shared_step_def cache_fresh_def by metis
    moreover have "data_frame R (vs (vmst h')) g" using cached_data [OF _ g] st by (auto simp: shared_step_def)
    ultimately show ?thesis using cnt w True by (simp add: counted_def)
  next
    case False
    then have "w = page_ptr g" using st w g unfolding shared_step_def cache_grows_def by fastforce
    moreover have "g \<in> allocated (hpm h)" using cached_data [OF inv] w calculation by (auto simp: data_frame_def)
    ultimately show ?thesis using cnt w False by (simp add: counted_def)
  qed
qed

lemma faults_ready_step: "faults_ready R h fs \<Longrightarrow> shared_step R h news h1 news1 \<Longrightarrow> faults_ready R h1 fs"
  unfolding faults_ready_def shared_step_def cache_grows_def by blast

lemma faults_ok:
  assumes "pgc_inv R h news" "faults_ready R h fs"
  shows "\<exists>errs h' news'. shared_faults h news fs = Some (errs, h', news') \<and> length errs = length fs \<and> shared_step R h news h' news'
    \<and> counted R h h' (\<lambda>g. nserved h' g (zip fs errs))
    \<and> (\<forall>r w. PML4X w \<in> R r \<longrightarrow> mapped_by h' (zip fs errs) r w
         \<or> untouched (zip fs errs) r w \<and> pte (vs (vmst h')) r w = pte (vs (vmst h)) r w)
    \<and> (\<forall>err \<in> set errs. err = ERR_OK \<or> err = ERR_FAULT \<and> (free_pages (hpm h') = {} \<or> alloc_failed news news'))"
  using assms
proof (induction fs arbitrary: h news)
  case Nil
  then show ?case by (simp add: shared_step_def counted_def untouched_def data_frame_def)
next
  case (Cons x fs)
  obtain mr r v where x: "x = (mr, r, v)" by (cases x)
  have rd: "stores h (mr_store mr) \<noteq> None" "PML4X v \<in> R r" "fault_page mr v < 2 ^ 30" "faults_ready R h fs"
    using Cons.prems(2) by (auto simp: faults_ready_def x)
  obtain err h1 news1 where 1: "handleSharedRegion h news mr (Some r) v = Some (err, h1, news1)" "fault_done R h news mr r v err h1 news1"
    using shared_fault_done [OF Cons.prems(1) rd(1-3)] by blast
  have s1: "shared_step R h news h1 news1" using 1(2) by (simp add: fault_done_def)
  then have "pgc_inv R h1 news1" "faults_ready R h1 fs"
    using faults_ready_step [OF rd(4)] by (simp_all add: shared_step_def)
  from Cons.IH [OF this] obtain errs h' news' where
    2: "shared_faults h1 news1 fs = Some (errs, h', news')" "length errs = length fs" "shared_step R h1 news1 h' news'"
      "counted R h1 h' (\<lambda>g. nserved h' g (zip fs errs))"
      "\<forall>r w. PML4X w \<in> R r \<longrightarrow> mapped_by h' (zip fs errs) r w
         \<or> untouched (zip fs errs) r w \<and> pte (vs (vmst h')) r w = pte (vs (vmst h1)) r w"
      "\<forall>err \<in> set errs. err = ERR_OK \<or> err = ERR_FAULT \<and> (free_pages (hpm h') = {} \<or> alloc_failed news1 news')"
    by blast
  have up: "free_pages (hpm h') \<subseteq> free_pages (hpm h1)" "set news1 \<subseteq> set news" "set news' \<subseteq> set news1"
    using s1 2(3) by (simp_all add: shared_step_def)
  have "err = ERR_OK \<or> err = ERR_FAULT \<and> (free_pages (hpm h1) = {} \<or> alloc_failed news news1)" using 1(2) by (auto simp: fault_done_def)
  then have "\<forall>e \<in> set (err # errs). e = ERR_OK \<or> e = ERR_FAULT \<and> (free_pages (hpm h') = {} \<or> alloc_failed news news')"
    using 2(6) up by (auto simp: alloc_failed_def)
  moreover have "shared_faults h news (x # fs) = Some (err # errs, h', news')" using 1(1) 2(1) by (simp add: x)
  moreover have "zip (x # fs) (err # errs) = ((mr, r, v), err) # zip fs errs" "length (err # errs) = length (x # fs)" using 2(2) by (simp_all add: x)
  ultimately show ?case using shared_step_trans [OF s1 2(3)] fault_counted [OF 1(2) 2(3,4)] fault_mapped [OF 1(2) 2(3)] 2(5)
    by (intro exI [of _ "err # errs"] exI [of _ h'] exI [of _ news']) metis
qed

lemma shared_hit:
  assumes inv: "pgc_inv R h news" and c: "cached h (mr_store mr) (fault_page mr v) = Some (page_ptr g)" "fault_page mr v < 2 ^ 30"
    and t: "tab (vs (vmst h)) r (vpath v) = Some t"
  shows "\<exists>h'. handleSharedRegion h news mr (Some r) v = Some (ERR_OK, h', news)"
proof -
  obtain m where "stores h (mr_store mr) = Some m" using cached_store [OF c(1)] by auto
  from get_page_hit [OF this c(1) ptr_page_ptr(2) fault_page_def c(2)]
  have p: "pgcache_get_page fillpage h news (mr_store mr) (v - mr_start mr) = Some (Some g, h, news)" by simp
  have i: "vt_inv R (vs (vmst h))" using inv by (simp add: pgc_inv_def)
  have g: "g \<in> allocated (hpm h)" "od (hpm h) g = 0" "g \<noteq> 0" using cached_data [OF inv c(1)] by (auto simp: data_frame_def)
  note gl = frame_less [OF i g(1)]
  have nz: "page_to_paddr g \<noteq> 0" using gl(3) g(3) by (auto simp: paddr_to_page_def)
  have "pm (set_pte a b e (vs (vmst h))) = hpm h" for a b e by (simp add: set_pte_def)
  moreover obtain m' where "pmem_inc_refcnt (hpm h) (page_to_paddr g) 1 = Some m'"
    using pmem_inc_refcnt_ok [OF vt_invD(1) [OF i] g(1,2) gl(3), of 1] by blast
  ultimately show ?thesis using p nz vpmap_map_present [OF t] by (simp add: handleSharedRegion_def)
qed

section \<open>A small instance\<close>

text \<open>The small page tables of \<open>Vpmap\<close> with frame 5 shared by two mappings and a free page 8.\<close>

definition cow_pmem :: pmem where
  "cow_pmem = full_pmem\<lparr>pagemap := (\<lambda>i. zero_page\<lparr>refcnt := (if i = 5 then 2 else if i = 8 then 0 else 1)\<rparr>), n_pages := 9,
     freeblocks := (\<lambda>ord. if ord = 0 then [8] else [])\<rparr>"

definition cow_vps :: vps where
  "cow_vps = small_vps\<lparr>pm := cow_pmem\<rparr>"

lemma cow_pmem_inv: "pmem_inv cow_pmem" "allocated cow_pmem = {0..<8}"
proof -
  have o: "od cow_pmem i = 0" "rc cow_pmem i = (if i = 5 then 2 else if i = 8 then 0 else 1)" "n_pages cow_pmem = 9"
    "freeblocks cow_pmem ord = (if ord = 0 then [8] else [])" for i ord
    by (simp_all add: cow_pmem_def zero_page_def)
  have f: "freed cow_pmem = {8}" unfolding freed_def o by auto
  show a: "allocated cow_pmem = {0..<8}" unfolding allocated_def o by auto
  have u: "{0..<8} \<union> {8} = {0..<9 :: nat}" by auto
  have "binv cow_pmem {} {0..<9}" unfolding binv_def a f Un_empty_right u pages_of_def by (auto simp: o)
  then show "pmem_inv cow_pmem" using a o by (simp add: pmem_inv_def) (simp add: cow_pmem_def full_pmem_def)
qed

lemma cow_free: "8 \<in> free_pages cow_pmem"
  unfolding free_pages_def pages_of_def cow_pmem_inv(2) by (simp add: cow_pmem_def zero_page_def blk_def)

lemma cow_vt_inv: "vt_inv small_owner cow_vps"
  unfolding cow_vps_def
proof (rule vt_inv_pm [OF small_vt_inv])
  show "allocated (pm small_vps) \<subseteq> allocated cow_pmem" using cow_pmem_inv(2) full_pmem_inv(2) by (simp add: small_vps_def)
qed (use cow_pmem_inv in \<open>auto simp: cow_pmem_def\<close>)

lemma cow_same: "tab cow_vps r p = tab small_vps r p" "pte cow_vps r v = pte small_vps r v"
  by (rule tab_same, simp add: cow_vps_def) (rule pte_same, simp add: cow_vps_def)

lemma small_pte:
  assumes "vpath v = [0, 0, 0]"
  shows "pte small_vps 1 v = ptes small_vps 4 (PTX v)" "tab small_vps 1 (vpath v) = Some 4" "PML4X v \<in> small_owner 1"
proof -
  show t: "tab small_vps 1 (vpath v) = Some 4" using assms by (simp add: small_child)
  then show "pte small_vps 1 v = ptes small_vps 4 (PTX v)" by (simp add: pte_def leaf_def)
  show "PML4X v \<in> small_owner 1" using assms by (simp add: small_owner_def vpath_def)
qed

lemma small_data_frame:
  assumes "f \<in> {5, 6, 7}"
  shows "data_frame small_owner cow_vps f"
proof -
  have "tab small_vps r p \<noteq> Some f" if "owned small_owner r p" for r p
    using small_tab [of p f] that assms by (auto simp: owned_def small_owner_def split: if_splits)
  then show ?thesis using assms cow_pmem_inv(2) unfolding data_frame_def cow_same by (auto simp: cow_vps_def cow_pmem_def zero_page_def)
qed

section \<open>Properties\<close>

text \<open>C7. Copy on write always returns.  On success the faulting page is mapped writable to a frame that only this
  mapping refers to and that holds the bytes of the old frame; if the old frame was shared, the new one is fresh, the
  old one keeps its bytes and loses one reference.  It fails only when physical memory is exhausted and
  then changes nothing.  No other translation of any address space changes.\<close>

theorem handleCOW_private:
  assumes inv: "vt_inv R s" and v: "PML4X v \<in> R r" "present (pte s r v)" and cur: "cr3 s = r"
    and f: "data_frame R s (frame (pte s r v))"
  shows "handleCOW s c (Some r) v = Some (ERR_FAULT, s) \<and> (\<forall>k \<le> MAX_ORDER. freeblocks (pm s) k = [])
    \<or> (\<exists>s' g. handleCOW s c (Some r) v = Some (ERR_OK, s') \<and> vt_inv R s'
         \<and> pte s' r v = page_to_paddr g OR PTE_P OR PTE_W OR PTE_U \<and> rc (pm s') g = 1
         \<and> pgdata s' g = pgdata s (frame (pte s r v))
         \<and> (if rc (pm s) (frame (pte s r v)) = 1 then g = frame (pte s r v)
            else g \<notin> allocated (pm s) \<and> pgdata s' (frame (pte s r v)) = pgdata s (frame (pte s r v))
              \<and> rc (pm s') (frame (pte s r v)) = rc (pm s) (frame (pte s r v)) - 1)
         \<and> (\<forall>r' w. PML4X w \<in> R r' \<longrightarrow> r' \<noteq> r \<or> vkey w \<noteq> vkey v \<longrightarrow> pte s' r' w = pte s r' w))"
proof -
  have fl: "PTE_P OR PTE_W OR PTE_U = 7" by simp
  show ?thesis
  proof (cases "rc (pm s) (frame (pte s r v)) = 1")
    case True
    from handleCOW_last [OF inv v f True, of c] obtain s' where
      "handleCOW s c (Some r) v = Some (ERR_OK, s')" "cow_spec R r v s s' (frame (pte s r v))" by blast
    then show ?thesis using True unfolding cow_spec_def or.assoc fl by auto
  next
    case False
    from handleCOW_shared [OF inv v cur f False, of c] show ?thesis using False unfolding cow_spec_def or.assoc fl by auto
  qed
qed

lemma handleCOW_private_witness:
  "\<exists>s' g. handleCOW cow_vps 1 (Some 1) 0x3008 = Some (ERR_OK, s') \<and> g \<notin> allocated (pm cow_vps)
    \<and> pte s' 1 0x3008 = page_to_paddr g OR PTE_P OR PTE_W OR PTE_U \<and> rc (pm s') 5 = 1"
proof -
  have i: "vpath 0x3008 = [0, 0, 0]" "PTX 0x3008 = 3"
    by (simp_all add: vpath_def PML4X_def PDPTX_def PDX_def PTX_def ENTRY_IDX_eq)
  have e: "pte cow_vps 1 0x3008 = page_to_paddr 5 OR 7" unfolding cow_same small_pte(1) [OF i(1)] i(2) by (simp add: small_vps_def)
  have f: "frame (pte cow_vps 1 0x3008) = 5" unfolding e by (rule frame_page) (simp_all add: table_flags)
  have p: "present (pte cow_vps 1 0x3008)" "cr3 cow_vps = 1" unfolding e by (simp_all add: table_flags cow_vps_def small_vps_def)
  have "freeblocks (pm cow_vps) 0 \<noteq> []" "rc (pm cow_vps) 5 = 2" by (simp_all add: cow_vps_def cow_pmem_def)
  then show ?thesis
    using handleCOW_private [OF cow_vt_inv small_pte(3) [OF i(1)] p, of 1] small_data_frame [of 5] unfolding f by force
qed

text \<open>C31. A user fault on a page of the heap or of the stack that is not a write to a present page either maps a
  fresh page, zeroed and writable, at the faulting address and resumes, or kills the process with no
  translation changed.  It kills only when physical memory is exhausted: at most one page of the machine, the one given
  back, is free afterwards, and if the page table exists none is and nothing at all has changed.  The fault is counted.
  No other translation and no allocated page of any address space changes, and apart from the mapped page the handler
  keeps nothing but new page tables.\<close>

theorem demand_fault_zeroed:
  fixes h :: shm
  defines "s \<equiv> vs (vmst h)"
  assumes inv: "vt_inv R s" and v: "PML4X v \<in> R r"
    and a: "spaces (vmst h) (cur_as (vmst h)) = Some a" "as_vpmap a = Some r" "cur_as (vmst h) \<noteq> NULL"
    and mr: "as_find_memregion (vmst h) (cur_as (vmst h)) v 1 = Some n" "n \<noteq> NULL" "regs (vmst h) n = Some mr"
      "mr_as mr = cur_as (vmst h)" "\<not> mr_shared mr" "n = as_heap a \<or> mr_end mr = USTACK_UPPERBOUND"
    and acc: "\<not> (pres \<and> write)"
  shows "\<exists>out. handle_page_fault c h news v pres write True = Some (c + 1, out)
    \<and> (\<exists>s'. vt_inv R s'
         \<and> (\<forall>i \<in> allocated (pm s). i \<in> allocated (pm s') \<and> pagemap (pm s') i = pagemap (pm s) i \<and> pgdata s' i = pgdata s i)
         \<and> (\<forall>r' w. PML4X w \<in> R r' \<longrightarrow> r' \<noteq> r \<or> vkey w \<noteq> vkey v \<longrightarrow> pte s' r' w = pte s r' w)
         \<and> (out = Resumed (upd_vs (\<lambda>_. s') h) news
              \<and> (\<exists>g. pte s' r v = page_to_paddr g OR PTE_P OR PTE_W OR PTE_U \<and> g \<notin> allocated (pm s) \<and> rc (pm s') g = 1
                   \<and> pgdata s' g = (\<lambda>_. 0) \<and> only_tables R {g} s s')
            \<or> out = Killed (upd_vs (\<lambda>_. s') h) news \<and> pte s' r v = pte s r v \<and> only_tables R {} s s'
              \<and> card (free_pages (pm s')) \<le> 1 \<and> (tab s r (vpath v) \<noteq> None \<longrightarrow> s' = s \<and> free_pages (pm s) = {})))"
proof -
  have fl: "PTE_P OR PTE_W OR PTE_U = 7" by simp
  from setup_page_ok [OF inv v] obtain err s' where
    r: "setup_page s (Some r) v = Some (err, s')" "vt_inv R s'"
      "\<forall>r' w. PML4X w \<in> R r' \<longrightarrow> r' \<noteq> r \<or> vkey w \<noteq> vkey v \<longrightarrow> pte s' r' w = pte s r' w"
      "\<forall>i \<in> allocated (pm s). i \<in> allocated (pm s') \<and> pagemap (pm s') i = pagemap (pm s) i \<and> pgdata s' i = pgdata s i"
      "err = ERR_OK \<and> (\<exists>g. pte s' r v = page_to_paddr g OR 7 \<and> g \<notin> allocated (pm s) \<and> rc (pm s') g = 1
         \<and> pgdata s' g = (\<lambda>_. 0) \<and> only_tables R {g} s s')
       \<or> err = ERR_NOMEM \<and> pte s' r v = pte s r v \<and> only_tables R {} s s' \<and> card (free_pages (pm s')) \<le> 1
         \<and> (tab s r (vpath v) \<noteq> None \<longrightarrow> s' = s \<and> free_pages (pm s) = {})" by blast
  have run: "handle_page_fault c h news v pres write True =
    Some (c + 1, (if err \<noteq> ERR_OK then Killed else Resumed) (upd_vs (\<lambda>_. s') h) news)"
    using a mr acc r(1) by (auto simp: handle_page_fault_def cur_pml4_def demand_page_def s_def)
  show ?thesis unfolding run or.assoc fl using r(2-5)
    by (intro exI [of _ "(if err \<noteq> ERR_OK then Killed else Resumed) (upd_vs (\<lambda>_. s') h) news"] conjI refl exI [of _ s'] r(2-4)) auto
qed

definition fault_shm :: shm where
  "fault_shm = small_shm\<lparr>vmst := small_vm\<lparr>vs := cow_vps\<rparr>\<rparr>"

lemma demand_fault_zeroed_witness:
  "\<exists>s' g. handle_page_fault 0 fault_shm [] 0x2010 False True True = Some (1, Resumed (upd_vs (\<lambda>_. s') fault_shm) [])
    \<and> pte s' 1 0x2010 = page_to_paddr g OR PTE_P OR PTE_W OR PTE_U \<and> pgdata s' g = (\<lambda>_. 0)"
proof -
  have i: "vpath 0x2010 = [0, 0, 0]" by (simp add: vpath_def PML4X_def PDPTX_def PDX_def ENTRY_IDX_eq)
  let ?a = "\<lparr>as_regions = [10, 11], as_vpmap = Some 1, as_heap = 10\<rparr>"
  have m: "vs (vmst fault_shm) = cow_vps" "cur_as (vmst fault_shm) = 100" "spaces (vmst fault_shm) 100 = Some ?a"
    "regs (vmst fault_shm) 10 = Some (small_region 0x1000 0x3000)"
    by (simp_all add: fault_shm_def small_shm_def small_vm_def)
  have n: "as_find_memregion (vmst fault_shm) 100 0x2010 1 = Some 10"
    by (simp add: as_find_memregion_def m small_region_def pg_round_up_def pg_size_def)
  have "tab cow_vps 1 (vpath 0x2010) \<noteq> None" "free_pages (pm cow_vps) \<noteq> {}"
    unfolding cow_same small_pte(2) [OF i] using cow_free by (auto simp: cow_vps_def)
  then show ?thesis
    using demand_fault_zeroed [of small_owner fault_shm "0x2010" 1 ?a 10 "small_region 0x1000 0x3000" False True 0 "[]",
      unfolded m, OF cow_vt_inv small_pte(3) [OF i] refl _ _ n] by (auto simp: m small_region_def)
qed

text \<open>C30. Any sequence of faults on pages of shared regions, in whatever address spaces and at whatever addresses they
  are mapped, returns.  After it every fault that succeeded has its address mapped, writable, to the frame that the
  page cache holds for its page, so that faults on the same page of a store all map the same frame.  That frame
  is the one that was cached before, if there was one, and otherwise a fresh zeroed page; its reference count has grown
  by the number of faults it served, on top of the reference of the cache.  A fault fails only if
  no page of physical memory is free or the node allocator of the tree failed.  Pages that stay cached, other
  translations and the bytes of all frames are not changed.\<close>

theorem shared_fault_same_frame:
  assumes inv: "pgc_inv R h news"
    and fs: "\<forall>(mr, r, v) \<in> set fs. stores h (mr_store mr) \<noteq> None \<and> PML4X v \<in> R r \<and> fault_page mr v < 2 ^ 30"
    and one: "\<forall>(mr, r, v) \<in> set fs. \<forall>(mr', r', v') \<in> set fs. r' = r \<and> vkey v' = vkey v \<longrightarrow>
      mr_store mr' = mr_store mr \<and> fault_page mr' v' = fault_page mr v"
  shows "\<exists>errs h' news'. shared_faults h news fs = Some (errs, h', news') \<and> length errs = length fs \<and> pgc_inv R h' news'
    \<and> (\<forall>mr r v err. ((mr, r, v), err) \<in> set (zip fs errs) \<longrightarrow>
         err = ERR_OK \<and> (\<exists>g. cached h' (mr_store mr) (fault_page mr v) = Some (page_ptr g)
             \<and> pte (vs (vmst h')) r v = page_to_paddr g OR PTE_P OR PTE_W OR PTE_U
             \<and> (if cached h (mr_store mr) (fault_page mr v) = Some NULL
                then g \<notin> allocated (hpm h) \<and> rc (hpm h') g = 1 + nserved h' g (zip fs errs) \<and> pgdata (vs (vmst h')) g = (\<lambda>_. 0)
                else cached h (mr_store mr) (fault_page mr v) = Some (page_ptr g)
                  \<and> rc (hpm h') g = rc (hpm h) g + nserved h' g (zip fs errs)))
         \<or> err = ERR_FAULT \<and> (free_pages (hpm h') = {} \<or> alloc_failed news news'))
    \<and> cache_grows R h h'
    \<and> (\<forall>r w. PML4X w \<in> R r \<longrightarrow> untouched (zip fs errs) r w \<longrightarrow> pte (vs (vmst h')) r w = pte (vs (vmst h)) r w)
    \<and> (\<forall>f \<in> allocated (hpm h). pgdata (vs (vmst h')) f = pgdata (vs (vmst h)) f)"
proof -
  have fl: "PTE_P OR PTE_W OR PTE_U = 7" by simp
  from faults_ok [OF inv, of fs] fs obtain errs h' news' where
    r: "shared_faults h news fs = Some (errs, h', news')" "length errs = length fs" "shared_step R h news h' news'"
      "counted R h h' (\<lambda>g. nserved h' g (zip fs errs))"
      "\<forall>r w. PML4X w \<in> R r \<longrightarrow> mapped_by h' (zip fs errs) r w
         \<or> untouched (zip fs errs) r w \<and> pte (vs (vmst h')) r w = pte (vs (vmst h)) r w"
      "\<forall>err \<in> set errs. err = ERR_OK \<or> err = ERR_FAULT \<and> (free_pages (hpm h') = {} \<or> alloc_failed news news')"
    unfolding faults_ready_def by blast
  have ok: "\<exists>g. cached h' (mr_store mr) (fault_page mr v) = Some (page_ptr g) \<and> pte (vs (vmst h')) r v = page_to_paddr g OR 7
      \<and> (if cached h (mr_store mr) (fault_page mr v) = Some NULL
         then g \<notin> allocated (hpm h) \<and> rc (hpm h') g = 1 + nserved h' g (zip fs errs) \<and> pgdata (vs (vmst h')) g = (\<lambda>_. 0)
         else cached h (mr_store mr) (fault_page mr v) = Some (page_ptr g) \<and> rc (hpm h') g = rc (hpm h) g + nserved h' g (zip fs errs))"
    if m: "((mr, r, v), ERR_OK) \<in> set (zip fs errs)" for mr r v
  proof -
    have v: "(mr, r, v) \<in> set fs" "PML4X v \<in> R r" using set_zip_leftD [OF m] fs by auto
    have "\<not> untouched (zip fs errs) r v" using m by (auto simp: untouched_def)
    then have "mapped_by h' (zip fs errs) r v" using r(5) v(2) by blast
    then obtain mr' v' g where g: "((mr', r, v'), ERR_OK) \<in> set (zip fs errs)" "vkey v' = vkey v"
      "cached h' (mr_store mr') (fault_page mr' v') = Some (page_ptr g)" "pte (vs (vmst h')) r v = page_to_paddr g OR 7"
      unfolding mapped_by_def by blast
    have "mr_store mr' = mr_store mr \<and> fault_page mr' v' = fault_page mr v"
      using one v(1) set_zip_leftD [OF g(1)] g(2) by fastforce
    then show ?thesis using g(3,4) cached_frame_counts [OF inv r(3,4) _ g(3)] fs v(1) by (intro exI [of _ g]) auto
  qed
  have "err = ERR_OK \<or> err = ERR_FAULT \<and> (free_pages (hpm h') = {} \<or> alloc_failed news news')"
    if "((mr, r, v), err) \<in> set (zip fs errs)" for mr r v err
    using set_zip_rightD [OF that] r(6) by blast
  moreover have "pte (vs (vmst h')) q w = pte (vs (vmst h)) q w" if "PML4X w \<in> R q" "untouched (zip fs errs) q w" for q w
    using r(5) that unfolding mapped_by_def untouched_def by blast
  moreover have "pgc_inv R h' news'" "cache_grows R h h'" "\<forall>f \<in> allocated (hpm h). pgdata (vs (vmst h')) f = pgdata (vs (vmst h)) f"
    using r(3) by (simp_all add: shared_step_def)
  ultimately show ?thesis using r(1,2) unfolding or.assoc fl
    by (intro exI [of _ errs] exI [of _ h'] exI [of _ news'] conjI allI impI) (assumption | (metis ok) | blast)+
qed

text \<open>A store whose tree already caches frame 7 at page number zero, mapped at two addresses.\<close>

definition cached_shm :: shm where
  "cached_shm = fault_shm\<lparr>rnodes := [50 \<mapsto> \<lparr>node_count = 1, node_parent = NULL, slots = (\<lambda>_. NULL)(0 := 8)\<rparr>],
     stores := [300 \<mapsto> \<lparr>ms_info = 200, ms_rmap = [], ms_cached = \<lparr>height = 1, root_node = 50\<rparr>\<rparr>]\<rparr>"

lemma cached_shm_inv: "pgc_inv small_owner cached_shm []"
proof -
  let ?h = "[50 \<mapsto> \<lparr>node_count = 1, node_parent = NULL, slots = (\<lambda>_. NULL)(0 := 8)\<rparr>] :: rheap"
  let ?A = "\<lambda>_. small_shape"
  have "rt_inv small_shape ?h \<lparr>height = 1, root_node = 50\<rparr>"
    by (rule rt_invI) (auto simp: small_shape_def rnode_ok_def split: if_splits)
  moreover have "rval small_shape ?h i = (if i = 0 then 8 else 0)" for i
  proof -
    have "i div 64 = 0 \<and> i mod 64 = 0 \<longleftrightarrow> i = 0" by (rule div_mod_unique) simp
    then show ?thesis by (auto simp: rval_def small_shape_def)
  qed
  ultimately have "trees_ok small_owner cached_shm ?A"
    using small_data_frame [of 7] by (auto simp: trees_ok_def cached_shm_def fault_shm_def ptr_page_def split: if_splits)
  then show ?thesis using cow_vt_inv by (auto simp: pgc_inv_def fresh_def) (simp add: cached_shm_def fault_shm_def)
qed

lemma cached_shm_page: "cached cached_shm 300 0 = Some (page_ptr 7)"
  using level_index_nat [of 0 0]
  by (simp add: cached_def cached_shm_def radix_tree_lookup_def radix_tree_max_index_def radix_tree_find_parent_def page_ptr_def)

lemma cached_shm_faults:
  "\<exists>h'. shared_faults cached_shm [] [((small_region 0x5000 0x6000)\<lparr>mr_store := 300\<rparr>, 1, 0x5004),
     ((small_region 0xa000 0xb000)\<lparr>mr_store := 300\<rparr>, 1, 0xa008)] = Some ([ERR_OK, ERR_OK], h', [])"
proof -
  let ?a = "(small_region 0x5000 0x6000)\<lparr>mr_store := 300\<rparr>" and ?b = "(small_region 0xa000 0xb000)\<lparr>mr_store := 300\<rparr>"
  have vp: "vpath 0x5004 = [0, 0, 0]" "vpath 0xa008 = [0, 0, 0]"
    by (simp_all add: vpath_def PML4X_def PDPTX_def PDX_def ENTRY_IDX_eq)
  have t: "tab (vs (vmst cached_shm)) 1 (vpath 0x5004) = Some 4" "tab (vs (vmst cached_shm)) 1 (vpath 0xa008) = Some 4"
    using small_pte(2) [OF vp(1)] small_pte(2) [OF vp(2)] cow_same(1) by (simp_all add: cached_shm_def fault_shm_def)
  have f: "fault_page ?a 0x5004 = 0" "fault_page ?b 0xa008 = 0" "mr_store ?a = 300" "mr_store ?b = 300"
    by (simp_all add: fault_page_def small_region_def pg_size_def)
  have o: "PML4X 0x5004 \<in> small_owner 1" "owned small_owner 1 (vpath 0xa008)"
    using small_pte(3) [OF vp(1)] small_pte(3) [OF vp(2)] by simp_all
  obtain h1 where 1: "handleSharedRegion cached_shm [] ?a (Some 1) 0x5004 = Some (ERR_OK, h1, [])"
    using shared_hit [OF cached_shm_inv, of ?a "0x5004" 7 1 4] cached_shm_page t(1) by (auto simp: f)
  have "stores cached_shm 300 \<noteq> None" using cached_store [OF cached_shm_page] .
  then have s: "shared_step small_owner cached_shm [] h1 []"
    using shared_fault_done [OF cached_shm_inv _ o(1), of ?a] 1 by (auto simp: f fault_done_def)
  have "tab (vs (vmst h1)) 1 (vpath 0xa008) = Some 4" "cached h1 300 0 = Some (page_ptr 7)" "pgc_inv small_owner h1 []"
    using s o(2) t(2) cached_shm_page ptr_page_ptr(2) unfolding shared_step_def keeps_frames_def cache_grows_def by blast+
  then obtain h2 where "handleSharedRegion h1 [] ?b (Some 1) 0xa008 = Some (ERR_OK, h2, [])"
    using shared_hit [of small_owner h1 "[]" ?b "0xa008" 7 1 4] by (auto simp: f)
  then show ?thesis using 1 by simp
qed

lemma shared_fault_same_frame_witness:
  "\<exists>h'. shared_faults cached_shm [] [((small_region 0x5000 0x6000)\<lparr>mr_store := 300\<rparr>, 1, 0x5004),
      ((small_region 0xa000 0xb000)\<lparr>mr_store := 300\<rparr>, 1, 0xa008)] = Some ([ERR_OK, ERR_OK], h', [])
    \<and> pte (vs (vmst h')) 1 0x5004 = page_to_paddr 7 OR PTE_P OR PTE_W OR PTE_U
    \<and> pte (vs (vmst h')) 1 0xa008 = page_to_paddr 7 OR PTE_P OR PTE_W OR PTE_U \<and> rc (hpm h') 7 = 3"
proof -
  let ?a = "(small_region 0x5000 0x6000)\<lparr>mr_store := 300\<rparr>" and ?b = "(small_region 0xa000 0xb000)\<lparr>mr_store := 300\<rparr>"
  have v: "PML4X 0x5004 \<in> small_owner 1" "PML4X 0xa008 \<in> small_owner 1" "vkey 0xa008 \<noteq> vkey 0x5004"
    by (simp_all add: PML4X_def ENTRY_IDX_eq small_owner_def vkey_def)
  have f: "fault_page ?a 0x5004 = 0" "fault_page ?b 0xa008 = 0" "mr_store ?a = 300" "mr_store ?b = 300"
    by (simp_all add: fault_page_def small_region_def pg_size_def)
  have st: "stores cached_shm 300 \<noteq> None" using cached_store [OF cached_shm_page] .
  have one: "rc (hpm cached_shm) 7 = 1" by (simp add: cached_shm_def fault_shm_def cow_vps_def cow_pmem_def)
  obtain h' where run: "shared_faults cached_shm [] [(?a, 1, 0x5004), (?b, 1, 0xa008)] = Some ([ERR_OK, ERR_OK], h', [])"
    using cached_shm_faults by blast
  have pre: "\<forall>(mr, r, v) \<in> set [(?a, 1, 0x5004), (?b, 1, 0xa008)]. stores cached_shm (mr_store mr) \<noteq> None \<and> PML4X v \<in> small_owner r \<and> fault_page mr v < 2 ^ 30"
    using v st f by simp
  have same: "\<forall>(mr, r, v) \<in> set [(?a, 1, 0x5004), (?b, 1, 0xa008)]. \<forall>(mr', r', v') \<in> set [(?a, 1 :: nat, 0x5004), (?b, 1, 0xa008)].
      r' = r \<and> vkey v' = vkey v \<longrightarrow> mr_store mr' = mr_store mr \<and> fault_page mr' v' = fault_page mr v"
    using f by simp
  have "((?a, 1, 0x5004), ERR_OK) \<in> set (zip [(?a, 1, 0x5004), (?b, 1, 0xa008)] [ERR_OK, ERR_OK])" 
    "((?b, 1, 0xa008), ERR_OK) \<in> set (zip [(?a, 1, 0x5004), (?b, 1, 0xa008)] [ERR_OK, ERR_OK])" by simp_all
  then show ?thesis using shared_fault_same_frame [OF cached_shm_inv pre same] run cached_shm_page one
    by (auto simp: f served_def page_ptr_def)
qed

end
