(* ===== verification/Asfork.thy ===== *)
theory Asfork
  imports Shmms Refs
begin

text \<open>
  Copying and destroying whole address spaces, the part of \<^verbatim>\<open>kernel/mm/vm.c\<close> that calls the shared
  memory module: \<open>as_copy_as\<close>, by which fork duplicates the regions of a process, and \<open>as_destroy\<close>.
  A private region is copied by sharing its pages read-only (\<open>Cow\<close>), a shared one by adding a
  mapping to its context (\<open>Shmms\<close>).  The two locks of a copy are taken before the loop and the loop is a single step here;
  what the slab allocators answer while a region is copied is a pair, the region structure
  and whether there is a node for the reverse mapping.
\<close>

section \<open>Operations\<close>

definition memregion_copy_internal :: "shm \<Rightarrow> ptr \<times> bool \<Rightarrow> ptr \<Rightarrow> ptr \<Rightarrow> vaddr_t \<Rightarrow> (ptr \<times> shm) exec" where
  "memregion_copy_internal h new p src addr = do {
     r \<leftarrow> regs (vmst h) src;
     (dst, v) \<leftarrow> memregion_map_internal (vmst h) (fst new) p addr (mr_end r - mr_start r) (mr_perm r) (mr_store r) (mr_ofs r) (mr_shared r);
     let h = h\<lparr>vmst := v\<rparr>;
     if dst = NULL then Some (NULL, h)
     else if mr_shared r then do {
       kassert (mr_store r \<noteq> NULL);
       m \<leftarrow> stores h (mr_store r);
       kassert (ms_info m \<noteq> NULL);
       h \<leftarrow> addContextRef h (snd new) (ms_info m) (mr_start r) p dst;
       Some (dst, h) }
     else do {
       sa \<leftarrow> spaces (vmst h) (mr_as r);
       da \<leftarrow> spaces (vmst h) p;
       cur \<leftarrow> cur_pml4 (vmst h);
       (err, w) \<leftarrow> vpmap_cow_copy (vs (vmst h)) cur (as_vpmap sa) (as_vpmap da) (mr_start r) addr
                     (unat (pg_round_up (mr_end r - mr_start r) div pg_size));
       let h = h\<lparr>vmst := (vmst h)\<lparr>vs := w\<rparr>\<rparr>;
       if err \<noteq> ERR_OK then do { v \<leftarrow> memregion_unmap_internal (vmst h) dst; Some (NULL, h\<lparr>vmst := v\<rparr>) }
       else Some (dst, h) } }"

definition as_copy_memregion :: "shm \<Rightarrow> ptr \<times> bool \<Rightarrow> ptr \<Rightarrow> ptr \<Rightarrow> vaddr_t \<Rightarrow> (ptr \<times> shm) exec" where
  "as_copy_memregion h new p src addr = do {
     kassert (p \<noteq> NULL \<and> src \<noteq> NULL);
     kassert (pg_aligned addr);
     memregion_copy_internal h new p src addr }"

text \<open>The loop over the source regions; \<open>news\<close> has one answer of the allocators for each round.\<close>

fun copy_regions :: "shm \<Rightarrow> (ptr \<times> bool) list \<Rightarrow> ptr \<Rightarrow> ptr \<Rightarrow> ptr list \<Rightarrow> (err_t \<times> shm) exec" where
  "copy_regions h news src dst [] = Some (ERR_OK, h)"
| "copy_regions h news src dst (n # ns) = do {
     r \<leftarrow> regs (vmst h) n;
     let new = (case news of [] \<Rightarrow> (NULL, False) | x # _ \<Rightarrow> x);
     (d, h) \<leftarrow> memregion_copy_internal h new dst n (mr_start r);
     if d = NULL then Some (ERR_NOMEM, h)
     else do {
       a \<leftarrow> spaces (vmst h) src;
       b \<leftarrow> spaces (vmst h) dst;
       let h = (if n = as_heap a then h\<lparr>vmst := set_space dst (b\<lparr>as_heap := d\<rparr>) (vmst h)\<rparr> else h);
       copy_regions h (tl news) src dst ns } }"

definition as_copy_as :: "shm \<Rightarrow> (ptr \<times> bool) list \<Rightarrow> ptr \<Rightarrow> ptr \<Rightarrow> (err_t \<times> shm) exec" where
  "as_copy_as h news src dst = do {
     kassert (src \<noteq> NULL \<and> dst \<noteq> NULL);
     kassert (src \<noteq> dst);
     a \<leftarrow> spaces (vmst h) src;
     copy_regions h news src dst (as_regions a) }"

fun destroy_regions :: "shm \<Rightarrow> ptr list \<Rightarrow> shm exec" where
  "destroy_regions h [] = Some h"
| "destroy_regions h (n # ns) = do {
     r \<leftarrow> regs (vmst h) n;
     h \<leftarrow> (if mr_shared r then unmapAll h n
          else do { v \<leftarrow> memregion_unmap_internal (vmst h) n; Some (h\<lparr>vmst := v\<rparr>) });
     destroy_regions h ns }"

definition as_destroy :: "shm \<Rightarrow> ptr \<Rightarrow> shm exec" where
  "as_destroy h p = do {
     kassert (p \<noteq> NULL);
     kassert (p \<noteq> kas (vmst h));
     a \<leftarrow> spaces (vmst h) p;
     v \<leftarrow> vpmap_destroy (vs (vmst h)) (Some (kpml4 (vmst h))) (as_vpmap a);
     let h = h\<lparr>vmst := set_space p (a\<lparr>as_vpmap := None\<rparr>) ((vmst h)\<lparr>vs := v\<rparr>)\<rparr>;
     destroy_regions h (as_regions a) }"

section \<open>Destroying the regions of a space\<close>

text \<open>A shared region is registered when its store belongs to a context that has a mapping for it.\<close>

definition registered :: "shm \<Rightarrow> ptr \<Rightarrow> ptr \<Rightarrow> bool" where
  "registered h p n \<longleftrightarrow> (\<exists>r. regs (vmst h) n = Some r \<and> mr_as r = p \<and> (mr_shared r \<longrightarrow> mr_start r < mr_end r
     \<and> (\<exists>m c. stores h (mr_store r) = Some m \<and> ms_info m \<in> set (ctable h) \<and> ctxs h (ms_info m) = Some c \<and> c_store c = mr_store r
          \<and> (p, n) \<in> set (ms_rmap m))))"

text \<open>What happens to the contexts: a context either keeps its attributes and the mappings of all other spaces, or it
  goes, which happens exactly when it is not persistent and its last mapping goes.\<close>

definition others :: "ptr \<Rightarrow> (ptr \<times> ptr) list \<Rightarrow> (ptr \<times> ptr) list" where
  "others p ns = filter (\<lambda>n. fst n \<noteq> p) ns"

definition detached :: "ptr \<Rightarrow> shm \<Rightarrow> shm \<Rightarrow> bool" where
  "detached p h h' \<longleftrightarrow> set (ctable h') \<subseteq> set (ctable h)
     \<and> (\<forall>x \<in> set (ctable h). \<forall>c m. ctxs h x = Some c \<longrightarrow> stores h (c_store c) = Some m \<longrightarrow>
          (if x \<in> set (ctable h')
           then \<exists>c' m'. ctxs h' x = Some c' \<and> c_name c' = c_name c \<and> c_store c' = c_store c \<and> c_flag c' = c_flag c \<and> c_lock_by c' = c_lock_by c
                \<and> stores h' (c_store c) = Some m' \<and> others p (ms_rmap m') = others p (ms_rmap m) \<and> set (ms_rmap m') \<subseteq> set (ms_rmap m)
      \<and> (ms_rmap m' = [] \<longrightarrow> ms_rmap m = [] \<or> c_flag c AND RS_PERSIST \<noteq> 0)
           else c_flag c AND RS_PERSIST = 0 \<and> others p (ms_rmap m) = [] \<and> ms_rmap m \<noteq> []))"

lemma detached_refl: "(\<And>x. x \<in> set (ctable h) \<Longrightarrow> ctxs h' x = ctxs h x) \<Longrightarrow> ctable h' = ctable h \<Longrightarrow> stores h' = stores h \<Longrightarrow> detached p h h'"
  by (simp add: detached_def)

lemma detached_trans:
  assumes 1: "detached p h h1" and 2: "detached p h1 h2"
  shows "detached p h h2"
  unfolding detached_def
proof (intro conjI ballI allI impI)
  show "set (ctable h2) \<subseteq> set (ctable h)" using 1 2 by (auto simp: detached_def)
  fix x c m assume x: "x \<in> set (ctable h)" "ctxs h x = Some c" "stores h (c_store c) = Some m"
  note d1 = 1 [unfolded detached_def, THEN conjunct2, rule_format, OF x]
  show "if x \<in> set (ctable h2)
    then \<exists>c' m'. ctxs h2 x = Some c' \<and> c_name c' = c_name c \<and> c_store c' = c_store c \<and> c_flag c' = c_flag c \<and> c_lock_by c' = c_lock_by c
      \<and> stores h2 (c_store c) = Some m' \<and> others p (ms_rmap m') = others p (ms_rmap m) \<and> set (ms_rmap m') \<subseteq> set (ms_rmap m)
      \<and> (ms_rmap m' = [] \<longrightarrow> ms_rmap m = [] \<or> c_flag c AND RS_PERSIST \<noteq> 0)
    else c_flag c AND RS_PERSIST = 0 \<and> others p (ms_rmap m) = [] \<and> ms_rmap m \<noteq> []"
  proof (cases "x \<in> set (ctable h1)")
    case True
    then obtain c1 m1 where c1: "ctxs h1 x = Some c1" "c_name c1 = c_name c" "c_store c1 = c_store c" "c_flag c1 = c_flag c" "c_lock_by c1 = c_lock_by c"
      "stores h1 (c_store c1) = Some m1" "others p (ms_rmap m1) = others p (ms_rmap m)" "set (ms_rmap m1) \<subseteq> set (ms_rmap m)"
      "ms_rmap m1 = [] \<longrightarrow> ms_rmap m = [] \<or> c_flag c AND RS_PERSIST \<noteq> 0" using d1 by auto
    from 2 [unfolded detached_def, THEN conjunct2, rule_format, OF True c1(1,6)] show ?thesis using c1 by (auto split: if_splits)
  next
    case False
    then show ?thesis using d1 2 by (auto simp: detached_def)
  qed
qed

lemma filter_remove1_not: "\<not> P x \<Longrightarrow> filter P (remove1 x xs) = filter P xs"
  by (induction xs) auto

text \<open>One region goes: the step of the loop on a space that has no page table any more.\<close>

definition region_gone :: "ptr \<Rightarrow> ptr \<Rightarrow> shm \<Rightarrow> shm \<Rightarrow> bool" where
  "region_gone p n h h' \<longleftrightarrow> regs (vmst h') = (regs (vmst h))(n := None) \<and> vs (vmst h') = vs (vmst h)
     \<and> kas (vmst h') = kas (vmst h) \<and> cur_as (vmst h') = cur_as (vmst h) \<and> kpml4 (vmst h') = kpml4 (vmst h)
     \<and> (\<exists>a a'. spaces (vmst h) p = Some a \<and> spaces (vmst h') = (spaces (vmst h))(p := Some a') \<and> set (as_regions a') = set (as_regions a) - {n}
          \<and> as_vpmap a' = None)"

lemma unmap_no_table:
  assumes inv: "vm_inv s" and r: "regs s n = Some r" "spaces s (mr_as r) = Some a" "as_vpmap a = None"
    and p: "mr_as r \<noteq> cur_as s" "mr_as r \<noteq> kas s"
  shows "\<exists>s' a'. memregion_unmap_internal s n = Some s' \<and> vm_inv s' \<and> regs s' = (regs s)(n := None) \<and> vs s' = vs s
    \<and> kas s' = kas s \<and> cur_as s' = cur_as s \<and> kpml4 s' = kpml4 s
    \<and> spaces s' = (spaces s)(mr_as r := Some a') \<and> set (as_regions a') = set (as_regions a) - {n} \<and> as_vpmap a' = None"
proof -
  let ?a = "a\<lparr>as_regions := remove1 n (as_regions a)\<rparr>"
  let ?s = "(set_space (mr_as r) ?a s)\<lparr>regs := (regs s)(n := None)\<rparr>"
  have run: "memregion_unmap_internal s n = Some ?s"
    using r p by (simp add: memregion_unmap_internal_def vpmap_unmap_def memregion_invalidate_def set_space_def)
  have i: "as_inv s q b" if "spaces s q = Some b" for q b using inv that by (simp add: vm_inv_def)
  have d: "distinct (as_regions a)" using as_invD(1) [OF i [OF r(2)]] .
  have "as_inv s (mr_as r) ?a" using i [OF r(2)] d by (auto simp: as_inv_def sorted_wrt_remove1)
  then have "as_inv ?s (mr_as r) ?a" by (rule as_inv_cong) (use d in auto)
  moreover have "as_inv ?s q b" if "spaces s q = Some b" "q \<noteq> mr_as r" for q b
    using i [OF that(1)] by (rule as_inv_cong) (use as_invD(3) [OF i [OF that(1)], of n] that r(1) in auto)
  ultimately have "vm_inv ?s" by (auto simp: vm_inv_def set_space_def)
  then show ?thesis using run d r(3) by (auto simp: set_space_def)
qed

lemma node_found:
  assumes inv: "shm_inv h" and c: "ctx \<in> set (ctable h)" "ctxs h ctx = Some c" "stores h (c_store c) = Some m"
    and n: "(p, n) \<in> set (ms_rmap m)" "regs (vmst h) n = Some r" "mr_start r < mr_end r"
  shows "find_node (vmst h) p (mr_start r) (ms_rmap m) = Some (Some (p, n))"
proof -
  let ?v = "vmst h"
  have ci: "\<forall>x \<in> set (ms_rmap m). node_inv ?v (c_store c) x" using shm_invD(4) [OF inv c(1)] c(2,3) by (auto simp: ctx_inv_def)
  obtain x where x: "find_node ?v p (mr_start r) (ms_rmap m) = Some x"
    "case x of None \<Rightarrow> \<forall>n \<in> set (ms_rmap m). fst n = p \<longrightarrow> \<not> (rstart ?v (snd n) \<le> mr_start r \<and> mr_start r < rend ?v (snd n))
     | Some n \<Rightarrow> n \<in> set (ms_rmap m) \<and> fst n = p \<and> rstart ?v (snd n) \<le> mr_start r \<and> mr_start r < rend ?v (snd n)"
    using find_node_ok [OF ci] by blast
  then obtain k where k: "x = Some k" "k \<in> set (ms_rmap m)" "fst k = p" "rstart ?v (snd k) \<le> mr_start r" "mr_start r < rend ?v (snd k)"
    using n by (cases x) (auto dest!: bspec [of _ _ "(p, n)"])
  obtain a where a: "spaces ?v p = Some a" "n \<in> set (as_regions a)" using ci n(1) by (auto simp: node_inv_def)
  have "snd k \<in> set (as_regions a)" using ci k(2,3) a(1) by (auto simp: node_inv_def)
  moreover have "as_inv ?v p a" using shm_invD(1) [OF inv] a(1) by (simp add: vm_inv_def)
  ultimately have "snd k = n" using as_inv_disjoint [of ?v p a "snd k" n] a(2) k(4,5) n(2,3) by force
  then show ?thesis using x(1) k by (metis prod.collapse)
qed

text \<open>The effect on the contexts of removing one node, and of dropping a context without nodes.\<close>

lemma detached_node:
  assumes inv: "shm_inv h" and c: "x \<in> set (ctable h)" "ctxs h x = Some c" "stores h (c_store c) = Some m"
    and last: "remove1 (p, n) (ms_rmap m) = [] \<Longrightarrow> c_flag c AND RS_PERSIST \<noteq> 0"
  shows "detached p h (h\<lparr>vmst := v, ctxs := (ctxs h)(x := Some (c\<lparr>c_refcnt := k\<rparr>)),
    stores := (stores h)(c_store c := Some (m\<lparr>ms_rmap := remove1 (p, n) (ms_rmap m)\<rparr>))\<rparr>)" (is "detached p h ?h")
  unfolding detached_def
proof (intro conjI ballI allI impI)
  fix y d w assume y: "y \<in> set (ctable h)" "ctxs h y = Some d" "stores h (c_store d) = Some w"
  have ot: "others p (remove1 (p, n) (ms_rmap m)) = others p (ms_rmap m)" by (simp add: others_def filter_remove1_not)
  have "\<exists>c' m'. ctxs ?h y = Some c' \<and> c_name c' = c_name d \<and> c_store c' = c_store d \<and> c_flag c' = c_flag d \<and> c_lock_by c' = c_lock_by d
    \<and> stores ?h (c_store d) = Some m' \<and> others p (ms_rmap m') = others p (ms_rmap w) \<and> set (ms_rmap m') \<subseteq> set (ms_rmap w)
    \<and> (ms_rmap m' = [] \<longrightarrow> ms_rmap w = [] \<or> c_flag d AND RS_PERSIST \<noteq> 0)"
  proof (cases "y = x")
    case True
    then have "d = c" "w = m" using y c by auto
    then show ?thesis using True ot last by (simp add: set_remove1_subset)
  next
    case False
    then have "c_store d \<noteq> c_store c" using ctx_inv_store [of h y d x c] shm_invD(4) [OF inv] y c by (metis option.inject)
    then show ?thesis using False y by simp
  qed
  then show "if y \<in> set (ctable ?h) then \<exists>c' m'. ctxs ?h y = Some c' \<and> c_name c' = c_name d \<and> c_store c' = c_store d \<and> c_flag c' = c_flag d
      \<and> c_lock_by c' = c_lock_by d \<and> stores ?h (c_store d) = Some m' \<and> others p (ms_rmap m') = others p (ms_rmap w) \<and> set (ms_rmap m') \<subseteq> set (ms_rmap w)
      \<and> (ms_rmap m' = [] \<longrightarrow> ms_rmap w = [] \<or> c_flag d AND RS_PERSIST \<noteq> 0)
    else c_flag d AND RS_PERSIST = 0 \<and> others p (ms_rmap w) = [] \<and> ms_rmap w \<noteq> []" using y(1) by simp
qed simp

lemma detached_drop:
  assumes inv: "shm_inv h" and c: "x \<in> set (ctable h)" "ctxs h x = Some c" "stores h (c_store c) = Some m"
    and z: "c_flag c AND RS_PERSIST = 0" "others p (ms_rmap m) = []" "ms_rmap m \<noteq> []"
  shows "detached p h (h\<lparr>vmst := v, ctable := remove1 x (ctable h), ctxs := (ctxs h)(x := None), stores := (stores h)(c_store c := None)\<rparr>)"
    (is "detached p h ?h")
  unfolding detached_def
proof (intro conjI ballI allI impI)
  have s: "set (ctable ?h) = set (ctable h) - {x}" using shm_invD(2) [OF inv] by simp
  then show "set (ctable ?h) \<subseteq> set (ctable h)" by blast
  fix y d w assume y: "y \<in> set (ctable h)" "ctxs h y = Some d" "stores h (c_store d) = Some w"
  show "if y \<in> set (ctable ?h) then \<exists>c' m'. ctxs ?h y = Some c' \<and> c_name c' = c_name d \<and> c_store c' = c_store d \<and> c_flag c' = c_flag d
      \<and> c_lock_by c' = c_lock_by d \<and> stores ?h (c_store d) = Some m' \<and> others p (ms_rmap m') = others p (ms_rmap w) \<and> set (ms_rmap m') \<subseteq> set (ms_rmap w)
      \<and> (ms_rmap m' = [] \<longrightarrow> ms_rmap w = [] \<or> c_flag d AND RS_PERSIST \<noteq> 0)
    else c_flag d AND RS_PERSIST = 0 \<and> others p (ms_rmap w) = [] \<and> ms_rmap w \<noteq> []"
  proof (cases "y = x")
    case True
    then show ?thesis using s y c z by simp
  next
    case False
    then have "c_store d \<noteq> c_store c" using ctx_inv_store [of h y d x c] shm_invD(4) [OF inv] y c by (metis option.inject)
    then show ?thesis using False y s by simp
  qed
qed

lemma registered_keep:
  assumes g: "registered h p k" and rg: "regs (vmst h') k = regs (vmst h) k"
    and st: "\<And>st m c. stores h st = Some m \<Longrightarrow> ms_info m \<in> set (ctable h) \<Longrightarrow> ctxs h (ms_info m) = Some c \<Longrightarrow> c_store c = st \<Longrightarrow>
      (p, k) \<in> set (ms_rmap m) \<Longrightarrow> \<exists>m' c'. stores h' st = Some m' \<and> ms_info m' \<in> set (ctable h') \<and> ctxs h' (ms_info m') = Some c'
        \<and> c_store c' = st \<and> (p, k) \<in> set (ms_rmap m')"
  shows "registered h' p k"
proof -
  obtain r where r: "regs (vmst h) k = Some r" "mr_as r = p" "mr_shared r \<Longrightarrow> mr_start r < mr_end r
     \<and> (\<exists>m c. stores h (mr_store r) = Some m \<and> ms_info m \<in> set (ctable h) \<and> ctxs h (ms_info m) = Some c \<and> c_store c = mr_store r
          \<and> (p, k) \<in> set (ms_rmap m))" using g unfolding registered_def by blast
  then show ?thesis unfolding registered_def rg using st by blast
qed

lemma unmapAll_ok:
  assumes inv: "shm_inv h" and a: "spaces (vmst h) p = Some a" "as_vpmap a = None" and p: "p \<noteq> cur_as (vmst h)" "p \<noteq> kas (vmst h)"
    and r: "regs (vmst h) n = Some r" "mr_shared r" and g: "registered h p n"
  shows "\<exists>h'. unmapAll h n = Some h' \<and> shm_inv h' \<and> region_gone p n h h' \<and> detached p h h'
    \<and> (\<forall>k. k \<noteq> n \<longrightarrow> registered h p k \<longrightarrow> registered h' p k)"
proof -
  obtain m c where m: "stores h (mr_store r) = Some m" "ms_info m \<in> set (ctable h)" "ctxs h (ms_info m) = Some c" "c_store c = mr_store r"
    "(p, n) \<in> set (ms_rmap m)" "mr_as r = p" "mr_start r < mr_end r" using g r unfolding registered_def by auto
  let ?x = "ms_info m"
  have nz: "?x \<noteq> NULL" using m(2) shm_invD(3) [OF inv] by metis
  have f: "find_node (vmst h) p (mr_start r) (ms_rmap m) = Some (Some (p, n))"
    using node_found [OF inv m(2,3) _ m(5) r(1) m(7)] m(1,4) by simp
  obtain v a' where v: "memregion_unmap_internal (vmst h) n = Some v" "vm_inv v" "regs v = (regs (vmst h))(n := None)" "vs v = vs (vmst h)"
    "kas v = kas (vmst h)" "cur_as v = cur_as (vmst h)" "kpml4 v = kpml4 (vmst h)"
    "spaces v = (spaces (vmst h))(p := Some a')" "set (as_regions a') = set (as_regions a) - {n}" "as_vpmap a' = None"
    using unmap_no_table [OF shm_invD(1) [OF inv] r(1)] a p m(6) by auto
  let ?c = "c\<lparr>c_refcnt := c_refcnt c - 1\<rparr>" and ?m = "m\<lparr>ms_rmap := remove1 (p, n) (ms_rmap m)\<rparr>"
  let ?h = "h\<lparr>vmst := v, ctxs := (ctxs h)(?x := Some ?c), stores := (stores h)(c_store c := Some ?m)\<rparr>"
  have i: "shm_inv ?h" using shm_inv_unmap [OF inv m(2,3) _ v(2,3,8) a(1) v(9) m(5)] m(1,4) by simp
  have gone: "region_gone p n h h'" if "vmst h' = v" for h' using v a(1) that by (auto simp: region_gone_def)
  have eq: "h\<lparr>stores := (stores h)(c_store c := Some ?m), vmst := v, ctxs := (ctxs h)(?x := Some ?c)\<rparr> = ?h" by simp
  have run: "unmapAll h n = (if c_refcnt c - 1 = 0 \<and> c_flag c AND RS_PERSIST = 0
      then do { (err, h) \<leftarrow> destroySharedRegion_Internal ?h ?x 0; Some h } else Some ?h)"
    unfolding eq [symmetric] using r(1) m(1-4,6) nz f v(1)
    by (simp add: unmapAll_def find_remove_rmapping_def destroyMapping_Internal_def memregion_unmap_def set_ctx_def set_store_def Let_def)
  have ms: "stores h (c_store c) = Some m" using m(1,4) by simp
  have st: "stores h st = Some w \<Longrightarrow> ms_info w \<in> set (ctable h) \<Longrightarrow> ctxs h (ms_info w) = Some d \<Longrightarrow> c_store d = st \<Longrightarrow> st \<noteq> c_store c \<Longrightarrow> ms_info w \<noteq> ?x" for st w d
    using m(3) by auto
  have len: "c_refcnt c = int (length (ms_rmap m))" using shm_invD(4) [OF inv m(2)] m(3) ms by (auto simp: ctx_inv_def)
  show ?thesis
  proof (cases "c_refcnt c - 1 = 0 \<and> c_flag c AND RS_PERSIST = 0")
    case False
    have "registered ?h p k" if "k \<noteq> n" "registered h p k" for k
      by (rule registered_keep [OF that(2)]) (use that(1) v(3) m st in \<open>auto split: if_splits\<close>)
    moreover have "c_flag c AND RS_PERSIST \<noteq> 0" if "remove1 (p, n) (ms_rmap m) = []"
    proof -
      have "length (remove1 (p, n) (ms_rmap m)) = length (ms_rmap m) - 1" using m(5) by (simp add: length_remove1)
      then have "length (ms_rmap m) = 1" using that m(5) by (cases "ms_rmap m") auto
      then show ?thesis using False len by simp
    qed
    then have "detached p h ?h" by (rule detached_node [OF inv m(2,3) ms])
    ultimately show ?thesis using run False i gone [of ?h] by (intro exI [of _ ?h]) auto
  next
    case True
    let ?h2 = "?h\<lparr>ctable := remove1 ?x (ctable ?h), ctxs := (ctxs ?h)(?x := None), stores := (stores ?h)(c_store ?c := None)\<rparr>"
    have x: "?x \<in> set (ctable ?h)" "ctxs ?h ?x = Some ?c" using m(2) by simp_all
    have r2: "unmapAll h n = Some ?h2" using run True destroy_internal_ok [OF i x, of 0] by simp
    have one: "ms_rmap m = [(p, n)]"
      using True m(5) len by (cases "ms_rmap m") auto
    have "registered ?h2 p k" if "k \<noteq> n" "registered h p k" for k
      by (rule registered_keep [OF that(2)]) (use that(1) v(3) m st one shm_invD(2) [OF inv] in \<open>auto split: if_splits\<close>)
    moreover have "shm_inv ?h2" by (rule shm_inv_remove [OF i x])
    moreover have "?h2 = h\<lparr>vmst := v, ctable := remove1 ?x (ctable h), ctxs := (ctxs h)(?x := None), stores := (stores h)(c_store c := None)\<rparr>"
      by simp
    then have "detached p h ?h2" using detached_drop [OF inv m(2,3) ms, of p v] True one by (simp add: others_def)
    ultimately show ?thesis using r2 gone [of ?h2] by (intro exI [of _ ?h2]) auto
  qed
qed

lemma destroy_region_ok:
  assumes inv: "shm_inv h" and a: "spaces (vmst h) p = Some a" "as_vpmap a = None" and p: "p \<noteq> cur_as (vmst h)" "p \<noteq> kas (vmst h)"
    and g: "registered h p n"
  shows "\<exists>r h'. regs (vmst h) n = Some r \<and> (if mr_shared r then unmapAll h n
      else do { v \<leftarrow> memregion_unmap_internal (vmst h) n; Some (h\<lparr>vmst := v\<rparr>) }) = Some h' \<and> shm_inv h' \<and> region_gone p n h h' \<and> detached p h h'
    \<and> (\<forall>k. k \<noteq> n \<longrightarrow> registered h p k \<longrightarrow> registered h' p k)"
proof -
  obtain r where r: "regs (vmst h) n = Some r" "mr_as r = p" using g by (auto simp: registered_def)
  show ?thesis
  proof (cases "mr_shared r")
    case True
    then show ?thesis using unmapAll_ok [OF inv a p r(1) True g] r by auto
  next
    case False
    obtain v a' where v: "memregion_unmap_internal (vmst h) n = Some v" "vm_inv v" "regs v = (regs (vmst h))(n := None)" "vs v = vs (vmst h)"
      "kas v = kas (vmst h)" "cur_as v = cur_as (vmst h)" "kpml4 v = kpml4 (vmst h)"
      "spaces v = (spaces (vmst h))(p := Some a')" "set (as_regions a') = set (as_regions a) - {n}" "as_vpmap a' = None"
      using unmap_no_table [OF shm_invD(1) [OF inv] r(1)] a p r(2) by auto
    let ?h = "h\<lparr>vmst := v\<rparr>"
    have "node_inv v st x" if "node_inv (vmst h) st x" for st x
      by (rule node_inv_unmap [OF that _ v(3,8) a(1) v(9)]) (use that r(1) False in \<open>auto simp: node_inv_def\<close>)
    then have "shm_inv ?h" using shm_inv_vm [OF inv v(2)] by blast
    moreover have "registered ?h p k" if "k \<noteq> n" "registered h p k" for k
      by (rule registered_keep [OF that(2)]) (use that(1) v(3) in auto)
    moreover have "detached p h ?h" by (rule detached_refl) simp_all
    moreover have "region_gone p n h ?h" using v a(1) by (auto simp: region_gone_def)
    ultimately show ?thesis using r(1) v(1) False by (intro exI [of _ r] exI [of _ ?h]) auto
  qed
qed

lemma destroy_regions_ok:
  assumes "shm_inv h" "spaces (vmst h) p = Some a" "as_vpmap a = None" "p \<noteq> cur_as (vmst h)" "p \<noteq> kas (vmst h)"
    and "distinct ns" "set (as_regions a) = set ns" "\<forall>n \<in> set ns. registered h p n"
  shows "\<exists>h' a'. destroy_regions h ns = Some h' \<and> shm_inv h' \<and> detached p h h' \<and> vs (vmst h') = vs (vmst h)
    \<and> (\<forall>n. regs (vmst h') n = (if n \<in> set ns then None else regs (vmst h) n))
    \<and> spaces (vmst h') = (spaces (vmst h))(p := Some a') \<and> as_regions a' = [] \<and> as_vpmap a' = None"
  using assms
proof (induction ns arbitrary: h a)
  case Nil
  have "detached p h h" by (rule detached_refl) simp_all
  then show ?case using Nil by (intro exI [of _ h] exI [of _ a]) auto
next
  case (Cons n ns)
  have "registered h p n" using Cons.prems(8) by simp
  from destroy_region_ok [OF Cons.prems(1-5) this] obtain r h1 where
    1: "regs (vmst h) n = Some r" "(if mr_shared r then unmapAll h n
      else do { v \<leftarrow> memregion_unmap_internal (vmst h) n; Some (h\<lparr>vmst := v\<rparr>) }) = Some h1" "shm_inv h1" "region_gone p n h h1" "detached p h h1"
      "\<forall>k. k \<noteq> n \<longrightarrow> registered h p k \<longrightarrow> registered h1 p k" by blast
  obtain a1 where a1: "spaces (vmst h1) = (spaces (vmst h))(p := Some a1)" "set (as_regions a1) = set (as_regions a) - {n}" "as_vpmap a1 = None"
    using 1(4) Cons.prems(2) by (auto simp: region_gone_def)
  have g: "regs (vmst h1) = (regs (vmst h))(n := None)" "vs (vmst h1) = vs (vmst h)" "kas (vmst h1) = kas (vmst h)" "cur_as (vmst h1) = cur_as (vmst h)"
    using 1(4) by (auto simp: region_gone_def)
  have nn: "n \<notin> set ns" "distinct ns" "set (as_regions a1) = set ns" using Cons.prems(6,7) a1(2) by auto
  then have "\<forall>k \<in> set ns. registered h1 p k" using 1(6) Cons.prems(8) by auto
  moreover have "spaces (vmst h1) p = Some a1" "p \<noteq> cur_as (vmst h1)" "p \<noteq> kas (vmst h1)" using a1(1) g(3,4) Cons.prems(4,5) by simp_all
  ultimately obtain h' a' where
    2: "destroy_regions h1 ns = Some h'" "shm_inv h'" "detached p h1 h'" "vs (vmst h') = vs (vmst h1)"
      "\<forall>n. regs (vmst h') n = (if n \<in> set ns then None else regs (vmst h1) n)"
      "spaces (vmst h') = (spaces (vmst h1))(p := Some a')" "as_regions a' = []" "as_vpmap a' = None"
    using Cons.IH [OF 1(3) _ a1(3) _ _ nn(2,3)] by blast
  have "destroy_regions h (n # ns) = Some h'" using 1(1,2) 2(1) by simp
  moreover have "detached p h h'" by (rule detached_trans [OF 1(5) 2(3)])
  moreover have "spaces (vmst h') = (spaces (vmst h))(p := Some a')" using 2(6) a1(1) by simp
  ultimately show ?case using 2 g(1,2) by (intro exI [of _ h'] exI [of _ a']) auto
qed

section \<open>Copying the regions of a space\<close>

definition np :: "memregion \<Rightarrow> nat" where
  "np r = unat (pg_round_up (mr_end r - mr_start r) div pg_size)"

text \<open>A region a process may have, and a shared one whose store is known to the shared memory module.\<close>

definition user_region :: "memregion \<Rightarrow> bool" where
  "user_region r \<longleftrightarrow> pg_aligned (mr_start r) \<and> mr_start r \<le> mr_end r \<and> mr_end r \<le> USTACK_UPPERBOUND \<and> \<not> is_kern_memperm (mr_perm r)
     \<and> is_user_addr (mr_start r + pg_round_up (mr_end r - mr_start r) - 1)"

definition shareable :: "shm \<Rightarrow> memregion \<Rightarrow> bool" where
  "shareable h r \<longleftrightarrow> mr_store r \<noteq> NULL \<and> (\<exists>m c. stores h (mr_store r) = Some m \<and> ms_info m \<in> set (ctable h)
     \<and> ctxs h (ms_info m) = Some c \<and> c_store c = mr_store r)"

definition copyable :: "owner \<Rightarrow> shm \<Rightarrow> nat \<Rightarrow> nat \<Rightarrow> memregion \<Rightarrow> bool" where
  "copyable R h rs rd r \<longleftrightarrow> user_region r \<and> user_range (mr_start r) (np r) \<and> (if mr_shared r then shareable h r
     else np r \<le> 2 ^ 36 \<and> cow_ready R (vs (vmst h)) rs rd (mr_start r) (mr_start r) (np r))"

text \<open>What a copy does to the pages of a private region, and where it changes no translation.\<close>

definition pages_copied :: "nat \<Rightarrow> nat \<Rightarrow> memregion \<Rightarrow> vps \<Rightarrow> vps \<Rightarrow> bool" where
  "pages_copied rs rd r s s' \<longleftrightarrow> (\<forall>k < np r. if present (pte s rs (off (mr_start r) k))
     then pte s' rs (off (mr_start r) k) = page_to_paddr (frame (pte s rs (off (mr_start r) k))) OR PTE_P OR PTE_U
       \<and> pte s' rd (off (mr_start r) k) = pte s' rs (off (mr_start r) k)
     else \<not> present (pte s' rs (off (mr_start r) k)) \<and> \<not> present (pte s' rd (off (mr_start r) k)))"

definition page_keys :: "memregion \<Rightarrow> nat set" where
  "page_keys r = {vkey (off (mr_start r) k) | k. k < np r}"

definition same_outside :: "owner \<Rightarrow> nat set \<Rightarrow> vps \<Rightarrow> vps \<Rightarrow> bool" where
  "same_outside R K s s' \<longleftrightarrow> (\<forall>r w. PML4X w \<in> R r \<longrightarrow> vkey w \<notin> K \<longrightarrow> pte s' r w = pte s r w)"

definition held :: "nat \<Rightarrow> memregion \<Rightarrow> vps \<Rightarrow> nat \<Rightarrow> nat" where
  "held rs r s f = (if mr_shared r then 0 else uses s rs (mr_start r) (np r) f)"

lemma user_region_map:
  assumes inv: "vm_inv s" and p: "spaces s p = Some b" "p \<noteq> kas s" and new: "new = NULL \<or> regs s new = None" and r: "user_region r"
    and d: "\<forall>m \<in> set (as_regions b). mr_end r \<le> rstart s m \<or> rend s m \<le> mr_start r"
  shows "\<exists>v. memregion_map_internal s new p (mr_start r) (mr_end r - mr_start r) (mr_perm r) (mr_store r) (mr_ofs r) (mr_shared r) = Some (new, v)
    \<and> vm_inv v \<and> (if new = NULL then v = s else mapped_at s p b new (r\<lparr>mr_as := p\<rparr>) v)"
proof -
  let ?sz = "mr_end r - mr_start r"
  have u: "pg_aligned (mr_start r)" "mr_start r \<le> mr_end r" "mr_end r \<le> USTACK_UPPERBOUND" using r by (auto simp: user_region_def)
  have al: "4096 dvd unat (mr_start r)" using u(1) by (simp add: pg_aligned_iff)
  have "mr_start r \<noteq> ADDR_ANYWHERE" using al by auto
  then have f: "(if mr_start r = ADDR_ANYWHERE then find_free_vaddr s p ?sz else Some (Some (mr_start r))) = Some (Some (mr_start r))" by simp
  have e: "mr_start r + ?sz = mr_end r" by simp
  have le: "unat (mr_start r) \<le> unat (mr_end r)" "unat (mr_end r) \<le> 0xFFFFFF7FFFFFF000"
    using u(2,3) by (simp_all add: word_le_nat_alt USTACK_UPPERBOUND_def)
  have sz: "unat ?sz = unat (mr_end r) - unat (mr_start r)" using le(1) by (simp add: unat_sub_if')
  have "unat (pg_round_up ?sz) \<le> unat ?sz + 4095" using pg_round_up_ge [of ?sz] le sz by simp
  then have "unat (mr_start r) + unat (pg_round_up ?sz) < 2 ^ 64" using le sz by simp
  then have "mr_start r \<le> mr_start r + pg_round_up ?sz" by (simp add: word_le_nat_alt unat_word_ariths)
  then have "\<exists>n v. memregion_map_internal s new p (mr_start r) ?sz (mr_perm r) (mr_store r) (mr_ofs r) (mr_shared r) = Some (n, v) \<and> vm_inv v
    \<and> (if refused s p b (mr_start r) ?sz (mr_perm r) \<or> new = NULL then n = NULL \<and> v = s
       else n = new \<and> mapped_at s p b new (new_region p (mr_start r) ?sz (mr_perm r) (mr_store r) (mr_ofs r) (mr_shared r)) v)"
    by (intro map_internal_at [OF inv p(1) _ f u(1)]) (use new u(2) e in auto)
  moreover have "\<not> refused s p b (mr_start r) ?sz (mr_perm r)" using d r e by (auto simp: refused_def user_region_def not_less)
  moreover have "new_region p (mr_start r) ?sz (mr_perm r) (mr_store r) (mr_ofs r) (mr_shared r) = r\<lparr>mr_as := p\<rparr>" by (simp add: new_region_def)
  ultimately show ?thesis using new by auto
qed

text \<open>Copying one region: the parts that do not depend on its kind.\<close>

definition rmaps_kept :: "shm \<Rightarrow> shm \<Rightarrow> bool" where
  "rmaps_kept h h' \<longleftrightarrow> (\<forall>st m. stores h st = Some m \<longrightarrow> (\<exists>m'. stores h' st = Some m' \<and> set (ms_rmap m) \<subseteq> set (ms_rmap m')))"

definition region_copied :: "ptr \<Rightarrow> addrspace \<Rightarrow> ptr \<Rightarrow> memregion \<Rightarrow> shm \<Rightarrow> shm \<Rightarrow> bool" where
  "region_copied dst b new r h h' \<longleftrightarrow> shm_inv h' \<and> regs (vmst h') = (regs (vmst h))(new := Some (r\<lparr>mr_as := dst\<rparr>))
     \<and> kas (vmst h') = kas (vmst h) \<and> kpml4 (vmst h') = kpml4 (vmst h) \<and> cur_as (vmst h') = cur_as (vmst h)
     \<and> (\<exists>b'. spaces (vmst h') = (spaces (vmst h))(dst := Some b') \<and> set (as_regions b') = insert new (set (as_regions b))
          \<and> as_vpmap b' = as_vpmap b \<and> as_heap b' = as_heap b)
     \<and> (\<forall>q. shareable h q \<longrightarrow> shareable h' q) \<and> rmaps_kept h h'"

definition lacks_table :: "nat \<Rightarrow> vps \<Rightarrow> memregion \<Rightarrow> bool" where
  "lacks_table rd s r \<longleftrightarrow> \<not> mr_shared r \<and> (\<exists>k < np r. tab s rd (vpath (off (mr_start r) k)) = None)"

text \<open>What a copy does at most, however far it gets: read-only pages in the source, new or cleared entries in the target, and regions
  \<open>N\<close> in the target.  Every frame keeps the references that are not pages of the target.\<close>

definition ro_pages :: "owner \<Rightarrow> nat \<Rightarrow> nat \<Rightarrow> nat set \<Rightarrow> vps \<Rightarrow> vps \<Rightarrow> bool" where
  "ro_pages R rs rd K s s' \<longleftrightarrow> (\<forall>q w. PML4X w \<in> R q \<longrightarrow> pte s' q w = pte s q w
     \<or> q = rs \<and> vkey w \<in> K \<and> ro_entry (pte s q w) (pte s' q w) \<or> q = rd \<and> (vkey w \<in> K \<or> pte s' q w = 0))"

definition memory_safe :: "owner \<Rightarrow> nat \<Rightarrow> nat \<Rightarrow> nat set \<Rightarrow> vps \<Rightarrow> vps \<Rightarrow> bool" where
  "memory_safe R rs rd K s s' \<longleftrightarrow> vt_inv R s' \<and> spare_refs R s' rd \<and> balanced rd s s' \<and> keeps_frames R s s' \<and> same_bytes s s' \<and> ro_pages R rs rd K s s'"

definition space_within :: "ptr \<Rightarrow> ptr set \<Rightarrow> vm \<Rightarrow> vm \<Rightarrow> bool" where
  "space_within dst N v v' \<longleftrightarrow> (\<forall>b. spaces v dst = Some b \<longrightarrow> (\<exists>b'. spaces v' = (spaces v)(dst := Some b') \<and> as_vpmap b' = as_vpmap b
     \<and> set (as_regions b) \<subseteq> set (as_regions b') \<and> set (as_regions b') \<subseteq> set (as_regions b) \<union> N))
     \<and> kas v' = kas v \<and> kpml4 v' = kpml4 v \<and> cur_as v' = cur_as v \<and> (\<forall>q. q \<notin> N \<longrightarrow> regs v' q = regs v q)"

definition copy_safe :: "owner \<Rightarrow> ptr \<Rightarrow> nat \<Rightarrow> nat \<Rightarrow> nat set \<Rightarrow> ptr set \<Rightarrow> shm \<Rightarrow> shm \<Rightarrow> bool" where
  "copy_safe R dst rs rd K N h h' \<longleftrightarrow> shm_inv h' \<and> (\<forall>q. shareable h q \<longrightarrow> shareable h' q) \<and> rmaps_kept h h'
     \<and> space_within dst N (vmst h) (vmst h') \<and> memory_safe R rs rd K (vs (vmst h)) (vs (vmst h'))"

lemma ro_pages_trans:
  assumes 1: "ro_pages R rs rd K s s1" and 2: "ro_pages R rs rd L s1 s'" and d: "K \<inter> L = {}" "rs \<noteq> rd"
  shows "ro_pages R rs rd (K \<union> L) s s'"
  unfolding ro_pages_def
proof (intro allI impI)
  fix q w assume w: "PML4X w \<in> R q"
  note a = 1 [unfolded ro_pages_def, rule_format, OF w] and b = 2 [unfolded ro_pages_def, rule_format, OF w]
  show "pte s' q w = pte s q w \<or> q = rs \<and> vkey w \<in> K \<union> L \<and> ro_entry (pte s q w) (pte s' q w) \<or> q = rd \<and> (vkey w \<in> K \<union> L \<or> pte s' q w = 0)"
    using a b d by (cases "q = rd"; cases "vkey w \<in> K") auto
qed

lemma memory_safe_trans:
  assumes 1: "memory_safe R rs rd K s s1" and 2: "memory_safe R rs rd L s1 s'" and d: "K \<inter> L = {}" "rs \<noteq> rd"
  shows "memory_safe R rs rd (K \<union> L) s s'"
proof -
  have "allocated (pm s) \<subseteq> allocated (pm s1)" using 1 by (auto simp: memory_safe_def keeps_frames_def)
  then show ?thesis using 1 2 keeps_frames_trans [of R s s1 s'] balanced_trans [of rd s s1 s'] ro_pages_trans [OF _ _ d, of R s s1 s']
    by (auto simp: memory_safe_def same_bytes_def)
qed

lemma space_within_trans:
  assumes 1: "space_within dst N v v1" and 2: "space_within dst M v1 v'"
  shows "space_within dst (N \<union> M) v v'"
proof -
  have "\<exists>b'. spaces v' = (spaces v)(dst := Some b') \<and> as_vpmap b' = as_vpmap b \<and> set (as_regions b) \<subseteq> set (as_regions b')
      \<and> set (as_regions b') \<subseteq> set (as_regions b) \<union> (N \<union> M)" if b: "spaces v dst = Some b" for b
  proof -
    obtain b1 where b1: "spaces v1 = (spaces v)(dst := Some b1)" "as_vpmap b1 = as_vpmap b" "set (as_regions b) \<subseteq> set (as_regions b1)"
      "set (as_regions b1) \<subseteq> set (as_regions b) \<union> N" using 1 b unfolding space_within_def by blast
    obtain b2 where "spaces v' = (spaces v1)(dst := Some b2)" "as_vpmap b2 = as_vpmap b1" "set (as_regions b1) \<subseteq> set (as_regions b2)"
      "set (as_regions b2) \<subseteq> set (as_regions b1) \<union> M" using 2 b1(1) unfolding space_within_def by (metis fun_upd_same)
    then show ?thesis using b1 by (intro exI [of _ b2]) auto
  qed
  then show ?thesis using 1 2 unfolding space_within_def by simp
qed

lemma copy_safe_trans:
  assumes 1: "copy_safe R dst rs rd K N h h1" and 2: "copy_safe R dst rs rd L M h1 h'" and d: "K \<inter> L = {}" "rs \<noteq> rd"
  shows "copy_safe R dst rs rd (K \<union> L) (N \<union> M) h h'"
proof -
  have "rmaps_kept h h'" using 1 2 unfolding copy_safe_def rmaps_kept_def by (meson order_trans)
  then show ?thesis using 1 2 space_within_trans memory_safe_trans [OF _ _ d] unfolding copy_safe_def by blast
qed

lemma copy_safe_mono:
  assumes "copy_safe R dst rs rd K N h h'" "K \<subseteq> K'" "N \<subseteq> N'"
  shows "copy_safe R dst rs rd K' N' h h'"
proof -
  have "ro_pages R rs rd K' s s'" if "ro_pages R rs rd K s s'" for s s' using that assms(2) unfolding ro_pages_def by blast
  moreover have "space_within dst N' v v'" if "space_within dst N v v'" for v v' using that assms(3) unfolding space_within_def by blast
  ultimately show ?thesis using assms(1) by (auto simp: copy_safe_def memory_safe_def)
qed

lemma memory_safe_refl: "vt_inv R s \<Longrightarrow> spare_refs R s rd \<Longrightarrow> memory_safe R rs rd K s s"
  by (simp add: memory_safe_def same_bytes_def ro_pages_def)

lemma copy_safe_refl:
  assumes "shm_inv h" "vt_inv R (vs (vmst h))" "spare_refs R (vs (vmst h)) rd"
  shows "copy_safe R dst rs rd K N h h"
proof -
  have "space_within dst N (vmst h) (vmst h)" unfolding space_within_def using fun_upd_idem [of "spaces (vmst h)" dst] by fastforce
  then show ?thesis using assms memory_safe_refl by (simp add: copy_safe_def rmaps_kept_def)
qed

text \<open>Taking back a region that has just been mapped.\<close>

lemma unmapped_flush:
  assumes "unmapped R r s s'"
  shows "unmapped R r s (vpmap_flush_tlb s' c)"
proof -
  have u: "vt_inv R s'" "spare_refs R s' r" "balanced r s s'" "keeps_frames R s s'" using assms by (auto simp: unmapped_def)
  let ?s = "vpmap_flush_tlb s' c"
  have k: "keeps_frames R s' ?s" by (simp add: keeps_frames_def)
  have "spare_refs R ?s r" "balanced r s' ?s" by (rule spare_same [OF u(1,2) k]; simp)+
  moreover have "allocated (pm s) \<subseteq> allocated (pm s')" using u(4) by (auto simp: keeps_frames_def)
  ultimately show ?thesis using assms keeps_frames_trans [OF u(4) k] balanced_trans [OF u(3)] u(1) by (auto simp: unmapped_def)
qed

lemma invalidate_cases:
  assumes "cur_pml4 s = Some t"
  shows "\<exists>w. memregion_invalidate s r = Some (s\<lparr>vs := w\<rparr>) \<and> (w = vs s \<or> w = vpmap_flush_tlb (vs s) t)"
  using assms by (auto simp: memregion_invalidate_def intro: exI [of _ "vs s"])

definition same_space :: "ptr \<Rightarrow> addrspace \<Rightarrow> vm \<Rightarrow> vm \<Rightarrow> bool" where
  "same_space dst b v v' \<longleftrightarrow> regs v' = regs v \<and> (\<exists>b'. spaces v' = (spaces v)(dst := Some b') \<and> set (as_regions b') = set (as_regions b)
     \<and> as_vpmap b' = as_vpmap b \<and> as_heap b' = as_heap b) \<and> kas v' = kas v \<and> kpml4 v' = kpml4 v \<and> cur_as v' = cur_as v"

lemma unmap_new:
  assumes inv: "vm_inv s" and b: "spaces s dst = Some b" "as_vpmap b = Some rd" and new: "regs s new = None"
    and v: "vm_inv v" "mapped_at s dst b new (r\<lparr>mr_as := dst\<rparr>) v" and c: "cur_pml4 s \<noteq> None"
    and w: "vt_inv R w" "spare_refs R w rd" "R rd = {0..<511}" "user_range (mr_start r) (np r)"
  shows "\<exists>v'. memregion_unmap_internal (v\<lparr>vs := w\<rparr>) new = Some v' \<and> vm_inv v' \<and> same_space dst b s v' \<and> unmapped R rd w (vs v')"
proof -
  let ?r = "r\<lparr>mr_as := dst\<rparr>" and ?v = "v\<lparr>vs := w\<rparr>" and ?n = "pg_round_up (mr_end r - mr_start r) div pg_size"
  obtain b1 where m: "regs v = (regs s)(new := Some ?r)" "spaces v = (spaces s)(dst := Some b1)" "set (as_regions b1) = insert new (set (as_regions b))"
    "as_vpmap b1 = Some rd" "as_heap b1 = as_heap b" "kas v = kas s" "kpml4 v = kpml4 s" "cur_as v = cur_as s"
    using v(2) b(2) by (auto simp: mapped_at_def)
  obtain w1 where w1: "vpmap_unmap w (Some rd) (mr_start r) ?n = Some w1" "unmapped R rd w w1"
    using vpmap_unmap_ok [OF w(1-3), of "mr_start r" ?n] w(4) by (auto simp: np_def)
  have vi: "vm_inv ?v" using v(1) as_inv_regs [of ?v v] by (simp add: vm_inv_def)
  have i: "as_inv v dst b1" "as_inv s dst b" using v(1) m(2) inv b(1) by (simp_all add: vm_inv_def)
  have d: "distinct (as_regions b1)" using as_invD(1) [OF i(1)] .
  have nb: "new \<notin> set (as_regions b)" using as_invD(3) [OF i(2)] new by fastforce
  have ct: "cur_pml4 v \<noteq> None" using c m(2,4,7,8) b by (auto simp: cur_pml4_def split: if_splits)
  define u where "u = set_space dst (b1\<lparr>as_regions := remove1 new (as_regions b1)\<rparr>) (v\<lparr>vs := w1\<rparr>)"
  have u: "regs u = regs v" "spaces u = (spaces s)(dst := Some (b1\<lparr>as_regions := remove1 new (as_regions b1)\<rparr>))" "vs u = w1"
    "kas u = kas s" "kpml4 u = kpml4 s" "cur_as u = cur_as s" using m by (simp_all add: u_def set_space_def)
  obtain t where t: "cur_pml4 u = Some t" using ct m(2,4,7,8) u by (auto simp: cur_pml4_def split: if_splits bind_splits)
  obtain w2 where w2: "memregion_invalidate u ?r = Some (u\<lparr>vs := w2\<rparr>)" "unmapped R rd w w2"
    using invalidate_cases [OF t, of ?r] w1(2) unmapped_flush [OF w1(2), of t] u(3) by auto
  let ?v' = "u\<lparr>vs := w2, regs := (regs u)(new := None)\<rparr>"
  have run: "memregion_unmap_internal ?v new = Some ?v'"
    using m(1,2,4) w1(1) w2(1) by (simp add: memregion_unmap_internal_def flip: u_def)
  have x: "regs ?v new = Some ?r" "spaces ?v (mr_as ?r) = Some b1"
    "vpmap_unmap (vs ?v) (as_vpmap b1) (mr_start ?r) (pg_round_up (mr_end ?r - mr_start ?r) div pg_size) = Some w1"
    "cur_as ?v = NULL \<or> (\<exists>b t. spaces ?v (cur_as ?v) = Some b \<and> as_vpmap b = Some t)"
    using ct m(1,2,4) w1(1) by (auto simp: cur_pml4_def split: if_splits bind_splits)
  have "vm_inv ?v'" using unmap_internal_ok [OF vi x] unfolding run by blast
  moreover have 1: "(regs u)(new := None) = regs s" unfolding u(1) m(1) using new by (simp add: fun_upd_idem)
  have 2: "set (remove1 new (as_regions b1)) = set (as_regions b)" using d m(3) nb by auto
  have "same_space dst b s ?v'" unfolding same_space_def
    by (intro conjI exI [of _ "b1\<lparr>as_regions := remove1 new (as_regions b1)\<rparr>"]) (use u(2-6) m(4,5) b(2) 1 2 in simp_all)
  ultimately show ?thesis using run w2(2) by (intro exI [of _ ?v']) simp
qed

lemma unmapped_safe: "unmapped R rd s s' \<Longrightarrow> memory_safe R rs rd {} s s'"
  unfolding unmapped_def memory_safe_def same_bytes_def ro_pages_def by auto

text \<open>A region is mapped, the memory changes to \<open>w\<close>, and the region is unmapped again.\<close>

lemma copy_undone:
  assumes inv: "shm_inv h" and b: "spaces (vmst h) dst = Some b" "as_vpmap b = Some rd" and new: "regs (vmst h) new = None"
    and v: "vm_inv v" "mapped_at (vmst h) dst b new (r\<lparr>mr_as := dst\<rparr>) v" and c: "cur_pml4 (vmst h) \<noteq> None"
    and w: "memory_safe R rs rd K (vs (vmst h)) w" "rs \<noteq> rd" "R rd = {0..<511}" "user_range (mr_start r) (np r)"
  shows "\<exists>v' b'. memregion_unmap_internal (v\<lparr>vs := w\<rparr>) new = Some v' \<and> copy_safe R dst rs rd K {new} h (h\<lparr>vmst := v'\<rparr>) \<and> regs v' new = None
    \<and> free_pages (pm (vs v')) = free_pages (pm w) \<and> spaces v' dst = Some b' \<and> as_heap b' = as_heap b"
proof -
  have "vt_inv R w" "spare_refs R w rd" using w(1) by (auto simp: memory_safe_def)
  from unmap_new [OF shm_invD(1) [OF inv] b new v c this w(3,4)] obtain v' where
    v': "memregion_unmap_internal (v\<lparr>vs := w\<rparr>) new = Some v'" "vm_inv v'" "same_space dst b (vmst h) v'" "unmapped R rd w (vs v')" by blast
  obtain b' where b': "spaces v' = (spaces (vmst h))(dst := Some b')" "set (as_regions b') = set (as_regions b)" "as_vpmap b' = as_vpmap b" "as_heap b' = as_heap b"
    using v'(3) by (auto simp: same_space_def)
  have rg: "regs v' = regs (vmst h)" using v'(3) by (simp add: same_space_def)
  have "node_inv v' st x" if "node_inv (vmst h) st x" for st x
    using that b(1) b'(1,2) rg unfolding node_inv_def by (cases "fst x = dst") auto
  then have "shm_inv (h\<lparr>vmst := v'\<rparr>)" using shm_inv_vm [OF inv v'(2)] by blast
  moreover have "memory_safe R rs rd K (vs (vmst h)) (vs v')" using memory_safe_trans [OF w(1) unmapped_safe [OF v'(4)] _ w(2)] by simp
  moreover have "space_within dst {new} (vmst h) v'" using v'(3) b' b(1) unfolding space_within_def same_space_def by auto
  ultimately have "copy_safe R dst rs rd K {new} h (h\<lparr>vmst := v'\<rparr>)" by (simp add: copy_safe_def shareable_def rmaps_kept_def)
  then show ?thesis using v'(1,4) rg new b' by (intro exI [of _ v'] exI [of _ b']) (simp add: unmapped_def)
qed

lemma copy_shared:
  assumes inv: "shm_inv h" and p: "spaces (vmst h) dst = Some b" "dst \<noteq> kas (vmst h)" and new: "new \<noteq> NULL" "regs (vmst h) new = None"
    and n: "regs (vmst h) n = Some r" "user_region r" "mr_shared r" "shareable h r"
    and d: "\<forall>m \<in> set (as_regions b). mr_end r \<le> rstart (vmst h) m \<or> rend (vmst h) m \<le> mr_start r"
  shows "\<exists>h' m. memregion_copy_internal h (new, True) dst n (mr_start r) = Some (new, h') \<and> region_copied dst b new r h h'
    \<and> vs (vmst h') = vs (vmst h) \<and> stores h' (mr_store r) = Some m \<and> (dst, new) \<in> set (ms_rmap m)"
proof -
  obtain v where v: "memregion_map_internal (vmst h) new dst (mr_start r) (mr_end r - mr_start r) (mr_perm r) (mr_store r) (mr_ofs r) (mr_shared r) = Some (new, v)"
    "vm_inv v" "mapped_at (vmst h) dst b new (r\<lparr>mr_as := dst\<rparr>) v"
    using user_region_map [OF shm_invD(1) [OF inv] p _ n(2) d, of new] new by auto
  obtain m c where m: "stores h (mr_store r) = Some m" "ms_info m \<in> set (ctable h)" "ctxs h (ms_info m) = Some c" "c_store c = mr_store r" "mr_store r \<noteq> NULL"
    using n(4) by (auto simp: shareable_def)
  have nz: "ms_info m \<noteq> NULL" using m(2) shm_invD(3) [OF inv] by metis
  let ?c = "c\<lparr>c_refcnt := c_refcnt c + 1\<rparr>" and ?m = "m\<lparr>ms_rmap := ms_rmap m @ [(dst, new)]\<rparr>"
  let ?h = "h\<lparr>vmst := v, ctxs := (ctxs h)(ms_info m := Some ?c), stores := (stores h)(c_store c := Some ?m)\<rparr>"
  have rv: "regs v new = Some (r\<lparr>mr_as := dst\<rparr>)" using v(3) by (simp add: mapped_at_def)
  have "h\<lparr>vmst := v, stores := (stores h)(c_store c := Some ?m), ctxs := (ctxs h)(ms_info m := Some ?c)\<rparr> = ?h" by simp
  then have run: "memregion_copy_internal h (new, True) dst n (mr_start r) = Some (new, ?h)"
    using n(1,3) v(1) m new(1) nz rv
    by (simp add: memregion_copy_internal_def addContextRef_def createMapping_Internal_def set_ctx_def set_store_def)
  have "shm_inv ?h" using shm_inv_map [OF inv m(2,3) _ v(2,3) p(1) new(2)] m(1,4) n(3) by simp
  moreover have "shareable ?h q" if q: "shareable h q" for q
  proof (cases "mr_store q = mr_store r")
    case True
    then show ?thesis using m by (simp add: shareable_def)
  next
    case False
    then show ?thesis using q m unfolding shareable_def by (auto simp del: ex_simps) (metis option.inject)
  qed
  moreover have "rmaps_kept h ?h" using m by (auto simp: rmaps_kept_def)
  ultimately have "region_copied dst b new r h ?h" using v(3) by (auto simp: region_copied_def mapped_at_def)
  then show ?thesis using run v(3) m(1,4) by (intro exI [of _ ?h] exI [of _ ?m]) (simp add: mapped_at_def)
qed

text \<open>Without a reverse mapping \<open>addContextRef\<close> unmaps the new region, which the caller returns all the same.\<close>

lemma copy_missing:
  assumes inv: "shm_inv h" and p: "spaces (vmst h) dst = Some b" "dst \<noteq> kas (vmst h)" and new: "new \<noteq> NULL" "regs (vmst h) new = None"
    and n: "regs (vmst h) n = Some r" "user_region r" "mr_shared r" "shareable h r"
    and d: "\<forall>m \<in> set (as_regions b). mr_end r \<le> rstart (vmst h) m \<or> rend (vmst h) m \<le> mr_start r"
    and t: "as_vpmap b = Some rd" "rs \<noteq> rd" "cur_pml4 (vmst h) \<noteq> None"
    and v: "vt_inv R (vs (vmst h))" "spare_refs R (vs (vmst h)) rd" "R rd = {0..<511}" "user_range (mr_start r) (np r)"
  shows "\<exists>h' b'. memregion_copy_internal h (new, False) dst n (mr_start r) = Some (new, h') \<and> copy_safe R dst rs rd {} {new} h h'
    \<and> spaces (vmst h') dst = Some b' \<and> as_heap b' = as_heap b \<and> regs (vmst h') new = None"
proof -
  obtain v where mp: "memregion_map_internal (vmst h) new dst (mr_start r) (mr_end r - mr_start r) (mr_perm r) (mr_store r) (mr_ofs r) (mr_shared r) = Some (new, v)"
    "vm_inv v" "mapped_at (vmst h) dst b new (r\<lparr>mr_as := dst\<rparr>) v"
    using user_region_map [OF shm_invD(1) [OF inv] p _ n(2) d, of new] new by auto
  obtain m c where m: "stores h (mr_store r) = Some m" "ms_info m \<in> set (ctable h)" "ctxs h (ms_info m) = Some c" "mr_store r \<noteq> NULL"
    using n(4) by (auto simp: shareable_def)
  have nz: "ms_info m \<noteq> NULL" using m(2) shm_invD(3) [OF inv] by metis
  have "memory_safe R rs rd {} (vs (vmst h)) (vs (vmst h))" using memory_safe_refl [OF v(1,2)] .
  moreover have "v\<lparr>vs := vs (vmst h)\<rparr> = v" using mp(3) by (simp add: mapped_at_def)
  ultimately obtain v' b' where u: "memregion_unmap_internal v new = Some v'" "copy_safe R dst rs rd {} {new} h (h\<lparr>vmst := v'\<rparr>)" "regs v' new = None"
    "spaces v' dst = Some b'" "as_heap b' = as_heap b"
    using copy_undone [where R = R and w = "vs (vmst h)", OF inv p(1) t(1) new(2) mp(2,3) t(3) _ t(2) v(3,4)] by metis
  have "memregion_copy_internal h (new, False) dst n (mr_start r) = Some (new, h\<lparr>vmst := v'\<rparr>)"
    using n(1,3) mp(1) m new(1) nz u(1) by (simp add: memregion_copy_internal_def addContextRef_def createMapping_Internal_def memregion_unmap_def)
  then show ?thesis using u by (intro exI [of _ "h\<lparr>vmst := v'\<rparr>"] exI [of _ b']) simp
qed

lemma copy_private:
  assumes inv: "shm_inv h" and p: "spaces (vmst h) dst = Some b" "dst \<noteq> kas (vmst h)" and new: "new \<noteq> NULL" "regs (vmst h) new = None"
    and n: "regs (vmst h) n = Some r" "user_region r" "\<not> mr_shared r" "mr_as r \<noteq> dst"
    and d: "\<forall>m \<in> set (as_regions b). mr_end r \<le> rstart (vmst h) m \<or> rend (vmst h) m \<le> mr_start r"
    and t: "spaces (vmst h) (mr_as r) = Some a" "as_vpmap a = Some rs" "as_vpmap b = Some rd" "rs \<noteq> rd" "cur_pml4 (vmst h) = Some cur"
    and v: "vt_inv R (vs (vmst h))" "np r \<le> 2 ^ 36" "cow_ready R (vs (vmst h)) rs rd (mr_start r) (mr_start r) (np r)"
    and sp: "spare_refs R (vs (vmst h)) rd" "R rd = {0..<511}" "user_range (mr_start r) (np r)"
  defines "s \<equiv> vs (vmst h)"
  shows "\<exists>y h' b'. memregion_copy_internal h (new, nd) dst n (mr_start r) = Some (y, h') \<and> copy_safe R dst rs rd (page_keys r) {new} h h'
    \<and> spaces (vmst h') dst = Some b' \<and> as_heap b' = as_heap b
    \<and> (y = new \<and> region_copied dst b new r h h' \<and> pages_copied rs rd r s (vs (vmst h')) \<and> same_outside R (page_keys r) s (vs (vmst h'))
         \<and> (\<forall>f \<in> allocated (pm s). rc (pm (vs (vmst h'))) f = rc (pm s) f + int (held rs r s f))
       \<or> y = NULL \<and> free_pages (pm (vs (vmst h'))) = {} \<and> lacks_table rd s r)"
proof -
  obtain v where mp: "memregion_map_internal (vmst h) new dst (mr_start r) (mr_end r - mr_start r) (mr_perm r) (mr_store r) (mr_ofs r) (mr_shared r) = Some (new, v)"
    "vm_inv v" "mapped_at (vmst h) dst b new (r\<lparr>mr_as := dst\<rparr>) v"
    using user_region_map [OF shm_invD(1) [OF inv] p _ n(2) d, of new] new by auto
  obtain b' where b': "spaces v = (spaces (vmst h))(dst := Some b')" "as_vpmap b' = Some rd" "as_heap b' = as_heap b"
    "set (as_regions b') = insert new (set (as_regions b))" "vs v = s" using mp(3) t(3) by (auto simp: mapped_at_def s_def)
  have al: "pg_round_down (mr_start r) = mr_start r" using n(2) by (intro pg_round_down_aligned) (simp add: user_region_def pg_aligned_iff)
  have cur: "\<exists>c. cur_pml4 v = Some c" using t(3,5) mp(3) p(1) by (auto simp: cur_pml4_def mapped_at_def split: if_splits)
  then obtain cur' where cur': "cur_pml4 v = Some cur'" ..
  from cow_copy_ok [OF v(1) t(4) v(2), of "mr_start r" "mr_start r" cur', unfolded al, OF v(3)] obtain err w where
    w: "vpmap_cow_copy s cur' (Some rs) (Some rd) (mr_start r) (mr_start r) (np r) = Some (err, w)" "vt_inv R w" "keeps_frames R s w"
      "\<forall>i \<in> allocated (pm s). i \<in> allocated (pm w) \<and> pgdata w i = pgdata s i"
      "err = ERR_OK \<and> pages_copied rs rd r s w \<and> (\<forall>f \<in> allocated (pm s). rc (pm w) f = rc (pm s) f + int (uses s rs (mr_start r) (np r) f))
       \<or> err = ERR_VPMAP_MAP \<and> (\<forall>k \<le> MAX_ORDER. freeblocks (pm w) k = []) \<and> (\<exists>k < np r. tab s rd (vpath (off (mr_start r) k)) = None)"
      "\<forall>r' x. PML4X x \<in> R r' \<longrightarrow> (\<forall>k < np r. (r' = rs \<longrightarrow> vkey x \<noteq> vkey (off (mr_start r) k)) \<and> (r' = rd \<longrightarrow> vkey x \<noteq> vkey (off (mr_start r) k)))
         \<longrightarrow> pte w r' x = pte s r' x"
    unfolding s_def pages_copied_def uses_def by blast
  note bal = cow_copy_balance [of R s rs rd "np r" "mr_start r" "mr_start r", unfolded al s_def, OF v(1) t(4) v(2,3) sp(2,1) w(1) [unfolded s_def], folded s_def]
  have "ro_pages R rs rd (page_keys r) s w" unfolding ro_pages_def
  proof (intro allI impI)
    fix q x assume x: "PML4X x \<in> R q"
    have "ro_entry (pte s rs x) (pte w rs x)" if "vkey x = vkey (off (mr_start r) k)" "k < np r" for k
      using bal(3) [OF that(2)] pte_cong [OF that(1)] by simp
    then show "pte w q x = pte s q x \<or> q = rs \<and> vkey x \<in> page_keys r \<and> ro_entry (pte s q x) (pte w q x) \<or> q = rd \<and> (vkey x \<in> page_keys r \<or> pte w q x = 0)"
      using w(6) x unfolding page_keys_def by blast
  qed
  then have ms: "memory_safe R rs rd (page_keys r) s w" using w(2-4) bal(1,2) by (simp add: memory_safe_def same_bytes_def)
  let ?h = "h\<lparr>vmst := v\<lparr>vs := w\<rparr>\<rparr>"
  have run: "memregion_copy_internal h (new, nd) dst n (mr_start r) = (if err \<noteq> ERR_OK
      then do { v \<leftarrow> memregion_unmap_internal (vmst ?h) new; Some (NULL, ?h\<lparr>vmst := v\<rparr>) } else Some (new, ?h))"
    using n mp(1) new(1) b' t(1,2) cur' w(1) by (simp add: memregion_copy_internal_def np_def [symmetric])
  show ?thesis
  proof (cases "err = ERR_OK")
    case False
    then have "free_pages (pm w) = {}" using no_free_pages [OF vt_invD(1) [OF w(2)]] w(5) by simp
    moreover have "cur_pml4 (vmst h) \<noteq> None" using t(5) by simp
    from copy_undone [OF inv p(1) t(3) new(2) mp(2,3) this ms [unfolded s_def] t(4) sp(2,3)] obtain v' b'' where
      "memregion_unmap_internal (v\<lparr>vs := w\<rparr>) new = Some v'" "copy_safe R dst rs rd (page_keys r) {new} h (h\<lparr>vmst := v'\<rparr>)"
      "free_pages (pm (vs v')) = free_pages (pm w)" "spaces v' dst = Some b''" "as_heap b'' = as_heap b" by blast
    moreover have "lacks_table rd s r" using w(5) False n(3) by (simp add: lacks_table_def)
    ultimately show ?thesis using run False by (intro exI [of _ NULL] exI [of _ "h\<lparr>vmst := v'\<rparr>"] exI [of _ b'']) simp
  next
    case True
    have "node_inv (v\<lparr>vs := w\<rparr>) st x" if "node_inv (vmst h) st x" for st x
      using node_inv_map [OF mp(3) p(1) new(2) that] by (simp add: node_inv_def)
    moreover have "vm_inv (v\<lparr>vs := w\<rparr>)" using mp(2) as_inv_regs [of "v\<lparr>vs := w\<rparr>" v] by (simp add: vm_inv_def)
    ultimately have "shm_inv ?h" using shm_inv_vm [OF inv] by blast
    then have rc: "region_copied dst b new r h ?h" using mp(3) by (auto simp: region_copied_def mapped_at_def shareable_def rmaps_kept_def)
    have "space_within dst {new} (vmst h) (v\<lparr>vs := w\<rparr>)" using mp(3) b' p(1) t(3) by (auto simp: space_within_def mapped_at_def)
    then have "copy_safe R dst rs rd (page_keys r) {new} h ?h"
      using ms \<open>shm_inv ?h\<close> by (simp add: copy_safe_def s_def shareable_def rmaps_kept_def)
    moreover have "same_outside R (page_keys r) s w" using w(6) by (auto simp: same_outside_def page_keys_def)
    ultimately show ?thesis using True run w(5) n(3) rc b' by (intro exI [of _ new] exI [of _ ?h] exI [of _ b']) (auto simp: held_def)
  qed
qed

text \<open>Copying a list of regions.  \<open>priv_keys\<close> are the pages whose translations a copy may change.\<close>

definition priv_keys :: "memregion \<Rightarrow> nat set" where
  "priv_keys r = (if mr_shared r then {} else page_keys r)"

definition one_copied :: "ptr \<Rightarrow> nat \<Rightarrow> nat \<Rightarrow> shm \<Rightarrow> shm \<Rightarrow> memregion \<Rightarrow> ptr \<times> bool \<Rightarrow> bool" where
  "one_copied dst rs rd h h' r x \<longleftrightarrow> regs (vmst h') (fst x) = Some (r\<lparr>mr_as := dst\<rparr>)
     \<and> (if mr_shared r then \<exists>m. stores h' (mr_store r) = Some m \<and> (dst, fst x) \<in> set (ms_rmap m)
        else pages_copied rs rd r (vs (vmst h)) (vs (vmst h')))"

definition space_grown :: "ptr \<Rightarrow> ptr set \<Rightarrow> vm \<Rightarrow> vm \<Rightarrow> bool" where
  "space_grown dst N v v' \<longleftrightarrow> (\<forall>b. spaces v dst = Some b \<longrightarrow> (\<exists>b'. spaces v' = (spaces v)(dst := Some b') \<and> as_vpmap b' = as_vpmap b
     \<and> set (as_regions b') = set (as_regions b) \<union> N)) \<and> kas v' = kas v \<and> kpml4 v' = kpml4 v \<and> cur_as v' = cur_as v"

definition memory_shared :: "owner \<Rightarrow> nat \<Rightarrow> memregion list \<Rightarrow> vps \<Rightarrow> vps \<Rightarrow> bool" where
  "memory_shared R rs rgs s s' \<longleftrightarrow> vt_inv R s' \<and> keeps_frames R s s' \<and> same_bytes s s' \<and> same_outside R (\<Union>r \<in> set rgs. priv_keys r) s s'
     \<and> (\<forall>f \<in> allocated (pm s). rc (pm s') f = rc (pm s) f + int (\<Sum>r \<leftarrow> rgs. held rs r s f))"

definition copied :: "owner \<Rightarrow> ptr \<Rightarrow> nat \<Rightarrow> nat \<Rightarrow> memregion list \<Rightarrow> (ptr \<times> bool) list \<Rightarrow> shm \<Rightarrow> shm \<Rightarrow> bool" where
  "copied R dst rs rd rgs news h h' \<longleftrightarrow> shm_inv h' \<and> (\<forall>q. shareable h q \<longrightarrow> shareable h' q) \<and> rmaps_kept h h'
     \<and> (\<forall>q. q \<notin> fst ` set news \<longrightarrow> regs (vmst h') q = regs (vmst h) q) \<and> space_grown dst (fst ` set news) (vmst h) (vmst h')
     \<and> memory_shared R rs rgs (vs (vmst h)) (vs (vmst h')) \<and> list_all2 (one_copied dst rs rd h h') rgs news"

definition paged :: "owner \<Rightarrow> nat \<Rightarrow> nat \<Rightarrow> memregion \<Rightarrow> bool" where
  "paged R rs rd r \<longleftrightarrow> mr_shared r \<or> (\<forall>k < np r. PML4X (off (mr_start r) k) \<in> R rs \<and> PML4X (off (mr_start r) k) \<in> R rd)"

lemma copyable_paged: "copyable R h rs rd r \<Longrightarrow> paged R rs rd r"
  by (auto simp: copyable_def paged_def cow_ready_def)

lemma outside_pages:
  assumes "same_outside R K s s'" "paged R rs rd r" "priv_keys r \<inter> K = {}" "\<not> mr_shared r" "k < np r"
  shows "pte s' rs (off (mr_start r) k) = pte s rs (off (mr_start r) k)" "pte s' rd (off (mr_start r) k) = pte s rd (off (mr_start r) k)"
proof -
  have "vkey (off (mr_start r) k) \<notin> K" using assms(3,4,5) by (auto simp: priv_keys_def page_keys_def)
  then show "pte s' rs (off (mr_start r) k) = pte s rs (off (mr_start r) k)" "pte s' rd (off (mr_start r) k) = pte s rd (off (mr_start r) k)"
    using assms(1,2,4,5) by (auto simp: same_outside_def paged_def)
qed

lemma held_outside:
  assumes "same_outside R K s s'" "paged R rs rd r" "priv_keys r \<inter> K = {}"
  shows "held rs r s' f = held rs r s f"
  unfolding held_def using outside_pages(1) [OF assms] by (auto intro!: uses_cong)

lemma pages_copied_outside:
  assumes "same_outside R K s s'" "paged R rs rd r" "priv_keys r \<inter> K = {}" "\<not> mr_shared r"
  shows "pages_copied rs rd r s' t = pages_copied rs rd r s t" "pages_copied rs rd r t s' = pages_copied rs rd r t s"
  unfolding pages_copied_def using outside_pages [OF assms] by auto

lemma copyable_safe:
  assumes m: "memory_safe R rs rd K (vs (vmst h)) (vs (vmst h'))" "rs \<noteq> rd" "priv_keys r \<inter> K = {}"
    and s: "\<And>q. shareable h q \<Longrightarrow> shareable h' q" and c: "copyable R h rs rd r"
  shows "copyable R h' rs rd r"
proof (cases "mr_shared r")
  case False
  have ro: "ro_pages R rs rd K (vs (vmst h)) (vs (vmst h'))" and k: "keeps_frames R (vs (vmst h)) (vs (vmst h'))" using m(1) by (auto simp: memory_safe_def)
  have "pte (vs (vmst h')) rs (off (mr_start r) k) = pte (vs (vmst h)) rs (off (mr_start r) k)
      \<and> (pte (vs (vmst h')) rd (off (mr_start r) k) = pte (vs (vmst h)) rd (off (mr_start r) k) \<or> pte (vs (vmst h')) rd (off (mr_start r) k) = 0)" if "k < np r" for k
  proof -
    have "vkey (off (mr_start r) k) \<notin> K" using m(3) False that by (auto simp: priv_keys_def page_keys_def)
    then show ?thesis using copyable_paged [OF c] False that m(2) ro unfolding paged_def ro_pages_def by metis
  qed
  moreover have "PPN 0 = 0" "\<not> present 0" by (simp_all add: PPN_def)
  ultimately have "cow_ready R (vs (vmst h')) rs rd (mr_start r) (mr_start r) (np r)"
    using c False keeps_data_frame [OF k] unfolding copyable_def cow_ready_def by (metis (no_types, lifting))
  then show ?thesis using c False by (simp add: copyable_def)
qed (use s c in \<open>auto simp: copyable_def\<close>)

lemma memory_shared_Cons:
  assumes a: "memory_shared R rs [r] s s1" and b: "memory_shared R rs rgs s1 s'"
    and d: "\<forall>q \<in> set rgs. paged R rs rd q \<and> priv_keys q \<inter> priv_keys r = {}"
  shows "memory_shared R rs (r # rgs) s s'"
proof -
  have o: "same_outside R (priv_keys r) s s1" "same_outside R (\<Union>r \<in> set rgs. priv_keys r) s1 s'" using a b by (auto simp: memory_shared_def)
  have al: "allocated (pm s) \<subseteq> allocated (pm s1)" using a by (auto simp: memory_shared_def keeps_frames_def)
  have h: "(\<Sum>r \<leftarrow> rgs. held rs r s1 f) = (\<Sum>r \<leftarrow> rgs. held rs r s f)" for f
    using held_outside [OF o(1), of rs rd _ f] d by (intro arg_cong [where f = sum_list] map_cong) auto
  have "same_outside R (\<Union>r \<in> set (r # rgs). priv_keys r) s s'" using o by (auto simp: same_outside_def)
  moreover have "same_bytes s s'" using a b al by (auto simp: memory_shared_def same_bytes_def)
  moreover have "keeps_frames R s s'" using a b by (auto simp: memory_shared_def intro: keeps_frames_trans)
  moreover have "rc (pm s') f = rc (pm s) f + int (\<Sum>r \<leftarrow> r # rgs. held rs r s f)" if "f \<in> allocated (pm s)" for f
    using a b al that h [of f] by (auto simp: memory_shared_def)
  ultimately show ?thesis using b by (simp add: memory_shared_def)
qed

lemma copied_Cons:
  assumes a: "copied R dst rs rd [r] [x] h h1" and b: "copied R dst rs rd rgs news h1 h'"
    and p: "paged R rs rd r" "\<forall>q \<in> set rgs. paged R rs rd q \<and> priv_keys q \<inter> priv_keys r = {}" and x: "fst x \<notin> fst ` set news"
  shows "copied R dst rs rd (r # rgs) (x # news) h h'"
proof -
  let ?s = "vs (vmst h)" and ?s1 = "vs (vmst h1)" and ?s' = "vs (vmst h')" and ?K = "\<Union>r \<in> set rgs. priv_keys r"
  have o: "same_outside R (priv_keys r) ?s ?s1" "same_outside R ?K ?s1 ?s'" using a b by (auto simp: copied_def memory_shared_def)
  have rk: "priv_keys r \<inter> ?K = {}" using p(2) by auto
  have "one_copied dst rs rd h h' r x"
  proof (cases "mr_shared r")
    case True
    then obtain m where m: "stores h1 (mr_store r) = Some m" "(dst, fst x) \<in> set (ms_rmap m)" using a by (auto simp: copied_def one_copied_def)
    then obtain m' where "stores h' (mr_store r) = Some m'" "(dst, fst x) \<in> set (ms_rmap m')"
      using b unfolding copied_def rmaps_kept_def by blast
    then show ?thesis using a b x True by (auto simp: copied_def one_copied_def)
  next
    case False
    then show ?thesis using a b x pages_copied_outside(2) [OF o(2) p(1) rk] by (auto simp: copied_def one_copied_def)
  qed
  moreover have "one_copied dst rs rd h1 h' q y = one_copied dst rs rd h h' q y" if "q \<in> set rgs" for q y
    using p(2) that pages_copied_outside(1) [OF o(1)] by (auto simp: one_copied_def)
  then have "list_all2 (one_copied dst rs rd h h') rgs news"
    using b list.rel_mono_strong [of "one_copied dst rs rd h1 h'" rgs news] unfolding copied_def by blast
  moreover have "space_grown dst (fst ` set (x # news)) (vmst h) (vmst h')"
    using a b unfolding copied_def space_grown_def by fastforce
  moreover have "rmaps_kept h h'" using a b unfolding copied_def rmaps_kept_def by (meson order_trans)
  moreover have "memory_shared R rs (r # rgs) ?s ?s'" using a b memory_shared_Cons [OF _ _ p(2)] by (auto simp: copied_def)
  ultimately show ?thesis using a b by (auto simp: copied_def)
qed

text \<open>Recording the copy of the heap region.\<close>

lemma space_grown_heap:
  assumes g: "space_grown dst N v v1" and b: "spaces v1 dst = Some b"
  shows "space_grown dst N v (set_space dst (b\<lparr>as_heap := n\<rparr>) v1)"
proof -
  have "\<exists>b'. spaces (set_space dst (b\<lparr>as_heap := n\<rparr>) v1) = (spaces v)(dst := Some b') \<and> as_vpmap b' = as_vpmap c
      \<and> set (as_regions b') = set (as_regions c) \<union> N" if c: "spaces v dst = Some c" for c
  proof -
    obtain b' where b': "spaces v1 = (spaces v)(dst := Some b')" "as_vpmap b' = as_vpmap c" "set (as_regions b') = set (as_regions c) \<union> N"
      using g c by (auto simp: space_grown_def)
    then have "b = b'" using b by simp
    then show ?thesis using b' by (intro exI [of _ "b\<lparr>as_heap := n\<rparr>"]) (simp add: set_space_def)
  qed
  then show ?thesis using g by (auto simp: space_grown_def set_space_def)
qed

lemma shm_inv_heap:
  assumes inv: "shm_inv h1" and b: "spaces (vmst h1) dst = Some b"
  shows "shm_inv (h1\<lparr>vmst := set_space dst (b\<lparr>as_heap := n\<rparr>) (vmst h1)\<rparr>)"
proof -
  let ?v = "set_space dst (b\<lparr>as_heap := n\<rparr>) (vmst h1)"
  have "as_inv ?v p q" if "spaces ?v p = Some q" for p q
  proof -
    have "as_inv (vmst h1) p q"
      using that shm_invD(1) [OF inv] b by (cases "p = dst") (auto simp: vm_inv_def as_inv_def set_space_def)
    then show ?thesis using as_inv_regs [of ?v "vmst h1"] by (simp add: set_space_def)
  qed
  then have "vm_inv ?v" by (simp add: vm_inv_def)
  moreover have "node_inv ?v st x" if "node_inv (vmst h1) st x" for st x
    using that b by (auto simp: node_inv_def set_space_def)
  ultimately show ?thesis by (rule shm_inv_vm [OF inv])
qed

lemma copied_heap:
  assumes c: "copied R dst rs rd rgs news h h1" and b: "spaces (vmst h1) dst = Some b"
  shows "copied R dst rs rd rgs news h (h1\<lparr>vmst := set_space dst (b\<lparr>as_heap := n\<rparr>) (vmst h1)\<rparr>)"
proof -
  let ?v = "set_space dst (b\<lparr>as_heap := n\<rparr>) (vmst h1)"
  have "shm_inv (h1\<lparr>vmst := ?v\<rparr>)" using c by (intro shm_inv_heap [OF _ b]) (simp add: copied_def)
  moreover have "space_grown dst (fst ` set news) (vmst h) ?v"
    using c b by (intro space_grown_heap) (simp_all add: copied_def)
  moreover have "one_copied dst rs rd h (h1\<lparr>vmst := ?v\<rparr>) = one_copied dst rs rd h h1"
    by (intro ext) (simp add: one_copied_def set_space_def)
  ultimately show ?thesis using c by (simp add: copied_def set_space_def shareable_def rmaps_kept_def)
qed

lemma copy_safe_heap:
  assumes c: "copy_safe R dst rs rd K N h h1" and b: "spaces (vmst h1) dst = Some b"
  shows "copy_safe R dst rs rd K N h (h1\<lparr>vmst := set_space dst (b\<lparr>as_heap := n\<rparr>) (vmst h1)\<rparr>)"
proof -
  let ?b = "b\<lparr>as_heap := n\<rparr>"
  let ?v = "set_space dst ?b (vmst h1)"
  have "shm_inv (h1\<lparr>vmst := ?v\<rparr>)" using c by (intro shm_inv_heap [OF _ b]) (simp add: copy_safe_def)
  moreover have "space_within dst N (vmst h) ?v"
  proof -
    have w: "space_within dst N (vmst h) (vmst h1)" using c by (simp add: copy_safe_def)
    then have "\<exists>b'. spaces ?v = (spaces (vmst h))(dst := Some b') \<and> as_vpmap b' = as_vpmap d \<and> set (as_regions d) \<subseteq> set (as_regions b')
        \<and> set (as_regions b') \<subseteq> set (as_regions d) \<union> N" if "spaces (vmst h) dst = Some d" for d
      using that b unfolding space_within_def by (intro exI [of _ ?b]) (auto simp: set_space_def)
    then show ?thesis using w by (simp add: space_within_def set_space_def)
  qed
  ultimately show ?thesis using c by (simp add: copy_safe_def set_space_def shareable_def rmaps_kept_def)
qed

text \<open>One region, for every answer of the allocators.\<close>

definition region_result :: "owner \<Rightarrow> ptr \<Rightarrow> nat \<Rightarrow> nat \<Rightarrow> memregion \<Rightarrow> ptr \<times> bool \<Rightarrow> ptr \<Rightarrow> shm \<Rightarrow> shm \<Rightarrow> bool" where
  "region_result R dst rs rd r x y h h' \<longleftrightarrow> (if fst x = NULL then y = NULL
     else if mr_shared r \<and> \<not> snd x then y = fst x \<and> regs (vmst h') (fst x) = None
     else y = fst x \<and> copied R dst rs rd [r] [x] h h' \<or> y = NULL \<and> free_pages (pm (vs (vmst h'))) = {} \<and> lacks_table rd (vs (vmst h)) r)"

lemma copy_step:
  assumes inv: "shm_inv h" and p: "spaces (vmst h) dst = Some b" "dst \<noteq> kas (vmst h)"
    and new: "fst x = NULL \<or> regs (vmst h) (fst x) = None"
    and n: "regs (vmst h) n = Some r" "mr_as r \<noteq> dst" and ok: "copyable R h rs rd r"
    and d: "\<forall>m \<in> set (as_regions b). mr_end r \<le> rstart (vmst h) m \<or> rend (vmst h) m \<le> mr_start r"
    and t: "spaces (vmst h) (mr_as r) = Some a" "as_vpmap a = Some rs" "as_vpmap b = Some rd" "rs \<noteq> rd" "cur_pml4 (vmst h) = Some cur"
    and v: "vt_inv R (vs (vmst h))" "spare_refs R (vs (vmst h)) rd" "R rd = {0..<511}"
  shows "\<exists>y h' b'. memregion_copy_internal h x dst n (mr_start r) = Some (y, h') \<and> copy_safe R dst rs rd (priv_keys r) {fst x} h h'
    \<and> spaces (vmst h') dst = Some b' \<and> as_heap b' = as_heap b \<and> region_result R dst rs rd r x y h h'"
proof -
  have u: "user_region r" "user_range (mr_start r) (np r)" using ok by (auto simp: copyable_def)
  have cs: "copy_safe R dst rs rd K N h h" for K N by (rule copy_safe_refl [OF inv v(1,2)])
  have grown: "space_grown dst {fst x} (vmst h) (vmst h')" "space_within dst {fst x} (vmst h) (vmst h')"
    if "region_copied dst b (fst x) r h h'" for h' using that p(1) by (auto simp: region_copied_def space_grown_def space_within_def)
  consider (null) "fst x = NULL" | (shared) "fst x \<noteq> NULL" "mr_shared r" "x = (fst x, True)" | (missing) "fst x \<noteq> NULL" "mr_shared r" "x = (fst x, False)"
    | (priv) "fst x \<noteq> NULL" "\<not> mr_shared r" "x = (fst x, snd x)" by (metis (full_types) prod.collapse)
  then show ?thesis
  proof cases
    case null
    obtain w where "memregion_map_internal (vmst h) (fst x) dst (mr_start r) (mr_end r - mr_start r) (mr_perm r) (mr_store r) (mr_ofs r) (mr_shared r) = Some (NULL, w)" "w = vmst h"
      using user_region_map [OF shm_invD(1) [OF inv] p new u(1) d] null by auto
    then have "memregion_copy_internal h x dst n (mr_start r) = Some (NULL, h)" using n(1) by (simp add: memregion_copy_internal_def)
    then show ?thesis using cs p(1) null by (intro exI [of _ NULL] exI [of _ h] exI [of _ b]) (simp add: region_result_def)
  next
    case shared
    then have new': "regs (vmst h) (fst x) = None" "shareable h r" using new ok by (auto simp: copyable_def)
    obtain h' m where h': "memregion_copy_internal h x dst n (mr_start r) = Some (fst x, h')" "region_copied dst b (fst x) r h h'"
        "vs (vmst h') = vs (vmst h)" "stores h' (mr_store r) = Some m" "(dst, fst x) \<in> set (ms_rmap m)"
      using copy_shared [OF inv p shared(1) new'(1) n(1) u(1) shared(2) new'(2) d] unfolding shared(3) [symmetric] by blast
    have "copied R dst rs rd [r] [x] h h'"
      using h'(2-) shared(2) v grown(1) [OF h'(2)] by (simp add: copied_def region_copied_def memory_shared_def same_bytes_def same_outside_def held_def one_copied_def)
    moreover have "copy_safe R dst rs rd (priv_keys r) {fst x} h h'"
      using h'(2,3) grown(2) [OF h'(2)] memory_safe_refl [OF v(1,2)] by (simp add: copy_safe_def region_copied_def)
    moreover obtain b' where "spaces (vmst h') dst = Some b'" "as_heap b' = as_heap b" using h'(2) by (auto simp: region_copied_def)
    moreover have "snd x" using shared(3) by (metis snd_conv)
    ultimately show ?thesis using h'(1) shared(1) by (intro exI [of _ "fst x"] exI [of _ h'] exI [of _ b']) (simp add: region_result_def)
  next
    case missing
    then have new': "regs (vmst h) (fst x) = None" "shareable h r" "cur_pml4 (vmst h) \<noteq> None" "\<not> snd x" using new ok t(5) by (auto simp: copyable_def) (metis snd_conv)
    obtain h' b' where "memregion_copy_internal h x dst n (mr_start r) = Some (fst x, h')" "copy_safe R dst rs rd {} {fst x} h h'"
        "spaces (vmst h') dst = Some b'" "as_heap b' = as_heap b" "regs (vmst h') (fst x) = None"
      using copy_missing [OF inv p missing(1) new'(1) n(1) u(1) missing(2) new'(2) d t(3,4) new'(3) v u(2)] unfolding missing(3) [symmetric] by blast
    then show ?thesis using missing(1,2) new'(4) by (intro exI [of _ "fst x"] exI [of _ h'] exI [of _ b']) (simp add: region_result_def priv_keys_def)
  next
    case priv
    then have c: "np r \<le> 2 ^ 36" "cow_ready R (vs (vmst h)) rs rd (mr_start r) (mr_start r) (np r)" "regs (vmst h) (fst x) = None"
      using ok new by (auto simp: copyable_def)
    have one: "copied R dst rs rd [r] [x] h h'" if h': "region_copied dst b (fst x) r h h'" "copy_safe R dst rs rd (page_keys r) {fst x} h h'"
        "pages_copied rs rd r (vs (vmst h)) (vs (vmst h'))" "same_outside R (page_keys r) (vs (vmst h)) (vs (vmst h'))"
        "\<forall>f \<in> allocated (pm (vs (vmst h))). rc (pm (vs (vmst h'))) f = rc (pm (vs (vmst h))) f + int (held rs r (vs (vmst h)) f)" for h'
      using h' priv(2) grown(1) [OF h'(1)]
      by (simp add: copied_def region_copied_def memory_shared_def one_copied_def priv_keys_def copy_safe_def memory_safe_def)
    obtain y h' b' where y: "memregion_copy_internal h x dst n (mr_start r) = Some (y, h')" "copy_safe R dst rs rd (page_keys r) {fst x} h h'"
      "spaces (vmst h') dst = Some b'" "as_heap b' = as_heap b"
      "y = fst x \<and> region_copied dst b (fst x) r h h' \<and> pages_copied rs rd r (vs (vmst h)) (vs (vmst h')) \<and> same_outside R (page_keys r) (vs (vmst h)) (vs (vmst h'))
         \<and> (\<forall>f \<in> allocated (pm (vs (vmst h))). rc (pm (vs (vmst h'))) f = rc (pm (vs (vmst h))) f + int (held rs r (vs (vmst h)) f))
       \<or> y = NULL \<and> free_pages (pm (vs (vmst h'))) = {} \<and> lacks_table rd (vs (vmst h)) r"
      using copy_private [OF inv p priv(1) c(3) n(1) u(1) priv(2) n(2) d t v(1) c(1,2) v(2,3) u(2), of "snd x"] unfolding priv(3) [symmetric] by blast
    then have "region_result R dst rs rd r x y h h'" using one [of h'] priv(1,2) unfolding region_result_def by auto
    then show ?thesis using y priv(2) by (intro exI [of _ y] exI [of _ h'] exI [of _ b']) (simp add: priv_keys_def)
  qed
qed

text \<open>What the loop relies on: two spaces with page tables of their own, regions of the source that can be copied and
  meet neither each other nor a region of the target, pages of the target that other owners hold too, and any answer of the
  allocators for each region: NULL or a fresh structure, with or without a reverse mapping.\<close>

definition apart :: "memregion \<Rightarrow> memregion \<Rightarrow> bool" where
  "apart r q \<longleftrightarrow> (mr_end r \<le> mr_start q \<or> mr_end q \<le> mr_start r) \<and> priv_keys r \<inter> priv_keys q = {}"

definition fresh_nodes :: "vm \<Rightarrow> (ptr \<times> bool) list \<Rightarrow> bool" where
  "fresh_nodes v news \<longleftrightarrow> distinct (filter (\<lambda>n. n \<noteq> NULL) (map fst news)) \<and> (\<forall>x \<in> set news. fst x = NULL \<or> regs v (fst x) = None)"

definition two_spaces :: "ptr \<Rightarrow> ptr \<Rightarrow> nat \<Rightarrow> nat \<Rightarrow> addrspace \<Rightarrow> addrspace \<Rightarrow> vm \<Rightarrow> bool" where
  "two_spaces src dst rs rd a b v \<longleftrightarrow> spaces v src = Some a \<and> spaces v dst = Some b \<and> src \<noteq> dst \<and> dst \<noteq> kas v
     \<and> as_vpmap a = Some rs \<and> as_vpmap b = Some rd \<and> rs \<noteq> rd \<and> cur_pml4 v \<noteq> None"

definition copy_pre :: "owner \<Rightarrow> ptr \<Rightarrow> ptr \<Rightarrow> nat \<Rightarrow> nat \<Rightarrow> addrspace \<Rightarrow> addrspace \<Rightarrow> ptr list \<Rightarrow> memregion list \<Rightarrow> (ptr \<times> bool) list \<Rightarrow> shm \<Rightarrow> bool" where
  "copy_pre R src dst rs rd a b ns rgs news h \<longleftrightarrow> shm_inv h \<and> vt_inv R (vs (vmst h)) \<and> two_spaces src dst rs rd a b (vmst h)
     \<and> R rd = {0..<511} \<and> spare_refs R (vs (vmst h)) rd
     \<and> list_all2 (\<lambda>n r. regs (vmst h) n = Some r \<and> mr_as r = src) ns rgs \<and> list_all (copyable R h rs rd) rgs \<and> sorted_wrt apart rgs
     \<and> (\<forall>r \<in> set rgs. \<forall>m \<in> set (as_regions b). mr_end r \<le> rstart (vmst h) m \<or> rend (vmst h) m \<le> mr_start r)
     \<and> fresh_nodes (vmst h) news \<and> length news = length ns"

definition nodes_given :: "memregion list \<Rightarrow> (ptr \<times> bool) list \<Rightarrow> bool" where
  "nodes_given = list_all2 (\<lambda>r x. mr_shared r \<longrightarrow> snd x)"

definition copies_made :: "ptr \<Rightarrow> vm \<Rightarrow> memregion list \<Rightarrow> (ptr \<times> bool) list \<Rightarrow> bool" where
  "copies_made dst v = list_all2 (\<lambda>r x. regs v (fst x) = (if mr_shared r \<and> \<not> snd x then None else Some (r\<lparr>mr_as := dst\<rparr>)))"

lemma two_spaces_within:
  assumes "two_spaces src dst rs rd a b v" "space_within dst N v v'" "spaces v' dst = Some b'"
  shows "two_spaces src dst rs rd a b' v'"
proof -
  obtain c where "spaces v' = (spaces v)(dst := Some c)" "as_vpmap c = as_vpmap b" using assms(1,2) by (auto simp: two_spaces_def space_within_def)
  moreover have "cur_pml4 v' \<noteq> None"
    using assms calculation by (auto simp: two_spaces_def space_within_def cur_pml4_def split: if_splits bind_splits)
  ultimately show ?thesis using assms by (auto simp: two_spaces_def space_within_def)
qed

lemma copy_pre_step:
  assumes pre: "copy_pre R src dst rs rd a b (n # ns) (r # rgs) (x # news) h" and x: "fst x \<noteq> NULL"
    and c: "copy_safe R dst rs rd (priv_keys r) {fst x} h h1" and rx: "regs (vmst h1) (fst x) = None \<or> regs (vmst h1) (fst x) = Some (r\<lparr>mr_as := dst\<rparr>)"
    and b1: "spaces (vmst h1) dst = Some b1"
  shows "copy_pre R src dst rs rd a b1 ns rgs news h1"
proof -
  note q = pre [unfolded copy_pre_def]
  have g: "space_within dst {fst x} (vmst h) (vmst h1)" and ms: "memory_safe R rs rd (priv_keys r) (vs (vmst h)) (vs (vmst h1))"
    and i1: "shm_inv h1" and sh: "\<And>q. shareable h q \<Longrightarrow> shareable h1 q" using c by (auto simp: copy_safe_def)
  have rg: "\<And>q. q \<noteq> fst x \<Longrightarrow> regs (vmst h1) q = regs (vmst h) q" using g by (simp add: space_within_def)
  have fx: "regs (vmst h) (fst x) = None" and b: "spaces (vmst h) dst = Some b" using q x by (auto simp: fresh_nodes_def two_spaces_def)
  obtain b' where "spaces (vmst h1) = (spaces (vmst h))(dst := Some b')" "set (as_regions b') \<subseteq> set (as_regions b) \<union> {fst x}"
    using g b unfolding space_within_def by blast
  then have sb: "set (as_regions b1) \<subseteq> insert (fst x) (set (as_regions b))" using b1 by auto
  have i: "as_inv (vmst h1) dst b1" using shm_invD(1) [OF i1] b1 by (simp add: vm_inv_def)
  have "mr_end t \<le> rstart (vmst h1) m \<or> rend (vmst h1) m \<le> mr_start t" if t: "t \<in> set rgs" "m \<in> set (as_regions b1)" for t m
  proof (cases "m = fst x")
    case True
    then have "regs (vmst h1) (fst x) \<noteq> None" using as_invD(3) [OF i] t(2) by fastforce
    then have "regs (vmst h1) m = Some (r\<lparr>mr_as := dst\<rparr>)" using rx True by auto
    moreover have "mr_end r \<le> mr_start t \<or> mr_end t \<le> mr_start r" using q t(1) by (simp add: apart_def)
    ultimately show ?thesis by auto
  next
    case False
    then have "rstart (vmst h1) m = rstart (vmst h) m" "rend (vmst h1) m = rend (vmst h) m" using rg by auto
    moreover have "m \<in> set (as_regions b)" using t(2) sb False by blast
    moreover have "\<forall>m \<in> set (as_regions b). mr_end t \<le> rstart (vmst h) m \<or> rend (vmst h) m \<le> mr_start t" using q t(1) by simp
    ultimately show ?thesis by metis
  qed
  moreover have "list_all2 (\<lambda>n r. regs (vmst h1) n = Some r \<and> mr_as r = src) ns rgs"
  proof (rule list.rel_mono_strong)
    show "list_all2 (\<lambda>n r. regs (vmst h) n = Some r \<and> mr_as r = src) ns rgs" using q by simp
    show "regs (vmst h1) n = Some r \<and> mr_as r = src" if "regs (vmst h) n = Some r \<and> mr_as r = src" for n r
      using that rg [of n] fx by (cases "n = fst x") auto
  qed
  moreover have "fresh_nodes (vmst h1) news"
    unfolding fresh_nodes_def
  proof (intro conjI ballI)
    show "distinct (filter (\<lambda>n. n \<noteq> NULL) (map fst news))" using q x by (simp add: fresh_nodes_def)
    show "fst y = NULL \<or> regs (vmst h1) (fst y) = None" if y: "y \<in> set news" for y
    proof (cases "fst y = fst x")
      case True
      then have "fst x \<in> set (filter (\<lambda>n. n \<noteq> NULL) (map fst news))" using imageI [OF y, of fst] x by simp
      then show ?thesis using q x by (simp add: fresh_nodes_def)
    next
      case False
      then show ?thesis using q y rg [of "fst y"] by (simp add: fresh_nodes_def)
    qed
  qed
  moreover have "copyable R h1 rs rd t" if t: "t \<in> set rgs" for t
    by (rule copyable_safe [OF ms _ _ sh]) (use q t in \<open>auto simp: list_all_iff apart_def two_spaces_def\<close>)
  moreover have "two_spaces src dst rs rd a b1 (vmst h1)" using two_spaces_within [OF _ g b1] q by auto
  ultimately show ?thesis using q i1 ms by (auto simp: copy_pre_def list_all_iff memory_safe_def)
qed

lemma lacks_table_keep:
  assumes k: "keeps_frames R s s'" and p: "paged R rs rd r" and l: "lacks_table rd s' r"
  shows "lacks_table rd s r"
proof -
  obtain k where k: "k < np r" "tab s' rd (vpath (off (mr_start r) k)) = None" "\<not> mr_shared r" using l by (auto simp: lacks_table_def)
  have "owned R rd (vpath (off (mr_start r) k))" using p k by (simp add: paged_def)
  then have "tab s rd (vpath (off (mr_start r) k)) = None"
    using assms(1) k(2) by (cases "tab s rd (vpath (off (mr_start r) k))") (auto simp: keeps_frames_def)
  then show ?thesis using k by (auto simp: lacks_table_def)
qed

lemma copied_Nil: "shm_inv h \<Longrightarrow> vt_inv R (vs (vmst h)) \<Longrightarrow> copied R dst rs rd [] [] h h"
  by (simp add: copied_def rmaps_kept_def space_grown_def memory_shared_def same_bytes_def same_outside_def) (metis fun_upd_triv)

lemma map_of_zip_Cons:
  assumes "n \<notin> set ns" "length ys = length ns"
  shows "(case map_of (zip ns ys) k of None \<Rightarrow> (if n = k then y else d) | Some m \<Rightarrow> m) =
    (case map_of (zip (n # ns) (y # ys)) k of None \<Rightarrow> d | Some m \<Rightarrow> m)"
proof (cases "n = k")
  case True
  then have "map_of (zip ns ys) k = None" using assms by (simp add: map_of_zip_is_None)
  then show ?thesis using True by simp
qed auto

lemma region_result_ok:
  assumes "region_result R dst rs rd r x y h h'" "y \<noteq> NULL"
  shows "y = fst x" "fst x \<noteq> NULL" "regs (vmst h') (fst x) = (if mr_shared r \<and> \<not> snd x then None else Some (r\<lparr>mr_as := dst\<rparr>))"
    "(mr_shared r \<longrightarrow> snd x) \<Longrightarrow> copied R dst rs rd [r] [x] h h'"
  using assms by (auto simp: region_result_def copied_def one_copied_def split: if_splits)

lemma region_result_fail:
  assumes "region_result R dst rs rd r x NULL h h'"
  shows "fst x = NULL \<or> free_pages (pm (vs (vmst h'))) = {} \<and> lacks_table rd (vs (vmst h)) r"
  using assms by (auto simp: region_result_def split: if_splits)

lemma region_result_heap:
  assumes "region_result R dst rs rd r x y h h1" "spaces (vmst h1) dst = Some b"
  shows "region_result R dst rs rd r x y h (h1\<lparr>vmst := set_space dst (b\<lparr>as_heap := n\<rparr>) (vmst h1)\<rparr>)"
  using assms(1) copied_heap [OF _ assms(2)] by (auto simp: region_result_def set_space_def split: if_splits)

definition copy_result :: "owner \<Rightarrow> ptr \<Rightarrow> nat \<Rightarrow> nat \<Rightarrow> memregion list \<Rightarrow> (ptr \<times> bool) list \<Rightarrow> err_t \<Rightarrow> shm \<Rightarrow> shm \<Rightarrow> bool" where
  "copy_result R dst rs rd rgs news err h h' \<longleftrightarrow>
     err = ERR_OK \<and> NULL \<notin> fst ` set news \<and> copies_made dst (vmst h') rgs news \<and> (nodes_given rgs news \<longrightarrow> copied R dst rs rd rgs news h h')
     \<or> err = ERR_NOMEM \<and> (NULL \<in> fst ` set news \<or> free_pages (pm (vs (vmst h'))) = {} \<and> (\<exists>r \<in> set rgs. lacks_table rd (vs (vmst h)) r))"

lemma copy_result_Cons:
  assumes f: "region_result R dst rs rd r x y h h1" "y \<noteq> NULL" and t: "copy_result R dst rs rd rgs news err h1 h'"
    and s: "copy_safe R dst rs rd (priv_keys r) {fst x} h h1" "copy_safe R dst rs rd K (fst ` set news) h1 h'"
    and p: "paged R rs rd r" "\<forall>q \<in> set rgs. paged R rs rd q \<and> priv_keys q \<inter> priv_keys r = {}" and x: "fst x \<notin> fst ` set news"
  shows "copy_result R dst rs rd (r # rgs) (x # news) err h h'"
proof -
  note o = region_result_ok [OF f]
  have "keeps_frames R (vs (vmst h)) (vs (vmst h1))" using s(1) by (simp add: copy_safe_def memory_safe_def)
  then have l: "\<forall>t \<in> set rgs. lacks_table rd (vs (vmst h1)) t \<longrightarrow> lacks_table rd (vs (vmst h)) t" using lacks_table_keep p(2) by blast
  have "regs (vmst h') (fst x) = regs (vmst h1) (fst x)" using s(2) x by (simp add: copy_safe_def space_within_def)
  then have "copies_made dst (vmst h') (r # rgs) (x # news)" if "copies_made dst (vmst h') rgs news" using that o(3) by (simp add: copies_made_def)
  moreover have "copied R dst rs rd (r # rgs) (x # news) h h'" if "copied R dst rs rd rgs news h1 h'" "mr_shared r \<longrightarrow> snd x"
    using copied_Cons [OF o(4) [OF that(2)] that(1) p x] .
  ultimately show ?thesis using t l o(2) unfolding copy_result_def by (auto simp: nodes_given_def)
qed

lemma copy_regions_ok:
  assumes "copy_pre R src dst rs rd a b ns rgs news h" "distinct ns"
  shows "\<exists>err h' b'. copy_regions h news src dst ns = Some (err, h') \<and> copy_safe R dst rs rd (\<Union>r \<in> set rgs. priv_keys r) (fst ` set news) h h'
    \<and> copy_result R dst rs rd rgs news err h h' \<and> spaces (vmst h') dst = Some b'
    \<and> (err = ERR_OK \<longrightarrow> as_heap b' = (case map_of (zip ns (map fst news)) (as_heap a) of None \<Rightarrow> as_heap b | Some n \<Rightarrow> n))"
  using assms
proof (induction ns arbitrary: h b rgs news)
  case Nil
  then have "rgs = []" "news = []" by (auto simp: copy_pre_def)
  then show ?case using Nil copied_Nil [of h R dst rs rd] copy_safe_refl [of h R rd dst rs]
    by (auto simp: copy_pre_def two_spaces_def copy_result_def copies_made_def)
next
  case (Cons n ns)
  obtain r rgs' where rgs: "rgs = r # rgs'" using Cons.prems(1) by (auto simp: copy_pre_def list_all2_Cons1)
  obtain x news' where news: "news = x # news'" using Cons.prems(1) by (cases news) (auto simp: copy_pre_def)
  note pre = Cons.prems(1) [unfolded rgs news]
  note q = pre [unfolded copy_pre_def two_spaces_def fresh_nodes_def]
  have src: "mr_as r = src" "regs (vmst h) n = Some r" "rs \<noteq> rd" using q by auto
  obtain cur where cur: "cur_pml4 (vmst h) = Some cur" using q by auto
  from copy_step [of h dst b x n r R rs rd a cur] q cur src obtain y h1 b1 where
    s: "memregion_copy_internal h x dst n (mr_start r) = Some (y, h1)" "copy_safe R dst rs rd (priv_keys r) {fst x} h h1"
      "spaces (vmst h1) dst = Some b1" "as_heap b1 = as_heap b" "region_result R dst rs rd r x y h h1" by auto
  show ?case
  proof (cases "y = NULL")
    case True
    have "copy_safe R dst rs rd (\<Union>r \<in> set rgs. priv_keys r) (fst ` set news) h h1" by (rule copy_safe_mono [OF s(2)]) (auto simp: rgs news)
    moreover have "copy_regions h news src dst (n # ns) = Some (ERR_NOMEM, h1)" using s(1) src(2) True unfolding news by simp
    moreover have "copy_result R dst rs rd rgs news ERR_NOMEM h h1" using region_result_fail [OF s(5) [unfolded True]] by (auto simp: copy_result_def rgs news)
    ultimately show ?thesis using s(3) by (intro exI [of _ ERR_NOMEM] exI [of _ h1] exI [of _ b1]) simp
  next
    case False
    let ?h = "if n = as_heap a then h1\<lparr>vmst := set_space dst (b1\<lparr>as_heap := fst x\<rparr>) (vmst h1)\<rparr> else h1"
    let ?b = "if n = as_heap a then b1\<lparr>as_heap := fst x\<rparr> else b1"
    have c: "copy_safe R dst rs rd (priv_keys r) {fst x} h ?h" "region_result R dst rs rd r x y h ?h"
      using s(2,5) copy_safe_heap [OF s(2,3)] region_result_heap [OF s(5,3)] by simp_all
    note o = region_result_ok [OF c(2) False]
    have b: "spaces (vmst ?h) dst = Some ?b" using s(3) by (simp add: set_space_def)
    have p: "paged R rs rd r" "\<forall>q \<in> set rgs'. paged R rs rd q \<and> priv_keys q \<inter> priv_keys r = {}"
      using q copyable_paged by (auto simp: list_all_iff apart_def)
    have fx: "fst x \<notin> fst ` set news'" using q o(2) by auto
    have "spaces (vmst h1) src = Some a" using two_spaces_within [of src dst rs rd a b "vmst h" "{fst x}" "vmst h1" b1] pre s(2,3)
      by (simp add: copy_pre_def copy_safe_def two_spaces_def)
    then have run: "copy_regions h news src dst (n # ns) = copy_regions ?h news' src dst ns"
      using src(2) s(1,3) o(1,2) unfolding news by (simp add: Let_def)
    have hp: "(case map_of (zip ns (map fst news')) (as_heap a) of None \<Rightarrow> as_heap ?b | Some m \<Rightarrow> m) =
        (case map_of (zip (n # ns) (map fst (x # news'))) (as_heap a) of None \<Rightarrow> as_heap b | Some m \<Rightarrow> m)"
    proof -
      have e: "as_heap ?b = (if n = as_heap a then fst x else as_heap b)" using s(4) by simp
      show ?thesis unfolding e list.map by (rule map_of_zip_Cons) (use Cons.prems(2) q in auto)
    qed
    have step: "copy_pre R src dst rs rd a ?b ns rgs' news' ?h" by (rule copy_pre_step [OF pre o(2) c(1) _ b]) (use o(3) in \<open>simp split: if_splits\<close>)
    have dn: "distinct ns" using Cons.prems(2) by simp
    obtain err h' b' where ih: "copy_regions ?h news' src dst ns = Some (err, h')"
        "copy_safe R dst rs rd (\<Union>r \<in> set rgs'. priv_keys r) (fst ` set news') ?h h'" "copy_result R dst rs rd rgs' news' err ?h h'" "spaces (vmst h') dst = Some b'"
        "err = ERR_OK \<longrightarrow> as_heap b' = (case map_of (zip ns (map fst news')) (as_heap a) of None \<Rightarrow> as_heap ?b | Some n \<Rightarrow> n)"
      using Cons.IH [OF step dn] by blast
    have dj: "priv_keys r \<inter> (\<Union>r \<in> set rgs'. priv_keys r) = {}" using p(2) by auto
    have "copy_safe R dst rs rd (\<Union>r \<in> set rgs. priv_keys r) (fst ` set news) h h'"
      using copy_safe_trans [OF c(1) ih(2) dj src(3)] unfolding rgs news by simp
    moreover have "copy_result R dst rs rd rgs news err h h'"
      using copy_result_Cons [OF c(2) False ih(3) c(1) ih(2) p fx] unfolding rgs news .
    ultimately show ?thesis using ih(1,4,5) unfolding run hp [symmetric] news [symmetric]
      by (intro exI [of _ err] exI [of _ h'] exI [of _ b']) (simp add: hp news)
  qed
qed

section \<open>Properties\<close>

text \<open>C10. Destroying the address space of a process that is not running returns.  Afterwards the space has no region and no page
  table, and its region structures are freed; its tables and, of the frames it maps, exactly those without another reference
  are free.  Every shared region loses its mappings in this space and keeps those of other spaces; it is removed
  exactly if it is not persistent and was mapped by this space alone.  The invariant of regions and shared memory holds
  again, and no other space changes.\<close>

theorem as_destroy_releases:
  assumes inv: "shm_inv h" and p: "p \<noteq> NULL" "p \<noteq> kas (vmst h)" "p \<noteq> cur_as (vmst h)"
    and a: "spaces (vmst h) p = Some a" "as_vpmap a = Some r" and g: "\<forall>n \<in> set (as_regions a). registered h p n"
    and v: "vt_inv R (vs (vmst h))" "destroyable R (vs (vmst h)) r" "r \<noteq> kpml4 (vmst h)"
  defines "s \<equiv> vs (vmst h)"
  shows "\<exists>h' a'. as_destroy h p = Some h' \<and> shm_inv h' \<and> detached p h h'
    \<and> (\<forall>n. regs (vmst h') n = (if n \<in> set (as_regions a) then None else regs (vmst h) n))
    \<and> spaces (vmst h') = (spaces (vmst h))(p := Some a') \<and> as_regions a' = [] \<and> as_vpmap a' = None
    \<and> vt_inv (R(r := {})) (vs (vmst h'))
    \<and> allocated (pm (vs (vmst h'))) = allocated (pm s) - tables s r - {f. 0 < refs s r f \<and> rc (pm s) f = int (refs s r f)}
    \<and> (\<forall>r' w. r' \<noteq> r \<longrightarrow> PML4X w \<in> R r' \<longrightarrow> pte (vs (vmst h')) r' w = pte s r' w)"
proof -
  have k: "Some (kpml4 (vmst h)) \<noteq> Some r" using v(3) by simp
  obtain w where w: "vpmap_destroy s (Some (kpml4 (vmst h))) (Some r) = Some w" "vt_inv (R(r := {})) w"
    "allocated (pm w) = allocated (pm s) - tables s r - {f. 0 < refs s r f \<and> rc (pm s) f = int (refs s r f)}"
    "\<forall>r' x. r' \<noteq> r \<longrightarrow> PML4X x \<in> R r' \<longrightarrow> pte w r' x = pte s r' x"
    using vpmap_destroy_ok [OF v(1,2) k] unfolding s_def by blast
  let ?a = "a\<lparr>as_vpmap := None\<rparr>"
  let ?v = "set_space p ?a ((vmst h)\<lparr>vs := w\<rparr>)"
  let ?h = "h\<lparr>vmst := ?v\<rparr>"
  have rg: "regs ?v = regs (vmst h)" "spaces ?v = (spaces (vmst h))(p := Some ?a)" "kas ?v = kas (vmst h)" "cur_as ?v = cur_as (vmst h)" "vs ?v = w"
    by (simp_all add: set_space_def)
  have "as_inv (vmst h) p ?a" using shm_invD(1) [OF inv] a(1) by (simp add: vm_inv_def as_inv_def)
  then have vi: "vm_inv ?v" using shm_invD(1) [OF inv] unfolding vm_inv_def as_inv_regs [OF rg(1)] rg(2) by auto
  have "node_inv ?v st x" if "node_inv (vmst h) st x" for st x using that a(1) unfolding node_inv_def rg(1,2) by auto
  then have si: "shm_inv ?h" using shm_inv_vm [OF inv vi] by blast
  have "registered ?h p n" if "n \<in> set (as_regions a)" for n
    by (rule registered_keep) (use g that rg(1) in auto)
  moreover have "distinct (as_regions a)" using shm_invD(1) [OF inv] a(1) by (simp add: vm_inv_def as_inv_def)
  moreover have "spaces (vmst ?h) p = Some ?a" "p \<noteq> cur_as (vmst ?h)" "p \<noteq> kas (vmst ?h)" "as_vpmap ?a = None" "set (as_regions ?a) = set (as_regions a)"
    using rg p by simp_all
  ultimately obtain h' a' where
    d: "destroy_regions ?h (as_regions a) = Some h'" "shm_inv h'" "detached p ?h h'" "vs (vmst h') = vs (vmst ?h)"
      "\<forall>n. regs (vmst h') n = (if n \<in> set (as_regions a) then None else regs (vmst ?h) n)"
      "spaces (vmst h') = (spaces (vmst ?h))(p := Some a')" "as_regions a' = []" "as_vpmap a' = None"
    using destroy_regions_ok [OF si, of p ?a "as_regions a"] by blast
  have "as_destroy h p = Some h'" using p a w(1) d(1) by (simp add: as_destroy_def s_def)
  moreover have "detached p h h'" by (rule detached_trans [OF detached_refl d(3)]) simp_all
  moreover have "vs (vmst h') = w" "spaces (vmst h') = (spaces (vmst h))(p := Some a')"
    "\<forall>n. regs (vmst h') n = (if n \<in> set (as_regions a) then None else regs (vmst h) n)" using d(4-6) rg by simp_all
  ultimately show ?thesis using d(2,7,8) w(2-4) by (intro exI [of _ h'] exI [of _ a']) simp
qed

text \<open>Space 100 on the first page table of \<open>duo_vps\<close>, with a private region and the only mapping of a shared one.\<close>

definition duo_shm :: shm where
  "duo_shm = mapped_shm\<lparr>vmst := mapped_vm\<lparr>vs := duo_vps, kpml4 := 6, cur_as := NULL,
     spaces := (spaces mapped_vm)(100 := Some \<lparr>as_regions = [10, 11], as_vpmap = Some 2, as_heap = 10\<rparr>)\<rparr>\<rparr>"

lemma duo_shm_parts:
  "vs (vmst duo_shm) = duo_vps" "kas (vmst duo_shm) = 50" "cur_as (vmst duo_shm) = NULL" "kpml4 (vmst duo_shm) = 6"
  "spaces (vmst duo_shm) 100 = Some \<lparr>as_regions = [10, 11], as_vpmap = Some 2, as_heap = 10\<rparr>"
  "regs (vmst duo_shm) 10 = Some (small_region 0x1000 0x3000)"
  "regs (vmst duo_shm) 11 = Some ((small_region 0x5000 0x6000)\<lparr>mr_shared := True, mr_store := 300\<rparr>)"
  "ctable duo_shm = [200]" "stores duo_shm = [300 \<mapsto> \<lparr>ms_info = 200, ms_rmap = [(100, 11)], ms_cached = radix_tree_construct\<rparr>]"
  "ctxs duo_shm = [200 \<mapsto> \<lparr>c_name = ''shm'', c_store = 300, c_lock_by = -1, c_size = 1, c_refcnt = 1, c_flag = 0\<rparr>]"
  by (simp_all add: duo_shm_def mapped_shm_def mapped_vm_def small_shm_def small_vm_def)

lemma duo_shm_inv: "shm_inv duo_shm"
proof -
  have "vm_inv (vmst duo_shm)"
    by (auto simp: duo_shm_def vm_inv_def as_inv_def mapped_vm_def small_vm_def small_region_def before_def split: if_splits)
  then show ?thesis by (simp add: shm_inv_def ctx_inv_def node_inv_def duo_shm_parts) (simp add: small_region_def)
qed

lemma duo_registered: "\<forall>n \<in> set [10, 11]. registered duo_shm 100 n"
  by (simp add: registered_def duo_shm_parts) (simp add: small_region_def)

lemma as_destroy_releases_witness:
  "\<exists>h' a'. as_destroy duo_shm 100 = Some h' \<and> shm_inv h' \<and> spaces (vmst h') 100 = Some a' \<and> as_regions a' = [] \<and> as_vpmap a' = None
    \<and> regs (vmst h') 10 = None \<and> regs (vmst h') 11 = None \<and> ctable h' = [] \<and> allocated (pm (vs (vmst h'))) = {0, 1, 6, 7, 8, 9}"
proof -
  let ?a = "\<lparr>as_regions = [10, 11], as_vpmap = Some 2, as_heap = 10 :: ptr\<rparr>"
  have g: "\<forall>n \<in> set (as_regions ?a). registered duo_shm 100 n" using duo_registered by simp
  from as_destroy_releases [OF duo_shm_inv _ _ _ duo_shm_parts(5) _ g, where R = duo_owner and r = 2, unfolded duo_shm_parts(1-4), OF _ _ _ _ duo_vt_inv duo_destroyable]
  obtain h' a' where h': "as_destroy duo_shm 100 = Some h'" "shm_inv h'" "detached 100 duo_shm h'"
    "\<forall>n. regs (vmst h') n = (if n \<in> {10, 11} then None else regs (vmst duo_shm) n)"
    "spaces (vmst h') = (spaces (vmst duo_shm))(100 := Some a')" "as_regions a' = []" "as_vpmap a' = None"
    "allocated (pm (vs (vmst h'))) = allocated (pm duo_vps) - tables duo_vps 2 - {f. 0 < refs duo_vps 2 f \<and> rc (pm duo_vps) f = int (refs duo_vps 2 f)}"
    by auto
  have "200 \<notin> set (ctable h')"
  proof
    assume x: "200 \<in> set (ctable h')"
    let ?c = "\<lparr>c_name = ''shm'', c_store = 300, c_lock_by = -1, c_size = 1, c_refcnt = 1, c_flag = 0\<rparr>"
    obtain c m where m: "ctxs h' 200 = Some c" "c_store c = 300" "stores h' 300 = Some m" "others 100 (ms_rmap m) = []" "ms_rmap m \<noteq> []"
      using h'(3) [unfolded detached_def duo_shm_parts(8), THEN conjunct2, rule_format, of 200 ?c] x by (auto simp: duo_shm_parts others_def)
    then have "fst (hd (ms_rmap m)) = 100" by (cases "ms_rmap m") (auto simp: others_def split: if_splits)
    then obtain k where k: "(100, k) \<in> set (ms_rmap m)" using hd_in_set [OF m(5)] by (metis prod.collapse)
    have "node_inv (vmst h') 300 (100, k)" using shm_invD(4) [OF h'(2) x] m(1-3) k by (auto simp: ctx_inv_def)
    then show False using h'(5,6) by (auto simp: node_inv_def)
  qed
  moreover have "set (ctable h') \<subseteq> {200}" using h'(3) by (simp add: detached_def duo_shm_parts)
  ultimately have "ctable h' = []" by (cases "ctable h'") auto
  then show ?thesis using h' unfolding duo_left by (intro exI [of _ h'] exI [of _ a']) simp
qed


text \<open>Space 100 as above, with its private region over the mapped page, and an empty space 101 on the second page table.\<close>

definition fork_shm :: shm where
  "fork_shm = duo_shm\<lparr>vmst := (vmst duo_shm)\<lparr>regs := (regs (vmst duo_shm))(10 := Some (small_region 0x3000 0x5000)),
     spaces := (spaces (vmst duo_shm))(101 := Some \<lparr>as_regions = [], as_vpmap = Some 6, as_heap = 0\<rparr>)\<rparr>\<rparr>"

lemma fork_shm_parts:
  "vs (vmst fork_shm) = duo_vps" "kas (vmst fork_shm) = 50" "cur_as (vmst fork_shm) = NULL" "kpml4 (vmst fork_shm) = 6"
  "spaces (vmst fork_shm) 100 = Some \<lparr>as_regions = [10, 11], as_vpmap = Some 2, as_heap = 10\<rparr>"
  "spaces (vmst fork_shm) 101 = Some \<lparr>as_regions = [], as_vpmap = Some 6, as_heap = 0\<rparr>"
  "regs (vmst fork_shm) 10 = Some (small_region 0x3000 0x5000)"
  "regs (vmst fork_shm) 11 = Some ((small_region 0x5000 0x6000)\<lparr>mr_shared := True, mr_store := 300\<rparr>)"
  "regs (vmst fork_shm) 20 = None" "regs (vmst fork_shm) 21 = None"
  "ctable fork_shm = [200]" "stores fork_shm = [300 \<mapsto> \<lparr>ms_info = 200, ms_rmap = [(100, 11)], ms_cached = radix_tree_construct\<rparr>]"
  "ctxs fork_shm = [200 \<mapsto> \<lparr>c_name = ''shm'', c_store = 300, c_lock_by = -1, c_size = 1, c_refcnt = 1, c_flag = 0\<rparr>]"
  by (simp_all add: fork_shm_def duo_shm_def mapped_shm_def mapped_vm_def small_shm_def small_vm_def)

lemma fork_shm_inv: "shm_inv fork_shm"
proof -
  have "vm_inv (vmst fork_shm)"
    by (auto simp: fork_shm_def duo_shm_def vm_inv_def as_inv_def mapped_vm_def small_vm_def small_region_def before_def split: if_splits)
  then show ?thesis by (simp add: shm_inv_def ctx_inv_def node_inv_def fork_shm_parts) (simp add: small_region_def)
qed

lemma fork_spare: "duo_owner 6 = {0..<511}" "spare_refs duo_owner duo_vps 6"
proof -
  show o: "duo_owner 6 = {0..<511}" by (simp add: duo_owner_def)
  have z: "leaf duo_vps 6 p j = 0" if "length p = 3" for p j
  proof (cases "tab duo_vps 6 p")
    case (Some t)
    then have "t = 9" using duo_tab [OF Some] that by simp
    then show ?thesis using Some by (simp add: leaf_def duo_vps_def)
  qed (simp add: leaf_def)
  then have "{(p, j). user_path p \<and> length p = 3 \<and> j < 512 \<and> present (leaf duo_vps 6 p j) \<and> frame (leaf duo_vps 6 p j) = f} = {}" for f
    by auto
  then have r: "refs duo_vps 6 f = 0" for f unfolding refs_def by (simp only: card.empty)
  have t: "0 \<notin> tables duo_vps 6"
  proof
    assume "0 \<in> tables duo_vps 6"
    then obtain p where "length p \<le> 3" "tab duo_vps 6 p = Some 0" by (auto simp: tables_def user_path_def simp del: tab.simps)
    then show False using duo_tab [of 6 p 0] by simp
  qed
  show "spare_refs duo_owner duo_vps 6"
    by (rule spare_refsI) (use o r t z in \<open>simp_all add: pte_def vpath_def\<close>)
qed

lemma fork_copyable:
  "list_all (copyable duo_owner fork_shm 2 6) [small_region 0x3000 0x5000, (small_region 0x5000 0x6000)\<lparr>mr_shared := True, mr_store := 300\<rparr>]"
  "np (small_region 0x3000 0x5000) = 2"
proof -
  show n: "np (small_region 0x3000 0x5000) = 2" by (simp add: np_def small_region_def pg_round_up_def pg_round_down_def pg_size_def)
  have "user_region (small_region 0x3000 0x5000)" "user_region ((small_region 0x5000 0x6000)\<lparr>mr_shared := True, mr_store := 300\<rparr>)"
    by (simp_all add: user_region_def small_region_def pg_aligned_iff is_kern_memperm_def is_user_addr_def kvm_base_def USTACK_UPPERBOUND_def
      pg_round_up_def pg_round_down_def pg_size_def)
  moreover have "user_range 0x3000 2" unfolding user_range_def two_pages duo_addr by simp
  moreover have "np ((small_region 0x5000 0x6000)\<lparr>mr_shared := True, mr_store := 300\<rparr>) = 1"
    by (simp add: np_def small_region_def pg_round_up_def pg_round_down_def pg_size_def)
  moreover have "user_range 0x5000 1" by (simp add: user_range_def PML4X_def ENTRY_IDX_eq off_def)
  ultimately show "list_all (copyable duo_owner fork_shm 2 6) [small_region 0x3000 0x5000, (small_region 0x5000 0x6000)\<lparr>mr_shared := True, mr_store := 300\<rparr>]"
    using duo_ready
    by (simp add: copyable_def n fork_shm_parts shareable_def) (simp add: small_region_def)
qed


end
