(* ===== verification/Kmalloc.thy ===== *)
theory Kmalloc
  imports Vpmap
begin

text \<open>
  The kernel heap, \<^verbatim>\<open>kernel/mm/kmalloc.c\<close>: object caches made of slabs, and \<open>kmalloc\<close> and \<open>kfree\<close> over eight
  caches.  A slab is a block of the buddy allocator (\<open>Pmem\<close>); the page structures of its pages point back to the slab and
  its cache, and that is how \<open>kfree\<close> finds them.  Pointers are kernel virtual addresses as natural numbers.  The slab
  and cache structures are records in maps, the other bytes of the heap are in \<open>kbytes\<close>.  The node lists of a cache
  are lists of slab addresses; a cache's lock makes each operation one step.  The
  proofs give the set of live objects of every cache and show that no two of them overlap.
\<close>

section \<open>State\<close>

record slab_t =
  objs :: nat
  free :: int
  sl_pages :: nat
  freearr :: "int list"

record kmem_cache_t =
  full_slabs :: "ptr list"
  free_slabs :: "ptr list"
  obj_size :: nat

record kheap =
  kpm :: pmem
  slabs :: "ptr \<rightharpoonup> slab_t"
  caches :: "ptr \<rightharpoonup> kmem_cache_t"
  kbytes :: "nat \<Rightarrow> u8"
  allocator_cache :: ptr
  kmalloc_allocators :: "(ptr \<times> nat) list"

abbreviation (input) MIN_OBJS_PER_SLAB :: nat where "MIN_OBJS_PER_SLAB \<equiv> 128"
abbreviation (input) sizeof_slab :: nat where "sizeof_slab \<equiv> 40"
abbreviation (input) sizeof_kmem_cache :: nat where "sizeof_kmem_cache \<equiv> 72"
abbreviation (input) sizeof_int :: nat where "sizeof_int \<equiv> 4"

definition set_slab :: "ptr \<Rightarrow> slab_t \<Rightarrow> kheap \<Rightarrow> kheap" where
  "set_slab s sl h = h\<lparr>slabs := (slabs h)(s := Some sl)\<rparr>"

definition set_cache :: "ptr \<Rightarrow> kmem_cache_t \<Rightarrow> kheap \<Rightarrow> kheap" where
  "set_cache c kc h = h\<lparr>caches := (caches h)(c := Some kc)\<rparr>"

definition set_bytes :: "nat \<Rightarrow> u8 \<Rightarrow> nat \<Rightarrow> kheap \<Rightarrow> kheap" where
  "set_bytes a v n h = h\<lparr>kbytes := \<lambda>i. if a \<le> i \<and> i < a + n then v else kbytes h i\<rparr>"

text \<open>The virtual address is in the kernel's map of physical memory; \<open>pmem_end\<close> is the size of the memory.\<close>

definition page_of :: "kheap \<Rightarrow> ptr \<Rightarrow> nat exec" where
  "page_of h p = do {
     paddr \<leftarrow> kmap_v2p (page_to_paddr (n_pages (kpm h))) (of_nat p);
     Some (paddr_to_page paddr) }"

section \<open>Slabs\<close>

definition slab_pages :: "nat \<Rightarrow> nat" where
  "slab_pages sz = (sizeof_slab + (sz + sizeof_int) * MIN_OBJS_PER_SLAB + 4095) div 4096"

definition slab_objs :: "nat \<Rightarrow> nat" where
  "slab_objs sz = (slab_pages sz * 4096 - sizeof_slab) div (sz + sizeof_int)"

primrec link_pages :: "nat \<Rightarrow> paddr_t \<Rightarrow> ptr \<Rightarrow> ptr \<Rightarrow> pmem \<Rightarrow> pmem" where
  "link_pages 0 paddr c s m = m"
| "link_pages (Suc n) paddr c s m =
     link_pages n (paddr + pg_size) c s (upd_page (paddr_to_page paddr) (\<lambda>p. p\<lparr>kmem_cache := c, slab := s\<rparr>) m)"

definition slab_create :: "kheap \<Rightarrow> ptr \<Rightarrow> (ptr \<times> kheap) exec" where
  "slab_create h c = do {
     kassert (c \<noteq> NULL);
     kc \<leftarrow> caches h c;
     kassert (obj_size kc > 0);
     let n = slab_pages (obj_size kc);
     (err, p, pm) \<leftarrow> pmem_nalloc (kpm h) n;
     if err \<noteq> ERR_OK then Some (NULL, h\<lparr>kpm := pm\<rparr>)
     else do {
       paddr \<leftarrow> p;
       let n_objs = slab_objs (obj_size kc);
       kassert (n_objs \<ge> MIN_OBJS_PER_SLAB);
       let s = unat (kmap_p2v paddr);
       kassert (s \<noteq> NULL);
       let pm = link_pages n paddr c s pm;
       let sl = \<lparr>objs = s + sizeof_slab + sizeof_int * n_objs, free = 0, sl_pages = n,
         freearr = map (\<lambda>i. int (i + 1)) [0..<n_objs - 1] @ [- 1]\<rparr>;
       Some (s, set_cache c (kc\<lparr>free_slabs := free_slabs kc @ [s]\<rparr>) (set_slab s sl (h\<lparr>kpm := pm\<rparr>))) } }"

definition slab_destroy :: "kheap \<Rightarrow> ptr \<Rightarrow> kheap exec" where
  "slab_destroy h s = do {
     kassert (s \<noteq> NULL);
     sl \<leftarrow> slabs h s;
     paddr \<leftarrow> kmap_v2p (page_to_paddr (n_pages (kpm h))) (of_nat s);
     pm \<leftarrow> pmem_nfree (kpm h) paddr (sl_pages sl);
     Some (h\<lparr>kpm := pm, slabs := (slabs h)(s := None)\<rparr>) }"

fun slab_list_destroy :: "kheap \<Rightarrow> ptr list \<Rightarrow> kheap exec" where
  "slab_list_destroy h [] = Some h"
| "slab_list_destroy h (s # ss) = do { h \<leftarrow> slab_destroy h s; slab_list_destroy h ss }"

section \<open>Caches\<close>

text \<open>An index outside the array of free indices has no meaning.\<close>

definition kmem_cache_alloc :: "kheap \<Rightarrow> ptr \<Rightarrow> (ptr \<times> kheap) exec" where
  "kmem_cache_alloc h c = do {
     kassert (c \<noteq> NULL);
     kc \<leftarrow> caches h c;
     (s, h) \<leftarrow> (if free_slabs kc = [] then slab_create h c else Some (hd (free_slabs kc), h));
     if s = NULL then Some (NULL, h)
     else do {
       kc \<leftarrow> caches h c;
       sl \<leftarrow> slabs h s;
       kassert (free sl \<noteq> - 1);
       let obj = objs sl + obj_size kc * nat (free sl);
       kassert (nat (free sl) < length (freearr sl));
       let sl = sl\<lparr>free := freearr sl ! nat (free sl)\<rparr>;
       let h = set_slab s sl h;
       let h = (if free sl = - 1
         then set_cache c (kc\<lparr>free_slabs := remove1 s (free_slabs kc), full_slabs := full_slabs kc @ [s]\<rparr>) h else h);
       Some (obj, set_bytes obj 0x2b (obj_size kc) h) } }"

definition kmem_cache_free :: "kheap \<Rightarrow> ptr \<Rightarrow> ptr \<Rightarrow> kheap exec" where
  "kmem_cache_free h c obj = do {
     kassert (c \<noteq> NULL);
     kc \<leftarrow> caches h c;
     let h = set_bytes obj 0x2b (obj_size kc) h;
     pg \<leftarrow> page_of h obj;
     let s = slab (pagemap (kpm h) pg);
     kassert (s \<noteq> NULL);
     sl \<leftarrow> slabs h s;
     let full = (free sl = - 1);
     let index = unat ((of_nat obj - of_nat (objs sl) :: u64) div of_nat (obj_size kc));
     kassert (index < length (freearr sl));
     let h = set_slab s (sl\<lparr>freearr := (freearr sl)[index := free sl], free := int index\<rparr>) h;
     Some (if full then set_cache c (kc\<lparr>full_slabs := remove1 s (full_slabs kc), free_slabs := free_slabs kc @ [s]\<rparr>) h else h) }"

definition kmem_cache_create :: "kheap \<Rightarrow> nat \<Rightarrow> (ptr \<times> kheap) exec" where
  "kmem_cache_create h sz = do {
     (c, h) \<leftarrow> kmem_cache_alloc h (allocator_cache h);
     if c = NULL then Some (NULL, h)
     else Some (c, set_cache c \<lparr>full_slabs = [], free_slabs = [], obj_size = sz\<rparr> h) }"

text \<open>Freeing the cache structure ends its life as a cache.\<close>

definition kmem_cache_destroy :: "kheap \<Rightarrow> ptr \<Rightarrow> kheap exec" where
  "kmem_cache_destroy h c = do {
     kassert (c \<noteq> NULL);
     kc \<leftarrow> caches h c;
     h \<leftarrow> slab_list_destroy h (free_slabs kc);
     h \<leftarrow> slab_list_destroy h (full_slabs kc);
     kmem_cache_free (h\<lparr>caches := (caches h)(c := None)\<rparr>) (allocator_cache h) c }"

section \<open>General allocation\<close>

fun init_allocators :: "kheap \<Rightarrow> (ptr \<times> nat) list \<Rightarrow> ((ptr \<times> nat) list \<times> kheap) exec" where
  "init_allocators h [] = Some ([], h)"
| "init_allocators h ((_, sz) # kas) = do {
     (c, h) \<leftarrow> kmem_cache_create h sz;
     kassert (c \<noteq> NULL);
     (rest, h) \<leftarrow> init_allocators h kas;
     Some ((c, sz) # rest, h) }"

definition kmalloc_sizes :: "(ptr \<times> nat) list" where
  "kmalloc_sizes = [(NULL, 32), (NULL, 64), (NULL, 128), (NULL, 256), (NULL, 512), (NULL, 1024), (NULL, 2048), (NULL, 4096)]"

definition kmalloc_init :: "kheap \<Rightarrow> kheap exec" where
  "kmalloc_init h = do {
     let h = set_cache (allocator_cache h) \<lparr>full_slabs = [], free_slabs = [], obj_size = sizeof_kmem_cache\<rparr> h;
     (kas, h) \<leftarrow> init_allocators h kmalloc_sizes;
     Some (h\<lparr>kmalloc_allocators := kas\<rparr>) }"

definition kmalloc :: "kheap \<Rightarrow> nat \<Rightarrow> (ptr \<times> kheap) exec" where
  "kmalloc h sz =
     (if sz = 0 then Some (NULL, h)
      else if sz > snd (last (kmalloc_allocators h)) then Some (NULL, h)
      else case find (\<lambda>a. snd a \<ge> sz) (kmalloc_allocators h) of
        Some a \<Rightarrow> kmem_cache_alloc h (fst a)
      | None \<Rightarrow> None)"

definition kfree :: "kheap \<Rightarrow> ptr \<Rightarrow> kheap exec" where
  "kfree h p = do {
     pg \<leftarrow> page_of h p;
     let c = kmem_cache (pagemap (kpm h) pg);
     kassert (c \<noteq> NULL);
     kmem_cache_free h c p }"

section \<open>The back links of the pages\<close>

definition links :: "pmem \<Rightarrow> nat \<Rightarrow> ptr \<times> ptr" where
  "links m i = (kmem_cache (pagemap m i), slab (pagemap m i))"

lemma links_upd [simp]:
  "links (upd_page i f m) j = (if j = i then (kmem_cache (f (pagemap m i)), slab (f (pagemap m i))) else links m j)"
  by (simp add: links_def upd_page_def)

lemma links_freeblocks [simp]: "links (m\<lparr>freeblocks := f\<rparr>) = links m"
  by (simp add: links_def fun_eq_iff)

lemma insert_links: "freeblocks_insert m i = Some m' \<Longrightarrow> links m' = links m"
  by (auto simp: freeblocks_insert_def Let_def split: if_splits) (auto simp: links_def upd_page_def fun_eq_iff)

lemma remove_links: "freeblocks_remove m i = Some m' \<Longrightarrow> links m' = links m"
  by (auto simp: freeblocks_remove_def split: if_splits)

lemma order_links: "links (upd_page i (\<lambda>p. p\<lparr>order := k p\<rparr>) m) = links m" "links (upd_page i (\<lambda>p. p\<lparr>refcnt := q p\<rparr>) m) = links m"
  by (simp_all add: links_def upd_page_def fun_eq_iff)

lemma find_freeblock_links_snd:
  assumes "find_freeblock m ord sp = Some y"
  shows "links (snd y) = links m"
proof (rule find_freeblock.raw_induct [OF _ assms, where P = "\<lambda>m ord sp y. links (snd y) = links m"], goal_cases)
  case (1 f m ord sp y)
  note IH = 1(1) and y = 1(2)
  let ?q = "case freeblocks m ord of pg # _ \<Rightarrow> do { m \<leftarrow> freeblocks_remove m pg; Some (Some pg, m) } | [] \<Rightarrow> f m (ord + 1) True"
  show ?case
  proof (cases "ord > MAX_ORDER")
    case True
    then show ?thesis using y by auto
  next
    case False
    then obtain r1 m1 where q: "?q = Some (r1, m1)" using y by (auto split: bind_splits)
    then have l: "links m1 = links m" using IH [of m "ord + 1" True] remove_links by (auto split: list.splits bind_splits)
    show ?thesis using y False q l
      by (auto simp: Let_def order_links split: option.splits if_splits bind_splits dest!: insert_links)
  qed
qed

lemma find_freeblock_links: "find_freeblock m ord sp = Some (r, m') \<Longrightarrow> links m' = links m"
  using find_freeblock_links_snd by fastforce

lemma merge_block_links: "merge_block m pg = Some (i, m') \<Longrightarrow> links m' = links m"
proof -
  assume a: "merge_block m pg = Some (i, m')"
  have "links (snd (i, m')) = links m"
  proof (rule merge_block.raw_induct [OF _ a, where P = "\<lambda>m pg y. links (snd y) = links m"], goal_cases)
    case (1 f m pg y)
    then show ?case
      by (auto simp: order_links split: option.splits if_splits bind_splits dest!: remove_links 1(1))
  qed
  then show ?thesis by simp
qed

lemma pmem_nfree_links:
  assumes "pmem_nfree m a n = Some m'" "pagemap_initialized m"
  shows "links m' = links m"
  using assms by (auto simp: pmem_nfree_def order_links split: if_splits bind_splits dest!: merge_block_links insert_links)

lemma pmem_nalloc_links:
  assumes inv: "pmem_inv m" and r: "pmem_nalloc m n = Some (ERR_OK, Some (page_to_paddr pg), m')" and pg: "pg < n_pages m"
  shows "links m' = (links m)(pg := (NULL, NULL))"
proof -
  have b: "binv m {} {0..<n_pages m}" "n_pages m \<le> 2 ^ 52" "pagemap_initialized m" using inv by (auto simp: pmem_inv_def)
  obtain ord i m1 where f: "find_freeblock m ord False = Some (Some i, m1)" and i: "page_to_paddr i = page_to_paddr pg"
    and m': "m' = upd_page i (\<lambda>p. p\<lparr>refcnt := 1, blk_headers := []\<rparr>) (upd_page i (\<lambda>p. pmem_set_page_dirty False
                 (p\<lparr>lock := sleeplock_init, kmem_cache := NULL, slab := NULL, rmap := NULL\<rparr>)) m1)"
    using r b(3) by (auto simp: pmem_nalloc_def split: if_splits bind_splits option.splits prod.splits)
  have l: "links m' = (links m)(i := (NULL, NULL))"
    using find_freeblock_links [OF f] unfolding m' by (simp add: fun_eq_iff links_def upd_page_def pmem_set_page_dirty_def)
  have q: "binv m1 {i} {0..<n_pages m}" "keeps m m1" using find_freeblock_ok [OF b(1), of False ord] unfolding f by auto
  have "n_pages m1 = n_pages m" using q(2) unfolding keeps_def by blast
  then have "i < n_pages m" using held_less [OF q(1), of i] by simp
  then have "i < 2 ^ 52" "pg < 2 ^ 52" using pg b(2) by linarith+
  from page_roundtrip [OF this(1)] page_roundtrip [OF this(2)] have "i = pg" unfolding i by simp
  then show ?thesis using l by simp
qed

lemma page_to_paddr_Suc: "page_to_paddr pg + pg_size = page_to_paddr (Suc pg)"
  by (simp add: page_to_paddr_def algebra_simps)

lemma link_pages_other [simp]:
  "order (pagemap (link_pages n a c s m) i) = order (pagemap m i)" "refcnt (pagemap (link_pages n a c s m) i) = refcnt (pagemap m i)"
  "n_pages (link_pages n a c s m) = n_pages m" "freeblocks (link_pages n a c s m) = freeblocks m"
  "pagemap_initialized (link_pages n a c s m) = pagemap_initialized m"
  by (induction n arbitrary: a m) (auto simp: upd_page_def)

lemma link_pages_inv [simp]:
  "allocated (link_pages n a c s m) = allocated m" "pmem_inv (link_pages n a c s m) = pmem_inv m"
  by (simp_all add: pmem_inv_def binv_def allocated_def freed_def pages_of_def)

lemma link_pages_links:
  "pg + n \<le> 2 ^ 52 \<Longrightarrow> links (link_pages n (page_to_paddr pg) c s m) i = (if pg \<le> i \<and> i < pg + n then (c, s) else links m i)"
proof (induction n arbitrary: pg m)
  case (Suc n)
  have "paddr_to_page (page_to_paddr pg) = pg" using Suc.prems by (intro page_roundtrip) simp
  then show ?case using Suc by (auto simp: page_to_paddr_Suc)
qed auto

section \<open>Addresses\<close>

abbreviation (input) kbase :: nat where "kbase \<equiv> 0xFFFFFFFF80000000"

definition kva :: "nat \<Rightarrow> nat" where
  "kva pg = kbase + pg * 4096"

lemma kva_p2v: "pg < 2 ^ 19 \<Longrightarrow> unat (kmap_p2v (page_to_paddr pg)) = kva pg"
  by (simp add: kmap_p2v_def KMAP_P2V_def KMAP_BASE_def page_to_paddr_def kva_def pg_size_def unat_word_ariths unat_of_nat)

lemma kmap_v2p_in:
  assumes n: "n < 2 ^ 19" and p: "kbase \<le> p" "p < kbase + n * 4096"
  shows "kmap_v2p (page_to_paddr n) (of_nat p) = Some (of_nat (p - kbase))"
proof -
  have u: "unat (of_nat p :: u64) = p" using n p by (simp add: unat_of_nat)
  have e: "unat (KMAP_BASE + page_to_paddr n) = kbase + n * 4096"
    using n by (simp add: KMAP_BASE_def page_to_paddr_def pg_size_def unat_word_ariths unat_of_nat)
  have "KMAP_BASE \<le> of_nat p" "of_nat p < KMAP_BASE + page_to_paddr n"
    using p u e by (simp_all only: word_le_nat_alt word_less_nat_alt) (simp add: KMAP_BASE_def)
  moreover have "KMAP_V2P (of_nat p) = of_nat (p - kbase)" using p(1) by (simp add: KMAP_V2P_def KMAP_BASE_def of_nat_diff)
  ultimately show ?thesis by (simp add: kmap_v2p_def)
qed

lemma page_of_in:
  assumes "n_pages (kpm h) < 2 ^ 19" "pg < n_pages (kpm h)" "kva pg \<le> p" "p < kva pg + 4096"
  shows "page_of h p = Some pg"
proof -
  have "p < kbase + n_pages (kpm h) * 4096"
  proof -
    have "kva pg + 4096 \<le> kbase + n_pages (kpm h) * 4096" using assms(2) by (simp add: kva_def)
    then show ?thesis using assms(4) by simp
  qed
  moreover from this have "unat (of_nat (p - kbase) div pg_size :: u64) = (p - kbase) div 4096"
    using assms(1) by (simp add: unat_div pg_size_def unat_of_nat)
  moreover have "(p - kbase) div 4096 = pg" using assms(3,4) unfolding kva_def by (intro div_nat_eqI) auto
  ultimately show ?thesis using kmap_v2p_in [OF assms(1), of p] assms(3)
    by (simp add: page_of_def paddr_to_page_def kva_def)
qed

lemma kva_inj: "kva pg = kva pg' \<Longrightarrow> pg = pg'"
  by (simp add: kva_def)

section \<open>The free slots of a slab\<close>

fun free_list :: "nat \<Rightarrow> int list \<Rightarrow> int \<Rightarrow> nat list" where
  "free_list 0 arr i = []"
| "free_list (Suc n) arr i = (if i < 0 \<or> nat i \<ge> length arr then [] else nat i # free_list n arr (arr ! nat i))"

fun chain :: "int list \<Rightarrow> int \<Rightarrow> nat list \<Rightarrow> bool" where
  "chain arr i [] \<longleftrightarrow> i = - 1"
| "chain arr i (k # ks) \<longleftrightarrow> i = int k \<and> k < length arr \<and> chain arr (arr ! k) ks"

definition free_slots :: "slab_t \<Rightarrow> nat list" where
  "free_slots sl = free_list (length (freearr sl)) (freearr sl) (free sl)"

lemma chain_bound: "chain arr i ks \<Longrightarrow> set ks \<subseteq> {..<length arr}"
  by (induction ks arbitrary: i) auto

lemma chain_free_list: "chain arr i ks \<Longrightarrow> length ks \<le> n \<Longrightarrow> free_list n arr i = ks"
proof (induction ks arbitrary: i n)
  case Nil
  then show ?case by (cases n) auto
next
  case (Cons k ks)
  then show ?case by (cases n) auto
qed

lemma chain_slots:
  assumes "chain (freearr sl) (free sl) ks" "distinct ks"
  shows "free_slots sl = ks"
proof -
  have "length ks \<le> length (freearr sl)"
    using card_mono [OF _ chain_bound [OF assms(1)]] distinct_card [OF assms(2)] by simp
  then show ?thesis unfolding free_slots_def by (rule chain_free_list [OF assms(1)])
qed

lemma chain_update: "k \<notin> set ks \<Longrightarrow> chain (arr[k := v]) i ks = chain arr i ks"
  by (induction ks arbitrary: i) auto

lemma chain_from:
  assumes "k \<le> n"
  shows "chain (map (\<lambda>i. int (i + 1)) [0..<n - 1] @ [- 1]) (if k < n then int k else - 1) [k..<n]"
  using assms
proof (induction k rule: inc_induct)
  case (step k)
  have "(map (\<lambda>i. int (i + 1)) [0..<n - 1] @ [- 1]) ! k = (if Suc k < n then int (Suc k) else - 1)" using step(2) by (auto simp: nth_append)
  then show ?case using step by (simp add: upt_conv_Cons)
qed simp

lemma chain_init:
  assumes "0 < n"
  shows "chain (map (\<lambda>i. int (i + 1)) [0..<n - 1] @ [- 1]) 0 [0..<n]"
  using chain_from [of 0 n] assms by simp

definition slab_wf :: "nat \<Rightarrow> ptr \<Rightarrow> slab_t \<Rightarrow> bool" where
  "slab_wf sz s sl \<longleftrightarrow> length (freearr sl) = slab_objs sz \<and> objs sl = s + sizeof_slab + sizeof_int * slab_objs sz \<and> sl_pages sl = slab_pages sz
     \<and> chain (freearr sl) (free sl) (free_slots sl) \<and> distinct (free_slots sl)"

definition live_in :: "nat \<Rightarrow> slab_t \<Rightarrow> nat set" where
  "live_in sz sl = {objs sl + sz * k | k. k < length (freearr sl) \<and> k \<notin> set (free_slots sl)}"

lemma slab_wf_intro:
  assumes "length (freearr sl) = slab_objs sz" "objs sl = s + sizeof_slab + sizeof_int * slab_objs sz" "sl_pages sl = slab_pages sz"
    "chain (freearr sl) (free sl) ks" "distinct ks"
  shows "slab_wf sz s sl" "free_slots sl = ks"
  using assms chain_slots [OF assms(4,5)] by (auto simp: slab_wf_def)

lemma slab_new:
  fixes s :: ptr
  assumes "0 < slab_objs sz"
  defines "sl \<equiv> \<lparr>objs = s + sizeof_slab + sizeof_int * slab_objs sz, free = 0, sl_pages = slab_pages sz,
         freearr = map (\<lambda>i. int (i + 1)) [0..<slab_objs sz - 1] @ [- 1]\<rparr>"
  shows "slab_wf sz s sl" "free_slots sl = [0..<slab_objs sz]" "live_in sz sl = {}"
proof -
  show w: "slab_wf sz s sl" "free_slots sl = [0..<slab_objs sz]"
    by (rule slab_wf_intro [where ks = "[0..<slab_objs sz]"]; use chain_init [OF assms(1)] assms in \<open>simp add: sl_def\<close>)+
  show "live_in sz sl = {}" unfolding live_in_def w(2) using assms(1) by (simp add: sl_def)
qed

lemma slab_take:
  assumes w: "slab_wf sz s sl" and f: "free_slots sl = k # ks" and sz: "0 < sz"
  defines "sl' \<equiv> sl\<lparr>free := freearr sl ! k\<rparr>" and "p \<equiv> objs sl + sz * k"
  shows "free sl = int k" "k < length (freearr sl)" "slab_wf sz s sl'" "free_slots sl' = ks" "p \<notin> live_in sz sl" "live_in sz sl' = insert p (live_in sz sl)"
proof -
  have c: "chain (freearr sl) (free sl) (k # ks)" "distinct (k # ks)" using w f by (auto simp: slab_wf_def)
  show b: "free sl = int k" "k < length (freearr sl)" using c by auto
  show w': "slab_wf sz s sl'" "free_slots sl' = ks"
    by (rule slab_wf_intro [where ks = ks]; use w c in \<open>simp add: sl'_def slab_wf_def\<close>)+
  show "p \<notin> live_in sz sl" using f sz by (auto simp: live_in_def p_def)
  show "live_in sz sl' = insert p (live_in sz sl)"
    unfolding live_in_def w'(2) f p_def using b(2) c(2) by (auto simp: sl'_def)
qed

lemma slab_give:
  assumes w: "slab_wf sz s sl" and p: "p \<in> live_in sz sl" and sz: "0 < sz"
  defines "k \<equiv> (p - objs sl) div sz"
  defines "sl' \<equiv> sl\<lparr>freearr := (freearr sl)[k := free sl], free := int k\<rparr>"
  shows "k < length (freearr sl)" "p = objs sl + sz * k" "slab_wf sz s sl'" "free_slots sl' = k # free_slots sl" "live_in sz sl' = live_in sz sl - {p}"
proof -
  obtain j where j: "j < length (freearr sl)" "j \<notin> set (free_slots sl)" "p = objs sl + sz * j" using p by (auto simp: live_in_def)
  have k: "k = j" using sz by (simp add: k_def j(3))
  show "k < length (freearr sl)" "p = objs sl + sz * k" using j k by auto
  have c: "chain (freearr sl) (free sl) (free_slots sl)" "distinct (free_slots sl)" using w by (auto simp: slab_wf_def)
  show w': "slab_wf sz s sl'" "free_slots sl' = k # free_slots sl"
    by (rule slab_wf_intro [where ks = "k # free_slots sl"]; use w c j(1,2) chain_update [of k] in \<open>simp add: sl'_def slab_wf_def k\<close>)+
  show "live_in sz sl' = live_in sz sl - {p}" unfolding live_in_def w'(2) k using sz j(3) by (auto simp: sl'_def)
qed

text \<open>The objects of a slab lie in its pages, behind its structure and index array.\<close>

lemma slab_pages_pos [simp]: "0 < slab_pages sz"
  by (simp add: slab_pages_def)

lemma slab_size:
  "128 \<le> slab_objs sz" "sizeof_slab + sizeof_int * slab_objs sz + sz * slab_objs sz \<le> slab_pages sz * 4096"
proof -
  have up: "40 + (sz + 4) * 128 \<le> slab_pages sz * 4096" 
    using div_mult_mod_eq [of "40 + (sz + 4) * 128 + 4095" 4096] mod_less_divisor [of 4096 "40 + (sz + 4) * 128 + 4095"] unfolding slab_pages_def by linarith
  have "(sz + 4) * 128 \<le> slab_pages sz * 4096 - 40" using up by simp
  then show "128 \<le> slab_objs sz" unfolding slab_objs_def by (simp add: less_eq_div_iff_mult_less_eq mult.commute)
  have "slab_objs sz * (sz + 4) \<le> slab_pages sz * 4096 - 40" unfolding slab_objs_def by (rule div_times_less_eq_dividend)
  then show "sizeof_slab + sizeof_int * slab_objs sz + sz * slab_objs sz \<le> slab_pages sz * 4096" using up by (simp add: algebra_simps)
qed

lemma live_in_bounds:
  assumes w: "slab_wf sz s sl" and p: "p \<in> live_in sz sl" and sz: "0 < sz"
  shows "s + sizeof_slab + sizeof_int * slab_objs sz \<le> p" "p + sz \<le> s + slab_pages sz * 4096"
proof -
  obtain j where j: "j < slab_objs sz" "p = objs sl + sz * j" using w p by (auto simp: live_in_def slab_wf_def)
  have "sz * j + sz \<le> sz * slab_objs sz" using j(1) mult_le_mono2 [of "Suc j" "slab_objs sz" sz] by simp
  then show "s + sizeof_slab + sizeof_int * slab_objs sz \<le> p" "p + sz \<le> s + slab_pages sz * 4096"
    using j(2) w slab_size(2) [of sz] by (auto simp: slab_wf_def)
qed

lemma live_in_apart:
  assumes "p \<in> live_in sz sl" "q \<in> live_in sz sl" "p \<noteq> q"
  shows "{p..<p + sz} \<inter> {q..<q + sz} = {}"
proof -
  obtain i j where ij: "p = objs sl + sz * i" "q = objs sl + sz * j" using assms by (auto simp: live_in_def)
  then have "i < j \<or> j < i" using assms(3) by auto
  then have "sz * Suc i \<le> sz * j \<or> sz * Suc j \<le> sz * i" by (auto intro: mult_le_mono2 simp del: mult_Suc_right)
  then show ?thesis using ij by auto
qed

section \<open>The invariant of the heap\<close>

definition slab_at :: "kheap \<Rightarrow> ptr \<Rightarrow> nat \<Rightarrow> ptr \<Rightarrow> bool" where
  "slab_at h c sz s \<longleftrightarrow> (\<exists>pg sl. s = kva pg \<and> pg \<in> allocated (kpm h) \<and> pg \<noteq> 0 \<and> slab_pages sz \<le> 2 ^ od (kpm h) pg
     \<and> (\<forall>i < slab_pages sz. links (kpm h) (pg + i) = (c, s)) \<and> slabs h s = Some sl \<and> slab_wf sz s sl)"

definition slabs_of :: "kmem_cache_t \<Rightarrow> ptr set" where
  "slabs_of kc = set (free_slabs kc) \<union> set (full_slabs kc)"

definition cache_inv :: "kheap \<Rightarrow> ptr \<Rightarrow> kmem_cache_t \<Rightarrow> bool" where
  "cache_inv h c kc \<longleftrightarrow> c \<noteq> NULL \<and> 0 < obj_size kc \<and> slab_pages (obj_size kc) \<le> 1024 \<and> distinct (free_slabs kc) \<and> distinct (full_slabs kc)
     \<and> (\<forall>s \<in> slabs_of kc. slab_at h c (obj_size kc) s)
     \<and> (\<forall>s \<in> set (free_slabs kc). free_slots (the (slabs h s)) \<noteq> []) \<and> (\<forall>s \<in> set (full_slabs kc). free_slots (the (slabs h s)) = [])"

definition heap_inv :: "kheap \<Rightarrow> bool" where
  "heap_inv h \<longleftrightarrow> pmem_inv (kpm h) \<and> n_pages (kpm h) < 2 ^ 19 \<and> (\<forall>c kc. caches h c = Some kc \<longrightarrow> cache_inv h c kc)"

definition size_of :: "kheap \<Rightarrow> ptr \<Rightarrow> nat" where
  "size_of h c = obj_size (the (caches h c))"

definition live :: "kheap \<Rightarrow> ptr \<Rightarrow> nat set" where
  "live h c = (case caches h c of None \<Rightarrow> {} | Some kc \<Rightarrow> \<Union>s \<in> slabs_of kc. live_in (obj_size kc) (the (slabs h s)))"

lemma heap_invD:
  assumes "heap_inv h"
  shows "pmem_inv (kpm h)" "n_pages (kpm h) < 2 ^ 19" "caches h c = Some kc \<Longrightarrow> cache_inv h c kc"
  using assms by (auto simp: heap_inv_def)

lemma slab_at_same: "slab_at h c sz s \<Longrightarrow> slab_at h c' sz' s \<Longrightarrow> c' = c"
proof -
  assume "slab_at h c sz s" "slab_at h c' sz' s"
  then obtain pg where "links (kpm h) pg = (c, s)" "links (kpm h) pg = (c', s)"
    unfolding slab_at_def by (metis add.right_neutral kva_inj slab_pages_pos)
  then show ?thesis by simp
qed

lemma slab_at_block:
  assumes "slab_at h c sz (kva pg)" "pmem_inv (kpm h)"
  shows "pg \<in> allocated (kpm h)" "{pg..<pg + slab_pages sz} \<subseteq> blk pg (od (kpm h) pg)" "pg + slab_pages sz \<le> n_pages (kpm h)"
proof -
  show a: "pg \<in> allocated (kpm h)" using assms(1) kva_inj by (auto simp: slab_at_def)
  have le: "slab_pages sz \<le> 2 ^ od (kpm h) pg" using assms(1) kva_inj by (auto simp: slab_at_def)
  then show "{pg..<pg + slab_pages sz} \<subseteq> blk pg (od (kpm h) pg)" by (auto simp: blk_def)
  have "binv (kpm h) {} {0..<n_pages (kpm h)}" using assms(2) by (simp add: pmem_inv_def)
  from binvD(5) [OF this, of pg] show "pg + slab_pages sz \<le> n_pages (kpm h)" using a le by auto
qed

lemma slab_at_apart:
  assumes "slab_at h c sz (kva pg)" "slab_at h c' sz' (kva pg')" "pg \<noteq> pg'" "pmem_inv (kpm h)"
  shows "{pg..<pg + slab_pages sz} \<inter> {pg'..<pg' + slab_pages sz'} = {}"
proof -
  have "binv (kpm h) {} {0..<n_pages (kpm h)}" using assms(4) by (simp add: pmem_inv_def)
  then have "blk pg (od (kpm h) pg) \<inter> blk pg' (od (kpm h) pg') = {}"
    using binvD(6) slab_at_block(1) [OF assms(1,4)] slab_at_block(1) [OF assms(2,4)] assms(3) by blast
  then show ?thesis using slab_at_block(2) [OF assms(1,4)] slab_at_block(2) [OF assms(2,4)] by blast
qed

lemma slab_atD:
  assumes "slab_at h c sz s"
  obtains pg sl where "s = kva pg" "slabs h s = Some sl" "slab_wf sz s sl" "\<And>i. i < slab_pages sz \<Longrightarrow> links (kpm h) (pg + i) = (c, s)" "pg \<noteq> 0"
  using assms unfolding slab_at_def by blast

lemma slab_addr_apart:
  assumes a: "slab_at h c sz s" "slab_at h c' sz' s'" "s \<noteq> s'" and inv: "pmem_inv (kpm h)"
  shows "s + slab_pages sz * 4096 \<le> s' \<or> s' + slab_pages sz' * 4096 \<le> s"
proof -
  obtain pg pg' where pg: "s = kva pg" "s' = kva pg'" using slab_atD a(1,2) by metis
  then have "{pg..<pg + slab_pages sz} \<inter> {pg'..<pg' + slab_pages sz'} = {}"
    using slab_at_apart [of h c sz pg c' sz' pg'] a inv by auto
  moreover have "pg \<in> {pg..<pg + slab_pages sz}" "pg' \<in> {pg'..<pg' + slab_pages sz'}" by simp_all
  ultimately have "pg + slab_pages sz \<le> pg' \<or> pg' + slab_pages sz' \<le> pg"
    by (metis disjoint_iff atLeastLessThan_iff linorder_not_le nle_le)
  then show ?thesis using pg by (auto simp: kva_def)
qed

text \<open>A live object lies in one slab, and its page leads back to that slab and its cache.\<close>

lemma live_obj:
  assumes inv: "heap_inv h" and p: "p \<in> live h c"
  obtains kc s sl pg where "caches h c = Some kc" "s \<in> slabs_of kc" "slab_at h c (obj_size kc) s" "slabs h s = Some sl" "slab_wf (obj_size kc) s sl"
    "p \<in> live_in (obj_size kc) sl" "page_of h p = Some pg" "links (kpm h) pg = (c, s)"
proof -
  obtain kc s where kc: "caches h c = Some kc" and s: "s \<in> slabs_of kc" and l: "p \<in> live_in (obj_size kc) (the (slabs h s))"
    using p by (auto simp: live_def split: option.splits)
  note ci = heap_invD(3) [OF inv kc]
  have a: "slab_at h c (obj_size kc) s" and sz: "0 < obj_size kc" using ci s by (auto simp: cache_inv_def)
  obtain pg sl where sl: "s = kva pg" "slabs h s = Some sl" "slab_wf (obj_size kc) s sl"
    and lk: "\<And>i. i < slab_pages (obj_size kc) \<Longrightarrow> links (kpm h) (pg + i) = (c, s)" using slab_atD [OF a] by metis
  have l': "p \<in> live_in (obj_size kc) sl" using l sl(2) by simp
  note b = live_in_bounds [OF sl(3) l' sz]
  define i where "i = (p - kva pg) div 4096"
  have d: "i * 4096 \<le> p - kva pg" "p - kva pg < i * 4096 + 4096"
    using div_mult_mod_eq [of "p - kva pg" 4096] mod_less_divisor [of 4096 "p - kva pg"] by (simp_all add: i_def)
  have "kva (pg + i) = kva pg + i * 4096" "kva pg \<le> p" using b(1) sl(1) by (auto simp: kva_def)
  then have p1: "kva (pg + i) \<le> p" "p < kva (pg + i) + 4096" using d by auto
  have i: "i < slab_pages (obj_size kc)" using b(1,2) sz unfolding i_def sl(1) by (intro div_less_iff_less_mult [THEN iffD2]) auto
  have "pg + i < n_pages (kpm h)" using slab_at_block(3) [of h c "obj_size kc" pg] a sl(1) heap_invD(1) [OF inv] i by simp
  from page_of_in [OF heap_invD(2) [OF inv] this p1] have "page_of h p = Some (pg + i)" .
  then show thesis using that kc s a sl(2,3) l' lk [OF i] by blast
qed

lemma objects_apart:
  assumes inv: "heap_inv h" and p: "p \<in> live h c" and q: "q \<in> live h c'" and ne: "p \<noteq> q \<or> c \<noteq> c'"
  shows "{p..<p + size_of h c} \<inter> {q..<q + size_of h c'} = {}"
proof -
  obtain kc s sl where s: "caches h c = Some kc" "slab_at h c (obj_size kc) s" "slabs h s = Some sl" "slab_wf (obj_size kc) s sl" "p \<in> live_in (obj_size kc) sl"
    using live_obj [OF inv p] by metis
  obtain kc' s' sl' where s': "caches h c' = Some kc'" "slab_at h c' (obj_size kc') s'" "slabs h s' = Some sl'" "slab_wf (obj_size kc') s' sl'" "q \<in> live_in (obj_size kc') sl'"
    using live_obj [OF inv q] by metis
  have z: "0 < obj_size kc" "0 < obj_size kc'" using heap_invD(3) [OF inv] s(1) s'(1) by (auto simp: cache_inv_def)
  show ?thesis
  proof (cases "s = s'")
    case True
    then have "c' = c" using slab_at_same s(2) s'(2) by blast
    then show ?thesis using live_in_apart s s' True ne by (auto simp: size_of_def)
  next
    case False
    then have "s + slab_pages (obj_size kc) * 4096 \<le> s' \<or> s' + slab_pages (obj_size kc') * 4096 \<le> s"
      by (rule slab_addr_apart [OF s(2) s'(2) _ heap_invD(1) [OF inv]])
    then show ?thesis using live_in_bounds [OF s(4,5) z(1)] live_in_bounds [OF s'(4,5) z(2)] s(1) s'(1) by (auto simp: size_of_def)
  qed
qed

section \<open>Exchanging one slab\<close>

definition swapped :: "ptr \<Rightarrow> ptr \<Rightarrow> slab_t \<Rightarrow> kmem_cache_t \<Rightarrow> kheap \<Rightarrow> kheap \<Rightarrow> bool" where
  "swapped c s sl' kc' h h' \<longleftrightarrow> kpm h' = kpm h \<and> caches h' = (caches h)(c := Some kc') \<and> slabs h' = (slabs h)(s := Some sl')"

lemma slab_at_swapped:
  assumes "swapped c s sl' kc' h h'" "slab_at h d sz t" "t = s \<longrightarrow> slab_wf sz s sl'"
  shows "slab_at h' d sz t"
  using assms unfolding slab_at_def swapped_def by auto

lemma swap_inv:
  assumes inv: "heap_inv h" and kc: "caches h c = Some kc" and s: "s \<in> slabs_of kc" and sw: "swapped c s sl' kc' h h'"
    and w: "slab_wf (obj_size kc) s sl'" and k: "obj_size kc' = obj_size kc" "slabs_of kc' = slabs_of kc" "distinct (free_slabs kc')" "distinct (full_slabs kc')"
    and fl: "\<forall>t \<in> set (free_slabs kc'). if t = s then free_slots sl' \<noteq> [] else t \<in> set (free_slabs kc)"
      "\<forall>t \<in> set (full_slabs kc'). if t = s then free_slots sl' = [] else t \<in> set (full_slabs kc)"
  shows "heap_inv h'"
proof -
  have sa: "slab_at h c (obj_size kc) s" using heap_invD(3) [OF inv kc] s by (auto simp: cache_inv_def)
  have e: "kpm h' = kpm h" "caches h' = (caches h)(c := Some kc')" "slabs h' = (slabs h)(s := Some sl')" using sw by (auto simp: swapped_def)
  have at: "slab_at h' d sz t" if "slab_at h d sz t" "d = c \<longrightarrow> sz = obj_size kc" for d sz t
    using slab_at_swapped [OF sw that(1)] w slab_at_same [OF sa] that by blast
  have "cache_inv h' d kd" if d: "caches h' d = Some kd" for d kd
  proof (cases "d = c")
    case True
    then have kd: "kd = kc'" using d e(2) by simp
    note i = heap_invD(3) [OF inv kc, unfolded cache_inv_def]
    show ?thesis unfolding cache_inv_def kd k(1,2) using i k(3,4) fl at True e(3) by auto
  next
    case False
    then have kd: "caches h d = Some kd" using d e(2) by simp
    note i = heap_invD(3) [OF inv kd, unfolded cache_inv_def]
    have "s \<notin> slabs_of kd" using i slab_at_same [OF sa] False by blast
    then show ?thesis unfolding cache_inv_def using i at False e(3) by (auto simp: slabs_of_def)
  qed
  then show ?thesis using heap_invD(1,2) [OF inv] e(1) by (simp add: heap_inv_def)
qed

lemma swap_live:
  assumes inv: "heap_inv h" and kc: "caches h c = Some kc" and s: "s \<in> slabs_of kc" "slabs h s = Some sl" and sw: "swapped c s sl' kc' h h'"
    and k: "obj_size kc' = obj_size kc" "slabs_of kc' = slabs_of kc"
  shows "live h' = (live h)(c := live h c - live_in (obj_size kc) sl \<union> live_in (obj_size kc) sl')"
proof
  fix d
  have e: "caches h' = (caches h)(c := Some kc')" "slabs h' = (slabs h)(s := Some sl')" using sw by (auto simp: swapped_def)
  note i = heap_invD(3) [OF inv kc, unfolded cache_inv_def]
  show "live h' d = ((live h)(c := live h c - live_in (obj_size kc) sl \<union> live_in (obj_size kc) sl')) d"
  proof (cases "d = c")
    case False
    have "s \<notin> slabs_of kd" if "caches h d = Some kd" for kd
      using heap_invD(3) [OF inv that] i s False slab_at_same unfolding cache_inv_def by blast
    then show ?thesis using False e by (auto simp: live_def split: option.splits if_splits)
  next
    case True
    have dis: "live_in (obj_size kc) (the (slabs h t)) \<inter> live_in (obj_size kc) sl = {}" if t: "t \<in> slabs_of kc" "t \<noteq> s" for t
    proof -
      have z: "0 < obj_size kc" using i by simp
      have sa: "slab_at h c (obj_size kc) s" "slab_at h c (obj_size kc) t" using i s t by auto
      have pg: "slab_wf (obj_size kc) s sl" using slab_atD [OF sa(1)] s by (metis option.inject)
      obtain tl where pg': "slabs h t = Some tl" "slab_wf (obj_size kc) t tl" using slab_atD [OF sa(2)] by metis
      have "s + slab_pages (obj_size kc) * 4096 \<le> t \<or> t + slab_pages (obj_size kc) * 4096 \<le> s"
        using slab_addr_apart [OF sa _ heap_invD(1) [OF inv]] t(2) by simp
      then show ?thesis using live_in_bounds [OF pg _ z] live_in_bounds [OF pg'(2) _ z] pg'(1) z by fastforce
    qed
    have "live h' c = (\<Union>t \<in> slabs_of kc - {s}. live_in (obj_size kc) (the (slabs h t))) \<union> live_in (obj_size kc) sl'"
      using e s(1) k by (auto simp: live_def split: if_splits)
    moreover have "live h c - live_in (obj_size kc) sl = (\<Union>t \<in> slabs_of kc - {s}. live_in (obj_size kc) (the (slabs h t)))"
      using kc s dis by (auto simp: live_def)
    ultimately show ?thesis using True by simp
  qed
qed

section \<open>The operations\<close>

definition no_block :: "pmem \<Rightarrow> nat \<Rightarrow> bool" where
  "no_block m n \<longleftrightarrow> (\<forall>k \<le> MAX_ORDER. n \<le> 2 ^ k \<longrightarrow> freeblocks m k = [])"

definition same_rest :: "kheap \<Rightarrow> kheap \<Rightarrow> bool" where
  "same_rest h h' \<longleftrightarrow> kmalloc_allocators h' = kmalloc_allocators h \<and> allocator_cache h' = allocator_cache h
     \<and> (\<forall>c. map_option obj_size (caches h' c) = map_option obj_size (caches h c)) \<and> n_pages (kpm h') = n_pages (kpm h)
     \<and> (\<forall>i \<in> allocated (kpm h). i \<in> allocated (kpm h') \<and> links (kpm h') i = links (kpm h) i)"

lemma nalloc_block:
  assumes inv: "pmem_inv m" and n: "0 < n" "n \<le> 1024" and small: "n_pages m < 2 ^ 19"
  shows "pmem_nalloc m n = Some (ERR_NOMEM, None, m) \<and> no_block m n
    \<or> (\<exists>pg m'. pmem_nalloc m n = Some (ERR_OK, Some (page_to_paddr pg), m') \<and> pmem_inv m' \<and> pg \<notin> allocated m \<and> pg < n_pages m \<and> pg \<noteq> 0
         \<and> allocated m' = insert pg (allocated m) \<and> n \<le> 2 ^ od m' pg \<and> n_pages m' = n_pages m \<and> pg + n \<le> n_pages m
         \<and> (\<forall>i \<in> allocated m. od m' i = od m i \<and> blk i (od m i) \<inter> blk pg (od m' pg) = {}) \<and> links m' = (links m)(pg := (NULL, NULL)))"
proof -
  obtain ord where o: "get_min_page_order n = Some ord" "n \<le> 2 ^ ord" "\<forall>k < ord. 2 ^ k < n" using get_min_page_order_ok [OF n] by blast
  from pmem_nalloc_ok [OF inv n] o(1) consider
      (none) "pmem_nalloc m n = Some (ERR_NOMEM, None, m)" "\<forall>k. ord \<le> k \<longrightarrow> k \<le> MAX_ORDER \<longrightarrow> freeblocks m k = []"
    | (ok) pg m' where "pmem_nalloc m n = Some (ERR_OK, Some (page_to_paddr pg), m')" "pmem_inv m'" "pg \<notin> allocated m" "pg < n_pages m"
      "allocated m' = insert pg (allocated m)" "od m' pg = ord" "n_pages m' = n_pages m" "\<forall>i \<in> allocated m. pagemap m' i = pagemap m i" by auto
  then show ?thesis
  proof cases
    case none
    moreover have "no_block m n" unfolding no_block_def using none(2) o(3) by (meson leD leI)
    ultimately show ?thesis by blast
  next
    case ok
    have b: "binv m' {} {0..<n_pages m'}" using ok(2) by (simp add: pmem_inv_def)
    have "0 \<in> allocated m" using inv by (simp add: pmem_inv_def)
    then have "pg \<noteq> 0" using ok(3) by metis
    moreover have "pg + n \<le> n_pages m" using binvD(5) [OF b, of pg] ok(5-7) o(2) by auto
    moreover have "blk i (od m i) \<inter> blk pg (od m' pg) = {}" if "i \<in> allocated m" for i
      using binvD(6) [OF b, of i pg] ok(3,5,8) that by auto
    ultimately show ?thesis using ok o(2) pmem_nalloc_links [OF inv ok(1,4)] by auto
  qed
qed

lemma add_slab:
  assumes inv: "heap_inv h" and kc: "caches h c = Some kc" and pm: "pmem_inv pm1" "n_pages pm1 = n_pages (kpm h)"
    and pg: "pg \<notin> allocated (kpm h)" "pg \<noteq> 0" "allocated pm1 = insert pg (allocated (kpm h))" "slab_pages (obj_size kc) \<le> 2 ^ od pm1 pg" "s = kva pg"
    and fr: "\<And>i. i \<in> allocated (kpm h) \<Longrightarrow> od pm1 i = od (kpm h) i \<and> blk i (od (kpm h) i) \<inter> blk pg (od pm1 pg) = {}"
    and l1: "\<And>j. links pm1 j = (if pg \<le> j \<and> j < pg + slab_pages (obj_size kc) then (c, s) else links (kpm h) j)"
    and w: "slab_wf (obj_size kc) s sl" "free_slots sl \<noteq> []" "live_in (obj_size kc) sl = {}"
  defines "h1 \<equiv> set_cache c (kc\<lparr>free_slabs := free_slabs kc @ [s]\<rparr>) (set_slab s sl (h\<lparr>kpm := pm1\<rparr>))"
  shows "heap_inv h1" "live h1 = live h" "s \<notin> slabs_of kc" "same_rest h h1"
proof -
  have "links pm1 i = links (kpm h) i" if "i \<in> allocated (kpm h)" for i
  proof -
    have "i \<notin> blk pg (od pm1 pg)" using fr [OF that] blk_head [of i "od (kpm h) i"] by blast
    then show ?thesis unfolding l1 using pg(4) by (auto simp: blk_def)
  qed
  then show "same_rest h h1" using kc pm(2) pg(3) by (auto simp: same_rest_def h1_def set_cache_def set_slab_def)
  have e: "kpm h1 = pm1" "slabs h1 = (slabs h)(s := Some sl)" "caches h1 = (caches h)(c := Some (kc\<lparr>free_slabs := free_slabs kc @ [s]\<rparr>))"
    by (simp_all add: h1_def set_cache_def set_slab_def)
  have ne: "t \<noteq> s" if "slab_at h d sz t" for d sz t using that pg(1,5) kva_inj by (auto simp: slab_at_def)
  have at: "slab_at h1 d sz t" if td: "slab_at h d sz t" for d sz t
  proof -
    obtain pt tl where t: "t = kva pt" "pt \<in> allocated (kpm h)" "pt \<noteq> 0" "slab_pages sz \<le> 2 ^ od (kpm h) pt"
      "\<And>i. i < slab_pages sz \<Longrightarrow> links (kpm h) (pt + i) = (d, t)" "slabs h t = Some tl" "slab_wf sz t tl" using td unfolding slab_at_def by blast
    have "links pm1 (pt + i) = (d, t)" if i: "i < slab_pages sz" for i
    proof -
      have "pt + i \<in> blk pt (od (kpm h) pt)" using i t(4) by (simp add: blk_def)
      then have "pt + i \<notin> blk pg (od pm1 pg)" using fr [OF t(2)] by blast
      then have "\<not> (pg \<le> pt + i \<and> pt + i < pg + slab_pages (obj_size kc))" using pg(4) by (auto simp: blk_def)
      then show ?thesis using t(5) [OF i] unfolding l1 by auto
    qed
    then show ?thesis unfolding slab_at_def e using t fr [OF t(2)] pg(3) ne [OF td] by auto
  qed
  have new: "slab_at h1 c (obj_size kc) s" unfolding slab_at_def e using pg w(1) l1 by auto
  show "s \<notin> slabs_of kc" using ne heap_invD(3) [OF inv kc] by (auto simp: cache_inv_def)
  have old: "s \<notin> slabs_of kd" if "caches h d = Some kd" for d kd using ne heap_invD(3) [OF inv that] by (auto simp: cache_inv_def)
  have "cache_inv h1 d kd" if d: "caches h1 d = Some kd" for d kd
  proof (cases "d = c")
    case True
    then have kd: "kd = kc\<lparr>free_slabs := free_slabs kc @ [s]\<rparr>" using d e(3) by simp
    show ?thesis using heap_invD(3) [OF inv kc] old [OF kc] at new w(2) True unfolding kd cache_inv_def slabs_of_def e by auto
  next
    case False
    then have kd: "caches h d = Some kd" using d e(3) by simp
    show ?thesis using heap_invD(3) [OF inv kd] old [OF kd] at unfolding cache_inv_def slabs_of_def e by auto
  qed
  then show "heap_inv h1" using pm heap_invD(2) [OF inv] by (simp add: heap_inv_def e)
  have same: "(\<Union>t \<in> slabs_of kd. live_in z (the (slabs h1 t))) = (\<Union>t \<in> slabs_of kd. live_in z (the (slabs h t)))"
    if "caches h d = Some kd" for d kd z using old [OF that] e(2) by (intro SUP_cong) auto
  show "live h1 = live h"
  proof
    fix d
    show "live h1 d = live h d"
    proof (cases "d = c")
      case True
      then show ?thesis using same [OF kc, of "obj_size kc"] kc w(3) e(2,3) by (auto simp: live_def slabs_of_def)
    next
      case False
      then show ?thesis using same [of d] e(3) by (simp add: live_def split: option.splits)
    qed
  qed
qed

lemma slab_create_ok:
  assumes inv: "heap_inv h" and kc: "caches h c = Some kc"
  shows "slab_create h c = Some (NULL, h) \<and> no_block (kpm h) (slab_pages (obj_size kc))
    \<or> (\<exists>s sl h1. slab_create h c = Some (s, h1) \<and> s \<noteq> NULL \<and> heap_inv h1 \<and> live h1 = live h \<and> same_rest h h1 \<and> kbytes h1 = kbytes h
        \<and> caches h1 c = Some (kc\<lparr>free_slabs := free_slabs kc @ [s]\<rparr>) \<and> slabs h1 s = Some sl \<and> free_slots sl \<noteq> [] \<and> s \<notin> slabs_of kc)"
proof -
  let ?sz = "obj_size kc" and ?n = "slab_pages (obj_size kc)" and ?k = "slab_objs (obj_size kc)"
  note i = heap_invD(3) [OF inv kc, unfolded cache_inv_def] and small = heap_invD(2) [OF inv]
  have n: "0 < ?n" "?n \<le> 1024" using i by auto
  from nalloc_block [OF heap_invD(1) [OF inv] n small] show ?thesis
  proof
    assume a: "pmem_nalloc (kpm h) ?n = Some (ERR_NOMEM, None, kpm h) \<and> no_block (kpm h) ?n"
    then have "slab_create h c = Some (NULL, h)" using i kc by (simp add: slab_create_def Let_def)
    then show ?thesis using a by blast
  next
    assume "\<exists>pg m'. pmem_nalloc (kpm h) ?n = Some (ERR_OK, Some (page_to_paddr pg), m') \<and> pmem_inv m' \<and> pg \<notin> allocated (kpm h) \<and> pg < n_pages (kpm h) \<and> pg \<noteq> 0
         \<and> allocated m' = insert pg (allocated (kpm h)) \<and> ?n \<le> 2 ^ od m' pg \<and> n_pages m' = n_pages (kpm h) \<and> pg + ?n \<le> n_pages (kpm h)
         \<and> (\<forall>i \<in> allocated (kpm h). od m' i = od (kpm h) i \<and> blk i (od (kpm h) i) \<inter> blk pg (od m' pg) = {}) \<and> links m' = (links (kpm h))(pg := (NULL, NULL))"
    then obtain pg m' where m: "pmem_nalloc (kpm h) ?n = Some (ERR_OK, Some (page_to_paddr pg), m')" "pmem_inv m'" "pg \<notin> allocated (kpm h)"
      "pg < n_pages (kpm h)" "pg \<noteq> 0" "allocated m' = insert pg (allocated (kpm h))" "?n \<le> 2 ^ od m' pg" "n_pages m' = n_pages (kpm h)" "pg + ?n \<le> n_pages (kpm h)"
      and fr: "\<And>i. i \<in> allocated (kpm h) \<Longrightarrow> od m' i = od (kpm h) i \<and> blk i (od (kpm h) i) \<inter> blk pg (od m' pg) = {}"
      and lk: "links m' = (links (kpm h))(pg := (NULL, NULL))" by blast
    define s where "s = kva pg"
    define sl where "sl = \<lparr>objs = s + sizeof_slab + sizeof_int * ?k, free = 0, sl_pages = ?n, freearr = map (\<lambda>i. int (i + 1)) [0..<?k - 1] @ [- 1]\<rparr>"
    define pm1 where "pm1 = link_pages ?n (page_to_paddr pg) c s m'"
    let ?kc = "kc\<lparr>free_slabs := free_slabs kc @ [s]\<rparr>"
    define h1 where "h1 = set_cache c ?kc (set_slab s sl (h\<lparr>kpm := pm1\<rparr>))"
    have p2v: "unat (kmap_p2v (page_to_paddr pg)) = s" using m(4) small unfolding s_def by (intro kva_p2v) simp
    have s0: "s \<noteq> NULL" by (simp add: s_def kva_def)
    have run: "slab_create h c = Some (s, h1)"
      using i kc m(1) p2v s0 slab_size(1) [of ?sz] by (simp add: slab_create_def Let_def h1_def sl_def pm1_def)
    have l1: "links pm1 j = (if pg \<le> j \<and> j < pg + ?n then (c, s) else links m' j)" for j
      unfolding pm1_def using m(9) small by (intro link_pages_links) simp
    have w: "slab_wf ?sz s sl" "free_slots sl = [0..<?k]" "live_in ?sz sl = {}" using slab_new [of ?sz s] slab_size(1) [of ?sz] by (auto simp: sl_def)
    have o1: "od pm1 j = od m' j" for j by (simp add: pm1_def)
    have l2: "links pm1 j = (if pg \<le> j \<and> j < pg + ?n then (c, s) else links (kpm h) j)" for j unfolding l1 lk by auto
    have w2: "free_slots sl \<noteq> []" using w(2) slab_size(1) [of ?sz] by auto
    have p1: "pmem_inv pm1" "n_pages pm1 = n_pages (kpm h)" "allocated pm1 = insert pg (allocated (kpm h))" using m by (simp_all add: pm1_def)
    have "?n \<le> 2 ^ od pm1 pg" using m(7) o1 by simp
    note ad = add_slab [OF inv kc p1(1,2) m(3,5) p1(3) this s_def _ l2 w(1) w2 w(3), unfolded o1, OF fr, folded h1_def]
    have "kbytes h1 = kbytes h" by (simp add: h1_def set_cache_def set_slab_def)
    moreover have "caches h1 c = Some ?kc" "slabs h1 s = Some sl" by (simp_all add: h1_def set_cache_def set_slab_def)
    ultimately show ?thesis using run s0 w2 ad by blast
  qed
qed

text \<open>Taking a slot of a slab that has one.\<close>

lemma take_slot:
  assumes inv: "heap_inv h" and kc: "caches h c = Some kc" and s: "free_slabs kc = s # ss" and sl: "slabs h s = Some sl"
  defines "p \<equiv> objs sl + obj_size kc * nat (free sl)" and "sl' \<equiv> sl\<lparr>free := freearr sl ! nat (free sl)\<rparr>"
  defines "kc' \<equiv> (if free sl' = - 1 then kc\<lparr>free_slabs := remove1 s (free_slabs kc), full_slabs := full_slabs kc @ [s]\<rparr> else kc)"
  defines "h' \<equiv> h\<lparr>slabs := (slabs h)(s := Some sl'), caches := (caches h)(c := Some kc')\<rparr>"
  shows "free sl \<noteq> - 1" "nat (free sl) < length (freearr sl)" "heap_inv h'" "p \<notin> live h c" "live h' = (live h)(c := insert p (live h c))" "p \<noteq> NULL"
proof -
  note i = heap_invD(3) [OF inv kc, unfolded cache_inv_def]
  have sz: "0 < obj_size kc" and sin: "s \<in> slabs_of kc" and sf: "s \<in> set (free_slabs kc)" using i s by (auto simp: slabs_of_def)
  have ns: "s \<notin> set (full_slabs kc)" using i sf by auto
  obtain pg where w: "slab_wf (obj_size kc) s sl" "s = kva pg" using slab_atD [of h c "obj_size kc" s] i sin sl by (metis option.inject)
  have "free_slots sl \<noteq> []" using i sf sl by auto
  then obtain k ks where f: "free_slots sl = k # ks" by (cases "free_slots sl") auto
  note t = slab_take [OF w(1) f sz]
  have e: "nat (free sl) = k" using t(1) by simp
  show "free sl \<noteq> - 1" "nat (free sl) < length (freearr sl)" using t(1,2) by auto
  have t': "slab_wf (obj_size kc) s sl'" "free_slots sl' = ks" "p \<notin> live_in (obj_size kc) sl" "live_in (obj_size kc) sl' = insert p (live_in (obj_size kc) sl)"
    using t(3-6) unfolding sl'_def p_def e by auto
  have em: "free sl' = - 1 \<longleftrightarrow> free_slots sl' = []" using t'(1) unfolding slab_wf_def by (cases "free_slots sl'") auto
  have sw: "swapped c s sl' kc' h h'" by (simp add: swapped_def h'_def)
  have ko: "obj_size kc' = obj_size kc" "slabs_of kc' = slabs_of kc" "distinct (free_slabs kc')" "distinct (full_slabs kc')"
    using i ns sf by (auto simp: kc'_def slabs_of_def s)
  show "heap_inv h'"
    by (rule swap_inv [OF inv kc sin sw t'(1) ko]) (use em i s in \<open>auto simp: kc'_def\<close>)
  have l: "live_in (obj_size kc) sl \<subseteq> live h c" using kc sin sl by (auto simp: live_def)
  show "live h' = (live h)(c := insert p (live h c))"
    using swap_live [OF inv kc sin sl sw ko(1,2)] l unfolding t'(4) by (auto simp: fun_eq_iff)
  show "p \<noteq> NULL" using w by (simp add: p_def slab_wf_def)
  show "p \<notin> live h c"
  proof
    assume pl: "p \<in> live h c"
    obtain kd t tl where kd: "caches h c = Some kd" and tl': "t \<in> slabs_of kd" "slab_at h c (obj_size kd) t" "slabs h t = Some tl" "slab_wf (obj_size kd) t tl" "p \<in> live_in (obj_size kd) tl"
      using live_obj [OF inv pl] by metis
    have "kd = kc" using kd kc by simp
    note tl = tl' [unfolded this]
    have "p \<in> live_in (obj_size kc) sl'" using t'(4) by simp
    then have b: "s \<le> p" "p + obj_size kc \<le> s + slab_pages (obj_size kc) * 4096" using live_in_bounds [OF t'(1) _ sz] by force+
    have "t \<noteq> s" using tl t'(3) sl by auto
    then have "t + slab_pages (obj_size kc) * 4096 \<le> s \<or> s + slab_pages (obj_size kc) * 4096 \<le> t"
      using slab_addr_apart [OF tl(2) _ _ heap_invD(1) [OF inv], of c "obj_size kc" s] i sin by auto
    then show False using b live_in_bounds [OF tl(4,5) sz] sz by linarith
  qed
qed

lemma heap_inv_bytes [simp]: "heap_inv (h\<lparr>kbytes := b\<rparr>) = heap_inv h" "live (h\<lparr>kbytes := b\<rparr>) = live h"
  by (auto simp: heap_inv_def cache_inv_def slab_at_def live_def fun_eq_iff split: option.splits)

lemma kmem_cache_alloc_ok:
  assumes inv: "heap_inv h" and kc: "caches h c = Some kc"
  shows "kmem_cache_alloc h c = Some (NULL, h) \<and> free_slabs kc = [] \<and> no_block (kpm h) (slab_pages (obj_size kc))
    \<or> (\<exists>p h'. kmem_cache_alloc h c = Some (p, h') \<and> p \<noteq> NULL \<and> heap_inv h' \<and> same_rest h h' \<and> p \<notin> live h c
        \<and> live h' = (live h)(c := insert p (live h c))
        \<and> kbytes h' = (\<lambda>i. if p \<le> i \<and> i < p + obj_size kc then 0x2b else kbytes h i))"
proof -
  have take: "\<exists>p h'. kmem_cache_alloc h c = Some (p, h') \<and> p \<noteq> NULL \<and> heap_inv h' \<and> same_rest h h' \<and> p \<notin> live h c
        \<and> live h' = (live h)(c := insert p (live h c)) \<and> kbytes h' = (\<lambda>i. if p \<le> i \<and> i < p + obj_size kc then 0x2b else kbytes h i)"
    if r: "(if free_slabs kc = [] then slab_create h c else Some (hd (free_slabs kc), h)) = Some (s, h1)" "s \<noteq> NULL"
      and h1: "heap_inv h1" "live h1 = live h" "same_rest h h1" "kbytes h1 = kbytes h"
      and k1: "caches h1 c = Some kc1" "free_slabs kc1 = s # ss" "obj_size kc1 = obj_size kc" "slabs h1 s = Some sl" for s h1 kc1 ss sl
  proof -
    let ?p = "objs sl + obj_size kc1 * nat (free sl)" and ?sl = "sl\<lparr>free := freearr sl ! nat (free sl)\<rparr>"
    let ?kc = "if free ?sl = - 1 then kc1\<lparr>free_slabs := remove1 s (free_slabs kc1), full_slabs := full_slabs kc1 @ [s]\<rparr> else kc1"
    let ?h = "h1\<lparr>slabs := (slabs h1)(s := Some ?sl), caches := (caches h1)(c := Some ?kc)\<rparr>"
    note t = take_slot [OF h1(1) k1(1,2,4)]
    let ?r = "?h\<lparr>kbytes := \<lambda>i. if ?p \<le> i \<and> i < ?p + obj_size kc then 0x2b else kbytes h i\<rparr>"
    have c0: "c \<noteq> NULL" using heap_invD(3) [OF inv kc] by (simp add: cache_inv_def)
    have "kmem_cache_alloc h c = Some (?p, ?r)"
      unfolding kmem_cache_alloc_def using c0 kc r k1 t(1,2) h1(4)
      by (auto simp: Let_def set_slab_def set_cache_def set_bytes_def fun_upd_idem cong: if_cong)
    moreover have "map_option obj_size (caches h c) = Some (obj_size kc1)" using h1(3) k1(1) unfolding same_rest_def by (metis option.map(2))
    then have "same_rest h ?r" using h1(3) by (auto simp: same_rest_def)
    ultimately show ?thesis using t(3-6) h1(2) by (intro exI [of _ ?p] exI [of _ ?r]) simp
  qed
  show ?thesis
  proof (cases "free_slabs kc")
    case Nil
    from slab_create_ok [OF inv kc] show ?thesis
    proof
      assume a: "slab_create h c = Some (NULL, h) \<and> no_block (kpm h) (slab_pages (obj_size kc))"
      then show ?thesis using Nil kc heap_invD(3) [OF inv kc] by (simp add: kmem_cache_alloc_def cache_inv_def)
    next
      assume "\<exists>s sl h1. slab_create h c = Some (s, h1) \<and> s \<noteq> NULL \<and> heap_inv h1 \<and> live h1 = live h \<and> same_rest h h1 \<and> kbytes h1 = kbytes h
        \<and> caches h1 c = Some (kc\<lparr>free_slabs := free_slabs kc @ [s]\<rparr>) \<and> slabs h1 s = Some sl \<and> free_slots sl \<noteq> [] \<and> s \<notin> slabs_of kc"
      then obtain s sl h1 where c: "slab_create h c = Some (s, h1)" "s \<noteq> NULL" "heap_inv h1" "live h1 = live h" "same_rest h h1" "kbytes h1 = kbytes h"
        "caches h1 c = Some (kc\<lparr>free_slabs := free_slabs kc @ [s]\<rparr>)" "slabs h1 s = Some sl" by blast
      show ?thesis by (rule disjI2, rule take [OF _ c(2-7) _ _ c(8), of "[]"]) (simp_all add: Nil c(1))
    qed
  next
    case (Cons s ss)
    have "slab_at h c (obj_size kc) s" using heap_invD(3) [OF inv kc] Cons by (auto simp: cache_inv_def slabs_of_def)
    then obtain sl pg where "slabs h s = Some sl" "s = kva pg" using slab_atD by metis
    then show ?thesis using Cons inv kc by (intro disjI2 take [of s h kc ss sl]) (auto simp: same_rest_def kva_def)
  qed
qed

lemma word_index:
  assumes "b \<le> a" "a < 2 ^ 64" "0 < z" "z < 2 ^ 64"
  shows "unat ((of_nat a - of_nat b :: u64) div of_nat z) = (a - b) div z"
proof -
  have e: "(of_nat a - of_nat b :: u64) = of_nat (a - b)" using assms(1) by (simp add: of_nat_diff)
  show ?thesis unfolding e unat_div using assms by (simp add: unat_of_nat del: of_nat_diff)
qed

lemma give_slot:
  assumes inv: "heap_inv h" and kc: "caches h c = Some kc" and s: "s \<in> slabs_of kc" and sl: "slabs h s = Some sl" "slab_wf (obj_size kc) s sl"
    and p: "p \<in> live_in (obj_size kc) sl"
  defines "k \<equiv> (p - objs sl) div obj_size kc"
  defines "sl' \<equiv> sl\<lparr>freearr := (freearr sl)[k := free sl], free := int k\<rparr>"
  defines "kc' \<equiv> (if free sl = - 1 then kc\<lparr>full_slabs := remove1 s (full_slabs kc), free_slabs := free_slabs kc @ [s]\<rparr> else kc)"
  defines "h' \<equiv> h\<lparr>slabs := (slabs h)(s := Some sl'), caches := (caches h)(c := Some kc')\<rparr>"
  shows "k < length (freearr sl)" "heap_inv h'" "live h' = (live h)(c := live h c - {p})"
proof -
  note i = heap_invD(3) [OF inv kc, unfolded cache_inv_def]
  have sz: "0 < obj_size kc" using i by simp
  note g = slab_give [OF sl(2) p sz, folded k_def, folded sl'_def]
  show "k < length (freearr sl)" by (rule g(1))
  have em: "free sl = - 1 \<longleftrightarrow> free_slots sl = []" using sl(2) unfolding slab_wf_def by (cases "free_slots sl") auto
  have m: "s \<in> set (full_slabs kc) \<longleftrightarrow> free sl = - 1" "s \<in> set (free_slabs kc) \<longleftrightarrow> free sl \<noteq> - 1"
    using i s sl(1) em by (auto simp: slabs_of_def)
  have sw: "swapped c s sl' kc' h h'" by (simp add: swapped_def h'_def)
  have ko: "obj_size kc' = obj_size kc" "slabs_of kc' = slabs_of kc" "distinct (free_slabs kc')" "distinct (full_slabs kc')"
    using i m by (auto simp: kc'_def slabs_of_def)
  show "heap_inv h'"
    by (rule swap_inv [OF inv kc s sw g(3) ko]) (use g(4) i m in \<open>auto simp: kc'_def\<close>)
  have l: "live_in (obj_size kc) sl \<subseteq> live h c" using kc s sl(1) by (auto simp: live_def)
  show "live h' = (live h)(c := live h c - {p})"
    using swap_live [OF inv kc s sl(1) sw ko(1,2)] l p unfolding g(5) by (auto simp: fun_eq_iff)
qed

lemma kmem_cache_free_ok:
  assumes inv: "heap_inv h" and p: "p \<in> live h c"
  shows "\<exists>h'. kmem_cache_free h c p = Some h' \<and> heap_inv h' \<and> same_rest h h' \<and> live h' = (live h)(c := live h c - {p})
    \<and> kbytes h' = (\<lambda>i. if p \<le> i \<and> i < p + size_of h c then 0x2b else kbytes h i)"
proof -
  obtain kc s sl pg where kc: "caches h c = Some kc" and s: "s \<in> slabs_of kc" and a: "slab_at h c (obj_size kc) s"
    and sl: "slabs h s = Some sl" "slab_wf (obj_size kc) s sl" and l: "p \<in> live_in (obj_size kc) sl"
    and pg: "page_of h p = Some pg" "links (kpm h) pg = (c, s)" using live_obj [OF inv p] by metis
  note i = heap_invD(3) [OF inv kc, unfolded cache_inv_def] and g = give_slot [OF inv kc s sl l]
  have sz: "0 < obj_size kc" using i by simp
  obtain pt where s0: "s = kva pt" using slab_atD [OF a] by metis
  have "pt + slab_pages (obj_size kc) \<le> n_pages (kpm h)" using slab_at_block(3) [of h c "obj_size kc" pt] a s0 heap_invD(1) [OF inv] by simp
  then have top: "s + slab_pages (obj_size kc) * 4096 \<le> 2 ^ 64" using heap_invD(2) [OF inv] s0 by (simp add: kva_def)
  have b: "objs sl \<le> p" "p + obj_size kc \<le> s + slab_pages (obj_size kc) * 4096"
    using live_in_bounds [OF sl(2) l sz] sl(2) by (auto simp: slab_wf_def)
  have "0 < objs sl" using sl(2) by (simp add: slab_wf_def)
  then have sz': "obj_size kc < 2 ^ 64" using b top by simp
  have idx: "unat ((of_nat p - of_nat (objs sl) :: u64) div of_nat (obj_size kc)) = (p - objs sl) div obj_size kc"
    by (rule word_index) (use b top sz sz' in auto)
  then have idx': "uint ((of_nat p - of_nat (objs sl) :: u64) div of_nat (obj_size kc)) = int ((p - objs sl) div obj_size kc)" by (simp only: uint_nat)
  let ?k = "(p - objs sl) div obj_size kc"
  let ?kc = "if free sl = - 1 then kc\<lparr>full_slabs := remove1 s (full_slabs kc), free_slabs := free_slabs kc @ [s]\<rparr> else kc"
  let ?h = "h\<lparr>slabs := (slabs h)(s := Some (sl\<lparr>freearr := (freearr sl)[?k := free sl], free := int ?k\<rparr>)), caches := (caches h)(c := Some ?kc)\<rparr>"
  let ?r = "?h\<lparr>kbytes := \<lambda>i. if p \<le> i \<and> i < p + obj_size kc then 0x2b else kbytes h i\<rparr>"
  have po: "page_of (set_bytes p v n h) = page_of h" for v n by (simp add: page_of_def set_bytes_def fun_eq_iff)
  have lk: "slab (pagemap (kpm h) pg) = s" using pg(2) by (simp add: links_def)
  have "kmem_cache_free h c p = Some ?r"
    unfolding kmem_cache_free_def using i kc pg(1) lk sl(1) g(1) s0 po
    by (auto simp: Let_def set_slab_def set_cache_def set_bytes_def fun_upd_idem kva_def idx idx' cong: if_cong)
  moreover have "same_rest h ?r" using kc by (auto simp: same_rest_def)
  ultimately show ?thesis using g(2,3) kc by (intro exI [of _ ?r]) (simp add: size_of_def)
qed

lemma kfree_ok:
  assumes inv: "heap_inv h" and p: "p \<in> live h c"
  shows "kfree h p = kmem_cache_free h c p"
proof -
  obtain pg s kc where pg: "page_of h p = Some pg" "links (kpm h) pg = (c, s)" "caches h c = Some kc" using live_obj [OF inv p] by metis
  have "c \<noteq> NULL" using heap_invD(3) [OF inv pg(3)] by (simp add: cache_inv_def)
  then show ?thesis using pg by (simp add: kfree_def links_def)
qed

section \<open>Creating caches\<close>

text \<open>The caches other than the first are themselves objects of the first, whose structure is static.\<close>

definition kmem_inv :: "kheap \<Rightarrow> bool" where
  "kmem_inv h \<longleftrightarrow> heap_inv h \<and> size_of h (allocator_cache h) = sizeof_kmem_cache \<and> caches h (allocator_cache h) \<noteq> None
     \<and> (\<forall>c. caches h c \<noteq> None \<longrightarrow> c = allocator_cache h \<or> c \<in> live h (allocator_cache h))
     \<and> (\<exists>pg \<in> allocated (kpm h). page_of h (allocator_cache h) = Some pg \<and> links (kpm h) pg = (NULL, NULL))"

lemma page_of_same: "n_pages (kpm h') = n_pages (kpm h) \<Longrightarrow> page_of h' = page_of h"
  by (simp add: page_of_def fun_eq_iff)

lemma live_not_static:
  assumes "heap_inv h" "page_of h a = Some pg" "links (kpm h) pg = (NULL, NULL)" "p \<in> live h c"
  shows "p \<noteq> a"
proof
  assume "p = a"
  obtain kc pg' s where "page_of h p = Some pg'" "links (kpm h) pg' = (c, s)" "caches h c = Some kc" using live_obj [OF assms(1,4)] by metis
  then show False using assms(2,3) heap_invD(3) [OF assms(1)] \<open>p = a\<close> by (auto simp: cache_inv_def)
qed

lemma new_cache:
  assumes inv: "heap_inv h" and c: "c \<noteq> NULL" "caches h c = None" and sz: "0 < sz" "slab_pages sz \<le> 1024"
  defines "h' \<equiv> set_cache c \<lparr>full_slabs = [], free_slabs = [], obj_size = sz\<rparr> h"
  shows "heap_inv h'" "live h' = live h"
proof -
  have at: "slab_at h' d z s = slab_at h d z s" for d z s by (simp add: slab_at_def h'_def set_cache_def)
  have "cache_inv h' d kd" if "caches h' d = Some kd" for d kd
    using that heap_invD(3) [OF inv, of d kd] c sz at
    by (cases "d = c") (auto simp: cache_inv_def h'_def set_cache_def slabs_of_def)
  then show "heap_inv h'" using heap_invD(1,2) [OF inv] by (simp add: heap_inv_def h'_def set_cache_def)
  show "live h' = live h" using c by (auto simp: live_def fun_eq_iff h'_def set_cache_def slabs_of_def split: option.splits)
qed

lemma kmem_cache_create_ok:
  assumes inv: "kmem_inv h" and sz: "0 < sz" "slab_pages sz \<le> 1024"
  shows "kmem_cache_create h sz = Some (NULL, h) \<and> no_block (kpm h) (slab_pages sizeof_kmem_cache)
    \<or> (\<exists>c h'. kmem_cache_create h sz = Some (c, h') \<and> kmem_inv h' \<and> caches h c = None \<and> c \<noteq> NULL \<and> allocator_cache h' = allocator_cache h
        \<and> (\<forall>d. map_option obj_size (caches h' d) = (if d = c then Some sz else map_option obj_size (caches h d)))
        \<and> live h' = (live h)(allocator_cache h := insert c (live h (allocator_cache h))))"
proof -
  let ?a = "allocator_cache h"
  note k = inv [unfolded kmem_inv_def]
  obtain ac where ac: "caches h ?a = Some ac" "obj_size ac = sizeof_kmem_cache" using k by (auto simp: size_of_def)
  obtain pg where pg: "pg \<in> allocated (kpm h)" "page_of h ?a = Some pg" "links (kpm h) pg = (NULL, NULL)" using k by blast
  have hi: "heap_inv h" using k by simp
  from kmem_cache_alloc_ok [OF hi ac(1), unfolded ac(2)] consider (none) "kmem_cache_alloc h ?a = Some (NULL, h)" "no_block (kpm h) (slab_pages sizeof_kmem_cache)"
    | (ok) c h1 where "kmem_cache_alloc h ?a = Some (c, h1)" "c \<noteq> NULL" "heap_inv h1" "same_rest h h1" "c \<notin> live h ?a"
      "live h1 = (live h)(?a := insert c (live h ?a))" by blast
  then show ?thesis
  proof cases
    case none
    then show ?thesis by (simp add: kmem_cache_create_def)
  next
    case ok
    have p1: "page_of h1 ?a = Some pg" "links (kpm h1) pg = (NULL, NULL)" "pg \<in> allocated (kpm h1)"
      using pg ok(4) page_of_same [of h1 h] by (auto simp: same_rest_def)
    have "c \<in> live h1 ?a" using ok by simp
    then have ca: "c \<noteq> ?a" using live_not_static [OF _ p1(1,2)] ok by blast
    then have cn: "caches h c = None" using k ok by (cases "caches h c") auto
    have same: "map_option obj_size (caches h1 d) = map_option obj_size (caches h d)" for d using ok by (auto simp: same_rest_def)
    have cn1: "caches h1 c = None" using same [of c] cn by simp
    let ?h = "set_cache c \<lparr>full_slabs = [], free_slabs = [], obj_size = sz\<rparr> h1"
    note n = new_cache [OF ok(3,2) cn1 sz]
    have al: "allocator_cache h1 = ?a" using ok by (simp add: same_rest_def)
    have run: "kmem_cache_create h sz = Some (c, ?h)" using ok by (simp add: kmem_cache_create_def)
    have e: "caches ?h = (caches h1)(c := Some \<lparr>full_slabs = [], free_slabs = [], obj_size = sz\<rparr>)" "kpm ?h = kpm h1" "allocator_cache ?h = ?a"
      using al by (simp_all add: set_cache_def)
    have "map_option obj_size (caches h1 ?a) = Some sizeof_kmem_cache" using same [of ?a] ac by simp
    then obtain ac1 where ac1: "caches h1 ?a = Some ac1" "obj_size ac1 = sizeof_kmem_cache" by (cases "caches h1 ?a") auto
    have "caches h d \<noteq> None" if "caches h1 d \<noteq> None" for d using same [of d] that by (cases "caches h d") auto
    then have "d = ?a \<or> d \<in> live ?h ?a" if "caches ?h d \<noteq> None" for d using that k n ok e(1) by (auto split: if_splits)
    moreover have "page_of ?h = page_of h1" by (rule page_of_same) (simp add: e)
    ultimately have "kmem_inv ?h" unfolding kmem_inv_def e(3) using n ok p1 ac1 ca e by (auto simp: size_of_def)
    moreover have "\<forall>d. map_option obj_size (caches ?h d) = (if d = c then Some sz else map_option obj_size (caches h d))" using same e(1) by auto
    ultimately show ?thesis using run cn ok n e(3) by (intro disjI2 exI [of _ c] exI [of _ ?h]) auto
  qed
qed

text \<open>The caches of \<open>kmalloc\<close>, from the smallest size to the largest.\<close>

definition classes :: "kheap \<Rightarrow> (ptr \<times> nat) list \<Rightarrow> bool" where
  "classes h kas \<longleftrightarrow> (\<forall>a \<in> set kas. fst a \<noteq> NULL \<and> map_option obj_size (caches h (fst a)) = Some (snd a))"

lemma init_allocators_ok:
  assumes "kmem_inv h" "\<forall>a \<in> set kas. 0 < snd a \<and> slab_pages (snd a) \<le> 1024"
  shows "(\<exists>cs h'. init_allocators h kas = Some (cs, h') \<and> kmem_inv h' \<and> map snd cs = map snd kas \<and> classes h' cs \<and> distinct (map fst cs)
      \<and> (\<forall>d. caches h d \<noteq> None \<longrightarrow> d \<notin> fst ` set cs \<and> map_option obj_size (caches h' d) = map_option obj_size (caches h d)))
    \<or> (\<exists>h'. init_allocators h kas = None \<and> kmem_inv h' \<and> no_block (kpm h') (slab_pages sizeof_kmem_cache))"
  using assms
proof (induction kas arbitrary: h)
  case Nil
  then show ?case by (auto simp: classes_def)
next
  case (Cons a kas)
  obtain x sz where a: "a = (x, sz)" by (cases a)
  have sz: "0 < sz" "slab_pages sz \<le> 1024" using Cons.prems(2) a by auto
  from kmem_cache_create_ok [OF Cons.prems(1) sz] consider (none) "kmem_cache_create h sz = Some (NULL, h)" "no_block (kpm h) (slab_pages sizeof_kmem_cache)"
    | (ok) c h1 where "kmem_cache_create h sz = Some (c, h1)" "kmem_inv h1" "caches h c = None" "c \<noteq> NULL"
      "\<forall>d. map_option obj_size (caches h1 d) = (if d = c then Some sz else map_option obj_size (caches h d))" by blast
  then show ?case
  proof cases
    case none
    then show ?thesis using Cons.prems(1) a by auto
  next
    case ok
    have c1: "map_option obj_size (caches h1 c) = Some sz" using ok(5) by simp
    from Cons.IH [OF ok(2)] Cons.prems(2) consider
      (oom) h' where "init_allocators h1 kas = None" "kmem_inv h'" "no_block (kpm h') (slab_pages sizeof_kmem_cache)"
      | (all) cs h' where "init_allocators h1 kas = Some (cs, h')" "kmem_inv h'" "map snd cs = map snd kas" "classes h' cs" "distinct (map fst cs)"
        "\<forall>d. caches h1 d \<noteq> None \<longrightarrow> d \<notin> fst ` set cs \<and> map_option obj_size (caches h' d) = map_option obj_size (caches h1 d)" by auto
    then show ?thesis
    proof cases
      case oom
      then show ?thesis using ok(1,4) a by auto
    next
      case all
      have cc: "c \<notin> fst ` set cs" "map_option obj_size (caches h' c) = Some sz" using all(6) c1 by auto
      have "d \<notin> fst ` set ((c, sz) # cs) \<and> map_option obj_size (caches h' d) = map_option obj_size (caches h d)" if "caches h d \<noteq> None" for d
      proof -
        have "d \<noteq> c" using ok(3) that by auto
        then have e: "map_option obj_size (caches h1 d) = map_option obj_size (caches h d)" using ok(5) by simp
        then have "caches h1 d \<noteq> None" using that by (cases "caches h1 d") auto
        then show ?thesis using all(6) e \<open>d \<noteq> c\<close> by auto
      qed
      then show ?thesis using all(1-5) ok(1,4) cc a
        by (intro disjI1 exI [of _ "(c, sz) # cs"] exI [of _ h']) (auto simp: classes_def)
    qed
  qed
qed

lemma kmalloc_init_ok:
  assumes pm: "pmem_inv (kpm h)" "n_pages (kpm h) < 2 ^ 19" and c: "caches h = Map.empty" "allocator_cache h \<noteq> NULL"
    and pg: "pg \<in> allocated (kpm h)" "page_of h (allocator_cache h) = Some pg" "links (kpm h) pg = (NULL, NULL)"
  shows "(\<exists>h'. kmalloc_init h = Some h' \<and> kmem_inv h' \<and> classes h' (kmalloc_allocators h') \<and> distinct (map fst (kmalloc_allocators h'))
      \<and> map snd (kmalloc_allocators h') = map snd kmalloc_sizes)
    \<or> (\<exists>h'. kmalloc_init h = None \<and> kmem_inv h' \<and> no_block (kpm h') (slab_pages sizeof_kmem_cache))"
proof -
  let ?h = "set_cache (allocator_cache h) \<lparr>full_slabs = [], free_slabs = [], obj_size = sizeof_kmem_cache\<rparr> h"
  have "heap_inv h" using pm c by (simp add: heap_inv_def)
  from new_cache [OF this c(2), of sizeof_kmem_cache] have "heap_inv ?h" using c by (simp add: slab_pages_def)
  moreover have "page_of ?h = page_of h" by (rule page_of_same) (simp add: set_cache_def)
  ultimately have k: "kmem_inv ?h" using c pg by (auto simp: kmem_inv_def size_of_def set_cache_def)
  have "\<forall>a \<in> set kmalloc_sizes. 0 < snd a \<and> slab_pages (snd a) \<le> 1024" by (simp add: kmalloc_sizes_def slab_pages_def)
  from init_allocators_ok [OF k this] consider
    (ok) cs h' where "init_allocators ?h kmalloc_sizes = Some (cs, h')" "kmem_inv h'" "map snd cs = map snd kmalloc_sizes" "classes h' cs" "distinct (map fst cs)"
    | (oom) h' where "init_allocators ?h kmalloc_sizes = None" "kmem_inv h'" "no_block (kpm h') (slab_pages sizeof_kmem_cache)" by blast
  then show ?thesis
  proof cases
    case ok
    have "kmem_inv (h'\<lparr>kmalloc_allocators := cs\<rparr>)"
      using ok(2) page_of_same [of "h'\<lparr>kmalloc_allocators := cs\<rparr>" h']
      by (auto simp: kmem_inv_def heap_inv_def cache_inv_def slab_at_def live_def size_of_def split: option.splits)
    then show ?thesis using ok by (intro disjI1 exI [of _ "h'\<lparr>kmalloc_allocators := cs\<rparr>"]) (simp add: kmalloc_init_def classes_def)
  next
    case oom
    then show ?thesis by (auto simp: kmalloc_init_def)
  qed
qed

section \<open>Single pages beside the heap\<close>

lemma heap_inv_pm:
  assumes inv: "heap_inv h" and m: "pmem_inv m" "n_pages m = n_pages (kpm h)"
    and keep: "\<And>d sz pt. slab_at h d sz (kva pt) \<Longrightarrow> pt \<in> allocated m \<and> od m pt = od (kpm h) pt \<and> (\<forall>i < slab_pages sz. links m (pt + i) = links (kpm h) (pt + i))"
  shows "heap_inv (h\<lparr>kpm := m\<rparr>)" "live (h\<lparr>kpm := m\<rparr>) = live h"
proof -
  have at: "slab_at (h\<lparr>kpm := m\<rparr>) d sz t" if td: "slab_at h d sz t" for d sz t
  proof -
    obtain pt tl where t: "t = kva pt" "pt \<noteq> 0" "slab_pages sz \<le> 2 ^ od (kpm h) pt" "\<forall>i < slab_pages sz. links (kpm h) (pt + i) = (d, t)"
      "slabs h t = Some tl" "slab_wf sz t tl" using td unfolding slab_at_def by blast
    then show ?thesis unfolding slab_at_def using keep [of d sz pt] td by auto
  qed
  show "heap_inv (h\<lparr>kpm := m\<rparr>)" using inv m at by (auto simp: heap_inv_def cache_inv_def)
  show "live (h\<lparr>kpm := m\<rparr>) = live h" by (auto simp: live_def fun_eq_iff split: option.splits)
qed

definition plain_page :: "kheap \<Rightarrow> nat \<Rightarrow> bool" where
  "plain_page h pg \<longleftrightarrow> pg \<in> allocated (kpm h) \<and> pg \<noteq> 0 \<and> links (kpm h) pg = (NULL, NULL)"

definition same_pages :: "nat set \<Rightarrow> kheap \<Rightarrow> kheap \<Rightarrow> bool" where
  "same_pages A h h' \<longleftrightarrow> (\<forall>pg \<in> A. plain_page h pg \<longrightarrow> plain_page h' pg)"

lemma slab_not_plain:
  assumes "slab_at h d sz (kva pt)" "plain_page h pg"
  shows "pt \<noteq> pg"
proof -
  have "links (kpm h) pt = (d, kva pt)" using assms(1) kva_inj unfolding slab_at_def by (metis add.right_neutral slab_pages_pos)
  then show ?thesis using assms(2) by (auto simp: plain_page_def kva_def)
qed

lemma page_alloc_ok:
  assumes inv: "heap_inv h"
  shows "pmem_alloc (kpm h) = Some (ERR_NOMEM, None, kpm h) \<and> no_block (kpm h) 1
    \<or> (\<exists>pg m. pmem_alloc (kpm h) = Some (ERR_OK, Some (page_to_paddr pg), m) \<and> heap_inv (h\<lparr>kpm := m\<rparr>) \<and> live (h\<lparr>kpm := m\<rparr>) = live h
        \<and> pg \<notin> allocated (kpm h) \<and> plain_page (h\<lparr>kpm := m\<rparr>) pg \<and> same_pages UNIV h (h\<lparr>kpm := m\<rparr>) \<and> pg < n_pages (kpm h) \<and> n_pages m = n_pages (kpm h))"
proof -
  note p = heap_invD(1,2) [OF inv]
  from nalloc_block [OF p(1), of 1] p(2) consider (none) "pmem_nalloc (kpm h) 1 = Some (ERR_NOMEM, None, kpm h)" "no_block (kpm h) 1"
    | (ok) pg m where "pmem_nalloc (kpm h) 1 = Some (ERR_OK, Some (page_to_paddr pg), m)" "pmem_inv m" "pg \<notin> allocated (kpm h)" "pg < n_pages (kpm h)" "pg \<noteq> 0"
      "allocated m = insert pg (allocated (kpm h))" "n_pages m = n_pages (kpm h)"
      "\<forall>i \<in> allocated (kpm h). od m i = od (kpm h) i \<and> blk i (od (kpm h) i) \<inter> blk pg (od m pg) = {}" "links m = (links (kpm h))(pg := (NULL, NULL))"
    by auto
  then show ?thesis
  proof cases
    case none
    then show ?thesis by (simp add: pmem_alloc_def)
  next
    case ok
    have "pt \<in> allocated m \<and> od m pt = od (kpm h) pt \<and> (\<forall>i < slab_pages sz. links m (pt + i) = links (kpm h) (pt + i))"
      if a: "slab_at h d sz (kva pt)" for d sz pt
    proof -
      note b = slab_at_block [OF a p(1)]
      have "pg \<notin> blk pt (od (kpm h) pt)" using ok(8) b(1) blk_head [of pg "od m pg"] by blast
      then have "pt + i \<noteq> pg" if "i < slab_pages sz" for i using subsetD [OF b(2), of "pt + i"] that by auto
      then show ?thesis using ok(6,8,9) b(1) by auto
    qed
    note h = heap_inv_pm [OF inv ok(2,7) this]
    show ?thesis using ok h by (intro disjI2 exI [of _ pg] exI [of _ m]) (auto simp: pmem_alloc_def plain_page_def same_pages_def)
  qed
qed

lemma page_free_ok:
  assumes inv: "heap_inv h" and pg: "plain_page h pg"
  shows "\<exists>m. pmem_free (kpm h) (page_to_paddr pg) = Some m \<and> heap_inv (h\<lparr>kpm := m\<rparr>) \<and> live (h\<lparr>kpm := m\<rparr>) = live h
    \<and> allocated m = allocated (kpm h) - {pg} \<and> same_pages (- {pg}) h (h\<lparr>kpm := m\<rparr>) \<and> n_pages m = n_pages (kpm h)"
proof -
  have i: "pagemap_initialized (kpm h)" using heap_invD(1) [OF inv] by (simp add: pmem_inv_def)
  obtain m where m: "pmem_nfree (kpm h) (page_to_paddr pg) 1 = Some m" "pmem_inv m" "allocated m = allocated (kpm h) - {pg}"
    "n_pages m = n_pages (kpm h)" "\<forall>i \<in> allocated (kpm h) - {pg}. pagemap m i = pagemap (kpm h) i"
    using pmem_nfree_ok [OF heap_invD(1) [OF inv], of pg 1] pg by (auto simp: plain_page_def)
  have l: "links m = links (kpm h)" by (rule pmem_nfree_links [OF m(1) i])
  have "pt \<in> allocated m \<and> od m pt = od (kpm h) pt \<and> (\<forall>i < slab_pages sz. links m (pt + i) = links (kpm h) (pt + i))"
    if a: "slab_at h d sz (kva pt)" for d sz pt
    using slab_at_block(1) [OF a heap_invD(1) [OF inv]] slab_not_plain [OF a pg] m(3,5) l by auto
  note h = heap_inv_pm [OF inv m(2,4) this]
  show ?thesis using m l h by (intro exI [of _ m]) (auto simp: pmem_free_def plain_page_def same_pages_def)
qed

section \<open>Properties\<close>

lemma alloc_fresh:
  assumes inv: "heap_inv h" and kc: "caches h c = Some kc"
  shows "kmem_cache_alloc h c = Some (NULL, h) \<and> free_slabs kc = [] \<and> no_block (kpm h) (slab_pages (obj_size kc))
    \<or> (\<exists>p h'. kmem_cache_alloc h c = Some (p, h') \<and> p \<noteq> NULL \<and> heap_inv h' \<and> same_rest h h' \<and> p \<notin> live h c
        \<and> live h' = (live h)(c := insert p (live h c))
        \<and> (\<forall>d. \<forall>q \<in> live h d. {p..<p + obj_size kc} \<inter> {q..<q + size_of h d} = {})
        \<and> kbytes h' = (\<lambda>i. if p \<le> i \<and> i < p + obj_size kc then 0x2b else kbytes h i))"
proof -
  have apart: "{p..<p + obj_size kc} \<inter> {q..<q + size_of h d} = {}"
    if a: "heap_inv h'" "same_rest h h'" "p \<notin> live h c" "live h' = (live h)(c := insert p (live h c))" "q \<in> live h d" for p h' q d
  proof -
    have sz: "size_of h' e = size_of h e" if "caches h e \<noteq> None" for e
      using a(2) that unfolding same_rest_def size_of_def by (metis option.map_sel option.map_disc_iff)
    have "caches h d \<noteq> None" using a(5) by (auto simp: live_def split: option.splits)
    moreover have "q \<in> live h' d" "p \<in> live h' c" "p \<noteq> q \<or> c \<noteq> d" using a(3-5) by auto
    ultimately show ?thesis using objects_apart [OF a(1), of p c q d] sz kc by (simp add: size_of_def)
  qed
  then show ?thesis using kmem_cache_alloc_ok [OF inv kc] by blast
qed

text \<open>C11. Allocation from an object cache returns.  It gives NULL only if no slab has a free slot and no free block is large enough for a
  new slab, and then nothing changes.  Otherwise the object is new: its bytes meet those of no live object of any cache, it
  becomes the only additional live object, it is filled with 0x2b while all other bytes stay, and the heap stays
  well-formed.\<close>

theorem kmem_cache_alloc_fresh:
  assumes "heap_inv h" "caches h c = Some kc"
  shows "kmem_cache_alloc h c = Some (NULL, h) \<and> free_slabs kc = [] \<and> no_block (kpm h) (slab_pages (obj_size kc))
    \<or> (\<exists>p h'. kmem_cache_alloc h c = Some (p, h') \<and> p \<noteq> NULL \<and> heap_inv h'
        \<and> live h' = (live h)(c := insert p (live h c))
        \<and> (\<forall>d. \<forall>q \<in> live h d. {p..<p + obj_size kc} \<inter> {q..<q + size_of h d} = {})
        \<and> kbytes h' = (\<lambda>i. if p \<le> i \<and> i < p + obj_size kc then 0x2b else kbytes h i))"
  using alloc_fresh [OF assms] by blast

text \<open>A heap with one empty cache of 32-byte objects on the small memory of \<open>Pmem\<close>.\<close>

definition small_cache :: kmem_cache_t where
  "small_cache = \<lparr>full_slabs = [], free_slabs = [], obj_size = 32\<rparr>"

definition small_heap :: kheap where
  "small_heap = \<lparr>kpm = small_pmem, slabs = Map.empty, caches = [10 \<mapsto> small_cache], kbytes = (\<lambda>_. 0), allocator_cache = 20,
     kmalloc_allocators = []\<rparr>"

lemma small_heap_inv: "heap_inv small_heap" "\<not> no_block (kpm small_heap) (slab_pages 32)" "caches small_heap 10 = Some small_cache"
proof -
  show "heap_inv small_heap" using small_pmem_inv
    by (auto simp: heap_inv_def cache_inv_def small_heap_def small_cache_def slabs_of_def slab_pages_def split: if_splits)
      (simp add: small_pmem_def)
  have "freeblocks small_pmem 1 \<noteq> []" "slab_pages 32 \<le> 2 ^ 1" by (simp_all add: small_pmem_def slab_pages_def)
  then show "\<not> no_block (kpm small_heap) (slab_pages 32)" unfolding no_block_def small_heap_def by (metis kheap.select_convs(1) one_le_numeral)
  show "caches small_heap 10 = Some small_cache" by (simp add: small_heap_def)
qed

lemma kmem_cache_alloc_fresh_witness:
  "\<exists>p h'. kmem_cache_alloc small_heap 10 = Some (p, h') \<and> p \<noteq> NULL \<and> heap_inv h' \<and> live h' 10 = {p} \<and> kbytes h' p = 0x2b"
proof -
  have "live small_heap 10 = {}" by (simp add: live_def small_heap_def small_cache_def slabs_of_def)
  then show ?thesis using kmem_cache_alloc_fresh [OF small_heap_inv(1,3)] small_heap_inv(2) by (auto simp: small_cache_def)
qed

text \<open>Freeing a live object returns: its page leads to the cache it came from, exactly that object stops being live, and the heap
  stays well-formed, so the slot can be allocated again.\<close>

theorem kfree_returns_object:
  assumes "heap_inv h" "p \<in> live h c"
  shows "\<exists>h'. kfree h p = Some h' \<and> kmem_cache_free h c p = Some h' \<and> heap_inv h' \<and> live h' = (live h)(c := live h c - {p})
    \<and> kbytes h' = (\<lambda>i. if p \<le> i \<and> i < p + size_of h c then 0x2b else kbytes h i)"
  using kfree_ok [OF assms] kmem_cache_free_ok [OF assms] by auto

lemma kfree_returns_object_witness:
  "\<exists>p h h'. kmem_cache_alloc small_heap 10 = Some (p, h) \<and> p \<in> live h 10 \<and> kfree h p = Some h' \<and> heap_inv h' \<and> live h' 10 = {}"
proof -
  have "live small_heap 10 = {}" by (simp add: live_def small_heap_def small_cache_def slabs_of_def)
  then obtain p h where h: "kmem_cache_alloc small_heap 10 = Some (p, h)" "heap_inv h" "live h 10 = {p}"
    using alloc_fresh [OF small_heap_inv(1,3)] small_heap_inv(2) by (auto simp: small_cache_def)
  then show ?thesis using kfree_returns_object [OF h(2), of p 10] by auto
qed

lemma size_class:
  assumes m: "map snd kas = map snd kmalloc_sizes" and sz: "0 < sz" "sz \<le> 4096"
  shows "\<exists>a \<in> set kas. find (\<lambda>a. snd a \<ge> sz) kas = Some a \<and> sz \<le> snd a \<and> (snd a = 32 \<or> snd a < 2 * sz)"
proof -
  obtain c1 c2 c3 c4 c5 c6 c7 c8 where "kas = [(c1, 32), (c2, 64), (c3, 128), (c4, 256), (c5, 512), (c6, 1024), (c7, 2048), (c8, 4096)]"
    using m unfolding kmalloc_sizes_def by (auto simp: map_eq_Cons_conv)
  then show ?thesis using sz by (auto simp: not_le)
qed

text \<open>C12. kmalloc and kfree.  A request of 0 or of more than 4096 bytes gives NULL.  Any other request is served from the
  smallest class that fits, so that less than twice the request is used beyond the smallest class, and fails only if that class has neither a free
  slot nor memory for a slab.  The block meets no live object, and freeing it gives back exactly the live objects there were
  before.\<close>

theorem kmalloc_kfree_roundtrip:
  assumes inv: "heap_inv h" and k: "classes h (kmalloc_allocators h)" "map snd (kmalloc_allocators h) = map snd kmalloc_sizes"
  shows "if sz = 0 \<or> sz > 4096 then kmalloc h sz = Some (NULL, h)
    else \<exists>c cz. caches h c \<noteq> None \<and> size_of h c = cz \<and> sz \<le> cz \<and> (cz = 32 \<or> cz < 2 * sz)
      \<and> (kmalloc h sz = Some (NULL, h) \<and> no_block (kpm h) (slab_pages cz)
         \<or> (\<exists>p h' h''. kmalloc h sz = Some (p, h') \<and> p \<noteq> NULL \<and> heap_inv h' \<and> p \<in> live h' c
             \<and> (\<forall>d. \<forall>q \<in> live h d. {p..<p + sz} \<inter> {q..<q + size_of h d} = {})
             \<and> kfree h' p = Some h'' \<and> heap_inv h'' \<and> live h'' = live h))"
proof (cases "sz = 0 \<or> sz > 4096")
  case True
  have "kmalloc_allocators h \<noteq> []" using k(2) by (auto simp: kmalloc_sizes_def)
  then have "snd (last (kmalloc_allocators h)) = last (map snd kmalloc_sizes)" using k(2) by (metis last_map)
  then have "snd (last (kmalloc_allocators h)) = 4096" by (simp add: kmalloc_sizes_def)
  then show ?thesis using True by (auto simp: kmalloc_def)
next
  case False
  have "kmalloc_allocators h \<noteq> []" using k(2) by (auto simp: kmalloc_sizes_def)
  then have "snd (last (kmalloc_allocators h)) = last (map snd kmalloc_sizes)" using k(2) by (metis last_map)
  then have l: "snd (last (kmalloc_allocators h)) = 4096" by (simp add: kmalloc_sizes_def)
  obtain a where a: "a \<in> set (kmalloc_allocators h)" "find (\<lambda>a. snd a \<ge> sz) (kmalloc_allocators h) = Some a" "sz \<le> snd a" "snd a = 32 \<or> snd a < 2 * sz"
    using size_class [OF k(2), of sz] False by auto
  obtain kc where kc: "caches h (fst a) = Some kc" "obj_size kc = snd a" using k(1) a(1) by (auto simp: classes_def)
  have run: "kmalloc h sz = kmem_cache_alloc h (fst a)" using False l a(2) by (simp add: kmalloc_def)
  have sub: "{p..<p + sz} \<subseteq> {p..<p + obj_size kc}" for p using a(3) kc(2) by auto
  have "kmalloc h sz = Some (NULL, h) \<and> no_block (kpm h) (slab_pages (snd a)) \<or> (\<exists>p h' h''. kmalloc h sz = Some (p, h') \<and> p \<noteq> NULL \<and> heap_inv h' \<and> p \<in> live h' (fst a)
       \<and> (\<forall>d. \<forall>q \<in> live h d. {p..<p + sz} \<inter> {q..<q + size_of h d} = {}) \<and> kfree h' p = Some h'' \<and> heap_inv h'' \<and> live h'' = live h)"
    using alloc_fresh [OF inv kc(1)]
  proof
    assume "\<exists>p h'. kmem_cache_alloc h (fst a) = Some (p, h') \<and> p \<noteq> NULL \<and> heap_inv h' \<and> same_rest h h' \<and> p \<notin> live h (fst a)
        \<and> live h' = (live h)(fst a := insert p (live h (fst a)))
        \<and> (\<forall>d. \<forall>q \<in> live h d. {p..<p + obj_size kc} \<inter> {q..<q + size_of h d} = {})
        \<and> kbytes h' = (\<lambda>i. if p \<le> i \<and> i < p + obj_size kc then 0x2b else kbytes h i)"
    then obtain p h' where p: "kmem_cache_alloc h (fst a) = Some (p, h')" "p \<noteq> NULL" "heap_inv h'" "p \<notin> live h (fst a)"
      "live h' = (live h)(fst a := insert p (live h (fst a)))" "\<forall>d. \<forall>q \<in> live h d. {p..<p + obj_size kc} \<inter> {q..<q + size_of h d} = {}" by blast
    have m: "p \<in> live h' (fst a)" using p(5) by simp
    from kmem_cache_free_ok [OF p(3) m] obtain h'' where h'': "kmem_cache_free h' (fst a) p = Some h''" "heap_inv h''"
      "live h'' = (live h')(fst a := live h' (fst a) - {p})" by blast
    have "live h'' = live h" using h''(3) p(4,5) by (auto simp: fun_eq_iff)
    moreover have "\<forall>d. \<forall>q \<in> live h d. {p..<p + sz} \<inter> {q..<q + size_of h d} = {}" using p(6) sub [of p] by blast
    ultimately show ?thesis using run p(1-3) m h''(1,2) kfree_ok [OF p(3) m] by auto
  qed (simp add: run kc(2))
  moreover have "caches h (fst a) \<noteq> None" "size_of h (fst a) = snd a" using kc by (auto simp: size_of_def)
  ultimately show ?thesis unfolding if_not_P [OF False] using a(3,4) by blast
qed

definition class_heap :: kheap where
  "class_heap = small_heap\<lparr>caches := map_of (map (\<lambda>(c, z). (c, small_cache\<lparr>obj_size := z\<rparr>)) (zip [11..<19] (map snd kmalloc_sizes))),
     kmalloc_allocators := zip [11..<19] (map snd kmalloc_sizes)\<rparr>"

lemma class_heap_inv: "heap_inv class_heap" "classes class_heap (kmalloc_allocators class_heap)"
  "map snd (kmalloc_allocators class_heap) = map snd kmalloc_sizes" "live class_heap d = {}"
proof -
  have k: "kmalloc_allocators class_heap = [(11, 32), (12, 64), (13, 128), (14, 256), (15, 512), (16, 1024), (17, 2048), (18, 4096)]"
    by (simp add: class_heap_def kmalloc_sizes_def upt_conv_Cons)
  then show "map snd (kmalloc_allocators class_heap) = map snd kmalloc_sizes" by (simp add: kmalloc_sizes_def)
  have c: "caches class_heap = map_of [(11, small_cache\<lparr>obj_size := 32\<rparr>), (12, small_cache\<lparr>obj_size := 64\<rparr>), (13, small_cache\<lparr>obj_size := 128\<rparr>),
    (14, small_cache\<lparr>obj_size := 256\<rparr>), (15, small_cache\<lparr>obj_size := 512\<rparr>), (16, small_cache\<lparr>obj_size := 1024\<rparr>),
    (17, small_cache\<lparr>obj_size := 2048\<rparr>), (18, small_cache\<lparr>obj_size := 4096\<rparr>)]"
    by (simp add: class_heap_def kmalloc_sizes_def upt_conv_Cons)
  show "classes class_heap (kmalloc_allocators class_heap)" unfolding k classes_def c by simp
  have s: "\<exists>z. kc = small_cache\<lparr>obj_size := z\<rparr> \<and> 0 < z \<and> slab_pages z \<le> 1024 \<and> 11 \<le> d" if "caches class_heap d = Some kc" for d kc
    using that unfolding c by (auto simp: slab_pages_def split: if_splits)
  have "pmem_inv (kpm class_heap)" "n_pages (kpm class_heap) < 2 ^ 19" using heap_invD(1,2) [OF small_heap_inv(1)] by (simp_all add: class_heap_def)
  then show "heap_inv class_heap" unfolding heap_inv_def cache_inv_def slabs_of_def using s by (fastforce simp: small_cache_def)
  show "live class_heap d = {}" using s [of d] by (auto simp: live_def slabs_of_def small_cache_def split: option.splits)
qed

lemma kmalloc_kfree_roundtrip_witness:
  "\<exists>p h' h''. kmalloc class_heap 20 = Some (p, h') \<and> p \<noteq> NULL \<and> kfree h' p = Some h'' \<and> heap_inv h'' \<and> live h'' = live class_heap"
proof -
  have "slab_pages z \<le> 2 ^ 1" if "z < 40" for z
  proof -
    have "slab_pages z < 3" unfolding slab_pages_def using that by (intro less_mult_imp_div_less) simp
    then show ?thesis by simp
  qed
  moreover have "freeblocks (kpm class_heap) 1 \<noteq> []" by (simp add: class_heap_def small_heap_def small_pmem_def)
  ultimately have "\<not> no_block (kpm class_heap) (slab_pages z)" if "z < 40" for z
    using that unfolding no_block_def by (metis one_le_numeral)
  then show ?thesis using kmalloc_kfree_roundtrip [OF class_heap_inv(1-3), of 20] by fastforce
qed

text \<open>kmalloc_init on a well-formed memory without caches either panics for want of a block for the first slab or
  establishes a well-formed heap with eight distinct caches of the eight sizes.\<close>

theorem kmalloc_init_establishes:
  assumes "pmem_inv (kpm h)" "n_pages (kpm h) < 2 ^ 19" "caches h = Map.empty" "allocator_cache h \<noteq> NULL"
    "pg \<in> allocated (kpm h)" "page_of h (allocator_cache h) = Some pg" "links (kpm h) pg = (NULL, NULL)"
  shows "(\<exists>h'. kmalloc_init h = Some h' \<and> kmem_inv h' \<and> classes h' (kmalloc_allocators h') \<and> distinct (map fst (kmalloc_allocators h'))
      \<and> map snd (kmalloc_allocators h') = [32, 64, 128, 256, 512, 1024, 2048, 4096])
    \<or> (\<exists>h'. kmalloc_init h = None \<and> kmem_inv h' \<and> no_block (kpm h') (slab_pages sizeof_kmem_cache))"
  using kmalloc_init_ok [OF assms] by (simp add: kmalloc_sizes_def)

definition boot_heap :: kheap where
  "boot_heap = small_heap\<lparr>caches := Map.empty, allocator_cache := kva 1 + 16\<rparr>"

lemma kmalloc_init_establishes_witness:
  "(\<exists>h'. kmalloc_init boot_heap = Some h' \<and> kmem_inv h' \<and> classes h' (kmalloc_allocators h') \<and> distinct (map fst (kmalloc_allocators h'))
      \<and> map snd (kmalloc_allocators h') = [32, 64, 128, 256, 512, 1024, 2048, 4096])
    \<or> (\<exists>h'. kmalloc_init boot_heap = None \<and> kmem_inv h' \<and> no_block (kpm h') (slab_pages sizeof_kmem_cache))"
proof (rule kmalloc_init_establishes)
  have k: "kpm boot_heap = small_pmem" by (simp add: boot_heap_def small_heap_def)
  have n: "n_pages small_pmem = 4" by (simp add: small_pmem_def)
  show "pmem_inv (kpm boot_heap)" "n_pages (kpm boot_heap) < 2 ^ 19" "1 \<in> allocated (kpm boot_heap)"
    using small_pmem_inv small_pmem_sets n unfolding k by simp_all
  show "page_of boot_heap (allocator_cache boot_heap) = Some 1"
    by (rule page_of_in) (simp_all add: k n, simp_all add: boot_heap_def)
  show "links (kpm boot_heap) 1 = (NULL, NULL)" unfolding k by (simp add: links_def small_pmem_def zero_page_def)
qed (simp_all add: boot_heap_def)

end
