(* ===== verification/Sched.thy ===== *)
theory Sched
  imports Kmalloc
begin

text \<open>
  Threads and the scheduler: \<^verbatim>\<open>kernel/thread.c\<close>, \<^verbatim>\<open>kernel/sched.c\<close>, the context switch of
  \<^verbatim>\<open>arch/x86_64/kernel/cpu.c\<close> and \<^verbatim>\<open>arch/x86_64/kernel/thread.c\<close>.  Thread structures are objects of
  a cache of the kernel heap (\<open>Kmalloc\<close>) and kernel stacks are pages of the buddy allocator (\<open>Pmem\<close>).  A CPU is given by the thread
  whose stack it runs on, its idle thread and the address space it has loaded.  All scheduling happens under
  \<open>sched_lock\<close>, so a switch is one step; the code after the switch runs in the thread switched to, and the
  model goes on there.  The lemmas follow the ready queue and the running threads
  through all interleavings of CPUs.
\<close>

section \<open>State\<close>

datatype threadstate_t = RUNNING | READY | SLEEPING | ZOMBIE

text \<open>What a thread does when it is switched to: a new one starts at the entry point its first context was set up with,
  any other returns into its call of \<open>sched\<close>.\<close>

datatype context_rip = At_sched | At_thread_start | At_kstart ptr ptr

record thread =
  t_name :: string
  t_priority :: int
  t_tid :: tid_t
  t_state :: threadstate_t
  t_proc :: ptr
  sched_ctx :: vaddr_t
  tf :: vaddr_t
  ctx_rip :: context_rip

record x86_64_cpu =
  idle_thread :: ptr
  cpu_thread :: ptr
  running :: ptr
  loaded_as :: ptr

record sched_sys =
  threads :: "ptr \<rightharpoonup> thread"
  ready_queue :: "ptr list"
  cpus :: "nat \<Rightarrow> x86_64_cpu"
  tid_allocator :: u32
  heap :: kheap
  thread_allocator :: ptr
  proc_threads :: "ptr \<Rightarrow> ptr list"

abbreviation (input) THREAD_NAME_LEN :: nat where "THREAD_NAME_LEN \<equiv> 32"
abbreviation (input) sizeof_trapframe :: u64 where "sizeof_trapframe \<equiv> 176"
abbreviation (input) sizeof_context :: u64 where "sizeof_context \<equiv> 64"

definition set_thread :: "ptr \<Rightarrow> thread \<Rightarrow> sched_sys \<Rightarrow> sched_sys" where
  "set_thread t th s = s\<lparr>threads := (threads s)(t := Some th)\<rparr>"

definition set_cpu :: "nat \<Rightarrow> x86_64_cpu \<Rightarrow> sched_sys \<Rightarrow> sched_sys" where
  "set_cpu c cpu s = s\<lparr>cpus := (cpus s)(c := cpu)\<rparr>"

section \<open>CPUs\<close>

definition thread_current :: "sched_sys \<Rightarrow> nat \<Rightarrow> ptr" where
  "thread_current s c = running (cpus s c)"

definition cpu_idle_thread :: "sched_sys \<Rightarrow> nat \<Rightarrow> ptr" where
  "cpu_idle_thread s c = idle_thread (cpus s c)"

definition cpu_set_idle_thread :: "sched_sys \<Rightarrow> nat \<Rightarrow> ptr \<Rightarrow> sched_sys exec" where
  "cpu_set_idle_thread s c t = do {
     kassert (idle_thread (cpus s c) = NULL);
     kassert (t \<noteq> NULL);
     Some (set_cpu c ((cpus s c)\<lparr>idle_thread := t\<rparr>) s) }"

text \<open>\<open>sp\<close> is the stack pointer that \<open>swtch\<close> saves for the current thread.  The result is the previous thread, as the thread
  switched to sees it.\<close>

definition cpu_switch_thread :: "sched_sys \<Rightarrow> nat \<Rightarrow> vaddr_t \<Rightarrow> ptr \<Rightarrow> (ptr \<times> sched_sys) exec" where
  "cpu_switch_thread s c sp t = do {
     let curr = thread_current s c;
     th \<leftarrow> threads s t;
     let s = set_cpu c ((cpus s c)\<lparr>cpu_thread := t, loaded_as := t_proc th, running := t\<rparr>) s;
     ch \<leftarrow> threads s curr;
     Some (curr, set_thread curr (ch\<lparr>sched_ctx := sp, ctx_rip := At_sched\<rparr>) s) }"

section \<open>Threads\<close>

text \<open>\<open>boot_stack\<close> is the stack the CPU is on before it has an idle thread; writing the thread there makes it the current one.
  The state and the context are not initialised, \<open>st0\<close> is what the memory holds.\<close>

definition thread_create :: "sched_sys \<Rightarrow> nat \<Rightarrow> vaddr_t \<Rightarrow> threadstate_t \<Rightarrow> string \<Rightarrow> ptr \<Rightarrow> int \<Rightarrow> (ptr \<times> sched_sys) exec" where
  "thread_create s c boot_stack st0 nam p pri = do {
     (t, h) \<leftarrow> kmem_cache_alloc (heap s) (thread_allocator s);
     let s = s\<lparr>heap := h\<rparr>;
     if t = NULL then Some (NULL, s)
     else do {
       (err, vaddr, h) \<leftarrow>
         (if cpu_idle_thread s c = NULL then Some (ERR_OK, boot_stack, h)
          else do {
            (err, pa, pm) \<leftarrow> pmem_alloc (kpm h);
            Some (err, (case pa of Some paddr \<Rightarrow> kmap_p2v paddr | None \<Rightarrow> 0), h\<lparr>kpm := pm\<rparr>) });
       let s = s\<lparr>heap := h\<rparr>;
       if err \<noteq> ERR_OK then Some (NULL, s)
       else do {
         let s = s\<lparr>tid_allocator := tid_allocator s + 1\<rparr>;
         let frame = vaddr + pg_size - sizeof_trapframe;
         let th = \<lparr>t_name = take (THREAD_NAME_LEN - 1) nam, t_priority = pri, t_tid = tid_allocator s, t_state = st0, t_proc = p,
           sched_ctx = frame, tf = frame, ctx_rip = At_sched\<rparr>;
         let s = set_thread t th s;
         let s = (if cpu_idle_thread s c = NULL then set_cpu c ((cpus s c)\<lparr>running := t\<rparr>) s else s);
         let s = (if p \<noteq> NULL then s\<lparr>proc_threads := (proc_threads s)(p := proc_threads s p @ [t])\<rparr> else s);
         Some (t, s) } } }"

definition thread_cleanup :: "sched_sys \<Rightarrow> nat \<Rightarrow> ptr \<Rightarrow> sched_sys exec" where
  "thread_cleanup s c t = do {
     kassert (thread_current s c \<noteq> t);
     th \<leftarrow> threads s t;
     paddr \<leftarrow> kmap_v2p (page_to_paddr (n_pages (kpm (heap s)))) (pg_round_down (sched_ctx th));
     pm \<leftarrow> pmem_free (kpm (heap s)) paddr;
     h \<leftarrow> kmem_cache_free ((heap s)\<lparr>kpm := pm\<rparr>) (thread_allocator s) t;
     Some (s\<lparr>heap := h, threads := (threads s)(t := None)\<rparr>) }"

section \<open>Scheduling\<close>

definition sched_ready :: "sched_sys \<Rightarrow> ptr \<Rightarrow> sched_sys exec" where
  "sched_ready s t = do {
     kassert (t \<noteq> NULL);
     th \<leftarrow> threads s t;
     Some ((set_thread t (th\<lparr>t_state := READY\<rparr>) s)\<lparr>ready_queue := ready_queue s @ [t]\<rparr>) }"

definition thread_start_context :: "sched_sys \<Rightarrow> ptr \<Rightarrow> ptr \<Rightarrow> ptr \<Rightarrow> sched_sys exec" where
  "thread_start_context s t func aux = do {
     kassert (t \<noteq> NULL);
     th \<leftarrow> threads s t;
     th \<leftarrow> (if t_proc th \<noteq> NULL then Some (th\<lparr>sched_ctx := sched_ctx th - 8 - sizeof_context, ctx_rip := At_thread_start\<rparr>)
           else do {
             kassert (func \<noteq> NULL);
             Some (th\<lparr>sched_ctx := sched_ctx th - 8 - sizeof_context, ctx_rip := At_kstart func aux\<rparr>) });
     sched_ready (set_thread t th s) t }"

text \<open>\<open>sched\<close> on the CPU \<open>c\<close>: the next thread, and the previous one if it has to be cleaned up.\<close>

definition sched :: "sched_sys \<Rightarrow> nat \<Rightarrow> vaddr_t \<Rightarrow> (ptr \<times> ptr option \<times> sched_sys) exec" where
  "sched s c sp = do {
     let curr = thread_current s c;
     (t, s) \<leftarrow>
       (case ready_queue s of
          n # q \<Rightarrow> do {
            th \<leftarrow> threads s n;
            kassert (t_state th = READY);
            Some (n, s\<lparr>ready_queue := q\<rparr>) }
        | [] \<Rightarrow> do {
            kassert (cpu_idle_thread s c \<noteq> curr);
            Some (cpu_idle_thread s c, s) });
     th \<leftarrow> threads s t;
     let s = set_thread t (th\<lparr>t_state := RUNNING\<rparr>) s;
     (prev, s) \<leftarrow> cpu_switch_thread s c sp t;
     kassert (prev \<noteq> NULL);
     ph \<leftarrow> threads s prev;
     Some (t, if t_state ph = ZOMBIE then Some prev else None, s) }"

text \<open>The thread switched to cleans up its predecessor if it returns from \<open>sched\<close>; a new thread starts in
  \<open>thread_start\<close>, which only releases the lock.\<close>

definition sched_sched :: "sched_sys \<Rightarrow> nat \<Rightarrow> vaddr_t \<Rightarrow> threadstate_t \<Rightarrow> sched_sys exec" where
  "sched_sched s c sp next_state = do {
     let curr = thread_current s c;
     if next_state = READY \<and> ready_queue s = [] then Some s
     else do {
       let s = (if next_state = READY \<and> curr \<noteq> cpu_idle_thread s c then s\<lparr>ready_queue := ready_queue s @ [curr]\<rparr> else s);
       ch \<leftarrow> threads s curr;
       let s = set_thread curr (ch\<lparr>t_state := next_state\<rparr>) s;
       let started = (case ready_queue s of n # _ \<Rightarrow> map_option ctx_rip (threads s n) | [] \<Rightarrow> map_option ctx_rip (threads s (cpu_idle_thread s c)));
       (t, dying, s) \<leftarrow> sched s c sp;
       case dying of
         None \<Rightarrow> Some s
       | Some d \<Rightarrow> if started = Some At_sched then thread_cleanup s c d else Some s } }"

definition thread_exit :: "sched_sys \<Rightarrow> nat \<Rightarrow> vaddr_t \<Rightarrow> sched_sys exec" where
  "thread_exit s c sp = sched_sched s c sp ZOMBIE"

definition timer_trap_handler :: "u32 \<times> sched_sys \<Rightarrow> nat \<Rightarrow> vaddr_t \<Rightarrow> (u32 \<times> sched_sys) exec" where
  "timer_trap_handler ts c sp = do {
     s \<leftarrow> sched_sched (snd ts) c sp READY;
     Some (fst ts + 1, s) }"

definition sched_start :: "sched_sys \<Rightarrow> nat \<Rightarrow> (err_t \<times> sched_sys) exec" where
  "sched_start s c = do {
     s \<leftarrow> cpu_set_idle_thread s c (thread_current s c);
     Some (ERR_OK, s) }"

definition sched_start_ap :: "sched_sys \<Rightarrow> nat \<Rightarrow> vaddr_t \<Rightarrow> threadstate_t \<Rightarrow> (err_t \<times> sched_sys) exec" where
  "sched_start_ap s c boot_stack st0 = do {
     (t, s) \<leftarrow> thread_create s c boot_stack st0 ''idle thread'' NULL 10;
     if t = NULL then Some (1, s)
     else do {
       s \<leftarrow> cpu_set_idle_thread s c t;
       Some (ERR_OK, s) } }"

definition sched_sys_init :: "sched_sys \<Rightarrow> sched_sys" where
  "sched_sys_init s = s\<lparr>ready_queue := []\<rparr>"

abbreviation (input) sizeof_thread :: nat where "sizeof_thread \<equiv> 104"

definition thread_sys_init :: "sched_sys \<Rightarrow> nat \<Rightarrow> vaddr_t \<Rightarrow> threadstate_t \<Rightarrow> sched_sys exec" where
  "thread_sys_init s c boot_stack st0 = do {
     let s = sched_sys_init s;
     (a, h) \<leftarrow> kmem_cache_create (heap s) sizeof_thread;
     kassert (a \<noteq> NULL);
     let s = s\<lparr>heap := h, thread_allocator := a\<rparr>;
     (t, s) \<leftarrow> thread_create s c boot_stack st0 ''idle thread'' NULL 10;
     kassert (t \<noteq> NULL);
     Some s }"

section \<open>The invariant of the scheduler\<close>

abbreviation (input) run :: "sched_sys \<Rightarrow> nat \<Rightarrow> ptr" where "run s c \<equiv> running (cpus s c)"
abbreviation (input) idl :: "sched_sys \<Rightarrow> nat \<Rightarrow> ptr" where "idl s c \<equiv> idle_thread (cpus s c)"

definition is_idle :: "nat \<Rightarrow> sched_sys \<Rightarrow> ptr \<Rightarrow> bool" where
  "is_idle n s t \<longleftrightarrow> (\<exists>c < n. idl s c = t)"

definition in_state :: "sched_sys \<Rightarrow> threadstate_t \<Rightarrow> ptr \<Rightarrow> bool" where
  "in_state s st t \<longleftrightarrow> (\<exists>th. threads s t = Some th \<and> t_state th = st)"

text \<open>\<open>C\<close> is the set of CPUs that are not in the middle of a switch.\<close>

definition sch :: "nat \<Rightarrow> nat set \<Rightarrow> sched_sys \<Rightarrow> bool" where
  "sch n C s \<longleftrightarrow> (\<forall>c < n. run s c \<noteq> NULL \<and> threads s (run s c) \<noteq> None)
     \<and> (\<forall>c \<in> C. in_state s RUNNING (run s c) \<and> loaded_as (cpus s c) = t_proc (the (threads s (run s c))))
     \<and> inj_on (run s) {..<n} \<and> inj_on (idl s) {..<n} \<and> (\<forall>c < n. \<forall>d < n. idl s d = run s c \<longrightarrow> d = c)
     \<and> (\<forall>c < n. idl s c \<noteq> NULL \<and> threads s (idl s c) \<noteq> None)
     \<and> distinct (ready_queue s) \<and> (\<forall>t \<in> set (ready_queue s). t \<noteq> NULL \<and> in_state s READY t \<and> \<not> is_idle n s t)
     \<and> (\<forall>t. in_state s RUNNING t \<longrightarrow> (\<exists>c \<in> C. run s c = t))
     \<and> (\<forall>t. in_state s READY t \<longrightarrow> t \<in> set (ready_queue s) \<or> is_idle n s t)"

definition sched_inv :: "nat \<Rightarrow> sched_sys \<Rightarrow> bool" where
  "sched_inv n s \<longleftrightarrow> sch n {..<n} s"

lemma in_state_unique: "in_state s st t \<Longrightarrow> in_state s st' t \<Longrightarrow> st = st'"
  by (auto simp: in_state_def)

lemma sched_ready_inv:
  assumes inv: "sched_inv n s" and t: "threads s t = Some th" "t_state th \<noteq> RUNNING" "t_state th \<noteq> READY" "\<not> is_idle n s t" "t \<noteq> NULL"
  shows "\<exists>s'. sched_ready s t = Some s' \<and> sched_inv n s'"
proof -
  let ?s = "(set_thread t (th\<lparr>t_state := READY\<rparr>) s)\<lparr>ready_queue := ready_queue s @ [t]\<rparr>"
  note i = inv [unfolded sched_inv_def sch_def]
  have st: "in_state ?s st u \<longleftrightarrow> (if u = t then st = READY else in_state s st u)" for st u by (auto simp: in_state_def set_thread_def)
  have c: "cpus ?s = cpus s" "ready_queue ?s = ready_queue s @ [t]" "is_idle n ?s = is_idle n s" by (auto simp: set_thread_def is_idle_def)
  have nr: "run s d \<noteq> t" if "d < n" for d
  proof -
    have "in_state s RUNNING (run s d)" using i that by simp
    then show ?thesis using t(1,2) by (auto simp: in_state_def)
  qed
  have nq: "t \<notin> set (ready_queue s)" using i t(1,3) by (auto simp: in_state_def)
  have th: "threads ?s u = (if u = t then Some (th\<lparr>t_state := READY\<rparr>) else threads s u)" for u by (simp add: set_thread_def)
  have "sched_inv n ?s" unfolding sched_inv_def sch_def st c th using i nr nq t by auto
  then show ?thesis using t by (simp add: sched_ready_def)
qed

text \<open>A switch on the CPU \<open>c\<close> whose thread has already left the running state.\<close>

lemma sched_ok:
  assumes inv: "sch n ({..<n} - {c}) s" and c: "c < n" and ch: "threads s (run s c) = Some ch" "t_state ch \<noteq> RUNNING"
    and q: "ready_queue s = [] \<Longrightarrow> idl s c \<noteq> run s c" "ready_queue s \<noteq> [] \<Longrightarrow> hd (ready_queue s) \<noteq> run s c"
  defines "t \<equiv> (case ready_queue s of n # _ \<Rightarrow> n | [] \<Rightarrow> idl s c)"
  shows "\<exists>th s'. threads s t = Some th \<and> t \<noteq> run s c \<and> sched s c sp = Some (t, if t_state ch = ZOMBIE then Some (run s c) else None, s')
    \<and> sched_inv n s' \<and> heap s' = heap s \<and> thread_allocator s' = thread_allocator s \<and> run s' c = t \<and> (\<forall>d. idl s' d = idl s d)
    \<and> threads s' = (threads s)(t := Some (th\<lparr>t_state := RUNNING\<rparr>), run s c := Some (ch\<lparr>sched_ctx := sp, ctx_rip := At_sched\<rparr>))"
proof -
  note i = inv [unfolded sch_def]
  let ?r = "run s c" and ?q = "tl (ready_queue s)"
  have tr: "t \<noteq> ?r" using q by (cases "ready_queue s") (auto simp: t_def)
  have t0: "t \<noteq> NULL" "threads s t \<noteq> None" using i c by (cases "ready_queue s"; auto simp: t_def in_state_def)+
  then obtain th where th: "threads s t = Some th" by auto
  have rdy: "ready_queue s \<noteq> [] \<Longrightarrow> t_state th = READY \<and> \<not> is_idle n s t"
    using i th by (cases "ready_queue s") (auto simp: t_def in_state_def)
  let ?th = "th\<lparr>t_state := RUNNING\<rparr>" and ?ch = "ch\<lparr>sched_ctx := sp, ctx_rip := At_sched\<rparr>"
  define s' where "s' = s\<lparr>ready_queue := ?q, threads := (threads s)(t := Some ?th, ?r := Some ?ch),
    cpus := (cpus s)(c := (cpus s c)\<lparr>cpu_thread := t, loaded_as := t_proc th, running := t\<rparr>)\<rparr>"
  have r0: "?r \<noteq> NULL" using i c by simp
  have run: "sched s c sp = Some (t, if t_state ch = ZOMBIE then Some ?r else None, s')"
    using th tr ch(1) r0 rdy q unfolding sched_def t_def s'_def
    by (cases "ready_queue s")
      (auto simp: Let_def thread_current_def cpu_idle_thread_def cpu_switch_thread_def set_thread_def set_cpu_def fun_upd_twist)
  have st: "in_state s' st u \<longleftrightarrow> (if u = ?r then t_state ch = st else if u = t then st = RUNNING else in_state s st u)" for st u
    by (auto simp: in_state_def s'_def)
  have rn: "run s' d = (if d = c then t else run s d)" "idl s' d = idl s d" "is_idle n s' u = is_idle n s u" for d u by (auto simp: s'_def is_idle_def)
  have nt: "run s d \<noteq> t" if "d < n" "d \<noteq> c" for d
  proof (cases "ready_queue s")
    case Nil
    then show ?thesis using i that c by (auto simp: t_def)
  next
    case (Cons x y)
    have "in_state s RUNNING (run s d)" using i that by auto
    moreover have "in_state s READY t" using rdy Cons th by (simp add: in_state_def)
    ultimately show ?thesis using in_state_unique by blast
  qed
  have inj: "inj_on (run s') {..<n}" using i nt by (auto simp: inj_on_def rn)
  have own: "\<forall>a < n. \<forall>d < n. idl s' d = run s' a \<longrightarrow> d = a"
  proof (intro allI impI)
    fix a d assume a: "a < n" "d < n" "idl s' d = run s' a"
    show "d = a"
    proof (cases "a = c")
      case True
      then have "idl s d = t" using a rn by simp
      then have "ready_queue s = []" using rdy a(2) by (auto simp: is_idle_def)
      then have "idl s d = idl s c" using \<open>idl s d = t\<close> by (simp add: t_def)
      then show ?thesis using i a c True by (auto simp: inj_on_def)
    next
      case False
      then show ?thesis using a i rn by auto
    qed
  qed
  have qs: "distinct ?q" "set ?q \<subseteq> set (ready_queue s) - {t}" using i by (cases "ready_queue s"; auto simp: t_def)+
  have thr: "threads s' u = (if u = ?r then Some ?ch else if u = t then Some ?th else threads s u)" for u by (auto simp: s'_def)
  have "sched_inv n s'"
    unfolding sched_inv_def sch_def
  proof (intro conjI)
    show "\<forall>a < n. run s' a \<noteq> NULL \<and> threads s' (run s' a) \<noteq> None" using i t0 nt by (auto simp: rn thr)
    show "\<forall>a \<in> {..<n}. in_state s' RUNNING (run s' a) \<and> loaded_as (cpus s' a) = t_proc (the (threads s' (run s' a)))"
    proof
      fix a assume a: "a \<in> {..<n}"
      show "in_state s' RUNNING (run s' a) \<and> loaded_as (cpus s' a) = t_proc (the (threads s' (run s' a)))"
      proof (cases "a = c")
        case True
        then show ?thesis using tr by (simp add: st rn thr) (simp add: s'_def)
      next
        case False
        have "run s a \<noteq> ?r" using i a c False by (auto simp: inj_on_def)
        then show ?thesis using i a False nt [of a] by (simp add: st rn thr) (simp add: s'_def)
      qed
    qed
    show "inj_on (run s') {..<n}" "\<forall>a < n. \<forall>d < n. idl s' d = run s' a \<longrightarrow> d = a" using inj own by auto
    show "inj_on (idl s') {..<n}" using i by (simp add: rn)
    show "\<forall>a < n. idl s' a \<noteq> NULL \<and> threads s' (idl s' a) \<noteq> None" using i by (auto simp: rn thr)
    show "distinct (ready_queue s')" using qs by (simp add: s'_def)
    show "\<forall>u \<in> set (ready_queue s'). u \<noteq> NULL \<and> in_state s' READY u \<and> \<not> is_idle n s' u"
    proof
      fix u assume "u \<in> set (ready_queue s')"
      then have u: "u \<in> set (ready_queue s)" "u \<noteq> t" using qs by (auto simp: s'_def)
      then have "u \<noteq> NULL" "in_state s READY u" "\<not> is_idle n s u" using i by auto
      moreover from this(2) have "in_state s' READY u" unfolding st using u(2) ch(1) by (auto simp: in_state_def)
      ultimately show "u \<noteq> NULL \<and> in_state s' READY u \<and> \<not> is_idle n s' u" by (simp add: rn)
    qed
    show "\<forall>u. in_state s' RUNNING u \<longrightarrow> (\<exists>a \<in> {..<n}. run s' a = u)" using i c ch(2) by (auto simp: st rn split: if_splits)
    show "\<forall>u. in_state s' READY u \<longrightarrow> u \<in> set (ready_queue s') \<or> is_idle n s' u"
    proof (intro allI impI)
      fix u assume u: "in_state s' READY u"
      then have "u \<noteq> t" using tr by (auto simp: st)
      moreover have "in_state s READY u" using u ch(1) unfolding st by (auto simp: in_state_def split: if_splits)
      then have "u \<in> set (ready_queue s) \<or> is_idle n s u" using i by auto
      moreover have "u \<in> set (ready_queue s')" if "u \<in> set (ready_queue s)"
        using that \<open>u \<noteq> t\<close> by (cases "ready_queue s") (auto simp: s'_def t_def)
      ultimately show "u \<in> set (ready_queue s') \<or> is_idle n s' u" by (auto simp: rn)
    qed
  qed
  then show ?thesis using th tr run rn by (intro exI [of _ th] exI [of _ s']) (auto simp: s'_def)
qed

lemma leave_inv:
  assumes inv: "sched_inv n s" and c: "c < n" and ch: "threads s (run s c) = Some ch" and st: "next \<noteq> RUNNING" "next \<noteq> READY \<longrightarrow> run s c \<noteq> idl s c"
  defines "s1 \<equiv> set_thread (run s c) (ch\<lparr>t_state := next\<rparr>) (if next = READY \<and> run s c \<noteq> idl s c then s\<lparr>ready_queue := ready_queue s @ [run s c]\<rparr> else s)"
  shows "sch n ({..<n} - {c}) s1"
proof -
  let ?r = "run s c"
  note i = inv [unfolded sched_inv_def sch_def]
  have q: "ready_queue s1 = (if next = READY \<and> ?r \<noteq> idl s c then ready_queue s @ [?r] else ready_queue s)"
    and cp: "cpus s1 = cpus s" "is_idle n s1 = is_idle n s" and th: "threads s1 = (threads s)(?r := Some (ch\<lparr>t_state := next\<rparr>))"
    by (auto simp: s1_def set_thread_def is_idle_def)
  have ns: "in_state s1 st u \<longleftrightarrow> (if u = ?r then st = next else in_state s st u)" for st u by (auto simp: in_state_def th)
  have r: "in_state s RUNNING ?r" using i c by simp
  have nq: "?r \<notin> set (ready_queue s)"
  proof
    assume "?r \<in> set (ready_queue s)"
    then have "in_state s READY ?r" using i by simp
    then show False using in_state_unique [OF r] by blast
  qed
  have di: "run s d \<noteq> ?r" if "d < n" "d \<noteq> c" for d using i c that by (auto simp: inj_on_def)
  have idle: "is_idle n s ?r \<longleftrightarrow> idl s c = ?r" using i c by (auto simp: is_idle_def)
  show ?thesis
    unfolding sch_def cp
  proof (intro conjI)
    show "\<forall>a < n. run s a \<noteq> NULL \<and> threads s1 (run s a) \<noteq> None" using i by (auto simp: th)
    show "\<forall>a \<in> {..<n} - {c}. in_state s1 RUNNING (run s a) \<and> loaded_as (cpus s a) = t_proc (the (threads s1 (run s a)))"
      using i di by (auto simp: ns th)
    show "inj_on (run s) {..<n}" "inj_on (idl s) {..<n}" "\<forall>c < n. \<forall>d < n. idl s d = run s c \<longrightarrow> d = c" using i by auto
    show "\<forall>c < n. idl s c \<noteq> NULL \<and> threads s1 (idl s c) \<noteq> None" using i by (auto simp: th)
    show "distinct (ready_queue s1)" using i nq by (simp add: q)
    show "\<forall>t \<in> set (ready_queue s1). t \<noteq> NULL \<and> in_state s1 READY t \<and> \<not> is_idle n s t" using i nq c idle by (auto simp: q ns)
    show "\<forall>t. in_state s1 RUNNING t \<longrightarrow> (\<exists>c \<in> {..<n} - {c}. run s c = t)"
    proof (intro allI impI)
      fix t assume "in_state s1 RUNNING t"
      then have "in_state s RUNNING t" "t \<noteq> ?r" using st(1) by (auto simp: ns split: if_splits)
      then obtain a where "a < n" "run s a = t" using i by auto
      then show "\<exists>c \<in> {..<n} - {c}. run s c = t" using \<open>t \<noteq> ?r\<close> by (intro bexI [of _ a]) auto
    qed
    show "\<forall>t. in_state s1 READY t \<longrightarrow> t \<in> set (ready_queue s1) \<or> is_idle n s t"
    proof (intro allI impI)
      fix t assume t: "in_state s1 READY t"
      show "t \<in> set (ready_queue s1) \<or> is_idle n s t"
      proof (cases "t = ?r")
        case True
        then show ?thesis using t idle by (auto simp: ns q)
      next
        case False
        then have "in_state s READY t" using t by (simp add: ns)
        then have "t \<in> set (ready_queue s) \<or> is_idle n s t" using i by simp
        then show ?thesis by (auto simp: q)
      qed
    qed
  qed
qed

section \<open>The memory of threads\<close>

definition stack_of :: "thread \<Rightarrow> vaddr_t" where
  "stack_of th = pg_round_down (sched_ctx th)"

definition thread_mem :: "nat \<Rightarrow> sched_sys \<Rightarrow> bool" where
  "thread_mem n s \<longleftrightarrow> heap_inv (heap s) \<and> caches (heap s) (thread_allocator s) \<noteq> None
     \<and> (\<forall>t. threads s t \<noteq> None \<longrightarrow> t \<in> live (heap s) (thread_allocator s))
     \<and> (\<forall>t th. threads s t = Some th \<longrightarrow> \<not> is_idle n s t \<longrightarrow>
          (\<exists>pg. unat (stack_of th) = kva pg \<and> plain_page (heap s) pg)
          \<and> (\<forall>u uh. threads s u = Some uh \<longrightarrow> \<not> is_idle n s u \<longrightarrow> u \<noteq> t \<longrightarrow> stack_of uh \<noteq> stack_of th))"

lemma same_rest_plain: "same_rest h h' \<Longrightarrow> plain_page h pg \<Longrightarrow> plain_page h' pg"
  by (auto simp: same_rest_def plain_page_def)

lemma same_rest_cache: "same_rest h h' \<Longrightarrow> caches h c \<noteq> None \<Longrightarrow> caches h' c \<noteq> None"
  unfolding same_rest_def by (metis option.map_disc_iff)

lemma kva_word:
  assumes "n_pages m < 2 ^ 19" "pg < n_pages m" "unat v = kva pg"
  shows "kmap_v2p (page_to_paddr (n_pages m)) v = Some (page_to_paddr pg)"
proof -
  have "v = of_nat (unat v)" by simp
  then have v: "v = of_nat (kva pg)" unfolding assms(3) .
  have "kva pg - kbase = pg * 4096" by (simp add: kva_def)
  moreover have "of_nat (pg * 4096) = page_to_paddr pg" by (simp add: page_to_paddr_def pg_size_def)
  moreover have "kmap_v2p (page_to_paddr (n_pages m)) v = Some (of_nat (kva pg - kbase))"
    unfolding v by (rule kmap_v2p_in [OF assms(1)]) (use assms(2) in \<open>auto simp: kva_def\<close>)
  ultimately show ?thesis by simp
qed

lemma thread_cleanup_ok:
  assumes inv: "thread_mem n s" and t: "threads s t = Some th" "\<not> is_idle n s t" "run s c \<noteq> t"
  shows "\<exists>h. thread_cleanup s c t = Some (s\<lparr>heap := h, threads := (threads s)(t := None)\<rparr>)
    \<and> thread_mem n (s\<lparr>heap := h, threads := (threads s)(t := None)\<rparr>)"
proof -
  note i = inv [unfolded thread_mem_def]
  obtain pg where pg: "unat (stack_of th) = kva pg" "plain_page (heap s) pg" using i t by blast
  have hi: "heap_inv (heap s)" using i by simp
  have lt: "pg < n_pages (kpm (heap s))" using pg(2) by (simp add: plain_page_def allocated_def)
  obtain m where m: "pmem_free (kpm (heap s)) (page_to_paddr pg) = Some m" "heap_inv ((heap s)\<lparr>kpm := m\<rparr>)"
    "live ((heap s)\<lparr>kpm := m\<rparr>) = live (heap s)" "same_pages (- {pg}) (heap s) ((heap s)\<lparr>kpm := m\<rparr>)"
    using page_free_ok [OF hi pg(2)] by blast
  let ?h = "(heap s)\<lparr>kpm := m\<rparr>" and ?a = "thread_allocator s"
  have tl: "t \<in> live ?h ?a" using i t(1) m(3) by auto
  obtain h where h: "kmem_cache_free ?h ?a t = Some h" "heap_inv h" "same_rest ?h h" "live h = (live ?h)(?a := live ?h ?a - {t})"
    using kmem_cache_free_ok [OF m(2) tl] by blast
  let ?s = "s\<lparr>heap := h, threads := (threads s)(t := None)\<rparr>"
  have run: "thread_cleanup s c t = Some ?s"
    using t(1,3) kva_word [OF heap_invD(2) [OF hi] lt pg(1)] m(1) h(1) by (simp add: thread_cleanup_def thread_current_def stack_of_def)
  have "\<exists>q. unat (stack_of uh) = kva q \<and> plain_page h q" if u: "threads s u = Some uh" "\<not> is_idle n s u" "u \<noteq> t" for u uh
  proof -
    obtain q where q: "unat (stack_of uh) = kva q" "plain_page (heap s) q" using i u by blast
    have "stack_of uh \<noteq> stack_of th" using i u t by blast
    then have "q \<noteq> pg" using q(1) pg(1) by (auto simp: word_unat_eq_iff)
    then have "plain_page ?h q" using m(4) q(2) by (auto simp: same_pages_def)
    then show ?thesis using q(1) same_rest_plain [OF h(3)] by blast
  qed
  moreover have "caches h ?a \<noteq> None" using same_rest_cache [OF h(3), of ?a] i by simp
  moreover have "is_idle n ?s = is_idle n s" by (simp add: is_idle_def fun_eq_iff)
  ultimately have "thread_mem n ?s" unfolding thread_mem_def using i h(2,4) m(3) by (auto split: if_splits)
  then show ?thesis using run by blast
qed

lemma drop_thread_inv:
  assumes inv: "sched_inv n s" and d: "in_state s ZOMBIE d" "\<not> is_idle n s d"
  shows "sched_inv n (s\<lparr>heap := h, threads := (threads s)(d := None)\<rparr>)"
proof -
  let ?s = "s\<lparr>heap := h, threads := (threads s)(d := None)\<rparr>"
  note i = inv [unfolded sched_inv_def sch_def]
  have st: "in_state ?s st u \<longleftrightarrow> u \<noteq> d \<and> in_state s st u" for st u by (auto simp: in_state_def)
  have ii: "is_idle n ?s = is_idle n s" by (simp add: is_idle_def fun_eq_iff)
  have nr: "run s c \<noteq> d" if "c < n" for c
  proof
    assume "run s c = d"
    moreover have "in_state s RUNNING (run s c)" using i that by simp
    ultimately show False using in_state_unique d(1) by blast
  qed
  have nq: "d \<notin> set (ready_queue s)"
  proof
    assume "d \<in> set (ready_queue s)"
    then have "in_state s READY d" using i by simp
    then show False using in_state_unique d(1) by blast
  qed
  have ni: "idl s c \<noteq> d" if "c < n" for c using d(2) that by (auto simp: is_idle_def)
  have th: "threads ?s u = (if u = d then None else threads s u)" for u by simp
  show ?thesis unfolding sched_inv_def sch_def st ii th using i nr nq ni by simp (metis (no_types, lifting))
qed

lemma thread_mem_upd:
  assumes inv: "thread_mem n s" and h: "heap s' = heap s" "thread_allocator s' = thread_allocator s" "is_idle n s' = is_idle n s"
    and t: "\<And>u uh. threads s' u = Some uh \<Longrightarrow> \<exists>vh. threads s u = Some vh \<and> stack_of uh = stack_of vh"
  shows "thread_mem n s'"
proof -
  note i = inv [unfolded thread_mem_def]
  have "u \<in> live (heap s) (thread_allocator s)" if u: "threads s' u \<noteq> None" for u
  proof -
    obtain uh where "threads s' u = Some uh" using u by auto
    then have "threads s u \<noteq> None" using t by fastforce
    then show ?thesis using i by blast
  qed
  moreover have "(\<exists>pg. unat (stack_of uh) = kva pg \<and> plain_page (heap s) pg)
      \<and> (\<forall>w wh. threads s' w = Some wh \<longrightarrow> \<not> is_idle n s w \<longrightarrow> w \<noteq> u \<longrightarrow> stack_of wh \<noteq> stack_of uh)"
    if u: "threads s' u = Some uh" "\<not> is_idle n s u" for u uh
  proof -
    obtain vh where v: "threads s u = Some vh" "stack_of uh = stack_of vh" using t [OF u(1)] by blast
    have "stack_of wh \<noteq> stack_of uh" if w: "threads s' w = Some wh" "\<not> is_idle n s w" "w \<noteq> u" for w wh
      using t [OF w(1)] i v u(2) w(2,3) by metis
    then show ?thesis using i v u(2) by metis
  qed
  ultimately show ?thesis using i unfolding thread_mem_def h by blast
qed

lemma sched_sched_ok:
  assumes inv: "sched_inv n s" and mem: "thread_mem n s" and c: "c < n" and ch: "threads s (run s c) = Some ch" "pg_round_down sp = stack_of ch"
    and st: "next \<noteq> RUNNING" "next \<noteq> READY \<longrightarrow> run s c \<noteq> idl s c"
  shows "\<exists>s'. sched_sched s c sp next = Some s' \<and> sched_inv n s' \<and> thread_mem n s' \<and> is_idle n s' = is_idle n s
    \<and> (\<forall>u. in_state s ZOMBIE u \<longrightarrow> \<not> is_idle n s u \<longrightarrow> in_state s' ZOMBIE u)"
proof (cases "next = READY \<and> ready_queue s = []")
  case True
  then show ?thesis using inv mem by (simp add: sched_sched_def Let_def)
next
  case False
  let ?r = "run s c"
  define s0 where "s0 = (if next = READY \<and> ?r \<noteq> idl s c then s\<lparr>ready_queue := ready_queue s @ [?r]\<rparr> else s)"
  define s1 where "s1 = set_thread ?r (ch\<lparr>t_state := next\<rparr>) s0"
  have l: "sch n ({..<n} - {c}) s1" unfolding s1_def s0_def by (rule leave_inv [OF inv c ch(1) st])
  have e: "cpus s1 = cpus s" "threads s1 = (threads s)(?r := Some (ch\<lparr>t_state := next\<rparr>))" "heap s1 = heap s" "thread_allocator s1 = thread_allocator s"
    by (simp_all add: s1_def s0_def set_thread_def)
  have q: "ready_queue s1 = ready_queue s0" by (simp add: s1_def set_thread_def)
  note i = inv [unfolded sched_inv_def sch_def]
  have nq: "?r \<notin> set (ready_queue s)"
  proof
    assume "?r \<in> set (ready_queue s)"
    then have "in_state s READY ?r" using i by simp
    moreover have "in_state s RUNNING ?r" using i c by simp
    ultimately show False using in_state_unique by blast
  qed
  have hq: "hd (ready_queue s1) \<noteq> ?r" if "ready_queue s1 \<noteq> []"
    using that nq False unfolding q s0_def by (cases "ready_queue s") (auto split: if_splits)
  have eq: "idl s1 c \<noteq> ?r" if "ready_queue s1 = []" using that st(2) False unfolding q s0_def e(1) by (auto split: if_splits)
  let ?t = "case ready_queue s1 of n # _ \<Rightarrow> n | [] \<Rightarrow> idl s1 c"
  have c1: "threads s1 (run s1 c) = Some (ch\<lparr>t_state := next\<rparr>)" by (simp add: e)
  from sched_ok [OF l c c1, of sp] st(1) hq eq e(1) obtain th s' where
    t: "threads s1 ?t = Some th" "?t \<noteq> ?r" "sched s1 c sp = Some (?t, if next = ZOMBIE then Some ?r else None, s')"
      "sched_inv n s'" "heap s' = heap s" "thread_allocator s' = thread_allocator s" "run s' c = ?t" "\<forall>d. idl s' d = idl s d"
      "threads s' = (threads s1)(?t := Some (th\<lparr>t_state := RUNNING\<rparr>), ?r := Some (ch\<lparr>t_state := next, sched_ctx := sp, ctx_rip := At_sched\<rparr>))"
    unfolding e(3,4) by auto
  have idle: "is_idle n s' = is_idle n s" using t(8) by (simp add: is_idle_def fun_eq_iff)
  have m': "thread_mem n s'"
  proof (rule thread_mem_upd [OF mem t(5,6) idle])
    fix u uh assume u: "threads s' u = Some uh"
    show "\<exists>vh. threads s u = Some vh \<and> stack_of uh = stack_of vh"
    proof (cases "u = ?r")
      case True
      then show ?thesis using u ch unfolding t(9) by (auto simp: stack_of_def)
    next
      case False
      then show ?thesis using u t(1) unfolding t(9) e(2) by (auto simp: stack_of_def split: if_splits)
    qed
  qed
  have zs: "in_state s' ZOMBIE u \<and> u \<noteq> ?r" if u: "in_state s ZOMBIE u" "\<not> is_idle n s u" for u
  proof -
    have "u \<noteq> ?r" using u(1) i c in_state_unique [of s ZOMBIE ?r RUNNING] by auto
    moreover have "u \<noteq> ?t"
    proof (cases "ready_queue s1")
      case Nil
      then show ?thesis using u(2) c by (auto simp: is_idle_def e(1))
    next
      case (Cons x y)
      then have "in_state s1 READY ?t" using l unfolding sch_def by auto
      then show ?thesis using u(1) t(2) by (auto simp: in_state_def e(2))
    qed
    ultimately show ?thesis using u(1) by (auto simp: in_state_def t(9) e(2))
  qed
  have run: "sched_sched s c sp next = (if next = ZOMBIE \<and> map_option ctx_rip (threads s1 ?t) = Some At_sched then thread_cleanup s' c ?r else Some s')"
  proof -
    have t0: "threads s0 ?r = Some ch" using ch(1) by (simp add: s0_def)
    show ?thesis
      unfolding sched_sched_def thread_current_def cpu_idle_thread_def Let_def if_not_P [OF False] s0_def [symmetric] t0 Option.bind_lunit
        s1_def [symmetric] t(3) by (auto split: list.splits)
  qed
  show ?thesis
  proof (cases "next = ZOMBIE \<and> map_option ctx_rip (threads s1 ?t) = Some At_sched")
    case False
    show ?thesis unfolding run if_not_P [OF False] using t(4) m' idle zs by blast
  next
    case True
    have "\<forall>d < n. idl s d = ?r \<longrightarrow> d = c" using i c by blast
    then have ni: "\<not> is_idle n s' ?r" using st(2) True unfolding idle by (auto simp: is_idle_def)
    have zr: "threads s' ?r = Some (ch\<lparr>t_state := next, sched_ctx := sp, ctx_rip := At_sched\<rparr>)" by (simp add: t(9))
    obtain h where h: "thread_cleanup s' c ?r = Some (s'\<lparr>heap := h, threads := (threads s')(?r := None)\<rparr>)" "thread_mem n (s'\<lparr>heap := h, threads := (threads s')(?r := None)\<rparr>)"
      using thread_cleanup_ok [OF m' zr ni, of c] unfolding t(7) using t(2) by blast
    have "in_state s' ZOMBIE ?r" using zr True by (simp add: in_state_def)
    note d = drop_thread_inv [OF t(4) this ni, of h]
    let ?s = "s'\<lparr>heap := h, threads := (threads s')(?r := None)\<rparr>"
    have "in_state ?s ZOMBIE u" if "in_state s ZOMBIE u" "\<not> is_idle n s u" for u using zs [OF that] by (auto simp: in_state_def)
    moreover have "is_idle n ?s = is_idle n s" using idle by (simp add: is_idle_def fun_eq_iff)
    ultimately show ?thesis unfolding run if_P [OF True] using h d by blast
  qed
qed

section \<open>Starting threads\<close>

lemma sched_inv_cong:
  "threads s' = threads s \<Longrightarrow> ready_queue s' = ready_queue s \<Longrightarrow> cpus s' = cpus s \<Longrightarrow> sched_inv n s' = sched_inv n s"
  by (simp add: sched_inv_def sch_def in_state_def is_idle_def)

lemma add_thread_inv:
  assumes inv: "sched_inv n s" and t: "threads s t = None" "t_state th = SLEEPING"
  shows "sched_inv n (set_thread t th s)"
proof -
  let ?s = "set_thread t th s"
  note i = inv [unfolded sched_inv_def sch_def]
  have st: "in_state ?s st u \<longleftrightarrow> (if u = t then st = SLEEPING else in_state s st u)" for st u using t(2) by (auto simp: in_state_def set_thread_def)
  have e: "cpus ?s = cpus s" "ready_queue ?s = ready_queue s" "is_idle n ?s = is_idle n s" "threads ?s = (threads s)(t := Some th)"
    by (auto simp: set_thread_def is_idle_def)
  have nr: "run s c \<noteq> t" if "c < n" for c using i that t(1) by auto
  have nq: "u \<noteq> t" if "u \<in> set (ready_queue s)" for u using i that t(1) by (auto simp: in_state_def)
  show ?thesis unfolding sched_inv_def sch_def st e using i nr nq by auto
qed

lemma round_frame:
  assumes "unat v = kva pg" "pg < 2 ^ 19" "0 < k" "k \<le> 4096"
  shows "unat (pg_round_down (v + pg_size - of_nat k)) = kva pg"
proof -
  have u: "unat (v + (pg_size - of_nat k)) = kva pg + (4096 - k)"
  proof -
    have "unat (pg_size - of_nat k :: u64) = 4096 - k" using assms(3,4) by (simp add: pg_size_def unat_sub_if' unat_of_nat)
    then show ?thesis using assms by (simp add: unat_word_ariths kva_def)
  qed
  have "(kva pg + (4096 - k)) div 4096 * 4096 = kva pg"
  proof -
    have "kva pg = (kbase div 4096 + pg) * 4096" by (simp add: kva_def)
    moreover have "((kbase div 4096 + pg) * 4096 + (4096 - k)) div 4096 = kbase div 4096 + pg" using assms(3,4) by (intro div_nat_eqI) auto
    ultimately show ?thesis by metis
  qed
  then show ?thesis using u by (simp add: unat_pg_round_down add_diff_eq)
qed

lemma thread_mem_heap:
  assumes inv: "thread_mem n s" and h: "heap_inv h" "caches h (thread_allocator s) \<noteq> None" "live (heap s) (thread_allocator s) \<subseteq> live h (thread_allocator s)"
    "\<And>pg. plain_page (heap s) pg \<Longrightarrow> plain_page h pg"
  shows "thread_mem n (s\<lparr>heap := h\<rparr>)"
proof -
  have "is_idle n (s\<lparr>heap := h\<rparr>) = is_idle n s" by (simp add: is_idle_def fun_eq_iff)
  then show ?thesis using inv h unfolding thread_mem_def by simp (metis (no_types, lifting) subsetD)
qed

lemma thread_create_ok:
  assumes mem: "thread_mem n s" and idl: "idl s c \<noteq> NULL"
  shows "(\<exists>h. thread_create s c bs st0 nam p pri = Some (NULL, s\<lparr>heap := h\<rparr>) \<and> thread_mem n (s\<lparr>heap := h\<rparr>))
    \<or> (\<exists>t h pg th. thread_create s c bs st0 nam p pri = Some (t, (set_thread t th s)\<lparr>heap := h, tid_allocator := tid_allocator s + 1,
            proc_threads := (if p \<noteq> NULL then (proc_threads s)(p := proc_threads s p @ [t]) else proc_threads s)\<rparr>)
        \<and> t \<noteq> NULL \<and> threads s t = None \<and> t_proc th = p \<and> thread_mem n (s\<lparr>heap := h\<rparr>) \<and> t \<in> live h (thread_allocator s)
        \<and> plain_page h pg \<and> \<not> plain_page (heap s) pg \<and> (\<forall>k. 0 < k \<longrightarrow> k \<le> 3920 \<longrightarrow> unat (pg_round_down (sched_ctx th - of_nat k)) = kva pg))"
proof -
  let ?a = "thread_allocator s"
  note i = mem [unfolded thread_mem_def]
  have hi: "heap_inv (heap s)" using i by simp
  obtain kc where kc: "caches (heap s) ?a = Some kc" using i by auto
  from kmem_cache_alloc_ok [OF hi kc] consider (none) "kmem_cache_alloc (heap s) ?a = Some (NULL, heap s)"
    | (obj) t h1 where "kmem_cache_alloc (heap s) ?a = Some (t, h1)" "t \<noteq> NULL" "heap_inv h1" "same_rest (heap s) h1" "t \<notin> live (heap s) ?a"
      "live h1 = (live (heap s))(?a := insert t (live (heap s) ?a))" by blast
  then show ?thesis
  proof cases
    case none
    then have "thread_create s c bs st0 nam p pri = Some (NULL, s\<lparr>heap := heap s\<rparr>)" by (simp add: thread_create_def)
    moreover have "thread_mem n (s\<lparr>heap := heap s\<rparr>)" using mem by simp
    ultimately show ?thesis by blast
  next
    case obj
    have m1: "thread_mem n (s\<lparr>heap := h1\<rparr>)"
      by (rule thread_mem_heap [OF mem obj(3)]) (use same_rest_cache [OF obj(4)] kc obj(6) same_rest_plain [OF obj(4)] in auto)
    have tn: "threads s t = None" using i obj(5) by auto
    from page_alloc_ok [OF obj(3)] consider (none) "pmem_alloc (kpm h1) = Some (ERR_NOMEM, None, kpm h1)"
      | (pg) pg m where "pmem_alloc (kpm h1) = Some (ERR_OK, Some (page_to_paddr pg), m)" "heap_inv (h1\<lparr>kpm := m\<rparr>)" "live (h1\<lparr>kpm := m\<rparr>) = live h1"
        "pg \<notin> allocated (kpm h1)" "plain_page (h1\<lparr>kpm := m\<rparr>) pg" "same_pages UNIV h1 (h1\<lparr>kpm := m\<rparr>)" "pg < n_pages (kpm h1)" by blast
    then show ?thesis
    proof cases
      case none
      then have "thread_create s c bs st0 nam p pri = Some (NULL, s\<lparr>heap := h1\<rparr>)"
        using obj(1,2) idl by (simp add: thread_create_def cpu_idle_thread_def)
      then show ?thesis using m1 by blast
    next
      case pg
      let ?h = "h1\<lparr>kpm := m\<rparr>" and ?f = "kmap_p2v (page_to_paddr pg) + pg_size - sizeof_trapframe"
      let ?th = "\<lparr>t_name = take (THREAD_NAME_LEN - 1) nam, t_priority = pri, t_tid = tid_allocator s + 1, t_state = st0, t_proc = p,
           sched_ctx = ?f, tf = ?f, ctx_rip = At_sched\<rparr>"
      have run: "thread_create s c bs st0 nam p pri = Some (t, (set_thread t ?th s)\<lparr>heap := ?h, tid_allocator := tid_allocator s + 1,
            proc_threads := (if p \<noteq> NULL then (proc_threads s)(p := proc_threads s p @ [t]) else proc_threads s)\<rparr>)"
        using obj(1,2) idl pg(1) by (simp add: thread_create_def cpu_idle_thread_def set_thread_def Let_def)
      have lt: "pg < 2 ^ 19" using heap_invD(2) [OF obj(3)] pg(7) by simp
      have fr: "unat (pg_round_down (sched_ctx ?th - of_nat k)) = kva pg" if "0 < k" "k \<le> 3920" for k
      proof -
        have "sched_ctx ?th - of_nat k = kmap_p2v (page_to_paddr pg) + pg_size - of_nat (176 + k)" by simp
        then show ?thesis using round_frame [OF kva_p2v [OF lt] lt, of "176 + k"] that by (simp only:)
      qed
      have sp: "plain_page h1 q \<Longrightarrow> plain_page ?h q" for q using pg(6) by (simp add: same_pages_def)
      have m2: "thread_mem n (s\<lparr>heap := ?h\<rparr>)"
        by (rule thread_mem_heap [OF mem pg(2)]) (use same_rest_cache [OF obj(4)] kc obj(6) same_rest_plain [OF obj(4)] sp pg(3) in auto)
      have np: "\<not> plain_page (heap s) pg" using same_rest_plain [OF obj(4), of pg] pg(4) by (auto simp: plain_page_def)
      have "t \<in> live ?h ?a" using pg(3) obj(6) by simp
      then show ?thesis using run obj(2) tn m2 pg(5) np fr by (intro disjI2 exI [of _ t] exI [of _ ?h] exI [of _ pg] exI [of _ ?th]) simp
    qed
  qed
qed

lemma thread_start_ok:
  fixes tid :: u32 and pt :: "ptr \<Rightarrow> ptr list"
  assumes inv: "sched_inv n s" and new: "t \<noteq> NULL" "threads s t = None" and th: "t_proc th \<noteq> NULL \<or> func \<noteq> NULL"
    and mem: "thread_mem n (s\<lparr>heap := h\<rparr>)" "t \<in> live h (thread_allocator s)" "plain_page h pg" "\<not> plain_page (heap s) pg" "thread_mem n s"
    and sp: "\<forall>k. 0 < k \<longrightarrow> k \<le> 3920 \<longrightarrow> unat (pg_round_down (sched_ctx th - of_nat k)) = kva pg"
  defines "s1 \<equiv> (set_thread t th s)\<lparr>heap := h, tid_allocator := tid, proc_threads := pt\<rparr>"
  shows "\<exists>s2. thread_start_context s1 t func aux = Some s2 \<and> sched_inv n s2 \<and> thread_mem n s2 \<and> ready_queue s2 = ready_queue s @ [t]
    \<and> cpus s2 = cpus s \<and> (\<exists>th'. threads s2 = (threads s)(t := Some th') \<and> ctx_rip th' \<noteq> At_sched)"
proof -
  let ?rip = "if t_proc th \<noteq> NULL then At_thread_start else At_kstart func aux"
  let ?th = "th\<lparr>sched_ctx := sched_ctx th - 8 - sizeof_context, ctx_rip := ?rip\<rparr>"
  define s2 where "s2 = (set_thread t (?th\<lparr>t_state := READY\<rparr>) s)\<lparr>heap := h, tid_allocator := tid, proc_threads := pt, ready_queue := ready_queue s @ [t]\<rparr>"
  have run: "thread_start_context s1 t func aux = Some s2"
    using new(1) th by (auto simp: thread_start_context_def s1_def s2_def set_thread_def sched_ready_def)
  have ni: "\<not> is_idle n s t" using inv new(2) by (auto simp: sched_inv_def sch_def is_idle_def)
  have "sched_inv n (set_thread t (?th\<lparr>t_state := SLEEPING\<rparr>) s)" by (rule add_thread_inv [OF inv new(2)]) simp
  from sched_ready_inv [OF this, of t "?th\<lparr>t_state := SLEEPING\<rparr>"] ni new(1)
  have "sched_inv n ((set_thread t (?th\<lparr>t_state := READY\<rparr>) s)\<lparr>ready_queue := ready_queue s @ [t]\<rparr>)"
    by (simp add: sched_ready_def set_thread_def is_idle_def)
  then have i2: "sched_inv n s2" by (rule sched_inv_cong [THEN iffD2, rotated -1]) (simp_all add: s2_def set_thread_def)
  note m = mem(1) [unfolded thread_mem_def, simplified] and m0 = mem(5) [unfolded thread_mem_def]
  have ii: "is_idle n (s\<lparr>heap := h\<rparr>) = is_idle n s" "is_idle n s2 = is_idle n s" by (auto simp: is_idle_def s2_def set_thread_def)
  have st: "unat (stack_of ?th) = kva pg" using sp [rule_format, of 72] by (simp add: stack_of_def)
  have old: "\<exists>q. unat (stack_of uh) = kva q \<and> plain_page h q \<and> q \<noteq> pg" if u: "threads s u = Some uh" "\<not> is_idle n s u" for u uh
  proof -
    obtain q where q: "unat (stack_of uh) = kva q" "plain_page (heap s) q" using m0 u by blast
    have "\<exists>q. unat (stack_of uh) = kva q \<and> plain_page h q" using m u unfolding ii(1) by blast
    then obtain q' where q': "unat (stack_of uh) = kva q'" "plain_page h q'" by blast
    have "q' = q" using q(1) q'(1) kva_inj by simp
    then show ?thesis using q q' mem(4) by blast
  qed
  have e: "threads s2 = (threads s)(t := Some (?th\<lparr>t_state := READY\<rparr>))" "heap s2 = h" "thread_allocator s2 = thread_allocator s" by (simp_all add: s2_def set_thread_def)
  have sr: "stack_of (?th\<lparr>t_state := READY\<rparr>) = stack_of ?th" by (simp add: stack_of_def)
  have dist: "stack_of uh \<noteq> stack_of ?th" if u: "threads s u = Some uh" "\<not> is_idle n s u" for u uh
  proof -
    obtain q where q: "unat (stack_of uh) = kva q" "q \<noteq> pg" using old [OF u] by blast
    have "kva q \<noteq> kva pg" using q(2) kva_inj by blast
    then show ?thesis using q(1) st by metis
  qed
  have "thread_mem n s2"
    unfolding thread_mem_def e(2,3) ii
  proof (intro conjI allI impI)
    show "heap_inv h" "caches h (thread_allocator s) \<noteq> None" using m by auto
    show "u \<in> live h (thread_allocator s)" if "threads s2 u \<noteq> None" for u using that m mem(2) by (cases "u = t") (auto simp: e)
    show "\<exists>q. unat (stack_of uh) = kva q \<and> plain_page h q" if "threads s2 u = Some uh" "\<not> is_idle n s u" for u uh
      using that old [of u uh] st mem(3) sr by (cases "u = t") (auto simp: e)
    show "stack_of wh \<noteq> stack_of uh" if "threads s2 u = Some uh" "\<not> is_idle n s u" "threads s2 w = Some wh" "\<not> is_idle n s w" "w \<noteq> u" for u uh w wh
    proof -
      consider "u = t" | "w = t" | "u \<noteq> t" "w \<noteq> t" by blast
      then show ?thesis
      proof cases
        case 1
        then show ?thesis using that dist [of w wh] sr by (auto simp: e)
      next
        case 2
        then show ?thesis using that dist [of u uh] sr by (auto simp: e)
      next
        case 3
        then have "threads s u = Some uh" "threads s w = Some wh" using that by (auto simp: e)
        then show ?thesis using m0 that by blast
      qed
    qed
  qed
  then show ?thesis using run i2 by (intro exI [of _ s2]) (auto simp: s2_def set_thread_def)
qed

section \<open>All interleavings\<close>

text \<open>The steps of the threads on \<open>n\<close> CPUs: a preemption, going to sleep, exiting, waking a sleeping thread and starting a new
  one, whose creation and start are a single step.  Only a thread that is not an idle thread sleeps or exits, and a saved stack pointer lies in the stack of the thread.\<close>

inductive sched_step :: "nat \<Rightarrow> sched_sys \<Rightarrow> sched_sys \<Rightarrow> bool" for n where
  Preempt: "c < n \<Longrightarrow> pg_round_down sp = stack_of (the (threads s (run s c))) \<Longrightarrow> timer_trap_handler (k, s) c sp = Some (k', s') \<Longrightarrow> sched_step n s s'"
| Sleep: "c < n \<Longrightarrow> pg_round_down sp = stack_of (the (threads s (run s c))) \<Longrightarrow> run s c \<noteq> idl s c \<Longrightarrow>
    sched_sched s c sp SLEEPING = Some s' \<Longrightarrow> sched_step n s s'"
| Exit: "c < n \<Longrightarrow> pg_round_down sp = stack_of (the (threads s (run s c))) \<Longrightarrow> run s c \<noteq> idl s c \<Longrightarrow> thread_exit s c sp = Some s' \<Longrightarrow> sched_step n s s'"
| Wake: "in_state s SLEEPING t \<Longrightarrow> \<not> is_idle n s t \<Longrightarrow> t \<noteq> NULL \<Longrightarrow> sched_ready s t = Some s' \<Longrightarrow> sched_step n s s'"
| Start: "c < n \<Longrightarrow> p \<noteq> NULL \<or> func \<noteq> NULL \<Longrightarrow> thread_create s c bs st0 nam p pri = Some (t, s1) \<Longrightarrow> t \<noteq> NULL \<Longrightarrow>
    thread_start_context s1 t func aux = Some s' \<Longrightarrow> sched_step n s s'"

inductive sched_reach :: "nat \<Rightarrow> sched_sys \<Rightarrow> sched_sys \<Rightarrow> bool" for n where
  Refl: "sched_reach n s s"
| Step: "sched_reach n s s' \<Longrightarrow> sched_step n s' s'' \<Longrightarrow> sched_reach n s s''"

lemma start_ok:
  assumes inv: "sched_inv n s" "thread_mem n s" and c: "c < n" "p \<noteq> NULL \<or> func \<noteq> NULL"
    and t: "thread_create s c bs st0 nam p pri = Some (t, s1)" "t \<noteq> NULL"
  shows "\<exists>s2. thread_start_context s1 t func aux = Some s2 \<and> sched_inv n s2 \<and> thread_mem n s2 \<and> ready_queue s2 = ready_queue s @ [t]
    \<and> cpus s2 = cpus s \<and> (\<exists>th'. threads s2 = (threads s)(t := Some th') \<and> ctx_rip th' \<noteq> At_sched)"
proof -
  have "idl s c \<noteq> NULL" using inv(1) c by (simp add: sched_inv_def sch_def)
  from thread_create_ok [OF inv(2) this, of bs st0 nam p pri] t obtain h pg th where
    s1: "s1 = (set_thread t th s)\<lparr>heap := h, tid_allocator := tid_allocator s + 1,
            proc_threads := (if p \<noteq> NULL then (proc_threads s)(p := proc_threads s p @ [t]) else proc_threads s)\<rparr>"
      "threads s t = None" "t_proc th = p" "thread_mem n (s\<lparr>heap := h\<rparr>)" "t \<in> live h (thread_allocator s)" "plain_page h pg" "\<not> plain_page (heap s) pg"
      "\<forall>k. 0 < k \<longrightarrow> k \<le> 3920 \<longrightarrow> unat (pg_round_down (sched_ctx th - of_nat k)) = kva pg"
    by auto
  have pf: "t_proc th \<noteq> NULL \<or> func \<noteq> NULL" using c(2) s1(3) by simp
  show ?thesis unfolding s1(1) by (rule thread_start_ok [OF inv(1) t(2) s1(2) pf s1(4-7) inv(2) s1(8)])
qed

lemma sched_step_inv:
  assumes "sched_step n s s'" "sched_inv n s" "thread_mem n s"
  shows "sched_inv n s' \<and> thread_mem n s'"
  using assms
proof (cases rule: sched_step.cases)
  case (Preempt c sp k k')
  have "\<exists>ch. threads s (run s c) = Some ch" using assms(2) Preempt(1) by (simp add: sched_inv_def sch_def)
  then obtain ch where ch: "threads s (run s c) = Some ch" ..
  from sched_sched_ok [OF assms(2,3) Preempt(1) ch, of sp READY] Preempt(2,3) ch show ?thesis
    by (auto simp: timer_trap_handler_def)
next
  case (Sleep c sp)
  have "\<exists>ch. threads s (run s c) = Some ch" using assms(2) Sleep(1) by (simp add: sched_inv_def sch_def)
  then obtain ch where ch: "threads s (run s c) = Some ch" ..
  from sched_sched_ok [OF assms(2,3) Sleep(1) ch, of sp SLEEPING] Sleep ch show ?thesis by auto
next
  case (Exit c sp)
  have "\<exists>ch. threads s (run s c) = Some ch" using assms(2) Exit(1) by (simp add: sched_inv_def sch_def)
  then obtain ch where ch: "threads s (run s c) = Some ch" ..
  from sched_sched_ok [OF assms(2,3) Exit(1) ch, of sp ZOMBIE] Exit ch show ?thesis by (auto simp: thread_exit_def)
next
  case (Wake t)
  then obtain th where th: "threads s t = Some th" "t_state th = SLEEPING" by (auto simp: in_state_def)
  then have "sched_inv n s'" using sched_ready_inv [OF assms(2) th(1)] Wake by auto
  moreover have "thread_mem n s'"
    by (rule thread_mem_upd [OF assms(3)]) (use Wake(4) th Wake(3) in \<open>auto simp: sched_ready_def set_thread_def is_idle_def stack_of_def split: if_splits\<close>)
  ultimately show ?thesis by simp
next
  case (Start c p func bs st0 nam pri t s1 aux)
  then show ?thesis using start_ok [OF assms(2,3) Start(1,2,3,4), of aux] by auto
qed

lemma sched_reach_inv:
  "sched_reach n s s' \<Longrightarrow> sched_inv n s \<Longrightarrow> thread_mem n s \<Longrightarrow> sched_inv n s' \<and> thread_mem n s'"
  by (induction rule: sched_reach.induct) (use sched_step_inv in auto)

lemma zombie_stays:
  assumes "sched_step n s s'" "sched_inv n s" "thread_mem n s" "in_state s ZOMBIE d" "\<not> is_idle n s d"
  shows "in_state s' ZOMBIE d \<and> \<not> is_idle n s' d"
  using assms(1)
proof (cases rule: sched_step.cases)
  case (Preempt c sp k k')
  have "\<exists>ch. threads s (run s c) = Some ch" using assms(2) Preempt(1) by (simp add: sched_inv_def sch_def)
  then obtain ch where ch: "threads s (run s c) = Some ch" ..
  from sched_sched_ok [OF assms(2,3) Preempt(1) ch, of sp READY] Preempt(2,3) ch assms(4,5) show ?thesis
    by (auto simp: timer_trap_handler_def)
next
  case (Sleep c sp)
  have "\<exists>ch. threads s (run s c) = Some ch" using assms(2) Sleep(1) by (simp add: sched_inv_def sch_def)
  then obtain ch where ch: "threads s (run s c) = Some ch" ..
  from sched_sched_ok [OF assms(2,3) Sleep(1) ch, of sp SLEEPING] Sleep ch assms(4,5) show ?thesis by auto
next
  case (Exit c sp)
  have "\<exists>ch. threads s (run s c) = Some ch" using assms(2) Exit(1) by (simp add: sched_inv_def sch_def)
  then obtain ch where ch: "threads s (run s c) = Some ch" ..
  from sched_sched_ok [OF assms(2,3) Exit(1) ch, of sp ZOMBIE] Exit ch assms(4,5) show ?thesis by (auto simp: thread_exit_def)
next
  case (Wake t)
  then have "t \<noteq> d" using assms(4) in_state_unique by blast
  then show ?thesis using Wake(4) assms(4,5) by (auto simp: sched_ready_def set_thread_def in_state_def is_idle_def split: if_splits bind_splits)
next
  case (Start c p func bs st0 nam pri t s1 aux)
  from start_ok [OF assms(2,3) Start(1,2,3,4), of aux] Start(5) obtain th' where e: "cpus s' = cpus s" "threads s' = (threads s)(t := Some th')" by auto
  have "idl s c \<noteq> NULL" using assms(2) Start(1) by (simp add: sched_inv_def sch_def)
  from thread_create_ok [OF assms(3) this, of bs st0 nam p pri] Start(3,4) have "threads s t = None" by auto
  then show ?thesis using assms(4,5) e by (auto simp: in_state_def is_idle_def)
qed

lemma zombie_forever:
  "sched_reach n s s' \<Longrightarrow> sched_inv n s \<Longrightarrow> thread_mem n s \<Longrightarrow> in_state s ZOMBIE d \<Longrightarrow> \<not> is_idle n s d \<Longrightarrow> in_state s' ZOMBIE d \<and> \<not> is_idle n s' d"
proof (induction rule: sched_reach.induct)
  case (Step s s' s'')
  then show ?case using zombie_stays [OF Step.hyps(2)] sched_reach_inv [OF Step.hyps(1)] by blast
qed auto

section \<open>Properties\<close>

text \<open>C27. For every interleaving of preemptions, sleeps, exits, wake-ups and thread starts on \<open>n\<close> CPUs, a thread runs on at most one
  CPU, a thread in the ready queue is in it once, is ready and runs nowhere, every ready thread that is not an idle thread
  is in the queue, so that none is lost, an idle thread runs only on its own CPU, and every CPU has the address space of
  the thread it runs.\<close>

theorem scheduler_safe:
  assumes "sched_inv n s" "thread_mem n s" "sched_reach n s s'"
  shows "inj_on (\<lambda>c. running (cpus s' c)) {..<n} \<and> distinct (ready_queue s')
    \<and> (\<forall>t \<in> set (ready_queue s'). in_state s' READY t \<and> (\<forall>c < n. running (cpus s' c) \<noteq> t))
    \<and> (\<forall>t. in_state s' READY t \<longrightarrow> t \<in> set (ready_queue s') \<or> is_idle n s' t)
    \<and> (\<forall>c < n. \<forall>d < n. running (cpus s' c) = idle_thread (cpus s' d) \<longrightarrow> d = c)
    \<and> (\<forall>c < n. \<exists>th. threads s' (running (cpus s' c)) = Some th \<and> t_state th = RUNNING \<and> loaded_as (cpus s' c) = t_proc th)"
proof -
  have "sched_inv n s'" using sched_reach_inv [OF assms(3,1,2)] by simp
  note i = this [unfolded sched_inv_def sch_def]
  have r: "in_state s' RUNNING (run s' c)" if "c < n" for c using i that by simp
  have "run s' c \<noteq> t" if "t \<in> set (ready_queue s')" "c < n" for t c
  proof
    assume "run s' c = t"
    moreover have "in_state s' READY t" using i that(1) by simp
    ultimately show False using r [OF that(2)] in_state_unique by blast
  qed
  moreover have "\<exists>th. threads s' (run s' c) = Some th \<and> t_state th = RUNNING \<and> loaded_as (cpus s' c) = t_proc th" if "c < n" for c
  proof -
    have "loaded_as (cpus s' c) = t_proc (the (threads s' (run s' c)))" using i that by simp
    then show ?thesis using r [OF that] by (auto simp: in_state_def)
  qed
  ultimately show ?thesis using i by auto
qed

text \<open>One CPU that runs its idle thread; the thread structure is the first object of the cache of the small heap.\<close>

definition idle_sys :: "ptr \<Rightarrow> kheap \<Rightarrow> sched_sys" where
  "idle_sys t h = \<lparr>threads = [t \<mapsto> \<lparr>t_name = ''idle thread'', t_priority = 10, t_tid = 1, t_state = RUNNING, t_proc = NULL,
      sched_ctx = 0x1000, tf = 0x1000, ctx_rip = At_sched\<rparr>], ready_queue = [],
     cpus = (\<lambda>_. \<lparr>idle_thread = t, cpu_thread = NULL, running = t, loaded_as = NULL\<rparr>), tid_allocator = 1, heap = h,
     thread_allocator = 10, proc_threads = (\<lambda>_. [])\<rparr>"

lemma idle_sys_inv:
  "\<exists>t h. kmem_cache_alloc small_heap 10 = Some (t, h) \<and> sched_inv 1 (idle_sys t h) \<and> thread_mem 1 (idle_sys t h)"
proof -
  obtain t h where h: "kmem_cache_alloc small_heap 10 = Some (t, h)" "t \<noteq> NULL" "heap_inv h" "same_rest small_heap h"
    "live h = (live small_heap)(10 := insert t (live small_heap 10))"
    using kmem_cache_alloc_ok [OF small_heap_inv(1,3)] small_heap_inv(2) by (auto simp: small_cache_def)
  have "sched_inv 1 (idle_sys t h)" using h(2) by (auto simp: sched_inv_def sch_def idle_sys_def in_state_def is_idle_def inj_on_def split: if_splits)
  moreover have "caches h 10 \<noteq> None" using same_rest_cache [OF h(4)] small_heap_inv(3) by simp
  then have "thread_mem 1 (idle_sys t h)" using h(3,5) by (auto simp: thread_mem_def idle_sys_def is_idle_def split: if_splits)
  ultimately show ?thesis using h(1) by blast
qed

lemma scheduler_safe_witness:
  "\<exists>t h. sched_inv 1 (idle_sys t h) \<and> thread_mem 1 (idle_sys t h) \<and> sched_step 1 (idle_sys t h) (idle_sys t h)
    \<and> inj_on (\<lambda>c. running (cpus (idle_sys t h) c)) {..<1} \<and> distinct (ready_queue (idle_sys t h))"
proof -
  obtain t h where h: "sched_inv 1 (idle_sys t h)" "thread_mem 1 (idle_sys t h)" using idle_sys_inv by blast
  have "sched_step 1 (idle_sys t h) (idle_sys t h)"
    by (rule Preempt [where c = 0 and sp = "0x1000" and k = 0 and k' = 1])
      (simp_all add: idle_sys_def stack_of_def timer_trap_handler_def sched_sched_def Let_def)
  moreover from this have "sched_reach 1 (idle_sys t h) (idle_sys t h)" by (rule Step [OF Refl])
  ultimately show ?thesis using scheduler_safe [OF h] h by blast
qed

text \<open>C28. In every reachable state a timer interrupt on any CPU, and a sleep or an exit of a thread that is not an idle thread, returns: no assertion
  of the scheduler, of the heap or of the page allocator fails on the way, also when the dead predecessor is cleaned
  up.\<close>

theorem scheduler_never_stuck:
  assumes "sched_inv n s" "thread_mem n s" "sched_reach n s s'" "c < n" "pg_round_down sp = stack_of (the (threads s' (running (cpus s' c))))"
  shows "timer_trap_handler (k, s') c sp \<noteq> None
    \<and> (running (cpus s' c) \<noteq> idle_thread (cpus s' c) \<longrightarrow> sched_sched s' c sp SLEEPING \<noteq> None \<and> thread_exit s' c sp \<noteq> None)"
proof -
  have i: "sched_inv n s'" "thread_mem n s'" using sched_reach_inv [OF assms(3,1,2)] by auto
  have "\<exists>ch. threads s' (run s' c) = Some ch" using i(1) assms(4) by (simp add: sched_inv_def sch_def)
  then obtain ch where ch: "threads s' (run s' c) = Some ch" ..
  note ok = sched_sched_ok [OF i assms(4) ch, of sp]
  show ?thesis using ok [of READY] ok [of SLEEPING] ok [of ZOMBIE] assms(5) ch by (auto simp: timer_trap_handler_def thread_exit_def)
qed

lemma scheduler_never_stuck_witness:
  "\<exists>t h. timer_trap_handler (0, idle_sys t h) 0 0x1000 \<noteq> None"
proof -
  obtain t h where h: "sched_inv 1 (idle_sys t h)" "thread_mem 1 (idle_sys t h)" using idle_sys_inv by blast
  have "pg_round_down 0x1000 = stack_of (the (threads (idle_sys t h) (running (cpus (idle_sys t h) 0))))" by (simp add: idle_sys_def stack_of_def)
  then show ?thesis using scheduler_never_stuck [OF h Refl, of 0 "0x1000" 0] by auto
qed

text \<open>A thread whose successor on the CPU is new is never cleaned up: the new thread starts in \<open>thread_start\<close>, which does not
  look at its predecessor, and no later step of any interleaving removes the dead thread or returns its stack and structure.\<close>

theorem dead_thread_leaks:
  assumes inv: "sched_inv n s" "thread_mem n s" and c: "c < n" "running (cpus s c) \<noteq> idle_thread (cpus s c)"
    and sp: "pg_round_down sp = stack_of (the (threads s (running (cpus s c))))"
    and q: "ready_queue s = t # ts" "threads s t = Some th" "ctx_rip th \<noteq> At_sched"
  shows "\<exists>s'. thread_exit s c sp = Some s' \<and> heap s' = heap s
    \<and> (\<forall>s''. sched_reach n s' s'' \<longrightarrow> in_state s'' ZOMBIE (running (cpus s c)) \<and> running (cpus s c) \<in> live (heap s'') (thread_allocator s''))"
proof -
  let ?r = "run s c"
  note i = inv(1) [unfolded sched_inv_def sch_def]
  obtain ch where ch: "threads s ?r = Some ch" using i c(1) by auto
  obtain s' where s': "sched_sched s c sp ZOMBIE = Some s'" "sched_inv n s'" "thread_mem n s'" "is_idle n s' = is_idle n s"
    using sched_sched_ok [OF inv c(1) ch, of sp ZOMBIE] sp ch c(2) by auto
  have rt: "?r \<noteq> t"
  proof
    assume "?r = t"
    moreover have "in_state s READY t" "in_state s RUNNING ?r" using i q(1) c(1) by auto
    ultimately show False using in_state_unique by blast
  qed
  define s1 where "s1 = set_thread ?r (ch\<lparr>t_state := ZOMBIE\<rparr>) s"
  have l: "sch n ({..<n} - {c}) s1" unfolding s1_def using leave_inv [OF inv(1) c(1) ch, of ZOMBIE] c(2) by simp
  have e1: "threads s1 = (threads s)(?r := Some (ch\<lparr>t_state := ZOMBIE\<rparr>))" "cpus s1 = cpus s" "ready_queue s1 = t # ts" "heap s1 = heap s"
    by (simp_all add: s1_def set_thread_def q(1))
  from sched_ok [OF l c(1), of "ch\<lparr>t_state := ZOMBIE\<rparr>" sp] e1 rt obtain s2 where
    s2: "sched s1 c sp = Some (t, Some ?r, s2)" "heap s2 = heap s" "threads s2 ?r = Some (ch\<lparr>t_state := ZOMBIE, sched_ctx := sp, ctx_rip := At_sched\<rparr>)"
    by auto
  have "sched_sched s c sp ZOMBIE = Some s2"
    unfolding sched_sched_def thread_current_def Let_def using ch s2(1) e1(1,3) q(2,3) rt by (simp add: s1_def [symmetric])
  then have e: "heap s' = heap s" "in_state s' ZOMBIE ?r" using s'(1) s2(2,3) by (auto simp: in_state_def)
  have "\<forall>d < n. idl s d = ?r \<longrightarrow> d = c" using i c(1) by blast
  then have ni: "\<not> is_idle n s' ?r" using c(2) unfolding s'(4) by (auto simp: is_idle_def)
  have "in_state s'' ZOMBIE ?r \<and> ?r \<in> live (heap s'') (thread_allocator s'')" if "sched_reach n s' s''" for s''
    using zombie_forever [OF that s'(2,3) e(2) ni] sched_reach_inv [OF that s'(2,3)] by (auto simp: thread_mem_def in_state_def)
  then show ?thesis using s'(1) e(1) by (auto simp: thread_exit_def)
qed

text \<open>One CPU, three threads in the slab at page 2: the idle thread, a running thread with its stack in page 4, and a new thread with
  its stack in page 5.\<close>

definition leak_obj :: "nat \<Rightarrow> ptr" where
  "leak_obj k = kva 2 + sizeof_slab + sizeof_int * slab_objs 16 + 16 * k"

definition leak_slab :: slab_t where
  "leak_slab = \<lparr>objs = leak_obj 0, free = 3, sl_pages = slab_pages 16,
     freearr = map (\<lambda>i. int (i + 1)) [0..<slab_objs 16 - 1] @ [- 1]\<rparr>"

definition leak_pm :: pmem where
  "leak_pm = link_pages (slab_pages 16) (page_to_paddr 2) 10 (kva 2) full_pmem"

definition leak_heap :: kheap where
  "leak_heap = small_heap\<lparr>kpm := leak_pm, slabs := [kva 2 \<mapsto> leak_slab],
     caches := [10 \<mapsto> \<lparr>full_slabs = [], free_slabs = [kva 2], obj_size = 16\<rparr>]\<rparr>"

definition leak_thread :: "threadstate_t \<Rightarrow> nat \<Rightarrow> context_rip \<Rightarrow> thread" where
  "leak_thread st pg rip = \<lparr>t_name = ''t'', t_priority = 10, t_tid = 1, t_state = st, t_proc = NULL,
     sched_ctx = of_nat (kva pg) + pg_size - of_nat 2048, tf = of_nat (kva pg) + pg_size - of_nat 2048, ctx_rip = rip\<rparr>"

definition leak_sys :: sched_sys where
  "leak_sys = \<lparr>threads = [leak_obj 0 \<mapsto> leak_thread READY 3 At_sched, leak_obj 1 \<mapsto> leak_thread RUNNING 4 At_sched,
      leak_obj 2 \<mapsto> leak_thread READY 5 (At_kstart 7 0)], ready_queue = [leak_obj 2],
     cpus = (\<lambda>_. \<lparr>idle_thread = leak_obj 0, cpu_thread = NULL, running = leak_obj 1, loaded_as = NULL\<rparr>), tid_allocator = 3,
     heap = leak_heap, thread_allocator = 10, proc_threads = (\<lambda>_. [])\<rparr>"

lemma leak_obj_eq: "leak_obj i = leak_obj j \<longleftrightarrow> i = j" "leak_obj i \<noteq> NULL"
  by (simp_all add: leak_obj_def)

lemma leak_slab_wf: "slab_wf 16 (kva 2) leak_slab" "free_slots leak_slab = [3..<slab_objs 16]"
proof -
  have n: "3 < slab_objs 16" using slab_size(1) [of 16] by simp
  then have "chain (freearr leak_slab) (free leak_slab) [3..<slab_objs 16]" using chain_from [of 3 "slab_objs 16"] by (simp add: leak_slab_def)
  then show "slab_wf 16 (kva 2) leak_slab" "free_slots leak_slab = [3..<slab_objs 16]"
    by (rule slab_wf_intro [rotated 3]; use n in \<open>simp add: leak_slab_def leak_obj_def\<close>)+
qed

lemma leak_live: "live leak_heap 10 = {leak_obj 0, leak_obj 1, leak_obj 2}"
proof -
  have n: "3 < slab_objs 16" using slab_size(1) [of 16] by simp
  have "k < slab_objs 16 \<and> k \<notin> set [3..<slab_objs 16] \<longleftrightarrow> k = 0 \<or> k = 1 \<or> k = 2" for k using n by auto
  moreover have "length (freearr leak_slab) = slab_objs 16" using leak_slab_wf(1) by (simp add: slab_wf_def)
  ultimately have "live_in 16 leak_slab = {objs leak_slab + 16 * k | k. k = 0 \<or> k = 1 \<or> k = 2}"
    unfolding live_in_def leak_slab_wf(2) by simp
  also have "\<dots> = {leak_obj 0, leak_obj 1, leak_obj 2}" by (auto simp: leak_slab_def leak_obj_def)
  finally show ?thesis by (simp add: live_def leak_heap_def slabs_of_def)
qed

lemma leak_pm_facts: "n_pages leak_pm = 8" "allocated leak_pm = {0..<8}" "pmem_inv leak_pm" "od leak_pm i = 0"
  "links leak_pm i = (if i = 2 then (10, kva 2) else (NULL, NULL))"
proof -
  show "n_pages leak_pm = 8" "allocated leak_pm = {0..<8}" "pmem_inv leak_pm" "od leak_pm i = 0"
    using full_pmem_inv by (simp_all add: leak_pm_def) (simp_all add: full_pmem_def zero_page_def)
  have s: "slab_pages 16 = 1" by (simp add: slab_pages_def)
  show "links leak_pm i = (if i = 2 then (10, kva 2) else (NULL, NULL))"
    unfolding leak_pm_def by (subst link_pages_links) (auto simp: s links_def full_pmem_def zero_page_def)
qed

lemma leak_heap_inv: "heap_inv leak_heap"
proof -
  have s: "slab_pages 16 = 1" by (simp add: slab_pages_def)
  have k: "kpm leak_heap = leak_pm" "slabs leak_heap (kva 2) = Some leak_slab" by (simp_all add: leak_heap_def)
  have "slab_at leak_heap 10 16 (kva 2)"
    unfolding slab_at_def k by (intro exI [of _ 2] exI [of _ leak_slab]) (use leak_pm_facts leak_slab_wf(1) s in auto)
  moreover have "free_slots leak_slab \<noteq> []" using slab_size(1) [of 16] by (simp add: leak_slab_wf(2))
  ultimately show ?thesis unfolding heap_inv_def k using leak_pm_facts s by (auto simp: leak_heap_def cache_inv_def slabs_of_def split: if_splits)
qed

lemma leak_stack: "pg < 2 ^ 19 \<Longrightarrow> unat (stack_of (leak_thread st pg rip)) = kva pg"
proof -
  assume pg: "pg < 2 ^ 19"
  have "kva pg < 2 ^ 64" using pg by (simp add: kva_def)
  then have "unat (of_nat (kva pg) :: u64) = kva pg" by (simp only: unat_of_nat) simp
  from round_frame [OF this pg, of 2048] show ?thesis unfolding stack_of_def leak_thread_def by simp
qed

lemma leak_sys_inv: "sched_inv 1 leak_sys" "thread_mem 1 leak_sys"
proof -
  show "sched_inv 1 leak_sys"
    by (auto simp: sched_inv_def sch_def leak_sys_def in_state_def is_idle_def inj_on_def leak_thread_def leak_obj_eq split: if_splits)
  have i: "is_idle 1 leak_sys t \<longleftrightarrow> t = leak_obj 0" for t by (auto simp: is_idle_def leak_sys_def)
  have t: "t = leak_obj 1 \<and> th = leak_thread RUNNING 4 At_sched \<or> t = leak_obj 2 \<and> th = leak_thread READY 5 (At_kstart 7 0)"
    if "threads leak_sys t = Some th" "t \<noteq> leak_obj 0" for t th using that by (auto simp: leak_sys_def split: if_splits)
  have st: "unat (stack_of (leak_thread RUNNING 4 At_sched)) = kva 4" "unat (stack_of (leak_thread READY 5 (At_kstart 7 0))) = kva 5"
    by (rule leak_stack; simp)+
  then have ne: "stack_of (leak_thread RUNNING 4 At_sched) \<noteq> stack_of (leak_thread READY 5 (At_kstart 7 0))" by (auto simp: kva_def)
  have pl: "plain_page leak_heap 4" "plain_page leak_heap 5" using leak_pm_facts by (auto simp: plain_page_def leak_heap_def)
  have h: "heap leak_sys = leak_heap" "thread_allocator leak_sys = 10" by (simp_all add: leak_sys_def)
  show "thread_mem 1 leak_sys"
    unfolding thread_mem_def h i leak_live
  proof (intro conjI allI impI)
    show "heap_inv leak_heap" "caches leak_heap 10 \<noteq> None" using leak_heap_inv by (auto simp: leak_heap_def)
    show "t \<in> {leak_obj 0, leak_obj 1, leak_obj 2}" if "threads leak_sys t \<noteq> None" for t using that by (auto simp: leak_sys_def split: if_splits)
    show "\<exists>pg. unat (stack_of th) = kva pg \<and> plain_page leak_heap pg" if "threads leak_sys t = Some th" "t \<noteq> leak_obj 0" for t th
      using t [OF that] st pl by blast
    show "stack_of uh \<noteq> stack_of th" if "threads leak_sys t = Some th" "t \<noteq> leak_obj 0" "threads leak_sys u = Some uh" "u \<noteq> leak_obj 0" "u \<noteq> t" for t th u uh
      using t [OF that(1,2)] t [OF that(3,4)] that(5) ne by auto
  qed
qed

lemma dead_thread_leaks_witness:
  "\<exists>s'. thread_exit leak_sys 0 (of_nat (kva 4) + 2048) = Some s' \<and> heap s' = heap leak_sys
    \<and> (\<forall>s''. sched_reach 1 s' s'' \<longrightarrow> in_state s'' ZOMBIE (leak_obj 1) \<and> leak_obj 1 \<in> live (heap s'') (thread_allocator s''))"
proof -
  have r: "running (cpus leak_sys 0) = leak_obj 1" "idle_thread (cpus leak_sys 0) = leak_obj 0" "ready_queue leak_sys = [leak_obj 2]"
    "threads leak_sys (leak_obj 1) = Some (leak_thread RUNNING 4 At_sched)" "threads leak_sys (leak_obj 2) = Some (leak_thread READY 5 (At_kstart 7 0))"
    by (simp_all add: leak_sys_def leak_obj_eq)
  have sp: "pg_round_down (of_nat (kva 4) + 2048) = stack_of (the (threads leak_sys (running (cpus leak_sys 0))))"
    unfolding r by (simp add: stack_of_def leak_thread_def pg_size_def algebra_simps)
  show ?thesis using dead_thread_leaks [OF leak_sys_inv _ _ sp r(3,5)] by (simp add: r leak_obj_eq leak_thread_def)
qed

end
