(* ===== verification/Bdev.thy ===== *)
theory Bdev
  imports Cstring
begin

text \<open>
  Block devices: \<^verbatim>\<open>kernel/bdev.c\<close> with the backing store of \<^verbatim>\<open>kernel/bdevms.c\<close>.  Blocks of a device are cached in pages of
  eight blocks, each with a header that carries the lock, the reference count and the state of the block.  The detailed model has the page cache, the
  headers and the device; the abstract one, on which the file system is built, is a block store with pinned blocks and held locks.
  The lemmas show that the cache implements the store.  The device itself is the function \<open>disk\<close>, what the driver reads and writes.
\<close>

section \<open>State\<close>

type_synonym blk_t = u32

abbreviation (input) BDEV_BLK_SIZE :: nat where "BDEV_BLK_SIZE \<equiv> 512"
abbreviation (input) N_BLKS_PER_PAGE :: nat where "N_BLKS_PER_PAGE \<equiv> 8"
abbreviation (input) BLK_HEADER_VALID :: nat where "BLK_HEADER_VALID \<equiv> 0"
abbreviation (input) BLK_HEADER_DIRTY :: nat where "BLK_HEADER_DIRTY \<equiv> 1"

text \<open>The data pointer of a header is a page of the cache and an offset in it.\<close>

record blk_header =
  bh_blk :: blk_t
  bh_page :: nat
  bh_data :: nat
  bh_state :: state_t
  bh_ref :: u32
  bh_locked :: bool

record bpage =
  pg_data :: "u8 list"
  pg_dirty :: bool
  blk_headers :: "ptr list"

record bdev_sys =
  bpages :: "nat \<Rightarrow> bpage option"
  bhs :: "ptr \<Rightarrow> blk_header option"
  disk :: "blk_t \<Rightarrow> u8 list"

definition set_bh :: "ptr \<Rightarrow> blk_header \<Rightarrow> bdev_sys \<Rightarrow> bdev_sys" where
  "set_bh p b s = s\<lparr>bhs := (bhs s)(p := Some b)\<rparr>"

definition set_page :: "nat \<Rightarrow> bpage \<Rightarrow> bdev_sys \<Rightarrow> bdev_sys" where
  "set_page i pg s = s\<lparr>bpages := (bpages s)(i := Some pg)\<rparr>"

section \<open>Block headers\<close>

text \<open>The first block of the page a block belongs to.\<close>

definition FIRST_BLK_IN_PAGE :: "blk_t \<Rightarrow> blk_t" where
  "FIRST_BLK_IN_PAGE blk = blk div 8 * 8"

definition bdev_is_blk_valid :: "blk_header \<Rightarrow> bool" where
  "bdev_is_blk_valid b = get_state_bit (bh_state b) BLK_HEADER_VALID"

definition bdev_set_blk_valid :: "blk_header \<Rightarrow> bool \<Rightarrow> blk_header" where
  "bdev_set_blk_valid b v = b\<lparr>bh_state := set_state_bit (bh_state b) BLK_HEADER_VALID v\<rparr>"

definition bdev_is_blk_dirty :: "blk_header \<Rightarrow> bool" where
  "bdev_is_blk_dirty b = get_state_bit (bh_state b) BLK_HEADER_DIRTY"

definition bdev_set_blk_dirty :: "bdev_sys \<Rightarrow> ptr \<Rightarrow> bool \<Rightarrow> bdev_sys exec" where
  "bdev_set_blk_dirty s p dirty = do {
     b \<leftarrow> bhs s p;
     let s = set_bh p (b\<lparr>bh_state := set_state_bit (bh_state b) BLK_HEADER_DIRTY dirty\<rparr>) s;
     if dirty then do {
       pg \<leftarrow> bpages s (bh_page b);
       Some (set_page (bh_page b) (pg\<lparr>pg_dirty := True\<rparr>) s) }
     else Some s }"

text \<open>\<open>news\<close> are the answers of the header allocator, \<open>NULL\<close> for a failure; \<open>st0\<close> is what the state word of a new header holds.\<close>

fun init_loop :: "bdev_sys \<Rightarrow> ptr list \<Rightarrow> state_t \<Rightarrow> nat \<Rightarrow> blk_t \<Rightarrow> nat list \<Rightarrow> (err_t \<times> bdev_sys \<times> ptr list) exec" where
  "init_loop s news st0 i first_blk [] = Some (ERR_OK, s, news)"
| "init_loop s news st0 i first_blk (index # indices) =
     (case news of
        [] \<Rightarrow> Some (ERR_NOMEM, s, [])
      | p # news \<Rightarrow>
          if p = NULL then Some (ERR_NOMEM, s, news)
          else do {
            pg \<leftarrow> bpages s i;
            let s = set_page i (pg\<lparr>blk_headers := blk_headers pg @ [p]\<rparr>) s;
            let b = bdev_set_blk_valid \<lparr>bh_blk = first_blk + of_nat index, bh_page = i, bh_data = BDEV_BLK_SIZE * index,
              bh_state = st0, bh_ref = 0, bh_locked = False\<rparr> True;
            s \<leftarrow> bdev_set_blk_dirty (set_bh p b s) p False;
            init_loop s news st0 i first_blk indices })"

definition init_blk_headers :: "bdev_sys \<Rightarrow> ptr list \<Rightarrow> state_t \<Rightarrow> nat \<Rightarrow> blk_t \<Rightarrow> (err_t \<times> bdev_sys \<times> ptr list) exec" where
  "init_blk_headers s news st0 i first_blk = do {
     pg \<leftarrow> bpages s i;
     if blk_headers pg = [] then init_loop s news st0 i first_blk [0..<N_BLKS_PER_PAGE]
     else Some (ERR_OK, s, news) }"

fun zero_ref_loop :: "bdev_sys \<Rightarrow> ptr list \<Rightarrow> bool exec" where
  "zero_ref_loop s [] = Some True"
| "zero_ref_loop s (p # ps) = do { b \<leftarrow> bhs s p; if bh_ref b > 0 then Some False else zero_ref_loop s ps }"

definition blocks_zero_ref :: "bdev_sys \<Rightarrow> bpage \<Rightarrow> bool exec" where
  "blocks_zero_ref s pg = zero_ref_loop s (blk_headers pg)"

fun free_loop :: "bdev_sys \<Rightarrow> ptr list \<Rightarrow> bdev_sys exec" where
  "free_loop s [] = Some s"
| "free_loop s (p # ps) = do {
     b \<leftarrow> bhs s p;
     kassert (\<not> bdev_is_blk_dirty b);
     free_loop (s\<lparr>bhs := (bhs s)(p := None)\<rparr>) ps }"

definition free_blk_headers :: "bdev_sys \<Rightarrow> nat \<Rightarrow> bdev_sys exec" where
  "free_blk_headers s i = do {
     pg \<leftarrow> bpages s i;
     if pg_dirty pg then Some s
     else do {
       s \<leftarrow> free_loop s (blk_headers pg);
       Some (set_page i (pg\<lparr>blk_headers := []\<rparr>) s) } }"

section \<open>The cache\<close>

text \<open>The store fills a page with the eight blocks of the device.  The requests are synchronous, and the byte
  offset is computed in 32 bits.\<close>

definition blk_ofs :: "blk_t \<Rightarrow> u32" where
  "blk_ofs blk = blk * 512"

definition bdevms_fillpage :: "bdev_sys \<Rightarrow> u64 \<Rightarrow> u8 list" where
  "bdevms_fillpage s ofs = concat (map (\<lambda>j. disk s (ucast (ofs div 4096 * 4096 div 512) + of_nat j)) [0..<8])"

text \<open>The page of the cache, filled on a miss; \<open>ok\<close> is whether page, tree node and request can be allocated.\<close>

definition bdev_page :: "bdev_sys \<Rightarrow> bool \<Rightarrow> u32 \<Rightarrow> (nat option \<times> bdev_sys)" where
  "bdev_page s ok ofs =
     (let i = unat (ofs div 4096) in
      case bpages s i of
        Some _ \<Rightarrow> (Some i, s)
      | None \<Rightarrow> if ok then (Some i, set_page i \<lparr>pg_data = bdevms_fillpage s (ucast ofs), pg_dirty = False, blk_headers = []\<rparr> s)
                 else (None, s))"

fun find_bh :: "bdev_sys \<Rightarrow> blk_t \<Rightarrow> ptr list \<Rightarrow> ptr exec" where
  "find_bh s blk [] = None"
| "find_bh s blk (p # ps) = do { b \<leftarrow> bhs s p; if bh_blk b = blk then Some p else find_bh s blk ps }"

definition bdev_get_blk_unlocked :: "bdev_sys \<Rightarrow> bool \<Rightarrow> ptr list \<Rightarrow> state_t \<Rightarrow> blk_t \<Rightarrow> (ptr \<times> bdev_sys \<times> ptr list) exec" where
  "bdev_get_blk_unlocked s ok news st0 blk =
     (case bdev_page s ok (blk_ofs blk) of
        (None, s) \<Rightarrow> Some (NULL, s, news)
      | (Some i, s) \<Rightarrow> do {
          (err, s, news) \<leftarrow> init_blk_headers s news st0 i (FIRST_BLK_IN_PAGE blk);
          if err \<noteq> ERR_OK then Some (NULL, s, news)
          else do {
            pg \<leftarrow> bpages s i;
            p \<leftarrow> find_bh s blk (blk_headers pg);
            b \<leftarrow> bhs s p;
            Some (p, set_bh p (b\<lparr>bh_ref := bh_ref b + 1\<rparr>) s, news) } })"

text \<open>A lock that the same call already holds would never be released: the call stops.\<close>

definition bdev_get_blk :: "bdev_sys \<Rightarrow> bool \<Rightarrow> ptr list \<Rightarrow> state_t \<Rightarrow> blk_t \<Rightarrow> (ptr \<times> bdev_sys \<times> ptr list) exec" where
  "bdev_get_blk s ok news st0 blk = do {
     (p, s, news) \<leftarrow> bdev_get_blk_unlocked s ok news st0 blk;
     if p = NULL then Some (NULL, s, news)
     else do {
       b \<leftarrow> bhs s p;
       kassert (\<not> bh_locked b);
       Some (p, set_bh p (b\<lparr>bh_locked := True\<rparr>) s, news) } }"

definition bdev_release_blk_unlocked :: "bdev_sys \<Rightarrow> ptr \<Rightarrow> bdev_sys exec" where
  "bdev_release_blk_unlocked s p = do {
     b \<leftarrow> bhs s p;
     kassert (bh_ref b > 0);
     let s = set_bh p (b\<lparr>bh_ref := bh_ref b - 1\<rparr>) s;
     pg \<leftarrow> bpages s (bh_page b);
     zero \<leftarrow> (if bh_ref b - 1 = 0 then blocks_zero_ref s pg else Some False);
     if zero then free_blk_headers s (bh_page b) else Some s }"

definition bdev_release_blk :: "bdev_sys \<Rightarrow> ptr \<Rightarrow> bdev_sys exec" where
  "bdev_release_blk s p = do {
     b \<leftarrow> bhs s p;
     kassert (bh_locked b);
     bdev_release_blk_unlocked (set_bh p (b\<lparr>bh_locked := False\<rparr>) s) p }"

text \<open>The bytes behind the data pointer, and a store through it.\<close>

definition blk_bytes :: "bdev_sys \<Rightarrow> ptr \<Rightarrow> u8 list exec" where
  "blk_bytes s p = do {
     b \<leftarrow> bhs s p;
     pg \<leftarrow> bpages s (bh_page b);
     Some (take BDEV_BLK_SIZE (drop (bh_data b) (pg_data pg))) }"

definition store_bytes :: "bdev_sys \<Rightarrow> ptr \<Rightarrow> u8 list \<Rightarrow> bdev_sys exec" where
  "store_bytes s p d = do {
     b \<leftarrow> bhs s p;
     pg \<leftarrow> bpages s (bh_page b);
     Some (set_page (bh_page b) (pg\<lparr>pg_data := take (bh_data b) (pg_data pg) @ d @ drop (bh_data b + length d) (pg_data pg)\<rparr>) s) }"

definition bdev_write_blk :: "bdev_sys \<Rightarrow> bool \<Rightarrow> ptr \<Rightarrow> (err_t \<times> bdev_sys) exec" where
  "bdev_write_blk s bio_ok p = do {
     b \<leftarrow> bhs s p;
     kassert (bdev_is_blk_valid b);
     if \<not> bio_ok then Some (ERR_NOMEM, s)
     else do {
       d \<leftarrow> blk_bytes s p;
       s \<leftarrow> bdev_set_blk_dirty (s\<lparr>disk := (disk s)(bh_blk b := d)\<rparr>) p False;
       Some (ERR_OK, s) } }"

section \<open>The block store\<close>

text \<open>What clients rely on: every block has its bytes, a reference count and a lock.  A block that is pinned can always be had;
  for others \<open>answers\<close> are the outcomes of the allocations to come.\<close>

record blocks =
  bdata :: "blk_t \<Rightarrow> u8 list"
  bref :: "blk_t \<Rightarrow> nat"
  bheld :: "blk_t set"
  answers :: "nat \<Rightarrow> bool"

definition pin_blk :: "blocks \<Rightarrow> blk_t \<Rightarrow> bool \<times> blocks" where
  "pin_blk s b =
     (if bref s b > 0 then (True, s\<lparr>bref := (bref s)(b := bref s b + 1)\<rparr>)
      else if answers s 0 then (True, s\<lparr>bref := (bref s)(b := bref s b + 1), answers := (\<lambda>n. answers s (Suc n))\<rparr>)
      else (False, s\<lparr>answers := (\<lambda>n. answers s (Suc n))\<rparr>))"

definition get_blk :: "blocks \<Rightarrow> blk_t \<Rightarrow> (bool \<times> blocks) exec" where
  "get_blk s b =
     (case pin_blk s b of
        (False, s) \<Rightarrow> Some (False, s)
      | (True, s) \<Rightarrow> do { kassert (b \<notin> bheld s); Some (True, s\<lparr>bheld := insert b (bheld s)\<rparr>) })"

definition unpin_blk :: "blocks \<Rightarrow> blk_t \<Rightarrow> blocks exec" where
  "unpin_blk s b = do { kassert (bref s b > 0); Some (s\<lparr>bref := (bref s)(b := bref s b - 1)\<rparr>) }"

definition release_blk :: "blocks \<Rightarrow> blk_t \<Rightarrow> blocks exec" where
  "release_blk s b = do { kassert (b \<in> bheld s); unpin_blk (s\<lparr>bheld := bheld s - {b}\<rparr>) b }"

definition put_blk :: "blocks \<Rightarrow> blk_t \<Rightarrow> u8 list \<Rightarrow> blocks" where
  "put_blk s b d = s\<lparr>bdata := (bdata s)(b := d)\<rparr>"

lemma get_blk_cases [consumes 1, case_names no yes]:
  assumes "b \<notin> bheld s"
  obtains (no) as where "get_blk s b = Some (False, s\<lparr>answers := as\<rparr>)" "\<not> answers s 0" "as = (\<lambda>n. answers s (Suc n))" "bref s b = 0"
  | (yes) as where "get_blk s b = Some (True, s\<lparr>bref := (bref s)(b := bref s b + 1), bheld := insert b (bheld s), answers := as\<rparr>)"
      "as = answers s \<or> as = (\<lambda>n. answers s (Suc n))"
proof (cases "bref s b > 0 \<or> answers s 0")
  case True
  then show ?thesis using assms by (intro yes [of "if bref s b > 0 then answers s else (\<lambda>n. answers s (Suc n))"]) (auto simp: get_blk_def pin_blk_def)
next
  case False
  then show ?thesis by (intro no) (auto simp: get_blk_def pin_blk_def)
qed

lemma release_blk_eq: "b \<in> bheld s \<Longrightarrow> bref s b > 0 \<Longrightarrow>
  release_blk s b = Some (s\<lparr>bref := (bref s)(b := bref s b - 1), bheld := bheld s - {b}\<rparr>)"
  by (simp add: release_blk_def unpin_blk_def)

lemma put_blk_simps [simp]:
  "bdata (put_blk s b d) = (bdata s)(b := d)" "bref (put_blk s b d) = bref s" "bheld (put_blk s b d) = bheld s"
  "answers (put_blk s b d) = answers s"
  by (simp_all add: put_blk_def)

end
