(* ===== verification/Bcache.thy ===== *)
theory Bcache
  imports Bdev
begin

text \<open>
  The block cache of \<^verbatim>\<open>kernel/bdev.c\<close> implements the block store that the file system is written against: a simulation
  relates getting, releasing and overwriting a cached block to the same operations of the store.  The
  invariant of the cache says that a page has no headers or all eight, that a header belongs to its page and that only dirty pages have dirty headers.
\<close>

section \<open>The store that a cache represents\<close>

definition hdr :: "bdev_sys \<Rightarrow> blk_t \<Rightarrow> ptr option" where
  "hdr s b = (case bpages s (unat b div 8) of
      None \<Rightarrow> None
    | Some pg \<Rightarrow> if blk_headers pg = [] then None else Some (blk_headers pg ! (unat b mod 8)))"

definition absb :: "bdev_sys \<Rightarrow> (nat \<Rightarrow> bool) \<Rightarrow> blocks" where
  "absb s as = \<lparr>
     bdata = (\<lambda>b. case bpages s (unat b div 8) of
         None \<Rightarrow> disk s b
       | Some pg \<Rightarrow> take 512 (drop (512 * (unat b mod 8)) (pg_data pg))),
     bref = (\<lambda>b. case hdr s b of None \<Rightarrow> 0 | Some p \<Rightarrow> unat (bh_ref (the (bhs s p)))),
     bheld = {b. case hdr s b of None \<Rightarrow> False | Some p \<Rightarrow> bh_locked (the (bhs s p))},
     answers = as\<rparr>"

lemma absb_answers [simp]: "answers (absb s as) = as"
  by (simp add: absb_def)

definition hdr_ok :: "bdev_sys \<Rightarrow> blk_t \<Rightarrow> blk_header \<Rightarrow> bool" where
  "hdr_ok s b h \<longleftrightarrow> bh_blk h = b \<and> bh_page h = unat b div 8 \<and> bh_data h = 512 * (unat b mod 8) \<and> bdev_is_blk_valid h
     \<and> (bdev_is_blk_dirty h \<longrightarrow> pg_dirty (the (bpages s (unat b div 8)))) \<and> (bh_locked h \<longrightarrow> bh_ref h > 0)"

definition bcache_inv :: "bdev_sys \<Rightarrow> bool" where
  "bcache_inv s \<longleftrightarrow> (\<forall>b. length (disk s b) = 512)
     \<and> (\<forall>i pg. bpages s i = Some pg \<longrightarrow> i < 2 ^ 20 \<and> length (pg_data pg) = 4096 \<and> length (blk_headers pg) \<in> {0, 8})
     \<and> (\<forall>b p. hdr s b = Some p \<longrightarrow> p \<noteq> NULL \<and> (\<exists>h. bhs s p = Some h \<and> hdr_ok s b h))"

lemma bcache_invD:
  assumes "bcache_inv s"
  shows "length (disk s b) = 512" "bpages s i = Some pg \<Longrightarrow> i < 1048576" "bpages s i = Some pg \<Longrightarrow> length (pg_data pg) = 4096"
    "bpages s i = Some pg \<Longrightarrow> blk_headers pg = [] \<or> length (blk_headers pg) = 8" "hdr s b = Some p \<Longrightarrow> p \<noteq> NULL"
  using assms unfolding bcache_inv_def by fastforce+

lemma bcache_inv_hdr:
  assumes "bcache_inv s" "hdr s b = Some p"
  obtains h where "bhs s p = Some h" "hdr_ok s b h"
  using assms unfolding bcache_inv_def by blast

lemma hdr_inj: "bcache_inv s \<Longrightarrow> hdr s b = Some p \<Longrightarrow> hdr s b' = Some p \<Longrightarrow> b = b'"
  by (metis bcache_inv_hdr hdr_ok_def option.inject)

text \<open>The block behind the \<open>j\<close>-th header of page \<open>i\<close>.\<close>

lemma unat_blk: "i < 1048576 \<Longrightarrow> j < 8 \<Longrightarrow> unat (of_nat (8 * i + j) :: blk_t) = 8 * i + j"
  by (simp only: unat_of_nat) simp

lemma hdr_nth:
  assumes "bcache_inv s" "bpages s i = Some pg" "j < length (blk_headers pg)"
  shows "hdr s (of_nat (8 * i + j)) = Some (blk_headers pg ! j)"
proof -
  have "i < 1048576" "length (blk_headers pg) = 8" using assms bcache_invD(2,4) [OF assms(1,2)] by auto
  then show ?thesis using assms unat_blk [of i j] by (auto simp: hdr_def simp del: of_nat_add of_nat_mult)
qed

lemma hdrs_distinct:
  assumes "bcache_inv s" "bpages s i = Some pg"
  shows "distinct (blk_headers pg)"
proof -
  have "j = k" if a: "j < length (blk_headers pg)" "k < length (blk_headers pg)" "blk_headers pg ! j = blk_headers pg ! k" for j k
  proof -
    have l: "j < 8" "k < 8" "i < 1048576" using a bcache_invD(2,4) [OF assms] by auto
    have "(of_nat (8 * i + j) :: blk_t) = of_nat (8 * i + k)"
      using hdr_inj [OF assms(1) hdr_nth [OF assms a(1)]] hdr_nth [OF assms a(2)] a(3) by metis
    then have "8 * i + j = 8 * i + k" using unat_blk [OF l(3,1)] unat_blk [OF l(3,2)] by metis
    then show ?thesis by simp
  qed
  then show ?thesis unfolding distinct_conv_nth by blast
qed

section \<open>Changing one header\<close>

lemma set_bh_simps [simp]:
  "bpages (set_bh p h s) = bpages s" "disk (set_bh p h s) = disk s" "bhs (set_bh p h s) = (bhs s)(p := Some h)"
  "hdr (set_bh p h s) = hdr s" "hdr_ok (set_bh p h s) = hdr_ok s"
  by (simp_all add: fun_eq_iff hdr_def hdr_ok_def set_bh_def)

lemma blocks_eqI: "bdata a = bdata b \<Longrightarrow> bref a = bref b \<Longrightarrow> bheld a = bheld b \<Longrightarrow> answers a = answers b \<Longrightarrow> a = (b :: blocks)"
  by simp

text \<open>An update of the count and the lock of a header is the update of the block's.\<close>

lemma set_bh_refines:
  assumes "bcache_inv s" "hdr s blk = Some p" "hdr_ok s blk h"
  shows "bcache_inv (set_bh p h s)"
    "absb (set_bh p h s) as = (absb s as)\<lparr>bref := (bref (absb s as))(blk := unat (bh_ref h)),
       bheld := (if bh_locked h then insert blk (bheld (absb s as)) else bheld (absb s as) - {blk})\<rparr>"
proof -
  have n: "q \<noteq> p" if "b \<noteq> blk" "hdr s b = Some q" for b q using hdr_inj [OF assms(1,2)] that by auto
  then have "bref (absb (set_bh p h s) as) b = ((bref (absb s as))(blk := unat (bh_ref h))) b" for b
    using assms(2) by (cases "hdr s b") (auto simp: absb_def)
  moreover have "b \<in> bheld (absb (set_bh p h s) as) \<longleftrightarrow> (if b = blk then bh_locked h else b \<in> bheld (absb s as))" for b
    using assms(2) n by (cases "hdr s b") (auto simp: absb_def)
  moreover have "bdata (absb (set_bh p h s) as) = bdata (absb s as)" "answers (absb (set_bh p h s) as) = answers (absb s as)"
    by (auto simp: absb_def fun_eq_iff split: option.splits)
  ultimately show "absb (set_bh p h s) as = (absb s as)\<lparr>bref := (bref (absb s as))(blk := unat (bh_ref h)),
       bheld := (if bh_locked h then insert blk (bheld (absb s as)) else bheld (absb s as) - {blk})\<rparr>"
    by (intro blocks_eqI) (auto simp: fun_eq_iff split: if_splits)
  have "\<exists>h'. ((bhs s)(p := Some h)) q = Some h' \<and> hdr_ok s b h'" if "hdr s b = Some q" for b q
    using assms that n [OF _ that] bcache_inv_hdr [OF assms(1) that] by (cases "b = blk") auto
  then show "bcache_inv (set_bh p h s)" using assms(1) unfolding bcache_inv_def set_bh_simps by blast
qed

section \<open>Looking up a page\<close>

lemma take_drop_concat:
  "k < length xss \<Longrightarrow> \<forall>xs \<in> set xss. length xs = n \<Longrightarrow> take n (drop (n * k) (concat xss)) = xss ! k"
proof (induction xss arbitrary: k)
  case (Cons xs xss)
  then show ?case by (cases k) auto
qed simp

lemma length_concat_const: "\<forall>xs \<in> set xss. length xs = n \<Longrightarrow> length (concat xss) = n * length xss"
  by (induction xss) auto

lemma blk_ofs_page: "unat blk < 2 ^ 23 \<Longrightarrow> unat (blk_ofs blk div 4096) = unat blk div 8"
  by (simp add: blk_ofs_def unat_div unat_word_ariths)

lemma fillpage_eq:
  assumes "unat blk < 2 ^ 23"
  shows "bdevms_fillpage s (ucast (blk_ofs blk)) = concat (map (\<lambda>j. disk s (of_nat (8 * (unat blk div 8) + j))) [0..<8])"
proof -
  let ?o = "ucast (blk_ofs blk) :: u64"
  have "unat (blk_ofs blk) = unat blk * 512" using assms by (simp add: blk_ofs_def unat_word_ariths)
  then have o: "unat ?o = unat blk * 512" using assms by (simp add: unsigned_ucast_eq take_bit_nat_eq_self)
  then have "unat (?o div 4096 * 4096 div 512) = 8 * (unat blk div 8)" using assms by (simp add: unat_div unat_word_ariths)
  then have "(ucast (?o div 4096 * 4096 div 512) :: blk_t) = of_nat (8 * (unat blk div 8))"
    by (metis of_nat_unat)
  then show ?thesis unfolding bdevms_fillpage_def by (simp only: of_nat_add)
qed

text \<open>A miss reads the page from the device, which represents the same blocks.\<close>

lemma set_page_fill:
  assumes "bcache_inv s" "unat blk < 2 ^ 23" "bpages s (unat blk div 8) = None"
    and s': "s' = set_page (unat blk div 8) \<lparr>pg_data = bdevms_fillpage s (ucast (blk_ofs blk)), pg_dirty = False, blk_headers = []\<rparr> s"
  shows "bcache_inv s'" "absb s' as = absb s as"
proof -
  let ?i = "unat blk div 8"
  have i: "?i < 1048576" using assms(2) by auto
  have d: "\<forall>xs \<in> set (map (\<lambda>j. disk s (of_nat (8 * ?i + j))) [0..<8]). length xs = 512" using bcache_invD(1) [OF assms(1)] by auto
  have [simp]: "bhs s' = bhs s" "disk s' = disk s" by (simp_all add: s' set_page_def)
  have h: "hdr s' = hdr s" using assms(3) by (auto simp: fun_eq_iff hdr_def s' set_page_def)
  have ok: "hdr_ok s' b h = hdr_ok s b h" if "hdr s b = Some p" for b h p using that assms(3) by (auto simp: hdr_ok_def hdr_def s' set_page_def split: option.splits)
  have "length (bdevms_fillpage s (ucast (blk_ofs blk))) = 4096" unfolding fillpage_eq [OF assms(2)] length_concat_const [OF d] by simp
  then show "bcache_inv s'" using assms(1) i ok unfolding bcache_inv_def h by (auto simp: s' set_page_def)
  have "bdata (absb s' as) b = bdata (absb s as) b" for b
  proof (cases "unat b div 8 = ?i")
    case True
    have "take 512 (drop (512 * (unat b mod 8)) (bdevms_fillpage s (ucast (blk_ofs blk)))) = disk s (of_nat (8 * ?i + unat b mod 8))"
      unfolding fillpage_eq [OF assms(2)] by (subst take_drop_concat [OF _ d]) (simp_all del: of_nat_add of_nat_mult)
    moreover have "8 * ?i + unat b mod 8 = unat b" using True by (metis mult.commute div_mult_mod_eq)
    ultimately show ?thesis using True assms(3) by (simp add: absb_def s' set_page_def)
  next
    case False
    then have "bpages s' (unat b div 8) = bpages s (unat b div 8)" by (simp add: s' set_page_def)
    then show ?thesis by (simp add: absb_def cong: option.case_cong)
  qed
  moreover have "bref (absb s' as) = bref (absb s as)" "bheld (absb s' as) = bheld (absb s as)" by (simp_all add: absb_def h cong: option.case_cong)
  ultimately show "absb s' as = absb s as" by (intro blocks_eqI) (auto simp: fun_eq_iff)
qed

section \<open>Allocating the headers of a page\<close>

definition new_bh :: "state_t \<Rightarrow> nat \<Rightarrow> blk_t \<Rightarrow> nat \<Rightarrow> blk_header" where
  "new_bh st0 i first index = \<lparr>bh_blk = first + of_nat index, bh_page = i, bh_data = 512 * index,
     bh_state = set_state_bit (set_state_bit st0 BLK_HEADER_VALID True) BLK_HEADER_DIRTY False, bh_ref = 0, bh_locked = False\<rparr>"

lemma set_page_twice: "set_page i q (set_page i pg s) = set_page i q s"
  by (simp add: set_page_def)

lemma map_upds_nth:
  "distinct ps \<Longrightarrow> length ps \<le> length ys \<Longrightarrow> j < length ps \<Longrightarrow> (m(ps [\<mapsto>] ys)) (ps ! j) = Some (ys ! j)"
proof (induction ps arbitrary: ys m j)
  case (Cons p ps)
  then show ?case by (cases ys; cases j) (auto simp: map_upds_apply_nontin)
qed simp

text \<open>With enough memory the loop appends a header for each block.\<close>

lemma init_loop_ok:
  "bpages s i = Some pg \<Longrightarrow> length is \<le> length news \<Longrightarrow> NULL \<notin> set (take (length is) news) \<Longrightarrow>
   init_loop s news st0 i first is = Some (ERR_OK,
     (set_page i (pg\<lparr>blk_headers := blk_headers pg @ take (length is) news\<rparr>) s)\<lparr>bhs := (bhs s)(take (length is) news [\<mapsto>] map (new_bh st0 i first) is)\<rparr>,
     drop (length is) news)"
proof (induction "is" arbitrary: s news pg)
  case Nil
  then show ?case by (simp add: set_page_def map_upd_triv)
next
  case (Cons k "is")
  then obtain p ns where n: "news = p # ns" "p \<noteq> NULL" "length is \<le> length ns" "NULL \<notin> set (take (length is) ns)" by (cases news) auto
  let ?pg = "pg\<lparr>blk_headers := blk_headers pg @ [p]\<rparr>"
  let ?s = "(set_page i ?pg s)\<lparr>bhs := (bhs s)(p := Some (new_bh st0 i first k))\<rparr>"
  have "init_loop s news st0 i first (k # is) = init_loop ?s ns st0 i first is"
    using n(1,2) Cons.prems(1) by (simp add: bdev_set_blk_dirty_def bdev_set_blk_valid_def set_bh_def set_page_def new_bh_def)
  moreover have "bpages ?s i = Some ?pg" by (simp add: set_page_def)
  ultimately show ?case using Cons.IH [of ?s ?pg ns] n by (simp add: set_page_def) (simp add: fun_upd_def)
qed

definition fresh8 :: "bdev_sys \<Rightarrow> ptr list \<Rightarrow> bool" where
  "fresh8 s ps \<longleftrightarrow> length ps = 8 \<and> distinct ps \<and> NULL \<notin> set ps \<and> (\<forall>p \<in> set ps. bhs s p = None)"

text \<open>The allocator has no header at all, or eight new ones.\<close>

definition news_ok :: "bdev_sys \<Rightarrow> ptr list \<Rightarrow> bool" where
  "news_ok s news \<longleftrightarrow> news = [] \<or> hd news = NULL
     \<or> 8 \<le> length news \<and> fresh8 s (take 8 news)"

lemma init_loop_fails: "news = [] \<or> hd news = NULL \<Longrightarrow> is \<noteq> [] \<Longrightarrow> init_loop s news st0 i first is = Some (ERR_NOMEM, s, tl news)"
  by (cases "is"; cases news) auto

lemma new_bh_state:
  "bdev_is_blk_valid (new_bh st0 i first j)" "\<not> bdev_is_blk_dirty (new_bh st0 i first j)" "\<not> bh_locked (new_bh st0 i first j)"
  "bh_ref (new_bh st0 i first j) = 0" "bh_blk (new_bh st0 i first j) = first + of_nat j" "bh_page (new_bh st0 i first j) = i"
  "bh_data (new_bh st0 i first j) = 512 * j"
  by (simp_all add: bdev_is_blk_valid_def bdev_is_blk_dirty_def new_bh_def get_state_bit_bit bit_set_state_bit)

text \<open>The state after eight headers were added to a page without headers.\<close>

definition with_hdrs :: "state_t \<Rightarrow> nat \<Rightarrow> bpage \<Rightarrow> ptr list \<Rightarrow> bdev_sys \<Rightarrow> bdev_sys" where
  "with_hdrs st0 i pg ps s = (set_page i (pg\<lparr>blk_headers := ps\<rparr>) s)\<lparr>bhs := (bhs s)(ps [\<mapsto>] map (new_bh st0 i (of_nat (8 * i))) [0..<8])\<rparr>"

lemma with_hdrs_simps:
  "disk (with_hdrs st0 i pg ps s) = disk s" "bpages (with_hdrs st0 i pg ps s) = (bpages s)(i := Some (pg\<lparr>blk_headers := ps\<rparr>))"
  by (simp_all add: with_hdrs_def set_page_def)

lemma with_hdrs_new:
  assumes "fresh8 s ps" "unat b div 8 = i"
  shows "hdr (with_hdrs st0 i pg ps s) b = Some (ps ! (unat b mod 8))"
    "bhs (with_hdrs st0 i pg ps s) (ps ! (unat b mod 8)) = Some (new_bh st0 i (of_nat (8 * i)) (unat b mod 8))"
proof -
  show "hdr (with_hdrs st0 i pg ps s) b = Some (ps ! (unat b mod 8))" using assms by (auto simp: hdr_def with_hdrs_simps fresh8_def)
  show "bhs (with_hdrs st0 i pg ps s) (ps ! (unat b mod 8)) = Some (new_bh st0 i (of_nat (8 * i)) (unat b mod 8))"
    using assms(1) map_upds_nth [of ps "map (new_bh st0 i (of_nat (8 * i))) [0..<8]" "unat b mod 8"]
    by (simp add: with_hdrs_def fresh8_def del: upt_rec_numeral of_nat_mult)
qed

lemma with_hdrs_old:
  assumes "fresh8 s ps" "bcache_inv s"
  shows "unat b div 8 \<noteq> i \<Longrightarrow> hdr (with_hdrs st0 i pg ps s) b = hdr s b" "hdr s b = Some q \<Longrightarrow> bhs (with_hdrs st0 i pg ps s) q = bhs s q"
proof -
  show "unat b div 8 \<noteq> i \<Longrightarrow> hdr (with_hdrs st0 i pg ps s) b = hdr s b" by (simp add: hdr_def with_hdrs_simps)
  assume h: "hdr s b = Some q"
  obtain h where "bhs s q = Some h" using bcache_inv_hdr [OF assms(2) h] .
  then have "q \<notin> set ps" using assms(1) by (fastforce simp: fresh8_def)
  then show "bhs (with_hdrs st0 i pg ps s) q = bhs s q" by (simp add: with_hdrs_def map_upds_apply_nontin)
qed

lemma new_bh_ok:
  assumes "unat b div 8 = i"
  shows "hdr_ok s b (new_bh st0 i (of_nat (8 * i)) (unat b mod 8))"
proof -
  have "8 * i + unat b mod 8 = unat b" using assms by auto
  then have "of_nat (8 * i + unat b mod 8) = b" by simp
  then have "of_nat (8 * i) + of_nat (unat b mod 8) = b" by (simp only: of_nat_add)
  then show ?thesis using assms by (simp add: hdr_ok_def new_bh_state)
qed

lemma with_hdrs_inv:
  assumes "fresh8 s ps" "bcache_inv s" "bpages s i = Some pg" "blk_headers pg = []"
  shows "bcache_inv (with_hdrs st0 i pg ps s)"
proof -
  let ?s = "with_hdrs st0 i pg ps s"
  have "(\<exists>h. bhs ?s q = Some h \<and> hdr_ok ?s b h) \<and> q \<noteq> NULL" if "hdr ?s b = Some q" for b q
  proof (cases "unat b div 8 = i")
    case True
    then have q: "q = ps ! (unat b mod 8)" using with_hdrs_new(1) [OF assms(1) True] that by simp
    have "q \<in> set ps" unfolding q by (rule nth_mem) (use assms(1) in \<open>simp add: fresh8_def\<close>)
    then show ?thesis using assms(1) with_hdrs_new(2) [OF assms(1) True] q new_bh_ok [OF True] unfolding fresh8_def by metis
  next
    case False
    then have q: "hdr s b = Some q" using with_hdrs_old(1) [OF assms(1,2)] that by simp
    obtain h where h: "bhs s q = Some h" "hdr_ok s b h" using bcache_inv_hdr [OF assms(2) q] .
    have "hdr_ok ?s b h" using h(2) False by (simp add: hdr_ok_def with_hdrs_simps)
    then show ?thesis using with_hdrs_old(2) [OF assms(1,2) q] h bcache_invD(5) [OF assms(2) q] by metis
  qed
  moreover have "bpages ?s j = Some qg \<Longrightarrow> j < 2 ^ 20 \<and> length (pg_data qg) = 4096 \<and> length (blk_headers qg) \<in> {0, 8}" for j qg
    using bcache_invD(2-4) [OF assms(2)] assms(1,3) by (auto simp: with_hdrs_simps fresh8_def split: if_splits)
  ultimately show ?thesis using bcache_invD(1) [OF assms(2)] unfolding bcache_inv_def by (simp add: with_hdrs_simps)
qed

lemma with_hdrs_abs:
  assumes "fresh8 s ps" "bcache_inv s" "bpages s i = Some pg" "blk_headers pg = []"
  shows "absb (with_hdrs st0 i pg ps s) as = absb s as"
proof (intro blocks_eqI ext set_eqI)
  fix b
  let ?s = "with_hdrs st0 i pg ps s"
  show "bdata (absb ?s as) b = bdata (absb s as) b" using assms(3) by (simp add: absb_def with_hdrs_simps cong: option.case_cong)
  have new: "hdr s b = None" if "unat b div 8 = i" using that assms(3,4) by (simp add: hdr_def)
  have r: "bref (absb ?s as) b = bref (absb s as) b \<and> (b \<in> bheld (absb ?s as) \<longleftrightarrow> b \<in> bheld (absb s as))"
    using new with_hdrs_new [OF assms(1), of b i] with_hdrs_old(1) [OF assms(1,2), of b i] with_hdrs_old(2) [OF assms(1,2), of b]
    by (cases "unat b div 8 = i"; cases "hdr s b") (simp_all add: absb_def new_bh_state)
  show "bref (absb ?s as) b = bref (absb s as) b" "b \<in> bheld (absb ?s as) \<longleftrightarrow> b \<in> bheld (absb s as)" using r by simp_all
qed simp

lemma init_blk_headers_refines:
  assumes "bpages s i = Some pg" "blk_headers pg = []" "8 \<le> length news" "fresh8 s (take 8 news)"
  shows "init_blk_headers s news st0 i (of_nat (8 * i)) = Some (ERR_OK, with_hdrs st0 i pg (take 8 news) s, drop 8 news)"
  using init_loop_ok [OF assms(1), of "[0..<8]" news st0 "of_nat (8 * i)"] assms
  by (simp add: init_blk_headers_def with_hdrs_def fresh8_def del: upt_rec_numeral of_nat_mult)

section \<open>Getting a block\<close>

lemma find_bh_nth:
  "k < length ps \<Longrightarrow> (\<And>j. j < length ps \<Longrightarrow> \<exists>h. bhs s (ps ! j) = Some h \<and> (bh_blk h = blk \<longleftrightarrow> j = k)) \<Longrightarrow> find_bh s blk ps = Some (ps ! k)"
proof (induction ps arbitrary: k)
  case (Cons p ps)
  show ?case
  proof (cases k)
    case 0
    then show ?thesis using Cons.prems(2) [of 0] by auto
  next
    case (Suc m)
    have "\<exists>h. bhs s (ps ! j) = Some h \<and> (bh_blk h = blk \<longleftrightarrow> j = m)" if "j < length ps" for j
      using Cons.prems(2) [of "Suc j"] that Suc by auto
    then have "find_bh s blk ps = Some (ps ! m)" using Cons.IH [of m] Cons.prems(1) Suc by auto
    then show ?thesis using Cons.prems(2) [of 0] Suc by auto
  qed
qed simp

lemma find_bh_hdr:
  assumes "bcache_inv s" "bpages s (unat blk div 8) = Some pg" "hdr s blk = Some p"
  shows "find_bh s blk (blk_headers pg) = Some p"
proof -
  let ?i = "unat blk div 8" and ?k = "unat blk mod 8"
  have l: "length (blk_headers pg) = 8" "?i < 1048576" using bcache_invD(2,4) [OF assms(1,2)] assms(2,3) by (auto simp: hdr_def split: if_splits)
  have "\<exists>h. bhs s (blk_headers pg ! j) = Some h \<and> (bh_blk h = blk \<longleftrightarrow> j = ?k)" if j: "j < length (blk_headers pg)" for j
  proof -
    obtain h where h: "bhs s (blk_headers pg ! j) = Some h" "hdr_ok s (of_nat (8 * ?i + j)) h" using bcache_inv_hdr [OF assms(1) hdr_nth [OF assms(1,2) j]] .
    have u: "unat (of_nat (8 * ?i + j) :: blk_t) = 8 * ?i + j" using unat_blk [OF l(2), of j] j l(1) by simp
    have "of_nat (8 * ?i + j) = blk \<longleftrightarrow> 8 * ?i + j = unat blk" unfolding word_unat_eq_iff u ..
    also have "\<dots> \<longleftrightarrow> j = ?k" by presburger
    finally show ?thesis using h by (auto simp: hdr_ok_def simp del: of_nat_add of_nat_mult)
  qed
  then have "find_bh s blk (blk_headers pg) = Some (blk_headers pg ! ?k)" using l(1) by (intro find_bh_nth) auto
  then show ?thesis using assms(2,3) by (auto simp: hdr_def split: if_splits)
qed

text \<open>What the next lookup of a block comes to: it needs memory for a page that is not cached and for headers the page does not have.\<close>

definition can_get :: "bdev_sys \<Rightarrow> bool \<Rightarrow> ptr list \<Rightarrow> blk_t \<Rightarrow> bool" where
  "can_get s ok news blk \<longleftrightarrow> (bpages s (unat blk div 8) \<noteq> None \<or> ok) \<and> (hdr s blk \<noteq> None \<or> news \<noteq> [] \<and> hd news \<noteq> NULL)"

lemma headers_had:
  assumes "bcache_inv s" "unat blk < 2 ^ 23" "news_ok s news" "bpages s (unat blk div 8) = Some pg" "hdr s blk \<noteq> None \<or> news \<noteq> [] \<and> hd news \<noteq> NULL"
  shows "\<exists>s' news' p. init_blk_headers s news st0 (unat blk div 8) (FIRST_BLK_IN_PAGE blk) = Some (ERR_OK, s', news') \<and> bcache_inv s'
    \<and> absb s' as = absb s as \<and> hdr s' blk = Some p"
proof (cases "blk_headers pg = []")
  case True
  then have f: "8 \<le> length news" "fresh8 s (take 8 news)" using assms(3-5) by (auto simp: news_ok_def hdr_def)
  have "FIRST_BLK_IN_PAGE blk = of_nat (8 * (unat blk div 8))"
    using assms(2) by (intro word_unat_eq_iff [THEN iffD2]) (simp add: FIRST_BLK_IN_PAGE_def unat_div unat_word_ariths unat_of_nat)
  then show ?thesis using init_blk_headers_refines [OF assms(4) True f] with_hdrs_inv [OF f(2) assms(1,4) True] with_hdrs_abs [OF f(2) assms(1,4) True]
      with_hdrs_new(1) [OF f(2), of blk "unat blk div 8"] by metis
next
  case False
  then show ?thesis using assms(1,4) by (auto simp: init_blk_headers_def hdr_def)
qed

lemma page_had:
  assumes "bcache_inv s" "unat blk < 2 ^ 23" "bpages s (unat blk div 8) \<noteq> None \<or> ok"
  shows "\<exists>s' pg. bdev_page s ok (blk_ofs blk) = (Some (unat blk div 8), s') \<and> bcache_inv s' \<and> absb s' as = absb s as
    \<and> bpages s' (unat blk div 8) = Some pg \<and> bhs s' = bhs s \<and> hdr s' = hdr s"
proof (cases "bpages s (unat blk div 8)")
  case None
  let ?s = "set_page (unat blk div 8) \<lparr>pg_data = bdevms_fillpage s (ucast (blk_ofs blk)), pg_dirty = False, blk_headers = []\<rparr> s"
  have "bdev_page s ok (blk_ofs blk) = (Some (unat blk div 8), ?s)" using None assms by (simp add: bdev_page_def blk_ofs_page Let_def)
  moreover have "hdr ?s = hdr s" using None by (auto simp: fun_eq_iff hdr_def set_page_def)
  moreover have "\<exists>pg. bpages ?s (unat blk div 8) = Some pg" "bhs ?s = bhs s" by (simp_all add: set_page_def)
  ultimately show ?thesis using set_page_fill [OF assms(1,2) None refl] by metis
next
  case (Some pg)
  then show ?thesis using assms by (simp add: bdev_page_def blk_ofs_page)
qed

lemma get_unlocked_ok:
  assumes "bcache_inv s" "unat blk < 2 ^ 23" "news_ok s news" "can_get s ok news blk" "bref (absb s as) blk < 2 ^ 32 - 1"
  shows "\<exists>p s' news'. bdev_get_blk_unlocked s ok news st0 blk = Some (p, s', news') \<and> bcache_inv s' \<and> hdr s' blk = Some p
    \<and> absb s' as = (absb s as)\<lparr>bref := (bref (absb s as))(blk := bref (absb s as) blk + 1)\<rparr>"
proof -
  obtain s1 pg where s1: "bdev_page s ok (blk_ofs blk) = (Some (unat blk div 8), s1)" "bcache_inv s1" "absb s1 as = absb s as"
      "bpages s1 (unat blk div 8) = Some pg" "bhs s1 = bhs s" "hdr s1 = hdr s"
    using page_had [OF assms(1,2)] assms(4) unfolding can_get_def by metis
  have n: "news_ok s1 news" "hdr s1 blk \<noteq> None \<or> news \<noteq> [] \<and> hd news \<noteq> NULL" using assms(3,4) s1(5,6) by (auto simp: news_ok_def fresh8_def can_get_def)
  obtain s2 news' p where s2: "init_blk_headers s1 news st0 (unat blk div 8) (FIRST_BLK_IN_PAGE blk) = Some (ERR_OK, s2, news')" "bcache_inv s2"
      "absb s2 as = absb s as" "hdr s2 blk = Some p"
    using headers_had [OF s1(2) assms(2) n(1) s1(4) n(2)] s1(3) by metis
  obtain pg' where pg': "bpages s2 (unat blk div 8) = Some pg'" using s2(4) by (auto simp: hdr_def split: option.splits)
  obtain h where h: "bhs s2 p = Some h" "hdr_ok s2 blk h" using bcache_inv_hdr [OF s2(2,4)] .
  let ?h = "h\<lparr>bh_ref := bh_ref h + 1\<rparr>"
  have r: "unat (bh_ref h) = bref (absb s as) blk" using s2(4) h(1) by (simp add: s2(3) [symmetric]) (simp add: absb_def)
  have l: "bh_locked h \<longleftrightarrow> blk \<in> bheld (absb s as)" using s2(4) h(1) by (simp add: s2(3) [symmetric]) (simp add: absb_def)
  have u: "unat (bh_ref h + 1) = unat (bh_ref h) + 1" using r assms(5) by (simp add: unat_word_ariths)
  then have "bh_ref h + 1 > 0" by (simp add: word_less_nat_alt)
  then have ok: "hdr_ok s2 blk ?h" using h(2) by (simp add: hdr_ok_def bdev_is_blk_valid_def bdev_is_blk_dirty_def)
  have "bdev_get_blk_unlocked s ok news st0 blk = Some (p, set_bh p ?h s2, news')"
    using s1(1) s2(1) pg' find_bh_hdr [OF s2(2) pg' s2(4)] h(1) by (simp add: bdev_get_blk_unlocked_def)
  moreover have "absb (set_bh p ?h s2) as = (absb s as)\<lparr>bref := (bref (absb s as))(blk := bref (absb s as) blk + 1)\<rparr>"
    using l u r by (simp add: set_bh_refines(2) [OF s2(2,4) ok] s2(3) insert_absorb)
  ultimately show ?thesis using set_bh_refines(1) [OF s2(2,4) ok] s2(4) by (metis set_bh_simps(4))
qed

lemma get_unlocked_fails:
  assumes "bcache_inv s" "unat blk < 2 ^ 23" "\<not> can_get s ok news blk"
  shows "\<exists>s' news'. bdev_get_blk_unlocked s ok news st0 blk = Some (NULL, s', news') \<and> bcache_inv s' \<and> absb s' as = absb s as"
proof (cases "bpages s (unat blk div 8) \<noteq> None \<or> ok")
  case True
  then obtain s1 pg where s1: "bdev_page s ok (blk_ofs blk) = (Some (unat blk div 8), s1)" "bcache_inv s1" "absb s1 as = absb s as"
      "bpages s1 (unat blk div 8) = Some pg" "hdr s1 = hdr s"
    using page_had [OF assms(1,2)] by metis
  have "hdr s1 blk = None" "news = [] \<or> hd news = NULL" using True assms(3) s1(5) by (auto simp: can_get_def)
  then have "init_blk_headers s1 news st0 (unat blk div 8) (FIRST_BLK_IN_PAGE blk) = Some (ERR_NOMEM, s1, tl news)"
    using s1(4) init_loop_fails [of news "[0..<8]"] by (simp add: init_blk_headers_def hdr_def split: if_splits del: upt_rec_numeral)
  then show ?thesis using s1 by (simp add: bdev_get_blk_unlocked_def)
next
  case False
  then show ?thesis using assms(1,2) by (simp add: bdev_get_blk_unlocked_def bdev_page_def blk_ofs_page)
qed

section \<open>Releasing a block\<close>

lemma zero_ref_loop_ok:
  "\<forall>p \<in> set ps. bhs s p \<noteq> None \<Longrightarrow> zero_ref_loop s ps = Some (\<forall>p \<in> set ps. bh_ref (the (bhs s p)) = 0)"
  by (induction ps) (auto simp: word_gt_0)

lemma free_loop_ok:
  "distinct ps \<Longrightarrow> \<forall>p \<in> set ps. \<exists>h. bhs s p = Some h \<and> \<not> bdev_is_blk_dirty h \<Longrightarrow>
   free_loop s ps = Some (s\<lparr>bhs := (\<lambda>q. if q \<in> set ps then None else bhs s q)\<rparr>)"
proof (induction ps arbitrary: s)
  case (Cons p ps)
  let ?s = "s\<lparr>bhs := (bhs s)(p := None)\<rparr>"
  have "\<forall>q \<in> set ps. \<exists>h. bhs ?s q = Some h \<and> \<not> bdev_is_blk_dirty h" using Cons.prems by auto
  then have "free_loop ?s ps = Some (?s\<lparr>bhs := (\<lambda>q. if q \<in> set ps then None else bhs ?s q)\<rparr>)" using Cons.IH [of ?s] Cons.prems(1) by simp
  moreover have "(\<lambda>q. if q \<in> set ps then None else bhs ?s q) = (\<lambda>q. if q \<in> set (p # ps) then None else bhs s q)" by auto
  ultimately show ?case using Cons.prems(2) by auto
qed simp

lemma hdrs_mem:
  assumes "bcache_inv s" "bpages s i = Some pg" "p \<in> set (blk_headers pg)"
  obtains b h where "hdr s b = Some p" "unat b div 8 = i" "bhs s p = Some h" "hdr_ok s b h"
proof -
  obtain j where j: "j < length (blk_headers pg)" "p = blk_headers pg ! j" using assms(3) by (metis in_set_conv_nth)
  have "unat (of_nat (8 * i + j) :: blk_t) = 8 * i + j" "j < 8" using unat_blk [of i j] bcache_invD(2,4) [OF assms(1,2)] j(1) by auto
  then have "unat (of_nat (8 * i + j) :: blk_t) div 8 = i" by (simp del: of_nat_add of_nat_mult)
  then show ?thesis using bcache_inv_hdr [OF assms(1) hdr_nth [OF assms(1,2) j(1)]] hdr_nth [OF assms(1,2) j(1)] j(2) that by metis
qed

definition drop_hdrs :: "nat \<Rightarrow> bpage \<Rightarrow> bdev_sys \<Rightarrow> bdev_sys" where
  "drop_hdrs i pg s = set_page i (pg\<lparr>blk_headers := []\<rparr>) (s\<lparr>bhs := (\<lambda>q. if q \<in> set (blk_headers pg) then None else bhs s q)\<rparr>)"

lemma drop_hdrs_simps:
  "disk (drop_hdrs i pg s) = disk s" "bpages (drop_hdrs i pg s) = (bpages s)(i := Some (pg\<lparr>blk_headers := []\<rparr>))"
  by (simp_all add: drop_hdrs_def set_page_def)

lemma drop_hdrs_gone: "unat b div 8 = i \<Longrightarrow> hdr (drop_hdrs i pg s) b = None"
  by (simp add: hdr_def drop_hdrs_simps)

lemma drop_hdrs_keep:
  assumes "bcache_inv s" "bpages s i = Some pg" "unat b div 8 \<noteq> i"
  shows "hdr (drop_hdrs i pg s) b = hdr s b" "hdr_ok (drop_hdrs i pg s) b = hdr_ok s b" "hdr s b = Some p \<Longrightarrow> bhs (drop_hdrs i pg s) p = bhs s p"
proof -
  show "hdr (drop_hdrs i pg s) b = hdr s b" "hdr_ok (drop_hdrs i pg s) b = hdr_ok s b"
    using assms(3) by (simp_all add: hdr_def hdr_ok_def fun_eq_iff drop_hdrs_simps)
  assume p: "hdr s b = Some p"
  then have "p \<notin> set (blk_headers pg)" using hdrs_mem [OF assms(1,2), of p] hdr_inj [OF assms(1) p] assms(3) by metis
  then show "bhs (drop_hdrs i pg s) p = bhs s p" by (simp add: drop_hdrs_def set_page_def)
qed

lemma drop_hdrs_inv:
  assumes "bcache_inv s" "bpages s i = Some pg"
  shows "bcache_inv (drop_hdrs i pg s)"
proof -
  let ?s = "drop_hdrs i pg s"
  have "p \<noteq> NULL \<and> (\<exists>h. bhs ?s p = Some h \<and> hdr_ok ?s b h)" if q: "hdr ?s b = Some p" for b p
  proof -
    have n: "unat b div 8 \<noteq> i" using q drop_hdrs_gone [of b i] by auto
    then have p: "hdr s b = Some p" using q drop_hdrs_keep(1) [OF assms n] by simp
    obtain h where "bhs s p = Some h" "hdr_ok s b h" using bcache_inv_hdr [OF assms(1) p] .
    then show ?thesis using drop_hdrs_keep(2,3) [OF assms n] p bcache_invD(5) [OF assms(1) p] by simp
  qed
  moreover have "j < 2 ^ 20 \<and> length (pg_data qg) = 4096 \<and> length (blk_headers qg) \<in> {0, 8}" if "bpages ?s j = Some qg" for j qg
    using that bcache_invD(2-4) [OF assms(1)] assms(2) by (auto simp: drop_hdrs_simps split: if_splits)
  ultimately show ?thesis using bcache_invD(1) [OF assms(1)] unfolding bcache_inv_def by (simp add: drop_hdrs_simps)
qed

lemma drop_hdrs_abs:
  assumes "bcache_inv s" "bpages s i = Some pg" "\<forall>p \<in> set (blk_headers pg). bh_ref (the (bhs s p)) = 0"
  shows "absb (drop_hdrs i pg s) as = absb s as"
proof (intro blocks_eqI ext set_eqI)
  fix b
  show "bdata (absb (drop_hdrs i pg s) as) b = bdata (absb s as) b" using assms(2) by (simp add: absb_def drop_hdrs_simps cong: option.case_cong)
  have gone: "bh_ref (the (bhs s p)) = 0 \<and> \<not> bh_locked (the (bhs s p))" if p: "unat b div 8 = i" "hdr s b = Some p" for p
  proof -
    obtain h where h: "bhs s p = Some h" "hdr_ok s b h" using bcache_inv_hdr [OF assms(1) p(2)] .
    have "p \<in> set (blk_headers pg)" using p assms(2) bcache_invD(4) [OF assms(1,2)] by (auto simp: hdr_def split: if_splits)
    then show ?thesis using assms(3) h by (auto simp: hdr_ok_def)
  qed
  show "bref (absb (drop_hdrs i pg s) as) b = bref (absb s as) b" "b \<in> bheld (absb (drop_hdrs i pg s) as) \<longleftrightarrow> b \<in> bheld (absb s as)"
    using gone drop_hdrs_gone [of b i pg s] drop_hdrs_keep(1,3) [OF assms(1,2), of b]
    by (cases "unat b div 8 = i"; cases "hdr s b"; simp add: absb_def)+
qed simp

text \<open>Freeing the headers of a page without pinned blocks leaves the represented store as it is.\<close>

lemma free_headers_refines:
  assumes "bcache_inv s" "bpages s i = Some pg" "\<forall>p \<in> set (blk_headers pg). bh_ref (the (bhs s p)) = 0"
  shows "\<exists>s'. free_blk_headers s i = Some s' \<and> bcache_inv s' \<and> absb s' as = absb s as"
proof (cases "pg_dirty pg")
  case True
  then show ?thesis using assms(1,2) by (simp add: free_blk_headers_def)
next
  case False
  have "\<forall>p \<in> set (blk_headers pg). \<exists>h. bhs s p = Some h \<and> \<not> bdev_is_blk_dirty h"
    using hdrs_mem [OF assms(1,2)] False assms(2) by (metis hdr_ok_def option.sel)
  then have "free_blk_headers s i = Some (drop_hdrs i pg s)"
    using free_loop_ok [OF hdrs_distinct [OF assms(1,2)]] assms(2) False by (simp add: free_blk_headers_def drop_hdrs_def)
  then show ?thesis using drop_hdrs_inv [OF assms(1,2)] drop_hdrs_abs [OF assms] by simp
qed

lemma release_unlocked_refines:
  assumes "bcache_inv s" "hdr s blk = Some p" "bref (absb s as) blk > 0" "blk \<notin> bheld (absb s as)"
  shows "\<exists>s'. bdev_release_blk_unlocked s p = Some s' \<and> bcache_inv s' \<and> absb s' as = (absb s as)\<lparr>bref := (bref (absb s as))(blk := bref (absb s as) blk - 1)\<rparr>"
proof -
  obtain h where h: "bhs s p = Some h" "hdr_ok s blk h" using bcache_inv_hdr [OF assms(1,2)] .
  obtain pg where pg: "bpages s (unat blk div 8) = Some pg" using assms(2) by (auto simp: hdr_def split: option.splits)
  have r: "bref (absb s as) blk = unat (bh_ref h)" "\<not> bh_locked h" using assms(2,4) h(1) by (simp_all add: absb_def)
  then have gt: "bh_ref h > 0" using assms(3) by (simp add: word_less_nat_alt)
  define r1 where "r1 = bh_ref h - 1"
  have dec: "unat r1 = unat (bh_ref h) - 1" using gt by (simp add: r1_def unat_minus_one word_gt_0)
  let ?h = "h\<lparr>bh_ref := r1\<rparr>" and ?s = "set_bh p (h\<lparr>bh_ref := r1\<rparr>) s"
  have ok: "hdr_ok s blk ?h" using h(2) r(2) by (simp add: hdr_ok_def bdev_is_blk_valid_def bdev_is_blk_dirty_def)
  note inv = set_bh_refines(1) [OF assms(1,2) ok]
  have a: "absb ?s as = (absb s as)\<lparr>bref := (bref (absb s as))(blk := bref (absb s as) blk - 1)\<rparr>"
    using assms(4) r dec by (simp add: set_bh_refines(2) [OF assms(1,2) ok])
  have pg': "bpages ?s (unat blk div 8) = Some pg" using pg by simp
  have "\<forall>q \<in> set (blk_headers pg). bhs ?s q \<noteq> None" using hdrs_mem [OF inv pg'] by (metis option.distinct(1))
  then have z: "blocks_zero_ref ?s pg = Some (\<forall>q \<in> set (blk_headers pg). bh_ref (the (bhs ?s q)) = 0)"
    unfolding blocks_zero_ref_def by (rule zero_ref_loop_ok)
  define s1 where "s1 = ?s"
  have "bh_page h = unat blk div 8" using h(2) by (simp add: hdr_ok_def)
  then have e: "bdev_release_blk_unlocked s p = do {
      pg \<leftarrow> bpages s1 (unat blk div 8);
      zero \<leftarrow> (if r1 = 0 then blocks_zero_ref s1 pg else Some False);
      if zero then free_blk_headers s1 (unat blk div 8) else Some s1 }"
    using h(1) gt by (simp add: bdev_release_blk_unlocked_def Let_def r1_def s1_def cong: if_cong)
  have "bdev_release_blk_unlocked s p =
      (if r1 = 0 \<and> (\<forall>q \<in> set (blk_headers pg). bh_ref (the (bhs s1 q)) = 0) then free_blk_headers s1 (unat blk div 8) else Some s1)"
    using pg' z unfolding e s1_def [symmetric] by auto
  then show ?thesis using free_headers_refines [OF inv pg', of as] a inv unfolding s1_def by auto
qed

section \<open>The cache implements the store\<close>

lemma data_bytes:
  assumes "length pd = 4096" "length (d :: u8 list) = 512" "k < 8" "m < 8"
  shows "take 512 (drop (512 * m) (take (512 * k) pd @ d @ drop (512 * k + 512) pd)) = (if m = k then d else take 512 (drop (512 * m) pd))"
proof -
  consider "m = k" | "m < k" | "k < m" by linarith
  then show ?thesis
  proof cases
    case 2
    then have "512 * m + 512 \<le> 512 * k" by simp
    then show ?thesis using assms 2 by (simp add: take_drop min_absorb1)
  next
    case 3
    then have "512 * m = 512 * k + 512 + (512 * (m - k - 1))" by simp
    then show ?thesis using assms 3 by (simp add: add.commute)
  qed (use assms in simp)
qed

lemma page_data:
  assumes "bpages s (unat blk div 8) = Some pg" "length (pg_data pg) = 4096" "length d = 512"
  shows "bdata (absb (set_page (unat blk div 8) (pg\<lparr>pg_data := take (512 * (unat blk mod 8)) (pg_data pg) @ d @ drop (512 * (unat blk mod 8) + 512) (pg_data pg),
      pg_dirty := True\<rparr>) s) as) = (bdata (absb s as))(blk := d)"
proof
  fix b
  show "bdata (absb (set_page (unat blk div 8) (pg\<lparr>pg_data := take (512 * (unat blk mod 8)) (pg_data pg) @ d @ drop (512 * (unat blk mod 8) + 512) (pg_data pg),
      pg_dirty := True\<rparr>) s) as) b = ((bdata (absb s as))(blk := d)) b"
  proof (cases "unat b div 8 = unat blk div 8")
    case True
    then have "unat b mod 8 = unat blk mod 8 \<longleftrightarrow> unat b = unat blk" using div_mult_mod_eq [of "unat b" 8] div_mult_mod_eq [of "unat blk" 8] by metis
    then have e: "unat b mod 8 = unat blk mod 8 \<longleftrightarrow> b = blk" by (simp add: word_unat_eq_iff)
    have "unat blk mod 8 < 8" "unat b mod 8 < 8" by simp_all
    note d = data_bytes [OF assms(2,3) this]
    show ?thesis unfolding absb_def set_page_def by (simp add: True assms(1) d e del: take_append drop_append)
  next
    case False
    then have "b \<noteq> blk" by auto
    then show ?thesis using False by (simp add: absb_def set_page_def cong: option.case_cong)
  qed
qed

text \<open>A store through the data pointer, with the dirty bit that every writer sets.\<close>

lemma store_refines:
  assumes "bcache_inv s" "hdr s blk = Some p" "length d = 512"
  shows "\<exists>s1 s2. store_bytes s p d = Some s1 \<and> bdev_set_blk_dirty s1 p True = Some s2 \<and> bcache_inv s2 \<and> hdr s2 = hdr s \<and> absb s2 as = put_blk (absb s as) blk d"
proof -
  let ?i = "unat blk div 8" and ?k = "unat blk mod 8"
  obtain h where h: "bhs s p = Some h" "hdr_ok s blk h" using bcache_inv_hdr [OF assms(1,2)] .
  obtain pg where pg: "bpages s ?i = Some pg" using assms(2) by (auto simp: hdr_def split: option.splits)
  define data where "data = take (512 * ?k) (pg_data pg) @ d @ drop (512 * ?k + 512) (pg_data pg)"
  define h' where "h' = h\<lparr>bh_state := set_state_bit (bh_state h) BLK_HEADER_DIRTY True\<rparr>"
  define s1 where "s1 = set_page ?i (pg\<lparr>pg_data := data, pg_dirty := True\<rparr>) s"
  have e: "bhs s1 = bhs s" "disk s1 = disk s" "bpages s1 = (bpages s)(?i := Some (pg\<lparr>pg_data := data, pg_dirty := True\<rparr>))" "hdr s1 = hdr s"
    using pg by (auto simp: s1_def set_page_def hdr_def fun_eq_iff)
  have l: "length (pg_data pg) = 4096" "512 * ?k + 512 \<le> 4096" "length data = 4096"
    using bcache_invD(3) [OF assms(1) pg] assms(3) by (auto simp: data_def)
  have w: "hdr_ok s1 b q" if "hdr_ok s b q" for b q using that e(3) by (auto simp: hdr_ok_def)
  have "q \<noteq> NULL \<and> (\<exists>h. bhs s q = Some h \<and> hdr_ok s1 b h)" if "hdr s b = Some q" for b q
    using bcache_inv_hdr [OF assms(1) that] w bcache_invD(5) [OF assms(1) that] by metis
  then have i1: "bcache_inv s1" using assms(1) pg l(3) unfolding bcache_inv_def e by (auto split: if_splits)
  have ok: "hdr_ok s1 blk h'" using h(2) by (auto simp: hdr_ok_def h'_def e bdev_is_blk_valid_def bdev_is_blk_dirty_def get_state_bit_bit bit_set_state_bit)
  have s: "store_bytes s p d = Some (set_page ?i (pg\<lparr>pg_data := data\<rparr>) s)"
    using h pg assms(3) by (simp add: store_bytes_def hdr_ok_def data_def)
  moreover have "bdev_set_blk_dirty (set_page ?i (pg\<lparr>pg_data := data\<rparr>) s) p True = Some (set_bh p h' s1)"
    using h by (simp add: bdev_set_blk_dirty_def set_page_def s1_def set_bh_def h'_def hdr_ok_def)
  moreover have "absb (set_bh p h' s1) as = put_blk (absb s as) blk d"
  proof -
    have d: "bdata (absb s1 as) = bdata (put_blk (absb s as) blk d)"
      using page_data [OF pg l(1) assms(3)] by (simp add: s1_def data_def)
    have "unat (bh_ref h') = bref (absb s as) blk" "bh_locked h' \<longleftrightarrow> blk \<in> bheld (absb s as)" "bref (absb s1 as) = bref (absb s as)" "bheld (absb s1 as) = bheld (absb s as)"
      using assms(2) h(1) by (simp_all add: absb_def h'_def e cong: option.case_cong)
    then show ?thesis using set_bh_refines(2) [OF i1 _ ok, of p as] assms(2) e(4) d by (intro blocks_eqI) (simp_all add: insert_absorb)
  qed
  ultimately show ?thesis using set_bh_refines(1) [OF i1 _ ok] assms(2) e(4) by (metis set_bh_simps(4))
qed

lemma blk_bytes_refines:
  assumes "bcache_inv s" "hdr s blk = Some p"
  shows "blk_bytes s p = Some (bdata (absb s as) blk)"
proof -
  obtain h where h: "bhs s p = Some h" "hdr_ok s blk h" using bcache_inv_hdr [OF assms] .
  then show ?thesis using assms(2) by (auto simp: blk_bytes_def absb_def hdr_def hdr_ok_def split: option.splits)
qed

lemma absb_answers_update: "absb s as' = (absb s as)\<lparr>answers := as'\<rparr>"
  by (simp add: absb_def)

lemma absb_hdr:
  assumes "hdr s b = Some p" "bhs s p = Some h"
  shows "bref (absb s as) b = unat (bh_ref h)" "b \<in> bheld (absb s as) \<longleftrightarrow> bh_locked h"
  using assms by (simp_all add: absb_def)

lemma get_blk_refines:
  assumes "bcache_inv s" "unat blk < 2 ^ 23" "bref (absb s as) blk < 2 ^ 32 - 1" "news_ok s news" "as 0 = can_get s ok news blk"
  shows "rel_option (\<lambda>(p, s', _) (got, a). bcache_inv s' \<and> a = absb s' (answers a) \<and> got = (p \<noteq> NULL)
          \<and> (got \<longrightarrow> hdr s' blk = Some p \<and> blk_bytes s' p = Some (bdata a blk)))
        (bdev_get_blk s ok news st0 blk) (get_blk (absb s as) blk)"
proof (cases "can_get s ok news blk")
  case True
  define as' where "as' = (if bref (absb s as) blk > 0 then as else (\<lambda>n. as (Suc n)))"
  let ?pin = "(absb s as)\<lparr>bref := (bref (absb s as))(blk := bref (absb s as) blk + 1)\<rparr>"
  obtain p s1 news' where s1: "bdev_get_blk_unlocked s ok news st0 blk = Some (p, s1, news')" "bcache_inv s1" "hdr s1 blk = Some p" "absb s1 as = ?pin"
    using get_unlocked_ok [OF assms(1,2,4) True assms(3)] by metis
  obtain h where h: "bhs s1 p = Some h" "hdr_ok s1 blk h" using bcache_inv_hdr [OF s1(2,3)] .
  have p: "p \<noteq> NULL" using bcache_invD(5) [OF s1(2,3)] .
  have pin: "pin_blk (absb s as) blk = (True, ?pin\<lparr>answers := as'\<rparr>)" using True assms(5) by (simp add: pin_blk_def as'_def)
  have l: "bh_locked h \<longleftrightarrow> blk \<in> bheld (absb s as)" "unat (bh_ref h) = bref (absb s as) blk + 1"
    using absb_hdr [OF s1(3) h(1), of as] s1(4) by simp_all
  show ?thesis
  proof (cases "bh_locked h")
    case False
    let ?h = "h\<lparr>bh_locked := True\<rparr>"
    have ok: "hdr_ok s1 blk ?h" using h(2) l(2) by (auto simp: hdr_ok_def bdev_is_blk_valid_def bdev_is_blk_dirty_def word_less_nat_alt)
    have "bdev_get_blk s ok news st0 blk = Some (p, set_bh p ?h s1, news')" using s1(1) h(1) False p by (simp add: bdev_get_blk_def)
    moreover have "absb (set_bh p ?h s1) as' = ?pin\<lparr>answers := as', bheld := insert blk (bheld (absb s as))\<rparr>"
      using l(2) by (simp add: set_bh_refines(2) [OF s1(2,3) ok] absb_answers_update [of s1 as' as] s1(4))
    moreover have "get_blk (absb s as) blk = Some (True, ?pin\<lparr>answers := as', bheld := insert blk (bheld (absb s as))\<rparr>)"
      using pin l(1) False by (simp add: get_blk_def)
    ultimately show ?thesis
      using p s1(3) set_bh_refines(1) [OF s1(2,3) ok] blk_bytes_refines [OF set_bh_refines(1) [OF s1(2,3) ok], of blk p as'] by simp
  qed (use s1(1) h(1) p pin l(1) in \<open>simp add: bdev_get_blk_def get_blk_def\<close>)
next
  case False
  have "hdr s blk = None" using False by (auto simp: can_get_def hdr_def split: option.splits)
  then have "get_blk (absb s as) blk = Some (False, absb s (\<lambda>n. as (Suc n)))" using False assms(5)
    by (simp add: get_blk_def pin_blk_def absb_answers_update [of s "\<lambda>n. as (Suc n)" as]) (simp add: absb_def)
  moreover obtain s' news' where "bdev_get_blk_unlocked s ok news st0 blk = Some (NULL, s', news')" "bcache_inv s'" "absb s' as = absb s as"
    using get_unlocked_fails [OF assms(1,2) False] by metis
  ultimately show ?thesis by (simp add: bdev_get_blk_def absb_answers_update [of s' "\<lambda>n. as (Suc n)" as] absb_answers_update [of s "\<lambda>n. as (Suc n)" as])
qed

lemma release_blk_refines:
  assumes "bcache_inv s" "hdr s blk = Some p"
  shows "rel_option (\<lambda>s' a. bcache_inv s' \<and> a = absb s' as) (bdev_release_blk s p) (release_blk (absb s as) blk)"
proof -
  obtain h where h: "bhs s p = Some h" "hdr_ok s blk h" using bcache_inv_hdr [OF assms] .
  have l: "bh_locked h \<longleftrightarrow> blk \<in> bheld (absb s as)" "unat (bh_ref h) = bref (absb s as) blk" using assms(2) h(1) by (simp_all add: absb_def)
  show ?thesis
  proof (cases "bh_locked h")
    case True
    let ?h = "h\<lparr>bh_locked := False\<rparr>"
    have ok: "hdr_ok s blk ?h" using h(2) by (simp add: hdr_ok_def bdev_is_blk_valid_def bdev_is_blk_dirty_def)
    have a: "absb (set_bh p ?h s) as = (absb s as)\<lparr>bheld := bheld (absb s as) - {blk}\<rparr>"
      using l(2) by (simp add: set_bh_refines(2) [OF assms ok])
    have "bh_ref h > 0" using h(2) True by (simp add: hdr_ok_def)
    then have r: "bref (absb s as) blk > 0" using l(2) by (simp add: word_less_nat_alt)
    then obtain s' where "bdev_release_blk_unlocked (set_bh p ?h s) p = Some s'" "bcache_inv s'"
        "absb s' as = (absb s as)\<lparr>bheld := bheld (absb s as) - {blk}, bref := (bref (absb s as))(blk := bref (absb s as) blk - 1)\<rparr>"
      using release_unlocked_refines [OF set_bh_refines(1) [OF assms ok], of blk p as] assms(2) by (auto simp: a)
    then show ?thesis using h(1) True l(1) r by (simp add: bdev_release_blk_def release_blk_eq)
  qed (use h(1) l(1) in \<open>simp add: bdev_release_blk_def release_blk_def\<close>)
qed

text \<open>C17. The page-based cache implements the block store, for block numbers whose byte offset fits 32 bits and pin counts that do not wrap.  Getting a block returns or stops exactly as in the store, where the block
  can be had when its page and headers are cached or there is memory for them; a block that was got has a header whose data are
  the bytes of the block.  Overwriting the data and releasing the block are the same operations of the store, so that no
  eviction or freeing of headers loses a write.\<close>

theorem bdev_cache_refines:
  assumes "bcache_inv s" "unat blk < 2 ^ 23" "bref (absb s as) blk < 2 ^ 32 - 1" "news_ok s news" "as 0 = can_get s ok news blk"
  shows "rel_option (\<lambda>(p, s', _) (got, a). bcache_inv s' \<and> a = absb s' (answers a) \<and> got = (p \<noteq> NULL)
          \<and> (got \<longrightarrow> hdr s' blk = Some p \<and> blk_bytes s' p = Some (bdata a blk)))
        (bdev_get_blk s ok news st0 blk) (get_blk (absb s as) blk)
    \<and> (\<forall>p. hdr s blk = Some p \<longrightarrow>
        rel_option (\<lambda>s' a. bcache_inv s' \<and> a = absb s' as) (bdev_release_blk s p) (release_blk (absb s as) blk)
        \<and> (\<forall>d. length d = 512 \<longrightarrow> (\<exists>s1 s2. store_bytes s p d = Some s1 \<and> bdev_set_blk_dirty s1 p True = Some s2 \<and> bcache_inv s2 \<and> hdr s2 = hdr s
             \<and> absb s2 as = put_blk (absb s as) blk d)))"
  using get_blk_refines [OF assms] release_blk_refines [OF assms(1)] store_refines [OF assms(1)] by (intro conjI allI impI)

theorem bdev_cache_refines_witness:
  "\<exists>p s' ns. bdev_get_blk \<lparr>bpages = (\<lambda>_. None), bhs = (\<lambda>_. None), disk = (\<lambda>_. replicate 512 0)\<rparr> True [1, 2, 3, 4, 5, 6, 7, 8] 0 9 = Some (p, s', ns)
     \<and> p \<noteq> NULL \<and> hdr s' 9 = Some p \<and> bcache_inv s'"
proof -
  let ?s = "\<lparr>bpages = (\<lambda>_. None), bhs = (\<lambda>_. None), disk = (\<lambda>_. replicate 512 0)\<rparr> :: bdev_sys"
  have h: "hdr ?s b = None" for b by (simp add: hdr_def)
  have i: "bcache_inv ?s" by (simp add: bcache_inv_def h)
  have n: "news_ok ?s [1, 2, 3, 4, 5, 6, 7, 8]" by (simp add: news_ok_def fresh8_def)
  have "bref (absb ?s as) 9 < 2 ^ 32 - 1" "can_get ?s True [1, 2, 3, 4, 5, 6, 7, 8] 9" for as by (simp_all add: absb_def h can_get_def)
  then have "rel_option (\<lambda>(p, s', _) (got, a). bcache_inv s' \<and> a = absb s' (answers a) \<and> got = (p \<noteq> NULL)
      \<and> (got \<longrightarrow> hdr s' 9 = Some p \<and> blk_bytes s' p = Some (bdata a 9)))
      (bdev_get_blk ?s True [1, 2, 3, 4, 5, 6, 7, 8] 0 9) (get_blk (absb ?s (\<lambda>_. True)) 9)"
    using bdev_cache_refines [OF i _ _ n, of 9 "\<lambda>_. True" True 0] by simp
  moreover have "\<exists>a. get_blk (absb ?s (\<lambda>_. True)) 9 = Some (True, a)" by (simp add: get_blk_def pin_blk_def absb_def h)
  ultimately show ?thesis using i by (auto simp: option_rel_Some2)
qed

end
