(* ===== verification/Bytes.thy ===== *)
theory Bytes
  imports Prelude
begin

text \<open>
  Numbers in memory: little-endian bytes, as the processor stores them in disk blocks and on stacks, and overwriting a range of a block.
\<close>

fun le_bytes :: "nat \<Rightarrow> nat \<Rightarrow> u8 list" where
  "le_bytes 0 x = []"
| "le_bytes (Suc n) x = of_nat x # le_bytes n (x div 256)"

fun le_nat :: "u8 list \<Rightarrow> nat" where
  "le_nat [] = 0"
| "le_nat (b # bs) = unat b + 256 * le_nat bs"

definition rd :: "u8 list \<Rightarrow> nat \<Rightarrow> nat \<Rightarrow> nat" where
  "rd d ofs n = le_nat (take n (drop ofs d))"

definition put_bytes :: "u8 list \<Rightarrow> nat \<Rightarrow> u8 list \<Rightarrow> u8 list" where
  "put_bytes d ofs bs = take ofs d @ bs @ drop (ofs + length bs) d"

lemma length_le_bytes [simp]: "length (le_bytes n x) = n"
  by (induction n arbitrary: x) auto

lemma le_nat_le_bytes: "le_nat (le_bytes n x) = x mod 256 ^ n"
proof (induction n arbitrary: x)
  case (Suc n)
  have "unat (of_nat x :: u8) = x mod 256" by (simp add: unat_of_nat)
  moreover have "x mod (256 * 256 ^ n) = x mod 256 + 256 * (x div 256 mod 256 ^ n)"
    by (simp add: mod_mult2_eq add.commute mult.commute)
  ultimately show ?case using Suc by simp
qed simp

lemma le_nat_less: "le_nat bs < 256 ^ length bs"
proof (induction bs)
  case (Cons b bs)
  have "unat b < 256" using unsigned_less [of b, where ?'a = nat] by simp
  then show ?case using Cons by simp
qed simp

lemma length_put_bytes [simp]: "ofs + length bs \<le> length d \<Longrightarrow> length (put_bytes d ofs bs) = length d"
  by (simp add: put_bytes_def)

lemma nth_put_bytes:
  "ofs + length bs \<le> length d \<Longrightarrow> i < length d \<Longrightarrow>
   put_bytes d ofs bs ! i = (if ofs \<le> i \<and> i < ofs + length bs then bs ! (i - ofs) else d ! i)"
  by (auto simp: put_bytes_def nth_append min_def)

lemma take_drop_put_bytes_same: "ofs + length bs \<le> length d \<Longrightarrow> n = length bs \<Longrightarrow> take n (drop ofs (put_bytes d ofs bs)) = bs"
  by (simp add: put_bytes_def)

lemma take_drop_put_bytes_other:
  assumes "ofs + length bs \<le> length d" "o' + n \<le> ofs \<or> ofs + length bs \<le> o'" "o' + n \<le> length d"
  shows "take n (drop o' (put_bytes d ofs bs)) = take n (drop o' d)"
  using assms by (intro nth_equalityI) (auto simp: nth_put_bytes)

lemma rd_put_same: "ofs + n \<le> length d \<Longrightarrow> rd (put_bytes d ofs (le_bytes n x)) ofs n = x mod 256 ^ n"
  by (simp add: rd_def take_drop_put_bytes_same le_nat_le_bytes)

lemma rd_put_other:
  "ofs + length bs \<le> length d \<Longrightarrow> o' + n \<le> ofs \<or> ofs + length bs \<le> o' \<Longrightarrow> o' + n \<le> length d \<Longrightarrow> rd (put_bytes d ofs bs) o' n = rd d o' n"
  by (simp add: rd_def take_drop_put_bytes_other)

end
