(* ===== verification/Sfs.thy ===== *)
theory Sfs
  imports Bdev Bytes
begin

text \<open>
  The simple file system, \<^verbatim>\<open>kernel/fs/sfs/sfs.c\<close>: bitmaps, on-disk inodes, the block map of a file and the data of files.
  The functions work on the block store of \<open>Bdev\<close>, whose blocks they pin and lock, and on an inode whose lock the
  caller holds; the inode is passed and returned as a value.  \<open>sfs_get_sb\<close> disables the journal, so the calls of \<open>jbd_write_blk\<close>
  return at once and are left out.  Besides a failed assertion \<open>None\<close> is an access outside an array.
  The lemmas show that block allocation gives out free blocks only, that a write changes exactly the bytes of its
  range, and that a read gives back what was written.
\<close>

section \<open>On-disk data\<close>

abbreviation (input) SFS_SUPER_BLK :: blk_t where "SFS_SUPER_BLK \<equiv> 2"
abbreviation (input) SFS_INODE_BMAP_BLK :: blk_t where "SFS_INODE_BMAP_BLK \<equiv> 3"
abbreviation (input) SFS_INODE_TABLE_BLK :: blk_t where "SFS_INODE_TABLE_BLK \<equiv> 4"
abbreviation (input) SFS_ROOT_INUM :: u32 where "SFS_ROOT_INUM \<equiv> 1"
abbreviation (input) SFS_NDIRECT :: nat where "SFS_NDIRECT \<equiv> 12"
abbreviation (input) SFS_NINDIRECT :: nat where "SFS_NINDIRECT \<equiv> 2"
abbreviation (input) SFS_MAX_FILE_SIZE :: u64 where "SFS_MAX_FILE_SIZE \<equiv> 137216"
abbreviation (input) sizeof_sfs_inode :: nat where "sizeof_sfs_inode \<equiv> 64"
abbreviation (input) ERR_INCOMP :: err_t where "ERR_INCOMP \<equiv> -6"
abbreviation (input) ERR_FTYPE :: err_t where "ERR_FTYPE \<equiv> -7"
abbreviation (input) ERR_NOTEMPTY :: err_t where "ERR_NOTEMPTY \<equiv> -9"
abbreviation (input) INODE_VALID :: nat where "INODE_VALID \<equiv> 0"
abbreviation (input) INODE_DIRTY :: nat where "INODE_DIRTY \<equiv> 1"

record sfs_sb_info =
  s_size :: u64
  s_num_inodes :: u64
  s_data_bmap_start :: blk_t
  s_journal_start :: blk_t
  s_data_start :: blk_t

text \<open>An inode in memory with its file system part, the block addresses.\<close>

record inode =
  i_inum :: u32
  i_ref :: u32
  i_nlink :: u32
  i_ftype :: u32
  i_mode :: u32
  i_size :: u64
  i_state :: state_t
  i_locked :: bool
  i_addrs :: "blk_t list"

definition fs_is_inode_valid :: "inode \<Rightarrow> bool" where
  "fs_is_inode_valid ino = get_state_bit (i_state ino) INODE_VALID"

definition fs_set_inode_valid :: "inode \<Rightarrow> bool \<Rightarrow> inode" where
  "fs_set_inode_valid ino v = ino\<lparr>i_state := set_state_bit (i_state ino) INODE_VALID v\<rparr>"

definition fs_is_inode_dirty :: "inode \<Rightarrow> bool" where
  "fs_is_inode_dirty ino = get_state_bit (i_state ino) INODE_DIRTY"

definition fs_set_inode_dirty :: "inode \<Rightarrow> bool \<Rightarrow> inode" where
  "fs_set_inode_dirty ino v = ino\<lparr>i_state := set_state_bit (i_state ino) INODE_DIRTY v\<rparr>"

definition inum_to_blk :: "u32 \<Rightarrow> blk_t" where
  "inum_to_blk inum = SFS_INODE_TABLE_BLK + (inum - 1) div 8"

definition inum_to_ofs :: "u32 \<Rightarrow> nat" where
  "inum_to_ofs inum = (unat (inum - 1) * sizeof_sfs_inode) mod BDEV_BLK_SIZE"

section \<open>Bitmaps\<close>

function bmap_bits :: "u8 \<Rightarrow> nat \<Rightarrow> nat option" where
  "bmap_bits v b = (if b < 8 then if v AND push_bit b 1 = 0 then Some b else bmap_bits v (b + 1) else None)"
  by pat_completeness auto
termination by (relation "measure (\<lambda>(v, b). 8 - b)") auto

declare bmap_bits.simps [simp del]

text \<open>The first free element, as its byte and bit.\<close>

function bmap_bytes :: "u8 list \<Rightarrow> nat \<Rightarrow> nat \<Rightarrow> (nat \<times> nat) option exec" where
  "bmap_bytes d sz byte =
     (if byte < sz then
        if byte < length d then
          (case bmap_bits (d ! byte) 0 of
             Some b \<Rightarrow> Some (Some (byte, b))
           | None \<Rightarrow> bmap_bytes d sz (byte + 1))
        else None
      else Some None)"
  by pat_completeness auto
termination by (relation "measure (\<lambda>(d, sz, byte). sz - byte)") auto

declare bmap_bytes.simps [simp del]

definition bmap_alloc_element :: "blocks \<Rightarrow> blk_t \<Rightarrow> nat \<Rightarrow> (nat option \<times> blocks) exec" where
  "bmap_alloc_element s bh sz = do {
     r \<leftarrow> bmap_bytes (bdata s bh) sz 0;
     case r of
       None \<Rightarrow> Some (None, s)
     | Some (byte, b) \<Rightarrow>
         Some (Some (byte * 8 + b), put_blk s bh ((bdata s bh)[byte := bdata s bh ! byte OR push_bit b 1])) }"

definition bmap_free_element :: "blocks \<Rightarrow> blk_t \<Rightarrow> nat \<Rightarrow> blocks exec" where
  "bmap_free_element s bh index = do {
     kassert (index div 8 < length (bdata s bh));
     Some (put_blk s bh ((bdata s bh)[index div 8 := bdata s bh ! (index div 8) AND NOT (push_bit (index mod 8) 1)])) }"

section \<open>Inodes on disk\<close>

text \<open>The bytes of a \<open>struct sfs_inode\<close>.\<close>

definition enc_inode :: "inode \<Rightarrow> u8 list" where
  "enc_inode ino = le_bytes 1 (unat (i_ftype ino)) @ le_bytes 1 (unat (i_mode ino)) @ le_bytes 2 (unat (i_nlink ino))
     @ le_bytes 4 (unat (i_size ino)) @ concat (map (\<lambda>a. le_bytes 4 (unat a)) (i_addrs ino))"

definition dec_inode :: "u8 list \<Rightarrow> nat \<Rightarrow> inode \<Rightarrow> inode" where
  "dec_inode d ofs ino = ino\<lparr>i_ftype := of_nat (rd d ofs 1), i_mode := of_nat (rd d (ofs + 1) 1), i_nlink := of_nat (rd d (ofs + 2) 2),
     i_size := of_nat (rd d (ofs + 4) 4), i_addrs := map (\<lambda>k. of_nat (rd d (ofs + 8 + 4 * k) 4)) [0..<SFS_NDIRECT + SFS_NINDIRECT]\<rparr>"

definition sfs_read_inode :: "blocks \<Rightarrow> inode \<Rightarrow> (err_t \<times> blocks \<times> inode) exec" where
  "sfs_read_inode s ino = do {
     kassert (i_inum ino \<noteq> 0);
     kassert (\<not> fs_is_inode_dirty ino);
     let bh = inum_to_blk (i_inum ino);
     (ok, s) \<leftarrow> get_blk s bh;
     if \<not> ok then Some (ERR_NOMEM, s, ino)
     else do {
       let ino = fs_set_inode_valid (dec_inode (bdata s bh) (inum_to_ofs (i_inum ino)) ino) True;
       s \<leftarrow> release_blk s bh;
       Some (ERR_OK, s, ino) } }"

definition sfs_write_inode :: "blocks \<Rightarrow> inode \<Rightarrow> (err_t \<times> blocks \<times> inode) exec" where
  "sfs_write_inode s ino = do {
     kassert (i_inum ino \<noteq> 0);
     let bh = inum_to_blk (i_inum ino);
     (ok, s) \<leftarrow> get_blk s bh;
     if \<not> ok then Some (ERR_NOMEM, s, ino)
     else do {
       let s = put_blk s bh (put_bytes (bdata s bh) (inum_to_ofs (i_inum ino)) (enc_inode ino));
       s \<leftarrow> release_blk s bh;
       Some (ERR_OK, s, fs_set_inode_dirty ino False) } }"

text \<open>The result of \<open>alloc_disk_inode\<close> is the error and the inode number.\<close>

definition alloc_disk_inode :: "sfs_sb_info \<Rightarrow> blocks \<Rightarrow> u32 \<Rightarrow> u32 \<Rightarrow> (err_t \<times> u32 \<times> blocks) exec" where
  "alloc_disk_inode si s ftype mode = do {
     (ok, s) \<leftarrow> get_blk s SFS_INODE_BMAP_BLK;
     if \<not> ok then Some (ERR_NOMEM, 0, s)
     else do {
       (r, s) \<leftarrow> bmap_alloc_element s SFS_INODE_BMAP_BLK (unat (s_num_inodes si div 8));
       case r of
         None \<Rightarrow> do { s \<leftarrow> release_blk s SFS_INODE_BMAP_BLK; Some (ERR_NORES, 0, s) }
       | Some index \<Rightarrow> do {
           let inum = of_nat (index + 1);
           let bh = inum_to_blk inum;
           (ok, s) \<leftarrow> get_blk s bh;
           if \<not> ok then do {
             s \<leftarrow> bmap_free_element s SFS_INODE_BMAP_BLK index;
             s \<leftarrow> release_blk s SFS_INODE_BMAP_BLK;
             Some (ERR_NOMEM, inum, s) }
           else do {
             s \<leftarrow> release_blk s SFS_INODE_BMAP_BLK;
             let new = \<lparr>i_inum = inum, i_ref = 0, i_nlink = 1, i_ftype = ftype, i_mode = mode, i_size = 0, i_state = 0, i_locked = False,
               i_addrs = replicate (SFS_NDIRECT + SFS_NINDIRECT) 0\<rparr>;
             s \<leftarrow> release_blk (put_blk s bh (put_bytes (bdata s bh) (inum_to_ofs inum) (enc_inode new))) bh;
             Some (ERR_OK, inum, s) } } } }"

definition free_disk_inode :: "blocks \<Rightarrow> u32 \<Rightarrow> (err_t \<times> blocks) exec" where
  "free_disk_inode s inum = do {
     kassert (inum \<noteq> 0);
     (ok, s) \<leftarrow> get_blk s SFS_INODE_BMAP_BLK;
     if \<not> ok then Some (ERR_NOMEM, s)
     else do {
       s \<leftarrow> bmap_free_element s SFS_INODE_BMAP_BLK (unat (inum - 1));
       s \<leftarrow> release_blk s SFS_INODE_BMAP_BLK;
       Some (ERR_OK, s) } }"

section \<open>Data blocks\<close>

definition data_blk :: "sfs_sb_info \<Rightarrow> blk_t \<Rightarrow> nat \<Rightarrow> blk_t" where
  "data_blk si bmap_blk index = s_data_start si + 4096 * (bmap_blk - s_data_bmap_start si) + of_nat index"

text \<open>The loop over the bitmap blocks.\<close>

function alloc_loop :: "sfs_sb_info \<Rightarrow> blocks \<Rightarrow> blk_t \<Rightarrow> u64 \<Rightarrow> (err_t \<times> blk_t \<times> blocks) exec" where
  "alloc_loop si s bmap_blk num_blks =
     (if bmap_blk < s_journal_start si then do {
        (ok, s) \<leftarrow> get_blk s bmap_blk;
        if \<not> ok then Some (ERR_NOMEM, 0, s)
        else do {
          (r, s) \<leftarrow> bmap_alloc_element s bmap_blk (min BDEV_BLK_SIZE (unat (num_blks div 8)));
          case r of
            Some index \<Rightarrow> do {
              let blk = data_blk si bmap_blk index;
              (ok, s) \<leftarrow> get_blk s blk;
              if \<not> ok then do {
                s \<leftarrow> bmap_free_element s bmap_blk index;
                s \<leftarrow> release_blk s bmap_blk;
                Some (ERR_NOMEM, blk, s) }
              else do {
                s \<leftarrow> release_blk s bmap_blk;
                s \<leftarrow> release_blk (put_blk s blk (replicate BDEV_BLK_SIZE 0)) blk;
                Some (ERR_OK, blk, s) } }
          | None \<Rightarrow> do {
              s \<leftarrow> release_blk s bmap_blk;
              alloc_loop si s (bmap_blk + 1) (num_blks - 4096) } } }
      else Some (ERR_NORES, 0, s))"
  by pat_completeness auto
termination by (relation "measure (\<lambda>(si, s, b, n). unat (s_journal_start si) - unat b)") (auto simp: unat_plus_one word_less_nat_alt)

declare alloc_loop.simps [simp del]

definition alloc_data_block :: "sfs_sb_info \<Rightarrow> blocks \<Rightarrow> (err_t \<times> blk_t \<times> blocks) exec" where
  "alloc_data_block si s = alloc_loop si s (s_data_bmap_start si) (s_size si)"

definition free_data_block :: "sfs_sb_info \<Rightarrow> blocks \<Rightarrow> blk_t \<Rightarrow> (err_t \<times> blocks) exec" where
  "free_data_block si s blk = do {
     kassert (blk \<ge> s_data_start si);
     let bmap_blk = s_data_bmap_start si + (blk - s_data_start si) div 4096;
     (ok, s) \<leftarrow> get_blk s bmap_blk;
     if \<not> ok then Some (ERR_NOMEM, s)
     else do {
       s \<leftarrow> bmap_free_element s bmap_blk (unat ((blk - s_data_start si) mod 4096));
       s \<leftarrow> release_blk s bmap_blk;
       Some (ERR_OK, s) } }"

section \<open>The block map of a file\<close>

text \<open>The block of a direct address, allocated on demand.\<close>

definition direct_blk :: "sfs_sb_info \<Rightarrow> blocks \<Rightarrow> inode \<Rightarrow> nat \<Rightarrow> bool \<Rightarrow> (err_t \<times> blk_t \<times> blocks \<times> inode) exec" where
  "direct_blk si s ino blk_index alloc =
     (if i_addrs ino ! blk_index = 0 then
        if \<not> alloc then Some (ERR_NOTEXIST, 0, s, ino)
        else do {
          (err, blk, s) \<leftarrow> alloc_data_block si s;
          if err \<noteq> ERR_OK then Some (err, blk, s, ino)
          else do {
            let ino = fs_set_inode_dirty (ino\<lparr>i_addrs := (i_addrs ino)[blk_index := blk]\<rparr>) True;
            (_, s, ino) \<leftarrow> sfs_write_inode s ino;
            Some (ERR_OK, blk, s, ino) } }
      else Some (ERR_OK, i_addrs ino ! blk_index, s, ino))"

text \<open>The block behind an indirect block.  The third result is the indirect block once it has been got, \<open>indir_bh\<close> of the code.\<close>

definition indirect_blk ::
  "sfs_sb_info \<Rightarrow> blocks \<Rightarrow> inode \<Rightarrow> nat \<Rightarrow> bool \<Rightarrow> (err_t \<times> blk_t \<times> blk_t option \<times> blocks \<times> inode) exec" where
  "indirect_blk si s ino blk_index alloc = do {
     let k = SFS_NDIRECT + (blk_index - SFS_NDIRECT) div 128;
     kassert (k < SFS_NDIRECT + SFS_NINDIRECT);
     (err, _, s, ino) \<leftarrow> direct_blk si s ino k alloc;
     if err \<noteq> ERR_OK then Some (err, 0, None, s, ino)
     else do {
       let ib = i_addrs ino ! k;
       kassert (ib > 0);
       (ok, s) \<leftarrow> get_blk s ib;
       if \<not> ok then Some (ERR_NOMEM, 0, None, s, ino)
       else do {
         let ofs = (blk_index - SFS_NDIRECT) mod 128;
         let blk = of_nat (rd (bdata s ib) (4 * ofs) 4);
         if blk = 0 then
           if \<not> alloc then Some (ERR_NOTEXIST, 0, Some ib, s, ino)
           else do {
             (err, blk, s) \<leftarrow> alloc_data_block si s;
             if err \<noteq> ERR_OK then Some (err, blk, Some ib, s, ino)
             else do {
               s \<leftarrow> release_blk (put_blk s ib (put_bytes (bdata s ib) (4 * ofs) (le_bytes 4 (unat blk)))) ib;
               Some (ERR_OK, blk, Some ib, s, ino) } }
         else do {
           s \<leftarrow> release_blk s ib;
           Some (ERR_OK, blk, Some ib, s, ino) } } } }"

text \<open>On success the block is returned pinned and locked.\<close>

definition get_data_block ::
  "sfs_sb_info \<Rightarrow> blocks \<Rightarrow> inode \<Rightarrow> u64 \<Rightarrow> bool \<Rightarrow> (err_t \<times> blk_t \<times> blocks \<times> inode) exec" where
  "get_data_block si s ino ofs alloc = do {
     kassert (ofs < SFS_MAX_FILE_SIZE);
     let ib = inum_to_blk (i_inum ino);
     let (ok, s) = pin_blk s ib;
     if \<not> ok then Some (ERR_NOMEM, 0, s, ino)
     else do {
       let blk_index = unat (ofs div 512);
       (err, blk, indir, s, ino) \<leftarrow>
         (if blk_index < SFS_NDIRECT then do {
            (err, blk, s, ino) \<leftarrow> direct_blk si s ino blk_index alloc;
            Some (err, blk, None, s, ino) }
          else indirect_blk si s ino blk_index alloc);
       (err, s) \<leftarrow>
         (if err \<noteq> ERR_OK then Some (err, s)
          else do {
            kassert (blk > 0);
            (ok, s) \<leftarrow> get_blk s blk;
            Some (if ok then ERR_OK else ERR_NOMEM, s) });
       s \<leftarrow> (if err = ERR_OK then Some s else case indir of None \<Rightarrow> Some s | Some b \<Rightarrow> release_blk s b);
       s \<leftarrow> unpin_blk s ib;
       Some (err, blk, s, ino) } }"

section \<open>Data of a file\<close>

text \<open>The bytes read so far are collected in \<open>acc\<close>; a failure ends the loop.\<close>

partial_function (option) read_data_loop ::
  "sfs_sb_info \<Rightarrow> blocks \<Rightarrow> inode \<Rightarrow> nat \<Rightarrow> u64 \<Rightarrow> u8 list \<Rightarrow> (u8 list \<times> blocks \<times> inode) exec" where
  "read_data_loop si s ino cnt ofs acc =
     (if length acc < cnt \<and> ofs < i_size ino then do {
        (err, bh, s, ino) \<leftarrow> get_data_block si s ino ofs False;
        if err \<noteq> ERR_OK then Some (acc, s, ino)
        else do {
          let n = min (min (BDEV_BLK_SIZE - unat ofs mod BDEV_BLK_SIZE) (cnt - length acc)) (unat (i_size ino - ofs));
          let bytes = take n (drop (unat ofs mod BDEV_BLK_SIZE) (bdata s bh));
          s \<leftarrow> release_blk s bh;
          read_data_loop si s ino cnt (ofs + of_nat n) (acc @ bytes) } }
      else Some (acc, s, ino))"

definition read_data :: "sfs_sb_info \<Rightarrow> blocks \<Rightarrow> inode \<Rightarrow> nat \<Rightarrow> u64 \<Rightarrow> (u8 list \<times> blocks \<times> inode) exec" where
  "read_data si s ino cnt ofs = read_data_loop si s ino cnt ofs []"

text \<open>\<open>buf\<close> is what is left to write; the result has the offset behind the last byte written.\<close>

function write_data_loop ::
  "sfs_sb_info \<Rightarrow> blocks \<Rightarrow> inode \<Rightarrow> u8 list \<Rightarrow> u64 \<Rightarrow> nat \<Rightarrow> (nat \<times> u64 \<times> blocks \<times> inode) exec" where
  "write_data_loop si s ino buf ofs tot =
     (if buf \<noteq> [] then do {
        (err, bh, s, ino) \<leftarrow> get_data_block si s ino ofs True;
        if err \<noteq> ERR_OK then Some (tot, ofs, s, ino)
        else do {
          let n = min (BDEV_BLK_SIZE - unat ofs mod BDEV_BLK_SIZE) (length buf);
          s \<leftarrow> release_blk (put_blk s bh (put_bytes (bdata s bh) (unat ofs mod BDEV_BLK_SIZE) (take n buf))) bh;
          write_data_loop si s ino (drop n buf) (ofs + of_nat n) (tot + n) } }
      else Some (tot, ofs, s, ino))"
  by pat_completeness auto
termination by (relation "measure (\<lambda>(si, s, ino, buf, ofs, tot). length buf)") auto

declare write_data_loop.simps [simp del]

definition write_data :: "sfs_sb_info \<Rightarrow> blocks \<Rightarrow> inode \<Rightarrow> u8 list \<Rightarrow> u64 \<Rightarrow> (nat \<times> blocks \<times> inode) exec" where
  "write_data si s ino buf ofs = do {
     (tot, ofs, s, ino) \<leftarrow> write_data_loop si s ino buf ofs 0;
     if buf \<noteq> [] \<and> ofs > i_size ino then do {
       (_, s, ino) \<leftarrow> sfs_write_inode s (fs_set_inode_dirty (ino\<lparr>i_size := ofs\<rparr>) True);
       Some (tot, s, ino) }
     else Some (tot, s, ino) }"

text \<open>File operations: the bytes or the count, and the new file position.\<close>

definition sfs_read :: "sfs_sb_info \<Rightarrow> blocks \<Rightarrow> inode \<Rightarrow> nat \<Rightarrow> u64 \<Rightarrow> (u8 list \<times> u64 \<times> blocks \<times> inode) exec" where
  "sfs_read si s ino cnt ofs = do {
     (bytes, s, ino) \<leftarrow> read_data si s ino cnt ofs;
     Some (bytes, ofs + of_nat (length bytes), s, ino) }"

definition sfs_write :: "sfs_sb_info \<Rightarrow> blocks \<Rightarrow> inode \<Rightarrow> u8 list \<Rightarrow> u64 \<Rightarrow> (nat \<times> u64 \<times> blocks \<times> inode) exec" where
  "sfs_write si s ino buf ofs = do {
     (ws, s, ino) \<leftarrow> write_data si s ino buf ofs;
     Some (ws, ofs + of_nat ws, s, ino) }"

text \<open>The page keeps what it held behind the bytes read.\<close>

definition sfs_fillpage :: "sfs_sb_info \<Rightarrow> blocks \<Rightarrow> inode \<Rightarrow> u64 \<Rightarrow> u8 list \<Rightarrow> (err_t \<times> u8 list \<times> blocks \<times> inode) exec" where
  "sfs_fillpage si s ino ofs page = do {
     (bytes, s, ino) \<leftarrow> read_data si s ino 4096 ofs;
     Some (if length bytes < 4096 then ERR_INCOMP else ERR_OK, put_bytes page 0 bytes, s, ino) }"

section \<open>Deleting a file\<close>

text \<open>The loop over an indirect block \<open>bh\<close>, which is locked; an index outside the block is an access outside its buffer.\<close>

partial_function (option) free_indirect ::
  "sfs_sb_info \<Rightarrow> blocks \<Rightarrow> u64 \<Rightarrow> blk_t \<Rightarrow> nat \<Rightarrow> u64 \<Rightarrow> (err_t \<times> u64 \<times> blocks) exec" where
  "free_indirect si s isize bh indir_index fsize =
     (if fsize < isize then do {
        kassert (indir_index < 128);
        let blk = of_nat (rd (bdata s bh) (4 * indir_index) 4);
        if blk = 0 then free_indirect si s isize bh (indir_index + 1) (fsize + 512)
        else do {
          kassert (blk \<ge> s_data_start si);
          (err, s) \<leftarrow> free_data_block si s blk;
          if err \<noteq> ERR_OK then Some (err, fsize, s)
          else free_indirect si (put_blk s bh (put_bytes (bdata s bh) (4 * indir_index) (le_bytes 4 0))) isize bh
            (indir_index + 1) (fsize + 512) } }
      else Some (ERR_OK, fsize, s))"

partial_function (option) delete_loop ::
  "sfs_sb_info \<Rightarrow> blocks \<Rightarrow> inode \<Rightarrow> nat \<Rightarrow> u64 \<Rightarrow> (err_t \<times> blocks \<times> inode) exec" where
  "delete_loop si s ino index fsize =
     (if fsize < i_size ino then do {
        kassert (index < length (i_addrs ino));
        let blk = i_addrs ino ! index;
        if blk = 0 then delete_loop si s ino (index + 1) fsize
        else do {
          kassert (blk \<ge> s_data_start si);
          (err, fsize, s) \<leftarrow>
            (if index < SFS_NDIRECT then Some (ERR_OK, fsize + 512, s)
             else do {
               (ok, s) \<leftarrow> get_blk s blk;
               if \<not> ok then Some (ERR_NOMEM, fsize, s)
               else do {
                 (err, fsize, s) \<leftarrow> free_indirect si s (i_size ino) blk 0 fsize;
                 if err \<noteq> ERR_OK then Some (err, fsize, s)
                 else do { s \<leftarrow> release_blk s blk; Some (ERR_OK, fsize, s) } } });
          if err \<noteq> ERR_OK then Some (err, s, ino)
          else do {
            (err, s) \<leftarrow> free_data_block si s blk;
            if err \<noteq> ERR_OK then Some (err, s, ino)
            else delete_loop si s (ino\<lparr>i_addrs := (i_addrs ino)[index := 0]\<rparr>) (index + 1) fsize } } }
      else Some (ERR_OK, s, ino))"

definition sfs_delete_inode :: "sfs_sb_info \<Rightarrow> blocks \<Rightarrow> inode \<Rightarrow> (err_t \<times> blocks \<times> inode) exec" where
  "sfs_delete_inode si s ino = do {
     kassert (i_inum ino > 0);
     kassert (i_nlink ino = 0);
     (err, s, ino) \<leftarrow> delete_loop si s ino 0 0;
     if err \<noteq> ERR_OK then Some (err, s, ino)
     else do {
       (err, s) \<leftarrow> free_disk_inode s (i_inum ino);
       if err \<noteq> ERR_OK then Some (err, s, ino)
       else Some (ERR_OK, s, fs_set_inode_dirty (fs_set_inode_valid (ino\<lparr>i_inum := 0\<rparr>) False) False) } }"

section \<open>Bitmaps as sets of elements\<close>

definition elem_used :: "u8 list \<Rightarrow> nat \<Rightarrow> bool" where
  "elem_used d i = bit (d ! (i div 8)) (i mod 8)"

lemma mask_bit: "b < 8 \<Longrightarrow> (v :: u8) AND 2 ^ b = 0 \<longleftrightarrow> \<not> bit v b"
  by (auto simp: bit_eq_iff [of "_ AND _"] bit_simps)

lemma bmap_bits_spec: "bmap_bits v b = find (\<lambda>k. \<not> bit v k) [b..<8]"
proof (induction v b rule: bmap_bits.induct)
  case (1 v b)
  then show ?case by (subst bmap_bits.simps) (simp add: mask_bit upt_conv_Cons)
qed

lemma find_Some_conv: "find P xs = Some x \<Longrightarrow> P x \<and> x \<in> set xs"
  by (induction xs) (auto split: if_splits)

lemma find_map_pair: "find P (map f xs) = map_option f (find (P \<circ> f) xs)"
  by (induction xs) auto

lemma find_append: "find P (xs @ ys) = (case find P xs of Some x \<Rightarrow> Some x | None \<Rightarrow> find P ys)"
  by (induction xs) auto

text \<open>The search over bytes and bits finds the first unused element.\<close>

lemma bmap_bytes_spec:
  "sz \<le> length d \<Longrightarrow> bmap_bytes d sz byte = Some (map_option (\<lambda>i. (i div 8, i mod 8)) (find (\<lambda>i. \<not> elem_used d i) [byte * 8..<sz * 8]))"
proof (induction d sz byte rule: bmap_bytes.induct)
  case (1 d sz byte)
  show ?case
  proof (cases "byte < sz")
    case True
    have split: "[byte * 8..<sz * 8] = [byte * 8..<byte * 8 + 8] @ [(byte + 1) * 8..<sz * 8]"
      using True upt_add_eq_append [of "byte * 8" "byte * 8 + 8" "sz * 8 - (byte * 8 + 8)"] by (simp add: add.commute)
    have "[byte * 8..<byte * 8 + 8] = map (\<lambda>k. byte * 8 + k) [0..<8]" using map_add_upt [of "byte * 8" 8] by (simp add: add.commute)
    moreover have "(\<lambda>i. \<not> elem_used d i) (byte * 8 + k) \<longleftrightarrow> \<not> bit (d ! byte) k" if "k < 8" for k
      using that by (simp add: elem_used_def)
    then have "find ((\<lambda>i. \<not> elem_used d i) \<circ> (\<lambda>k. byte * 8 + k)) [0..<8] = find (\<lambda>k. \<not> bit (d ! byte) k) [0..<8]"
      by (intro find_cong) auto
    ultimately have f: "find (\<lambda>i. \<not> elem_used d i) [byte * 8..<byte * 8 + 8] = map_option (\<lambda>k. byte * 8 + k) (bmap_bits (d ! byte) 0)"
      by (simp add: find_map_pair bmap_bits_spec)
    show ?thesis
    proof (cases "bmap_bits (d ! byte) 0")
      case None
      then have "bmap_bytes d sz byte = bmap_bytes d sz (byte + 1)"
        using True "1.prems" by (subst bmap_bytes.simps) simp
      also have "\<dots> = Some (map_option (\<lambda>i. (i div 8, i mod 8)) (find (\<lambda>i. \<not> elem_used d i) [(byte + 1) * 8..<sz * 8]))"
        using 1 True None by simp
      finally show ?thesis using f None unfolding split find_append by simp
    next
      case (Some k)
      have "k < 8" using Some find_Some_conv [of _ "[0..<8]" k] by (simp add: bmap_bits_spec)
      then show ?thesis using True "1.prems" Some f unfolding split find_append by (subst bmap_bytes.simps) simp
    qed
  next
    case False
    then show ?thesis by (subst bmap_bytes.simps) simp
  qed
qed

lemma elem_used_set:
  assumes "i div 8 < length d"
  shows "elem_used (d[i div 8 := d ! (i div 8) OR push_bit (i mod 8) 1]) j \<longleftrightarrow> j = i \<or> elem_used d j"
proof (cases "j div 8 = i div 8")
  case True
  have "j = i \<longleftrightarrow> j mod 8 = i mod 8" using True by (metis div_mult_mod_eq)
  then show ?thesis using True assms by (auto simp: elem_used_def bit_simps)
next
  case False
  then show ?thesis by (auto simp: elem_used_def)
qed

lemma set_clear_bit: "\<not> bit (v :: u8) k \<Longrightarrow> (v OR push_bit k 1) AND NOT (push_bit k 1) = v"
  by (intro bit_eqI) (auto simp: bit_simps)

lemma elem_used_clear:
  assumes "i div 8 < length d"
  shows "elem_used (d[i div 8 := d ! (i div 8) AND NOT (push_bit (i mod 8) 1)]) j \<longleftrightarrow> j \<noteq> i \<and> elem_used d j"
proof (cases "j div 8 = i div 8")
  case True
  have "j = i \<longleftrightarrow> j mod 8 = i mod 8" using True by (metis div_mult_mod_eq)
  then show ?thesis using True assms by (auto simp: elem_used_def bit_simps)
next
  case False
  then show ?thesis by (auto simp: elem_used_def)
qed

text \<open>C18. The nested search of the bitmap for a byte and a bit is the search for the first unused element; it marks
  exactly that element, and freeing it restores the bitmap.\<close>

theorem bmap_alloc_first:
  assumes "sz \<le> length (bdata s b)"
  shows "\<exists>r s'. bmap_alloc_element s b sz = Some (r, s') \<and> r = find (\<lambda>i. \<not> elem_used (bdata s b) i) [0..<sz * 8]
    \<and> (\<forall>j. elem_used (bdata s' b) j \<longleftrightarrow> r = Some j \<or> elem_used (bdata s b) j) \<and> (r = None \<longrightarrow> s' = s)
    \<and> (\<forall>i. r = Some i \<longrightarrow> bmap_free_element s' b i = Some s)"
proof (cases "find (\<lambda>i. \<not> elem_used (bdata s b) i) [0..<sz * 8]")
  case None
  then show ?thesis using bmap_bytes_spec [OF assms, of 0] by (simp add: bmap_alloc_element_def)
next
  case (Some i)
  let ?d = "(bdata s b)[i div 8 := bdata s b ! (i div 8) OR push_bit (i mod 8) 1]"
  have i: "\<not> elem_used (bdata s b) i" "i div 8 < length (bdata s b)" using find_Some_conv [OF Some] assms by auto
  have a: "bmap_alloc_element s b sz = Some (Some i, put_blk s b ?d)"
    using bmap_bytes_spec [OF assms, of 0] Some by (simp add: bmap_alloc_element_def)
  have "bmap_free_element (put_blk s b ?d) b i = Some s"
    using i set_clear_bit [of "bdata s b ! (i div 8)" "i mod 8"] by (simp add: bmap_free_element_def put_blk_def elem_used_def)
  then show ?thesis using a Some elem_used_set [OF i(2)] by (simp add: put_blk_def) blast
qed

theorem bmap_alloc_first_witness:
  "\<exists>r s'. bmap_alloc_element \<lparr>bdata = (\<lambda>_. [255, 3]), bref = (\<lambda>_. 0), bheld = {}, answers = (\<lambda>_. True)\<rparr> 3 2 = Some (r, s') \<and> r = Some 10"
proof -
  have "find (\<lambda>i. \<not> elem_used [255, 3] i) [0..<2 * 8] = Some 10" by code_simp
  then show ?thesis using bmap_alloc_first [of 2 "\<lparr>bdata = (\<lambda>_. [255, 3]), bref = (\<lambda>_. 0), bheld = {}, answers = (\<lambda>_. True)\<rparr>" 3] by auto
qed

section \<open>Allocation of data blocks\<close>

text \<open>The areas of the disk in order, and the blocks as byte lists of the block size.\<close>

definition lay :: "sfs_sb_info \<Rightarrow> bool" where
  "lay si \<longleftrightarrow> 4 \<le> unat (s_data_bmap_start si) \<and> unat (s_data_bmap_start si) \<le> unat (s_journal_start si)
     \<and> unat (s_journal_start si) \<le> unat (s_data_start si)
     \<and> unat (s_data_start si) + 4096 * (unat (s_journal_start si) - unat (s_data_bmap_start si)) < 2 ^ 32"

definition blks_ok :: "blocks \<Rightarrow> bool" where
  "blks_ok s \<longleftrightarrow> (\<forall>b. length (bdata s b) = BDEV_BLK_SIZE)"

definition ndata :: "sfs_sb_info \<Rightarrow> nat" where
  "ndata si = 4096 * (unat (s_journal_start si) - unat (s_data_bmap_start si))"

definition dblk :: "sfs_sb_info \<Rightarrow> nat \<Rightarrow> blk_t" where
  "dblk si n = s_data_start si + of_nat n"

definition bmblk :: "sfs_sb_info \<Rightarrow> nat \<Rightarrow> blk_t" where
  "bmblk si n = s_data_bmap_start si + of_nat (n div 4096)"

definition dused :: "sfs_sb_info \<Rightarrow> blocks \<Rightarrow> nat \<Rightarrow> bool" where
  "dused si s n = elem_used (bdata s (bmblk si n)) (n mod 4096)"

definition is_bmap :: "sfs_sb_info \<Rightarrow> blk_t \<Rightarrow> bool" where
  "is_bmap si b \<longleftrightarrow> s_data_bmap_start si \<le> b \<and> b < s_journal_start si"

lemma unat_dblk: "lay si \<Longrightarrow> n < ndata si \<Longrightarrow> unat (dblk si n) = unat (s_data_start si) + n"
  by (simp add: dblk_def lay_def ndata_def unat_word_ariths unat_of_nat)

lemma unat_bmblk: "lay si \<Longrightarrow> n < ndata si \<Longrightarrow> unat (bmblk si n) = unat (s_data_bmap_start si) + n div 4096"
proof -
  assume a: "lay si" "n < ndata si"
  then have "n div 4096 < unat (s_journal_start si) - unat (s_data_bmap_start si)" by (simp add: ndata_def less_mult_imp_div_less mult.commute)
  then show ?thesis using a by (simp add: bmblk_def lay_def unat_word_ariths unat_of_nat)
qed

lemma bmblk_is_bmap: "lay si \<Longrightarrow> n < ndata si \<Longrightarrow> is_bmap si (bmblk si n)"
proof -
  assume a: "lay si" "n < ndata si"
  then have "n div 4096 < unat (s_journal_start si) - unat (s_data_bmap_start si)" by (simp add: ndata_def less_mult_imp_div_less mult.commute)
  then show ?thesis using unat_bmblk [OF a] by (auto simp: is_bmap_def word_le_nat_alt word_less_nat_alt)
qed

lemma dblk_not_bmap: "lay si \<Longrightarrow> n < ndata si \<Longrightarrow> \<not> is_bmap si (dblk si n)"
  using unat_dblk [of si n] by (auto simp: is_bmap_def lay_def word_less_nat_alt)

lemma dblk_inj: "lay si \<Longrightarrow> n < ndata si \<Longrightarrow> m < ndata si \<Longrightarrow> dblk si n = dblk si m \<longleftrightarrow> n = m"
  by (metis unat_dblk add_left_cancel)

lemma dblk_neq_0: "lay si \<Longrightarrow> n < ndata si \<Longrightarrow> dblk si n \<noteq> 0"
  using unat_dblk [of si n] by (auto simp: lay_def)

lemma bmblk_eq: "lay si \<Longrightarrow> n < ndata si \<Longrightarrow> m < ndata si \<Longrightarrow> bmblk si n = bmblk si m \<longleftrightarrow> n div 4096 = m div 4096"
  by (metis unat_bmblk add_left_cancel bmblk_def)

text \<open>A state in which the data block \<open>n\<close> has been taken and zeroed and nothing else has changed.\<close>

definition taken :: "sfs_sb_info \<Rightarrow> nat \<Rightarrow> blocks \<Rightarrow> blocks \<Rightarrow> bool" where
  "taken si n s s' \<longleftrightarrow> n < ndata si \<and> \<not> dused si s n \<and> (\<forall>m < ndata si. dused si s' m \<longleftrightarrow> m = n \<or> dused si s m)
     \<and> bdata s' (dblk si n) = replicate BDEV_BLK_SIZE 0
     \<and> (\<forall>b. \<not> is_bmap si b \<longrightarrow> b \<noteq> dblk si n \<longrightarrow> bdata s' b = bdata s b)"

definition refs_same :: "blocks \<Rightarrow> blocks \<Rightarrow> bool" where
  "refs_same s s' \<longleftrightarrow> bref s' = bref s \<and> bheld s' = bheld s \<and> ((\<forall>n. answers s n) \<longrightarrow> (\<forall>n. answers s' n))"

lemma refs_same_refl [simp]: "refs_same s s"
  by (simp add: refs_same_def)

text \<open>One bitmap block, whose elements are the data blocks from \<open>base\<close> on.\<close>

lemma alloc_step:
  assumes lay: "lay si" and ok: "blks_ok s" and k: "k < unat (s_journal_start si) - unat (s_data_bmap_start si)"
    and bb: "bb = s_data_bmap_start si + of_nat k" and n: "find (\<lambda>i. \<not> elem_used (bdata s bb) i) [0..<sz * 8] = Some i" "sz \<le> 512"
    and s': "bdata s' = (bdata s)(bb := (bdata s bb)[i div 8 := bdata s bb ! (i div 8) OR push_bit (i mod 8) 1], dblk si (4096 * k + i) := replicate BDEV_BLK_SIZE 0)"
  shows "taken si (4096 * k + i) s s' \<and> blks_ok s'"
proof -
  have i: "i < 4096" "\<not> elem_used (bdata s bb) i" using find_Some_conv [OF n(1)] n(2) by auto
  let ?n = "4096 * k + i"
  have "4096 * (k + 1) \<le> ndata si" unfolding ndata_def using k by (intro mult_le_mono2) simp
  then have nd: "?n < ndata si" using i(1) by simp
  have bn: "bmblk si ?n = bb" using i(1) by (simp add: bmblk_def bb)
  have nm: "?n mod 4096 = i" using i(1) by simp
  note db = dblk_not_bmap [OF lay nd]
  have bm: "is_bmap si bb" using bmblk_is_bmap [OF lay nd] bn by simp
  have ne: "dblk si ?n \<noteq> bb" using db bm by auto
  have used: "dused si s' m \<longleftrightarrow> m = ?n \<or> dused si s m" if m: "m < ndata si" for m
  proof (cases "bmblk si m = bb")
    case True
    then have "m div 4096 = k" using bmblk_eq [OF lay m nd] bn i(1) by simp
    then have "m = ?n \<longleftrightarrow> m mod 4096 = i" using i(1) by (metis mult_div_mod_eq nm)
    then show ?thesis using True i(1) ok ne elem_used_set [of i "bdata s bb" "m mod 4096"] by (simp add: dused_def s' blks_ok_def)
  next
    case False
    moreover have "bmblk si m \<noteq> dblk si ?n" using bmblk_is_bmap [OF lay m] db by auto
    moreover have "m \<noteq> ?n" using False bn by auto
    ultimately show ?thesis by (simp add: dused_def s')
  qed
  have "\<not> dused si s ?n" using i bn nm by (simp add: dused_def)
  then show ?thesis using nd used ok bm by (auto simp: taken_def s' blks_ok_def)
qed

text \<open>No lock is held that allocation needs.\<close>

definition unlocked :: "sfs_sb_info \<Rightarrow> blocks \<Rightarrow> bool" where
  "unlocked si s \<longleftrightarrow> (\<forall>b. is_bmap si b \<longrightarrow> b \<notin> bheld s) \<and> (\<forall>n < ndata si. \<not> dused si s n \<longrightarrow> dblk si n \<notin> bheld s)"

text \<open>The elements the code looks at: it takes the size of the whole disk for the number of data blocks.\<close>

definition scanned :: "sfs_sb_info \<Rightarrow> nat \<Rightarrow> bool" where
  "scanned si n \<longleftrightarrow> n mod 4096 < 8 * min BDEV_BLK_SIZE (unat ((s_size si - 4096 * of_nat (n div 4096)) div 8))"

definition alloc_result :: "sfs_sb_info \<Rightarrow> nat \<Rightarrow> blocks \<Rightarrow> err_t \<Rightarrow> blk_t \<Rightarrow> blocks \<Rightarrow> bool" where
  "alloc_result si k s err blk s' \<longleftrightarrow> refs_same s s' \<and> blks_ok s' \<and> err \<in> {ERR_OK, ERR_NOMEM, ERR_NORES}
     \<and> (err = ERR_OK \<longrightarrow> (\<exists>n. blk = dblk si n \<and> taken si n s s'))
     \<and> (err \<noteq> ERR_OK \<longrightarrow> bdata s' = bdata s)
     \<and> (err = ERR_NOMEM \<longrightarrow> (\<exists>n. \<not> answers s n))
     \<and> (err = ERR_NORES \<longrightarrow> (\<forall>n < ndata si. k \<le> n div 4096 \<longrightarrow> scanned si n \<longrightarrow> dused si s n))"

lemma blk_minus_base: "bb = s_data_bmap_start si + of_nat k \<Longrightarrow>
  data_blk si bb i = dblk si (4096 * k + i)"
  by (simp add: dblk_def data_blk_def)

lemma alloc_element_eq:
  assumes "length (bdata s bb) = 512" "sz \<le> 512"
  shows "bmap_alloc_element s bb sz = Some (case find (\<lambda>i. \<not> elem_used (bdata s bb) i) [0..<sz * 8] of
      None \<Rightarrow> (None, s)
    | Some i \<Rightarrow> (Some i, put_blk s bb ((bdata s bb)[i div 8 := bdata s bb ! (i div 8) OR push_bit (i mod 8) 1])))"
  using assms by (simp add: bmap_alloc_element_def bmap_bytes_spec split: option.splits)

lemma list_update_clear:
  assumes "\<not> elem_used d i" "i div 8 < length d" 
  shows "(d[i div 8 := d ! (i div 8) OR push_bit (i mod 8) 1])[i div 8 := (d[i div 8 := d ! (i div 8) OR push_bit (i mod 8) 1]) ! (i div 8) AND NOT (push_bit (i mod 8) 1)] = d"
  using assms set_clear_bit [of "d ! (i div 8)" "i mod 8"] by (simp add: elem_used_def)

text \<open>The branch in which the bitmap block has a free element.\<close>

lemma alloc_found:
  assumes lay: "lay si" and ok: "blks_ok s" and un: "unlocked si s" and k: "k < unat (s_journal_start si) - unat (s_data_bmap_start si)"
    and bb: "bb = s_data_bmap_start si + of_nat k" and g: "get_blk s bb = Some (True, s1)"
      "s1 = s\<lparr>bref := (bref s)(bb := bref s bb + 1), bheld := insert bb (bheld s), answers := as\<rparr>" "as = answers s \<or> as = (\<lambda>n. answers s (Suc n))"
    and f: "find (\<lambda>i. \<not> elem_used (bdata s bb) i) [0..<min BDEV_BLK_SIZE (unat (nb div 8)) * 8] = Some i"
  shows "\<exists>err blk s'. alloc_loop si s bb nb = Some (err, blk, s') \<and> alloc_result si k s err blk s'"
proof -
  have i: "i < 4096" "\<not> elem_used (bdata s bb) i" "i div 8 < 512" using find_Some_conv [OF f] by auto
  have bm: "is_bmap si bb"
  proof -
    have "4096 * k < ndata si" using k by (simp add: ndata_def)
    then show ?thesis using bmblk_is_bmap [OF lay, of "4096 * k"] by (simp add: bmblk_def bb)
  qed
  have lt: "bb < s_journal_start si" using bm by (simp add: is_bmap_def)
  let ?n = "4096 * k + i" and ?d = "(bdata s bb)[i div 8 := bdata s bb ! (i div 8) OR push_bit (i mod 8) 1]"
  have L: "length (bdata s bb) = 512" using ok by (simp add: blks_ok_def)
  let ?s2 = "put_blk s1 bb ?d"
  have al: "bmap_alloc_element s1 bb (min 512 (unat (nb div 8))) = Some (Some i, ?s2)"
    using alloc_element_eq [of s1 bb] L f g(2) by simp
  let ?fin = "s\<lparr>bdata := (bdata s)(bb := ?d, dblk si ?n := replicate BDEV_BLK_SIZE 0)\<rparr>"
  have st: "taken si ?n s ?fin \<and> blks_ok ?fin" by (rule alloc_step [OF lay ok k bb f]) simp_all
  then have nd: "?n < ndata si" "\<not> dused si s ?n" by (auto simp: taken_def)
  have nh: "dblk si ?n \<notin> bheld s" "bb \<notin> bheld s" using un nd bm by (auto simp: unlocked_def)
  have ne: "dblk si ?n \<noteq> bb" using dblk_not_bmap [OF lay nd(1)] bm by auto
  have "dblk si ?n \<notin> bheld ?s2" using nh ne g(2) by simp
  then show ?thesis
  proof (cases rule: get_blk_cases)
    case (no as')
    have "bmap_free_element (?s2\<lparr>answers := as'\<rparr>) bb i = Some (s1\<lparr>answers := as'\<rparr>)"
      using list_update_clear [OF i(2)] i(3) L g(2) by (simp add: bmap_free_element_def put_blk_def)
    then have "alloc_loop si s bb nb = Some (ERR_NOMEM, dblk si ?n, s\<lparr>answers := as'\<rparr>)"
      using lt g al no(1) nh by (subst alloc_loop.simps) (simp add: blk_minus_base [OF bb] release_blk_eq)
    moreover have "\<exists>n. \<not> answers s n" using no(2) g(2,3) by auto
    then have "alloc_result si k s ERR_NOMEM (dblk si ?n) (s\<lparr>answers := as'\<rparr>)"
      using ok g(3) no(3) g(2) by (auto simp: alloc_result_def refs_same_def blks_ok_def)
    ultimately show ?thesis by blast
  next
    case (yes as')
    have "alloc_loop si s bb nb = Some (ERR_OK, dblk si ?n, ?fin\<lparr>answers := as'\<rparr>)"
      using lt g al yes(1) nh ne by (subst alloc_loop.simps) (simp add: blk_minus_base [OF bb] release_blk_eq put_blk_def fun_upd_twist insert_Diff_if Let_def)
    moreover have an: "(\<forall>n. answers s n) \<longrightarrow> (\<forall>n. as' n)" using yes(2) g(2,3) by auto
    have "taken si ?n s (?fin\<lparr>answers := as'\<rparr>) \<and> blks_ok (?fin\<lparr>answers := as'\<rparr>)" using st by (simp add: taken_def blks_ok_def dused_def)
    then have "alloc_result si k s ERR_OK (dblk si ?n) (?fin\<lparr>answers := as'\<rparr>)" using an by (auto simp: alloc_result_def refs_same_def)
    ultimately show ?thesis by blast
  qed
qed

lemma find_None_conv: "find P xs = None \<longleftrightarrow> (\<forall>x \<in> set xs. \<not> P x)"
  by (induction xs) auto

lemma alloc_loop_ok:
  assumes lay: "lay si" and "blks_ok s" "unlocked si s" "k \<le> unat (s_journal_start si) - unat (s_data_bmap_start si)"
    "bb = s_data_bmap_start si + of_nat k" "nb = s_size si - 4096 * of_nat k"
  shows "\<exists>err blk s'. alloc_loop si s bb nb = Some (err, blk, s') \<and> alloc_result si k s err blk s'"
  using assms(2-)
proof (induction "unat (s_journal_start si) - unat (s_data_bmap_start si) - k" arbitrary: s k bb nb)
  case 0
  then have "k = unat (s_journal_start si) - unat (s_data_bmap_start si)" by simp
  then have "unat bb = unat (s_journal_start si)" using lay 0 by (simp add: lay_def unat_word_ariths unat_of_nat)
  then have "alloc_loop si s bb nb = Some (ERR_NORES, 0, s)" by (subst alloc_loop.simps) (simp add: word_less_nat_alt)
  moreover have "\<not> k \<le> n div 4096" if "n < ndata si" for n
    using that 0 less_mult_imp_div_less [of n _ 4096] by (fastforce simp: ndata_def mult.commute not_le)
  then have "alloc_result si k s ERR_NORES 0 s" using 0 by (simp add: alloc_result_def)
  ultimately show ?case by blast
next
  case (Suc j)
  then have k: "k < unat (s_journal_start si) - unat (s_data_bmap_start si)" by simp
  then have "4096 * k < ndata si" by (simp add: ndata_def)
  then have bm: "is_bmap si bb" using bmblk_is_bmap [OF lay, of "4096 * k"] by (simp add: bmblk_def Suc.prems)
  then have lt: "bb < s_journal_start si" by (simp add: is_bmap_def)
  have nh: "bb \<notin> bheld s" using Suc.prems bm by (auto simp: unlocked_def)
  then show ?case
  proof (cases rule: get_blk_cases)
    case (no as)
    then have "alloc_loop si s bb nb = Some (ERR_NOMEM, 0, s\<lparr>answers := as\<rparr>)" using lt by (subst alloc_loop.simps) simp
    moreover have "alloc_result si k s ERR_NOMEM 0 (s\<lparr>answers := as\<rparr>)"
      using no Suc.prems by (auto simp: alloc_result_def refs_same_def blks_ok_def)
    ultimately show ?thesis by blast
  next
    case (yes as)
    let ?s1 = "s\<lparr>bref := (bref s)(bb := bref s bb + 1), bheld := insert bb (bheld s), answers := as\<rparr>"
    let ?sz = "min BDEV_BLK_SIZE (unat (nb div 8))"
    show ?thesis
    proof (cases "find (\<lambda>i. \<not> elem_used (bdata s bb) i) [0..<?sz * 8]")
      case (Some i)
      then show ?thesis using alloc_found [OF lay Suc.prems(1,2) k Suc.prems(4) yes(1) refl yes(2)] by blast
    next
      case None
      have L: "length (bdata s bb) = 512" using Suc.prems by (simp add: blks_ok_def)
      have "bmap_alloc_element ?s1 bb ?sz = Some (None, ?s1)" using alloc_element_eq [of ?s1 bb ?sz] L None by simp
      then have "alloc_loop si s bb nb = alloc_loop si (s\<lparr>answers := as\<rparr>) (bb + 1) (nb - 4096)"
        using lt yes nh by (subst alloc_loop.simps) (simp add: release_blk_eq)
      moreover have "\<exists>err blk s'. alloc_loop si (s\<lparr>answers := as\<rparr>) (bb + 1) (nb - 4096) = Some (err, blk, s')
          \<and> alloc_result si (k + 1) (s\<lparr>answers := as\<rparr>) err blk s'"
        using Suc.hyps(2) Suc.prems k by (intro Suc.hyps(1)) (auto simp: blks_ok_def unlocked_def dused_def algebra_simps)
      ultimately obtain err blk s' where r: "alloc_loop si s bb nb = Some (err, blk, s')"
        "alloc_result si (k + 1) (s\<lparr>answers := as\<rparr>) err blk s'" by auto
      have here: "dused si s n" if n: "n < ndata si" "n div 4096 = k" "scanned si n" for n
      proof -
        have "n mod 4096 < ?sz * 8" using n(2,3) by (simp add: scanned_def Suc.prems mult.commute)
        then show ?thesis using None n(2) by (auto simp: find_None_conv dused_def bmblk_def Suc.prems)
      qed
      have "taken si n (s\<lparr>answers := as\<rparr>) s' = taken si n s s'" "dused si (s\<lparr>answers := as\<rparr>) n = dused si s n" for n
        by (simp_all add: taken_def dused_def)
      moreover have "k + 1 \<le> n div 4096 \<or> n div 4096 = k" if "k \<le> n div 4096" for n using that by linarith
      then have "\<forall>n < ndata si. k \<le> n div 4096 \<longrightarrow> scanned si n \<longrightarrow> dused si s n" if "err = ERR_NORES"
        using r(2) that here unfolding alloc_result_def calculation(2) by blast
      moreover have "refs_same (s\<lparr>answers := as\<rparr>) s' \<Longrightarrow> refs_same s s'" using yes(2) by (auto simp: refs_same_def)
      moreover have "\<exists>n. \<not> as n \<Longrightarrow> \<exists>n. \<not> answers s n" using yes(2) by auto
      ultimately have "alloc_result si k s err blk s'" using r(2) by (simp add: alloc_result_def)
      with r(1) show ?thesis by blast
    qed
  qed
qed

lemma alloc_data_block_ok:
  assumes "lay si" "blks_ok s" "unlocked si s"
  shows "\<exists>err blk s'. alloc_data_block si s = Some (err, blk, s') \<and> alloc_result si 0 s err blk s'"
  unfolding alloc_data_block_def by (rule alloc_loop_ok) (use assms in auto)

section \<open>The blocks of a file\<close>

text \<open>A file has 270 slots for block numbers: fourteen in the inode, of which the last two are indirect blocks, and 128 in each of these.\<close>

definition slot :: "blocks \<Rightarrow> inode \<Rightarrow> nat \<Rightarrow> blk_t" where
  "slot s ino t = (if t < 14 then i_addrs ino ! t
     else let ib = i_addrs ino ! (12 + (t - 14) div 128) in
       if ib = 0 then 0 else of_nat (rd (bdata s ib) (4 * ((t - 14) mod 128)) 4))"

definition fslot :: "nat \<Rightarrow> nat" where
  "fslot f = (if f < 12 then f else f + 2)"

definition fbyte :: "blocks \<Rightarrow> inode \<Rightarrow> nat \<Rightarrow> u8" where
  "fbyte s ino p = (let b = slot s ino (fslot (p div 512)) in if b = 0 then 0 else bdata s b ! (p mod 512))"

abbreviation itab :: "inode \<Rightarrow> blk_t" where "itab ino \<equiv> inum_to_blk (i_inum ino)"

text \<open>Every block number of the inode is a data block that is marked used, and no two are equal.\<close>

definition inode_ok :: "sfs_sb_info \<Rightarrow> blocks \<Rightarrow> inode \<Rightarrow> bool" where
  "inode_ok si s ino \<longleftrightarrow> length (i_addrs ino) = 14 \<and> i_inum ino \<noteq> 0 \<and> itab ino < s_data_bmap_start si
     \<and> (\<forall>t < 270. slot s ino t \<noteq> 0 \<longrightarrow> (\<exists>n < ndata si. slot s ino t = dblk si n \<and> dused si s n))
     \<and> (\<forall>t < 270. \<forall>u < 270. slot s ino t \<noteq> 0 \<longrightarrow> slot s ino t = slot s ino u \<longrightarrow> t = u)"

text \<open>What other files and the rest of the disk see of an operation on a file: used blocks of others, and blocks outside the bitmap and
  the inode's own 64 bytes of the inode table, are not touched.\<close>

definition others_kept :: "sfs_sb_info \<Rightarrow> blocks \<Rightarrow> inode \<Rightarrow> blocks \<Rightarrow> bool" where
  "others_kept si s ino s' \<longleftrightarrow> (\<forall>b. \<not> is_bmap si b \<longrightarrow> b \<noteq> itab ino \<longrightarrow> (\<forall>n < ndata si. b = dblk si n \<longrightarrow> dused si s n)
       \<longrightarrow> (\<forall>t < 270. slot s ino t \<noteq> b) \<longrightarrow> bdata s' b = bdata s b)
     \<and> (\<forall>i < 512. i < inum_to_ofs (i_inum ino) \<or> inum_to_ofs (i_inum ino) + 64 \<le> i \<longrightarrow> bdata s' (itab ino) ! i = bdata s (itab ino) ! i)
     \<and> (\<forall>n < ndata si. dused si s n \<longrightarrow> dused si s' n)"

definition same_meta :: "inode \<Rightarrow> inode \<Rightarrow> bool" where
  "same_meta ino ino' \<longleftrightarrow> ino' = ino\<lparr>i_addrs := i_addrs ino', i_state := i_state ino'\<rparr>"

text \<open>The file has perhaps more blocks, all taken from the free ones; \<open>extends\<close> also keeps its bytes.\<close>

definition fext :: "sfs_sb_info \<Rightarrow> blocks \<Rightarrow> inode \<Rightarrow> blocks \<Rightarrow> inode \<Rightarrow> bool" where
  "fext si s ino s' ino' \<longleftrightarrow> same_meta ino ino' \<and> blks_ok s' \<and> inode_ok si s' ino' \<and> others_kept si s ino s'
     \<and> (\<forall>t < 270. slot s ino t \<noteq> 0 \<longrightarrow> slot s' ino' t = slot s ino t)
     \<and> (\<forall>t < 270. slot s ino t = 0 \<longrightarrow> slot s' ino' t \<noteq> 0 \<longrightarrow> (\<exists>n < ndata si. slot s' ino' t = dblk si n \<and> \<not> dused si s n))"

definition extends :: "sfs_sb_info \<Rightarrow> blocks \<Rightarrow> inode \<Rightarrow> blocks \<Rightarrow> inode \<Rightarrow> bool" where
  "extends si s ino s' ino' \<longleftrightarrow> fext si s ino s' ino' \<and> (\<forall>p < unat SFS_MAX_FILE_SIZE. fbyte s' ino' p = fbyte s ino p)"

lemma same_meta_refl [simp]: "same_meta ino ino"
  by (simp add: same_meta_def)

lemma same_meta_D: "same_meta ino ino' \<Longrightarrow> i_inum ino' = i_inum ino \<and> i_size ino' = i_size ino"
  unfolding same_meta_def by (metis inode.select_convs(1,6) inode.surjective inode.update_convs(7,9))

lemma same_meta_trans: "same_meta a b \<Longrightarrow> same_meta b c \<Longrightarrow> same_meta a c"
  unfolding same_meta_def by (cases a; cases b; cases c) simp

lemma slot_cong: "bdata s' = bdata s \<Longrightarrow> slot s' ino = slot s ino" "bdata s' = bdata s \<Longrightarrow> dused si s' n = dused si s n"
  by (auto simp: slot_def dused_def fun_eq_iff Let_def)

lemma extends_same: "inode_ok si s ino \<Longrightarrow> blks_ok s \<Longrightarrow> bdata s' = bdata s \<Longrightarrow> extends si s ino s' ino"
  by (simp add: extends_def fext_def others_kept_def inode_ok_def blks_ok_def slot_cong [of s' s] fbyte_def Let_def)

lemma fext_trans:
  assumes e: "fext si s ino s1 ino1" "fext si s1 ino1 s2 ino2"
  shows "fext si s ino s2 ino2"
proof -
  have m: "i_inum ino1 = i_inum ino" using e(1) same_meta_D by (simp add: fext_def)
  note x = e(1) [unfolded fext_def] and y = e(2) [unfolded fext_def]
  have ok: "others_kept si s ino s2"
    unfolding others_kept_def
  proof (intro conjI allI impI)
    fix b assume b: "\<not> is_bmap si b" "b \<noteq> itab ino" "\<forall>n<ndata si. b = dblk si n \<longrightarrow> dused si s n" "\<forall>t<270. slot s ino t \<noteq> b"
    then have 1: "bdata s1 b = bdata s b" using x by (auto simp: others_kept_def)
    have "slot s1 ino1 t \<noteq> b" if "t < 270" for t using that b x by (cases "slot s ino t = 0"; metis)
    moreover have "\<forall>n<ndata si. b = dblk si n \<longrightarrow> dused si s1 n" using b(3) x by (auto simp: others_kept_def)
    ultimately have "bdata s2 b = bdata s1 b" using y b(1,2) m by (auto simp: others_kept_def)
    then show "bdata s2 b = bdata s b" using 1 by simp
  next
    fix i :: nat assume "i < 512" "i < inum_to_ofs (i_inum ino) \<or> inum_to_ofs (i_inum ino) + 64 \<le> i"
    then show "bdata s2 (itab ino) ! i = bdata s (itab ino) ! i" using x y m unfolding others_kept_def by metis
  next
    fix n assume "n < ndata si" "dused si s n"
    then show "dused si s2 n" using x y by (simp add: others_kept_def)
  qed
  have "\<exists>n < ndata si. slot s2 ino2 t = dblk si n \<and> \<not> dused si s n" if t: "t < 270" "slot s ino t = 0" "slot s2 ino2 t \<noteq> 0" for t
  proof (cases "slot s1 ino1 t = 0")
    case True
    then show ?thesis using y t x by (metis others_kept_def)
  next
    case False
    then show ?thesis using x y t by metis
  qed
  moreover have "\<forall>t < 270. slot s ino t \<noteq> 0 \<longrightarrow> slot s2 ino2 t = slot s ino t" using x y by metis
  moreover have "same_meta ino ino2" using x y same_meta_trans by blast
  ultimately show ?thesis using x y ok by (simp add: fext_def)
qed

lemma file_extends_trans: "extends si s ino s1 ino1 \<Longrightarrow> extends si s1 ino1 s2 ino2 \<Longrightarrow> extends si s ino s2 ino2"
  unfolding extends_def by (metis fext_trans)

lemma inode_ok_slot: "inode_ok si s ino \<Longrightarrow> t < 270 \<Longrightarrow> slot s ino t \<noteq> 0 \<Longrightarrow> \<exists>n < ndata si. slot s ino t = dblk si n \<and> dused si s n"
  by (simp add: inode_ok_def)

lemma inode_ok_inj: "inode_ok si s ino \<Longrightarrow> slot s ino t \<noteq> 0 \<Longrightarrow> t < 270 \<Longrightarrow> u < 270 \<Longrightarrow> slot s ino t = slot s ino u \<longleftrightarrow> t = u"
  unfolding inode_ok_def by metis

text \<open>One more slot of a file gets a block that was free.\<close>

lemma grow_slot:
  assumes lay: "lay si" and ok: "inode_ok si s ino" "blks_ok s'" and n: "n < ndata si" "\<not> dused si s n"
    and t: "t < 270" "slot s ino t = 0" "slot s' ino' t = dblk si n" "\<And>u. u < 270 \<Longrightarrow> u \<noteq> t \<Longrightarrow> slot s' ino' u = slot s ino u"
    and meta: "same_meta ino ino'" "length (i_addrs ino') = 14"
    and used: "\<And>m. m < ndata si \<Longrightarrow> dused si s' m \<longleftrightarrow> m = n \<or> dused si s m"
    and frame: "\<And>b. \<not> is_bmap si b \<Longrightarrow> b \<noteq> dblk si n \<Longrightarrow> b \<noteq> itab ino \<Longrightarrow> b = 0 \<or> b \<noteq> slot s ino 12 \<and> b \<noteq> slot s ino 13 \<Longrightarrow> bdata s' b = bdata s b"
    and zero: "bdata s' (dblk si n) = replicate BDEV_BLK_SIZE 0"
    and tab: "\<And>i. i < 512 \<Longrightarrow> i < inum_to_ofs (i_inum ino) \<or> inum_to_ofs (i_inum ino) + 64 \<le> i \<Longrightarrow> bdata s' (itab ino) ! i = bdata s (itab ino) ! i"
  shows "extends si s ino s' ino'"
proof -
  note io = ok(1) [unfolded inode_ok_def]
  have nt: "slot s ino u \<noteq> dblk si n" if u: "u < 270" for u
  proof
    assume a: "slot s ino u = dblk si n"
    then have "slot s ino u \<noteq> 0" using dblk_neq_0 [OF lay n(1)] by simp
    then show False using inode_ok_slot [OF ok(1) u] dblk_inj [OF lay n(1)] n(2) a by metis
  qed
  have io': "inode_ok si s' ino'"
    unfolding inode_ok_def
  proof (intro conjI allI impI)
    show "length (i_addrs ino') = 14" "i_inum ino' \<noteq> 0" "itab ino' < s_data_bmap_start si" using meta io same_meta_D by auto
    fix u assume u: "u < 270" "slot s' ino' u \<noteq> 0"
    show "\<exists>m < ndata si. slot s' ino' u = dblk si m \<and> dused si s' m"
      using u t(3,4) n(1) io used by (cases "u = t") metis+
    fix v assume v: "v < 270" "slot s' ino' u = slot s' ino' v"
    show "u = v"
    proof (cases "u = t \<or> v = t")
      case True
      then show ?thesis using u v t nt by metis
    next
      case False
      then show ?thesis using u v t(4) io by metis
    qed
  qed
  have oth: "others_kept si s ino s'"
    unfolding others_kept_def
  proof (intro conjI allI impI)
    fix b assume b: "\<not> is_bmap si b" "b \<noteq> itab ino" "\<forall>n<ndata si. b = dblk si n \<longrightarrow> dused si s n" "\<forall>t<270. slot s ino t \<noteq> b"
    have "(12 :: nat) < 270" "(13 :: nat) < 270" by simp_all
    then show "bdata s' b = bdata s b" using n b by (intro frame) blast+
  qed (use tab used in auto)
  have byte: "fbyte s' ino' p = fbyte s ino p" if p: "p < unat SFS_MAX_FILE_SIZE" for p
  proof -
    let ?u = "fslot (p div 512)"
    have "p div 512 < 268" using p by simp
    then have u: "?u < 270" "?u \<noteq> 12" "?u \<noteq> 13" by (auto simp: fslot_def)
    show ?thesis
    proof (cases "?u = t")
      case True
      then show ?thesis using t(2,3) zero dblk_neq_0 [OF lay n(1)] by (simp add: fbyte_def Let_def)
    next
      case False
      have "bdata s' (slot s ino ?u) = bdata s (slot s ino ?u)" if nz: "slot s ino ?u \<noteq> 0"
      proof (rule frame)
        obtain m where m: "m < ndata si" "slot s ino ?u = dblk si m" using io u(1) nz by blast
        show "\<not> is_bmap si (slot s ino ?u)" using dblk_not_bmap [OF lay m(1)] m(2) by simp
        show "slot s ino ?u \<noteq> dblk si n" using nt u(1) .
        show "slot s ino ?u \<noteq> itab ino" using io m unat_dblk [OF lay m(1)] lay by (auto simp: lay_def word_less_nat_alt)
        show "slot s ino ?u = 0 \<or> slot s ino ?u \<noteq> slot s ino 12 \<and> slot s ino ?u \<noteq> slot s ino 13"
          using inode_ok_inj [OF ok(1) nz u(1), of 12] inode_ok_inj [OF ok(1) nz u(1), of 13] u by simp
      qed
      then show ?thesis using t(4) [OF u(1) False] by (auto simp: fbyte_def Let_def)
    qed
  qed
  have "\<exists>m < ndata si. slot s' ino' u = dblk si m \<and> \<not> dused si s m" if "u < 270" "slot s ino u = 0" "slot s' ino' u \<noteq> 0" for u
    using that t n by (cases "u = t") auto
  moreover have "slot s' ino' u = slot s ino u" if "u < 270" "slot s ino u \<noteq> 0" for u using that t by (cases "u = t") auto
  ultimately show ?thesis using io' oth byte meta ok(2) by (simp add: extends_def fext_def)
qed

section \<open>The block map\<close>

lemma length_enc_inode: "length (i_addrs ino) = 14 \<Longrightarrow> length (enc_inode ino) = 64"
proof -
  have "length (concat (map (\<lambda>a. le_bytes 4 (unat a)) xs)) = 4 * length xs" for xs :: "blk_t list" by (induction xs) auto
  then show "length (i_addrs ino) = 14 \<Longrightarrow> length (enc_inode ino) = 64" by (simp add: enc_inode_def)
qed

lemma inum_to_ofs_le: "inum_to_ofs i + 64 \<le> 512"
proof -
  have "inum_to_ofs i = unat (i - 1) mod 8 * 64" by (simp add: inum_to_ofs_def mult_mod_left)
  moreover have "unat (i - 1) mod 8 < 8" by simp
  ultimately show ?thesis by simp
qed

definition tab_put :: "inode \<Rightarrow> blocks \<Rightarrow> blocks" where
  "tab_put ino s = s\<lparr>bdata := (bdata s)(itab ino := put_bytes (bdata s (itab ino)) (inum_to_ofs (i_inum ino)) (enc_inode ino))\<rparr>"

lemma write_inode_pinned:
  "bref s (itab ino) > 0 \<Longrightarrow> itab ino \<notin> bheld s \<Longrightarrow> i_inum ino \<noteq> 0 \<Longrightarrow>
   sfs_write_inode s ino = Some (ERR_OK, tab_put ino s, fs_set_inode_dirty ino False)"
  by (simp add: sfs_write_inode_def get_blk_def pin_blk_def Let_def release_blk_eq tab_put_def put_blk_def)

lemma dirty_simps [simp]:
  "i_addrs (fs_set_inode_dirty ino v) = i_addrs ino" "i_inum (fs_set_inode_dirty ino v) = i_inum ino" "i_size (fs_set_inode_dirty ino v) = i_size ino"
  "fs_set_inode_dirty (ino\<lparr>i_addrs := A\<rparr>) v = (fs_set_inode_dirty ino v)\<lparr>i_addrs := A\<rparr>"
  "slot s (fs_set_inode_dirty ino v) t = slot s ino t" "same_meta ino (fs_set_inode_dirty ino v)"
  "enc_inode (fs_set_inode_dirty ino v) = enc_inode ino"
  by (simp_all add: fs_set_inode_dirty_def slot_def same_meta_def enc_inode_def)

lemma itab_not_data: "inode_ok si s ino \<Longrightarrow> lay si \<Longrightarrow> \<not> is_bmap si (itab ino) \<and> (n < ndata si \<longrightarrow> itab ino \<noteq> dblk si n)"
  using unat_dblk [of si n] by (auto simp: inode_ok_def is_bmap_def lay_def word_less_nat_alt word_le_nat_alt)

lemma rd_zeros [simp]: "rd (replicate m 0) ofs k = 0"
proof -
  have "le_nat (replicate j 0) = 0" for j by (induction j) auto
  then show ?thesis by (simp add: rd_def)
qed

lemma slot_indir: "14 \<le> t \<Longrightarrow> slot s ino t = (if slot s ino (12 + (t - 14) div 128) = 0 then 0
    else of_nat (rd (bdata s (slot s ino (12 + (t - 14) div 128))) (4 * ((t - 14) mod 128)) 4))" if "t < 270"
  using that by (auto simp: slot_def Let_def)

lemma direct_grows:
  assumes lay: "lay si" and ok: "inode_ok si s ino" "blks_ok s" "blks_ok s1" and tk: "taken si n s s1" and k: "k < 14" "i_addrs ino ! k = 0"
    and ino': "same_meta ino ino'" "i_addrs ino' = (i_addrs ino)[k := dblk si n]"
  shows "extends si s ino (tab_put ino' s1) ino'"
proof -
  note t = tk [unfolded taken_def]
  have len: "length (i_addrs ino) = 14" using ok by (simp add: inode_ok_def)
  have inum: "i_inum ino' = i_inum ino" using same_meta_D [OF ino'(1)] by simp
  note it = itab_not_data [OF ok(1) lay, of n]
  have e: "length (enc_inode ino') = 64" using len ino'(2) by (simp add: length_enc_inode)
  have bd: "bdata (tab_put ino' s1) b = bdata s b" if "\<not> is_bmap si b" "b \<noteq> dblk si n" "b \<noteq> itab ino" for b
    using that t inum by (simp add: tab_put_def)
  have dn: "bdata (tab_put ino' s1) (dblk si n) = replicate 512 0" using t it inum by (auto simp: tab_put_def)
  have sl: "slot (tab_put ino' s1) ino' u = slot s ino u" if u: "u < 270" "u \<noteq> k" for u
  proof (cases "u < 14")
    case True
    then show ?thesis using u(2) by (simp add: slot_def ino'(2))
  next
    case False
    let ?j = "12 + (u - 14) div 128"
    have j: "?j < 14" using u(1) by (simp add: less_mult_imp_div_less)
    show ?thesis
    proof (cases "?j = k")
      case True
      then show ?thesis using False k len dn dblk_neq_0 [OF lay, of n] t by (simp add: slot_def Let_def ino'(2))
    next
      case ne: False
      have s0: "slot s ino ?j = i_addrs ino ! ?j" using j by (simp add: slot_def)
      have "bdata (tab_put ino' s1) (slot s ino ?j) = bdata s (slot s ino ?j)" if nz: "slot s ino ?j \<noteq> 0"
      proof -
        obtain m where m: "m < ndata si" "slot s ino ?j = dblk si m" "dused si s m" using inode_ok_slot [OF ok(1) _ nz] j by auto
        then have "slot s ino ?j \<noteq> dblk si n" using t dblk_inj [OF lay] by auto
        moreover have "slot s ino ?j \<noteq> itab ino" using m itab_not_data [OF ok(1) lay, of m] by auto
        ultimately show ?thesis using bd dblk_not_bmap [OF lay m(1)] m(2) by metis
      qed
      then show ?thesis using False ne j s0 by (auto simp: slot_def Let_def ino'(2))
    qed
  qed
  have us: "dused si (tab_put ino' s1) m \<longleftrightarrow> m = n \<or> dused si s m" if "m < ndata si" for m
  proof -
    have "bmblk si m \<noteq> itab ino" using bmblk_is_bmap [OF lay that] it by auto
    then have "dused si (tab_put ino' s1) m = dused si s1 m" using inum by (simp add: dused_def tab_put_def)
    then show ?thesis using t that by simp
  qed
  show ?thesis
  proof (rule grow_slot [OF lay ok(1), where t = k and n = n])
    show "blks_ok (tab_put ino' s1)" using ok(3) e inum_to_ofs_le [of "i_inum ino'"] by (simp add: blks_ok_def tab_put_def)
    show "bdata (tab_put ino' s1) (itab ino) ! i = bdata s (itab ino) ! i"
      if "i < 512" "i < inum_to_ofs (i_inum ino) \<or> inum_to_ofs (i_inum ino) + 64 \<le> i" for i
    proof -
      have "length (bdata s1 (itab ino)) = 512" using ok(3) by (simp add: blks_ok_def)
      then have "bdata (tab_put ino' s1) (itab ino) ! i = bdata s1 (itab ino) ! i"
        using that e inum_to_ofs_le [of "i_inum ino"] by (auto simp: tab_put_def inum nth_put_bytes)
      then show ?thesis using t it by simp
    qed
    show "slot s ino k = 0" "slot (tab_put ino' s1) ino' k = dblk si n" using k len by (simp_all add: slot_def ino'(2))
    show "length (i_addrs ino') = 14" using len ino'(2) by simp
  qed (use t k sl us bd dn ino' in auto)
qed

lemma indirect_grows:
  assumes lay: "lay si" and ok: "inode_ok si s ino" "blks_ok s" "blks_ok s1" and tk: "taken si n s s1" and u: "14 \<le> u" "u < 270"
    and ib: "ib = i_addrs ino ! (12 + (u - 14) div 128)" "ib \<noteq> 0" and z: "slot s ino u = 0"
    and s2: "bdata s2 = (bdata s1)(ib := put_bytes (bdata s1 ib) (4 * ((u - 14) mod 128)) (le_bytes 4 (unat (dblk si n))))"
  shows "extends si s ino s2 ino"
proof -
  note t = tk [unfolded taken_def]
  let ?k = "12 + (u - 14) div 128" and ?o = "4 * ((u - 14) mod 128)"
  have k: "?k < 14" using u by (simp add: less_mult_imp_div_less)
  have sk: "slot s ino ?k = ib" using k ib by (simp add: slot_def)
  obtain m where m: "m < ndata si" "ib = dblk si m" "dused si s m" using inode_ok_slot [OF ok(1), of ?k] k sk ib(2) by auto
  have ibn: "ib \<noteq> dblk si n" using m t dblk_inj [OF lay m(1), of n] by auto
  have ibb: "\<not> is_bmap si ib" using dblk_not_bmap [OF lay m(1)] m(2) by simp
  have b1: "bdata s1 ib = bdata s ib" using t ibn ibb by simp
  have len: "length (bdata s ib) = 512" using ok(2) by (simp add: blks_ok_def)
  have o4: "?o + 4 \<le> 512" by simp
  have new: "slot s2 ino u = dblk si n"
  proof -
    have "rd (bdata s2 ib) ?o 4 = unat (dblk si n) mod 256 ^ 4" unfolding s2 b1 using rd_put_same [of ?o 4 "bdata s ib"] o4 len by simp
    also have "\<dots> = unat (dblk si n)" using unsigned_less [of "dblk si n", where ?'a = nat] by simp
    finally show ?thesis using u ib by (simp add: slot_def Let_def)
  qed
  have old: "slot s2 ino v = slot s ino v" if v: "v < 270" "v \<noteq> u" for v
  proof (cases "v < 14")
    case True
    then show ?thesis by (simp add: slot_def)
  next
    case False
    let ?j = "12 + (v - 14) div 128" and ?p = "4 * ((v - 14) mod 128)"
    have j: "?j < 14" using v by (simp add: less_mult_imp_div_less)
    have sj: "slot s ino ?j = i_addrs ino ! ?j" using j by (simp add: slot_def)
    have "rd (bdata s2 (slot s ino ?j)) ?p 4 = rd (bdata s (slot s ino ?j)) ?p 4" if nz: "slot s ino ?j \<noteq> 0"
    proof (cases "slot s ino ?j = ib")
      case True
      then have "?j = ?k" using inode_ok_inj [OF ok(1) nz, of ?k] j k sk by auto
      then have "(v - 14) mod 128 \<noteq> (u - 14) mod 128" using v(2) False u(1) by (metis add_left_cancel div_mult_mod_eq le_add_diff_inverse not_less)
      then have "?p + 4 \<le> ?o \<or> ?o + 4 \<le> ?p" by linarith
      then show ?thesis unfolding s2 True b1 using rd_put_other [of ?o "le_bytes 4 (unat (dblk si n))" "bdata s ib" ?p 4] len o4 by simp
    next
      case ne: False
      obtain q where q: "q < ndata si" "slot s ino ?j = dblk si q" "dused si s q" using inode_ok_slot [OF ok(1) _ nz] j by auto
      then have "slot s ino ?j \<noteq> dblk si n" using t dblk_inj [OF lay] by auto
      then show ?thesis using ne t dblk_not_bmap [OF lay q(1)] q(2) by (simp add: s2)
    qed
    then show ?thesis using False sj by (auto simp: slot_def Let_def)
  qed
  note it = itab_not_data [OF ok(1) lay]
  show ?thesis
  proof (rule grow_slot [OF lay ok(1), where t = u and n = n])
    show "blks_ok s2" using ok(3) o4 by (simp add: blks_ok_def s2)
    show "dused si s2 q \<longleftrightarrow> q = n \<or> dused si s q" if "q < ndata si" for q
      using bmblk_is_bmap [OF lay that] ibb t that by (auto simp: dused_def s2)
    show "bdata s2 b = bdata s b"
      if "\<not> is_bmap si b" "b \<noteq> dblk si n" "b \<noteq> itab ino" "b = 0 \<or> b \<noteq> slot s ino 12 \<and> b \<noteq> slot s ino 13" for b
    proof -
      have "?k = 12 \<or> ?k = 13" using k by linarith
      then have "b \<noteq> ib" using that(4) sk ib(2) by metis
      then show ?thesis using that t by (simp add: s2)
    qed
    show "bdata s2 (dblk si n) = replicate BDEV_BLK_SIZE 0" using t ibn by (simp add: s2)
    show "bdata s2 (itab ino) ! i = bdata s (itab ino) ! i" for i using t it [of n] it [of m] m by (simp add: s2)
    show "length (i_addrs ino) = 14" using ok(1) by (simp add: inode_ok_def)
  qed (use t u z new old in auto)
qed

text \<open>What the block map functions guarantee.  Without \<open>alloc\<close> they change nothing.\<close>

definition no_space :: "sfs_sb_info \<Rightarrow> blocks \<Rightarrow> bool" where
  "no_space si s \<longleftrightarrow> (\<forall>n < ndata si. scanned si n \<longrightarrow> dused si s n)"

definition map_errs :: "sfs_sb_info \<Rightarrow> blocks \<Rightarrow> bool \<Rightarrow> blk_t \<Rightarrow> err_t \<Rightarrow> bool" where
  "map_errs si s alloc blk err \<longleftrightarrow> err \<in> {ERR_OK, ERR_NOTEXIST, ERR_NOMEM, ERR_NORES}
     \<and> (err = ERR_NOTEXIST \<longrightarrow> \<not> alloc \<and> blk = 0) \<and> (err = ERR_NOMEM \<longrightarrow> (\<exists>n. \<not> answers s n)) \<and> (err = ERR_NORES \<longrightarrow> alloc \<and> blk = 0)"

lemma direct_blk_ok:
  assumes lay: "lay si" and ok: "inode_ok si s ino" "blks_ok s" and un: "unlocked si s" "itab ino \<notin> bheld s" "bref s (itab ino) > 0" and k: "k < 14"
  shows "\<exists>err blk s' ino'. direct_blk si s ino k alloc = Some (err, blk, s', ino') \<and> refs_same s s' \<and> extends si s ino s' ino'
    \<and> map_errs si s alloc (slot s ino k) err \<and> (err = ERR_OK \<longrightarrow> blk = i_addrs ino' ! k \<and> blk \<noteq> 0)
    \<and> (\<not> alloc \<or> err \<noteq> ERR_OK \<longrightarrow> bdata s' = bdata s \<and> ino' = ino) \<and> (err = ERR_NORES \<longrightarrow> no_space si s)"
proof (cases "i_addrs ino ! k = 0")
  case z: True
  show ?thesis
  proof (cases alloc)
    case False
    then show ?thesis using z k extends_same [OF ok] by (simp add: direct_blk_def map_errs_def slot_def)
  next
    case True
    obtain err blk s1 where a: "alloc_data_block si s = Some (err, blk, s1)" "alloc_result si 0 s err blk s1"
      using alloc_data_block_ok [OF lay ok(2) un(1)] by blast
    note r = a(2) [unfolded alloc_result_def]
    show ?thesis
    proof (cases "err = ERR_OK")
      case False
      then have "direct_blk si s ino k alloc = Some (err, blk, s1, ino)" using z True a by (simp add: direct_blk_def)
      moreover have "slot s ino k = 0" using z k by (simp add: slot_def)
      ultimately show ?thesis using r False True extends_same [OF ok, of s1] by (auto simp: map_errs_def no_space_def)
    next
      case e: True
      then obtain n where n: "blk = dblk si n" "taken si n s s1" using r by auto
      let ?ino = "fs_set_inode_dirty (ino\<lparr>i_addrs := (i_addrs ino)[k := blk]\<rparr>) True"
      have rs: "bref s1 = bref s" "bheld s1 = bheld s" "blks_ok s1" using r by (auto simp: refs_same_def)
      have inum: "i_inum ino \<noteq> 0" "length (i_addrs ino) = 14" using ok(1) by (auto simp: inode_ok_def)
      have w: "sfs_write_inode s1 ?ino = Some (ERR_OK, tab_put ?ino s1, fs_set_inode_dirty ?ino False)"
        using un rs inum by (intro write_inode_pinned) auto
      let ?ino' = "fs_set_inode_dirty ?ino False"
      have tp: "tab_put ?ino s1 = tab_put ?ino' s1" by (simp add: tab_put_def fs_set_inode_dirty_def enc_inode_def)
      have "direct_blk si s ino k alloc = Some (ERR_OK, blk, tab_put ?ino' s1, ?ino')" using z True a e w tp by (simp add: direct_blk_def Let_def)
      moreover have "extends si s ino (tab_put ?ino' s1) ?ino'"
        using n by (intro direct_grows [OF lay ok rs(3) n(2) k z]) (simp_all add: same_meta_def fs_set_inode_dirty_def)
      moreover have "refs_same s (tab_put ?ino' s1)" using r by (simp add: refs_same_def tab_put_def)
      moreover have "blk \<noteq> 0" using dblk_neq_0 [OF lay] n by (auto simp: taken_def)
      ultimately show ?thesis using k inum True by (simp add: map_errs_def)
    qed
  qed
next
  case False
  then show ?thesis using k extends_same [OF ok] by (simp add: direct_blk_def map_errs_def)
qed

lemma map_errs_D: "map_errs si s alloc blk err \<Longrightarrow> err = ERR_NOMEM \<Longrightarrow> \<exists>n. \<not> answers s n"
  by (simp add: map_errs_def)

lemma extends_ok: "extends si s ino s' ino' \<Longrightarrow> inode_ok si s' ino' \<and> blks_ok s'"
  by (simp add: extends_def fext_def)

lemma unlocked_insert:
  assumes "lay si" "inode_ok si s ino" "t < 270" "ib = slot s ino t" "ib \<noteq> 0" "bdata s' = bdata s" "bheld s' = {ib}"
  shows "unlocked si s'"
proof -
  obtain m where m: "m < ndata si" "ib = dblk si m" "dused si s m" using inode_ok_slot [OF assms(2,3)] assms(4,5) by auto
  have "\<not> is_bmap si ib" using dblk_not_bmap [OF assms(1) m(1)] m(2) by simp
  moreover have "dblk si n \<noteq> ib" if "n < ndata si" "\<not> dused si s n" for n using dblk_inj [OF assms(1) that(1) m(1)] that m by auto
  ultimately show ?thesis using assms(6,7) by (auto simp: unlocked_def slot_cong(2) [OF assms(6)])
qed

text \<open>The part after the indirect block \<open>ib\<close> has been got.\<close>

lemma indirect_entry:
  assumes lay: "lay si" and ok: "inode_ok si s ino" "blks_ok s" and f: "12 \<le> f" "f < 268" and ib: "ib = i_addrs ino ! (12 + (f - 12) div 128)" "ib \<noteq> 0"
    and h: "bheld s = {ib}" "bref s ib > 0"
  defines "blk0 \<equiv> of_nat (rd (bdata s ib) (4 * ((f - 12) mod 128)) 4) :: blk_t"
  shows "blk0 = slot s ino (f + 2)"
    and "blk0 = 0 \<Longrightarrow> \<exists>err blk s'. alloc_data_block si s = Some (err, blk, s') \<and> refs_same s s' \<and> err \<in> {ERR_OK, ERR_NOMEM, ERR_NORES}
      \<and> (err \<noteq> ERR_OK \<longrightarrow> bdata s' = bdata s) \<and> (err = ERR_NOMEM \<longrightarrow> (\<exists>n. \<not> answers s n)) \<and> (err = ERR_NORES \<longrightarrow> no_space si s)
      \<and> (err = ERR_OK \<longrightarrow> (let s2 = put_blk s' ib (put_bytes (bdata s' ib) (4 * ((f - 12) mod 128)) (le_bytes 4 (unat blk))) in
           extends si s ino s2 ino \<and> slot s2 ino (f + 2) = blk \<and> blk \<noteq> 0))"
proof -
  let ?u = "f + 2"
  have u: "14 \<le> ?u" "?u < 270" "?u - 14 = f - 12" using f by auto
  have k: "12 + (f - 12) div 128 < 14" using f by (simp add: less_mult_imp_div_less)
  have sk: "ib = slot s ino (12 + (f - 12) div 128)" using k ib by (simp add: slot_def)
  show b: "blk0 = slot s ino ?u" using u ib by (simp add: blk0_def slot_def Let_def)
  assume z: "blk0 = 0"
  have "unlocked si s" using unlocked_insert [OF lay ok(1) _ sk ib(2) refl h(1)] k by simp
  then obtain err blk s1 where a: "alloc_data_block si s = Some (err, blk, s1)" "alloc_result si 0 s err blk s1"
    using alloc_data_block_ok [OF lay ok(2)] by blast
  note r = a(2) [unfolded alloc_result_def]
  show "\<exists>err blk s'. alloc_data_block si s = Some (err, blk, s') \<and> refs_same s s' \<and> err \<in> {ERR_OK, ERR_NOMEM, ERR_NORES}
      \<and> (err \<noteq> ERR_OK \<longrightarrow> bdata s' = bdata s) \<and> (err = ERR_NOMEM \<longrightarrow> (\<exists>n. \<not> answers s n)) \<and> (err = ERR_NORES \<longrightarrow> no_space si s)
      \<and> (err = ERR_OK \<longrightarrow> (let s2 = put_blk s' ib (put_bytes (bdata s' ib) (4 * ((f - 12) mod 128)) (le_bytes 4 (unat blk))) in
           extends si s ino s2 ino \<and> slot s2 ino (f + 2) = blk \<and> blk \<noteq> 0))"
  proof (cases "err = ERR_OK")
    case False
    then show ?thesis using a r by (auto simp: no_space_def)
  next
    case True
    then obtain n where n: "blk = dblk si n" "taken si n s s1" using r by auto
    let ?s2 = "put_blk s1 ib (put_bytes (bdata s1 ib) (4 * ((f - 12) mod 128)) (le_bytes 4 (unat blk)))"
    have e: "extends si s ino ?s2 ino"
      using indirect_grows [OF lay ok _ n(2) u(1,2), of ib ?s2] r ib b z u(3) n(1) by simp
    have "length (bdata s1 ib) = 512" using r by (simp add: blks_ok_def)
    then have "rd (put_bytes (bdata s1 ib) (4 * ((f - 12) mod 128)) (le_bytes 4 (unat blk))) (4 * ((f - 12) mod 128)) 4 = unat blk"
      using rd_put_same [of "4 * ((f - 12) mod 128)" 4 "bdata s1 ib" "unat blk"] unsigned_less [of blk, where ?'a = nat] by simp
    then have "slot ?s2 ino ?u = blk" using u ib by (simp add: slot_def Let_def)
    moreover have "blk \<noteq> 0" using dblk_neq_0 [OF lay] n by (auto simp: taken_def)
    ultimately show ?thesis using a r e True by (simp add: Let_def)
  qed
qed

definition ind_result ::
  "sfs_sb_info \<Rightarrow> blocks \<Rightarrow> inode \<Rightarrow> nat \<Rightarrow> bool \<Rightarrow> err_t \<Rightarrow> blk_t \<Rightarrow> blk_t option \<Rightarrow> blocks \<Rightarrow> inode \<Rightarrow> bool" where
  "ind_result si s ino f alloc err blk indir s' ino' \<longleftrightarrow> extends si s ino s' ino' \<and> map_errs si s alloc (slot s ino (fslot f)) err
     \<and> (err = ERR_NORES \<longrightarrow> no_space si s') \<and> (\<not> alloc \<longrightarrow> bdata s' = bdata s \<and> ino' = ino)
     \<and> (err = ERR_OK \<longrightarrow> blk = slot s' ino' (fslot f) \<and> blk \<noteq> 0 \<and> refs_same s s')
     \<and> (err \<noteq> ERR_OK \<longrightarrow> (case indir of None \<Rightarrow> refs_same s s'
          | Some b \<Rightarrow> \<exists>s''. release_blk s' b = Some s'' \<and> bdata s'' = bdata s' \<and> refs_same s s''))"

definition entry_tail :: "sfs_sb_info \<Rightarrow> blocks \<Rightarrow> inode \<Rightarrow> nat \<Rightarrow> bool \<Rightarrow> blk_t \<Rightarrow> (err_t \<times> blk_t \<times> blk_t option \<times> blocks \<times> inode) exec" where
  "entry_tail si s ino f alloc ib =
     (let ofs = 4 * ((f - 12) mod 128); blk = of_nat (rd (bdata s ib) ofs 4) in
      if blk = 0 then
        if \<not> alloc then Some (ERR_NOTEXIST, 0, Some ib, s, ino)
        else do {
          (err, blk, s) \<leftarrow> alloc_data_block si s;
          if err \<noteq> ERR_OK then Some (err, blk, Some ib, s, ino)
          else do {
            s \<leftarrow> release_blk (put_blk s ib (put_bytes (bdata s ib) ofs (le_bytes 4 (unat blk)))) ib;
            Some (ERR_OK, blk, Some ib, s, ino) } }
      else do {
        s \<leftarrow> release_blk s ib;
        Some (ERR_OK, blk, Some ib, s, ino) })"

lemma indirect_blk_tail:
  "direct_blk si s ino (12 + (f - 12) div 128) alloc = Some (ERR_OK, b1, s1, ino1) \<Longrightarrow> (f - 12) div 128 < 2 \<Longrightarrow>
   i_addrs ino1 ! (12 + (f - 12) div 128) > 0 \<Longrightarrow> get_blk s1 (i_addrs ino1 ! (12 + (f - 12) div 128)) = Some (True, s2) \<Longrightarrow>
   indirect_blk si s ino f alloc = entry_tail si s2 ino1 f alloc (i_addrs ino1 ! (12 + (f - 12) div 128))"
  by (simp add: indirect_blk_def Let_def entry_tail_def)

lemma fslot_max: "f < 268 \<Longrightarrow> fslot f < 270"
  by (simp add: fslot_def)

lemma entry_tail_alloc:
  assumes lay: "lay si" and ext: "extends si s ino s2 ino1" and f: "12 \<le> f" "f < 268" and ib: "ib = i_addrs ino1 ! (12 + (f - 12) div 128)" "ib \<noteq> 0"
    and s2: "bheld s2 = {ib}" "bref s2 ib > 0" "refs_same s (s2\<lparr>bref := (bref s2)(ib := bref s2 ib - 1), bheld := {}\<rparr>)"
    and z: "slot s2 ino1 (f + 2) = 0"
  shows "\<exists>err blk s' ino'. entry_tail si s2 ino1 f True ib = Some (err, blk, Some ib, s', ino') \<and> ind_result si s ino f True err blk (Some ib) s' ino'"
proof -
  let ?o = "4 * ((f - 12) mod 128)"
  note o2 = extends_ok [OF ext]
  have fs: "fslot f = f + 2" using f by (simp add: fslot_def)
  note entry = indirect_entry [OF lay conjunct1 [OF o2] conjunct2 [OF o2] f ib s2(1,2)]
  obtain err blk s3 where a: "alloc_data_block si s2 = Some (err, blk, s3)" "refs_same s2 s3" "err \<in> {ERR_OK, ERR_NOMEM, ERR_NORES}"
      "err \<noteq> ERR_OK \<longrightarrow> bdata s3 = bdata s2" "err = ERR_NOMEM \<longrightarrow> (\<exists>n. \<not> answers s2 n)" "err = ERR_NORES \<longrightarrow> no_space si s2"
      "err = ERR_OK \<longrightarrow> (let s4 = put_blk s3 ib (put_bytes (bdata s3 ib) ?o (le_bytes 4 (unat blk))) in
         extends si s2 ino1 s4 ino1 \<and> slot s4 ino1 (f + 2) = blk \<and> blk \<noteq> 0)"
    using entry z by metis
  have h3: "bheld s3 = {ib}" "bref s3 = bref s2" "ib \<in> bheld s3" "bref s3 ib > 0" using a(2) s2 by (auto simp: refs_same_def)
  have ret: "refs_same s (s3\<lparr>bref := (bref s3)(ib := bref s3 ib - 1), bheld := bheld s3 - {ib}\<rparr>)"
    using s2(3) a(2) h3(1) by (auto simp: refs_same_def)
  have zz: "(of_nat (rd (bdata s2 ib) ?o 4) :: blk_t) = 0" using entry(1) z by simp
  show ?thesis
  proof (cases "err = ERR_OK")
    case False
    have "\<exists>n. \<not> answers s2 n \<Longrightarrow> \<exists>n. \<not> answers s n" using s2(3) by (auto simp: refs_same_def)
    moreover have "slot s ino (fslot f) = 0" 
      using ext f(2) z by (metis (no_types, lifting) extends_def fext_def fs fslot_max)
    ultimately have "ind_result si s ino f True err blk (Some ib) s3 ino1"
      using False a file_extends_trans [OF ext extends_same [OF conjunct1 [OF o2] conjunct2 [OF o2], of s3]] h3 ret
      by (auto simp: ind_result_def map_errs_def release_blk_eq no_space_def slot_cong(2) [of s3 s2])
    moreover have "entry_tail si s2 ino1 f True ib = Some (err, blk, Some ib, s3, ino1)" using zz a(1) False by (simp add: entry_tail_def Let_def)
    ultimately show ?thesis by blast
  next
    case True
    let ?s4 = "put_blk s3 ib (put_bytes (bdata s3 ib) ?o (le_bytes 4 (unat blk)))"
    let ?s5 = "?s4\<lparr>bref := (bref s3)(ib := bref s3 ib - 1), bheld := bheld s3 - {ib}\<rparr>"
    have x: "extends si s2 ino1 ?s4 ino1" "slot ?s4 ino1 (f + 2) = blk" "blk \<noteq> 0" using a(7) True by (auto simp: Let_def)
    have e5: "extends si s ino ?s5 ino1"
      using file_extends_trans [OF file_extends_trans [OF ext x(1)] extends_same] extends_ok [OF x(1)] by simp
    have rel: "release_blk ?s4 ib = Some ?s5" using h3 by (simp add: release_blk_eq)
    have "refs_same s ?s5" using ret by (simp add: refs_same_def)
    moreover have "slot ?s5 ino1 (f + 2) = blk" using x(2) slot_cong(1) [of ?s5 ?s4] by simp
    ultimately have "ind_result si s ino f True ERR_OK blk (Some ib) ?s5 ino1" using e5 x(3) by (simp add: ind_result_def map_errs_def fs)
    moreover have "entry_tail si s2 ino1 f True ib = Some (ERR_OK, blk, Some ib, ?s5, ino1)"
      using zz a(1) True rel by (simp add: entry_tail_def Let_def)
    ultimately show ?thesis by blast
  qed
qed

lemma entry_tail_ok:
  assumes lay: "lay si" and ext: "extends si s ino s2 ino1" and f: "12 \<le> f" "f < 268" and ib: "ib = i_addrs ino1 ! (12 + (f - 12) div 128)" "ib \<noteq> 0"
    and s2: "bheld s2 = {ib}" "bref s2 ib > 0" "refs_same s (s2\<lparr>bref := (bref s2)(ib := bref s2 ib - 1), bheld := {}\<rparr>)"
    and same: "\<not> alloc \<longrightarrow> bdata s2 = bdata s \<and> ino1 = ino"
  shows "\<exists>err blk s' ino'. entry_tail si s2 ino1 f alloc ib = Some (err, blk, Some ib, s', ino') \<and> ind_result si s ino f alloc err blk (Some ib) s' ino'"
proof -
  let ?o = "4 * ((f - 12) mod 128)" and ?sr = "s2\<lparr>bref := (bref s2)(ib := bref s2 ib - 1), bheld := {}\<rparr>"
  note o2 = extends_ok [OF ext]
  have fs: "fslot f = f + 2" using f by (simp add: fslot_def)
  have rel: "release_blk s2 ib = Some ?sr" using s2 by (simp add: release_blk_eq)
  have b: "of_nat (rd (bdata s2 ib) ?o 4) = slot s2 ino1 (f + 2)"
    by (rule indirect_entry(1) [OF lay conjunct1 [OF o2] conjunct2 [OF o2] f ib s2(1,2)])
  show ?thesis
  proof (cases "slot s2 ino1 (f + 2) = 0")
    case nz: False
    have "extends si s ino ?sr ino1" using file_extends_trans [OF ext extends_same] o2 by simp
    moreover have "slot ?sr ino1 (f + 2) = slot s2 ino1 (f + 2)" using slot_cong(1) [of ?sr s2] by simp
    ultimately have "ind_result si s ino f alloc ERR_OK (slot s2 ino1 (f + 2)) (Some ib) ?sr ino1"
      using nz s2(3) same by (simp add: ind_result_def map_errs_def fs)
    then show ?thesis using nz rel by (simp add: entry_tail_def Let_def b)
  next
    case z: True
    show ?thesis
    proof (cases alloc)
      case False
      have "slot s ino (f + 2) = 0" using z same False slot_cong(1) [of s2 s] by simp
      then have "ind_result si s ino f alloc ERR_NOTEXIST 0 (Some ib) s2 ino1"
        using ext False same rel s2(3) by (simp add: ind_result_def map_errs_def fs)
      then show ?thesis using z False by (simp add: entry_tail_def Let_def b)
    next
      case True
      then show ?thesis using entry_tail_alloc [OF lay ext f ib s2 z] by simp
    qed
  qed
qed

lemma indirect_blk_ok:
  assumes lay: "lay si" and ok: "inode_ok si s ino" "blks_ok s" and un: "bheld s = {}" "bref s (itab ino) > 0" and f: "12 \<le> f" "f < 268"
  shows "\<exists>err blk indir s' ino'. indirect_blk si s ino f alloc = Some (err, blk, indir, s', ino') \<and> ind_result si s ino f alloc err blk indir s' ino'
    \<and> (err = ERR_OK \<longrightarrow> indir \<noteq> None)"
proof -
  let ?k = "12 + (f - 12) div 128"
  have k: "?k < 14" "(f - 12) div 128 < 2" using f by (simp_all add: less_mult_imp_div_less)
  have fs: "fslot f = f + 2" using f by (simp add: fslot_def)
  have "unlocked si s" "itab ino \<notin> bheld s" using un by (auto simp: unlocked_def)
  then obtain err1 b1 s1 ino1 where d: "direct_blk si s ino ?k alloc = Some (err1, b1, s1, ino1)" "refs_same s s1" "extends si s ino s1 ino1"
      "map_errs si s alloc (slot s ino ?k) err1" "err1 = ERR_OK \<longrightarrow> b1 = i_addrs ino1 ! ?k \<and> b1 \<noteq> 0"
      "\<not> alloc \<or> err1 \<noteq> ERR_OK \<longrightarrow> bdata s1 = bdata s \<and> ino1 = ino" "err1 = ERR_NORES \<longrightarrow> no_space si s"
    using direct_blk_ok [OF lay ok _ _ un(2) k(1)] by metis
  show ?thesis
  proof (cases "err1 = ERR_OK")
    case False
    then have "indirect_blk si s ino f alloc = Some (err1, 0, None, s1, ino1)" using d k by (simp add: indirect_blk_def Let_def)
    moreover have "slot s ino ?k = 0 \<Longrightarrow> slot s ino (f + 2) = 0" using f k by (simp add: slot_def Let_def)
    then have "ind_result si s ino f alloc err1 0 None s1 ino1"
      using d False by (auto simp: ind_result_def fs map_errs_def no_space_def slot_cong(2) [of s1 s])
    ultimately show ?thesis using False by blast
  next
    case e1: True
    let ?ib = "i_addrs ino1 ! ?k"
    have ib: "?ib \<noteq> 0" "?ib > 0" using d(5) e1 by (auto simp: word_gt_0)
    have h1: "bheld s1 = {}" using d(2) un by (simp add: refs_same_def)
    then have "?ib \<notin> bheld s1" by simp
    then show ?thesis
    proof (cases rule: get_blk_cases)
      case (no as)
      have "indirect_blk si s ino f alloc = Some (ERR_NOMEM, 0, None, s1\<lparr>answers := as\<rparr>, ino1)"
        using d(1) e1 k no ib by (simp add: indirect_blk_def Let_def)
      moreover have "extends si s ino (s1\<lparr>answers := as\<rparr>) ino1"
        using file_extends_trans [OF d(3) extends_same] extends_ok [OF d(3)] by simp
      then have "ind_result si s ino f alloc ERR_NOMEM 0 None (s1\<lparr>answers := as\<rparr>) ino1"
        using d(2,6) no by (auto simp: ind_result_def map_errs_def refs_same_def)
      ultimately show ?thesis by fastforce
    next
      case (yes as)
      let ?s2 = "s1\<lparr>bref := (bref s1)(?ib := bref s1 ?ib + 1), bheld := insert ?ib (bheld s1), answers := as\<rparr>"
      have ext2: "extends si s ino ?s2 ino1" using file_extends_trans [OF d(3) extends_same] extends_ok [OF d(3)] by simp
      have rs: "refs_same s (?s2\<lparr>bref := (bref ?s2)(?ib := bref ?s2 ?ib - 1), bheld := {}\<rparr>)" using d(2) yes(2) un(1) by (auto simp: refs_same_def)
      have "indirect_blk si s ino f alloc = entry_tail si ?s2 ino1 f alloc ?ib"
        using d(1) e1 by (intro indirect_blk_tail [OF _ k(2) ib(2) yes(1)]) simp
      moreover have "\<exists>err blk s' ino'. entry_tail si ?s2 ino1 f alloc ?ib = Some (err, blk, Some ?ib, s', ino')
          \<and> ind_result si s ino f alloc err blk (Some ?ib) s' ino'"
        using d(6) h1 by (intro entry_tail_ok [OF lay ext2 f refl ib(1) _ _ rs]) auto
      ultimately show ?thesis by (metis option.distinct(1))
    qed
  qed
qed

definition map_blk :: "sfs_sb_info \<Rightarrow> blocks \<Rightarrow> inode \<Rightarrow> nat \<Rightarrow> bool \<Rightarrow> (err_t \<times> blk_t \<times> blk_t option \<times> blocks \<times> inode) exec" where
  "map_blk si s ino f alloc =
     (if f < SFS_NDIRECT then do {
        (err, blk, s, ino) \<leftarrow> direct_blk si s ino f alloc;
        Some (err, blk, None, s, ino) }
      else indirect_blk si s ino f alloc)"

lemma map_blk_ok:
  assumes lay: "lay si" and ok: "inode_ok si s ino" "blks_ok s" and un: "bheld s = {}" "bref s (itab ino) > 0" and f: "f < 268"
  shows "\<exists>err blk indir s' ino'. map_blk si s ino f alloc = Some (err, blk, indir, s', ino') \<and> ind_result si s ino f alloc err blk indir s' ino'
    \<and> (indir \<noteq> None \<longrightarrow> 12 \<le> f)"
proof (cases "f < 12")
  case True
  have "unlocked si s" "itab ino \<notin> bheld s" using un by (auto simp: unlocked_def)
  then obtain err blk s1 ino1 where d: "direct_blk si s ino f alloc = Some (err, blk, s1, ino1)" "refs_same s s1" "extends si s ino s1 ino1"
      "map_errs si s alloc (slot s ino f) err" "err = ERR_OK \<longrightarrow> blk = i_addrs ino1 ! f \<and> blk \<noteq> 0"
      "\<not> alloc \<or> err \<noteq> ERR_OK \<longrightarrow> bdata s1 = bdata s \<and> ino1 = ino" "err = ERR_NORES \<longrightarrow> no_space si s"
    using direct_blk_ok [OF lay ok _ _ un(2), of f alloc] True by fastforce
  then have "ind_result si s ino f alloc err blk None s1 ino1"
    using True by (auto simp: ind_result_def fslot_def slot_def no_space_def slot_cong(2) [of s1 s])
  then show ?thesis using d(1) True by (simp add: map_blk_def)
next
  case False
  then show ?thesis using indirect_blk_ok [OF lay ok un _ f, of alloc] by (fastforce simp: map_blk_def)
qed

definition gdb_result :: "sfs_sb_info \<Rightarrow> blocks \<Rightarrow> inode \<Rightarrow> nat \<Rightarrow> bool \<Rightarrow> err_t \<Rightarrow> blk_t \<Rightarrow> blocks \<Rightarrow> inode \<Rightarrow> bool" where
  "gdb_result si s ino f alloc err blk s' ino' \<longleftrightarrow> extends si s ino s' ino' \<and> map_errs si s alloc (slot s ino (fslot f)) err
     \<and> (err = ERR_NORES \<longrightarrow> no_space si s') \<and> (\<not> alloc \<longrightarrow> bdata s' = bdata s \<and> ino' = ino)
     \<and> (err = ERR_OK \<longrightarrow> blk = slot s' ino' (fslot f) \<and> blk \<noteq> 0
          \<and> refs_same (s\<lparr>bheld := {blk}, bref := (bref s)(blk := bref s blk + 1)\<rparr>) s')
     \<and> (err \<noteq> ERR_OK \<longrightarrow> refs_same s s')"

lemma get_data_block_eq:
  assumes "ofs < SFS_MAX_FILE_SIZE" "pin_blk s (itab ino) = (True, s0)" "map_blk si s0 ino (unat (ofs div 512)) alloc = Some (err, blk, indir, s1, ino1)"
  shows "get_data_block si s ino ofs alloc = do {
       (err, s) \<leftarrow> (if err \<noteq> ERR_OK then Some (err, s1)
          else do { kassert (blk > 0); (ok, s) \<leftarrow> get_blk s1 blk; Some (if ok then ERR_OK else ERR_NOMEM, s) });
       s \<leftarrow> (if err = ERR_OK then Some s else case indir of None \<Rightarrow> Some s | Some b \<Rightarrow> release_blk s b);
       s \<leftarrow> unpin_blk s (itab ino);
       Some (err, blk, s, ino1) }"
  using assms unfolding get_data_block_def map_blk_def by (simp add: Let_def)

lemma refs_same_trans: "refs_same a b \<Longrightarrow> refs_same b c \<Longrightarrow> refs_same a c"
  by (simp add: refs_same_def)

lemma unpin_back:
  assumes "refs_same (s\<lparr>bref := (bref s)(b := bref s b + 1), answers := as\<rparr>) s'" "(\<forall>n. answers s n) \<longrightarrow> (\<forall>n. as n)"
  shows "\<exists>s''. unpin_blk s' b = Some s'' \<and> bdata s'' = bdata s' \<and> refs_same s s''"
  using assms by (auto simp: unpin_blk_def refs_same_def)

lemma inode_ok_cong: "bdata s' = bdata s \<Longrightarrow> inode_ok si s' ino = inode_ok si s ino"
  by (simp add: inode_ok_def slot_cong [of s' s])

lemma gdb_extends:
  assumes "inode_ok si s ino" "blks_ok s" "bdata s0 = bdata s" "extends si s0 ino s1 ino1" "bdata s2 = bdata s1"
  shows "extends si s ino s2 ino1"
  using file_extends_trans [OF file_extends_trans [OF extends_same [OF assms(1-3)] assms(4)] extends_same] extends_ok [OF assms(4)] assms(5) by simp

theorem get_data_block_ok:
  assumes lay: "lay si" and ok: "inode_ok si s ino" "blks_ok s" and un: "bheld s = {}" and ofs: "ofs < SFS_MAX_FILE_SIZE"
  defines "f \<equiv> unat (ofs div 512)"
  shows "(\<exists>err blk s' ino'. get_data_block si s ino ofs alloc = Some (err, blk, s', ino') \<and> gdb_result si s ino f alloc err blk s' ino')
    \<or> (get_data_block si s ino ofs alloc = None \<and> 12 \<le> f \<and> (\<exists>n. \<not> answers s n))"
proof (cases "fst (pin_blk s (itab ino))")
  case False
  then obtain s0 where p: "pin_blk s (itab ino) = (False, s0)" "s0 = s\<lparr>answers := \<lambda>n. answers s (Suc n)\<rparr>" "\<not> answers s 0"
    by (auto simp: pin_blk_def split: if_splits)
  then have "get_data_block si s ino ofs alloc = Some (ERR_NOMEM, 0, s0, ino)" using ofs by (simp add: get_data_block_def Let_def)
  moreover have "gdb_result si s ino f alloc ERR_NOMEM 0 s0 ino"
    using p extends_same [OF ok, of s0] by (auto simp: gdb_result_def map_errs_def refs_same_def)
  ultimately show ?thesis by blast
next
  case True
  then obtain as where p: "pin_blk s (itab ino) = (True, s\<lparr>bref := (bref s)(itab ino := bref s (itab ino) + 1), answers := as\<rparr>)"
    "(\<forall>n. answers s n) \<longrightarrow> (\<forall>n. as n)" proof (cases "bref s (itab ino) > 0")
    case True
    then show ?thesis by (intro that [of "answers s"]) (auto simp: pin_blk_def)
  next
    case False
    then show ?thesis using \<open>fst (pin_blk s (itab ino))\<close>
      by (intro that [of "\<lambda>n. answers s (Suc n)"]) (auto simp: pin_blk_def split: if_splits)
  qed
  let ?s0 = "s\<lparr>bref := (bref s)(itab ino := bref s (itab ino) + 1), answers := as\<rparr>"
  have f: "f < 268" using ofs by (simp add: f_def unat_div word_less_nat_alt)
  have ok0: "inode_ok si ?s0 ino" "blks_ok ?s0" using ok inode_ok_cong [of ?s0 s] by (simp_all add: blks_ok_def)
  obtain err blk indir s1 ino1 where m: "map_blk si ?s0 ino f alloc = Some (err, blk, indir, s1, ino1)"
      "ind_result si ?s0 ino f alloc err blk indir s1 ino1" "indir \<noteq> None \<longrightarrow> 12 \<le> f"
    using map_blk_ok [OF lay ok0 _ _ f, of alloc] un by auto
  note r = m(2) [unfolded ind_result_def] and run = get_data_block_eq [OF ofs p(1) m(1) [unfolded f_def]]
  have sl: "slot ?s0 ino = slot s ino" by (rule slot_cong) simp
  have nm: "map_errs si s alloc (slot s ino (fslot f)) err" using r p(2) unfolding sl map_errs_def by auto
  show ?thesis
  proof (cases "err = ERR_OK")
    case False
    then obtain s2 where s2: "(case indir of None \<Rightarrow> Some s1 | Some b \<Rightarrow> release_blk s1 b) = Some s2" "bdata s2 = bdata s1" "refs_same ?s0 s2"
      using r by (auto split: option.splits)
    then obtain s3 where s3: "unpin_blk s2 (itab ino) = Some s3" "bdata s3 = bdata s2" "refs_same s s3"
      using unpin_back [OF s2(3) p(2)] by auto
    have "get_data_block si s ino ofs alloc = Some (err, blk, s3, ino1)" using run False s2(1) s3(1) by simp
    moreover have "extends si s ino s3 ino1" using gdb_extends [OF ok _ conjunct1 [OF r]] s2(2) s3(2) by simp
    then have "gdb_result si s ino f alloc err blk s3 ino1"
      using False nm r s2(2) s3 by (simp add: gdb_result_def no_space_def slot_cong(2) [of s3 s1])
    ultimately show ?thesis by blast
  next
    case e: True
    then have b: "blk = slot s1 ino1 (fslot f)" "blk \<noteq> 0" "blk > 0" "refs_same ?s0 s1" using r by (auto simp: word_gt_0)
    have "blk \<notin> bheld s1" using b(4) un by (simp add: refs_same_def)
    then show ?thesis
    proof (cases rule: get_blk_cases)
      case (no as')
      have nomem: "\<exists>n. \<not> answers s n" using no(2) b(4) p(2) by (auto simp: refs_same_def)
      show ?thesis
      proof (cases indir)
        case None
        have "refs_same ?s0 (s1\<lparr>answers := as'\<rparr>)" using b(4) no(3) by (auto simp: refs_same_def)
        then obtain s3 where s3: "unpin_blk (s1\<lparr>answers := as'\<rparr>) (itab ino) = Some s3" "bdata s3 = bdata s1" "refs_same s s3"
          using unpin_back [OF _ p(2)] by fastforce
        have "get_data_block si s ino ofs alloc = Some (ERR_NOMEM, blk, s3, ino1)" using run e no(1) b(3) None s3(1) by simp
        moreover have "extends si s ino s3 ino1" using gdb_extends [OF ok _ conjunct1 [OF r]] s3(2) by simp
        then have "gdb_result si s ino f alloc ERR_NOMEM blk s3 ino1" using nomem r s3 by (simp add: gdb_result_def map_errs_def)
        ultimately show ?thesis by blast
      next
        case (Some ib)
        have "get_data_block si s ino ofs alloc = None" using run e no(1) b(3,4) Some un by (simp add: release_blk_def refs_same_def)
        then show ?thesis using nomem m(3) Some by simp
      qed
    next
      case (yes as')
      let ?s2 = "s1\<lparr>bref := (bref s1)(blk := bref s1 blk + 1), bheld := insert blk (bheld s1), answers := as'\<rparr>"
      have "unpin_blk ?s2 (itab ino) = Some (?s2\<lparr>bref := (bref ?s2)(itab ino := bref ?s2 (itab ino) - 1)\<rparr>)" (is "_ = Some ?s3")
        using b(4) by (simp add: unpin_blk_def refs_same_def)
      then have "get_data_block si s ino ofs alloc = Some (ERR_OK, blk, ?s3, ino1)" using run e yes(1) b(3) by simp
      moreover have "extends si s ino ?s3 ino1" using gdb_extends [OF ok _ conjunct1 [OF r]] by simp
      moreover have "refs_same (s\<lparr>bheld := {blk}, bref := (bref s)(blk := bref s blk + 1)\<rparr>) ?s3"
        using b(4) p(2) yes(2) un by (auto simp: refs_same_def fun_eq_iff)
      ultimately show ?thesis using r b(1,2) slot_cong(1) [of ?s3 s1] by (auto simp: gdb_result_def map_errs_def)
    qed
  qed
qed

section \<open>Reading and writing\<close>

text \<open>The bytes of a file with a range replaced.\<close>

definition wrote :: "blocks \<Rightarrow> inode \<Rightarrow> nat \<Rightarrow> u8 list \<Rightarrow> blocks \<Rightarrow> inode \<Rightarrow> bool" where
  "wrote s ino pos bs s' ino' \<longleftrightarrow> (\<forall>p < unat SFS_MAX_FILE_SIZE.
     fbyte s' ino' p = (if pos \<le> p \<and> p < pos + length bs then bs ! (p - pos) else fbyte s ino p))"

lemma wrote_append:
  assumes "wrote s ino pos as s1 ino1" "wrote s1 ino1 (pos + length as) bs s2 ino2"
  shows "wrote s ino pos (as @ bs) s2 ino2"
  using assms by (auto simp: wrote_def nth_append)

text \<open>Overwriting bytes of a block of the file.\<close>

lemma put_in_file:
  assumes lay: "lay si" and ok: "inode_ok si s ino" "blks_ok s" and f: "f < 268" and b: "b = slot s ino (fslot f)" "b \<noteq> 0"
    and o: "o' + length bs \<le> 512" and s': "bdata s' = (bdata s)(b := put_bytes (bdata s b) o' bs)"
  shows "fext si s ino s' ino \<and> wrote s ino (512 * f + o') bs s' ino"
proof -
  have t: "fslot f < 270" "fslot f \<noteq> 12" "fslot f \<noteq> 13" using f by (auto simp: fslot_def)
  obtain m where m: "m < ndata si" "b = dblk si m" "dused si s m" using inode_ok_slot [OF ok(1) t(1)] b by auto
  have nb: "\<not> is_bmap si b" "b \<noteq> itab ino" using dblk_not_bmap [OF lay m(1)] itab_not_data [OF ok(1) lay, of m] m by auto
  have sl: "slot s' ino u = slot s ino u" if u: "u < 270" for u
  proof -
    have "b \<noteq> i_addrs ino ! k" if "k = 12 \<or> k = 13" for k
      using inode_ok_inj [OF ok(1), of "fslot f" k] t that b by (auto simp: slot_def)
    moreover have "12 + (u - 14) div 128 = 12 \<or> 12 + (u - 14) div 128 = 13" using u by (simp add: less_2_cases_iff [symmetric] less_mult_imp_div_less)
    ultimately have "b \<noteq> i_addrs ino ! (12 + (u - 14) div 128)" by blast
    then show ?thesis using s' by (auto simp: slot_def Let_def)
  qed
  have du: "dused si s' n = dused si s n" if "n < ndata si" for n using bmblk_is_bmap [OF lay that] nb by (auto simp: dused_def s')
  have "inode_ok si s' ino" using ok(1) unfolding inode_ok_def by (simp add: sl) (metis du)
  moreover have L: "length (bdata s b) = 512" using ok(2) by (simp add: blks_ok_def)
  moreover have "others_kept si s ino s'" using nb b t du by (auto simp: others_kept_def s')
  ultimately have fe: "fext si s ino s' ino" using ok(2) o by (simp add: fext_def sl blks_ok_def s')
  have "fbyte s' ino p = (if 512 * f + o' \<le> p \<and> p < 512 * f + o' + length bs then bs ! (p - (512 * f + o')) else fbyte s ino p)"
    if p: "p < unat SFS_MAX_FILE_SIZE" for p
  proof (cases "p div 512 = f")
    case True
    define q where "q = p mod 512"
    have q: "p = 512 * f + q" "q < 512" using True by (auto simp: q_def mult_div_mod_eq)
    have "fbyte s' ino p = put_bytes (bdata s b) o' bs ! q" "fbyte s ino p = bdata s b ! q"
      using True b t(1) by (simp_all add: fbyte_def Let_def sl s' q_def)
    then show ?thesis using nth_put_bytes [of o' bs "bdata s b" q] o L q by auto
  next
    case False
    have "fslot (p div 512) \<noteq> fslot f" using False by (auto simp: fslot_def)
    moreover have pf: "fslot (p div 512) < 270" using p by (auto simp: fslot_def)
    ultimately have "slot s ino (fslot (p div 512)) \<noteq> b" using inode_ok_inj [OF ok(1), of "fslot f" "fslot (p div 512)"] t b by auto
    then have "fbyte s' ino p = fbyte s ino p" using pf by (simp add: fbyte_def Let_def sl s')
    moreover have "\<not> (512 * f + o' \<le> p \<and> p < 512 * f + o' + length bs)" using False o by auto
    ultimately show ?thesis by auto
  qed
  then show ?thesis using fe by (simp add: wrote_def)
qed

definition mapped :: "blocks \<Rightarrow> inode \<Rightarrow> nat \<Rightarrow> nat \<Rightarrow> bool" where
  "mapped s ino lo hi \<longleftrightarrow> (\<forall>p. lo \<le> p \<longrightarrow> p < hi \<longrightarrow> slot s ino (fslot (p div 512)) \<noteq> 0)"

definition wr_result :: "sfs_sb_info \<Rightarrow> blocks \<Rightarrow> inode \<Rightarrow> u8 list \<Rightarrow> u64 \<Rightarrow> nat \<Rightarrow> blocks \<Rightarrow> inode \<Rightarrow> bool" where
  "wr_result si s ino buf ofs w s' ino' \<longleftrightarrow> w \<le> length buf \<and> fext si s ino s' ino' \<and> wrote s ino (unat ofs) (take w buf) s' ino'
     \<and> mapped s' ino' (unat ofs) (unat ofs + w) \<and> refs_same s s' \<and> (w < length buf \<longrightarrow> (\<exists>n. \<not> answers s n) \<or> no_space si s')"

lemma fslot_lt: "p < 137216 \<Longrightarrow> fslot (p div 512) < 270"
  by (auto simp: fslot_def)

lemma mapped_fext: "mapped s ino lo hi \<Longrightarrow> fext si s ino s' ino' \<Longrightarrow> hi \<le> 137216 \<Longrightarrow> mapped s' ino' lo hi"
  unfolding mapped_def fext_def using fslot_lt by fastforce

text \<open>One turn of the write loop.\<close>

lemma write_turn:
  fixes ofs :: u64
  assumes lay: "lay si" and ok: "inode_ok si s ino" "blks_ok s" and un: "bheld s = {}"
    and g: "gdb_result si s ino (unat (ofs div 512)) True ERR_OK bh s1 ino1" and ofs: "unat ofs < 137216"
    and n: "n = min (512 - unat ofs mod 512) (length buf)"
  shows "\<exists>s2. release_blk (put_blk s1 bh (put_bytes (bdata s1 bh) (unat ofs mod 512) (take n buf))) bh = Some s2
    \<and> fext si s ino s2 ino1 \<and> wrote s ino (unat ofs) (take n buf) s2 ino1 \<and> mapped s2 ino1 (unat ofs) (unat ofs + n) \<and> refs_same s s2"
proof -
  let ?f = "unat (ofs div 512)" and ?o = "unat ofs mod 512"
  have f: "?f < 268" "512 * ?f + ?o = unat ofs" using ofs by (simp_all add: unat_div mult_div_mod_eq)
  note r = g [unfolded gdb_result_def]
  have b: "bh = slot s1 ino1 (fslot ?f)" "bh \<noteq> 0" "extends si s ino s1 ino1" using r by auto
  have h: "bheld s1 = {bh}" "bref s1 = (bref s)(bh := bref s bh + 1)" "(\<forall>n. answers s n) \<longrightarrow> (\<forall>n. answers s1 n)" using r by (auto simp: refs_same_def)
  let ?s2 = "s1\<lparr>bdata := (bdata s1)(bh := put_bytes (bdata s1 bh) ?o (take n buf)), bref := bref s, bheld := {}\<rparr>"
  have rel: "release_blk (put_blk s1 bh (put_bytes (bdata s1 bh) ?o (take n buf))) bh = Some ?s2"
    using h by (simp add: release_blk_eq put_blk_def)
  have "?o < 512" by simp
  then have le: "?o + length (take n buf) \<le> 512" unfolding n by simp
  have p: "fext si s1 ino1 ?s2 ino1 \<and> wrote s1 ino1 (512 * ?f + ?o) (take n buf) ?s2 ino1"
    using extends_ok [OF b(3)] by (intro put_in_file [OF lay _ _ f(1) b(1,2) le]) simp_all
  then have "fext si s ino ?s2 ino1" using b(3) fext_trans unfolding extends_def by blast
  moreover have "wrote s ino (unat ofs) (take n buf) ?s2 ino1" using p b(3) f(2) by (simp add: wrote_def extends_def)
  moreover have "mapped ?s2 ino1 (unat ofs) (unat ofs + n)"
  proof -
    have "slot ?s2 ino1 (fslot ?f) \<noteq> 0" using p b f(1) by (simp add: fext_def fslot_def)
    moreover have "q div 512 = ?f" if q: "unat ofs \<le> q" "q < unat ofs + n" for q
    proof -
      have "n \<le> 512 - ?o" using n by simp
      then show ?thesis using q f(2) by (simp add: div_nat_eqI)
    qed
    ultimately show ?thesis by (simp add: mapped_def)
  qed
  moreover have "refs_same s ?s2" using h un by (simp add: refs_same_def)
  ultimately show ?thesis using rel by blast
qed

lemma file_write_loop_ok:
  assumes lay: "lay si"
  shows "inode_ok si s ino \<Longrightarrow> blks_ok s \<Longrightarrow> bheld s = {} \<Longrightarrow> unat ofs + length buf \<le> 137216 \<Longrightarrow>
   (\<exists>w s' ino'. write_data_loop si s ino buf ofs tot = Some (tot + w, ofs + of_nat w, s', ino') \<and> wr_result si s ino buf ofs w s' ino')
   \<or> (write_data_loop si s ino buf ofs tot = None \<and> (\<exists>n. \<not> answers s n))"
proof (induction "length buf" arbitrary: buf s ino ofs tot rule: less_induct)
  case less
  show ?case
  proof (cases "buf = []")
    case True
    have "wr_result si s ino buf ofs 0 s ino"
      using True extends_same [OF less.prems(1,2) refl] by (auto simp: wr_result_def wrote_def mapped_def extends_def)
    then show ?thesis using True by (subst (1 2) write_data_loop.simps) (auto intro!: exI [of _ 0])
  next
    case False
    then have "0 < length buf" by simp
    then have lt: "unat ofs < 137216" using less.prems(4) by linarith
    then have lt': "ofs < SFS_MAX_FILE_SIZE" by (simp add: word_less_nat_alt)
    consider (ret) err bh s1 ino1 where "get_data_block si s ino ofs True = Some (err, bh, s1, ino1)"
        "gdb_result si s ino (unat (ofs div 512)) True err bh s1 ino1"
      | (stop) "get_data_block si s ino ofs True = None" "\<exists>n. \<not> answers s n"
      using get_data_block_ok [OF lay less.prems(1-3) lt', of True] by metis
    then show ?thesis
    proof cases
      case g: ret
      show ?thesis
      proof (cases "err = ERR_OK")
        case ne: False
        have "wr_result si s ino buf ofs 0 s1 ino1"
          using g(2) ne False by (auto simp: wr_result_def gdb_result_def extends_def wrote_def mapped_def map_errs_def)
        then show ?thesis using False g(1) ne by (subst (1 2) write_data_loop.simps) (auto intro!: exI [of _ 0])
      next
        case e: True
        define n where "n = min (512 - unat ofs mod 512) (length buf)"
        obtain s2 where s2: "release_blk (put_blk s1 bh (put_bytes (bdata s1 bh) (unat ofs mod 512) (take n buf))) bh = Some s2"
            "fext si s ino s2 ino1" "wrote s ino (unat ofs) (take n buf) s2 ino1" "mapped s2 ino1 (unat ofs) (unat ofs + n)" "refs_same s s2"
          using write_turn [OF lay less.prems(1-3) g(2) [unfolded e] lt n_def] by blast
        have n: "0 < n" "n \<le> length buf" using False by (auto simp: n_def)
        have uo: "unat (ofs + of_nat n) = unat ofs + n" using less.prems(4) n(2) by (simp add: unat_word_ariths unat_of_nat)
        have step: "write_data_loop si s ino buf ofs tot = write_data_loop si s2 ino1 (drop n buf) (ofs + of_nat n) (tot + n)"
          using False g(1) e s2(1) by (subst write_data_loop.simps) (simp add: Let_def n_def)
        have "inode_ok si s2 ino1" "blks_ok s2" "bheld s2 = {}" using s2 less.prems(3) by (auto simp: fext_def refs_same_def)
        moreover have "length (drop n buf) < length buf" using n by simp
        ultimately consider (more) w s' ino' where
            "write_data_loop si s2 ino1 (drop n buf) (ofs + of_nat n) (tot + n) = Some (tot + n + w, ofs + of_nat n + of_nat w, s', ino')"
            "wr_result si s2 ino1 (drop n buf) (ofs + of_nat n) w s' ino'"
          | (halt) "write_data_loop si s2 ino1 (drop n buf) (ofs + of_nat n) (tot + n) = None" "\<exists>n. \<not> answers s2 n"
          using n less.prems(4) less.hyps [of "drop n buf" s2 ino1 "ofs + of_nat n" "tot + n"] uo by force
        then show ?thesis
        proof cases
          case a: more
          note x = a(2) [unfolded wr_result_def uo]
          have "mapped s' ino' (unat ofs) (unat ofs + n)" using mapped_fext [OF s2(4) _] x n less.prems(4) by auto
          then have "mapped s' ino' (unat ofs) (unat ofs + (n + w))" using x by (auto simp: mapped_def)
          moreover have "wrote s ino (unat ofs) (take (n + w) buf) s' ino'"
            using wrote_append [OF s2(3), of "take w (drop n buf)" s' ino'] x n by (simp add: take_add)
          ultimately have "wr_result si s ino buf ofs (n + w) s' ino'"
            using x s2(2,5) n fext_trans [OF s2(2)] refs_same_trans [OF s2(5)] by (auto simp: wr_result_def refs_same_def)
          then show ?thesis using step a(1) by (auto simp: algebra_simps intro!: exI [of _ "n + w"])
        next
          case halt
          then show ?thesis using step s2(5) by (auto simp: refs_same_def)
        qed
      qed
    next
      case stop
      then show ?thesis using False by (subst (1 2) write_data_loop.simps) simp
    qed
  qed
qed

lemma tab_put_extends:
  assumes lay: "lay si" and ok: "inode_ok si s ino" "blks_ok s" and i: "i_inum ino' = i_inum ino" "length (i_addrs ino') = 14"
  shows "extends si s ino (tab_put ino' s) ino"
proof -
  note e = length_enc_inode [OF i(2)] and o = inum_to_ofs_le [of "i_inum ino"]
  have bd: "b \<noteq> itab ino \<Longrightarrow> bdata (tab_put ino' s) b = bdata s b" for b by (simp add: tab_put_def i)
  have L: "length (bdata s b) = 512" for b using ok(2) by (simp add: blks_ok_def)
  have ok': "blks_ok (tab_put ino' s)" using L e o by (simp add: blks_ok_def tab_put_def i)
  have sd: "slot s ino t \<noteq> itab ino" if "t < 270" "slot s ino t \<noteq> 0" for t
    using inode_ok_slot [OF ok(1) that] itab_not_data [OF ok(1) lay] by metis
  have sl: "slot (tab_put ino' s) ino t = slot s ino t" if t: "t < 270" for t
  proof (cases "t < 14")
    case False
    have k: "12 + (t - 14) div 128 < 14" using t by (simp add: less_mult_imp_div_less)
    then have "slot s ino (12 + (t - 14) div 128) = i_addrs ino ! (12 + (t - 14) div 128)" by (simp add: slot_def)
    then have "i_addrs ino ! (12 + (t - 14) div 128) \<noteq> 0 \<Longrightarrow> i_addrs ino ! (12 + (t - 14) div 128) \<noteq> itab ino"
      using sd [of "12 + (t - 14) div 128"] k by simp
    then show ?thesis using bd by (auto simp: slot_def Let_def)
  qed (simp add: slot_def)
  have du: "dused si (tab_put ino' s) n = dused si s n" if "n < ndata si" for n
    using bmblk_is_bmap [OF lay that] itab_not_data [OF ok(1) lay] by (metis bd dused_def)
  have fb: "fbyte (tab_put ino' s) ino p = fbyte s ino p" if "p < unat SFS_MAX_FILE_SIZE" for p
    using that fslot_lt [of p] sd [of "fslot (p div 512)"] by (auto simp: fbyte_def Let_def sl bd)
  have io: "inode_ok si (tab_put ino' s) ino" using ok(1) unfolding inode_ok_def by (simp add: sl) (metis du)
  have "bdata (tab_put ino' s) (itab ino) ! j = bdata s (itab ino) ! j"
    if "j < 512" "j < inum_to_ofs (i_inum ino) \<or> inum_to_ofs (i_inum ino) + 64 \<le> j" for j
    using that e o L by (auto simp: tab_put_def i nth_put_bytes)
  then have "others_kept si s ino (tab_put ino' s)" using bd du by (simp add: others_kept_def)
  then show ?thesis using ok' io fb sl by (simp add: extends_def fext_def)
qed

text \<open>Only the block numbers of an inode matter for its blocks.\<close>

lemma inode_cong:
  assumes "i_addrs ino' = i_addrs ino"
  shows "slot s ino' = slot s ino" "fbyte s ino' = fbyte s ino" "mapped s ino' = mapped s ino"
    "i_inum ino' = i_inum ino \<Longrightarrow> inode_ok si s ino' = inode_ok si s ino"
proof -
  show sl: "slot s ino' = slot s ino" using assms by (auto simp: slot_def fun_eq_iff)
  then show "fbyte s ino' = fbyte s ino" "mapped s ino' = mapped s ino" by (auto simp: fbyte_def fun_eq_iff mapped_def)
  show "i_inum ino' = i_inum ino \<Longrightarrow> inode_ok si s ino' = inode_ok si s ino" using assms sl by (simp add: inode_ok_def)
qed

text \<open>Storing the inode after the write: it succeeds, or fails for want of memory and leaves the blocks alone.\<close>

lemma write_inode_any:
  assumes "lay si" "inode_ok si s ino" "blks_ok s" "bheld s = {}"
  shows "\<exists>err s' ino'. sfs_write_inode s (fs_set_inode_dirty (ino\<lparr>i_size := z\<rparr>) True) = Some (err, s', ino') \<and> extends si s ino s' ino \<and> refs_same s s'
    \<and> i_addrs ino' = i_addrs ino \<and> i_inum ino' = i_inum ino \<and> i_size ino' = z"
proof -
  let ?i = "fs_set_inode_dirty (ino\<lparr>i_size := z\<rparr>) True"
  have i: "i_inum ino \<noteq> 0" "length (i_addrs ino) = 14" "i_addrs ?i = i_addrs ino" using assms(2) by (auto simp: inode_ok_def fs_set_inode_dirty_def)
  have "itab ?i \<notin> bheld s" using assms(4) by simp
  then show ?thesis
  proof (cases rule: get_blk_cases)
    case (no as)
    then have "sfs_write_inode s ?i = Some (ERR_NOMEM, s\<lparr>answers := as\<rparr>, ?i)" using i by (simp add: sfs_write_inode_def Let_def)
    moreover have "extends si s ino (s\<lparr>answers := as\<rparr>) ino" by (rule extends_same) (use assms in auto)
    ultimately show ?thesis using no(3) i by (auto simp: refs_same_def)
  next
    case (yes as)
    have "sfs_write_inode s ?i = Some (ERR_OK, (tab_put ?i s)\<lparr>answers := as\<rparr>, fs_set_inode_dirty ?i False)"
      using yes(1) i assms(4) by (simp add: sfs_write_inode_def Let_def release_blk_eq put_blk_def tab_put_def)
    moreover have "extends si s ino ((tab_put ?i s)\<lparr>answers := as\<rparr>) ino"
      by (rule gdb_extends [OF assms(2,3) refl tab_put_extends [OF assms(1-3), of ?i]]) (use i in auto)
    moreover have "refs_same s ((tab_put ?i s)\<lparr>answers := as\<rparr>)" using yes(2) by (auto simp: refs_same_def tab_put_def)
    ultimately show ?thesis using i by auto
  qed
qed

lemma write_data_ok:
  assumes lay: "lay si" and ok: "inode_ok si s ino" "blks_ok s" "bheld s = {}" and len: "unat ofs + length buf \<le> 137216"
  shows "(\<exists>w s' ino'. write_data si s ino buf ofs = Some (w, s', ino') \<and> w \<le> length buf
      \<and> wrote s ino (unat ofs) (take w buf) s' ino' \<and> mapped s' ino' (unat ofs) (unat ofs + w)
      \<and> i_size ino' = (if buf = [] then i_size ino else max (i_size ino) (ofs + of_nat w)) \<and> i_inum ino' = i_inum ino
      \<and> inode_ok si s' ino' \<and> blks_ok s' \<and> others_kept si s ino s' \<and> refs_same s s'
      \<and> (w < length buf \<longrightarrow> (\<exists>n. \<not> answers s n) \<or> no_space si s'))
    \<or> (write_data si s ino buf ofs = None \<and> (\<exists>n. \<not> answers s n))"
proof -
  consider (ret) w s1 ino1 where "write_data_loop si s ino buf ofs 0 = Some (w, ofs + of_nat w, s1, ino1)" "wr_result si s ino buf ofs w s1 ino1"
    | (stop) "write_data_loop si s ino buf ofs 0 = None" "\<exists>n. \<not> answers s n"
    using file_write_loop_ok [OF lay ok len, of 0] by auto
  then show ?thesis
  proof cases
    case stop
    then show ?thesis by (simp add: write_data_def)
  next
    case ret
    note r = ret(2) [unfolded wr_result_def]
    have f: "same_meta ino ino1" "inode_ok si s1 ino1" "blks_ok s1" "others_kept si s ino s1" "fext si s ino s1 ino1" using r by (auto simp: fext_def)
    have h: "bheld s1 = {}" using r ok(3) by (simp add: refs_same_def)
    note m = same_meta_D [OF f(1)]
    show ?thesis
    proof (cases "buf \<noteq> [] \<and> ofs + of_nat w > i_size ino")
      case False
      then have "write_data si s ino buf ofs = Some (w, s1, ino1)" using ret(1) m by (auto simp: write_data_def)
      then show ?thesis using r f m False by (auto simp: max_def)
    next
      case True
      obtain err s2 ino2 where w: "sfs_write_inode s1 (fs_set_inode_dirty (ino1\<lparr>i_size := ofs + of_nat w\<rparr>) True) = Some (err, s2, ino2)"
          "extends si s1 ino1 s2 ino1" "refs_same s1 s2" "i_addrs ino2 = i_addrs ino1" "i_inum ino2 = i_inum ino1" "i_size ino2 = ofs + of_nat w"
        using write_inode_any [OF lay f(2,3) h] by blast
      have "write_data si s ino buf ofs = Some (w, s2, ino2)" using ret(1) w(1) True m by (simp add: write_data_def)
      moreover note c = inode_cong [OF w(4)]
      moreover have fe: "fext si s1 ino1 s2 ino1" using w(2) by (simp add: extends_def)
      have "mapped s2 ino2 (unat ofs) (unat ofs + w)" using mapped_fext [OF _ fe] r len c(3) [of s2] by auto
      moreover have "wrote s ino (unat ofs) (take w buf) s2 ino2" using r w(2) c(2) [of s2] by (simp add: wrote_def extends_def)
      moreover have "others_kept si s ino s2" "inode_ok si s2 ino2" "blks_ok s2" "refs_same s s2"
        using fext_trans [OF f(5) fe] fe c(4) [OF w(5)] refs_same_trans [OF _ w(3)] r by (auto simp: fext_def)
      moreover have "no_space si s1 \<Longrightarrow> no_space si s2" using fe by (simp add: no_space_def fext_def others_kept_def)
      ultimately show ?thesis using r True m w by (auto simp: max_def)
    qed
  qed
qed

text \<open>Reading gives the bytes of the file up to its end, or up to the first block that was never written.\<close>

definition rd_result :: "blocks \<Rightarrow> inode \<Rightarrow> nat \<Rightarrow> nat \<Rightarrow> nat \<Rightarrow> bool" where
  "rd_result s ino cnt pos r \<longleftrightarrow> r \<le> min cnt (unat (i_size ino) - pos)
     \<and> (r < min cnt (unat (i_size ino) - pos) \<longrightarrow> slot s ino (fslot ((pos + r) div 512)) = 0)"

lemma read_turn:
  fixes ofs :: u64
  assumes ok: "blks_ok s" and b: "bh = slot s ino (fslot (unat ofs div 512))" "bh \<noteq> 0" and n: "n \<le> 512 - unat ofs mod 512"
  shows "take n (drop (unat ofs mod 512) (bdata s bh)) = map (fbyte s ino) [unat ofs..<unat ofs + n]"
proof (rule nth_equalityI)
  have L: "length (bdata s bh) = 512" using ok by (simp add: blks_ok_def)
  then show "length (take n (drop (unat ofs mod 512) (bdata s bh))) = length (map (fbyte s ino) [unat ofs..<unat ofs + n])"
    using n by (simp add: min_def)
  fix i assume "i < length (take n (drop (unat ofs mod 512) (bdata s bh)))"
  then have i: "i < n" by simp
  have m: "unat ofs mod 512 + i < 512" using i n by (metis add.commute less_diff_conv less_le_trans)
  have d: "(unat ofs + i) div 512 = unat ofs div 512" using m mult_div_mod_eq [of 512 "unat ofs"] by (intro div_nat_eqI) (simp, unfold mult_Suc_right, linarith)
  have "(unat ofs + i) mod 512 = unat ofs + i - unat ofs div 512 * 512" by (simp add: modulo_nat_def d)
  also have "\<dots> = unat ofs mod 512 + i" by (simp add: modulo_nat_def)
  finally have "(unat ofs + i) mod 512 = unat ofs mod 512 + i" .
  with d show "take n (drop (unat ofs mod 512) (bdata s bh)) ! i = map (fbyte s ino) [unat ofs..<unat ofs + n] ! i"
    using i b L m by (simp add: fbyte_def Let_def)
qed

lemma file_read_loop_ok:
  assumes lay: "lay si" and sz: "i_size ino \<le> SFS_MAX_FILE_SIZE"
  shows "inode_ok si s ino \<Longrightarrow> blks_ok s \<Longrightarrow> bheld s = {} \<Longrightarrow> (\<forall>n. answers s n) \<Longrightarrow>
   \<exists>r s'. read_data_loop si s ino cnt ofs acc = Some (acc @ map (fbyte s ino) [unat ofs..<unat ofs + r], s', ino)
     \<and> rd_result s ino (cnt - length acc) (unat ofs) r \<and> bdata s' = bdata s \<and> refs_same s s'"
proof (induction "cnt - length acc" arbitrary: acc s ofs rule: less_induct)
  case less
  show ?case
  proof (cases "length acc < cnt \<and> ofs < i_size ino")
    case False
    then have "read_data_loop si s ino cnt ofs acc = Some (acc, s, ino)" by (subst read_data_loop.simps) auto
    moreover have "rd_result s ino (cnt - length acc) (unat ofs) 0" using False by (auto simp: rd_result_def word_less_nat_alt not_less)
    ultimately show ?thesis by (intro exI [of _ 0]) simp
  next
    case True
    then have lt: "ofs < SFS_MAX_FILE_SIZE" using sz by (meson less_le_trans)
    let ?f = "unat (ofs div 512)"
    have fd: "?f = unat ofs div 512" by (simp add: unat_div)
    obtain err bh s1 ino1 where g: "get_data_block si s ino ofs False = Some (err, bh, s1, ino1)" "gdb_result si s ino ?f False err bh s1 ino1"
      using get_data_block_ok [OF lay less.prems(1-3) lt, of False] less.prems(4) by blast
    note r = g(2) [unfolded gdb_result_def]
    have e: "bdata s1 = bdata s" "ino1 = ino" using r by auto
    let ?m = "min (cnt - length acc) (unat (i_size ino) - unat ofs)"
    have m: "0 < ?m" using True by (auto simp: word_less_nat_alt)
    show ?thesis
    proof (cases "err = ERR_OK")
      case False
      then have "read_data_loop si s ino cnt ofs acc = Some (acc, s1, ino)" using True g(1) e by (subst read_data_loop.simps) simp
      moreover have "slot s ino (fslot (unat ofs div 512)) = 0" using r False less.prems(4) fd by (auto simp: map_errs_def)
      ultimately show ?thesis using e r False by (intro exI [of _ 0]) (simp add: rd_result_def)
    next
      case ok: True
      define n where "n = min (min (512 - unat ofs mod 512) (cnt - length acc)) (unat (i_size ino - ofs))"
      have su: "unat (i_size ino - ofs) = unat (i_size ino) - unat ofs" by (rule unat_sub) (use True in auto)
      have n: "0 < n" "n \<le> ?m" "n \<le> 512 - unat ofs mod 512" using m by (auto simp: n_def su)
      have b: "bh = slot s ino (fslot (unat ofs div 512))" "bh \<noteq> 0" using r ok fd slot_cong(1) [OF e(1)] e(2) by auto
      have h: "bheld s1 = {bh}" "bref s1 = (bref s)(bh := bref s bh + 1)" "\<forall>n. answers s1 n" using r ok less.prems(4) by (auto simp: refs_same_def)
      let ?s2 = "s1\<lparr>bref := bref s, bheld := {}\<rparr>"
      have rel: "release_blk s1 bh = Some ?s2" using h by (simp add: release_blk_eq)
      let ?bs = "map (fbyte s ino) [unat ofs..<unat ofs + n]"
      have "read_data_loop si s ino cnt ofs acc = read_data_loop si ?s2 ino cnt (ofs + of_nat n) (acc @ ?bs)"
        using True g(1) ok e rel read_turn [OF less.prems(2) b n(3)]
        by (subst read_data_loop.simps) (simp add: Let_def n_def [symmetric])
      moreover have uo: "unat (ofs + of_nat n) = unat ofs + n"
      proof -
        have "n \<le> unat (i_size ino) - unat ofs" "unat ofs < unat (i_size ino)" using n(2) True by (auto simp: word_less_nat_alt)
        then have "unat ofs + n \<le> unat (i_size ino)" by linarith
        also have "\<dots> \<le> 137216" using sz by (simp add: word_le_nat_alt)
        finally show ?thesis by (simp add: unat_word_ariths unat_of_nat)
      qed
      moreover have d: "cnt - length (acc @ ?bs) < cnt - length acc" using n(1) True by (simp, linarith)
      have o2: "inode_ok si ?s2 ino" "blks_ok ?s2" "bheld ?s2 = {}" "\<forall>n. answers ?s2 n" using h(3) less.prems(1,2) inode_ok_cong [of ?s2 s] e(1) by (auto simp: blks_ok_def)
      obtain r' s' where x: "read_data_loop si ?s2 ino cnt (ofs + of_nat n) (acc @ ?bs) =
            Some ((acc @ ?bs) @ map (fbyte ?s2 ino) [unat ofs + n..<unat ofs + n + r'], s', ino)"
          "rd_result ?s2 ino (cnt - length (acc @ ?bs)) (unat ofs + n) r'" "bdata s' = bdata ?s2" "refs_same ?s2 s'"
        using less.hyps [OF d o2, of "ofs + of_nat n"] unfolding uo by blast
      have sl: "slot ?s2 ino = slot s ino" by (rule slot_cong) (use e in simp)
      have "fbyte ?s2 ino = fbyte s ino" using sl e(1) by (auto simp: fbyte_def fun_eq_iff Let_def)
      moreover have "rd_result s ino (cnt - length acc) (unat ofs) (n + r')" using x(2) n(2) m unfolding rd_result_def sl by (auto simp: add.assoc)
      moreover have "refs_same s s'" using x(4) less.prems(3,4) by (auto simp: refs_same_def h(3))
      moreover have "[unat ofs..<unat ofs + n] @ [unat ofs + n..<unat ofs + n + r'] = [unat ofs..<unat ofs + (n + r')]"
        by (metis add.assoc le_add1 upt_add_eq_append)
      ultimately show ?thesis using x(1,3) e(1) by (intro exI [of _ "n + r'"] exI [of _ s']) (simp flip: map_append)
    qed
  qed
qed

section \<open>Properties\<close>

text \<open>A small file system: one bitmap block, data from block 10 on, and an empty file with inode number 1.\<close>

definition demo_si :: sfs_sb_info where
  "demo_si = \<lparr>s_size = 4096, s_num_inodes = 8, s_data_bmap_start = 5, s_journal_start = 6, s_data_start = 10\<rparr>"

definition demo_blocks :: "(blk_t \<Rightarrow> u8 list) \<Rightarrow> blocks" where
  "demo_blocks d = \<lparr>bdata = d, bref = (\<lambda>_. 0), bheld = {}, answers = (\<lambda>_. True)\<rparr>"

definition demo_ino :: "blk_t list \<Rightarrow> inode" where
  "demo_ino A = \<lparr>i_inum = 1, i_ref = 1, i_nlink = 1, i_ftype = 2, i_mode = 6, i_size = 0, i_state = 1, i_locked = True, i_addrs = A\<rparr>"

abbreviation (input) zero_blocks :: blocks where "zero_blocks \<equiv> demo_blocks (\<lambda>_. replicate 512 0)"
abbreviation (input) empty_file :: inode where "empty_file \<equiv> demo_ino (replicate 14 0)"

lemma demo_ok: "lay demo_si" "inode_ok demo_si zero_blocks empty_file" "blks_ok zero_blocks" "bheld zero_blocks = {}" "answers zero_blocks = (\<lambda>_. True)"
proof -
  have "slot zero_blocks empty_file t = 0" if "t < 270" for t
  proof -
    have "12 + (t - 14) div 128 < 14" using that by (simp add: less_mult_imp_div_less)
    then show ?thesis by (simp add: slot_def demo_ino_def Let_def)
  qed
  then show "inode_ok demo_si zero_blocks empty_file" by (simp add: inode_ok_def demo_ino_def demo_si_def inum_to_blk_def)
qed (simp_all add: lay_def demo_si_def blks_ok_def demo_blocks_def)

text \<open>C15. Writing to a file below the size limit returns when the block cache has memory; the bytes of the range become those of the buffer, all other
  bytes of the file stay, no used block of another file, no other inode of the table and no block outside the data area changes, the size grows to the end
  of the range, no block stays pinned or locked, and fewer bytes are written only when the bitmap has no free block.\<close>

theorem sfs_write_correct:
  assumes "lay si" "inode_ok si s ino" "blks_ok s" "bheld s = {}" "unat ofs + length buf \<le> 137216" "\<forall>n. answers s n"
  shows "\<exists>w s' ino'. sfs_write si s ino buf ofs = Some (w, ofs + of_nat w, s', ino') \<and> w \<le> length buf \<and> (w < length buf \<longrightarrow> no_space si s')
    \<and> wrote s ino (unat ofs) (take w buf) s' ino' \<and> i_size ino' = (if buf = [] then i_size ino else max (i_size ino) (ofs + of_nat w))
    \<and> inode_ok si s' ino' \<and> others_kept si s ino s' \<and> bref s' = bref s \<and> bheld s' = {}"
proof -
  obtain w s' ino' where "write_data si s ino buf ofs = Some (w, s', ino')" "w \<le> length buf" "wrote s ino (unat ofs) (take w buf) s' ino'"
      "i_size ino' = (if buf = [] then i_size ino else max (i_size ino) (ofs + of_nat w))"
      "inode_ok si s' ino'" "others_kept si s ino s'" "refs_same s s'" "w < length buf \<longrightarrow> no_space si s'"
    using write_data_ok [OF assms(1-5)] assms(6) by blast
  then show ?thesis using assms(4) by (simp add: sfs_write_def refs_same_def)
qed

theorem sfs_write_correct_witness:
  "\<exists>w s' ino'. sfs_write demo_si zero_blocks empty_file [1, 2, 3] 510 = Some (w, 510 + of_nat w, s', ino') \<and> w \<le> length [1, 2, 3 :: u8]
    \<and> (w < length [1, 2, 3 :: u8] \<longrightarrow> no_space demo_si s')
    \<and> wrote zero_blocks empty_file (unat (510 :: u64)) (take w [1, 2, 3]) s' ino'
    \<and> i_size ino' = (if [1, 2, 3 :: u8] = [] then i_size empty_file else max (i_size empty_file) (510 + of_nat w))
    \<and> inode_ok demo_si s' ino' \<and> others_kept demo_si zero_blocks empty_file s' \<and> bref s' = bref zero_blocks \<and> bheld s' = {}"
  by (rule sfs_write_correct [OF demo_ok(1-4)]) (simp_all add: demo_ok(5))

text \<open>C16. What was written is read back: reading the range of a complete write gives the bytes of the buffer.\<close>

theorem sfs_read_write_roundtrip:
  assumes "lay si" "inode_ok si s ino" "blks_ok s" "bheld s = {}" "unat ofs + length buf \<le> 137216" "\<forall>n. answers s n" "i_size ino \<le> SFS_MAX_FILE_SIZE"
    and w: "sfs_write si s ino buf ofs = Some (length buf, pos, s1, ino1)"
  shows "\<exists>s2. sfs_read si s1 ino1 (length buf) ofs = Some (buf, ofs + of_nat (length buf), s2, ino1) \<and> bdata s2 = bdata s1 \<and> bref s2 = bref s"
proof -
  have wd: "write_data si s ino buf ofs = Some (length buf, s1, ino1)" using w by (auto simp: sfs_write_def bind_Some_conv)
  then have r: "wrote s ino (unat ofs) buf s1 ino1" "mapped s1 ino1 (unat ofs) (unat ofs + length buf)" "inode_ok si s1 ino1" "blks_ok s1"
      "refs_same s s1" "i_size ino1 = (if buf = [] then i_size ino else max (i_size ino) (ofs + of_nat (length buf)))"
    using write_data_ok [OF assms(1-5)] assms(6) by auto
  have uo: "unat (ofs + of_nat (length buf)) = unat ofs + length buf" using assms(5) by (simp add: unat_word_ariths unat_of_nat)
  have sz: "i_size ino1 \<le> SFS_MAX_FILE_SIZE" using assms(5,7) r(6) uo by (auto simp: word_le_nat_alt max_def)
  have an: "\<forall>n. answers s1 n" "bheld s1 = {}" "bref s1 = bref s" using r(5) assms(4,6) by (auto simp: refs_same_def)
  obtain k s2 where k: "read_data_loop si s1 ino1 (length buf) ofs [] = Some (map (fbyte s1 ino1) [unat ofs..<unat ofs + k], s2, ino1)"
      "rd_result s1 ino1 (length buf) (unat ofs) k" "bdata s2 = bdata s1" "refs_same s1 s2"
    using file_read_loop_ok [OF assms(1) sz r(3,4) an(2,1), of "length buf" ofs "[]"] by auto
  have "length buf \<le> unat (i_size ino1) - unat ofs"
    using r(6) uo by (cases "buf = []") (auto simp: max_def word_le_nat_alt)
  then have "k = length buf" using k(2) r(2) unfolding rd_result_def mapped_def
    by (metis le_add1 le_neq_implies_less min.absorb1 nat_add_left_cancel_less)
  moreover have "map (fbyte s1 ino1) [unat ofs..<unat ofs + length buf] = buf"
    using r(1) assms(5) by (intro nth_equalityI) (auto simp: wrote_def)
  ultimately show ?thesis using k an by (auto simp: sfs_read_def read_data_def refs_same_def)
qed

lemma demo_write: "map_option fst (sfs_write demo_si zero_blocks empty_file [7] 0) = Some 1"
  by code_simp

theorem sfs_read_write_roundtrip_witness:
  "\<exists>pos s1 ino1 s2. sfs_write demo_si zero_blocks empty_file [7] 0 = Some (1, pos, s1, ino1)
    \<and> sfs_read demo_si s1 ino1 1 0 = Some ([7], 1, s2, ino1) \<and> bdata s2 = bdata s1 \<and> bref s2 = bref zero_blocks"
proof -
  obtain pos s1 ino1 where w: "sfs_write demo_si zero_blocks empty_file [7] 0 = Some (length [7 :: u8], pos, s1, ino1)"
    using demo_write by auto
  then show ?thesis using sfs_read_write_roundtrip [OF demo_ok(1-4), of 0 "[7]" pos s1 ino1] by (auto simp: demo_ok(5) demo_ino_def)
qed

text \<open>When the buffer cache has no memory for a data block behind an indirect block, the code releases the indirect block a second
  time and the kernel stops; the error \<open>ERR_NOMEM\<close> is never returned.\<close>

theorem get_data_block_double_release:
  assumes "lay si" "inode_ok si s ino" "bheld s = {}" "12 \<le> unat ofs div 512" "ofs < SFS_MAX_FILE_SIZE"
    and "bref s = (\<lambda>_. 0)" "answers s = (\<lambda>n. n < 2)" and "mapped s ino (unat ofs) (unat ofs + 1)"
  shows "get_data_block si s ino ofs alloc = None"
proof -
  let ?f = "unat (ofs div 512)" and ?k = "12 + (unat (ofs div 512) - 12) div 128"
  have f: "?f = unat ofs div 512" "12 \<le> ?f" "?f < 268" using assms(4,5) by (auto simp: unat_div word_less_nat_alt)
  then have k: "?k < 14" "(?f - 12) div 128 < 2" by (auto simp: less_mult_imp_div_less)
  define ib where "ib = i_addrs ino ! ?k"
  have fs: "fslot ?f = ?f + 2" using f by (simp add: fslot_def)
  have nz: "slot s ino (?f + 2) \<noteq> 0" using assms(8) f(1) fs by (auto simp: mapped_def)
  then have ib: "ib \<noteq> 0" "slot s ino (?f + 2) = of_nat (rd (bdata s ib) (4 * ((?f - 12) mod 128)) 4)"
    using f by (auto simp: slot_def Let_def ib_def split: if_splits)
  have it: "ib \<noteq> itab ino" using inode_ok_slot [OF assms(2), of ?k] itab_not_data [OF assms(2,1)] k ib(1) by (auto simp: slot_def ib_def)
  obtain m where m: "m < ndata si" "slot s ino (?f + 2) = dblk si m" using inode_ok_slot [OF assms(2) _ nz] f by auto
  have bi: "slot s ino (?f + 2) \<noteq> ib" using inode_ok_inj [OF assms(2) nz, of ?k] k f by (auto simp: slot_def ib_def)
  have bt: "slot s ino (?f + 2) \<noteq> itab ino" using itab_not_data [OF assms(2,1), of m] m by auto
  let ?s0 = "s\<lparr>bref := (bref s)(itab ino := 1), answers := (\<lambda>n. n < 1)\<rparr>"
  let ?s1 = "s\<lparr>answers := (\<lambda>n. False), bref := (\<lambda>_. 0)(itab ino := Suc 0, ib := 0), bheld := {}\<rparr>"
  have p: "pin_blk s (itab ino) = (True, ?s0)" using assms(6,7) by (simp add: pin_blk_def)
  have "indirect_blk si ?s0 ino ?f alloc = Some (ERR_OK, slot s ino (?f + 2), Some ib, ?s1, ino)"
    using k nz ib it assms(3,6) unfolding indirect_blk_def direct_blk_def
    by (simp add: Let_def word_gt_0 get_blk_def pin_blk_def release_blk_eq ib_def [symmetric])
  then have mb: "map_blk si ?s0 ino ?f alloc = Some (ERR_OK, slot s ino (?f + 2), Some ib, ?s1, ino)" using f by (simp add: map_blk_def)
  have "get_blk ?s1 (slot s ino (?f + 2)) = Some (False, ?s1)" using assms(6) bi bt by (simp add: get_blk_def pin_blk_def)
  then show ?thesis using get_data_block_eq [OF assms(5) p mb] nz assms(3) by (simp add: word_gt_0 release_blk_def)
qed

text \<open>A file whose only block is the first one behind its indirect block.\<close>

definition far_data :: "blk_t \<Rightarrow> u8 list" where
  "far_data b = (if b = 5 then 3 # replicate 511 0 else if b = 10 then le_bytes 4 11 @ replicate 508 0 else replicate 512 0)"

abbreviation (input) far_ino :: inode where "far_ino \<equiv> demo_ino ((replicate 14 0)[12 := 10])"
abbreviation (input) far_blocks :: "(nat \<Rightarrow> bool) \<Rightarrow> blocks" where "far_blocks as \<equiv> demo_blocks far_data\<lparr>answers := as\<rparr>"

lemma far_slot:
  assumes "t < 270"
  shows "slot (far_blocks as) far_ino t = (if t = 12 then 10 else if t = 14 then 11 else 0)"
proof -
  consider "t < 14" | "t = 14" | "14 < t" "t < 142" | "142 \<le> t" "t < 270" using assms by linarith
  then show ?thesis
  proof cases
    case 1
    then show ?thesis by (simp add: slot_def demo_ino_def nth_list_update)
  next
    case 2
    have "rd (le_bytes 4 11 @ replicate 508 0) 0 4 = 11" using le_nat_le_bytes [of 4 11] by (simp add: rd_def)
    then show ?thesis using 2 by (simp add: slot_def Let_def demo_ino_def demo_blocks_def far_data_def)
  next
    case 3
    then have "(t - 14) div 128 = 0" "(t - 14) mod 128 = t - 14" "4 \<le> 4 * (t - 14)" by auto
    moreover have "rd (le_bytes 4 11 @ replicate 508 0) ofs 4 = 0" if "4 \<le> ofs" for ofs using that rd_zeros [of 508 "ofs - 4" 4] by (simp add: rd_def)
    ultimately show ?thesis using 3 by (simp add: slot_def Let_def demo_ino_def demo_blocks_def far_data_def)
  next
    case 4
    then have "(t - 14) div 128 = 1" by (intro div_nat_eqI) auto
    then show ?thesis using 4 by (simp add: slot_def Let_def demo_ino_def)
  qed
qed

lemma far_ok: "inode_ok demo_si (far_blocks as) far_ino" "blks_ok (far_blocks as)" "bheld (far_blocks as) = {}" "bref (far_blocks as) = (\<lambda>_. 0)"
proof -
  have u: "dused demo_si (far_blocks as) n \<longleftrightarrow> n < 2" if "n < 2" for n
    using that by (auto simp: less_2_cases_iff dused_def elem_used_def bmblk_def demo_si_def demo_blocks_def far_data_def bit_simps)
  have "10 = dblk demo_si 0" "11 = dblk demo_si 1" "0 < ndata demo_si" "1 < ndata demo_si" by (simp_all add: dblk_def demo_si_def ndata_def)
  moreover have "dused demo_si (far_blocks as) 0" "dused demo_si (far_blocks as) 1" using u [of 0] u [of 1] by simp_all
  ultimately have e: "\<exists>n<ndata demo_si. 10 = dblk demo_si n \<and> dused demo_si (far_blocks as) n" "\<exists>n<ndata demo_si. 11 = dblk demo_si n \<and> dused demo_si (far_blocks as) n"
    by blast+
  have "itab far_ino < s_data_bmap_start demo_si" by (simp add: demo_ino_def inum_to_blk_def demo_si_def)
  moreover have "length (i_addrs far_ino) = 14" "i_inum far_ino \<noteq> 0" by (simp_all add: demo_ino_def)
  ultimately show "inode_ok demo_si (far_blocks as) far_ino"
    using e unfolding inode_ok_def by (auto simp: far_slot split: if_splits)
qed (simp_all add: blks_ok_def demo_blocks_def far_data_def)

theorem get_data_block_double_release_witness: "get_data_block demo_si (far_blocks (\<lambda>n. n < 2)) far_ino 6144 False = None"
  by (rule get_data_block_double_release [OF demo_ok(1) far_ok(1,3) _ _ far_ok(4)])
    (auto simp: mapped_def far_slot fslot_def)

end
