(* ===== verification/Sfsdir.thy ===== *)
theory Sfsdir
  imports Sfs
begin

text \<open>
  Directories of the simple file system, \<^verbatim>\<open>kernel/fs/sfs/sfs.c\<close>: a directory is a file of 32-byte entries, an inode number and a name of at
  most 28 bytes.  The functions search, allocate and free entries, create files and directories in a directory, and
  link files.  The lemmas describe them over the list of entries.  \<open>strncpy\<close> writes one byte more than its length for a
  shorter name, into the entry that follows; the model has that byte, and an entry at the end of a block is a
  write outside the block.
\<close>

abbreviation (input) SFS_DIRENT_NAMELEN :: nat where "SFS_DIRENT_NAMELEN \<equiv> 28"
abbreviation (input) sizeof_sfs_dirent :: nat where "sizeof_sfs_dirent \<equiv> 32"
abbreviation (input) FTYPE_DIR :: u32 where "FTYPE_DIR \<equiv> 1"
abbreviation (input) FTYPE_FILE :: u32 where "FTYPE_FILE \<equiv> 2"

section \<open>Entries\<close>

text \<open>A memory with the bytes of a block from address 0 on and a C string behind it.\<close>

abbreviation (input) name_at :: nat where "name_at \<equiv> 1024"

definition dmem :: "u8 list \<Rightarrow> u8 list \<Rightarrow> mem" where
  "dmem d name a = (if a < length d then d ! a else if name_at \<le> a \<and> a - name_at < length name then name ! (a - name_at) else 0)"

definition dirent_inum :: "u8 list \<Rightarrow> nat \<Rightarrow> u32" where
  "dirent_inum d ofs = of_nat (rd d ofs 4)"

definition dirent_match :: "u8 list \<Rightarrow> nat \<Rightarrow> u8 list \<Rightarrow> bool" where
  "dirent_match d ofs name \<longleftrightarrow> dirent_inum d ofs > 0 \<and> strncmp (dmem d name) (ofs + 4) name_at SFS_DIRENT_NAMELEN = 0"

text \<open>Filling an entry.  All bytes that \<open>strncpy\<close> writes must lie in the block.\<close>

definition fill_dirent :: "u8 list \<Rightarrow> nat \<Rightarrow> u8 list \<Rightarrow> u32 \<Rightarrow> u8 list exec" where
  "fill_dirent d ofs name inum = do {
     let d = put_bytes d ofs (le_bytes 4 (unat inum));
     kassert (ofs + 4 + SFS_DIRENT_NAMELEN + (if length name < SFS_DIRENT_NAMELEN then 1 else 0) \<le> length d);
     let m = strncpy (dmem d name) (ofs + 4) name_at SFS_DIRENT_NAMELEN;
     Some (map (m(ofs + 4 + (SFS_DIRENT_NAMELEN - 1) := 0)) [0..<length d]) }"

section \<open>Searching, allocating and freeing entries\<close>

text \<open>At the start of a block the loops release the block before and get the next one.\<close>

definition dir_block ::
  "sfs_sb_info \<Rightarrow> blocks \<Rightarrow> inode \<Rightarrow> u64 \<Rightarrow> blk_t option \<Rightarrow> bool \<Rightarrow> (err_t \<times> blk_t option \<times> blocks \<times> inode) exec" where
  "dir_block si s dir ofs bh alloc =
     (if unat ofs mod BDEV_BLK_SIZE = 0 then do {
        s \<leftarrow> (case bh of None \<Rightarrow> Some s | Some b \<Rightarrow> release_blk s b);
        (err, b, s, dir) \<leftarrow> get_data_block si s dir ofs alloc;
        Some (err, Some b, s, dir) }
      else Some (ERR_OK, bh, s, dir))"

definition release_last :: "blocks \<Rightarrow> blk_t option \<Rightarrow> blocks exec" where
  "release_last s bh = (case bh of None \<Rightarrow> Some s | Some b \<Rightarrow> release_blk s b)"

partial_function (option) alloc_dirent_loop ::
  "sfs_sb_info \<Rightarrow> blocks \<Rightarrow> inode \<Rightarrow> u8 list \<Rightarrow> u32 \<Rightarrow> u64 \<Rightarrow> blk_t option \<Rightarrow> (err_t \<times> blocks \<times> inode) exec" where
  "alloc_dirent_loop si s dir name inum ofs bh =
     (if ofs < SFS_MAX_FILE_SIZE then do {
        (err, bh, s, dir) \<leftarrow> dir_block si s dir ofs bh True;
        if err \<noteq> ERR_OK then do { s \<leftarrow> unpin_blk s (inum_to_blk (i_inum dir)); Some (err, s, dir) }
        else do {
          b \<leftarrow> bh;
          let o' = unat ofs mod BDEV_BLK_SIZE;
          if ofs \<ge> i_size dir \<or> dirent_inum (bdata s b) o' = 0 then do {
            (s, dir) \<leftarrow>
              (if ofs \<ge> i_size dir then do {
                 (_, s, dir) \<leftarrow> sfs_write_inode s (fs_set_inode_dirty (dir\<lparr>i_size := ofs + 32\<rparr>) True);
                 Some (s, dir) }
               else Some (s, dir));
            d \<leftarrow> fill_dirent (bdata s b) o' name inum;
            s \<leftarrow> release_blk (put_blk s b d) b;
            s \<leftarrow> unpin_blk s (inum_to_blk (i_inum dir));
            Some (ERR_OK, s, dir) }
          else alloc_dirent_loop si s dir name inum (ofs + 32) bh } }
      else do {
        s \<leftarrow> release_last s bh;
        s \<leftarrow> unpin_blk s (inum_to_blk (i_inum dir));
        Some (ERR_NORES, s, dir) })"

definition alloc_dirent :: "sfs_sb_info \<Rightarrow> blocks \<Rightarrow> inode \<Rightarrow> u8 list \<Rightarrow> u32 \<Rightarrow> (err_t \<times> blocks \<times> inode) exec" where
  "alloc_dirent si s dir name inum =
     (let (ok, s) = pin_blk s (inum_to_blk (i_inum dir)) in
      if \<not> ok then Some (ERR_NOMEM, s, dir) else alloc_dirent_loop si s dir name inum 0 None)"

partial_function (option) free_dirent_loop ::
  "sfs_sb_info \<Rightarrow> blocks \<Rightarrow> inode \<Rightarrow> u8 list \<Rightarrow> u64 \<Rightarrow> blk_t option \<Rightarrow> (err_t \<times> blocks \<times> inode) exec" where
  "free_dirent_loop si s dir name ofs bh =
     (if ofs < i_size dir then do {
        (err, bh, s, dir) \<leftarrow> dir_block si s dir ofs bh False;
        if err \<noteq> ERR_OK then Some (err, s, dir)
        else do {
          b \<leftarrow> bh;
          let o' = unat ofs mod BDEV_BLK_SIZE;
          if dirent_match (bdata s b) o' name then do {
            s \<leftarrow> release_blk (put_blk s b (put_bytes (bdata s b) o' (le_bytes 4 0))) b;
            Some (ERR_OK, s, dir) }
          else free_dirent_loop si s dir name (ofs + 32) bh } }
      else do { s \<leftarrow> release_last s bh; Some (ERR_NOTEXIST, s, dir) })"

definition free_dirent :: "sfs_sb_info \<Rightarrow> blocks \<Rightarrow> inode \<Rightarrow> u8 list \<Rightarrow> (err_t \<times> blocks \<times> inode) exec" where
  "free_dirent si s dir name = free_dirent_loop si s dir name 0 None"

partial_function (option) dir_empty_loop ::
  "sfs_sb_info \<Rightarrow> blocks \<Rightarrow> inode \<Rightarrow> u64 \<Rightarrow> blk_t option \<Rightarrow> (err_t \<times> bool \<times> blocks \<times> inode) exec" where
  "dir_empty_loop si s dir ofs bh =
     (if ofs < i_size dir then do {
        (err, bh, s, dir) \<leftarrow> dir_block si s dir ofs bh False;
        if err \<noteq> ERR_OK then Some (err, False, s, dir)
        else do {
          b \<leftarrow> bh;
          if dirent_inum (bdata s b) (unat ofs mod BDEV_BLK_SIZE) > 0 then do { s \<leftarrow> release_blk s b; Some (ERR_OK, False, s, dir) }
          else dir_empty_loop si s dir (ofs + 32) bh } }
      else do { s \<leftarrow> release_last s bh; Some (ERR_OK, True, s, dir) })"

definition is_dir_empty :: "sfs_sb_info \<Rightarrow> blocks \<Rightarrow> inode \<Rightarrow> (err_t \<times> bool \<times> blocks \<times> inode) exec" where
  "is_dir_empty si s dir = dir_empty_loop si s dir 0 None"

partial_function (option) search_loop ::
  "sfs_sb_info \<Rightarrow> blocks \<Rightarrow> inode \<Rightarrow> u8 list \<Rightarrow> u64 \<Rightarrow> blk_t option \<Rightarrow> (u32 \<times> blocks \<times> inode) exec" where
  "search_loop si s dir name ofs bh =
     (if ofs < i_size dir then do {
        (err, bh, s, dir) \<leftarrow> dir_block si s dir ofs bh False;
        if err \<noteq> ERR_OK then Some (0, s, dir)
        else do {
          b \<leftarrow> bh;
          let o' = unat ofs mod BDEV_BLK_SIZE;
          if dirent_match (bdata s b) o' name then do {
            let inum = dirent_inum (bdata s b) o';
            s \<leftarrow> release_blk s b;
            Some (inum, s, dir) }
          else search_loop si s dir name (ofs + 32) bh } }
      else do { s \<leftarrow> release_last s bh; Some (0, s, dir) })"

definition search_dir :: "sfs_sb_info \<Rightarrow> blocks \<Rightarrow> inode \<Rightarrow> u8 list \<Rightarrow> (u32 \<times> blocks \<times> inode) exec" where
  "search_dir si s dir name = search_loop si s dir name 0 None"

declare alloc_dirent_loop.simps [code] free_dirent_loop.simps [code] dir_empty_loop.simps [code] search_loop.simps [code]

section \<open>Creating and linking\<close>

definition create_inode_in_dir ::
  "sfs_sb_info \<Rightarrow> blocks \<Rightarrow> inode \<Rightarrow> u32 \<Rightarrow> u8 list \<Rightarrow> u32 \<Rightarrow> (err_t \<times> blocks \<times> inode) exec" where
  "create_inode_in_dir si s dir ftype name mode = do {
     (inum, s, dir) \<leftarrow> search_dir si s dir name;
     if inum \<noteq> 0 then Some (ERR_EXIST, s, dir)
     else do {
       let (ok, s) = pin_blk s SFS_INODE_BMAP_BLK;
       if \<not> ok then Some (ERR_NOMEM, s, dir)
       else do {
         (err, inum, s) \<leftarrow> alloc_disk_inode si s ftype mode;
         if err \<noteq> ERR_OK then do { s \<leftarrow> unpin_blk s SFS_INODE_BMAP_BLK; Some (err, s, dir) }
         else do {
           (err, s, dir) \<leftarrow> alloc_dirent si s dir name inum;
           if err \<noteq> ERR_OK then do {
             (_, s) \<leftarrow> free_disk_inode s inum;
             s \<leftarrow> unpin_blk s SFS_INODE_BMAP_BLK;
             Some (err, s, dir) }
           else do { s \<leftarrow> unpin_blk s SFS_INODE_BMAP_BLK; Some (ERR_OK, s, dir) } } } } }"

definition sfs_create :: "sfs_sb_info \<Rightarrow> blocks \<Rightarrow> inode \<Rightarrow> u8 list \<Rightarrow> u32 \<Rightarrow> (err_t \<times> blocks \<times> inode) exec" where
  "sfs_create si s dir name mode = create_inode_in_dir si s dir FTYPE_FILE name mode"

definition sfs_mkdir :: "sfs_sb_info \<Rightarrow> blocks \<Rightarrow> inode \<Rightarrow> u8 list \<Rightarrow> u32 \<Rightarrow> (err_t \<times> blocks \<times> inode) exec" where
  "sfs_mkdir si s dir name mode = create_inode_in_dir si s dir FTYPE_DIR name mode"

definition sfs_link :: "sfs_sb_info \<Rightarrow> blocks \<Rightarrow> inode \<Rightarrow> inode \<Rightarrow> u8 list \<Rightarrow> (err_t \<times> blocks \<times> inode \<times> inode) exec" where
  "sfs_link si s dir src name = do {
     kassert (i_ftype src = FTYPE_FILE);
     (inum, s, dir) \<leftarrow> search_dir si s dir name;
     if inum \<noteq> 0 then Some (ERR_EXIST, s, dir, src)
     else do {
       let ib = inum_to_blk (i_inum src);
       let (ok, s) = pin_blk s ib;
       if \<not> ok then Some (ERR_NOMEM, s, dir, src)
       else do {
         (err, s, dir) \<leftarrow> alloc_dirent si s dir name (i_inum src);
         if err \<noteq> ERR_OK then do { s \<leftarrow> unpin_blk s ib; Some (err, s, dir, src) }
         else do {
           (_, s, src) \<leftarrow> sfs_write_inode s (fs_set_inode_dirty (src\<lparr>i_nlink := i_nlink src + 1\<rparr>) True);
           s \<leftarrow> unpin_blk s ib;
           Some (ERR_OK, s, dir, src) } } } }"

text \<open>Reading an entry at a file position: the error, the inode number, the name and the new position.\<close>

definition sfs_readdir :: "sfs_sb_info \<Rightarrow> blocks \<Rightarrow> inode \<Rightarrow> u64 \<Rightarrow> (err_t \<times> u32 \<times> u8 list \<times> u64 \<times> blocks \<times> inode) exec" where
  "sfs_readdir si s dir pos =
     (if i_size dir < pos + 32 then Some (ERR_END, 0, [], pos, s, dir)
      else do {
        (bytes, s, dir) \<leftarrow> read_data si s dir sizeof_sfs_dirent pos;
        if length bytes < sizeof_sfs_dirent then Some (ERR_NOMEM, 0, [], pos, s, dir)
        else do {
          kassert (length bytes = sizeof_sfs_dirent);
          kassert (0 \<in> set (drop 4 bytes));
          Some (ERR_OK, dirent_inum bytes 0, takeWhile (\<lambda>c. c \<noteq> 0) (drop 4 bytes), pos + of_nat (length bytes), s, dir) } })"

section \<open>Entries of a directory\<close>

definition ebytes :: "blocks \<Rightarrow> inode \<Rightarrow> nat \<Rightarrow> u8 list" where
  "ebytes s dir k = map (fbyte s dir) [32 * k..<32 * k + 32]"

definition ent_inum :: "blocks \<Rightarrow> inode \<Rightarrow> nat \<Rightarrow> u32" where
  "ent_inum s dir k = dirent_inum (ebytes s dir k) 0"

definition ent_name :: "blocks \<Rightarrow> inode \<Rightarrow> nat \<Rightarrow> u8 list" where
  "ent_name s dir k = takeWhile (\<lambda>c. c \<noteq> 0) (drop 4 (ebytes s dir k))"

definition ent_match :: "blocks \<Rightarrow> inode \<Rightarrow> u8 list \<Rightarrow> nat \<Rightarrow> bool" where
  "ent_match s dir name k \<longleftrightarrow> ent_inum s dir k > 0 \<and> ent_name s dir k = take 28 name"

text \<open>The number of entries that the loops look at, and the entry a search finds.\<close>

definition nents :: "inode \<Rightarrow> nat" where
  "nents dir = (unat (i_size dir) + 31) div 32"

definition found :: "blocks \<Rightarrow> inode \<Rightarrow> u8 list \<Rightarrow> nat \<Rightarrow> u32" where
  "found s dir name k = (case find (ent_match s dir name) [k..<nents dir] of None \<Rightarrow> 0 | Some j \<Rightarrow> ent_inum s dir j)"

lemma strncmp_takeWhile:
  "strncmp m s1 s2 n = 0 \<longleftrightarrow> takeWhile (\<lambda>c. c \<noteq> 0) (map m [s1..<s1 + n]) = takeWhile (\<lambda>c. c \<noteq> 0) (map m [s2..<s2 + n])"
proof (induction n arbitrary: s1 s2)
  case (Suc n)
  have "[s1..<s1 + Suc n] = s1 # [s1 + 1..<s1 + 1 + n]" "[s2..<s2 + Suc n] = s2 # [s2 + 1..<s2 + 1 + n]" by (simp_all add: upt_conv_Cons)
  then show ?case using Suc [of "s1 + 1" "s2 + 1"] by (auto simp: sint_inj_iff)
qed simp

lemma map_dmem_name:
  assumes "length d \<le> name_at" "0 \<notin> set name"
  shows "takeWhile (\<lambda>c. c \<noteq> 0) (map (dmem d name) [name_at..<name_at + n]) = take n name"
proof -
  have "map (dmem d name) [name_at..<name_at + n] = take n name @ replicate (n - length name) 0"
    using assms(1) by (intro nth_equalityI) (auto simp: dmem_def nth_append)
  moreover have "takeWhile (\<lambda>c. c \<noteq> 0) (take n name) = take n name"
    using assms(2) by (auto simp: takeWhile_eq_all_conv dest: in_set_takeD)
  ultimately show ?thesis using assms(2) by (cases "n - length name") (auto simp: takeWhile_append dest: in_set_takeD)
qed

lemma dirent_in_block:
  assumes "length d = 512" "ofs + 32 \<le> 512" "take 32 (drop ofs d) = ebytes s dir k" "0 \<notin> set name"
  shows "dirent_inum d ofs = ent_inum s dir k" "dirent_match d ofs name \<longleftrightarrow> ent_match s dir name k"
proof -
  have "take 4 (drop ofs d) = take 4 (ebytes s dir k)" using arg_cong [OF assms(3), of "take 4"] by (simp add: min_def)
  then show i: "dirent_inum d ofs = ent_inum s dir k" by (simp add: dirent_inum_def ent_inum_def rd_def)
  have "map (dmem d name) [ofs + 4..<ofs + 4 + 28] = take 28 (drop (ofs + 4) d)"
    using assms(1,2) by (intro nth_equalityI) (auto simp: dmem_def)
  also have "\<dots> = drop 4 (ebytes s dir k)" using arg_cong [OF assms(3), of "drop 4"] by (simp add: drop_take add.commute)
  finally show "dirent_match d ofs name \<longleftrightarrow> ent_match s dir name k"
    using i assms map_dmem_name [of d name 28] by (simp add: dirent_match_def ent_match_def ent_name_def strncmp_takeWhile)
qed

lemma entry_in_block:
  assumes "blks_ok s" "b = slot s dir (fslot (k div 16))" "b \<noteq> 0" "k < 4288"
  shows "length (bdata s b) = 512" "32 * (k mod 16) + 32 \<le> 512" "take 32 (drop (32 * (k mod 16)) (bdata s b)) = ebytes s dir k"
proof -
  show "length (bdata s b) = 512" using assms(1) by (simp add: blks_ok_def)
  show l: "32 * (k mod 16) + 32 \<le> 512" using mod_less_divisor [of 16 k] by linarith
  have u: "unat (of_nat (32 * k) :: u64) = 32 * k" using assms(4) by (simp only: unat_of_nat) simp
  have m: "32 * k div 512 = k div 16" "32 * k mod 512 = 32 * (k mod 16)"
    using div_mult_mult1 [of 32 k 16] mult_mod_right [of 32 k 16] by simp_all
  show "take 32 (drop (32 * (k mod 16)) (bdata s b)) = ebytes s dir k"
    using read_turn [OF assms(1), of b dir "of_nat (32 * k)" 32] assms(2,3) l unfolding u m ebytes_def by simp
qed

section \<open>Walking over the entries\<close>

text \<open>Before entry \<open>k\<close> a loop holds the block of the entry before; at the entry it holds the block of the entry.\<close>

definition holds_blk :: "blocks \<Rightarrow> blk_t \<Rightarrow> blocks \<Rightarrow> bool" where
  "holds_blk s0 b s \<longleftrightarrow> refs_same (s0\<lparr>bheld := {b}, bref := (bref s0)(b := bref s0 b + 1)\<rparr>) s"

definition walk :: "sfs_sb_info \<Rightarrow> bool \<Rightarrow> blocks \<Rightarrow> inode \<Rightarrow> blocks \<Rightarrow> inode \<Rightarrow> bool" where
  "walk si alloc s0 dir0 s dir \<longleftrightarrow> extends si s0 dir0 s dir \<and> (\<not> alloc \<longrightarrow> bdata s = bdata s0 \<and> dir = dir0)"

definition before_ent :: "sfs_sb_info \<Rightarrow> bool \<Rightarrow> blocks \<Rightarrow> inode \<Rightarrow> nat \<Rightarrow> blk_t option \<Rightarrow> blocks \<Rightarrow> inode \<Rightarrow> bool" where
  "before_ent si alloc s0 dir0 k bh s dir \<longleftrightarrow> walk si alloc s0 dir0 s dir
     \<and> (case bh of None \<Rightarrow> k = 0 \<and> refs_same s0 s
        | Some b \<Rightarrow> 0 < k \<and> b = slot s dir (fslot ((k - 1) div 16)) \<and> b \<noteq> 0 \<and> holds_blk s0 b s)"

definition at_ent :: "sfs_sb_info \<Rightarrow> bool \<Rightarrow> blocks \<Rightarrow> inode \<Rightarrow> nat \<Rightarrow> blk_t \<Rightarrow> blocks \<Rightarrow> inode \<Rightarrow> bool" where
  "at_ent si alloc s0 dir0 k b s dir \<longleftrightarrow> walk si alloc s0 dir0 s dir \<and> b = slot s dir (fslot (k div 16)) \<and> b \<noteq> 0 \<and> holds_blk s0 b s"

lemma at_ent_next: "at_ent si alloc s0 dir0 k b s dir \<Longrightarrow> before_ent si alloc s0 dir0 (k + 1) (Some b) s dir"
  by (auto simp: at_ent_def before_ent_def)

lemma holds_release:
  assumes "holds_blk s0 b s" "bheld s0 = {}"
  shows "release_blk s b = Some (s\<lparr>bref := bref s0, bheld := {}\<rparr>)" "refs_same s0 (s\<lparr>bref := bref s0, bheld := {}\<rparr>)"
  using assms by (auto simp: holds_blk_def refs_same_def release_blk_eq fun_eq_iff)

lemma walk_trans: "walk si alloc s0 dir0 s dir \<Longrightarrow> walk si alloc s dir s' dir' \<Longrightarrow> walk si alloc s0 dir0 s' dir'"
  by (auto simp: walk_def intro: file_extends_trans)

lemma walk_refs: "walk si alloc s0 dir0 s dir \<Longrightarrow> bdata s' = bdata s \<Longrightarrow> walk si alloc s0 dir0 s' dir"
  unfolding walk_def using file_extends_trans [OF _ extends_same] extends_ok by metis

lemma ofs_k: "k \<le> 4288 \<Longrightarrow> unat (of_nat (32 * k) :: u64) = 32 * k"
  by (simp only: unat_of_nat) simp

lemma div16_pred: "k mod 16 \<noteq> 0 \<Longrightarrow> (k - 1) div 16 = k div (16 :: nat)"
  by (cases k) (auto simp: div_Suc)

lemma dir_block_ok:
  assumes lay: "lay si" and ok: "inode_ok si s0 dir0" "blks_ok s0" "bheld s0 = {}" "\<forall>n. answers s0 n"
    and b: "before_ent si alloc s0 dir0 k bh s dir" and k: "k < 4288" and m: "alloc \<or> slot s0 dir0 (fslot (k div 16)) \<noteq> 0"
  shows "\<exists>err b s' dir'. dir_block si s dir (of_nat (32 * k)) bh alloc = Some (err, Some b, s', dir')
    \<and> (err = ERR_OK \<longrightarrow> at_ent si alloc s0 dir0 k b s' dir')
    \<and> (err \<noteq> ERR_OK \<longrightarrow> err = ERR_NORES \<and> alloc \<and> slot s0 dir0 (fslot (k div 16)) = 0 \<and> no_space si s' \<and> walk si alloc s0 dir0 s' dir' \<and> refs_same s0 s')"
proof (cases "k mod 16 = 0")
  case True
  let ?o = "of_nat (32 * k) :: u64"
  have m0: "unat ?o mod 512 = 0" using True ofs_k [OF less_imp_le [OF k]] mult_mod_right [of 32 k 16] by simp
  have w: "walk si alloc s0 dir0 s dir" using b by (simp add: before_ent_def)
  obtain s1 where s1: "(case bh of None \<Rightarrow> Some s | Some b \<Rightarrow> release_blk s b) = Some s1" "refs_same s0 s1" "bdata s1 = bdata s"
    using b holds_release [OF _ ok(3)] by (cases bh) (auto simp: before_ent_def)
  have w1: "walk si alloc s0 dir0 s1 dir" by (rule walk_refs [OF w s1(3)])
  have o1: "inode_ok si s1 dir" "blks_ok s1" "bheld s1 = {}" "\<forall>n. answers s1 n" using w1 extends_ok s1(2) ok(3,4) by (auto simp: walk_def refs_same_def)
  have lt: "?o < SFS_MAX_FILE_SIZE" "unat (?o div 512) = k div 16"
    using k ofs_k [OF less_imp_le [OF k]] div_mult_mult1 [of 32 k 16] by (simp_all add: word_less_nat_alt unat_div)
  obtain err blk s2 dir2 where g: "get_data_block si s1 dir ?o alloc = Some (err, blk, s2, dir2)" "gdb_result si s1 dir (k div 16) alloc err blk s2 dir2"
    using get_data_block_ok [OF lay o1(1-3) lt(1), of alloc] o1(4) unfolding lt(2) by blast
  note r = g(2) [unfolded gdb_result_def]
  have w2: "walk si alloc s0 dir0 s2 dir2" by (rule walk_trans [OF w1]) (use r in \<open>simp add: walk_def\<close>)
  have f: "fslot (k div 16) < 270" using k by (auto simp: fslot_def)
  have sl: "slot s0 dir0 (fslot (k div 16)) \<noteq> 0 \<Longrightarrow> slot s1 dir (fslot (k div 16)) \<noteq> 0" using w1 f by (auto simp: walk_def extends_def fext_def)
  have db: "dir_block si s dir ?o bh alloc = Some (err, Some blk, s2, dir2)" using m0 s1(1) g(1) by (simp add: dir_block_def)
  have "holds_blk s0 blk s2" if "err = ERR_OK"
    using r that s1(2) ok(3) by (auto simp: holds_blk_def refs_same_def)
  moreover have "err = ERR_OK \<or> err = ERR_NORES" using r o1(4) m sl by (auto simp: map_errs_def)
  moreover have "refs_same s0 s2" if "err \<noteq> ERR_OK" using r that s1(2) refs_same_trans by blast
  ultimately show ?thesis using db r w2 sl by (intro exI [of _ err] exI [of _ blk] exI [of _ s2] exI [of _ dir2]) (auto simp: at_ent_def map_errs_def)
next
  case False
  have d: "(k - 1) div 16 = k div 16" using False by (rule div16_pred)
  have m0: "unat (of_nat (32 * k) :: u64) mod 512 \<noteq> 0" using False ofs_k [OF less_imp_le [OF k]] mult_mod_right [of 32 k 16] by simp
  obtain b' where "bh = Some b'" "at_ent si alloc s0 dir0 k b' s dir"
    using b False d by (cases bh) (simp_all add: before_ent_def at_ent_def)
  then show ?thesis using m0 by (simp add: dir_block_def)
qed

text \<open>The entry seen through the block that is held.\<close>

lemma at_ent_entry:
  assumes "at_ent si alloc s0 dir0 k b s dir" "k < 4288" "0 \<notin> set name"
  shows "unat (of_nat (32 * k) :: u64) mod 512 = 32 * (k mod 16)" "dirent_inum (bdata s b) (32 * (k mod 16)) = ent_inum s0 dir0 k"
    "dirent_match (bdata s b) (32 * (k mod 16)) name \<longleftrightarrow> ent_match s0 dir0 name k"
proof -
  have w: "extends si s0 dir0 s dir" using assms(1) by (simp add: at_ent_def walk_def)
  have b: "b = slot s dir (fslot (k div 16))" "b \<noteq> 0" using assms(1) by (auto simp: at_ent_def)
  note e = entry_in_block [OF conjunct2 [OF extends_ok [OF w]] b assms(2)]
  have "fbyte s dir p = fbyte s0 dir0 p" if "p < 32 * k + 32" for p using w that assms(2) by (simp add: extends_def)
  then have eb: "ebytes s dir k = ebytes s0 dir0 k" by (simp add: ebytes_def)
  show "unat (of_nat (32 * k) :: u64) mod 512 = 32 * (k mod 16)" using ofs_k [OF less_imp_le [OF assms(2)]] mult_mod_right [of 32 k 16] by simp
  show "dirent_inum (bdata s b) (32 * (k mod 16)) = ent_inum s0 dir0 k" "dirent_match (bdata s b) (32 * (k mod 16)) name \<longleftrightarrow> ent_match s0 dir0 name k"
    using dirent_in_block [OF e assms(3)] by (simp_all add: ent_inum_def ent_match_def ent_name_def eb)
qed

lemma nents_less: "i_size dir \<le> SFS_MAX_FILE_SIZE \<Longrightarrow> nents dir \<le> 4288"
  by (simp add: nents_def word_le_nat_alt)

lemma ofs_less: "k \<le> 4288 \<Longrightarrow> of_nat (32 * k) < i_size dir \<longleftrightarrow> k < nents dir"
  using ofs_k [of k] by (auto simp: word_less_nat_alt nents_def)

lemma ofs_next: "of_nat (32 * k) + 32 = (of_nat (32 * (k + 1)) :: u64)"
  by (simp add: algebra_simps)

text \<open>A directory without holes in memory that is not locked.\<close>

definition dir_ok :: "sfs_sb_info \<Rightarrow> blocks \<Rightarrow> inode \<Rightarrow> bool" where
  "dir_ok si s dir \<longleftrightarrow> lay si \<and> inode_ok si s dir \<and> blks_ok s \<and> bheld s = {} \<and> i_size dir \<le> SFS_MAX_FILE_SIZE
     \<and> (\<forall>k < nents dir. slot s dir (fslot (k div 16)) \<noteq> 0)"

lemma dir_okD:
  assumes "dir_ok si s dir"
  shows "lay si" "inode_ok si s dir" "blks_ok s" "bheld s = {}" "nents dir \<le> 4288" "k < nents dir \<Longrightarrow> slot s dir (fslot (k div 16)) \<noteq> 0"
  using assms nents_less by (auto simp: dir_ok_def)

lemma before_first: "dir_ok si s dir \<Longrightarrow> before_ent si alloc s dir 0 None s dir"
  using extends_same [of si s dir s] by (simp add: before_ent_def walk_def dir_ok_def)

lemma release_last_ok:
  assumes "before_ent si False s0 dir0 k bh s dir" "bheld s0 = {}"
  shows "\<exists>s'. release_last s bh = Some s' \<and> bdata s' = bdata s0 \<and> refs_same s0 s' \<and> dir = dir0"
  using assms holds_release [of s0 _ s] by (cases bh) (auto simp: before_ent_def walk_def release_last_def)

text \<open>One turn of a loop that does not allocate.\<close>

lemma dir_turn:
  assumes "dir_ok si s0 dir0" "\<forall>n. answers s0 n" "before_ent si False s0 dir0 k bh s dir" "k < nents dir0"
  obtains b s1 where "dir_block si s dir (of_nat (32 * k)) bh False = Some (ERR_OK, Some b, s1, dir0)" "at_ent si False s0 dir0 k b s1 dir0"
    "release_blk s1 b = Some (s1\<lparr>bref := bref s0, bheld := {}\<rparr>)" "refs_same s0 (s1\<lparr>bref := bref s0, bheld := {}\<rparr>)" "bdata s1 = bdata s0" "dir = dir0"
proof -
  note ok = dir_okD [OF assms(1)]
  have k: "k < 4288" using assms(4) ok(5) by linarith
  obtain err b s1 dir1 where d: "dir_block si s dir (of_nat (32 * k)) bh False = Some (err, Some b, s1, dir1)" "err = ERR_OK" "at_ent si False s0 dir0 k b s1 dir1"
    using dir_block_ok [OF ok(1-4) assms(2,3) k] ok(6) [OF assms(4)] by blast
  have e: "dir1 = dir0" "bdata s1 = bdata s0" "dir = dir0" using d(3) assms(3) by (auto simp: at_ent_def before_ent_def walk_def)
  have "holds_blk s0 b s1" using d(3) unfolding at_ent_def by blast
  then show ?thesis using that d e holds_release [OF _ ok(4)] by simp
qed

lemma search_loop_ok:
  assumes "dir_ok si s0 dir0" "\<forall>n. answers s0 n" "0 \<notin> set name"
  shows "before_ent si False s0 dir0 k bh s dir \<Longrightarrow> k \<le> nents dir0 \<Longrightarrow>
    \<exists>s'. search_loop si s dir name (of_nat (32 * k)) bh = Some (found s0 dir0 name k, s', dir0) \<and> bdata s' = bdata s0 \<and> refs_same s0 s'"
proof (induction "nents dir0 - k" arbitrary: k bh s dir)
  case 0
  then have "dir = dir0" "k = nents dir0" by (auto simp: before_ent_def walk_def)
  moreover have "\<not> of_nat (32 * nents dir0) < i_size dir0" using ofs_less [of "nents dir0" dir0] dir_okD(5) [OF assms(1)] by simp
  ultimately show ?case using release_last_ok [OF 0(2) dir_okD(4) [OF assms(1)]] by (subst search_loop.simps) (auto simp: found_def)
next
  case (Suc m)
  then have lt: "k < nents dir0" by simp
  then have k: "k < 4288" using dir_okD(5) [OF assms(1)] by linarith
  obtain b s1 where d: "dir_block si s dir (of_nat (32 * k)) bh False = Some (ERR_OK, Some b, s1, dir0)" "at_ent si False s0 dir0 k b s1 dir0"
      "release_blk s1 b = Some (s1\<lparr>bref := bref s0, bheld := {}\<rparr>)" "refs_same s0 (s1\<lparr>bref := bref s0, bheld := {}\<rparr>)" "bdata s1 = bdata s0" "dir = dir0"
    using dir_turn [OF assms(1,2) Suc.prems(1) lt] .
  note e = at_ent_entry [OF d(2) k assms(3)]
  have l: "of_nat (32 * k) < i_size dir" using ofs_less [of k dir0] k lt d(6) by simp
  have up: "[k..<nents dir0] = k # [Suc k..<nents dir0]" using lt by (rule upt_conv_Cons)
  show ?case
  proof (cases "ent_match s0 dir0 name k")
    case True
    then have "search_loop si s dir name (of_nat (32 * k)) bh = Some (ent_inum s0 dir0 k, s1\<lparr>bref := bref s0, bheld := {}\<rparr>, dir0)"
      using l d(1,3) e by (subst search_loop.simps) (simp add: Let_def del: of_nat_mult)
    then show ?thesis using True d(4,5) by (simp add: found_def up)
  next
    case False
    have "search_loop si s dir name (of_nat (32 * k)) bh = search_loop si s1 dir0 name (of_nat (32 * (k + 1))) (Some b)"
      using l d(1) e False by (subst search_loop.simps) (simp add: Let_def ofs_next del: of_nat_mult)
    then show ?thesis using Suc.hyps(1) [of "k + 1" "Some b" s1 dir0] Suc.hyps(2) at_ent_next [OF d(2)] lt False by (simp add: found_def up)
  qed
qed

section \<open>Freeing an entry\<close>

text \<open>Overwriting bytes of the block that is held, and giving it back.\<close>

lemma at_ent_put:
  assumes "dir_ok si s0 dir0" "at_ent si alloc s0 dir0 k b s dir" "k < 4288" "32 * (k mod 16) + length bs \<le> 512"
  shows "\<exists>s'. release_blk (put_blk s b (put_bytes (bdata s b) (32 * (k mod 16)) bs)) b = Some s' \<and> fext si s0 dir0 s' dir
    \<and> wrote s0 dir0 (32 * k) bs s' dir \<and> refs_same s0 s' \<and> slot s' dir (fslot (k div 16)) = b"
proof -
  note ok = dir_okD [OF assms(1)]
  let ?s = "put_blk s b (put_bytes (bdata s b) (32 * (k mod 16)) bs)"
  have h: "holds_blk s0 b s" and w: "extends si s0 dir0 s dir" and b: "b = slot s dir (fslot (k div 16))" "b \<noteq> 0"
    using assms(2) unfolding at_ent_def walk_def by blast+
  have "holds_blk s0 b ?s" using h by (simp add: holds_blk_def refs_same_def)
  note r = holds_release [OF this ok(4)]
  have "512 * (k div 16) + 32 * (k mod 16) = 32 * k" using mult_div_mod_eq [of 16 k] by linarith
  moreover have "k div 16 < 268" using assms(3) by (simp add: less_mult_imp_div_less)
  ultimately have p: "fext si s dir (?s\<lparr>bref := bref s0, bheld := {}\<rparr>) dir" "wrote s dir (32 * k) bs (?s\<lparr>bref := bref s0, bheld := {}\<rparr>) dir"
    using put_in_file [OF ok(1) conjunct1 [OF extends_ok [OF w]] conjunct2 [OF extends_ok [OF w]] _ b assms(4), of "?s\<lparr>bref := bref s0, bheld := {}\<rparr>"] by simp_all
  have "wrote s0 dir0 (32 * k) bs (?s\<lparr>bref := bref s0, bheld := {}\<rparr>) dir" using p(2) w by (simp add: wrote_def extends_def)
  moreover have "slot (?s\<lparr>bref := bref s0, bheld := {}\<rparr>) dir (fslot (k div 16)) = b" using p(1) b assms(3) by (auto simp: fext_def fslot_def)
  ultimately show ?thesis using r w p(1) fext_trans unfolding extends_def by blast
qed

text \<open>The entries after a change of four or more bytes at the start of one.\<close>

lemma wrote_ebytes:
  assumes "wrote s dir (32 * k) bs s' dir'" "j < 4288" "length bs \<le> 33" "k < 4288"
  shows "j \<noteq> k \<Longrightarrow> j \<noteq> k + 1 \<or> length bs \<le> 32 \<Longrightarrow> ebytes s' dir' j = ebytes s dir j"
    "j = k \<Longrightarrow> length bs \<le> 32 \<Longrightarrow> ebytes s' dir' j = bs @ drop (length bs) (ebytes s dir j)"
proof -
  have w: "fbyte s' dir' p = (if 32 * k \<le> p \<and> p < 32 * k + length bs then bs ! (p - 32 * k) else fbyte s dir p)" if "p < 137216" for p
    using assms(1) that by (simp add: wrote_def)
  show "ebytes s' dir' j = ebytes s dir j" if n: "j \<noteq> k" "j \<noteq> k + 1 \<or> length bs \<le> 32"
  proof -
    have "\<not> (32 * k \<le> p \<and> p < 32 * k + length bs)" if "32 * j \<le> p" "p < 32 * j + 32" for p using that n assms(3) by linarith
    then show ?thesis using w assms(2) unfolding ebytes_def by (intro map_cong) auto
  qed
  show "ebytes s' dir' j = bs @ drop (length bs) (ebytes s dir j)" if "j = k" "length bs \<le> 32"
    using that w assms(2) by (intro nth_equalityI) (auto simp: ebytes_def nth_append)
qed

lemma free_dirent_loop_ok:
  assumes "dir_ok si s0 dir0" "\<forall>n. answers s0 n" "0 \<notin> set name"
  shows "before_ent si False s0 dir0 k bh s dir \<Longrightarrow> k \<le> nents dir0 \<Longrightarrow>
    \<exists>s'. free_dirent_loop si s dir name (of_nat (32 * k)) bh =
        Some (if find (ent_match s0 dir0 name) [k..<nents dir0] = None then ERR_NOTEXIST else ERR_OK, s', dir0)
      \<and> refs_same s0 s' \<and> fext si s0 dir0 s' dir0
      \<and> (case find (ent_match s0 dir0 name) [k..<nents dir0] of None \<Rightarrow> bdata s' = bdata s0 | Some j \<Rightarrow> wrote s0 dir0 (32 * j) (le_bytes 4 0) s' dir0)"
proof (induction "nents dir0 - k" arbitrary: k bh s dir)
  case 0
  then have "dir = dir0" "k = nents dir0" by (auto simp: before_ent_def walk_def)
  moreover have "\<not> of_nat (32 * nents dir0) < i_size dir0" using ofs_less [of "nents dir0" dir0] dir_okD(5) [OF assms(1)] by simp
  moreover obtain s' where "release_last s bh = Some s'" "bdata s' = bdata s0" "refs_same s0 s'"
    using release_last_ok [OF 0(2) dir_okD(4) [OF assms(1)]] by blast
  moreover have "fext si s0 dir0 s' dir0" using extends_same [OF dir_okD(2,3) [OF assms(1)]] calculation(5) by (simp add: extends_def)
  ultimately show ?case by (subst free_dirent_loop.simps) simp
next
  case (Suc m)
  then have lt: "k < nents dir0" by simp
  then have k: "k < 4288" using dir_okD(5) [OF assms(1)] by linarith
  obtain b s1 where d: "dir_block si s dir (of_nat (32 * k)) bh False = Some (ERR_OK, Some b, s1, dir0)" "at_ent si False s0 dir0 k b s1 dir0" "dir = dir0"
    using dir_turn [OF assms(1,2) Suc.prems(1) lt] by metis
  note e = at_ent_entry [OF d(2) k assms(3)]
  have l: "of_nat (32 * k) < i_size dir" using ofs_less [of k dir0] k lt d(3) by simp
  have up: "[k..<nents dir0] = k # [Suc k..<nents dir0]" using lt by (rule upt_conv_Cons)
  show ?case
  proof (cases "ent_match s0 dir0 name k")
    case True
    have "32 * (k mod 16) + length (le_bytes 4 0) \<le> 512" using mod_less_divisor [of 16 k] unfolding length_le_bytes by linarith
    then obtain s' where s': "release_blk (put_blk s1 b (put_bytes (bdata s1 b) (32 * (k mod 16)) (le_bytes 4 0))) b = Some s'" "fext si s0 dir0 s' dir0"
        "wrote s0 dir0 (32 * k) (le_bytes 4 0) s' dir0" "refs_same s0 s'"
      using at_ent_put [OF assms(1) d(2) k] by blast
    have "free_dirent_loop si s dir name (of_nat (32 * k)) bh = Some (ERR_OK, s', dir0)"
      using l d(1) e True s'(1) by (subst free_dirent_loop.simps) (simp add: Let_def del: of_nat_mult le_bytes.simps)
    then show ?thesis using True s' by (simp add: up)
  next
    case False
    have "free_dirent_loop si s dir name (of_nat (32 * k)) bh = free_dirent_loop si s1 dir0 name (of_nat (32 * (k + 1))) (Some b)"
      using l d(1) e False by (subst free_dirent_loop.simps) (simp add: Let_def ofs_next del: of_nat_mult)
    then show ?thesis using Suc.hyps(1) [of "k + 1" "Some b" s1 dir0] Suc.hyps(2) at_ent_next [OF d(2)] lt False by (simp add: up)
  qed
qed

lemma dir_empty_loop_ok:
  assumes "dir_ok si s0 dir0" "\<forall>n. answers s0 n"
  shows "before_ent si False s0 dir0 k bh s dir \<Longrightarrow> k \<le> nents dir0 \<Longrightarrow>
    \<exists>s'. dir_empty_loop si s dir (of_nat (32 * k)) bh = Some (ERR_OK, \<forall>j \<in> {k..<nents dir0}. ent_inum s0 dir0 j = 0, s', dir0)
      \<and> bdata s' = bdata s0 \<and> refs_same s0 s'"
proof (induction "nents dir0 - k" arbitrary: k bh s dir)
  case 0
  then have "dir = dir0" "k = nents dir0" by (auto simp: before_ent_def walk_def)
  moreover have "\<not> of_nat (32 * nents dir0) < i_size dir0" using ofs_less [of "nents dir0" dir0] dir_okD(5) [OF assms(1)] by simp
  ultimately show ?case using release_last_ok [OF 0(2) dir_okD(4) [OF assms(1)]] by (subst dir_empty_loop.simps) auto
next
  case (Suc m)
  then have lt: "k < nents dir0" by simp
  then have k: "k < 4288" using dir_okD(5) [OF assms(1)] by linarith
  obtain b s1 where d: "dir_block si s dir (of_nat (32 * k)) bh False = Some (ERR_OK, Some b, s1, dir0)" "at_ent si False s0 dir0 k b s1 dir0"
      "release_blk s1 b = Some (s1\<lparr>bref := bref s0, bheld := {}\<rparr>)" "refs_same s0 (s1\<lparr>bref := bref s0, bheld := {}\<rparr>)" "bdata s1 = bdata s0" "dir = dir0"
    using dir_turn [OF assms Suc.prems(1) lt] .
  note e = at_ent_entry(1,2) [OF d(2) k, of "[]"]
  have l: "of_nat (32 * k) < i_size dir" using ofs_less [of k dir0] k lt d(6) by simp
  have iv: "{k..<nents dir0} = insert k {k + 1..<nents dir0}" using lt by auto
  show ?case
  proof (cases "ent_inum s0 dir0 k = 0")
    case True
    have "dir_empty_loop si s dir (of_nat (32 * k)) bh = dir_empty_loop si s1 dir0 (of_nat (32 * (k + 1))) (Some b)"
      using l d(1) e True by (subst dir_empty_loop.simps) (simp add: ofs_next del: of_nat_mult)
    then show ?thesis using Suc.hyps(1) [of "k + 1" "Some b" s1 dir0] Suc.hyps(2) at_ent_next [OF d(2)] lt True by (simp add: iv)
  next
    case False
    then have "dir_empty_loop si s dir (of_nat (32 * k)) bh = Some (ERR_OK, False, s1\<lparr>bref := bref s0, bheld := {}\<rparr>, dir0)"
      using l d(1,3) e by (subst dir_empty_loop.simps) (simp add: word_gt_0 del: of_nat_mult)
    then show ?thesis using False d(4,5) by (simp add: iv)
  qed
qed

lemma is_dir_empty_ok:
  assumes "dir_ok si s dir" "\<forall>n. answers s n"
  shows "\<exists>s'. is_dir_empty si s dir = Some (ERR_OK, \<forall>j < nents dir. ent_inum s dir j = 0, s', dir) \<and> bdata s' = bdata s \<and> refs_same s s'"
  using dir_empty_loop_ok [OF assms before_first [OF assms(1)]] by (simp add: is_dir_empty_def Ball_def)

section \<open>Allocating an entry\<close>

text \<open>The bytes that are written for an entry: the number, the name cut to 27 bytes and padded, and the byte that \<open>strncpy\<close> writes
  behind it.\<close>

definition name28 :: "u8 list \<Rightarrow> u8 list" where
  "name28 name = take 27 name @ replicate (28 - min 27 (length name)) 0"

definition dirent_bytes :: "u8 list \<Rightarrow> u32 \<Rightarrow> u8 list" where
  "dirent_bytes name inum = le_bytes 4 (unat inum) @ name28 name @ (if length name < 28 then [0] else [])"

lemma length_dirent_bytes: "length (dirent_bytes name inum) = (if length name < 28 then 33 else 32)"
  by (auto simp: dirent_bytes_def name28_def min_def)

lemma cstrI: "(\<And>i. i < length xs \<Longrightarrow> m (a + i) = xs ! i) \<Longrightarrow> m (a + length xs) = 0 \<Longrightarrow> 0 \<notin> set xs \<Longrightarrow> cstr m a xs"
proof (induction xs arbitrary: a)
  case (Cons x xs)
  have "cstr m (a + 1) xs" using Cons.prems(1) [of "Suc _"] Cons.prems(2,3) by (intro Cons.IH) auto
  then show ?case using Cons.prems(1) [of 0] Cons.prems(3) by auto
qed simp

lemma copied_Suc: "d + n < a \<Longrightarrow> copied (m(d := m a)) (d + 1) (a + 1) n = copied m d a (Suc n)"
proof
  fix x assume "d + n < a"
  then show "copied (m(d := m a)) (d + 1) (a + 1) n x = copied m d a (Suc n) x"
    by (cases "d < x") (auto simp: copied_def dest: less_imp_Suc_add)
qed

lemma strncpy_long: "(\<forall>i < n. m (a + i) \<noteq> 0) \<Longrightarrow> d + n \<le> a \<Longrightarrow> strncpy m d a n = copied m d a n"
proof (induction n arbitrary: m d a)
  case (Suc n)
  have "m a \<noteq> 0" using Suc.prems(1) by (metis add_0_right zero_less_Suc)
  moreover have "\<forall>i < n. (m(d := m a)) (a + 1 + i) \<noteq> 0" using Suc.prems by auto
  then have "strncpy (m(d := m a)) (d + 1) (a + 1) n = copied (m(d := m a)) (d + 1) (a + 1) n" using Suc.prems(2) by (intro Suc.IH) simp_all
  ultimately show ?case using Suc.prems(2) copied_Suc [of d n a m] by (simp del: fun_upd_apply)
qed (auto simp: copied_def fun_eq_iff)

text \<open>The name field after \<open>strncpy\<close> and the terminator.\<close>

lemma strncpy_name:
  assumes "length d = 512" "ofs + 28 \<le> 512" "0 \<notin> set name"
  shows "(strncpy (dmem d name) ofs name_at 28)(ofs + 27 := 0) =
    (\<lambda>a. if ofs \<le> a \<and> a < ofs + 28 then name28 name ! (a - ofs) else if a = ofs + 28 \<and> length name < 28 then 0 else dmem d name a)"
proof (cases "length name < 28")
  case True
  have "cstr (dmem d name) name_at name" using assms by (intro cstrI) (auto simp: dmem_def)
  then have "strncpy (dmem d name) ofs name_at 28 =
      filled (copied (dmem d name) ofs name_at (length name)) (ofs + length name) (28 - length name + 1) 0"
    using assms(2) True by (intro strncpy_cstr) auto
  then show ?thesis using True assms(1,2) by (auto simp: filled_def copied_def name28_def nth_append fun_eq_iff dmem_def)
next
  case False
  have "\<forall>i < 28. dmem d name (name_at + i) \<noteq> 0" using False assms by (auto simp: dmem_def in_set_conv_nth)
  then have "strncpy (dmem d name) ofs name_at 28 = copied (dmem d name) ofs name_at 28" using assms(2) by (intro strncpy_long) auto
  then show ?thesis using False assms(1,2) by (auto simp: copied_def name28_def nth_append fun_eq_iff dmem_def)
qed

lemma fill_dirent_ok:
  assumes "length d = 512" "ofs + 32 \<le> 512" "0 \<notin> set name" "28 \<le> length name \<or> ofs + 32 < 512"
  shows "fill_dirent d ofs name inum = Some (put_bytes d ofs (dirent_bytes name inum))"
proof -
  let ?d = "put_bytes d ofs (le_bytes 4 (unat inum))"
  have l: "length ?d = 512" using assms by simp
  have "map ((strncpy (dmem ?d name) (ofs + 4) name_at 28)(ofs + 31 := 0)) [0..<512] = put_bytes d ofs (dirent_bytes name inum)"
  proof (rule nth_equalityI)
    show "length (map ((strncpy (dmem ?d name) (ofs + 4) name_at 28)(ofs + 31 := 0)) [0..<512]) = length (put_bytes d ofs (dirent_bytes name inum))"
      using assms(1,2,4) by (auto simp: length_dirent_bytes)
    fix i assume "i < length (map ((strncpy (dmem ?d name) (ofs + 4) name_at 28)(ofs + 31 := 0)) [0..<512])"
    then have i: "i < 512" by simp
    have "((strncpy (dmem ?d name) (ofs + 4) name_at 28)(ofs + 4 + 27 := 0)) i = put_bytes d ofs (dirent_bytes name inum) ! i"
      using assms i l by (subst strncpy_name [OF l]) (auto simp: dmem_def nth_put_bytes length_dirent_bytes dirent_bytes_def nth_append name28_def)
    then show "map ((strncpy (dmem ?d name) (ofs + 4) name_at 28)(ofs + 31 := 0)) [0..<512] ! i = put_bytes d ofs (dirent_bytes name inum) ! i"
      using i by (simp add: ac_simps)
  qed
  then show ?thesis using assms l by (auto simp: fill_dirent_def Let_def add.commute)
qed

text \<open>The entry that is taken: the first free one, or the one behind the last.\<close>

definition free_ent :: "blocks \<Rightarrow> inode \<Rightarrow> nat \<Rightarrow> nat" where
  "free_ent s dir k = (case find (\<lambda>j. ent_inum s dir j = 0) [k..<nents dir] of Some j \<Rightarrow> j | None \<Rightarrow> nents dir)"

definition new_dirent :: "sfs_sb_info \<Rightarrow> blocks \<Rightarrow> inode \<Rightarrow> nat \<Rightarrow> u8 list \<Rightarrow> blocks \<Rightarrow> inode \<Rightarrow> bool" where
  "new_dirent si s dir k bs s' dir' \<longleftrightarrow> wrote s dir (32 * k) bs s' dir' \<and> inode_ok si s' dir' \<and> blks_ok s' \<and> others_kept si s dir s'
     \<and> i_inum dir' = i_inum dir \<and> i_ftype dir' = i_ftype dir \<and> i_size dir' = (if k < nents dir then i_size dir else of_nat (32 * (k + 1)))
     \<and> (\<forall>t < 270. slot s dir t \<noteq> 0 \<longrightarrow> slot s' dir' t = slot s dir t) \<and> slot s' dir' (fslot (k div 16)) \<noteq> 0"

lemma meta_ftype: "same_meta a b \<Longrightarrow> i_ftype b = i_ftype a"
  unfolding same_meta_def by (metis inode.select_convs(4) inode.surjective inode.update_convs(7,9))

lemma at_ent_fill:
  assumes ok: "dir_ok si s0 dir0" and at: "at_ent si alloc s0 dir0 k b s dir" and k: "k < 4288" and nz: "0 \<notin> set name" and fit: "28 \<le> length name \<or> k mod 16 \<noteq> 15"
    and c: "i_addrs dir' = i_addrs dir" "i_inum dir' = i_inum dir" "i_ftype dir' = i_ftype dir" "i_size dir' = (if k < nents dir0 then i_size dir0 else of_nat (32 * (k + 1)))"
  shows "\<exists>d s'. fill_dirent (bdata s b) (32 * (k mod 16)) name inum = Some d \<and> release_blk (put_blk s b d) b = Some s'
    \<and> new_dirent si s0 dir0 k (dirent_bytes name inum) s' dir' \<and> refs_same s0 s'"
proof -
  have b: "b = slot s dir (fslot (k div 16))" "b \<noteq> 0" and w: "extends si s0 dir0 s dir" using at unfolding at_ent_def walk_def by blast+
  note e = entry_in_block [OF conjunct2 [OF extends_ok [OF w]] b k]
  have m: "k mod 16 < 16" by simp
  have "28 \<le> length name \<or> 32 * (k mod 16) + 32 < 512" using fit m by linarith
  then have f: "fill_dirent (bdata s b) (32 * (k mod 16)) name inum = Some (put_bytes (bdata s b) (32 * (k mod 16)) (dirent_bytes name inum))"
    "32 * (k mod 16) + length (dirent_bytes name inum) \<le> 512"
    using fill_dirent_ok [OF e(1,2) nz] e(2) by (auto simp: length_dirent_bytes)
  obtain s' where s': "release_blk (put_blk s b (put_bytes (bdata s b) (32 * (k mod 16)) (dirent_bytes name inum))) b = Some s'" "fext si s0 dir0 s' dir"
      "wrote s0 dir0 (32 * k) (dirent_bytes name inum) s' dir" "refs_same s0 s'" "slot s' dir (fslot (k div 16)) = b"
    using at_ent_put [OF ok at k f(2)] by blast
  have "new_dirent si s0 dir0 k (dirent_bytes name inum) s' dir'"
    using s'(2,3,5) b(2) c same_meta_D meta_ftype inode_cong [OF c(1)] unfolding new_dirent_def fext_def wrote_def by auto
  then show ?thesis using f(1) s' by blast
qed

text \<open>Behind the last entry the size of the directory is stored first.\<close>

lemma at_ent_grow:
  assumes ok: "dir_ok si s0 dir0" and at: "at_ent si True s0 dir0 k b s dir" and k: "k < 4288" and pin: "bref s0 (itab dir0) > 0"
  shows "\<exists>s2 dir2. sfs_write_inode s (fs_set_inode_dirty (dir\<lparr>i_size := z\<rparr>) True) = Some (ERR_OK, s2, dir2) \<and> at_ent si True s0 dir0 k b s2 dir
    \<and> i_addrs dir2 = i_addrs dir \<and> i_inum dir2 = i_inum dir \<and> i_ftype dir2 = i_ftype dir \<and> i_size dir2 = z"
proof -
  have b: "b = slot s dir (fslot (k div 16))" "b \<noteq> 0" and w: "extends si s0 dir0 s dir" and h: "holds_blk s0 b s"
    using at unfolding at_ent_def walk_def by blast+
  note o = extends_ok [OF w] and lay = dir_okD(1) [OF ok]
  have inum: "i_inum dir = i_inum dir0" using w same_meta_D by (auto simp: extends_def fext_def)
  have t: "fslot (k div 16) < 270" using k by (auto simp: fslot_def)
  obtain n where "n < ndata si" "b = dblk si n" using inode_ok_slot [OF conjunct1 [OF o] t] b by auto
  then have ne: "b \<noteq> itab dir" using itab_not_data [OF conjunct1 [OF o] lay] by metis
  let ?i = "fs_set_inode_dirty (dir\<lparr>i_size := z\<rparr>) True"
  have i: "i_inum ?i = i_inum dir" "length (i_addrs ?i) = 14" "i_inum dir \<noteq> 0" using o by (auto simp: inode_ok_def)
  have "sfs_write_inode s ?i = Some (ERR_OK, tab_put ?i s, fs_set_inode_dirty ?i False)"
    using h ne pin inum i by (intro write_inode_pinned) (auto simp: holds_blk_def refs_same_def)
  moreover have x: "extends si s dir (tab_put ?i s) dir" using o i by (intro tab_put_extends [OF lay]) auto
  then have "slot (tab_put ?i s) dir (fslot (k div 16)) = b" using b t by (auto simp: extends_def fext_def)
  moreover have "walk si True s0 dir0 (tab_put ?i s) dir" using file_extends_trans [OF w x] by (simp add: walk_def)
  moreover have "holds_blk s0 b (tab_put ?i s)" using h by (simp add: holds_blk_def refs_same_def tab_put_def)
  ultimately show ?thesis using b(2) by (auto simp: at_ent_def fs_set_inode_dirty_def)
qed

lemma unpin_pinned:
  assumes "refs_same (s\<lparr>bref := (bref s)(b := bref s b + 1)\<rparr>) s'"
  shows "\<exists>s''. unpin_blk s' b = Some s'' \<and> bdata s'' = bdata s' \<and> refs_same s s''"
  using assms by (auto simp: unpin_blk_def refs_same_def)

definition dirent_result :: "sfs_sb_info \<Rightarrow> blocks \<Rightarrow> inode \<Rightarrow> u8 list \<Rightarrow> u32 \<Rightarrow> nat \<Rightarrow> err_t \<Rightarrow> blocks \<Rightarrow> inode \<Rightarrow> bool" where
  "dirent_result si s dir name inum j err s' dir' \<longleftrightarrow>
     err = ERR_OK \<and> j < 4288 \<and> new_dirent si s dir j (dirent_bytes name inum) s' dir'
     \<or> err = ERR_NORES \<and> (j = 4288 \<or> j = nents dir \<and> no_space si s') \<and> extends si s dir s' dir'"

lemma release_last_any:
  assumes "before_ent si alloc s0 dir0 k bh s dir" "bheld s0 = {}"
  shows "\<exists>s'. release_last s bh = Some s' \<and> refs_same s0 s' \<and> extends si s0 dir0 s' dir"
proof -
  have w: "extends si s0 dir0 s dir" using assms(1) by (simp add: before_ent_def walk_def)
  have e: "extends si s0 dir0 s' dir" if "bdata s' = bdata s" for s' using file_extends_trans [OF w extends_same] extends_ok [OF w] that by blast
  then show ?thesis using assms holds_release [of s0 _ s] w by (cases bh) (auto simp: before_ent_def release_last_def)
qed

lemma extends_meta: "extends si s0 dir0 s dir \<Longrightarrow> i_inum dir = i_inum dir0 \<and> i_size dir = i_size dir0 \<and> i_ftype dir = i_ftype dir0"
  using same_meta_D meta_ftype by (auto simp: extends_def fext_def)

lemma walk_meta:
  assumes "walk si alloc s0 dir0 s dir"
  shows "i_inum dir = i_inum dir0" "i_size dir = i_size dir0" "i_ftype dir = i_ftype dir0"
  using assms extends_meta by (auto simp: walk_def)

text \<open>The turn at which the loop finds its entry.\<close>

lemma alloc_take:
  assumes ok: "dir_ok si s0 dir0" and an: "\<forall>n. answers s0 n" and nz: "0 \<notin> set name" and pin: "bref s0 (itab dir0) > 0"
    and b: "before_ent si True s0 dir0 k bh s dir" and k: "k < 4288" and fit: "28 \<le> length name \<or> k mod 16 \<noteq> 15"
    and free: "k = nents dir0 \<or> k < nents dir0 \<and> ent_inum s0 dir0 k = 0"
  shows "\<exists>err s' dir'. alloc_dirent_loop si s dir name inum (of_nat (32 * k)) bh = do { s \<leftarrow> unpin_blk s' (itab dir0); Some (err, s, dir') }
      \<and> refs_same s0 s' \<and> dirent_result si s0 dir0 name inum k err s' dir'"
proof -
  have lt: "of_nat (32 * k) < SFS_MAX_FILE_SIZE" using ofs_k [of k] k by (simp add: word_less_nat_alt)
  obtain err b s1 dir1 where d: "dir_block si s dir (of_nat (32 * k)) bh True = Some (err, Some b, s1, dir1)"
      "err = ERR_OK \<longrightarrow> at_ent si True s0 dir0 k b s1 dir1"
      "err \<noteq> ERR_OK \<longrightarrow> err = ERR_NORES \<and> slot s0 dir0 (fslot (k div 16)) = 0 \<and> no_space si s1 \<and> walk si True s0 dir0 s1 dir1 \<and> refs_same s0 s1"
    using dir_block_ok [OF dir_okD(1-4) [OF ok] an b k] by blast
  show ?thesis
  proof (cases "err = ERR_OK")
    case False
    then have w: "walk si True s0 dir0 s1 dir1" "err = ERR_NORES" "k = nents dir0" using d(3) free dir_okD(6) [OF ok] by auto
    have "alloc_dirent_loop si s dir name inum (of_nat (32 * k)) bh = do { s \<leftarrow> unpin_blk s1 (itab dir0); Some (err, s, dir1) }"
      using lt d(1) False walk_meta(1) [OF w(1)] by (subst alloc_dirent_loop.simps) (simp del: of_nat_mult)
    moreover have "dirent_result si s0 dir0 name inum k err s1 dir1" using w d(3) by (simp add: dirent_result_def walk_def)
    ultimately show ?thesis using d(3) False by blast
  next
    case True
    then have at: "at_ent si True s0 dir0 k b s1 dir1" using d(2) by simp
    note e = at_ent_entry [OF at k nz]
    have w: "walk si True s0 dir0 s1 dir1" using at by (simp add: at_ent_def)
    note meta = walk_meta [OF w]
    have sz: "i_size dir1 \<le> of_nat (32 * k) \<longleftrightarrow> k = nents dir0" using ofs_less [of k dir0] k free meta(2) by (auto simp: not_less [symmetric] simp del: of_nat_mult)
    obtain s2 dir2 where s2: "(if of_nat (32 * k) \<ge> i_size dir1 then do {
          (_, s, dir) \<leftarrow> sfs_write_inode s1 (fs_set_inode_dirty (dir1\<lparr>i_size := of_nat (32 * k) + 32\<rparr>) True);
          Some (s, dir) } else Some (s1, dir1)) = Some (s2, dir2)" "at_ent si True s0 dir0 k b s2 dir1"
        "i_addrs dir2 = i_addrs dir1" "i_inum dir2 = i_inum dir1" "i_ftype dir2 = i_ftype dir1"
        "i_size dir2 = (if k < nents dir0 then i_size dir0 else of_nat (32 * (k + 1)))"
    proof (cases "k = nents dir0")
      case True
      obtain s2 dir2 where "sfs_write_inode s1 (fs_set_inode_dirty (dir1\<lparr>i_size := of_nat (32 * k) + 32\<rparr>) True) = Some (ERR_OK, s2, dir2)"
          "at_ent si True s0 dir0 k b s2 dir1" "i_addrs dir2 = i_addrs dir1" "i_inum dir2 = i_inum dir1" "i_ftype dir2 = i_ftype dir1"
          "i_size dir2 = of_nat (32 * k) + 32"
        using at_ent_grow [OF ok at k pin] by metis
      then show ?thesis using that [of s2 dir2] sz True ofs_next [of k] by (simp del: of_nat_mult)
    next
      case False
      then show ?thesis using that [of s1 dir1] sz at free meta(2) by (simp del: of_nat_mult)
    qed
    obtain d' s' where f: "fill_dirent (bdata s2 b) (32 * (k mod 16)) name inum = Some d'" "release_blk (put_blk s2 b d') b = Some s'"
        "new_dirent si s0 dir0 k (dirent_bytes name inum) s' dir2" "refs_same s0 s'"
      using at_ent_fill [OF ok s2(2) k nz fit s2(3-6)] by blast
    have c: "of_nat (32 * k) \<ge> i_size dir1 \<or> dirent_inum (bdata s1 b) (32 * (k mod 16)) = 0" using sz e(2) free by auto
    have "alloc_dirent_loop si s dir name inum (of_nat (32 * k)) bh = do { s \<leftarrow> unpin_blk s' (itab dir0); Some (ERR_OK, s, dir2) }"
      using lt d(1) True c s2(1,4) f(1,2) meta(1) e(1) by (subst alloc_dirent_loop.simps) (simp add: Let_def del: of_nat_mult)
    then show ?thesis using f(3,4) k by (auto simp: dirent_result_def)
  qed
qed

lemma alloc_skip:
  assumes ok: "dir_ok si s0 dir0" and an: "\<forall>n. answers s0 n" and nz: "0 \<notin> set name"
    and b: "before_ent si True s0 dir0 k bh s dir" and k: "k < nents dir0" "ent_inum s0 dir0 k \<noteq> 0"
  shows "\<exists>b s1 dir1. alloc_dirent_loop si s dir name inum (of_nat (32 * k)) bh = alloc_dirent_loop si s1 dir1 name inum (of_nat (32 * (k + 1))) (Some b)
    \<and> before_ent si True s0 dir0 (k + 1) (Some b) s1 dir1"
proof -
  have k': "k < 4288" using k(1) dir_okD(5) [OF ok] by linarith
  have lt: "of_nat (32 * k) < SFS_MAX_FILE_SIZE" using ofs_k [of k] k' by (simp add: word_less_nat_alt)
  obtain err b s1 dir1 where d: "dir_block si s dir (of_nat (32 * k)) bh True = Some (err, Some b, s1, dir1)" "err = ERR_OK" "at_ent si True s0 dir0 k b s1 dir1"
    using dir_block_ok [OF dir_okD(1-4) [OF ok] an b k'] dir_okD(6) [OF ok k(1)] by blast
  note e = at_ent_entry [OF d(3) k' nz]
  have "walk si True s0 dir0 s1 dir1" using d(3) by (simp add: at_ent_def)
  then have "\<not> i_size dir1 \<le> of_nat (32 * k)" using ofs_less [of k dir0] k' k(1) walk_meta(2) by (auto simp: not_le simp del: of_nat_mult)
  then have "alloc_dirent_loop si s dir name inum (of_nat (32 * k)) bh = alloc_dirent_loop si s1 dir1 name inum (of_nat (32 * (k + 1))) (Some b)"
    using lt d(1,2) e k(2) by (subst alloc_dirent_loop.simps) (simp add: Let_def ofs_next del: of_nat_mult)
  then show ?thesis using at_ent_next [OF d(3)] by blast
qed

lemma alloc_dirent_loop_ok:
  assumes ok: "dir_ok si s0 dir0" and an: "\<forall>n. answers s0 n" and nz: "0 \<notin> set name" and pin: "bref s0 (itab dir0) > 0"
  shows "before_ent si True s0 dir0 k bh s dir \<Longrightarrow> k \<le> nents dir0 \<Longrightarrow> 28 \<le> length name \<or> free_ent s0 dir0 k mod 16 \<noteq> 15 \<Longrightarrow>
    \<exists>err s' dir'. alloc_dirent_loop si s dir name inum (of_nat (32 * k)) bh = do { s \<leftarrow> unpin_blk s' (itab dir0); Some (err, s, dir') }
      \<and> refs_same s0 s' \<and> dirent_result si s0 dir0 name inum (free_ent s0 dir0 k) err s' dir'"
proof (induction "nents dir0 - k" arbitrary: k bh s dir)
  case (Suc m)
  then have lt: "k < nents dir0" by simp
  have up: "[k..<nents dir0] = k # [Suc k..<nents dir0]" using lt by (rule upt_conv_Cons)
  show ?case
  proof (cases "ent_inum s0 dir0 k = 0")
    case True
    then have "free_ent s0 dir0 k = k" by (simp add: free_ent_def up)
    then show ?thesis using alloc_take [OF ok an nz pin Suc.prems(1)] lt True Suc.prems(3) dir_okD(5) [OF ok] by auto
  next
    case False
    then have f: "free_ent s0 dir0 k = free_ent s0 dir0 (k + 1)" by (simp add: free_ent_def up)
    obtain b s1 dir1 where "alloc_dirent_loop si s dir name inum (of_nat (32 * k)) bh = alloc_dirent_loop si s1 dir1 name inum (of_nat (32 * (k + 1))) (Some b)"
        "before_ent si True s0 dir0 (k + 1) (Some b) s1 dir1"
      using alloc_skip [OF ok an nz Suc.prems(1) lt False] by metis
    then show ?thesis using Suc.hyps(1) [of "k + 1" "Some b" s1 dir1] Suc.hyps(2) Suc.prems(3) lt f by (simp del: of_nat_mult)
  qed
next
  case 0
  then have k: "k = nents dir0" "free_ent s0 dir0 k = k" by (auto simp: free_ent_def)
  show ?case
  proof (cases "k = 4288")
    case True
    obtain s' where s': "release_last s bh = Some s'" "refs_same s0 s'" "extends si s0 dir0 s' dir"
      using release_last_any [OF 0(2) dir_okD(4) [OF ok]] by blast
    have "alloc_dirent_loop si s dir name inum (of_nat (32 * k)) bh = do { s \<leftarrow> unpin_blk s' (itab dir0); Some (ERR_NORES, s, dir) }"
      using True s'(1) extends_meta [OF s'(3)] by (subst alloc_dirent_loop.simps) simp
    then show ?thesis using s' k True by (auto simp: dirent_result_def)
  next
    case False
    then show ?thesis using alloc_take [OF ok an nz pin 0(2)] k 0(4) dir_okD(5) [OF ok] by auto
  qed
qed

lemma fbyte_cong: "bdata s1 = bdata s \<Longrightarrow> fbyte s1 = fbyte s"
  using slot_cong(1) [of s1 s] by (auto simp: fun_eq_iff fbyte_def Let_def)

lemma pin_ok:
  assumes "\<forall>n. answers s n"
  obtains as where "pin_blk s b = (True, s\<lparr>bref := (bref s)(b := bref s b + 1), answers := as\<rparr>)" "\<forall>n. as n"
proof (cases "bref s b > 0")
  case True
  then show ?thesis using assms by (intro that [of "answers s"]) (simp_all add: pin_blk_def)
next
  case False
  then show ?thesis using assms by (intro that [of "\<lambda>n. answers s (Suc n)"]) (simp_all add: pin_blk_def)
qed

lemma data_cong:
  assumes "bdata s1 = bdata s"
  shows "ebytes s1 = ebytes s" "ent_inum s1 = ent_inum s" "free_ent s1 = free_ent s" "others_kept si s1 dir = others_kept si s dir"
    "wrote s1 dir = wrote s dir" "fext si s1 dir = fext si s dir" "no_space si s1 = no_space si s"
proof -
  have b: "slot s1 = slot s" "fbyte s1 = fbyte s" "dused si s1 = dused si s"
    using slot_cong [OF assms] fbyte_cong [OF assms] by (auto simp: fun_eq_iff)
  show e: "ebytes s1 = ebytes s" by (simp add: fun_eq_iff ebytes_def b)
  show i: "ent_inum s1 = ent_inum s" by (simp add: fun_eq_iff ent_inum_def e)
  show "free_ent s1 = free_ent s" by (simp add: fun_eq_iff free_ent_def i)
  show o: "others_kept si s1 dir = others_kept si s dir" by (simp add: fun_eq_iff others_kept_def b assms)
  show "wrote s1 dir = wrote s dir" by (simp add: fun_eq_iff wrote_def b)
  show "fext si s1 dir = fext si s dir" by (simp add: fun_eq_iff fext_def b o)
  show "no_space si s1 = no_space si s" by (simp add: fun_eq_iff no_space_def b)
qed

lemma data_cong_after:
  assumes "bdata s1 = bdata s'"
  shows "others_kept si s dir s1 = others_kept si s dir s'" "wrote s dir p bs s1 = wrote s dir p bs s'" "fext si s dir s1 = fext si s dir s'"
    "blks_ok s1 = blks_ok s'"
proof -
  have b: "slot s1 = slot s'" "fbyte s1 = fbyte s'" "dused si s1 = dused si s'" "inode_ok si s1 = inode_ok si s'"
    using slot_cong [OF assms] fbyte_cong [OF assms] inode_ok_cong [OF assms] by (auto simp: fun_eq_iff)
  show o: "others_kept si s dir s1 = others_kept si s dir s'" by (simp add: others_kept_def b assms)
  show "wrote s dir p bs s1 = wrote s dir p bs s'" by (simp add: fun_eq_iff wrote_def b)
  show k: "blks_ok s1 = blks_ok s'" by (simp add: blks_ok_def assms)
  show "fext si s dir s1 = fext si s dir s'" by (simp add: fun_eq_iff fext_def b o k)
qed

lemma dirent_result_cong:
  assumes "bdata s1 = bdata s" "bdata s1' = bdata s'" "dirent_result si s1 dir name inum k err s1' dir'"
  shows "dirent_result si s dir name inum k err s' dir'"
proof -
  have "slot s1 = slot s" "slot s1' = slot s'" "fbyte s1 = fbyte s" "fbyte s1' = fbyte s'" "inode_ok si s1' dir' = inode_ok si s' dir'"
    using slot_cong(1) [OF assms(1)] slot_cong(1) [OF assms(2)] fbyte_cong [OF assms(1)] fbyte_cong [OF assms(2)] inode_ok_cong [OF assms(2)] by (auto simp: fun_eq_iff)
  then show ?thesis using assms(3) unfolding dirent_result_def new_dirent_def extends_def
    by (simp add: data_cong [OF assms(1)] data_cong_after [OF assms(2)] data_cong(7) [OF assms(2)])
qed

lemma alloc_dirent_ok:
  assumes "dir_ok si s dir" "\<forall>n. answers s n" "0 \<notin> set name" "28 \<le> length name \<or> free_ent s dir 0 mod 16 \<noteq> 15"
  shows "\<exists>err s' dir'. alloc_dirent si s dir name inum = Some (err, s', dir') \<and> refs_same s s' \<and> dirent_result si s dir name inum (free_ent s dir 0) err s' dir'"
proof -
  let ?b = "itab dir"
  obtain as where p: "pin_blk s ?b = (True, s\<lparr>bref := (bref s)(?b := bref s ?b + 1), answers := as\<rparr>)" "\<forall>n. as n" using pin_ok [OF assms(2)] .
  let ?s0 = "s\<lparr>bref := (bref s)(?b := bref s ?b + 1), answers := as\<rparr>"
  have ok: "dir_ok si ?s0 dir" using assms(1) inode_ok_cong [of ?s0 s] slot_cong(1) [of ?s0 s] by (simp add: dir_ok_def blks_ok_def)
  obtain err s1 dir' where a: "alloc_dirent_loop si ?s0 dir name inum (of_nat (32 * 0)) None = do { s \<leftarrow> unpin_blk s1 ?b; Some (err, s, dir') }"
      "refs_same ?s0 s1" "dirent_result si ?s0 dir name inum (free_ent ?s0 dir 0) err s1 dir'"
    using alloc_dirent_loop_ok [OF ok _ assms(3) _ before_first [OF ok], of inum] p(2) assms(4) data_cong(3) [of ?s0 s] by auto
  obtain s2 where s2: "unpin_blk s1 ?b = Some s2" "bdata s2 = bdata s1" "refs_same s s2"
    using a(2) assms(2) p(2) by (auto simp: unpin_blk_def refs_same_def)
  have "alloc_dirent si s dir name inum = Some (err, s2, dir')" using p(1) a(1) s2(1) by (simp add: alloc_dirent_def)
  moreover have "dirent_result si s dir name inum (free_ent s dir 0) err s2 dir'"
    using a(3) s2(2) data_cong(3) [of ?s0 s] by (intro dirent_result_cong [of ?s0 s s1]) simp_all
  ultimately show ?thesis using s2(3) by blast
qed

text \<open>The entries after an allocation.  The entry behind the new one loses the low byte of its number.\<close>

lemma new_dirent_entries:
  assumes n: "new_dirent si s dir k (dirent_bytes name inum) s' dir'" and k: "k < 4288" "j < 4288"
  shows "j \<noteq> k \<Longrightarrow> j \<noteq> k + 1 \<or> 28 \<le> length name \<Longrightarrow> ebytes s' dir' j = ebytes s dir j"
    "ebytes s' dir' k = le_bytes 4 (unat inum) @ name28 name"
    "length name < 28 \<Longrightarrow> k + 1 < 4288 \<Longrightarrow> ebytes s' dir' (k + 1) = 0 # tl (ebytes s dir (k + 1))"
proof -
  let ?bs = "dirent_bytes name inum"
  have w: "fbyte s' dir' p = (if 32 * k \<le> p \<and> p < 32 * k + length ?bs then ?bs ! (p - 32 * k) else fbyte s dir p)" if "p < 137216" for p
    using n that by (simp add: new_dirent_def wrote_def)
  have l: "length ?bs \<le> 33" "28 \<le> length name \<Longrightarrow> length ?bs \<le> 32" by (auto simp: length_dirent_bytes)
  show "ebytes s' dir' j = ebytes s dir j" if "j \<noteq> k" "j \<noteq> k + 1 \<or> 28 \<le> length name"
    using n that k l by (intro wrote_ebytes(1) [of s dir k ?bs]) (auto simp: new_dirent_def)
  have "length (le_bytes 4 (unat inum) @ name28 name) = 32" by (simp add: name28_def del: le_bytes.simps)
  then show "ebytes s' dir' k = le_bytes 4 (unat inum) @ name28 name"
    using k w by (intro nth_equalityI) (auto simp: ebytes_def dirent_bytes_def nth_append simp del: le_bytes.simps)
  show "ebytes s' dir' (k + 1) = 0 # tl (ebytes s dir (k + 1))" if "length name < 28" "k + 1 < 4288"
  proof (rule nth_equalityI)
    fix i assume "i < length (ebytes s' dir' (k + 1))"
    then have i: "i < 32" by (simp add: ebytes_def)
    have z: "?bs ! 32 = 0" using that by (simp add: dirent_bytes_def nth_append name28_def del: le_bytes.simps)
    show "ebytes s' dir' (k + 1) ! i = (0 # tl (ebytes s dir (k + 1))) ! i"
      using that i z by (cases i) (auto simp: ebytes_def w length_dirent_bytes nth_tl algebra_simps)
  qed (simp add: ebytes_def)
qed

lemma ent_inum_new: "ent_inum s dir k = inum" if "ebytes s dir k = le_bytes 4 (unat inum) @ rest"
proof -
  have "take 4 (ebytes s dir k) = le_bytes 4 (unat inum)" using that by (simp del: le_bytes.simps)
  moreover have "unat inum < 256 ^ 4" using unsigned_less [of inum, where ?'a = nat] by simp
  ultimately show ?thesis by (simp add: ent_inum_def dirent_inum_def rd_def le_nat_le_bytes)
qed

lemma ent_name_new:
  assumes "ebytes s dir k = le_bytes 4 (unat inum) @ name28 name" "0 \<notin> set name"
  shows "ent_name s dir k = take 27 name"
proof -
  have "takeWhile (\<lambda>c. c \<noteq> 0) (take 27 name) = take 27 name" using assms(2) by (auto simp: takeWhile_eq_all_conv dest: in_set_takeD)
  moreover have "28 - min 27 (length name) = Suc (27 - min 27 (length name))" by simp
  ultimately show ?thesis using assms by (auto simp: ent_name_def name28_def takeWhile_append dest: in_set_takeD simp del: le_bytes.simps)
qed

lemma ent_cong: "ebytes s' dir' j = ebytes s dir j \<Longrightarrow> ent_match s' dir' nm j = ent_match s dir nm j \<and> ent_inum s' dir' j = ent_inum s dir j"
  by (simp add: ent_match_def ent_inum_def ent_name_def)

text \<open>Looking a name up after an entry was appended.\<close>

lemma found_append:
  assumes n: "new_dirent si s dir (nents dir) (dirent_bytes name inum) s' dir'" and k: "nents dir < 4288" and nm: "0 \<notin> set name" and i: "inum \<noteq> 0"
  shows "found s' dir' nm 0 = (if found s dir nm 0 \<noteq> 0 then found s dir nm 0 else if take 28 nm = take 27 name then inum else 0)"
proof -
  let ?k = "nents dir"
  have "unat (of_nat (32 * (?k + 1)) :: u64) = 32 * (?k + 1)" using k by (simp only: unat_of_nat) simp
  moreover have "i_size dir' = of_nat (32 * (?k + 1))" using n by (simp add: new_dirent_def)
  ultimately have sz: "nents dir' = ?k + 1" by (simp add: nents_def)
  note e = new_dirent_entries [OF n k]
  have old: "ent_match s' dir' nm j = ent_match s dir nm j \<and> ent_inum s' dir' j = ent_inum s dir j" if "j < ?k" for j using that e(1) [of j] k by (intro ent_cong) auto
  have eb: "ebytes s' dir' ?k = le_bytes 4 (unat inum) @ name28 name" using e(2) k by simp
  have new: "ent_match s' dir' nm ?k \<longleftrightarrow> take 28 nm = take 27 name" "ent_inum s' dir' ?k = inum"
    using ent_inum_new [OF eb] ent_name_new [OF eb nm(1)] i by (auto simp: ent_match_def word_gt_0)
  have up: "[0..<nents dir'] = [0..<?k] @ [?k]" by (simp add: sz)
  have f: "find (ent_match s' dir' nm) [0..<?k] = find (ent_match s dir nm) [0..<?k]" using old by (intro find_cong) auto
  show ?thesis
  proof (cases "find (ent_match s dir nm) [0..<?k]")
    case None
    then show ?thesis using f new by (simp add: found_def up find_append)
  next
    case (Some j)
    then have "ent_match s dir nm j" "j < ?k" using find_Some_conv [OF Some] by auto
    then show ?thesis using Some f old [of j] by (auto simp: found_def up find_append ent_match_def word_gt_0)
  qed
qed

lemma new_dirent_dir_ok:
  assumes "dir_ok si s dir" "new_dirent si s dir (nents dir) bs s' dir'" "nents dir < 4288" "refs_same s s'"
  shows "dir_ok si s' dir'"
proof -
  let ?k = "nents dir"
  have z: "i_size dir' = of_nat (32 * (?k + 1))" using assms(2) by (simp add: new_dirent_def)
  have u: "unat (of_nat (32 * (?k + 1)) :: u64) = 32 * (?k + 1)" using assms(3) by (simp only: unat_of_nat) simp
  have n: "nents dir' = ?k + 1" using u by (simp add: nents_def z)
  have "i_size dir' \<le> SFS_MAX_FILE_SIZE" using u assms(3) z by (simp add: word_le_nat_alt)
  moreover have "slot s' dir' (fslot (j div 16)) \<noteq> 0" if j: "j < ?k + 1" for j
  proof (cases "j = ?k")
    case False
    then have "slot s dir (fslot (j div 16)) \<noteq> 0" "fslot (j div 16) < 270" using j assms(3) dir_okD(6) [OF assms(1)] by (auto simp: fslot_def)
    then show ?thesis using assms(2) by (simp add: new_dirent_def)
  qed (use assms(2) in \<open>simp add: new_dirent_def\<close>)
  ultimately show ?thesis using assms n by (auto simp: dir_ok_def new_dirent_def refs_same_def)
qed

section \<open>Properties\<close>

text \<open>Searching a directory returns and finds the first entry in use that has the name, or none; it changes no block and leaves none
  pinned or locked.\<close>

theorem search_dir_correct:
  assumes "dir_ok si s dir" "\<forall>n. answers s n" "0 \<notin> set name"
  shows "\<exists>s'. search_dir si s dir name = Some (found s dir name 0, s', dir) \<and> bdata s' = bdata s \<and> bref s' = bref s \<and> bheld s' = {}"
proof -
  obtain s' where "search_loop si s dir name (of_nat (32 * 0)) None = Some (found s dir name 0, s', dir)" "bdata s' = bdata s" "refs_same s s'"
    using search_loop_ok [OF assms before_first [OF assms(1)]] by auto
  then show ?thesis using assms(1) by (simp add: search_dir_def refs_same_def dir_ok_def)
qed

text \<open>A directory of two entries, the first of them free or in use.\<close>

definition demo_dir :: inode where
  "demo_dir = (demo_ino ((replicate 14 0)[0 := 10]))\<lparr>i_ftype := FTYPE_DIR, i_size := 64\<rparr>"

definition demo_dir_data :: "u32 \<Rightarrow> blk_t \<Rightarrow> u8 list" where
  "demo_dir_data i b = (if b = 5 then 1 # replicate 511 0 else if b = 4 then enc_inode demo_dir @ replicate 448 0
     else if b = 10 then le_bytes 4 (unat i) @ [97] @ replicate 27 0 @ le_bytes 4 3 @ [98] @ replicate 475 0 else replicate 512 0)"

abbreviation (input) demo_dir_blocks :: "u32 \<Rightarrow> blocks" where "demo_dir_blocks i \<equiv> demo_blocks (demo_dir_data i)"

lemma demo_dir_slot: "t < 270 \<Longrightarrow> slot (demo_dir_blocks i) demo_dir t = (if t = 0 then 10 else 0)"
proof -
  assume t: "t < 270"
  have "12 + (t - 14) div 128 < 14" using t by (simp add: less_mult_imp_div_less)
  then show ?thesis by (auto simp: slot_def demo_dir_def demo_ino_def nth_list_update Let_def)
qed

lemma demo_dir_ok: "dir_ok demo_si (demo_dir_blocks i) demo_dir" "\<forall>n. answers (demo_dir_blocks i) n"
proof -
  let ?s = "demo_dir_blocks i"
  have u: "10 = dblk demo_si 0" "0 < ndata demo_si" "dused demo_si ?s 0"
    by (simp_all add: dblk_def demo_si_def ndata_def dused_def elem_used_def bmblk_def demo_blocks_def demo_dir_data_def)
  have "itab demo_dir < s_data_bmap_start demo_si" "length (i_addrs demo_dir) = 14" "i_inum demo_dir \<noteq> 0"
    by (simp_all add: demo_dir_def demo_ino_def inum_to_blk_def demo_si_def)
  then have "inode_ok demo_si ?s demo_dir" using u unfolding inode_ok_def by (auto simp: demo_dir_slot split: if_splits)
  moreover have "blks_ok ?s" by (simp add: blks_ok_def demo_blocks_def demo_dir_data_def length_enc_inode demo_dir_def demo_ino_def)
  moreover have "slot ?s demo_dir (fslot (k div 16)) \<noteq> 0" if "k < nents demo_dir" for k
    using that by (simp add: nents_def demo_dir_def demo_dir_slot [unfolded demo_dir_def] fslot_def)
  ultimately show "dir_ok demo_si ?s demo_dir" using demo_ok(1) by (simp add: dir_ok_def demo_blocks_def demo_dir_def)
qed (simp add: demo_blocks_def)

lemma demo_entries:
  "ent_inum (demo_dir_blocks i) demo_dir 0 = i" "ent_name (demo_dir_blocks i) demo_dir 0 = [97]"
  "ent_inum (demo_dir_blocks i) demo_dir 1 = 3" "ent_name (demo_dir_blocks i) demo_dir 1 = [98]" "nents demo_dir = 2"
proof -
  let ?s = "demo_dir_blocks i"
  have b: "blks_ok ?s" "10 = slot ?s demo_dir (fslot (0 div 16))" "10 = slot ?s demo_dir (fslot (1 div 16))"
    using dir_okD(3) [OF demo_dir_ok(1)] by (simp_all add: demo_dir_slot fslot_def)
  have e0: "ebytes ?s demo_dir 0 = le_bytes 4 (unat i) @ [97] @ replicate 27 0"
    using entry_in_block(3) [OF b(1,2)] by (simp add: demo_blocks_def demo_dir_data_def del: le_bytes.simps)
  have e1: "ebytes ?s demo_dir 1 = le_bytes 4 (unat (3 :: u32)) @ [98] @ replicate 27 0"
    using entry_in_block(3) [OF b(1,3)] by (simp add: demo_blocks_def demo_dir_data_def min_def del: le_bytes.simps)
  show "ent_inum ?s demo_dir 0 = i" "ent_inum ?s demo_dir 1 = 3" using ent_inum_new [OF e0] ent_inum_new [OF e1] by simp_all
  show "ent_name ?s demo_dir 0 = [97]" "ent_name ?s demo_dir 1 = [98]" unfolding ent_name_def e0 e1 by (simp_all del: le_bytes.simps)
  show "nents demo_dir = 2" by (simp add: nents_def demo_dir_def)
qed

theorem search_dir_correct_witness: "\<exists>s'. search_dir demo_si (demo_dir_blocks 2) demo_dir [98] = Some (3, s', demo_dir)"
proof -
  have l: "[0..<2] = [0, 1 :: nat]" by (simp add: upt_rec)
  have "found (demo_dir_blocks 2) demo_dir [98] 0 = 3" using demo_entries(1-4) [of 2] by (simp add: demo_entries(5) found_def ent_match_def l)
  then show ?thesis using search_dir_correct [of demo_si "demo_dir_blocks 2" demo_dir "[98]"] demo_dir_ok [of 2] by auto
qed

text \<open>Removing a name clears the number of the first entry that has it and nothing else, or reports that there is none.\<close>

theorem free_dirent_removes:
  assumes "dir_ok si s dir" "\<forall>n. answers s n" "0 \<notin> set name"
  shows "\<exists>s'. free_dirent si s dir name = Some (if found s dir name 0 = 0 then ERR_NOTEXIST else ERR_OK, s', dir) \<and> bref s' = bref s \<and> bheld s' = {}
    \<and> others_kept si s dir s' \<and> (\<forall>j < nents dir. ent_name s' dir j = ent_name s dir j
        \<and> ent_inum s' dir j = (if find (ent_match s dir name) [0..<nents dir] = Some j then 0 else ent_inum s dir j))"
proof -
  let ?f = "find (ent_match s dir name) [0..<nents dir]"
  obtain s' where a: "free_dirent si s dir name = Some (if ?f = None then ERR_NOTEXIST else ERR_OK, s', dir)" "refs_same s s'" "fext si s dir s' dir"
      "case ?f of None \<Rightarrow> bdata s' = bdata s | Some j \<Rightarrow> wrote s dir (32 * j) (le_bytes 4 0) s' dir"
    using free_dirent_loop_ok [OF assms before_first [OF assms(1)]] by (auto simp: free_dirent_def)
  have nz: "found s dir name 0 = 0 \<longleftrightarrow> ?f = None"
    using find_Some_conv [of "ent_match s dir name" "[0..<nents dir]"] by (auto simp: found_def ent_match_def word_gt_0 split: option.splits)
  have "ent_name s' dir j = ent_name s dir j \<and> ent_inum s' dir j = (if ?f = Some j then 0 else ent_inum s dir j)" if j: "j < nents dir" for j
  proof (cases ?f)
    case None
    then show ?thesis using a(4) data_cong(1,2) [of s' s] by (simp add: ent_name_def)
  next
    case (Some k)
    have k: "k < 4288" "j < 4288" using find_Some_conv [OF Some] j dir_okD(5) [OF assms(1)] by auto
    have w: "wrote s dir (32 * k) (le_bytes 4 0) s' dir" using a(4) Some by simp
    show ?thesis
    proof (cases "j = k")
      case True
      then have e: "ebytes s' dir j = le_bytes 4 (unat (0 :: u32)) @ drop 4 (ebytes s dir j)" using wrote_ebytes(2) [OF w k(2) _ k(1)] by simp
      then show ?thesis using ent_inum_new [OF e] Some True by (simp add: ent_name_def del: le_bytes.simps)
    next
      case False
      then have "ebytes s' dir j = ebytes s dir j" using wrote_ebytes(1) [OF w k(2) _ k(1)] by simp
      then show ?thesis using Some False by (simp add: ent_name_def ent_inum_def)
    qed
  qed
  then show ?thesis using a(1-3) nz assms(1) by (auto simp: refs_same_def dir_ok_def fext_def)
qed

theorem free_dirent_removes_witness: "\<exists>s'. free_dirent demo_si (demo_dir_blocks 2) demo_dir [98] = Some (ERR_OK, s', demo_dir) \<and> ent_inum s' demo_dir 1 = 0"
proof -
  have l: "[0..<2] = [0, 1 :: nat]" by (simp add: upt_rec)
  have "found (demo_dir_blocks 2) demo_dir [98] 0 = 3" "find (ent_match (demo_dir_blocks 2) demo_dir [98]) [0..<nents demo_dir] = Some 1"
    using demo_entries(1-4) [of 2] by (simp_all add: demo_entries(5) found_def ent_match_def l)
  then show ?thesis using free_dirent_removes [OF demo_dir_ok [of 2], of "[98]"] by (auto simp: demo_entries(5))
qed

text \<open>C20. In a directory without a free entry, and unless the new entry is the last one of a block, a name of at most 27 bytes is added behind the last entry.  It is then found
  under its name, and every other name is found as before.  The call returns; when the block cache has memory, it fails only when the directory has its largest size or the bitmap
  has no free block.  The cases left out are those in which the terminating byte behind a short name, or the cut of a long one, does damage.\<close>

theorem alloc_dirent_found:
  assumes "dir_ok si s dir" "\<forall>n. answers s n" "0 \<notin> set name" "length name \<le> 27" "inum \<noteq> 0" "free_ent s dir 0 = nents dir" "nents dir mod 16 \<noteq> 15"
  shows "\<exists>err s' dir'. alloc_dirent si s dir name inum = Some (err, s', dir') \<and> bref s' = bref s \<and> bheld s' = {}
    \<and> (err = ERR_OK \<longrightarrow> dir_ok si s' dir' \<and> others_kept si s dir s' \<and> (\<forall>nm. 0 \<notin> set nm \<longrightarrow> (\<exists>s1 s2.
          search_dir si s dir nm = Some (found s dir nm 0, s1, dir) \<and>
          search_dir si s' dir' nm = Some (if found s dir nm 0 \<noteq> 0 then found s dir nm 0 else if take 28 nm = name then inum else 0, s2, dir'))))
    \<and> (err \<noteq> ERR_OK \<longrightarrow> err = ERR_NORES \<and> (nents dir = 4288 \<or> no_space si s'))"
proof -
  obtain err s' dir' where a: "alloc_dirent si s dir name inum = Some (err, s', dir')" "refs_same s s'" "dirent_result si s dir name inum (nents dir) err s' dir'"
    using alloc_dirent_ok [OF assms(1-3), of inum] assms(6,7) by auto
  have "bref s' = bref s" "bheld s' = {}" "\<forall>n. answers s' n" using a(2) assms(1,2) by (auto simp: refs_same_def dir_ok_def)
  moreover have "dir_ok si s' dir' \<and> others_kept si s dir s'" if "err = ERR_OK"
    using new_dirent_dir_ok [OF assms(1) _ _ a(2)] a(3) that by (auto simp: dirent_result_def new_dirent_def)
  moreover have "(\<exists>s1 s2. search_dir si s dir nm = Some (found s dir nm 0, s1, dir) \<and>
        search_dir si s' dir' nm = Some (if found s dir nm 0 \<noteq> 0 then found s dir nm 0 else if take 28 nm = name then inum else 0, s2, dir'))"
    if e: "err = ERR_OK" and nm: "0 \<notin> set nm" for nm
  proof -
    have n: "nents dir < 4288" "new_dirent si s dir (nents dir) (dirent_bytes name inum) s' dir'" using a(3) e by (auto simp: dirent_result_def)
    have ok: "dir_ok si s' dir'" by (rule new_dirent_dir_ok [OF assms(1) n(2,1) a(2)])
    obtain s1 where "search_loop si s dir nm (of_nat (32 * 0)) None = Some (found s dir nm 0, s1, dir)"
      using search_loop_ok [OF assms(1,2) nm before_first [OF assms(1)]] by auto
    moreover obtain s2 where "search_loop si s' dir' nm (of_nat (32 * 0)) None = Some (found s' dir' nm 0, s2, dir')"
      using search_loop_ok [OF ok _ nm before_first [OF ok]] calculation a(2) assms(2) by (auto simp: refs_same_def)
    ultimately show ?thesis using ok n(2) found_append [OF n(2,1) assms(3,5)] assms(4) by (simp add: search_dir_def new_dirent_def)
  qed
  ultimately show ?thesis using a(1,3) by (intro exI [of _ err] exI [of _ s'] exI [of _ dir']) (auto simp: dirent_result_def)
qed

theorem alloc_dirent_found_witness:
  "\<exists>err s' dir'. alloc_dirent demo_si (demo_dir_blocks 2) demo_dir [99] 4 = Some (err, s', dir') \<and> (err = ERR_OK \<longrightarrow> (\<exists>s2. search_dir demo_si s' dir' [99] = Some (4, s2, dir')))"
proof -
  have l: "[0..<2] = [0, 1 :: nat]" by (simp add: upt_rec)
  have f: "free_ent (demo_dir_blocks 2) demo_dir 0 = nents demo_dir" using demo_entries(1-4) [of 2] by (simp add: demo_entries(5) free_ent_def l)
  have z: "found (demo_dir_blocks 2) demo_dir [99] 0 = 0" using demo_entries(1-4) [of 2] by (simp add: demo_entries(5) found_def l ent_match_def)
  have "0 \<notin> set [99 :: u8]" "length [99 :: u8] \<le> 27" "(4 :: u32) \<noteq> 0" "nents demo_dir mod 16 \<noteq> 15" by (simp_all add: demo_entries(5))
  from alloc_dirent_found [OF demo_dir_ok this(1-3) f this(4)] obtain err s' dir' where
    "alloc_dirent demo_si (demo_dir_blocks 2) demo_dir [99] 4 = Some (err, s', dir')"
    "err = ERR_OK \<longrightarrow> (\<forall>nm. 0 \<notin> set nm \<longrightarrow> (\<exists>s2. search_dir demo_si s' dir' nm =
       Some (if found (demo_dir_blocks 2) demo_dir nm 0 \<noteq> 0 then found (demo_dir_blocks 2) demo_dir nm 0 else if take 28 nm = [99] then 4 else 0, s2, dir')))"
    by blast
  then show ?thesis using z by (auto dest: spec [of _ "[99]"])
qed

text \<open>C37. A name of 28 bytes or more is entered in the directory but never found again: the entry keeps 27 bytes of it, and the search compares 28.\<close>

theorem long_name_lost:
  assumes "dir_ok si s dir" "\<forall>n. answers s n" "0 \<notin> set name" "28 \<le> length name" "inum \<noteq> 0" "free_ent s dir 0 = nents dir" "found s dir name 0 = 0"
  shows "\<exists>err s' dir'. alloc_dirent si s dir name inum = Some (err, s', dir') \<and>
    (if err = ERR_OK then nents dir' = nents dir + 1 \<and> ent_inum s' dir' (nents dir) = inum \<and> (\<exists>s2. search_dir si s' dir' name = Some (0, s2, dir'))
     else err = ERR_NORES \<and> (nents dir = 4288 \<or> no_space si s'))"
proof -
  obtain err s' dir' where a: "alloc_dirent si s dir name inum = Some (err, s', dir')" "refs_same s s'" "dirent_result si s dir name inum (nents dir) err s' dir'"
    using alloc_dirent_ok [OF assms(1-3), of inum] assms(4,6) by auto
  have "nents dir' = nents dir + 1 \<and> ent_inum s' dir' (nents dir) = inum \<and> (\<exists>s2. search_dir si s' dir' name = Some (0, s2, dir'))" if "err = ERR_OK"
  proof -
    have n: "nents dir < 4288" "new_dirent si s dir (nents dir) (dirent_bytes name inum) s' dir'" using a(3) that by (auto simp: dirent_result_def)
    have ok: "dir_ok si s' dir'" by (rule new_dirent_dir_ok [OF assms(1) n(2,1) a(2)])
    have "length (take 28 name) \<noteq> length (take 27 name)" using assms(4) by simp
    then have "take 28 name \<noteq> take 27 name" by metis
    then have f: "found s' dir' name 0 = 0" using found_append [OF n(2,1) assms(3,5)] assms(7) by simp
    have "unat (of_nat (32 * (nents dir + 1)) :: u64) = 32 * (nents dir + 1)" using n(1) by (simp only: unat_of_nat) simp
    then have "nents dir' = nents dir + 1" using n(2) by (simp add: nents_def new_dirent_def)
    moreover have "ent_inum s' dir' (nents dir) = inum" using ent_inum_new new_dirent_entries(2) [OF n(2,1,1)] .
    ultimately show ?thesis
      using search_loop_ok [OF ok _ assms(3) before_first [OF ok]] f a(2) assms(2) by (auto simp: refs_same_def search_dir_def)
  qed
  then show ?thesis using a(1,3) by (auto simp: dirent_result_def)
qed

theorem long_name_lost_witness:
  "\<exists>err s' dir'. alloc_dirent demo_si (demo_dir_blocks 2) demo_dir (replicate 28 99) 4 = Some (err, s', dir')
     \<and> (err = ERR_OK \<longrightarrow> (\<exists>s2. search_dir demo_si s' dir' (replicate 28 99) = Some (0, s2, dir')))"
proof -
  let ?n = "replicate 28 99 :: u8 list"
  have l: "[0..<2] = [0, 1 :: nat]" by (simp add: upt_rec)
  have f: "free_ent (demo_dir_blocks 2) demo_dir 0 = nents demo_dir" using demo_entries(1-4) [of 2] by (simp add: demo_entries(5) free_ent_def l)
  have z: "found (demo_dir_blocks 2) demo_dir ?n 0 = 0"
    using demo_entries(1-4) [of 2] by (simp add: demo_entries(5) found_def l ent_match_def) (simp add: numeral_eq_Suc)
  have "0 \<notin> set ?n" "28 \<le> length ?n" "(4 :: u32) \<noteq> 0" by simp_all
  from long_name_lost [OF demo_dir_ok [of 2] this f z] show ?thesis by auto
qed

text \<open>C36. Filling a free entry in front of another one of the same block with a name of at most 27 bytes damages that one: the byte that \<open>strncpy\<close> writes behind
  the name clears the low byte of its inode number and no other byte of it.  An entry with a number below 256 disappears from the directory.\<close>

theorem alloc_dirent_clobbers:
  assumes "dir_ok si s dir" "\<forall>n. answers s n" "0 \<notin> set name" "length name \<le> 27" "free_ent s dir 0 = k" "k + 1 < nents dir" "k mod 16 \<noteq> 15"
  shows "\<exists>s' dir'. alloc_dirent si s dir name inum = Some (ERR_OK, s', dir') \<and> nents dir' = nents dir \<and> ent_inum s' dir' k = inum
    \<and> unat (ent_inum s' dir' (k + 1)) = unat (ent_inum s dir (k + 1)) div 256 * 256 \<and> ebytes s' dir' (k + 1) = 0 # tl (ebytes s dir (k + 1))"
proof -
  have k: "k < 4288" "k + 1 < 4288" using assms(6) dir_okD(5) [OF assms(1)] by auto
  obtain err s' dir' where a: "alloc_dirent si s dir name inum = Some (err, s', dir')" "dirent_result si s dir name inum k err s' dir'"
    using alloc_dirent_ok [OF assms(1-3), of inum] assms(5,7) by auto
  then have n: "err = ERR_OK" "new_dirent si s dir k (dirent_bytes name inum) s' dir'" using assms(6) k by (auto simp: dirent_result_def)
  note e = new_dirent_entries(2,3) [OF n(2) k(1) k(1)]
  have z: "ebytes s' dir' (Suc k) = 0 # tl (ebytes s dir (Suc k))" using e(2) assms(4) k by simp
  obtain a0 a1 a2 a3 r where c: "ebytes s dir (Suc k) = a0 # a1 # a2 # a3 # r" by (simp add: ebytes_def upt_conv_Cons)
  have u: "unat a0 < 256" "unat a1 < 256" "unat a2 < 256" "unat a3 < 256"
    using unsigned_less [of a0, where ?'a = nat] unsigned_less [of a1, where ?'a = nat] unsigned_less [of a2, where ?'a = nat] unsigned_less [of a3, where ?'a = nat] by simp_all
  define v where "v = unat a1 + 256 * (unat a2 + 256 * unat a3)"
  have "ent_inum s dir (k + 1) = of_nat (unat a0 + 256 * v)" "ent_inum s' dir' (k + 1) = of_nat (256 * v)"
    by (simp_all add: ent_inum_def dirent_inum_def rd_def z c v_def)
  moreover have "unat a0 + 256 * v < 2 ^ 32" using u by (simp add: v_def)
  ultimately have "unat (ent_inum s dir (k + 1)) = unat a0 + 256 * v" "unat (ent_inum s' dir' (k + 1)) = 256 * v" by (simp_all only: unat_of_nat) simp_all
  then have "unat (ent_inum s' dir' (k + 1)) = unat (ent_inum s dir (k + 1)) div 256 * 256" using u(1) by simp
  moreover have "ent_inum s' dir' k = inum" by (rule ent_inum_new [OF e(1)])
  moreover have "nents dir' = nents dir" using n(2) assms(6) by (simp add: new_dirent_def nents_def)
  ultimately show ?thesis using a(1) n(1) z by auto
qed

theorem alloc_dirent_clobbers_witness:
  "ent_inum (demo_dir_blocks 0) demo_dir 1 = 3 \<and> (\<exists>s' dir'. alloc_dirent demo_si (demo_dir_blocks 0) demo_dir [99] 4 = Some (ERR_OK, s', dir') \<and> ent_inum s' dir' 1 = 0)"
proof -
  have l: "[0..<2] = [0, 1 :: nat]" by (simp add: upt_rec)
  have "free_ent (demo_dir_blocks 0) demo_dir 0 = 0" using demo_entries(1-4) [of 0] by (simp add: demo_entries(5) free_ent_def l)
  then show ?thesis using alloc_dirent_clobbers [of demo_si "demo_dir_blocks 0" demo_dir "[99]" 0 4] demo_dir_ok [of 0] demo_entries(1-4) [of 0]
    by (auto simp: demo_entries(5) unat_eq_zero)
qed

end
