(* ===== verification/Vfs.thy ===== *)
theory Vfs
  imports Sfsdir
begin

text \<open>
  The virtual file system, \<^verbatim>\<open>kernel/fs/fs.c\<close>: path names, the cache of in-memory inodes with their reference counts, and the
  operations on paths.  There is one mounted file system, so the tables of operations are those of \<^verbatim>\<open>sfs.c\<close> and the calls
  resolve to its functions; the cache of inodes, a radix tree in the code, is a map.  \<open>inode_news\<close> are the answers of the
  allocators to come: a pointer to a new inode, or \<open>NULL\<close>, whether its private part can be allocated and whether the tree can
  grow.  A lock that the same call already holds is never released: the call stops.  The calls that open and close a transaction return at
  once, since the journal is disabled.
\<close>

abbreviation (input) MAX_FILENAME_LEN :: nat where "MAX_FILENAME_LEN \<equiv> 64"
abbreviation (input) FS_RDONLY :: u32 where "FS_RDONLY \<equiv> 0"
abbreviation (input) FS_WRONLY :: u32 where "FS_WRONLY \<equiv> 1"
abbreviation (input) FS_RDWR :: u32 where "FS_RDWR \<equiv> 2"
abbreviation (input) FS_CREAT :: u32 where "FS_CREAT \<equiv> 256"
abbreviation (input) slash :: u8 where "slash \<equiv> 47"

section \<open>Flags and paths\<close>

definition validate_flag :: "u32 \<Rightarrow> bool" where
  "validate_flag flags = (let flags = flags AND NOT FS_CREAT in flags = FS_RDONLY \<or> flags = FS_WRONLY \<or> flags = FS_RDWR)"

text \<open>A path is the string behind the pointer.  The result is the rest of the path and the name that was copied.\<close>

definition path_next_element :: "u8 list \<Rightarrow> u8 list \<times> u8 list" where
  "path_next_element path =
     (let path = dropWhile (\<lambda>c. c = slash) path in
      if path = [] then (path, [])
      else let s = takeWhile (\<lambda>c. c \<noteq> slash) path;
               path = dropWhile (\<lambda>c. c \<noteq> slash) path;
               len = min (length s) (MAX_FILENAME_LEN - 1)
           in (dropWhile (\<lambda>c. c = slash) path, take len s))"

lemma dropWhile_hd_shorter: "xs \<noteq> [] \<Longrightarrow> P (hd xs) \<Longrightarrow> length (dropWhile P xs) < length xs"
  by (cases xs) (auto simp: le_imp_less_Suc length_dropWhile_le)

lemma path_next_shorter: "fst (path_next_element path) \<noteq> [] \<Longrightarrow> length (fst (path_next_element path)) < length path"
proof -
  assume a: "fst (path_next_element path) \<noteq> []"
  define p where "p = dropWhile (\<lambda>c. c = slash) path"
  have n: "p \<noteq> []" "fst (path_next_element path) = dropWhile (\<lambda>c. c = slash) (dropWhile (\<lambda>c. c \<noteq> slash) p)"
    using a by (auto simp: path_next_element_def Let_def p_def split: if_splits simp del: dropWhile_eq_Nil_conv)
  then have "length (dropWhile (\<lambda>c. c \<noteq> slash) p) < length p"
    using hd_dropWhile [of "\<lambda>c. c = slash" path] dropWhile_hd_shorter [of p "\<lambda>c. c \<noteq> slash"] by (simp add: p_def)
  moreover have "length p \<le> length path" unfolding p_def by (rule length_dropWhile_le)
  moreover have "length (fst (path_next_element path)) \<le> length (dropWhile (\<lambda>c. c \<noteq> slash) p)" unfolding n(2) by (rule length_dropWhile_le)
  ultimately show ?thesis by linarith
qed

section \<open>In-memory inodes\<close>

record fs_sys =
  blks :: blocks
  sbi :: sfs_sb_info
  icache :: "u32 \<Rightarrow> ptr option"
  inodes :: "ptr \<Rightarrow> inode option"
  cleanup_inodes :: "ptr list"
  inode_news :: "(ptr \<times> bool \<times> bool) list"

definition set_inode :: "ptr \<Rightarrow> inode \<Rightarrow> fs_sys \<Rightarrow> fs_sys" where
  "set_inode p ino s = s\<lparr>inodes := (inodes s)(p := Some ino)\<rparr>"

definition lock_inode :: "fs_sys \<Rightarrow> ptr \<Rightarrow> fs_sys exec" where
  "lock_inode s p = do { ino \<leftarrow> inodes s p; kassert (\<not> i_locked ino); Some (set_inode p (ino\<lparr>i_locked := True\<rparr>) s) }"

definition unlock_inode :: "fs_sys \<Rightarrow> ptr \<Rightarrow> fs_sys exec" where
  "unlock_inode s p = do { ino \<leftarrow> inodes s p; kassert (i_locked ino); Some (set_inode p (ino\<lparr>i_locked := False\<rparr>) s) }"

definition fs_push_inode_cleanup :: "fs_sys \<Rightarrow> ptr \<Rightarrow> fs_sys" where
  "fs_push_inode_cleanup s p = s\<lparr>cleanup_inodes := cleanup_inodes s @ [p]\<rparr>"

definition fs_alloc_inode :: inode where
  "fs_alloc_inode = fs_set_inode_dirty (fs_set_inode_valid
     \<lparr>i_inum = 0, i_ref = 1, i_nlink = 0, i_ftype = 0, i_mode = 0, i_size = 0, i_state = 0, i_locked = False, i_addrs = []\<rparr> False) False"

definition fs_free_inode :: "fs_sys \<Rightarrow> ptr \<Rightarrow> fs_sys exec" where
  "fs_free_inode s p = do { ino \<leftarrow> inodes s p; kassert (i_ref ino = 0); Some (s\<lparr>inodes := (inodes s)(p := None)\<rparr>) }"

text \<open>The new inode, with whether the tree can grow.\<close>

definition sfs_alloc_inode :: "fs_sys \<Rightarrow> (ptr \<times> bool \<times> fs_sys) exec" where
  "sfs_alloc_inode s =
     (case inode_news s of
        [] \<Rightarrow> Some (NULL, False, s)
      | (p, info, tree) # news \<Rightarrow>
          let s = s\<lparr>inode_news := news\<rparr> in
          if p = NULL then Some (NULL, False, s)
          else let s = set_inode p fs_alloc_inode s in
            if \<not> info then do { s \<leftarrow> fs_free_inode s p; Some (NULL, False, s) }
            else Some (p, tree, set_inode p (fs_alloc_inode\<lparr>i_addrs := replicate (SFS_NDIRECT + SFS_NINDIRECT) 0\<rparr>) s))"

definition sfs_free_inode :: "fs_sys \<Rightarrow> ptr \<Rightarrow> fs_sys exec" where
  "sfs_free_inode s p = fs_free_inode s p"

definition fs_release_inode :: "fs_sys \<Rightarrow> ptr \<Rightarrow> fs_sys exec" where
  "fs_release_inode s p = do {
     s \<leftarrow> lock_inode s p;
     ino \<leftarrow> inodes s p;
     kassert (i_inum ino > 0);
     kassert (i_ref ino > 0);
     let ino = ino\<lparr>i_ref := i_ref ino - 1\<rparr>;
     let s = set_inode p ino s;
     if i_ref ino = 0 then
       if fs_is_inode_valid ino \<and> (i_nlink ino = 0 \<or> fs_is_inode_dirty ino) then
         unlock_inode (fs_push_inode_cleanup (set_inode p (ino\<lparr>i_ref := i_ref ino + 1\<rparr>) s) p) p
       else do {
         kassert (icache s (i_inum ino) = Some p);
         sfs_free_inode (s\<lparr>icache := (icache s)(i_inum ino := None)\<rparr>) p }
     else unlock_inode s p }"

text \<open>Running a file system function on an inode in memory, whose lock the caller holds.\<close>

definition with_inode :: "fs_sys \<Rightarrow> ptr \<Rightarrow> (blocks \<Rightarrow> inode \<Rightarrow> ('a \<times> blocks \<times> inode) exec) \<Rightarrow> ('a \<times> fs_sys) exec" where
  "with_inode s p f = do {
     ino \<leftarrow> inodes s p;
     (r, b, ino) \<leftarrow> f (blks s) ino;
     Some (r, set_inode p ino (s\<lparr>blks := b\<rparr>)) }"

text \<open>The part of \<open>fs_get_inode\<close> under the lock of the superblock: a reference to the inode in the cache, or to a new one.\<close>

definition icache_get :: "fs_sys \<Rightarrow> u32 \<Rightarrow> (err_t \<times> ptr \<times> fs_sys) exec" where
  "icache_get s inum =
     (case icache s inum of
        None \<Rightarrow> do {
          (res, tree, s) \<leftarrow> sfs_alloc_inode s;
          if res = NULL then Some (ERR_NOMEM, NULL, s)
          else do {
            ino \<leftarrow> inodes s res;
            let s = set_inode res (ino\<lparr>i_inum := inum\<rparr>) s;
            if \<not> tree then do { s \<leftarrow> sfs_free_inode s res; Some (ERR_NOMEM, NULL, s) }
            else Some (ERR_OK, res, s\<lparr>icache := (icache s)(inum := Some res)\<rparr>) } }
      | Some res \<Rightarrow> do {
          ino \<leftarrow> inodes s res;
          Some (ERR_OK, res, set_inode res (ino\<lparr>i_ref := i_ref ino + 1\<rparr>) s) })"

text \<open>The rest of it, under the lock of the inode.\<close>

definition inode_fill :: "fs_sys \<Rightarrow> ptr \<Rightarrow> (err_t \<times> ptr \<times> fs_sys) exec" where
  "inode_fill s res = do {
     s \<leftarrow> lock_inode s res;
     ino \<leftarrow> inodes s res;
     if \<not> fs_is_inode_valid ino then do {
       (err, s) \<leftarrow> with_inode s res sfs_read_inode;
       s \<leftarrow> unlock_inode s res;
       if err \<noteq> ERR_OK then do { s \<leftarrow> fs_release_inode s res; Some (err, NULL, s) }
       else Some (ERR_OK, res, s) }
     else do { s \<leftarrow> unlock_inode s res; Some (ERR_OK, res, s) } }"

definition fs_get_inode :: "fs_sys \<Rightarrow> u32 \<Rightarrow> (err_t \<times> ptr \<times> fs_sys) exec" where
  "fs_get_inode s inum = do {
     (err, res, s) \<leftarrow> icache_get s inum;
     if err \<noteq> ERR_OK then Some (err, NULL, s) else inode_fill s res }"

definition sfs_lookup :: "fs_sys \<Rightarrow> ptr \<Rightarrow> u8 list \<Rightarrow> (err_t \<times> ptr \<times> fs_sys) exec" where
  "sfs_lookup s dir name = do {
     (inum, s) \<leftarrow> with_inode s dir (\<lambda>b ino. search_dir (sbi s) b ino name);
     if inum = 0 then Some (ERR_NOTEXIST, NULL, s) else fs_get_inode s inum }"

section \<open>Path lookup\<close>

text \<open>The loop of the lookup from the directory \<open>cur\<close>; the result is the parent and the leaf name.\<close>

function path_walk_loop :: "fs_sys \<Rightarrow> ptr \<Rightarrow> u8 list \<Rightarrow> (err_t \<times> ptr \<times> u8 list \<times> fs_sys) exec" where
  "path_walk_loop s cur path = do {
     s \<leftarrow> lock_inode s cur;
     ino \<leftarrow> inodes s cur;
     if i_ftype ino \<noteq> FTYPE_DIR then do {
       s \<leftarrow> unlock_inode s cur;
       s \<leftarrow> fs_release_inode s cur;
       Some (ERR_FTYPE, NULL, [], s) }
     else if fst (path_next_element path) = [] then do {
       s \<leftarrow> unlock_inode s cur;
       Some (ERR_OK, cur, snd (path_next_element path), s) }
     else do {
       (err, next, s) \<leftarrow> sfs_lookup s cur (snd (path_next_element path));
       s \<leftarrow> unlock_inode s cur;
       s \<leftarrow> fs_release_inode s cur;
       if err \<noteq> ERR_OK then Some (err, NULL, [], s)
       else path_walk_loop s next (fst (path_next_element path)) } }"
  by pat_completeness auto
termination by (relation "measure (\<lambda>(s, cur, path). length path)") (auto simp: path_next_shorter)

declare path_walk_loop.simps [simp del]

text \<open>The lookup starts from the root, or from the inode of the current directory for a relative path.\<close>

definition fs_find_parent_inode :: "fs_sys \<Rightarrow> ptr option \<Rightarrow> u8 list \<Rightarrow> (err_t \<times> ptr \<times> u8 list \<times> fs_sys) exec" where
  "fs_find_parent_inode s cwd path = do {
     inum \<leftarrow> (case cwd of
         Some c \<Rightarrow> if path \<noteq> [] \<and> hd path = slash then Some SFS_ROOT_INUM else do { ino \<leftarrow> inodes s c; Some (i_inum ino) }
       | None \<Rightarrow> Some SFS_ROOT_INUM);
     kassert (inum > 0);
     (err, cur, s) \<leftarrow> fs_get_inode s inum;
     if err \<noteq> ERR_OK then Some (err, NULL, [], s) else path_walk_loop s cur path }"

definition fs_find_inode :: "fs_sys \<Rightarrow> ptr option \<Rightarrow> u8 list \<Rightarrow> (err_t \<times> ptr \<times> fs_sys) exec" where
  "fs_find_inode s cwd path = do {
     (err, parent, name, s) \<leftarrow> fs_find_parent_inode s cwd path;
     if err \<noteq> ERR_OK then Some (err, NULL, s)
     else if name = [] then Some (ERR_OK, parent, s)
     else do {
       (err, inode, s) \<leftarrow> sfs_lookup s parent name;
       s \<leftarrow> fs_release_inode s parent;
       Some (err, inode, s) } }"

section \<open>Unlinking\<close>

definition unlink_inode_in_dir :: "fs_sys \<Rightarrow> ptr \<Rightarrow> u32 \<Rightarrow> u8 list \<Rightarrow> (err_t \<times> fs_sys) exec" where
  "unlink_inode_in_dir s dir ftype name = do {
     (err, inode, s) \<leftarrow> sfs_lookup s dir name;
     if err \<noteq> ERR_OK then Some (err, s)
     else do {
       ino \<leftarrow> inodes s inode;
       let ib = inum_to_blk (i_inum ino);
       let (ok, b) = pin_blk (blks s) ib;
       let s = s\<lparr>blks := b\<rparr>;
       if \<not> ok then Some (ERR_NOMEM, s)
       else do {
         s \<leftarrow> lock_inode s inode;
         ino \<leftarrow> inodes s inode;
         kassert (i_inum ino > 0);
         kassert (i_nlink ino > 0);
         kassert (fs_is_inode_valid ino);
         (err, s) \<leftarrow>
           (if i_ftype ino \<noteq> ftype then Some (ERR_FTYPE, s)
            else do {
              (err, s) \<leftarrow>
                (if ftype = FTYPE_DIR then do {
                   ((err, empty), s) \<leftarrow> with_inode s inode (\<lambda>b ino. do { (err, empty, b, ino) \<leftarrow> is_dir_empty (sbi s) b ino; Some ((err, empty), b, ino) });
                   if err \<noteq> ERR_OK then Some (err, s)
                   else if \<not> empty then Some (ERR_NOTEMPTY, s)
                   else Some (ERR_OK, s) }
                 else Some (ERR_OK, s));
              if err \<noteq> ERR_OK then Some (err, s)
              else do {
                (err, s) \<leftarrow> with_inode s dir (\<lambda>b d. free_dirent (sbi s) b d name);
                if err \<noteq> ERR_OK then do { kassert (err \<noteq> ERR_NOTEXIST); Some (err, s) }
                else do {
                  (_, s) \<leftarrow> with_inode s inode (\<lambda>b ino. sfs_write_inode b (fs_set_inode_dirty (ino\<lparr>i_nlink := i_nlink ino - 1\<rparr>) True));
                  Some (ERR_OK, s) } } });
         s \<leftarrow> unlock_inode s inode;
         b \<leftarrow> unpin_blk (blks s) ib;
         s \<leftarrow> fs_release_inode (s\<lparr>blks := b\<rparr>) inode;
         Some (err, s) } } }"

definition sfs_rmdir :: "fs_sys \<Rightarrow> ptr \<Rightarrow> u8 list \<Rightarrow> (err_t \<times> fs_sys) exec" where
  "sfs_rmdir s dir name = unlink_inode_in_dir s dir FTYPE_DIR name"

definition sfs_unlink :: "fs_sys \<Rightarrow> ptr \<Rightarrow> u8 list \<Rightarrow> (err_t \<times> fs_sys) exec" where
  "sfs_unlink s dir name = unlink_inode_in_dir s dir FTYPE_FILE name"

section \<open>Operations on paths\<close>

definition fs_link :: "fs_sys \<Rightarrow> ptr option \<Rightarrow> u8 list \<Rightarrow> u8 list \<Rightarrow> (err_t \<times> fs_sys) exec" where
  "fs_link s cwd oldpath newpath = do {
     (err, src, s) \<leftarrow> fs_find_inode s cwd oldpath;
     if err \<noteq> ERR_OK then Some (err, s)
     else do {
       si \<leftarrow> inodes s src;
       if i_ftype si \<noteq> FTYPE_FILE then do { s \<leftarrow> fs_release_inode s src; Some (ERR_FTYPE, s) }
       else do {
         (err, dir, name, s) \<leftarrow> fs_find_parent_inode s cwd newpath;
         if err \<noteq> ERR_OK then do { s \<leftarrow> fs_release_inode s src; Some (err, s) }
         else if name = [] then do {
           s \<leftarrow> fs_release_inode s dir;
           s \<leftarrow> fs_release_inode s src;
           Some (ERR_EXIST, s) }
         else do {
           s \<leftarrow> lock_inode s src;
           s \<leftarrow> lock_inode s dir;
           di \<leftarrow> inodes s dir;
           si \<leftarrow> inodes s src;
           (err, b, di, si) \<leftarrow> sfs_link (sbi s) (blks s) di si name;
           let s = set_inode src si (set_inode dir di (s\<lparr>blks := b\<rparr>));
           s \<leftarrow> unlock_inode s dir;
           s \<leftarrow> unlock_inode s src;
           s \<leftarrow> fs_release_inode s dir;
           s \<leftarrow> fs_release_inode s src;
           Some (err, s) } } } }"

definition fs_unlink :: "fs_sys \<Rightarrow> ptr option \<Rightarrow> u8 list \<Rightarrow> (err_t \<times> fs_sys) exec" where
  "fs_unlink s cwd pathname = do {
     (err, dir, name, s) \<leftarrow> fs_find_parent_inode s cwd pathname;
     if err \<noteq> ERR_OK then Some (err, s)
     else if name = [] then do { s \<leftarrow> fs_release_inode s dir; Some (ERR_FTYPE, s) }
     else do {
       s \<leftarrow> lock_inode s dir;
       (err, s) \<leftarrow> sfs_unlink s dir name;
       s \<leftarrow> unlock_inode s dir;
       s \<leftarrow> fs_release_inode s dir;
       Some (err, s) } }"

abbreviation (input) FMODE_R :: u32 where "FMODE_R \<equiv> 4"
abbreviation (input) FMODE_X :: u32 where "FMODE_X \<equiv> 1"

definition fs_mkdir :: "fs_sys \<Rightarrow> ptr option \<Rightarrow> u8 list \<Rightarrow> (err_t \<times> fs_sys) exec" where
  "fs_mkdir s cwd pathname = do {
     (err, dir, name, s) \<leftarrow> fs_find_parent_inode s cwd pathname;
     if err \<noteq> ERR_OK then Some (err, s)
     else if name = [] then do { s \<leftarrow> fs_release_inode s dir; Some (ERR_EXIST, s) }
     else do {
       s \<leftarrow> lock_inode s dir;
       (err, s) \<leftarrow> with_inode s dir (\<lambda>b d. sfs_mkdir (sbi s) b d name (FMODE_R OR FMODE_X));
       s \<leftarrow> unlock_inode s dir;
       s \<leftarrow> fs_release_inode s dir;
       Some (err, s) } }"

definition fs_rmdir :: "fs_sys \<Rightarrow> ptr option \<Rightarrow> u8 list \<Rightarrow> (err_t \<times> fs_sys) exec" where
  "fs_rmdir s cwd pathname = do {
     (err, dir, name, s) \<leftarrow> fs_find_parent_inode s cwd pathname;
     if err \<noteq> ERR_OK then Some (err, s)
     else if name = [] then do { s \<leftarrow> fs_release_inode s dir; Some (ERR_NOTEMPTY, s) }
     else do {
       s \<leftarrow> lock_inode s dir;
       (err, s) \<leftarrow> sfs_rmdir s dir name;
       s \<leftarrow> unlock_inode s dir;
       s \<leftarrow> fs_release_inode s dir;
       Some (err, s) } }"

section \<open>The cleanup thread\<close>

text \<open>The loops that try again until there is no error.\<close>

partial_function (option) delete_retry :: "fs_sys \<Rightarrow> ptr \<Rightarrow> fs_sys exec" where
  "delete_retry s p = do {
     (err, s) \<leftarrow> with_inode s p (sfs_delete_inode (sbi s));
     if err \<noteq> ERR_OK then delete_retry s p else Some s }"

partial_function (option) write_retry :: "fs_sys \<Rightarrow> ptr \<Rightarrow> fs_sys exec" where
  "write_retry s p = do {
     (err, s) \<leftarrow> with_inode s p sfs_write_inode;
     if err \<noteq> ERR_OK then write_retry s p else Some s }"

text \<open>One turn of the thread; with no inode to clean up it waits.\<close>

definition fs_inode_cleanup_thread :: "fs_sys \<Rightarrow> fs_sys exec" where
  "fs_inode_cleanup_thread s =
     (case cleanup_inodes s of
        [] \<Rightarrow> Some s
      | p # rest \<Rightarrow> do {
          let s = s\<lparr>cleanup_inodes := rest\<rparr>;
          kassert (p \<noteq> NULL);
          s \<leftarrow> lock_inode s p;
          ino \<leftarrow> inodes s p;
          s \<leftarrow> (if i_nlink ino = 0 then delete_retry s p
                else do { kassert (fs_is_inode_dirty ino); write_retry s p });
          s \<leftarrow> unlock_inode s p;
          fs_release_inode s p })"

section \<open>The cache of inodes\<close>

text \<open>\<open>H\<close> has the references that are held, once for each holder, and \<open>L\<close> the inodes whose lock is held.  The cleanup list holds a
  reference for each of its elements.\<close>

definition icache_ok :: "ptr set \<Rightarrow> ptr multiset \<Rightarrow> fs_sys \<Rightarrow> bool" where
  "icache_ok L H s \<longleftrightarrow>
     (\<forall>inum p. icache s inum = Some p \<longrightarrow> (\<exists>ino. inodes s p = Some ino \<and> i_inum ino = inum))
     \<and> (\<forall>p ino. inodes s p = Some ino \<longrightarrow> p \<noteq> NULL \<and> i_inum ino \<noteq> 0 \<and> icache s (i_inum ino) = Some p \<and> (i_locked ino \<longleftrightarrow> p \<in> L)
          \<and> 0 < i_ref ino \<and> unat (i_ref ino) = count H p + count (mset (cleanup_inodes s)) p)
     \<and> (\<forall>p. inodes s p = None \<longrightarrow> p \<notin># H + mset (cleanup_inodes s))"

text \<open>An inode in memory that is valid has the fields of the disk inode; one that is not valid is not dirty.\<close>

definition agrees :: "blocks \<Rightarrow> inode \<Rightarrow> bool" where
  "agrees b ino \<longleftrightarrow> (if fs_is_inode_valid ino then dec_inode (bdata b (itab ino)) (inum_to_ofs (i_inum ino)) ino = ino else \<not> fs_is_inode_dirty ino)"

definition inodes_agree :: "fs_sys \<Rightarrow> bool" where
  "inodes_agree s \<longleftrightarrow> (\<forall>p ino. inodes s p = Some ino \<longrightarrow> agrees (blks s) ino)"

text \<open>The allocators answer with fresh inodes, or fail before the inode exists.\<close>

definition news_ok :: "fs_sys \<Rightarrow> bool" where
  "news_ok s \<longleftrightarrow> distinct (filter (\<lambda>p. p \<noteq> NULL) (map fst (inode_news s)))
     \<and> (\<forall>(p, info, tree) \<in> set (inode_news s). p \<noteq> NULL \<longrightarrow> info \<and> tree \<and> inodes s p = None)"

lemma icache_okD:
  assumes "icache_ok L H s" "inodes s p = Some ino"
  shows "p \<noteq> NULL" "i_inum ino \<noteq> 0" "icache s (i_inum ino) = Some p" "i_locked ino \<longleftrightarrow> p \<in> L" "0 < i_ref ino"
    "unat (i_ref ino) = count H p + count (mset (cleanup_inodes s)) p"
  using assms unfolding icache_ok_def by blast+

lemma icache_ok_cached: "icache_ok L H s \<Longrightarrow> icache s inum = Some p \<Longrightarrow> \<exists>ino. inodes s p = Some ino \<and> i_inum ino = inum"
  unfolding icache_ok_def by blast

lemma icache_ok_held: "icache_ok L H s \<Longrightarrow> p \<in># H \<Longrightarrow> \<exists>ino. inodes s p = Some ino"
  unfolding icache_ok_def by (cases "inodes s p") auto

lemma inodes_inj: "icache_ok L H s \<Longrightarrow> inodes s p = Some ino \<Longrightarrow> inodes s q = Some ino' \<Longrightarrow> i_inum ino = i_inum ino' \<Longrightarrow> p = q"
  using icache_okD(3) by (metis option.inject)

text \<open>Replacing an inode by one that has the same number.\<close>

lemma icache_ok_set:
  assumes "icache_ok L H s" "inodes s p = Some ino" "i_inum ino' = i_inum ino" "0 < i_ref ino'"
    "unat (i_ref ino') = count H' p + count (mset (cleanup_inodes s)) p" "\<And>q. q \<noteq> p \<Longrightarrow> count H' q = count H q"
    "i_locked ino' \<longleftrightarrow> p \<in> L'" "\<And>q. q \<noteq> p \<Longrightarrow> q \<in> L' \<longleftrightarrow> q \<in> L"
  shows "icache_ok L' H' (set_inode p ino' s)"
proof -
  have h: "q \<in># H' \<longleftrightarrow> q \<in># H" if "q \<noteq> p" for q using assms(6) [OF that] by (metis count_greater_zero_iff)
  have "\<exists>ino1. inodes (set_inode p ino' s) q = Some ino1 \<and> i_inum ino1 = inum" if "icache s inum = Some q" for inum q
    using icache_ok_cached [OF assms(1) that] assms(2,3) by (auto simp: set_inode_def)
  then show ?thesis using assms(1,2-8) h unfolding icache_ok_def set_inode_def by auto
qed

lemma set_inode_simps [simp]:
  "inodes (set_inode p ino s) q = (if q = p then Some ino else inodes s q)" "icache (set_inode p ino s) = icache s"
  "blks (set_inode p ino s) = blks s" "sbi (set_inode p ino s) = sbi s" "cleanup_inodes (set_inode p ino s) = cleanup_inodes s"
  "inode_news (set_inode p ino s) = inode_news s" "set_inode p ino (set_inode p ino' s) = set_inode p ino s"
  by (simp_all add: set_inode_def)

lemma set_inode_same: "inodes s p = Some ino \<Longrightarrow> set_inode p ino s = s"
  by (simp add: set_inode_def fun_upd_idem)

lemma lock_inode_eq: "inodes s p = Some ino \<Longrightarrow> \<not> i_locked ino \<Longrightarrow> lock_inode s p = Some (set_inode p (ino\<lparr>i_locked := True\<rparr>) s)"
  by (simp add: lock_inode_def)

lemma unlock_inode_eq: "inodes s p = Some ino \<Longrightarrow> i_locked ino \<Longrightarrow> unlock_inode s p = Some (set_inode p (ino\<lparr>i_locked := False\<rparr>) s)"
  by (simp add: unlock_inode_def)

lemma state_upd [simp]:
  "fs_is_inode_valid (ino\<lparr>i_locked := l\<rparr>) = fs_is_inode_valid ino" "fs_is_inode_dirty (ino\<lparr>i_locked := l\<rparr>) = fs_is_inode_dirty ino"
  "fs_is_inode_valid (ino\<lparr>i_ref := r\<rparr>) = fs_is_inode_valid ino" "fs_is_inode_dirty (ino\<lparr>i_ref := r\<rparr>) = fs_is_inode_dirty ino"
  "agrees b (ino\<lparr>i_locked := l\<rparr>) = agrees b ino" "agrees b (ino\<lparr>i_ref := r\<rparr>) = agrees b ino"
  by (cases ino; simp add: fs_is_inode_valid_def fs_is_inode_dirty_def agrees_def dec_inode_def)+

lemma inode_upd_same: "\<not> i_locked ino \<Longrightarrow> ino\<lparr>i_locked := False\<rparr> = ino"
  by simp

text \<open>Taking an inode that nobody else holds out of the cache.\<close>

lemma icache_ok_del:
  assumes "icache_ok L H s" "inodes s p = Some ino" "count H p = 1" "p \<notin> set (cleanup_inodes s)"
  shows "icache_ok L (H - {#p#}) (s\<lparr>icache := (icache s)(i_inum ino := None), inodes := (inodes s)(p := None)\<rparr>)" (is "icache_ok L ?H ?s")
proof -
  have "\<exists>ino1. inodes ?s q = Some ino1 \<and> i_inum ino1 = inum" if "icache ?s inum = Some q" for inum q
    using icache_ok_cached [OF assms(1), of inum q] assms(2) that by (auto split: if_splits)
  moreover have "icache ?s (i_inum ino1) = Some q" if "inodes ?s q = Some ino1" for q ino1
    using inodes_inj [OF assms(1) assms(2), of q ino1] icache_okD(3) [OF assms(1), of q ino1] that by (auto split: if_splits)
  moreover have "q \<notin># H - {#p#} + mset (cleanup_inodes s)" if "inodes ?s q = None" for q
    using assms(1,3,4) that unfolding icache_ok_def by (cases "q = p") (auto simp: in_diff_count)
  ultimately show ?thesis using icache_okD [OF assms(1)] unfolding icache_ok_def by auto
qed

text \<open>Releasing a reference.\<close>

lemma fs_release_inode_eq:
  assumes "inodes s p = Some ino" "\<not> i_locked ino" "i_inum ino > 0" "i_ref ino > 0" "icache s (i_inum ino) = Some p"
  shows "fs_release_inode s p = Some
    (if i_ref ino = 1 then
       if fs_is_inode_valid ino \<and> (i_nlink ino = 0 \<or> fs_is_inode_dirty ino) then s\<lparr>cleanup_inodes := cleanup_inodes s @ [p]\<rparr>
       else s\<lparr>icache := (icache s)(i_inum ino := None), inodes := (inodes s)(p := None)\<rparr>
     else set_inode p (ino\<lparr>i_ref := i_ref ino - 1\<rparr>) s)"
proof -
  define r where "r = i_ref ino - 1"
  have r: "r = 0 \<longleftrightarrow> i_ref ino = 1" "r + 1 = i_ref ino" by (auto simp: r_def)
  have l: "ino\<lparr>i_ref := x, i_locked := False\<rparr> = ino\<lparr>i_ref := x\<rparr>" for x using assms(2) by (cases ino) simp
  have l0: "ino\<lparr>i_locked := False\<rparr> = ino" using assms(2) by (cases ino) simp
  have one: "ino\<lparr>i_ref := 1\<rparr> = ino" if "i_ref ino = 1" using that by (cases ino) simp
  have s: "s\<lparr>cleanup_inodes := c, inodes := (inodes s)(p \<mapsto> ino)\<rparr> = s\<lparr>cleanup_inodes := c\<rparr>" for c
    using assms(1) by (simp add: fun_upd_idem)
  show ?thesis
  proof (cases "i_ref ino = 1")
    case True
    then show ?thesis using assms r
      by (auto simp: l l0 one s fs_release_inode_def lock_inode_eq Let_def r_def [symmetric] unlock_inode_def fs_push_inode_cleanup_def sfs_free_inode_def fs_free_inode_def set_inode_def)
  next
    case False
    then show ?thesis using assms r
      by (simp add: l fs_release_inode_def lock_inode_eq Let_def r_def [symmetric] unlock_inode_def set_inode_def)
  qed
qed

text \<open>What a call on the cache may change of the rest of the system.\<close>

definition cache_step :: "fs_sys \<Rightarrow> fs_sys \<Rightarrow> bool" where
  "cache_step s s' \<longleftrightarrow> bdata (blks s') = bdata (blks s) \<and> refs_same (blks s) (blks s') \<and> sbi s' = sbi s \<and> inodes_agree s' \<and> news_ok s'"

lemma cache_step_trans: "cache_step s s' \<Longrightarrow> cache_step s' s'' \<Longrightarrow> cache_step s s''"
  unfolding cache_step_def using refs_same_trans by auto

lemma release_ok:
  assumes "icache_ok L H s" "p \<in># H" "p \<notin> L" "inodes_agree s" "news_ok s"
  shows "\<exists>s'. fs_release_inode s p = Some s' \<and> icache_ok L (H - {#p#}) s' \<and> cache_step s s' \<and> blks s' = blks s \<and> inode_news s' = inode_news s
    \<and> length (cleanup_inodes s') \<le> length (cleanup_inodes s) + 1 \<and> (\<forall>q. q \<noteq> p \<longrightarrow> inodes s' q = inodes s q)
    \<and> (\<forall>ino'. inodes s' p = Some ino' \<longrightarrow> (\<exists>ino. inodes s p = Some ino \<and> i_inum ino' = i_inum ino \<and> fs_is_inode_valid ino' = fs_is_inode_valid ino))"
proof -
  obtain ino where i: "inodes s p = Some ino" using icache_ok_held [OF assms(1,2)] by blast
  note c = icache_okD [OF assms(1) i]
  have e: "fs_release_inode s p = Some
    (if i_ref ino = 1 then
       if fs_is_inode_valid ino \<and> (i_nlink ino = 0 \<or> fs_is_inode_dirty ino) then s\<lparr>cleanup_inodes := cleanup_inodes s @ [p]\<rparr>
       else s\<lparr>icache := (icache s)(i_inum ino := None), inodes := (inodes s)(p := None)\<rparr>
     else set_inode p (ino\<lparr>i_ref := i_ref ino - 1\<rparr>) s)" (is "_ = Some (if ?one then if ?c then ?s1 else ?s2 else ?s3)")
    by (rule fs_release_inode_eq [OF i]) (use c(2-5) assms(3) in \<open>simp_all add: word_gt_0\<close>)
  have h: "0 < count H p" using assms(2) by simp
  show ?thesis
  proof (cases ?one)
    case True
    then have "1 = count H p + count (mset (cleanup_inodes s)) p" using c(6) by simp
    then have n: "count H p = 1" "count (mset (cleanup_inodes s)) p = 0" using h by linarith+
    then have m: "p \<notin> set (cleanup_inodes s)" by (metis count_eq_zero_iff set_mset_mset)
    show ?thesis
    proof (cases ?c)
      case t: True
      have "icache_ok L (H - {#p#}) ?s1" using assms(1,2) unfolding icache_ok_def by (auto simp: in_diff_count)
      then show ?thesis using e True t assms(4,5) by (simp add: cache_step_def inodes_agree_def news_ok_def)
    next
      case f: False
      have "icache_ok L (H - {#p#}) ?s2" by (rule icache_ok_del [OF assms(1) i n(1) m])
      then show ?thesis using e True f assms(4,5) by (auto simp: cache_step_def inodes_agree_def news_ok_def)
    qed
  next
    case False
    then have r: "i_ref ino \<noteq> 1" "0 < i_ref ino" using c(5) by auto
    then have "unat (i_ref ino - 1) = unat (i_ref ino) - 1" "0 < i_ref ino - 1" by (auto simp: unat_minus_one word_gt_0)
    then have "icache_ok L (H - {#p#}) ?s3" using c h by (intro icache_ok_set [OF assms(1) i]) auto
    then show ?thesis using e False assms(4,5) i by (fastforce simp: cache_step_def inodes_agree_def news_ok_def)
  qed
qed

text \<open>Reading an inode from the disk.\<close>

lemma read_inode_ok:
  assumes "i_inum ino \<noteq> 0" "\<not> fs_is_inode_dirty ino" "itab ino \<notin> bheld b"
  shows "\<exists>err b' ino'. sfs_read_inode b ino = Some (err, b', ino') \<and> bdata b' = bdata b \<and> refs_same b b'
    \<and> (err = ERR_OK \<and> ino' = fs_set_inode_valid (dec_inode (bdata b (itab ino)) (inum_to_ofs (i_inum ino)) ino) True
       \<or> err = ERR_NOMEM \<and> ino' = ino \<and> (\<exists>n. \<not> answers b n))"
  using assms(3)
proof (cases rule: get_blk_cases)
  case (no as)
  then show ?thesis using assms by (auto simp: sfs_read_inode_def Let_def refs_same_def)
next
  case (yes as)
  then show ?thesis using assms by (auto simp: sfs_read_inode_def Let_def refs_same_def release_blk_def unpin_blk_def)
qed

lemma dec_inode_simps [simp]:
  "i_inum (dec_inode d ofs ino) = i_inum ino" "i_ref (dec_inode d ofs ino) = i_ref ino" "i_locked (dec_inode d ofs ino) = i_locked ino"
  "i_state (dec_inode d ofs ino) = i_state ino"
  by (simp_all add: dec_inode_def)

lemma valid_simps [simp]:
  "i_inum (fs_set_inode_valid ino v) = i_inum ino" "i_ref (fs_set_inode_valid ino v) = i_ref ino" "i_locked (fs_set_inode_valid ino v) = i_locked ino"
  "fs_is_inode_valid (fs_set_inode_valid ino v) = v" "fs_is_inode_dirty (fs_set_inode_valid ino v) = fs_is_inode_dirty ino"
  by (simp_all add: fs_set_inode_valid_def fs_is_inode_valid_def fs_is_inode_dirty_def get_state_bit_bit bit_set_state_bit)

lemma agrees_read: "agrees b (fs_set_inode_valid (dec_inode (bdata b (itab ino)) (inum_to_ofs (i_inum ino)) ino) True)"
  unfolding agrees_def by (cases ino) (simp add: dec_inode_def fs_set_inode_valid_def fs_is_inode_valid_def get_state_bit_bit bit_set_state_bit)

text \<open>A new inode in the cache, before it is read.\<close>

definition new_inode :: "u32 \<Rightarrow> inode" where
  "new_inode inum = fs_alloc_inode\<lparr>i_addrs := replicate (SFS_NDIRECT + SFS_NINDIRECT) 0, i_inum := inum\<rparr>"

lemma new_inode_simps [simp]:
  "i_inum (new_inode inum) = inum" "i_ref (new_inode inum) = 1" "\<not> i_locked (new_inode inum)" "\<not> fs_is_inode_valid (new_inode inum)"
  "\<not> fs_is_inode_dirty (new_inode inum)"
  by (simp_all add: new_inode_def fs_alloc_inode_def fs_set_inode_valid_def fs_set_inode_dirty_def fs_is_inode_valid_def fs_is_inode_dirty_def
      get_state_bit_bit bit_set_state_bit)

lemma icache_ok_new:
  assumes "icache_ok L H s" "inodes s p = None" "icache s inum = None" "p \<noteq> NULL" "inum \<noteq> 0" "p \<notin> L"
  shows "icache_ok L (add_mset p H) (s\<lparr>inode_news := news, inodes := (inodes s)(p \<mapsto> new_inode inum), icache := (icache s)(inum \<mapsto> p)\<rparr>)" (is "icache_ok L ?H ?s")
proof -
  have n: "p \<notin># H + mset (cleanup_inodes s)" using assms(1,2) unfolding icache_ok_def by blast
  then have z: "count H p = 0" "count (mset (cleanup_inodes s)) p = 0" by (auto simp: not_in_iff [symmetric] simp flip: count_eq_zero_iff)
  have "\<exists>ino1. inodes ?s q = Some ino1 \<and> i_inum ino1 = i" if "icache ?s i = Some q" for i q
    using icache_ok_cached [OF assms(1), of i q] assms(2) that by (auto split: if_splits)
  moreover have "icache ?s (i_inum ino1) = Some q" if "inodes ?s q = Some ino1" for q ino1
    using icache_okD(3) [OF assms(1), of q ino1] assms(3) that by (auto split: if_splits)
  ultimately show ?thesis using icache_okD [OF assms(1)] assms z unfolding icache_ok_def by auto
qed

text \<open>The allocator of inodes has at most \<open>n\<close> more to give before it fails.\<close>

definition runs_out :: "nat \<Rightarrow> fs_sys \<Rightarrow> bool" where
  "runs_out n s \<longleftrightarrow> length (takeWhile (\<lambda>(p, _). p \<noteq> NULL) (inode_news s)) \<le> n"

definition news_step :: "fs_sys \<Rightarrow> fs_sys \<Rightarrow> bool" where
  "news_step s s' \<longleftrightarrow> (\<forall>n. runs_out n s' \<longrightarrow> runs_out (n + 1) s)"

lemma news_step_same: "inode_news s' = inode_news s \<Longrightarrow> news_step s s'"
  by (simp add: news_step_def runs_out_def)

lemma news_step_tl: "inode_news s = (p, info, tree) # news \<Longrightarrow> p \<noteq> NULL \<Longrightarrow> inode_news s' = news \<Longrightarrow> news_step s s'"
  by (simp add: news_step_def runs_out_def)

lemma news_ok_set: "news_ok s \<Longrightarrow> inodes s p = Some ino \<Longrightarrow> news_ok (set_inode p ino' s)"
  by (fastforce simp: news_ok_def)

lemma agree_set: "inodes_agree s \<Longrightarrow> agrees (blks s) ino' \<Longrightarrow> inodes_agree (set_inode p ino' s)"
  by (simp add: inodes_agree_def)

lemma icache_get_ok:
  assumes "icache_ok L H s" "inodes_agree s" "news_ok s" "inum \<noteq> 0" "size H + length (cleanup_inodes s) + 1 < 2 ^ 32"
    "\<And>p. p \<in> L \<Longrightarrow> \<exists>ino. inodes s p = Some ino \<and> i_inum ino \<noteq> inum"
  shows "\<exists>err p s'. icache_get s inum = Some (err, p, s') \<and> blks s' = blks s \<and> sbi s' = sbi s \<and> cleanup_inodes s' = cleanup_inodes s
    \<and> inodes_agree s' \<and> news_ok s' \<and> news_step s s'
    \<and> (err = ERR_OK \<and> p \<notin> L \<and> icache_ok L (add_mset p H) s' \<and> (\<exists>ino. inodes s' p = Some ino \<and> i_inum ino = inum)
         \<and> (\<forall>q. q \<noteq> p \<longrightarrow> inodes s' q = inodes s q)
       \<or> err = ERR_NOMEM \<and> runs_out 0 s \<and> icache_ok L H s' \<and> inodes s' = inodes s)"
proof (cases "icache s inum")
  case (Some p)
  then obtain ino where i: "inodes s p = Some ino" "i_inum ino = inum" using icache_ok_cached [OF assms(1)] by blast
  note c = icache_okD [OF assms(1) i(1)]
  have l: "p \<notin> L" using assms(6) [of p] i by auto
  have "unat (i_ref ino) < 2 ^ 32 - 1"
    using c(6) assms(5) count_le_size [of H p] count_le_size [of "mset (cleanup_inodes s)" p] by simp
  then have r: "unat (i_ref ino + 1) = unat (i_ref ino) + 1" by (subst unat_plus_if_size) (simp add: word_size)
  then have "0 < i_ref ino + 1" by (metis add_gr_0 unat_gt_0 zero_less_one word_gt_0)
  then have "icache_ok L (add_mset p H) (set_inode p (ino\<lparr>i_ref := i_ref ino + 1\<rparr>) s)" using c l r by (intro icache_ok_set [OF assms(1) i(1)]) auto
  moreover have "icache_get s inum = Some (ERR_OK, p, set_inode p (ino\<lparr>i_ref := i_ref ino + 1\<rparr>) s)" using Some i by (simp add: icache_get_def)
  moreover have "inodes_agree (set_inode p (ino\<lparr>i_ref := i_ref ino + 1\<rparr>) s)" using assms(2) i by (auto simp: inodes_agree_def)
  moreover have "news_ok (set_inode p (ino\<lparr>i_ref := i_ref ino + 1\<rparr>) s)" using news_ok_set [OF assms(3) i(1)] .
  ultimately show ?thesis using i l news_step_same [of "set_inode p (ino\<lparr>i_ref := i_ref ino + 1\<rparr>) s" s] by simp
next
  case None
  show ?thesis
  proof (cases "\<exists>p info tree news. inode_news s = (p, info, tree) # news \<and> p \<noteq> NULL")
    case True
    then obtain p info tree news where n: "inode_news s = (p, info, tree) # news" "p \<noteq> NULL" by blast
    then have f: "info" "tree" "inodes s p = None" "p \<notin> set (map fst news)" using assms(3) by (auto simp: news_ok_def)
    let ?s = "s\<lparr>inode_news := news, inodes := (inodes s)(p \<mapsto> new_inode inum), icache := (icache s)(inum \<mapsto> p)\<rparr>"
    have l: "p \<notin> L" using assms(6) [of p] f(3) by auto
    have "icache_get s inum = Some (ERR_OK, p, ?s)"
      using None n f by (auto simp: icache_get_def sfs_alloc_inode_def Let_def set_inode_def new_inode_def)
    moreover have "icache_ok L (add_mset p H) ?s" using icache_ok_new [OF assms(1) f(3) None n(2) assms(4) l] .
    moreover have "inodes_agree ?s" using assms(2) by (simp add: inodes_agree_def agrees_def)
    moreover have "news_ok ?s" using assms(3) n f(4) by (force simp: news_ok_def)
    ultimately show ?thesis using l news_step_tl [OF n, of ?s] by simp
  next
    case False
    then have "\<exists>news. icache_get s inum = Some (ERR_NOMEM, NULL, s\<lparr>inode_news := news\<rparr>) \<and> (inode_news s = [] \<and> news = [] \<or> inode_news s \<noteq> [] \<and> news = tl (inode_news s))"
      using None by (cases "inode_news s") (auto simp: icache_get_def sfs_alloc_inode_def Let_def)
    then obtain news where e: "icache_get s inum = Some (ERR_NOMEM, NULL, s\<lparr>inode_news := news\<rparr>)" "news = tl (inode_news s)" by auto
    have r: "runs_out 0 s" using False by (cases "inode_news s") (auto simp: runs_out_def)
    moreover have "news_ok (s\<lparr>inode_news := news\<rparr>)" using assms(3) e(2) by (cases "inode_news s") (auto simp: news_ok_def split: if_splits)
    moreover have "news_step s (s\<lparr>inode_news := news\<rparr>)" using r by (auto simp: news_step_def runs_out_def)
    ultimately show ?thesis using e(1) assms(1,2) by (simp add: icache_ok_def inodes_agree_def)
  qed
qed

lemma agrees_cong: "bdata b' = bdata b \<Longrightarrow> agrees b' = agrees b"
  by (simp add: agrees_def fun_eq_iff)

lemma icache_ok_blks: "icache_ok L H (s\<lparr>blks := b\<rparr>) = icache_ok L H s"
  by (simp add: icache_ok_def)

lemma news_ok_blks: "news_ok (s\<lparr>blks := b\<rparr>) = news_ok s"
  by (simp add: news_ok_def)

lemma agree_blks: "inodes_agree s \<Longrightarrow> bdata b = bdata (blks s) \<Longrightarrow> inodes_agree (s\<lparr>blks := b\<rparr>)"
  using agrees_cong [of b "blks s"] by (simp add: inodes_agree_def)

lemma inode_fill_ok:
  assumes ok: "icache_ok L (add_mset p H) s" and ag: "inodes_agree s" and nw: "news_ok s" and i: "inodes s p = Some ino" and pl: "p \<notin> L"
    and held: "bheld (blks s) = {}"
  shows "\<exists>err s'. inode_fill s p = Some (err, if err = ERR_OK then p else NULL, s') \<and> cache_step s s' \<and> inode_news s' = inode_news s
    \<and> length (cleanup_inodes s') \<le> length (cleanup_inodes s) + 1
    \<and> (err = ERR_OK \<and> icache_ok L (add_mset p H) s' \<and> (\<exists>ino'. inodes s' p = Some ino' \<and> i_inum ino' = i_inum ino \<and> fs_is_inode_valid ino')
       \<or> err = ERR_NOMEM \<and> icache_ok L H s' \<and> (\<exists>n. \<not> answers (blks s) n))
    \<and> (\<forall>q. q \<noteq> p \<longrightarrow> inodes s' q = inodes s q)"
proof -
  note c = icache_okD [OF ok i]
  have l: "\<not> i_locked ino" "ino\<lparr>i_locked := False\<rparr> = ino" using c(4) pl by simp_all
  have a: "agrees (blks s) ino" using ag i by (simp add: inodes_agree_def)
  show ?thesis
  proof (cases "fs_is_inode_valid ino")
    case v: True
    then have "inode_fill s p = Some (ERR_OK, p, s)" using i l by (simp add: inode_fill_def lock_inode_eq unlock_inode_def set_inode_same)
    then show ?thesis using ok ag nw i v by (auto simp: cache_step_def)
  next
    case v: False
    let ?ino = "ino\<lparr>i_locked := True\<rparr>"
    have d: "\<not> fs_is_inode_dirty ?ino" using v a by (simp add: agrees_def)
    obtain err b ino2 where rd: "sfs_read_inode (blks s) ?ino = Some (err, b, ino2)" "bdata b = bdata (blks s)" "refs_same (blks s) b"
        "err = ERR_OK \<and> ino2 = fs_set_inode_valid (dec_inode (bdata (blks s) (itab ?ino)) (inum_to_ofs (i_inum ?ino)) ?ino) True
         \<or> err = ERR_NOMEM \<and> ino2 = ?ino \<and> (\<exists>n. \<not> answers (blks s) n)"
      using read_inode_ok [of ?ino "blks s"] c(2) held d by auto
    define ino3 where "ino3 = ino2\<lparr>i_locked := False\<rparr>"
    define s3 where "s3 = set_inode p ino3 (s\<lparr>blks := b\<rparr>)"
    have i3: "i_inum ino3 = i_inum ino" "i_ref ino3 = i_ref ino" "\<not> i_locked ino3" "i_locked ino2" "err = ERR_OK \<Longrightarrow> fs_is_inode_valid ino3"
      using rd(4) by (auto simp: ino3_def)
    have "agrees (blks s) ino2" using rd(4) agrees_read a by (metis state_upd(5))
    then have a3: "agrees b ino3" using agrees_cong [OF rd(2)] by (simp add: ino3_def)
    have ok3: "icache_ok L (add_mset p H) s3"
      unfolding s3_def by (rule icache_ok_set [where L = L and H = "add_mset p H"]) (use ok pl i i3 c in \<open>auto simp: icache_ok_blks\<close>)
    have ag3: "inodes_agree s3" unfolding s3_def using agree_set [OF agree_blks [OF ag rd(2)]] a3 by simp
    have n3: "news_ok s3" unfolding s3_def by (rule news_ok_set) (use nw i in \<open>auto simp: news_ok_blks\<close>)
    have st3: "cache_step s s3" "inode_news s3 = inode_news s" "cleanup_inodes s3 = cleanup_inodes s" "\<And>q. q \<noteq> p \<Longrightarrow> inodes s3 q = inodes s q"
      using ag3 n3 rd(2,3) by (simp_all add: cache_step_def s3_def)
    have e: "inode_fill s p = (if err \<noteq> ERR_OK then do { s \<leftarrow> fs_release_inode s3 p; Some (err, NULL, s) } else Some (ERR_OK, p, s3))"
      using i l v rd(1) i3(4) by (simp add: inode_fill_def lock_inode_eq with_inode_def unlock_inode_def s3_def ino3_def set_inode_def)
    show ?thesis
    proof (cases "err = ERR_OK")
      case True
      then show ?thesis using e ok3 st3 i3 by (auto simp: s3_def)
    next
      case False
      obtain s4 where "fs_release_inode s3 p = Some s4" "icache_ok L H s4" "cache_step s3 s4" "inode_news s4 = inode_news s3"
          "length (cleanup_inodes s4) \<le> length (cleanup_inodes s3) + 1" "\<And>q. q \<noteq> p \<Longrightarrow> inodes s4 q = inodes s3 q"
        using release_ok [OF ok3 _ pl ag3 n3] by auto
      then show ?thesis using e False st3 rd(4) cache_step_trans [OF st3(1)] by auto
    qed
  qed
qed

text \<open>The inode of a number: the reference is new, or nothing is left of the call.\<close>

definition got_inode :: "ptr set \<Rightarrow> ptr multiset \<Rightarrow> fs_sys \<Rightarrow> u32 \<Rightarrow> err_t \<Rightarrow> ptr \<Rightarrow> fs_sys \<Rightarrow> bool" where
  "got_inode L H s inum err p s' \<longleftrightarrow> cache_step s s' \<and> news_step s s' \<and> length (cleanup_inodes s') \<le> length (cleanup_inodes s) + 1
    \<and> (err = ERR_OK \<and> p \<notin> L \<and> icache_ok L (add_mset p H) s' \<and> (\<exists>ino. inodes s' p = Some ino \<and> i_inum ino = inum \<and> fs_is_inode_valid ino)
       \<or> err = ERR_NOMEM \<and> p = NULL \<and> icache_ok L H s' \<and> (runs_out 0 s \<or> (\<exists>n. \<not> answers (blks s) n)))"

lemma fs_get_inode_ok:
  assumes "icache_ok L H s" "inodes_agree s" "news_ok s" "inum \<noteq> 0" "size H + length (cleanup_inodes s) + 1 < 2 ^ 32"
    "\<And>p. p \<in> L \<Longrightarrow> \<exists>ino. inodes s p = Some ino \<and> i_inum ino \<noteq> inum" "bheld (blks s) = {}"
  shows "\<exists>err p s'. fs_get_inode s inum = Some (err, p, s') \<and> got_inode L H s inum err p s' \<and> (\<forall>q \<in> L. inodes s' q = inodes s q)"
proof -
  obtain err p s1 where g: "icache_get s inum = Some (err, p, s1)" "blks s1 = blks s" "sbi s1 = sbi s" "cleanup_inodes s1 = cleanup_inodes s"
      "inodes_agree s1" "news_ok s1" "news_step s s1"
    and r: "err = ERR_OK \<and> p \<notin> L \<and> icache_ok L (add_mset p H) s1 \<and> (\<exists>ino. inodes s1 p = Some ino \<and> i_inum ino = inum)
         \<and> (\<forall>q. q \<noteq> p \<longrightarrow> inodes s1 q = inodes s q) \<or> err = ERR_NOMEM \<and> runs_out 0 s \<and> icache_ok L H s1 \<and> inodes s1 = inodes s"
    using icache_get_ok [OF assms(1-6)] by blast
  have st: "cache_step s s1" using g by (simp add: cache_step_def)
  show ?thesis
  proof (cases "err = ERR_OK")
    case False
    then show ?thesis using g r st by (auto simp: fs_get_inode_def got_inode_def)
  next
    case True
    then obtain ino where i: "inodes s1 p = Some ino" "i_inum ino = inum" and o: "p \<notin> L" "icache_ok L (add_mset p H) s1"
        "\<And>q. q \<noteq> p \<Longrightarrow> inodes s1 q = inodes s q" using r by auto
    have h: "bheld (blks s1) = {}" using g(2) assms(7) by simp
    obtain err2 s2 where f: "inode_fill s1 p = Some (err2, if err2 = ERR_OK then p else NULL, s2)" "cache_step s1 s2" "inode_news s2 = inode_news s1"
        "length (cleanup_inodes s2) \<le> length (cleanup_inodes s1) + 1" "\<And>q. q \<noteq> p \<Longrightarrow> inodes s2 q = inodes s1 q"
      and r2: "err2 = ERR_OK \<and> icache_ok L (add_mset p H) s2 \<and> (\<exists>ino'. inodes s2 p = Some ino' \<and> i_inum ino' = i_inum ino \<and> fs_is_inode_valid ino')
        \<or> err2 = ERR_NOMEM \<and> icache_ok L H s2 \<and> (\<exists>n. \<not> answers (blks s1) n)"
      using inode_fill_ok [OF o(2) g(5,6) i(1) o(1) h] by blast
    have "fs_get_inode s inum = Some (err2, if err2 = ERR_OK then p else NULL, s2)" using g(1) True f(1) by (simp add: fs_get_inode_def)
    moreover have "news_step s s2" using g(7) f(3) by (simp add: news_step_def runs_out_def)
    moreover have "inodes s2 q = inodes s q" if "q \<in> L" for q using f(5) o(1,3) that by metis
    ultimately show ?thesis using cache_step_trans [OF st f(2)] f(4) g(2,4) r2 i(2) o(1) by (auto simp: got_inode_def)
  qed
qed

section \<open>Looking up a path\<close>

text \<open>The components of a path: what is between the slashes, cut to the length of the buffer, without empty ones.\<close>

fun split_path :: "u8 list \<Rightarrow> u8 list list" where
  "split_path [] = [[]]"
| "split_path (c # cs) = (if c = slash then [] # split_path cs else (c # hd (split_path cs)) # tl (split_path cs))"

definition components :: "u8 list \<Rightarrow> u8 list list" where
  "components path = map (take 63) (filter (\<lambda>w. w \<noteq> []) (split_path path))"

lemma split_path_word: "w \<noteq> [] \<Longrightarrow> slash \<notin> set w \<Longrightarrow> split_path (w @ cs) = (w @ hd (split_path cs)) # tl (split_path cs)"
  by (induction w rule: list_nonempty_induct) auto

lemma components_slash: "components (dropWhile (\<lambda>c. c = slash) cs) = components cs"
  by (induction cs) (auto simp: components_def)

lemma components_Nil: "dropWhile (\<lambda>c. c = slash) path = [] \<Longrightarrow> components path = []"
  using components_slash [of path] by (simp add: components_def del: dropWhile_eq_Nil_conv)

lemma components_word:
  assumes "w \<noteq> []" "slash \<notin> set w" "rest = [] \<or> hd rest = slash"
  shows "components (w @ rest) = take 63 w # components rest"
proof (cases rest)
  case Nil
  then show ?thesis using split_path_word [OF assms(1,2), of "[]"] assms(1) by (simp add: components_def)
next
  case (Cons c cs)
  then have "split_path (w @ rest) = w # split_path cs" using split_path_word [OF assms(1,2), of rest] assms(3) by simp
  then show ?thesis using Cons assms by (simp add: components_def)
qed

lemma path_next_components:
  assumes "components path \<noteq> []"
  shows "components path = snd (path_next_element path) # components (fst (path_next_element path))"
    "fst (path_next_element path) \<noteq> [] \<Longrightarrow> components (fst (path_next_element path)) \<noteq> []"
proof -
  define p where "p = dropWhile (\<lambda>c. c = slash) path"
  have n: "p \<noteq> []" using components_Nil [of path] assms by (auto simp: p_def simp del: dropWhile_eq_Nil_conv)
  then have h: "hd p \<noteq> slash" using hd_dropWhile [of "\<lambda>c. c = slash" path] by (simp add: p_def)
  define w where "w = takeWhile (\<lambda>c. c \<noteq> slash) p"
  define rest where "rest = dropWhile (\<lambda>c. c \<noteq> slash) p"
  have e: "path_next_element path = (dropWhile (\<lambda>c. c = slash) rest, take 63 w)"
    using n by (simp add: path_next_element_def Let_def p_def [symmetric] w_def rest_def min_def)
  have "w \<noteq> []" using n h by (cases p) (auto simp: w_def)
  moreover have "slash \<notin> set w" by (auto simp: w_def dest: set_takeWhileD)
  moreover have "rest = [] \<or> hd rest = slash" using hd_dropWhile [of "\<lambda>c. c \<noteq> slash" p] by (auto simp: rest_def)
  moreover have "p = w @ rest" by (simp add: w_def rest_def)
  ultimately have "components p = take 63 w # components rest" using components_word by simp
  then show "components path = snd (path_next_element path) # components (fst (path_next_element path))"
    using components_slash [of path] components_slash [of rest] by (simp add: e p_def)
  show "fst (path_next_element path) \<noteq> [] \<Longrightarrow> components (fst (path_next_element path)) \<noteq> []"
  proof -
    assume "fst (path_next_element path) \<noteq> []"
    then obtain c cs where c: "dropWhile (\<lambda>c. c = slash) rest = c # cs" by (cases "dropWhile (\<lambda>c. c = slash) rest") (auto simp: e)
    then have "c \<noteq> slash" using hd_dropWhile [of "\<lambda>c. c = slash" rest] by simp
    then show ?thesis using c by (simp add: e components_def)
  qed
qed

lemma path_next_empty: "components path = [] \<Longrightarrow> path_next_element path = ([], [])"
proof -
  assume a: "components path = []"
  have "dropWhile (\<lambda>c. c = slash) path = []"
  proof (rule ccontr)
    assume "dropWhile (\<lambda>c. c = slash) path \<noteq> []"
    moreover obtain c cs where "dropWhile (\<lambda>c. c = slash) path = c # cs" using calculation by (cases "dropWhile (\<lambda>c. c = slash) path") auto
    moreover have "c \<noteq> slash" using hd_dropWhile [of "\<lambda>c. c = slash" path] calculation by simp
    ultimately show False using a components_slash [of path] by (simp add: components_def)
  qed
  then show ?thesis by (simp add: path_next_element_def Let_def del: dropWhile_eq_Nil_conv)
qed

text \<open>The tree on the disk.\<close>

definition dnode :: "blocks \<Rightarrow> u32 \<Rightarrow> inode" where
  "dnode b inum = dec_inode (bdata b (inum_to_blk inum)) (inum_to_ofs inum) (new_inode inum)"

definition is_dir :: "blocks \<Rightarrow> u32 \<Rightarrow> bool" where
  "is_dir b inum \<longleftrightarrow> i_ftype (dnode b inum) = FTYPE_DIR"

definition entry_of :: "blocks \<Rightarrow> u32 \<Rightarrow> u8 list \<Rightarrow> u32" where
  "entry_of b inum name = found b (dnode b inum) name 0"

text \<open>Every directory in the inode table is well formed, its entries are numbers of the table and none is the directory itself.\<close>

definition tree_ok :: "sfs_sb_info \<Rightarrow> blocks \<Rightarrow> bool" where
  "tree_ok si b \<longleftrightarrow> (\<forall>inum. 0 < inum \<longrightarrow> unat inum < unat (s_num_inodes si) \<longrightarrow> is_dir b inum \<longrightarrow> dir_ok si b (dnode b inum)
     \<and> (\<forall>k < nents (dnode b inum). unat (ent_inum b (dnode b inum) k) < unat (s_num_inodes si) \<and> ent_inum b (dnode b inum) k \<noteq> inum))"

text \<open>Walking along names from a directory: the number of the directory at the end, or the error.\<close>

fun resolve :: "blocks \<Rightarrow> u32 \<Rightarrow> u8 list list \<Rightarrow> err_t + u32" where
  "resolve b inum [] = (if is_dir b inum then Inr inum else Inl ERR_FTYPE)"
| "resolve b inum (n # ns) =
     (if \<not> is_dir b inum then Inl ERR_FTYPE
      else if entry_of b inum n = 0 then Inl ERR_NOTEXIST
      else resolve b (entry_of b inum n) ns)"

lemma dir_cong:
  assumes "i_addrs ino' = i_addrs ino" "i_size ino' = i_size ino"
  shows "nents ino' = nents ino" "ent_inum b ino' k = ent_inum b ino k" "found b ino' name j = found b ino name j"
    "i_inum ino' = i_inum ino \<Longrightarrow> dir_ok si b ino' = dir_ok si b ino"
proof -
  note c = inode_cong [OF assms(1)]
  show n: "nents ino' = nents ino" by (simp add: nents_def assms)
  have e: "ebytes b ino' = ebytes b ino" by (simp add: fun_eq_iff ebytes_def c)
  have i: "ent_inum b ino' = ent_inum b ino" by (simp add: ent_inum_def e fun_eq_iff)
  then show "ent_inum b ino' k = ent_inum b ino k" by simp
  have "ent_match b ino' name = ent_match b ino name" by (simp add: fun_eq_iff ent_match_def ent_name_def i e)
  then show "found b ino' name j = found b ino name j" by (simp add: found_def n i cong: option.case_cong)
  show "i_inum ino' = i_inum ino \<Longrightarrow> dir_ok si b ino' = dir_ok si b ino" using assms c by (simp add: dir_ok_def n)
qed

lemma agrees_dnode:
  assumes "agrees b ino" "fs_is_inode_valid ino"
  shows "i_addrs ino = i_addrs (dnode b (i_inum ino))" "i_size ino = i_size (dnode b (i_inum ino))" "i_ftype ino = i_ftype (dnode b (i_inum ino))"
proof -
  have "dec_inode (bdata b (itab ino)) (inum_to_ofs (i_inum ino)) ino = ino" using assms by (simp add: agrees_def)
  then have "i_addrs (dec_inode (bdata b (itab ino)) (inum_to_ofs (i_inum ino)) ino) = i_addrs ino"
    "i_size (dec_inode (bdata b (itab ino)) (inum_to_ofs (i_inum ino)) ino) = i_size ino"
    "i_ftype (dec_inode (bdata b (itab ino)) (inum_to_ofs (i_inum ino)) ino) = i_ftype ino" by simp_all
  then show "i_addrs ino = i_addrs (dnode b (i_inum ino))" "i_size ino = i_size (dnode b (i_inum ino))" "i_ftype ino = i_ftype (dnode b (i_inum ino))"
    by (simp_all add: dnode_def dec_inode_def)
qed

lemma tree_cong:
  assumes "bdata b' = bdata b"
  shows "dnode b' = dnode b" "is_dir b' = is_dir b" "entry_of b' = entry_of b" "resolve b' inum ns = resolve b inum ns"
    "refs_same b b' \<Longrightarrow> tree_ok si b' = tree_ok si b"
proof -
  show d: "dnode b' = dnode b" by (simp add: dnode_def fun_eq_iff assms)
  then show i: "is_dir b' = is_dir b" by (simp add: is_dir_def fun_eq_iff)
  have e: "ent_inum b' = ent_inum b" "ebytes b' = ebytes b" using data_cong [OF assms] by auto
  have "ent_match b' ino nm = ent_match b ino nm" for ino nm by (simp add: fun_eq_iff ent_match_def ent_name_def e)
  then have f: "found b' ino nm k = found b ino nm k" for ino nm k by (simp add: found_def e cong: option.case_cong)
  show n: "entry_of b' = entry_of b" by (simp add: entry_of_def fun_eq_iff f d)
  show "resolve b' inum ns = resolve b inum ns" by (induction ns arbitrary: inum) (simp_all add: i n)
  have "dir_ok si b' ino = dir_ok si b ino" if "refs_same b b'" for ino
    using that inode_ok_cong [OF assms, of si ino] slot_cong(1) [OF assms] assms by (simp add: dir_ok_def refs_same_def blks_ok_def)
  then show "refs_same b b' \<Longrightarrow> tree_ok si b' = tree_ok si b" by (simp add: tree_ok_def d i e)
qed

lemma entry_of_range:
  assumes "tree_ok si b" "0 < inum" "unat inum < unat (s_num_inodes si)" "is_dir b inum"
  shows "entry_of b inum name \<noteq> 0 \<Longrightarrow> unat (entry_of b inum name) < unat (s_num_inodes si) \<and> entry_of b inum name \<noteq> inum"
proof -
  assume a: "entry_of b inum name \<noteq> 0"
  then obtain k where "find (ent_match b (dnode b inum) name) [0..<nents (dnode b inum)] = Some k" "entry_of b inum name = ent_inum b (dnode b inum) k"
    by (auto simp: entry_of_def found_def split: option.splits)
  moreover have "k < nents (dnode b inum)" using find_Some_conv [OF calculation(1)] by simp
  ultimately show ?thesis using assms unfolding tree_ok_def by metis
qed

lemma search_dir_ok:
  assumes "dir_ok si s dir" "\<forall>n. answers s n" "0 \<notin> set name"
  shows "\<exists>s'. search_dir si s dir name = Some (found s dir name 0, s', dir) \<and> bdata s' = bdata s \<and> refs_same s s'"
  using search_loop_ok [OF assms before_first [OF assms(1)]] by (auto simp: search_dir_def)

text \<open>Looking up a name in a directory whose lock may be held.\<close>

definition looked_up :: "ptr set \<Rightarrow> ptr multiset \<Rightarrow> fs_sys \<Rightarrow> u32 \<Rightarrow> err_t \<Rightarrow> ptr \<Rightarrow> fs_sys \<Rightarrow> bool" where
  "looked_up L H s inum err p s' \<longleftrightarrow> cache_step s s' \<and> news_step s s' \<and> length (cleanup_inodes s') \<le> length (cleanup_inodes s) + 1
    \<and> (if err = ERR_OK then inum \<noteq> 0 \<and> p \<notin> L \<and> icache_ok L (add_mset p H) s' \<and> (\<exists>ino. inodes s' p = Some ino \<and> i_inum ino = inum \<and> fs_is_inode_valid ino)
       else icache_ok L H s' \<and> (err = ERR_NOTEXIST \<and> inum = 0 \<or> err = ERR_NOMEM \<and> inum \<noteq> 0 \<and> runs_out 0 s))"

definition fs_ok :: "ptr set \<Rightarrow> ptr multiset \<Rightarrow> nat \<Rightarrow> fs_sys \<Rightarrow> bool" where
  "fs_ok L H n s \<longleftrightarrow> icache_ok L H s \<and> inodes_agree s \<and> news_ok s \<and> tree_ok (sbi s) (blks s) \<and> (\<forall>n. answers (blks s) n) \<and> bheld (blks s) = {}
     \<and> size H + length (cleanup_inodes s) + n < 2 ^ 32"

text \<open>A node of the tree that is in memory.\<close>

definition node_at :: "fs_sys \<Rightarrow> ptr \<Rightarrow> u32 \<Rightarrow> bool" where
  "node_at s p inum \<longleftrightarrow> 0 < inum \<and> unat inum < unat (s_num_inodes (sbi s))
     \<and> (\<exists>ino. inodes s p = Some ino \<and> i_inum ino = inum \<and> fs_is_inode_valid ino)"

lemma node_at_dnode:
  assumes "fs_ok L H n s" "node_at s p inum"
  obtains ino where "inodes s p = Some ino" "i_inum ino = inum" "fs_is_inode_valid ino" "i_ftype ino = FTYPE_DIR \<longleftrightarrow> is_dir (blks s) inum"
    "is_dir (blks s) inum \<Longrightarrow> dir_ok (sbi s) (blks s) ino" "found (blks s) ino name 0 = entry_of (blks s) inum name"
proof -
  obtain ino where i: "inodes s p = Some ino" "i_inum ino = inum" "fs_is_inode_valid ino" and n: "0 < inum" "unat inum < unat (s_num_inodes (sbi s))"
    using assms(2) by (auto simp: node_at_def)
  have a: "agrees (blks s) ino" "tree_ok (sbi s) (blks s)" using assms(1) i(1) by (simp_all add: fs_ok_def inodes_agree_def)
  note d = agrees_dnode [OF a(1) i(3)]
  note c = dir_cong [OF d(1,2)]
  show ?thesis
  proof (rule that [OF i])
    show "i_ftype ino = FTYPE_DIR \<longleftrightarrow> is_dir (blks s) inum" using d(3) i(2) by (simp add: is_dir_def)
    have "i_inum (dnode (blks s) inum) = inum" by (simp add: dnode_def)
    then show "dir_ok (sbi s) (blks s) ino" if "is_dir (blks s) inum" using c(4) a(2) n i(2) that by (simp add: tree_ok_def)
    show "found (blks s) ino name 0 = entry_of (blks s) inum name" using c(3) i(2) by (simp add: entry_of_def)
  qed
qed

lemma sfs_lookup_ok:
  assumes "fs_ok L H 1 s" "node_at s cur inum" "is_dir (blks s) inum" "0 \<notin> set name" "L \<subseteq> {cur}"
  shows "\<exists>err p s'. sfs_lookup s cur name = Some (err, p, s') \<and> looked_up L H s (entry_of (blks s) inum name) err p s' \<and> (\<forall>q \<in> L. inodes s' q = inodes s q)"
proof -
  obtain ino where i: "inodes s cur = Some ino" "i_inum ino = inum" "dir_ok (sbi s) (blks s) ino" "found (blks s) ino name 0 = entry_of (blks s) inum name"
    using node_at_dnode [OF assms(1,2), of name] assms(3) by blast
  have f: "icache_ok L H s" "inodes_agree s" "news_ok s" "tree_ok (sbi s) (blks s)" "\<forall>n. answers (blks s) n" "bheld (blks s) = {}"
      "size H + length (cleanup_inodes s) + 1 < 2 ^ 32"
    using assms(1) by (simp_all add: fs_ok_def)
  obtain b where b: "search_dir (sbi s) (blks s) ino name = Some (entry_of (blks s) inum name, b, ino)" "bdata b = bdata (blks s)" "refs_same (blks s) b"
    using search_dir_ok [OF i(3) f(5) assms(4)] i(4) by auto
  let ?s = "s\<lparr>blks := b\<rparr>" and ?e = "entry_of (blks s) inum name"
  have st: "cache_step s ?s" using b(2,3) agree_blks [OF f(2) b(2)] f(3) by (simp add: cache_step_def news_ok_blks)
  have e: "sfs_lookup s cur name = (if ?e = 0 then Some (ERR_NOTEXIST, NULL, ?s) else fs_get_inode ?s ?e)"
    using i(1) b(1) set_inode_same [of ?s cur ino] by (simp add: sfs_lookup_def with_inode_def)
  show ?thesis
  proof (cases "?e = 0")
    case True
    then show ?thesis using e st f(1) by (simp add: looked_up_def icache_ok_blks news_step_same)
  next
    case False
    have "?e \<noteq> inum" using entry_of_range [OF f(4) _ _ assms(3) False] assms(2) by (simp add: node_at_def)
    then have l: "\<exists>ino. inodes ?s p = Some ino \<and> i_inum ino \<noteq> ?e" if "p \<in> L" for p using that assms(5) i(1,2) by auto
    have h: "bheld (blks ?s) = {}" "\<forall>n. answers (blks ?s) n" using b(3) f(5,6) by (auto simp: refs_same_def)
    obtain err p s' where g: "fs_get_inode ?s ?e = Some (err, p, s')" "got_inode L H ?s ?e err p s'" "\<forall>q \<in> L. inodes s' q = inodes ?s q"
      using fs_get_inode_ok [of L H ?s ?e] f(1,3,7) agree_blks [OF f(2) b(2)] False l h(1) by (auto simp: icache_ok_blks news_ok_blks)
    then have "looked_up L H s ?e err p s'"
      using cache_step_trans [OF st] False h(2) by (auto simp: looked_up_def got_inode_def news_step_def runs_out_def)
    then show ?thesis using e False g by auto
  qed
qed

lemma fs_ok_step:
  assumes "fs_ok L H n s" "cache_step s s'" "icache_ok L' H' s'" "size H' + length (cleanup_inodes s') + n' \<le> size H + length (cleanup_inodes s) + n"
  shows "fs_ok L' H' n' s'"
  using assms tree_cong(5) [of "blks s'" "blks s" "sbi s"] by (auto simp: fs_ok_def cache_step_def refs_same_def)

lemma fs_okD: "fs_ok L H n s \<Longrightarrow> icache_ok L H s" "fs_ok L H n s \<Longrightarrow> inodes_agree s" "fs_ok L H n s \<Longrightarrow> news_ok s"
  by (simp_all add: fs_ok_def)

lemma cache_step_set: "inodes_agree s \<Longrightarrow> news_ok s \<Longrightarrow> inodes s p = Some ino \<Longrightarrow> cache_step s (set_inode p (ino\<lparr>i_locked := l\<rparr>) s)"
  using news_ok_set [of s p ino] by (auto simp: cache_step_def inodes_agree_def)

lemma lock_ok:
  assumes "fs_ok L H n s" "inodes s p = Some ino" "p \<notin> L"
  shows "\<exists>s'. lock_inode s p = Some s' \<and> s' = set_inode p (ino\<lparr>i_locked := True\<rparr>) s \<and> fs_ok (insert p L) H n s' \<and> cache_step s s'"
proof -
  note c = icache_okD [OF fs_okD(1) [OF assms(1)] assms(2)]
  have "icache_ok (insert p L) H (set_inode p (ino\<lparr>i_locked := True\<rparr>) s)" using c by (intro icache_ok_set [OF fs_okD(1) [OF assms(1)] assms(2)]) auto
  moreover note cache_step_set [OF fs_okD(2,3) [OF assms(1)] assms(2), of True]
  ultimately show ?thesis using fs_ok_step [OF assms(1)] lock_inode_eq [OF assms(2)] c(4) assms(3) by simp
qed

lemma unlock_ok:
  assumes "icache_ok L H s" "inodes_agree s" "news_ok s" "inodes s p = Some ino" "p \<in> L"
  shows "\<exists>s'. unlock_inode s p = Some s' \<and> s' = set_inode p (ino\<lparr>i_locked := False\<rparr>) s \<and> icache_ok (L - {p}) H s' \<and> cache_step s s'"
proof -
  note c = icache_okD [OF assms(1,4)]
  have "icache_ok (L - {p}) H (set_inode p (ino\<lparr>i_locked := False\<rparr>) s)" using c by (intro icache_ok_set [OF assms(1,4)]) auto
  then show ?thesis using cache_step_set [OF assms(2-4), of False] unlock_inode_eq [OF assms(4)] c(4) assms(5) by simp
qed

text \<open>Giving back the directory: its lock, then its reference.\<close>

lemma unlock_release_ok:
  assumes "icache_ok {p} (add_mset p H) s" "inodes_agree s" "news_ok s" "inodes s p = Some ino"
  shows "\<exists>s1 s'. unlock_inode s p = Some s1 \<and> fs_release_inode s1 p = Some s' \<and> icache_ok {} H s' \<and> cache_step s s' \<and> inode_news s' = inode_news s
    \<and> length (cleanup_inodes s') \<le> length (cleanup_inodes s) + 1 \<and> (\<forall>q. q \<noteq> p \<longrightarrow> inodes s' q = inodes s q)"
proof -
  obtain s1 where u: "unlock_inode s p = Some s1" "s1 = set_inode p (ino\<lparr>i_locked := False\<rparr>) s" "icache_ok {} (add_mset p H) s1" "cache_step s s1"
    using unlock_ok [OF assms(1-4)] by auto
  then obtain s' where "fs_release_inode s1 p = Some s'" "icache_ok {} H s'" "cache_step s1 s'" "inode_news s' = inode_news s1"
      "length (cleanup_inodes s') \<le> length (cleanup_inodes s1) + 1" "\<forall>q. q \<noteq> p \<longrightarrow> inodes s' q = inodes s1 q"
    using release_ok [OF u(3), of p] u(4) unfolding cache_step_def by auto
  then show ?thesis using u cache_step_trans [OF u(4)] by auto
qed

definition walked :: "ptr multiset \<Rightarrow> fs_sys \<Rightarrow> u32 \<Rightarrow> u8 list \<Rightarrow> err_t \<Rightarrow> ptr \<Rightarrow> u8 list \<Rightarrow> fs_sys \<Rightarrow> bool" where
  "walked H s inum path err p leaf s' \<longleftrightarrow> cache_step s s' \<and> length (cleanup_inodes s') \<le> length (cleanup_inodes s) + 2 * length path + 1
    \<and> (\<forall>n. runs_out n s' \<longrightarrow> runs_out (n + length path) s)
    \<and> (err = ERR_NOMEM \<and> runs_out (length path) s \<and> icache_ok {} H s'
       \<or> (case resolve (blks s) inum (butlast (components path)) of
            Inl e \<Rightarrow> err = e \<and> icache_ok {} H s'
          | Inr i \<Rightarrow> err = ERR_OK \<and> icache_ok {} (add_mset p H) s' \<and> node_at s' p i \<and> leaf = (if components path = [] then [] else last (components path))))"

lemma resolve_no_dir: "\<not> is_dir b inum \<Longrightarrow> resolve b inum ns = Inl ERR_FTYPE"
  by (cases ns) simp_all

lemma find_parent_leaf:
  assumes "fs_ok {} (add_mset cur H) n s" "node_at s cur inum" "\<not> is_dir (blks s) inum \<or> fst (path_next_element path) = []"
  shows "\<exists>err p leaf s'. path_walk_loop s cur path = Some (err, p, leaf, s') \<and> walked H s inum path err p leaf s'"
proof -
  obtain ino where i: "inodes s cur = Some ino" "i_inum ino = inum" "fs_is_inode_valid ino" "i_ftype ino = FTYPE_DIR \<longleftrightarrow> is_dir (blks s) inum"
    using node_at_dnode [OF assms(1,2)] by blast
  obtain s1 where k: "lock_inode s cur = Some s1" "s1 = set_inode cur (ino\<lparr>i_locked := True\<rparr>) s" "fs_ok {cur} (add_mset cur H) n s1" "cache_step s s1"
    using lock_ok [OF assms(1) i(1)] by auto
  have i1: "inodes s1 cur = Some (ino\<lparr>i_locked := True\<rparr>)" by (simp add: k(2))
  note c1 = fs_okD [OF k(3)]
  show ?thesis
  proof (cases "is_dir (blks s) inum")
    case False
    obtain s2 s3 where "unlock_inode s1 cur = Some s2" "fs_release_inode s2 cur = Some s3" "icache_ok {} H s3" "cache_step s1 s3" "inode_news s3 = inode_news s1"
        "length (cleanup_inodes s3) \<le> length (cleanup_inodes s1) + 1"
      using unlock_release_ok [OF c1 i1] by blast
    then show ?thesis using False k i(4) i1 resolve_no_dir [OF False] cache_step_trans [OF k(4)]
      by (subst path_walk_loop.simps) (simp add: walked_def runs_out_def)
  next
    case True
    then have e: "fst (path_next_element path) = []" using assms(3) by blast
    have cs: "butlast (components path) = []" "snd (path_next_element path) = (if components path = [] then [] else last (components path))"
      using e path_next_components(1) [of path] path_next_empty [of path] components_Nil [of "[]"] by (cases "components path = []"; simp)+
    obtain s2 where u: "unlock_inode s1 cur = Some s2" "s2 = set_inode cur (ino\<lparr>i_locked := True, i_locked := False\<rparr>) s1" "icache_ok {} (add_mset cur H) s2" "cache_step s1 s2"
      using unlock_ok [OF c1 i1] by auto
    have "node_at s2 cur inum" using assms(2) i by (auto simp: node_at_def u(2) k(2))
    then show ?thesis using True k i(4) i1 e cs u cache_step_trans [OF k(4) u(4)]
      by (subst path_walk_loop.simps) (simp add: walked_def runs_out_def)
  qed
qed

lemma path_next_set: "set (snd (path_next_element path)) \<subseteq> set path" "set (fst (path_next_element path)) \<subseteq> set path"
  by (auto simp: path_next_element_def Let_def dest!: set_dropWhileD set_takeWhileD in_set_takeD split: if_splits)

text \<open>One step of the walk, put before the rest.\<close>

lemma walked_step:
  assumes "walked H s4 e rest err p leaf s'" "cache_step s s4" "length (cleanup_inodes s4) \<le> length (cleanup_inodes s) + 2"
    "\<And>n. runs_out n s4 \<Longrightarrow> runs_out (n + 1) s" "length rest < length path" "components path = nm # components rest" "components rest \<noteq> []"
    "is_dir (blks s) inum" "e = entry_of (blks s) inum nm" "e \<noteq> 0"
  shows "walked H s inum path err p leaf s'"
proof -
  have m: "runs_out n s" if "runs_out m s" "m \<le> n" for m n using that by (simp add: runs_out_def)
  have b: "bdata (blks s4) = bdata (blks s)" using assms(2) by (simp add: cache_step_def)
  have "resolve (blks s) inum (butlast (components path)) = resolve (blks s4) e (butlast (components rest))"
    using assms(6-10) tree_cong(4) [OF b] by simp
  moreover have "runs_out (n + length path) s" if "runs_out (n + length rest) s4" for n using assms(4) [OF that] m assms(5) by simp
  moreover note cache_step_trans [OF assms(2)]
  ultimately show ?thesis using assms(1,3,5-7) by (auto simp: walked_def split: sum.splits) (metis add_0)+
qed

lemma path_walk_loop_ok:
  "fs_ok {} (add_mset cur H) (2 * length path + 2) s \<Longrightarrow> node_at s cur inum \<Longrightarrow> 0 \<notin> set path \<Longrightarrow>
    \<exists>err p leaf s'. path_walk_loop s cur path = Some (err, p, leaf, s') \<and> walked H s inum path err p leaf s'"
proof (induction "length path" arbitrary: s cur path inum rule: less_induct)
  case less
  let ?next = "fst (path_next_element path)" and ?name = "snd (path_next_element path)" and ?H = "add_mset cur H"
  show ?case
  proof (cases "is_dir (blks s) inum \<and> ?next \<noteq> []")
    case False
    then show ?thesis using find_parent_leaf [OF less.prems(1,2)] by blast
  next
    case t: True
    have sh: "length ?next < length path" using t path_next_shorter by blast
    have ne: "components path \<noteq> []" using t path_next_empty [of path] by auto
    have cs: "components path = ?name # components ?next" "components ?next \<noteq> []" using path_next_components [OF ne] t by auto
    have z: "0 \<notin> set ?name" "0 \<notin> set ?next" using path_next_set [of path] less.prems(3) by auto
    obtain ino where i: "inodes s cur = Some ino" "i_inum ino = inum" "fs_is_inode_valid ino" "i_ftype ino = FTYPE_DIR"
      using node_at_dnode [OF less.prems(1,2)] t by blast
    obtain s1 where k: "lock_inode s cur = Some s1" "s1 = set_inode cur (ino\<lparr>i_locked := True\<rparr>) s" "fs_ok {cur} ?H (2 * length path + 2) s1" "cache_step s s1"
      using lock_ok [OF less.prems(1) i(1)] by auto
    have b1: "blks s1 = blks s" "inodes s1 cur = Some (ino\<lparr>i_locked := True\<rparr>)" "node_at s1 cur inum" "inode_news s1 = inode_news s"
      using less.prems(2) i by (auto simp: k(2) node_at_def)
    have f1: "fs_ok {cur} ?H 1 s1" using fs_ok_step [OF k(3) _ fs_okD(1) [OF k(3)], of 1] fs_okD [OF k(3)] by (simp add: cache_step_def)
    define e where "e = entry_of (blks s) inum ?name"
    obtain err p s2 where lk: "sfs_lookup s1 cur ?name = Some (err, p, s2)" "looked_up {cur} ?H s1 e err p s2" "inodes s2 cur = inodes s1 cur"
      using sfs_lookup_ok [OF f1 b1(3) _ z(1)] t b1(1) by (auto simp: e_def)
    have s2: "cache_step s1 s2" "inodes_agree s2" "news_ok s2" "length (cleanup_inodes s2) \<le> length (cleanup_inodes s) + 1"
      "\<And>n. runs_out n s2 \<Longrightarrow> runs_out (n + 1) s" "runs_out 0 s1 \<longleftrightarrow> runs_out 0 s"
      using lk(2) by (auto simp: looked_up_def cache_step_def k(2) news_step_def runs_out_def)
    have i2: "inodes s2 cur = Some (ino\<lparr>i_locked := True\<rparr>)" using lk(3) b1(2) by simp
    have c2: "cache_step s s2" using cache_step_trans [OF k(4) s2(1)] .
    have unf: "path_walk_loop s cur path = do { s \<leftarrow> unlock_inode s2 cur; s \<leftarrow> fs_release_inode s cur;
        if err \<noteq> ERR_OK then Some (err, NULL, [], s) else path_walk_loop s p ?next }"
      by (subst path_walk_loop.simps) (use k(1) b1(2) i(4) t lk(1) in simp)
    show ?thesis
    proof (cases "err = ERR_OK")
      case False
      then have er: "icache_ok {cur} ?H s2" "err = ERR_NOTEXIST \<and> e = 0 \<or> err = ERR_NOMEM \<and> runs_out 0 s" using lk(2) s2(6) by (auto simp: looked_up_def)
      obtain s3 s4 where r: "unlock_inode s2 cur = Some s3" "fs_release_inode s3 cur = Some s4" "icache_ok {} H s4" "cache_step s2 s4" "inode_news s4 = inode_news s2"
          "length (cleanup_inodes s4) \<le> length (cleanup_inodes s2) + 1"
        using unlock_release_ok [OF er(1) s2(2,3) i2] by blast
      have ro: "runs_out (n + length path) s" if "runs_out n s4" for n using s2(5) [of n] that r(5) sh by (auto simp: runs_out_def)
      have "walked H s inum path err NULL [] s4"
        using er(2) r(3,6) s2(4) cache_step_trans [OF c2 r(4)] ro t cs sh by (auto simp: walked_def e_def runs_out_def)
      then show ?thesis using unf r(1,2) False by auto
    next
      case True
      then have g: "e \<noteq> 0" "p \<noteq> cur" "icache_ok {cur} (add_mset cur (add_mset p H)) s2" "\<exists>ino. inodes s2 p = Some ino \<and> i_inum ino = e \<and> fs_is_inode_valid ino"
        using lk(2) by (auto simp: looked_up_def add_mset_commute)
      obtain s3 s4 where r: "unlock_inode s2 cur = Some s3" "fs_release_inode s3 cur = Some s4" "icache_ok {} (add_mset p H) s4" "cache_step s2 s4" "inode_news s4 = inode_news s2"
          "length (cleanup_inodes s4) \<le> length (cleanup_inodes s2) + 1" "\<And>q. q \<noteq> cur \<Longrightarrow> inodes s4 q = inodes s2 q"
        using unlock_release_ok [OF g(3) s2(2,3) i2] by blast
      have c4: "cache_step s s4" using cache_step_trans [OF c2 r(4)] .
      have f4: "fs_ok {} (add_mset p H) (2 * length ?next + 2) s4" using fs_ok_step [OF less.prems(1) c4 r(3)] r(6) s2(4) sh by simp
      have "unat e < unat (s_num_inodes (sbi s))"
        using entry_of_range [of "sbi s" "blks s" inum ?name] less.prems(1,2) t g(1) by (auto simp: e_def fs_ok_def node_at_def)
      then have n4: "node_at s4 p e" using g(1,2,4) r(7) c4 by (auto simp: node_at_def cache_step_def word_gt_0)
      obtain err' p' leaf s' where w: "path_walk_loop s4 p ?next = Some (err', p', leaf, s')" "walked H s4 e ?next err' p' leaf s'"
        using less.hyps [OF sh f4 n4 z(2)] by blast
      have "walked H s inum path err' p' leaf s'" by (rule walked_step [OF w(2) c4 _ _ sh cs]) (use r(5,6) s2(4,5) t g(1) in \<open>auto simp: e_def runs_out_def\<close>)
      then show ?thesis using unf r(1,2) True w(1) by auto
    qed
  qed
qed

text \<open>Where the lookup of a path starts.\<close>

definition start_inum :: "fs_sys \<Rightarrow> ptr option \<Rightarrow> u8 list \<Rightarrow> u32" where
  "start_inum s cwd path = (case cwd of
     Some c \<Rightarrow> if path \<noteq> [] \<and> hd path = slash then SFS_ROOT_INUM else i_inum (the (inodes s c))
   | None \<Rightarrow> SFS_ROOT_INUM)"

definition start_ok :: "ptr multiset \<Rightarrow> fs_sys \<Rightarrow> ptr option \<Rightarrow> u8 list \<Rightarrow> bool" where
  "start_ok H s cwd path \<longleftrightarrow> unat (start_inum s cwd path) < unat (s_num_inodes (sbi s)) \<and> (\<forall>c. cwd = Some c \<longrightarrow> c \<in># H)"

lemma fs_find_parent_ok:
  assumes "fs_ok {} H (2 * length path + 4) s" "start_ok H s cwd path" "0 \<notin> set path"
  shows "\<exists>err p leaf s'. fs_find_parent_inode s cwd path = Some (err, p, leaf, s')
    \<and> (err = ERR_NOMEM \<and> runs_out 0 s \<and> icache_ok {} H s' \<and> cache_step s s'
       \<or> (\<exists>s1. walked H s1 (start_inum s cwd path) path err p leaf s' \<and> cache_step s s1 \<and> news_step s s1 \<and> length (cleanup_inodes s1) \<le> length (cleanup_inodes s) + 1))"
proof -
  note c = fs_okD [OF assms(1)]
  let ?d = "start_inum s cwd path"
  have z: "?d \<noteq> 0"
  proof (cases cwd)
    case (Some w)
    then obtain ino where "inodes s w = Some ino" using icache_ok_held [OF c(1)] assms(2) by (auto simp: start_ok_def)
    then show ?thesis using icache_okD(2) [OF c(1)] Some by (simp add: start_inum_def)
  qed (simp add: start_inum_def)
  have st: "(case cwd of Some c \<Rightarrow> if path \<noteq> [] \<and> hd path = slash then Some SFS_ROOT_INUM else do { ino \<leftarrow> inodes s c; Some (i_inum ino) }
       | None \<Rightarrow> Some SFS_ROOT_INUM) = Some ?d"
    using icache_ok_held [OF c(1)] assms(2) by (fastforce simp: start_inum_def start_ok_def split: option.splits)
  have h: "bheld (blks s) = {}" "\<forall>n. answers (blks s) n" "size H + length (cleanup_inodes s) + 1 < 2 ^ 32" using assms(1) by (simp_all add: fs_ok_def)
  obtain err p s1 where g: "fs_get_inode s ?d = Some (err, p, s1)" "got_inode {} H s ?d err p s1"
    using fs_get_inode_ok [OF c z h(3) _ h(1)] by blast
  have unf: "fs_find_parent_inode s cwd path = (if err \<noteq> ERR_OK then Some (err, NULL, [], s1) else path_walk_loop s1 p path)"
    using st z g(1) by (simp add: fs_find_parent_inode_def word_gt_0)
  show ?thesis
  proof (cases "err = ERR_OK")
    case False
    then show ?thesis using unf g(2) h(2) by (auto simp: got_inode_def)
  next
    case True
    then have r: "icache_ok {} (add_mset p H) s1" "cache_step s s1" "news_step s s1" "length (cleanup_inodes s1) \<le> length (cleanup_inodes s) + 1"
        "\<exists>ino. inodes s1 p = Some ino \<and> i_inum ino = ?d \<and> fs_is_inode_valid ino"
      using g(2) by (auto simp: got_inode_def)
    have "fs_ok {} (add_mset p H) (2 * length path + 2) s1" using fs_ok_step [OF assms(1) r(2,1)] r(4) by simp
    moreover have "node_at s1 p ?d" using r(2,5) z assms(2) by (auto simp: node_at_def start_ok_def cache_step_def word_gt_0)
    ultimately show ?thesis using path_walk_loop_ok assms(3) unf True r(2-4) by metis
  qed
qed

text \<open>The number that a path names.\<close>

definition resolve_path :: "blocks \<Rightarrow> u32 \<Rightarrow> u8 list list \<Rightarrow> err_t + u32" where
  "resolve_path b inum ns = (case resolve b inum (butlast ns) of
     Inl e \<Rightarrow> Inl e
   | Inr i \<Rightarrow> if ns = [] then Inr i else if entry_of b i (last ns) = 0 then Inl ERR_NOTEXIST else Inr (entry_of b i (last ns)))"

lemma resolve_is_dir: "resolve b inum ns = Inr i \<Longrightarrow> is_dir b i"
  by (induction ns arbitrary: inum) (auto split: if_splits)

lemma runs_out_mono: "runs_out m s \<Longrightarrow> m \<le> n \<Longrightarrow> runs_out n s"
  by (simp add: runs_out_def)

lemma split_path_set: "w \<in> set (split_path cs) \<Longrightarrow> set w \<subseteq> set cs"
proof (induction cs arbitrary: w)
  case (Cons c cs)
  have "split_path cs \<noteq> []" by (cases cs) auto
  then obtain v vs where v: "split_path cs = v # vs" by (cases "split_path cs") auto
  then show ?case using Cons.prems Cons.IH [of w] Cons.IH [of v] by (auto split: if_splits)
qed simp

lemma components_set: "components path \<noteq> [] \<Longrightarrow> set (last (components path)) \<subseteq> set path"
proof -
  have "set w \<subseteq> set path" if "w \<in> set (components path)" for w
    using that split_path_set [of _ path] by (fastforce simp: components_def dest!: in_set_takeD)
  then show "components path \<noteq> [] \<Longrightarrow> set (last (components path)) \<subseteq> set path" by simp
qed

lemma components_nonempty: "components path \<noteq> [] \<Longrightarrow> last (components path) \<noteq> []"
  using last_in_set [of "components path"] by (auto simp: components_def)

lemma walked_found:
  assumes "walked H s inum path err p leaf s'" "err = ERR_OK"
  shows "\<exists>i. resolve (blks s) inum (butlast (components path)) = Inr i \<and> icache_ok {} (add_mset p H) s' \<and> node_at s' p i
    \<and> leaf = (if components path = [] then [] else last (components path)) \<and> cache_step s s'
    \<and> length (cleanup_inodes s') \<le> length (cleanup_inodes s) + 2 * length path + 1 \<and> (\<forall>n. runs_out n s' \<longrightarrow> runs_out (n + length path) s)"
proof -
  have "resolve b i ns \<noteq> Inl ERR_OK" for b i ns by (induction ns arbitrary: i) auto
  then show ?thesis using assms by (auto simp: walked_def split: sum.splits)
qed

lemma walk_failed:
  assumes "err = ERR_NOMEM \<and> runs_out 0 s \<and> icache_ok {} H s2 \<and> cache_step s s2
       \<or> (\<exists>s1. walked H s1 d path err p leaf s2 \<and> cache_step s s1 \<and> news_step s s1 \<and> length (cleanup_inodes s1) \<le> length (cleanup_inodes s) + 1)" "err \<noteq> ERR_OK"
  shows "cache_step s s2 \<and> (err = ERR_NOMEM \<and> icache_ok {} H s2 \<and> runs_out (length path + 1) s
    \<or> resolve (blks s) d (butlast (components path)) = Inl err \<and> icache_ok {} H s2)"
  using assms(1)
proof (elim disjE exE conjE)
  fix s1 assume w: "walked H s1 d path err p leaf s2" "cache_step s s1" "news_step s s1"
  have e: "resolve (blks s1) d ns = resolve (blks s) d ns" for ns using tree_cong(4) [of "blks s1" "blks s" d ns] w(2) by (simp add: cache_step_def)
  have "err = ERR_NOMEM \<and> runs_out (length path) s1 \<and> icache_ok {} H s2 \<or> resolve (blks s) d (butlast (components path)) = Inl err \<and> icache_ok {} H s2"
    using w(1) assms(2) unfolding walked_def e by (cases "resolve (blks s) d (butlast (components path))") auto
  moreover have "cache_step s s2" using w(1) cache_step_trans [OF w(2)] by (simp add: walked_def)
  ultimately show ?thesis using w(3) unfolding news_step_def by blast
qed (auto intro: runs_out_mono)

lemma find_leaf_ok:
  assumes "fs_ok {} (add_mset p H) 1 s" "node_at s p i" "is_dir (blks s) i" "0 \<notin> set name"
  shows "\<exists>err q s1 s'. sfs_lookup s p name = Some (err, q, s1) \<and> fs_release_inode s1 p = Some s' \<and> cache_step s s'
    \<and> (if err = ERR_OK then entry_of (blks s) i name \<noteq> 0 \<and> icache_ok {} (add_mset q H) s'
         \<and> (\<exists>ino. inodes s' q = Some ino \<and> i_inum ino = entry_of (blks s) i name \<and> fs_is_inode_valid ino)
       else icache_ok {} H s' \<and> (err = ERR_NOTEXIST \<and> entry_of (blks s) i name = 0 \<or> err = ERR_NOMEM \<and> runs_out 0 s))"
proof -
  obtain err q s1 where l: "sfs_lookup s p name = Some (err, q, s1)" "looked_up {} (add_mset p H) s (entry_of (blks s) i name) err q s1"
    using sfs_lookup_ok [OF assms] by auto
  define G where "G = (if err = ERR_OK then add_mset q H else H)"
  have ok: "icache_ok {} (add_mset p G) s1" "inodes_agree s1" "news_ok s1" "cache_step s s1"
    using l(2) by (auto simp: looked_up_def G_def cache_step_def add_mset_commute)
  obtain s' where r: "fs_release_inode s1 p = Some s'" "icache_ok {} G s'" "cache_step s1 s'" "\<forall>q. q \<noteq> p \<longrightarrow> inodes s' q = inodes s1 q"
      "\<forall>ino'. inodes s' p = Some ino' \<longrightarrow> (\<exists>ino. inodes s1 p = Some ino \<and> i_inum ino' = i_inum ino \<and> fs_is_inode_valid ino' = fs_is_inode_valid ino)"
    using release_ok [OF ok(1) _ _ ok(2,3), of p] by auto
  have "\<exists>ino'. inodes s' q = Some ino' \<and> i_inum ino' = i_inum ino \<and> fs_is_inode_valid ino'"
    if v: "err = ERR_OK" "inodes s1 q = Some ino" "fs_is_inode_valid ino" for ino
  proof -
    have "q \<in># G" using v(1) by (simp add: G_def)
    then obtain ino' where "inodes s' q = Some ino'" using icache_ok_held [OF r(2)] by blast
    then show ?thesis using r(4,5) v(2,3) by (cases "q = p") auto
  qed
  then show ?thesis using l r(1,2) cache_step_trans [OF ok(4) r(3)] by (auto simp: looked_up_def G_def)
qed

text \<open>C19. Looking up a path in a well-formed file system with memory in the block cache and reference counts far from wrapping returns, and finds the inode of the number that walking along the components of the path gives, or the error of the first
  component that is missing or no directory.  The caller has one more reference to the inode that was found and none after an error; the references to all
  other inodes are as before, the disk is not changed, and the only other outcome is that no memory is left for inodes.\<close>

theorem fs_find_inode_correct:
  assumes "fs_ok {} H (4 * length path + 8) s" "start_ok H s cwd path" "0 \<notin> set path"
  shows "\<exists>err p s'. fs_find_inode s cwd path = Some (err, p, s') \<and> bdata (blks s') = bdata (blks s)
    \<and> (err = ERR_NOMEM \<and> icache_ok {} H s' \<and> runs_out (length path + 1) s
       \<or> (case resolve_path (blks s) (start_inum s cwd path) (components path) of
            Inl e \<Rightarrow> err = e \<and> icache_ok {} H s'
          | Inr i \<Rightarrow> err = ERR_OK \<and> icache_ok {} (add_mset p H) s' \<and> (\<exists>ino. inodes s' p = Some ino \<and> i_inum ino = i \<and> fs_is_inode_valid ino)))"
proof -
  let ?d = "start_inum s cwd path" and ?cs = "components path"
  have f0: "fs_ok {} H (2 * length path + 4) s" using assms(1) by (simp add: fs_ok_def)
  obtain err p leaf s2 where e: "fs_find_parent_inode s cwd path = Some (err, p, leaf, s2)"
    and r: "err = ERR_NOMEM \<and> runs_out 0 s \<and> icache_ok {} H s2 \<and> cache_step s s2
       \<or> (\<exists>s1. walked H s1 ?d path err p leaf s2 \<and> cache_step s s1 \<and> news_step s s1 \<and> length (cleanup_inodes s1) \<le> length (cleanup_inodes s) + 1)"
    using fs_find_parent_ok [OF f0 assms(2,3)] by blast
  show ?thesis
  proof (cases "err = ERR_OK")
    case False
    have "cache_step s s2 \<and> (err = ERR_NOMEM \<and> icache_ok {} H s2 \<and> runs_out (length path + 1) s \<or> resolve (blks s) ?d (butlast ?cs) = Inl err \<and> icache_ok {} H s2)"
      using r by (rule walk_failed) (rule False)
    then show ?thesis using e False by (auto simp: fs_find_inode_def resolve_path_def cache_step_def)
  next
    case True
    then obtain s1 where w: "walked H s1 ?d path err p leaf s2" "cache_step s s1" "news_step s s1" "length (cleanup_inodes s1) \<le> length (cleanup_inodes s) + 1"
      using r by auto
    obtain i where i: "resolve (blks s) ?d (butlast ?cs) = Inr i" "icache_ok {} (add_mset p H) s2" "node_at s2 p i" "leaf = (if ?cs = [] then [] else last ?cs)"
        "cache_step s1 s2" "length (cleanup_inodes s2) \<le> length (cleanup_inodes s1) + 2 * length path + 1"
        "\<And>n. runs_out n s2 \<Longrightarrow> runs_out (n + length path) s1"
      using walked_found [OF w(1) True] tree_cong(4) [of "blks s1" "blks s"] w(2) by (auto simp: cache_step_def)
    have c2: "cache_step s s2" using cache_step_trans [OF w(2) i(5)] .
    show ?thesis
    proof (cases "leaf = []")
      case t: True
      then have "?cs = []" using i(4) components_nonempty [of path] by (auto split: if_splits)
      then show ?thesis using e True t i(1-3) c2 by (auto simp: fs_find_inode_def resolve_path_def node_at_def cache_step_def)
    next
      case f: False
      have f2: "fs_ok {} (add_mset p H) 1 s2" using fs_ok_step [OF assms(1) c2 i(2)] i(6) w(4) by simp
      have d2: "is_dir (blks s2) i" "entry_of (blks s2) i = entry_of (blks s) i" "bdata (blks s2) = bdata (blks s)"
        using resolve_is_dir [OF i(1)] tree_cong(2,3) [of "blks s2" "blks s"] c2 by (auto simp: cache_step_def)
      have z: "0 \<notin> set leaf" "?cs \<noteq> []" "leaf = last ?cs" using components_set [of path] assms(3) f i(4) by (auto split: if_splits)
      have ro: "runs_out (length path + 1) s" if "runs_out 0 s2" using i(7) [OF that] w(3) by (simp add: news_step_def)
      show ?thesis using e True f find_leaf_ok [OF f2 i(3) d2(1) z(1)] i(1) z(2,3) d2(2,3) ro
        by (auto simp: fs_find_inode_def resolve_path_def cache_step_def split: if_splits)
    qed
  qed
qed

text \<open>The directory of two entries as root of a file system with no inode in memory.\<close>

definition demo_fs :: fs_sys where
  "demo_fs = \<lparr>blks = demo_dir_blocks 2, sbi = demo_si, icache = Map.empty, inodes = Map.empty, cleanup_inodes = [],
     inode_news = map (\<lambda>p. (p, True, True)) [1, 2, 3, 4]\<rparr>"

lemma demo_node: "i_addrs (dnode (demo_dir_blocks 2) 1) = i_addrs demo_dir" "i_size (dnode (demo_dir_blocks 2) 1) = i_size demo_dir"
    "is_dir (demo_dir_blocks 2) 1"
  by code_simp+

lemma demo_no_dir: "unat inum < 8 \<Longrightarrow> 0 < inum \<Longrightarrow> is_dir (demo_dir_blocks 2) inum \<Longrightarrow> inum = 1"
proof (rule ccontr)
  assume a: "unat inum < 8" "0 < inum" "is_dir (demo_dir_blocks 2) inum" "inum \<noteq> 1"
  define k where "k = inum - 1"
  have u: "unat k = unat inum - 1" "unat inum \<noteq> 0" using a(2) by (auto simp: k_def unat_minus_one word_gt_0 unat_eq_0)
  moreover have "unat inum \<noteq> 1" using a(4) by (metis unat_1 word_unat_eq_iff)
  ultimately have k: "unat k < 8" "1 \<le> unat k" using a(1) by linarith+
  have "unat (k div 8) = 0" using k(1) by (simp add: unat_div)
  then have t: "inum_to_blk inum = 4" "inum_to_ofs inum = unat k * 64" using k(1) by (simp_all add: inum_to_blk_def inum_to_ofs_def k_def [symmetric] unat_eq_0)
  have "length (enc_inode demo_dir) = 64" by (simp add: length_enc_inode demo_dir_def demo_ino_def)
  then have "rd (demo_dir_data 2 4) (unat k * 64) 1 = 0" using k by (simp add: demo_dir_data_def rd_def take_replicate min_def)
  then show False using a(3) t by (simp add: is_dir_def dnode_def dec_inode_def demo_blocks_def)
qed

lemma demo_fs_ok: "fs_ok {} {#} 100 demo_fs"
proof -
  let ?b = "demo_dir_blocks 2"
  note c = dir_cong [OF demo_node(1,2)]
  have i: "i_inum (dnode ?b 1) = i_inum demo_dir" by (simp add: dnode_def demo_dir_def demo_ino_def)
  have e: "ent_inum ?b (dnode ?b 1) k = 2 \<or> ent_inum ?b (dnode ?b 1) k = 3" if "k < nents (dnode ?b 1)" for k
    using that demo_entries(1,3) [of 2] demo_entries(5) by (cases "k = 0") (auto simp: c less_2_cases_iff)
  have "dir_ok demo_si ?b (dnode ?b inum) \<and> (\<forall>k < nents (dnode ?b inum). unat (ent_inum ?b (dnode ?b inum) k) < 8 \<and> ent_inum ?b (dnode ?b inum) k \<noteq> inum)"
    if "0 < inum" "unat inum < 8" "is_dir ?b inum" for inum
  proof -
    have "inum = 1" using demo_no_dir that by blast
    then show ?thesis using c(4) [OF i] demo_dir_ok(1) [of 2] e by fastforce
  qed
  then have "tree_ok demo_si ?b" by (simp add: tree_ok_def) (simp add: demo_si_def)
  then show ?thesis
    by (simp add: fs_ok_def demo_fs_def icache_ok_def inodes_agree_def news_ok_def) (simp add: demo_blocks_def)
qed

theorem fs_find_inode_correct_witness:
  "\<exists>p s'. fs_find_inode demo_fs None [47, 98] = Some (ERR_OK, p, s') \<and> icache_ok {} {#p#} s' \<and> (\<exists>ino. inodes s' p = Some ino \<and> i_inum ino = 3)"
proof -
  have l: "[0..<2] = [0, 1 :: nat]" by (simp add: upt_rec)
  have f: "found (demo_dir_blocks 2) demo_dir [98] 0 = 3" using demo_entries(1-4) [of 2] by (simp add: demo_entries(5) found_def ent_match_def l)
  have "entry_of (demo_dir_blocks 2) 1 [98] = 3" using dir_cong(3) [OF demo_node(1,2)] f by (simp add: entry_of_def)
  then have r: "resolve_path (blks demo_fs) (start_inum demo_fs None [47, 98]) (components [47, 98]) = Inr 3"
    using demo_node(3) by (simp add: resolve_path_def components_def start_inum_def demo_fs_def)
  have "fs_ok {} {#} (4 * length [47, 98 :: u8] + 8) demo_fs" using demo_fs_ok by (simp add: fs_ok_def)
  moreover have "start_ok {#} demo_fs None [47, 98]" by (simp add: start_ok_def start_inum_def demo_fs_def demo_si_def)
  moreover have "\<not> runs_out (length [47, 98 :: u8] + 1) demo_fs" by (simp add: runs_out_def demo_fs_def)
  ultimately show ?thesis using fs_find_inode_correct [of "{#}" "[47, 98]" demo_fs None] r by auto
qed

text \<open>When an inode has been allocated but its private part or the node of the tree cannot be, the error path frees the inode while its reference count is one:
  the kernel stops instead of returning the error.\<close>

theorem inode_error_path_stops:
  assumes "icache s inum = None" "inode_news s = (p, info, tree) # news" "p \<noteq> NULL" "\<not> info \<or> \<not> tree"
  shows "fs_get_inode s inum = None"
proof -
  have "i_ref fs_alloc_inode = 1" by (simp add: fs_alloc_inode_def fs_set_inode_valid_def fs_set_inode_dirty_def)
  then show ?thesis using assms by (auto simp: fs_get_inode_def icache_get_def sfs_alloc_inode_def sfs_free_inode_def fs_free_inode_def Let_def)
qed

theorem inode_error_path_stops_witness: "fs_get_inode (demo_fs\<lparr>inode_news := [(8, True, False)]\<rparr>) 1 = None"
  by (rule inode_error_path_stops [of _ _ 8 True False "[]"]) (simp_all add: demo_fs_def)

lemma delete_retry_inum: "delete_retry s p = Some s' \<Longrightarrow> \<exists>ino. inodes s' p = Some ino \<and> i_inum ino = 0"
proof (induction rule: delete_retry.raw_induct [rotated, consumes 1, case_names step])
  case (step f s p s')
  then obtain err s1 where e: "with_inode s p (sfs_delete_inode (sbi s)) = Some (err, s1)" "(if err \<noteq> ERR_OK then f s1 p else Some s1) = Some s'"
    by (auto split: bind_splits)
  show ?case
  proof (cases "err = ERR_OK")
    case True
    then show ?thesis using e by (auto simp: with_inode_def sfs_delete_inode_def fs_set_inode_valid_def split: bind_splits if_splits)
  qed (use e step.IH in auto)
qed

text \<open>The cleanup thread never gets past an inode without links: deleting it sets its number to zero, which the release that follows refuses.\<close>

theorem cleanup_deleted_stops:
  assumes "cleanup_inodes s = p # rest" "inodes s p = Some ino" "i_nlink ino = 0"
  shows "fs_inode_cleanup_thread s = None"
proof -
  have "do { s4 \<leftarrow> unlock_inode s3 p; fs_release_inode s4 p } = None" if "delete_retry s2 p = Some s3" for s2 s3
    using delete_retry_inum [OF that] by (auto simp: unlock_inode_def fs_release_inode_def lock_inode_def)
  then show ?thesis using assms
    by (auto simp: fs_inode_cleanup_thread_def Let_def lock_inode_def split: bind_split)
qed

theorem cleanup_deleted_stops_witness:
  "fs_inode_cleanup_thread (demo_fs\<lparr>inodes := [1 \<mapsto> (new_inode 2)\<lparr>i_state := 1\<rparr>], cleanup_inodes := [1]\<rparr>) = None"
  by (rule cleanup_deleted_stops [where rest = "[]"]) (auto simp: new_inode_def fs_alloc_inode_def fs_set_inode_valid_def fs_set_inode_dirty_def)

end
