(* ===== verification/Console.thy ===== *)
theory Console
  imports Prelude
begin

text \<open>
  The console of \<^verbatim>\<open>kernel/console.c\<close>: the line editor between the keyboard and the readers, printing of numbers and \<open>kprintf\<close>.
  The input buffer has 256 bytes and three free-running 32-bit indices: bytes up to \<open>w\<close> are ready to be read, bytes from \<open>w\<close> to \<open>e\<close> are the
  line being edited.  The two output devices are the sequences of characters sent to them; \<open>putc\<close> of the drivers is port output.
  A reader that finds no byte waits, and continues with what is left of its request when it is woken.
\<close>

unbundle bit_operations_syntax

abbreviation (input) BUF_LEN :: nat where "BUF_LEN \<equiv> 256"
abbreviation (input) BACKSPACE :: int where "BACKSPACE \<equiv> 256"
abbreviation (input) ctrl_U :: u8 where "ctrl_U \<equiv> 21"
abbreviation (input) ctrl_H :: u8 where "ctrl_H \<equiv> 8"
abbreviation (input) ctrl_D :: u8 where "ctrl_D \<equiv> 4"
abbreviation (input) DEL :: u8 where "DEL \<equiv> 127"
abbreviation (input) newline :: u8 where "newline \<equiv> 10"
abbreviation (input) return :: u8 where "return \<equiv> 13"

record console =
  con_buf :: "u8 list"
  con_r :: u32
  con_w :: u32
  con_e :: u32
  uart_out :: "int list"
  cga_out :: "int list"

section \<open>Output\<close>

definition console_putc :: "console \<Rightarrow> int \<Rightarrow> console" where
  "console_putc s c = s\<lparr>uart_out := uart_out s @ (if c = BACKSPACE then [8, 32, 8] else [c]), cga_out := cga_out s @ [c]\<rparr>"

definition digits :: "int list" where
  "digits = map (\<lambda>i. 48 + i) [0..9] @ map (\<lambda>i. 65 + i) [0..5]"

text \<open>The loop that fills the buffer with digits, lowest first; \<open>sz\<close> is the size of the buffer, behind which it must not write.\<close>

function digit_loop :: "nat \<Rightarrow> 'a :: len word \<Rightarrow> 'a word \<Rightarrow> int list \<Rightarrow> int list exec" where
  "digit_loop sz num base buf =
     (if length buf < sz \<and> unat (num mod base) < 16 then
        let buf = buf @ [digits ! unat (num mod base)]; num = num div base in
        if num \<noteq> 0 then digit_loop sz num base buf else Some buf
      else None)"
  by pat_completeness auto
termination by (relation "measure (\<lambda>(sz, num, base, buf). sz - length buf)") auto

declare digit_loop.simps [simp del]

fun put_all :: "console \<Rightarrow> int list \<Rightarrow> console" where
  "put_all s [] = s"
| "put_all s (c # cs) = put_all (console_putc s c) cs"

definition printnum64 :: "console \<Rightarrow> u64 \<Rightarrow> u64 \<Rightarrow> bool \<Rightarrow> console exec" where
  "printnum64 s num base sign = do {
     let sign = (sign \<and> sint num < 0);
     let num = (if sign then - num else num);
     buf \<leftarrow> digit_loop 32 num base [];
     let s = (if sign then console_putc s 45 else s);
     let s = (if base = 16 then console_putc (console_putc s 48) 120 else s);
     Some (put_all s (rev buf)) }"

definition printnum :: "console \<Rightarrow> u32 \<Rightarrow> u32 \<Rightarrow> bool \<Rightarrow> console exec" where
  "printnum s num base sign = do {
     let sign = (sign \<and> sint num < 0);
     let num = (if sign then - num else num);
     buf \<leftarrow> digit_loop 16 num base [];
     let s = (if sign then console_putc s 45 else s);
     let s = (if base = 16 then console_putc (console_putc s 48) 120 else s);
     Some (put_all s (rev buf)) }"

text \<open>The arguments of \<open>kprintf\<close> are words, or strings that may be a null pointer.  An argument that is missing or of the wrong kind has no result.\<close>

datatype karg = KWord u64 | KString "int list option"

definition va_word :: "karg list \<Rightarrow> (u64 \<times> karg list) exec" where
  "va_word args = (case args of KWord w # rest \<Rightarrow> Some (w, rest) | _ \<Rightarrow> None)"

definition va_string :: "karg list \<Rightarrow> (int list option \<times> karg list) exec" where
  "va_string args = (case args of KString p # rest \<Rightarrow> Some (p, rest) | _ \<Rightarrow> None)"

definition kprintf_directive :: "console \<Rightarrow> int \<Rightarrow> karg list \<Rightarrow> (console \<times> karg list) exec" where
  "kprintf_directive s c args =
     (if c = 99 then do { (w, args) \<leftarrow> va_word args; Some (console_putc s (sint (ucast w :: u32)), args) }
      else if c = 100 then do { (w, args) \<leftarrow> va_word args; s \<leftarrow> printnum s (ucast w) 10 True; Some (s, args) }
      else if c = 117 then do { (w, args) \<leftarrow> va_word args; s \<leftarrow> printnum s (ucast w) 10 False; Some (s, args) }
      else if c = 120 \<or> c = 112 then do { (w, args) \<leftarrow> va_word args; s \<leftarrow> printnum64 s w 16 False; Some (s, args) }
      else if c = 115 then do {
        (p, args) \<leftarrow> va_string args;
        Some (put_all s (case p of None \<Rightarrow> [40, 110, 117, 108, 108, 41] | Some str \<Rightarrow> str), args) }
      else if c = 37 then Some (console_putc s 37, args)
      else Some (console_putc (console_putc s 37) c, args))"

fun kprintf :: "console \<Rightarrow> int list \<Rightarrow> karg list \<Rightarrow> console exec" where
  "kprintf s [] args = Some s"
| "kprintf s (c # fmt) args =
     (if c = 37 then
        (case fmt of
           [] \<Rightarrow> Some s
         | d # fmt' \<Rightarrow> do { (s, args) \<leftarrow> kprintf_directive s d args; kprintf s fmt' args })
      else kprintf (console_putc s c) fmt args)"

definition console_write :: "console \<Rightarrow> u8 list \<Rightarrow> int \<Rightarrow> int \<times> console" where
  "console_write s buf sz = (sz, put_all s (map sint (take (nat sz) buf)))"

section \<open>Input\<close>

function kill_line :: "console \<Rightarrow> console" where
  "kill_line s =
     (if con_e s \<noteq> con_w s \<and> con_buf s ! (unat (con_e s - 1) mod BUF_LEN) \<noteq> newline
      then kill_line (console_putc (s\<lparr>con_e := con_e s - 1\<rparr>) BACKSPACE) else s)"
  by pat_completeness auto
termination
proof (relation "measure (\<lambda>s. unat (con_e s - con_w s))")
  fix s :: console assume "con_e s \<noteq> con_w s \<and> con_buf s ! (unat (con_e s - 1) mod BUF_LEN) \<noteq> newline"
  then have "unat (con_e s - con_w s - 1) < unat (con_e s - con_w s)" by (intro measure_unat) simp
  then have "unat (con_e s - 1 - con_w s) < unat (con_e s - con_w s)" by (simp only: diff_diff_eq add.commute)
  then show "(console_putc (s\<lparr>con_e := con_e s - 1\<rparr>) BACKSPACE, s) \<in> measure (\<lambda>s. unat (con_e s - con_w s))"
    by (simp add: console_putc_def)
qed simp

declare kill_line.simps [simp del]

text \<open>The result tells whether a reader is signalled.\<close>

definition console_storec :: "console \<Rightarrow> u8 \<Rightarrow> bool \<times> console" where
  "console_storec s c =
     (if c = ctrl_U then (False, kill_line s)
      else if c = ctrl_H \<or> c = DEL then
        (if con_e s \<noteq> con_w s then (False, console_putc (s\<lparr>con_e := con_e s - 1\<rparr>) BACKSPACE) else (False, s))
      else if c \<noteq> 0 \<and> unat (con_e s - con_r s) < BUF_LEN then
        let c = (if c = return then newline else c);
            s = s\<lparr>con_buf := (con_buf s)[unat (con_e s) mod BUF_LEN := c], con_e := con_e s + 1\<rparr>;
            s = (if c = newline \<or> c = ctrl_D \<or> con_e s = con_r s + 256 then s\<lparr>con_w := con_e s\<rparr> else s)
        in (True, console_putc s (sint c))
      else (False, s))"

text \<open>A call has returned with its result, or waits with \<open>n\<close> bytes to go.\<close>

datatype con_outcome = RDone int | RWait nat

function con_read_loop :: "console \<Rightarrow> nat \<Rightarrow> nat \<Rightarrow> u8 list \<Rightarrow> con_outcome \<times> u8 list \<times> console" where
  "con_read_loop s sz n acc =
     (if n > 0 then
        if con_r s = con_w s then (RWait n, acc, s)
        else let c = con_buf s ! (unat (con_r s) mod BUF_LEN); s' = s\<lparr>con_r := con_r s + 1\<rparr> in
          if c = ctrl_D then (RDone (int sz - int n), acc, if n < sz then s else s')
          else if c = newline then (RDone (int sz - int (n - 1)), acc @ [c], s')
          else con_read_loop s' sz (n - 1) (acc @ [c])
      else (RDone (int sz - int n), acc, s))"
  by pat_completeness auto
termination by (relation "measure (\<lambda>(s, sz, n, acc). n)") auto

declare con_read_loop.simps [simp del]

text \<open>A size that is not positive reads nothing.\<close>

definition console_read :: "console \<Rightarrow> int \<Rightarrow> con_outcome \<times> u8 list \<times> console" where
  "console_read s sz = (if sz \<le> 0 then (RDone 0, [], s) else con_read_loop s (nat sz) (nat sz) [])"

definition stdin_read :: "console \<Rightarrow> u64 \<Rightarrow> con_outcome \<times> u8 list \<times> console" where
  "stdin_read s cnt = console_read s (sint (ucast cnt :: u32))"

definition stdout_write :: "console \<Rightarrow> u8 list \<Rightarrow> int \<times> console" where
  "stdout_write s buf = console_write s buf (sint (of_nat (length buf) :: u32))"

section \<open>Printed numbers\<close>

text \<open>What a digit stands for, and the value of a numeral with the highest digit first.\<close>

definition digit_val :: "int \<Rightarrow> nat" where
  "digit_val c = nat (if c < 58 then c - 48 else c - 55)"

definition numeral_val :: "nat \<Rightarrow> int list \<Rightarrow> nat" where
  "numeral_val base ds = foldl (\<lambda>v d. v * base + digit_val d) 0 ds"

lemma numeral_val_snoc: "numeral_val base (ds @ [d]) = numeral_val base ds * base + digit_val d"
  by (simp add: numeral_val_def)

lemma digits_nth: "k < 16 \<Longrightarrow> digits ! k = (if k < 10 then 48 + int k else 55 + int k)"
proof -
  have "upto 0 9 = map int [0..<10]" "upto 0 5 = map int [0..<6]" by (simp_all add: upto.simps upt_rec)
  then show "k < 16 \<Longrightarrow> digits ! k = (if k < 10 then 48 + int k else 55 + int k)" by (auto simp: digits_def nth_append)
qed

lemma digit_val_nth: "k < 16 \<Longrightarrow> digit_val (digits ! k) = k" "k < 16 \<Longrightarrow> digits ! k = 48 \<longleftrightarrow> k = 0"
  by (auto simp: digits_nth digit_val_def)

lemma digit_loop_ok:
  assumes "2 \<le> unat base" "unat base \<le> 16"
  shows "length buf < sz \<Longrightarrow> unat num < unat base ^ (sz - length buf) \<Longrightarrow>
    \<exists>ds. digit_loop sz num base buf = Some (buf @ ds) \<and> numeral_val (unat base) (rev ds) = unat num \<and> ds \<noteq> [] \<and> (last ds = 48 \<longrightarrow> ds = [48])"
proof (induction "sz - length buf" arbitrary: num buf)
  case (Suc m)
  define d where "d = digits ! unat (num mod base)"
  have r: "unat (num mod base) < 16" using assms by (simp add: unat_mod) (metis mod_less_divisor less_le_trans not_numeral_le_zero gr0I)
  have dv: "digit_val d = unat num mod unat base" "d = 48 \<longleftrightarrow> unat num mod unat base = 0"
    using digit_val_nth [OF r] by (simp_all add: d_def unat_mod)
  have u: "digit_loop sz num base buf = (if num div base \<noteq> 0 then digit_loop sz (num div base) base (buf @ [d]) else Some (buf @ [d]))"
    using Suc.prems(1) r by (subst digit_loop.simps) (simp add: Let_def d_def)
  have q: "unat (num div base) = unat num div unat base" by (simp add: unat_div)
  show ?case
  proof (cases "num div base = 0")
    case True
    then have "unat num div unat base = 0" using q by simp
    then have "unat num mod unat base = unat num" using assms(1) by (simp add: div_eq_0_iff)
    then show ?thesis using u True dv by (simp add: numeral_val_def)
  next
    case False
    then have nz: "unat num div unat base \<noteq> 0" using q by (metis unat_eq_0)
    have pw: "unat num < unat base * unat base ^ m" using Suc.prems(2) Suc.hyps(2) by (metis power_Suc)
    then have lt: "unat num div unat base < unat base ^ m" by (simp add: less_mult_imp_div_less mult.commute)
    then have m: "m \<noteq> 0" using nz by (cases m) auto
    then have l: "m = sz - length (buf @ [d])" "length (buf @ [d]) < sz" using Suc.hyps(2) by auto
    obtain ds where ds: "digit_loop sz (num div base) base (buf @ [d]) = Some ((buf @ [d]) @ ds)" "numeral_val (unat base) (rev ds) = unat num div unat base"
        "ds \<noteq> []" "last ds = 48 \<longrightarrow> ds = [48]"
      using Suc.hyps(1) [OF l, of "num div base"] lt l(1) unfolding q by metis
    have "last ds \<noteq> 48"
    proof
      assume "last ds = 48"
      then have "rev ds = [48]" using ds(4) by simp
      then show False using ds(2) nz by (simp add: numeral_val_def digit_val_def)
    qed
    then show ?thesis using u False ds dv(1) by (intro exI [of _ "d # ds"]) (auto simp: numeral_val_snoc)
  qed
qed simp

lemma put_all_out: "cga_out (put_all s cs) = cga_out s @ cs"
  by (induction cs arbitrary: s) (auto simp: console_putc_def)

text \<open>The magnitude of a signed number, in the unsigned word that holds it.\<close>

lemma magnitude: "int (unat (num :: u32)) = uint num" "0 \<le> sint num \<Longrightarrow> \<bar>sint num\<bar> = uint num" "sint num < 0 \<Longrightarrow> int (unat (- num)) = \<bar>sint num\<bar>"
proof -
  have u: "uint num < 2 ^ 32" "0 \<le> uint num" using uint_lt2p [of num] by simp_all
  have "odd (uint num div 2147483648)" if "\<not> uint num < 2147483648"
  proof -
    have "uint num div 2147483648 = 1" using that u by (simp add: int_div_pos_eq [where r = "uint num - 2147483648"])
    then show ?thesis by simp
  qed
  then have s: "sint num = (if uint num < 2 ^ 31 then uint num else uint num - 2 ^ 32)"
    using u by (simp add: sint_uint signed_take_bit_eq_take_bit_minus bit_iff_odd take_bit_int_eq_self)
  show "int (unat num) = uint num" by simp
  show "0 \<le> sint num \<Longrightarrow> \<bar>sint num\<bar> = uint num" using s u by (auto split: if_splits)
  show "sint num < 0 \<Longrightarrow> int (unat (- num)) = \<bar>sint num\<bar>"
  proof -
    assume a: "sint num < 0"
    then have v: "uint num \<noteq> 0" "sint num = uint num - 2 ^ 32" using s u by (auto split: if_splits)
    then have "uint (- num) = 2 ^ 32 - uint num" using u by (simp add: uint_word_ariths(4) zmod_zminus1_eq_if)
    then show "int (unat (- num)) = \<bar>sint num\<bar>" using v a by simp
  qed
qed

text \<open>Printing a number in base 10 or 16 returns without overrunning its buffer.  What appears is a minus sign for a negative signed number, the prefix 0x in base 16,
  and digits without leading zeros whose value is the magnitude of the number, the most negative one included.\<close>

theorem printnum_value:
  assumes "base = 10 \<or> base = 16"
  shows "\<exists>s' ds. printnum s num base sign = Some s'
    \<and> cga_out s' = cga_out s @ (if sign \<and> sint num < 0 then [45] else []) @ (if base = 16 then [48, 120] else []) @ ds
    \<and> int (numeral_val (unat base) ds) = (if sign then \<bar>sint num\<bar> else uint num) \<and> (hd ds = 48 \<longrightarrow> ds = [48])"
proof -
  define sg where "sg = (sign \<and> sint num < 0)"
  define n where "n = (if sg then - num else num)"
  have b: "2 \<le> unat base" "unat base \<le> 16" "10 \<le> unat base" using assms by auto
  have "unat n < 2 ^ 32" using unsigned_less [of n, where ?'a = nat] by simp
  also have "\<dots> < 10 ^ 16" by simp
  also have "\<dots> \<le> unat base ^ 16" using b(3) by (rule power_mono) simp
  finally obtain ds where d: "digit_loop 16 n base [] = Some ds" "numeral_val (unat base) (rev ds) = unat n" "ds \<noteq> []" "last ds = 48 \<longrightarrow> ds = [48]"
    using digit_loop_ok [OF b(1,2), of "[]" 16 n] by auto
  have "int (unat n) = (if sign then \<bar>sint num\<bar> else uint num)" using magnitude [of num] by (auto simp: n_def sg_def)
  then show ?thesis using d
    by (intro exI [of _ "rev ds"] exI conjI) (auto simp: printnum_def Let_def sg_def n_def put_all_out console_putc_def hd_rev)
qed

definition demo_console :: console where
  "demo_console = \<lparr>con_buf = replicate 256 0, con_r = - 2, con_w = - 2, con_e = - 2, uart_out = [], cga_out = []\<rparr>"

theorem printnum_value_witness:
  "\<exists>s' ds. printnum demo_console (- 2147483648) 10 True = Some s' \<and> cga_out s' = [45] @ ds \<and> numeral_val 10 ds = 2147483648"
  using printnum_value [of 10 demo_console "- 2147483648" True] by (auto simp: demo_console_def)

section \<open>The line editor\<close>

text \<open>The bytes that a reader may take, and the line being edited.\<close>

definition con_at :: "console \<Rightarrow> nat \<Rightarrow> u8" where
  "con_at s i = con_buf s ! ((unat (con_r s) + i) mod BUF_LEN)"

definition ready :: "console \<Rightarrow> u8 list" where
  "ready s = map (con_at s) [0..<unat (con_w s - con_r s)]"

definition line :: "console \<Rightarrow> u8 list" where
  "line s = map (con_at s) [unat (con_w s - con_r s)..<unat (con_e s - con_r s)]"

definition con_inv :: "console \<Rightarrow> bool" where
  "con_inv s \<longleftrightarrow> length (con_buf s) = BUF_LEN \<and> unat (con_w s - con_r s) \<le> unat (con_e s - con_r s) \<and> unat (con_e s - con_r s) \<le> BUF_LEN
     \<and> newline \<notin> set (line s)"

text \<open>The editor on sequences: what a key does to the ready bytes and the line.\<close>

definition edit_key :: "u8 \<Rightarrow> u8 list \<times> u8 list \<Rightarrow> u8 list \<times> u8 list" where
  "edit_key c = (\<lambda>(rd, ln).
     if c = ctrl_U then (rd, [])
     else if c = ctrl_H \<or> c = DEL then (rd, butlast ln)
     else if c = 0 \<or> length rd + length ln = BUF_LEN then (rd, ln)
     else let c = (if c = return then newline else c) in
       if c = newline \<or> c = ctrl_D \<or> length rd + length ln + 1 = BUF_LEN then (rd @ ln @ [c], []) else (rd, ln @ [c]))"

lemma ring_index: "unat (r + x :: u32) mod BUF_LEN = (unat r + unat x) mod BUF_LEN"
proof -
  have "unat (r + x) = (unat r + unat x) mod 2 ^ 32" by (subst unat_word_ariths) simp
  then show ?thesis by (simp add: mod_mod_cancel)
qed

lemma ring_index_eq: "i < BUF_LEN \<Longrightarrow> j < BUF_LEN \<Longrightarrow> (r + i) mod BUF_LEN = (r + j) mod BUF_LEN \<longleftrightarrow> i = (j :: nat)"
  using mod_eq_dvd_iff_nat [of "r + i" "r + j" BUF_LEN] mod_eq_dvd_iff_nat [of "r + j" "r + i" BUF_LEN]
  by (cases i j rule: linorder_cases) (auto dest: dvd_imp_le)

lemma con_at_last: "con_at s (unat (con_e s - con_r s)) = con_buf s ! (unat (con_e s) mod BUF_LEN)"
  using ring_index [of "con_r s" "con_e s - con_r s"] by (simp add: con_at_def)

lemma unat_step: "x \<noteq> y \<Longrightarrow> unat (x - 1 - y :: u32) = unat (x - y) - 1"
  using unat_minus_one [of "x - y"] by (simp add: algebra_simps)

lemma con_putc [simp]:
  "con_buf (console_putc s c) = con_buf s" "con_r (console_putc s c) = con_r s" "con_w (console_putc s c) = con_w s" "con_e (console_putc s c) = con_e s"
  by (simp_all add: console_putc_def)

lemma con_cong: "con_buf s' = con_buf s \<Longrightarrow> con_r s' = con_r s \<Longrightarrow> con_at s' = con_at s"
  by (simp add: con_at_def fun_eq_iff)

text \<open>Taking back the last byte of the line.\<close>

lemma erase_ok:
  assumes "con_inv s" "con_e s \<noteq> con_w s"
  shows "con_inv (console_putc (s\<lparr>con_e := con_e s - 1\<rparr>) c)" "ready (console_putc (s\<lparr>con_e := con_e s - 1\<rparr>) c) = ready s"
    "line (console_putc (s\<lparr>con_e := con_e s - 1\<rparr>) c) = butlast (line s)" "line s \<noteq> []"
    "last (line s) = con_buf s ! (unat (con_e s - 1) mod BUF_LEN)"
proof -
  let ?s = "console_putc (s\<lparr>con_e := con_e s - 1\<rparr>) c"
  let ?k = "unat (con_w s - con_r s)" and ?m = "unat (con_e s - con_r s)"
  have at: "con_at ?s = con_at s" by (rule con_cong) simp_all
  have "?k \<noteq> ?m" using assms(2) by (metis diff_add_cancel word_unat_eq_iff)
  then have lt: "?k < ?m" using assms(1) by (simp add: con_inv_def)
  then have ne: "con_e s \<noteq> con_r s" by auto
  then have m: "unat (con_e ?s - con_r s) = ?m - 1" using unat_step by simp
  show r: "ready ?s = ready s" by (simp add: ready_def at)
  have up: "[?k..<?m] = [?k..<?m - 1] @ [?m - 1]" using lt upt_Suc_append [of ?k "?m - 1"] by simp
  then show l: "line ?s = butlast (line s)" using m by (simp add: line_def at)
  show "line s \<noteq> []" using lt by (simp add: line_def)
  have "last (line s) = con_at s (?m - 1)" unfolding line_def up by simp
  then show "last (line s) = con_buf s ! (unat (con_e s - 1) mod BUF_LEN)" using con_at_last [of ?s] m at by simp
  show "con_inv ?s" using assms(1) lt m l by (auto simp: con_inv_def dest: in_set_butlastD)
qed

lemma kill_line_ok: "con_inv s \<Longrightarrow> con_inv (kill_line s) \<and> ready (kill_line s) = ready s \<and> line (kill_line s) = []"
proof (induction s rule: kill_line.induct)
  case (1 s)
  show ?case
  proof (cases "con_e s = con_w s")
    case True
    then show ?thesis using "1.prems" by (subst (1 2 3) kill_line.simps) (simp add: line_def)
  next
    case False
    note e = erase_ok(1-3) [OF "1.prems" False, of BACKSPACE] erase_ok(4,5) [OF "1.prems" False]
    have "con_buf s ! (unat (con_e s - 1) mod BUF_LEN) \<noteq> newline" using e(4,5) "1.prems" unfolding con_inv_def by (metis last_in_set)
    then show ?thesis using "1.IH" False e by (subst (1 2 3) kill_line.simps) simp
  qed
qed

text \<open>Adding a byte.\<close>

lemma store_ok:
  assumes "con_inv s" "unat (con_e s - con_r s) < BUF_LEN" and s': "s' = s\<lparr>con_buf := (con_buf s)[unat (con_e s) mod BUF_LEN := c], con_e := con_e s + 1\<rparr>"
  shows "unat (con_e s' - con_r s') = unat (con_e s - con_r s) + 1" "length (con_buf s') = BUF_LEN"
    "map (con_at s') [0..<unat (con_e s' - con_r s')] = ready s @ line s @ [c]" "ready s' = ready s" "line s' = line s @ [c]"
proof -
  let ?k = "unat (con_w s - con_r s)" and ?m = "unat (con_e s - con_r s)"
  have l: "length (con_buf s) = BUF_LEN" "?k \<le> ?m" using assms(1) by (simp_all add: con_inv_def)
  have "con_e s' - con_r s' = (con_e s - con_r s) + 1" by (simp add: s')
  then show m: "unat (con_e s' - con_r s') = ?m + 1" using assms(2) by (simp only: unat_word_ariths) simp
  show "length (con_buf s') = BUF_LEN" using l by (simp add: s')
  have i: "unat (con_e s) mod BUF_LEN = (unat (con_r s) + ?m) mod BUF_LEN" using ring_index [of "con_r s" "con_e s - con_r s"] by simp
  have at: "con_at s' j = (if j = ?m then c else con_at s j)" if "j \<le> ?m" for j
    using that assms(2) l(1) ring_index_eq [of ?m j "unat (con_r s)"] by (simp add: con_at_def s' i nth_list_update)
  show r: "ready s' = ready s" using at l(2) by (simp add: ready_def s')
  show ln: "line s' = line s @ [c]" using at l(2) m by (simp add: line_def s')
  have "[0..<?m + 1] = [0..<?k] @ [?k..<?m + 1]" using upt_add_eq_append [of 0 ?k "?m + 1 - ?k"] l(2) by simp
  then show "map (con_at s') [0..<unat (con_e s' - con_r s')] = ready s @ line s @ [c]"
    using r ln m unfolding ready_def line_def by (simp add: s')
qed

lemma storec_ok:
  assumes "con_inv s"
  shows "con_inv (snd (console_storec s c)) \<and> (ready (snd (console_storec s c)), line (snd (console_storec s c))) = edit_key c (ready s, line s)"
proof -
  let ?m = "unat (con_e s - con_r s)"
  have len: "length (ready s) + length (line s) = ?m" using assms by (simp add: ready_def line_def con_inv_def)
  consider "c = ctrl_U" | "c = ctrl_H \<or> c = DEL" | "c \<noteq> ctrl_U" "c \<noteq> ctrl_H" "c \<noteq> DEL" "c = 0 \<or> ?m = BUF_LEN"
    | "c \<noteq> ctrl_U" "c \<noteq> ctrl_H" "c \<noteq> DEL" "c \<noteq> 0" "?m < BUF_LEN" using assms unfolding con_inv_def by fastforce
  then show ?thesis
  proof cases
    case 1
    then show ?thesis using kill_line_ok [OF assms] by (simp add: console_storec_def edit_key_def)
  next
    case 2
    then show ?thesis using erase_ok [OF assms] assms by (auto simp: console_storec_def edit_key_def line_def)
  next
    case 3
    then show ?thesis using assms len by (auto simp: console_storec_def edit_key_def)
  next
    case 4
    define d where "d = (if c = return then newline else c)"
    define s1 where "s1 = s\<lparr>con_buf := (con_buf s)[unat (con_e s) mod BUF_LEN := d], con_e := con_e s + 1\<rparr>"
    note st = store_ok [OF assms 4(5) s1_def]
    have "con_e s1 - con_r s1 = 256 \<longleftrightarrow> unat (con_e s1 - con_r s1) = 256" by (simp add: word_unat_eq_iff)
    then have full: "con_e s1 = con_r s1 + 256 \<longleftrightarrow> ?m + 1 = BUF_LEN" using st(1) by (simp add: algebra_simps)
    have e: "snd (console_storec s c) = console_putc (if d = newline \<or> d = ctrl_D \<or> con_e s1 = con_r s1 + 256 then s1\<lparr>con_w := con_e s1\<rparr> else s1) (sint d)"
      using 4 by (simp add: console_storec_def Let_def d_def s1_def)
    have at: "con_at (console_putc s2 x) = con_at s2" "con_at (s1\<lparr>con_w := con_e s1\<rparr>) = con_at s1" for s2 x by (rule con_cong; simp)+
    show ?thesis
    proof (cases "d = newline \<or> d = ctrl_D \<or> con_e s1 = con_r s1 + 256")
      case True
      have "ready (snd (console_storec s c)) = ready s @ line s @ [d]" "line (snd (console_storec s c)) = []"
        using True st(3) by (simp_all add: e ready_def line_def at)
      moreover have "con_inv (snd (console_storec s c))" using calculation(2) True st(1,2) 4(5) by (simp add: con_inv_def) (simp add: e)
      ultimately show ?thesis using True full 4 len by (simp add: edit_key_def d_def [symmetric] Let_def)
    next
      case False
      have r: "ready (snd (console_storec s c)) = ready s" "line (snd (console_storec s c)) = line s @ [d]"
        using False st(4,5) by (simp_all add: e ready_def line_def at)
      moreover have "con_inv (snd (console_storec s c))" using r(2) False st(1,2) 4(5) assms by (simp add: con_inv_def) (simp add: e s1_def)
      ultimately show ?thesis using False full 4 len by (simp add: edit_key_def d_def [symmetric] Let_def)
    qed
  qed
qed

text \<open>What a reader gets of the ready bytes, and what is left: up to \<open>n\<close> bytes, through the end of a line, and up to an end-of-file mark, which is
  taken away only by a reader that got nothing before it.  The reader has to wait when the bytes run out.\<close>

fun take_line :: "nat \<Rightarrow> bool \<Rightarrow> u8 list \<Rightarrow> bool \<times> u8 list \<times> u8 list" where
  "take_line 0 first bs = (False, [], bs)"
| "take_line (Suc n) first [] = (True, [], [])"
| "take_line (Suc n) first (b # bs) =
     (if b = ctrl_D then (False, [], if first then bs else b # bs)
      else if b = newline then (False, [b], bs)
      else let (w, out, rest) = take_line n False bs in (w, b # out, rest))"

lemma advance_ok:
  assumes "con_inv s" "con_r s \<noteq> con_w s"
  shows "con_inv (s\<lparr>con_r := con_r s + 1\<rparr>)" "line (s\<lparr>con_r := con_r s + 1\<rparr>) = line s"
    "ready s = con_buf s ! (unat (con_r s) mod BUF_LEN) # ready (s\<lparr>con_r := con_r s + 1\<rparr>)"
proof -
  let ?s = "s\<lparr>con_r := con_r s + 1\<rparr>"
  let ?k = "unat (con_w s - con_r s)" and ?m = "unat (con_e s - con_r s)"
  have k: "0 < ?k" "?k \<le> ?m" using assms by (auto simp: con_inv_def unat_gt_0)
  then have "con_w s \<noteq> con_r s" "con_e s \<noteq> con_r s" by auto
  then have u: "unat (con_w s - (con_r s + 1)) = ?k - 1" "unat (con_e s - (con_r s + 1)) = ?m - 1"
    using unat_minus_one [of "con_w s - con_r s"] unat_minus_one [of "con_e s - con_r s"] by (auto simp: diff_diff_eq [symmetric])
  have at: "con_at ?s i = con_at s (Suc i)" for i
  proof -
    have "(unat (con_r s + 1) + i) mod BUF_LEN = (unat (con_r s) + Suc i) mod BUF_LEN"
      using mod_add_left_eq [of "unat (con_r s + 1)" BUF_LEN i] mod_add_left_eq [of "unat (con_r s) + 1" BUF_LEN i] ring_index [of "con_r s" 1] by simp
    then show ?thesis by (simp add: con_at_def)
  qed
  have sh: "map (con_at ?s) [a - 1..<b - 1] = map (con_at s) [a..<b]" if "0 < a" "0 < b" for a b
  proof -
    have "[a..<b] = map Suc [a - 1..<b - 1]" using that by (simp add: map_Suc_upt)
    then show ?thesis by (simp add: at)
  qed
  show l: "line ?s = line s" using sh [of ?k ?m] k by (simp add: line_def u)
  show "con_inv ?s" using assms(1) l u k by (auto simp: con_inv_def)
  have "[0..<?k] = 0 # [1..<?k]" using k(1) by (simp add: upt_conv_Cons)
  then show "ready s = con_buf s ! (unat (con_r s) mod BUF_LEN) # ready ?s"
    using sh [of 1 ?k] k(1) by (simp add: ready_def u con_at_def)
qed

lemma con_read_loop_ok:
  assumes "con_inv s" "n \<le> sz" "take_line n (n = sz) (ready s) = (w, out, rest)"
  shows "\<exists>s'. con_read_loop s sz n acc = (if w then RWait (n - length out) else RDone (int sz - int n + int (length out)), acc @ out, s')
    \<and> con_inv s' \<and> ready s' = rest \<and> line s' = line s"
  using assms
proof (induction n arbitrary: s acc w out rest)
  case 0
  then show ?case by (subst con_read_loop.simps) auto
next
  case (Suc n)
  show ?case
  proof (cases "con_r s = con_w s")
    case True
    then have "ready s = []" by (simp add: ready_def)
    then show ?thesis using Suc.prems True by (subst con_read_loop.simps) auto
  next
    case False
    let ?c = "con_buf s ! (unat (con_r s) mod BUF_LEN)" and ?s = "s\<lparr>con_r := con_r s + 1\<rparr>"
    note a = advance_ok [OF Suc.prems(1) False]
    have u: "con_read_loop s sz (Suc n) acc = (if ?c = ctrl_D then (RDone (int sz - int (Suc n)), acc, if Suc n < sz then s else ?s)
        else if ?c = newline then (RDone (int sz - int n), acc @ [?c], ?s) else con_read_loop ?s sz n (acc @ [?c]))"
      by (subst con_read_loop.simps) (simp add: False Let_def)
    show ?thesis
    proof (cases "?c = ctrl_D \<or> ?c = newline")
      case True
      then show ?thesis using u a Suc.prems by (auto split: if_splits)
    next
      case f: False
      obtain w1 out1 rest1 where t: "take_line n (n = sz) (ready ?s) = (w1, out1, rest1)" by (cases "take_line n (n = sz) (ready ?s)") auto
      then have "w = w1" "out = ?c # out1" "rest = rest1" using Suc.prems(2,3) a(3) f by (auto simp: Let_def)
      then show ?thesis using Suc.IH [OF a(1) _ t, of "acc @ [?c]"] Suc.prems(2) u f a(2) by auto
    qed
  qed
qed

text \<open>C25. The console is a line editor in front of a queue.  With the bytes that readers may take and the line being edited as abstract state, a key does exactly what
  \<open>edit_key\<close> says: the kill key empties the line, backspace takes its last byte, and a newline, an end-of-file mark or a full buffer hands the line over.  A read of
  \<open>n\<close> bytes takes what \<open>take_line\<close> takes of the ready bytes and leaves the line alone, or waits for the rest.  The buffer indices may wrap.\<close>

theorem console_editor_refines:
  assumes "con_inv s" "0 < n"
  shows "con_inv (snd (console_storec s c)) \<and> (ready (snd (console_storec s c)), line (snd (console_storec s c))) = edit_key c (ready s, line s)
    \<and> (\<exists>s'. console_read s (int n) =
      (case take_line n True (ready s) of (w, out, rest) \<Rightarrow> (if w then RWait (n - length out) else RDone (int (length out)), out, s'))
      \<and> con_inv s' \<and> ready s' = snd (snd (take_line n True (ready s))) \<and> line s' = line s)"
proof -
  have "\<exists>s'. console_read s (int n) =
      (case take_line n True (ready s) of (w, out, rest) \<Rightarrow> (if w then RWait (n - length out) else RDone (int (length out)), out, s'))
      \<and> con_inv s' \<and> ready s' = snd (snd (take_line n True (ready s))) \<and> line s' = line s"
    using con_read_loop_ok [OF assms(1), of n n _ _ _ "[]"] assms(2) by (cases "take_line n True (ready s)") (auto simp: console_read_def)
  then show ?thesis using storec_ok [OF assms(1)] by blast
qed

theorem console_editor_refines_witness:
  "ready (snd (console_storec demo_console 10)) = [10] \<and> (\<exists>s'. console_read demo_console (int 3) = (RWait 3, [], s'))"
proof -
  have i: "con_inv demo_console" "ready demo_console = []" "line demo_console = []" by (simp_all add: con_inv_def demo_console_def line_def ready_def)
  have "edit_key 10 ([], []) = ([10], [])" by (simp add: edit_key_def)
  moreover have "take_line 3 True [] = (True, [], [])" by (simp add: numeral_eq_Suc)
  ultimately show ?thesis using console_editor_refines [OF i(1), of 3 10] i(2,3) by auto
qed

end
