(* ===== verification/Ustack.thy ===== *)
theory Ustack
  imports Vm Bytes
begin

text \<open>
  The user stack of a new process, \<open>stack_setup\<close> of \<^verbatim>\<open>kernel/proc.c\<close>.  The strings of the command line, the array of pointers to them and the arguments of
  \<open>main\<close> are written into the topmost stack page.  The page is written through the kernel map of physical memory; an address is given by its distance from the start
  of the page, so that the memory in front of the page has negative addresses.  Strings are the bytes before the terminator.
\<close>

type_synonym kmap_bytes = "int \<Rightarrow> u8"

text \<open>Translating a kernel address into an address of the user stack.\<close>

definition USTACK_ADDR :: "int \<Rightarrow> vaddr_t" where
  "USTACK_ADDR addr = of_int (addr mod 4096) + USTACK_UPPERBOUND - pg_size"

definition put_page :: "kmap_bytes \<Rightarrow> int \<Rightarrow> u8 list \<Rightarrow> kmap_bytes" where
  "put_page pg a bs = (\<lambda>i. if a \<le> i \<and> i < a + int (length bs) then bs ! nat (i - a) else pg i)"

definition put_u64 :: "kmap_bytes \<Rightarrow> int \<Rightarrow> u64 \<Rightarrow> kmap_bytes" where
  "put_u64 pg a w = put_page pg a (le_bytes 8 (unat w))"

text \<open>The loop that finds the end of the pointer array, and the one that copies the strings.\<close>

fun table_addr :: "int \<Rightarrow> u8 list list \<Rightarrow> int" where
  "table_addr t [] = t"
| "table_addr t (s # ss) = table_addr (t - (int (length s) + 1)) ss"

fun push_args :: "kmap_bytes \<Rightarrow> int \<Rightarrow> int \<Rightarrow> u8 list list \<Rightarrow> kmap_bytes" where
  "push_args pg stackptr tableEntryAddr [] = pg"
| "push_args pg stackptr tableEntryAddr (s # ss) = (
     let stackptr = stackptr - (int (length s) + 1);
         pg = put_page pg stackptr s;
         pg = put_u64 pg tableEntryAddr (USTACK_ADDR stackptr)
     in push_args pg stackptr (tableEntryAddr + 8) ss)"

text \<open>Everything that is written; the result has the stack pointer as a kernel address.\<close>

definition setup_args :: "kmap_bytes \<Rightarrow> u8 list list \<Rightarrow> kmap_bytes \<times> int" where
  "setup_args pg argv = (
     let stackptr = 4096;
         argc = int (length argv);
         tableAddr = table_addr stackptr argv;
         tableAddr = tableAddr div 8 * 8;
         tableAddr = tableAddr - 8;
         tableEntryAddr = tableAddr - argc * 8;
         pg = push_args pg stackptr tableEntryAddr argv;
         tableAddr = tableAddr - argc * 8;
         stackptr = tableAddr - 8;
         pg = put_u64 pg stackptr (USTACK_ADDR tableAddr);
         stackptr = stackptr - 8;
         pg = put_u64 pg stackptr (of_int argc);
         stackptr = stackptr - 8
     in (pg, stackptr))"

text \<open>\<open>new\<close> is the answer of the allocator of regions.  What lies in front of the page in physical memory belongs to someone else; a call that writes
  there, which it does when the lowest word is in front of the page, has no result.\<close>

definition stack_setup :: "vm \<Rightarrow> ptr \<Rightarrow> ptr \<Rightarrow> u8 list list \<Rightarrow> (err_t \<times> vaddr_t option \<times> vm) exec" where
  "stack_setup s new p argv = do {
     let stacktop = USTACK_UPPERBOUND - pg_size;
     (err, pa, q) \<leftarrow> pmem_alloc (pm (vs s));
     let s = s\<lparr>vs := (vs s)\<lparr>pm := q\<rparr>\<rparr>;
     if err \<noteq> ERR_OK then Some (err, None, s)
     else do {
       paddr \<leftarrow> pa;
       let frame = paddr_to_page paddr;
       let s = s\<lparr>vs := (vs s)\<lparr>pgdata := (pgdata (vs s))(frame := (\<lambda>_. 0))\<rparr>\<rparr>;
       (mr, s) \<leftarrow> as_map_memregion s new p stacktop pg_size MEMPERM_URW NULL 0 False;
       if mr = NULL then do { q \<leftarrow> pmem_free (pm (vs s)) paddr; Some (ERR_NOMEM, None, s\<lparr>vs := (vs s)\<lparr>pm := q\<rparr>\<rparr>) }
       else do {
         a \<leftarrow> spaces s p;
         (err, v) \<leftarrow> vpmap_map (vs s) (as_vpmap a) stacktop paddr 1 MEMPERM_URW;
         let s = s\<lparr>vs := v\<rparr>;
         if err \<noteq> ERR_OK then do { q \<leftarrow> pmem_free (pm (vs s)) paddr; Some (err, None, s\<lparr>vs := (vs s)\<lparr>pm := q\<rparr>\<rparr>) }
         else do {
           mr \<leftarrow> as_find_memregion s p stacktop 0;
           other \<leftarrow> as_find_memregion s p (USTACK_UPPERBOUND - 10 * pg_size) (9 * pg_size);
           kassert (other = NULL);
           r \<leftarrow> regs s mr;
           let s = s\<lparr>regs := (regs s)(mr := Some (r\<lparr>mr_start := USTACK_UPPERBOUND - 10 * pg_size\<rparr>))\<rparr>;
           let (pg, stackptr) = setup_args (\<lambda>i. pgdata (vs s) frame (nat i)) argv;
           kassert (0 \<le> stackptr + 8);
           let s = s\<lparr>vs := (vs s)\<lparr>pgdata := (pgdata (vs s))(frame := (\<lambda>i. pg (int i)))\<rparr>\<rparr>;
           Some (ERR_OK, Some (USTACK_ADDR stackptr), s) } } } }"

section \<open>The layout\<close>

text \<open>Reading the page the way the program does.\<close>

definition page_u64 :: "kmap_bytes \<Rightarrow> int \<Rightarrow> u64" where
  "page_u64 pg a = of_nat (le_nat (map (\<lambda>k. pg (a + int k)) [0..<8]))"

definition string_at :: "kmap_bytes \<Rightarrow> int \<Rightarrow> u8 list \<Rightarrow> bool" where
  "string_at pg a s \<longleftrightarrow> (\<forall>k < length s. pg (a + int k) = s ! k) \<and> pg (a + int (length s)) = 0"

fun arg_addr :: "int \<Rightarrow> u8 list list \<Rightarrow> nat \<Rightarrow> int" where
  "arg_addr t [] i = t"
| "arg_addr t (s # ss) i = (case i of 0 \<Rightarrow> t - (int (length s) + 1) | Suc j \<Rightarrow> arg_addr (t - (int (length s) + 1)) ss j)"

lemma table_addr_le: "table_addr t ss \<le> t - int (length ss)"
  by (induction t ss rule: table_addr.induct) (auto simp: algebra_simps)

lemma page_u64_cong: "(\<And>i. a \<le> i \<Longrightarrow> i < a + 8 \<Longrightarrow> pg' i = pg i) \<Longrightarrow> page_u64 pg' a = page_u64 pg a"
  unfolding page_u64_def by (intro arg_cong [where f = "\<lambda>xs. of_nat (le_nat xs)"] map_cong) auto

lemma put_u64_ok: "page_u64 (put_u64 pg a w) a = w" "i < a \<or> a + 8 \<le> i \<Longrightarrow> put_u64 pg a w i = pg i"
proof -
  let ?bs = "le_bytes 8 (unat w)"
  have "map (\<lambda>k. put_u64 pg a w (a + int k)) [0..<8] = ?bs"
    by (intro nth_equalityI) (auto simp: put_u64_def put_page_def simp del: le_bytes.simps upt_rec_numeral)
  then have "page_u64 (put_u64 pg a w) a = of_nat (le_nat ?bs)" unfolding page_u64_def by metis
  also have "\<dots> = w" using unsigned_less [of w, where ?'a = nat] by (simp add: le_nat_le_bytes del: le_bytes.simps)
  finally show "page_u64 (put_u64 pg a w) a = w" .
  show "put_u64 pg a w i = pg i" if "i < a \<or> a + 8 \<le> i" using that by (auto simp: put_u64_def put_page_def simp del: le_bytes.simps)
qed

lemma arg_addr_bounds: "i < length ss \<Longrightarrow> table_addr t ss \<le> arg_addr t ss i \<and> arg_addr t ss i + int (length (ss ! i)) < t"
proof (induction t ss i rule: arg_addr.induct)
  case (2 t s ss i)
  then show ?case using table_addr_le [of "t - (int (length s) + 1)" ss] by (cases i) auto
qed simp

text \<open>The strings and the pointers, wherever they go.\<close>

lemma push_args_ok:
  fixes pg :: kmap_bytes
  assumes "te + 8 * int (length ss) \<le> table_addr sp ss"
  defines "pg' \<equiv> push_args pg sp te ss"
  shows "(\<forall>i. (i < te \<or> te + 8 * int (length ss) \<le> i) \<and> (i < table_addr sp ss \<or> sp \<le> i) \<longrightarrow> pg' i = pg i)
    \<and> (\<forall>i < length ss. page_u64 pg' (te + 8 * int i) = USTACK_ADDR (arg_addr sp ss i)
         \<and> (\<forall>k < length (ss ! i). pg' (arg_addr sp ss i + int k) = ss ! i ! k)
         \<and> pg' (arg_addr sp ss i + int (length (ss ! i))) = pg (arg_addr sp ss i + int (length (ss ! i))))"
  using assms(1) unfolding pg'_def
proof (induction ss arbitrary: pg sp te)
  case (Cons s ss)
  let ?sp = "sp - (int (length s) + 1)"
  let ?pg1 = "put_page pg ?sp s"
  let ?pg2 = "put_u64 ?pg1 te (USTACK_ADDR ?sp)"
  let ?pg3 = "push_args ?pg2 ?sp (te + 8) ss"
  note le = table_addr_le [of ?sp ss]
  have pre: "te + 8 + 8 * int (length ss) \<le> table_addr ?sp ss" using Cons.prems by simp
  have run: "push_args pg sp te (s # ss) = ?pg3" by (simp add: Let_def)
  have p1: "?pg1 i = pg i" if "i < ?sp \<or> ?sp + int (length s) \<le> i" for i using that by (auto simp: put_page_def)
  note p2 = put_u64_ok [where pg = ?pg1 and a = te and w = "USTACK_ADDR ?sp"]
  note p3 = Cons.IH [OF pre, of ?pg2]
  have keep: "?pg3 i = pg i" if "(i < te \<or> te + 8 * int (length (s # ss)) \<le> i) \<and> (i < table_addr sp (s # ss) \<or> sp \<le> i)" for i
    using that le p1 [of i] p2(2) [of i] p3 by auto
  have hi: "?pg3 j = ?pg1 j" if "?sp \<le> j" for j using that p2(2) [of j] p3 le pre by auto
  have "page_u64 ?pg3 (te + 8 * int i) = USTACK_ADDR (arg_addr sp (s # ss) i)
      \<and> (\<forall>k < length ((s # ss) ! i). ?pg3 (arg_addr sp (s # ss) i + int k) = (s # ss) ! i ! k)
      \<and> ?pg3 (arg_addr sp (s # ss) i + int (length ((s # ss) ! i))) = pg (arg_addr sp (s # ss) i + int (length ((s # ss) ! i)))"
    if i: "i < length (s # ss)" for i
  proof (cases i)
    case 0
    have "page_u64 ?pg3 te = page_u64 ?pg2 te" using le pre p3 by (intro page_u64_cong) auto
    moreover have "?pg3 (?sp + int k) = s ! k" if "k < length s" for k using hi [of "?sp + int k"] that by (simp add: put_page_def)
    moreover have "?pg3 (?sp + int (length s)) = pg (?sp + int (length s))" using hi [of "?sp + int (length s)"] p1 by simp
    ultimately show ?thesis using 0 p2(1) by simp
  next
    case (Suc j)
    note b = arg_addr_bounds [of j ss ?sp]
    have "?pg2 (arg_addr ?sp ss j + int (length (ss ! j))) = pg (arg_addr ?sp ss j + int (length (ss ! j)))"
      using b Suc i pre p1 p2(2) by simp
    then show ?thesis using p3 Suc i by (simp add: algebra_simps)
  qed
  then show ?case using keep unfolding run by blast
qed simp

text \<open>Where the pointer array starts; the arguments fit when there is room below it for the arguments of \<open>main\<close> and a return address.\<close>

definition args_base :: "u8 list list \<Rightarrow> int" where
  "args_base argv = table_addr 4096 argv div 8 * 8 - 8 - 8 * int (length argv)"

lemma setup_args_ok:
  fixes pg :: kmap_bytes and argv :: "u8 list list"
  defines "A \<equiv> args_base argv" and "pg' \<equiv> fst (setup_args pg argv)"
  shows "snd (setup_args pg argv) = A - 24" "page_u64 pg' (A - 16) = of_nat (length argv)" "page_u64 pg' (A - 8) = USTACK_ADDR A"
    "i < length argv \<Longrightarrow> page_u64 pg' (A + 8 * int i) = USTACK_ADDR (arg_addr 4096 argv i)"
    "i < length argv \<Longrightarrow> k < length (argv ! i) \<Longrightarrow> pg' (arg_addr 4096 argv i + int k) = argv ! i ! k"
    "i < length argv \<Longrightarrow> pg' (arg_addr 4096 argv i + int (length (argv ! i))) = pg (arg_addr 4096 argv i + int (length (argv ! i)))"
    "A + 8 * int (length argv) \<le> j \<Longrightarrow> j < A + 8 * int (length argv) + 8 \<Longrightarrow> pg' j = pg j"
    "j < A - 16 \<or> 4096 \<le> j \<Longrightarrow> pg' j = pg j"
proof -
  let ?n = "int (length argv)" and ?t = "table_addr 4096 argv"
  have a: "A + 8 * ?n + 8 \<le> ?t" "?t \<le> 4096 - ?n" using table_addr_le [of 4096 argv] by (simp_all add: A_def args_base_def)
  define pg1 where "pg1 = push_args pg 4096 A argv"
  define pg2 where "pg2 = put_u64 pg1 (A - 8) (USTACK_ADDR A)"
  have e: "?t div 8 * 8 - 8 - ?n * 8 = A" by (simp add: A_def args_base_def)
  have run: "setup_args pg argv = (put_u64 pg2 (A - 16) (of_int ?n), A - 24)" by (simp only: setup_args_def Let_def e pg1_def pg2_def) simp
  then have pg': "pg' = put_u64 pg2 (A - 16) (of_int ?n)" by (simp add: pg'_def)
  have p1: "(\<forall>i. (i < A \<or> A + 8 * ?n \<le> i) \<and> (i < ?t \<or> 4096 \<le> i) \<longrightarrow> pg1 i = pg i)
    \<and> (\<forall>i < length argv. page_u64 pg1 (A + 8 * int i) = USTACK_ADDR (arg_addr 4096 argv i)
         \<and> (\<forall>k < length (argv ! i). pg1 (arg_addr 4096 argv i + int k) = argv ! i ! k)
         \<and> pg1 (arg_addr 4096 argv i + int (length (argv ! i))) = pg (arg_addr 4096 argv i + int (length (argv ! i))))"
    unfolding pg1_def using a by (intro push_args_ok) simp
  note p2 = put_u64_ok [where pg = pg1 and a = "A - 8" and w = "USTACK_ADDR A", folded pg2_def] and p3 = put_u64_ok [where pg = pg2 and a = "A - 16" and w = "of_int ?n", folded pg']
  have k: "pg' j = pg1 j" if "j < A - 16 \<or> A \<le> j" for j using p2(2) [of j] p3(2) [of j] that by auto
  show "snd (setup_args pg argv) = A - 24" using run by simp
  show "page_u64 pg' (A - 16) = of_nat (length argv)" using p3(1) by simp
  show "page_u64 pg' (A - 8) = USTACK_ADDR A" using p2(1) p3(2) page_u64_cong [of "A - 8" pg' pg2] by simp
  show "page_u64 pg' (A + 8 * int i) = USTACK_ADDR (arg_addr 4096 argv i)" if "i < length argv" using p1 that k page_u64_cong [of "A + 8 * int i" pg' pg1] by simp
  show "pg' (arg_addr 4096 argv i + int k) = argv ! i ! k" if "i < length argv" "k < length (argv ! i)"
    using p1 that k arg_addr_bounds [OF that(1), of 4096] a by simp
  show "pg' (arg_addr 4096 argv i + int (length (argv ! i))) = pg (arg_addr 4096 argv i + int (length (argv ! i)))" if "i < length argv"
    using p1 that k arg_addr_bounds [OF that, of 4096] a by simp
  show "pg' j = pg j" if "A + 8 * ?n \<le> j" "j < A + 8 * ?n + 8" using p1 k [of j] that a by simp
  show "pg' j = pg j" if "j < A - 16 \<or> 4096 \<le> j" using p1 k [of j] that a by auto
qed

text \<open>Reading at a user address of the stack page.\<close>

definition user_at :: "kmap_bytes \<Rightarrow> kmap_bytes" where
  "user_at pg v = pg (v - (uint USTACK_UPPERBOUND - 4096))"

lemma uint_USTACK: "0 \<le> a \<Longrightarrow> a < 4096 \<Longrightarrow> uint (USTACK_ADDR a) = a + (uint USTACK_UPPERBOUND - 4096)"
proof -
  assume a: "0 \<le> a" "a < 4096"
  then have "USTACK_ADDR a = word_of_int (a + 0xFFFFFF7FFFFFE000)" by (simp add: USTACK_ADDR_def USTACK_UPPERBOUND_def pg_size_def)
  then have "uint (USTACK_ADDR a) = (a + 0xFFFFFF7FFFFFE000) mod 2 ^ 64" by (simp only: uint_word_of_int) simp
  then show ?thesis using a by (simp add: USTACK_UPPERBOUND_def)
qed

text \<open>C26. When the command line fits, the new process starts with a correct stack: behind the return address its stack pointer shows the number of arguments and the address of an array of
  as many pointers that ends with a null pointer, and each pointer is the user address of the terminated string.  The stack pointer is a multiple of eight, and nothing outside
  the page is written.\<close>

theorem setup_args_layout:
  assumes fit: "24 \<le> args_base argv" and z: "\<forall>i \<in> {0..<4096}. m i = 0"
  shows "\<exists>pg stackptr. setup_args m argv = (pg, stackptr) \<and>
    (let u = user_at pg; sp = uint (USTACK_ADDR stackptr); av = uint (page_u64 u (sp + 16)) in
      8 dvd sp \<and> page_u64 u (sp + 8) = of_nat (length argv)
      \<and> (\<forall>i < length argv. string_at u (uint (page_u64 u (av + 8 * int i))) (argv ! i)) \<and> page_u64 u (av + 8 * int (length argv)) = 0)
    \<and> (\<forall>i. i < 0 \<or> 4096 \<le> i \<longrightarrow> pg i = m i)"
proof -
  define A where "A = args_base argv"
  define U where "U = uint USTACK_UPPERBOUND - 4096"
  define pg where "pg = fst (setup_args m argv)"
  note p = setup_args_ok [where pg = m and argv = argv, folded A_def pg_def]
  have A: "24 \<le> A" "A < 4096" "8 dvd A" "A + 8 * int (length argv) + 8 \<le> table_addr 4096 argv" "table_addr 4096 argv \<le> 4096"
    using fit table_addr_le [of 4096 argv] by (auto simp: A_def args_base_def)
  have st: "string_at pg (arg_addr 4096 argv i) (argv ! i)" if "i < length argv" for i
    using p(5,6) [OF that] arg_addr_bounds [OF that, of 4096] A z by (auto simp: string_at_def)
  have nul: "page_u64 pg (A + 8 * int (length argv)) = 0"
  proof -
    have "page_u64 pg (A + 8 * int (length argv)) = page_u64 (\<lambda>_. 0) (A + 8 * int (length argv))" using p(7) z A by (intro page_u64_cong) auto
    moreover have "le_nat (replicate 8 0) = 0" by (simp add: numeral_eq_Suc)
    ultimately show ?thesis by (simp add: page_u64_def map_replicate_const del: upt_rec_numeral)
  qed
  have sh: "page_u64 (user_at pg) (a + U) = page_u64 pg a" "string_at (user_at pg) (a + U) s = string_at pg a s" for a s
    by (simp_all add: page_u64_def user_at_def string_at_def U_def algebra_simps)
  note us = uint_USTACK [folded U_def]
  have sp: "uint (USTACK_ADDR (A - 24)) = A - 24 + U" using A us by simp
  have av: "uint (page_u64 (user_at pg) (uint (USTACK_ADDR (A - 24)) + 16)) = A + U" using sh(1) [of "A - 8"] p(3) A us by (simp add: sp algebra_simps)
  have "string_at (user_at pg) (uint (page_u64 (user_at pg) (A + U + 8 * int i))) (argv ! i)" if "i < length argv" for i
  proof -
    have "0 \<le> arg_addr 4096 argv i" "arg_addr 4096 argv i < 4096" using arg_addr_bounds [OF that, of 4096] A by auto
    moreover have "page_u64 (user_at pg) (A + U + 8 * int i) = USTACK_ADDR (arg_addr 4096 argv i)"
      using sh(1) [of "A + 8 * int i"] p(4) [OF that] by (simp add: algebra_simps)
    ultimately show ?thesis using sh(2) [of "arg_addr 4096 argv i"] st [OF that] us by simp
  qed
  moreover have "page_u64 (user_at pg) (A + U + 8 * int (length argv)) = 0" using sh(1) [of "A + 8 * int (length argv)"] nul by (simp add: algebra_simps)
  moreover have "page_u64 (user_at pg) (A - 24 + U + 8) = of_nat (length argv)" using sh(1) [of "A - 16"] p(2) by (simp add: algebra_simps)
  moreover have "8 dvd A - 24 + U" using A(3) by (simp add: U_def USTACK_UPPERBOUND_def)
  moreover have "\<forall>i. i < 0 \<or> 4096 \<le> i \<longrightarrow> pg i = m i" using p(8) A(1) by auto
  moreover have "setup_args m argv = (pg, A - 24)" using p(1) by (simp add: pg_def prod_eq_iff)
  ultimately show ?thesis unfolding Let_def by (intro exI [of _ pg] exI [of _ "A - 24"] conjI) (simp_all only: av, simp_all only: sp, blast+)
qed

theorem setup_args_layout_witness:
  "\<exists>pg stackptr. setup_args (\<lambda>_. 0) [[108, 115], [47]] = (pg, stackptr) \<and> page_u64 (user_at pg) (uint (USTACK_ADDR stackptr) + 8) = 2 \<and> pg (- 1) = 0"
  using setup_args_layout [of "[[108, 115], [47]]" "\<lambda>_. 0"] by (auto simp: args_base_def Let_def)

text \<open>C38. Nothing checks that the command line fits.  One that does not is written in front of the stack page, over the memory that precedes it: the number of arguments goes to a
  negative address, and so does every byte of a string whose place is there.\<close>

theorem setup_args_overrun:
  assumes "args_base argv < 16"
  shows "\<exists>pg a. setup_args m argv = (pg, a - 8) \<and> a < 0 \<and> page_u64 pg a = of_nat (length argv)
    \<and> (\<forall>i < length argv. \<forall>k < length (argv ! i). pg (arg_addr 4096 argv i + int k) = argv ! i ! k)"
  using setup_args_ok [where pg = m and argv = argv] assms by (intro exI [of _ "fst (setup_args m argv)"] exI [of _ "args_base argv - 16"]) (simp add: prod_eq_iff)

text \<open>One argument of 4200 bytes; its first byte ends up 105 bytes in front of the page.\<close>

theorem setup_args_overrun_witness: "fst (setup_args (\<lambda>_. 0) [replicate 4200 120]) (- 105) = 120 \<and> snd (setup_args (\<lambda>_. 0) [replicate 4200 120]) < 0"
proof -
  have "args_base [replicate 4200 120] < 16" by (simp add: args_base_def)
  from setup_args_overrun [OF this, of "\<lambda>_. 0"] obtain pg a where p: "setup_args (\<lambda>_. 0) [replicate 4200 120] = (pg, a - 8)" "a < 0"
    "pg (- 105) = replicate 4200 120 ! 0" by (fastforce dest: spec [of _ 0])
  then show ?thesis by simp
qed

end
