(* ===== verification/Files.thy ===== *)
theory Files
  imports Vfs Pipe Console Vm
begin

text \<open>
  Open files and file descriptors: the file part of \<^verbatim>\<open>kernel/fs/fs.c\<close> and the system calls of \<^verbatim>\<open>kernel/syscall.c\<close> that work on descriptors.
  An open file belongs to the file system, to a pipe or to the console; its operations are the constructor \<open>f_ops\<close>, and a null pointer there is
  \<open>None\<close>.  The two files of the console are global variables.  Processes share files through their tables of descriptors, and the reference counts of
  files, pipes and inodes must agree with these tables.  What an allocator answers is an argument of the operation.
\<close>

section \<open>State\<close>

datatype file_ops = Sfs_ops | Kpipe_ops | Stdin_ops | Stdout_ops

record ofile =
  f_ref :: int
  oflag :: u32
  f_inode :: ptr
  f_pos :: u64
  f_ops :: "file_ops option"
  f_kpipe :: ptr

record proc =
  pid :: int
  p_name :: "u8 list"
  p_cwd :: ptr
  p_threads :: "ptr list"
  p_children :: "ptr list"
  p_files :: "ptr list"
  exit_status :: int

record ksys =
  vfs :: fs_sys
  ofiles :: "ptr \<Rightarrow> ofile option"
  pipes :: "ptr \<Rightarrow> kpipe option"
  cons :: console
  procs :: "ptr \<Rightarrow> proc option"

abbreviation (input) PROC_MAX_FILE :: nat where "PROC_MAX_FILE \<equiv> 128"
abbreviation (input) stdin_file :: ptr where "stdin_file \<equiv> 1"
abbreviation (input) stdout_file :: ptr where "stdout_file \<equiv> 2"

definition set_file :: "ptr \<Rightarrow> ofile \<Rightarrow> ksys \<Rightarrow> ksys" where
  "set_file p f s = s\<lparr>ofiles := (ofiles s)(p := Some f)\<rparr>"

definition set_proc :: "ptr \<Rightarrow> proc \<Rightarrow> ksys \<Rightarrow> ksys" where
  "set_proc q p s = s\<lparr>procs := (procs s)(q := Some p)\<rparr>"

section \<open>Open files\<close>

definition fs_alloc_file :: "ksys \<Rightarrow> ptr \<Rightarrow> ptr \<times> ksys" where
  "fs_alloc_file s new =
     (if new \<noteq> NULL then (new, set_file new \<lparr>f_ref = 1, oflag = 0, f_inode = NULL, f_pos = 0, f_ops = None, f_kpipe = NULL\<rparr> s) else (NULL, s))"

definition fs_free_file :: "ksys \<Rightarrow> ptr \<Rightarrow> ksys exec" where
  "fs_free_file s p = do { f \<leftarrow> ofiles s p; Some (s\<lparr>ofiles := (ofiles s)(p := None)\<rparr>) }"

text \<open>The inode of the leaf, created if it is missing and the flags say so.\<close>

definition open_leaf :: "fs_sys \<Rightarrow> ptr \<Rightarrow> u8 list \<Rightarrow> u32 \<Rightarrow> u32 \<Rightarrow> (err_t \<times> ptr \<times> fs_sys) exec" where
  "open_leaf s parent name flags mode = do {
     (err, fi, s) \<leftarrow> sfs_lookup s parent name;
     if err \<noteq> ERR_OK then
       if err \<noteq> ERR_NOTEXIST \<or> flags AND FS_CREAT = 0 then Some (err, NULL, s)
       else do {
         (err, s) \<leftarrow> with_inode s parent (\<lambda>b d. sfs_create (sbi s) b d name mode);
         if err \<noteq> ERR_OK then do { kassert (err \<noteq> ERR_EXIST); Some (err, NULL, s) }
         else do {
           (err, fi, s) \<leftarrow> sfs_lookup s parent name;
           if err \<noteq> ERR_OK then do { kassert (err \<noteq> ERR_NOTEXIST); Some (err, NULL, s) }
           else Some (ERR_OK, fi, s) } }
     else Some (ERR_OK, fi, s) }"

definition fs_open_file :: "ksys \<Rightarrow> ptr option \<Rightarrow> u8 list \<Rightarrow> u32 \<Rightarrow> u32 \<Rightarrow> ptr \<Rightarrow> (err_t \<times> ptr \<times> ksys) exec" where
  "fs_open_file s cwd path flags mode new =
     (if \<not> validate_flag flags then Some (ERR_INVAL, NULL, s)
      else do {
        (err, parent, name, v) \<leftarrow> fs_find_parent_inode (vfs s) cwd path;
        if err \<noteq> ERR_OK then Some (err, NULL, s\<lparr>vfs := v\<rparr>)
        else do {
          (err, fi, v) \<leftarrow>
            (if name = [] then Some (ERR_OK, parent, v)
             else do {
               v \<leftarrow> lock_inode v parent;
               (err, fi, v) \<leftarrow> open_leaf v parent name flags mode;
               kassert (err \<noteq> ERR_OK \<or> fi \<noteq> NULL);
               v \<leftarrow> unlock_inode v parent;
               v \<leftarrow> fs_release_inode v parent;
               Some (err, fi, v) });
          if err \<noteq> ERR_OK then Some (err, NULL, s\<lparr>vfs := v\<rparr>)
          else do {
            let (p, s) = fs_alloc_file (s\<lparr>vfs := v\<rparr>) new;
            if p = NULL then do { v \<leftarrow> fs_release_inode (vfs s) fi; Some (ERR_NOMEM, NULL, s\<lparr>vfs := v\<rparr>) }
            else do {
              f \<leftarrow> ofiles s p;
              Some (ERR_OK, p, set_file p (f\<lparr>f_inode := fi, f_ops := Some Sfs_ops, oflag := flags AND NOT FS_CREAT, f_kpipe := NULL\<rparr>) s) } } } })"

definition fs_reopen_file :: "ksys \<Rightarrow> ptr \<Rightarrow> ksys exec" where
  "fs_reopen_file s p = do { f \<leftarrow> ofiles s p; Some (set_file p (f\<lparr>f_ref := f_ref f + 1\<rparr>) s) }"

definition file_close_op :: "ksys \<Rightarrow> ptr \<Rightarrow> ksys exec" where
  "file_close_op s p = do {
     f \<leftarrow> ofiles s p;
     ops \<leftarrow> f_ops f;
     if ops = Kpipe_ops then do {
       q \<leftarrow> kpipe_close (pipes s (f_kpipe f));
       let s = s\<lparr>pipes := (pipes s)(f_kpipe f := q)\<rparr>;
       Some (if q = None then set_file p (f\<lparr>f_kpipe := NULL\<rparr>) s else s) }
     else Some s }"

definition fs_close_file :: "ksys \<Rightarrow> ptr \<Rightarrow> ksys exec" where
  "fs_close_file s p = do {
     f \<leftarrow> ofiles s p;
     let f = f\<lparr>f_ref := f_ref f - 1\<rparr>;
     let s = set_file p f s;
     if f_ref f > 0 \<or> p = stdin_file \<or> p = stdout_file then Some s
     else do {
       v \<leftarrow> (if f_inode f \<noteq> NULL then fs_release_inode (vfs s) (f_inode f) else Some (vfs s));
       s \<leftarrow> file_close_op (s\<lparr>vfs := v\<rparr>) p;
       fs_free_file s p } }"

text \<open>A read or write returns, or waits with the bytes that were moved and the number of those to go.\<close>

datatype io_result = IoDone int "u8 list" | IoWait "u8 list" nat

definition fs_read_file :: "ksys \<Rightarrow> ptr \<Rightarrow> nat \<Rightarrow> (io_result \<times> ksys) exec" where
  "fs_read_file s p cnt = do {
     f \<leftarrow> ofiles s p;
     if oflag f \<noteq> FS_WRONLY then do {
       ops \<leftarrow> f_ops f;
       case ops of
         Sfs_ops \<Rightarrow> do {
           v \<leftarrow> lock_inode (vfs s) (f_inode f);
           ((bs, pos), v) \<leftarrow> with_inode v (f_inode f) (\<lambda>b ino. do { (bs, pos, b, ino) \<leftarrow> sfs_read (sbi v) b ino cnt (f_pos f); Some ((bs, pos), b, ino) });
           v \<leftarrow> unlock_inode v (f_inode f);
           Some (IoDone (int (length bs)) bs, set_file p (f\<lparr>f_pos := pos\<rparr>) (s\<lparr>vfs := v\<rparr>)) }
       | Kpipe_ops \<Rightarrow> do {
           q \<leftarrow> pipes s (f_kpipe f);
           Some (case kpipe_read q cnt of
             Sleep \<Rightarrow> (IoWait [] cnt, s)
           | Ret (n, bs, q, sig) \<Rightarrow> (IoDone n bs, s\<lparr>pipes := (pipes s)(f_kpipe f := Some q)\<rparr>)) }
       | Stdin_ops \<Rightarrow>
           Some (case stdin_read (cons s) (of_nat cnt) of
             (RDone n, bs, c) \<Rightarrow> (IoDone n bs, s\<lparr>cons := c\<rparr>)
           | (RWait k, bs, c) \<Rightarrow> (IoWait bs k, s\<lparr>cons := c\<rparr>))
       | Stdout_ops \<Rightarrow> None }
     else Some (IoDone 0 [], s) }"

definition fs_write_file :: "ksys \<Rightarrow> ptr \<Rightarrow> u8 list \<Rightarrow> (io_result \<times> ksys) exec" where
  "fs_write_file s p buf = do {
     f \<leftarrow> ofiles s p;
     if oflag f \<noteq> FS_RDONLY then do {
       ops \<leftarrow> f_ops f;
       case ops of
         Sfs_ops \<Rightarrow> do {
           v \<leftarrow> lock_inode (vfs s) (f_inode f);
           ((n, pos), v) \<leftarrow> with_inode v (f_inode f) (\<lambda>b ino. do { (n, pos, b, ino) \<leftarrow> sfs_write (sbi v) b ino buf (f_pos f); Some ((n, pos), b, ino) });
           v \<leftarrow> unlock_inode v (f_inode f);
           Some (IoDone (int n) [], set_file p (f\<lparr>f_pos := pos\<rparr>) (s\<lparr>vfs := v\<rparr>)) }
       | Kpipe_ops \<Rightarrow> do {
           q \<leftarrow> pipes s (f_kpipe f);
           Some (case kpipe_write q buf of
             Sleep \<Rightarrow> (IoWait [] (length buf), s)
           | Ret (n, q, sig) \<Rightarrow> (IoDone n [], s\<lparr>pipes := (pipes s)(f_kpipe f := Some q)\<rparr>)) }
       | Stdout_ops \<Rightarrow> (case stdout_write (cons s) buf of (n, c) \<Rightarrow> Some (IoDone n [], s\<lparr>cons := c\<rparr>))
       | Stdin_ops \<Rightarrow> None }
     else Some (IoDone 0 [], s) }"

text \<open>The result is the error, the inode number and the name.\<close>

definition fs_readdir :: "ksys \<Rightarrow> ptr \<Rightarrow> (err_t \<times> u32 \<times> u8 list \<times> ksys) exec" where
  "fs_readdir s p = do {
     f \<leftarrow> ofiles s p;
     ino \<leftarrow> inodes (vfs s) (f_inode f);
     if i_ftype ino \<noteq> FTYPE_DIR then Some (ERR_FTYPE, 0, [], s)
     else do {
       v \<leftarrow> lock_inode (vfs s) (f_inode f);
       ((err, inum, name, pos), v) \<leftarrow> with_inode v (f_inode f) (\<lambda>b d. do {
          (err, inum, name, pos, b, d) \<leftarrow> sfs_readdir (sbi v) b d (f_pos f); Some ((err, inum, name, pos), b, d) });
       v \<leftarrow> unlock_inode v (f_inode f);
       Some (err, inum, name, set_file p (f\<lparr>f_pos := pos\<rparr>) (s\<lparr>vfs := v\<rparr>)) } }"

section \<open>Arguments of system calls\<close>

text \<open>The address space of a process is part of its structure, so the address of the structure stands for it.  \<open>umem\<close> is the memory that the process sees.\<close>

definition int_arg :: "u64 \<Rightarrow> int" where
  "int_arg w = sint (ucast w :: u32)"

function str_loop :: "(u64 \<Rightarrow> u8) \<Rightarrow> u64 \<Rightarrow> u64 \<Rightarrow> bool" where
  "str_loop umem a e = (if a < e then if umem a = 0 then True else str_loop umem (a + 1) e else False)"
  by pat_completeness auto
termination
proof (relation "measure (\<lambda>(umem, a, e). unat (e - a))")
  fix umem :: "u64 \<Rightarrow> u8" and a e :: u64 assume "a < e"
  then have "unat (e - a - 1) < unat (e - a)" by (intro measure_unat) auto
  then show "((umem, a + 1, e), umem, a, e) \<in> measure (\<lambda>(umem, a, e). unat (e - a))" by (simp add: diff_diff_eq)
qed simp

declare str_loop.simps [simp del]

definition validate_str :: "vm \<Rightarrow> ptr \<Rightarrow> (u64 \<Rightarrow> u8) \<Rightarrow> u64 \<Rightarrow> bool exec" where
  "validate_str m q umem a = do {
     mr \<leftarrow> as_find_memregion m q a 1;
     if mr = NULL then Some False else do { r \<leftarrow> regs m mr; Some (str_loop umem a (mr_end r)) } }"

definition validate_bufptr :: "vm \<Rightarrow> ptr \<Rightarrow> u64 \<Rightarrow> u64 \<Rightarrow> bool exec" where
  "validate_bufptr m q bufaddr sz =
     (if bufaddr + sz < bufaddr then Some False
      else do { mr \<leftarrow> as_find_memregion m q bufaddr sz; Some (mr \<noteq> NULL) })"

text \<open>The string at an address.\<close>

partial_function (option) user_string :: "(u64 \<Rightarrow> u8) \<Rightarrow> u64 \<Rightarrow> u8 list exec" where
  "user_string umem a = (if umem a = 0 then Some [] else do { cs \<leftarrow> user_string umem (a + 1); Some (umem a # cs) })"

declare user_string.simps [code]

definition validate_fd :: "int \<Rightarrow> proc \<Rightarrow> bool" where
  "validate_fd fd p = (if fd < 0 \<or> fd \<ge> int PROC_MAX_FILE \<or> p_files p ! nat fd = NULL then False else True)"

text \<open>The lowest free descriptor, or \<open>-1\<close>.\<close>

fun alloc_fd_loop :: "ptr list \<Rightarrow> int \<Rightarrow> int" where
  "alloc_fd_loop [] i = -1"
| "alloc_fd_loop (f # fs) i = (if f = NULL then i else alloc_fd_loop fs (i + 1))"

definition alloc_fd :: "proc \<Rightarrow> int" where
  "alloc_fd p = alloc_fd_loop (p_files p) 0"

definition set_fd :: "ptr \<Rightarrow> int \<Rightarrow> ptr \<Rightarrow> ksys \<Rightarrow> ksys exec" where
  "set_fd q fd f s = do { p \<leftarrow> procs s q; kassert (0 \<le> fd \<and> fd < int PROC_MAX_FILE); Some (set_proc q (p\<lparr>p_files := (p_files p)[nat fd := f]\<rparr>) s) }"

section \<open>System calls on descriptors\<close>

definition pipe_dec :: "ksys \<Rightarrow> ptr \<Rightarrow> int \<Rightarrow> ksys exec" where
  "pipe_dec s p fd = do {
     f \<leftarrow> ofiles s p;
     if f_kpipe f = NULL then Some s
     else do { q \<leftarrow> pipes s (f_kpipe f); Some (s\<lparr>pipes := (pipes s)(f_kpipe f := kpipe_ref_decrease (Some q) fd)\<rparr>) } }"

definition pipe_inc :: "ksys \<Rightarrow> ptr \<Rightarrow> int \<Rightarrow> ksys exec" where
  "pipe_inc s p fd = do {
     f \<leftarrow> ofiles s p;
     if f_kpipe f = NULL then Some s
     else do { q \<leftarrow> pipes s (f_kpipe f); Some (s\<lparr>pipes := (pipes s)(f_kpipe f := kpipe_ref_increase (Some q) fd)\<rparr>) } }"

definition sys_open :: "vm \<Rightarrow> (u64 \<Rightarrow> u8) \<Rightarrow> ksys \<Rightarrow> ptr \<Rightarrow> u64 \<Rightarrow> u64 \<Rightarrow> u64 \<Rightarrow> ptr \<Rightarrow> (int \<times> ksys) exec" where
  "sys_open m umem s q path flags mode new = do {
     ok \<leftarrow> validate_str m q umem path;
     if \<not> ok then Some (ERR_FAULT, s)
     else do {
       p \<leftarrow> procs s q;
       let fd = alloc_fd p;
       if fd = -1 then Some (ERR_NOMEM, s)
       else do {
         name \<leftarrow> user_string umem path;
         (err, f, s) \<leftarrow> fs_open_file s (if p_cwd p = NULL then None else Some (p_cwd p)) name (ucast flags) (ucast mode) new;
         if err = ERR_OK then do { s \<leftarrow> set_fd q fd f s; Some (fd, s) } else Some (err, s) } } }"

definition sys_close :: "ksys \<Rightarrow> ptr \<Rightarrow> u64 \<Rightarrow> (int \<times> ksys) exec" where
  "sys_close s q arg = do {
     let fd = int_arg arg;
     p \<leftarrow> procs s q;
     if \<not> validate_fd fd p then Some (ERR_INVAL, s)
     else do {
       s \<leftarrow> pipe_dec s (p_files p ! nat fd) fd;
       s \<leftarrow> fs_close_file s (p_files p ! nat fd);
       s \<leftarrow> set_fd q fd NULL s;
       Some (ERR_OK, s) } }"

text \<open>The file position is reached through the argument that was not cut to an \<open>int\<close>; outside the table that is a bad access.\<close>

definition sys_read :: "vm \<Rightarrow> ksys \<Rightarrow> ptr \<Rightarrow> u64 \<Rightarrow> u64 \<Rightarrow> u64 \<Rightarrow> (io_result \<times> ksys) exec" where
  "sys_read m s q arg buf cnt = do {
     let fd = int_arg arg;
     ok \<leftarrow> validate_bufptr m q buf cnt;
     if \<not> ok then Some (IoDone ERR_FAULT [], s)
     else do {
       p \<leftarrow> procs s q;
       if \<not> validate_fd fd p then Some (IoDone ERR_INVAL [], s)
       else do {
         kassert (unat arg < PROC_MAX_FILE);
         fs_read_file s (p_files p ! nat fd) (unat cnt) } } }"

definition sys_write :: "vm \<Rightarrow> (u64 \<Rightarrow> u8) \<Rightarrow> ksys \<Rightarrow> ptr \<Rightarrow> u64 \<Rightarrow> u64 \<Rightarrow> u64 \<Rightarrow> (io_result \<times> ksys) exec" where
  "sys_write m umem s q arg buf cnt = do {
     let fd = int_arg arg;
     ok \<leftarrow> validate_bufptr m q buf cnt;
     if \<not> ok then Some (IoDone ERR_FAULT [], s)
     else do {
       p \<leftarrow> procs s q;
       if \<not> validate_fd fd p then Some (IoDone ERR_INVAL [], s)
       else fs_write_file s (p_files p ! nat fd) (map (\<lambda>k. umem (buf + of_nat k)) [0..<unat cnt]) } }"

text \<open>The result has the type, the inode number and the size that are stored.\<close>

definition sys_fstat :: "vm \<Rightarrow> ksys \<Rightarrow> ptr \<Rightarrow> u64 \<Rightarrow> u64 \<Rightarrow> (int \<times> (u32 \<times> u32 \<times> u64) option) exec" where
  "sys_fstat m s q arg stat = do {
     let fd = int_arg arg;
     ok \<leftarrow> validate_bufptr m q stat 16;
     if \<not> ok then Some (ERR_FAULT, None)
     else do {
       p \<leftarrow> procs s q;
       if \<not> validate_fd fd p \<or> fd < 2 then Some (ERR_INVAL, None)
       else if p_files p ! nat fd = stdin_file \<or> p_files p ! nat fd = stdout_file then Some (ERR_INVAL, None)
       else do {
         kassert (unat arg < PROC_MAX_FILE);
         f \<leftarrow> ofiles s (p_files p ! nat fd);
         if f_inode f = NULL then Some (ERR_INVAL, None)
         else do {
           ino \<leftarrow> inodes (vfs s) (f_inode f);
           Some (ERR_OK, Some (i_ftype ino, i_inum ino, i_size ino)) } } } }"

definition sys_dup :: "ksys \<Rightarrow> ptr \<Rightarrow> u64 \<Rightarrow> (int \<times> ksys) exec" where
  "sys_dup s q arg = do {
     let fd = int_arg arg;
     p \<leftarrow> procs s q;
     if \<not> validate_fd fd p then Some (ERR_INVAL, s)
     else do {
       let i = alloc_fd p;
       if i = -1 then Some (ERR_NOMEM, s)
       else do {
         s \<leftarrow> pipe_inc s (p_files p ! nat fd) fd;
         s \<leftarrow> set_fd q i (p_files p ! nat fd) s;
         s \<leftarrow> fs_reopen_file s (p_files p ! nat fd);
         Some (i, s) } } }"

text \<open>The result has the two descriptors that are stored.  \<open>new_r\<close>, \<open>new_w\<close> and \<open>new_p\<close> are the answers of the allocators for the two files and the pipe.\<close>

definition sys_pipe :: "vm \<Rightarrow> ksys \<Rightarrow> ptr \<Rightarrow> u64 \<Rightarrow> u64 \<Rightarrow> ptr \<Rightarrow> ptr \<Rightarrow> ptr \<Rightarrow> (int \<times> (int \<times> int) option \<times> ksys) exec" where
  "sys_pipe m s q fds arg2 new_r new_w new_p = do {
     ok \<leftarrow> validate_bufptr m q fds 4;
     if \<not> ok then Some (ERR_FAULT, None, s)
     else do {
     ok \<leftarrow> validate_bufptr m q arg2 4;
     if \<not> ok then Some (ERR_FAULT, None, s)
     else do {
     p \<leftarrow> procs s q;
     let rfd = alloc_fd p;
     if rfd = -1 then Some (ERR_NOMEM, None, s)
     else do {
     let (rf, s) = fs_alloc_file s new_r;
     s \<leftarrow> set_fd q rfd rf s;
     if rf = NULL then Some (ERR_NOMEM, None, s)
     else do {
     f \<leftarrow> ofiles s rf;
     let s = set_file rf (f\<lparr>f_ref := 1, oflag := FS_RDONLY, f_inode := NULL, f_pos := 0\<rparr>) s;
     p \<leftarrow> procs s q;
     let wfd = alloc_fd p;
     if wfd = -1 then Some (ERR_NOMEM, None, s)
     else do {
     let (wf, s) = fs_alloc_file s new_w;
     s \<leftarrow> set_fd q wfd wf s;
     if wf = NULL then do { s \<leftarrow> fs_free_file s rf; Some (ERR_NOMEM, None, s) }
     else do {
     g \<leftarrow> ofiles s wf;
     let s = set_file wf (g\<lparr>f_ref := 1, oflag := FS_WRONLY, f_inode := NULL, f_pos := 0\<rparr>) s;
     (case kpipe_init (new_p \<noteq> NULL) rfd wfd of
        (err, None) \<Rightarrow> do { s \<leftarrow> fs_free_file s rf; s \<leftarrow> fs_free_file s wf; Some (ERR_NOMEM, None, s) }
      | (err, Some k) \<Rightarrow> do {
          let s = s\<lparr>pipes := (pipes s)(new_p := Some k)\<rparr>;
          g \<leftarrow> ofiles s wf;
          let s = set_file wf (g\<lparr>f_ops := Some Kpipe_ops, f_kpipe := new_p\<rparr>) s;
          f \<leftarrow> ofiles s rf;
          let s = set_file rf (f\<lparr>f_kpipe := new_p, f_ops := Some Kpipe_ops\<rparr>) s;
          Some (ERR_OK, Some (rfd, wfd), s) }) } } } } } } }"

section \<open>System calls on paths\<close>

definition with_path :: "vm \<Rightarrow> (u64 \<Rightarrow> u8) \<Rightarrow> ksys \<Rightarrow> ptr \<Rightarrow> u64 \<Rightarrow> (fs_sys \<Rightarrow> ptr option \<Rightarrow> u8 list \<Rightarrow> (err_t \<times> fs_sys) exec) \<Rightarrow> (int \<times> ksys) exec" where
  "with_path m umem s q a f = do {
     ok \<leftarrow> validate_str m q umem a;
     if \<not> ok then Some (ERR_FAULT, s)
     else do {
       p \<leftarrow> procs s q;
       path \<leftarrow> user_string umem a;
       (err, v) \<leftarrow> f (vfs s) (if p_cwd p = NULL then None else Some (p_cwd p)) path;
       Some (err, s\<lparr>vfs := v\<rparr>) } }"

definition sys_link :: "vm \<Rightarrow> (u64 \<Rightarrow> u8) \<Rightarrow> ksys \<Rightarrow> ptr \<Rightarrow> u64 \<Rightarrow> u64 \<Rightarrow> (int \<times> ksys) exec" where
  "sys_link m umem s q oldpath newpath = do {
     ok \<leftarrow> validate_str m q umem oldpath;
     if \<not> ok then Some (ERR_FAULT, s)
     else do {
       old \<leftarrow> user_string umem oldpath;
       with_path m umem s q newpath (\<lambda>v cwd path. fs_link v cwd old path) } }"

definition sys_unlink :: "vm \<Rightarrow> (u64 \<Rightarrow> u8) \<Rightarrow> ksys \<Rightarrow> ptr \<Rightarrow> u64 \<Rightarrow> (int \<times> ksys) exec" where
  "sys_unlink m umem s q pathname = with_path m umem s q pathname fs_unlink"

definition sys_mkdir :: "vm \<Rightarrow> (u64 \<Rightarrow> u8) \<Rightarrow> ksys \<Rightarrow> ptr \<Rightarrow> u64 \<Rightarrow> (int \<times> ksys) exec" where
  "sys_mkdir m umem s q pathname = with_path m umem s q pathname fs_mkdir"

definition sys_rmdir :: "vm \<Rightarrow> (u64 \<Rightarrow> u8) \<Rightarrow> ksys \<Rightarrow> ptr \<Rightarrow> u64 \<Rightarrow> (int \<times> ksys) exec" where
  "sys_rmdir m umem s q pathname = with_path m umem s q pathname fs_rmdir"

definition sys_chdir :: "vm \<Rightarrow> (u64 \<Rightarrow> u8) \<Rightarrow> ksys \<Rightarrow> ptr \<Rightarrow> u64 \<Rightarrow> (int \<times> ksys) exec" where
  "sys_chdir m umem s q a = do {
     ok \<leftarrow> validate_str m q umem a;
     if \<not> ok then Some (ERR_FAULT, s)
     else do {
       p \<leftarrow> procs s q;
       path \<leftarrow> user_string umem a;
       (err, ino, v) \<leftarrow> fs_find_inode (vfs s) (if p_cwd p = NULL then None else Some (p_cwd p)) path;
       if err \<noteq> ERR_OK then Some (err, s\<lparr>vfs := v\<rparr>)
       else do {
         kassert (p_cwd p \<noteq> NULL);
         v \<leftarrow> fs_release_inode v (p_cwd p);
         Some (ERR_OK, set_proc q (p\<lparr>p_cwd := ino\<rparr>) (s\<lparr>vfs := v\<rparr>)) } } }"

section \<open>Reference counts\<close>

text \<open>\<open>R\<close> has the descriptors, each as the file it refers to, and \<open>C\<close> the references to inodes that are not held by files.  A file is counted once by every
  descriptor, an inode once by every file, and the two counts of a pipe add up to the number of descriptors for its ends.\<close>

definition kpipe_of :: "ksys \<Rightarrow> ptr \<Rightarrow> ptr" where
  "kpipe_of s p = (case ofiles s p of None \<Rightarrow> NULL | Some f \<Rightarrow> f_kpipe f)"

definition ends :: "ksys \<Rightarrow> ptr multiset \<Rightarrow> ptr \<Rightarrow> nat" where
  "ends s R k = size (filter_mset (\<lambda>p. kpipe_of s p = k) R)"

definition inode_of :: "ofile \<Rightarrow> ptr multiset" where
  "inode_of f = (if f_inode f = NULL then {#} else {#f_inode f#})"

definition file_inodes :: "ksys \<Rightarrow> ptr multiset" where
  "file_inodes s = (\<Sum>p \<in> dom (ofiles s). inode_of (the (ofiles s p)))"

definition pipe_total :: "kpipe \<Rightarrow> u32" where
  "pipe_total k = ucast (readers k) + ucast (writers k)"

definition is_std :: "ptr \<Rightarrow> bool" where
  "is_std p \<longleftrightarrow> p = stdin_file \<or> p = stdout_file"

definition file_ok :: "ptr multiset \<Rightarrow> ksys \<Rightarrow> ptr \<Rightarrow> ofile \<Rightarrow> bool" where
  "file_ok R s p f \<longleftrightarrow> p \<noteq> NULL \<and> f_ref f = int (count R p) \<and> (0 < f_ref f \<or> is_std p) \<and> f_ops f \<noteq> None
     \<and> (f_ops f = Some Kpipe_ops \<longleftrightarrow> f_kpipe f \<noteq> NULL) \<and> (is_std p \<longrightarrow> f_inode f = NULL \<and> f_kpipe f = NULL)
     \<and> (f_kpipe f \<noteq> NULL \<longrightarrow> (\<exists>k. pipes s (f_kpipe f) = Some k \<and> pipe_total k = of_nat (ends s R (f_kpipe f))))"

definition files_inv :: "ptr multiset \<Rightarrow> ptr multiset \<Rightarrow> ksys \<Rightarrow> bool" where
  "files_inv C R s \<longleftrightarrow> finite (dom (ofiles s)) \<and> set_mset R \<subseteq> dom (ofiles s) \<and> size R < 2 ^ 31 \<and> (\<forall>p f. ofiles s p = Some f \<longrightarrow> file_ok R s p f)
     \<and> icache_ok {} (C + file_inodes s) (vfs s) \<and> inodes_agree (vfs s) \<and> news_ok (vfs s)"

lemma files_invD:
  assumes "files_inv C R s"
  shows "finite (dom (ofiles s))" "set_mset R \<subseteq> dom (ofiles s)" "size R < 2 ^ 31" "ofiles s p = Some f \<Longrightarrow> file_ok R s p f"
    "icache_ok {} (C + file_inodes s) (vfs s)" "inodes_agree (vfs s)" "news_ok (vfs s)"
  using assms by (auto simp: files_inv_def)

lemma set_file_simps [simp]:
  "ofiles (set_file p f s) q = (if q = p then Some f else ofiles s q)" "vfs (set_file p f s) = vfs s" "pipes (set_file p f s) = pipes s"
  "procs (set_file p f s) = procs s" "dom (ofiles (set_file p f s)) = insert p (dom (ofiles s))" "set_file p f (set_file p g s) = set_file p f s"
  by (auto simp: set_file_def)

lemma file_inodes_split:
  assumes "finite (dom (ofiles s))" "ofiles s p = Some f"
  shows "file_inodes s = inode_of f + (\<Sum>q \<in> dom (ofiles s) - {p}. inode_of (the (ofiles s q)))"
  unfolding file_inodes_def using assms by (subst sum.remove [of _ p]) auto

lemma file_inodes_set: "finite (dom (ofiles s)) \<Longrightarrow> ofiles s p = Some f \<Longrightarrow> f_inode g = f_inode f \<Longrightarrow> file_inodes (set_file p g s) = file_inodes s"
proof -
  assume a: "finite (dom (ofiles s))" "ofiles s p = Some f" "f_inode g = f_inode f"
  have "file_inodes (set_file p g s) = inode_of g + (\<Sum>q \<in> dom (ofiles s) - {p}. inode_of (the (ofiles (set_file p g s) q)))"
    using a file_inodes_split [of "set_file p g s" p g] by (simp add: insert_absorb domI)
  also have "(\<Sum>q \<in> dom (ofiles s) - {p}. inode_of (the (ofiles (set_file p g s) q))) = (\<Sum>q \<in> dom (ofiles s) - {p}. inode_of (the (ofiles s q)))"
    by (intro sum.cong) auto
  finally show ?thesis using file_inodes_split [OF a(1,2)] a(3) by (simp add: inode_of_def)
qed

lemma file_inodes_cong: "ofiles s' = ofiles s \<Longrightarrow> file_inodes s' = file_inodes s"
  by (simp add: file_inodes_def)

lemma ends_cong: "(\<And>p. p \<in># R \<Longrightarrow> kpipe_of s' p = kpipe_of s p) \<Longrightarrow> ends s' R k = ends s R k"
  unfolding ends_def by (intro arg_cong [where f = size] filter_mset_cong) auto

lemma ends_add: "ends s (add_mset p R) k = ends s R k + (if kpipe_of s p = k then 1 else 0)"
  by (simp add: ends_def)

lemma ends_le: "ends s R k \<le> size R"
  unfolding ends_def by (rule size_filter_mset_lesseq)

lemma ucast_scast: "ucast (scast (x :: u32) :: u64) = x"
proof (rule bit_word_eqI)
  fix n assume "n < LENGTH(32)"
  then show "bit (ucast (scast x :: u64) :: u32) n = bit x n" by (cases "n = 31") (auto simp: bit_simps min_def)
qed

lemma pipe_total_dec: "pipe_total (the (kpipe_ref_decrease (Some k) fd)) = pipe_total k - 1"
  by (simp add: pipe_total_def kpipe_ref_decrease_def ucast_scast algebra_simps)

lemma pipe_total_inc: "pipe_total (the (kpipe_ref_increase (Some k) fd)) = pipe_total k + 1"
  by (simp add: pipe_total_def kpipe_ref_increase_def ucast_scast algebra_simps)

text \<open>A pipe of which one end is counted up or down: that of the reader if the descriptor has the number of the first read descriptor, and otherwise that of the writer.\<close>

definition end_moved :: "u32 \<Rightarrow> int \<Rightarrow> kpipe \<Rightarrow> kpipe \<Rightarrow> bool" where
  "end_moved d fd k k' \<longleftrightarrow> buffer k' = buffer k \<and> read_ofs k' = read_ofs k \<and> write_ofs k' = write_ofs k \<and> fd_reader k' = fd_reader k \<and> fd_writer k' = fd_writer k
     \<and> (if fd = fd_reader k then ucast (readers k') = ucast (readers k) + d \<and> writers k' = writers k
        else ucast (writers k') = ucast (writers k) + d \<and> readers k' = readers k)"

lemma end_moved_dec: "end_moved (- 1) fd k (the (kpipe_ref_decrease (Some k) fd))"
  by (simp add: end_moved_def kpipe_ref_decrease_def ucast_scast)

lemma end_moved_inc: "end_moved 1 fd k (the (kpipe_ref_increase (Some k) fd))"
  by (simp add: end_moved_def kpipe_ref_increase_def ucast_scast)

text \<open>The count of the pipe behind a file.\<close>

lemma pipe_dec_ok:
  assumes "ofiles s p = Some f" "f_kpipe f \<noteq> NULL \<longrightarrow> pipes s (f_kpipe f) = Some k"
  shows "\<exists>s'. pipe_dec s p fd = Some s' \<and> ofiles s' = ofiles s \<and> vfs s' = vfs s \<and> procs s' = procs s
    \<and> (f_kpipe f = NULL \<longrightarrow> pipes s' = pipes s) \<and> (f_kpipe f \<noteq> NULL \<longrightarrow> (\<exists>k'. pipes s' = (pipes s)(f_kpipe f \<mapsto> k') \<and> pipe_total k' = pipe_total k - 1 \<and> end_moved (- 1) fd k k'))"
proof (cases "f_kpipe f = NULL")
  case True
  then show ?thesis using assms by (simp add: pipe_dec_def)
next
  case False
  obtain k' where "kpipe_ref_decrease (Some k) fd = Some k'" by (simp add: kpipe_ref_decrease_def)
  then show ?thesis using False assms pipe_total_dec [of k fd] end_moved_dec [of fd k] by (auto simp: pipe_dec_def)
qed

lemma pipe_inc_ok:
  assumes "ofiles s p = Some f" "f_kpipe f \<noteq> NULL \<longrightarrow> pipes s (f_kpipe f) = Some k"
  shows "\<exists>s'. pipe_inc s p fd = Some s' \<and> ofiles s' = ofiles s \<and> vfs s' = vfs s \<and> procs s' = procs s
    \<and> (f_kpipe f = NULL \<longrightarrow> pipes s' = pipes s) \<and> (f_kpipe f \<noteq> NULL \<longrightarrow> (\<exists>k'. pipes s' = (pipes s)(f_kpipe f \<mapsto> k') \<and> pipe_total k' = pipe_total k + 1 \<and> end_moved 1 fd k k'))"
proof (cases "f_kpipe f = NULL")
  case True
  then show ?thesis using assms by (simp add: pipe_inc_def)
next
  case False
  obtain k' where "kpipe_ref_increase (Some k) fd = Some k'" by (simp add: kpipe_ref_increase_def)
  then show ?thesis using False assms pipe_total_inc [of k fd] end_moved_inc [of fd k] by (auto simp: pipe_inc_def)
qed

lemma kpipe_of_set: "ofiles s p = Some f \<Longrightarrow> f_kpipe g = f_kpipe f \<Longrightarrow> kpipe_of (set_file p g s) = kpipe_of s"
  by (auto simp: kpipe_of_def fun_eq_iff)

lemma kpipe_of_cong: "ofiles s' = ofiles s \<Longrightarrow> kpipe_of s' = kpipe_of s"
  by (simp add: kpipe_of_def fun_eq_iff)

lemma ends_kpipe_cong: "kpipe_of s' = kpipe_of s \<Longrightarrow> ends s' R = ends s R"
  by (simp add: ends_def fun_eq_iff)

text \<open>Changing the count of one file by a descriptor more or less, with its pipe.\<close>

lemma files_inv_recount:
  assumes inv: "files_inv C R s" and f: "ofiles s p = Some f" and s1: "ofiles s1 = ofiles s" "vfs s1 = vfs s"
    and R': "\<And>q. q \<noteq> p \<Longrightarrow> count R' q = count R q" "size R' < 2 ^ 31"
    and pos: "0 < count R' p \<or> is_std p"
    and pp: "f_kpipe f = NULL \<longrightarrow> pipes s1 = pipes s"
      "f_kpipe f \<noteq> NULL \<longrightarrow> (\<exists>k. pipes s1 = (pipes s)(f_kpipe f \<mapsto> k) \<and> pipe_total k = of_nat (ends s R' (f_kpipe f)))"
  shows "files_inv C R' (set_file p (f\<lparr>f_ref := int (count R' p)\<rparr>) s1)" (is "files_inv C R' ?s")
proof -
  note i = files_invD [OF inv]
  have k: "kpipe_of ?s = kpipe_of s" using f s1 by (auto simp: kpipe_of_def fun_eq_iff)
  note e = ends_kpipe_cong [OF k]
  have oth: "ends s R' k = ends s R k" if "k \<noteq> f_kpipe f" for k
  proof -
    have kp: "kpipe_of s p \<noteq> k" using f that by (simp add: kpipe_of_def)
    have "filter_mset (\<lambda>q. kpipe_of s q = k) R' = filter_mset (\<lambda>q. kpipe_of s q = k) R"
    proof (rule multiset_eqI)
      fix x show "count (filter_mset (\<lambda>q. kpipe_of s q = k) R') x = count (filter_mset (\<lambda>q. kpipe_of s q = k) R) x"
        using R'(1) [of x] kp by (cases "x = p") auto
    qed
    then show ?thesis by (simp add: ends_def)
  qed
  have own: "\<exists>k. pipes ?s (f_kpipe f) = Some k \<and> pipe_total k = of_nat (ends s R' (f_kpipe f))" if "f_kpipe f \<noteq> NULL" using pp(2) that by auto
  have rest: "pipes ?s k = pipes s k" if "k \<noteq> f_kpipe f" for k using pp that by (cases "f_kpipe f = NULL") auto
  have "file_ok R' ?s q g" if g: "ofiles ?s q = Some g" for q g
  proof (cases "q = p")
    case True
    then have "g = f\<lparr>f_ref := int (count R' p)\<rparr>" using g by simp
    then show ?thesis using True i(4) [OF f] pos own unfolding file_ok_def e by simp
  next
    case False
    then have g': "ofiles s q = Some g" using g s1(1) by simp
    have c: "count R' q = count R q" using R'(1) False .
    show ?thesis
    proof (cases "f_kpipe g = f_kpipe f")
      case True
      then show ?thesis using i(4) [OF g'] own unfolding file_ok_def e c by auto
    next
      case d: False
      then show ?thesis using i(4) [OF g'] unfolding file_ok_def e c oth [OF d] rest [OF d] by auto
    qed
  qed
  moreover have "set_mset R' \<subseteq> insert p (dom (ofiles s))"
  proof
    fix q assume q: "q \<in># R'"
    show "q \<in> insert p (dom (ofiles s))"
    proof (cases "q = p")
      case False
      then have "q \<in># R" using q R'(1) [of q] by (simp add: count_greater_zero_iff [symmetric] del: count_greater_zero_iff)
      then show ?thesis using i(2) by blast
    qed simp
  qed
  moreover have "file_inodes ?s = file_inodes s" using file_inodes_set [of s1 p f] i(1) f s1 file_inodes_cong [of s1 s] by simp
  ultimately show ?thesis using i R'(2) s1 f by (auto simp: files_inv_def insert_absorb domI)
qed

text \<open>The pipe of a file moves and no other.\<close>

definition pipes_moved :: "u32 \<Rightarrow> int \<Rightarrow> ksys \<Rightarrow> ptr \<Rightarrow> ksys \<Rightarrow> bool" where
  "pipes_moved d fd s p s' \<longleftrightarrow> (if kpipe_of s p = NULL then pipes s' = pipes s
     else \<exists>k k'. pipes s (kpipe_of s p) = Some k \<and> end_moved d fd k k' \<and> pipes s' = (pipes s)(kpipe_of s p \<mapsto> k'))"

text \<open>A further descriptor for a file.\<close>

lemma add_ref_ok:
  assumes inv: "files_inv C R s" and p: "p \<in># R" and sz: "size R + 1 < 2 ^ 31"
  shows "\<exists>s1 s2. pipe_inc s p fd = Some s1 \<and> fs_reopen_file s1 p = Some s2 \<and> files_inv C (add_mset p R) s2 \<and> procs s1 = procs s \<and> procs s2 = procs s
    \<and> ofiles s1 = ofiles s \<and> vfs s2 = vfs s \<and> pipes_moved 1 fd s p s2"
proof -
  note i = files_invD [OF inv]
  obtain f where f: "ofiles s p = Some f" using i(2) p by blast
  note o = i(4) [OF f]
  obtain k where k: "f_kpipe f \<noteq> NULL \<Longrightarrow> pipes s (f_kpipe f) = Some k \<and> pipe_total k = of_nat (ends s R (f_kpipe f))" using o unfolding file_ok_def by blast
  have pk: "f_kpipe f \<noteq> NULL \<longrightarrow> pipes s (f_kpipe f) = Some k" using k by simp
  obtain s1 where s1: "pipe_inc s p fd = Some s1" "ofiles s1 = ofiles s" "vfs s1 = vfs s" "procs s1 = procs s" "f_kpipe f = NULL \<longrightarrow> pipes s1 = pipes s"
      "f_kpipe f \<noteq> NULL \<longrightarrow> (\<exists>k'. pipes s1 = (pipes s)(f_kpipe f \<mapsto> k') \<and> pipe_total k' = pipe_total k + 1 \<and> end_moved 1 fd k k')"
    using pipe_inc_ok [OF f pk, of fd] by (elim exE conjE) (rule that; assumption)
  have "ends s (add_mset p R) (f_kpipe f) = ends s R (f_kpipe f) + 1" using f by (simp add: ends_add kpipe_of_def)
  then have q: "f_kpipe f \<noteq> NULL \<longrightarrow> (\<exists>k'. pipes s1 = (pipes s)(f_kpipe f \<mapsto> k') \<and> pipe_total k' = of_nat (ends s (add_mset p R) (f_kpipe f)))"
    using s1(6) k by (auto simp: add.commute)
  have "files_inv C (add_mset p R) (set_file p (f\<lparr>f_ref := int (count (add_mset p R) p)\<rparr>) s1)"
    by (rule files_inv_recount [OF inv f s1(2,3) _ _ _ s1(5) q]) (use sz in simp_all)
  moreover have "fs_reopen_file s1 p = Some (set_file p (f\<lparr>f_ref := int (count (add_mset p R) p)\<rparr>) s1)"
    using f s1(2) o by (simp add: fs_reopen_file_def file_ok_def add.commute)
  moreover have "pipes_moved 1 fd s p (set_file p (f\<lparr>f_ref := int (count (add_mset p R) p)\<rparr>) s1)" using f k s1(5,6) by (auto simp: pipes_moved_def kpipe_of_def)
  ultimately show ?thesis using s1 by auto
qed

text \<open>The last descriptor of a file goes away with the file, and with the pipe if it was the last end.\<close>

definition closed_pipe :: "kpipe \<Rightarrow> kpipe option" where
  "closed_pipe k = (if writers k = 0 \<and> readers k = 0 then None else Some k)"

lemma fs_close_file_last:
  assumes "ofiles s p = Some f" "f_ref f = 1" "\<not> is_std p" "f_ops f = Some ops" "ops = Kpipe_ops \<longleftrightarrow> f_kpipe f \<noteq> NULL"
    "f_kpipe f \<noteq> NULL \<Longrightarrow> pipes s (f_kpipe f) = Some k" "(if f_inode f \<noteq> NULL then fs_release_inode (vfs s) (f_inode f) else Some (vfs s)) = Some v"
  shows "\<exists>s'. fs_close_file s p = Some s' \<and> ofiles s' = (ofiles s)(p := None) \<and> vfs s' = v \<and> procs s' = procs s
    \<and> pipes s' = (if f_kpipe f = NULL then pipes s else (pipes s)(f_kpipe f := closed_pipe k))"
  using assms by (auto simp: fs_close_file_def file_close_op_def fs_free_file_def kpipe_close_def closed_pipe_def is_std_def set_file_def fun_upd_idem Let_def)

lemma ends_pos: "q \<in># R \<Longrightarrow> 0 < ends s R (kpipe_of s q)"
  unfolding ends_def using count_filter_mset [of "\<lambda>p. kpipe_of s p = kpipe_of s q" R q] by (auto simp: size_eq_0_iff_empty intro!: gr0I)

lemma closed_pipe_open: "pipe_total k \<noteq> 0 \<Longrightarrow> closed_pipe k = Some k"
  by (auto simp: closed_pipe_def pipe_total_def)

lemma files_inv_remove:
  assumes inv: "files_inv C R s" and f: "ofiles s p = Some f" and one: "count R p = 1"
    and s': "ofiles s' = (ofiles s)(p := None)"
      "pipes s' = (if f_kpipe f = NULL then pipes s else (pipes s)(f_kpipe f := closed_pipe k))"
      "f_kpipe f \<noteq> NULL \<Longrightarrow> pipe_total k = of_nat (ends s (R - {#p#}) (f_kpipe f))"
    and v: "icache_ok {} (C + (file_inodes s - inode_of f)) (vfs s')" "inodes_agree (vfs s')" "news_ok (vfs s')"
  shows "files_inv C (R - {#p#}) s'"
proof -
  note i = files_invD [OF inv]
  let ?R = "R - {#p#}"
  have np: "p \<notin># ?R" using one by (simp add: in_diff_count)
  have sz: "size ?R < 2 ^ 31" using i(3) one by (simp add: size_Diff_singleton count_greater_zero_iff [symmetric] del: count_greater_zero_iff)
  have e: "ends s' ?R k = ends s ?R k" for k using np s'(1) by (intro ends_cong) (auto simp: kpipe_of_def)
  have oth: "ends s ?R k = ends s R k" if "k \<noteq> f_kpipe f" for k
    using ends_add [of s p ?R k] that f one by (simp add: kpipe_of_def count_greater_zero_iff [symmetric] del: count_greater_zero_iff)
  have "file_ok ?R s' q g" if g: "ofiles s' q = Some g" for q g
  proof -
    have q: "q \<noteq> p" "ofiles s q = Some g" using g s'(1) by (auto split: if_splits)
    have c: "count ?R q = count R q" using q(1) by simp
    have o: "file_ok R s q g" using i(4) [OF q(2)] .
    show ?thesis
    proof (cases "f_kpipe g = f_kpipe f \<and> f_kpipe f \<noteq> NULL")
      case True
      then have "q \<in># ?R" using o c unfolding file_ok_def by (auto simp: count_greater_zero_iff [symmetric] simp del: count_greater_zero_iff)
      then have "0 < ends s ?R (f_kpipe f)" using ends_pos [of q ?R s] q(2) True by (simp add: kpipe_of_def)
      moreover have "ends s ?R (f_kpipe f) < 2 ^ 32" using ends_le [of s ?R "f_kpipe f"] sz by simp
      ultimately have "pipe_total k \<noteq> 0" using s'(3) True by (simp add: word_of_nat_eq_0_iff nat_dvd_not_less)
      then show ?thesis using o True s'(2,3) unfolding file_ok_def e c by (auto simp: closed_pipe_open)
    next
      case False
      then have "f_kpipe g \<noteq> NULL \<Longrightarrow> ends s ?R (f_kpipe g) = ends s R (f_kpipe g) \<and> pipes s' (f_kpipe g) = pipes s (f_kpipe g)" using oth s'(2) by auto
      then show ?thesis using o unfolding file_ok_def e c by auto
    qed
  qed
  moreover have "set_mset ?R \<subseteq> dom (ofiles s')" using i(2) np s'(1) by (auto dest: in_diffD)
  moreover have "file_inodes s' = file_inodes s - inode_of f"
  proof -
    have "file_inodes s' = (\<Sum>q \<in> dom (ofiles s) - {p}. inode_of (the (ofiles s q)))" unfolding file_inodes_def using s'(1) by (intro sum.cong) auto
    then show ?thesis using file_inodes_split [OF i(1) f] by simp
  qed
  ultimately show ?thesis using i v s'(1) sz unfolding files_inv_def by simp
qed

lemma last_ref_ok:
  assumes inv: "files_inv C R s" and f: "ofiles s p = Some f" and one: "count R p = 1" "\<not> is_std p"
    and s1: "ofiles s1 = ofiles s" "vfs s1 = vfs s" "procs s1 = procs s" "f_kpipe f = NULL \<longrightarrow> pipes s1 = pipes s"
    and q: "f_kpipe f \<noteq> NULL \<longrightarrow> (\<exists>k. pipes s1 = (pipes s)(f_kpipe f \<mapsto> k) \<and> pipe_total k = of_nat (ends s (R - {#p#}) (f_kpipe f)))"
  shows "\<exists>s2. fs_close_file s1 p = Some s2 \<and> files_inv C (R - {#p#}) s2 \<and> procs s2 = procs s
    \<and> pipes s2 = (if f_kpipe f = NULL then pipes s1 else (pipes s1)(f_kpipe f := closed_pipe (the (pipes s1 (f_kpipe f)))))"
proof -
  note i = files_invD [OF inv]
  note o = i(4) [OF f, unfolded file_ok_def]
  obtain k where k: "f_kpipe f \<noteq> NULL \<longrightarrow> pipes s1 = (pipes s)(f_kpipe f \<mapsto> k) \<and> pipe_total k = of_nat (ends s (R - {#p#}) (f_kpipe f))" using q by blast
  obtain ops where ops: "f_ops f = Some ops" "ops = Kpipe_ops \<longleftrightarrow> f_kpipe f \<noteq> NULL" using o by auto
  have m: "inode_of f \<subseteq># file_inodes s" using file_inodes_split [OF i(1) f] by simp
  obtain v where v: "(if f_inode f \<noteq> NULL then fs_release_inode (vfs s1) (f_inode f) else Some (vfs s1)) = Some v"
      "icache_ok {} (C + (file_inodes s - inode_of f)) v" "inodes_agree v" "news_ok v"
  proof (cases "f_inode f = NULL")
    case True
    then show ?thesis using that [of "vfs s"] i s1(2) by (simp add: inode_of_def)
  next
    case False
    then have h: "f_inode f \<in># C + file_inodes s" using m by (simp add: inode_of_def)
    obtain v where "fs_release_inode (vfs s) (f_inode f) = Some v" "icache_ok {} (C + file_inodes s - {#f_inode f#}) v" "cache_step (vfs s) v"
      using release_ok [OF i(5) h _ i(6,7)] by auto
    then show ?thesis using that [of v] False m s1(2) by (simp add: inode_of_def cache_step_def)
  qed
  have "f_ref f = 1" using o one by simp
  then obtain s2 where s2: "fs_close_file s1 p = Some s2" "ofiles s2 = (ofiles s)(p := None)" "vfs s2 = v" "procs s2 = procs s"
      "pipes s2 = (if f_kpipe f = NULL then pipes s1 else (pipes s1)(f_kpipe f := closed_pipe k))"
    using fs_close_file_last [of s1 p f ops k v] f s1 one ops k v(1) by auto
  have "pipes s2 = (if f_kpipe f = NULL then pipes s else (pipes s)(f_kpipe f := closed_pipe k))" using s2(5) k s1(4) by auto
  then have "files_inv C (R - {#p#}) s2" using files_inv_remove [OF inv f one(1) s2(2)] k v s2(3) by simp
  then show ?thesis using s2 k by auto
qed

text \<open>The pipe of a file moves; with the last descriptor of the file it goes away if neither end is counted any more.\<close>

definition pipes_closed :: "bool \<Rightarrow> int \<Rightarrow> ksys \<Rightarrow> ptr \<Rightarrow> ksys \<Rightarrow> bool" where
  "pipes_closed last_fd fd s p s' \<longleftrightarrow> (if kpipe_of s p = NULL then pipes s' = pipes s
     else \<exists>k k'. pipes s (kpipe_of s p) = Some k \<and> end_moved (- 1) fd k k'
       \<and> pipes s' = (pipes s)(kpipe_of s p := if last_fd \<and> writers k' = 0 \<and> readers k' = 0 then None else Some k'))"

lemma pipes_closedI:
  assumes "ofiles s p = Some f" "f_kpipe f = NULL \<longrightarrow> pipes s' = pipes s"
    "f_kpipe f \<noteq> NULL \<longrightarrow> (\<exists>k k'. pipes s (f_kpipe f) = Some k \<and> end_moved (- 1) fd k k' \<and> pipes s' = (pipes s)(f_kpipe f := if l then closed_pipe k' else Some k'))"
  shows "pipes_closed l fd s p s'"
proof (cases "f_kpipe f = NULL")
  case False
  then obtain k k' where "pipes s (f_kpipe f) = Some k" "end_moved (- 1) fd k k'" "pipes s' = (pipes s)(f_kpipe f := if l then closed_pipe k' else Some k')"
    using assms(3) by blast
  then show ?thesis using assms(1) False unfolding pipes_closed_def kpipe_of_def closed_pipe_def by (simp only: option.case if_False) (intro exI conjI; auto)
qed (use assms in \<open>simp add: pipes_closed_def kpipe_of_def\<close>)

lemma pipes_cong: "pipes s2 = pipes s1 \<Longrightarrow> pipes_closed l fd s p s2 = pipes_closed l fd s p s1" "pipes s2 = pipes s1 \<Longrightarrow> pipes_moved d fd s p s2 = pipes_moved d fd s p s1"
  by (simp_all add: pipes_closed_def pipes_moved_def)

text \<open>A descriptor less for a file.\<close>

lemma drop_ref_ok:
  assumes inv: "files_inv C R s" and p: "p \<in># R"
  shows "\<exists>s1 s2. pipe_dec s p fd = Some s1 \<and> fs_close_file s1 p = Some s2 \<and> files_inv C (R - {#p#}) s2 \<and> procs s2 = procs s
    \<and> pipes_closed (count R p = 1 \<and> \<not> is_std p) fd s p s2"
proof -
  note i = files_invD [OF inv]
  obtain f where f: "ofiles s p = Some f" using i(2) p by blast
  note o = i(4) [OF f]
  obtain k where k: "f_kpipe f \<noteq> NULL \<Longrightarrow> pipes s (f_kpipe f) = Some k \<and> pipe_total k = of_nat (ends s R (f_kpipe f))" using o unfolding file_ok_def by blast
  have pk: "f_kpipe f \<noteq> NULL \<longrightarrow> pipes s (f_kpipe f) = Some k" using k by simp
  obtain s1 where s1: "pipe_dec s p fd = Some s1" "ofiles s1 = ofiles s" "vfs s1 = vfs s" "procs s1 = procs s" "f_kpipe f = NULL \<longrightarrow> pipes s1 = pipes s"
      "f_kpipe f \<noteq> NULL \<longrightarrow> (\<exists>k'. pipes s1 = (pipes s)(f_kpipe f \<mapsto> k') \<and> pipe_total k' = pipe_total k - 1 \<and> end_moved (- 1) fd k k')"
    using pipe_dec_ok [OF f pk, of fd] by (elim exE conjE) (rule that; assumption)
  let ?R = "R - {#p#}"
  have "ends s R (f_kpipe f) = ends s ?R (f_kpipe f) + 1" using f ends_add [of s p ?R] p by (simp add: kpipe_of_def)
  then have q: "f_kpipe f \<noteq> NULL \<longrightarrow> (\<exists>k'. pipes s1 = (pipes s)(f_kpipe f \<mapsto> k') \<and> pipe_total k' = of_nat (ends s ?R (f_kpipe f)))"
    using s1(6) k by auto
  have r: "f_ref f = int (count R p)" "0 < count R p" using o p by (simp_all add: file_ok_def)
  have sz: "size ?R < 2 ^ 31" using i(3) p by (simp add: size_Diff_singleton)
  show ?thesis
  proof (cases "1 < count R p \<or> is_std p")
    case True
    have "files_inv C ?R (set_file p (f\<lparr>f_ref := int (count ?R p)\<rparr>) s1)"
      by (rule files_inv_recount [OF inv f s1(2,3) _ sz _ s1(5) q]) (use True in auto)
    moreover have "fs_close_file s1 p = Some (set_file p (f\<lparr>f_ref := int (count ?R p)\<rparr>) s1)"
      using f s1(2) r True by (auto simp: fs_close_file_def Let_def is_std_def of_nat_diff)
    moreover have "pipes_closed (count R p = 1 \<and> \<not> is_std p) fd s p (set_file p (f\<lparr>f_ref := int (count ?R p)\<rparr>) s1)"
      
    proof (rule pipes_closedI [OF f]; intro impI)
      assume "f_kpipe f \<noteq> NULL"
      then obtain k' where "pipes s1 = (pipes s)(f_kpipe f \<mapsto> k')" "end_moved (- 1) fd k k'" using s1(6) by blast
      then show "\<exists>k k'. pipes s (f_kpipe f) = Some k \<and> end_moved (- 1) fd k k' \<and> pipes (set_file p (f\<lparr>f_ref := int (count ?R p)\<rparr>) s1) =
          (pipes s)(f_kpipe f := if count R p = 1 \<and> \<not> is_std p then closed_pipe k' else Some k')"
        using k \<open>f_kpipe f \<noteq> NULL\<close> True by (intro exI [of _ k] exI [of _ k']) auto
    qed (use s1(5) in simp)
    ultimately show ?thesis using s1 by auto
  next
    case False
    then have one: "count R p = 1" "\<not> is_std p" using r(2) by linarith+
    obtain s2 where s2: "fs_close_file s1 p = Some s2" "files_inv C ?R s2" "procs s2 = procs s"
        "pipes s2 = (if f_kpipe f = NULL then pipes s1 else (pipes s1)(f_kpipe f := closed_pipe (the (pipes s1 (f_kpipe f)))))"
      using last_ref_ok [OF inv f one s1(2-5) q] by blast
    have "pipes_closed (count R p = 1 \<and> \<not> is_std p) fd s p s2" 
    proof (rule pipes_closedI [OF f]; intro impI)
      assume "f_kpipe f \<noteq> NULL"
      then obtain k' where "pipes s1 = (pipes s)(f_kpipe f \<mapsto> k')" "end_moved (- 1) fd k k'" using s1(6) by blast
      then show "\<exists>k k'. pipes s (f_kpipe f) = Some k \<and> end_moved (- 1) fd k k' \<and> pipes s2 =
          (pipes s)(f_kpipe f := if count R p = 1 \<and> \<not> is_std p then closed_pipe k' else Some k')"
        using k \<open>f_kpipe f \<noteq> NULL\<close> one s2(4) by (intro exI [of _ k] exI [of _ k']) simp
    qed (use s1(5) s2(4) in simp)
    then show ?thesis using s1(1) s2(1-3) by blast
  qed
qed

section \<open>Tables of descriptors\<close>

definition ref_of :: "ptr \<Rightarrow> ptr multiset" where
  "ref_of f = (if f = NULL then {#} else {#f#})"

definition fd_refs :: "proc \<Rightarrow> ptr multiset" where
  "fd_refs p = filter_mset (\<lambda>f. f \<noteq> NULL) (mset (p_files p))"

definition descriptors :: "ksys \<Rightarrow> ptr multiset" where
  "descriptors s = (\<Sum>q \<in> dom (procs s). fd_refs (the (procs s q)))"

text \<open>The tables have their size, there are fewer than \<open>2 ^ 24\<close> processes, and all counts agree with the tables.  \<open>C\<close> has the references to inodes that are not
  held by files: those of the working directories and of the kernel.\<close>

definition fds_inv :: "ptr multiset \<Rightarrow> ksys \<Rightarrow> bool" where
  "fds_inv C s \<longleftrightarrow> finite (dom (procs s)) \<and> card (dom (procs s)) < 2 ^ 24 \<and> (\<forall>q p. procs s q = Some p \<longrightarrow> length (p_files p) = PROC_MAX_FILE)
     \<and> files_inv C (descriptors s) s"

lemma fds_invD:
  assumes "fds_inv C s"
  shows "finite (dom (procs s))" "card (dom (procs s)) < 2 ^ 24" "procs s q = Some p \<Longrightarrow> length (p_files p) = PROC_MAX_FILE" "files_inv C (descriptors s) s"
  using assms by (auto simp: fds_inv_def)

lemma set_proc_simps [simp]:
  "procs (set_proc q p s) r = (if r = q then Some p else procs s r)" "ofiles (set_proc q p s) = ofiles s" "pipes (set_proc q p s) = pipes s"
  "vfs (set_proc q p s) = vfs s" "dom (procs (set_proc q p s)) = insert q (dom (procs s))"
  by (auto simp: set_proc_def)

lemma descriptors_split: "finite (dom (procs s)) \<Longrightarrow> procs s q = Some p \<Longrightarrow> descriptors s = fd_refs p + (\<Sum>r \<in> dom (procs s) - {q}. fd_refs (the (procs s r)))"
  unfolding descriptors_def by (subst sum.remove [of _ q]) auto

lemma descriptors_set:
  assumes "finite (dom (procs s))" "procs s q = Some p"
  shows "descriptors (set_proc q p' s) + fd_refs p = descriptors s + fd_refs p'"
proof -
  have "(\<Sum>r \<in> dom (procs s) - {q}. fd_refs (the (procs (set_proc q p' s) r))) = (\<Sum>r \<in> dom (procs s) - {q}. fd_refs (the (procs s r)))"
    by (intro sum.cong) auto
  moreover have "descriptors (set_proc q p' s) = fd_refs p' + (\<Sum>r \<in> dom (procs s) - {q}. fd_refs (the (procs (set_proc q p' s) r)))"
    using assms descriptors_split [of "set_proc q p' s" q p'] by (simp add: insert_absorb domI)
  ultimately show ?thesis using descriptors_split [OF assms] by simp
qed

lemma fd_refs_update: "i < length (p_files p) \<Longrightarrow> fd_refs (p\<lparr>p_files := (p_files p)[i := f]\<rparr>) + ref_of (p_files p ! i) = fd_refs p + ref_of f"
proof -
  assume i: "i < length (p_files p)"
  then obtain M where M: "mset (p_files p) = add_mset (p_files p ! i) M" by (metis mset_add nth_mem_mset)
  then have "mset ((p_files p)[i := f]) = add_mset f M" using i by (simp add: mset_update)
  then show ?thesis using M by (simp add: fd_refs_def ref_of_def)
qed

lemma fd_in: "finite (dom (procs s)) \<Longrightarrow> procs s q = Some p \<Longrightarrow> i < length (p_files p) \<Longrightarrow> p_files p ! i \<noteq> NULL \<Longrightarrow> p_files p ! i \<in># descriptors s"
  by (subst descriptors_split [of s q p]) (auto simp: fd_refs_def)

lemma mset_balance: "D' + F = D + F' \<Longrightarrow> F' + a = F + b \<Longrightarrow> D' + a = D + (b :: 'a multiset)"
proof -
  assume a: "D' + F = D + F'" and b: "F' + a = F + b"
  have "D' + a + F = D' + F + a" by (simp add: ac_simps)
  also have "\<dots> = D + (F' + a)" by (simp add: a add.assoc)
  also have "\<dots> = D + b + F" by (simp add: b ac_simps)
  finally show ?thesis by simp
qed

text \<open>Writing one entry of a table.\<close>

lemma set_fd_ok:
  assumes inv: "finite (dom (procs s))" "\<forall>q p. procs s q = Some p \<longrightarrow> length (p_files p) = PROC_MAX_FILE" and p: "procs s q = Some p" and fd: "0 \<le> fd" "fd < int PROC_MAX_FILE"
  shows "\<exists>s'. set_fd q fd f s = Some s' \<and> s' = set_proc q (p\<lparr>p_files := (p_files p)[nat fd := f]\<rparr>) s
    \<and> descriptors s' + ref_of (p_files p ! nat fd) = descriptors s + ref_of f
    \<and> dom (procs s') = dom (procs s) \<and> (\<forall>q p. procs s' q = Some p \<longrightarrow> length (p_files p) = PROC_MAX_FILE)"
proof -
  let ?p = "p\<lparr>p_files := (p_files p)[nat fd := f]\<rparr>"
  have l: "nat fd < length (p_files p)" using inv(2) p fd by simp
  have "descriptors (set_proc q ?p s) + ref_of (p_files p ! nat fd) = descriptors s + ref_of f"
    using descriptors_set [OF inv(1) p, of ?p] fd_refs_update [OF l, of f] by (rule mset_balance)
  then show ?thesis using p fd inv(2) by (simp add: set_fd_def insert_absorb domI)
qed

lemma files_inv_set_proc: "files_inv C R (set_proc q p s) = files_inv C R s"
proof -
  have "kpipe_of (set_proc q p s) = kpipe_of s" by (rule kpipe_of_cong) simp
  note e = ends_kpipe_cong [OF this]
  have "file_ok R (set_proc q p s) = file_ok R s" by (intro ext) (simp add: file_ok_def e)
  then show ?thesis by (simp add: files_inv_def file_inodes_cong [of "set_proc q p s" s])
qed

lemma descriptors_cong: "procs s' = procs s \<Longrightarrow> descriptors s' = descriptors s"
  by (simp add: descriptors_def)

lemma descriptors_bound:
  assumes "finite (dom (procs s))" "card (dom (procs s)) < 2 ^ 24" "\<forall>q p. procs s q = Some p \<longrightarrow> length (p_files p) = PROC_MAX_FILE"
  shows "size (descriptors s) + 128 \<le> 2 ^ 31"
proof -
  have "size (fd_refs (the (procs s q))) \<le> 128" if "q \<in> dom (procs s)" for q
    using that assms(3) size_filter_mset_lesseq [of "\<lambda>f. f \<noteq> NULL" "mset (p_files (the (procs s q)))"] by (auto simp: fd_refs_def)
  then have "(\<Sum>q \<in> dom (procs s). size (fd_refs (the (procs s q)))) \<le> card (dom (procs s)) * 128" using sum_bounded_above [of "dom (procs s)" "\<lambda>q. size (fd_refs (the (procs s q)))" 128] by simp
  then show ?thesis using assms(1,2) by (simp add: descriptors_def size_multiset_sum)
qed

lemma fds_invI:
  assumes "fds_inv C s" "dom (procs s') = dom (procs s)" "\<forall>q p. procs s' q = Some p \<longrightarrow> length (p_files p) = PROC_MAX_FILE" "files_inv C (descriptors s') s'"
  shows "fds_inv C s'"
  using assms by (auto simp: fds_inv_def)

lemma alloc_fd_loop_spec:
  "if NULL \<in> set fs then \<exists>k < length fs. alloc_fd_loop fs i = i + int k \<and> fs ! k = NULL \<and> (\<forall>j < k. fs ! j \<noteq> NULL) else alloc_fd_loop fs i = -1"
proof (induction fs i rule: alloc_fd_loop.induct)
  case (2 f fs i)
  show ?case
  proof (cases "f = NULL \<or> NULL \<notin> set fs")
    case True
    then show ?thesis using 2 by (auto intro!: exI [of _ 0])
  next
    case False
    then obtain k where "k < length fs" "alloc_fd_loop fs (i + 1) = i + 1 + int k" "fs ! k = NULL" "\<forall>j < k. fs ! j \<noteq> NULL" using 2 by auto
    then show ?thesis using False by (auto simp: nth_Cons' intro!: exI [of _ "Suc k"])
  qed
qed simp

lemma alloc_fd_cases:
  obtains (full) "NULL \<notin> set (p_files p)" "alloc_fd p = -1"
  | (free) k where "k < length (p_files p)" "alloc_fd p = int k" "p_files p ! k = NULL" "\<forall>j < k. p_files p ! j \<noteq> NULL"
  using alloc_fd_loop_spec [of "p_files p" 0] that unfolding alloc_fd_def by (auto split: if_splits)

text \<open>C21. Closing a descriptor never stops the kernel when every file is counted once by each descriptor for it, every inode once by each holder, and the two counters of each
  pipe add up to the number of descriptors for its ends; all this holds again afterwards.  A valid descriptor becomes free.  If its file is a pipe, the counter that goes down is that of the
  readers if the descriptor has the number of the first read descriptor, and that of the writers otherwise; the pipe goes away exactly when the file goes and both counters are
  zero, and no other pipe changes.  Any other descriptor is an error that changes nothing.  The argument counts as an \<open>int\<close>.\<close>

theorem sys_close_counts:
  assumes inv: "fds_inv C s" and p: "procs s q = Some p"
  shows "\<exists>r s'. sys_close s q arg = Some (r, s') \<and> fds_inv C s'
    \<and> (if validate_fd (int_arg arg) p
       then r = ERR_OK \<and> descriptors s = add_mset (p_files p ! nat (int_arg arg)) (descriptors s') \<and> procs s' = (procs s)(q \<mapsto> p\<lparr>p_files := (p_files p)[nat (int_arg arg) := NULL]\<rparr>)
         \<and> pipes_closed (count (descriptors s) (p_files p ! nat (int_arg arg)) = 1 \<and> \<not> is_std (p_files p ! nat (int_arg arg))) (int_arg arg) s (p_files p ! nat (int_arg arg)) s'
       else r = ERR_INVAL \<and> s' = s)"
proof (cases "validate_fd (int_arg arg) p")
  case True
  let ?fd = "int_arg arg" and ?f = "p_files p ! nat (int_arg arg)"
  note i = fds_invD [OF inv]
  have fd: "0 \<le> ?fd" "?fd < int PROC_MAX_FILE" "?f \<noteq> NULL" using True by (auto simp: validate_fd_def split: if_splits)
  have m: "?f \<in># descriptors s" using fd_in [OF i(1) p] fd i(3) [OF p] by simp
  obtain s1 s2 where s2: "pipe_dec s ?f ?fd = Some s1" "fs_close_file s1 ?f = Some s2" "files_inv C (descriptors s - {#?f#}) s2" "procs s2 = procs s"
      "pipes_closed (count (descriptors s) ?f = 1 \<and> \<not> is_std ?f) ?fd s ?f s2"
    using drop_ref_ok [OF i(4) m, of ?fd] by blast
  obtain s3 where s3: "set_fd q ?fd NULL s2 = Some s3" "s3 = set_proc q (p\<lparr>p_files := (p_files p)[nat ?fd := NULL]\<rparr>) s2"
      "descriptors s3 + ref_of ?f = descriptors s2 + ref_of NULL" "dom (procs s3) = dom (procs s)" "\<forall>q p. procs s3 q = Some p \<longrightarrow> length (p_files p) = PROC_MAX_FILE"
    using set_fd_ok [of s2 q p ?fd NULL] i(1,3) p fd s2(4) by auto
  have d: "descriptors s = add_mset ?f (descriptors s3)" using s3(3) fd(3) descriptors_cong [OF s2(4)] by (simp add: ref_of_def)
  then have "files_inv C (descriptors s3) s3" using s2(3) s3(2) files_inv_set_proc by simp
  then have "fds_inv C s3" using fds_invI [OF inv s3(4,5)] by simp
  moreover have "procs s3 = (procs s)(q \<mapsto> p\<lparr>p_files := (p_files p)[nat ?fd := NULL]\<rparr>)" using s3(2) s2(4) by (simp add: set_proc_def)
  moreover have "pipes_closed (count (descriptors s) ?f = 1 \<and> \<not> is_std ?f) ?fd s ?f s3" using s2(5) s3(2) pipes_cong(1) [of s3 s2] by simp
  moreover have "sys_close s q arg = Some (ERR_OK, s3)" using True p s2(1,2) s3(1) by (simp add: sys_close_def Let_def)
  ultimately show ?thesis using True d by auto
qed (use inv p in \<open>simp add: sys_close_def Let_def\<close>)

text \<open>C22. Duplicating a descriptor never stops the kernel under the same conditions, which hold again afterwards.  The lowest free descriptor is returned and refers to the
  file, which is counted once more.  If the file is a pipe, the counter that goes up is that of the readers if the duplicated descriptor has the number of the first read
  descriptor, and that of the writers otherwise, and no other pipe changes.  Without a free descriptor, or for one that is not open, nothing changes.\<close>

theorem sys_dup_counts:
  assumes inv: "fds_inv C s" and p: "procs s q = Some p"
  shows "\<exists>r s'. sys_dup s q arg = Some (r, s') \<and> fds_inv C s'
    \<and> (if \<not> validate_fd (int_arg arg) p then r = ERR_INVAL \<and> s' = s
       else if NULL \<notin> set (p_files p) then r = ERR_NOMEM \<and> s' = s
       else \<exists>k < PROC_MAX_FILE. r = int k \<and> p_files p ! k = NULL \<and> (\<forall>j < k. p_files p ! j \<noteq> NULL)
         \<and> procs s' = (procs s)(q \<mapsto> p\<lparr>p_files := (p_files p)[k := p_files p ! nat (int_arg arg)]\<rparr>)
         \<and> descriptors s' = add_mset (p_files p ! nat (int_arg arg)) (descriptors s)
         \<and> pipes_moved 1 (int_arg arg) s (p_files p ! nat (int_arg arg)) s')"
proof (cases "validate_fd (int_arg arg) p")
  case True
  let ?fd = "int_arg arg" and ?f = "p_files p ! nat (int_arg arg)"
  note i = fds_invD [OF inv]
  have fd: "0 \<le> ?fd" "?fd < int PROC_MAX_FILE" "?f \<noteq> NULL" using True by (auto simp: validate_fd_def split: if_splits)
  show ?thesis
  proof (cases rule: alloc_fd_cases [of p])
    case full
    then show ?thesis using True inv p by (simp add: sys_dup_def Let_def)
  next
    case (free k)
    have m: "?f \<in># descriptors s" using fd_in [OF i(1) p] fd i(3) [OF p] by simp
    have sz: "size (descriptors s) + 1 < 2 ^ 31" using descriptors_bound [OF i(1,2)] i(3) by fastforce
    have k: "k < PROC_MAX_FILE" using free(1) i(3) [OF p] by simp
    let ?p = "p\<lparr>p_files := (p_files p)[k := ?f]\<rparr>"
    obtain s1 s2 where s2: "pipe_inc s ?f ?fd = Some s1" "fs_reopen_file s1 ?f = Some s2" "files_inv C (add_mset ?f (descriptors s)) s2" "procs s1 = procs s" "procs s2 = procs s"
        "ofiles s1 = ofiles s" "pipes_moved 1 ?fd s ?f s2"
      using add_ref_ok [OF i(4) m sz, of ?fd] by blast
    have d: "set_fd q (int k) ?f s1 = Some (set_proc q ?p s1)" using p k s2(4) by (simp add: set_fd_def)
    obtain s3 where s3: "s3 = set_proc q ?p s2" "descriptors s3 + ref_of (p_files p ! k) = descriptors s2 + ref_of ?f"
        "dom (procs s3) = dom (procs s)" "\<forall>q p. procs s3 q = Some p \<longrightarrow> length (p_files p) = PROC_MAX_FILE"
      using set_fd_ok [of s2 q p "int k" ?f] i(1,3) p k s2(5) by auto
    have e: "fs_reopen_file (set_proc q ?p s1) ?f = Some s3" using s2(2) s3(1) by (auto simp: fs_reopen_file_def set_proc_def set_file_def split: bind_splits)
    have n: "descriptors s3 = add_mset ?f (descriptors s)" using s3(2) free(3) fd(3) descriptors_cong [OF s2(5)] by (simp add: ref_of_def)
    then have "files_inv C (descriptors s3) s3" using s2(3) s3(1) files_inv_set_proc by simp
    then have "fds_inv C s3" using fds_invI [OF inv s3(3,4)] by simp
    moreover have "procs s3 = (procs s)(q \<mapsto> ?p)" using s3(1) s2(5) by (simp add: set_proc_def)
    moreover have "NULL \<in> set (p_files p)" using free(1,3) by (metis nth_mem)
    moreover have "sys_dup s q arg = Some (int k, s3)" using True p s2(1) d e free(2) by (simp add: sys_dup_def Let_def)
    moreover have "pipes_moved 1 ?fd s ?f s3" using s2(7) s3(1) pipes_cong(2) [of s3 s2] by simp
    ultimately show ?thesis using True free(3,4) k n by auto
  qed
qed (use inv p in \<open>simp add: sys_dup_def Let_def\<close>)

section \<open>Pipes\<close>

lemma int_arg_small: "n < PROC_MAX_FILE \<Longrightarrow> int_arg (of_nat n) = int n"
proof -
  assume n: "n < PROC_MAX_FILE"
  then have "unat (ucast (of_nat n :: u64) :: u32) = n" by (simp add: unsigned_ucast_eq take_bit_nat_eq_self unsigned_of_nat)
  then show ?thesis using n unfolding int_arg_def by (subst sint_small) simp_all
qed

lemma alloc_fd_eq: "k < length (p_files p) \<Longrightarrow> p_files p ! k = NULL \<Longrightarrow> \<forall>j < k. p_files p ! j \<noteq> NULL \<Longrightarrow> alloc_fd p = int k"
  by (rule alloc_fd_cases [of p]) (metis nth_mem, metis linorder_neqE_nat)

text \<open>The state of \<open>sys_pipe\<close> when it asks for the pipe: both files are in the table and have no operations yet.\<close>

definition pipe_end :: "u32 \<Rightarrow> file_ops option \<Rightarrow> ptr \<Rightarrow> ofile" where
  "pipe_end fl ops k = \<lparr>f_ref = 1, oflag = fl, f_inode = NULL, f_pos = 0, f_ops = ops, f_kpipe = k\<rparr>"

definition with_ends :: "ksys \<Rightarrow> ptr \<Rightarrow> proc \<Rightarrow> nat \<Rightarrow> nat \<Rightarrow> ptr \<Rightarrow> ptr \<Rightarrow> (ptr \<Rightarrow> ofile option) \<Rightarrow> ksys" where
  "with_ends s q p r w fr fw fs = s\<lparr>ofiles := fs, procs := (procs s)(q \<mapsto> p\<lparr>p_files := (p_files p)[r := fr, w := fw]\<rparr>)\<rparr>"

lemma sys_pipe_eval:
  assumes p: "procs s q = Some p" and l: "length (p_files p) = PROC_MAX_FILE"
    and v: "validate_bufptr m q fds 4 = Some True" "validate_bufptr m q arg2 4 = Some True"
    and new: "fr \<noteq> NULL" "fw \<noteq> NULL" "fr \<noteq> fw"
    and fd: "r < w" "w < PROC_MAX_FILE" "p_files p ! r = NULL" "p_files p ! w = NULL" "\<forall>j < w. j \<noteq> r \<longrightarrow> p_files p ! j \<noteq> NULL"
  shows "sys_pipe m s q fds arg2 fr fw k =
    (if k = NULL then Some (ERR_NOMEM, None, with_ends s q p r w fr fw ((ofiles s)(fr := None, fw := None)))
     else Some (ERR_OK, Some (int r, int w),
       (with_ends s q p r w fr fw ((ofiles s)(fr \<mapsto> pipe_end FS_RDONLY (Some Kpipe_ops) k, fw \<mapsto> pipe_end FS_WRONLY (Some Kpipe_ops) k)))
         \<lparr>pipes := (pipes s)(k := snd (kpipe_init True (int r) (int w)))\<rparr>))"
proof -
  have a: "alloc_fd p = int r" using fd l by (intro alloc_fd_eq) auto
  have b: "alloc_fd (p\<lparr>p_files := (p_files p)[r := fr]\<rparr>) = int w" using fd l new by (intro alloc_fd_eq) (auto simp: nth_list_update)
  show ?thesis
    using p v new fd(1,2) a b
    by (simp add: sys_pipe_def fs_alloc_file_def set_fd_def set_proc_def set_file_def fs_free_file_def kpipe_init_def kpipe_allocate_def with_ends_def pipe_end_def fun_upd_twist Let_def)
qed

lemma ends_none:
  assumes "files_inv C R s" "pipes s k = None" "k \<noteq> NULL"
  shows "ends s R k = 0" "ofiles s p = Some f \<Longrightarrow> f_kpipe f \<noteq> k"
proof -
  note i = files_invD [OF assms(1)]
  show n: "f_kpipe f \<noteq> k" if "ofiles s p = Some f" for p f using i(4) [OF that] assms(2,3) by (auto simp: file_ok_def)
  have "kpipe_of s p \<noteq> k" if "p \<in># R" for p using i(2) n that assms(3) by (auto simp: kpipe_of_def split: option.splits)
  then have "filter_mset (\<lambda>p. kpipe_of s p = k) R = {#}" by (intro multiset_eqI) (auto simp flip: not_in_iff)
  then show "ends s R k = 0" by (simp add: ends_def)
qed

lemma files_inv_pipe:
  assumes inv: "files_inv C R s" and new: "fr \<noteq> NULL" "fw \<noteq> NULL" "k \<noteq> NULL" "fr \<noteq> fw" "\<not> is_std fr" "\<not> is_std fw" "ofiles s fr = None" "ofiles s fw = None" "pipes s k = None"
    and sz: "size R + 2 < 2 ^ 31" and tot: "pipe_total pk = 2"
    and s': "ofiles s' = (ofiles s)(fr \<mapsto> pipe_end FS_RDONLY (Some Kpipe_ops) k, fw \<mapsto> pipe_end FS_WRONLY (Some Kpipe_ops) k)"
      "pipes s' = (pipes s)(k \<mapsto> pk)" "vfs s' = vfs s"
  shows "files_inv C (R + {#fr, fw#}) s'" (is "files_inv C ?R s'")
proof -
  note i = files_invD [OF inv] and z = ends_none [OF inv new(9,3)]
  have out: "fr \<notin># R" "fw \<notin># R" using i(2) new(7,8) by auto
  have ko: "kpipe_of s' p = (if p = fr \<or> p = fw then k else kpipe_of s p)" for p using s'(1) by (auto simp: kpipe_of_def pipe_end_def)
  have "ends s' R x = ends s R x" for x using out by (intro ends_cong) (auto simp: ko)
  then have e: "ends s' ?R x = ends s R x + (if x = k then 2 else 0)" for x by (simp add: ends_add ko)
  have "file_ok ?R s' q g" if g: "ofiles s' q = Some g" for q g
  proof (cases "q = fr \<or> q = fw")
    case True
    then have "count ?R q = 1" "f_ref g = 1" "f_ops g = Some Kpipe_ops" "f_kpipe g = k" "q \<noteq> NULL" "\<not> is_std q"
      using g s'(1) new out by (auto simp: pipe_end_def count_eq_zero_iff split: if_splits)
    then show ?thesis using tot new(3) s'(2) e [of k] z(1) by (simp add: file_ok_def)
  next
    case False
    then have o: "ofiles s q = Some g" "count ?R q = count R q" using g s'(1) by auto
    then have "f_kpipe g \<noteq> k" using z(2) by simp
    then show ?thesis using i(4) [OF o(1)] s'(2) unfolding file_ok_def o(2) e by auto
  qed
  moreover have "file_inodes s' = file_inodes s"
  proof -
    have "(\<Sum>p \<in> dom (ofiles s). inode_of (the (ofiles s' p))) = file_inodes s" unfolding file_inodes_def using s'(1) new(7,8) by (intro sum.cong) auto
    moreover have "dom (ofiles s') = insert fr (insert fw (dom (ofiles s)))" "fr \<notin> insert fw (dom (ofiles s))" "fw \<notin> dom (ofiles s)" using s'(1) new by auto
    moreover have "inode_of (the (ofiles s' fr)) = {#}" "inode_of (the (ofiles s' fw)) = {#}" using s'(1) by (auto simp: inode_of_def pipe_end_def)
    ultimately show ?thesis using i(1) by (simp add: file_inodes_def)
  qed
  moreover have "set_mset ?R \<subseteq> dom (ofiles s')" "finite (dom (ofiles s'))" using i(1,2) s'(1) by auto
  ultimately show ?thesis using i s'(3) sz by (simp add: files_inv_def)
qed

lemma descriptors_ends:
  assumes "finite (dom (procs s))" "procs s q = Some p" "r < w" "w < length (p_files p)" "p_files p ! r = NULL" "p_files p ! w = NULL" "fr \<noteq> NULL" "fw \<noteq> NULL"
  shows "descriptors (with_ends s q p r w fr fw fs) = descriptors s + {#fr, fw#}"
proof -
  let ?p = "p\<lparr>p_files := (p_files p)[r := fr, w := fw]\<rparr>"
  have "fd_refs (p\<lparr>p_files := (p_files p)[r := fr]\<rparr>) = fd_refs p + {#fr#}" using fd_refs_update [of r p fr] assms by (simp add: ref_of_def)
  moreover have "fd_refs ?p = fd_refs (p\<lparr>p_files := (p_files p)[r := fr]\<rparr>) + {#fw#}"
    using fd_refs_update [of w "p\<lparr>p_files := (p_files p)[r := fr]\<rparr>" fw] assms by (simp add: ref_of_def)
  moreover have "descriptors (with_ends s q p r w fr fw fs) = descriptors (set_proc q ?p s)" by (rule descriptors_cong) (simp add: with_ends_def set_proc_def)
  ultimately show ?thesis using descriptors_set [OF assms(1,2), of ?p] by (simp add: add.assoc [symmetric])
qed

text \<open>C23. A pipe of two fresh files takes the two lowest free descriptors, the first for reading and the second for writing, and the counts of files, pipes and inodes agree
  with the tables of descriptors afterwards.  The pipe is empty and has one reader and one writer.\<close>

theorem sys_pipe_counts:
  assumes inv: "fds_inv C s" and p: "procs s q = Some p"
    and v: "validate_bufptr m q fds 4 = Some True" "validate_bufptr m q arg2 4 = Some True"
    and new: "fr \<noteq> NULL" "fw \<noteq> NULL" "k \<noteq> NULL" "fr \<noteq> fw" "\<not> is_std fr" "\<not> is_std fw" "ofiles s fr = None" "ofiles s fw = None" "pipes s k = None"
    and fd: "r < w" "w < PROC_MAX_FILE" "p_files p ! r = NULL" "p_files p ! w = NULL" "\<forall>j < w. j \<noteq> r \<longrightarrow> p_files p ! j \<noteq> NULL"
  shows "\<exists>s' kp. sys_pipe m s q fds arg2 fr fw k = Some (ERR_OK, Some (int r, int w), s') \<and> fds_inv C s' \<and> descriptors s' = descriptors s + {#fr, fw#}
    \<and> procs s' = (procs s)(q \<mapsto> p\<lparr>p_files := (p_files p)[r := fr, w := fw]\<rparr>) \<and> vfs s' = vfs s
    \<and> pipes s' = (pipes s)(k \<mapsto> kp) \<and> contents kp = [] \<and> readers kp = 1 \<and> writers kp = 1 \<and> fd_reader kp = int r \<and> fd_writer kp = int w
    \<and> (\<exists>f g. ofiles s' = (ofiles s)(fr \<mapsto> f, fw \<mapsto> g) \<and> oflag f = FS_RDONLY \<and> oflag g = FS_WRONLY \<and> f_kpipe f = k \<and> f_kpipe g = k)"
proof -
  note i = fds_invD [OF inv]
  obtain pk where pk: "snd (kpipe_init True (int r) (int w)) = Some pk" "contents pk = []" "readers pk = 1" "writers pk = 1" "fd_reader pk = int r" "fd_writer pk = int w"
    by (simp add: kpipe_init_def kpipe_allocate_def contents_def used_def)
  let ?fs = "(ofiles s)(fr \<mapsto> pipe_end FS_RDONLY (Some Kpipe_ops) k, fw \<mapsto> pipe_end FS_WRONLY (Some Kpipe_ops) k)"
  let ?s = "(with_ends s q p r w fr fw ?fs)\<lparr>pipes := (pipes s)(k \<mapsto> pk)\<rparr>"
  have e: "sys_pipe m s q fds arg2 fr fw k = Some (ERR_OK, Some (int r, int w), ?s)"
    using sys_pipe_eval [OF p i(3) [OF p] v new(1,2,4) fd, of k] new(3) pk(1) by simp
  have d: "descriptors ?s = descriptors s + {#fr, fw#}"
    using descriptors_ends [OF i(1) p fd(1) _ fd(3,4) new(1,2)] i(3) [OF p] fd(2) descriptors_cong [of ?s "with_ends s q p r w fr fw ?fs"] by simp
  have sz: "size (descriptors s) + 2 < 2 ^ 31" using descriptors_bound [OF i(1,2)] i(3) by fastforce
  have "files_inv C (descriptors s + {#fr, fw#}) ?s"
    by (rule files_inv_pipe [OF i(4) new sz]) (simp_all add: with_ends_def pipe_total_def pk)
  then have "fds_inv C ?s"
    using d i(3) p by (intro fds_invI [OF inv]) (auto simp: with_ends_def insert_absorb domI)
  moreover have "\<exists>f g. ofiles ?s = (ofiles s)(fr \<mapsto> f, fw \<mapsto> g) \<and> oflag f = FS_RDONLY \<and> oflag g = FS_WRONLY \<and> f_kpipe f = k \<and> f_kpipe g = k"
    by (intro exI [of _ "pipe_end FS_RDONLY (Some Kpipe_ops) k"] exI [of _ "pipe_end FS_WRONLY (Some Kpipe_ops) k"] conjI) (simp add: with_ends_def, simp_all add: pipe_end_def)
  moreover have "procs ?s = (procs s)(q \<mapsto> p\<lparr>p_files := (p_files p)[r := fr, w := fw]\<rparr>)" "vfs ?s = vfs s" "pipes ?s = (pipes s)(k \<mapsto> pk)" by (simp_all add: with_ends_def)
  ultimately show ?thesis using e d pk(2-) by blast
qed

text \<open>C40. When there is no memory for the pipe, \<open>sys_pipe\<close> frees both files and leaves them in the table of descriptors.  The call reports the error, and closing one of the two
  descriptors, which are still valid, then works on a freed file.\<close>

theorem sys_pipe_dangling:
  assumes p: "procs s q = Some p" "length (p_files p) = PROC_MAX_FILE"
    and v: "validate_bufptr m q fds 4 = Some True" "validate_bufptr m q arg2 4 = Some True"
    and new: "fr \<noteq> NULL" "fw \<noteq> NULL" "fr \<noteq> fw"
    and fd: "r < w" "w < PROC_MAX_FILE" "p_files p ! r = NULL" "p_files p ! w = NULL" "\<forall>j < w. j \<noteq> r \<longrightarrow> p_files p ! j \<noteq> NULL"
  shows "\<exists>s' p'. sys_pipe m s q fds arg2 fr fw NULL = Some (ERR_NOMEM, None, s') \<and> procs s' q = Some p'
    \<and> validate_fd (int r) p' \<and> validate_fd (int w) p' \<and> sys_close s' q (of_nat r) = None \<and> sys_close s' q (of_nat w) = None"
proof -
  let ?p = "p\<lparr>p_files := (p_files p)[r := fr, w := fw]\<rparr>" and ?s = "with_ends s q p r w fr fw ((ofiles s)(fr := None, fw := None))"
  have f: "p_files ?p ! r = fr" "p_files ?p ! w = fw" using fd p(2) by simp_all
  have val: "validate_fd (int r) ?p" "validate_fd (int w) ?p" using f new fd by (simp_all add: validate_fd_def)
  have a: "int_arg (of_nat r) = int r" "int_arg (of_nat w) = int w" using fd(1,2) by (auto intro: int_arg_small)
  have "procs ?s q = Some ?p" "ofiles ?s fr = None" "ofiles ?s fw = None" by (simp_all add: with_ends_def)
  then have "sys_close ?s q (of_nat r) = None" "sys_close ?s q (of_nat w) = None" using val f by (simp_all add: sys_close_def a pipe_dec_def)
  then show ?thesis using sys_pipe_eval [OF p v new fd, of NULL] val \<open>procs ?s q = Some ?p\<close> by (intro exI [of _ ?s] exI [of _ ?p]) simp
qed

text \<open>C39. A descriptor made by \<open>dup\<close> from the read end of a pipe is counted as a writer when it is closed.  After \<open>dup\<close> and \<open>close\<close> the process has
  the descriptors it had, and a reader of the empty pipe that used to wait for the open writer now gets the end of the file.\<close>

theorem dup_close_eof:
  assumes inv: "fds_inv C s" and p: "procs s q = Some p" and r: "r < PROC_MAX_FILE" "p_files p ! r \<noteq> NULL" "NULL \<in> set (p_files p)"
    and f: "ofiles s (p_files p ! r) = Some f" "oflag f = FS_RDONLY" "f_ops f = Some Kpipe_ops" "f_kpipe f = k"
    and k: "pipes s k = Some pk" "fd_reader pk = int r" "writers pk = 1" "write_ofs pk = read_ofs pk"
  shows "\<exists>i s1 s2. sys_dup s q (of_nat r) = Some (i, s1) \<and> sys_close s1 q (of_int i) = Some (ERR_OK, s2) \<and> procs s2 = procs s
    \<and> fs_read_file s (p_files p ! r) n = Some (IoWait [] n, s) \<and> fs_read_file s2 (p_files p ! r) n = Some (IoDone 0 [], s2)"
proof -
  note i = fds_invD [OF inv]
  let ?f = "p_files p ! r"
  have o: "0 < f_ref f" "k \<noteq> NULL" using files_invD(4) [OF i(4) f(1)] f by (auto simp: file_ok_def)
  show ?thesis
  proof (cases rule: alloc_fd_cases [of p])
    case full
    then show ?thesis using r(3) by simp
  next
    case (free j)
    have j: "j < PROC_MAX_FILE" "j \<noteq> r" using free(1,3) r(2) i(3) [OF p] by auto
    have pid: "p\<lparr>p_files := (p_files p)[j := NULL]\<rparr> = p" using list_update_id [of "p_files p" j] free(3) by simp
    have a: "int_arg (of_nat r) = int r" "int_arg (of_nat j) = int j" using r(1) j(1) by (auto intro: int_arg_small)
    let ?p = "p\<lparr>p_files := (p_files p)[j := ?f]\<rparr>"
    obtain pk1 where k1: "kpipe_ref_increase (Some pk) (int r) = Some pk1" "fd_reader pk1 = int r" "writers pk1 = 1" "write_ofs pk1 = read_ofs pk1"
      using k by (simp add: kpipe_ref_increase_def)
    obtain pk2 where k2: "kpipe_ref_decrease (Some pk1) (int j) = Some pk2" "writers pk2 = 0" "write_ofs pk2 = read_ofs pk2"
      using k1 j(2) by (simp add: kpipe_ref_decrease_def)
    let ?s1 = "set_file ?f (f\<lparr>f_ref := f_ref f + 1\<rparr>) (set_proc q ?p (s\<lparr>pipes := (pipes s)(k \<mapsto> pk1)\<rparr>))"
    let ?s2 = "set_proc q p (set_file ?f f (?s1\<lparr>pipes := (pipes s)(k \<mapsto> pk2)\<rparr>))"
    have "sys_dup s q (of_nat r) = Some (int j, ?s1)"
      using p a r f k(1) k1(1) o(2) free(2) j(1) by (simp add: sys_dup_def Let_def validate_fd_def pipe_inc_def set_fd_def fs_reopen_file_def)
    moreover have "sys_close ?s1 q (of_int (int j)) = Some (ERR_OK, ?s2)"
      using a r(2) f k1 k2(1) o j free(1,3)
      by (simp add: sys_close_def Let_def validate_fd_def pipe_dec_def set_fd_def fs_close_file_def) (simp add: set_file_def set_proc_def pid)
    moreover have "procs ?s2 = procs s" using p by (auto simp: fun_eq_iff)
    moreover have "fs_read_file s ?f n = Some (IoWait [] n, s)" "fs_read_file ?s2 ?f n = Some (IoDone 0 [], ?s2)"
      using f k k2 by (simp_all add: fs_read_file_def kpipe_read_def fun_upd_idem)
    ultimately show ?thesis by blast
  qed
qed

section \<open>Concrete states\<close>

definition demo_file :: "file_ops \<Rightarrow> u32 \<Rightarrow> ptr \<Rightarrow> ofile" where
  "demo_file ops fl k = \<lparr>f_ref = 1, oflag = fl, f_inode = NULL, f_pos = 0, f_ops = Some ops, f_kpipe = k\<rparr>"

text \<open>A process with the console and both ends of a pipe.\<close>

definition demo_proc :: proc where
  "demo_proc = \<lparr>pid = 1, p_name = [], p_cwd = NULL, p_threads = [], p_children = [], p_files = [1, 2, 3, 4] @ replicate 124 NULL, exit_status = 0\<rparr>"

definition demo_ksys :: ksys where
  "demo_ksys = \<lparr>vfs = demo_fs,
     ofiles = [1 \<mapsto> demo_file Stdin_ops FS_RDONLY NULL, 2 \<mapsto> demo_file Stdout_ops FS_WRONLY NULL, 3 \<mapsto> demo_file Kpipe_ops FS_RDONLY 5, 4 \<mapsto> demo_file Kpipe_ops FS_WRONLY 5],
     pipes = [5 \<mapsto> the (snd (kpipe_init True 2 3))], cons = demo_console, procs = [100 \<mapsto> demo_proc]\<rparr>"

lemma demo_ksys_simps:
  "procs demo_ksys 100 = Some demo_proc" "descriptors demo_ksys = {#1, 2, 3, 4#}" "dom (procs demo_ksys) = {100}" "length (p_files demo_proc) = 128"
  by (simp_all add: demo_ksys_def descriptors_def fd_refs_def demo_proc_def)

lemma demo_ksys_inv: "fds_inv {#} demo_ksys"
proof -
  let ?R = "{#1, 2, 3, 4#} :: ptr multiset"
  have "ends demo_ksys ?R 5 = 2" by (simp add: ends_add demo_ksys_def demo_file_def kpipe_of_def) (simp add: ends_def)
  then have o: "file_ok ?R demo_ksys p f" if "ofiles demo_ksys p = Some f" for p f
    using that by (auto simp: demo_ksys_def demo_file_def file_ok_def is_std_def pipe_total_def kpipe_init_def kpipe_allocate_def split: if_splits)
  have d: "dom (ofiles demo_ksys) = {1, 2, 3, 4}" by (auto simp: demo_ksys_def)
  then have "file_inodes demo_ksys = {#}" unfolding file_inodes_def d by (simp add: demo_ksys_def demo_file_def inode_of_def)
  moreover have "fs_ok {} {#} 100 (vfs demo_ksys)" using demo_fs_ok by (simp add: demo_ksys_def)
  ultimately have "files_inv {#} ?R demo_ksys" using o d by (simp add: files_inv_def fs_ok_def)
  then show ?thesis using demo_ksys_simps by (auto simp: fds_inv_def split: if_splits) (auto simp: demo_ksys_def demo_proc_def split: if_splits)
qed

theorem sys_close_counts_witness:
  "\<exists>s'. sys_close demo_ksys 100 3 = Some (ERR_OK, s') \<and> fds_inv {#} s' \<and> {#1, 2, 3, 4#} = add_mset 4 (descriptors s')"
proof -
  have "int_arg 3 = 3" "validate_fd 3 demo_proc" "p_files demo_proc ! 3 = 4" by code_simp+
  then show ?thesis using sys_close_counts [OF demo_ksys_inv demo_ksys_simps(1), of 3] by (auto simp: demo_ksys_simps)
qed

theorem sys_dup_counts_witness:
  "\<exists>s' k. sys_dup demo_ksys 100 3 = Some (int k, s') \<and> fds_inv {#} s' \<and> descriptors s' = {#1, 2, 3, 4, 4#}"
proof -
  have "int_arg 3 = 3" "validate_fd 3 demo_proc" "p_files demo_proc ! 3 = 4" "NULL \<in> set (p_files demo_proc)" by code_simp+
  then show ?thesis using sys_dup_counts [OF demo_ksys_inv demo_ksys_simps(1), of 3] by (auto simp: demo_ksys_simps add_mset_commute)
qed

theorem dup_close_eof_witness:
  "\<exists>i s1 s2. sys_dup demo_ksys 100 2 = Some (i, s1) \<and> sys_close s1 100 (of_int i) = Some (ERR_OK, s2) \<and> fs_read_file s2 3 8 = Some (IoDone 0 [], s2)"
proof -
  have f: "p_files demo_proc ! 2 = 3" "NULL \<in> set (p_files demo_proc)" by code_simp+
  show ?thesis
    using dup_close_eof [OF demo_ksys_inv demo_ksys_simps(1), of 2 "demo_file Kpipe_ops FS_RDONLY 5" 5 "the (snd (kpipe_init True 2 3))" 8] f
    by (auto simp: demo_ksys_def demo_file_def kpipe_init_def kpipe_allocate_def)
qed

lemma demo_bufs: "validate_bufptr small_vm 100 0x2000 4 = Some True"
  by (simp add: validate_bufptr_def as_find_memregion_def small_vm_def small_region_def pg_round_up_def pg_size_def)

lemma demo_free: "p_files demo_proc ! 4 = NULL" "p_files demo_proc ! 5 = NULL" "\<forall>j < 5. j \<noteq> 4 \<longrightarrow> p_files demo_proc ! j \<noteq> NULL"
  by (simp_all add: demo_proc_def eval_nat_numeral nth_append less_Suc_eq)

lemma demo_fresh: "ofiles demo_ksys 6 = None" "ofiles demo_ksys 7 = None" "pipes demo_ksys 8 = None" "\<not> is_std 6" "\<not> is_std 7"
  by (simp_all add: demo_ksys_def is_std_def)

theorem sys_pipe_counts_witness:
  "\<exists>s' k. sys_pipe small_vm demo_ksys 100 0x2000 0x2000 6 7 8 = Some (ERR_OK, Some (4, 5), s') \<and> fds_inv {#} s' \<and> descriptors s' = {#1, 2, 3, 4, 6, 7#} \<and> pipes s' 8 = Some k \<and> writers k = 1"
  using sys_pipe_counts [OF demo_ksys_inv demo_ksys_simps(1) demo_bufs demo_bufs, of 6 7 8 4 5] demo_free demo_fresh by (auto simp: demo_ksys_simps)

theorem sys_pipe_dangling_witness:
  "\<exists>s'. sys_pipe small_vm demo_ksys 100 0x2000 0x2000 6 7 NULL = Some (ERR_NOMEM, None, s') \<and> sys_close s' 100 4 = None"
  using sys_pipe_dangling [OF demo_ksys_simps(1,4) demo_bufs demo_bufs, of 6 7 4 5] demo_free by auto

end
