(* ===== verification/Spec2Isabelle.thy ===== *)
theory Spec2Isabelle
  imports Klist Cstring Pipe Synch Page Pmem Vpmap Vm Shmms Shmlock Radix Trap Cow Refs Pgfault Asfork Kmalloc Sched Bcache Sfs Sfsdir Vfs Console Ustack Files
begin

text \<open>
  Verification of the osv teaching kernel for x86-64 with shared memory regions.

  \<^bold>\<open>The program and its parts.\<close>  The kernel has a physical memory allocator (a bitmap at boot, then a
  buddy allocator with reference counts), a slab allocator on top of it, four-level page tables, address spaces made of regions, named shared
  memory regions with a page cache in a radix tree, a page fault handler with copy-on-write and demand paging, pipes, spinlocks,
  sleeplocks and condition variables, threads with a multi-CPU scheduler, trap dispatch, a console, a file system over a block cache, and system calls on descriptors.  Fork copies an address space by
  sharing pages read-only; a later fault makes a private copy; a shared region is kept coherent by the page cache; the
  exit of a process destroys its address space and drops its references.

  \<^bold>\<open>Conventions.\<close>  A kernel function is a HOL function on an explicit state that returns \<open>'a exec\<close>, an
  option: \<open>None\<close> is a failed \<open>kassert\<close>, a panic or an access through a bad pointer, so that a theorem with a result
  \<open>Some\<close> also says that the kernel does not stop there.  Error codes are integers, machine words
  are words of their width, pointers to kernel structures are natural numbers with \<open>NULL = 0\<close>, structures are records in
  maps.  A section under a lock is one step; where interleavings matter there is a transition system over those steps, with
  sleeping as an outcome.  What an allocator answers is computed where its theory is below (pages, slabs) and an
  argument elsewhere.

  \<^bold>\<open>Theories.\<close>
  \<^item> \<open>Prelude\<close>: types, error codes, \<open>kassert\<close>, lemmas on words, lists and options.
  \<^item> \<open>Klist\<close> (\<^verbatim>\<open>kernel/list.c\<close>): circular lists over a heap of links refine HOL lists; later theories use
    HOL lists for them.
  \<^item> \<open>Cstring\<close> (\<^verbatim>\<open>lib/string.c\<close>, \<^verbatim>\<open>lib/bits.c\<close>, the argument loop of \<open>sys_spawn\<close>): memory and string functions over a
    byte memory.
  \<^item> \<open>Synch\<close> (\<^verbatim>\<open>kernel/synch.c\<close>, interrupt levels of \<^verbatim>\<open>arch/x86_64/kernel/trap.c\<close>): mutual exclusion of spinlocks at
    the granularity of memory accesses, sleeplocks without lost wake-ups.
  \<^item> \<open>Pipe\<close> (\<^verbatim>\<open>kernel/pipe.c\<close>): the ring buffer is a queue; over all interleavings of readers and writers the bytes delivered are a
    prefix of the bytes accepted.
  \<^item> \<open>Page\<close>, \<open>Pmem\<close> (\<^verbatim>\<open>kernel/mm/pmem.c\<close>): page arithmetic; the buddy invariant, allocation, freeing
    with merging, reference counts, and that start-up establishes the invariant.
  \<^item> \<open>Vpmap\<close> (\<^verbatim>\<open>arch/x86_64/kernel/mm/vpmap.c\<close>): page tables as a tree of frames that are allocated by \<open>Pmem\<close>; mapping, unmapping, permissions, copies.
    \<open>Cow\<close> proves the copy-on-write copy of a range, \<open>Unmap\<close> that destroying a table frees exactly its tables and its unshared frames.
    \<open>Refs\<close> counts the references that the pages of a table hold, through a copy and through unmapping a range.
  \<^item> \<open>Vm\<close> (\<^verbatim>\<open>kernel/mm/vm.c\<close>): regions and address spaces; sorted disjoint region lists, mapping at an address or
    anywhere.  \<open>Asfork\<close> composes them with shared memory: copying and destroying whole address spaces.  The copy is shown for
    every answer of the allocators, with what a failure leaves behind.
  \<^item> \<open>Radix\<close> (\<^verbatim>\<open>kernel/radix_tree.c\<close>), \<open>Trap\<close> (\<^verbatim>\<open>kernel/trap.c\<close>): the radix tree refines a finite map; the trap
    table calls what was registered.
  \<^item> \<open>Shmms\<close> (\<^verbatim>\<open>kernel/fs/shmms.c\<close>, \<^verbatim>\<open>kernel/mm/memstore.c\<close>), \<open>Shmlock\<close>: contexts, mappings and reference counts of shared
    regions; the region lock under all interleavings.
  \<^item> \<open>Pgfault\<close> (\<^verbatim>\<open>kernel/pgfault.c\<close>, \<^verbatim>\<open>kernel/mm/pgcache.c\<close>): the fault handler and the page cache.  Sequences of faults on shared
    regions are shown to agree on their frames; a demand fault is shown to fail only without memory.
  \<^item> \<open>Kmalloc\<close> (\<^verbatim>\<open>kernel/mm/kmalloc.c\<close>): slabs in buddy blocks; no two live objects overlap.
  \<^item> \<open>Sched\<close> (\<^verbatim>\<open>kernel/sched.c\<close>, \<^verbatim>\<open>kernel/thread.c\<close>, \<^verbatim>\<open>arch/x86_64/kernel/cpu.c\<close>): threads and the ready queue on several CPUs, with
    stacks from \<open>Pmem\<close> and structures from \<open>Kmalloc\<close>.
  \<^item> \<open>Bdev\<close>, \<open>Bcache\<close> (\<^verbatim>\<open>kernel/bdev.c\<close>, \<^verbatim>\<open>kernel/bdevms.c\<close>): the page-based block cache, the block store its clients rely on, and the
    proof that the cache implements the store.
  \<^item> \<open>Sfs\<close> (\<^verbatim>\<open>kernel/fs/sfs/sfs.c\<close>): bitmaps, inodes, the block map and the data of files over the block store.
  \<^item> \<open>Sfsdir\<close> (the directories of \<^verbatim>\<open>sfs.c\<close>): entering, finding, removing and listing names, creating inodes and links.
  \<^item> \<open>Vfs\<close> (\<^verbatim>\<open>kernel/fs/fs.c\<close>): the cache of in-memory inodes with its reference counts, path lookup, the operations on paths and the cleanup thread.
    A lookup is shown to give what walking along the components of the path gives on the disk, with every reference accounted for.
  \<^item> \<open>Bytes\<close>: little-endian numbers in sequences of bytes.  \<open>Console\<close> (\<^verbatim>\<open>kernel/console.c\<close>): formatted output and the line editor, whose ring buffer
    refines an editor on sequences.  \<open>Ustack\<close> (\<open>stack_setup\<close> of \<^verbatim>\<open>kernel/proc.c\<close>): the layout of the arguments on the first stack page.  The page is
    part of a memory that also has the addresses in front of it.
  \<^item> \<open>Files\<close> (open files of \<^verbatim>\<open>kernel/fs/fs.c\<close>, \<^verbatim>\<open>kernel/syscall.c\<close>): the system calls on descriptors and paths over \<open>Vfs\<close>, \<open>Pipe\<close> and \<open>Console\<close>.
    The counts of files, pipes and inodes are shown to agree with the tables of descriptors.

  \<^bold>\<open>What the theorems show.\<close>  Each component has an invariant that all its operations keep, and the behaviour of each operation
  on success and on every error.  Refinement theorems relate the optimised structures (circular
  lists, ring buffer, radix tree, block cache) to queues, maps and stores, and the address-space theorems compose the
  components: a copy of a space shares frames and counts them, a fault separates them again, destroying a space returns
  exactly what it held.  Transition systems give safety for all interleavings of spinlocks, sleeplocks, pipes, region locks
  and the scheduler.  Some theorems state what the code does where it departs from its documentation; they are named in
  the list of findings.

  \<^bold>\<open>Bounds and fuel.\<close>  Loops are structural or have a termination proof; loops that only end under an invariant are
  \<open>partial_function (option)\<close>, and the theorems show that they return.  Physical memory has fewer than \<open>2 ^ 39\<close> pages where
  page table entries are concerned, and fewer than \<open>2 ^ 19\<close> where objects are addressed through the kernel map, which is as far as that
  map reaches.

  \<^bold>\<open>Not modelled.\<close>  Device drivers (port input and output), boot code, interrupt controllers and descriptor tables
  (hardware set-up), the translation cache (a flush is the write of the table root), the journal (disabled when a file system is
  mounted), mounting and superblocks, creating, waiting for and ending processes, loading programs, the system calls for these, and user programs.
\<close>

end
